(* ===== verification/Prelude.thy ===== *)
theory Prelude
  imports Complex_Main "HOL-Library.Multiset" "HOL-Library.Char_ord" "HOL-Library.List_Lexorder"
begin

text \<open>
  The vocabulary the component theories share: results of code that may throw, reads of
  JavaScript arrays that may be out of range, JavaScript numbers, and the insertion-ordered
  JavaScript \<open>Map\<close>. It also declares the collections of simplification rules the component
  proofs are driven by.
\<close>

named_theorems result_simps \<open>rules for code that may throw\<close>
named_theorems jsmap_simps \<open>lookup equations of the insertion-ordered map\<close>

section \<open>Code that may throw\<close>

text \<open>
  A TypeScript function that may throw returns \<open>Inl e\<close> for the thrown error and \<open>Inr v\<close> for
  its value. \<open>bindR\<close> is sequencing: the rest is not evaluated after a throw.
\<close>

fun bindR :: "'e + 'a \<Rightarrow> ('a \<Rightarrow> 'e + 'b) \<Rightarrow> 'e + 'b" where
  "bindR (Inl e) f = Inl e"
| "bindR (Inr v) f = f v"

fun mapR :: "('a \<Rightarrow> 'b) \<Rightarrow> 'e + 'a \<Rightarrow> 'e + 'b" where
  "mapR f (Inl e) = Inl e"
| "mapR f (Inr v) = Inr (f v)"

definition is_ok :: "'e + 'a \<Rightarrow> bool" where
  "is_ok r = (case r of Inl _ \<Rightarrow> False | Inr _ \<Rightarrow> True)"

lemma bindR_Inr_iff [result_simps]:
  "bindR m f = Inr r \<longleftrightarrow> (\<exists>v. m = Inr v \<and> f v = Inr r)"
  by (cases m) auto

lemma bindR_Inl_iff [result_simps]:
  "bindR m f = Inl e \<longleftrightarrow> m = Inl e \<or> (\<exists>v. m = Inr v \<and> f v = Inl e)"
  by (cases m) auto

lemma mapR_Inr_iff [result_simps]: "mapR f m = Inr r \<longleftrightarrow> (\<exists>v. m = Inr v \<and> r = f v)"
  by (cases m) auto

lemma mapR_Inl_iff [result_simps]: "mapR f m = Inl e \<longleftrightarrow> m = Inl e"
  by (cases m) auto

lemma bindR_assoc: "bindR (bindR m f) g = bindR m (\<lambda>v. bindR (f v) g)"
  by (cases m) auto

lemma is_ok_simps [simp]: "is_ok (Inr v)" "\<not> is_ok (Inl e)"
  by (simp_all add: is_ok_def)

lemma is_ok_iff: "is_ok m \<longleftrightarrow> (\<exists>v. m = Inr v)"
  by (cases m) auto

lemma is_ok_bindR [simp]: "is_ok (bindR m f) \<longleftrightarrow> (\<exists>v. m = Inr v \<and> is_ok (f v))"
  by (cases m) auto

text \<open>\<open>value.map(f)\<close> for a callback that may throw: the first throw ends the traversal.\<close>

fun mapM :: "('a \<Rightarrow> 'e + 'b) \<Rightarrow> 'a list \<Rightarrow> 'e + 'b list" where
  "mapM f [] = Inr []"
| "mapM f (x # xs) = bindR (f x) (\<lambda>y. bindR (mapM f xs) (\<lambda>ys. Inr (y # ys)))"

lemma mapM_Inr_iff [result_simps]:
  "mapM f xs = Inr ys \<longleftrightarrow> list_all2 (\<lambda>x y. f x = Inr y) xs ys"
  by (induction xs arbitrary: ys) (auto simp: bindR_Inr_iff list_all2_Cons1)

lemma mapM_length: "mapM f xs = Inr ys \<Longrightarrow> length ys = length xs"
  by (auto simp: mapM_Inr_iff dest: list_all2_lengthD)

lemma mapM_all_ok: "(\<And>x. x \<in> set xs \<Longrightarrow> f x = Inr (g x)) \<Longrightarrow> mapM f xs = Inr (map g xs)"
  by (induction xs) auto

section \<open>Array reads\<close>

text \<open>\<open>xs[i]\<close> of JavaScript is \<open>undefined\<close> (here \<open>None\<close>) when the index is out of range.\<close>

definition elem_at :: "'a list \<Rightarrow> nat \<Rightarrow> 'a option" where
  "elem_at xs i = (if i < length xs then Some (xs ! i) else None)"

lemma elem_at_simps [simp]:
  "elem_at xs i = None \<longleftrightarrow> length xs \<le> i"
  "elem_at xs i = Some x \<longleftrightarrow> i < length xs \<and> xs ! i = x"
  by (auto simp: elem_at_def)

lemma elem_at_in_range: "i < length xs \<Longrightarrow> elem_at xs i = Some (xs ! i)"
  by simp

lemma elem_at_out_of_range: "length xs \<le> i \<Longrightarrow> elem_at xs i = None"
  by simp

text \<open>Absence from the first components of a list of pairs, entry by entry.\<close>

lemma notin_fst_iff: "a \<notin> fst ` set es \<longleftrightarrow> (\<forall>e \<in> set es. fst e \<noteq> a)"
  by force

section \<open>JavaScript numbers\<close>

text \<open>
  A double is one of the two infinities, not-a-number, or a finite (rational) value. The two
  zeros are one value: no modelled code tells them apart.
\<close>

datatype number = NaN | PosInfinity | NegInfinity | Finite rat

definition max_safe_integer :: int where
  "max_safe_integer = 2 ^ 53 - 1"

definition safe_int :: "int \<Rightarrow> bool" where
  "safe_int n \<longleftrightarrow> \<bar>n\<bar> \<le> max_safe_integer"

fun is_finite :: "number \<Rightarrow> bool" where
  "is_finite (Finite q) = True"
| "is_finite _ = False"

text \<open>\<open>Number.isSafeInteger\<close>: an integral value of magnitude at most \<open>2^53 - 1\<close>.\<close>

fun is_safe_integer :: "number \<Rightarrow> bool" where
  "is_safe_integer (Finite q) = (snd (quotient_of q) = 1 \<and> safe_int (fst (quotient_of q)))"
| "is_safe_integer _ = False"

text \<open>\<open><\<close> on numbers: false whenever an operand is \<open>NaN\<close>.\<close>

fun num_less :: "number \<Rightarrow> number \<Rightarrow> bool" where
  "num_less NaN y = False"
| "num_less x NaN = False"
| "num_less PosInfinity y = False"
| "num_less x PosInfinity = True"
| "num_less x NegInfinity = False"
| "num_less NegInfinity y = True"
| "num_less (Finite p) (Finite q) = (p < q)"

lemma num_less_irrefl [simp]: "\<not> num_less x x"
  by (cases x) auto

lemma num_less_trans: "num_less x y \<Longrightarrow> num_less y z \<Longrightarrow> num_less x z"
  by (cases x; cases y; cases z) auto

lemma num_less_total: "x \<noteq> NaN \<Longrightarrow> y \<noteq> NaN \<Longrightarrow> num_less x y \<or> x = y \<or> num_less y x"
  by (cases x; cases y) auto

lemma num_less_asym: "num_less x y \<Longrightarrow> \<not> num_less y x"
  using num_less_trans num_less_irrefl by blast

lemma num_NegInfinity_least: "x \<noteq> NaN \<Longrightarrow> \<not> num_less x NegInfinity"
  by (cases x) auto

lemma quotient_of_of_int [simp]: "quotient_of (of_int n) = (n, 1)"
  by (metis Fract_of_int_eq quotient_of_Fract normalize_denom_zero normalize_def
      quotient_of_int Rat.of_int_def)

section \<open>The insertion-ordered Map\<close>

text \<open>
  A JavaScript \<open>Map\<close> keeps its entries in the order their keys were first inserted;
  \<open>set\<close> on a present key replaces the value in place, and \<open>delete\<close> drops the entry.
\<close>

type_synonym ('k, 'v) jsmap = "('k \<times> 'v) list"

definition jm_get :: "('k, 'v) jsmap \<Rightarrow> 'k \<Rightarrow> 'v option" where
  "jm_get m k = map_of m k"

fun jm_set :: "('k, 'v) jsmap \<Rightarrow> 'k \<Rightarrow> 'v \<Rightarrow> ('k, 'v) jsmap" where
  "jm_set [] k v = [(k, v)]"
| "jm_set ((k', v') # m) k v = (if k' = k then (k', v) # m else (k', v') # jm_set m k v)"

definition jm_delete :: "('k, 'v) jsmap \<Rightarrow> 'k \<Rightarrow> ('k, 'v) jsmap" where
  "jm_delete m k = filter (\<lambda>e. fst e \<noteq> k) m"

definition jm_has :: "('k, 'v) jsmap \<Rightarrow> 'k \<Rightarrow> bool" where
  "jm_has m k = (jm_get m k \<noteq> None)"

abbreviation jm_size :: "('k, 'v) jsmap \<Rightarrow> nat" where
  "jm_size m \<equiv> length m"

abbreviation jm_keys :: "('k, 'v) jsmap \<Rightarrow> 'k list" where
  "jm_keys m \<equiv> map fst m"

text \<open>The representation invariant: no key occurs twice.\<close>

definition jm_ok :: "('k, 'v) jsmap \<Rightarrow> bool" where
  "jm_ok m = distinct (map fst m)"

lemma jm_get_Nil [simp]: "jm_get [] k = None"
  by (simp add: jm_get_def)

lemma jm_get_Cons [simp]: "jm_get ((k', v) # m) k = (if k' = k then Some v else jm_get m k)"
  by (simp add: jm_get_def)

lemma jm_get_set [jsmap_simps]: "jm_get (jm_set m k v) j = (if j = k then Some v else jm_get m j)"
  by (induction m k v rule: jm_set.induct) auto

lemma jm_get_delete [jsmap_simps]: "jm_get (jm_delete m k) j = (if j = k then None else jm_get m j)"
  by (induction m) (auto simp: jm_delete_def)

lemma jm_keys_set: "set (map fst (jm_set m k v)) = insert k (set (map fst m))"
  by (induction m k v rule: jm_set.induct) auto

lemma jm_ok_Nil [simp]: "jm_ok []"
  by (simp add: jm_ok_def)

lemma jm_ok_set [simp]: "jm_ok m \<Longrightarrow> jm_ok (jm_set m k v)"
proof (induction m k v rule: jm_set.induct)
  case (2 k' v' m k v)
  then show ?case
    using jm_keys_set [of m k v] by (auto simp: jm_ok_def)
qed (simp add: jm_ok_def)

lemma jm_ok_delete [simp]: "jm_ok m \<Longrightarrow> jm_ok (jm_delete m k)"
  by (auto simp: jm_ok_def jm_delete_def distinct_map_filter)

lemma jm_has_iff: "jm_has m k \<longleftrightarrow> k \<in> set (map fst m)"
  by (simp add: jm_has_def jm_get_def map_of_eq_None_iff)

lemma jm_get_None_iff: "jm_get m k = None \<longleftrightarrow> k \<notin> set (map fst m)"
  by (simp add: jm_get_def map_of_eq_None_iff)

lemma jm_get_Some_mem: "jm_get m k = Some v \<Longrightarrow> (k, v) \<in> set m"
  by (simp add: jm_get_def map_of_SomeD)

lemma jm_get_mem: "jm_ok m \<Longrightarrow> (k, v) \<in> set m \<Longrightarrow> jm_get m k = Some v"
  by (simp add: jm_ok_def jm_get_def)

lemma jm_set_fresh: "k \<notin> set (map fst m) \<Longrightarrow> jm_set m k v = m @ [(k, v)]"
  by (induction m k v rule: jm_set.induct) auto

lemma jm_size_set: "jm_size (jm_set m k v) = (if jm_has m k then jm_size m else Suc (jm_size m))"
  by (induction m k v rule: jm_set.induct) (auto simp: jm_has_def)

lemma jm_size_delete:
  "jm_ok m \<Longrightarrow> jm_size (jm_delete m k) = (if jm_has m k then jm_size m - 1 else jm_size m)"
proof (induction m)
  case (Cons e m)
  show ?case
  proof (cases "fst e = k")
    case True
    with Cons.prems have "k \<notin> set (map fst m)"
      by (auto simp: jm_ok_def)
    then have "jm_delete m k = m"
      by (auto simp: jm_delete_def filter_id_conv)
    with True show ?thesis
      by (cases e) (simp add: jm_delete_def jm_has_def)
  next
    case False
    with Cons have "jm_size (jm_delete m k) = (if jm_has m k then jm_size m - 1 else jm_size m)"
      by (simp add: jm_ok_def)
    moreover have "jm_has m k \<Longrightarrow> jm_size m > 0"
      by (cases m) (auto simp: jm_has_def)
    ultimately show ?thesis
      using False by (cases e) (auto simp: jm_delete_def jm_has_def)
  qed
qed (simp add: jm_delete_def jm_has_def)

text \<open>Storing a list of entries one after the other.\<close>

fun jm_of_list :: "('k, 'v) jsmap \<Rightarrow> ('k \<times> 'v) list \<Rightarrow> ('k, 'v) jsmap" where
  "jm_of_list m [] = m"
| "jm_of_list m (e # es) = jm_of_list (jm_set m (fst e) (snd e)) es"

lemma jm_of_list_distinct:
  "distinct (map fst (m @ es)) \<Longrightarrow> jm_of_list m es = m @ es"
  by (induction es arbitrary: m) (auto simp: jm_set_fresh)

lemma jm_keys_delete: "set (jm_keys (jm_delete m k)) = set (jm_keys m) - {k}"
  by (auto simp: jm_delete_def)

lemma jm_delete_absent: "jm_get m k = None \<Longrightarrow> jm_delete m k = m"
  by (auto simp: jm_delete_def jm_get_None_iff filter_id_conv)

lemma jm_size_deleted: "jm_ok m \<Longrightarrow> jm_get m k = Some v \<Longrightarrow> int (jm_size (jm_delete m k)) = int (jm_size m) - 1"
  using jm_size_delete [of m k] by (cases m) (auto simp: jm_has_def)

end
