(* ===== verification/RuntimeContext.thy ===== *)
theory RuntimeContext
  imports Prelude
begin

text \<open>
  The request context of \<open>src/runtime/context.ts\<close> and the errors of \<open>src/runtime/errors.ts\<close>.
  Abort signals are identities; the world records the clock (\<open>performance.now()\<close>, in
  milliseconds) and, for every signal, the reason it was aborted with, if it was.
\<close>

section \<open>Thrown values\<close>

text \<open>
  A thrown value is an \<open>Error\<close> object, compared by identity (its first component), with a name
  and a message, or a value that is not an \<open>Error\<close>, given by its \<open>String(value)\<close>.
\<close>

datatype thrown = ErrorObj nat string string | NonError string

fun error_name :: "thrown \<Rightarrow> string" where
  "error_name (ErrorObj i n m) = n"
| "error_name (NonError s) = ''''"

fun is_error :: "thrown \<Rightarrow> bool" where
  "is_error (ErrorObj i n m) = True"
| "is_error (NonError s) = False"

text \<open>\<open>errorFromUnknown\<close>: wraps what is not an error; \<open>i\<close> is the identity of the new object.\<close>

fun errorFromUnknown :: "nat \<Rightarrow> thrown \<Rightarrow> thrown" where
  "errorFromUnknown i (ErrorObj j n m) = ErrorObj j n m"
| "errorFromUnknown i (NonError s) = ErrorObj i ''Error'' s"

section \<open>Signals, contexts, cancellation\<close>

type_synonym signal = nat
type_synonym millis = rat

record world =
  clock :: millis
  abort_reason :: "signal \<Rightarrow> thrown option"
  next_error :: nat

text \<open>\<open>new Error(message)\<close> and its subclasses: an object with an identity of its own.\<close>

definition new_error :: "world \<Rightarrow> string \<Rightarrow> string \<Rightarrow> thrown" where
  "new_error w n m = ErrorObj (next_error w) n m"

definition signal_aborted :: "world \<Rightarrow> signal \<Rightarrow> bool" where
  "signal_aborted w s = (abort_reason w s \<noteq> None)"

record context_state =
  ctx_signal :: signal
  ctx_deadline :: "millis option"
  ctx_sampling :: bool

text \<open>\<open>Context.cancelled\<close>: the signal is aborted or the deadline has passed.\<close>

definition cancelled :: "world \<Rightarrow> 'b context_state_scheme \<Rightarrow> bool" where
  "cancelled w c \<longleftrightarrow> signal_aborted w (ctx_signal c) \<or>
     (case ctx_deadline c of None \<Rightarrow> False | Some d \<Rightarrow> d \<le> clock w)"

definition remainingMs :: "world \<Rightarrow> 'b context_state_scheme \<Rightarrow> millis option" where
  "remainingMs w c = map_option (\<lambda>d. max 0 (d - clock w)) (ctx_deadline c)"

definition isTaskCancellation :: "world \<Rightarrow> thrown \<Rightarrow> signal \<Rightarrow> bool" where
  "isTaskCancellation w v s \<longleftrightarrow>
     signal_aborted w s \<and> (abort_reason w s = Some v \<or> (is_error v \<and> error_name v = ''AbortError''))"

lemma cancelled_if_aborted: "signal_aborted w (ctx_signal c) \<Longrightarrow> cancelled w c"
  by (simp add: cancelled_def)

lemma remainingMs_nonneg: "remainingMs w c = Some r \<Longrightarrow> 0 \<le> r"
  by (auto simp: remainingMs_def)

lemma remainingMs_zero_iff: "remainingMs w c = Some 0 \<longleftrightarrow> (\<exists>d. ctx_deadline c = Some d \<and> d \<le> clock w)"
  by (auto simp: remainingMs_def max_def)

end
