(* ===== verification/PoolCore.thy ===== *)
theory PoolCore
  imports RuntimeContext
begin

text \<open>
  What the task pool (\<open>task-pool.ts\<close>) and the priority task pool (\<open>priority-task-pool.ts\<close>) have
  in common, with \<open>pool-support.ts\<close>, \<open>pool.ts\<close> and \<open>task-pool-metrics.ts\<close>. The two classes
  differ in the queue they keep: the bodies of \<open>pump\<close>, \<open>run\<close>, \<open>taskFinished\<close>,
  \<open>finishDrainIfIdle\<close>, \<open>start\<close>, \<open>resize\<close> and \<open>stop\<close> are the same text. They are stated
  here once over the operations of the queue, and the two pool theories instantiate them.
\<close>

section \<open>Pool support\<close>

text \<open>
  \<open>normalizeExecutorsCount\<close>: \<open>cores\<close> is \<open>os.availableParallelism()\<close> of the host, absent inside
  the workflow isolate.
\<close>

definition normalizeExecutorsCount :: "int option \<Rightarrow> number \<Rightarrow> string + int" where
  "normalizeExecutorsCount cores requested =
     (case requested of
        Finite q \<Rightarrow>
          if is_safe_integer requested \<and> \<not> fst (quotient_of q) < 0
          then Inr (if fst (quotient_of q) = 0
                    then (case cores of None \<Rightarrow> 1 | Some n \<Rightarrow> n)
                    else fst (quotient_of q))
          else Inl ''executorsCount must be a non-negative integer''
      | _ \<Rightarrow> Inl ''executorsCount must be a non-negative integer'')"

datatype pool_state = Created | Running | Stopping | Stopped

fun state_text :: "pool_state \<Rightarrow> string" where
  "state_text Created = ''created''"
| "state_text Running = ''running''"
| "state_text Stopping = ''stopping''"
| "state_text Stopped = ''stopped''"

text \<open>The instruments of \<open>TaskPoolMetrics\<close>: gauges, counters and the duration histogram.\<close>

record pool_metrics =
  queueLength :: int
  executorsTarget :: int
  executorsAllocated :: int
  executorsBusy :: int
  tasksTotal :: nat
  executionDuration :: "rat list"
  stopTimeout :: nat
  taskRejected :: nat
  taskCancelledOrExpired :: nat

definition registerTaskPoolMetrics :: pool_metrics where
  "registerTaskPoolMetrics =
     \<lparr>queueLength = 0, executorsTarget = 0, executorsAllocated = 0, executorsBusy = 0,
      tasksTotal = 0, executionDuration = [], stopTimeout = 0, taskRejected = 0,
      taskCancelledOrExpired = 0\<rparr>"

text \<open>
  \<open>makeTaskPoolMetrics\<close>: no instruments unless metrics are enabled and the service is known;
  \<open>enabled\<close> is \<open>options.metrics?.enabled()\<close>.
\<close>

definition makeTaskPoolMetrics :: "bool option \<Rightarrow> string option \<Rightarrow> pool_metrics option" where
  "makeTaskPoolMetrics enabled service =
     (if enabled \<noteq> Some True \<or> service = None then None else Some registerTaskPoolMetrics)"

section \<open>State\<close>

text \<open>
  A task object is identified by its index in \<open>tasks\<close>, where its context is kept.
  \<open>subscriptions\<close> is the table of \<open>subscribeAbort\<close> restricted to this pool's callbacks: for
  each signal the tasks whose \<open>cancel\<close> callback is registered, in registration order.
  \<open>microtasks\<close> are the \<open>run\<close> callbacks given to \<open>queueMicrotask\<close> and not yet run; \<open>running\<close>
  the tasks whose completion promise is pending, with their start time. \<open>drain\<close> is
  \<open>None\<close> while \<open>#drain\<close> is undefined, then whether its promise is resolved. \<open>errors\<close> logs the
  calls of \<open>onError\<close>; \<open>started\<close> and \<open>finished\<close> are histories, read by no operation.
\<close>

record 'q pool =
  pool_name :: string
  pool_queue :: 'q
  executorsCount :: int
  active :: int
  pool_state :: pool_state
  drain :: "bool option"
  metrics :: "pool_metrics option"
  tasks :: "context_state list"
  subscriptions :: "(signal, nat list) jsmap"
  microtasks :: "nat list"
  running :: "(nat \<times> millis) list"
  errors :: "(thrown \<times> nat) list"
  started :: "nat list"
  finished :: "nat list"

text \<open>The queue as the pool uses it.\<close>

record 'q queue_ops =
  q_pop :: "'q \<Rightarrow> 'q \<times> nat option"
  q_length :: "'q \<Rightarrow> nat"
  q_promote :: "'q \<Rightarrow> nat \<Rightarrow> 'q \<times> bool"

definition with_metrics :: "(pool_metrics \<Rightarrow> pool_metrics) \<Rightarrow> 'q pool \<Rightarrow> 'q pool" where
  "with_metrics f p = p\<lparr>metrics := map_option f (metrics p)\<rparr>"

definition new_pool :: "string \<Rightarrow> 'q \<Rightarrow> int \<Rightarrow> pool_metrics option \<Rightarrow> 'q pool" where
  "new_pool n q k m =
     \<lparr>pool_name = n, pool_queue = q, executorsCount = k, active = 0, pool_state = Created,
      drain = None, metrics = m, tasks = [], subscriptions = [], microtasks = [], running = [],
      errors = [], started = [], finished = []\<rparr>"

section \<open>Abort subscriptions\<close>

definition task_signal :: "'q pool \<Rightarrow> nat \<Rightarrow> signal" where
  "task_signal p t = ctx_signal (tasks p ! t)"

text \<open>The branch of \<open>subscribeAbort\<close> for a signal that is not aborted.\<close>

definition subscribe :: "'q pool \<Rightarrow> nat \<Rightarrow> 'q pool" where
  "subscribe p t =
     (case jm_get (subscriptions p) (task_signal p t) of
        None \<Rightarrow> p\<lparr>subscriptions := jm_set (subscriptions p) (task_signal p t) [t]\<rparr>
      | Some cbs \<Rightarrow>
          p\<lparr>subscriptions := jm_set (subscriptions p) (task_signal p t)
                (if t \<in> set cbs then cbs else cbs @ [t])\<rparr>)"

text \<open>The function \<open>subscribeAbort\<close> returns, kept as \<open>removeAbortListener\<close>.\<close>

definition removeAbortListener :: "'q pool \<Rightarrow> nat \<Rightarrow> 'q pool" where
  "removeAbortListener p t =
     (case jm_get (subscriptions p) (task_signal p t) of
        None \<Rightarrow> p
      | Some cbs \<Rightarrow>
          if removeAll t cbs = []
          then p\<lparr>subscriptions := jm_delete (subscriptions p) (task_signal p t)\<rparr>
          else p\<lparr>subscriptions := jm_set (subscriptions p) (task_signal p t) (removeAll t cbs)\<rparr>)"

section \<open>Dispatch\<close>

definition finishDrainIfIdle :: "'q queue_ops \<Rightarrow> 'q pool \<Rightarrow> 'q pool" where
  "finishDrainIfIdle ops p =
     (if pool_state p \<noteq> Stopping \<or> active p \<noteq> 0 \<or> q_length ops (pool_queue p) \<noteq> 0 then p
      else with_metrics (\<lambda>m. m\<lparr>executorsAllocated := 0\<rparr>)
             (p\<lparr>pool_state := Stopped, drain := map_option (\<lambda>_. True) (drain p)\<rparr>))"

text \<open>One iteration of the loop of \<open>pump\<close> for the task \<open>t\<close> taken from the queue.\<close>

definition dispatch :: "'q pool \<Rightarrow> nat \<Rightarrow> 'q pool" where
  "dispatch p t =
     (let p1 = removeAbortListener p t;
          p2 = with_metrics (\<lambda>m. m\<lparr>queueLength := queueLength m - 1\<rparr>) p1
      in p2\<lparr>active := active p2 + 1, microtasks := microtasks p2 @ [t], started := started p2 @ [t]\<rparr>)"

lemma dispatch_active [simp]: "active (dispatch p t) = active p + 1"
  by (simp add: dispatch_def Let_def with_metrics_def removeAbortListener_def split: option.split)

lemma dispatch_count [simp]: "executorsCount (dispatch p t) = executorsCount p"
  by (simp add: dispatch_def Let_def with_metrics_def removeAbortListener_def split: option.split)

function pump_loop :: "'q queue_ops \<Rightarrow> 'q pool \<Rightarrow> 'q pool" where
  "pump_loop ops p =
     (if active p < executorsCount p \<and> q_length ops (pool_queue p) > 0 then
        case q_pop ops (pool_queue p) of
          (q', None) \<Rightarrow> p\<lparr>pool_queue := q'\<rparr>
        | (q', Some t) \<Rightarrow> pump_loop ops (dispatch (p\<lparr>pool_queue := q'\<rparr>) t)
      else p)"
  by pat_completeness auto
termination
  by (relation "measure (\<lambda>(ops, p). nat (executorsCount p - active p))") auto

declare pump_loop.simps [simp del]

definition pump :: "'q queue_ops \<Rightarrow> 'q pool \<Rightarrow> 'q pool" where
  "pump ops p =
     (if pool_state p \<noteq> Running \<and> pool_state p \<noteq> Stopping then p
      else finishDrainIfIdle ops (pump_loop ops p))"

section \<open>Cancellation\<close>

text \<open>The \<open>cancel\<close> callback of a task.\<close>

definition cancel :: "'q queue_ops \<Rightarrow> 'q pool \<Rightarrow> nat \<Rightarrow> 'q pool" where
  "cancel ops p t =
     (case q_promote ops (pool_queue p) t of
        (q', moved) \<Rightarrow>
          (let p1 = p\<lparr>pool_queue := q'\<rparr>;
               p2 = (if moved
                     then with_metrics (\<lambda>m. m\<lparr>taskCancelledOrExpired := taskCancelledOrExpired m + 1\<rparr>) p1
                     else p1)
           in pump ops p2))"

text \<open>
  The listener of \<open>subscribeAbort\<close>: it calls the callbacks of the signal in order. The set is
  live: a callback that dispatches a later task removes that task's callback before its turn.
\<close>

fun notify_all :: "'q queue_ops \<Rightarrow> signal \<Rightarrow> 'q pool \<Rightarrow> nat list \<Rightarrow> 'q pool" where
  "notify_all ops s p [] = p"
| "notify_all ops s p (t # ts) =
     (case jm_get (subscriptions p) s of
        Some cbs \<Rightarrow> notify_all ops s (if t \<in> set cbs then cancel ops p t else p) ts
      | None \<Rightarrow> notify_all ops s p ts)"

definition abort_listener :: "'q queue_ops \<Rightarrow> signal \<Rightarrow> 'q pool \<Rightarrow> 'q pool" where
  "abort_listener ops s p =
     (case jm_get (subscriptions p) s of
        None \<Rightarrow> p
      | Some cbs \<Rightarrow>
          (let p' = notify_all ops s p cbs
           in p'\<lparr>subscriptions := jm_delete (subscriptions p') s\<rparr>))"

section \<open>Admission\<close>

definition reject :: "'q pool \<Rightarrow> 'q pool" where
  "reject p = with_metrics (\<lambda>m. m\<lparr>taskRejected := taskRejected m + 1\<rparr>) p"

text \<open>
  \<open>addTask\<close>: the pool after the call and the thrown value, if the call throws. \<open>push\<close> adds the
  new task object to the queue.
\<close>

definition addTask ::
  "'q queue_ops \<Rightarrow> ('q \<Rightarrow> nat \<Rightarrow> 'q) \<Rightarrow> world \<Rightarrow> 'q pool \<Rightarrow> context_state \<Rightarrow> 'q pool \<times> thrown option"
  where
  "addTask ops push w p c =
     (if cancelled w c then
        (reject p,
         Some (case abort_reason w (ctx_signal c) of
                 Some r \<Rightarrow> r
               | None \<Rightarrow> new_error w ''Error'' ''task context is cancelled''))
      else if pool_state p = Stopping \<or> pool_state p = Stopped then
        (reject p, Some (new_error w ''PoolStoppedError'' (''pool '' @ pool_name p @ '' is stopped'')))
      else
        (let t = length (tasks p);
             p1 = p\<lparr>tasks := tasks p @ [c]\<rparr>;
             p2 = (if signal_aborted w (ctx_signal c) then cancel ops p1 t else subscribe p1 t);
             p3 = p2\<lparr>pool_queue := push (pool_queue p2) t\<rparr>;
             p4 = with_metrics (\<lambda>m. m\<lparr>queueLength := queueLength m + 1\<rparr>) p3
         in (pump ops p4, None)))"

section \<open>Running and finishing\<close>

definition reportPoolError :: "world \<Rightarrow> 'q pool \<Rightarrow> thrown \<Rightarrow> nat \<Rightarrow> 'q pool" where
  "reportPoolError w p e t =
     (if isTaskCancellation w e (task_signal p t) then p
      else p\<lparr>errors := errors p @ [(e, t)]\<rparr>)"

definition taskFinished :: "'q queue_ops \<Rightarrow> world \<Rightarrow> 'q pool \<Rightarrow> nat \<Rightarrow> millis \<Rightarrow> 'q pool" where
  "taskFinished ops w p t began =
     (let p1 = with_metrics (\<lambda>m. m\<lparr>executorsBusy := executorsBusy m - 1, tasksTotal := tasksTotal m + 1,
                  executionDuration := executionDuration m @ [(clock w - began) / 1000]\<rparr>) p;
          p2 = p1\<lparr>active := active p1 - 1, finished := finished p1 @ [t]\<rparr>;
          p3 = with_metrics (\<lambda>m. m\<lparr>executorsAllocated := max (executorsCount p2) (active p2)\<rparr>) p2
      in pump ops p3)"

text \<open>What calling the task's \<open>execute\<close> does: it throws, or returns a completion to wait for.\<close>

datatype outcome = Threw thrown | Returned

text \<open>The first microtask: \<open>run\<close> of its task.\<close>

definition run_next :: "'q queue_ops \<Rightarrow> world \<Rightarrow> 'q pool \<Rightarrow> outcome \<Rightarrow> 'q pool" where
  "run_next ops w p result =
     (case microtasks p of
        [] \<Rightarrow> p
      | t # ts \<Rightarrow>
          (let p1 = with_metrics (\<lambda>m. m\<lparr>executorsBusy := executorsBusy m + 1\<rparr>) (p\<lparr>microtasks := ts\<rparr>)
           in case result of
                Threw e \<Rightarrow> taskFinished ops w (reportPoolError w p1 e t) t (clock w)
              | Returned \<Rightarrow> p1\<lparr>running := running p1 @ [(t, clock w)]\<rparr>))"

text \<open>The completion of a running task settles: fulfilled, or rejected with a value.\<close>

definition settle :: "'q queue_ops \<Rightarrow> world \<Rightarrow> 'q pool \<Rightarrow> nat \<Rightarrow> thrown option \<Rightarrow> 'q pool" where
  "settle ops w p t rejection =
     (case map_of (running p) t of
        None \<Rightarrow> p
      | Some began \<Rightarrow>
          (let p1 = p\<lparr>running := filter (\<lambda>r. fst r \<noteq> t) (running p)\<rparr>;
               p2 = (case rejection of None \<Rightarrow> p1 | Some e \<Rightarrow> reportPoolError w p1 e t)
           in taskFinished ops w p2 t began))"

section \<open>Lifecycle\<close>

definition start :: "'q queue_ops \<Rightarrow> 'q pool \<Rightarrow> string + 'q pool" where
  "start ops p =
     (if pool_state p \<noteq> Created
      then Inl (''pool '' @ pool_name p @ '' cannot start from '' @ state_text (pool_state p))
      else Inr (pump ops
             (with_metrics (\<lambda>m. m\<lparr>executorsTarget := executorsCount p,
                  executorsAllocated := max (executorsCount p) (active p)\<rparr>)
               (p\<lparr>pool_state := Running\<rparr>))))"

definition resize :: "'q queue_ops \<Rightarrow> int option \<Rightarrow> 'q pool \<Rightarrow> number \<Rightarrow> string + 'q pool" where
  "resize ops cores p requested =
     (if pool_state p = Stopping \<or> pool_state p = Stopped then Inr p
      else bindR (normalizeExecutorsCount cores requested) (\<lambda>n.
        (let p1 = p\<lparr>executorsCount := n\<rparr>;
             p2 = (if pool_state p = Running
                   then with_metrics (\<lambda>m. m\<lparr>executorsTarget := n, executorsAllocated := max n (active p1)\<rparr>) p1
                   else p1)
         in Inr (pump ops p2))))"

text \<open>
  The synchronous part of \<open>stop\<close>: the pool after the call and whether the call goes on to
  wait for the drain.
\<close>

definition stop :: "'q queue_ops \<Rightarrow> 'q pool \<Rightarrow> 'q pool \<times> bool" where
  "stop ops p =
     (if pool_state p = Stopped then (p, False)
      else
        (let p1 = (if drain p = None
                   then finishDrainIfIdle ops (pump ops (p\<lparr>pool_state := Stopping, drain := Some False\<rparr>))
                   else p)
         in (p1, \<not> (active p1 = 0 \<and> q_length ops (pool_queue p1) = 0))))"

text \<open>
  \<open>awaitPoolDrain\<close>, once the wait is over: \<open>settled\<close> is whether the drain was fulfilled before the
  context ended, \<open>budget\<close> the remaining time when the wait began. Unless the pool drained, the
  timeout callback of \<open>stop\<close> runs (\<open>stop_timed_out\<close>) and the call throws.
\<close>

datatype drain_result = Drained | RuntimeDrainTimeoutError millis | DrainFailed thrown

definition awaitPoolDrain ::
  "world \<Rightarrow> context_state \<Rightarrow> millis option \<Rightarrow> bool \<Rightarrow> drain_result" where
  "awaitPoolDrain w c budget settled =
     (if settled then Drained
      else if (case abort_reason w (ctx_signal c) of
                 Some r \<Rightarrow> error_name r = ''ContextDeadlineExceededError''
               | None \<Rightarrow> False) \<or>
              (\<not> cancelled w c \<and> remainingMs w c = Some 0)
      then RuntimeDrainTimeoutError (case budget of None \<Rightarrow> 0 | Some b \<Rightarrow> b)
      else DrainFailed (errorFromUnknown (next_error w)
             (case abort_reason w (ctx_signal c) of
                Some r \<Rightarrow> r
              | None \<Rightarrow> new_error w ''RuntimeStoppedError'' ''pool shutdown was cancelled'')))"

definition stop_timed_out :: "'q pool \<Rightarrow> 'q pool" where
  "stop_timed_out p = with_metrics (\<lambda>m. m\<lparr>stopTimeout := stopTimeout m + 1\<rparr>) p"

section \<open>Runs\<close>

text \<open>
  What can happen to a pool between two turns of its owner: a call of one of its methods, an
  abort of a signal, the next microtask, or the completion of a running task. \<open>AddTask\<close>
  carries what the pool's \<open>addTask\<close> takes beside the context and the body (nothing, or the priority).
\<close>

datatype 'a pool_event =
    AddTask 'a context_state
  | Start
  | Resize number
  | Stop
  | Abort signal
  | Microtask outcome
  | Completion nat "thrown option"

text \<open>One event in the world \<open>w\<close>. A call that throws has left the pool as it was.\<close>

fun pool_step ::
  "'q queue_ops \<Rightarrow> ('a \<Rightarrow> 'q \<Rightarrow> nat \<Rightarrow> 'q) \<Rightarrow> int option \<Rightarrow> 'q pool \<Rightarrow> world \<times> 'a pool_event \<Rightarrow> 'q pool" where
  "pool_step ops push cores p (w, AddTask a c) = fst (addTask ops (push a) w p c)"
| "pool_step ops push cores p (w, Start) = (case start ops p of Inl _ \<Rightarrow> p | Inr p' \<Rightarrow> p')"
| "pool_step ops push cores p (w, Resize n) = (case resize ops cores p n of Inl _ \<Rightarrow> p | Inr p' \<Rightarrow> p')"
| "pool_step ops push cores p (w, Stop) = fst (stop ops p)"
| "pool_step ops push cores p (w, Abort s) = abort_listener ops s p"
| "pool_step ops push cores p (w, Microtask r) = run_next ops w p r"
| "pool_step ops push cores p (w, Completion t r) = settle ops w p t r"

definition pool_run ::
  "'q queue_ops \<Rightarrow> ('a \<Rightarrow> 'q \<Rightarrow> nat \<Rightarrow> 'q) \<Rightarrow> int option \<Rightarrow> 'q pool \<Rightarrow> (world \<times> 'a pool_event) list \<Rightarrow> 'q pool" where
  "pool_run ops push cores p evs = foldl (pool_step ops push cores) p evs"

text \<open>An event by which the pool makes progress on the work it has accepted.\<close>

fun progress :: "'q pool \<Rightarrow> 'a pool_event \<Rightarrow> bool" where
  "progress p (Microtask r) = (microtasks p \<noteq> [])"
| "progress p (Completion t r) = (map_of (running p) t \<noteq> None)"
| "progress p _ = False"

fun progress_run ::
  "'q queue_ops \<Rightarrow> ('a \<Rightarrow> 'q \<Rightarrow> nat \<Rightarrow> 'q) \<Rightarrow> int option \<Rightarrow> 'q pool \<Rightarrow> (world \<times> 'a pool_event) list \<Rightarrow> bool" where
  "progress_run ops push cores p [] = True"
| "progress_run ops push cores p (e # evs) =
     (progress p (snd e) \<and> progress_run ops push cores (pool_step ops push cores p e) evs)"

section \<open>Frame lemmas\<close>

lemma with_metrics_fields [simp]:
  "pool_queue (with_metrics f p) = pool_queue p" "executorsCount (with_metrics f p) = executorsCount p"
  "active (with_metrics f p) = active p" "pool_state (with_metrics f p) = pool_state p"
  "drain (with_metrics f p) = drain p" "tasks (with_metrics f p) = tasks p"
  "microtasks (with_metrics f p) = microtasks p" "running (with_metrics f p) = running p"
  "finished (with_metrics f p) = finished p" "started (with_metrics f p) = started p"
  "subscriptions (with_metrics f p) = subscriptions p" "pool_name (with_metrics f p) = pool_name p"
  by (simp_all add: with_metrics_def)

lemma removeAbortListener_fields [simp]:
  "pool_queue (removeAbortListener p t) = pool_queue p"
  "executorsCount (removeAbortListener p t) = executorsCount p"
  "active (removeAbortListener p t) = active p" "pool_state (removeAbortListener p t) = pool_state p"
  "drain (removeAbortListener p t) = drain p" "tasks (removeAbortListener p t) = tasks p"
  "microtasks (removeAbortListener p t) = microtasks p"
  "running (removeAbortListener p t) = running p" "finished (removeAbortListener p t) = finished p"
  "started (removeAbortListener p t) = started p"
  by (simp_all add: removeAbortListener_def split: option.split)

lemma subscribe_fields [simp]:
  "pool_queue (subscribe p t) = pool_queue p" "executorsCount (subscribe p t) = executorsCount p"
  "active (subscribe p t) = active p" "pool_state (subscribe p t) = pool_state p"
  "drain (subscribe p t) = drain p" "tasks (subscribe p t) = tasks p"
  "microtasks (subscribe p t) = microtasks p" "running (subscribe p t) = running p"
  "finished (subscribe p t) = finished p" "started (subscribe p t) = started p"
  by (simp_all add: subscribe_def split: option.split)

lemma reportPoolError_fields [simp]:
  "pool_queue (reportPoolError w p e t) = pool_queue p"
  "executorsCount (reportPoolError w p e t) = executorsCount p"
  "active (reportPoolError w p e t) = active p" "pool_state (reportPoolError w p e t) = pool_state p"
  "drain (reportPoolError w p e t) = drain p" "tasks (reportPoolError w p e t) = tasks p"
  "microtasks (reportPoolError w p e t) = microtasks p"
  "running (reportPoolError w p e t) = running p" "finished (reportPoolError w p e t) = finished p"
  "started (reportPoolError w p e t) = started p"
  by (simp_all add: reportPoolError_def)

lemma dispatch_fields [simp]:
  "pool_queue (dispatch p t) = pool_queue p" "pool_state (dispatch p t) = pool_state p"
  "drain (dispatch p t) = drain p" "tasks (dispatch p t) = tasks p"
  "microtasks (dispatch p t) = microtasks p @ [t]" "running (dispatch p t) = running p"
  "finished (dispatch p t) = finished p" "started (dispatch p t) = started p @ [t]"
  by (simp_all add: dispatch_def Let_def)

lemma normalizeExecutorsCount_positive:
  assumes "normalizeExecutorsCount cores n = Inr k" and "\<forall>c. cores = Some c \<longrightarrow> 1 \<le> c"
  shows "1 \<le> k"
  using assms by (auto simp: normalizeExecutorsCount_def split: number.splits if_splits option.splits)

section \<open>Accounting\<close>

text \<open>
  Every accepted task is in exactly one place: queued, scheduled to run, running, or
  finished; \<open>active\<close> counts the scheduled and the running ones.
\<close>

definition accounted :: "('q \<Rightarrow> nat list) \<Rightarrow> ('q \<Rightarrow> bool) \<Rightarrow> 'q pool \<Rightarrow> bool" where
  "accounted contents ok p \<longleftrightarrow>
     ok (pool_queue p) \<and> 1 \<le> executorsCount p \<and>
     mset (contents (pool_queue p)) + mset (microtasks p) + mset (map fst (running p)) +
       mset (finished p) = mset [0..<length (tasks p)] \<and>
     active p = int (length (microtasks p) + length (running p))"

definition lifecycle_ok :: "('q \<Rightarrow> nat list) \<Rightarrow> 'q pool \<Rightarrow> bool" where
  "lifecycle_ok contents p \<longleftrightarrow>
     (pool_state p = Created \<longrightarrow> drain p = None \<and> active p = 0) \<and>
     (pool_state p = Running \<longrightarrow> drain p = None) \<and>
     (pool_state p = Stopping \<longrightarrow> drain p = Some False) \<and>
     (pool_state p = Stopped \<longrightarrow>
        drain p = Some True \<and> active p = 0 \<and> contents (pool_queue p) = [])"

text \<open>
  No executor idles while tasks wait, and a pool that is still stopping has work left.
\<close>

definition pumped :: "('q \<Rightarrow> nat list) \<Rightarrow> 'q pool \<Rightarrow> bool" where
  "pumped contents p \<longleftrightarrow>
     (pool_state p = Running \<or> pool_state p = Stopping \<longrightarrow>
        contents (pool_queue p) = [] \<or> executorsCount p \<le> active p) \<and>
     (pool_state p = Stopping \<longrightarrow> \<not> (contents (pool_queue p) = [] \<and> active p = 0))"

definition pool_inv :: "('q \<Rightarrow> nat list) \<Rightarrow> ('q \<Rightarrow> bool) \<Rightarrow> 'q pool \<Rightarrow> bool" where
  "pool_inv contents ok p \<longleftrightarrow> accounted contents ok p \<and> lifecycle_ok contents p \<and> pumped contents p"

text \<open>The contract of the queue, and what both pools owe to it.\<close>

locale pool_queue_contract =
  fixes ops :: "'q queue_ops"
    and contents :: "'q \<Rightarrow> nat list"
    and ok :: "'q \<Rightarrow> bool"
  assumes length_contents: "ok q \<Longrightarrow> q_length ops q = length (contents q)"
    and pop_first: "ok q \<Longrightarrow> contents q = t # ts \<Longrightarrow>
      \<exists>q'. q_pop ops q = (q', Some t) \<and> ok q' \<and> contents q' = ts"
    and promote_contents: "ok q \<Longrightarrow> ok (fst (q_promote ops q t)) \<and>
      mset (contents (fst (q_promote ops q t))) = mset (contents q)"
begin

lemma pop_contents:
  assumes "ok q" and "contents q \<noteq> []"
  shows "\<exists>q' t. q_pop ops q = (q', Some t) \<and> ok q' \<and> mset (contents q) = add_mset t (mset (contents q'))"
proof -
  obtain t ts where "contents q = t # ts" using assms(2) by (cases "contents q") auto
  with pop_first [OF assms(1)] show ?thesis by fastforce
qed

abbreviation acct :: "'q pool \<Rightarrow> bool" where
  "acct \<equiv> accounted contents ok"

abbreviation inv :: "'q pool \<Rightarrow> bool" where
  "inv \<equiv> pool_inv contents ok"

lemma inv_with_metrics [simp]: "inv (with_metrics f p) = inv p"
  by (simp add: pool_inv_def accounted_def lifecycle_ok_def pumped_def)

lemma dispatch_acct:
  assumes "acct p" and "mset (contents (pool_queue p)) = add_mset t (mset (contents q'))" and "ok q'"
  shows "acct (dispatch (p\<lparr>pool_queue := q'\<rparr>) t)"
  using assms by (simp add: accounted_def)

lemma pump_loop_spec:
  assumes "acct p"
  shows "acct (pump_loop ops p) \<and> pool_state (pump_loop ops p) = pool_state p \<and>
    drain (pump_loop ops p) = drain p \<and> executorsCount (pump_loop ops p) = executorsCount p \<and>
    tasks (pump_loop ops p) = tasks p \<and> finished (pump_loop ops p) = finished p \<and>
    running (pump_loop ops p) = running p \<and>
    active (pump_loop ops p) \<le> max (active p) (executorsCount p) \<and> active p \<le> active (pump_loop ops p) \<and>
    (contents (pool_queue (pump_loop ops p)) = [] \<or> executorsCount p \<le> active (pump_loop ops p))"
  using assms
proof (induction "nat (executorsCount p - active p)" arbitrary: p rule: less_induct)
  case less
  let ?q = "pool_queue p"
  have q: "ok ?q" using less.prems by (simp add: accounted_def)
  show ?case
  proof (cases "active p < executorsCount p \<and> contents ?q \<noteq> []")
    case False
    then have "pump_loop ops p = p"
      using length_contents [OF q] by (auto simp: pump_loop.simps [of ops p])
    with False less.prems show ?thesis by auto
  next
    case True
    then obtain q' t where pop: "q_pop ops ?q = (q', Some t)" "ok q'"
      "mset (contents ?q) = add_mset t (mset (contents q'))"
      using pop_contents [OF q] by blast
    let ?p = "dispatch (p\<lparr>pool_queue := q'\<rparr>) t"
    have eq: "pump_loop ops p = pump_loop ops ?p"
      using True pop(1) length_contents [OF q] by (simp add: pump_loop.simps [of ops p])
    have "acct ?p" by (rule dispatch_acct [OF less.prems pop(3,2)])
    then show ?thesis
      using less.hyps [of ?p] True unfolding eq by auto
  qed
qed

lemma finishDrain_spec:
  assumes "acct p" and "pool_state p = Running \<or> pool_state p = Stopping" and "lifecycle_ok contents p"
    and "contents (pool_queue p) = [] \<or> executorsCount p \<le> active p"
  shows "inv (finishDrainIfIdle ops p)"
  using assms length_contents [of "pool_queue p"]
  by (auto simp: finishDrainIfIdle_def pool_inv_def accounted_def lifecycle_ok_def pumped_def)

lemma finishDrain_fields [simp]:
  "tasks (finishDrainIfIdle ops p) = tasks p" "active (finishDrainIfIdle ops p) = active p"
  "executorsCount (finishDrainIfIdle ops p) = executorsCount p"
  "pool_queue (finishDrainIfIdle ops p) = pool_queue p" "finished (finishDrainIfIdle ops p) = finished p"
  "microtasks (finishDrainIfIdle ops p) = microtasks p" "running (finishDrainIfIdle ops p) = running p"
  by (simp_all add: finishDrainIfIdle_def)

lemma pump_inv:
  assumes "acct p" and "lifecycle_ok contents p"
  shows "inv (pump ops p)"
proof (cases "pool_state p = Running \<or> pool_state p = Stopping")
  case True
  note loop = pump_loop_spec [OF assms(1)]
  have "lifecycle_ok contents (pump_loop ops p)"
    using assms(2) loop True by (auto simp: lifecycle_ok_def)
  then show ?thesis
    using True loop finishDrain_spec [of "pump_loop ops p"] by (auto simp: pump_def)
next
  case False
  then have "pump ops p = p" by (simp add: pump_def)
  with False assms show ?thesis by (simp add: pool_inv_def pumped_def)
qed

lemma pump_bound:
  assumes "acct p"
  shows "active (pump ops p) \<le> max (active p) (executorsCount p)"
    and "executorsCount (pump ops p) = executorsCount p" and "tasks (pump ops p) = tasks p"
    and "finished (pump ops p) = finished p" and "active p \<le> active (pump ops p)"
    and "running (pump ops p) = running p"
  using pump_loop_spec [OF assms] by (auto simp: pump_def)

lemma cancel_inv:
  assumes "inv p"
  shows "inv (cancel ops p t)"
proof -
  let ?q = "pool_queue p"
  have q: "ok ?q" using assms by (simp add: pool_inv_def accounted_def)
  have "contents (fst (q_promote ops ?q t)) = [] \<longleftrightarrow> contents ?q = []"
    using promote_contents [OF q, of t] by (metis mset_zero_iff)
  then show ?thesis
    using assms promote_contents [OF q, of t] unfolding cancel_def Let_def split_beta
    by (intro pump_inv) (auto simp: pool_inv_def accounted_def lifecycle_ok_def)
qed

lemma notify_all_inv: "inv p \<Longrightarrow> inv (notify_all ops s p ts)"
  by (induction ts arbitrary: p) (auto simp: cancel_inv split: option.split)

lemma inv_subscriptions [simp]: "inv (p\<lparr>subscriptions := x\<rparr>) = inv p"
  by (simp add: pool_inv_def accounted_def lifecycle_ok_def pumped_def)

lemma abort_inv: "inv p \<Longrightarrow> inv (abort_listener ops s p)"
  by (auto simp: abort_listener_def Let_def notify_all_inv split: option.split)

text \<open>A call of \<open>addTask\<close> that is not refused is a \<open>pump\<close> of an accounted pool.\<close>

lemma addTask_accepted:
  assumes inv: "inv p" and ctx: "\<not> cancelled w c" and st: "pool_state p = Created \<or> pool_state p = Running"
    and push: "\<And>q t. ok q \<Longrightarrow> t \<notin> set (contents q) \<Longrightarrow>
      ok (push q t) \<and> mset (contents (push q t)) = add_mset t (mset (contents q))"
  shows "\<exists>q. addTask ops push w p c = (pump ops q, None) \<and> acct q \<and> lifecycle_ok contents q \<and>
    executorsCount q = executorsCount p \<and> active q = active p \<and> tasks q = tasks p @ [c] \<and>
    pool_queue q = push (pool_queue p) (length (tasks p)) \<and> started q = started p"
proof -
  let ?t = "length (tasks p)"
  let ?s = "subscribe (p\<lparr>tasks := tasks p @ [c]\<rparr>) ?t"
  let ?q = "with_metrics (\<lambda>m. m\<lparr>queueLength := queueLength m + 1\<rparr>)
      (?s\<lparr>pool_queue := push (pool_queue ?s) ?t\<rparr>)"
  have q: "ok (pool_queue p)" and eq: "mset (contents (pool_queue p)) + mset (microtasks p) +
      mset (map fst (running p)) + mset (finished p) = mset [0..<?t]"
    using inv by (simp_all add: pool_inv_def accounted_def)
  have "set_mset (mset (contents (pool_queue p))) \<subseteq> set_mset (mset [0..<?t])"
    unfolding eq [symmetric] by auto
  then have fresh: "?t \<notin> set (contents (pool_queue p))" by auto
  have "acct ?q" using inv push [OF q fresh] eq by (simp add: pool_inv_def accounted_def)
  moreover have "lifecycle_ok contents ?q"
    using inv st by (auto simp: pool_inv_def lifecycle_ok_def)
  moreover have "addTask ops push w p c = (pump ops ?q, None)"
    using ctx st cancelled_if_aborted [of w c] by (auto simp: addTask_def Let_def)
  ultimately show ?thesis
    by (intro exI [of _ ?q]) simp
qed

lemma addTask_refused:
  "cancelled w c \<or> pool_state p = Stopping \<or> pool_state p = Stopped \<Longrightarrow>
    fst (addTask ops push w p c) = reject p"
  by (auto simp: addTask_def)

lemma addTask_inv:
  assumes "inv p"
    and "\<And>q t. ok q \<Longrightarrow> t \<notin> set (contents q) \<Longrightarrow>
      ok (push q t) \<and> mset (contents (push q t)) = add_mset t (mset (contents q))"
  shows "inv (fst (addTask ops push w p c))"
proof (cases "cancelled w c \<or> pool_state p = Stopping \<or> pool_state p = Stopped")
  case True
  with assms(1) show ?thesis by (simp add: addTask_refused reject_def)
next
  case False
  then have "pool_state p = Created \<or> pool_state p = Running" by (cases "pool_state p") auto
  with False show ?thesis
    using addTask_accepted [of p w c push] assms pump_inv by auto
qed

lemma taskFinished_acct:
  assumes "ok (pool_queue p)" and "1 \<le> executorsCount p"
    and "add_mset t (mset (contents (pool_queue p)) + mset (microtasks p) + mset (map fst (running p)) +
      mset (finished p)) = mset [0..<length (tasks p)]"
    and "active p = int (length (microtasks p) + length (running p)) + 1"
    and "lifecycle_ok contents p" and "pool_state p = Running \<or> pool_state p = Stopping"
  shows "inv (taskFinished ops w p t began)"
    and "active (taskFinished ops w p t began) \<le> max (active p) (executorsCount p)"
    and "executorsCount (taskFinished ops w p t began) = executorsCount p"
    and "tasks (taskFinished ops w p t began) = tasks p"
    and "finished (taskFinished ops w p t began) = finished p @ [t]"
    and "running (taskFinished ops w p t began) = running p"
proof -
  let ?p1 = "with_metrics (\<lambda>m. m\<lparr>executorsBusy := executorsBusy m - 1, tasksTotal := tasksTotal m + 1,
                  executionDuration := executionDuration m @ [(clock w - began) / 1000]\<rparr>) p"
  let ?p2 = "?p1\<lparr>active := active ?p1 - 1, finished := finished ?p1 @ [t]\<rparr>"
  let ?p3 = "with_metrics (\<lambda>m. m\<lparr>executorsAllocated := max (executorsCount ?p2) (active ?p2)\<rparr>) ?p2"
  have acct: "acct ?p3" and life: "lifecycle_ok contents ?p3"
    using assms by (auto simp: accounted_def lifecycle_ok_def ac_simps)
  have eq: "taskFinished ops w p t began = pump ops ?p3"
    unfolding taskFinished_def Let_def ..
  show "inv (taskFinished ops w p t began)"
    unfolding eq by (rule pump_inv [OF acct life])
  note b = pump_bound [OF acct]
  show "active (taskFinished ops w p t began) \<le> max (active p) (executorsCount p)"
    "executorsCount (taskFinished ops w p t began) = executorsCount p"
    "tasks (taskFinished ops w p t began) = tasks p"
    "finished (taskFinished ops w p t began) = finished p @ [t]"
    "running (taskFinished ops w p t began) = running p"
    unfolding eq using b by auto
qed

lemma active_state:
  assumes "inv p" and "microtasks p \<noteq> [] \<or> running p \<noteq> []"
  shows "pool_state p = Running \<or> pool_state p = Stopping"
proof -
  have "length (microtasks p) + length (running p) > 0"
    using assms(2) by auto
  moreover have "active p = int (length (microtasks p) + length (running p))"
    using assms(1) by (simp add: pool_inv_def accounted_def)
  ultimately have "active p \<noteq> 0" by linarith
  then show ?thesis
    using assms(1) by (cases "pool_state p") (simp_all add: pool_inv_def lifecycle_ok_def)
qed

lemma run_next_inv:
  assumes "inv p"
  shows "inv (run_next ops w p result)"
proof (cases "microtasks p")
  case Nil
  with assms show ?thesis by (simp add: run_next_def)
next
  case (Cons t ts)
  have st: "pool_state p = Running \<or> pool_state p = Stopping"
    using active_state [OF assms] Cons by simp
  show ?thesis
  proof (cases result)
    case Returned
    with Cons assms st show ?thesis
      by (auto simp: run_next_def pool_inv_def accounted_def lifecycle_ok_def pumped_def ac_simps)
  next
    case (Threw e)
    let ?p = "reportPoolError w (with_metrics (\<lambda>m. m\<lparr>executorsBusy := executorsBusy m + 1\<rparr>)
        (p\<lparr>microtasks := ts\<rparr>)) e t"
    have "inv (taskFinished ops w ?p t (clock w))"
      by (rule taskFinished_acct(1))
        (use assms st Cons in \<open>auto simp: pool_inv_def accounted_def lifecycle_ok_def\<close>)
    with Cons Threw show ?thesis by (simp add: run_next_def)
  qed
qed

lemma running_split:
  assumes "distinct (map fst rs)" and "map_of rs t = Some b"
  shows "mset (map fst rs) = add_mset t (mset (map fst (filter (\<lambda>r. fst r \<noteq> t) rs)))"
    and "length rs = Suc (length (filter (\<lambda>r. fst r \<noteq> t) rs))"
proof -
  have *: "mset (map fst rs) = add_mset t (mset (map fst (filter (\<lambda>r. fst r \<noteq> t) rs)))"
    using assms
  proof (induction rs)
    case (Cons r rs)
    show ?case
    proof (cases "fst r = t")
      case True
      with Cons.prems have "\<forall>x \<in> set rs. fst x \<noteq> t" by (auto simp: notin_fst_iff)
      then have "filter (\<lambda>r. fst r \<noteq> t) rs = rs" by (simp add: filter_id_conv)
      with True show ?thesis by simp
    next
      case False
      with Cons show ?thesis by (cases r) simp
    qed
  qed simp
  then show "mset (map fst rs) = add_mset t (mset (map fst (filter (\<lambda>r. fst r \<noteq> t) rs)))" .
  have "length (map fst rs) = length (t # map fst (filter (\<lambda>r. fst r \<noteq> t) rs))"
    by (rule mset_eq_length) (simp only: * mset.simps)
  then show "length rs = Suc (length (filter (\<lambda>r. fst r \<noteq> t) rs))"
    by simp
qed

lemma acct_distinct: "acct p \<Longrightarrow> distinct (map fst (running p))"
proof -
  assume "acct p"
  then have "mset (contents (pool_queue p) @ microtasks p @ map fst (running p) @ finished p) =
      mset [0..<length (tasks p)]"
    by (simp add: accounted_def ac_simps)
  then have "distinct (contents (pool_queue p) @ microtasks p @ map fst (running p) @ finished p)"
    by (metis distinct_upt mset_eq_imp_distinct_iff)
  then show ?thesis by simp
qed

lemma settle_inv:
  assumes "inv p"
  shows "inv (settle ops w p t rejection)"
proof (cases "map_of (running p) t")
  case None
  with assms show ?thesis by (simp add: settle_def)
next
  case (Some b)
  then have "running p \<noteq> []" by auto
  then have st: "pool_state p = Running \<or> pool_state p = Stopping"
    using active_state [OF assms] by simp
  have "distinct (map fst (running p))"
    using assms acct_distinct by (simp add: pool_inv_def)
  note split = running_split [OF this Some]
  let ?p = "p\<lparr>running := filter (\<lambda>r. fst r \<noteq> t) (running p)\<rparr>"
  have len: "length (running p) = length (running ?p) + 1"
    using split(2) by simp
  have eq: "add_mset t (mset (contents (pool_queue p)) + mset (microtasks p) + mset (map fst (running ?p)) +
      mset (finished p)) = mset [0..<length (tasks p)]"
    using assms split(1) by (simp add: pool_inv_def accounted_def)
  have act: "active p = int (length (microtasks p) + length (running ?p)) + 1"
    using assms len unfolding pool_inv_def accounted_def by linarith
  have life: "lifecycle_ok contents p" and q: "ok (pool_queue p)" "1 \<le> executorsCount p"
    using assms by (simp_all add: pool_inv_def accounted_def)
  have "inv (taskFinished ops w ?p t b)"
    by (rule taskFinished_acct(1)) (use life q eq act st in \<open>simp_all add: lifecycle_ok_def\<close>)
  moreover have "inv (taskFinished ops w (reportPoolError w ?p e t) t b)" for e
    by (rule taskFinished_acct(1)) (use life q eq act st in \<open>simp_all add: lifecycle_ok_def\<close>)
  ultimately show ?thesis
    using Some by (simp add: settle_def Let_def split: option.split)
qed

lemma start_inv:
  assumes "inv p" and "start ops p = Inr p'"
  shows "inv p'"
proof -
  let ?f = "\<lambda>m. m\<lparr>executorsTarget := executorsCount p,
      executorsAllocated := max (executorsCount p) (active p)\<rparr>"
  let ?p = "with_metrics ?f (p\<lparr>pool_state := Running\<rparr>)"
  have st: "pool_state p = Created" and eq: "p' = pump ops ?p"
    using assms(2) by (simp_all add: start_def split: if_splits)
  have "acct ?p" "lifecycle_ok contents ?p"
    using assms(1) st by (simp_all add: pool_inv_def accounted_def lifecycle_ok_def)
  then show ?thesis
    unfolding eq by (rule pump_inv)
qed

lemma resize_inv:
  assumes "inv p" and "resize ops cores p n = Inr p'" and "\<forall>c. cores = Some c \<longrightarrow> 1 \<le> c"
  shows "inv p'"
proof (cases "pool_state p = Stopping \<or> pool_state p = Stopped")
  case True
  with assms show ?thesis by (auto simp: resize_def)
next
  case False
  then obtain k where k: "normalizeExecutorsCount cores n = Inr k"
    using assms(2) by (auto simp: resize_def result_simps)
  have pos: "1 \<le> k"
    using normalizeExecutorsCount_positive [OF k assms(3)] .
  have "inv (pump ops (p\<lparr>executorsCount := k\<rparr>))" "inv (pump ops (with_metrics f (p\<lparr>executorsCount := k\<rparr>)))" for f
    using assms(1) pos by (intro pump_inv; simp add: pool_inv_def accounted_def lifecycle_ok_def)+
  moreover have "p' = pump ops (p\<lparr>executorsCount := k\<rparr>) \<or>
      (\<exists>f. p' = pump ops (with_metrics f (p\<lparr>executorsCount := k\<rparr>)))"
    using assms(2) False k by (auto simp: resize_def Let_def split: if_splits)
  ultimately show ?thesis by metis
qed

lemma finishDrain_idle:
  assumes "inv p"
  shows "finishDrainIfIdle ops p = p"
proof -
  have "q_length ops (pool_queue p) = length (contents (pool_queue p))"
    using assms by (simp add: pool_inv_def accounted_def length_contents)
  moreover have "pool_state p = Stopping \<Longrightarrow> active p = 0 \<Longrightarrow> contents (pool_queue p) \<noteq> []"
    using assms by (simp add: pool_inv_def pumped_def)
  ultimately show ?thesis by (auto simp: finishDrainIfIdle_def)
qed

lemma stop_inv:
  assumes "inv p"
  shows "inv (fst (stop ops p))"
proof (cases "pool_state p = Stopped \<or> drain p \<noteq> None")
  case True
  with assms show ?thesis by (auto simp: stop_def Let_def)
next
  case False
  have "inv (pump ops (p\<lparr>pool_state := Stopping, drain := Some False\<rparr>))"
    using assms by (intro pump_inv) (simp_all add: pool_inv_def accounted_def lifecycle_ok_def)
  with False show ?thesis
    by (simp add: stop_def Let_def finishDrain_idle)
qed

lemma new_pool_inv: "ok q \<Longrightarrow> contents q = [] \<Longrightarrow> 1 \<le> k \<Longrightarrow> inv (new_pool n q k m)"
  by (simp add: new_pool_def pool_inv_def accounted_def lifecycle_ok_def pumped_def)

end

text \<open>
  The contract of a whole pool: its queue, how a new task enters it, which priorities it accepts
  (\<open>good\<close>) and the parallelism of the host.
\<close>

definition accepts :: "('a \<Rightarrow> bool) \<Rightarrow> 'a pool_event \<Rightarrow> bool" where
  "accepts good e = (case e of AddTask a c \<Rightarrow> good a | _ \<Rightarrow> True)"

locale pool_contract = pool_queue_contract ops contents ok
  for ops :: "'q queue_ops" and contents :: "'q \<Rightarrow> nat list" and ok :: "'q \<Rightarrow> bool" +
  fixes push :: "'a \<Rightarrow> 'q \<Rightarrow> nat \<Rightarrow> 'q"
    and good :: "'a \<Rightarrow> bool"
  assumes push_contents: "good a \<Longrightarrow> ok q \<Longrightarrow> t \<notin> set (contents q) \<Longrightarrow>
      ok (push a q t) \<and> mset (contents (push a q t)) = add_mset t (mset (contents q))"
begin

lemma step_inv:
  assumes "inv p" and "accepts good e" and "\<forall>c. cores = Some c \<longrightarrow> 1 \<le> c"
  shows "inv (pool_step ops push cores p (w, e))"
proof (cases e)
  case (AddTask a c)
  with assms(1,2) push_contents show ?thesis by (simp add: addTask_inv accepts_def)
next
  case Start
  with assms(1) show ?thesis by (auto simp: start_inv split: sum.split)
next
  case (Resize n)
  with assms(1,3) show ?thesis by (auto simp: resize_inv split: sum.split)
qed (use assms(1) in \<open>simp_all add: stop_inv abort_inv run_next_inv settle_inv\<close>)

lemma run_inv:
  assumes "inv p" and "\<forall>e \<in> set evs. accepts good (snd e)" and "\<forall>c. cores = Some c \<longrightarrow> 1 \<le> c"
  shows "inv (pool_run ops push cores p evs)"
  using assms(1,2)
  by (induction evs arbitrary: p) (auto simp: pool_run_def step_inv [OF _ _ assms(3)])

end

section \<open>Subscriptions\<close>

text \<open>
  The subscription table of a signal holds only tasks of that signal, so an abort promotes only
  tasks whose own context it ends.
\<close>

definition subscriptions_ok :: "'q pool \<Rightarrow> bool" where
  "subscriptions_ok p \<longleftrightarrow> (\<forall>s cbs t. jm_get (subscriptions p) s = Some cbs \<longrightarrow> t \<in> set cbs \<longrightarrow>
     t < length (tasks p) \<and> task_signal p t = s)"

lemma removeAbortListener_subscriptions:
  assumes "subscriptions_ok p"
  shows "subscriptions_ok (removeAbortListener p t)"
  using assms
  by (auto simp: subscriptions_ok_def removeAbortListener_def task_signal_def jsmap_simps
      split: option.splits if_splits)

lemma dispatch_subscriptions: "subscriptions_ok p \<Longrightarrow> subscriptions_ok (dispatch p t)"
  using removeAbortListener_subscriptions [of p t]
  by (simp add: dispatch_def Let_def subscriptions_ok_def task_signal_def)

lemma pump_loop_subscriptions: "subscriptions_ok p \<Longrightarrow> subscriptions_ok (pump_loop ops p)"
proof (induction ops p rule: pump_loop.induct)
  case (1 ops p)
  have *: "subscriptions_ok (p\<lparr>pool_queue := q\<rparr>)" for q
    using 1(2) by (simp add: subscriptions_ok_def task_signal_def)
  then show ?case
    using 1(1) 1(2) dispatch_subscriptions [OF *]
    by (subst pump_loop.simps) (auto split: prod.split option.split)
qed

lemma subscriptionsD:
  "subscriptions_ok p \<Longrightarrow> jm_get (subscriptions p) s = Some cbs \<Longrightarrow> t \<in> set cbs \<Longrightarrow> t < length (tasks p) \<and> task_signal p t = s"
  unfolding subscriptions_ok_def by blast

lemma subscribe_subscriptions:
  assumes "subscriptions_ok p" and "t < length (tasks p)"
  shows "subscriptions_ok (subscribe p t)"
proof -
  let ?cbs = "case jm_get (subscriptions p) (task_signal p t) of None \<Rightarrow> [t] | Some cbs \<Rightarrow> if t \<in> set cbs then cbs else cbs @ [t]"
  have sub: "subscribe p t = p\<lparr>subscriptions := jm_set (subscriptions p) (task_signal p t) ?cbs\<rparr>"
    by (simp add: subscribe_def split: option.split)
  have cbs: "u < length (tasks p) \<and> task_signal p u = task_signal p t" if u: "u \<in> set ?cbs" for u
  proof (cases "u = t")
    case False
    then obtain cbs where "jm_get (subscriptions p) (task_signal p t) = Some cbs" "u \<in> set cbs" using u by (auto split: option.splits if_splits)
    then show ?thesis by (rule subscriptionsD [OF assms(1)])
  qed (use assms(2) in simp)
  have "u < length (tasks p) \<and> task_signal p u = s" if "jm_get (subscriptions (subscribe p t)) s = Some cbs'" "u \<in> set cbs'" for s cbs' u
  proof (cases "s = task_signal p t")
    case True
    then have "cbs' = ?cbs" using that(1) unfolding sub by (simp add: jm_get_set)
    then show ?thesis using cbs that(2) True by blast
  next
    case False
    then have "jm_get (subscriptions p) s = Some cbs'" using that(1) unfolding sub by (simp add: jm_get_set)
    then show ?thesis using subscriptionsD [OF assms(1)] that(2) by blast
  qed
  moreover have "task_signal (subscribe p t) = task_signal p" by (simp add: task_signal_def fun_eq_iff)
  ultimately show ?thesis unfolding subscriptions_ok_def by simp
qed

lemma subscriptions_new_task:
  assumes "subscriptions_ok p"
  shows "subscriptions_ok (p\<lparr>tasks := tasks p @ [c]\<rparr>)"
proof -
  have "task_signal (p\<lparr>tasks := tasks p @ [c]\<rparr>) u = task_signal p u" if "u < length (tasks p)" for u
    using that by (simp add: task_signal_def nth_append)
  then show ?thesis using subscriptionsD [OF assms] unfolding subscriptions_ok_def by fastforce
qed

end
