(* ===== verification/PoolProgress.thy ===== *)
theory PoolProgress
  imports PoolCore
begin

text \<open>
  Progress of a pool: the work it has accepted gets done. A measure of the outstanding work
  goes down with every microtask and every completion, so a pool that is stopping reaches
  the stopped state. Also here: how many tasks are active at once, and the order tasks start in.
\<close>

section \<open>The outstanding work\<close>

text \<open>A queued task has three steps to go, a scheduled one two, a running one a single step.\<close>

definition work :: "('q \<Rightarrow> nat list) \<Rightarrow> 'q pool \<Rightarrow> nat" where
  "work contents p =
     3 * length (contents (pool_queue p)) + 2 * length (microtasks p) + length (running p)"

lemma work_with_metrics [simp]: "work contents (with_metrics f p) = work contents p"
  by (simp add: work_def)

lemma work_reportPoolError [simp]: "work contents (reportPoolError w p e t) = work contents p"
  by (simp add: work_def)

section \<open>States a step can reach\<close>

lemma pump_loop_fields [simp]:
  "pool_state (pump_loop ops p) = pool_state p \<and> tasks (pump_loop ops p) = tasks p \<and>
   executorsCount (pump_loop ops p) = executorsCount p"
proof (induction ops p rule: pump_loop.induct)
  case (1 ops p)
  show ?case
    using 1 by (subst (1 2 3) pump_loop.simps) (auto split: prod.split option.split)
qed

text \<open>What removing tasks leaves of the queue, \<open>pump\<close> leaves of it.\<close>

lemma pump_loop_queue:
  assumes "\<And>q q' x. q_pop ops q = (q', x) \<Longrightarrow> f q' = f q"
  shows "f (pool_queue (pump_loop ops p)) = f (pool_queue p)"
  using assms
proof (induction ops p rule: pump_loop.induct)
  case (1 ops p)
  show ?case
    using 1(1) [OF _ _ _ 1(2)] 1(2) by (subst pump_loop.simps) (auto split: prod.split option.split)
qed

text \<open>The last two states of the lifecycle.\<close>

definition closing :: "'q pool \<Rightarrow> bool" where
  "closing p \<longleftrightarrow> pool_state p = Stopping \<or> pool_state p = Stopped"

lemma pump_closing: "closing p \<Longrightarrow> closing (pump ops p)"
  by (auto simp: closing_def pump_def finishDrainIfIdle_def)

lemma closing_fields [simp]:
  "closing (with_metrics f p) = closing p" "closing (reportPoolError w p e t) = closing p"
  "closing (p\<lparr>microtasks := ms\<rparr>) = closing p" "closing (p\<lparr>running := rs\<rparr>) = closing p"
  by (simp_all add: closing_def)

lemma taskFinished_closing: "closing p \<Longrightarrow> closing (taskFinished ops w p t began)"
  unfolding taskFinished_def Let_def by (rule pump_closing) (simp add: closing_def)

lemma progress_closing:
  assumes "closing p" and "progress p e"
  shows "closing (pool_step ops push cores p (w, e))"
proof (cases e)
  case (Microtask r)
  with assms show ?thesis
    by (cases r; cases "microtasks p") (auto simp: run_next_def intro: taskFinished_closing)
next
  case (Completion t r)
  with assms show ?thesis
    by (cases r) (auto simp: settle_def Let_def taskFinished_closing)
qed (use assms in simp_all)

lemma progress_run_closing:
  "closing p \<Longrightarrow> progress_run ops push cores p evs \<Longrightarrow> closing (pool_run ops push cores p evs)"
  by (induction evs arbitrary: p) (auto simp: pool_run_def progress_closing)

text \<open>A step that leaves the size alone takes no more tasks than there are executors.\<close>

definition bounded_by :: "'q pool \<Rightarrow> 'q pool \<Rightarrow> bool" where
  "bounded_by p p' \<longleftrightarrow> executorsCount p' = executorsCount p \<and> active p' \<le> max (active p) (executorsCount p)"

context pool_queue_contract
begin

abbreviation outstanding :: "'q pool \<Rightarrow> nat" where
  "outstanding \<equiv> work contents"

lemma pump_loop_work: "ok (pool_queue p) \<Longrightarrow> outstanding (pump_loop ops p) \<le> outstanding p"
proof (induction "nat (executorsCount p - active p)" arbitrary: p rule: less_induct)
  case less
  let ?q = "pool_queue p"
  show ?case
  proof (cases "active p < executorsCount p \<and> contents ?q \<noteq> []")
    case False
    then have "pump_loop ops p = p"
      using length_contents [OF less.prems] by (auto simp: pump_loop.simps [of ops p])
    then show ?thesis by simp
  next
    case True
    then obtain q' t where pop: "q_pop ops ?q = (q', Some t)" "ok q'"
      "mset (contents ?q) = add_mset t (mset (contents q'))"
      using pop_contents [OF less.prems] by blast
    let ?p = "dispatch (p\<lparr>pool_queue := q'\<rparr>) t"
    have eq: "pump_loop ops p = pump_loop ops ?p"
      using True pop(1) length_contents [OF less.prems] by (simp add: pump_loop.simps [of ops p])
    have "length (contents ?q) = Suc (length (contents q'))"
      using arg_cong [OF pop(3), of size] by simp
    then have "outstanding ?p \<le> outstanding p" by (simp add: work_def)
    moreover have "outstanding (pump_loop ops ?p) \<le> outstanding ?p"
      using True pop(2) by (intro less.hyps) auto
    ultimately show ?thesis unfolding eq by simp
  qed
qed

lemma pump_work: "ok (pool_queue p) \<Longrightarrow> outstanding (pump ops p) \<le> outstanding p"
  using pump_loop_work [of p] by (simp add: pump_def work_def)

lemma taskFinished_work:
  "ok (pool_queue p) \<Longrightarrow> outstanding (taskFinished ops w p t began) \<le> outstanding p"
  unfolding taskFinished_def Let_def
  by (rule order_trans [OF pump_work]) (simp_all add: work_def)

lemma run_next_work:
  assumes "inv p" and "microtasks p \<noteq> []"
  shows "outstanding (run_next ops w p result) < outstanding p"
proof -
  obtain t ts where m: "microtasks p = t # ts"
    using assms(2) by (cases "microtasks p") auto
  have q: "ok (pool_queue p)"
    using assms(1) by (simp add: pool_inv_def accounted_def)
  show ?thesis
  proof (cases result)
    case Returned
    with m show ?thesis by (simp add: run_next_def work_def)
  next
    case (Threw e)
    let ?p = "reportPoolError w (with_metrics (\<lambda>m. m\<lparr>executorsBusy := executorsBusy m + 1\<rparr>)
        (p\<lparr>microtasks := ts\<rparr>)) e t"
    have "outstanding (taskFinished ops w ?p t (clock w)) \<le> outstanding ?p"
      using q by (intro taskFinished_work) simp
    also have "outstanding ?p < outstanding p"
      using m by (simp add: work_def)
    finally show ?thesis using m Threw by (simp add: run_next_def)
  qed
qed

lemma settle_work:
  assumes "inv p" and "map_of (running p) t \<noteq> None"
  shows "outstanding (settle ops w p t rejection) < outstanding p"
proof -
  obtain b where b: "map_of (running p) t = Some b" using assms(2) by auto
  let ?p = "p\<lparr>running := filter (\<lambda>r. fst r \<noteq> t) (running p)\<rparr>"
  have q: "ok (pool_queue p)" and "distinct (map fst (running p))"
    using assms(1) acct_distinct by (simp_all add: pool_inv_def accounted_def)
  then have less: "outstanding ?p < outstanding p"
    using running_split(2) [OF _ b] by (simp add: work_def)
  have "outstanding (taskFinished ops w ?p t b) \<le> outstanding ?p"
    "outstanding (taskFinished ops w (reportPoolError w ?p e t) t b) \<le> outstanding ?p" for e
    using taskFinished_work [of ?p] taskFinished_work [of "reportPoolError w ?p e t"] q by simp_all
  then show ?thesis
    using b le_less_trans [OF _ less] by (simp add: settle_def Let_def split: option.split)
qed

lemma idle_iff: "acct p \<Longrightarrow> active p = 0 \<longleftrightarrow> microtasks p = [] \<and> running p = []"
  by (cases "microtasks p"; cases "running p") (auto simp: accounted_def)

text \<open>A pool that is stopping always has a step to make.\<close>

lemma stopping_progress:
  assumes "inv p" and "pool_state p = Stopping"
  shows "\<exists>e :: 'a pool_event. progress p e"
proof (cases "microtasks p")
  case (Cons t ts)
  then have "progress p (Microtask Returned :: 'a pool_event)" by simp
  then show ?thesis by blast
next
  case Nil
  have "active p \<noteq> 0"
    using assms by (auto simp: pool_inv_def pumped_def accounted_def)
  then have "running p \<noteq> []"
    using Nil assms(1) by (auto simp: pool_inv_def accounted_def)
  then obtain t b rs where "running p = (t, b) # rs" by (cases "running p") auto
  then have "progress p (Completion t None :: 'a pool_event)" by simp
  then show ?thesis by blast
qed

lemma bounded_by_refl [simp]: "bounded_by p p"
  by (simp add: bounded_by_def)

lemma bounded_by_trans: "bounded_by p q \<Longrightarrow> bounded_by q r \<Longrightarrow> bounded_by p r"
  by (auto simp: bounded_by_def)

lemma pump_bounded_by:
  "acct q \<Longrightarrow> executorsCount q = executorsCount p \<Longrightarrow> active q \<le> active p \<Longrightarrow> bounded_by p (pump ops q)"
  using pump_bound [of q] by (auto simp: bounded_by_def)

lemma cancel_bounded_by:
  assumes "inv p"
  shows "bounded_by p (cancel ops p t)"
proof -
  have "ok (pool_queue p)" using assms by (simp add: pool_inv_def accounted_def)
  note * = promote_contents [OF this, of t]
  show ?thesis
    using assms * unfolding cancel_def Let_def split_beta
    by (intro pump_bounded_by) (auto simp: pool_inv_def accounted_def)
qed

lemma notify_all_bounded_by: "inv p \<Longrightarrow> bounded_by p (notify_all ops s p ts)"
proof (induction ts arbitrary: p)
  case (Cons t ts)
  have "bounded_by p (notify_all ops s (cancel ops p t) ts)"
    using Cons cancel_inv [OF Cons.prems] cancel_bounded_by [OF Cons.prems] bounded_by_trans by blast
  then show ?case using Cons by (simp split: option.split)
qed simp

lemma abort_bounded_by: "inv p \<Longrightarrow> bounded_by p (abort_listener ops s p)"
  using notify_all_bounded_by [of p s] by (simp add: abort_listener_def Let_def bounded_by_def split: option.split)

lemma taskFinished_bounded:
  assumes "inv p" and "microtasks p \<noteq> [] \<or> running p \<noteq> []"
    and "add_mset t (mset (contents (pool_queue q)) + mset (microtasks q) + mset (map fst (running q)) +
      mset (finished q)) = mset [0..<length (tasks q)]"
    and "active q = int (length (microtasks q) + length (running q)) + 1"
    and "pool_queue q = pool_queue p" "executorsCount q = executorsCount p" "active q = active p"
    and "lifecycle_ok contents q" "pool_state q = pool_state p"
  shows "bounded_by p (taskFinished ops w q t b)"
proof -
  have "ok (pool_queue q)" "1 \<le> executorsCount q"
    using assms(1,5,6) by (simp_all add: pool_inv_def accounted_def)
  moreover have "pool_state q = Running \<or> pool_state q = Stopping"
    using active_state [OF assms(1,2)] assms(9) by simp
  ultimately show ?thesis
    using taskFinished_acct(2,3) [of q t w b] assms(3,4,6-8) by (simp add: bounded_by_def)
qed

lemma run_next_bounded:
  assumes "inv p"
  shows "bounded_by p (run_next ops w p result)"
proof (cases "microtasks p")
  case Nil
  then show ?thesis by (simp add: run_next_def)
next
  case (Cons t ts)
  show ?thesis
  proof (cases result)
    case Returned
    with Cons show ?thesis by (simp add: run_next_def bounded_by_def)
  next
    case (Threw e)
    let ?q = "reportPoolError w (with_metrics (\<lambda>m. m\<lparr>executorsBusy := executorsBusy m + 1\<rparr>)
        (p\<lparr>microtasks := ts\<rparr>)) e t"
    have "bounded_by p (taskFinished ops w ?q t (clock w))"
      by (rule taskFinished_bounded)
        (use assms Cons active_state [OF assms] in
          \<open>auto simp: pool_inv_def accounted_def lifecycle_ok_def\<close>)
    with Cons Threw show ?thesis by (simp add: run_next_def)
  qed
qed

lemma settle_bounded:
  assumes "inv p"
  shows "bounded_by p (settle ops w p t rejection)"
proof (cases "map_of (running p) t")
  case None
  then show ?thesis by (simp add: settle_def)
next
  case (Some b)
  let ?q = "p\<lparr>running := filter (\<lambda>r. fst r \<noteq> t) (running p)\<rparr>"
  have ne: "microtasks p \<noteq> [] \<or> running p \<noteq> []" using Some by auto
  have "distinct (map fst (running p))"
    using assms acct_distinct by (simp add: pool_inv_def)
  note split = running_split [OF this Some]
  have eq: "add_mset t (mset (contents (pool_queue p)) + mset (microtasks p) + mset (map fst (running ?q)) +
      mset (finished p)) = mset [0..<length (tasks p)]"
    using assms split(1) by (simp add: pool_inv_def accounted_def)
  have "length (running p) = length (running ?q) + 1"
    using split(2) by simp
  then have act: "active p = int (length (microtasks p) + length (running ?q)) + 1"
    using assms unfolding pool_inv_def accounted_def by linarith
  have life: "lifecycle_ok contents p" using assms by (simp add: pool_inv_def)
  have "bounded_by p (taskFinished ops w ?q t b)"
    by (rule taskFinished_bounded [OF assms ne]) (use life eq act in \<open>simp_all add: lifecycle_ok_def\<close>)
  moreover have "bounded_by p (taskFinished ops w (reportPoolError w ?q e t) t b)" for e
    by (rule taskFinished_bounded [OF assms ne]) (use life eq act in \<open>simp_all add: lifecycle_ok_def\<close>)
  ultimately show ?thesis
    using Some by (simp add: settle_def Let_def split: option.split)
qed

lemma start_bounded:
  assumes "inv p" and "start ops p = Inr p'"
  shows "bounded_by p p'"
proof -
  have "pool_state p = Created" using assms(2) by (simp add: start_def split: if_splits)
  then have "bounded_by p (pump ops (with_metrics f (p\<lparr>pool_state := Running\<rparr>)))" for f
    using assms(1) by (intro pump_bounded_by) (simp_all add: pool_inv_def accounted_def)
  then show ?thesis using assms(2) by (auto simp: start_def split: if_splits)
qed

lemma stop_bounded: "inv p \<Longrightarrow> bounded_by p (fst (stop ops p))"
proof -
  assume inv: "inv p"
  have "bounded_by p (pump ops (p\<lparr>pool_state := Stopping, drain := Some False\<rparr>))"
    using inv by (intro pump_bounded_by) (simp_all add: pool_inv_def accounted_def)
  then show ?thesis by (simp add: stop_def Let_def bounded_by_def)
qed

lemma addTask_bounded:
  assumes "inv p"
    and "\<And>q t. ok q \<Longrightarrow> t \<notin> set (contents q) \<Longrightarrow>
      ok (push q t) \<and> mset (contents (push q t)) = add_mset t (mset (contents q))"
  shows "bounded_by p (fst (addTask ops push w p c))"
proof (cases "cancelled w c \<or> pool_state p = Stopping \<or> pool_state p = Stopped")
  case True
  then show ?thesis by (simp add: addTask_refused reject_def bounded_by_def)
next
  case False
  then have "pool_state p = Created \<or> pool_state p = Running" by (cases "pool_state p") auto
  with False obtain q where "addTask ops push w p c = (pump ops q, None)" "acct q"
    "executorsCount q = executorsCount p" "active q = active p"
    using addTask_accepted [of p w c push] assms by auto
  then show ?thesis using pump_bounded_by [of q p] by simp
qed

lemma resize_bounded:
  assumes "inv p" and "resize ops cores p n = Inr p'" and "\<forall>c. cores = Some c \<longrightarrow> 1 \<le> c"
  shows "active p' \<le> max (active p) (executorsCount p')"
proof (cases "pool_state p = Stopping \<or> pool_state p = Stopped")
  case True
  with assms show ?thesis by (auto simp: resize_def)
next
  case False
  then obtain k where k: "normalizeExecutorsCount cores n = Inr k"
    using assms(2) by (auto simp: resize_def result_simps)
  have "bounded_by (p\<lparr>executorsCount := k\<rparr>) (pump ops (p\<lparr>executorsCount := k\<rparr>))"
    "bounded_by (p\<lparr>executorsCount := k\<rparr>) (pump ops (with_metrics f (p\<lparr>executorsCount := k\<rparr>)))" for f
    using assms(1) normalizeExecutorsCount_positive [OF k assms(3)]
    by (intro pump_bounded_by; simp add: pool_inv_def accounted_def)+
  moreover have "p' = pump ops (p\<lparr>executorsCount := k\<rparr>) \<or>
      (\<exists>f. p' = pump ops (with_metrics f (p\<lparr>executorsCount := k\<rparr>)))"
    using assms(2) False k by (auto simp: resize_def Let_def split: if_splits)
  ultimately show ?thesis by (auto simp: bounded_by_def)
qed

section \<open>Order of dispatch\<close>

text \<open>The tasks a \<open>pump\<close> starts are the first of the queue, in the order of the queue.\<close>

lemma pump_loop_order:
  "ok (pool_queue p) \<Longrightarrow> ok (pool_queue (pump_loop ops p)) \<and>
    (\<exists>new. started (pump_loop ops p) = started p @ new \<and>
       contents (pool_queue p) = new @ contents (pool_queue (pump_loop ops p)))"
proof (induction "nat (executorsCount p - active p)" arbitrary: p rule: less_induct)
  case less
  let ?q = "pool_queue p"
  show ?case
  proof (cases "active p < executorsCount p \<and> contents ?q \<noteq> []")
    case False
    then have "pump_loop ops p = p"
      using length_contents [OF less.prems] by (auto simp: pump_loop.simps [of ops p])
    then show ?thesis using less.prems by simp
  next
    case True
    then obtain t ts where ts: "contents ?q = t # ts" by (cases "contents ?q") auto
    then obtain q' where pop: "q_pop ops ?q = (q', Some t)" "ok q'" "contents q' = ts"
      using pop_first [OF less.prems] by blast
    have "pump_loop ops p = pump_loop ops (dispatch (p\<lparr>pool_queue := q'\<rparr>) t)"
      using True pop(1) length_contents [OF less.prems] by (simp add: pump_loop.simps [of ops p])
    with True pop ts show ?thesis
      using less.hyps [of "dispatch (p\<lparr>pool_queue := q'\<rparr>) t"] by auto
  qed
qed

lemma pump_loop_started:
  "ok (pool_queue p) \<Longrightarrow>
    started (pump_loop ops p) @ contents (pool_queue (pump_loop ops p)) = started p @ contents (pool_queue p)"
  using pump_loop_order [of p] by auto

lemma pump_loop_full:
  "ok (pool_queue p) \<Longrightarrow> contents (pool_queue p) = [] \<or> executorsCount p \<le> active p \<Longrightarrow> pump_loop ops p = p"
  using length_contents [of "pool_queue p"] by (auto simp: pump_loop.simps [of ops p])

end

context pool_contract
begin

lemma step_bounded:
  assumes "inv p" and "accepts good e" and "\<forall>c. cores = Some c \<longrightarrow> 1 \<le> c"
  shows "active (pool_step ops push cores p (w, e)) \<le>
    max (active p) (executorsCount (pool_step ops push cores p (w, e)))"
proof -
  note * = bounded_by_def
  show ?thesis
  proof (cases e)
    case (AddTask a c)
    have "bounded_by p (fst (addTask ops (push a) w p c))"
      using AddTask assms(2) push_contents by (intro addTask_bounded [OF assms(1)]) (simp_all add: accepts_def)
    with AddTask show ?thesis by (simp add: *)
  next
    case Start
    then show ?thesis using start_bounded [OF assms(1)] by (auto simp: * split: sum.split)
  next
    case (Resize n)
    then show ?thesis using resize_bounded [OF assms(1) _ assms(3)] by (auto split: sum.split)
  next
    case Stop
    then show ?thesis using stop_bounded [OF assms(1)] by (simp add: *)
  next
    case (Abort s)
    then show ?thesis using abort_bounded_by [OF assms(1)] by (simp add: *)
  next
    case (Microtask r)
    then show ?thesis using run_next_bounded [OF assms(1)] by (simp add: *)
  next
    case (Completion t r)
    then show ?thesis using settle_bounded [OF assms(1)] by (simp add: *)
  qed
qed

lemma progress_accepts: "progress p e \<Longrightarrow> accepts good e"
  by (cases e) (simp_all add: accepts_def)

lemma progress_work:
  assumes "inv p" and "progress p e"
  shows "outstanding (pool_step ops push cores p (w, e)) < outstanding p"
  using assms by (cases e) (simp_all add: run_next_work settle_work)

lemma progress_run_work:
  assumes "inv p" and "progress_run ops push cores p evs" and cores: "\<forall>c. cores = Some c \<longrightarrow> 1 \<le> c"
  shows "inv (pool_run ops push cores p evs) \<and>
    length evs + outstanding (pool_run ops push cores p evs) \<le> outstanding p"
  using assms(1,2)
proof (induction evs arbitrary: p)
  case Nil
  then show ?case by (simp add: pool_run_def)
next
  case (Cons e evs)
  obtain w ev where e: "e = (w, ev)" by (cases e)
  let ?p = "pool_step ops push cores p e"
  have ev: "progress p ev" using Cons.prems e by simp
  have "inv ?p" unfolding e by (rule step_inv [OF Cons.prems(1) progress_accepts [OF ev] cores])
  then have "inv (pool_run ops push cores ?p evs) \<and>
      length evs + outstanding (pool_run ops push cores ?p evs) \<le> outstanding ?p"
    using Cons by simp
  moreover have "outstanding ?p < outstanding p"
    using Cons.prems(1) ev by (simp add: e progress_work)
  ultimately show ?case by (simp add: pool_run_def)
qed

text \<open>
  However the remaining microtasks and completions are ordered, and whatever the tasks do,
  there are at most \<open>outstanding p\<close> of them, and when none is left the pool is stopped with every
  accepted task finished.
\<close>

lemma drains:
  assumes "inv p" and "closing p" and "progress_run ops push cores p evs"
    and "\<forall>c. cores = Some c \<longrightarrow> 1 \<le> c"
  shows "length evs \<le> outstanding p" (is ?len)
    and "(\<exists>e :: 'a pool_event. progress (pool_run ops push cores p evs) e) \<or>
      (pool_state (pool_run ops push cores p evs) = Stopped \<and>
       drain (pool_run ops push cores p evs) = Some True \<and>
       mset (finished (pool_run ops push cores p evs)) =
         mset [0..<length (tasks (pool_run ops push cores p evs))])" (is ?goal)
proof -
  let ?p = "pool_run ops push cores p evs"
  have inv: "inv ?p" and "length evs + outstanding ?p \<le> outstanding p"
    using progress_run_work [OF assms(1,3,4)] by simp_all
  then show ?len by linarith
  have "closing ?p" by (rule progress_run_closing [OF assms(2,3)])
  moreover have "drain ?p = Some True \<and> mset (finished ?p) = mset [0..<length (tasks ?p)]"
    if "pool_state ?p = Stopped"
  proof -
    have *: "active ?p = 0" "contents (pool_queue ?p) = []" "drain ?p = Some True"
      using inv that by (simp_all add: pool_inv_def lifecycle_ok_def)
    moreover have "microtasks ?p = []" "running ?p = []"
      using inv *(1) idle_iff [of ?p] by (simp_all add: pool_inv_def)
    ultimately show ?thesis
      using inv by (simp add: pool_inv_def accounted_def)
  qed
  ultimately show ?goal
    using stopping_progress [OF inv] by (auto simp: closing_def)
qed

end

end
