(* ===== verification/FifoQueue.thy ===== *)
theory FifoQueue
  imports Prelude
begin

text \<open>
  The FIFO queue of \<open>src/runtime/pool/fifo-queue.ts\<close>: a doubly linked list of nodes with a map
  from values to their nodes, so that a queued value can be moved to the front in constant
  time. Nodes are objects that share links; the model keeps an explicit store of nodes,
  addressed by number, and the two pointers of the class.
\<close>

section \<open>The class\<close>

record 'a node =
  node_value :: 'a
  node_previous :: "nat option"
  node_next :: "nat option"

record 'a FifoQueue =
  store :: "nat \<Rightarrow> 'a node option"
  fresh :: nat
  nodes :: "('a, nat) jsmap"
  head :: "nat option"
  tail :: "nat option"

definition fifo_new :: "'a FifoQueue" where
  "fifo_new = \<lparr>store = (\<lambda>_. None), fresh = 0, nodes = [], head = None, tail = None\<rparr>"

text \<open>Assigning to a field of the node at an address.\<close>

definition set_next :: "'a FifoQueue \<Rightarrow> nat \<Rightarrow> nat option \<Rightarrow> 'a FifoQueue" where
  "set_next q a p = q\<lparr>store := (store q)(a := map_option (\<lambda>n. n\<lparr>node_next := p\<rparr>) (store q a))\<rparr>"

definition set_previous :: "'a FifoQueue \<Rightarrow> nat \<Rightarrow> nat option \<Rightarrow> 'a FifoQueue" where
  "set_previous q a p = q\<lparr>store := (store q)(a := map_option (\<lambda>n. n\<lparr>node_previous := p\<rparr>) (store q a))\<rparr>"

definition fifo_length :: "'a FifoQueue \<Rightarrow> nat" where
  "fifo_length q = jm_size (nodes q)"

definition fifo_push :: "'a FifoQueue \<Rightarrow> 'a \<Rightarrow> 'a FifoQueue" where
  "fifo_push q v =
     (let a = fresh q;
          q1 = q\<lparr>store := (store q)(a \<mapsto> \<lparr>node_value = v, node_previous = tail q, node_next = None\<rparr>),
                 fresh := Suc a\<rparr>;
          q2 = (case tail q of
                  Some t \<Rightarrow> set_next q1 t (Some a)
                | None \<Rightarrow> q1\<lparr>head := Some a\<rparr>)
      in q2\<lparr>tail := Some a, nodes := jm_set (nodes q2) v a\<rparr>)"

definition fifo_shift :: "'a FifoQueue \<Rightarrow> 'a FifoQueue \<times> 'a option" where
  "fifo_shift q =
     (case head q of
        None \<Rightarrow> (q, None)
      | Some a \<Rightarrow>
          (case store q a of
             None \<Rightarrow> (q, None)
           | Some n \<Rightarrow>
               (let q1 = q\<lparr>head := node_next n\<rparr>;
                    q2 = (case node_next n of
                            Some b \<Rightarrow> set_previous q1 b None
                          | None \<Rightarrow> q1\<lparr>tail := None\<rparr>)
                in (q2\<lparr>nodes := jm_delete (nodes q2) (node_value n)\<rparr>, Some (node_value n)))))"

definition fifo_moveToFront :: "'a FifoQueue \<Rightarrow> 'a \<Rightarrow> 'a FifoQueue \<times> bool" where
  "fifo_moveToFront q v =
     (case jm_get (nodes q) v of
        None \<Rightarrow> (q, False)
      | Some a \<Rightarrow>
          if Some a = head q then (q, False)
          else
            (case store q a of
               None \<Rightarrow> (q, False)
             | Some n \<Rightarrow>
                 (let q1 = (case node_previous n of Some p \<Rightarrow> set_next q p (node_next n) | None \<Rightarrow> q);
                      q2 = (case node_next n of
                              Some b \<Rightarrow> set_previous q1 b (node_previous n)
                            | None \<Rightarrow> q1\<lparr>tail := node_previous n\<rparr>);
                      q3 = set_previous q2 a None;
                      q4 = set_next q3 a (head q3);
                      q5 = (case head q4 of Some h \<Rightarrow> set_previous q4 h (Some a) | None \<Rightarrow> q4)
                  in (q5\<lparr>head := Some a\<rparr>, True))))"

text \<open>The queued values, read by walking the links from the head.\<close>

fun fifo_walk :: "('a FifoQueue) \<Rightarrow> nat \<Rightarrow> nat option \<Rightarrow> 'a list" where
  "fifo_walk q 0 p = []"
| "fifo_walk q (Suc n) p =
     (case p of
        None \<Rightarrow> []
      | Some a \<Rightarrow> (case store q a of
                     None \<Rightarrow> []
                   | Some nd \<Rightarrow> node_value nd # fifo_walk q n (node_next nd)))"

definition fifo_contents :: "'a FifoQueue \<Rightarrow> 'a list" where
  "fifo_contents q = fifo_walk q (fifo_length q) (head q)"

section \<open>Linked segments\<close>

text \<open>
  A segment of the list: entries of address and value, linked in both directions, reached
  from \<open>p\<close> and continued by \<open>nx\<close>.
\<close>

definition first_of :: "(nat \<times> 'a) list \<Rightarrow> nat option \<Rightarrow> nat option" where
  "first_of es nx = (case es of [] \<Rightarrow> nx | e # _ \<Rightarrow> Some (fst e))"

definition last_of :: "nat option \<Rightarrow> (nat \<times> 'a) list \<Rightarrow> nat option" where
  "last_of p es = (if es = [] then p else Some (fst (last es)))"

fun segment ::
  "(nat \<Rightarrow> 'a node option) \<Rightarrow> nat option \<Rightarrow> (nat \<times> 'a) list \<Rightarrow> nat option \<Rightarrow> bool" where
  "segment st p [] nx = True"
| "segment st p (e # es) nx =
     (st (fst e) = Some \<lparr>node_value = snd e, node_previous = p, node_next = first_of es nx\<rparr> \<and>
      segment st (Some (fst e)) es nx)"

lemma first_of_simps [simp]:
  "first_of [] nx = nx" "first_of (e # es) nx = Some (fst e)"
  "first_of (xs @ ys) nx = first_of xs (first_of ys nx)"
  by (auto simp: first_of_def split: list.splits)

lemma last_of_simps [simp]:
  "last_of p [] = p" "last_of p (xs @ ys) = last_of (last_of p xs) ys"
  "last_of p (e # es) = last_of (Some (fst e)) es"
  by (auto simp: last_of_def)

lemma segment_append [simp]:
  "segment st p (xs @ ys) nx \<longleftrightarrow> segment st p xs (first_of ys nx) \<and> segment st (last_of p xs) ys nx"
  by (induction xs arbitrary: p) auto

lemma segment_frame:
  "\<forall>e \<in> set es. st' (fst e) = st (fst e) \<Longrightarrow> segment st' p es nx = segment st p es nx"
  by (induction es arbitrary: p) auto

lemma segment_upd_other:
  "a \<notin> fst ` set es \<Longrightarrow> segment (st(a := n)) p es nx = segment st p es nx"
  by (rule segment_frame) (auto simp: notin_fst_iff)

lemma segment_store: "segment st p es nx \<Longrightarrow> (a, v) \<in> set es \<Longrightarrow> \<exists>n. st a = Some n \<and> node_value n = v"
  by (induction es arbitrary: p) auto

lemma segment_walk:
  "segment (store q) p es None \<Longrightarrow> length es = n \<Longrightarrow> fifo_walk q n (first_of es None) = map snd es"
  by (induction es arbitrary: p n) auto

section \<open>Representation\<close>

definition fifo_rep :: "'a FifoQueue \<Rightarrow> (nat \<times> 'a) list \<Rightarrow> bool" where
  "fifo_rep q es \<longleftrightarrow>
     segment (store q) None es None \<and> head q = first_of es None \<and> tail q = last_of None es \<and>
     distinct (map fst es) \<and> distinct (map snd es) \<and> (\<forall>e \<in> set es. fst e < fresh q) \<and>
     jm_ok (nodes q) \<and> (\<forall>v a. jm_get (nodes q) v = Some a \<longleftrightarrow> (a, v) \<in> set es)"

definition fifo_ok :: "'a FifoQueue \<Rightarrow> bool" where
  "fifo_ok q \<longleftrightarrow> (\<exists>es. fifo_rep q es)"

lemma jm_keys_rep:
  assumes "\<forall>v a. jm_get m v = Some a \<longleftrightarrow> (a, v) \<in> set es"
  shows "set (map fst m) = set (map snd es)"
proof -
  have "v \<in> set (map fst m) \<longleftrightarrow> (\<exists>a. (a, v) \<in> set es)" for v
    using jm_get_None_iff [of m v] assms by (metis option.exhaust option.simps(3))
  moreover have "v \<in> set (map snd es) \<longleftrightarrow> (\<exists>a. (a, v) \<in> set es)" for v
    by force
  ultimately show ?thesis by blast
qed

lemma fifo_rep_length: "fifo_rep q es \<Longrightarrow> fifo_length q = length es"
  unfolding fifo_rep_def fifo_length_def jm_ok_def
  by (metis distinct_card jm_keys_rep length_map)

lemma fifo_rep_contents: "fifo_rep q es \<Longrightarrow> fifo_contents q = map snd es"
  using segment_walk [of q None es] fifo_rep_length [of q es]
  by (simp add: fifo_contents_def fifo_rep_def)

lemma fifo_ok_length: "fifo_ok q \<Longrightarrow> fifo_length q = length (fifo_contents q)"
  by (auto simp: fifo_ok_def fifo_rep_contents fifo_rep_length)

lemma fifo_rep_new: "fifo_rep fifo_new []"
  by (simp add: fifo_rep_def fifo_new_def)

lemma fifo_push_rep:
  assumes rep: "fifo_rep q es" and new: "v \<notin> set (map snd es)"
  shows "fifo_rep (fifo_push q v) (es @ [(fresh q, v)])"
proof (cases es rule: rev_cases)
  case Nil
  with rep new show ?thesis
    by (auto simp: fifo_rep_def fifo_push_def Let_def jm_get_set)
next
  case (snoc xs e)
  let ?a = "fresh q"
  have lt: "\<forall>e \<in> set es. fst e < ?a" and tl: "tail q = Some (fst e)"
    and seg: "segment (store q) None es None"
    using rep snoc by (auto simp: fifo_rep_def)
  define st where "st = (store q)(?a \<mapsto> \<lparr>node_value = v, node_previous = tail q, node_next = None\<rparr>,
    fst e \<mapsto> \<lparr>node_value = snd e, node_previous = last_of None xs, node_next = Some ?a\<rparr>)"
  have store_eq: "store (fifo_push q v) = st"
    using seg snoc tl lt
    by (auto simp: fifo_push_def Let_def set_next_def st_def fun_eq_iff)
  have "\<forall>x \<in> set xs. fst x \<noteq> fst e \<and> fst x \<noteq> ?a"
    using rep snoc lt by (fastforce simp: fifo_rep_def notin_fst_iff)
  then have "segment st None xs (Some (fst e))"
    using seg snoc by (subst segment_frame [where st = "store q"]) (auto simp: st_def)
  then have "segment (store (fifo_push q v)) None (es @ [(?a, v)]) None"
    using snoc tl lt store_eq by (auto simp: st_def)
  moreover have "nodes (fifo_push q v) = jm_set (nodes q) v ?a" "tail (fifo_push q v) = Some ?a"
    "head (fifo_push q v) = head q" "fresh (fifo_push q v) = Suc ?a"
    using tl by (simp_all add: fifo_push_def Let_def set_next_def)
  moreover have "(a, v) \<notin> set es" for a
    using new by force
  ultimately show ?thesis
    using rep new snoc lt by (auto simp: fifo_rep_def jm_get_set less_Suc_eq)
qed

lemma fifo_shift_rep:
  assumes rep: "fifo_rep q ((a, v) # es)"
  shows "\<exists>q'. fifo_shift q = (q', Some v) \<and> fifo_rep q' es"
proof -
  have node: "store q a = Some \<lparr>node_value = v, node_previous = None, node_next = first_of es None\<rparr>"
    and seg: "segment (store q) (Some a) es None" and hd: "head q = Some a"
    and tl: "tail q = last_of (Some a) es" and dist: "a \<notin> set (map fst es)" "distinct (map fst es)"
      "v \<notin> set (map snd es)" "distinct (map snd es)"
    and lt: "\<forall>e \<in> set es. fst e < fresh q"
    and map: "jm_ok (nodes q)" "\<forall>u b. jm_get (nodes q) u = Some b \<longleftrightarrow> (b, u) \<in> set ((a, v) # es)"
    using rep by (auto simp: fifo_rep_def)
  have get: "jm_get (jm_delete (nodes q) v) u = Some b \<longleftrightarrow> (b, u) \<in> set es" for u b
    using map(2) dist(3) by (force simp: jm_get_delete)
  show ?thesis
  proof (cases es)
    case Nil
    then have "\<forall>u. jm_get (jm_delete (nodes q) v) u = None"
      using get by (metis emptyE empty_set option.exhaust)
    with Nil node hd map(1) show ?thesis
      by (simp add: fifo_shift_def fifo_rep_def)
  next
    case (Cons e es')
    let ?st = "(store q)(fst e \<mapsto> \<lparr>node_value = snd e, node_previous = None, node_next = first_of es' None\<rparr>)"
    have "segment ?st (Some (fst e)) es' None"
      using seg Cons dist by (simp add: segment_upd_other)
    then show ?thesis
      using node hd seg Cons lt map(1) get dist tl
      by (auto simp: fifo_shift_def Let_def set_previous_def fifo_rep_def)
  qed
qed

lemma moved_segment:
  assumes seg: "segment st None (x # xs @ (a, v) # ys) None"
    and dist: "distinct (map fst (x # xs @ (a, v) # ys))"
    and mid: "segment st2 None (x # xs) (first_of ys None)"
    and rest: "segment st2 (last_of None (x # xs)) ys None"
    and frame: "st3 = st2(a \<mapsto> \<lparr>node_value = v, node_previous = None, node_next = Some (fst x)\<rparr>,
      fst x := map_option (\<lambda>n. n\<lparr>node_previous := Some a\<rparr>) (st2 (fst x)))"
  shows "segment st3 None ((a, v) # x # xs @ ys) None"
proof -
  have ne: "\<forall>e \<in> set (x # xs @ ys). fst e \<noteq> a" and nx: "\<forall>e \<in> set (xs @ ys). fst e \<noteq> fst x"
    using dist by (auto simp: notin_fst_iff)
  have "segment st2 (Some (fst x)) (xs @ ys) None"
    using mid rest by simp
  then have "segment st3 (Some (fst x)) (xs @ ys) None"
    using ne nx by (subst segment_frame [where st = st2]) (auto simp: frame)
  then show ?thesis
    using mid ne by (auto simp: frame)
qed

lemma segment_set_next:
  "segment st p (zs @ [l]) nx \<Longrightarrow> fst l \<notin> fst ` set zs \<Longrightarrow>
   segment (st(fst l := map_option (\<lambda>n. n\<lparr>node_next := nx'\<rparr>) (st (fst l)))) p (zs @ [l]) nx'"
  by (auto simp: segment_upd_other)

lemma segment_set_previous:
  "segment st p (y # ys) nx \<Longrightarrow> fst y \<notin> fst ` set ys \<Longrightarrow>
   segment (st(fst y := map_option (\<lambda>n. n\<lparr>node_previous := p'\<rparr>) (st (fst y)))) p' (y # ys) nx"
  by (auto simp: segment_upd_other)

text \<open>The store after the node between \<open>zs @ [l]\<close> and \<open>ys\<close> has been unlinked.\<close>

definition unlinked ::
  "(nat \<Rightarrow> 'a node option) \<Rightarrow> nat \<times> 'a \<Rightarrow> (nat \<times> 'a) list \<Rightarrow> (nat \<Rightarrow> 'a node option)" where
  "unlinked st l ys =
     (let st1 = st(fst l := map_option (\<lambda>n. n\<lparr>node_next := first_of ys None\<rparr>) (st (fst l)))
      in case ys of [] \<Rightarrow> st1
         | y # _ \<Rightarrow> st1(fst y := map_option (\<lambda>n. n\<lparr>node_previous := Some (fst l)\<rparr>) (st1 (fst y))))"

lemma unlinked_segments:
  assumes seg: "segment st None ((zs @ [l]) @ (a, v) # ys) None"
    and dist: "distinct (map fst ((zs @ [l]) @ (a, v) # ys))"
  shows "segment (unlinked st l ys) None (zs @ [l]) (first_of ys None)"
    and "segment (unlinked st l ys) (Some (fst l)) ys None"
    and "unlinked st l ys a = st a"
proof -
  let ?st = "st(fst l := map_option (\<lambda>n. n\<lparr>node_next := first_of ys None\<rparr>) (st (fst l)))"
  have front: "segment ?st None (zs @ [l]) (first_of ys None)"
    using seg dist by (intro segment_set_next [where nx = "Some a"]) auto
  have rear: "segment ?st (Some a) ys None"
    using seg dist by (auto simp: segment_upd_other)
  show "segment (unlinked st l ys) None (zs @ [l]) (first_of ys None)"
  proof (cases ys)
    case (Cons y ys')
    then have "fst y \<notin> fst ` set (zs @ [l])" using dist by auto
    from segment_upd_other [OF this] front show ?thesis
      unfolding unlinked_def Let_def Cons list.case by blast
  qed (use front in \<open>simp add: unlinked_def\<close>)
  show "segment (unlinked st l ys) (Some (fst l)) ys None"
  proof (cases ys)
    case (Cons y ys')
    then show ?thesis
      using segment_set_previous [of ?st "Some a" y ys' None "Some (fst l)"] rear dist
      by (simp add: unlinked_def Let_def)
  qed simp
  show "unlinked st l ys a = st a"
    using dist by (auto simp: unlinked_def Let_def split: list.split)
qed

lemma fifo_moveToFront_rep:
  assumes rep: "fifo_rep q (x # xs @ (a, v) # ys)"
  shows "\<exists>q'. fifo_moveToFront q v = (q', True) \<and> fifo_rep q' ((a, v) # x # xs @ ys)"
proof -
  let ?es = "x # xs @ (a, v) # ys"
  obtain zs l where zl: "x # xs = zs @ [l]" by (metis rev_exhaust list.distinct(1))
  have es: "?es = (zs @ [l]) @ (a, v) # ys" using zl by simp
  have seg: "segment (store q) None ?es None" and dist: "distinct (map fst ?es)"
    and hd: "head q = Some (fst x)" and tl: "tail q = last_of None ?es"
    and get: "jm_get (nodes q) v = Some a"
    using rep by (simp_all add: fifo_rep_def)
  have lo: "last_of None (x # xs) = Some (fst l)" unfolding zl by (simp add: last_of_def)
  have node: "store q a = Some \<lparr>node_value = v, node_previous = Some (fst l), node_next = first_of ys None\<rparr>"
    using seg lo by simp
  note un = unlinked_segments [OF seg [unfolded es] dist [unfolded es]]
  define st3 where "st3 = (unlinked (store q) l ys)
    (a \<mapsto> \<lparr>node_value = v, node_previous = None, node_next = Some (fst x)\<rparr>,
     fst x := map_option (\<lambda>n. n\<lparr>node_previous := Some a\<rparr>) (unlinked (store q) l ys (fst x)))"
  have "segment st3 None ((a, v) # x # xs @ ys) None"
    by (rule moved_segment [OF seg dist _ _ st3_def]) (use un lo zl in auto)
  moreover have "fst x \<noteq> a" using dist by auto
  moreover have "fifo_moveToFront q v =
      (q\<lparr>store := st3, head := Some a, tail := last_of None (x # xs @ ys)\<rparr>, True)"
  proof -
    have "fst x \<noteq> a" using dist by auto
    moreover have "fst l \<noteq> a" using dist [unfolded es] by auto
    moreover have "unlinked (store q) l ys a = store q a" by (rule un(3))
    ultimately show ?thesis
      using node hd get tl lo
      by (cases ys) (auto simp: fifo_moveToFront_def Let_def set_next_def set_previous_def st3_def
          unlinked_def fun_eq_iff)
  qed
  ultimately show ?thesis
    using rep by (auto simp: fifo_rep_def)
qed

section \<open>The queue contract\<close>

text \<open>
  What the task pool relies on: a queue of distinct values, read in order by \<open>contents\<close>.
\<close>

locale promotable_queue =
  fixes empty :: 'q
    and push :: "'q \<Rightarrow> 'a \<Rightarrow> 'q"
    and shift :: "'q \<Rightarrow> 'q \<times> 'a option"
    and moveToFront :: "'q \<Rightarrow> 'a \<Rightarrow> 'q \<times> bool"
    and len :: "'q \<Rightarrow> nat"
    and contents :: "'q \<Rightarrow> 'a list"
    and ok :: "'q \<Rightarrow> bool"
  assumes empty_ok: "ok empty" "contents empty = []"
    and contents_distinct: "ok q \<Longrightarrow> distinct (contents q)"
    and len_contents: "ok q \<Longrightarrow> len q = length (contents q)"
    and push_ok: "ok q \<Longrightarrow> v \<notin> set (contents q) \<Longrightarrow> ok (push q v)"
    and push_contents: "ok q \<Longrightarrow> v \<notin> set (contents q) \<Longrightarrow> contents (push q v) = contents q @ [v]"
    and shift_empty: "ok q \<Longrightarrow> contents q = [] \<Longrightarrow> shift q = (q, None)"
    and shift_some: "ok q \<Longrightarrow> contents q = v # vs \<Longrightarrow>
      \<exists>q'. shift q = (q', Some v) \<and> ok q' \<and> contents q' = vs"
    and front_absent: "ok q \<Longrightarrow> v \<notin> set (contents q) \<Longrightarrow> moveToFront q v = (q, False)"
    and front_head: "ok q \<Longrightarrow> contents q = v # vs \<Longrightarrow> moveToFront q v = (q, False)"
    and front_inner: "ok q \<Longrightarrow> contents q = u # us \<Longrightarrow> v \<in> set us \<Longrightarrow>
      \<exists>q'. moveToFront q v = (q', True) \<and> ok q' \<and> contents q' = v # u # remove1 v us"
begin

text \<open>Promotion never loses, duplicates or reorders the other values.\<close>

lemma front_ok: "ok q \<Longrightarrow> ok (fst (moveToFront q v))"
  by (metis front_absent front_head front_inner fst_conv list.exhaust list.set_cases set_ConsD)

lemma front_mset: "ok q \<Longrightarrow> mset (contents (fst (moveToFront q v))) = mset (contents q)"
proof (cases "contents q")
  case (Cons u us)
  assume q: "ok q"
  consider "v = u" | "v \<noteq> u" "v \<in> set us" | "v \<notin> set (contents q)"
    using Cons by auto
  then show ?thesis
  proof cases
    case 2
    then show ?thesis using front_inner [OF q Cons 2(2)] Cons by auto
  qed (use q Cons front_head front_absent in auto)
qed (simp add: front_absent)

lemma front_set: "ok q \<Longrightarrow> set (contents (fst (moveToFront q v))) = set (contents q)"
  by (metis front_mset set_mset_mset)

end

lemma distinct_snd_split:
  assumes "distinct (map snd es)" and "v \<in> set (map snd es)"
  obtains xs a ys where "es = xs @ (a, v) # ys" "v \<notin> set (map snd xs)"
proof -
  obtain a where "(a, v) \<in> set es" using assms(2) by auto
  then obtain xs ys where "es = xs @ (a, v) # ys" by (metis split_list)
  with assms(1) that show ?thesis by auto
qed

interpretation fifo: promotable_queue fifo_new fifo_push fifo_shift fifo_moveToFront fifo_length
  fifo_contents fifo_ok
proof (unfold_locales, goal_cases)
  case 1
  show ?case using fifo_rep_new by (auto simp: fifo_ok_def)
next
  case 2
  show ?case using fifo_rep_contents [OF fifo_rep_new] by simp
next
  case (3 q)
  then show ?case by (metis fifo_ok_def fifo_rep_contents fifo_rep_def)
next
  case (4 q)
  then show ?case by (rule fifo_ok_length)
next
  case (5 q v)
  then show ?case by (metis fifo_ok_def fifo_push_rep fifo_rep_contents)
next
  case (6 q v)
  then obtain es where "fifo_rep q es" by (auto simp: fifo_ok_def)
  with 6 show ?case
    by (metis (no_types, lifting) fifo_push_rep fifo_rep_contents list.simps(8,9) map_append snd_conv)
next
  case (7 q)
  then have "fifo_rep q []" by (auto simp: fifo_ok_def fifo_rep_contents)
  then show ?case by (simp add: fifo_shift_def fifo_rep_def)
next
  case (8 q v vs)
  then obtain a es where es: "fifo_rep q ((a, v) # es)" "vs = map snd es"
    by (auto simp: fifo_ok_def fifo_rep_contents map_eq_Cons_conv)
  from fifo_shift_rep [OF es(1)] obtain q' where "fifo_shift q = (q', Some v)" "fifo_rep q' es"
    by blast
  with es(2) show ?case
    using fifo_rep_contents by (auto simp: fifo_ok_def)
next
  case (9 q v)
  then obtain es where es: "fifo_rep q es" "v \<notin> set (map snd es)"
    by (auto simp: fifo_ok_def fifo_rep_contents)
  then have "jm_get (nodes q) v = None"
    by (auto simp: fifo_rep_def simp flip: not_Some_eq) (metis image_eqI snd_conv)
  then show ?case by (simp add: fifo_moveToFront_def)
next
  case (10 q v vs)
  then obtain a es where es: "fifo_rep q ((a, v) # es)"
    by (auto simp: fifo_ok_def fifo_rep_contents map_eq_Cons_conv)
  then have "jm_get (nodes q) v = Some a" "head q = Some a"
    by (simp_all add: fifo_rep_def)
  then show ?case by (simp add: fifo_moveToFront_def)
next
  case (11 q u us v)
  then obtain x es where es: "fifo_rep q (x # es)" "u = snd x" "us = map snd es"
    by (auto simp: fifo_ok_def fifo_rep_contents map_eq_Cons_conv)
  have "distinct (map snd es)" using es(1) by (simp add: fifo_rep_def)
  with 11(3) es(3) obtain xs a ys where split: "es = xs @ (a, v) # ys" "v \<notin> set (map snd xs)"
    by (metis distinct_snd_split)
  from fifo_moveToFront_rep es(1) split obtain q' where
    q': "fifo_moveToFront q v = (q', True)" "fifo_rep q' ((a, v) # x # xs @ ys)"
    by metis
  have "remove1 v us = map snd (xs @ ys)"
    using es(3) split by (simp add: remove1_append)
  with q' es(2) show ?case
    using fifo_rep_contents [OF q'(2)] by (auto simp: fifo_ok_def)
qed

section \<open>Refinement of a list\<close>

text \<open>
  The specification: a plain list. A call of the class is an operation, its result an output.
\<close>

datatype 'a queue_op = Push 'a | Shift | MoveToFront 'a
datatype 'a queue_output = Done | Shifted "'a option" | Moved bool

fun list_exec :: "'a list \<Rightarrow> 'a queue_op \<Rightarrow> 'a list \<times> 'a queue_output" where
  "list_exec vs (Push v) = (vs @ [v], Done)"
| "list_exec [] Shift = ([], Shifted None)"
| "list_exec (v # vs) Shift = (vs, Shifted (Some v))"
| "list_exec vs (MoveToFront v) =
     (if v \<in> set vs \<and> hd vs \<noteq> v then (v # remove1 v vs, Moved True) else (vs, Moved False))"

fun fifo_exec :: "'a FifoQueue \<Rightarrow> 'a queue_op \<Rightarrow> 'a FifoQueue \<times> 'a queue_output" where
  "fifo_exec q (Push v) = (fifo_push q v, Done)"
| "fifo_exec q Shift = (case fifo_shift q of (q', x) \<Rightarrow> (q', Shifted x))"
| "fifo_exec q (MoveToFront v) = (case fifo_moveToFront q v of (q', b) \<Rightarrow> (q', Moved b))"

fun run_ops :: "('q \<Rightarrow> 'op \<Rightarrow> 'q \<times> 'out) \<Rightarrow> 'q \<Rightarrow> 'op list \<Rightarrow> 'q \<times> 'out list" where
  "run_ops f q [] = (q, [])"
| "run_ops f q (x # xs) =
     (case f q x of (q', y) \<Rightarrow> case run_ops f q' xs of (q'', ys) \<Rightarrow> (q'', y # ys))"

text \<open>Callers push an object at most once while it is queued.\<close>

fun pushes_fresh :: "'a list \<Rightarrow> 'a queue_op list \<Rightarrow> bool" where
  "pushes_fresh vs [] = True"
| "pushes_fresh vs (x # xs) =
     ((case x of Push v \<Rightarrow> v \<notin> set vs | _ \<Rightarrow> True) \<and> pushes_fresh (fst (list_exec vs x)) xs)"

lemma fifo_exec_refines:
  assumes "fifo_ok q" and "case x of Push v \<Rightarrow> v \<notin> set (fifo_contents q) | _ \<Rightarrow> True"
  shows "\<exists>q'. fifo_exec q x = (q', snd (list_exec (fifo_contents q) x)) \<and> fifo_ok q' \<and>
    fifo_contents q' = fst (list_exec (fifo_contents q) x)"
proof (cases x)
  case (Push v)
  with assms show ?thesis using fifo.push_ok fifo.push_contents by auto
next
  case Shift
  with assms fifo.shift_empty fifo.shift_some show ?thesis
    by (cases "fifo_contents q") fastforce+
next
  case (MoveToFront v)
  show ?thesis
  proof (cases "fifo_contents q")
    case Nil
    with MoveToFront assms fifo.front_absent [OF assms(1)] show ?thesis by simp
  next
    case (Cons u us)
    consider "u = v" | "v \<notin> set (fifo_contents q)" | "u \<noteq> v" "v \<in> set us"
      using Cons by auto
    then show ?thesis
    proof cases
      case 1
      with MoveToFront Cons fifo.front_head [OF assms(1)] assms show ?thesis by simp
    next
      case 2
      with MoveToFront fifo.front_absent [OF assms(1)] assms show ?thesis by simp
    next
      case 3
      with MoveToFront Cons fifo.front_inner [OF assms(1) Cons 3(2)] show ?thesis by auto
    qed
  qed
qed

lemma fifo_run_refines:
  assumes "fifo_ok q" and "pushes_fresh (fifo_contents q) xs"
  shows "\<exists>q'. run_ops fifo_exec q xs = (q', snd (run_ops list_exec (fifo_contents q) xs)) \<and>
    fifo_ok q' \<and> fifo_contents q' = fst (run_ops list_exec (fifo_contents q) xs)"
  using assms
proof (induction xs arbitrary: q)
  case (Cons x xs)
  then obtain q1 where q1: "fifo_exec q x = (q1, snd (list_exec (fifo_contents q) x))"
    "fifo_ok q1" "fifo_contents q1 = fst (list_exec (fifo_contents q) x)"
    using fifo_exec_refines [OF Cons.prems(1)] by auto
  moreover have "pushes_fresh (fifo_contents q1) xs"
    using Cons.prems(2) q1(3) by simp
  ultimately show ?case
    using Cons.IH [OF q1(2)] by (auto simp: split_beta)
qed simp

text \<open>
  C10. The linked FIFO queue refines a list. For every sequence of \<open>push\<close>, \<open>shift\<close> and
  \<open>moveToFront\<close> calls on a new queue in which no queued object is pushed again, the calls
  return what the list returns, and the links describe exactly the list's content.
\<close>

theorem fifo_queue_refines_list:
  fixes xs :: "'a queue_op list"
  assumes "pushes_fresh [] xs"
  shows "\<exists>q. run_ops fifo_exec fifo_new xs = (q, snd (run_ops list_exec [] xs)) \<and>
    fifo_contents q = fst (run_ops list_exec [] xs) \<and>
    fifo_length q = length (fst (run_ops list_exec [] xs))"
proof -
  have new: "fifo_ok (fifo_new :: 'a FifoQueue)" "fifo_contents (fifo_new :: 'a FifoQueue) = []"
    by (rule fifo.empty_ok)+
  with assms obtain q where "run_ops fifo_exec fifo_new xs = (q, snd (run_ops list_exec [] xs))"
    "fifo_ok q" "fifo_contents q = fst (run_ops list_exec [] xs)"
    using fifo_run_refines [of fifo_new xs] by auto
  then show ?thesis by (auto simp: fifo_ok_length)
qed

theorem fifo_queue_refines_list_witness:
  "\<exists>q. run_ops fifo_exec fifo_new [Push 1, Push 2, Push (3::nat), MoveToFront 3, Shift, Shift] =
      (q, [Done, Done, Done, Moved True, Shifted (Some 3), Shifted (Some 1)]) \<and>
    fifo_contents q = [2] \<and> fifo_length q = 1"
proof -
  let ?xs = "[Push 1, Push 2, Push (3::nat), MoveToFront 3, Shift, Shift]"
  have "pushes_fresh [] ?xs" by simp
  from fifo_queue_refines_list [OF this] show ?thesis by simp
qed

end
