(* ===== verification/TaskPool.thy ===== *)
theory TaskPool
  imports PoolProgress FifoQueue
begin

text \<open>
  The task pool of \<open>src/runtime/pool/task-pool.ts\<close>: the pool of \<open>PoolCore\<close> on the queue of
  \<open>FifoQueue\<close>. Tasks start in the order they were added; a task whose context is aborted while
  it waits is moved to the front so that it is dispatched, and finishes, early.
\<close>

section \<open>The class\<close>

definition fifo_ops :: "nat FifoQueue queue_ops" where
  "fifo_ops = \<lparr>q_pop = fifo_shift, q_length = fifo_length, q_promote = fifo_moveToFront\<rparr>"

lemma fifo_ops_simps [simp]:
  "q_pop fifo_ops = fifo_shift" "q_length fifo_ops = fifo_length" "q_promote fifo_ops = fifo_moveToFront"
  by (simp_all add: fifo_ops_def)

type_synonym TaskPool = "nat FifoQueue pool"

text \<open>The constructor; \<open>m\<close> are the instruments \<open>makeTaskPoolMetrics\<close> returned.\<close>

definition taskPool_new :: "int option \<Rightarrow> string \<Rightarrow> number \<Rightarrow> pool_metrics option \<Rightarrow> string + TaskPool" where
  "taskPool_new cores n requested m =
     mapR (\<lambda>k. new_pool n fifo_new k m) (normalizeExecutorsCount cores requested)"

abbreviation fifo_insert :: "unit \<Rightarrow> nat FifoQueue \<Rightarrow> nat \<Rightarrow> nat FifoQueue" where
  "fifo_insert \<equiv> \<lambda>_. fifo_push"

definition taskPool_run ::
  "int option \<Rightarrow> TaskPool \<Rightarrow> (world \<times> unit pool_event) list \<Rightarrow> TaskPool" where
  "taskPool_run cores p evs = pool_run fifo_ops fifo_insert cores p evs"

interpretation task_pool: pool_contract fifo_ops fifo_contents fifo_ok fifo_insert "\<lambda>_. True"
proof (unfold_locales, goal_cases)
  case (1 q)
  then show ?case by (simp add: fifo.len_contents)
next
  case (2 q t ts)
  then show ?case using fifo.shift_some by simp
next
  case (3 q t)
  then show ?case by (simp add: fifo.front_ok fifo.front_mset)
next
  case (4 a q t)
  then show ?case by (simp add: fifo.push_ok fifo.push_contents)
qed

lemma taskPool_new_inv:
  assumes "taskPool_new cores n k m = Inr p" and "\<forall>c. cores = Some c \<longrightarrow> 1 \<le> c"
  shows "pool_inv fifo_contents fifo_ok p"
proof -
  obtain e where e: "normalizeExecutorsCount cores k = Inr e" "p = new_pool n fifo_new e m"
    using assms(1) by (auto simp: taskPool_new_def result_simps)
  have "fifo_ok (fifo_new :: nat FifoQueue)" "fifo_contents (fifo_new :: nat FifoQueue) = []"
    by (simp_all add: fifo.empty_ok)
  then show ?thesis
    using task_pool.new_pool_inv normalizeExecutorsCount_positive [OF e(1) assms(2)] e(2) by blast
qed

lemma taskPool_reachable_inv:
  assumes "taskPool_new cores n k m = Inr p" and "\<forall>c. cores = Some c \<longrightarrow> 1 \<le> c"
  shows "pool_inv fifo_contents fifo_ok (taskPool_run cores p evs)"
  unfolding taskPool_run_def
  using task_pool.run_inv [OF taskPool_new_inv [OF assms] _ assms(2)] by (simp add: accepts_def split: pool_event.split)

section \<open>Every accepted task is accounted for\<close>

text \<open>
  C1. Whatever calls are made on a task pool, and however aborts, microtasks and completions
  interleave with them, every accepted task is at any time in exactly one place (queued,
  scheduled, running or finished); the active count is the number of scheduled and running
  tasks; no executor idles while tasks wait in a started pool; a pool that is still stopping
  has work left, and one that is stopped has none and its drain is resolved.
\<close>

theorem taskPool_accounting:
  assumes "taskPool_new cores n k m = Inr p0" and "\<forall>c. cores = Some c \<longrightarrow> 1 \<le> c"
    and "p = taskPool_run cores p0 evs"
  shows "mset (fifo_contents (pool_queue p)) + mset (microtasks p) + mset (map fst (running p)) +
      mset (finished p) = mset [0..<length (tasks p)] \<and>
    active p = int (length (microtasks p) + length (running p)) \<and>
    (pool_state p = Running \<or> pool_state p = Stopping \<longrightarrow>
      fifo_contents (pool_queue p) = [] \<or> executorsCount p \<le> active p) \<and>
    (pool_state p = Stopping \<longrightarrow> fifo_contents (pool_queue p) \<noteq> [] \<or> active p \<noteq> 0) \<and>
    (pool_state p = Stopped \<longrightarrow>
      drain p = Some True \<and> active p = 0 \<and> fifo_contents (pool_queue p) = [])"
  using taskPool_reachable_inv [OF assms(1,2), of evs] assms(3)
  unfolding pool_inv_def accounted_def lifecycle_ok_def pumped_def by blast

text \<open>A pool with one executor that takes two tasks, runs the first, and is then stopped.\<close>

definition quiet_world :: world where
  "quiet_world = \<lparr>clock = 0, abort_reason = (\<lambda>_. None), next_error = 0\<rparr>"

definition plain_context :: "signal \<Rightarrow> context_state" where
  "plain_context s = \<lparr>ctx_signal = s, ctx_deadline = None, ctx_sampling = False\<rparr>"

definition two_tasks :: "(world \<times> unit pool_event) list" where
  "two_tasks = [(quiet_world, Start), (quiet_world, AddTask () (plain_context 1)),
     (quiet_world, AddTask () (plain_context 2)), (quiet_world, Microtask Returned), (quiet_world, Stop)]"

definition one_executor :: TaskPool where
  "one_executor = new_pool ''p'' fifo_new 1 None"

lemma one_executor_new: "taskPool_new None ''p'' (Finite 1) None = Inr one_executor"
proof -
  have "normalizeExecutorsCount None (Finite 1) = Inr 1" by code_simp
  then show ?thesis by (simp add: taskPool_new_def one_executor_def)
qed

lemma two_tasks_run:
  "tasks (taskPool_run None one_executor two_tasks) = [plain_context 1, plain_context 2]"
  "pool_state (taskPool_run None one_executor two_tasks) = Stopping"
  "executorsCount (taskPool_run None one_executor two_tasks) = 1"
  by code_simp+

theorem taskPool_accounting_witness:
  "mset (fifo_contents (pool_queue (taskPool_run None one_executor two_tasks))) +
     mset (microtasks (taskPool_run None one_executor two_tasks)) +
     mset (map fst (running (taskPool_run None one_executor two_tasks))) +
     mset (finished (taskPool_run None one_executor two_tasks)) = mset [0, 1] \<and>
   1 \<le> active (taskPool_run None one_executor two_tasks)"
  using taskPool_accounting [OF one_executor_new _ refl, of two_tasks] two_tasks_run
  by (auto simp: upt_rec)

section \<open>Order\<close>

text \<open>
  The start order so far, followed by the queue, is the order of admission, apart from the
  tasks whose signal is in \<open>A\<close>.
\<close>

definition fifo_order :: "signal set \<Rightarrow> TaskPool \<Rightarrow> bool" where
  "fifo_order A p \<longleftrightarrow> subscriptions_ok p \<and>
     set (started p @ fifo_contents (pool_queue p)) \<subseteq> {0..<length (tasks p)} \<and>
     filter (\<lambda>t. task_signal p t \<notin> A) (started p @ fifo_contents (pool_queue p)) =
     filter (\<lambda>t. task_signal p t \<notin> A) [0..<length (tasks p)]"

lemma fifo_order_cong:
  assumes "tasks p = tasks p'" "subscriptions p = subscriptions p'" "started p = started p'"
    and "pool_queue p = pool_queue p'"
  shows "fifo_order A p = fifo_order A p'"
  using assms by (simp add: fifo_order_def subscriptions_ok_def task_signal_def)

lemma fifo_order_fields [simp]:
  "fifo_order A (with_metrics f p) = fifo_order A p" "fifo_order A (reportPoolError w p e t) = fifo_order A p"
  "fifo_order A (p\<lparr>microtasks := ms\<rparr>) = fifo_order A p" "fifo_order A (p\<lparr>running := rs\<rparr>) = fifo_order A p"
  "fifo_order A (p\<lparr>finished := ms\<rparr>) = fifo_order A p" "fifo_order A (p\<lparr>active := k\<rparr>) = fifo_order A p"
  "fifo_order A (p\<lparr>pool_state := st\<rparr>) = fifo_order A p" "fifo_order A (p\<lparr>drain := d\<rparr>) = fifo_order A p"
  "fifo_order A (p\<lparr>executorsCount := k\<rparr>) = fifo_order A p" "fifo_order A (finishDrainIfIdle ops p) = fifo_order A p"
  by (rule fifo_order_cong; simp add: reportPoolError_def finishDrainIfIdle_def)+

lemma pump_fifo_order:
  assumes "fifo_ok (pool_queue p)" and "fifo_order A p"
  shows "fifo_order A (pump fifo_ops p)"
proof -
  have "fifo_order A (pump_loop fifo_ops p)"
    using assms(2) pump_loop_subscriptions [of p fifo_ops]
    unfolding fifo_order_def task_pool.pump_loop_started [OF assms(1)] by (simp add: task_signal_def)
  then show ?thesis using assms(2) by (simp add: pump_def)
qed

lemma taskFinished_fifo_order:
  "fifo_ok (pool_queue p) \<Longrightarrow> fifo_order A p \<Longrightarrow> fifo_order A (taskFinished fifo_ops w p t b)"
  unfolding taskFinished_def Let_def by (rule pump_fifo_order) simp_all

lemma run_next_fifo_order:
  "fifo_ok (pool_queue p) \<Longrightarrow> fifo_order A p \<Longrightarrow> fifo_order A (run_next fifo_ops w p r)"
  by (auto simp: run_next_def Let_def taskFinished_fifo_order split: list.split outcome.split)

lemma settle_fifo_order:
  "fifo_ok (pool_queue p) \<Longrightarrow> fifo_order A p \<Longrightarrow> fifo_order A (settle fifo_ops w p t r)"
  by (auto simp: settle_def Let_def taskFinished_fifo_order split: option.split)

lemma start_fifo_order:
  "fifo_ok (pool_queue p) \<Longrightarrow> fifo_order A p \<Longrightarrow> start fifo_ops p = Inr p' \<Longrightarrow> fifo_order A p'"
  by (auto simp: start_def pump_fifo_order split: if_splits)

lemma resize_fifo_order:
  "fifo_ok (pool_queue p) \<Longrightarrow> fifo_order A p \<Longrightarrow> resize fifo_ops cores p n = Inr p' \<Longrightarrow> fifo_order A p'"
  by (auto simp: resize_def Let_def pump_fifo_order result_simps split: if_splits)

lemma stop_fifo_order:
  "fifo_ok (pool_queue p) \<Longrightarrow> fifo_order A p \<Longrightarrow> fifo_order A (fst (stop fifo_ops p))"
  by (auto simp: stop_def Let_def pump_fifo_order)

lemma moveToFront_others:
  assumes "fifo_ok q"
  shows "filter (\<lambda>u. u \<noteq> t) (fifo_contents (fst (fifo_moveToFront q t))) =
    filter (\<lambda>u. u \<noteq> t) (fifo_contents q)"
proof (cases "fifo_contents q")
  case Nil
  then show ?thesis using fifo.front_absent [OF assms, of t] by simp
next
  case (Cons u us)
  show ?thesis
  proof (cases "u = t")
    case True
    then show ?thesis using fifo.front_head [OF assms] Cons by simp
  next
    case False
    show ?thesis
    proof (cases "t \<in> set us")
      case True
      then obtain q' where "fifo_moveToFront q t = (q', True)" "fifo_contents q' = t # u # remove1 t us"
        using fifo.front_inner [OF assms Cons] by blast
      moreover have "distinct us" using fifo.contents_distinct [OF assms] Cons by simp
      ultimately show ?thesis
        using False Cons by (auto simp: distinct_remove1_removeAll removeAll_filter_not_eq intro!: filter_cong)
    next
      case f: False
      with False Cons have "t \<notin> set (fifo_contents q)" by simp
      then show ?thesis using fifo.front_absent [OF assms] by simp
    qed
  qed
qed

lemma cancel_fifo_order:
  assumes "fifo_ok (pool_queue p)" and "fifo_order A p" and "task_signal p t \<in> A"
  shows "fifo_order A (cancel fifo_ops p t)"
proof -
  let ?q = "fst (fifo_moveToFront (pool_queue p) t)"
  have *: "filter (\<lambda>u. task_signal p u \<notin> A) xs =
      filter (\<lambda>u. task_signal p u \<notin> A) (filter (\<lambda>u. u \<noteq> t) xs)" for xs
    using assms(3) by (induction xs) auto
  have "filter (\<lambda>u. task_signal p u \<notin> A) (fifo_contents ?q) =
      filter (\<lambda>u. task_signal p u \<notin> A) (fifo_contents (pool_queue p))"
    unfolding * [of "fifo_contents ?q"] moveToFront_others [OF assms(1)] * [symmetric] ..
  then have "fifo_order A (p\<lparr>pool_queue := ?q\<rparr>)"
    using assms(2) fifo.front_set [OF assms(1)]
    by (simp add: fifo_order_def subscriptions_ok_def task_signal_def)
  moreover have "fifo_ok ?q" using assms(1) by (rule fifo.front_ok)
  ultimately show ?thesis
    unfolding cancel_def Let_def split_beta by (intro pump_fifo_order) simp_all
qed

lemma pump_fifo_ok:
  "pool_inv fifo_contents fifo_ok p \<Longrightarrow> fifo_ok (pool_queue p)"
  by (simp add: pool_inv_def accounted_def)

lemma notify_all_fifo_order:
  assumes "pool_inv fifo_contents fifo_ok p" and "fifo_order A p" and "s \<in> A"
  shows "fifo_order A (notify_all fifo_ops s p ts)"
  using assms(1,2)
proof (induction ts arbitrary: p)
  case (Cons t ts)
  show ?case
  proof (cases "\<exists>cbs. jm_get (subscriptions p) s = Some cbs \<and> t \<in> set cbs")
    case True
    then have "task_signal p t \<in> A"
      using Cons.prems(2) assms(3) by (auto simp: fifo_order_def subscriptions_ok_def)
    then have "fifo_order A (cancel fifo_ops p t)"
      using Cons.prems pump_fifo_ok cancel_fifo_order by blast
    with True Cons show ?thesis by (auto simp: task_pool.cancel_inv)
  next
    case False
    with Cons show ?thesis by (auto split: option.split)
  qed
qed simp

lemma abort_fifo_order:
  assumes "pool_inv fifo_contents fifo_ok p" and "fifo_order A p" and "s \<in> A"
  shows "fifo_order A (abort_listener fifo_ops s p)"
proof -
  have "fifo_order A (q\<lparr>subscriptions := jm_delete (subscriptions q) s\<rparr>)" if "fifo_order A q" for q
    using that by (auto simp: fifo_order_def subscriptions_ok_def task_signal_def jsmap_simps split: if_splits)
  then show ?thesis
    using notify_all_fifo_order [OF assms] assms(2) by (auto simp: abort_listener_def Let_def split: option.split)
qed

lemma addTask_fifo_order:
  assumes inv: "pool_inv fifo_contents fifo_ok p" and ord: "fifo_order A p"
  shows "fifo_order A (fst (addTask fifo_ops fifo_push w p c))"
proof (cases "cancelled w c \<or> pool_state p = Stopping \<or> pool_state p = Stopped")
  case True
  with ord show ?thesis by (simp add: task_pool.addTask_refused reject_def)
next
  case False
  let ?t = "length (tasks p)"
  let ?a = "p\<lparr>tasks := tasks p @ [c]\<rparr>"
  let ?b = "(subscribe ?a ?t)\<lparr>pool_queue := fifo_push (pool_queue p) ?t\<rparr>"
  have q: "fifo_ok (pool_queue p)" using inv by (rule pump_fifo_ok)
  have eq: "mset (fifo_contents (pool_queue p)) + mset (microtasks p) + mset (map fst (running p)) +
      mset (finished p) = mset [0..<?t]"
    using inv by (simp add: pool_inv_def accounted_def)
  have "set_mset (mset (fifo_contents (pool_queue p))) \<subseteq> set_mset (mset [0..<?t])"
    unfolding eq [symmetric] by auto
  then have fresh: "?t \<notin> set (fifo_contents (pool_queue p))" by auto
  have sig: "task_signal ?a u = task_signal p u" if "u < ?t" for u
    using that by (simp add: task_signal_def nth_append)
  have old: "subscriptions_ok ?a" using ord by (intro subscriptions_new_task) (simp add: fifo_order_def)
  have "subscriptions_ok (subscribe ?a ?t)" using old by (rule subscribe_subscriptions) simp
  moreover have "filter (\<lambda>u. task_signal ?a u \<notin> A) xs = filter (\<lambda>u. task_signal p u \<notin> A) xs"
    if "set xs \<subseteq> {0..<?t}" for xs
    using that sig by (intro filter_cong) auto
  ultimately have "fifo_order A ?b"
    using ord fifo.push_contents [OF q fresh] unfolding fifo_order_def
    by (simp add: task_signal_def subscriptions_ok_def) (auto simp: less_Suc_eq)
  moreover have "fifo_ok (pool_queue ?b)" using fifo.push_ok [OF q fresh] by simp
  ultimately have "fifo_order A (pump fifo_ops (with_metrics f ?b))" for f
    by (intro pump_fifo_order) simp_all
  with False show ?thesis
    using cancelled_if_aborted [of w c] by (auto simp: addTask_def Let_def)
qed

lemma step_fifo_order:
  assumes "pool_inv fifo_contents fifo_ok p" and "fifo_order A p" and "\<And>s. e = Abort s \<Longrightarrow> s \<in> A"
  shows "fifo_order A (pool_step fifo_ops fifo_insert cores p (w, e))"
proof -
  note q = pump_fifo_ok [OF assms(1)]
  note rest = run_next_fifo_order [OF q assms(2)] settle_fifo_order [OF q assms(2)] stop_fifo_order [OF q assms(2)]
  show ?thesis
  proof (cases e)
    case (AddTask a c)
    then show ?thesis using addTask_fifo_order [OF assms(1,2)] by simp
  next
    case Start
    then show ?thesis using start_fifo_order [OF q assms(2)] assms(2) by (auto split: sum.split)
  next
    case (Resize n)
    then show ?thesis using resize_fifo_order [OF q assms(2)] assms(2) by (auto split: sum.split)
  next
    case (Abort s)
    then show ?thesis using abort_fifo_order [OF assms(1,2)] assms(3) by simp
  qed (use rest in simp_all)
qed

lemma run_fifo_order:
  assumes "pool_inv fifo_contents fifo_ok p" and "fifo_order A p" and "\<forall>c. cores = Some c \<longrightarrow> 1 \<le> c"
    and "\<And>w s. (w, Abort s) \<in> set evs \<Longrightarrow> s \<in> A"
  shows "fifo_order A (pool_run fifo_ops fifo_insert cores p evs)"
  using assms(1,2,4)
proof (induction evs arbitrary: p)
  case Nil
  then show ?case by (simp add: pool_run_def)
next
  case (Cons e evs)
  obtain w ev where e: "e = (w, ev)" by (cases e)
  have "accepts (\<lambda>_. True) ev" by (simp add: accepts_def split: pool_event.split)
  then have "pool_inv fifo_contents fifo_ok (pool_step fifo_ops fifo_insert cores p e)"
    unfolding e using task_pool.step_inv [OF Cons.prems(1) _ assms(3)] by blast
  moreover have "fifo_order A (pool_step fifo_ops fifo_insert cores p e)"
    unfolding e using Cons.prems e by (intro step_fifo_order) auto
  moreover have "\<And>w s. (w, Abort s) \<in> set evs \<Longrightarrow> s \<in> A"
    using Cons.prems(3) by (metis list.set_intros(2))
  ultimately have "fifo_order A (pool_run fifo_ops fifo_insert cores (pool_step fifo_ops fifo_insert cores p e) evs)"
    by (rule Cons.IH)
  then show ?case by (simp add: pool_run_def)
qed

text \<open>
  C3. Tasks are started in the order they were added: the tasks started so far, followed by
  those that wait, are all accepted tasks in admission order, except that tasks whose own
  signal was aborted may have been moved ahead. An abort never reorders the other tasks.
\<close>

theorem taskPool_fifo:
  assumes "taskPool_new cores n k m = Inr p0" and "\<forall>c. cores = Some c \<longrightarrow> 1 \<le> c"
    and "p = taskPool_run cores p0 evs" and "A = {s. \<exists>w. (w, Abort s) \<in> set evs}"
  shows "filter (\<lambda>t. task_signal p t \<notin> A) (started p @ fifo_contents (pool_queue p)) =
    filter (\<lambda>t. task_signal p t \<notin> A) [0..<length (tasks p)]"
proof -
  have "fifo_contents (fifo_new :: nat FifoQueue) = []" by (simp add: fifo.empty_ok)
  then have "fifo_order A p0"
    using assms(1) by (auto simp: taskPool_new_def result_simps new_pool_def fifo_order_def subscriptions_ok_def)
  then have "fifo_order A p"
    unfolding assms(3) taskPool_run_def using taskPool_new_inv [OF assms(1,2)] assms(2,4)
    by (intro run_fifo_order) auto
  then show ?thesis by (simp add: fifo_order_def)
qed

text \<open>Three tasks wait behind a full pool; the last one's signal is aborted.\<close>

definition aborted_third :: "(world \<times> unit pool_event) list" where
  "aborted_third = [(quiet_world, Start), (quiet_world, AddTask () (plain_context 1)),
     (quiet_world, AddTask () (plain_context 2)), (quiet_world, AddTask () (plain_context 3)),
     (quiet_world, AddTask () (plain_context 4)), (quiet_world, Abort 4)]"

lemma aborted_third_run:
  "fifo_contents (pool_queue (taskPool_run None one_executor aborted_third)) = [3, 1, 2]"
  "map (task_signal (taskPool_run None one_executor aborted_third)) [0, 1, 2, 3] = [1, 2, 3, 4]"
  "length (tasks (taskPool_run None one_executor aborted_third)) = 4"
  by code_simp+

theorem taskPool_fifo_witness:
  "filter (\<lambda>t. task_signal (taskPool_run None one_executor aborted_third) t \<notin> {4})
     (started (taskPool_run None one_executor aborted_third) @ [3, 1, 2]) = [0, 1, 2]"
proof -
  have "{s. \<exists>w. (w, Abort s) \<in> set aborted_third} = {4}"
    by (auto simp: aborted_third_def)
  then show ?thesis
    using taskPool_fifo [OF one_executor_new _ refl refl, of aborted_third] aborted_third_run
    by (simp add: upt_rec numeral_eq_Suc)
qed

section \<open>Draining\<close>

lemma stop_closing:
  assumes "pool_inv contents ok p"
  shows "closing (fst (stop ops p))"
proof -
  have "closing (pump ops (p\<lparr>pool_state := Stopping, drain := Some False\<rparr>))"
    by (rule pump_closing) (simp add: closing_def)
  then have "closing (finishDrainIfIdle ops (pump ops (p\<lparr>pool_state := Stopping, drain := Some False\<rparr>)))"
    by (simp add: finishDrainIfIdle_def closing_def)
  then show ?thesis
    using assms by (cases "pool_state p") (auto simp: stop_def Let_def closing_def pool_inv_def lifecycle_ok_def)
qed

lemma taskPool_run_snoc:
  "taskPool_run cores p (evs @ [e]) = pool_step fifo_ops fifo_insert cores (taskPool_run cores p evs) e"
  by (simp add: taskPool_run_def pool_run_def)

text \<open>
  C2. After \<open>stop\<close> a task pool drains: however the remaining microtasks and completions are
  ordered, and whether tasks return, throw or reject, at most \<open>work\<close> of them happen; as long as
  the pool is not stopped one of them is due, and when none is due the pool is stopped, its
  drain promise is resolved and every accepted task has finished, exactly once.
\<close>

theorem taskPool_drains:
  assumes "taskPool_new cores n k m = Inr p0" and "\<forall>c. cores = Some c \<longrightarrow> 1 \<le> c"
    and "p = taskPool_run cores p0 (evs @ [(w, Stop)])"
    and "progress_run fifo_ops fifo_insert cores p rest" and "p' = taskPool_run cores p rest"
  shows "length rest \<le> work fifo_contents p \<and>
    ((\<exists>e :: unit pool_event. progress p' e) \<or>
     (pool_state p' = Stopped \<and> drain p' = Some True \<and>
      mset (finished p') = mset [0..<length (tasks p')]))"
proof -
  have inv: "pool_inv fifo_contents fifo_ok p"
    unfolding assms(3) by (rule taskPool_reachable_inv [OF assms(1,2)])
  have "closing p"
    unfolding assms(3) taskPool_run_snoc
    using stop_closing [OF taskPool_reachable_inv [OF assms(1,2), of evs]] by simp
  then show ?thesis
    using task_pool.drains [OF inv _ assms(4,2)] unfolding assms(5) taskPool_run_def by blast
qed

text \<open>After the run of \<open>two_tasks\<close>: the first task rejects, the second one throws.\<close>

definition rest_of_two :: "(world \<times> unit pool_event) list" where
  "rest_of_two = [(quiet_world, Completion 0 (Some (NonError ''bad''))),
     (quiet_world, Microtask (Threw (NonError ''worse'')))]"

theorem taskPool_drains_witness:
  "length rest_of_two \<le> work fifo_contents (taskPool_run None one_executor two_tasks) \<and>
   pool_state (taskPool_run None (taskPool_run None one_executor two_tasks) rest_of_two) = Stopped \<and>
   mset (finished (taskPool_run None (taskPool_run None one_executor two_tasks) rest_of_two)) = mset [0, 1]"
proof -
  let ?p = "taskPool_run None one_executor two_tasks"
  let ?p' = "taskPool_run None ?p rest_of_two"
  have split: "?p = taskPool_run None one_executor (butlast two_tasks @ [(quiet_world, Stop)])"
    by (simp add: two_tasks_def)
  have run: "progress_run fifo_ops fifo_insert None ?p rest_of_two" by code_simp
  have idle: "microtasks ?p' = []" "running ?p' = []" by code_simp+
  have "length (tasks ?p') = 2" by code_simp
  moreover have "\<not> progress ?p' e" for e :: "unit pool_event"
    using idle by (cases e) simp_all
  ultimately show ?thesis
    using taskPool_drains [OF one_executor_new _ split run refl] by (simp add: upt_rec)
qed

section \<open>Concurrency\<close>

text \<open>
  No event makes a task pool run more tasks at once than it has executors: after any event
  the active count is at most the larger of what it was and the executors count then in
  force, so a pool that is never shrunk never exceeds its size.
\<close>

theorem taskPool_concurrency:
  assumes "taskPool_new cores n k m = Inr p0" and "\<forall>c. cores = Some c \<longrightarrow> 1 \<le> c"
    and "p = taskPool_run cores p0 evs" and "p' = taskPool_run cores p [(w, e)]"
  shows "active p' \<le> max (active p) (executorsCount p')"
  using task_pool.step_bounded [OF taskPool_reachable_inv [OF assms(1,2), of evs] _ assms(2), of e w]
  unfolding assms(3,4) by (simp add: taskPool_run_def pool_run_def accepts_def split: pool_event.split)

theorem taskPool_concurrency_witness:
  "active (taskPool_run None (taskPool_run None one_executor two_tasks)
     [(quiet_world, Completion 0 None)]) \<le> 1"
proof -
  have "active (taskPool_run None one_executor two_tasks) = 1" by code_simp
  moreover have "executorsCount (taskPool_run None (taskPool_run None one_executor two_tasks)
     [(quiet_world, Completion 0 None)]) = 1" by code_simp
  ultimately show ?thesis
    using taskPool_concurrency [OF one_executor_new _ refl refl, of two_tasks quiet_world "Completion 0 None"]
    by simp
qed

end
