(* ===== verification/IndexedHeap.thy ===== *)
theory IndexedHeap
  imports Prelude
begin

text \<open>
  The indexed binary min-heap of \<open>src/runtime/pool/indexed-heap.ts\<close>: an array of items and a
  map from each item to its position, so that removal and reprioritisation do not scan the
  array. The comparison is a parameter, as it is of the class's constructor; items are object
  identities, whose sort keys may change between calls (then \<open>fix\<close> restores the order).
\<close>

section \<open>The class\<close>

record 'a IndexedHeap =
  items :: "'a list"
  positions :: "'a \<Rightarrow> nat option"

type_synonym 'a comparison = "'a \<Rightarrow> 'a \<Rightarrow> int"

definition heap_new :: "'a IndexedHeap" where
  "heap_new = \<lparr>items = [], positions = (\<lambda>_. None)\<rparr>"

definition heap_length :: "'a IndexedHeap \<Rightarrow> nat" where
  "heap_length h = length (items h)"

definition heap_peek :: "'a IndexedHeap \<Rightarrow> 'a option" where
  "heap_peek h = elem_at (items h) 0"

definition heap_has :: "'a IndexedHeap \<Rightarrow> 'a \<Rightarrow> bool" where
  "heap_has h item = (positions h item \<noteq> None)"

definition heap_swap :: "'a IndexedHeap \<Rightarrow> nat \<Rightarrow> nat \<Rightarrow> string + 'a IndexedHeap" where
  "heap_swap h a b =
     (case (elem_at (items h) a, elem_at (items h) b) of
        (Some left, Some right) \<Rightarrow>
          Inr (h\<lparr>items := (items h)[a := right, b := left],
                 positions := (positions h)(right \<mapsto> a, left \<mapsto> b)\<rparr>)
      | _ \<Rightarrow> Inl ''invalid heap index'')"

lemma heap_swap_length: "heap_swap h a b = Inr h' \<Longrightarrow> length (items h') = length (items h)"
  by (auto simp: heap_swap_def split: option.splits)

definition parent :: "nat \<Rightarrow> nat" where
  "parent index = (index - 1) div 2"

lemma parent_less: "0 < i \<Longrightarrow> parent i < i"
  by (simp add: parent_def)

lemma parent_le: "parent i \<le> i"
  by (simp add: parent_def)

lemma parent_cases: "0 < d \<Longrightarrow> parent d = i \<Longrightarrow> d = i * 2 + 1 \<or> d = i * 2 + 2"
  unfolding parent_def by presburger

lemma parent_children [simp]: "parent (Suc (i * 2)) = i" "parent (Suc (Suc (i * 2))) = i" "parent 0 = 0"
  by (simp_all add: parent_def)

text \<open>The loop of \<open>up\<close>: it climbs while the item is smaller than its parent.\<close>

function heap_up ::
  "'a comparison \<Rightarrow> 'a IndexedHeap \<Rightarrow> nat \<Rightarrow> string + 'a IndexedHeap \<times> nat" where
  "heap_up compare h index =
     (if index > 0 then
        case (elem_at (items h) index, elem_at (items h) (parent index)) of
          (Some item, Some other) \<Rightarrow>
            if compare item other \<ge> 0 then Inr (h, index)
            else (case heap_swap h index (parent index) of
                    Inl e \<Rightarrow> Inl e
                  | Inr h' \<Rightarrow> heap_up compare h' (parent index))
        | _ \<Rightarrow> Inr (h, index)
      else Inr (h, index))"
  by pat_completeness auto
termination
  by (relation "measure (\<lambda>(c, h, i). i)") (auto simp: parent_less)

text \<open>The child the loop of \<open>down\<close> looks at: the right one when it is smaller than the left.\<close>

definition smaller_child :: "'a comparison \<Rightarrow> 'a IndexedHeap \<Rightarrow> nat \<Rightarrow> 'a \<Rightarrow> nat" where
  "smaller_child compare h index left =
     (case elem_at (items h) (index * 2 + 2) of
        Some right \<Rightarrow> if compare right left < 0 then index * 2 + 2 else index * 2 + 1
      | None \<Rightarrow> index * 2 + 1)"

function heap_down :: "'a comparison \<Rightarrow> 'a IndexedHeap \<Rightarrow> nat \<Rightarrow> string + 'a IndexedHeap" where
  "heap_down compare h index =
     (case elem_at (items h) (index * 2 + 1) of
        None \<Rightarrow> Inr h
      | Some left \<Rightarrow>
          (case (elem_at (items h) index,
                 elem_at (items h) (smaller_child compare h index left)) of
             (Some item, Some smallest) \<Rightarrow>
               if compare item smallest \<le> 0 then Inr h
               else (case heap_swap h index (smaller_child compare h index left) of
                       Inl e \<Rightarrow> Inl e
                     | Inr h' \<Rightarrow> heap_down compare h' (smaller_child compare h index left))
           | _ \<Rightarrow> Inr h))"
  by pat_completeness auto
termination
proof (relation "measure (\<lambda>(c, h, i). length (items h) - i)", goal_cases)
  case (2 compare h index left p item smallest h')
  then show ?case
    by (auto simp: smaller_child_def dest!: heap_swap_length split: option.splits if_splits)
qed simp

declare heap_up.simps [simp del] heap_down.simps [simp del]

definition heap_fix :: "'a comparison \<Rightarrow> 'a IndexedHeap \<Rightarrow> 'a \<Rightarrow> string + 'a IndexedHeap" where
  "heap_fix compare h item =
     (case positions h item of
        None \<Rightarrow> Inr h
      | Some index \<Rightarrow> bindR (heap_up compare h index) (\<lambda>(h', i). heap_down compare h' i))"

definition heap_push :: "'a comparison \<Rightarrow> 'a IndexedHeap \<Rightarrow> 'a \<Rightarrow> string + 'a IndexedHeap" where
  "heap_push compare h item =
     (let h' = h\<lparr>items := items h @ [item],
                 positions := (positions h)(item \<mapsto> length (items h))\<rparr>
      in mapR fst (heap_up compare h' (length (items h') - 1)))"

definition heap_remove ::
  "'a comparison \<Rightarrow> 'a IndexedHeap \<Rightarrow> 'a \<Rightarrow> string + 'a IndexedHeap \<times> bool" where
  "heap_remove compare h item =
     (case positions h item of
        None \<Rightarrow> Inr (h, False)
      | Some index \<Rightarrow>
          (let popped = butlast (items h);
               h' = h\<lparr>items := popped, positions := (positions h)(item := None)\<rparr>
           in if items h \<noteq> [] \<and> index < length popped
              then mapR (\<lambda>h''. (h'', True))
                     (heap_fix compare
                        (h'\<lparr>items := popped[index := last (items h)],
                            positions := (positions h')(last (items h) \<mapsto> index)\<rparr>)
                        (last (items h)))
              else Inr (h', True)))"

definition heap_pop :: "'a comparison \<Rightarrow> 'a IndexedHeap \<Rightarrow> string + 'a IndexedHeap \<times> 'a option" where
  "heap_pop compare h =
     (case heap_peek h of
        None \<Rightarrow> Inr (h, None)
      | Some item \<Rightarrow> mapR (\<lambda>(h', _). (h', Some item)) (heap_remove compare h item))"

section \<open>Positions\<close>

text \<open>The position map is the inverse of the array: every item sits where the map says.\<close>

definition positions_ok :: "'a IndexedHeap \<Rightarrow> bool" where
  "positions_ok h \<longleftrightarrow>
     (\<forall>x i. positions h x = Some i \<longleftrightarrow> i < length (items h) \<and> items h ! i = x)"

lemma positions_okD:
  "positions_ok h \<Longrightarrow> positions h x = Some i \<Longrightarrow> i < length (items h) \<and> items h ! i = x"
  by (simp add: positions_ok_def)

lemma positions_ok_nth:
  "positions_ok h \<Longrightarrow> i < length (items h) \<Longrightarrow> positions h (items h ! i) = Some i"
  by (simp add: positions_ok_def)

lemma positions_ok_inj:
  "positions_ok h \<Longrightarrow> i < length (items h) \<Longrightarrow> j < length (items h) \<Longrightarrow>
   items h ! i = items h ! j \<Longrightarrow> i = j"
  by (metis option.inject positions_ok_nth)

lemma positions_ok_distinct: "positions_ok h \<Longrightarrow> distinct (items h)"
  by (metis distinct_conv_nth positions_ok_inj)

lemma positions_ok_None: "positions_ok h \<Longrightarrow> positions h x = None \<longleftrightarrow> x \<notin> set (items h)"
  unfolding positions_ok_def by (metis in_set_conv_nth not_None_eq)

lemma heap_swap_Inr:
  assumes "a < length (items h)" and "b < length (items h)"
  shows "heap_swap h a b =
    Inr (h\<lparr>items := (items h)[a := items h ! b, b := items h ! a],
           positions := (positions h)(items h ! b \<mapsto> a, items h ! a \<mapsto> b)\<rparr>)"
  using assms by (simp add: heap_swap_def elem_at_in_range)

lemma heap_swap_spec:
  assumes "positions_ok h" and "a < length (items h)" and "b < length (items h)"
  obtains h' where "heap_swap h a b = Inr h'" "positions_ok h'"
    "mset (items h') = mset (items h)" "length (items h') = length (items h)"
    "\<And>i. i < length (items h) \<Longrightarrow>
       items h' ! i = (if i = a then items h ! b else if i = b then items h ! a else items h ! i)"
proof -
  let ?h' = "h\<lparr>items := (items h)[a := items h ! b, b := items h ! a],
               positions := (positions h)(items h ! b \<mapsto> a, items h ! a \<mapsto> b)\<rparr>"
  have nth: "items ?h' ! i =
      (if i = a then items h ! b else if i = b then items h ! a else items h ! i)"
    if "i < length (items h)" for i
    using that assms(2,3) by (auto simp: nth_list_update)
  have "positions_ok ?h'"
    unfolding positions_ok_def
  proof (intro allI)
    fix x i
    show "positions ?h' x = Some i \<longleftrightarrow> i < length (items ?h') \<and> items ?h' ! i = x"
    proof (cases "i < length (items h)")
      case True
      then show ?thesis
        unfolding nth [OF True]
        using assms positions_ok_nth [OF assms(1)] positions_okD [OF assms(1)]
        by (auto dest: positions_ok_inj [OF assms(1)])
    next
      case False
      then show ?thesis
        using assms positions_okD [OF assms(1)] by auto
    qed
  qed
  moreover have "mset (items ?h') = mset (items h)"
    using assms(2,3) by (simp add: mset_swap)
  ultimately show ?thesis
    using that [of ?h'] heap_swap_Inr [OF assms(2,3)] nth by simp
qed

lemma positions_drop_last:
  assumes pos: "positions_ok h" and ne: "items h \<noteq> []"
  shows "positions_ok
    (h\<lparr>items := butlast (items h), positions := (positions h)(last (items h) := None)\<rparr>)"
    (is "positions_ok ?h")
  unfolding positions_ok_def
proof (intro allI)
  let ?n = "length (items h) - 1"
  have n: "?n < length (items h)" and last: "last (items h) = items h ! ?n"
    using ne by (simp_all add: last_conv_nth)
  fix y i
  show "positions ?h y = Some i \<longleftrightarrow> i < length (items ?h) \<and> items ?h ! i = y"
  proof (cases "i < ?n")
    case True
    then have "items h ! i \<noteq> last (items h)"
      using positions_ok_inj [OF pos less_trans [OF True n] n] last by auto
    with True pos show ?thesis by (auto simp: positions_ok_def nth_butlast)
  next
    case False
    then have "positions h y = Some i \<Longrightarrow> y = last (items h)"
      using positions_okD [OF pos, of y i] last by (cases "i = ?n") auto
    with False show ?thesis by auto
  qed
qed

lemma positions_fill_hole:
  assumes pos: "positions_ok h" and ne: "items h \<noteq> []" and k: "k < length (items h) - 1"
  shows "positions_ok
    (h\<lparr>items := (butlast (items h))[k := last (items h)],
       positions := (positions h)(items h ! k := None, last (items h) \<mapsto> k)\<rparr>)"
    (is "positions_ok ?h")
  unfolding positions_ok_def
proof (intro allI)
  let ?n = "length (items h) - 1"
  have n: "?n < length (items h)" and last: "last (items h) = items h ! ?n"
    using ne by (simp_all add: last_conv_nth)
  have y: "last (items h) \<noteq> items h ! k"
    using positions_ok_inj [OF pos n less_trans [OF k n]] k last by auto
  fix z i
  show "positions ?h z = Some i \<longleftrightarrow> i < length (items ?h) \<and> items ?h ! i = z"
  proof (cases "i < ?n")
    case True
    then have "items ?h ! i = (if i = k then last (items h) else items h ! i)"
      by (simp add: nth_list_update nth_butlast)
    moreover have "items h ! i \<noteq> last (items h)"
      using positions_ok_inj [OF pos less_trans [OF True n] n] True last by auto
    moreover have "i \<noteq> k \<Longrightarrow> items h ! i \<noteq> items h ! k"
      using positions_ok_inj [OF pos less_trans [OF True n] less_trans [OF k n]] by auto
    ultimately show ?thesis
      using True pos y by (auto simp: positions_ok_def)
  next
    case False
    then have "positions h z = Some i \<Longrightarrow> z = last (items h)"
      using positions_okD [OF pos, of z i] last by (cases "i = ?n") auto
    with False k show ?thesis by auto
  qed
qed

section \<open>Order\<close>

text \<open>
  What the heap needs of its comparison: the sign is antisymmetric and the order it
  describes is transitive. Under this contract the climb and the descent restore the heap
  order from a single violation.
\<close>

definition heap_ordered :: "'a comparison \<Rightarrow> 'a IndexedHeap \<Rightarrow> bool" where
  "heap_ordered compare h \<longleftrightarrow>
     (\<forall>i. 0 < i \<and> i < length (items h) \<longrightarrow> compare (items h ! parent i) (items h ! i) \<le> 0)"

text \<open>
  The order with the item at \<open>k\<close> left out: edges that do not touch \<open>k\<close> are ordered, and the
  parent of \<open>k\<close> is below the children of \<open>k\<close>.
\<close>

definition ordered_except :: "'a comparison \<Rightarrow> 'a IndexedHeap \<Rightarrow> nat \<Rightarrow> bool" where
  "ordered_except compare h k \<longleftrightarrow>
     (\<forall>i. 0 < i \<and> i < length (items h) \<and> i \<noteq> k \<and> parent i \<noteq> k \<longrightarrow>
            compare (items h ! parent i) (items h ! i) \<le> 0) \<and>
     (\<forall>c. 0 < k \<and> 0 < c \<and> c < length (items h) \<and> parent c = k \<longrightarrow>
            compare (items h ! parent k) (items h ! c) \<le> 0)"

definition above_ok :: "'a comparison \<Rightarrow> 'a IndexedHeap \<Rightarrow> nat \<Rightarrow> bool" where
  "above_ok compare h k \<longleftrightarrow> (0 < k \<longrightarrow> compare (items h ! parent k) (items h ! k) \<le> 0)"

definition heap_inv :: "'a comparison \<Rightarrow> 'a IndexedHeap \<Rightarrow> bool" where
  "heap_inv compare h \<longleftrightarrow> positions_ok h \<and> heap_ordered compare h"

definition below_ok :: "'a comparison \<Rightarrow> 'a IndexedHeap \<Rightarrow> nat \<Rightarrow> bool" where
  "below_ok compare h k \<longleftrightarrow>
     (\<forall>d. 0 < d \<and> d < length (items h) \<and> parent d = k \<longrightarrow> compare (items h ! k) (items h ! d) \<le> 0)"

lemma heap_inv_new: "heap_inv compare heap_new"
  by (simp add: heap_inv_def heap_new_def positions_ok_def heap_ordered_def)

locale comparator =
  fixes compare :: "'a comparison"
  assumes compare_sign: "compare a b < 0 \<longleftrightarrow> 0 < compare b a"
    and compare_trans: "compare a b \<le> 0 \<Longrightarrow> compare b c \<le> 0 \<Longrightarrow> compare a c \<le> 0"
begin

lemma compare_total: "compare a b \<le> 0 \<or> compare b a \<le> 0"
  using compare_sign [of a b] by linarith

lemma compare_refl [simp]: "compare a a \<le> 0"
  using compare_total by blast

lemma compare_flip: "0 \<le> compare a b \<longleftrightarrow> compare b a \<le> 0"
  using compare_sign [of a b] by linarith

lemma ordered_except_if_ordered:
  assumes "heap_ordered compare h" and "k < length (items h)"
  shows "ordered_except compare h k"
proof -
  have edge: "0 < i \<Longrightarrow> i < length (items h) \<Longrightarrow> compare (items h ! parent i) (items h ! i) \<le> 0" for i
    using assms(1) by (simp add: heap_ordered_def)
  then show ?thesis
    unfolding ordered_except_def using assms(2) by (metis compare_trans)
qed

lemma hole_ordered:
  assumes "heap_ordered compare h" and "k < length (items h)"
    and nth: "\<And>i. i < length (items h) - 1 \<Longrightarrow> items h' ! i = (if i = k then y else items h ! i)"
    and len: "length (items h') = length (items h) - 1"
  shows "ordered_except compare h' k"
proof -
  have exc: "ordered_except compare h k"
    by (rule ordered_except_if_ordered [OF assms(1,2)])
  have same: "items h' ! i = items h ! i" if "i < length (items h')" "i \<noteq> k" for i
    using nth [of i] len that by simp
  show ?thesis
    unfolding ordered_except_def
  proof (intro conjI allI impI)
    fix i assume i: "0 < i \<and> i < length (items h') \<and> i \<noteq> k \<and> parent i \<noteq> k"
    then have "parent i < length (items h')" and "i < length (items h)"
      using parent_less [of i] len by auto
    with i exc show "compare (items h' ! parent i) (items h' ! i) \<le> 0"
      by (simp add: ordered_except_def same)
  next
    fix c assume c: "0 < k \<and> 0 < c \<and> c < length (items h') \<and> parent c = k"
    then have "parent k < k" "k < c" "parent k < length (items h')" "c < length (items h)"
      using parent_less [of k] parent_less [of c] len by auto
    with c exc show "compare (items h' ! parent k) (items h' ! c) \<le> 0"
      by (simp add: ordered_except_def same)
  qed
qed

lemma climb_step:
  assumes ord: "ordered_except compare h k" and k: "0 < k" "k < length (items h)"
    and less: "compare (items h ! k) (items h ! parent k) < 0"
    and len: "length (items h') = length (items h)"
    and nth: "\<And>i. i < length (items h) \<Longrightarrow> items h' ! i =
      (if i = k then items h ! parent k else if i = parent k then items h ! k else items h ! i)"
  shows "ordered_except compare h' (parent k)"
proof -
  have pk: "parent k < k" "parent k < length (items h)"
    using k parent_less [OF k(1)] by auto
  have up: "compare (items h ! parent (parent k)) (items h ! parent k) \<le> 0" if "0 < parent k"
  proof -
    have "parent (parent k) \<noteq> k" using pk parent_less [OF that] by auto
    with that pk ord show ?thesis unfolding ordered_except_def by auto
  qed
  have edge: "compare (items h' ! parent i) (items h' ! i) \<le> 0"
    if i: "0 < i" "i < length (items h')" "i \<noteq> parent k" "parent i \<noteq> parent k" for i
  proof (cases "parent i = k")
    case True
    with i len k have "compare (items h ! parent k) (items h ! i) \<le> 0"
      using ord unfolding ordered_except_def by auto
    moreover have "i \<noteq> k" using True parent_less [OF i(1)] by auto
    ultimately show ?thesis
      using True i len nth [of i] nth [of k] k by simp
  next
    case False
    have "i \<noteq> k" using i by auto
    with False i len have "compare (items h ! parent i) (items h ! i) \<le> 0"
      using ord unfolding ordered_except_def by auto
    moreover have "parent i < length (items h)" using i len parent_less [OF i(1)] by auto
    ultimately show ?thesis
      using i len nth [of i] nth [of "parent i"] \<open>i \<noteq> k\<close> False by simp
  qed
  have grand: "compare (items h' ! parent (parent k)) (items h' ! c) \<le> 0"
    if c: "0 < parent k" "0 < c" "c < length (items h')" "parent c = parent k" for c
  proof -
    have pp: "parent (parent k) < length (items h)" "parent (parent k) \<noteq> k"
      "parent (parent k) \<noteq> parent k"
      using parent_less [OF c(1)] pk by linarith+
    then have top: "items h' ! parent (parent k) = items h ! parent (parent k)"
      using nth by simp
    show ?thesis
    proof (cases "c = k")
      case True
      then show ?thesis using top nth up c k by simp
    next
      case False
      have "c \<noteq> parent k" using c parent_less [OF c(2)] by auto
      moreover have "compare (items h ! parent k) (items h ! c) \<le> 0"
        using ord False c len unfolding ordered_except_def by (metis nat_neq_iff pk(1))
      ultimately show ?thesis
        using top nth up c False compare_trans len by metis
    qed
  qed
  show ?thesis
    unfolding ordered_except_def using edge grand by blast
qed

lemma climb_below:
  assumes ord: "ordered_except compare h k" and k: "0 < k" "k < length (items h)"
    and less: "compare (items h ! k) (items h ! parent k) < 0"
    and len: "length (items h') = length (items h)"
    and nth: "\<And>i. i < length (items h) \<Longrightarrow> items h' ! i =
      (if i = k then items h ! parent k else if i = parent k then items h ! k else items h ! i)"
  shows "below_ok compare h' (parent k)"
  unfolding below_ok_def
proof (intro allI impI)
  fix d assume d: "0 < d \<and> d < length (items h') \<and> parent d = parent k"
  have pk: "parent k < k" "parent k \<noteq> d"
    using parent_less [OF k(1)] parent_less [of d] d by auto
  then have top: "items h' ! parent k = items h ! k" using nth k by simp
  show "compare (items h' ! parent k) (items h' ! d) \<le> 0"
  proof (cases "d = k")
    case True
    then show ?thesis using top nth k less by simp
  next
    case False
    then have "compare (items h ! parent k) (items h ! d) \<le> 0"
      using ord d pk len unfolding ordered_except_def by (metis nat_neq_iff)
    then have "compare (items h ! k) (items h ! d) \<le> 0"
      using less compare_trans by (meson less_imp_le)
    then show ?thesis using top nth d False pk len by simp
  qed
qed

lemma descend_step:
  assumes ord: "ordered_except compare h k" and above: "above_ok compare h k"
    and c: "0 < c" "parent c = k" "c < length (items h)"
    and less: "0 < compare (items h ! k) (items h ! c)"
    and smallest: "\<And>d. 0 < d \<Longrightarrow> d < length (items h) \<Longrightarrow> parent d = k \<Longrightarrow>
      compare (items h ! c) (items h ! d) \<le> 0"
    and len: "length (items h') = length (items h)"
    and nth: "\<And>i. i < length (items h) \<Longrightarrow> items h' ! i =
      (if i = k then items h ! c else if i = c then items h ! k else items h ! i)"
  shows "ordered_except compare h' c" and "above_ok compare h' c"
proof -
  have kc: "k < c" using c parent_less [OF c(1)] by auto
  have edge: "compare (items h' ! parent i) (items h' ! i) \<le> 0"
    if i: "0 < i" "i < length (items h')" "i \<noteq> c" "parent i \<noteq> c" for i
  proof -
    have pi: "parent i < length (items h)" "parent i \<noteq> i"
      using i len parent_less [OF i(1)] by auto
    note at = nth [of i] nth [of "parent i"]
    consider "i = k" | "parent i = k" | "i \<noteq> k" "parent i \<noteq> k" by blast
    then show ?thesis
    proof cases
      case 1
      with ord c i have "compare (items h ! parent k) (items h ! c) \<le> 0"
        unfolding ordered_except_def by auto
      then show ?thesis using 1 pi at i len by simp
    next
      case 2
      then have "compare (items h ! c) (items h ! i) \<le> 0"
        using smallest i len by auto
      then show ?thesis using 2 pi at i len by simp
    next
      case 3
      then have "compare (items h ! parent i) (items h ! i) \<le> 0"
        using ord i len unfolding ordered_except_def by auto
      then show ?thesis using 3 pi at i len by simp
    qed
  qed
  have below: "compare (items h' ! parent c) (items h' ! d) \<le> 0"
    if d: "0 < d" "d < length (items h')" "parent d = c" for d
  proof -
    have "d \<noteq> k" "parent d \<noteq> k" "d \<noteq> c" using d kc parent_less [OF d(1)] by auto
    then have "compare (items h ! c) (items h ! d) \<le> 0"
      using ord d len unfolding ordered_except_def by auto
    then show ?thesis
      using nth [of k] nth [of d] c d len kc \<open>d \<noteq> k\<close> \<open>d \<noteq> c\<close> by simp
  qed
  show "ordered_except compare h' c"
    unfolding ordered_except_def using edge below by blast
  have "compare (items h ! c) (items h ! k) \<le> 0"
    using less compare_sign by (meson less_le)
  then show "above_ok compare h' c"
    unfolding above_ok_def using nth [of k] nth [of c] c kc by simp
qed

lemma up_spec:
  assumes "positions_ok h" and "ordered_except compare h k" and "k < length (items h)"
  shows "\<exists>h' j. heap_up compare h k = Inr (h', j) \<and> positions_ok h' \<and>
    mset (items h') = mset (items h) \<and> j < length (items h') \<and>
    ordered_except compare h' j \<and> above_ok compare h' j \<and>
    (below_ok compare h k \<longrightarrow> below_ok compare h' j)"
  using assms
proof (induction k arbitrary: h rule: less_induct)
  case (less k)
  show ?case
  proof (cases "0 < k \<and> compare (items h ! k) (items h ! parent k) < 0")
    case False
    then have "heap_up compare h k = Inr (h, k)" and "above_ok compare h k"
      using less.prems(3) compare_flip
      by (auto simp: heap_up.simps [of compare h k] above_ok_def not_less split: option.splits)
    with less.prems show ?thesis by blast
  next
    case True
    then have pk: "parent k < k" "parent k < length (items h)"
      using less.prems(3) parent_less [of k] by auto
    obtain h1 where swap: "heap_swap h k (parent k) = Inr h1" "positions_ok h1"
      "mset (items h1) = mset (items h)" "length (items h1) = length (items h)"
      "\<And>i. i < length (items h) \<Longrightarrow> items h1 ! i =
        (if i = k then items h ! parent k else if i = parent k then items h ! k else items h ! i)"
      using heap_swap_spec [OF less.prems(1,3) pk(2)] by blast
    have "ordered_except compare h1 (parent k)" and "below_ok compare h1 (parent k)"
      using climb_step [OF less.prems(2) _ less.prems(3) _ swap(4,5)]
        climb_below [OF less.prems(2) _ less.prems(3) _ swap(4,5)] True by blast+
    moreover have "heap_up compare h k = heap_up compare h1 (parent k)"
      using True less.prems(3) pk swap(1)
      by (simp add: heap_up.simps [of compare h k] elem_at_in_range)
    ultimately show ?thesis
      using less.IH [OF pk(1) swap(2)] pk swap(3,4) by auto
  qed
qed

lemma smaller_child_spec:
  assumes "index * 2 + 1 < length (items h)" and "left = items h ! (index * 2 + 1)"
  defines "c \<equiv> smaller_child compare h index left"
  shows "0 < c" "parent c = index" "c < length (items h)" "index < c"
    and "\<And>d. 0 < d \<Longrightarrow> d < length (items h) \<Longrightarrow> parent d = index \<Longrightarrow>
      compare (items h ! c) (items h ! d) \<le> 0"
proof -
  show "0 < c" "parent c = index" "c < length (items h)" "index < c"
    using assms(1) by (auto simp: c_def smaller_child_def split: option.splits)
  fix d assume d: "0 < d" "d < length (items h)" "parent d = index"
  then consider "d = index * 2 + 1" | "d = index * 2 + 2"
    using parent_cases by blast
  then show "compare (items h ! c) (items h ! d) \<le> 0"
  proof cases
    case 1
    then show ?thesis using assms(2)
      by (auto simp: c_def smaller_child_def split: option.splits)
  next
    case 2
    then show ?thesis
      using d(2) compare_flip [of "items h ! (index * 2 + 2)" "items h ! (index * 2 + 1)"]
      unfolding c_def smaller_child_def assms(2) by (auto simp: elem_at_in_range not_less)
  qed
qed

lemma ordered_if_children_ok:
  assumes "ordered_except compare h k" and "above_ok compare h k"
    and "\<And>d. 0 < d \<Longrightarrow> d < length (items h) \<Longrightarrow> parent d = k \<Longrightarrow>
      compare (items h ! k) (items h ! d) \<le> 0"
  shows "heap_ordered compare h"
  using assms unfolding heap_ordered_def ordered_except_def above_ok_def by metis

lemma down_spec:
  assumes "positions_ok h" and "ordered_except compare h k" and "above_ok compare h k"
    and "k < length (items h)"
  shows "\<exists>h'. heap_down compare h k = Inr h' \<and> positions_ok h' \<and>
    mset (items h') = mset (items h) \<and> heap_ordered compare h'"
  using assms
proof (induction "length (items h) - k" arbitrary: h k rule: less_induct)
  case less
  show ?case
  proof (cases "k * 2 + 1 < length (items h)")
    case False
    then have "heap_down compare h k = Inr h"
      by (simp add: heap_down.simps [of compare h k] elem_at_out_of_range)
    moreover have "heap_ordered compare h"
    proof (rule ordered_if_children_ok [OF less.prems(2,3)])
      fix d assume "0 < d" "d < length (items h)" "parent d = k"
      with False show "compare (items h ! k) (items h ! d) \<le> 0"
        using parent_cases [of d k] by auto
    qed
    ultimately show ?thesis using less.prems(1) by simp
  next
    case True
    define c where "c = smaller_child compare h k (items h ! (k * 2 + 1))"
    note c = smaller_child_spec [OF True refl, folded c_def]
    have eq: "heap_down compare h k =
        (if compare (items h ! k) (items h ! c) \<le> 0 then Inr h
         else case heap_swap h k c of Inl e \<Rightarrow> Inl e | Inr h' \<Rightarrow> heap_down compare h' c)"
      using True less.prems(4) c(3) unfolding c_def
      by (simp add: heap_down.simps [of compare h k] elem_at_in_range split: sum.split)
    show ?thesis
    proof (cases "compare (items h ! k) (items h ! c) \<le> 0")
      case True
      then have "heap_ordered compare h"
        using ordered_if_children_ok [OF less.prems(2,3)] c(5) compare_trans by blast
      with True eq less.prems(1) show ?thesis by simp
    next
      case False
      obtain h1 where swap: "heap_swap h k c = Inr h1" "positions_ok h1"
        "mset (items h1) = mset (items h)" "length (items h1) = length (items h)"
        "\<And>i. i < length (items h) \<Longrightarrow> items h1 ! i =
          (if i = k then items h ! c else if i = c then items h ! k else items h ! i)"
        using heap_swap_spec [OF less.prems(1,4) c(3)] by blast
      have "0 < compare (items h ! k) (items h ! c)" using False by simp
      note step = descend_step [OF less.prems(2,3) c(1-3) this c(5) swap(4,5)]
      have m: "length (items h1) - c < length (items h) - k"
        using c(3,4) swap(4) by linarith
      have c': "c < length (items h1)" using c(3) swap(4) by simp
      have "heap_down compare h k = heap_down compare h1 c"
        unfolding eq swap(1) using False by simp
      with less.hyps [OF m swap(2) step c'] show ?thesis
        unfolding swap(3) by (simp only:)
    qed
  qed
qed

lemma fix_spec:
  assumes "positions_ok h" and "positions h x = Some k" and "ordered_except compare h k"
  shows "\<exists>h'. heap_fix compare h x = Inr h' \<and> positions_ok h' \<and>
    mset (items h') = mset (items h) \<and> heap_ordered compare h'"
proof -
  have "k < length (items h)" using assms by (auto dest: positions_okD)
  then obtain h1 j where up: "heap_up compare h k = Inr (h1, j)" "positions_ok h1"
    "mset (items h1) = mset (items h)" "j < length (items h1)"
    "ordered_except compare h1 j" "above_ok compare h1 j"
    using up_spec [OF assms(1,3)] by blast
  then show ?thesis
    using down_spec [OF up(2,5,6,4)] assms(2) by (auto simp: heap_fix_def)
qed

lemma push_spec:
  assumes "heap_inv compare h" and "x \<notin> set (items h)"
  shows "\<exists>h'. heap_push compare h x = Inr h' \<and> heap_inv compare h' \<and>
    mset (items h') = mset (items h) + {#x#}"
proof -
  let ?n = "length (items h)"
  let ?h = "h\<lparr>items := items h @ [x], positions := (positions h)(x \<mapsto> ?n)\<rparr>"
  have pos: "positions_ok ?h"
    using assms unfolding heap_inv_def positions_ok_def
    by (auto simp: nth_append less_Suc_eq dest: nth_mem)
  have "parent i < length (items h)" if "0 < i" "i < length (items ?h)" for i
    using parent_less [OF that(1)] that(2) by auto
  moreover have "heap_ordered compare h"
    using assms(1) by (simp add: heap_inv_def)
  moreover have "parent c \<noteq> ?n" if "0 < c" "c < length (items ?h)" for c
    using parent_less [OF that(1)] that(2) by auto
  ultimately have ord: "ordered_except compare ?h ?n"
    unfolding ordered_except_def heap_ordered_def by (auto simp: nth_append)
  have "below_ok compare ?h ?n"
    unfolding below_ok_def
  proof (intro allI impI)
    fix d assume "0 < d \<and> d < length (items ?h) \<and> parent d = ?n"
    then show "compare (items ?h ! ?n) (items ?h ! d) \<le> 0"
      using parent_less [of d] by auto
  qed
  then obtain h' j where up: "heap_up compare ?h ?n = Inr (h', j)" "positions_ok h'"
    "mset (items h') = mset (items ?h)" "ordered_except compare h' j" "above_ok compare h' j"
    "below_ok compare h' j"
    using up_spec [OF pos ord] by auto
  have "heap_ordered compare h'"
    using ordered_if_children_ok [OF up(4,5)] up(6) unfolding below_ok_def by blast
  with up show ?thesis
    by (simp add: heap_push_def heap_inv_def Let_def)
qed

lemma root_least:
  assumes "heap_ordered compare h" and "i < length (items h)"
  shows "compare (items h ! 0) (items h ! i) \<le> 0"
  using assms(2)
proof (induction i rule: less_induct)
  case (less i)
  show ?case
  proof (cases "i = 0")
    case False
    then have "parent i < i" by (simp add: parent_less)
    then have "compare (items h ! 0) (items h ! parent i) \<le> 0"
      using less by simp
    moreover have "compare (items h ! parent i) (items h ! i) \<le> 0"
      using assms(1) False less.prems by (simp add: heap_ordered_def)
    ultimately show ?thesis by (rule compare_trans)
  qed simp
qed

lemma peek_least:
  "heap_inv compare h \<Longrightarrow> heap_peek h = Some x \<Longrightarrow> y \<in> set (items h) \<Longrightarrow> compare x y \<le> 0"
  by (auto simp: heap_inv_def heap_peek_def in_set_conv_nth intro: root_least)

lemma remove_spec:
  assumes inv: "heap_inv compare h"
  shows "\<exists>h'. heap_remove compare h x = Inr (h', x \<in> set (items h)) \<and> heap_inv compare h' \<and>
    mset (items h') = mset (items h) - {#x#}"
proof (cases "positions h x")
  case None
  then have "x \<notin> set (items h)"
    using inv positions_ok_None [of h x] by (simp add: heap_inv_def)
  with None inv show ?thesis by (simp add: heap_remove_def)
next
  case (Some k)
  let ?xs = "items h"
  have pos: "positions_ok h" and ord: "heap_ordered compare h"
    using inv by (simp_all add: heap_inv_def)
  have k: "k < length ?xs" "?xs ! k = x" "x \<in> set ?xs" and ne: "?xs \<noteq> []"
    using positions_okD [OF pos Some] by auto
  have msetx: "mset ?xs = add_mset (last ?xs) (mset (butlast ?xs))"
    using ne by (metis append_butlast_last_id mset_append mset.simps add_mset_add_single)
  show ?thesis
  proof (cases "k < length ?xs - 1")
    case False
    let ?h = "h\<lparr>items := butlast ?xs, positions := (positions h)(x := None)\<rparr>"
    have "k = length ?xs - 1" using False k(1) by linarith
    then have x: "x = last ?xs" using k(2) ne by (simp add: last_conv_nth)
    have "heap_ordered compare ?h"
      unfolding heap_ordered_def
    proof (intro allI impI)
      fix i assume i: "0 < i \<and> i < length (items ?h)"
      then have "parent i < length (butlast ?xs)" using parent_less [of i] by simp
      with i ord show "compare (items ?h ! parent i) (items ?h ! i) \<le> 0"
        by (auto simp: heap_ordered_def nth_butlast)
    qed
    then show ?thesis
      using Some False k msetx x positions_drop_last [OF pos ne]
      by (simp add: heap_remove_def Let_def heap_inv_def)
  next
    case True
    let ?y = "last ?xs"
    let ?h = "h\<lparr>items := (butlast ?xs)[k := ?y],
                positions := (positions h)(x := None, ?y \<mapsto> k)\<rparr>"
    have nth: "items ?h ! i = (if i = k then ?y else ?xs ! i)" if "i < length ?xs - 1" for i
      using that by (simp add: nth_list_update nth_butlast)
    have pos': "positions_ok ?h"
      using positions_fill_hole [OF pos ne True] k by simp
    have "ordered_except compare ?h k"
      using hole_ordered [OF ord k(1) nth] by simp
    then obtain h' where fixed: "heap_fix compare ?h ?y = Inr h'" "positions_ok h'"
      "mset (items h') = mset (items ?h)" "heap_ordered compare h'"
      using fix_spec [OF pos', of ?y k] by auto
    have "butlast ?xs ! k = x" "x \<in> set (butlast ?xs)"
      using True k nth_mem [of k "butlast ?xs"] by (simp_all add: nth_butlast)
    then have "mset (items ?h) = mset ?xs - {#x#}"
      using True msetx diff_union_single_conv [of x "mset (butlast ?xs)" "{#?y#}"]
      by (simp add: mset_update)
    then show ?thesis
      using fixed Some True k ne by (simp add: heap_remove_def Let_def heap_inv_def)
  qed
qed

lemma pop_spec:
  assumes "heap_inv compare h" and "items h \<noteq> []"
  shows "\<exists>h' x. heap_pop compare h = Inr (h', Some x) \<and> heap_inv compare h' \<and>
    x \<in> set (items h) \<and> mset (items h') = mset (items h) - {#x#} \<and>
    (\<forall>y \<in> set (items h). compare x y \<le> 0)"
proof -
  let ?x = "items h ! 0"
  have peek: "heap_peek h = Some ?x" and mem: "?x \<in> set (items h)"
    using assms(2) by (simp_all add: heap_peek_def)
  obtain h' where rem: "heap_remove compare h ?x = Inr (h', ?x \<in> set (items h))"
    "heap_inv compare h'" "mset (items h') = mset (items h) - {#?x#}"
    using remove_spec [OF assms(1)] by blast
  then have "heap_pop compare h = Inr (h', Some ?x)"
    using peek by (simp add: heap_pop_def)
  with rem mem peek_least [OF assms(1) peek] show ?thesis by blast
qed

lemma rekey:
  assumes "heap_inv compare h" and "positions h x = Some k"
    and same: "\<And>a b. a \<noteq> x \<Longrightarrow> b \<noteq> x \<Longrightarrow> compare' a b = compare a b"
  shows "ordered_except compare' h k"
proof -
  have pos: "positions_ok h" and ord: "heap_ordered compare h"
    using assms(1) by (simp_all add: heap_inv_def)
  have k: "k < length (items h)" "items h ! k = x"
    using positions_okD [OF pos assms(2)] by auto
  have ne: "items h ! i \<noteq> x" if "i < length (items h)" "i \<noteq> k" for i
    using positions_ok_inj [OF pos that(1) k(1)] that k(2) by auto
  have exc: "ordered_except compare h k"
    by (rule ordered_except_if_ordered [OF ord k(1)])
  show ?thesis
    unfolding ordered_except_def
  proof (intro conjI allI impI)
    fix i assume i: "0 < i \<and> i < length (items h) \<and> i \<noteq> k \<and> parent i \<noteq> k"
    then have "parent i < length (items h)" using parent_less [of i] by simp
    then have "compare' (items h ! parent i) (items h ! i) = compare (items h ! parent i) (items h ! i)"
      using i by (intro same ne) auto
    with i exc show "compare' (items h ! parent i) (items h ! i) \<le> 0"
      unfolding ordered_except_def by simp
  next
    fix c assume c: "0 < k \<and> 0 < c \<and> c < length (items h) \<and> parent c = k"
    then have "parent k < length (items h)" "parent k \<noteq> k" "c \<noteq> k"
      using parent_less [of k] parent_less [of c] by auto
    then have "compare' (items h ! parent k) (items h ! c) = compare (items h ! parent k) (items h ! c)"
      using c by (intro same ne) auto
    with c exc show "compare' (items h ! parent k) (items h ! c) \<le> 0"
      unfolding ordered_except_def by simp
  qed
qed

lemma fix_rekeyed:
  assumes "comparator old" and "heap_inv old h" and "x \<in> set (items h)"
    and "\<And>a b. a \<noteq> x \<Longrightarrow> b \<noteq> x \<Longrightarrow> compare a b = old a b"
  shows "\<exists>h'. heap_fix compare h x = Inr h' \<and> heap_inv compare h' \<and>
    mset (items h') = mset (items h)"
proof -
  have pos: "positions_ok h" using assms(2) by (simp add: heap_inv_def)
  then obtain k where k: "positions h x = Some k"
    using assms(3) positions_ok_None by fastforce
  have "ordered_except compare h k"
    by (rule comparator.rekey [OF assms(1,2) k]) (rule assms(4))
  then show ?thesis
    using fix_spec [OF pos k] by (auto simp: heap_inv_def)
qed

end

section \<open>Contract\<close>

text \<open>A sequence of pushes, and a sequence of pops, as a caller makes them.\<close>

fun push_all :: "'a comparison \<Rightarrow> 'a IndexedHeap \<Rightarrow> 'a list \<Rightarrow> string + 'a IndexedHeap" where
  "push_all compare h [] = Inr h"
| "push_all compare h (x # xs) = bindR (heap_push compare h x) (\<lambda>h'. push_all compare h' xs)"

fun pop_times ::
  "'a comparison \<Rightarrow> nat \<Rightarrow> 'a IndexedHeap \<Rightarrow> string + 'a IndexedHeap \<times> 'a option list" where
  "pop_times compare 0 h = Inr (h, [])"
| "pop_times compare (Suc n) h =
     bindR (heap_pop compare h) (\<lambda>(h', x).
     bindR (pop_times compare n h') (\<lambda>(h'', xs). Inr (h'', x # xs)))"

context comparator
begin

lemma push_all_spec:
  assumes "heap_inv compare h" and "distinct (xs @ items h)"
  shows "\<exists>h'. push_all compare h xs = Inr h' \<and> heap_inv compare h' \<and>
    mset (items h') = mset (items h) + mset xs"
  using assms
proof (induction xs arbitrary: h)
  case (Cons x xs)
  then have "x \<notin> set (items h)" by auto
  then obtain h1 where h1: "heap_push compare h x = Inr h1" "heap_inv compare h1"
    "mset (items h1) = mset (items h) + {#x#}"
    using push_spec [OF Cons.prems(1)] by blast
  have "mset (xs @ items h1) = mset ((x # xs) @ items h)"
    using h1(3) by simp
  then have "distinct (xs @ items h1)"
    using Cons.prems(2) by (metis mset_eq_imp_distinct_iff)
  with Cons.IH [OF h1(2)] h1 show ?case by auto
qed simp

lemma pop_times_spec:
  assumes "heap_inv compare h" and "n = length (items h)"
  shows "\<exists>h' ys. pop_times compare n h = Inr (h', map Some ys) \<and> items h' = [] \<and>
    mset ys = mset (items h) \<and> sorted_wrt (\<lambda>a b. compare a b \<le> 0) ys"
  using assms
proof (induction n arbitrary: h)
  case (Suc n)
  then have "items h \<noteq> []" by auto
  then obtain h1 x where h1: "heap_pop compare h = Inr (h1, Some x)" "heap_inv compare h1"
    "x \<in> set (items h)" "mset (items h1) = mset (items h) - {#x#}"
    "\<forall>y \<in> set (items h). compare x y \<le> 0"
    using pop_spec [OF Suc.prems(1)] by blast
  have "size (mset (items h1)) = n"
    using h1(3,4) Suc.prems(2) by (simp add: size_Diff_singleton)
  then obtain h' ys where ih: "pop_times compare n h1 = Inr (h', map Some ys)" "items h' = []"
    "mset ys = mset (items h1)" "sorted_wrt (\<lambda>a b. compare a b \<le> 0) ys"
    using Suc.IH [OF h1(2)] by auto
  have "set ys \<subseteq> set (items h)"
    using ih(3) h1(4) by (metis in_diffD set_mset_mset subsetI)
  then have "sorted_wrt (\<lambda>a b. compare a b \<le> 0) (x # ys)"
    using ih(4) h1(5) by auto
  moreover have "mset (x # ys) = mset (items h)"
    using ih(3) h1(3,4) by simp
  moreover have "pop_times compare (Suc n) h = Inr (h', map Some (x # ys))"
    using h1(1) ih(1) by simp
  ultimately show ?case using ih(2) by blast
qed simp

end

text \<open>
  C9. Pushing distinct items into a new heap and popping as often never throws the
  \<open>invalid heap index\<close> error, returns every item exactly once, and returns them in the order
  of the comparison.
\<close>

theorem heap_priority_order:
  assumes "comparator compare" and "distinct xs"
  shows "\<exists>h h' ys. push_all compare heap_new xs = Inr h \<and>
    pop_times compare (length xs) h = Inr (h', map Some ys) \<and> heap_length h' = 0 \<and>
    mset ys = mset xs \<and> sorted_wrt (\<lambda>a b. compare a b \<le> 0) ys"
proof -
  obtain h where h: "push_all compare heap_new xs = Inr h" "heap_inv compare h"
    "mset (items h) = mset xs"
    using comparator.push_all_spec [OF assms(1) heap_inv_new, of xs] assms(2)
    by (auto simp: heap_new_def)
  have "length xs = length (items h)"
    using h(3) by (metis size_mset)
  then show ?thesis
    using comparator.pop_times_spec [OF assms(1) h(2)] h by (fastforce simp: heap_length_def)
qed

theorem heap_priority_order_witness:
  "\<exists>h h' ys. push_all (\<lambda>a b. a - b) heap_new [3, 1, 2 :: int] = Inr h \<and>
    pop_times (\<lambda>a b. a - b) (length [3, 1, 2 :: int]) h = Inr (h', map Some ys) \<and>
    heap_length h' = 0 \<and> mset ys = mset [3, 1, 2] \<and>
    sorted_wrt (\<lambda>a b. a - b \<le> 0) ys"
proof -
  have "comparator (\<lambda>a b :: int. a - b)" by unfold_locales auto
  then show ?thesis
    by (rule heap_priority_order) simp
qed

end
