(* ===== verification/PriorityTaskPool.thy ===== *)
theory PriorityTaskPool
  imports PoolProgress IndexedHeap
begin

text \<open>
  The priority task pool of \<open>src/runtime/pool/priority-task-pool.ts\<close>: the pool of \<open>PoolCore\<close> on
  the heap of \<open>IndexedHeap\<close>. The smallest priority starts first and equal priorities start in
  the order of admission; a task whose context is aborted while it waits is given the priority
  minus infinity.
\<close>

section \<open>The queue\<close>

text \<open>
  The heap holds task identities; the mutable \<open>priority\<close> and the \<open>sequence\<close> number of a task
  object are kept beside it, with the next sequence number.
\<close>

record priority_queue =
  pq_heap :: "nat IndexedHeap"
  priority :: "nat \<Rightarrow> number"
  task_sequence :: "nat \<Rightarrow> int"
  next_sequence :: int

definition pq_new :: priority_queue where
  "pq_new = \<lparr>pq_heap = heap_new, priority = (\<lambda>_. Finite 0), task_sequence = (\<lambda>_. 0), next_sequence = 0\<rparr>"

text \<open>The comparison given to the heap's constructor.\<close>

definition compare_tasks :: "(nat \<Rightarrow> number) \<Rightarrow> (nat \<Rightarrow> int) \<Rightarrow> nat comparison" where
  "compare_tasks pr sq a b =
     (if num_less (pr a) (pr b) then -1
      else if num_less (pr b) (pr a) then 1
      else sq a - sq b)"

abbreviation pq_compare :: "priority_queue \<Rightarrow> nat comparison" where
  "pq_compare q \<equiv> compare_tasks (priority q) (task_sequence q)"

definition pq_length :: "priority_queue \<Rightarrow> nat" where
  "pq_length q = heap_length (pq_heap q)"

text \<open>
  The heap's methods throw only on an index out of range, which no reachable heap produces
  (\<open>pq_pop_first\<close>, \<open>pq_promote_spec\<close>, \<open>pq_push_spec\<close>); the queue is then left as it was.
\<close>

definition pq_pop :: "priority_queue \<Rightarrow> priority_queue \<times> nat option" where
  "pq_pop q =
     (case heap_pop (pq_compare q) (pq_heap q) of
        Inr (h, t) \<Rightarrow> (q\<lparr>pq_heap := h\<rparr>, t)
      | Inl _ \<Rightarrow> (q, None))"

text \<open>The change of the queue in the \<open>cancel\<close> callback of a task.\<close>

definition pq_promote :: "priority_queue \<Rightarrow> nat \<Rightarrow> priority_queue \<times> bool" where
  "pq_promote q t =
     (if heap_has (pq_heap q) t then
        (let q' = q\<lparr>priority := (priority q)(t := NegInfinity)\<rparr>
         in case heap_fix (pq_compare q') (pq_heap q') t of
              Inr h \<Rightarrow> (q'\<lparr>pq_heap := h\<rparr>, True)
            | Inl _ \<Rightarrow> (q', True))
      else (q, False))"

text \<open>The new task object takes its priority and the next sequence number, and is inserted.\<close>

definition pq_push :: "number \<Rightarrow> priority_queue \<Rightarrow> nat \<Rightarrow> priority_queue" where
  "pq_push prio q t =
     (let q' = q\<lparr>priority := (priority q)(t := prio),
                 task_sequence := (task_sequence q)(t := next_sequence q),
                 next_sequence := next_sequence q + 1\<rparr>
      in case heap_push (pq_compare q') (pq_heap q') t of
           Inr h \<Rightarrow> q'\<lparr>pq_heap := h\<rparr>
         | Inl _ \<Rightarrow> q')"

section \<open>The order of the tasks\<close>

lemma compare_tasks_comparator:
  assumes "\<forall>t. pr t \<noteq> NaN"
  shows "comparator (compare_tasks pr sq)"
proof
  fix a b
  show "compare_tasks pr sq a b < 0 \<longleftrightarrow> 0 < compare_tasks pr sq b a"
    using num_less_asym [of "pr a" "pr b"] by (auto simp: compare_tasks_def)
next
  fix a b c
  assume *: "compare_tasks pr sq a b \<le> 0" "compare_tasks pr sq b c \<le> 0"
  have "num_less (pr a) (pr b) \<or> (pr a = pr b \<and> sq a \<le> sq b)"
    "num_less (pr b) (pr c) \<or> (pr b = pr c \<and> sq b \<le> sq c)"
    using * assms num_less_total [of "pr a" "pr b"] num_less_total [of "pr b" "pr c"]
    by (auto simp: compare_tasks_def split: if_splits)
  then show "compare_tasks pr sq a c \<le> 0"
    using num_less_trans [of "pr a" "pr b" "pr c"] by (auto simp: compare_tasks_def)
qed

text \<open>The waiting tasks in the order they are going to start in.\<close>

definition task_before :: "priority_queue \<Rightarrow> nat \<Rightarrow> nat \<Rightarrow> bool" where
  "task_before q a b \<longleftrightarrow> pq_compare q a b \<le> 0"

fun insert_by :: "('a \<Rightarrow> 'a \<Rightarrow> bool) \<Rightarrow> 'a \<Rightarrow> 'a list \<Rightarrow> 'a list" where
  "insert_by le x [] = [x]"
| "insert_by le x (y # ys) = (if le x y then x # y # ys else y # insert_by le x ys)"

definition pq_contents :: "priority_queue \<Rightarrow> nat list" where
  "pq_contents q = foldr (insert_by (task_before q)) (items (pq_heap q)) []"

definition pq_ok :: "priority_queue \<Rightarrow> bool" where
  "pq_ok q \<longleftrightarrow> heap_inv (pq_compare q) (pq_heap q) \<and> (\<forall>t. priority q t \<noteq> NaN) \<and>
     (\<forall>t. task_sequence q t < next_sequence q \<or> t \<notin> set (items (pq_heap q))) \<and>
     inj_on (task_sequence q) (set (items (pq_heap q)))"

lemma insert_by_mset [simp]: "mset (insert_by le x xs) = add_mset x (mset xs)"
  by (induction xs) auto

lemma insert_by_set [simp]: "set (insert_by le x xs) = insert x (set xs)"
  by (induction xs) auto

lemma insert_by_sorted:
  assumes "sorted_wrt le xs" and "\<And>a b. le a b \<or> le b a" and "\<And>a b c. le a b \<Longrightarrow> le b c \<Longrightarrow> le a c"
  shows "sorted_wrt le (insert_by le x xs)"
  using assms(1)
proof (induction xs)
  case (Cons y ys)
  then show ?case using assms(2) [of x y] assms(3) by auto
qed simp

lemma sorted_unique:
  assumes "sorted_wrt le xs" and "sorted_wrt le ys" and "mset xs = mset ys"
    and "\<And>a b. a \<in> set xs \<Longrightarrow> b \<in> set xs \<Longrightarrow> le a b \<Longrightarrow> le b a \<Longrightarrow> a = b"
  shows "xs = ys"
  using assms
proof (induction xs arbitrary: ys)
  case (Cons x xs)
  then obtain y ys' where ys: "ys = y # ys'" by (cases ys) auto
  have sets: "insert x (set xs) = insert y (set ys')"
    using arg_cong [OF Cons.prems(3), of set_mset] ys by simp
  have "x = y"
  proof (rule ccontr)
    assume ne: "x \<noteq> y"
    then have "x \<in> set ys'" "y \<in> set xs" using sets by auto
    then have "le y x" "le x y" using Cons.prems(1,2) ys by auto
    with Cons.prems(4) [of x y] ne \<open>y \<in> set xs\<close> show False by simp
  qed
  moreover have "xs = ys'"
    using Cons.prems ys \<open>x = y\<close> by (intro Cons.IH) auto
  ultimately show ?case using ys by simp
qed simp

lemma task_before_total:
  assumes "pq_ok q"
  shows "task_before q a b \<or> task_before q b a"
    and "task_before q a b \<Longrightarrow> task_before q b c \<Longrightarrow> task_before q a c"
proof -
  have *: "comparator (pq_compare q)"
    using assms by (intro compare_tasks_comparator) (simp add: pq_ok_def)
  show "task_before q a b \<or> task_before q b a"
    using comparator.compare_total [OF *] by (simp add: task_before_def)
  show "task_before q a b \<Longrightarrow> task_before q b c \<Longrightarrow> task_before q a c"
    using comparator.compare_trans [OF *] by (simp add: task_before_def)
qed

lemma task_before_antisym:
  assumes "pq_ok q" and "a \<in> set (items (pq_heap q))" and "b \<in> set (items (pq_heap q))"
    and "task_before q a b" and "task_before q b a"
  shows "a = b"
proof -
  have "task_sequence q a = task_sequence q b"
    using assms(4,5) num_less_asym by (auto simp: task_before_def compare_tasks_def split: if_splits)
  then show ?thesis using assms(1-3) by (auto simp: pq_ok_def inj_on_def)
qed

lemma pq_contents_mset [simp]: "mset (pq_contents q) = mset (items (pq_heap q))"
proof -
  have "mset (foldr (insert_by le) xs []) = mset xs" for le :: "nat \<Rightarrow> nat \<Rightarrow> bool" and xs
    by (induction xs) auto
  then show ?thesis by (simp add: pq_contents_def)
qed

lemma pq_contents_set [simp]: "set (pq_contents q) = set (items (pq_heap q))"
  by (rule mset_eq_setD) simp

lemma pq_contents_sorted:
  assumes "pq_ok q"
  shows "sorted_wrt (task_before q) (pq_contents q)"
proof -
  have "sorted_wrt (task_before q) (foldr (insert_by (task_before q)) xs [])" for xs
    by (induction xs) (simp_all add: insert_by_sorted [OF _ task_before_total(1) [OF assms] task_before_total(2) [OF assms]])
  then show ?thesis by (simp add: pq_contents_def)
qed

lemma pq_contents_unique:
  assumes "pq_ok q" and "sorted_wrt (task_before q) xs" and "mset xs = mset (items (pq_heap q))"
  shows "pq_contents q = xs"
  by (rule sorted_unique [OF pq_contents_sorted [OF assms(1)] assms(2)])
    (use assms(3) task_before_antisym [OF assms(1)] in auto)

section \<open>What the queue does to the order\<close>

lemma pq_pop_first:
  assumes "pq_ok q" and "pq_contents q = t # ts"
  shows "\<exists>q'. pq_pop q = (q', Some t) \<and> pq_ok q' \<and> pq_contents q' = ts"
proof -
  have cmp: "comparator (pq_compare q)" and inv: "heap_inv (pq_compare q) (pq_heap q)"
    using assms(1) by (auto simp: pq_ok_def intro: compare_tasks_comparator)
  have "items (pq_heap q) \<noteq> []" using assms(2) by (auto simp: pq_contents_def)
  then obtain h x where pop: "heap_pop (pq_compare q) (pq_heap q) = Inr (h, Some x)"
    "heap_inv (pq_compare q) h" "x \<in> set (items (pq_heap q))"
    "mset (items h) = mset (items (pq_heap q)) - {#x#}"
    "\<forall>y \<in> set (items (pq_heap q)). pq_compare q x y \<le> 0"
    using comparator.pop_spec [OF cmp inv] by blast
  let ?q = "q\<lparr>pq_heap := h\<rparr>"
  have "set_mset (mset (items h)) \<subseteq> set_mset (mset (items (pq_heap q)))"
    unfolding pop(4) by (meson in_diffD subsetI)
  then have sub: "set (items h) \<subseteq> set (items (pq_heap q))" by simp
  have ok: "pq_ok ?q"
    using assms(1) pop(2) sub by (auto simp: pq_ok_def intro: inj_on_subset)
  have "task_before q = task_before ?q" by (simp add: task_before_def fun_eq_iff)
  then have "sorted_wrt (task_before q) (x # pq_contents ?q)"
    using pq_contents_sorted [OF ok] pop(5) sub by (auto simp: task_before_def)
  moreover have "mset (x # pq_contents ?q) = mset (items (pq_heap q))"
    using pop(3,4) by simp
  ultimately have "pq_contents q = x # pq_contents ?q"
    by (rule pq_contents_unique [OF assms(1)])
  with assms(2) pop(1) ok show ?thesis by (simp add: pq_pop_def)
qed

lemma pq_promote_spec:
  assumes "pq_ok q"
  shows "pq_ok (fst (pq_promote q t)) \<and> mset (pq_contents (fst (pq_promote q t))) = mset (pq_contents q)"
proof (cases "heap_has (pq_heap q) t")
  case False
  with assms show ?thesis by (simp add: pq_promote_def)
next
  case True
  let ?q = "q\<lparr>priority := (priority q)(t := NegInfinity)\<rparr>"
  have old: "comparator (pq_compare q)" "heap_inv (pq_compare q) (pq_heap q)"
    using assms by (auto simp: pq_ok_def intro: compare_tasks_comparator)
  have new: "comparator (pq_compare ?q)"
    using assms by (intro compare_tasks_comparator) (simp add: pq_ok_def)
  have "t \<in> set (items (pq_heap q))"
    using True old(2) positions_ok_None [of "pq_heap q" t] by (auto simp: heap_has_def heap_inv_def)
  then obtain h where h: "heap_fix (pq_compare ?q) (pq_heap q) t = Inr h" "heap_inv (pq_compare ?q) h"
    "mset (items h) = mset (items (pq_heap q))"
    using comparator.fix_rekeyed [OF new old] by (fastforce simp: compare_tasks_def)
  have "set (items h) = set (items (pq_heap q))"
    using arg_cong [OF h(3), of set_mset] by simp
  then have "pq_ok (?q\<lparr>pq_heap := h\<rparr>)"
    using assms h(2) by (simp add: pq_ok_def)
  with True h show ?thesis by (simp add: pq_promote_def Let_def)
qed

lemma heap_inv_cong:
  assumes "heap_inv c h" and "\<And>a b. a \<in> set (items h) \<Longrightarrow> b \<in> set (items h) \<Longrightarrow> c' a b = c a b"
  shows "heap_inv c' h"
proof -
  have "c' (items h ! parent i) (items h ! i) = c (items h ! parent i) (items h ! i)"
    if "i < length (items h)" for i
    using that parent_le [of i] by (intro assms(2)) auto
  with assms(1) show ?thesis by (simp add: heap_inv_def heap_ordered_def)
qed

lemma inj_on_fresh: "inj_on f S \<Longrightarrow> \<forall>u \<in> S. f u \<noteq> f t \<Longrightarrow> inj_on f (insert t S)"
  by (auto simp: inj_on_def)

lemma pq_push_spec:
  assumes "prio \<noteq> NaN" and "pq_ok q" and "t \<notin> set (pq_contents q)"
  shows "pq_ok (pq_push prio q t) \<and> mset (pq_contents (pq_push prio q t)) = add_mset t (mset (pq_contents q))"
proof -
  let ?q = "q\<lparr>priority := (priority q)(t := prio),
      task_sequence := (task_sequence q)(t := next_sequence q), next_sequence := next_sequence q + 1\<rparr>"
  have t: "t \<notin> set (items (pq_heap q))" using assms(3) by simp
  have cmp: "comparator (pq_compare ?q)"
    using assms(1,2) by (intro compare_tasks_comparator) (simp add: pq_ok_def)
  have "pq_compare ?q a b = pq_compare q a b" if "a \<in> set (items (pq_heap q))" "b \<in> set (items (pq_heap q))" for a b
  proof -
    have "a \<noteq> t" "b \<noteq> t" using that t by blast+
    then show ?thesis by (simp add: compare_tasks_def)
  qed
  then have "heap_inv (pq_compare ?q) (pq_heap q)"
    using assms(2) heap_inv_cong [of "pq_compare q" "pq_heap q" "pq_compare ?q"] by (simp add: pq_ok_def)
  then obtain h where h: "heap_push (pq_compare ?q) (pq_heap q) t = Inr h" "heap_inv (pq_compare ?q) h"
    "mset (items h) = mset (items (pq_heap q)) + {#t#}"
    using comparator.push_spec [OF cmp _ t] by blast
  have set: "set (items h) = insert t (set (items (pq_heap q)))"
    using arg_cong [OF h(3), of set_mset] by simp
  have old: "\<forall>u. task_sequence q u < next_sequence q \<or> u \<notin> set (items (pq_heap q))"
    "inj_on (task_sequence q) (set (items (pq_heap q)))"
    using assms(2) by (simp_all add: pq_ok_def)
  have less: "\<forall>u. task_sequence ?q u < next_sequence ?q \<or> u \<notin> set (items h)"
  proof
    fix u
    show "task_sequence ?q u < next_sequence ?q \<or> u \<notin> set (items h)"
      using old(1) [rule_format, of u] by (auto simp: set)
  qed
  have "inj_on (task_sequence ?q) (set (items (pq_heap q)))"
    using old(2) t by (auto simp: inj_on_def)
  moreover have "task_sequence ?q u \<noteq> task_sequence ?q t" if "u \<in> set (items (pq_heap q))" for u
  proof -
    have "u \<noteq> t" using t that by blast
    then show ?thesis using old(1) [rule_format, of u] that by auto
  qed
  ultimately have inj: "inj_on (task_sequence ?q) (set (items h))"
    unfolding set by (intro inj_on_fresh) blast+
  have "pq_ok (?q\<lparr>pq_heap := h\<rparr>)"
    using assms(1,2) h(2) less inj by (simp add: pq_ok_def)
  with h show ?thesis by (simp add: pq_push_def Let_def)
qed

section \<open>The class\<close>

definition pq_ops :: "priority_queue queue_ops" where
  "pq_ops = \<lparr>q_pop = pq_pop, q_length = pq_length, q_promote = pq_promote\<rparr>"

lemma pq_ops_simps [simp]:
  "q_pop pq_ops = pq_pop" "q_length pq_ops = pq_length" "q_promote pq_ops = pq_promote"
  by (simp_all add: pq_ops_def)

type_synonym PriorityTaskPool = "priority_queue pool"

definition priorityTaskPool_new ::
  "int option \<Rightarrow> string \<Rightarrow> number \<Rightarrow> pool_metrics option \<Rightarrow> string + PriorityTaskPool" where
  "priorityTaskPool_new cores n requested m =
     mapR (\<lambda>k. new_pool n pq_new k m) (normalizeExecutorsCount cores requested)"

text \<open>The methods, whose bodies are those of the task pool on this class's queue.\<close>

definition priority_resize :: "int option \<Rightarrow> PriorityTaskPool \<Rightarrow> number \<Rightarrow> string + PriorityTaskPool" where
  "priority_resize cores p n = resize pq_ops cores p n"

definition priority_start :: "PriorityTaskPool \<Rightarrow> string + PriorityTaskPool" where
  "priority_start p = start pq_ops p"

definition priority_addTask ::
  "world \<Rightarrow> PriorityTaskPool \<Rightarrow> context_state \<Rightarrow> number \<Rightarrow> PriorityTaskPool \<times> thrown option" where
  "priority_addTask w p c prio = addTask pq_ops (pq_push prio) w p c"

definition priority_stop :: "PriorityTaskPool \<Rightarrow> PriorityTaskPool \<times> bool" where
  "priority_stop p = stop pq_ops p"

definition priority_pump :: "PriorityTaskPool \<Rightarrow> PriorityTaskPool" where
  "priority_pump p = pump pq_ops p"

definition priority_run_next :: "world \<Rightarrow> PriorityTaskPool \<Rightarrow> outcome \<Rightarrow> PriorityTaskPool" where
  "priority_run_next w p r = run_next pq_ops w p r"

definition priority_settle :: "world \<Rightarrow> PriorityTaskPool \<Rightarrow> nat \<Rightarrow> thrown option \<Rightarrow> PriorityTaskPool" where
  "priority_settle w p t r = settle pq_ops w p t r"

definition priority_taskFinished :: "world \<Rightarrow> PriorityTaskPool \<Rightarrow> nat \<Rightarrow> millis \<Rightarrow> PriorityTaskPool" where
  "priority_taskFinished w p t began = taskFinished pq_ops w p t began"

definition priority_finishDrainIfIdle :: "PriorityTaskPool \<Rightarrow> PriorityTaskPool" where
  "priority_finishDrainIfIdle p = finishDrainIfIdle pq_ops p"

fun priority_step :: "int option \<Rightarrow> PriorityTaskPool \<Rightarrow> world \<times> number pool_event \<Rightarrow> PriorityTaskPool" where
  "priority_step cores p (w, AddTask prio c) = fst (priority_addTask w p c prio)"
| "priority_step cores p (w, Start) = (case priority_start p of Inl _ \<Rightarrow> p | Inr p' \<Rightarrow> p')"
| "priority_step cores p (w, Resize n) = (case priority_resize cores p n of Inl _ \<Rightarrow> p | Inr p' \<Rightarrow> p')"
| "priority_step cores p (w, Stop) = fst (priority_stop p)"
| "priority_step cores p (w, Abort s) = abort_listener pq_ops s p"
| "priority_step cores p (w, Microtask r) = priority_run_next w p r"
| "priority_step cores p (w, Completion t r) = priority_settle w p t r"

definition priorityTaskPool_run ::
  "int option \<Rightarrow> PriorityTaskPool \<Rightarrow> (world \<times> number pool_event) list \<Rightarrow> PriorityTaskPool" where
  "priorityTaskPool_run cores p evs = foldl (priority_step cores) p evs"

lemma priority_step_pool: "priority_step cores p e = pool_step pq_ops pq_push cores p e"
proof (cases e)
  case (Pair w ev)
  then show ?thesis
    by (cases ev) (simp_all add: priority_addTask_def priority_start_def priority_resize_def priority_stop_def
        priority_run_next_def priority_settle_def)
qed

lemma priorityTaskPool_run_pool: "priorityTaskPool_run cores p evs = pool_run pq_ops pq_push cores p evs"
proof -
  have "priority_step cores = pool_step pq_ops pq_push cores"
    by (intro ext) (rule priority_step_pool)
  then show ?thesis by (simp add: priorityTaskPool_run_def pool_run_def)
qed

interpretation priority_pool: pool_contract pq_ops pq_contents pq_ok pq_push "\<lambda>a. a \<noteq> NaN"
proof (unfold_locales, goal_cases)
  case (1 q)
  have "length (pq_contents q) = length (items (pq_heap q))"
    by (rule mset_eq_length) simp
  then show ?case by (simp add: pq_length_def heap_length_def)
next
  case (2 q t ts)
  then show ?case using pq_pop_first by simp
next
  case (3 q t)
  then show ?case using pq_promote_spec by simp
next
  case (4 a q t)
  then show ?case by (rule pq_push_spec)
qed

lemma pq_new_ok: "pq_ok pq_new" "pq_contents pq_new = []"
  by (simp_all add: pq_ok_def pq_new_def heap_inv_new pq_contents_def) (simp_all add: heap_new_def)

lemma priorityTaskPool_new_inv:
  assumes "priorityTaskPool_new cores n k m = Inr p" and "\<forall>c. cores = Some c \<longrightarrow> 1 \<le> c"
  shows "pool_inv pq_contents pq_ok p"
proof -
  obtain e where e: "normalizeExecutorsCount cores k = Inr e" "p = new_pool n pq_new e m"
    using assms(1) by (auto simp: priorityTaskPool_new_def result_simps)
  then show ?thesis
    using priority_pool.new_pool_inv [OF pq_new_ok] normalizeExecutorsCount_positive [OF e(1) assms(2)] by blast
qed

text \<open>The calls of \<open>addTask\<close> a run makes give every task a priority that is a number.\<close>

definition numeric_priorities :: "(world \<times> number pool_event) list \<Rightarrow> bool" where
  "numeric_priorities evs = list_all (\<lambda>e. accepts (\<lambda>a. a \<noteq> NaN) (snd e)) evs"

lemma priorityTaskPool_reachable_inv:
  assumes "priorityTaskPool_new cores n k m = Inr p" and "\<forall>c. cores = Some c \<longrightarrow> 1 \<le> c"
    and "numeric_priorities evs"
  shows "pool_inv pq_contents pq_ok (priorityTaskPool_run cores p evs)"
  unfolding priorityTaskPool_run_pool
  using priority_pool.run_inv [OF priorityTaskPool_new_inv [OF assms(1,2)] _ assms(2)] assms(3)
  by (simp add: numeric_priorities_def list_all_iff)

section \<open>Order\<close>

text \<open>
  What a step started, in the order it was started, followed by what still waits, is sorted by
  priority and then by the order of admission.
\<close>

definition starts_sorted :: "PriorityTaskPool \<Rightarrow> PriorityTaskPool \<Rightarrow> bool" where
  "starts_sorted p p' \<longleftrightarrow>
     (\<exists>new. started p' = started p @ new \<and>
        sorted_wrt (task_before (pool_queue p')) (new @ pq_contents (pool_queue p')))"

lemma starts_sorted_cong:
  "started p = started q \<Longrightarrow> started p' = started q' \<Longrightarrow> pool_queue p' = pool_queue q' \<Longrightarrow>
    starts_sorted p p' = starts_sorted q q'"
  by (simp add: starts_sorted_def)

lemma starts_nothing: "pq_ok (pool_queue p') \<Longrightarrow> started p' = started p \<Longrightarrow> starts_sorted p p'"
  by (simp add: starts_sorted_def pq_contents_sorted)

lemma finishDrain_frame [simp]:
  "started (finishDrainIfIdle ops p) = started p" "pool_queue (finishDrainIfIdle ops p) = pool_queue p"
  by (simp_all add: finishDrainIfIdle_def)

lemma pq_pop_before: "pq_pop q = (q', x) \<Longrightarrow> task_before q' = task_before q"
  by (auto simp: pq_pop_def task_before_def fun_eq_iff split: sum.splits prod.splits)

lemma pump_starts_sorted:
  assumes "pq_ok (pool_queue q)" and "started q = started p"
  shows "starts_sorted p (pump pq_ops q)"
proof (cases "pool_state q = Running \<or> pool_state q = Stopping")
  case True
  obtain new where new: "started (pump_loop pq_ops q) = started q @ new"
    "pq_contents (pool_queue q) = new @ pq_contents (pool_queue (pump_loop pq_ops q))"
    using priority_pool.pump_loop_order [OF assms(1)] by blast
  have "task_before (pool_queue (pump_loop pq_ops q)) = task_before (pool_queue q)"
    using pq_pop_before by (intro pump_loop_queue) simp
  then have "starts_sorted p (pump_loop pq_ops q)"
    using new pq_contents_sorted [OF assms(1)] assms(2) by (auto simp: starts_sorted_def)
  moreover have "pump pq_ops q = finishDrainIfIdle pq_ops (pump_loop pq_ops q)"
    using True by (auto simp: pump_def)
  ultimately show ?thesis by (simp add: starts_sorted_def)
next
  case False
  with assms show ?thesis by (simp add: pump_def starts_nothing)
qed

lemma taskFinished_starts_sorted:
  "pq_ok (pool_queue q) \<Longrightarrow> started q = started p \<Longrightarrow> starts_sorted p (taskFinished pq_ops w q t b)"
  unfolding taskFinished_def Let_def by (rule pump_starts_sorted) simp_all

lemma pool_inv_queue: "pool_inv contents ok p \<Longrightarrow> ok (pool_queue p)"
  by (simp add: pool_inv_def accounted_def)

text \<open>An abort starts nothing: while tasks wait, every executor is busy.\<close>

lemma cancel_started:
  assumes "pool_inv pq_contents pq_ok p"
  shows "started (cancel pq_ops p t) = started p"
proof -
  have ok: "pq_ok (pool_queue p)" using assms by (rule pool_inv_queue)
  note * = pq_promote_spec [OF ok, of t]
  have "pq_contents (fst (pq_promote (pool_queue p) t)) = [] \<longleftrightarrow> pq_contents (pool_queue p) = []"
    using * by (metis mset_zero_iff)
  then have "pump_loop pq_ops q = q" if "pool_queue q = fst (pq_promote (pool_queue p) t)"
      "executorsCount q = executorsCount p" "active q = active p" "pool_state q = pool_state p"
      "pool_state p = Running \<or> pool_state p = Stopping" for q
    using assms that * by (intro priority_pool.pump_loop_full) (auto simp: pool_inv_def pumped_def)
  then show ?thesis by (auto simp: cancel_def Let_def split_beta pump_def)
qed

lemma notify_all_started: "pool_inv pq_contents pq_ok p \<Longrightarrow> started (notify_all pq_ops s p ts) = started p"
  by (induction ts arbitrary: p) (auto simp: cancel_started priority_pool.cancel_inv split: option.split)

lemma abort_started: "pool_inv pq_contents pq_ok p \<Longrightarrow> started (abort_listener pq_ops s p) = started p"
  by (auto simp: abort_listener_def Let_def notify_all_started split: option.split)

lemma addTask_starts_sorted:
  assumes "pool_inv pq_contents pq_ok p" and "a \<noteq> NaN"
  shows "starts_sorted p (fst (addTask pq_ops (pq_push a) w p c))"
proof (cases "cancelled w c \<or> pool_state p = Stopping \<or> pool_state p = Stopped")
  case True
  then show ?thesis
    using starts_nothing pool_inv_queue [OF assms(1)] by (simp add: priority_pool.addTask_refused reject_def)
next
  case False
  then have "pool_state p = Created \<or> pool_state p = Running" by (cases "pool_state p") auto
  with False obtain q where q: "addTask pq_ops (pq_push a) w p c = (pump pq_ops q, None)"
    "priority_pool.acct q" "started q = started p"
    using priority_pool.addTask_accepted [OF assms(1), of w c "pq_push a"] pq_push_spec [OF assms(2)] by auto
  have "pq_ok (pool_queue q)" using q(2) by (simp add: accounted_def)
  with q show ?thesis using pump_starts_sorted by simp
qed

lemma stop_starts_sorted:
  assumes "pool_inv pq_contents pq_ok p"
  shows "starts_sorted p (fst (stop pq_ops p))"
proof -
  note ok = pool_inv_queue [OF assms]
  have "starts_sorted p (pump pq_ops (p\<lparr>pool_state := Stopping, drain := Some False\<rparr>))"
    using ok by (intro pump_starts_sorted) simp_all
  then have "starts_sorted p
      (finishDrainIfIdle pq_ops (pump pq_ops (p\<lparr>pool_state := Stopping, drain := Some False\<rparr>)))"
    by (simp add: starts_sorted_def)
  then show ?thesis using starts_nothing [OF ok] by (simp add: stop_def Let_def)
qed

lemma step_starts_sorted:
  assumes "pool_inv pq_contents pq_ok p" and "accepts (\<lambda>a. a \<noteq> NaN) e"
  shows "starts_sorted p (pool_step pq_ops pq_push cores p (w, e))"
proof -
  note ok = pool_inv_queue [OF assms(1)]
  note same = starts_nothing [OF ok refl]
  show ?thesis
  proof (cases e)
    case (AddTask a c)
    with assms show ?thesis by (simp add: addTask_starts_sorted accepts_def)
  next
    case Start
    with same ok show ?thesis by (auto simp: start_def intro!: pump_starts_sorted)
  next
    case (Resize n)
    with same ok show ?thesis
      by (cases "normalizeExecutorsCount cores n")
        (auto simp: resize_def Let_def intro!: pump_starts_sorted)
  next
    case Stop
    with assms show ?thesis by (simp add: stop_starts_sorted)
  next
    case (Abort s)
    with assms(1) show ?thesis
      using pool_inv_queue [OF priority_pool.abort_inv [OF assms(1)]] by (simp add: starts_nothing abort_started)
  next
    case (Microtask r)
    with same ok show ?thesis
      by (auto simp: run_next_def Let_def starts_nothing intro!: taskFinished_starts_sorted
          split: list.split outcome.split)
  next
    case (Completion t r)
    with same ok show ?thesis
      by (auto simp: settle_def Let_def intro!: taskFinished_starts_sorted split: option.split)
  qed
qed

lemma numeric_priorities_append [simp]: "numeric_priorities (xs @ ys) = (numeric_priorities xs \<and> numeric_priorities ys)"
  by (simp add: numeric_priorities_def)

lemma numeric_priorities_single: "numeric_priorities [(w, e)] \<Longrightarrow> accepts (\<lambda>a. a \<noteq> NaN) e"
  by (simp add: numeric_priorities_def)

subsection \<open>Priorities and numbers of the tasks\<close>

text \<open>The priorities with which the accepted tasks were added, in the order of the calls.\<close>

fun given_priorities :: "int option \<Rightarrow> PriorityTaskPool \<Rightarrow> (world \<times> number pool_event) list \<Rightarrow> number list" where
  "given_priorities cores p [] = []"
| "given_priorities cores p ((w, e) # evs) =
     (case e of AddTask a c \<Rightarrow> (if snd (priority_addTask w p c a) = None then [a] else []) | _ \<Rightarrow> []) @
     given_priorities cores (priority_step cores p (w, e)) evs"

text \<open>
  The queue knows every task by the number and the priority it was added with, unless a signal in \<open>A\<close> has
  moved it ahead.
\<close>

definition keyed :: "signal set \<Rightarrow> number list \<Rightarrow> PriorityTaskPool \<Rightarrow> bool" where
  "keyed A ps p \<longleftrightarrow> subscriptions_ok p \<and> length ps = length (tasks p) \<and> next_sequence (pool_queue p) = int (length ps) \<and>
     set (started p) \<union> set (pq_contents (pool_queue p)) \<subseteq> {..<length ps} \<and>
     (\<forall>t < length ps. task_sequence (pool_queue p) t = int t \<and>
        (priority (pool_queue p) t = ps ! t \<or> priority (pool_queue p) t = NegInfinity \<and> task_signal p t \<in> A))"

lemma keyed_cong:
  assumes "tasks p = tasks p'" "subscriptions p = subscriptions p'" "started p = started p'" "pool_queue p = pool_queue p'"
  shows "keyed A ps p = keyed A ps p'"
  using assms by (simp add: keyed_def subscriptions_ok_def task_signal_def)

lemma keyed_fields [simp]:
  "keyed A ps (with_metrics f p) = keyed A ps p" "keyed A ps (reportPoolError w p e t) = keyed A ps p"
  "keyed A ps (p\<lparr>microtasks := ms\<rparr>) = keyed A ps p" "keyed A ps (p\<lparr>running := rs\<rparr>) = keyed A ps p"
  "keyed A ps (p\<lparr>finished := ms\<rparr>) = keyed A ps p" "keyed A ps (p\<lparr>active := k\<rparr>) = keyed A ps p"
  "keyed A ps (p\<lparr>pool_state := st\<rparr>) = keyed A ps p" "keyed A ps (p\<lparr>drain := d\<rparr>) = keyed A ps p"
  "keyed A ps (p\<lparr>executorsCount := k\<rparr>) = keyed A ps p" "keyed A ps (finishDrainIfIdle ops p) = keyed A ps p"
  by (rule keyed_cong; simp add: reportPoolError_def finishDrainIfIdle_def)+

lemma pq_pop_keys: "pq_pop q = (q', x) \<Longrightarrow> (priority q', task_sequence q', next_sequence q') = (priority q, task_sequence q, next_sequence q)"
  by (auto simp: pq_pop_def split: sum.splits prod.splits)

lemma pump_keyed:
  assumes "pq_ok (pool_queue p)" and "keyed A ps p"
  shows "keyed A ps (pump pq_ops p)"
proof -
  let ?p = "pump_loop pq_ops p"
  obtain new where new: "started ?p = started p @ new" "pq_contents (pool_queue p) = new @ pq_contents (pool_queue ?p)"
    using priority_pool.pump_loop_order [OF assms(1)] by blast
  have "(\<lambda>q. (priority q, task_sequence q, next_sequence q)) (pool_queue ?p) = (\<lambda>q. (priority q, task_sequence q, next_sequence q)) (pool_queue p)"
    by (rule pump_loop_queue) (simp add: pq_pop_keys)
  then have "keyed A ps ?p"
    using assms(2) new pump_loop_subscriptions [of p pq_ops] unfolding keyed_def by (auto simp: task_signal_def)
  then show ?thesis using assms(2) by (simp add: pump_def)
qed

lemma cancel_keyed:
  assumes "pq_ok (pool_queue p)" and "keyed A ps p" and "task_signal p t \<in> A"
  shows "keyed A ps (cancel pq_ops p t)"
proof -
  let ?q = "fst (pq_promote (pool_queue p) t)"
  note spec = pq_promote_spec [OF assms(1), of t]
  have set: "set (pq_contents ?q) = set (pq_contents (pool_queue p))" using spec mset_eq_setD by blast
  have seq: "next_sequence ?q = next_sequence (pool_queue p)" "task_sequence ?q = task_sequence (pool_queue p)"
    by (auto simp: pq_promote_def Let_def split: sum.split)
  have pr: "priority ?q u = priority (pool_queue p) u \<or> u = t \<and> priority ?q u = NegInfinity" for u
    by (auto simp: pq_promote_def Let_def split: sum.split)
  have "priority ?q u = ps ! u \<or> priority ?q u = NegInfinity \<and> task_signal p u \<in> A" if "u < length ps" for u
    using pr [of u] assms(2,3) that by (auto simp: keyed_def)
  then have "keyed A ps (p\<lparr>pool_queue := ?q\<rparr>)"
    using assms(2) set seq unfolding keyed_def by (auto simp: subscriptions_ok_def task_signal_def)
  then show ?thesis
    using spec unfolding cancel_def Let_def split_beta by (intro pump_keyed) simp_all
qed

lemma notify_all_keyed:
  assumes "pool_inv pq_contents pq_ok p" and "keyed A ps p" and "s \<in> A"
  shows "keyed A ps (notify_all pq_ops s p ts)"
  using assms(1,2)
proof (induction ts arbitrary: p)
  case (Cons t ts)
  show ?case
  proof (cases "\<exists>cbs. jm_get (subscriptions p) s = Some cbs \<and> t \<in> set cbs")
    case True
    then have "task_signal p t \<in> A" using Cons.prems(2) assms(3) by (auto simp: keyed_def subscriptions_ok_def)
    then have "keyed A ps (cancel pq_ops p t)" using Cons.prems pool_inv_queue cancel_keyed by blast
    with True Cons show ?thesis by (auto simp: priority_pool.cancel_inv)
  next
    case False
    with Cons show ?thesis by (auto split: option.split)
  qed
qed simp

lemma abort_keyed:
  assumes "pool_inv pq_contents pq_ok p" and "keyed A ps p" and "s \<in> A"
  shows "keyed A ps (abort_listener pq_ops s p)"
proof -
  have "keyed A ps (q\<lparr>subscriptions := jm_delete (subscriptions q) s\<rparr>)" if "keyed A ps q" for q
    using that by (auto simp: keyed_def subscriptions_ok_def task_signal_def jsmap_simps split: if_splits)
  then show ?thesis
    using notify_all_keyed [OF assms] assms(2) by (auto simp: abort_listener_def Let_def split: option.split)
qed

lemma addTask_keyed:
  assumes "pool_inv pq_contents pq_ok p" and "keyed A ps p" and "a \<noteq> NaN"
  shows "keyed A (ps @ (if snd (priority_addTask w p c a) = None then [a] else [])) (fst (priority_addTask w p c a))"
proof (cases "cancelled w c \<or> pool_state p = Stopping \<or> pool_state p = Stopped")
  case True
  with assms(2) show ?thesis by (auto simp: priority_addTask_def addTask_def reject_def)
next
  case False
  let ?t = "length (tasks p)"
  let ?a = "p\<lparr>tasks := tasks p @ [c]\<rparr>"
  let ?q = "pq_push a (pool_queue p) ?t"
  let ?b = "(subscribe ?a ?t)\<lparr>pool_queue := ?q\<rparr>"
  have len: "length ps = ?t" using assms(2) by (simp add: keyed_def)
  then have fresh: "?t \<notin> set (pq_contents (pool_queue p))" using assms(2) by (auto simp: keyed_def)
  have ok: "pq_ok ?q" "set (pq_contents ?q) = insert ?t (set (pq_contents (pool_queue p)))"
    using pq_push_spec [OF assms(3) pool_inv_queue [OF assms(1)] fresh] by (auto dest: mset_eq_setD [of _ "_ # _"] simp flip: set_mset_mset)
  have keys: "priority ?q = (priority (pool_queue p))(?t := a)" "task_sequence ?q = (task_sequence (pool_queue p))(?t := next_sequence (pool_queue p))"
    "next_sequence ?q = next_sequence (pool_queue p) + 1"
    by (simp_all add: pq_push_def Let_def split: sum.split)
  have sig: "task_signal ?b u = task_signal p u" if "u < ?t" for u using that by (simp add: task_signal_def nth_append)
  have "subscriptions_ok (subscribe ?a ?t)"
    using assms(2) by (intro subscribe_subscriptions subscriptions_new_task) (simp_all add: keyed_def)
  then have "subscriptions_ok ?b" by (simp add: subscriptions_ok_def task_signal_def)
  then have "keyed A (ps @ [a]) ?b"
    using assms(2) ok(2) keys sig len by (auto simp: keyed_def nth_append less_Suc_eq)
  then have "keyed A (ps @ [a]) (pump pq_ops (with_metrics f ?b))" for f using ok(1) by (intro pump_keyed) simp_all
  with False show ?thesis using cancelled_if_aborted [of w c] by (auto simp: priority_addTask_def addTask_def Let_def)
qed

lemma step_keyed:
  assumes "pool_inv pq_contents pq_ok p" and "keyed A ps p" and "accepts (\<lambda>a. a \<noteq> NaN) e" and "\<And>s. e = Abort s \<Longrightarrow> s \<in> A"
  shows "keyed A (ps @ given_priorities cores p [(w, e)]) (priority_step cores p (w, e))"
proof -
  note q = pool_inv_queue [OF assms(1)]
  have fin: "keyed A ps (taskFinished pq_ops w p' t b)" if "pq_ok (pool_queue p')" "keyed A ps p'" for p' t b
    unfolding taskFinished_def Let_def using that by (intro pump_keyed) simp_all
  show ?thesis
  proof (cases e)
    case (AddTask a c)
    then show ?thesis using addTask_keyed [OF assms(1,2)] assms(3) by (simp add: accepts_def)
  next
    case Start
    then show ?thesis using assms(2) q by (auto simp: priority_start_def start_def intro!: pump_keyed)
  next
    case (Resize n)
    then show ?thesis using assms(2) q
      by (cases "normalizeExecutorsCount cores n") (auto simp: priority_resize_def resize_def Let_def intro!: pump_keyed)
  next
    case Stop
    then show ?thesis using assms(2) q by (auto simp: priority_stop_def stop_def Let_def intro!: pump_keyed)
  next
    case (Abort s)
    then show ?thesis using abort_keyed [OF assms(1,2)] assms(4) by simp
  next
    case (Microtask r)
    then show ?thesis using assms(2) q by (auto simp: priority_run_next_def run_next_def Let_def fin split: list.split outcome.split)
  next
    case (Completion t r)
    then show ?thesis using assms(2) q by (auto simp: priority_settle_def settle_def Let_def fin split: option.split)
  qed
qed

lemma given_priorities_append:
  "given_priorities cores p (xs @ ys) = given_priorities cores p xs @ given_priorities cores (priorityTaskPool_run cores p xs) ys"
  by (induction cores p xs rule: given_priorities.induct) (simp_all add: priorityTaskPool_run_def)

lemma run_keyed:
  assumes "priorityTaskPool_new cores n k m = Inr p0" and "\<forall>c. cores = Some c \<longrightarrow> 1 \<le> c"
  shows "numeric_priorities evs \<Longrightarrow> (\<And>w s. (w, Abort s) \<in> set evs \<Longrightarrow> s \<in> A) \<Longrightarrow>
    keyed A (given_priorities cores p0 evs) (priorityTaskPool_run cores p0 evs)"
proof (induction evs rule: rev_induct)
  case Nil
  have "keyed A [] p0" using assms(1) pq_new_ok(2)
    by (auto simp: priorityTaskPool_new_def result_simps new_pool_def keyed_def subscriptions_ok_def) (simp_all add: pq_new_def heap_new_def)
  then show ?case by (simp add: priorityTaskPool_run_def)
next
  case (snoc e evs)
  obtain w ev where e: "e = (w, ev)" by (cases e)
  have num: "numeric_priorities evs" "accepts (\<lambda>a. a \<noteq> NaN) ev" using snoc.prems(1) numeric_priorities_single [of w ev]
    unfolding e numeric_priorities_append by blast+
  have "keyed A (given_priorities cores p0 evs) (priorityTaskPool_run cores p0 evs)" using snoc num(1) by (metis butlast_snoc in_set_butlastD)
  from step_keyed [OF priorityTaskPool_reachable_inv [OF assms num(1)] this num(2), of cores w] show ?case
    using snoc.prems(2) e by (auto simp: given_priorities_append priorityTaskPool_run_def)
qed

text \<open>
  C4. In every reachable state of a priority pool, whatever event comes next: the tasks it makes the pool start, in
  their start order, followed by the tasks that still wait, are sorted by the priorities with which they were added, the
  smallest first, and by the order of the calls of \<open>addTask\<close> where these are equal (tasks are numbered in that
  order). Only a task whose own signal was aborted may be moved ahead, as if its priority were minus infinity.
  Priorities must not be \<open>NaN\<close>.
\<close>

theorem priorityTaskPool_order:
  assumes "priorityTaskPool_new cores n k m = Inr p0" and "\<forall>c. cores = Some c \<longrightarrow> 1 \<le> c"
    and "numeric_priorities (evs @ [(w, e)])"
    and "p = priorityTaskPool_run cores p0 evs" and "p' = priorityTaskPool_run cores p [(w, e)]"
    and "given = given_priorities cores p0 (evs @ [(w, e)])" and "A = {s. \<exists>w'. (w', Abort s) \<in> set (evs @ [(w, e)])}"
  shows "\<exists>new key. started p' = started p @ new \<and> length given = length (tasks p') \<and>
    (\<forall>t < length given. key t = given ! t \<or> key t = NegInfinity \<and> task_signal p' t \<in> A) \<and>
    sorted_wrt (\<lambda>a b. num_less (key a) (key b) \<or> key a = key b \<and> a \<le> b) (new @ pq_contents (pool_queue p'))"
proof -
  let ?q = "pool_queue p'"
  have num: "numeric_priorities evs" "accepts (\<lambda>a. a \<noteq> NaN) e"
    using assms(3) numeric_priorities_single [of w e] by (simp_all only: numeric_priorities_append)
  have "starts_sorted p p'"
    using step_starts_sorted [OF priorityTaskPool_reachable_inv [OF assms(1,2) num(1)] num(2), of cores w]
    unfolding assms(4,5) by (simp add: priorityTaskPool_run_pool pool_run_def)
  then obtain new where new: "started p' = started p @ new" "sorted_wrt (task_before ?q) (new @ pq_contents ?q)"
    by (auto simp: starts_sorted_def)
  have run: "p' = priorityTaskPool_run cores p0 (evs @ [(w, e)])" unfolding assms(4,5) by (simp add: priorityTaskPool_run_def)
  have key: "keyed A given p'" unfolding run assms(6,7) by (rule run_keyed [OF assms(1,2,3)]) auto
  have "pq_ok ?q" unfolding run by (rule pool_inv_queue [OF priorityTaskPool_reachable_inv [OF assms(1-3)]])
  then have nan: "priority ?q t \<noteq> NaN" for t by (simp add: pq_ok_def)
  have ids: "set (new @ pq_contents ?q) \<subseteq> {..<length given}" using key new(1) by (auto simp: keyed_def)
  have "num_less (priority ?q a) (priority ?q b) \<or> priority ?q a = priority ?q b \<and> a \<le> b"
    if "a \<in> set (new @ pq_contents ?q)" "b \<in> set (new @ pq_contents ?q)" "task_before ?q a b" for a b
  proof -
    have "task_sequence ?q a = int a" "task_sequence ?q b = int b" using that(1,2) ids key by (auto simp: keyed_def)
    then show ?thesis using that(3) num_less_total [of "priority ?q a" "priority ?q b"] nan
      by (auto simp: task_before_def compare_tasks_def split: if_splits)
  qed
  then have "sorted_wrt (\<lambda>a b. num_less (priority ?q a) (priority ?q b) \<or> priority ?q a = priority ?q b \<and> a \<le> b) (new @ pq_contents ?q)"
    by (rule sorted_wrt_mono_rel [OF _ new(2)])
  moreover have "length given = length (tasks p')"
    "\<forall>t < length given. priority ?q t = given ! t \<or> priority ?q t = NegInfinity \<and> task_signal p' t \<in> A"
    using key unfolding keyed_def by blast+
  ultimately show ?thesis using new(1) by blast
qed

text \<open>
  Every accepted task of a priority pool is accounted for: in every reachable state it is
  queued, scheduled, running or finished, and in one of these only; no executor idles while
  tasks wait in a started pool, and a stopped pool has nothing left and a resolved drain.
\<close>

theorem priorityTaskPool_accounting:
  assumes "priorityTaskPool_new cores n k m = Inr p0" and "\<forall>c. cores = Some c \<longrightarrow> 1 \<le> c"
    and "numeric_priorities evs" and "p = priorityTaskPool_run cores p0 evs"
  shows "mset (items (pq_heap (pool_queue p))) + mset (microtasks p) + mset (map fst (running p)) +
      mset (finished p) = mset [0..<length (tasks p)] \<and>
    active p = int (length (microtasks p) + length (running p)) \<and>
    (pool_state p = Running \<or> pool_state p = Stopping \<longrightarrow>
      items (pq_heap (pool_queue p)) = [] \<or> executorsCount p \<le> active p) \<and>
    (pool_state p = Stopped \<longrightarrow>
      drain p = Some True \<and> active p = 0 \<and> items (pq_heap (pool_queue p)) = [])"
proof -
  have "pool_inv pq_contents pq_ok p"
    unfolding assms(4) by (rule priorityTaskPool_reachable_inv [OF assms(1-3)])
  moreover have "pq_contents q = [] \<longleftrightarrow> items (pq_heap q) = []" for q
    using pq_contents_mset [of q] by (metis mset_zero_iff)
  ultimately show ?thesis
    unfolding pool_inv_def accounted_def lifecycle_ok_def pumped_def pq_contents_mset by blast
qed

section \<open>Instances\<close>

definition idle_world :: world where
  "idle_world = \<lparr>clock = 0, abort_reason = (\<lambda>_. None), next_error = 0\<rparr>"

definition bare_context :: "signal \<Rightarrow> context_state" where
  "bare_context s = \<lparr>ctx_signal = s, ctx_deadline = None, ctx_sampling = False\<rparr>"

definition single_executor :: PriorityTaskPool where
  "single_executor = new_pool ''pp'' pq_new 1 None"

lemma single_executor_new: "priorityTaskPool_new None ''pp'' (Finite 1) None = Inr single_executor"
proof -
  have "normalizeExecutorsCount None (Finite 1) = Inr 1" by code_simp
  then show ?thesis by (simp add: priorityTaskPool_new_def single_executor_def)
qed

text \<open>Four tasks of priorities 5, 7, 3 and 7; the last one's signal is aborted.\<close>

definition four_tasks :: "(world \<times> number pool_event) list" where
  "four_tasks = [(idle_world, Start), (idle_world, AddTask (Finite 5) (bare_context 1)),
     (idle_world, AddTask (Finite 7) (bare_context 2)), (idle_world, AddTask (Finite 3) (bare_context 3)),
     (idle_world, AddTask (Finite 7) (bare_context 4)), (idle_world, Microtask Returned),
     (idle_world, Abort 4)]"

lemma four_tasks_numeric:
  "numeric_priorities four_tasks" "numeric_priorities [(idle_world, Completion 0 None)]"
  by code_simp+

theorem priorityTaskPool_order_witness:
  "\<exists>key. sorted_wrt (\<lambda>a b. num_less (key a) (key b) \<or> key a = key b \<and> a \<le> b) [3, 2, 1] \<and> key 2 = Finite 3 \<and> key (1::nat) = Finite 7"
proof -
  let ?p = "priorityTaskPool_run None single_executor four_tasks"
  let ?p' = "priorityTaskPool_run None ?p [(idle_world, Completion 0 None)]"
  have s: "started ?p = [0]" "started ?p' = [0, 3]" "pq_contents (pool_queue ?p') = [2, 1]" "task_signal ?p' 1 = 2" "task_signal ?p' 2 = 3"
    "given_priorities None single_executor (four_tasks @ [(idle_world, Completion 0 None)]) = [Finite 5, Finite 7, Finite 3, Finite 7]"
    by code_simp+
  have "length (tasks ?p') = 4" by code_simp
  moreover have "{s. \<exists>w'. (w', Abort s) \<in> set (four_tasks @ [(idle_world, Completion 0 None)])} = {4}" by (auto simp: four_tasks_def)
  moreover have "numeric_priorities (four_tasks @ [(idle_world, Completion 0 None)])" using four_tasks_numeric by simp
  ultimately obtain new key where new: "[0, 3] = [0] @ new"
    and k: "\<forall>t < length [Finite 5, Finite 7, Finite 3, Finite 7]. key t = [Finite 5, Finite 7, Finite 3, Finite 7] ! t \<or> key t = NegInfinity \<and> task_signal ?p' t \<in> {4}"
    and st: "sorted_wrt (\<lambda>a b. num_less (key a) (key b) \<or> key a = key b \<and> a \<le> b) (new @ [2, 1])"
    using priorityTaskPool_order [OF single_executor_new _ _ refl refl refl refl, of four_tasks idle_world "Completion 0 None", unfolded s] by auto
  have "key 2 = Finite 3" "key 1 = Finite 7" using k [rule_format, of 2] k [rule_format, of 1] s(4,5) by auto
  then show ?thesis using new st by (intro exI [of _ key]) auto
qed

theorem priorityTaskPool_accounting_witness:
  "mset (items (pq_heap (pool_queue (priorityTaskPool_run None single_executor four_tasks)))) +
     mset (microtasks (priorityTaskPool_run None single_executor four_tasks)) +
     mset (map fst (running (priorityTaskPool_run None single_executor four_tasks))) +
     mset (finished (priorityTaskPool_run None single_executor four_tasks)) = mset [0, 1, 2, 3]"
proof -
  have "length (tasks (priorityTaskPool_run None single_executor four_tasks)) = 4" by code_simp
  then show ?thesis
    using priorityTaskPool_accounting [OF single_executor_new _ four_tasks_numeric(1) refl]
    by (simp add: upt_rec numeral_eq_Suc)
qed

end
