(* ===== verification/DelayPool.thy ===== *)
theory DelayPool
  imports PriorityTaskPool
begin

text \<open>
  The delay pool of \<open>src/runtime/pool/delay-pool.ts\<close>: tasks that start after a delay, on one timer
  that is armed for the earliest of them. The clock does not move during an event; the timer may
  fire at any time once it is armed, early or late, as the host is free to do.
\<close>

section \<open>State\<close>

record delay_task =
  task_context :: context_state
  runAt :: number
  delay_sequence :: int
  expeditedByDeadline :: bool
  task_completed :: bool

record DelayPoolMetrics =
  waitQueueLength :: int
  delay_tasksTotal :: nat
  delay_executionDuration :: "rat list"
  delay_stopTimeout :: nat
  taskCancelled :: nat

text \<open>
  A task object is its index in \<open>delay_tasks\<close>. \<open>pending\<close> is the set \<open>#tasks\<close> in insertion order.
  \<open>timer\<close> is the time the armed timer is due at. A microtask and a running task carry the
  \<open>cancelled\<close> argument of \<open>dispatch\<close>, a running task also its start time. \<open>delay_drain\<close> is \<open>None\<close>
  while \<open>#drain\<close> is undefined, then whether its promise is resolved. \<open>delay_errors\<close> logs the calls of
  \<open>onError\<close>; \<open>dispatched\<close> (task, time, whether an abort caused it) and \<open>delay_finished\<close> are
  histories, read by no operation.
\<close>

record DelayPool =
  delay_name :: string
  delay_metrics :: "DelayPoolMetrics option"
  delay_tasks :: "delay_task list"
  pending :: "nat list"
  delay_queue :: "nat IndexedHeap"
  timer :: "millis option"
  armedAt :: "number option"
  delay_next :: int
  delay_state :: pool_state
  delay_drain :: "bool option"
  listeners :: "(signal, nat list) jsmap"
  delay_microtasks :: "(nat \<times> bool) list"
  delay_running :: "(nat \<times> bool \<times> millis) list"
  delay_errors :: "(thrown \<times> nat) list"
  dispatched :: "(nat \<times> millis \<times> bool) list"
  delay_finished :: "nat list"

text \<open>\<open>makeMetrics\<close>: no instruments unless metrics are enabled and the service is known.\<close>

definition makeMetrics :: "bool option \<Rightarrow> string option \<Rightarrow> DelayPoolMetrics option" where
  "makeMetrics enabled service =
     (if enabled \<noteq> Some True \<or> service = None then None
      else Some \<lparr>waitQueueLength = 0, delay_tasksTotal = 0, delay_executionDuration = [], delay_stopTimeout = 0,
                 taskCancelled = 0\<rparr>)"

definition delayPool_new :: "string option \<Rightarrow> bool option \<Rightarrow> string option \<Rightarrow> DelayPool" where
  "delayPool_new n enabled service =
     \<lparr>delay_name = (case n of None \<Rightarrow> ''delay'' | Some s \<Rightarrow> s), delay_metrics = makeMetrics enabled service,
      delay_tasks = [], pending = [], delay_queue = heap_new, timer = None, armedAt = None, delay_next = 0,
      delay_state = Created, delay_drain = None, listeners = [], delay_microtasks = [], delay_running = [],
      delay_errors = [], dispatched = [], delay_finished = []\<rparr>"

definition with_delay_metrics :: "(DelayPoolMetrics \<Rightarrow> DelayPoolMetrics) \<Rightarrow> DelayPool \<Rightarrow> DelayPool" where
  "with_delay_metrics f p = p\<lparr>delay_metrics := map_option f (delay_metrics p)\<rparr>"

definition pendingCount :: "DelayPool \<Rightarrow> nat" where
  "pendingCount p = length (pending p)"

section \<open>The comparison\<close>

text \<open>\<open>-\<close> on numbers, and the sign of a number (of \<open>NaN\<close>, 0): \<open>||\<close> takes its right operand on both.\<close>

fun num_minus :: "number \<Rightarrow> number \<Rightarrow> number" where
  "num_minus (Finite a) (Finite b) = Finite (a - b)"
| "num_minus NaN y = NaN"
| "num_minus x NaN = NaN"
| "num_minus PosInfinity PosInfinity = NaN"
| "num_minus NegInfinity NegInfinity = NaN"
| "num_minus PosInfinity y = PosInfinity"
| "num_minus NegInfinity y = NegInfinity"
| "num_minus (Finite a) PosInfinity = NegInfinity"
| "num_minus (Finite a) NegInfinity = PosInfinity"

definition num_sign :: "number \<Rightarrow> int" where
  "num_sign x = (if num_less x (Finite 0) then -1 else if num_less (Finite 0) x then 1 else 0)"

text \<open>The heap reads the sign of its comparison only, so the sign stands for the difference of the times.\<close>

definition compare_delays :: "(nat \<Rightarrow> number) \<Rightarrow> (nat \<Rightarrow> int) \<Rightarrow> nat comparison" where
  "compare_delays at_time sq a b =
     (let d = num_sign (num_minus (at_time a) (at_time b)) in if d \<noteq> 0 then d else sq a - sq b)"

definition task_runAt :: "DelayPool \<Rightarrow> nat \<Rightarrow> number" where
  "task_runAt p t = (case elem_at (delay_tasks p) t of Some k \<Rightarrow> runAt k | None \<Rightarrow> PosInfinity)"

definition task_seq :: "DelayPool \<Rightarrow> nat \<Rightarrow> int" where
  "task_seq p t = (case elem_at (delay_tasks p) t of Some k \<Rightarrow> delay_sequence k | None \<Rightarrow> int t)"

abbreviation delay_compare :: "DelayPool \<Rightarrow> nat comparison" where
  "delay_compare p \<equiv> compare_delays (task_runAt p) (task_seq p)"

section \<open>Abort subscriptions\<close>

definition delay_signal :: "DelayPool \<Rightarrow> nat \<Rightarrow> signal" where
  "delay_signal p t = ctx_signal (task_context (delay_tasks p ! t))"

definition delay_subscribe :: "DelayPool \<Rightarrow> nat \<Rightarrow> DelayPool" where
  "delay_subscribe p t =
     (case jm_get (listeners p) (delay_signal p t) of
        None \<Rightarrow> p\<lparr>listeners := jm_set (listeners p) (delay_signal p t) [t]\<rparr>
      | Some cbs \<Rightarrow> p\<lparr>listeners := jm_set (listeners p) (delay_signal p t) (if t \<in> set cbs then cbs else cbs @ [t])\<rparr>)"

definition delay_unsubscribe :: "DelayPool \<Rightarrow> nat \<Rightarrow> DelayPool" where
  "delay_unsubscribe p t =
     (case jm_get (listeners p) (delay_signal p t) of
        None \<Rightarrow> p
      | Some cbs \<Rightarrow>
          if removeAll t cbs = [] then p\<lparr>listeners := jm_delete (listeners p) (delay_signal p t)\<rparr>
          else p\<lparr>listeners := jm_set (listeners p) (delay_signal p t) (removeAll t cbs)\<rparr>)"

section \<open>Dispatch and the timer\<close>

text \<open>
  \<open>dispatch\<close>; the last argument says whether an abort listener calls it. The heap's \<open>remove\<close> throws
  on no reachable heap; the heap is then left as it was.
\<close>

definition delay_dispatch :: "world \<Rightarrow> DelayPool \<Rightarrow> nat \<Rightarrow> bool \<Rightarrow> bool \<Rightarrow> DelayPool" where
  "delay_dispatch w p t is_cancelled by_abort =
     (if task_completed (delay_tasks p ! t) then p
      else
        (let p1 = p\<lparr>delay_tasks := (delay_tasks p)[t := (delay_tasks p ! t)\<lparr>task_completed := True\<rparr>]\<rparr>;
             p2 = (case heap_remove (delay_compare p1) (delay_queue p1) t of
                     Inr (h, _) \<Rightarrow> p1\<lparr>delay_queue := h\<rparr>
                   | Inl _ \<Rightarrow> p1);
             p3 = delay_unsubscribe p2 t
         in p3\<lparr>delay_microtasks := delay_microtasks p3 @ [(t, is_cancelled)],
               dispatched := dispatched p3 @ [(t, clock w, by_abort)]\<rparr>))"

definition max_timeout :: millis where
  "max_timeout = 2147483647"

definition arm :: "world \<Rightarrow> DelayPool \<Rightarrow> DelayPool" where
  "arm w p =
     (let next_run = map_option (task_runAt p) (heap_peek (delay_queue p))
      in if next_run = armedAt p then p
         else
           (let p1 = p\<lparr>timer := None, armedAt := next_run\<rparr>
            in case next_run of
                 Some (Finite r) \<Rightarrow>
                   p1\<lparr>timer := Some (clock w + min max_timeout (max 0 (of_int \<lceil>r - clock w\<rceil>)))\<rparr>
               | _ \<Rightarrow> p1))"

text \<open>The loop of the timer's callback. It ends because \<open>dispatch\<close> removes the task it looked at.\<close>

partial_function (option) run_due :: "world \<Rightarrow> DelayPool \<Rightarrow> DelayPool option" where
  "run_due w p =
     (case heap_peek (delay_queue p) of
        None \<Rightarrow> Some p
      | Some t \<Rightarrow>
          if num_less (Finite (clock w)) (task_runAt p t) then Some p
          else run_due w (delay_dispatch w p t
                 (expeditedByDeadline (delay_tasks p ! t) \<or> cancelled w (task_context (delay_tasks p ! t))) False))"

declare run_due.simps [code]

definition timer_callback :: "world \<Rightarrow> DelayPool \<Rightarrow> DelayPool option" where
  "timer_callback w p = map_option (arm w) (run_due w (p\<lparr>timer := None, armedAt := None\<rparr>))"

section \<open>Admission\<close>

text \<open>\<open>Math.max(0, Math.min(delayMs, remaining ?? Infinity))\<close> for a \<open>delayMs\<close> that is not \<open>NaN\<close>.\<close>

definition effective_delay :: "number \<Rightarrow> millis option \<Rightarrow> number" where
  "effective_delay d remaining =
     (let least = (case remaining of None \<Rightarrow> d | Some r \<Rightarrow> if num_less d (Finite r) then d else Finite r)
      in if num_less least (Finite 0) then Finite 0 else least)"

definition num_plus :: "millis \<Rightarrow> number \<Rightarrow> number" where
  "num_plus c d = (case d of Finite q \<Rightarrow> Finite (c + q) | other \<Rightarrow> other)"

definition abort_callback :: "world \<Rightarrow> DelayPool \<Rightarrow> nat \<Rightarrow> DelayPool" where
  "abort_callback w p t = arm w (delay_dispatch w p t True True)"

definition delay :: "world \<Rightarrow> DelayPool \<Rightarrow> context_state \<Rightarrow> number \<Rightarrow> DelayPool \<times> thrown option" where
  "delay w p c delayMs =
     (if cancelled w c then
        (p, Some (case abort_reason w (ctx_signal c) of
                    Some r \<Rightarrow> r
                  | None \<Rightarrow> new_error w ''Error'' ''delay context is cancelled''))
      else if delay_state p = Stopping \<or> delay_state p = Stopped then
        (p, Some (new_error w ''PoolStoppedError'' (''pool '' @ delay_name p @ '' is stopped'')))
      else if delayMs = NaN then (p, Some (new_error w ''RangeError'' ''delay must not be NaN''))
      else
        (let remaining = remainingMs w c;
             effectiveDelay = effective_delay delayMs remaining;
             t = length (delay_tasks p);
             expedited = (case remaining of None \<Rightarrow> False | Some r \<Rightarrow> num_less (Finite r) delayMs);
             task = \<lparr>task_context = c, runAt = num_plus (clock w) effectiveDelay, delay_sequence = delay_next p,
                     expeditedByDeadline = expedited, task_completed = False\<rparr>;
             p1 = with_delay_metrics (\<lambda>m. m\<lparr>waitQueueLength := waitQueueLength m + 1\<rparr>)
                    (p\<lparr>delay_tasks := delay_tasks p @ [task], delay_next := delay_next p + 1, pending := pending p @ [t]\<rparr>)
         in if effectiveDelay = Finite 0 then (delay_dispatch w p1 t expedited False, None)
            else
              (let p2 = (case heap_push (delay_compare p1) (delay_queue p1) t of
                           Inr h \<Rightarrow> p1\<lparr>delay_queue := h\<rparr>
                         | Inl _ \<Rightarrow> p1);
                   p3 = (if signal_aborted w (ctx_signal c) then abort_callback w p2 t else delay_subscribe p2 t)
               in (arm w p3, None))))"

text \<open>The listener of \<open>subscribeAbort\<close>, as in \<open>PoolCore\<close>.\<close>

fun delay_notify :: "world \<Rightarrow> signal \<Rightarrow> DelayPool \<Rightarrow> nat list \<Rightarrow> DelayPool" where
  "delay_notify w s p [] = p"
| "delay_notify w s p (t # ts) =
     (case jm_get (listeners p) s of
        Some cbs \<Rightarrow> delay_notify w s (if t \<in> set cbs then abort_callback w p t else p) ts
      | None \<Rightarrow> delay_notify w s p ts)"

definition delay_abort :: "world \<Rightarrow> signal \<Rightarrow> DelayPool \<Rightarrow> DelayPool" where
  "delay_abort w s p =
     (case jm_get (listeners p) s of
        None \<Rightarrow> p
      | Some cbs \<Rightarrow> (let p' = delay_notify w s p cbs in p'\<lparr>listeners := jm_delete (listeners p') s\<rparr>))"

section \<open>Completion and lifecycle\<close>

definition delay_finishDrainIfIdle :: "DelayPool \<Rightarrow> DelayPool" where
  "delay_finishDrainIfIdle p =
     (if delay_state p \<noteq> Stopping \<or> pending p \<noteq> [] then p
      else p\<lparr>delay_state := Stopped, delay_drain := map_option (\<lambda>_. True) (delay_drain p)\<rparr>)"

definition completeTask :: "world \<Rightarrow> DelayPool \<Rightarrow> nat \<Rightarrow> millis \<Rightarrow> bool \<Rightarrow> DelayPool" where
  "completeTask w p t began is_cancelled =
     delay_finishDrainIfIdle
       (with_delay_metrics
          (\<lambda>m. m\<lparr>waitQueueLength := waitQueueLength m - 1, delay_tasksTotal := delay_tasksTotal m + 1,
                 delay_executionDuration := delay_executionDuration m @ [(clock w - began) / 1000],
                 taskCancelled := taskCancelled m + (if is_cancelled then 1 else 0)\<rparr>)
          (p\<lparr>pending := removeAll t (pending p), delay_finished := delay_finished p @ [t]\<rparr>))"

definition delay_report :: "world \<Rightarrow> DelayPool \<Rightarrow> thrown \<Rightarrow> nat \<Rightarrow> DelayPool" where
  "delay_report w p e t =
     (if isTaskCancellation w e (delay_signal p t) then p else p\<lparr>delay_errors := delay_errors p @ [(e, t)]\<rparr>)"

text \<open>The first microtask, and the settling of the completion it waits for.\<close>

definition delay_run_next :: "world \<Rightarrow> DelayPool \<Rightarrow> outcome \<Rightarrow> DelayPool" where
  "delay_run_next w p result =
     (case delay_microtasks p of
        [] \<Rightarrow> p
      | (t, is_cancelled) # rest \<Rightarrow>
          (let p1 = p\<lparr>delay_microtasks := rest\<rparr>
           in case result of
                Threw e \<Rightarrow> completeTask w (delay_report w p1 e t) t (clock w) is_cancelled
              | Returned \<Rightarrow> p1\<lparr>delay_running := delay_running p1 @ [(t, is_cancelled, clock w)]\<rparr>))"

definition delay_settle :: "world \<Rightarrow> DelayPool \<Rightarrow> nat \<Rightarrow> thrown option \<Rightarrow> DelayPool" where
  "delay_settle w p t rejection =
     (case map_of (delay_running p) t of
        None \<Rightarrow> p
      | Some (is_cancelled, began) \<Rightarrow>
          (let p1 = p\<lparr>delay_running := filter (\<lambda>r. fst r \<noteq> t) (delay_running p)\<rparr>;
               p2 = (case rejection of None \<Rightarrow> p1 | Some e \<Rightarrow> delay_report w p1 e t)
           in completeTask w p2 t began is_cancelled))"

definition delay_start :: "DelayPool \<Rightarrow> string + DelayPool" where
  "delay_start p =
     (if delay_state p \<noteq> Created
      then Inl (''pool '' @ delay_name p @ '' cannot start from '' @ state_text (delay_state p))
      else Inr (p\<lparr>delay_state := Running\<rparr>))"

text \<open>The synchronous part of \<open>stop\<close>: the pool and whether the call goes on to wait for the drain.\<close>

definition delay_stop :: "DelayPool \<Rightarrow> DelayPool \<times> bool" where
  "delay_stop p =
     (if delay_state p = Stopped then (p, False)
      else if delay_drain p \<noteq> None then (p, True)
      else if pending p = [] then (p\<lparr>delay_state := Stopped\<rparr>, False)
      else (p\<lparr>delay_state := Stopping, delay_drain := Some False\<rparr>, True))"

definition reportStopTimeout :: "DelayPool \<Rightarrow> DelayPool" where
  "reportStopTimeout p = with_delay_metrics (\<lambda>m. m\<lparr>delay_stopTimeout := delay_stopTimeout m + 1\<rparr>) p"

section \<open>Runs\<close>

datatype delay_event =
    Delay context_state number
  | DelayStart
  | DelayStop
  | DelayAbort signal
  | TimerFired
  | DelayMicrotask outcome
  | DelayCompletion nat "thrown option"

text \<open>One event in the world \<open>w\<close>; \<open>None\<close> is a callback that does not return.\<close>

fun delay_step :: "DelayPool \<Rightarrow> world \<times> delay_event \<Rightarrow> DelayPool option" where
  "delay_step p (w, Delay c d) = Some (fst (delay w p c d))"
| "delay_step p (w, DelayStart) = Some (case delay_start p of Inl _ \<Rightarrow> p | Inr p' \<Rightarrow> p')"
| "delay_step p (w, DelayStop) = Some (fst (delay_stop p))"
| "delay_step p (w, DelayAbort s) = Some (delay_abort w s p)"
| "delay_step p (w, TimerFired) = (if timer p = None then Some p else timer_callback w p)"
| "delay_step p (w, DelayMicrotask r) = Some (delay_run_next w p r)"
| "delay_step p (w, DelayCompletion t r) = Some (delay_settle w p t r)"

fun delay_run :: "DelayPool \<Rightarrow> (world \<times> delay_event) list \<Rightarrow> DelayPool option" where
  "delay_run p [] = Some p"
| "delay_run p (e # evs) = Option.bind (delay_step p e) (\<lambda>p'. delay_run p' evs)"

section \<open>The order of the tasks\<close>

lemma compare_delays_tasks: "\<forall>t. ra t \<noteq> NaN \<Longrightarrow> num_sign (num_minus (ra a) (ra b)) =
    (if num_less (ra a) (ra b) then -1 else if num_less (ra b) (ra a) then 1 else 0)"
  by (cases "ra a"; cases "ra b") (auto simp: num_sign_def)

lemma compare_delays_comparator:
  assumes "\<forall>t. ra t \<noteq> NaN"
  shows "comparator (compare_delays ra sq)"
proof -
  have "compare_delays ra sq = compare_tasks ra sq"
    using compare_delays_tasks [OF assms] by (simp add: compare_delays_def compare_tasks_def fun_eq_iff Let_def)
  then show ?thesis using compare_tasks_comparator [OF assms] by simp
qed

section \<open>Invariant\<close>

text \<open>
  The tasks of the pool: the waiting ones are in the heap (\<open>xs\<close> are admitted and not yet in it),
  the others scheduled, running or finished, each in exactly one place; none is dispatched early
  but by an abort.
\<close>

definition delay_core :: "nat list \<Rightarrow> DelayPool \<Rightarrow> bool" where
  "delay_core xs p \<longleftrightarrow>
     heap_inv (delay_compare p) (delay_queue p) \<and>
     (\<forall>k \<in> set (delay_tasks p). runAt k \<noteq> NaN \<and> runAt k \<noteq> NegInfinity) \<and>
     delay_next p = int (length (delay_tasks p)) \<and>
     (\<forall>t < length (delay_tasks p). delay_sequence (delay_tasks p ! t) = int t) \<and>
     mset (pending p @ delay_finished p) = mset [0..<length (delay_tasks p)] \<and>
     mset (pending p) =
       mset (items (delay_queue p) @ xs @ map fst (delay_microtasks p) @ map fst (delay_running p)) \<and>
     (\<forall>t < length (delay_tasks p). task_completed (delay_tasks p ! t) \<longleftrightarrow> t \<notin> set (items (delay_queue p) @ xs)) \<and>
     mset (map fst (dispatched p)) = mset (map fst (delay_microtasks p) @ map fst (delay_running p) @ delay_finished p) \<and>
     (\<forall>(t, c, by_abort) \<in> set (dispatched p). t < length (delay_tasks p) \<and>
        (by_abort \<or> \<not> num_less (Finite c) (task_runAt p t))) \<and>
     (\<forall>m. delay_metrics p = Some m \<longrightarrow> waitQueueLength m = int (length (pending p)))"

definition delay_phase :: "DelayPool \<Rightarrow> bool" where
  "delay_phase p \<longleftrightarrow> (delay_state p = Stopping \<longrightarrow> pending p \<noteq> [] \<and> delay_drain p = Some False) \<and>
     (delay_state p = Stopped \<longrightarrow> pending p = [] \<and> delay_drain p \<noteq> Some False) \<and>
     (delay_drain p \<noteq> None \<longrightarrow> delay_state p = Stopping \<or> delay_state p = Stopped)"

text \<open>The timer is armed for the earliest waiting task, and due less than a millisecond after it.\<close>

fun due_in_time :: "millis \<Rightarrow> millis option \<Rightarrow> number option \<Rightarrow> bool" where
  "due_in_time c (Some due) (Some (Finite r)) \<longleftrightarrow> due \<le> max c (r + 1)"
| "due_in_time c None (Some (Finite r)) \<longleftrightarrow> False"
| "due_in_time c t _ \<longleftrightarrow> t = None"

definition timer_ok :: "millis \<Rightarrow> DelayPool \<Rightarrow> bool" where
  "timer_ok c p = due_in_time c (timer p) (armedAt p)"

definition armed_ok :: "millis \<Rightarrow> DelayPool \<Rightarrow> bool" where
  "armed_ok c p \<longleftrightarrow> armedAt p = map_option (task_runAt p) (heap_peek (delay_queue p)) \<and> timer_ok c p"

lemma due_in_time_mono: "due_in_time c t a \<Longrightarrow> c \<le> c' \<Longrightarrow> due_in_time c' t a"
  by (induction c t a rule: due_in_time.induct) auto

lemma timer_ok_mono: "timer_ok c p \<Longrightarrow> c \<le> c' \<Longrightarrow> timer_ok c' p"
  by (auto simp: timer_ok_def intro: due_in_time_mono)

lemma ceiling_due: "c + min m (max 0 (of_int \<lceil>r - c\<rceil>)) \<le> max c (r + 1)" for c m r :: rat
proof -
  have "of_int \<lceil>r - c\<rceil> < r - c + 1" by linarith
  then show ?thesis by (auto simp: min_def max_def)
qed

lemma arm_ok:
  assumes "timer_ok c p" and "c \<le> clock w"
  shows "armed_ok (clock w) (arm w p)"
proof (cases "map_option (task_runAt p) (heap_peek (delay_queue p)) = armedAt p")
  case True
  then show ?thesis using timer_ok_mono [OF assms] by (simp add: arm_def armed_ok_def Let_def)
next
  case False
  then show ?thesis
    using ceiling_due [of "clock w" max_timeout]
    by (auto simp: arm_def armed_ok_def timer_ok_def Let_def task_runAt_def split: option.splits number.splits)
qed

lemma arm_fields [simp]:
  "delay_tasks (arm w p) = delay_tasks p" "delay_queue (arm w p) = delay_queue p" "pending (arm w p) = pending p"
  "delay_next (arm w p) = delay_next p" "delay_state (arm w p) = delay_state p" "delay_drain (arm w p) = delay_drain p"
  "listeners (arm w p) = listeners p" "delay_microtasks (arm w p) = delay_microtasks p"
  "delay_running (arm w p) = delay_running p" "dispatched (arm w p) = dispatched p"
  "delay_finished (arm w p) = delay_finished p" "delay_metrics (arm w p) = delay_metrics p"
  by (simp_all add: arm_def Let_def split: option.splits number.splits)

lemma arm_times [simp]: "task_runAt (arm w p) = task_runAt p" "task_seq (arm w p) = task_seq p"
  by (simp_all add: task_runAt_def task_seq_def fun_eq_iff)

lemma delay_core_cong:
  assumes "delay_tasks q = delay_tasks p" and "delay_queue q = delay_queue p" and "pending q = pending p"
    and "delay_next q = delay_next p" and "delay_microtasks q = delay_microtasks p" and "delay_running q = delay_running p"
    and "delay_finished q = delay_finished p" and "dispatched q = dispatched p" and "delay_metrics q = delay_metrics p"
  shows "delay_core xs q = delay_core xs p"
proof -
  have times: "task_runAt q = task_runAt p" "task_seq q = task_seq p"
    by (simp_all add: task_runAt_def task_seq_def fun_eq_iff assms(1))
  show ?thesis unfolding delay_core_def times assms ..
qed

lemma armed_ok_cong:
  assumes "timer q = timer p" and "armedAt q = armedAt p" and "delay_queue q = delay_queue p"
    and "delay_tasks q = delay_tasks p"
  shows "armed_ok c q = armed_ok c p"
proof -
  have "task_runAt q = task_runAt p" by (simp add: task_runAt_def fun_eq_iff assms(4))
  then show ?thesis unfolding armed_ok_def timer_ok_def assms by simp
qed

lemma delay_core_arm [simp]: "delay_core xs (arm w p) \<longleftrightarrow> delay_core xs p"
  by (rule delay_core_cong) simp_all

lemma delay_phase_arm [simp]: "delay_phase (arm w p) \<longleftrightarrow> delay_phase p"
  by (simp add: delay_phase_def)

lemma unsubscribe_fields [simp]:
  "delay_tasks (delay_unsubscribe p t) = delay_tasks p" "delay_queue (delay_unsubscribe p t) = delay_queue p"
  "pending (delay_unsubscribe p t) = pending p" "delay_next (delay_unsubscribe p t) = delay_next p"
  "delay_state (delay_unsubscribe p t) = delay_state p" "delay_drain (delay_unsubscribe p t) = delay_drain p"
  "delay_microtasks (delay_unsubscribe p t) = delay_microtasks p" "delay_running (delay_unsubscribe p t) = delay_running p"
  "dispatched (delay_unsubscribe p t) = dispatched p" "delay_finished (delay_unsubscribe p t) = delay_finished p"
  "delay_metrics (delay_unsubscribe p t) = delay_metrics p" "timer (delay_unsubscribe p t) = timer p"
  "armedAt (delay_unsubscribe p t) = armedAt p"
  by (simp_all add: delay_unsubscribe_def split: option.splits)

lemma list_update_field: "f (g (xs ! t)) = f (xs ! t) \<Longrightarrow> f (xs[t := g (xs ! t)] ! i) = f (xs ! i)"
  by (cases "t < length xs"; cases "t = i") (simp_all add: list_update_beyond)

lemma task_times_completed:
  assumes "delay_tasks q = (delay_tasks p)[t := (delay_tasks p ! t)\<lparr>task_completed := b\<rparr>]"
  shows "task_runAt q = task_runAt p" "task_seq q = task_seq p"
  proof -
  have "runAt (delay_tasks q ! x) = runAt (delay_tasks p ! x)" for x
    unfolding assms by (rule list_update_field) simp
  moreover have "delay_sequence (delay_tasks q ! x) = delay_sequence (delay_tasks p ! x)" for x
    unfolding assms by (rule list_update_field) simp
  moreover have "length (delay_tasks q) = length (delay_tasks p)" using assms by simp
  ultimately show "task_runAt q = task_runAt p" "task_seq q = task_seq p"
    by (simp_all add: task_runAt_def task_seq_def fun_eq_iff elem_at_def)
qed

lemma core_no_nan: "delay_core xs p \<Longrightarrow> \<forall>t. task_runAt p t \<noteq> NaN"
  by (auto simp: delay_core_def task_runAt_def elem_at_def)

lemma core_time_bound: "delay_core xs p \<Longrightarrow> task_runAt p t \<noteq> NegInfinity"
  by (auto simp: delay_core_def task_runAt_def elem_at_def)

lemma core_msets:
  assumes "delay_core xs p"
  shows "mset (pending p @ delay_finished p) = mset [0..<length (delay_tasks p)]"
    and "mset (pending p) =
       mset (items (delay_queue p) @ xs @ map fst (delay_microtasks p) @ map fst (delay_running p))"
    and "mset (map fst (dispatched p)) = mset (map fst (delay_microtasks p) @ map fst (delay_running p) @ delay_finished p)"
  using assms unfolding delay_core_def by blast+

lemma core_sets:
  assumes "delay_core xs p"
  shows "set (pending p) \<union> set (delay_finished p) = {0..<length (delay_tasks p)}"
    and "set (pending p) = set (items (delay_queue p) @ xs @ map fst (delay_microtasks p) @ map fst (delay_running p))"
    and "distinct (pending p @ delay_finished p)"
    and "distinct (items (delay_queue p) @ xs @ map fst (delay_microtasks p) @ map fst (delay_running p))"
proof -
  show "set (pending p) \<union> set (delay_finished p) = {0..<length (delay_tasks p)}"
    using mset_eq_setD [OF core_msets(1) [OF assms]] by simp
  show "set (pending p) = set (items (delay_queue p) @ xs @ map fst (delay_microtasks p) @ map fst (delay_running p))"
    by (rule mset_eq_setD [OF core_msets(2) [OF assms]])
  show d: "distinct (pending p @ delay_finished p)"
    using mset_eq_imp_distinct_iff [OF core_msets(1) [OF assms]] by simp
  show "distinct (items (delay_queue p) @ xs @ map fst (delay_microtasks p) @ map fst (delay_running p))"
    using mset_eq_imp_distinct_iff [OF core_msets(2) [OF assms]] d by simp
qed

lemma core_waiting: "delay_core xs p \<Longrightarrow> t \<in> set (items (delay_queue p) @ xs) \<Longrightarrow> t < length (delay_tasks p)"
  using core_sets(1,2) [of xs p] by fastforce

section \<open>Dispatch\<close>

lemma unsubscribe_eq: "\<exists>ls. delay_unsubscribe p t = p\<lparr>listeners := ls\<rparr>"
proof (cases "jm_get (listeners p) (delay_signal p t)")
  case None
  then show ?thesis by (intro exI [of _ "listeners p"]) (simp add: delay_unsubscribe_def)
qed (auto simp: delay_unsubscribe_def)

lemma dispatch_eq:
  assumes "delay_core xs p" and "t \<in> set (items (delay_queue p) @ xs)"
  shows "\<exists>h ls. delay_dispatch w p t k ab =
      p\<lparr>delay_tasks := (delay_tasks p)[t := (delay_tasks p ! t)\<lparr>task_completed := True\<rparr>], delay_queue := h,
        listeners := ls, delay_microtasks := delay_microtasks p @ [(t, k)], dispatched := dispatched p @ [(t, clock w, ab)]\<rparr> \<and>
    heap_inv (delay_compare p) h \<and> mset (items h) = mset (items (delay_queue p)) - {#t#} \<and>
    (t \<in> set xs \<longrightarrow> h = delay_queue p)"
proof -
  let ?p1 = "p\<lparr>delay_tasks := (delay_tasks p)[t := (delay_tasks p ! t)\<lparr>task_completed := True\<rparr>]\<rparr>"
  have times: "task_runAt ?p1 = task_runAt p" "task_seq ?p1 = task_seq p"
    by (rule task_times_completed, simp)+
  have inv: "heap_inv (delay_compare p) (delay_queue p)" using assms(1) by (simp add: delay_core_def)
  obtain h where h: "heap_remove (delay_compare p) (delay_queue p) t = Inr (h, t \<in> set (items (delay_queue p)))"
    "heap_inv (delay_compare p) h" "mset (items h) = mset (items (delay_queue p)) - {#t#}"
    using comparator.remove_spec [OF compare_delays_comparator [OF core_no_nan [OF assms(1)]] inv] by blast
  have open_task: "\<not> task_completed (delay_tasks p ! t)"
    using assms core_waiting [OF assms] unfolding delay_core_def by blast
  have "h = delay_queue p" if "t \<in> set xs"
  proof -
    have "t \<notin> set (items (delay_queue p))" using core_sets(4) [OF assms(1)] that by auto
    then have "positions (delay_queue p) t = None" using inv positions_ok_None [of "delay_queue p" t] by (simp add: heap_inv_def)
    then show ?thesis using h(1) by (simp add: heap_remove_def)
  qed
  moreover obtain ls where "delay_unsubscribe (?p1\<lparr>delay_queue := h\<rparr>) t = ?p1\<lparr>delay_queue := h, listeners := ls\<rparr>"
    using unsubscribe_eq [of "?p1\<lparr>delay_queue := h\<rparr>" t] by auto
  ultimately show ?thesis
    using h open_task times
    by (intro exI [of _ h] exI [of _ ls]) (simp add: delay_dispatch_def Let_def)
qed

lemma dispatch_core:
  assumes core: "delay_core xs p" and t: "t \<in> set (items (delay_queue p) @ xs)"
    and due: "ab \<or> \<not> num_less (Finite (clock w)) (task_runAt p t)"
  shows "delay_core (removeAll t xs) (delay_dispatch w p t k ab)"
    and "mset (items (delay_queue (delay_dispatch w p t k ab))) = mset (items (delay_queue p)) - {#t#}"
    and "delay_microtasks (delay_dispatch w p t k ab) = delay_microtasks p @ [(t, k)]"
    and "task_runAt (delay_dispatch w p t k ab) = task_runAt p" "task_seq (delay_dispatch w p t k ab) = task_seq p"
    and "delay_phase (delay_dispatch w p t k ab) = delay_phase p"
    and "timer (delay_dispatch w p t k ab) = timer p" "armedAt (delay_dispatch w p t k ab) = armedAt p"
    and "t \<in> set xs \<Longrightarrow> delay_queue (delay_dispatch w p t k ab) = delay_queue p"
proof -
  let ?d = "delay_dispatch w p t k ab"
  obtain h ls where d: "?d = p\<lparr>delay_tasks := (delay_tasks p)[t := (delay_tasks p ! t)\<lparr>task_completed := True\<rparr>],
      delay_queue := h, listeners := ls, delay_microtasks := delay_microtasks p @ [(t, k)],
      dispatched := dispatched p @ [(t, clock w, ab)]\<rparr>"
    and h: "heap_inv (delay_compare p) h" "mset (items h) = mset (items (delay_queue p)) - {#t#}"
      "t \<in> set xs \<longrightarrow> h = delay_queue p"
    using dispatch_eq [OF core t, of w k ab] by blast
  have times: "task_runAt ?d = task_runAt p" "task_seq ?d = task_seq p"
    by (rule task_times_completed, simp add: d)+
  have dist: "distinct (items (delay_queue p) @ xs)" using core_sets(4) [OF core] by auto
  have waiting: "mset (items h @ removeAll t xs) = mset (items (delay_queue p) @ xs) - {#t#}"
  proof (cases "t \<in> set xs")
    case True
    with h(3) dist show ?thesis
      by (simp add: distinct_remove1_removeAll [symmetric] mset_remove1)
  next
    case False
    with t h(2) show ?thesis by simp
  qed
  have all: "mset (t # items h @ removeAll t xs) = mset (items (delay_queue p) @ xs)"
    using waiting t by (simp add: insert_DiffM)
  then have set_waiting: "set (items h @ removeAll t xs) = set (items (delay_queue p) @ xs) - {t}"
    using mset_eq_setD [OF all] mset_eq_imp_distinct_iff [OF all] dist by auto
  show "mset (items (delay_queue ?d)) = mset (items (delay_queue p)) - {#t#}"
    "delay_microtasks ?d = delay_microtasks p @ [(t, k)]" "delay_phase ?d = delay_phase p"
    "timer ?d = timer p" "armedAt ?d = armedAt p"
    by (simp_all add: d h(2) delay_phase_def)
  show "t \<in> set xs \<Longrightarrow> delay_queue ?d = delay_queue p" using h(3) by (simp add: d)
  show "task_runAt ?d = task_runAt p" "task_seq ?d = task_seq p" by (fact times)+
  have len: "length (delay_tasks ?d) = length (delay_tasks p)" by (simp add: d)
  have seqs: "delay_sequence (delay_tasks ?d ! i) = delay_sequence (delay_tasks p ! i)" for i
    using list_update_field [of delay_sequence "\<lambda>x. x\<lparr>task_completed := True\<rparr>"] by (simp add: d)
  have flags: "task_completed (delay_tasks ?d ! i) \<longleftrightarrow> i \<notin> set (items h @ removeAll t xs)" if "i < length (delay_tasks p)" for i
  proof -
    have "task_completed (delay_tasks p ! i) \<longleftrightarrow> i \<notin> set (items (delay_queue p) @ xs)"
      using core that unfolding delay_core_def by blast
    then show ?thesis
      unfolding set_waiting using core_waiting [OF core t] by (cases "i = t") (simp_all add: d)
  qed
  have nan: "\<forall>k \<in> set (delay_tasks ?d). runAt k \<noteq> NaN \<and> runAt k \<noteq> NegInfinity"
    using core_no_nan [OF core] set_update_subset_insert core core_waiting [OF core t]
    by (fastforce simp: d delay_core_def)
  have parts: "mset (pending ?d) = mset (items (delay_queue ?d) @ removeAll t xs @ map fst (delay_microtasks ?d) @
      map fst (delay_running ?d))"
    using all core_msets(2) [OF core] by (simp add: d)
  show "delay_core (removeAll t xs) ?d"
    unfolding delay_core_def times len
  proof (intro conjI)
    show "\<forall>t' < length (delay_tasks p).
        task_completed (delay_tasks ?d ! t') \<longleftrightarrow> t' \<notin> set (items (delay_queue ?d) @ removeAll t xs)"
      using flags by (simp add: d)
    show "\<forall>t' < length (delay_tasks p). delay_sequence (delay_tasks ?d ! t') = int t'"
      unfolding seqs using core unfolding delay_core_def by blast
    show "mset (pending ?d @ delay_finished ?d) = mset [0..<length (delay_tasks p)]"
      using core_msets(1) [OF core] by (simp add: d)
    show "mset (pending ?d) = mset (items (delay_queue ?d) @ removeAll t xs @ map fst (delay_microtasks ?d) @
        map fst (delay_running ?d))" by (fact parts)
  qed (use core h(1) due core_waiting [OF core t] nan in \<open>simp_all add: d delay_core_def\<close>)
qed

section \<open>The timer's callback\<close>

text \<open>The loop returns, with the due tasks scheduled in the order of their times and only later ones left.\<close>

definition dispatch_flag :: "world \<Rightarrow> DelayPool \<Rightarrow> nat \<Rightarrow> bool" where
  "dispatch_flag w p t \<longleftrightarrow>
     expeditedByDeadline (delay_tasks p ! t) \<or> cancelled w (task_context (delay_tasks p ! t))"

lemma dispatch_flags:
  assumes "delay_core xs p" and "t \<in> set (items (delay_queue p) @ xs)"
  shows "dispatch_flag w (delay_dispatch w p t k ab) = dispatch_flag w p"
proof -
  obtain h ls where d: "delay_dispatch w p t k ab =
      p\<lparr>delay_tasks := (delay_tasks p)[t := (delay_tasks p ! t)\<lparr>task_completed := True\<rparr>], delay_queue := h,
        listeners := ls, delay_microtasks := delay_microtasks p @ [(t, k)], dispatched := dispatched p @ [(t, clock w, ab)]\<rparr>"
    using dispatch_eq [OF assms, of w k ab] by blast
  have "expeditedByDeadline (delay_tasks (delay_dispatch w p t k ab) ! i) = expeditedByDeadline (delay_tasks p ! i)" for i
    unfolding d by simp (rule list_update_field, simp)
  moreover have "task_context (delay_tasks (delay_dispatch w p t k ab) ! i) = task_context (delay_tasks p ! i)" for i
    unfolding d by simp (rule list_update_field, simp)
  ultimately show ?thesis by (simp add: dispatch_flag_def fun_eq_iff)
qed

lemma later_task:
  assumes "\<forall>t. ra t \<noteq> NaN" and "compare_delays ra sq t u \<le> 0" and "num_less c (ra t)"
  shows "num_less c (ra u)"
proof -
  have "\<not> num_less (ra u) (ra t)"
    using assms(2) num_less_asym unfolding compare_delays_def compare_delays_tasks [OF assms(1)]
    by (auto simp: Let_def split: if_splits)
  then have "num_less (ra t) (ra u) \<or> ra t = ra u" using num_less_total assms(1) by blast
  then show ?thesis using assms(3) num_less_trans [of c "ra t" "ra u"] by auto
qed

lemma peek_item: "heap_peek h = Some t \<Longrightarrow> t \<in> set (items h)" "heap_peek h = None \<longleftrightarrow> items h = []"
  by (auto simp: heap_peek_def)

lemma run_due_spec:
  assumes "delay_core [] p"
  shows "\<exists>p' ts. run_due w p = Some p' \<and> delay_core [] p' \<and> delay_phase p' = delay_phase p \<and>
    timer p' = timer p \<and> armedAt p' = armedAt p \<and> task_runAt p' = task_runAt p \<and> task_seq p' = task_seq p \<and>
    delay_microtasks p' = delay_microtasks p @ map (\<lambda>t. (t, dispatch_flag w p t)) ts \<and>
    mset (items (delay_queue p)) = mset ts + mset (items (delay_queue p')) \<and>
    sorted_wrt (\<lambda>a b. delay_compare p a b \<le> 0) ts \<and>
    (\<forall>t \<in> set ts. \<not> num_less (Finite (clock w)) (task_runAt p t)) \<and>
    (\<forall>t \<in> set (items (delay_queue p')). num_less (Finite (clock w)) (task_runAt p t))"
  using assms
proof (induction "length (items (delay_queue p))" arbitrary: p)
  case 0
  then have "heap_peek (delay_queue p) = None" using peek_item(2) by auto
  then have "run_due w p = Some p" by (simp add: run_due.simps)
  with 0 show ?case by (intro exI [of _ p] exI [of _ "[]"]) simp
next
  case (Suc n)
  then obtain t where t: "heap_peek (delay_queue p) = Some t" using peek_item(2) [of "delay_queue p"] by fastforce
  have cmp: "comparator (delay_compare p)" by (rule compare_delays_comparator [OF core_no_nan [OF Suc.prems]])
  have inv: "heap_inv (delay_compare p) (delay_queue p)" using Suc.prems by (simp add: delay_core_def)
  have least: "delay_compare p t u \<le> 0" if "u \<in> set (items (delay_queue p))" for u
    by (rule comparator.peek_least [OF cmp inv t that])
  show ?case
  proof (cases "num_less (Finite (clock w)) (task_runAt p t)")
    case True
    have "num_less (Finite (clock w)) (task_runAt p u)" if "u \<in> set (items (delay_queue p))" for u
      by (rule later_task [OF core_no_nan [OF Suc.prems] least [OF that] True])
    moreover have "run_due w p = Some p" using t True by (simp add: run_due.simps)
    ultimately show ?thesis using Suc.prems by (intro exI [of _ p] exI [of _ "[]"]) simp
  next
    case False
    let ?d = "delay_dispatch w p t (dispatch_flag w p t) False"
    have tin: "t \<in> set (items (delay_queue p) @ [])" using peek_item(1) [OF t] by simp
    note d = dispatch_core [OF Suc.prems tin, of False w "dispatch_flag w p t"]
    have run: "run_due w p = run_due w ?d"
      using t False run_due.simps [of w p] by (simp add: dispatch_flag_def)
    have size: "n = length (items (delay_queue ?d))"
      using arg_cong [OF d(2), of size] False Suc.hyps(2) tin by (simp add: size_Diff_singleton)
    obtain p' ts where p': "run_due w ?d = Some p'" "delay_core [] p'" "delay_phase p' = delay_phase ?d"
      "timer p' = timer ?d" "armedAt p' = armedAt ?d" "task_runAt p' = task_runAt ?d" "task_seq p' = task_seq ?d"
      "delay_microtasks p' = delay_microtasks ?d @ map (\<lambda>t. (t, dispatch_flag w ?d t)) ts"
      "mset (items (delay_queue ?d)) = mset ts + mset (items (delay_queue p'))"
      "sorted_wrt (\<lambda>a b. delay_compare ?d a b \<le> 0) ts"
      "\<forall>t \<in> set ts. \<not> num_less (Finite (clock w)) (task_runAt ?d t)"
      "\<forall>t \<in> set (items (delay_queue p')). num_less (Finite (clock w)) (task_runAt ?d t)"
      using Suc.hyps(1) [OF size] d(1) False by auto
    have all: "mset (items (delay_queue p)) = mset (t # ts) + mset (items (delay_queue p'))"
      using d(2) p'(9) tin False by (simp add: insert_DiffM2 [symmetric])
    then have "set ts \<subseteq> set (items (delay_queue p))"
      by (metis mset_append mset_eq_setD set_append set_subset_Cons sup.coboundedI1 sup_ge1 subset_trans)
    then have "sorted_wrt (\<lambda>a b. delay_compare p a b \<le> 0) (t # ts)"
      using p'(10) d(4,5) least False by auto
    then show ?thesis
      using run p' d all False dispatch_flags [OF Suc.prems tin]
      by (intro exI [of _ p'] exI [of _ "t # ts"]) simp
  qed
qed

section \<open>Every event keeps the invariant\<close>

definition listeners_ok :: "DelayPool \<Rightarrow> bool" where
  "listeners_ok p \<longleftrightarrow>
     (\<forall>s cbs. jm_get (listeners p) s = Some cbs \<longrightarrow> (\<forall>t \<in> set cbs. t < length (delay_tasks p)))"

definition delay_ok :: "millis \<Rightarrow> DelayPool \<Rightarrow> bool" where
  "delay_ok c p \<longleftrightarrow> delay_core [] p \<and> delay_phase p \<and> armed_ok c p \<and> listeners_ok p"

lemma listeners_arm [simp]: "listeners_ok (arm w p) = listeners_ok p"
  by (simp add: listeners_ok_def)

lemma listeners_unsubscribe: "listeners_ok p \<Longrightarrow> listeners_ok (delay_unsubscribe p t)"
  by (cases "jm_get (listeners p) (delay_signal p t)")
    (auto simp: delay_unsubscribe_def listeners_ok_def jsmap_simps split: if_splits)

lemma listeners_dispatch: "listeners_ok p \<Longrightarrow> listeners_ok (delay_dispatch w p t k ab)"
proof -
  assume ok: "listeners_ok p"
  let ?p1 = "p\<lparr>delay_tasks := (delay_tasks p)[t := (delay_tasks p ! t)\<lparr>task_completed := True\<rparr>]\<rparr>"
  have "listeners_ok (delay_unsubscribe (?p1\<lparr>delay_queue := h\<rparr>) t)" "listeners_ok (delay_unsubscribe ?p1 t)" for h
    using ok by (intro listeners_unsubscribe; simp add: listeners_ok_def)+
  with ok show ?thesis
    by (simp add: delay_dispatch_def Let_def listeners_ok_def split: sum.split prod.split)
qed

lemma listeners_subscribe: "listeners_ok p \<Longrightarrow> t < length (delay_tasks p) \<Longrightarrow> listeners_ok (delay_subscribe p t)"
  by (cases "jm_get (listeners p) (delay_signal p t)")
    (auto simp: delay_subscribe_def listeners_ok_def jsmap_simps split: if_splits)

lemma listeners_irrelevant [simp]:
  "task_runAt (p\<lparr>listeners := ls\<rparr>) = task_runAt p" "task_seq (p\<lparr>listeners := ls\<rparr>) = task_seq p"
  "delay_core xs (p\<lparr>listeners := ls\<rparr>) = delay_core xs p" "delay_phase (p\<lparr>listeners := ls\<rparr>) = delay_phase p"
  "timer_ok c (p\<lparr>listeners := ls\<rparr>) = timer_ok c p" "armed_ok c (p\<lparr>listeners := ls\<rparr>) = armed_ok c p"
proof -
  show times: "task_runAt (p\<lparr>listeners := ls\<rparr>) = task_runAt p" "task_seq (p\<lparr>listeners := ls\<rparr>) = task_seq p"
    by (simp_all add: task_runAt_def task_seq_def fun_eq_iff)
  show "delay_phase (p\<lparr>listeners := ls\<rparr>) = delay_phase p" by (simp add: delay_phase_def)
  show "delay_core xs (p\<lparr>listeners := ls\<rparr>) = delay_core xs p" by (rule delay_core_cong) simp_all
  show "timer_ok c (p\<lparr>listeners := ls\<rparr>) = timer_ok c p" by (simp add: timer_ok_def)
  then show "armed_ok c (p\<lparr>listeners := ls\<rparr>) = armed_ok c p" unfolding armed_ok_def times by simp
qed

lemma subscribe_eq: "\<exists>ls. delay_subscribe p t = p\<lparr>listeners := ls\<rparr>"
  by (cases "jm_get (listeners p) (delay_signal p t)") (auto simp: delay_subscribe_def)

lemma run_due_listeners: "run_due w p = Some p' \<Longrightarrow> listeners_ok p \<Longrightarrow> listeners_ok p'"
proof (induction rule: run_due.raw_induct [rotated 1, consumes 1])
  case (1 run_due w p p')
  then show ?case by (auto split: option.splits if_splits intro: listeners_dispatch)
qed

lemma timer_callback_spec:
  assumes "delay_ok c p"
  shows "\<exists>p' ts. timer_callback w p = Some p' \<and> delay_ok (clock w) p' \<and>
    task_runAt p' = task_runAt p \<and>
    delay_microtasks p' = delay_microtasks p @ map (\<lambda>t. (t, dispatch_flag w p t)) ts \<and>
    mset (items (delay_queue p)) = mset ts + mset (items (delay_queue p')) \<and>
    sorted_wrt (\<lambda>a b. delay_compare p a b \<le> 0) ts \<and>
    (\<forall>t \<in> set ts. \<not> num_less (Finite (clock w)) (task_runAt p t)) \<and>
    (\<forall>t \<in> set (items (delay_queue p')). num_less (Finite (clock w)) (task_runAt p t))"
proof -
  let ?q = "p\<lparr>timer := None, armedAt := None\<rparr>"
  have q: "task_runAt ?q = task_runAt p" "task_seq ?q = task_seq p"
    by (simp_all add: task_runAt_def task_seq_def fun_eq_iff)
  have core: "delay_core [] ?q"
    using assms delay_core_cong [of ?q p "[]"] by (simp add: delay_ok_def)
  have flag: "dispatch_flag w ?q = dispatch_flag w p" by (simp add: dispatch_flag_def fun_eq_iff)
  obtain p' ts where p': "run_due w ?q = Some p'" "delay_core [] p'" "delay_phase p' = delay_phase ?q"
    "timer p' = None" "armedAt p' = None" "task_runAt p' = task_runAt p"
    "delay_microtasks p' = delay_microtasks p @ map (\<lambda>t. (t, dispatch_flag w p t)) ts"
    "mset (items (delay_queue p)) = mset ts + mset (items (delay_queue p'))"
    "sorted_wrt (\<lambda>a b. delay_compare p a b \<le> 0) ts"
    "\<forall>t \<in> set ts. \<not> num_less (Finite (clock w)) (task_runAt p t)"
    "\<forall>t \<in> set (items (delay_queue p')). num_less (Finite (clock w)) (task_runAt p t)"
    using run_due_spec [OF core, of w] unfolding q flag by auto
  have "armed_ok (clock w) (arm w p')"
    by (rule arm_ok [of "clock w"]) (simp_all add: timer_ok_def p'(4,5))
  moreover have "listeners_ok p'"
    using run_due_listeners [OF p'(1)] assms by (simp add: delay_ok_def listeners_ok_def)
  moreover have "delay_phase p'" using assms p'(3) by (simp add: delay_ok_def delay_phase_def)
  ultimately have "delay_ok (clock w) (arm w p')" using p'(2) by (simp add: delay_ok_def)
  then show ?thesis
    using p' by (intro exI [of _ "arm w p'"] exI [of _ ts]) (simp add: timer_callback_def)
qed

lemma callback_ok:
  assumes "delay_ok c p" and "t < length (delay_tasks p)" and "c \<le> clock w"
  shows "delay_ok (clock w) (abort_callback w p t) \<and> length (delay_tasks (abort_callback w p t)) = length (delay_tasks p)"
proof (cases "task_completed (delay_tasks p ! t)")
  case True
  then have "delay_dispatch w p t True True = p" by (simp add: delay_dispatch_def)
  with assms arm_ok [of c p w] show ?thesis by (simp add: abort_callback_def delay_ok_def armed_ok_def)
next
  case False
  then have t: "t \<in> set (items (delay_queue p) @ [])" and core: "delay_core [] p"
    using assms unfolding delay_ok_def delay_core_def by auto
  note d = dispatch_core [OF core t, of True w True, simplified]
  have "timer_ok c (delay_dispatch w p t True True)"
    using assms(1) unfolding timer_ok_def d(7,8) delay_ok_def armed_ok_def by blast
  moreover have "length (delay_tasks (delay_dispatch w p t True True)) = length (delay_tasks p)"
    using dispatch_eq [OF core t, of w True True] by auto
  ultimately show ?thesis
    using assms d(1,6) listeners_dispatch [of p] by (simp add: abort_callback_def delay_ok_def arm_ok [of c])
qed

lemma notify_ok:
  assumes "delay_ok c p" and "c \<le> clock w" and "\<forall>t \<in> set ts. t < length (delay_tasks p)"
  shows "\<exists>c'. c' \<le> clock w \<and> delay_ok c' (delay_notify w s p ts)"
  using assms
proof (induction ts arbitrary: p c)
  case (Cons t ts)
  have "delay_ok (clock w) (abort_callback w p t)"
    "length (delay_tasks (abort_callback w p t)) = length (delay_tasks p)"
    using callback_ok [OF Cons.prems(1) _ Cons.prems(2), of t] Cons.prems(3) by auto
  with Cons.IH [of c p] Cons.IH [of "clock w" "abort_callback w p t"] Cons.prems show ?case
    by (auto split: option.split)
qed auto

lemma armed_ok_mono: "armed_ok c p \<Longrightarrow> c \<le> c' \<Longrightarrow> armed_ok c' p"
  by (auto simp: armed_ok_def intro: timer_ok_mono)

lemma delay_ok_mono: "delay_ok c p \<Longrightarrow> c \<le> c' \<Longrightarrow> delay_ok c' p"
  by (auto simp: delay_ok_def intro: armed_ok_mono)

lemma abort_ok:
  assumes "delay_ok c p" and "c \<le> clock w"
  shows "delay_ok (clock w) (delay_abort w s p)"
proof (cases "jm_get (listeners p) s")
  case None
  with assms show ?thesis by (auto simp: delay_abort_def intro: delay_ok_mono)
next
  case (Some cbs)
  then have "\<forall>t \<in> set cbs. t < length (delay_tasks p)" using assms(1) by (auto simp: delay_ok_def listeners_ok_def)
  then have ok: "delay_ok (clock w) (delay_notify w s p cbs)"
    using notify_ok [OF assms] delay_ok_mono by blast
  let ?p = "(delay_notify w s p cbs)\<lparr>listeners := jm_delete (listeners (delay_notify w s p cbs)) s\<rparr>"
  from ok have "delay_ok (clock w) ?p" by (simp add: delay_ok_def listeners_ok_def jsmap_simps)
  then show ?thesis using Some by (simp add: delay_abort_def Let_def)
qed

lemma num_plus_later: "\<not> num_less d (Finite 0) \<Longrightarrow> d \<noteq> NaN \<Longrightarrow> \<not> num_less (num_plus c d) (Finite c)"
  by (cases d) (simp_all add: num_plus_def)

lemma effective_delay_ok: "d \<noteq> NaN \<Longrightarrow> effective_delay d r \<noteq> NaN \<and> \<not> num_less (effective_delay d r) (Finite 0)"
  by (auto simp: effective_delay_def Let_def split: option.splits)

lemma times_appended:
  assumes "delay_tasks q = delay_tasks p @ [k]"
  shows "t < length (delay_tasks p) \<Longrightarrow> task_runAt q t = task_runAt p t"
    and "t < length (delay_tasks p) \<Longrightarrow> task_seq q t = task_seq p t"
    and "task_runAt q (length (delay_tasks p)) = runAt k"
  using assms by (simp_all add: task_runAt_def task_seq_def elem_at_def nth_append)

text \<open>A task that has been admitted and not yet queued.\<close>

lemma admitted_core:
  assumes core: "delay_core [] p" and k: "runAt k \<noteq> NaN \<and> runAt k \<noteq> NegInfinity" "delay_sequence k = delay_next p" "\<not> task_completed k"
  shows "delay_core [length (delay_tasks p)] (with_delay_metrics (\<lambda>m. m\<lparr>waitQueueLength := waitQueueLength m + 1\<rparr>)
    (p\<lparr>delay_tasks := delay_tasks p @ [k], delay_next := delay_next p + 1, pending := pending p @ [length (delay_tasks p)]\<rparr>))"
    (is "delay_core [?t] ?q")
proof -
  have q: "delay_tasks ?q = delay_tasks p @ [k]" by (simp add: with_delay_metrics_def)
  note times = times_appended [OF q]
  have old: "delay_compare ?q a b = delay_compare p a b"
    if "a \<in> set (items (delay_queue p))" "b \<in> set (items (delay_queue p))" for a b
    using that core_waiting [OF core] times by (simp add: compare_delays_def Let_def)
  have inv: "heap_inv (delay_compare ?q) (delay_queue ?q)"
  proof -
    have "heap_inv (delay_compare p) (delay_queue p)" using core by (simp add: delay_core_def)
    from heap_inv_cong [OF this, of "delay_compare ?q"] old show ?thesis by (simp add: with_delay_metrics_def)
  qed
  have flags: "task_completed (delay_tasks ?q ! i) \<longleftrightarrow> i \<notin> set (items (delay_queue ?q) @ [?t])"
    if "i < length (delay_tasks ?q)" for i
  proof (cases "i = ?t")
    case False
    then have "task_completed (delay_tasks p ! i) \<longleftrightarrow> i \<notin> set (items (delay_queue p) @ [])"
      using that core unfolding q delay_core_def by auto
    with False that show ?thesis by (simp add: q with_delay_metrics_def nth_append)
  qed (use k(3) in \<open>simp add: q\<close>)
  have seqs: "delay_sequence (delay_tasks ?q ! i) = int i" if "i < length (delay_tasks ?q)" for i
  proof -
    have "\<forall>t < length (delay_tasks p). delay_sequence (delay_tasks p ! t) = int t" "delay_next p = int (length (delay_tasks p))"
      using core unfolding delay_core_def by blast+
    with that k(2) show ?thesis unfolding q by (cases "i = ?t") (simp_all add: nth_append)
  qed
  have disp: "\<forall>(t, c, ab) \<in> set (dispatched ?q). t < length (delay_tasks ?q) \<and>
      (ab \<or> \<not> num_less (Finite c) (task_runAt ?q t))"
    using core times(1) by (fastforce simp: delay_core_def with_delay_metrics_def)
  show ?thesis
    unfolding delay_core_def
  proof (intro conjI)
    show "heap_inv (delay_compare ?q) (delay_queue ?q)" by (fact inv)
    show "\<forall>i < length (delay_tasks ?q). task_completed (delay_tasks ?q ! i) \<longleftrightarrow> i \<notin> set (items (delay_queue ?q) @ [?t])"
      using flags by blast
    show "\<forall>i < length (delay_tasks ?q). delay_sequence (delay_tasks ?q ! i) = int i" using seqs by blast
    show "\<forall>(t, c, ab) \<in> set (dispatched ?q). t < length (delay_tasks ?q) \<and>
      (ab \<or> \<not> num_less (Finite c) (task_runAt ?q t))" by (fact disp)
    show "mset (pending ?q @ delay_finished ?q) = mset [0..<length (delay_tasks ?q)]"
      using core_msets(1) [OF core] by (simp add: with_delay_metrics_def)
    show "mset (pending ?q) = mset (items (delay_queue ?q) @ [?t] @ map fst (delay_microtasks ?q) @ map fst (delay_running ?q))"
      using core_msets(2) [OF core] by (simp add: with_delay_metrics_def)
  qed (use core k in \<open>auto simp: delay_core_def with_delay_metrics_def\<close>)
qed

lemma push_core:
  assumes core: "delay_core [t] p"
  shows "\<exists>h. heap_push (delay_compare p) (delay_queue p) t = Inr h \<and> delay_core [] (p\<lparr>delay_queue := h\<rparr>)"
proof -
  have inv: "heap_inv (delay_compare p) (delay_queue p)" using core by (simp add: delay_core_def)
  have t: "t \<notin> set (items (delay_queue p))" using core_sets(4) [OF core] by auto
  obtain h where h: "heap_push (delay_compare p) (delay_queue p) t = Inr h" "heap_inv (delay_compare p) h"
    "mset (items h) = mset (items (delay_queue p)) + {#t#}"
    using comparator.push_spec [OF compare_delays_comparator [OF core_no_nan [OF core]] inv t] by blast
  have set: "set (items h) = insert t (set (items (delay_queue p)))"
    using arg_cong [OF h(3), of set_mset] by simp
  let ?q = "p\<lparr>delay_queue := h\<rparr>"
  have times: "task_runAt ?q = task_runAt p" "task_seq ?q = task_seq p"
    by (simp_all add: task_runAt_def task_seq_def fun_eq_iff)
  have "delay_core [] ?q"
    unfolding delay_core_def times
  proof (intro conjI)
    show "mset (pending ?q @ delay_finished ?q) = mset [0..<length (delay_tasks ?q)]"
      using core_msets(1) [OF core] by simp
    show "mset (pending ?q) = mset (items (delay_queue ?q) @ [] @ map fst (delay_microtasks ?q) @ map fst (delay_running ?q))"
      using core_msets(2) [OF core] h(3) by simp
  qed (use core h(2) set in \<open>auto simp: delay_core_def\<close>)
  with h(1) show ?thesis by blast
qed

lemma phase_admitted:
  assumes "delay_phase p" and "delay_state p \<noteq> Stopping" and "delay_state p \<noteq> Stopped"
  shows "delay_phase (with_delay_metrics f (p\<lparr>delay_tasks := ks, delay_next := n, pending := ts\<rparr>))"
  using assms by (simp add: delay_phase_def with_delay_metrics_def)

lemma delay_ok_delay:
  assumes ok: "delay_ok c p" and c: "c \<le> clock w"
  shows "delay_ok (clock w) (fst (delay w p ctx d))"
proof (cases "cancelled w ctx \<or> delay_state p = Stopping \<or> delay_state p = Stopped \<or> d = NaN")
  case True
  then have "fst (delay w p ctx d) = p" by (auto simp: delay_def)
  with delay_ok_mono [OF ok c] show ?thesis by simp
next
  case False
  let ?t = "length (delay_tasks p)"
  let ?eff = "effective_delay d (remainingMs w ctx)"
  let ?exp = "case remainingMs w ctx of None \<Rightarrow> False | Some r \<Rightarrow> num_less (Finite r) d"
  define k where "k = \<lparr>task_context = ctx, runAt = num_plus (clock w) ?eff, delay_sequence = delay_next p,
      expeditedByDeadline = ?exp, task_completed = False\<rparr>"
  define q where "q = with_delay_metrics (\<lambda>m. m\<lparr>waitQueueLength := waitQueueLength m + 1\<rparr>)
    (p\<lparr>delay_tasks := delay_tasks p @ [k], delay_next := delay_next p + 1, pending := pending p @ [?t]\<rparr>)"
  have eff: "?eff \<noteq> NaN" "\<not> num_less ?eff (Finite 0)" using False effective_delay_ok by blast+
  then have "runAt k \<noteq> NaN \<and> runAt k \<noteq> NegInfinity" by (cases ?eff) (simp_all add: k_def num_plus_def)
  then have core: "delay_core [?t] q"
    using admitted_core [of p k] ok by (simp add: q_def delay_ok_def k_def)
  have phase: "delay_phase q" using phase_admitted False ok by (auto simp: q_def delay_ok_def)
  have tick: "timer_ok (clock w) q"
  proof -
    have "timer_ok c p" using ok by (simp add: delay_ok_def armed_ok_def)
    from timer_ok_mono [OF this c] show ?thesis by (simp add: q_def with_delay_metrics_def timer_ok_def)
  qed
  have listen: "listeners_ok q" "?t < length (delay_tasks q)"
    using ok by (fastforce simp: q_def with_delay_metrics_def delay_ok_def listeners_ok_def less_Suc_eq)+
  have delay_eq: "fst (delay w p ctx d) =
      (if ?eff = Finite 0 then delay_dispatch w q ?t ?exp False
       else arm w (delay_subscribe (case heap_push (delay_compare q) (delay_queue q) ?t of
              Inr h \<Rightarrow> q\<lparr>delay_queue := h\<rparr> | Inl _ \<Rightarrow> q) ?t))"
    unfolding q_def k_def using False cancelled_if_aborted [of w ctx] by (auto simp: delay_def Let_def)
  show ?thesis
  proof (cases "?eff = Finite 0")
    case True
    have "task_runAt q ?t = Finite (clock w)"
      using True times_appended(3) [of q p k] by (simp add: q_def with_delay_metrics_def k_def num_plus_def)
    then have d: "delay_core (removeAll ?t [?t]) (delay_dispatch w q ?t ?exp False)"
      "delay_phase (delay_dispatch w q ?t ?exp False) = delay_phase q"
      "timer (delay_dispatch w q ?t ?exp False) = timer q" "armedAt (delay_dispatch w q ?t ?exp False) = armedAt q"
      "task_runAt (delay_dispatch w q ?t ?exp False) = task_runAt q"
      "delay_queue (delay_dispatch w q ?t ?exp False) = delay_queue q"
      using dispatch_core [OF core, of ?t False w ?exp] by simp_all
    have "armedAt q = map_option (task_runAt q) (heap_peek (delay_queue q))"
      using ok peek_item(1) [of "delay_queue p"] core_waiting [of "[]" p] times_appended(1) [of q p k]
      by (cases "heap_peek (delay_queue p)") (auto simp: q_def with_delay_metrics_def delay_ok_def armed_ok_def)
    then have "armed_ok (clock w) (delay_dispatch w q ?t ?exp False)"
      using tick d by (simp add: armed_ok_def timer_ok_def)
    then show ?thesis using d phase listen(1) True delay_eq by (simp add: delay_ok_def listeners_dispatch)
  next
    case False
    obtain h where h: "heap_push (delay_compare q) (delay_queue q) ?t = Inr h" "delay_core [] (q\<lparr>delay_queue := h\<rparr>)"
      using push_core [OF core] by blast
    obtain ls where ls: "delay_subscribe (q\<lparr>delay_queue := h\<rparr>) ?t = q\<lparr>delay_queue := h, listeners := ls\<rparr>"
      using subscribe_eq [of "q\<lparr>delay_queue := h\<rparr>" ?t] by auto
    have "listeners_ok (delay_subscribe (q\<lparr>delay_queue := h\<rparr>) ?t)"
      using listen by (intro listeners_subscribe) (simp_all add: listeners_ok_def)
    moreover have "timer_ok (clock w) (q\<lparr>delay_queue := h, listeners := ls\<rparr>)"
      using tick by (simp add: timer_ok_def)
    moreover have "delay_phase (q\<lparr>delay_queue := h, listeners := ls\<rparr>)" using phase by (simp add: delay_phase_def)
    moreover have "delay_core [] (q\<lparr>delay_queue := h, listeners := ls\<rparr>)"
      using h(2) listeners_irrelevant(3) [where p = "q\<lparr>delay_queue := h\<rparr>"] by simp
    ultimately show ?thesis using False h(1) delay_eq ls by (simp add: delay_ok_def arm_ok [of "clock w"])
  qed
qed

text \<open>A task leaves the microtasks or the running ones and completes.\<close>

lemma complete_ok:
  assumes ok: "delay_ok c p" and c: "c \<le> clock w"
    and parts: "mset (map fst (delay_microtasks p) @ map fst (delay_running p)) = add_mset t (mset (map fst ms @ map fst rs))"
  shows "delay_ok (clock w) (completeTask w
    (p\<lparr>delay_microtasks := ms, delay_running := rs, delay_errors := es\<rparr>) t began k)"
proof -
  let ?r = "with_delay_metrics
    (\<lambda>m. m\<lparr>waitQueueLength := waitQueueLength m - 1, delay_tasksTotal := delay_tasksTotal m + 1,
       delay_executionDuration := delay_executionDuration m @ [(clock w - began) / 1000],
       taskCancelled := taskCancelled m + (if k then 1 else 0)\<rparr>)
    (p\<lparr>delay_microtasks := ms, delay_running := rs, delay_errors := es, pending := removeAll t (pending p),
       delay_finished := delay_finished p @ [t]\<rparr>)"
  have core: "delay_core [] p" using ok by (simp add: delay_ok_def)
  have "distinct (pending p)" using core_sets(3) [OF core] by simp
  moreover have "t \<in> set (pending p)"
    using core_sets(2) [OF core] arg_cong [OF parts, of set_mset] by auto
  ultimately have pend: "mset (pending p) = add_mset t (mset (removeAll t (pending p)))"
    by (simp add: distinct_remove1_removeAll [symmetric])
  have times: "task_runAt ?r = task_runAt p" "task_seq ?r = task_seq p"
    by (simp_all add: task_runAt_def task_seq_def fun_eq_iff with_delay_metrics_def)
  have "delay_core [] ?r"
    unfolding delay_core_def times
  proof (intro conjI)
    show "mset (pending ?r @ delay_finished ?r) = mset [0..<length (delay_tasks ?r)]"
      using core_msets(1) [OF core] pend by (simp add: with_delay_metrics_def)
    show "mset (pending ?r) = mset (items (delay_queue ?r) @ [] @ map fst (delay_microtasks ?r) @ map fst (delay_running ?r))"
      using core_msets(2) [OF core] pend parts by (simp add: with_delay_metrics_def)
    show "mset (map fst (dispatched ?r)) = mset (map fst (delay_microtasks ?r) @ map fst (delay_running ?r) @ delay_finished ?r)"
      using core_msets(3) [OF core] parts by (simp add: with_delay_metrics_def)
    show "\<forall>m. delay_metrics ?r = Some m \<longrightarrow> waitQueueLength m = int (length (pending ?r))"
    proof -
      have "\<forall>m. delay_metrics p = Some m \<longrightarrow> waitQueueLength m = int (length (pending p))"
        using core unfolding delay_core_def by blast
      then show ?thesis using arg_cong [OF pend, of size] by (auto simp: with_delay_metrics_def)
    qed
  qed (use core in \<open>auto simp: delay_core_def with_delay_metrics_def\<close>)
  moreover have "armed_ok (clock w) ?r"
    using ok armed_ok_mono [OF _ c, of p] armed_ok_cong [of ?r p]
    by (simp add: delay_ok_def with_delay_metrics_def)
  moreover have "listeners_ok ?r" using ok by (simp add: delay_ok_def listeners_ok_def with_delay_metrics_def)
  moreover have "delay_phase (delay_finishDrainIfIdle ?r)"
    using ok pend by (auto simp: delay_ok_def delay_phase_def delay_finishDrainIfIdle_def with_delay_metrics_def)
  moreover have "delay_core [] (delay_finishDrainIfIdle ?r) = delay_core [] ?r"
    by (rule delay_core_cong) (simp_all add: delay_finishDrainIfIdle_def)
  moreover have "armed_ok (clock w) (delay_finishDrainIfIdle ?r) = armed_ok (clock w) ?r"
    by (rule armed_ok_cong) (simp_all add: delay_finishDrainIfIdle_def)
  moreover have "listeners_ok (delay_finishDrainIfIdle ?r) = listeners_ok ?r"
    by (simp add: delay_finishDrainIfIdle_def listeners_ok_def)
  ultimately show ?thesis by (simp add: delay_ok_def completeTask_def)
qed

lemma report_eq: "\<exists>es. delay_report w p e t = p\<lparr>delay_errors := es\<rparr>"
  by (cases "isTaskCancellation w e (delay_signal p t)")
    (auto simp: delay_report_def intro: exI [of _ "delay_errors p"])

lemma run_next_ok:
  assumes ok: "delay_ok c p" and c: "c \<le> clock w"
  shows "delay_ok (clock w) (delay_run_next w p r)"
proof (cases "delay_microtasks p")
  case Nil
  then show ?thesis using delay_ok_mono [OF assms] by (simp add: delay_run_next_def)
next
  case (Cons m rest)
  obtain t k where m: "m = (t, k)" by force
  show ?thesis
  proof (cases r)
    case (Threw e)
    obtain es where "delay_report w (p\<lparr>delay_microtasks := rest\<rparr>) e t =
        p\<lparr>delay_microtasks := rest, delay_running := delay_running p, delay_errors := es\<rparr>"
      using report_eq [of w "p\<lparr>delay_microtasks := rest\<rparr>" e t] by auto
    then show ?thesis
      using complete_ok [OF assms, of t rest "delay_running p" es "clock w" k] Cons m Threw
      by (simp add: delay_run_next_def)
  next
    case Returned
    let ?q = "p\<lparr>delay_microtasks := rest, delay_running := delay_running p @ [(t, k, clock w)]\<rparr>"
    have times: "task_runAt ?q = task_runAt p" "task_seq ?q = task_seq p"
      by (simp_all add: task_runAt_def task_seq_def fun_eq_iff)
    have core: "delay_core [] p" using ok by (simp add: delay_ok_def)
    have "delay_core [] ?q"
      unfolding delay_core_def times
    proof (intro conjI)
      show "mset (pending ?q @ delay_finished ?q) = mset [0..<length (delay_tasks ?q)]"
        using core_msets(1) [OF core] by simp
      show "mset (pending ?q) = mset (items (delay_queue ?q) @ [] @ map fst (delay_microtasks ?q) @ map fst (delay_running ?q))"
        using core_msets(2) [OF core] Cons m by simp
      show "mset (map fst (dispatched ?q)) = mset (map fst (delay_microtasks ?q) @ map fst (delay_running ?q) @ delay_finished ?q)"
        using core_msets(3) [OF core] Cons m by simp
    qed (use core in \<open>auto simp: delay_core_def\<close>)
    moreover have "armed_ok (clock w) ?q" "delay_phase ?q" "listeners_ok ?q"
      using delay_ok_mono [OF assms] armed_ok_cong [of ?q p]
      by (simp_all add: delay_ok_def delay_phase_def listeners_ok_def)
    ultimately show ?thesis using Cons m Returned by (simp add: delay_run_next_def delay_ok_def Let_def)
  qed
qed

lemma mset_filter_key:
  "distinct (map fst rs) \<Longrightarrow> map_of rs t = Some v \<Longrightarrow>
    mset (map fst rs) = add_mset t (mset (map fst (filter (\<lambda>r. fst r \<noteq> t) rs)))"
proof (induction rs)
  case (Cons r rs)
  show ?case
  proof (cases "fst r = t")
    case True
    with Cons.prems(1) have "filter (\<lambda>r. fst r \<noteq> t) rs = rs" by (auto simp: filter_id_conv image_iff)
    with True show ?thesis by simp
  qed (use Cons in \<open>auto split: if_splits\<close>)
qed simp

lemma settle_ok:
  assumes ok: "delay_ok c p" and c: "c \<le> clock w"
  shows "delay_ok (clock w) (delay_settle w p t r)"
proof (cases "map_of (delay_running p) t")
  case None
  then show ?thesis using delay_ok_mono [OF assms] by (simp add: delay_settle_def)
next
  case (Some v)
  obtain k began where v: "v = (k, began)" by force
  let ?rs = "filter (\<lambda>r. fst r \<noteq> t) (delay_running p)"
  have "distinct (map fst (delay_running p))" using core_sets(4) [of "[]" p] ok by (simp add: delay_ok_def)
  from mset_filter_key [OF this Some]
  have parts: "mset (map fst (delay_microtasks p) @ map fst (delay_running p)) =
      add_mset t (mset (map fst (delay_microtasks p) @ map fst ?rs))" by simp
  have "\<exists>es. (case r of None \<Rightarrow> p\<lparr>delay_running := ?rs\<rparr> | Some e \<Rightarrow> delay_report w (p\<lparr>delay_running := ?rs\<rparr>) e t) =
      p\<lparr>delay_microtasks := delay_microtasks p, delay_running := ?rs, delay_errors := es\<rparr>"
  proof (cases r)
    case None
    then show ?thesis by (intro exI [of _ "delay_errors p"]) simp
  next
    case (Some e)
    then show ?thesis using report_eq [of w "p\<lparr>delay_running := ?rs\<rparr>" e t] by auto
  qed
  then show ?thesis
    using complete_ok [OF assms parts] Some v by (auto simp: delay_settle_def Let_def)
qed

lemma lifecycle_ok:
  assumes "delay_ok c p"
  shows "delay_ok c (case delay_start p of Inl _ \<Rightarrow> p | Inr p' \<Rightarrow> p')" and "delay_ok c (fst (delay_stop p))"
proof -
  have upd: "delay_ok c (p\<lparr>delay_state := s, delay_drain := dr\<rparr>)" if "delay_phase (p\<lparr>delay_state := s, delay_drain := dr\<rparr>)" for s dr
  proof -
    have "delay_core [] (p\<lparr>delay_state := s, delay_drain := dr\<rparr>) = delay_core [] p" by (rule delay_core_cong) simp_all
    moreover have "armed_ok c (p\<lparr>delay_state := s, delay_drain := dr\<rparr>) = armed_ok c p" by (rule armed_ok_cong) simp_all
    ultimately show ?thesis using assms that by (simp add: delay_ok_def listeners_ok_def)
  qed
  have upd_state: "delay_ok c (p\<lparr>delay_state := s\<rparr>)" if "delay_phase (p\<lparr>delay_state := s\<rparr>)" for s
    using upd [where s = s and dr = "delay_drain p"] that by simp
  show "delay_ok c (case delay_start p of Inl _ \<Rightarrow> p | Inr p' \<Rightarrow> p')"
    using assms upd_state [of Running] by (cases "delay_drain p") (auto simp: delay_start_def delay_phase_def delay_ok_def)
  show "delay_ok c (fst (delay_stop p))"
    using assms upd_state [of Stopped] upd [where s = Stopping and dr = "Some False"]
    by (cases "delay_drain p") (auto simp: delay_stop_def delay_phase_def delay_ok_def)
qed

section \<open>Properties of every run\<close>

lemma new_ok: "delay_ok c (delayPool_new n enabled service)"
  by (auto simp: delay_ok_def delay_core_def delay_phase_def armed_ok_def timer_ok_def listeners_ok_def delayPool_new_def
      makeMetrics_def heap_peek_def heap_inv_new heap_new_def heap_inv_def positions_ok_def heap_ordered_def)

lemma step_ok:
  assumes "delay_ok c p" and "c \<le> clock w"
  shows "\<exists>p'. delay_step p (w, e) = Some p' \<and> delay_ok (clock w) p'"
  using assms delay_ok_mono [OF assms] delay_ok_delay [OF assms] abort_ok [OF assms] run_next_ok [OF assms]
    settle_ok [OF assms] lifecycle_ok [OF delay_ok_mono [OF assms]] timer_callback_spec [OF assms(1), of w]
  by (cases e) auto

lemma run_ok:
  assumes "delay_ok c p" and "sorted (c # map (clock \<circ> fst) evs)"
  shows "\<exists>p'. delay_run p evs = Some p' \<and> delay_ok (last (c # map (clock \<circ> fst) evs)) p'"
  using assms
proof (induction evs arbitrary: c p)
  case (Cons e evs)
  obtain w ev where e: "e = (w, ev)" by force
  obtain p' where p': "delay_step p (w, ev) = Some p'" "delay_ok (clock w) p'"
    using step_ok [OF Cons.prems(1), of w ev] Cons.prems(2) e by auto
  with Cons.IH [OF p'(2)] Cons.prems(2) e show ?case by simp
qed simp

lemma reached_ok:
  assumes "sorted (map (clock \<circ> fst) evs)" and "delay_run (delayPool_new n enabled service) evs = Some p"
    and "evs \<noteq> [] \<Longrightarrow> now = clock (fst (last evs))"
  shows "delay_ok now p"
proof (cases evs)
  case Nil
  then show ?thesis using assms(2) new_ok [of now n enabled service] by simp
next
  case (Cons e rest)
  then have "sorted (clock (fst e) # map (clock \<circ> fst) evs)" using assms(1) by simp
  from run_ok [OF new_ok [of "clock (fst e)" n enabled service] this] assms(2,3) Cons
  show ?thesis by (auto simp: last_map split: if_splits)
qed

text \<open>
  C17. The loop in the timer's callback, which looks at the earliest task until it is not due, ends:
  every sequence of calls, aborts, microtasks, completions and timer events, at times that do not
  go back, brings a new delay pool to a next state.
\<close>

theorem delay_callbacks_return:
  assumes "sorted (map (clock \<circ> fst) evs)"
  shows "\<exists>p. delay_run (delayPool_new n enabled service) evs = Some p"
proof (cases evs)
  case (Cons e rest)
  then have "sorted (clock (fst e) # map (clock \<circ> fst) evs)" using assms by simp
  from run_ok [OF new_ok this] show ?thesis by blast
qed simp

text \<open>
  C16. The accounting of a delay pool: in every reachable state each accepted task is in exactly one
  of four places, waiting in the heap, scheduled as a microtask, running or finished; every task that
  has left the heap was dispatched once; the gauge is \<open>pendingCount\<close>, and a stopping pool is stopped
  exactly when nothing is pending any more.
\<close>

theorem delay_pool_accounting:
  assumes "sorted (map (clock \<circ> fst) evs)" and "delay_run (delayPool_new n enabled service) evs = Some p"
  shows "mset (items (delay_queue p) @ map fst (delay_microtasks p) @ map fst (delay_running p) @ delay_finished p) =
      mset [0..<length (delay_tasks p)] \<and>
    mset (map fst (dispatched p)) = mset (map fst (delay_microtasks p) @ map fst (delay_running p) @ delay_finished p) \<and>
    (\<forall>m. delay_metrics p = Some m \<longrightarrow> waitQueueLength m = int (pendingCount p)) \<and>
    (delay_state p = Stopping \<longrightarrow> pendingCount p > 0 \<and> delay_drain p = Some False) \<and>
    (delay_state p = Stopped \<longrightarrow> pendingCount p = 0 \<and> delay_drain p \<noteq> Some False)"
proof -
  have ok: "delay_core [] p" "delay_phase p" using reached_ok [OF assms] by (auto simp: delay_ok_def)
  have gauge: "\<forall>m. delay_metrics p = Some m \<longrightarrow> waitQueueLength m = int (length (pending p))"
    using ok(1) unfolding delay_core_def by blast
  have "mset (items (delay_queue p) @ map fst (delay_microtasks p) @ map fst (delay_running p) @ delay_finished p) =
      mset [0..<length (delay_tasks p)]"
    using core_msets(1,2) [OF ok(1)] by (simp add: add.assoc)
  with core_msets(3) [OF ok(1)] gauge ok(2) show ?thesis by (auto simp: delay_phase_def pendingCount_def)
qed

text \<open>The start time of a task is settled when it is admitted.\<close>

definition start_times :: "DelayPool \<Rightarrow> number list" where
  "start_times p = map runAt (delay_tasks p)"

lemma start_times_dispatch [simp]: "start_times (delay_dispatch w p t k ab) = start_times p"
proof -
  have "map runAt ((delay_tasks p)[t := (delay_tasks p ! t)\<lparr>task_completed := True\<rparr>]) = map runAt (delay_tasks p)"
    by (cases "t < length (delay_tasks p)") (simp_all add: map_update list_update_beyond list_update_same_conv)
  then show ?thesis
    by (simp add: start_times_def delay_dispatch_def Let_def split: sum.split prod.split)
qed

lemma start_times_fields [simp]:
  "start_times (arm w p) = start_times p" "start_times (abort_callback w p t) = start_times p"
  "start_times (p\<lparr>timer := x, armedAt := y\<rparr>) = start_times p"
  "start_times (delay_subscribe p t) = start_times p" "start_times (delay_notify w s p ts) = start_times p"
  "start_times (delay_abort w s p) = start_times p" "start_times (completeTask w p t b k) = start_times p"
  "start_times (delay_run_next w p r) = start_times p" "start_times (delay_settle w p t e) = start_times p"
  "start_times (fst (delay_stop p)) = start_times p"
  "start_times (case delay_start p of Inl _ \<Rightarrow> p | Inr p' \<Rightarrow> p') = start_times p"
proof -
  show arm: "start_times (arm w p) = start_times p" for p by (simp add: start_times_def)
  show abort: "start_times (abort_callback w p t) = start_times p" for p t by (simp add: abort_callback_def arm)
  show notify: "start_times (delay_notify w s p ts) = start_times p" for p ts
    by (induction ts arbitrary: p) (auto simp: abort split: option.split)
  then show "start_times (delay_abort w s p) = start_times p"
    by (cases "jm_get (listeners p) s") (simp_all add: delay_abort_def Let_def start_times_def)
  show complete: "start_times (completeTask w p t b k) = start_times p" for p t b k
    by (simp add: completeTask_def delay_finishDrainIfIdle_def with_delay_metrics_def start_times_def)
  have report: "start_times (delay_report w p e t) = start_times p" for p e t
    by (simp add: delay_report_def start_times_def)
  show "start_times (delay_run_next w p r) = start_times p"
    by (simp add: delay_run_next_def complete report Let_def split: list.split prod.split outcome.split)
      (simp add: start_times_def)
  show "start_times (delay_settle w p t e) = start_times p"
    by (simp add: delay_settle_def complete report Let_def split: option.split prod.split) (simp add: start_times_def)
qed (simp_all add: start_times_def delay_subscribe_def delay_stop_def delay_start_def split: option.split)

lemma start_times_due: "run_due w p = Some p' \<Longrightarrow> start_times p' = start_times p"
proof (induction rule: run_due.raw_induct [rotated 1, consumes 1])
  case (1 run_due w p p')
  then show ?case by (auto split: option.splits if_splits)
qed

lemma start_times_delay:
  "start_times (fst (delay w p c d)) = start_times p @
     (if snd (delay w p c d) = None then [num_plus (clock w) (effective_delay d (remainingMs w c))] else [])"
  by (simp add: delay_def Let_def split: sum.split) (simp add: start_times_def with_delay_metrics_def)

lemma start_times_step: "delay_step p e = Some p' \<Longrightarrow> \<exists>ks. start_times p' = start_times p @ ks"
proof -
  obtain w ev where e: "e = (w, ev)" by force
  assume "delay_step p e = Some p'"
  then show ?thesis
    by (cases ev) (auto simp: e start_times_delay timer_callback_def dest!: start_times_due split: if_splits)
qed

lemma start_times_run: "delay_run p evs = Some p' \<Longrightarrow> \<exists>ks. start_times p' = start_times p @ ks"
proof (induction evs arbitrary: p)
  case (Cons e evs)
  then obtain q where q: "delay_step p e = Some q" "delay_run q evs = Some p'" by (auto simp: bind_eq_Some_conv)
  from start_times_step [OF q(1)] Cons.IH [OF q(2)] show ?case by auto
qed simp

lemma delay_run_append:
  "delay_run p (evs @ evs') = Option.bind (delay_run p evs) (\<lambda>q. delay_run q evs')"
  by (induction evs arbitrary: p) (simp_all add: bind_assoc option.case_eq_if split: bind_split)

lemma effective_delay_bound:
  assumes "\<not> num_less (Finite t) (num_plus (clock w) (effective_delay d (remainingMs w c)))"
  shows "\<not> num_less (Finite t) (num_plus (clock w) d) \<or> (\<exists>x. ctx_deadline c = Some x \<and> x \<le> t)"
proof (cases "ctx_deadline c")
  case None
  then show ?thesis using assms
    by (cases d) (auto simp: effective_delay_def num_plus_def remainingMs_def split: if_splits)
next
  case (Some x)
  then show ?thesis using assms
    by (cases d) (auto simp: effective_delay_def num_plus_def remainingMs_def max_def split: if_splits)
qed

text \<open>
  C15. A task is never started early: when it was admitted at the time \<open>clock w\<close> with the delay \<open>d\<close> and is
  started otherwise than by an abort of its context, then the delay is over, counted from its admission, or the
  deadline of its context has come.
\<close>

theorem delay_never_early:
  assumes "sorted (map (clock \<circ> fst) (evs @ (w, Delay c d) # later))"
    and "delay_run (delayPool_new n enabled service) evs = Some p" and "snd (delay w p c d) = None"
    and "delay_run (delayPool_new n enabled service) (evs @ (w, Delay c d) # later) = Some p'"
    and "(length (delay_tasks p), began, False) \<in> set (dispatched p')"
  shows "\<not> num_less (Finite began) (num_plus (clock w) d) \<or> (\<exists>t. ctx_deadline c = Some t \<and> t \<le> began)"
proof -
  let ?t = "length (delay_tasks p)"
  have "delay_run (fst (delay w p c d)) later = Some p'"
    using assms(2,4) by (simp add: delay_run_append)
  from start_times_run [OF this] obtain ks where
    ks: "start_times p' = start_times p @ num_plus (clock w) (effective_delay d (remainingMs w c)) # ks"
    using start_times_delay [of w p c d] assms(3) by auto
  have "delay_ok (clock (fst (last (evs @ (w, Delay c d) # later)))) p'" by (rule reached_ok [OF assms(1,4)]) simp
  then have "\<forall>(t, c, by_abort) \<in> set (dispatched p'). t < length (delay_tasks p') \<and>
      (by_abort \<or> \<not> num_less (Finite c) (task_runAt p' t))"
    unfolding delay_ok_def delay_core_def by blast
  with assms(5) have "?t < length (delay_tasks p')" "\<not> num_less (Finite began) (task_runAt p' ?t)" by auto
  moreover have "task_runAt p' ?t = start_times p' ! ?t"
    using calculation(1) by (simp add: task_runAt_def elem_at_def start_times_def)
  moreover have "start_times p' ! ?t = num_plus (clock w) (effective_delay d (remainingMs w c))"
    using nth_append_length [of "start_times p"] by (simp add: ks) (simp add: start_times_def nth_append)
  ultimately have "\<not> num_less (Finite began) (num_plus (clock w) (effective_delay d (remainingMs w c)))" by simp
  then show ?thesis by (rule effective_delay_bound)
qed

lemma compare_starts:
  assumes core: "delay_core xs p" and "a < length (delay_tasks p)" and "b < length (delay_tasks p)" and "a \<noteq> b"
    and "delay_compare p a b \<le> 0"
  shows "num_less (task_runAt p a) (task_runAt p b) \<or> (task_runAt p a = task_runAt p b \<and> a < b)"
proof -
  note nan = core_no_nan [OF core]
  have "task_seq p a = int a" "task_seq p b = int b"
    using core assms(2,3) by (simp_all add: delay_core_def task_seq_def elem_at_def)
  then show ?thesis
    using assms(4,5) num_less_total [of "task_runAt p a" "task_runAt p b"] nan
    unfolding compare_delays_def compare_delays_tasks [OF nan] by (auto simp: Let_def split: if_splits)
qed

definition starts_before :: "DelayPool \<Rightarrow> nat \<Rightarrow> nat \<Rightarrow> bool" where
  "starts_before p a b \<longleftrightarrow>
     num_less (task_runAt p a) (task_runAt p b) \<or> (task_runAt p a = task_runAt p b \<and> a < b)"

lemma sorted_starts:
  assumes "delay_core xs p" and "distinct ts" and "\<forall>t \<in> set ts. t < length (delay_tasks p)"
    and "sorted_wrt (\<lambda>a b. delay_compare p a b \<le> 0) ts"
  shows "sorted_wrt (starts_before p) ts"
  using assms(2-4)
proof (induction ts)
  case (Cons t ts)
  then have "starts_before p t u" if "u \<in> set ts" for u
    using compare_starts [OF assms(1), of t u] that by (auto simp: starts_before_def)
  with Cons show ?case by simp
qed simp

text \<open>
  C14. The timer serves every waiting task: in every reachable state, for a task that waits for the
  time \<open>r\<close>, the timer is armed and due at most a millisecond after \<open>r\<close>, or at once, and whenever
  it fires it schedules exactly the waiting tasks whose time has come, ordered by their time and, for
  equal times, by their admission.
\<close>

theorem delay_timer_serves:
  assumes "sorted (map (clock \<circ> fst) evs)" and "delay_run (delayPool_new n enabled service) evs = Some p"
    and "evs \<noteq> []" and "now = clock (fst (last evs))"
    and "t \<in> set (items (delay_queue p))" and "task_runAt p t = Finite r"
  shows "\<exists>due. timer p = Some due \<and> due \<le> max now (r + 1) \<and>
    (\<forall>w. \<exists>p' ts. delay_step p (w, TimerFired) = Some p' \<and>
       delay_microtasks p' = delay_microtasks p @ map (\<lambda>t. (t, dispatch_flag w p t)) ts \<and>
       set ts = {t \<in> set (items (delay_queue p)). \<not> num_less (Finite (clock w)) (task_runAt p t)} \<and>
       sorted_wrt (starts_before p) ts)"
proof -
  have ok: "delay_ok now p" by (rule reached_ok [OF assms(1,2)]) (simp add: assms(4))
  then have core: "delay_core [] p" and armed: "armed_ok now p" by (simp_all add: delay_ok_def)
  have nan: "\<forall>t. task_runAt p t \<noteq> NaN" by (rule core_no_nan [OF core])
  have inv: "heap_inv (delay_compare p) (delay_queue p)" using core by (simp add: delay_core_def)
  obtain u where u: "heap_peek (delay_queue p) = Some u" using assms(5) peek_item(2) [of "delay_queue p"] by fastforce
  have first: "delay_compare p u t \<le> 0"
    by (rule comparator.peek_least [OF compare_delays_comparator [OF nan] inv u assms(5)])
  obtain r' where r': "task_runAt p u = Finite r'" "r' \<le> r"
  proof (cases "task_runAt p u")
    case (Finite q)
    with later_task [OF nan first, of "Finite r"] assms(6) that [of q] show ?thesis by fastforce
  next
    case PosInfinity
    with later_task [OF nan first, of "Finite r"] assms(6) show ?thesis by simp
  next
    case NegInfinity
    with core_time_bound [OF core, of u] show ?thesis by simp
  qed (use nan in simp)
  with armed u obtain due where due: "timer p = Some due" "due \<le> max now (r' + 1)"
    by (cases "timer p") (auto simp: armed_ok_def timer_ok_def)
  have "\<exists>p' ts. delay_step p (w, TimerFired) = Some p' \<and>
      delay_microtasks p' = delay_microtasks p @ map (\<lambda>t. (t, dispatch_flag w p t)) ts \<and>
      set ts = {t \<in> set (items (delay_queue p)). \<not> num_less (Finite (clock w)) (task_runAt p t)} \<and>
      sorted_wrt (starts_before p) ts" for w
  proof -
    obtain p' ts where p': "timer_callback w p = Some p'"
      "delay_microtasks p' = delay_microtasks p @ map (\<lambda>t. (t, dispatch_flag w p t)) ts"
      "mset (items (delay_queue p)) = mset ts + mset (items (delay_queue p'))"
      "sorted_wrt (\<lambda>a b. delay_compare p a b \<le> 0) ts"
      "\<forall>t \<in> set ts. \<not> num_less (Finite (clock w)) (task_runAt p t)"
      "\<forall>t \<in> set (items (delay_queue p')). num_less (Finite (clock w)) (task_runAt p t)"
      using timer_callback_spec [OF ok, of w] by blast
    have sets: "set (items (delay_queue p)) = set ts \<union> set (items (delay_queue p'))"
      using arg_cong [OF p'(3), of set_mset] by simp
    have "distinct (items (delay_queue p))" using core_sets(4) [OF core] by simp
    then have "distinct ts"
      using mset_eq_imp_distinct_iff [of "items (delay_queue p)" "ts @ items (delay_queue p')"] p'(3) by simp
    moreover have "\<forall>t \<in> set ts. t < length (delay_tasks p)" using sets core_waiting [OF core] by auto
    ultimately have "sorted_wrt (starts_before p) ts"
      using p'(4) by (rule sorted_starts [OF core])
    then show ?thesis using p' sets due(1) by (intro exI [of _ p'] exI [of _ ts]) auto
  qed
  then show ?thesis using due r'(2) by (intro exI [of _ due]) (auto simp: le_max_iff_disj)
qed

section \<open>A run\<close>

text \<open>Two tasks are admitted, the later one with the shorter delay; the timer fires when both are due.\<close>

definition moment :: "millis \<Rightarrow> world" where
  "moment c = \<lparr>clock = c, abort_reason = (\<lambda>_. None), next_error = 0\<rparr>"

definition patient :: context_state where
  "patient = \<lparr>ctx_signal = 0, ctx_deadline = None, ctx_sampling = False\<rparr>"

definition two_delays :: "(world \<times> delay_event) list" where
  "two_delays = [(moment 0, Delay patient (Finite 5)), (moment 1, Delay patient (Finite 2))]"

definition fired :: "(world \<times> delay_event) list" where
  "fired = two_delays @ [(moment 6, TimerFired)]"

abbreviation demo_pool :: DelayPool where
  "demo_pool \<equiv> delayPool_new None (Some True) (Some ''demo'')"

lemma demo_runs:
  "map_option (\<lambda>p. (items (delay_queue p), map runAt (delay_tasks p), timer p, delay_microtasks p)) (delay_run demo_pool two_delays) =
     Some ([1, 0], [Finite 5, Finite 3], Some 3, [])"
  "map_option (\<lambda>p. (items (delay_queue p), delay_microtasks p, dispatched p)) (delay_run demo_pool fired) =
     Some ([], [(1, False), (0, False)], [(1, 6, False), (0, 6, False)])"
  by code_simp+

lemma demo_first:
  "map_option (\<lambda>p. (length (delay_tasks p), snd (delay (moment 1) p patient (Finite 2))))
     (delay_run demo_pool [(moment 0, Delay patient (Finite 5))]) = Some (1, None)"
  by code_simp

text \<open>The theorems on this run.\<close>

lemma demo_sorted [simp]: "sorted (map (clock \<circ> fst) two_delays)" "sorted (map (clock \<circ> fst) fired)"
  by (simp_all add: two_delays_def fired_def moment_def)

theorem delay_callbacks_return_witness: "\<exists>p. delay_run demo_pool fired = Some p"
  by (rule delay_callbacks_return) simp

theorem delay_pool_accounting_witness:
  "\<exists>p. delay_run demo_pool fired = Some p \<and>
    mset (map fst (delay_microtasks p) @ map fst (delay_running p) @ delay_finished p) = mset [1, 0]"
proof -
  obtain p where p: "delay_run demo_pool fired = Some p" "dispatched p = [(1, 6, False), (0, 6, False)]"
    using demo_runs(2) by auto
  have "mset (map fst (dispatched p)) = mset (map fst (delay_microtasks p) @ map fst (delay_running p) @ delay_finished p)"
    using delay_pool_accounting [OF demo_sorted(2) p(1)] by blast
  then show ?thesis using p by (intro exI [of _ p]) simp
qed

theorem delay_never_early_witness:
  "\<exists>p p'. delay_run demo_pool [(moment 0, Delay patient (Finite 5))] = Some p \<and> delay_run demo_pool fired = Some p' \<and>
    (1, 6, False) \<in> set (dispatched p') \<and> \<not> num_less (Finite 6) (num_plus 1 (Finite 2))"
proof -
  let ?first = "[(moment 0, Delay patient (Finite 5))]"
  obtain p where p: "delay_run demo_pool ?first = Some p" "length (delay_tasks p) = 1"
    "snd (delay (moment 1) p patient (Finite 2)) = None"
    using demo_first by auto
  obtain p' where p': "delay_run demo_pool fired = Some p'" "(1, 6, False) \<in> set (dispatched p')"
    using demo_runs(2) by auto
  have evs: "fired = ?first @ (moment 1, Delay patient (Finite 2)) # [(moment 6, TimerFired)]"
    by (simp add: fired_def two_delays_def)
  from delay_never_early [OF demo_sorted(2) [unfolded evs] p(1,3) p'(1) [unfolded evs], of 6] p(2) p'(2)
  have "\<not> num_less (Finite 6) (num_plus (clock (moment 1)) (Finite 2)) \<or> (\<exists>t. ctx_deadline patient = Some t \<and> t \<le> 6)"
    by simp
  then show ?thesis using p(1) p' by (simp add: moment_def patient_def)
qed

theorem delay_timer_serves_witness:
  "\<exists>p due. delay_run demo_pool two_delays = Some p \<and> timer p = Some due \<and> due \<le> 4"
proof -
  obtain p where p: "delay_run demo_pool two_delays = Some p" "items (delay_queue p) = [1, 0]" "map runAt (delay_tasks p) = [Finite 5, Finite 3]"
    using demo_runs(1) by auto
  have "task_runAt p 1 = Finite 3"
    using arg_cong [OF p(3), of "\<lambda>xs. xs ! 1"] arg_cong [OF p(3), of length] by (simp add: task_runAt_def elem_at_def)
  with delay_timer_serves [OF demo_sorted(1) p(1), of "clock (fst (last two_delays))" 1 3] p
  show ?thesis by (auto simp: two_delays_def moment_def)
qed

end
