(* ===== verification/RotatingMap.thy ===== *)
theory RotatingMap
  imports Prelude "HOL-Library.Word"
begin

text \<open>
  The two-generation, sharded map of \<open>src/runtime/store/rotating-map.ts\<close>, with the errors of
  \<open>src/runtime/store/storage.ts\<close>. The theory shows that the sharding, the hash of the keys and
  the rotation of the generations are invisible: to its callers the class is a plain map.
\<close>

unbundle bit_operations_syntax

section \<open>Hashing\<close>

text \<open>
  \<open>hashString\<close>, over the UTF-16 code units of the text. All arithmetic is on 32 bits: \<open>Math.imul\<close>
  is multiplication of words, and the final unsigned shift by zero keeps the bits.
\<close>

fun hash_units :: "32 word \<Rightarrow> 16 word list \<Rightarrow> 32 word" where
  "hash_units h [] = h"
| "hash_units h (u # us) = hash_units ((h XOR ucast u) * 0x01000193) us"

definition hashString :: "16 word list \<Rightarrow> 32 word" where
  "hashString text = hash_units 0x811c9dc5 text"

definition mix :: "nat \<Rightarrow> 32 word" where
  "mix n =
     (let h0 = word_of_nat n;
          h1 = (h0 XOR drop_bit 16 h0) * 0x45d9f3b;
          h2 = (h1 XOR drop_bit 16 h1) * 0x45d9f3b
      in h2 XOR drop_bit 16 h2)"

section \<open>The class\<close>

abbreviation SHRINK_FACTOR :: nat where
  "SHRINK_FACTOR \<equiv> 4"

abbreviation SHARD_COUNT :: nat where
  "SHARD_COUNT \<equiv> 64"

record ('k, 'v) shard =
  current :: "('k, 'v) jsmap"
  previous :: "('k, 'v) jsmap"
  highWaterMark :: nat

record ('k, 'v) RotatingMap =
  intervalMs :: number
  minCapacity :: nat
  shards :: "('k, 'v) shard list"
  objectIds :: "('k, nat) jsmap"
  nextObjectId :: nat
  timer_armed :: bool
  rm_started :: bool
  rm_stopped :: bool

datatype 'k store_error = RangeError string | StoreStoppedError | StoreAlreadyStartedError
  | DuplicateKeyError 'k | FactoryError string | ShardError

definition empty_shard :: "('k, 'v) shard" where
  "empty_shard = \<lparr>current = [], previous = [], highWaterMark = 0\<rparr>"

definition rm_new :: "number \<Rightarrow> number \<Rightarrow> 'k store_error + ('k, 'v) RotatingMap" where
  "rm_new interval capacity =
     (if \<not> (is_finite interval \<and> num_less (Finite 0) interval)
      then Inl (RangeError ''rotating map interval must be positive'')
      else if \<not> is_safe_integer capacity \<or> num_less capacity (Finite 0)
      then Inl (RangeError ''rotating map minimum capacity must be a non-negative integer'')
      else Inr \<lparr>intervalMs = interval,
                minCapacity = (case capacity of Finite q \<Rightarrow> nat (fst (quotient_of q)) | _ \<Rightarrow> 0),
                shards = replicate SHARD_COUNT empty_shard, objectIds = [], nextObjectId = 1,
                timer_armed = False, rm_started = False, rm_stopped = False\<rparr>)"

text \<open>
  \<open>hash\<close>. \<open>describe k\<close> is \<open>None\<close> for objects and functions, which are hashed by a number handed out
  on first use, and the text \<open>typeof k:String(k)\<close> for every other key.
\<close>

definition rm_hash ::
  "('k \<Rightarrow> 16 word list option) \<Rightarrow> ('k, 'v) RotatingMap \<Rightarrow> 'k \<Rightarrow> ('k, 'v) RotatingMap \<times> 32 word" where
  "rm_hash describe m k =
     (case describe k of
        Some text \<Rightarrow> (m, hashString text)
      | None \<Rightarrow>
          (case jm_get (objectIds m) k of
             Some i \<Rightarrow> (m, mix i)
           | None \<Rightarrow>
               (m\<lparr>objectIds := jm_set (objectIds m) k (nextObjectId m), nextObjectId := nextObjectId m + 1\<rparr>,
                mix (nextObjectId m))))"

text \<open>\<open>shard\<close>: the index of the key's shard, and the map after hashing the key.\<close>

definition rm_shard ::
  "('k \<Rightarrow> 16 word list option) \<Rightarrow> ('k, 'v) RotatingMap \<Rightarrow> 'k \<Rightarrow>
    ('k, 'v) RotatingMap \<times> ('k store_error + nat)" where
  "rm_shard describe m k =
     (case rm_hash describe m k of
        (m', h) \<Rightarrow>
          (let i = unat (h AND 63)
           in (m', if i < length (shards m') then Inr i else Inl ShardError)))"

definition update_shard ::
  "('k, 'v) RotatingMap \<Rightarrow> nat \<Rightarrow> (('k, 'v) shard \<Rightarrow> ('k, 'v) shard) \<Rightarrow> ('k, 'v) RotatingMap" where
  "update_shard m i f = m\<lparr>shards := (shards m)[i := f (shards m ! i)]\<rparr>"

definition rm_size :: "('k, 'v) RotatingMap \<Rightarrow> nat" where
  "rm_size m = foldl (\<lambda>size s. size + (jm_size (current s) + jm_size (previous s))) 0 (shards m)"

definition rm_set ::
  "('k \<Rightarrow> 16 word list option) \<Rightarrow> ('k, 'v) RotatingMap \<Rightarrow> 'k \<Rightarrow> 'v \<Rightarrow>
    ('k, 'v) RotatingMap \<times> ('k store_error + unit)" where
  "rm_set describe m k v =
     (case rm_shard describe m k of
        (m', Inl e) \<Rightarrow> (m', Inl e)
      | (m', Inr i) \<Rightarrow>
          if jm_has (current (shards m' ! i)) k \<or> jm_has (previous (shards m' ! i)) k
          then (m', Inl (DuplicateKeyError k))
          else (update_shard m' i (\<lambda>s. s\<lparr>current := jm_set (current s) k v\<rparr>), Inr ()))"

text \<open>\<open>getOrCreate\<close>: \<open>factory\<close> is what calling the factory gives, its value or the error it throws; a
  factory that uses the same map is left out.\<close>

definition rm_getOrCreate ::
  "('k \<Rightarrow> 16 word list option) \<Rightarrow> ('k, 'v) RotatingMap \<Rightarrow> 'k \<Rightarrow> string + 'v \<Rightarrow>
    ('k, 'v) RotatingMap \<times> ('k store_error + 'v \<times> bool)" where
  "rm_getOrCreate describe m k factory =
     (case rm_shard describe m k of
        (m', Inl e) \<Rightarrow> (m', Inl e)
      | (m', Inr i) \<Rightarrow>
          (case jm_get (current (shards m' ! i)) k of
             Some v \<Rightarrow> (m', Inr (v, True))
           | None \<Rightarrow>
               (case jm_get (previous (shards m' ! i)) k of
                  Some v \<Rightarrow> (m', Inr (v, True))
                | None \<Rightarrow>
                    (case factory of
                       Inl e \<Rightarrow> (m', Inl (FactoryError e))
                     | Inr v \<Rightarrow>
                         (update_shard m' i (\<lambda>s. s\<lparr>current := jm_set (current s) k v\<rparr>),
                          Inr (v, False))))))"

definition rm_get ::
  "('k \<Rightarrow> 16 word list option) \<Rightarrow> ('k, 'v) RotatingMap \<Rightarrow> 'k \<Rightarrow>
    ('k, 'v) RotatingMap \<times> ('k store_error + 'v option)" where
  "rm_get describe m k =
     (case rm_shard describe m k of
        (m', Inl e) \<Rightarrow> (m', Inl e)
      | (m', Inr i) \<Rightarrow>
          (m', Inr (case jm_get (current (shards m' ! i)) k of
                      Some v \<Rightarrow> Some v
                    | None \<Rightarrow> jm_get (previous (shards m' ! i)) k)))"

definition rm_pop ::
  "('k \<Rightarrow> 16 word list option) \<Rightarrow> ('k, 'v) RotatingMap \<Rightarrow> 'k \<Rightarrow>
    ('k, 'v) RotatingMap \<times> ('k store_error + 'v option)" where
  "rm_pop describe m k =
     (case rm_shard describe m k of
        (m', Inl e) \<Rightarrow> (m', Inl e)
      | (m', Inr i) \<Rightarrow>
          (case jm_get (current (shards m' ! i)) k of
             Some v \<Rightarrow> (update_shard m' i (\<lambda>s. s\<lparr>current := jm_delete (current s) k\<rparr>), Inr (Some v))
           | None \<Rightarrow>
               (case jm_get (previous (shards m' ! i)) k of
                  Some v \<Rightarrow> (update_shard m' i (\<lambda>s. s\<lparr>previous := jm_delete (previous s) k\<rparr>), Inr (Some v))
                | None \<Rightarrow> (m', Inr None))))"

text \<open>The loop of \<open>rotateShard\<close> that adds the old entries to the copy of the current ones.\<close>

fun combine :: "('k, 'v) jsmap \<Rightarrow> ('k, 'v) jsmap \<Rightarrow> ('k, 'v) jsmap" where
  "combine combined [] = combined"
| "combine combined (e # es) =
     combine (if jm_has combined (fst e) then combined else jm_set combined (fst e) (snd e)) es"

definition rotateShard :: "nat \<Rightarrow> ('k, 'v) shard \<Rightarrow> ('k, 'v) shard" where
  "rotateShard capacity s =
     (let total = jm_size (current s) + jm_size (previous s);
          shouldRotate = highWaterMark s = 0 \<or> total * SHRINK_FACTOR < highWaterMark s;
          s' = s\<lparr>highWaterMark := max (highWaterMark s) total\<rparr>
      in if highWaterMark s' < capacity \<or> \<not> shouldRotate then s'
         else s'\<lparr>current := [], previous := combine (current s') (previous s'), highWaterMark := total\<rparr>)"

definition rm_rotate :: "('k, 'v) RotatingMap \<Rightarrow> ('k, 'v) RotatingMap" where
  "rm_rotate m = m\<lparr>shards := map (rotateShard (minCapacity m)) (shards m)\<rparr>"

definition armTimer :: "('k, 'v) RotatingMap \<Rightarrow> ('k, 'v) RotatingMap" where
  "armTimer m = m\<lparr>timer_armed := True\<rparr>"

text \<open>The callback of the timer; the timer that fired is no longer pending.\<close>

definition timer_fired :: "('k, 'v) RotatingMap \<Rightarrow> ('k, 'v) RotatingMap" where
  "timer_fired m =
     (if rm_stopped m then m\<lparr>timer_armed := False\<rparr> else armTimer (rm_rotate (m\<lparr>timer_armed := False\<rparr>)))"

definition rm_start :: "('k, 'v) RotatingMap \<Rightarrow> ('k, 'v) RotatingMap \<times> ('k store_error + unit)" where
  "rm_start m =
     (if rm_stopped m then (m, Inl StoreStoppedError)
      else if rm_started m then (m, Inl StoreAlreadyStartedError)
      else (armTimer (m\<lparr>rm_started := True\<rparr>), Inr ()))"

definition rm_stop :: "('k, 'v) RotatingMap \<Rightarrow> ('k, 'v) RotatingMap" where
  "rm_stop m = (if rm_stopped m then m else m\<lparr>rm_stopped := True, timer_armed := False\<rparr>)"

section \<open>Where a key lives\<close>

lemma shard_mask: "unat ((h :: 32 word) AND 63) < SHARD_COUNT"
proof -
  have "h AND 63 \<le> 63" by (rule word_and_le1)
  then show ?thesis by (simp add: word_le_nat_alt)
qed

text \<open>The shard of a key: none for an object that was never hashed.\<close>

definition shard_index :: "('k \<Rightarrow> 16 word list option) \<Rightarrow> ('k, 'v) RotatingMap \<Rightarrow> 'k \<Rightarrow> nat option" where
  "shard_index describe m k =
     (case describe k of
        Some text \<Rightarrow> Some (unat (hashString text AND 63))
      | None \<Rightarrow> map_option (\<lambda>i. unat (mix i AND 63)) (jm_get (objectIds m) k))"

definition shard_lookup :: "('k, 'v) shard \<Rightarrow> 'k \<Rightarrow> 'v option" where
  "shard_lookup s k = (case jm_get (current s) k of Some v \<Rightarrow> Some v | None \<Rightarrow> jm_get (previous s) k)"

definition shard_ok :: "('k, 'v) shard \<Rightarrow> bool" where
  "shard_ok s \<longleftrightarrow> jm_ok (current s) \<and> jm_ok (previous s) \<and>
     (\<forall>k. jm_has (current s) k \<longrightarrow> \<not> jm_has (previous s) k)"

text \<open>Every key is in the shard its hash says, and in one generation of it.\<close>

definition rm_ok :: "('k \<Rightarrow> 16 word list option) \<Rightarrow> ('k, 'v) RotatingMap \<Rightarrow> bool" where
  "rm_ok describe m \<longleftrightarrow> length (shards m) = SHARD_COUNT \<and>
     (\<forall>i < SHARD_COUNT. shard_ok (shards m ! i) \<and>
        (\<forall>k v. shard_lookup (shards m ! i) k = Some v \<longrightarrow> shard_index describe m k = Some i))"

text \<open>The map a rotating map stands for.\<close>

definition rm_abs :: "('k \<Rightarrow> 16 word list option) \<Rightarrow> ('k, 'v) RotatingMap \<Rightarrow> 'k \<Rightarrow> 'v option" where
  "rm_abs describe m k =
     (case shard_index describe m k of None \<Rightarrow> None | Some i \<Rightarrow> shard_lookup (shards m ! i) k)"

lemma shard_index_bound: "shard_index describe m k = Some i \<Longrightarrow> i < SHARD_COUNT"
  using shard_mask by (auto simp: shard_index_def split: option.splits)

lemma shard_lookup_None_iff:
  "shard_lookup s k = None \<longleftrightarrow> \<not> jm_has (current s) k \<and> \<not> jm_has (previous s) k"
  by (auto simp: shard_lookup_def jm_has_def split: option.split)

text \<open>Hashing a key fixes its shard and changes nothing else.\<close>

lemma rm_shard_spec:
  assumes "rm_ok describe m"
  obtains m' i where "rm_shard describe m k = (m', Inr i)" "shard_index describe m' k = Some i"
    "shards m' = shards m" "rm_ok describe m'" "rm_abs describe m' = rm_abs describe m" "i < SHARD_COUNT"
    "rm_stopped m' = rm_stopped m" "rm_started m' = rm_started m" "timer_armed m' = timer_armed m"
proof -
  obtain m' h where m': "rm_hash describe m k = (m', h)" by (cases "rm_hash describe m k")
  let ?i = "unat (h AND 63)"
  have sh: "shards m' = shards m" "rm_stopped m' = rm_stopped m" "rm_started m' = rm_started m"
    "timer_armed m' = timer_armed m"
    using m' by (auto simp: rm_hash_def split: option.splits)
  have idx: "shard_index describe m' k = Some ?i"
    using m' by (auto simp: rm_hash_def shard_index_def jsmap_simps split: option.splits)
  have other: "shard_index describe m' j = shard_index describe m j" if "j \<noteq> k \<or> shard_index describe m k \<noteq> None" for j
    using m' that by (auto simp: rm_hash_def shard_index_def jsmap_simps split: option.splits)
  have ok: "rm_ok describe m'"
    using assms other unfolding rm_ok_def sh by (metis option.distinct(1))
  have "shard_lookup (shards m ! ?i) k = None" if "shard_index describe m k = None"
    using assms that shard_mask [of h] unfolding rm_ok_def by (metis option.distinct(1) not_None_eq)
  then have "rm_abs describe m' j = rm_abs describe m j" for j
    using idx other [of j] other [of k] shard_index_bound
    by (cases "j = k") (auto simp: rm_abs_def sh split: option.split)
  then have "rm_abs describe m' = rm_abs describe m" by blast
  moreover have "rm_shard describe m k = (m', Inr ?i)"
    using m' sh assms shard_mask [of h] by (simp add: rm_shard_def rm_ok_def)
  ultimately show thesis
    using that idx sh ok shard_mask [of h] by blast
qed

text \<open>Replacing the shard of a key by one that differs at that key only.\<close>

lemma update_shard_spec:
  assumes ok: "rm_ok describe m" and idx: "shard_index describe m k = Some i"
    and f: "shard_ok (f (shards m ! i))" and r: "shard_lookup (f (shards m ! i)) = (shard_lookup (shards m ! i))(k := r)"
  shows "rm_ok describe (update_shard m i f)" (is ?ok)
    and "rm_abs describe (update_shard m i f) = (rm_abs describe m)(k := r)" (is ?abs)
proof -
  have i: "i < SHARD_COUNT" and len: "length (shards m) = SHARD_COUNT"
    using shard_index_bound [OF idx] ok by (simp_all add: rm_ok_def)
  have same: "shard_index describe (update_shard m i f) = shard_index describe m"
    by (auto simp: shard_index_def update_shard_def fun_eq_iff split: option.split)
  have nth: "shards (update_shard m i f) ! j = (if j = i then f (shards m ! i) else shards m ! j)" for j
    using i len by (simp add: update_shard_def nth_list_update)
  have old: "shard_lookup (shards m ! j) u = Some v \<Longrightarrow> shard_index describe m u = Some j"
    "j < SHARD_COUNT \<Longrightarrow> shard_ok (shards m ! j)" if "j < SHARD_COUNT" for j u v
    using ok that by (auto simp: rm_ok_def)
  show ?ok
    unfolding rm_ok_def same nth using old f r idx i len by (auto simp: update_shard_def split: if_splits)
  show ?abs
  proof
    fix u
    show "rm_abs describe (update_shard m i f) u = ((rm_abs describe m)(k := r)) u"
      using idx r by (cases "u = k"; cases "shard_index describe m u") (auto simp: rm_abs_def same nth)
  qed
qed

lemma shard_set:
  assumes "shard_ok s" and "shard_lookup s k = None"
  shows "shard_ok (s\<lparr>current := jm_set (current s) k v\<rparr>)"
    and "shard_lookup (s\<lparr>current := jm_set (current s) k v\<rparr>) = (shard_lookup s)(k := Some v)"
  using assms by (auto simp: shard_ok_def shard_lookup_def jm_has_def jsmap_simps fun_eq_iff split: option.splits)

lemma shard_delete_current:
  assumes "shard_ok s" and "jm_get (current s) k = Some v"
  shows "shard_ok (s\<lparr>current := jm_delete (current s) k\<rparr>)"
    and "shard_lookup (s\<lparr>current := jm_delete (current s) k\<rparr>) = (shard_lookup s)(k := None)"
  using assms by (auto simp: shard_ok_def shard_lookup_def jm_has_def jsmap_simps fun_eq_iff split: option.splits)

lemma shard_delete_previous:
  assumes "shard_ok s" and "jm_get (current s) k = None"
  shows "shard_ok (s\<lparr>previous := jm_delete (previous s) k\<rparr>)"
    and "shard_lookup (s\<lparr>previous := jm_delete (previous s) k\<rparr>) = (shard_lookup s)(k := None)"
  using assms by (auto simp: shard_ok_def shard_lookup_def jm_has_def jsmap_simps fun_eq_iff split: option.splits)

section \<open>Rotation\<close>

lemma combine_get:
  "jm_get (combine c es) k = (case jm_get c k of Some v \<Rightarrow> Some v | None \<Rightarrow> jm_get es k)"
  by (induction c es rule: combine.induct) (auto simp: jm_has_def jsmap_simps split: option.splits prod.splits)

lemma combine_ok: "jm_ok c \<Longrightarrow> jm_ok (combine c es)"
  by (induction c es rule: combine.induct) auto

lemma rotateShard_spec:
  assumes "shard_ok s"
  shows "shard_ok (rotateShard c s)" and "shard_lookup (rotateShard c s) = shard_lookup s"
proof -
  show "shard_ok (rotateShard c s)"
    using assms combine_ok [of "current s" "previous s"]
    by (auto simp: rotateShard_def Let_def shard_ok_def jm_has_def)
  show "shard_lookup (rotateShard c s) = shard_lookup s"
    by (auto simp: rotateShard_def Let_def shard_lookup_def combine_get fun_eq_iff split: option.split)
qed

lemma rotate_spec:
  assumes "rm_ok describe m"
  shows "rm_ok describe (rm_rotate m)" and "rm_abs describe (rm_rotate m) = rm_abs describe m"
proof -
  have same: "shard_index describe (rm_rotate m) = shard_index describe m"
    by (auto simp: shard_index_def rm_rotate_def fun_eq_iff split: option.split)
  have len: "length (shards m) = SHARD_COUNT"
    and ok: "\<And>i. i < SHARD_COUNT \<Longrightarrow> shard_ok (shards m ! i)"
    using assms by (simp_all add: rm_ok_def)
  have nth: "shards (rm_rotate m) ! i = rotateShard (minCapacity m) (shards m ! i)" if "i < SHARD_COUNT" for i
    using that len by (simp add: rm_rotate_def)
  note spec = rotateShard_spec [OF ok, of _ "minCapacity m"]
  have "length (shards (rm_rotate m)) = SHARD_COUNT"
    using len by (simp add: rm_rotate_def)
  then show "rm_ok describe (rm_rotate m)"
    using assms unfolding rm_ok_def same by (auto simp: nth spec)
  show "rm_abs describe (rm_rotate m) = rm_abs describe m"
    using shard_index_bound [of describe m] by (auto simp: rm_abs_def same nth spec fun_eq_iff split: option.split)
qed

section \<open>Size\<close>

definition shard_keys :: "('k, 'v) shard \<Rightarrow> 'k list" where
  "shard_keys s = map fst (current s) @ map fst (previous s)"

lemma shard_keys_set: "k \<in> set (shard_keys s) \<longleftrightarrow> shard_lookup s k \<noteq> None"
  using shard_lookup_None_iff [of s k] by (auto simp: shard_keys_def jm_has_iff)

lemma shard_keys_distinct: "shard_ok s \<Longrightarrow> distinct (shard_keys s)"
  unfolding shard_keys_def shard_ok_def jm_ok_def jm_has_iff distinct_append by blast

lemma rm_size_keys:
  fixes m :: "('k, 'v) RotatingMap"
  shows "rm_size m = length (concat (map shard_keys (shards m)))"
proof -
  have "foldl (\<lambda>n s. n + (jm_size (current s) + jm_size (previous s))) n ss =
      n + length (concat (map shard_keys ss))" for n and ss :: "('k, 'v) shard list"
    by (induction ss arbitrary: n) (auto simp: shard_keys_def)
  then show ?thesis by (simp add: rm_size_def)
qed

lemma distinct_concat_nth:
  assumes "\<And>i. i < length xss \<Longrightarrow> distinct (xss ! i)"
    and "\<And>i j x. i < length xss \<Longrightarrow> j < length xss \<Longrightarrow> x \<in> set (xss ! i) \<Longrightarrow> x \<in> set (xss ! j) \<Longrightarrow> i = j"
  shows "distinct (concat xss)"
  using assms
proof (induction xss)
  case (Cons xs xss)
  have "distinct (concat xss)"
  proof (rule Cons.IH)
    show "\<And>i. i < length xss \<Longrightarrow> distinct (xss ! i)" using Cons.prems(1) [of "Suc _"] by simp
    show "\<And>i j x. i < length xss \<Longrightarrow> j < length xss \<Longrightarrow> x \<in> set (xss ! i) \<Longrightarrow> x \<in> set (xss ! j) \<Longrightarrow> i = j"
      using Cons.prems(2) [of "Suc _" "Suc _"] by simp
  qed
  moreover have "x \<notin> set ys" if "ys \<in> set xss" "x \<in> set xs" for x ys
    using Cons.prems(2) [of 0 "Suc _" x] that by (force simp: in_set_conv_nth)
  ultimately show ?case using Cons.prems(1) [of 0] by auto
qed simp

lemma rm_size_card:
  assumes "rm_ok describe m"
  shows "rm_size m = card (dom (rm_abs describe m))"
proof -
  have len: "length (shards m) = SHARD_COUNT"
    and ok: "\<And>i. i < SHARD_COUNT \<Longrightarrow> shard_ok (shards m ! i)"
    and home: "\<And>i k v. i < SHARD_COUNT \<Longrightarrow> shard_lookup (shards m ! i) k = Some v \<Longrightarrow>
      shard_index describe m k = Some i"
    using assms by (auto simp: rm_ok_def)
  have apart: "i = j" if "i < SHARD_COUNT" "j < SHARD_COUNT" "k \<in> set (shard_keys (shards m ! i))"
    "k \<in> set (shard_keys (shards m ! j))" for i j k
    using that home [of i k] home [of j k] by (auto simp: shard_keys_set)
  have "distinct (concat (map shard_keys (shards m)))"
    using len ok apart by (intro distinct_concat_nth) (auto simp: shard_keys_distinct)
  moreover have "set (concat (map shard_keys (shards m))) = dom (rm_abs describe m)"
  proof -
    have "k \<in> set (concat (map shard_keys (shards m))) \<longleftrightarrow> (\<exists>i < SHARD_COUNT. shard_lookup (shards m ! i) k \<noteq> None)" for k
      unfolding shard_keys_set [symmetric] using len by (auto simp: set_conv_nth [of "shards m"])
    moreover have "(\<exists>i < SHARD_COUNT. shard_lookup (shards m ! i) k \<noteq> None) \<longleftrightarrow> rm_abs describe m k \<noteq> None" for k
    proof (cases "shard_index describe m k")
      case None
      then have "shard_lookup (shards m ! i) k = None" if "i < SHARD_COUNT" for i
        using home [OF that, of k] by (cases "shard_lookup (shards m ! i) k") auto
      with None show ?thesis by (simp add: rm_abs_def)
    next
      case (Some j)
      then have "shard_lookup (shards m ! i) k = None" if "i < SHARD_COUNT" "i \<noteq> j" for i
        using home [OF that(1), of k] that(2) by (cases "shard_lookup (shards m ! i) k") auto
      with Some shard_index_bound [OF Some] show ?thesis
        unfolding rm_abs_def by (metis option.simps(5))
    qed
    ultimately show ?thesis by auto
  qed
  ultimately show ?thesis
    using distinct_card rm_size_keys by metis
qed

section \<open>The contract\<close>

datatype ('k, 'v) rm_op = SetOp 'k 'v | GetOrCreateOp 'k "string + 'v" | GetOp 'k | PopOp 'k
  | SizeOp | StartOp | StopOp | TimerOp

datatype ('k, 'v) rm_output = Done "'k store_error + unit" | Created "'k store_error + 'v \<times> bool"
  | Found "'k store_error + 'v option" | Counted nat | Silent

fun rm_exec :: "('k \<Rightarrow> 16 word list option) \<Rightarrow> ('k, 'v) RotatingMap \<Rightarrow> ('k, 'v) rm_op \<Rightarrow>
    ('k, 'v) RotatingMap \<times> ('k, 'v) rm_output" where
  "rm_exec describe m (SetOp k v) = apsnd Done (rm_set describe m k v)"
| "rm_exec describe m (GetOrCreateOp k f) = apsnd Created (rm_getOrCreate describe m k f)"
| "rm_exec describe m (GetOp k) = apsnd Found (rm_get describe m k)"
| "rm_exec describe m (PopOp k) = apsnd Found (rm_pop describe m k)"
| "rm_exec describe m SizeOp = (m, Counted (rm_size m))"
| "rm_exec describe m StartOp = apsnd Done (rm_start m)"
| "rm_exec describe m StopOp = (rm_stop m, Silent)"
| "rm_exec describe m TimerOp = (timer_fired m, Silent)"

text \<open>The specification: one map, and the two lifecycle flags. The timer does nothing.\<close>

record ('k, 'v) plain =
  entries :: "'k \<Rightarrow> 'v option"
  plain_started :: bool
  plain_stopped :: bool

definition store :: "('k, 'v) plain \<Rightarrow> 'k \<Rightarrow> 'v option \<Rightarrow> ('k, 'v) plain" where
  "store p k r = p\<lparr>entries := (entries p)(k := r)\<rparr>"

fun plain_exec :: "('k, 'v) plain \<Rightarrow> ('k, 'v) rm_op \<Rightarrow> ('k, 'v) plain \<times> ('k, 'v) rm_output" where
  "plain_exec p (SetOp k v) =
     (if entries p k \<noteq> None then (p, Done (Inl (DuplicateKeyError k))) else (store p k (Some v), Done (Inr ())))"
| "plain_exec p (GetOrCreateOp k f) =
     (case entries p k of
        Some v \<Rightarrow> (p, Created (Inr (v, True)))
      | None \<Rightarrow> (case f of Inl e \<Rightarrow> (p, Created (Inl (FactoryError e)))
                        | Inr v \<Rightarrow> (store p k (Some v), Created (Inr (v, False)))))"
| "plain_exec p (GetOp k) = (p, Found (Inr (entries p k)))"
| "plain_exec p (PopOp k) = (store p k None, Found (Inr (entries p k)))"
| "plain_exec p SizeOp = (p, Counted (card (dom (entries p))))"
| "plain_exec p StartOp =
     (if plain_stopped p then (p, Done (Inl StoreStoppedError))
      else if plain_started p then (p, Done (Inl StoreAlreadyStartedError))
      else (p\<lparr>plain_started := True\<rparr>, Done (Inr ())))"
| "plain_exec p StopOp = (p\<lparr>plain_stopped := True\<rparr>, Silent)"
| "plain_exec p TimerOp = (p, Silent)"

fun outputs :: "('s \<Rightarrow> 'op \<Rightarrow> 's \<times> 'out) \<Rightarrow> 's \<Rightarrow> 'op list \<Rightarrow> 'out list" where
  "outputs step s [] = []"
| "outputs step s (op # ops) = (case step s op of (s', out) \<Rightarrow> out # outputs step s' ops)"

definition rm_refines :: "('k \<Rightarrow> 16 word list option) \<Rightarrow> ('k, 'v) RotatingMap \<Rightarrow> ('k, 'v) plain \<Rightarrow> bool" where
  "rm_refines describe m p \<longleftrightarrow> rm_ok describe m \<and> entries p = rm_abs describe m \<and>
     plain_started p = rm_started m \<and> plain_stopped p = rm_stopped m"

lemma rm_ok_flags [simp]:
  "rm_ok describe (m\<lparr>timer_armed := a\<rparr>) = rm_ok describe m" "rm_abs describe (m\<lparr>timer_armed := a\<rparr>) = rm_abs describe m"
  "rm_ok describe (m\<lparr>rm_started := b\<rparr>) = rm_ok describe m" "rm_abs describe (m\<lparr>rm_started := b\<rparr>) = rm_abs describe m"
  "rm_ok describe (m\<lparr>rm_stopped := c\<rparr>) = rm_ok describe m" "rm_abs describe (m\<lparr>rm_stopped := c\<rparr>) = rm_abs describe m"
proof -
  have *: "shard_index describe (m\<lparr>timer_armed := a\<rparr>) = shard_index describe m"
    "shard_index describe (m\<lparr>rm_started := b\<rparr>) = shard_index describe m"
    "shard_index describe (m\<lparr>rm_stopped := c\<rparr>) = shard_index describe m"
    by (auto simp: shard_index_def fun_eq_iff split: option.split)
  show "rm_ok describe (m\<lparr>timer_armed := a\<rparr>) = rm_ok describe m" "rm_abs describe (m\<lparr>timer_armed := a\<rparr>) = rm_abs describe m"
    "rm_ok describe (m\<lparr>rm_started := b\<rparr>) = rm_ok describe m" "rm_abs describe (m\<lparr>rm_started := b\<rparr>) = rm_abs describe m"
    "rm_ok describe (m\<lparr>rm_stopped := c\<rparr>) = rm_ok describe m" "rm_abs describe (m\<lparr>rm_stopped := c\<rparr>) = rm_abs describe m"
    by (auto simp: rm_ok_def rm_abs_def * fun_eq_iff split: option.split)
qed

lemma update_shard_flags [simp]:
  "rm_started (update_shard m i f) = rm_started m" "rm_stopped (update_shard m i f) = rm_stopped m"
  by (simp_all add: update_shard_def)

lemma rm_rotate_flags [simp]:
  "rm_started (rm_rotate m) = rm_started m" "rm_stopped (rm_rotate m) = rm_stopped m"
  by (simp_all add: rm_rotate_def)

text \<open>The four keyed operations; \<open>i\<close> is the shard of the key once it is hashed.\<close>

lemma keyed_exec_refines:
  assumes "rm_refines describe m p" and "op = SetOp k v \<or> op = GetOrCreateOp k f \<or> op = GetOp k \<or> op = PopOp k"
  shows "\<exists>m' p' out. rm_exec describe m op = (m', out) \<and> plain_exec p op = (p', out) \<and> rm_refines describe m' p'"
proof -
  obtain m1 i where sh: "rm_shard describe m k = (m1, Inr i)" and idx: "shard_index describe m1 k = Some i"
    and ok: "rm_ok describe m1" and i: "i < SHARD_COUNT" and abs: "rm_abs describe m1 = entries p"
    and flags: "plain_started p = rm_started m1" "plain_stopped p = rm_stopped m1"
    using rm_shard_spec [of describe m k] assms(1) unfolding rm_refines_def by metis
  let ?s = "shards m1 ! i"
  have s: "shard_ok ?s" using ok i by (simp add: rm_ok_def)
  have look: "entries p k = shard_lookup ?s k"
    unfolding abs [symmetric] by (simp add: rm_abs_def idx)
  have stored: "rm_refines describe (update_shard m1 i g) (store p k r)"
    if "shard_ok (g ?s)" "shard_lookup (g ?s) = (shard_lookup ?s)(k := r)" for g r
    using update_shard_spec [OF ok idx, of g r] that flags abs by (simp add: rm_refines_def store_def)
  have same: "rm_refines describe m1 p" using ok abs flags by (simp add: rm_refines_def)
  consider "jm_get (current ?s) k = None" "jm_get (previous ?s) k = None"
    | v where "jm_get (current ?s) k = Some v" | v where "jm_get (current ?s) k = None" "jm_get (previous ?s) k = Some v"
    by (cases "jm_get (current ?s) k"; cases "jm_get (previous ?s) k") auto
  then show ?thesis
  proof cases
    case 1
    have none: "shard_lookup ?s k = None" using 1 by (simp add: shard_lookup_def)
    have "store p k None = p" using look none by (simp add: store_def fun_upd_idem)
    with assms(2) 1 none same stored [of "\<lambda>s. s\<lparr>current := jm_set (current s) k _\<rparr>"] shard_set [OF s none] sh look show ?thesis
      by (auto simp: rm_set_def rm_getOrCreate_def rm_get_def rm_pop_def jm_has_def split: sum.split)
  next
    case (2 v)
    have "shard_lookup ?s k = Some v" using 2 by (simp add: shard_lookup_def)
    with assms(2) 2 same stored [of "\<lambda>s. s\<lparr>current := jm_delete (current s) k\<rparr>" None]
      shard_delete_current [OF s 2] sh look show ?thesis
      by (auto simp: rm_set_def rm_getOrCreate_def rm_get_def rm_pop_def jm_has_def)
  next
    case (3 v)
    have "shard_lookup ?s k = Some v" using 3 by (simp add: shard_lookup_def)
    with assms(2) 3 same stored [of "\<lambda>s. s\<lparr>previous := jm_delete (previous s) k\<rparr>" None]
      shard_delete_previous [OF s 3(1)] sh look show ?thesis
      by (auto simp: rm_set_def rm_getOrCreate_def rm_get_def rm_pop_def jm_has_def)
  qed
qed

lemma rm_exec_refines:
  assumes "rm_refines describe m p"
  shows "\<exists>m' p' out. rm_exec describe m op = (m', out) \<and> plain_exec p op = (p', out) \<and> rm_refines describe m' p'"
proof (cases op)
  case SizeOp
  with assms rm_size_card [of describe m] show ?thesis by (simp add: rm_refines_def)
next
  case TimerOp
  with assms rotate_spec [of describe "m\<lparr>timer_armed := False\<rparr>"] show ?thesis
    by (simp add: rm_refines_def timer_fired_def armTimer_def)
next
  case StartOp
  with assms show ?thesis by (simp add: rm_refines_def rm_start_def armTimer_def)
next
  case StopOp
  with assms show ?thesis by (simp add: rm_refines_def rm_stop_def)
qed (use keyed_exec_refines [OF assms] in blast)+

lemma rm_outputs:
  "rm_refines describe m p \<Longrightarrow> outputs (rm_exec describe) m ops = outputs plain_exec p ops"
proof (induction ops arbitrary: m p)
  case (Cons op ops)
  obtain m' p' out where "rm_exec describe m op = (m', out)" "plain_exec p op = (p', out)" "rm_refines describe m' p'"
    using rm_exec_refines [OF Cons.prems] by blast
  with Cons.IH [of m' p'] show ?case by simp
qed simp

lemma rm_new_refines:
  assumes "rm_new interval capacity = Inr m"
  shows "rm_refines describe m \<lparr>entries = (\<lambda>_. None), plain_started = False, plain_stopped = False\<rparr>"
proof -
  have m: "shards m = replicate SHARD_COUNT empty_shard" "\<not> rm_started m" "\<not> rm_stopped m"
    using assms by (auto simp: rm_new_def split: if_splits)
  have e: "shard_lookup empty_shard k = None" "shard_ok empty_shard" for k
    by (simp_all add: shard_lookup_def shard_ok_def empty_shard_def jm_has_def)
  then have "shard_lookup (shards m ! i) k = None" "shard_ok (shards m ! i)" if "i < SHARD_COUNT" for i k
    using that m(1) by simp_all
  then have "rm_ok describe m" "rm_abs describe m = (\<lambda>_. None)"
    using m(1) e shard_index_bound [of describe m] by (auto simp: rm_ok_def rm_abs_def fun_eq_iff split: option.split)
  with m show ?thesis by (simp add: rm_refines_def)
qed

text \<open>
  C8. A rotating map behaves as one plain map. Whatever sequence of calls is made on it (\<open>set\<close>,
  \<open>getOrCreate\<close>, \<open>get\<close>, \<open>pop\<close>, \<open>size\<close>, \<open>start\<close>, \<open>stop\<close>) and whenever its timer rotates the
  generations, every call returns or throws what it would on a plain map: no live entry is ever
  lost, duplicated or resurrected by sharding or rotation, and the size is the number of entries.
\<close>

theorem rotating_map_is_a_map:
  assumes "rm_new interval capacity = Inr m"
  shows "outputs (rm_exec describe) m ops =
    outputs plain_exec \<lparr>entries = (\<lambda>_. None), plain_started = False, plain_stopped = False\<rparr> ops"
  by (rule rm_outputs [OF rm_new_refines [OF assms]])

text \<open>Keys below ten are objects, the others are hashed by one code unit.\<close>

definition describe_small :: "nat \<Rightarrow> 16 word list option" where
  "describe_small k = (if k < 10 then None else Some [word_of_nat k])"

definition fresh_map :: "(nat, nat) RotatingMap" where
  "fresh_map = \<lparr>intervalMs = Finite 1000, minCapacity = 0, shards = replicate SHARD_COUNT empty_shard,
     objectIds = [], nextObjectId = 1, timer_armed = False, rm_started = False, rm_stopped = False\<rparr>"

theorem rotating_map_is_a_map_witness:
  "outputs (rm_exec describe_small) fresh_map
     [StartOp, SetOp 1 7, SetOp 99 8, TimerOp, SetOp 1 9, GetOp 1, PopOp 99, TimerOp, GetOp 99, StopOp, StartOp] =
   [Done (Inr ()), Done (Inr ()), Done (Inr ()), Silent, Done (Inl (DuplicateKeyError 1)), Found (Inr (Some 7)),
    Found (Inr (Some 8)), Silent, Found (Inr None), Silent, Done (Inl StoreStoppedError)]"
proof -
  have "is_safe_integer (Finite 0)" by code_simp
  then have "rm_new (Finite 1000) (Finite 0) = Inr fresh_map"
    by (simp add: rm_new_def fresh_map_def)
  then show ?thesis
    unfolding rotating_map_is_a_map [OF \<open>rm_new (Finite 1000) (Finite 0) = Inr fresh_map\<close>] by (simp add: store_def)
qed

end
