(* ===== verification/JsValue.thy ===== *)
theory JsValue
  imports Prelude
begin

text \<open>
  JavaScript values as a YAML or JSON document gives them, decimal rendering of integers, and
  the checks \<open>typeof\<close>, \<open>in\<close> and property access that the configuration code makes. Objects are
  plain: they have their own entries only, in insertion order. Strings are sequences of 8-bit
  characters compared by code, as \<open>Array.prototype.sort\<close> compares them.
\<close>

section \<open>Decimal rendering\<close>

definition digit :: "nat \<Rightarrow> char" where
  "digit d = char_of (48 + d)"

fun show_nat :: "nat \<Rightarrow> string" where
  "show_nat n = (if n < 10 then [digit n] else show_nat (n div 10) @ [digit (n mod 10)])"

declare show_nat.simps [simp del]

text \<open>\<open>String(n)\<close> of a safe integer.\<close>

definition show_int :: "int \<Rightarrow> string" where
  "show_int n = (if n < 0 then CHR ''-'' # show_nat (nat (- n)) else show_nat (nat n))"

lemma digit_inj: "a < 10 \<Longrightarrow> b < 10 \<Longrightarrow> digit a = digit b \<longleftrightarrow> a = b"
  by (auto simp: digit_def dest!: arg_cong [of "char_of _" "char_of _" of_char])

lemma digit_range: "d < 10 \<Longrightarrow> of_char (digit d) \<in> {48..57 :: nat}"
  by (simp add: digit_def)

lemma show_nat_chars: "c \<in> set (show_nat n) \<Longrightarrow> of_char c \<in> {48..57 :: nat}"
proof (induction n rule: show_nat.induct)
  case (1 n)
  then show ?case
    using digit_range [of n] digit_range [of "n mod 10"]
    by (subst (asm) show_nat.simps) (auto split: if_splits)
qed

lemma show_nat_nonempty: "show_nat n \<noteq> []"
  by (subst show_nat.simps) auto

lemma show_nat_inj: "show_nat m = show_nat n \<Longrightarrow> m = n"
proof (induction m arbitrary: n rule: show_nat.induct)
  case (1 m)
  show ?case
  proof (cases "m < 10 \<or> n < 10")
    case True
    then show ?thesis
      using "1.prems" show_nat_nonempty [of "m div 10"] show_nat_nonempty [of "n div 10"] digit_inj [of m n]
      by (subst (asm) (1 2) show_nat.simps) (auto split: if_splits simp: append_eq_Cons_conv Cons_eq_append_conv)
  next
    case False
    then have "show_nat (m div 10) = show_nat (n div 10)" "digit (m mod 10) = digit (n mod 10)"
      using "1.prems" by (subst (asm) (1 2) show_nat.simps, simp)+
    then have "m div 10 = n div 10" "m mod 10 = n mod 10"
      using "1.IH" False digit_inj [of "m mod 10" "n mod 10"] by auto
    then show ?thesis by (metis div_mult_mod_eq)
  qed
qed

lemma show_nat_no_sign: "CHR ''-'' \<notin> set (show_nat n)" "CHR '':'' \<notin> set (show_nat n)"
  using show_nat_chars [of "CHR ''-''" n] show_nat_chars [of "CHR '':''" n] by auto

lemma show_int_inj:
  assumes "show_int m = show_int n"
  shows "m = n"
proof -
  have "CHR ''-'' # xs \<noteq> show_nat k" for xs k
    using show_nat_no_sign(1) [of k] by (metis list.set_intros(1))
  with assms show ?thesis
    by (auto simp: show_int_def dest!: show_nat_inj split: if_splits)
      (metis)+
qed

lemma show_int_no_colon: "CHR '':'' \<notin> set (show_int n)"
  using show_nat_no_sign(2) by (simp add: show_int_def)

section \<open>Values\<close>

datatype jsval = JUndefined | JNull | JBool bool | JNum number | JStr string
  | JArr "jsval list" | JObj "(string \<times> jsval) list"

type_synonym jsobj = "(string, jsval) jsmap"

text \<open>\<open>source.key\<close>, and \<open>key in source\<close>.\<close>

definition field :: "jsobj \<Rightarrow> string \<Rightarrow> jsval" where
  "field source key = (case jm_get source key of None \<Rightarrow> JUndefined | Some v \<Rightarrow> v)"

definition has_field :: "jsobj \<Rightarrow> string \<Rightarrow> bool" where
  "has_field source key = jm_has source key"

text \<open>\<open>allowed.join(", ")\<close>, and \<open>join\<close> with any separator.\<close>

fun join_with :: "string \<Rightarrow> string list \<Rightarrow> string" where
  "join_with sep [] = []"
| "join_with sep [x] = x"
| "join_with sep (x # xs) = x @ sep @ join_with sep xs"

end
