(* ===== verification/ConfigTypes.thy ===== *)
theory ConfigTypes
  imports JsValue
begin

text \<open>
  The canonical configuration of \<open>src/runtime/config/types.ts\<close>: services, streams, data
  connectors, endpoints, pools, links, modules and types. An integral number is an \<open>int\<close>, any other
  number a \<open>rat\<close>; an optional member is an \<open>option\<close>. The members a stream, a connector or an
  endpoint has beside the common ones depend on its kind and are the arguments of a datatype.
\<close>

section \<open>Identities and services\<close>

record NamedIdentity =
  config_id :: int
  config_name :: string
  config_properties :: jsobj

datatype KubernetesWorkloadType = Deployment | StatefulSet

datatype CallSemanticsGroup =
    FunctionCall bool
  | TaskPoolCall string
  | PriorityTaskPoolCall string int
  | ParallelCall

record ServiceConfig = NamedIdentity +
  color :: string
  defaultCallSemantics :: "CallSemanticsGroup option"
  defaultGrpcTimeout :: "int option"
  environment :: string
  golangVersion :: "string option"
  grpcHost :: string
  grpcPort :: int
  httpHost :: string
  httpPort :: int
  logLevel :: "string option"
  metricsHandler :: string
  startupHandler :: string
  readinessHandler :: string
  livenessHandler :: string
  kubernetesWorkloadType :: KubernetesWorkloadType
  modulePath :: "string option"
  shutdownTimeout :: int
  statusHandler :: string

section \<open>Streams\<close>

datatype TransformationType =
    TCase | TCycleLink | TDelay | TError | TFilter | TFlatMap | TFlatMapIterable | TInput | TSubStream
  | TJoin | TKeyBy | TMap | TMerge | TMultiJoin | TProcess | TSink | TSplit | TWhen

fun transformation_text :: "TransformationType \<Rightarrow> string" where
  "transformation_text TCase = ''Case''"
| "transformation_text TCycleLink = ''CycleLink''"
| "transformation_text TDelay = ''Delay''"
| "transformation_text TError = ''Error''"
| "transformation_text TFilter = ''Filter''"
| "transformation_text TFlatMap = ''FlatMap''"
| "transformation_text TFlatMapIterable = ''FlatMapIterable''"
| "transformation_text TInput = ''Input''"
| "transformation_text TSubStream = ''SubStream''"
| "transformation_text TJoin = ''Join''"
| "transformation_text TKeyBy = ''KeyBy''"
| "transformation_text TMap = ''Map''"
| "transformation_text TMerge = ''Merge''"
| "transformation_text TMultiJoin = ''MultiJoin''"
| "transformation_text TProcess = ''Process''"
| "transformation_text TSink = ''Sink''"
| "transformation_text TSplit = ''Split''"
| "transformation_text TWhen = ''When''"

fun transformationName :: "TransformationType \<Rightarrow> string" where
  "transformationName TCase = ''case''"
| "transformationName TCycleLink = ''cycleLink''"
| "transformationName TDelay = ''delay''"
| "transformationName TError = ''error''"
| "transformationName TFilter = ''filter''"
| "transformationName TFlatMap = ''flatMap''"
| "transformationName TFlatMapIterable = ''flatMapIterable''"
| "transformationName TInput = ''input''"
| "transformationName TSubStream = ''substream''"
| "transformationName TJoin = ''join''"
| "transformationName TKeyBy = ''keyBy''"
| "transformationName TMap = ''map''"
| "transformationName TMerge = ''merge''"
| "transformationName TMultiJoin = ''multiJoin''"
| "transformationName TProcess = ''process''"
| "transformationName TSink = ''sink''"
| "transformationName TSplit = ''split''"
| "transformationName TWhen = ''when''"

record FunctionConfig =
  functionPackage :: "string option"
  functionName :: "string option"
  publicFunction :: "bool option"
  functionDescription :: "string option"
  functionInitializerGroup :: "string option"
  functionModule :: "string option"

datatype JoinType = JoinUndefined | InnerJoin | LeftJoin | RightJoin | OuterJoin
datatype JoinStorageType = StorageUndefined | HashMap | RocksDB | Aerospike

text \<open>The members of a stream that depend on its type, in the order of the interfaces.\<close>

datatype stream_body =
    MapBody FunctionConfig string
  | MergeBody
  | FilterBody FunctionConfig
  | DelayBody FunctionConfig int
  | FlatMapBody FunctionConfig string
  | FlatMapIterableBody string
  | InputBody string int
  | SubStreamBody string
  | JoinBody FunctionConfig string JoinType JoinStorageType int bool
  | MultiJoinBody FunctionConfig string JoinStorageType int bool
  | KeyByBody FunctionConfig string string
  | ProcessBody FunctionConfig "string option"
  | SinkBody "string option" int
  | CaseBody FunctionConfig
  | WhenBody string
  | SplitBody
  | CycleLinkBody

record StreamConfig = NamedIdentity +
  pipeline :: string
  stream_component :: "string option"
  idService :: int
  idSource :: int
  idSources :: "int list"
  xPos :: rat
  yPos :: rat
  stream_body :: stream_body

fun body_type :: "stream_body \<Rightarrow> TransformationType" where
  "body_type (MapBody _ _) = TMap"
| "body_type MergeBody = TMerge"
| "body_type (FilterBody _) = TFilter"
| "body_type (DelayBody _ _) = TDelay"
| "body_type (FlatMapBody _ _) = TFlatMap"
| "body_type (FlatMapIterableBody _) = TFlatMapIterable"
| "body_type (InputBody _ _) = TInput"
| "body_type (SubStreamBody _) = TSubStream"
| "body_type (JoinBody _ _ _ _ _ _) = TJoin"
| "body_type (MultiJoinBody _ _ _ _ _) = TMultiJoin"
| "body_type (KeyByBody _ _ _) = TKeyBy"
| "body_type (ProcessBody _ _) = TProcess"
| "body_type (SinkBody _ _) = TSink"
| "body_type (CaseBody _) = TCase"
| "body_type (WhenBody _) = TWhen"
| "body_type SplitBody = TSplit"
| "body_type CycleLinkBody = TCycleLink"

definition stream_type :: "StreamConfig \<Rightarrow> TransformationType" where
  "stream_type s = body_type (stream_body s)"

section \<open>Data connectors\<close>

record HttpConnector =
  http_module :: "string option"
  http_host :: "string option"
  http_port :: "int option"
  useDedicatedListener :: bool

record GrpcConnector =
  grpc_programmingLanguage :: "int option"
  grpc_module :: "string option"
  grpc_address :: "string option"
  connectionsCount :: int

record KafkaConnector =
  kafka_programmingLanguage :: "int option"
  brokers :: string
  kafka_version :: "string option"
  dialTimeout :: rat
  usePartitioner :: bool
  kafka_async :: bool
  securityProtocol :: string
  saslMechanism :: string
  kafka_username :: "string option"
  kafka_password :: "string option"

record TemporalConnector =
  temporal_address :: string
  namespace :: string
  temporal_identity :: string
  apiKey :: string
  tlsEnabled :: bool
  tlsServerName :: string
  tlsCaFile :: string
  tlsCertFile :: string
  tlsKeyFile :: string
  workerStopTimeout :: int

datatype connector_body =
    HttpDataConnector HttpConnector
  | GrpcDataConnector GrpcConnector
  | KafkaDataConnector KafkaConnector
  | CustomDataConnector
  | CronDataConnector
  | TemporalDataConnector TemporalConnector

record DataConnectorConfig = NamedIdentity +
  implementation :: string
  connector_body :: connector_body

text \<open>\<open>DataConnectorType\<close>: the number of the kind.\<close>

fun connector_type :: "connector_body \<Rightarrow> int" where
  "connector_type (HttpDataConnector _) = 1"
| "connector_type (GrpcDataConnector _) = 2"
| "connector_type (KafkaDataConnector _) = 3"
| "connector_type CustomDataConnector = 4"
| "connector_type CronDataConnector = 5"
| "connector_type (TemporalDataConnector _) = 6"

section \<open>Endpoints\<close>

datatype GrpcMethodType = NoStreaming | ClientStreaming | ServerStreaming | BidirectionalStreaming

record KafkaEndpoint =
  kafka_enabled :: bool
  createTopic :: bool
  topic :: string
  partitions :: int
  consumerGroup :: string
  replicationFactor :: int

record CronEndpoint =
  cron_enabled :: bool
  schedule :: string
  timezone :: string
  overlapPolicy :: string
  missedRunPolicy :: string

record TemporalEndpoint =
  temporal_enabled :: bool
  taskQueue :: string
  temporalExecutionType :: string
  maxConcurrentActivities :: int
  maxConcurrentWorkflowTasks :: int
  temporal_schedule :: string
  scheduleId :: string
  temporal_timezone :: string
  temporal_overlapPolicy :: string
  temporal_missedRunPolicy :: string
  workflowExecutionTimeout :: int
  activityStartToCloseTimeout :: int
  activityHeartbeatTimeout :: int
  maximumAttempts :: int

datatype endpoint_body =
    HttpEndpointBody string string
  | GrpcEndpointBody GrpcMethodType string
  | KafkaEndpointBody KafkaEndpoint
  | CronEndpointBody CronEndpoint
  | TemporalEndpointBody TemporalEndpoint
  | CustomEndpointBody bool

record EndpointConfig = NamedIdentity +
  idDataConnector :: int
  tracingEnabled :: bool
  endpoint_functions :: FunctionConfig
  endpoint_body :: endpoint_body

section \<open>The rest of the document\<close>

record PoolConfig =
  poolConfig_name :: string
  pool_executorsCount :: int
  queueCapacity :: int
  pool_properties :: jsobj

record LinkConfig =
  link_from :: int
  link_to :: int
  callSemantics :: "CallSemanticsGroup option"
  link_properties :: jsobj

record ModuleConfig =
  moduleConfig_name :: string
  moduleConfig_path :: string
  module_properties :: jsobj

record TypeConfig =
  type_name :: string
  type_type :: string
  typeDefinition :: "string option"
  typeImport :: "string option"
  type_valueType :: "string option"
  type_keyType :: "string option"
  type_package :: "string option"
  type_module :: "string option"
  definitionFormat :: "int option"
  publicType :: bool
  transferByValue :: bool
  useAlias :: bool
  type_properties :: jsobj

record CanonicalConfig =
  services :: "ServiceConfig list"
  streams :: "StreamConfig list"
  dataConnectors :: "DataConnectorConfig list"
  endpoints :: "EndpointConfig list"
  pools :: "PoolConfig list"
  links :: "LinkConfig list"
  modules :: "ModuleConfig list"
  types :: "TypeConfig list"
  root_properties :: jsobj

end
