(* ===== verification/ConfigParser.thy ===== *)
theory ConfigParser
  imports ConfigTypes
begin

text \<open>
  The parser of \<open>src/runtime/config/parser.ts\<close>, from a document to the canonical configuration.
  A thrown error is its message. The steps of each parser are in the order of the source, so
  the first fault of a document decides its message.
\<close>

section \<open>Scalars\<close>

fun record_value :: "jsval \<Rightarrow> string \<Rightarrow> string + jsobj" where
  "record_value (JObj entries) path = Inr entries"
| "record_value _ path = Inl (path @ '' must be a mapping'')"

fun stringValue :: "jsval \<Rightarrow> string \<Rightarrow> string + string" where
  "stringValue (JStr s) path = Inr s"
| "stringValue _ path = Inl (path @ '' must be a string'')"

fun optional :: "(jsval \<Rightarrow> string \<Rightarrow> string + 'a) \<Rightarrow> jsval \<Rightarrow> string \<Rightarrow> string + 'a option" where
  "optional parse JUndefined path = Inr None"
| "optional parse v path = mapR Some (parse v path)"

definition optionalString :: "jsval \<Rightarrow> string \<Rightarrow> string + string option" where
  "optionalString = optional stringValue"

fun numberValue :: "jsval \<Rightarrow> string \<Rightarrow> string + rat" where
  "numberValue (JNum (Finite q)) path = Inr q"
| "numberValue _ path = Inl (path @ '' must be a finite number'')"

definition integer :: "jsval \<Rightarrow> string \<Rightarrow> string + int" where
  "integer v path =
     bindR (numberValue v path) (\<lambda>q.
       if is_safe_integer (Finite q) then Inr (fst (quotient_of q))
       else Inl (path @ '' must be a safe integer''))"

definition optionalInteger :: "jsval \<Rightarrow> string \<Rightarrow> string + int option" where
  "optionalInteger = optional integer"

fun booleanValue :: "jsval \<Rightarrow> string \<Rightarrow> string + bool" where
  "booleanValue (JBool b) path = Inr b"
| "booleanValue _ path = Inl (path @ '' must be a boolean'')"

definition optionalBoolean :: "jsval \<Rightarrow> string \<Rightarrow> string + bool option" where
  "optionalBoolean = optional booleanValue"

definition optionalEnum :: "string list \<Rightarrow> jsval \<Rightarrow> string \<Rightarrow> string + string option" where
  "optionalEnum allowed v path =
     bindR (optionalString v path) (\<lambda>r.
       case r of
         None \<Rightarrow> Inr None
       | Some s \<Rightarrow>
           if s \<in> set allowed then Inr (Some s)
           else Inl (path @ '' must be one of: '' @ join_with '', '' allowed))"

definition requiredEnum :: "string list \<Rightarrow> jsval \<Rightarrow> string \<Rightarrow> string + string" where
  "requiredEnum allowed v path =
     bindR (optionalEnum allowed v path) (\<lambda>r.
       case r of None \<Rightarrow> Inl (path @ '' is required'') | Some s \<Rightarrow> Inr s)"

text \<open>\<open>value.map((item, index) => integer(item, `${path}[${index}]`))\<close>, from an index on.\<close>

fun integers_from :: "nat \<Rightarrow> jsval list \<Rightarrow> string \<Rightarrow> string + int list" where
  "integers_from i [] path = Inr []"
| "integers_from i (v # vs) path =
     bindR (integer v (path @ ''['' @ show_nat i @ '']'')) (\<lambda>n.
     bindR (integers_from (Suc i) vs path) (\<lambda>ns. Inr (n # ns)))"

fun integerArray :: "jsval \<Rightarrow> string \<Rightarrow> string + int list" where
  "integerArray JUndefined path = Inr []"
| "integerArray (JArr vs) path = integers_from 0 vs path"
| "integerArray _ path = Inl (path @ '' must be a sequence'')"

definition properties :: "string list \<Rightarrow> jsobj \<Rightarrow> jsobj" where
  "properties known source = filter (\<lambda>(key, _). key \<notin> set known) source"

text \<open>\<open>parse(source.key, `${path}.key`)\<close>, the form of every access of a member.\<close>

definition member_at ::
  "(jsval \<Rightarrow> string \<Rightarrow> string + 'a) \<Rightarrow> jsobj \<Rightarrow> string \<Rightarrow> string \<Rightarrow> string + 'a" where
  "member_at parse source path key = parse (field source key) (path @ ''.'' @ key)"

text \<open>\<open>value ?? default\<close> on an optional result.\<close>

definition or_else :: "'a \<Rightarrow> string + 'a option \<Rightarrow> string + 'a" where
  "or_else d = mapR (\<lambda>r. case r of None \<Rightarrow> d | Some x \<Rightarrow> x)"

definition identity :: "jsobj \<Rightarrow> string \<Rightarrow> string + int \<times> string" where
  "identity source path =
     bindR (member_at integer source path ''id'') (\<lambda>i.
     bindR (member_at stringValue source path ''name'') (\<lambda>n. Inr (i, n)))"

text \<open>
  \<open>namedSection\<close>: an absent or null section is empty; the entries are parsed in the order of their
  sorted names.
\<close>

definition section_value :: "jsobj \<Rightarrow> string \<Rightarrow> jsval" where
  "section_value doc name = (case field doc name of JUndefined \<Rightarrow> JObj [] | JNull \<Rightarrow> JObj [] | v \<Rightarrow> v)"

definition namedSection ::
  "jsobj \<Rightarrow> string \<Rightarrow> (jsobj \<Rightarrow> string \<Rightarrow> string + 'a) \<Rightarrow> string + 'a list" where
  "namedSection doc name parse =
     bindR (record_value (section_value doc name) name) (\<lambda>entries.
       mapM (\<lambda>key.
         bindR (record_value (field entries key) (name @ ''.'' @ key)) (\<lambda>source.
           parse source (name @ ''.'' @ key)))
         (sort (jm_keys entries)))"

section \<open>Call semantics and services\<close>

definition callSemantics_record :: "jsobj \<Rightarrow> string \<Rightarrow> string + CallSemanticsGroup option" where
  "callSemantics_record source path =
     (if has_field source ''functionCall'' then
        bindR (member_at record_value source path ''functionCall'') (\<lambda>config.
        bindR (or_else False (member_at optionalBoolean config (path @ ''.functionCall'') ''async'')) (\<lambda>a.
          Inr (Some (FunctionCall a))))
      else if has_field source ''taskPool'' then
        bindR (member_at record_value source path ''taskPool'') (\<lambda>config.
        bindR (member_at stringValue config (path @ ''.taskPool'') ''poolName'') (\<lambda>n.
          Inr (Some (TaskPoolCall n))))
      else if has_field source ''priorityTaskPool'' then
        bindR (member_at record_value source path ''priorityTaskPool'') (\<lambda>config.
        bindR (member_at stringValue config (path @ ''.priorityTaskPool'') ''poolName'') (\<lambda>n.
        bindR (member_at integer config (path @ ''.priorityTaskPool'') ''priority'') (\<lambda>p.
          Inr (Some (PriorityTaskPoolCall n p)))))
      else if has_field source ''parallelCall'' then
        bindR (member_at record_value source path ''parallelCall'') (\<lambda>_. Inr (Some ParallelCall))
      else Inl (path @ '' must select exactly one call semantics''))"

fun callSemantics_number :: "number \<Rightarrow> string \<Rightarrow> string + CallSemanticsGroup option" where
  "callSemantics_number n path =
     (if n = Finite 0 \<or> n = Finite 1 then Inr None
      else if n = Finite 2 then Inr (Some (FunctionCall False))
      else if n = Finite 3 then Inr (Some (TaskPoolCall ''''))
      else if n = Finite 4 then Inr (Some (PriorityTaskPoolCall '''' 0))
      else if n = Finite 5 then Inr (Some ParallelCall)
      else Inl (path @ '' has an unknown call semantics value''))"

fun parse_callSemantics :: "jsval \<Rightarrow> string \<Rightarrow> string + CallSemanticsGroup option" where
  "parse_callSemantics JUndefined path = Inr None"
| "parse_callSemantics (JNum n) path = callSemantics_number n path"
| "parse_callSemantics v path = bindR (record_value v path) (\<lambda>source. callSemantics_record source path)"

definition identityKeys :: "string list" where
  "identityKeys = [''id'', ''name'']"

definition serviceKeys :: "string list" where
  "serviceKeys = identityKeys @
     [''color'', ''defaultCallSemantics'', ''defaultGrpcTimeout'', ''environment'', ''golangVersion'',
      ''grpcHost'', ''grpcPort'', ''httpHost'', ''httpPort'', ''logLevel'', ''metricsHandler'',
      ''startupHandler'', ''readinessHandler'', ''livenessHandler'', ''kubernetesWorkloadType'',
      ''modulePath'', ''shutdownTimeout'', ''statusHandler'']"

definition workload :: "string \<Rightarrow> string \<Rightarrow> string + KubernetesWorkloadType" where
  "workload w path =
     (if w = ''Deployment'' then Inr Deployment
      else if w = ''StatefulSet'' then Inr StatefulSet
      else Inl (path @ ''.kubernetesWorkloadType must be Deployment or StatefulSet''))"

definition parseService :: "jsobj \<Rightarrow> string \<Rightarrow> string + ServiceConfig" where
  "parseService source path =
     bindR (member_at stringValue source path ''kubernetesWorkloadType'') (\<lambda>w.
     bindR (workload w path) (\<lambda>kind.
     bindR (identity source path) (\<lambda>(i, n).
     bindR (member_at stringValue source path ''color'') (\<lambda>c.
     bindR (member_at parse_callSemantics source path ''defaultCallSemantics'') (\<lambda>cs.
     bindR (member_at optionalInteger source path ''defaultGrpcTimeout'') (\<lambda>gt.
     bindR (member_at stringValue source path ''environment'') (\<lambda>env.
     bindR (member_at optionalString source path ''golangVersion'') (\<lambda>gv.
     bindR (member_at stringValue source path ''grpcHost'') (\<lambda>gh.
     bindR (member_at integer source path ''grpcPort'') (\<lambda>gp.
     bindR (member_at stringValue source path ''httpHost'') (\<lambda>hh.
     bindR (member_at integer source path ''httpPort'') (\<lambda>hp.
     bindR (member_at optionalString source path ''logLevel'') (\<lambda>ll.
     bindR (member_at stringValue source path ''metricsHandler'') (\<lambda>mh.
     bindR (member_at stringValue source path ''startupHandler'') (\<lambda>sh.
     bindR (member_at stringValue source path ''readinessHandler'') (\<lambda>rh.
     bindR (member_at stringValue source path ''livenessHandler'') (\<lambda>lh.
     bindR (member_at optionalString source path ''modulePath'') (\<lambda>mp.
     bindR (member_at integer source path ''shutdownTimeout'') (\<lambda>st.
     bindR (member_at stringValue source path ''statusHandler'') (\<lambda>sth.
       Inr \<lparr>config_id = i, config_name = n, config_properties = properties serviceKeys source,
            color = c, defaultCallSemantics = cs, defaultGrpcTimeout = gt, environment = env,
            golangVersion = gv, grpcHost = gh, grpcPort = gp, httpHost = hh, httpPort = hp,
            logLevel = ll, metricsHandler = mh, startupHandler = sh, readinessHandler = rh,
            livenessHandler = lh, kubernetesWorkloadType = kind, modulePath = mp,
            shutdownTimeout = st, statusHandler = sth\<rparr>))))))))))))))))))))"

section \<open>Streams\<close>

definition transformations :: "(int \<times> TransformationType) list" where
  "transformations =
     [(1, TInput), (2, TMap), (3, TFilter), (4, TJoin), (5, TMultiJoin), (6, TProcess), (7, TFlatMap),
      (8, TFlatMapIterable), (9, TKeyBy), (10, TMerge), (11, TSplit), (12, TCase), (13, TSink),
      (14, TCycleLink), (15, TError), (16, TDelay), (17, TWhen), (18, TSubStream)]"

text \<open>A number selects by its integral value, a string by the text of one of the types.\<close>

fun transformation :: "jsval \<Rightarrow> string \<Rightarrow> string + TransformationType" where
  "transformation (JNum (Finite q)) path =
     (case map_of transformations (fst (quotient_of q)) of
        Some t \<Rightarrow> if snd (quotient_of q) = 1 then Inr t else Inl (path @ '' has an unknown transformation type'')
      | None \<Rightarrow> Inl (path @ '' has an unknown transformation type''))"
| "transformation (JStr s) path =
     (case map_of (map (\<lambda>(_, t). (transformation_text t, t)) transformations) s of
        Some t \<Rightarrow> Inr t
      | None \<Rightarrow> Inl (path @ '' has an unknown transformation type''))"
| "transformation _ path = Inl (path @ '' has an unknown transformation type'')"

definition joinType :: "jsval \<Rightarrow> string \<Rightarrow> string + JoinType" where
  "joinType v path =
     bindR (integer v path) (\<lambda>n.
       if n = 0 then Inr JoinUndefined else if n = 1 then Inr InnerJoin else if n = 2 then Inr LeftJoin
       else if n = 3 then Inr RightJoin else if n = 4 then Inr OuterJoin
       else Inl (path @ '' has an unknown join type''))"

definition joinStorage :: "jsval \<Rightarrow> string \<Rightarrow> string + JoinStorageType" where
  "joinStorage v path =
     bindR (integer v path) (\<lambda>n.
       if n = 0 then Inr StorageUndefined else if n = 1 then Inr HashMap else if n = 2 then Inr RocksDB
       else if n = 3 then Inr Aerospike
       else Inl (path @ '' has an unknown join storage type''))"

definition streamKeys :: "string list" where
  "streamKeys = identityKeys @
     [''type'', ''pipeline'', ''component'', ''idService'', ''idSource'', ''idSources'', ''xPos'', ''yPos'',
      ''functionPackage'', ''functionName'', ''publicFunction'', ''functionDescription'',
      ''functionInitializerGroup'', ''functionModule'', ''valueType'', ''keyType'', ''idEndpoint'',
      ''joinType'', ''joinStorage'', ''ttl'', ''renewTTL'', ''pattern'', ''duration'']"

definition functionFields :: "jsobj \<Rightarrow> string \<Rightarrow> string + FunctionConfig" where
  "functionFields source path =
     bindR (member_at optionalString source path ''functionPackage'') (\<lambda>pk.
     bindR (member_at optionalString source path ''functionName'') (\<lambda>nm.
     bindR (member_at optionalBoolean source path ''publicFunction'') (\<lambda>pub.
     bindR (member_at optionalString source path ''functionDescription'') (\<lambda>de.
     bindR (member_at optionalString source path ''functionInitializerGroup'') (\<lambda>gr.
     bindR (member_at optionalString source path ''functionModule'') (\<lambda>mo.
       Inr \<lparr>functionPackage = pk, functionName = nm, publicFunction = pub, functionDescription = de,
            functionInitializerGroup = gr, functionModule = mo\<rparr>))))))"

text \<open>The switch of \<open>parseStream\<close>.\<close>

fun parse_stream_body ::
  "TransformationType \<Rightarrow> FunctionConfig \<Rightarrow> jsobj \<Rightarrow> string \<Rightarrow> string + stream_body" where
  "parse_stream_body TInput f source path =
     bindR (member_at stringValue source path ''valueType'') (\<lambda>v.
     bindR (member_at integer source path ''idEndpoint'') (\<lambda>e. Inr (InputBody v e)))"
| "parse_stream_body TMap f source path = mapR (MapBody f) (member_at stringValue source path ''valueType'')"
| "parse_stream_body TFlatMap f source path = mapR (FlatMapBody f) (member_at stringValue source path ''valueType'')"
| "parse_stream_body TFilter f source path = Inr (FilterBody f)"
| "parse_stream_body TCase f source path = Inr (CaseBody f)"
| "parse_stream_body TDelay f source path = mapR (DelayBody f) (member_at integer source path ''duration'')"
| "parse_stream_body TSubStream f source path = mapR SubStreamBody (member_at stringValue source path ''valueType'')"
| "parse_stream_body TFlatMapIterable f source path =
     mapR FlatMapIterableBody (member_at stringValue source path ''valueType'')"
| "parse_stream_body TWhen f source path = mapR WhenBody (member_at stringValue source path ''valueType'')"
| "parse_stream_body TKeyBy f source path =
     bindR (member_at stringValue source path ''keyType'') (\<lambda>k.
     bindR (member_at stringValue source path ''valueType'') (\<lambda>v. Inr (KeyByBody f k v)))"
| "parse_stream_body TJoin f source path =
     bindR (member_at stringValue source path ''valueType'') (\<lambda>v.
     bindR (member_at joinType source path ''joinType'') (\<lambda>t.
     bindR (member_at joinStorage source path ''joinStorage'') (\<lambda>s.
     bindR (member_at integer source path ''ttl'') (\<lambda>ttl.
     bindR (member_at booleanValue source path ''renewTTL'') (\<lambda>r. Inr (JoinBody f v t s ttl r))))))"
| "parse_stream_body TMultiJoin f source path =
     bindR (member_at stringValue source path ''valueType'') (\<lambda>v.
     bindR (member_at joinStorage source path ''joinStorage'') (\<lambda>s.
     bindR (member_at integer source path ''ttl'') (\<lambda>ttl.
     bindR (member_at booleanValue source path ''renewTTL'') (\<lambda>r. Inr (MultiJoinBody f v s ttl r)))))"
| "parse_stream_body TProcess f source path = mapR (ProcessBody f) (member_at optionalString source path ''pattern'')"
| "parse_stream_body TSink f source path =
     bindR (member_at optionalString source path ''valueType'') (\<lambda>v.
     bindR (member_at integer source path ''idEndpoint'') (\<lambda>e. Inr (SinkBody v e)))"
| "parse_stream_body TCycleLink f source path = Inr CycleLinkBody"
| "parse_stream_body TMerge f source path = Inr MergeBody"
| "parse_stream_body TSplit f source path = Inr SplitBody"
| "parse_stream_body TError f source path =
     Inl (path @ ''.type Error is a virtual runtime stream, not a config stream'')"

definition parseStream :: "jsobj \<Rightarrow> string \<Rightarrow> string + StreamConfig" where
  "parseStream source path =
     bindR (member_at transformation source path ''type'') (\<lambda>type.
     bindR (identity source path) (\<lambda>(i, n).
     bindR (member_at stringValue source path ''pipeline'') (\<lambda>pl.
     bindR (member_at optionalString source path ''component'') (\<lambda>co.
     bindR (member_at integer source path ''idService'') (\<lambda>sv.
     bindR (or_else 0 (member_at optionalInteger source path ''idSource'')) (\<lambda>so.
     bindR (member_at integerArray source path ''idSources'') (\<lambda>sos.
     bindR (member_at numberValue source path ''xPos'') (\<lambda>x.
     bindR (member_at numberValue source path ''yPos'') (\<lambda>y.
     bindR (functionFields source path) (\<lambda>f.
     bindR (parse_stream_body type f source path) (\<lambda>b.
       Inr \<lparr>config_id = i, config_name = n, config_properties = properties streamKeys source,
            pipeline = pl, stream_component = co, idService = sv, idSource = so, idSources = sos,
            xPos = x, yPos = y, stream_body = b\<rparr>)))))))))))"

section \<open>Data connectors\<close>

definition connectorKeys :: "string list" where
  "connectorKeys = identityKeys @
     [''type'', ''implementation'', ''programmingLanguage'', ''module'', ''host'', ''port'',
      ''useDedicatedListener'', ''address'', ''connectionsCount'', ''brokers'', ''version'', ''dialTimeout'',
      ''usePartitioner'', ''async'', ''securityProtocol'', ''saslMechanism'', ''username'', ''password'',
      ''namespace'', ''identity'', ''apiKey'', ''tlsEnabled'', ''tlsServerName'', ''tlsCaFile'',
      ''tlsCertFile'', ''tlsKeyFile'', ''workerStopTimeout'']"

definition parse_http_connector :: "jsobj \<Rightarrow> string \<Rightarrow> string + connector_body" where
  "parse_http_connector source path =
     bindR (member_at optionalString source path ''module'') (\<lambda>m.
     bindR (member_at optionalString source path ''host'') (\<lambda>h.
     bindR (member_at optionalInteger source path ''port'') (\<lambda>p.
     bindR (or_else False (member_at optionalBoolean source path ''useDedicatedListener'')) (\<lambda>d.
       Inr (HttpDataConnector
         \<lparr>http_module = m, http_host = h, http_port = p, useDedicatedListener = d\<rparr>)))))"

definition parse_grpc_connector :: "jsobj \<Rightarrow> string \<Rightarrow> string + connector_body" where
  "parse_grpc_connector source path =
     bindR (member_at optionalInteger source path ''programmingLanguage'') (\<lambda>l.
     bindR (member_at optionalString source path ''module'') (\<lambda>m.
     bindR (member_at optionalString source path ''address'') (\<lambda>a.
     bindR (or_else 1 (member_at optionalInteger source path ''connectionsCount'')) (\<lambda>c.
       Inr (GrpcDataConnector
         \<lparr>grpc_programmingLanguage = l, grpc_module = m, grpc_address = a, connectionsCount = c\<rparr>)))))"

definition parse_kafka_connector :: "jsobj \<Rightarrow> string \<Rightarrow> string + connector_body" where
  "parse_kafka_connector source path =
     bindR (member_at optionalInteger source path ''programmingLanguage'') (\<lambda>l.
     bindR (or_else '''' (member_at optionalString source path ''brokers'')) (\<lambda>b.
     bindR (member_at optionalString source path ''version'') (\<lambda>v.
     bindR (or_else 0 (member_at (optional numberValue) source path ''dialTimeout'')) (\<lambda>dt.
     bindR (or_else False (member_at optionalBoolean source path ''usePartitioner'')) (\<lambda>up.
     bindR (or_else False (member_at optionalBoolean source path ''async'')) (\<lambda>as.
     bindR (or_else ''PLAINTEXT'' (member_at (optionalEnum [''PLAINTEXT'', ''SASL_PLAINTEXT'', ''SASL_SSL''])
              source path ''securityProtocol'')) (\<lambda>sp.
     bindR (or_else ''PLAIN'' (member_at (optionalEnum [''PLAIN'', ''SCRAM-SHA-256'', ''SCRAM-SHA-512''])
              source path ''saslMechanism'')) (\<lambda>sm.
     bindR (member_at optionalString source path ''username'') (\<lambda>un.
     bindR (member_at optionalString source path ''password'') (\<lambda>pw.
       Inr (KafkaDataConnector
         \<lparr>kafka_programmingLanguage = l, brokers = b, kafka_version = v, dialTimeout = dt,
          usePartitioner = up, kafka_async = as, securityProtocol = sp, saslMechanism = sm,
          kafka_username = un, kafka_password = pw\<rparr>)))))))))))"

definition parse_temporal_connector :: "jsobj \<Rightarrow> string \<Rightarrow> string + connector_body" where
  "parse_temporal_connector source path =
     bindR (or_else '''' (member_at optionalString source path ''address'')) (\<lambda>a.
     bindR (or_else ''default'' (member_at optionalString source path ''namespace'')) (\<lambda>ns.
     bindR (or_else '''' (member_at optionalString source path ''identity'')) (\<lambda>i.
     bindR (or_else '''' (member_at optionalString source path ''apiKey'')) (\<lambda>ak.
     bindR (or_else False (member_at optionalBoolean source path ''tlsEnabled'')) (\<lambda>te.
     bindR (or_else '''' (member_at optionalString source path ''tlsServerName'')) (\<lambda>tsn.
     bindR (or_else '''' (member_at optionalString source path ''tlsCaFile'')) (\<lambda>ca.
     bindR (or_else '''' (member_at optionalString source path ''tlsCertFile'')) (\<lambda>ce.
     bindR (or_else '''' (member_at optionalString source path ''tlsKeyFile'')) (\<lambda>ke.
     bindR (or_else 0 (member_at optionalInteger source path ''workerStopTimeout'')) (\<lambda>w.
       Inr (TemporalDataConnector
         \<lparr>temporal_address = a, namespace = ns, temporal_identity = i, apiKey = ak, tlsEnabled = te,
          tlsServerName = tsn, tlsCaFile = ca, tlsCertFile = ce, tlsKeyFile = ke,
          workerStopTimeout = w\<rparr>)))))))))))"

definition parse_connector_body :: "int \<Rightarrow> jsobj \<Rightarrow> string \<Rightarrow> string + connector_body" where
  "parse_connector_body type source path =
     (if type = 1 then parse_http_connector source path
      else if type = 2 then parse_grpc_connector source path
      else if type = 3 then parse_kafka_connector source path
      else if type = 4 then Inr CustomDataConnector
      else if type = 5 then Inr CronDataConnector
      else if type = 6 then parse_temporal_connector source path
      else Inl (path @ ''.type has an unknown data connector type''))"

definition parseConnector :: "jsobj \<Rightarrow> string \<Rightarrow> string + DataConnectorConfig" where
  "parseConnector source path =
     bindR (member_at integer source path ''type'') (\<lambda>type.
     bindR (identity source path) (\<lambda>(i, n).
     bindR (member_at stringValue source path ''implementation'') (\<lambda>im.
     bindR (parse_connector_body type source path) (\<lambda>b.
       Inr \<lparr>config_id = i, config_name = n, config_properties = properties connectorKeys source,
            implementation = im, connector_body = b\<rparr>))))"

section \<open>Endpoints\<close>

definition endpointKeys :: "string list" where
  "endpointKeys = identityKeys @
     [''idDataConnector'', ''enabled'', ''tracingEnabled'', ''httpMethodType'', ''path'', ''grpcMethodType'',
      ''methodName'', ''createTopic'', ''topic'', ''partitions'', ''consumerGroup'', ''replicationFactor'',
      ''schedule'', ''scheduleId'', ''timezone'', ''overlapPolicy'', ''missedRunPolicy'', ''taskQueue'',
      ''temporalExecutionType'', ''maxConcurrentActivities'', ''maxConcurrentWorkflowTasks'',
      ''workflowExecutionTimeout'', ''activityStartToCloseTimeout'', ''activityHeartbeatTimeout'',
      ''maximumAttempts'', ''functionPackage'', ''functionName'', ''publicFunction'',
      ''functionDescription'', ''functionInitializerGroup'', ''functionModule'']"

fun grpcMethod_text :: "GrpcMethodType \<Rightarrow> string" where
  "grpcMethod_text NoStreaming = ''NoStreaming''"
| "grpcMethod_text ClientStreaming = ''ClientStreaming''"
| "grpcMethod_text ServerStreaming = ''ServerStreaming''"
| "grpcMethod_text BidirectionalStreaming = ''BidirectionalStreaming''"

definition grpcMethods :: "(int \<times> GrpcMethodType) list" where
  "grpcMethods = [(1, NoStreaming), (2, ClientStreaming), (4, ServerStreaming), (5, BidirectionalStreaming)]"

fun grpcMethod :: "jsval \<Rightarrow> string \<Rightarrow> string + GrpcMethodType" where
  "grpcMethod (JNum (Finite q)) path =
     (case map_of grpcMethods (fst (quotient_of q)) of
        Some m \<Rightarrow> if snd (quotient_of q) = 1 then Inr m else Inl (path @ '' has an unknown gRPC method type'')
      | None \<Rightarrow> Inl (path @ '' has an unknown gRPC method type''))"
| "grpcMethod (JStr s) path =
     (case map_of (map (\<lambda>(_, m). (grpcMethod_text m, m)) grpcMethods) s of
        Some m \<Rightarrow> Inr m
      | None \<Rightarrow> Inl (path @ '' has an unknown gRPC method type''))"
| "grpcMethod _ path = Inl (path @ '' has an unknown gRPC method type'')"

definition overlap_policies :: "string list" where
  "overlap_policies = [''Allow'', ''Skip'']"

definition missed_run_policies :: "string list" where
  "missed_run_policies = [''FireOnce'', ''Skip'']"

definition parse_kafka_endpoint :: "jsobj \<Rightarrow> string \<Rightarrow> string + endpoint_body" where
  "parse_kafka_endpoint source path =
     bindR (or_else False (member_at optionalBoolean source path ''enabled'')) (\<lambda>e.
     bindR (or_else False (member_at optionalBoolean source path ''createTopic'')) (\<lambda>ct.
     bindR (or_else '''' (member_at optionalString source path ''topic'')) (\<lambda>t.
     bindR (or_else 0 (member_at optionalInteger source path ''partitions'')) (\<lambda>p.
     bindR (or_else '''' (member_at optionalString source path ''consumerGroup'')) (\<lambda>g.
     bindR (or_else 0 (member_at optionalInteger source path ''replicationFactor'')) (\<lambda>r.
       Inr (KafkaEndpointBody
         \<lparr>kafka_enabled = e, createTopic = ct, topic = t, partitions = p, consumerGroup = g,
          replicationFactor = r\<rparr>)))))))"

definition parse_temporal_endpoint :: "jsobj \<Rightarrow> string \<Rightarrow> string + endpoint_body" where
  "parse_temporal_endpoint source path =
     bindR (or_else False (member_at optionalBoolean source path ''enabled'')) (\<lambda>e.
     bindR (or_else '''' (member_at optionalString source path ''taskQueue'')) (\<lambda>tq.
     bindR (member_at (requiredEnum [''Activity'', ''Workflow'']) source path ''temporalExecutionType'') (\<lambda>et.
     bindR (or_else 0 (member_at optionalInteger source path ''maxConcurrentActivities'')) (\<lambda>ma.
     bindR (or_else 0 (member_at optionalInteger source path ''maxConcurrentWorkflowTasks'')) (\<lambda>mw.
     bindR (or_else '''' (member_at optionalString source path ''schedule'')) (\<lambda>sc.
     bindR (or_else '''' (member_at optionalString source path ''scheduleId'')) (\<lambda>si.
     bindR (or_else ''UTC'' (member_at optionalString source path ''timezone'')) (\<lambda>tz.
     bindR (or_else ''Skip'' (member_at (optionalEnum overlap_policies) source path ''overlapPolicy'')) (\<lambda>op.
     bindR (or_else ''Skip'' (member_at (optionalEnum missed_run_policies) source path ''missedRunPolicy'')) (\<lambda>mp.
     bindR (or_else 0 (member_at optionalInteger source path ''workflowExecutionTimeout'')) (\<lambda>we.
     bindR (or_else 0 (member_at optionalInteger source path ''activityStartToCloseTimeout'')) (\<lambda>ac.
     bindR (or_else 0 (member_at optionalInteger source path ''activityHeartbeatTimeout'')) (\<lambda>ah.
     bindR (or_else 0 (member_at optionalInteger source path ''maximumAttempts'')) (\<lambda>at'.
       Inr (TemporalEndpointBody
         \<lparr>temporal_enabled = e, taskQueue = tq, temporalExecutionType = et, maxConcurrentActivities = ma,
          maxConcurrentWorkflowTasks = mw, temporal_schedule = sc, scheduleId = si, temporal_timezone = tz,
          temporal_overlapPolicy = op, temporal_missedRunPolicy = mp, workflowExecutionTimeout = we,
          activityStartToCloseTimeout = ac, activityHeartbeatTimeout = ah,
          maximumAttempts = at'\<rparr>)))))))))))))))"

definition parse_cron_endpoint :: "jsobj \<Rightarrow> string \<Rightarrow> string + endpoint_body" where
  "parse_cron_endpoint source path =
     bindR (or_else False (member_at optionalBoolean source path ''enabled'')) (\<lambda>e.
     bindR (member_at stringValue source path ''schedule'') (\<lambda>sc.
     bindR (or_else ''UTC'' (member_at optionalString source path ''timezone'')) (\<lambda>tz.
     bindR (or_else ''Skip'' (member_at (optionalEnum overlap_policies) source path ''overlapPolicy'')) (\<lambda>op.
     bindR (or_else ''Skip'' (member_at (optionalEnum missed_run_policies) source path ''missedRunPolicy'')) (\<lambda>mp.
       Inr (CronEndpointBody
         \<lparr>cron_enabled = e, schedule = sc, timezone = tz, overlapPolicy = op, missedRunPolicy = mp\<rparr>))))))"

definition defined :: "jsobj \<Rightarrow> string \<Rightarrow> bool" where
  "defined source key \<longleftrightarrow> field source key \<noteq> JUndefined"

definition parse_endpoint_body :: "jsobj \<Rightarrow> string \<Rightarrow> string + endpoint_body" where
  "parse_endpoint_body source path =
     (if defined source ''httpMethodType'' then
        bindR (member_at stringValue source path ''httpMethodType'') (\<lambda>m.
        bindR (member_at stringValue source path ''path'') (\<lambda>p. Inr (HttpEndpointBody m p)))
      else if defined source ''grpcMethodType'' then
        bindR (member_at grpcMethod source path ''grpcMethodType'') (\<lambda>m.
        bindR (member_at stringValue source path ''methodName'') (\<lambda>n. Inr (GrpcEndpointBody m n)))
      else if defined source ''topic'' \<or> defined source ''createTopic'' \<or> defined source ''consumerGroup'' then
        parse_kafka_endpoint source path
      else if defined source ''taskQueue'' \<or> defined source ''scheduleId'' then
        parse_temporal_endpoint source path
      else if defined source ''schedule'' then parse_cron_endpoint source path
      else mapR CustomEndpointBody (or_else False (member_at optionalBoolean source path ''enabled'')))"

definition parseEndpoint :: "jsobj \<Rightarrow> string \<Rightarrow> string + EndpointConfig" where
  "parseEndpoint source path =
     bindR (identity source path) (\<lambda>(i, n).
     bindR (member_at integer source path ''idDataConnector'') (\<lambda>dc.
     bindR (or_else False (member_at optionalBoolean source path ''tracingEnabled'')) (\<lambda>tr.
     bindR (functionFields source path) (\<lambda>f.
     bindR (parse_endpoint_body source path) (\<lambda>b.
       Inr \<lparr>config_id = i, config_name = n, config_properties = properties endpointKeys source,
            idDataConnector = dc, tracingEnabled = tr, endpoint_functions = f, endpoint_body = b\<rparr>)))))"

section \<open>Links, pools, modules, types\<close>

definition linkKeys :: "string list" where
  "linkKeys = [''from'', ''to'', ''callSemantics'', ''poolName'', ''priority'', ''async'']"

text \<open>The overrides a link makes on its call semantics by members of its own.\<close>

fun link_semantics :: "CallSemanticsGroup option \<Rightarrow> jsobj \<Rightarrow> string \<Rightarrow> string + CallSemanticsGroup option" where
  "link_semantics (Some (FunctionCall a)) source path =
     (if defined source ''async'' then mapR (\<lambda>b. Some (FunctionCall b)) (member_at booleanValue source path ''async'')
      else Inr (Some (FunctionCall a)))"
| "link_semantics (Some (TaskPoolCall n)) source path =
     (if defined source ''poolName''
      then mapR (\<lambda>n'. Some (TaskPoolCall n')) (member_at stringValue source path ''poolName'')
      else Inr (Some (TaskPoolCall n)))"
| "link_semantics (Some (PriorityTaskPoolCall n p)) source path =
     bindR (member_at stringValue source path ''poolName'') (\<lambda>n'.
     bindR (member_at integer source path ''priority'') (\<lambda>p'. Inr (Some (PriorityTaskPoolCall n' p'))))"
| "link_semantics semantics source path = Inr semantics"

definition parseLink :: "jsobj \<Rightarrow> string \<Rightarrow> string + LinkConfig" where
  "parseLink source path =
     bindR (member_at parse_callSemantics source path ''callSemantics'') (\<lambda>semantics.
     bindR (link_semantics semantics source path) (\<lambda>effective.
     bindR (member_at integer source path ''from'') (\<lambda>f.
     bindR (member_at integer source path ''to'') (\<lambda>t.
       Inr \<lparr>link_from = f, link_to = t, callSemantics = effective,
            link_properties = properties linkKeys source\<rparr>))))"

definition poolKeys :: "string list" where
  "poolKeys = [''name'', ''executorsCount'', ''queueCapacity'']"

definition parsePool :: "jsobj \<Rightarrow> string \<Rightarrow> string + PoolConfig" where
  "parsePool source path =
     bindR (member_at stringValue source path ''name'') (\<lambda>n.
     bindR (member_at integer source path ''executorsCount'') (\<lambda>e.
     bindR (or_else 0 (member_at optionalInteger source path ''queueCapacity'')) (\<lambda>q.
       Inr \<lparr>poolConfig_name = n, pool_executorsCount = e, queueCapacity = q,
            pool_properties = properties poolKeys source\<rparr>)))"

definition moduleKeys :: "string list" where
  "moduleKeys = [''name'', ''path'']"

definition parseModule :: "jsobj \<Rightarrow> string \<Rightarrow> string + ModuleConfig" where
  "parseModule source path =
     bindR (member_at stringValue source path ''name'') (\<lambda>n.
     bindR (or_else '''' (member_at optionalString source path ''path'')) (\<lambda>p.
       Inr \<lparr>moduleConfig_name = n, moduleConfig_path = p, module_properties = properties moduleKeys source\<rparr>))"

definition typeKeys :: "string list" where
  "typeKeys =
     [''name'', ''type'', ''typeDefinition'', ''typeImport'', ''valueType'', ''keyType'', ''package'', ''module'',
      ''definitionFormat'', ''publicType'', ''transferByValue'', ''useAlias'']"

definition parseType :: "jsobj \<Rightarrow> string \<Rightarrow> string + TypeConfig" where
  "parseType source path =
     bindR (member_at stringValue source path ''name'') (\<lambda>n.
     bindR (member_at stringValue source path ''type'') (\<lambda>t.
     bindR (member_at optionalString source path ''typeDefinition'') (\<lambda>td.
     bindR (member_at optionalString source path ''typeImport'') (\<lambda>ti.
     bindR (member_at optionalString source path ''valueType'') (\<lambda>vt.
     bindR (member_at optionalString source path ''keyType'') (\<lambda>kt.
     bindR (member_at optionalString source path ''package'') (\<lambda>pk.
     bindR (member_at optionalString source path ''module'') (\<lambda>mo.
     bindR (member_at optionalInteger source path ''definitionFormat'') (\<lambda>df.
     bindR (or_else False (member_at optionalBoolean source path ''publicType'')) (\<lambda>pt.
     bindR (or_else False (member_at optionalBoolean source path ''transferByValue'')) (\<lambda>tv.
     bindR (or_else False (member_at optionalBoolean source path ''useAlias'')) (\<lambda>ua.
       Inr \<lparr>type_name = n, type_type = t, typeDefinition = td, typeImport = ti, type_valueType = vt,
            type_keyType = kt, type_package = pk, type_module = mo, definitionFormat = df,
            publicType = pt, transferByValue = tv, useAlias = ua,
            type_properties = properties typeKeys source\<rparr>))))))))))))"

section \<open>The document\<close>

definition rootKeys :: "string list" where
  "rootKeys =
     [''settings'', ''services'', ''streams'', ''dataConnectors'', ''endpoints'', ''pools'', ''links'',
      ''modules'', ''types'']"

definition parseCanonicalConfig :: "jsval \<Rightarrow> string + CanonicalConfig" where
  "parseCanonicalConfig v =
     bindR (record_value v ''config'') (\<lambda>doc.
     bindR (namedSection doc ''services'' parseService) (\<lambda>se.
     bindR (namedSection doc ''streams'' parseStream) (\<lambda>st.
     bindR (namedSection doc ''dataConnectors'' parseConnector) (\<lambda>dc.
     bindR (namedSection doc ''endpoints'' parseEndpoint) (\<lambda>ep.
     bindR (namedSection doc ''pools'' parsePool) (\<lambda>po.
     bindR (namedSection doc ''links'' parseLink) (\<lambda>li.
     bindR (namedSection doc ''modules'' parseModule) (\<lambda>mo.
     bindR (namedSection doc ''types'' parseType) (\<lambda>ty.
       Inr \<lparr>services = se, streams = st, dataConnectors = dc, endpoints = ep, pools = po, links = li,
            modules = mo, types = ty, root_properties = properties rootKeys doc\<rparr>)))))))))"

end
