(* ===== verification/ConfigDocument.thy ===== *)
theory ConfigDocument
  imports ConfigParser
begin

text \<open>
  The document of a configuration: every configuration of the runtime's types, written out as a
  document, is parsed back to itself. The documents have no member for an absent optional, as
  the generated YAML has none.
\<close>

section \<open>Writing members\<close>

definition jint :: "int \<Rightarrow> jsval" where
  "jint n = JNum (Finite (of_int n))"

definition jopt :: "('a \<Rightarrow> jsval) \<Rightarrow> 'a option \<Rightarrow> jsval" where
  "jopt enc r = (case r of None \<Rightarrow> JUndefined | Some x \<Rightarrow> enc x)"

text \<open>A document: the members that are present, then the custom properties.\<close>

definition document :: "jsobj \<Rightarrow> jsobj \<Rightarrow> jsobj" where
  "document members props = filter (\<lambda>(_, v). v \<noteq> JUndefined) members @ props"

definition props_ok :: "string list \<Rightarrow> jsobj \<Rightarrow> bool" where
  "props_ok known props \<longleftrightarrow> (\<forall>key \<in> set (map fst props). key \<notin> set known)"

lemma field_Nil [simp]: "field [] k = JUndefined"
  by (simp add: field_def)

lemma field_Cons [simp]: "field ((k', v) # m) k = (if k' = k then v else field m k)"
  by (simp add: field_def)

lemma field_absent: "k \<notin> set (map fst m) \<Longrightarrow> field m k = JUndefined"
  using jm_get_None_iff [of m k] by (simp add: field_def)

lemma field_append_right:
  assumes "distinct (map fst (common @ body))" and "k \<in> set (map fst body)"
  shows "field (common @ body) k = field body k"
proof -
  have "k \<notin> set (map fst common)" using assms unfolding map_append distinct_append by blast
  then have "map_of common k = None" by (simp add: map_of_eq_None_iff)
  then show ?thesis by (simp add: field_def jm_get_def map_add_def split: option.split)
qed

lemma field_append_left:
  assumes "k \<in> set (map fst common)"
  shows "field (common @ body) k = field common k"
proof -
  obtain v where "map_of common k = Some v" using assms by (metis map_of_eq_None_iff not_Some_eq image_set)
  then show ?thesis by (simp add: field_def jm_get_def map_add_def)
qed

lemma field_document:
  assumes "distinct (map fst members)" and "k \<notin> set (map fst props)"
  shows "field (document members props) k = field members k"
  using assms
proof (induction members)
  case Nil
  then show ?case by (simp add: document_def field_absent)
next
  case (Cons e members)
  obtain k' v where e: "e = (k', v)" by (cases e)
  have IH: "field (document members props) k = field members k" using Cons by simp
  show ?case
  proof (cases "v = JUndefined")
    case True
    have "field members k = JUndefined" if "k' = k"
      using Cons.prems e that by (intro field_absent) auto
    with True IH e show ?thesis by (auto simp: document_def)
  next
    case False
    with IH e show ?thesis by (auto simp: document_def)
  qed
qed

lemma field_known:
  assumes "distinct (map fst members)" and "props_ok known props" and "k \<in> set known"
  shows "field (document members props) k = field members k"
  using assms by (intro field_document) (auto simp: props_ok_def)

lemma properties_document:
  assumes "set (map fst members) \<subseteq> set known" and "props_ok known props"
  shows "properties known (document members props) = props"
proof -
  have "filter (\<lambda>(k, _). k \<notin> set known) (filter (\<lambda>(_, v). v \<noteq> JUndefined) members) = []"
    using assms(1) by (auto simp: filter_empty_conv)
  moreover have "filter (\<lambda>(k, _). k \<notin> set known) props = props"
    using assms(2) by (auto simp: filter_id_conv props_ok_def)
  ultimately show ?thesis by (simp add: properties_def document_def)
qed

section \<open>Reading them back\<close>

named_theorems read_simps \<open>what a parser of a member makes of a written member\<close>

lemma integer_jint [read_simps]: "safe_int n \<Longrightarrow> integer (jint n) path = Inr n"
  by (simp add: integer_def jint_def)

lemma number_read [read_simps]: "numberValue (JNum (Finite q)) path = Inr q"
  by simp

lemma string_read [read_simps]: "stringValue (JStr s) path = Inr s"
  by simp

lemma boolean_read [read_simps]: "booleanValue (JBool b) path = Inr b"
  by simp

lemma optional_jopt:
  "(\<And>x. r = Some x \<Longrightarrow> enc x \<noteq> JUndefined \<and> parse (enc x) path = Inr x) \<Longrightarrow>
    optional parse (jopt enc r) path = Inr r"
  by (cases r) (auto simp: jopt_def, cases "enc (the r)", auto)

lemma optionalString_jopt [read_simps]: "optionalString (jopt JStr r) path = Inr r"
  unfolding optionalString_def by (rule optional_jopt) simp

lemma optionalBoolean_jopt [read_simps]: "optionalBoolean (jopt JBool r) path = Inr r"
  unfolding optionalBoolean_def by (rule optional_jopt) simp

lemma optionalInteger_jopt [read_simps]:
  "pred_option safe_int r \<Longrightarrow> optionalInteger (jopt jint r) path = Inr r"
  unfolding optionalInteger_def by (rule optional_jopt) (simp add: integer_jint, simp add: jint_def)

lemma optional_undefined [read_simps]:
  "optionalString JUndefined path = Inr None" "optionalBoolean JUndefined path = Inr None"
  "optionalInteger JUndefined path = Inr None" "parse_callSemantics JUndefined path = Inr None"
  by (simp_all add: optionalString_def optionalBoolean_def optionalInteger_def)

lemma optional_present [read_simps]:
  "optionalString (JStr s) path = Inr (Some s)" "optionalBoolean (JBool b) path = Inr (Some b)"
  "safe_int n \<Longrightarrow> optionalInteger (jint n) path = Inr (Some n)"
  "optional numberValue (JNum (Finite q)) path = Inr (Some q)"
  by (simp_all add: optionalString_def optionalBoolean_def optionalInteger_def jint_def integer_def)

lemma or_else_read [read_simps]: "or_else d (Inr (Some x)) = Inr x" "or_else d (Inr None) = Inr d"
  by (simp_all add: or_else_def)

lemma enum_read [read_simps]:
  "s \<in> set allowed \<Longrightarrow> optionalEnum allowed (JStr s) path = Inr (Some s)"
  "s \<in> set allowed \<Longrightarrow> requiredEnum allowed (JStr s) path = Inr s"
  by (simp_all add: optionalEnum_def requiredEnum_def optionalString_def)

lemma integers_read: "\<forall>n \<in> set ns. safe_int n \<Longrightarrow> integers_from i (map jint ns) path = Inr ns"
  by (induction ns arbitrary: i) (auto simp: integer_jint)

lemma integerArray_read [read_simps]:
  "\<forall>n \<in> set ns. safe_int n \<Longrightarrow> integerArray (JArr (map jint ns)) path = Inr ns"
  by (simp add: integers_read)

lemma transformation_read [read_simps]: "transformation (JStr (transformation_text t)) path = Inr t"
  by (cases t) (simp_all add: transformations_def)

lemma grpcMethod_read [read_simps]: "grpcMethod (JStr (grpcMethod_text m)) path = Inr m"
  by (cases m) (simp_all add: grpcMethods_def)

declare grpcMethod.simps [simp del] transformation.simps [simp del] integerArray.simps [simp del]
  parse_callSemantics.simps [simp del]

section \<open>Call semantics and links\<close>

fun semantics_value :: "CallSemanticsGroup \<Rightarrow> jsval" where
  "semantics_value (FunctionCall a) = JObj [(''functionCall'', JObj [(''async'', JBool a)])]"
| "semantics_value (TaskPoolCall n) = JObj [(''taskPool'', JObj [(''poolName'', JStr n)])]"
| "semantics_value (PriorityTaskPoolCall n p) =
     JObj [(''priorityTaskPool'', JObj [(''poolName'', JStr n), (''priority'', jint p)])]"
| "semantics_value ParallelCall = JObj [(''parallelCall'', JObj [])]"

fun semantics_ok :: "CallSemanticsGroup option \<Rightarrow> bool" where
  "semantics_ok (Some (PriorityTaskPoolCall n p)) = safe_int p"
| "semantics_ok _ = True"

lemma semantics_read [read_simps]:
  assumes "semantics_ok r"
  shows "parse_callSemantics (jopt semantics_value r) path = Inr r"
proof (cases r)
  case (Some g)
  with assms show ?thesis
    by (cases g) (simp_all add: jopt_def parse_callSemantics.simps callSemantics_record_def member_at_def
        has_field_def jm_has_def read_simps)
qed (simp add: jopt_def read_simps)

text \<open>The members of its own a link needs for the semantics it selects.\<close>

fun link_extras :: "CallSemanticsGroup option \<Rightarrow> jsobj" where
  "link_extras (Some (PriorityTaskPoolCall n p)) = [(''poolName'', JStr n), (''priority'', jint p)]"
| "link_extras _ = []"

definition link_document :: "LinkConfig \<Rightarrow> jsobj" where
  "link_document l = document
     ([(''from'', jint (link_from l)), (''to'', jint (link_to l)),
       (''callSemantics'', jopt semantics_value (callSemantics l))] @ link_extras (callSemantics l))
     (link_properties l)"

definition link_ok :: "LinkConfig \<Rightarrow> bool" where
  "link_ok l \<longleftrightarrow> safe_int (link_from l) \<and> safe_int (link_to l) \<and> semantics_ok (callSemantics l) \<and>
     props_ok linkKeys (link_properties l)"

lemma link_roundtrip:
  assumes "link_ok l"
  shows "parseLink (link_document l) path = Inr l"
proof -
  let ?m = "[(''from'', jint (link_from l)), (''to'', jint (link_to l)),
       (''callSemantics'', jopt semantics_value (callSemantics l))] @ link_extras (callSemantics l)"
  have d: "distinct (map fst ?m)" "set (map fst ?m) \<subseteq> set linkKeys"
    by (cases "callSemantics l" rule: link_extras.cases; simp add: linkKeys_def)+
  have f: "field (link_document l) k = field ?m k" if "k \<in> set linkKeys" for k
    using field_known [OF d(1) _ that] assms by (simp add: link_document_def link_ok_def)
  have p: "properties linkKeys (link_document l) = link_properties l"
    using properties_document [OF d(2)] assms by (simp add: link_document_def link_ok_def)
  have "link_semantics (callSemantics l) (link_document l) path = Inr (callSemantics l)"
    using assms by (cases "callSemantics l" rule: link_extras.cases)
      (simp_all add: member_at_def defined_def f linkKeys_def read_simps link_ok_def)
  then show ?thesis
    using assms p by (simp add: parseLink_def member_at_def f linkKeys_def read_simps link_ok_def)
qed

section \<open>Pools, modules and types\<close>

definition pool_document :: "PoolConfig \<Rightarrow> jsobj" where
  "pool_document p = document
     [(''name'', JStr (poolConfig_name p)), (''executorsCount'', jint (pool_executorsCount p)),
      (''queueCapacity'', jint (queueCapacity p))] (pool_properties p)"

definition pool_ok :: "PoolConfig \<Rightarrow> bool" where
  "pool_ok p \<longleftrightarrow> safe_int (pool_executorsCount p) \<and> safe_int (queueCapacity p) \<and>
     props_ok poolKeys (pool_properties p)"

lemma pool_roundtrip:
  assumes "pool_ok p"
  shows "parsePool (pool_document p) path = Inr p"
proof -
  let ?m = "[(''name'', JStr (poolConfig_name p)), (''executorsCount'', jint (pool_executorsCount p)),
      (''queueCapacity'', jint (queueCapacity p))]"
  have d: "distinct (map fst ?m)" "set (map fst ?m) \<subseteq> set poolKeys"
    by (simp_all add: poolKeys_def)
  have f: "field (pool_document p) k = field ?m k" if "k \<in> set poolKeys" for k
    using field_known [OF d(1) _ that] assms by (simp add: pool_document_def pool_ok_def)
  show ?thesis
    using assms properties_document [OF d(2)]
    by (simp add: parsePool_def member_at_def f poolKeys_def read_simps pool_ok_def)
      (simp add: pool_document_def poolKeys_def)
qed

definition module_document :: "ModuleConfig \<Rightarrow> jsobj" where
  "module_document m = document
     [(''name'', JStr (moduleConfig_name m)), (''path'', JStr (moduleConfig_path m))] (module_properties m)"

definition module_ok :: "ModuleConfig \<Rightarrow> bool" where
  "module_ok m \<longleftrightarrow> props_ok moduleKeys (module_properties m)"

lemma module_roundtrip:
  assumes "module_ok m"
  shows "parseModule (module_document m) path = Inr m"
proof -
  let ?m = "[(''name'', JStr (moduleConfig_name m)), (''path'', JStr (moduleConfig_path m))]"
  have d: "distinct (map fst ?m)" "set (map fst ?m) \<subseteq> set moduleKeys"
    by (simp_all add: moduleKeys_def)
  have f: "field (module_document m) k = field ?m k" if "k \<in> set moduleKeys" for k
    using field_known [OF d(1) _ that] assms by (simp add: module_document_def module_ok_def)
  show ?thesis
    using assms properties_document [OF d(2)]
    by (simp add: parseModule_def member_at_def f moduleKeys_def read_simps module_ok_def)
      (simp add: module_document_def moduleKeys_def)
qed

definition type_document :: "TypeConfig \<Rightarrow> jsobj" where
  "type_document t = document
     [(''name'', JStr (type_name t)), (''type'', JStr (type_type t)),
      (''typeDefinition'', jopt JStr (typeDefinition t)), (''typeImport'', jopt JStr (typeImport t)),
      (''valueType'', jopt JStr (type_valueType t)), (''keyType'', jopt JStr (type_keyType t)),
      (''package'', jopt JStr (type_package t)), (''module'', jopt JStr (type_module t)),
      (''definitionFormat'', jopt jint (definitionFormat t)), (''publicType'', JBool (publicType t)),
      (''transferByValue'', JBool (transferByValue t)), (''useAlias'', JBool (useAlias t))] (type_properties t)"

definition type_ok :: "TypeConfig \<Rightarrow> bool" where
  "type_ok t \<longleftrightarrow> pred_option safe_int (definitionFormat t) \<and> props_ok typeKeys (type_properties t)"

lemma type_roundtrip:
  assumes "type_ok t"
  shows "parseType (type_document t) path = Inr t"
proof -
  let ?m = "[(''name'', JStr (type_name t)), (''type'', JStr (type_type t)),
      (''typeDefinition'', jopt JStr (typeDefinition t)), (''typeImport'', jopt JStr (typeImport t)),
      (''valueType'', jopt JStr (type_valueType t)), (''keyType'', jopt JStr (type_keyType t)),
      (''package'', jopt JStr (type_package t)), (''module'', jopt JStr (type_module t)),
      (''definitionFormat'', jopt jint (definitionFormat t)), (''publicType'', JBool (publicType t)),
      (''transferByValue'', JBool (transferByValue t)), (''useAlias'', JBool (useAlias t))]"
  have d: "distinct (map fst ?m)" "set (map fst ?m) \<subseteq> set typeKeys"
    by (simp_all add: typeKeys_def)
  have f: "field (type_document t) k = field ?m k" if "k \<in> set typeKeys" for k
    using field_known [OF d(1) _ that] assms by (simp add: type_document_def type_ok_def)
  show ?thesis
    using assms properties_document [OF d(2)]
    by (simp add: parseType_def member_at_def f typeKeys_def read_simps type_ok_def)
      (simp add: type_document_def typeKeys_def)
qed

section \<open>Services\<close>

fun workload_text :: "KubernetesWorkloadType \<Rightarrow> string" where
  "workload_text Deployment = ''Deployment''"
| "workload_text StatefulSet = ''StatefulSet''"

lemma workload_read [read_simps]: "workload (workload_text k) path = Inr k"
  by (cases k) (simp_all add: workload_def)

definition service_members :: "ServiceConfig \<Rightarrow> jsobj" where
  "service_members s =
     [(''id'', jint (config_id s)), (''name'', JStr (config_name s)), (''color'', JStr (color s)),
      (''defaultCallSemantics'', jopt semantics_value (defaultCallSemantics s)),
      (''defaultGrpcTimeout'', jopt jint (defaultGrpcTimeout s)), (''environment'', JStr (environment s)),
      (''golangVersion'', jopt JStr (golangVersion s)), (''grpcHost'', JStr (grpcHost s)),
      (''grpcPort'', jint (grpcPort s)), (''httpHost'', JStr (httpHost s)), (''httpPort'', jint (httpPort s)),
      (''logLevel'', jopt JStr (logLevel s)), (''metricsHandler'', JStr (metricsHandler s)),
      (''startupHandler'', JStr (startupHandler s)), (''readinessHandler'', JStr (readinessHandler s)),
      (''livenessHandler'', JStr (livenessHandler s)),
      (''kubernetesWorkloadType'', JStr (workload_text (kubernetesWorkloadType s))),
      (''modulePath'', jopt JStr (modulePath s)), (''shutdownTimeout'', jint (shutdownTimeout s)),
      (''statusHandler'', JStr (statusHandler s))]"

definition service_document :: "ServiceConfig \<Rightarrow> jsobj" where
  "service_document s = document (service_members s) (config_properties s)"

definition service_ok :: "ServiceConfig \<Rightarrow> bool" where
  "service_ok s \<longleftrightarrow> safe_int (config_id s) \<and> safe_int (grpcPort s) \<and> safe_int (httpPort s) \<and>
     safe_int (shutdownTimeout s) \<and> pred_option safe_int (defaultGrpcTimeout s) \<and>
     semantics_ok (defaultCallSemantics s) \<and> props_ok serviceKeys (config_properties s)"

lemma service_roundtrip:
  assumes "service_ok s"
  shows "parseService (service_document s) path = Inr s"
proof -
  have d: "distinct (map fst (service_members s))" "set (map fst (service_members s)) \<subseteq> set serviceKeys"
    by (simp_all add: service_members_def serviceKeys_def identityKeys_def)
  have f: "field (service_document s) k = field (service_members s) k" if "k \<in> set serviceKeys" for k
    using field_known [OF d(1) _ that] assms by (simp add: service_document_def service_ok_def)
  have p: "properties serviceKeys (service_document s) = config_properties s"
    using properties_document [OF d(2)] assms by (simp add: service_document_def service_ok_def)
  have k: "k \<in> set serviceKeys" if "k \<in> set (map fst (service_members s))" for k
    using that d(2) by blast
  note at = f [OF k, unfolded service_members_def]
  show ?thesis
    using assms p
    by (simp add: parseService_def identity_def member_at_def at read_simps service_ok_def)
qed

section \<open>Data connectors\<close>

fun connector_members :: "connector_body \<Rightarrow> jsobj" where
  "connector_members (HttpDataConnector c) =
     [(''module'', jopt JStr (http_module c)), (''host'', jopt JStr (http_host c)),
      (''port'', jopt jint (http_port c)), (''useDedicatedListener'', JBool (useDedicatedListener c))]"
| "connector_members (GrpcDataConnector c) =
     [(''programmingLanguage'', jopt jint (grpc_programmingLanguage c)), (''module'', jopt JStr (grpc_module c)),
      (''address'', jopt JStr (grpc_address c)), (''connectionsCount'', jint (connectionsCount c))]"
| "connector_members (KafkaDataConnector c) =
     [(''programmingLanguage'', jopt jint (kafka_programmingLanguage c)), (''brokers'', JStr (brokers c)),
      (''version'', jopt JStr (kafka_version c)), (''dialTimeout'', JNum (Finite (dialTimeout c))),
      (''usePartitioner'', JBool (usePartitioner c)), (''async'', JBool (kafka_async c)),
      (''securityProtocol'', JStr (securityProtocol c)), (''saslMechanism'', JStr (saslMechanism c)),
      (''username'', jopt JStr (kafka_username c)), (''password'', jopt JStr (kafka_password c))]"
| "connector_members CustomDataConnector = []"
| "connector_members CronDataConnector = []"
| "connector_members (TemporalDataConnector c) =
     [(''address'', JStr (temporal_address c)), (''namespace'', JStr (namespace c)),
      (''identity'', JStr (temporal_identity c)), (''apiKey'', JStr (apiKey c)),
      (''tlsEnabled'', JBool (tlsEnabled c)), (''tlsServerName'', JStr (tlsServerName c)),
      (''tlsCaFile'', JStr (tlsCaFile c)), (''tlsCertFile'', JStr (tlsCertFile c)),
      (''tlsKeyFile'', JStr (tlsKeyFile c)), (''workerStopTimeout'', jint (workerStopTimeout c))]"

fun connector_body_ok :: "connector_body \<Rightarrow> bool" where
  "connector_body_ok (HttpDataConnector c) \<longleftrightarrow> pred_option safe_int (http_port c)"
| "connector_body_ok (GrpcDataConnector c) \<longleftrightarrow>
     safe_int (connectionsCount c) \<and> pred_option safe_int (grpc_programmingLanguage c)"
| "connector_body_ok (KafkaDataConnector c) \<longleftrightarrow>
     pred_option safe_int (kafka_programmingLanguage c) \<and>
     securityProtocol c \<in> {''PLAINTEXT'', ''SASL_PLAINTEXT'', ''SASL_SSL''} \<and>
     saslMechanism c \<in> {''PLAIN'', ''SCRAM-SHA-256'', ''SCRAM-SHA-512''}"
| "connector_body_ok (TemporalDataConnector c) \<longleftrightarrow> safe_int (workerStopTimeout c)"
| "connector_body_ok _ \<longleftrightarrow> True"

definition all_connector_members :: "DataConnectorConfig \<Rightarrow> jsobj" where
  "all_connector_members c =
     [(''id'', jint (config_id c)), (''name'', JStr (config_name c)),
      (''type'', jint (connector_type (connector_body c))), (''implementation'', JStr (implementation c))] @
     connector_members (connector_body c)"

definition connector_document :: "DataConnectorConfig \<Rightarrow> jsobj" where
  "connector_document c = document (all_connector_members c) (config_properties c)"

definition connector_ok :: "DataConnectorConfig \<Rightarrow> bool" where
  "connector_ok c \<longleftrightarrow> safe_int (config_id c) \<and> connector_body_ok (connector_body c) \<and>
     props_ok connectorKeys (config_properties c)"

lemma connector_body_roundtrip:
  assumes "connector_body_ok b"
    and f: "\<And>k. k \<in> set (map fst (connector_members b)) \<Longrightarrow> field source k = field (connector_members b) k"
  shows "parse_connector_body (connector_type b) source path = Inr b"
proof (cases b)
  case (HttpDataConnector c)
  with assms show ?thesis
    by (simp add: parse_connector_body_def parse_http_connector_def member_at_def read_simps)
next
  case (GrpcDataConnector c)
  with assms show ?thesis
    by (simp add: parse_connector_body_def parse_grpc_connector_def member_at_def read_simps)
next
  case (KafkaDataConnector c)
  with assms show ?thesis
    by (simp add: parse_connector_body_def parse_kafka_connector_def member_at_def read_simps)
next
  case (TemporalDataConnector c)
  with assms show ?thesis
    by (simp add: parse_connector_body_def parse_temporal_connector_def member_at_def read_simps)
qed (simp_all add: parse_connector_body_def)

lemma connector_roundtrip:
  assumes "connector_ok c"
  shows "parseConnector (connector_document c) path = Inr c"
proof -
  have d: "distinct (map fst (all_connector_members c))"
    "set (map fst (all_connector_members c)) \<subseteq> set connectorKeys"
    by (cases "connector_body c"; simp add: all_connector_members_def connectorKeys_def identityKeys_def)+
  have f: "field (connector_document c) k = field (all_connector_members c) k" if "k \<in> set connectorKeys" for k
    using field_known [OF d(1) _ that] assms by (simp add: connector_document_def connector_ok_def)
  have p: "properties connectorKeys (connector_document c) = config_properties c"
    using properties_document [OF d(2)] assms by (simp add: connector_document_def connector_ok_def)
  have k: "k \<in> set connectorKeys" if "k \<in> set (map fst (all_connector_members c))" for k
    using that d(2) by blast
  note at = f [OF k, unfolded all_connector_members_def]
  have type: "safe_int (connector_type b)" for b
    by (cases b) (simp_all add: safe_int_def max_safe_integer_def)
  have "parse_connector_body (connector_type (connector_body c)) (connector_document c) path = Inr (connector_body c)"
  proof (rule connector_body_roundtrip)
    fix k assume in_body: "k \<in> set (map fst (connector_members (connector_body c)))"
    then have "k \<in> set (map fst (all_connector_members c))" by (simp add: all_connector_members_def)
    then show "field (connector_document c) k = field (connector_members (connector_body c)) k"
      using f [OF k] field_append_right [OF d(1) [unfolded all_connector_members_def] in_body]
      by (simp add: all_connector_members_def)
  qed (use assms in \<open>simp add: connector_ok_def\<close>)
  then show ?thesis
    using assms p type by (simp add: parseConnector_def identity_def member_at_def at read_simps connector_ok_def)
qed

section \<open>Function fields\<close>

definition function_members :: "FunctionConfig \<Rightarrow> jsobj" where
  "function_members f =
     [(''functionPackage'', jopt JStr (functionPackage f)), (''functionName'', jopt JStr (functionName f)),
      (''publicFunction'', jopt JBool (publicFunction f)),
      (''functionDescription'', jopt JStr (functionDescription f)),
      (''functionInitializerGroup'', jopt JStr (functionInitializerGroup f)),
      (''functionModule'', jopt JStr (functionModule f))]"

definition no_function :: FunctionConfig where
  "no_function = \<lparr>functionPackage = None, functionName = None, publicFunction = None,
     functionDescription = None, functionInitializerGroup = None, functionModule = None\<rparr>"

lemma function_roundtrip:
  assumes "\<And>k. k \<in> set (map fst (function_members f)) \<Longrightarrow> field source k = field (function_members f) k"
  shows "functionFields source path = Inr f"
  using assms by (simp add: functionFields_def member_at_def function_members_def read_simps)

section \<open>Endpoints\<close>

fun endpoint_members :: "endpoint_body \<Rightarrow> jsobj" where
  "endpoint_members (HttpEndpointBody m p) = [(''httpMethodType'', JStr m), (''path'', JStr p)]"
| "endpoint_members (GrpcEndpointBody m n) =
     [(''grpcMethodType'', JStr (grpcMethod_text m)), (''methodName'', JStr n)]"
| "endpoint_members (KafkaEndpointBody e) =
     [(''enabled'', JBool (kafka_enabled e)), (''createTopic'', JBool (createTopic e)), (''topic'', JStr (topic e)),
      (''partitions'', jint (partitions e)), (''consumerGroup'', JStr (consumerGroup e)),
      (''replicationFactor'', jint (replicationFactor e))]"
| "endpoint_members (CronEndpointBody e) =
     [(''enabled'', JBool (cron_enabled e)), (''schedule'', JStr (schedule e)), (''timezone'', JStr (timezone e)),
      (''overlapPolicy'', JStr (overlapPolicy e)), (''missedRunPolicy'', JStr (missedRunPolicy e))]"
| "endpoint_members (TemporalEndpointBody e) =
     [(''enabled'', JBool (temporal_enabled e)), (''taskQueue'', JStr (taskQueue e)),
      (''temporalExecutionType'', JStr (temporalExecutionType e)),
      (''maxConcurrentActivities'', jint (maxConcurrentActivities e)),
      (''maxConcurrentWorkflowTasks'', jint (maxConcurrentWorkflowTasks e)),
      (''schedule'', JStr (temporal_schedule e)), (''scheduleId'', JStr (scheduleId e)),
      (''timezone'', JStr (temporal_timezone e)), (''overlapPolicy'', JStr (temporal_overlapPolicy e)),
      (''missedRunPolicy'', JStr (temporal_missedRunPolicy e)),
      (''workflowExecutionTimeout'', jint (workflowExecutionTimeout e)),
      (''activityStartToCloseTimeout'', jint (activityStartToCloseTimeout e)),
      (''activityHeartbeatTimeout'', jint (activityHeartbeatTimeout e)),
      (''maximumAttempts'', jint (maximumAttempts e))]"
| "endpoint_members (CustomEndpointBody e) = [(''enabled'', JBool e)]"

fun endpoint_body_ok :: "endpoint_body \<Rightarrow> bool" where
  "endpoint_body_ok (KafkaEndpointBody e) \<longleftrightarrow> safe_int (partitions e) \<and> safe_int (replicationFactor e)"
| "endpoint_body_ok (CronEndpointBody e) \<longleftrightarrow>
     overlapPolicy e \<in> set overlap_policies \<and> missedRunPolicy e \<in> set missed_run_policies"
| "endpoint_body_ok (TemporalEndpointBody e) \<longleftrightarrow>
     temporalExecutionType e \<in> {''Activity'', ''Workflow''} \<and>
     temporal_overlapPolicy e \<in> set overlap_policies \<and> temporal_missedRunPolicy e \<in> set missed_run_policies \<and>
     safe_int (maxConcurrentActivities e) \<and> safe_int (maxConcurrentWorkflowTasks e) \<and>
     safe_int (workflowExecutionTimeout e) \<and> safe_int (activityStartToCloseTimeout e) \<and>
     safe_int (activityHeartbeatTimeout e) \<and> safe_int (maximumAttempts e)"
| "endpoint_body_ok _ \<longleftrightarrow> True"

text \<open>The members that tell the kinds of endpoints apart.\<close>

definition endpoint_tags :: "string list" where
  "endpoint_tags = [''httpMethodType'', ''grpcMethodType'', ''topic'', ''createTopic'', ''consumerGroup'',
     ''taskQueue'', ''scheduleId'', ''schedule'']"

lemma endpoint_body_roundtrip:
  assumes "endpoint_body_ok b"
    and f: "\<And>k. k \<in> set (map fst (endpoint_members b)) \<Longrightarrow> field source k = field (endpoint_members b) k"
    and t: "\<And>k. k \<in> set endpoint_tags \<Longrightarrow> k \<notin> set (map fst (endpoint_members b)) \<Longrightarrow> field source k = JUndefined"
  shows "parse_endpoint_body source path = Inr b"
proof (cases b)
  case (KafkaEndpointBody e)
  with assms show ?thesis
    by (simp add: parse_endpoint_body_def parse_kafka_endpoint_def defined_def endpoint_tags_def
        member_at_def read_simps)
next
  case (CronEndpointBody e)
  with assms show ?thesis
    by (simp add: parse_endpoint_body_def parse_cron_endpoint_def defined_def endpoint_tags_def
        member_at_def read_simps)
next
  case (TemporalEndpointBody e)
  with assms show ?thesis
    by (simp add: parse_endpoint_body_def parse_temporal_endpoint_def defined_def endpoint_tags_def
        member_at_def read_simps)
qed (use assms in \<open>simp_all add: parse_endpoint_body_def defined_def endpoint_tags_def member_at_def read_simps\<close>)

definition endpoint_common :: "EndpointConfig \<Rightarrow> jsobj" where
  "endpoint_common e =
     [(''id'', jint (config_id e)), (''name'', JStr (config_name e)),
      (''idDataConnector'', jint (idDataConnector e)), (''tracingEnabled'', JBool (tracingEnabled e))] @
     function_members (endpoint_functions e)"

definition all_endpoint_members :: "EndpointConfig \<Rightarrow> jsobj" where
  "all_endpoint_members e = endpoint_common e @ endpoint_members (endpoint_body e)"

definition endpoint_document :: "EndpointConfig \<Rightarrow> jsobj" where
  "endpoint_document e = document (all_endpoint_members e) (config_properties e)"

definition endpoint_ok :: "EndpointConfig \<Rightarrow> bool" where
  "endpoint_ok e \<longleftrightarrow> safe_int (config_id e) \<and> safe_int (idDataConnector e) \<and>
     endpoint_body_ok (endpoint_body e) \<and> props_ok endpointKeys (config_properties e)"

lemma endpoint_keys:
  "distinct (map fst (all_endpoint_members e))" "set (map fst (all_endpoint_members e)) \<subseteq> set endpointKeys"
  by (cases "endpoint_body e";
      simp add: all_endpoint_members_def endpoint_common_def function_members_def endpointKeys_def identityKeys_def)+

lemma endpoint_roundtrip:
  assumes "endpoint_ok e"
  shows "parseEndpoint (endpoint_document e) path = Inr e"
proof -
  have f: "field (endpoint_document e) k = field (all_endpoint_members e) k" if "k \<in> set endpointKeys" for k
    using field_known [OF endpoint_keys(1) _ that] assms by (simp add: endpoint_document_def endpoint_ok_def)
  have p: "properties endpointKeys (endpoint_document e) = config_properties e"
    using properties_document [OF endpoint_keys(2)] assms by (simp add: endpoint_document_def endpoint_ok_def)
  have k: "k \<in> set endpointKeys" if "k \<in> set (map fst (all_endpoint_members e))" for k
    using that endpoint_keys(2) by blast
  have c: "field (endpoint_document e) k = field (endpoint_common e) k" if "k \<in> set (map fst (endpoint_common e))" for k
    using f [OF k] field_append_left [OF that] that by (simp add: all_endpoint_members_def)
  have at: "field (endpoint_document e) ''id'' = jint (config_id e)"
    "field (endpoint_document e) ''name'' = JStr (config_name e)"
    "field (endpoint_document e) ''idDataConnector'' = jint (idDataConnector e)"
    "field (endpoint_document e) ''tracingEnabled'' = JBool (tracingEnabled e)"
    by (subst c; simp add: endpoint_common_def)+
  have "parse_endpoint_body (endpoint_document e) path = Inr (endpoint_body e)"
  proof (rule endpoint_body_roundtrip)
    fix k assume in_body: "k \<in> set (map fst (endpoint_members (endpoint_body e)))"
    then have "k \<in> set (map fst (all_endpoint_members e))" by (simp add: all_endpoint_members_def)
    then show "field (endpoint_document e) k = field (endpoint_members (endpoint_body e)) k"
      using f [OF k] field_append_right [OF endpoint_keys(1) [unfolded all_endpoint_members_def] in_body]
      by (simp add: all_endpoint_members_def)
  next
    fix k assume tag: "k \<in> set endpoint_tags" "k \<notin> set (map fst (endpoint_members (endpoint_body e)))"
    have "k \<notin> set (map fst (endpoint_common e))"
      using tag(1) by (auto simp: endpoint_tags_def endpoint_common_def function_members_def)
    then have "field (all_endpoint_members e) k = JUndefined"
      using tag(2) by (intro field_absent) (simp add: all_endpoint_members_def)
    moreover have "k \<in> set endpointKeys" using tag(1) by (auto simp: endpoint_tags_def endpointKeys_def)
    ultimately show "field (endpoint_document e) k = JUndefined" using f by simp
  qed (use assms in \<open>simp add: endpoint_ok_def\<close>)
  moreover have "functionFields (endpoint_document e) path = Inr (endpoint_functions e)"
  proof (rule function_roundtrip)
    fix k assume *: "k \<in> set (map fst (function_members (endpoint_functions e)))"
    have "distinct (map fst (endpoint_common e))"
      using endpoint_keys(1) [of e] by (simp add: all_endpoint_members_def)
    then have "field (endpoint_common e) k = field (function_members (endpoint_functions e)) k"
      unfolding endpoint_common_def by (rule field_append_right [OF _ *])
    moreover have "k \<in> set (map fst (endpoint_common e))"
      using * unfolding endpoint_common_def map_append set_append by blast
    ultimately show "field (endpoint_document e) k = field (function_members (endpoint_functions e)) k"
      using c by simp
  qed
  ultimately show ?thesis
    using assms p by (simp add: parseEndpoint_def identity_def member_at_def at read_simps endpoint_ok_def)
qed

section \<open>Streams\<close>

fun body_functions :: "stream_body \<Rightarrow> FunctionConfig" where
  "body_functions (MapBody f _) = f"
| "body_functions (FilterBody f) = f"
| "body_functions (DelayBody f _) = f"
| "body_functions (FlatMapBody f _) = f"
| "body_functions (JoinBody f _ _ _ _ _) = f"
| "body_functions (MultiJoinBody f _ _ _ _) = f"
| "body_functions (KeyByBody f _ _) = f"
| "body_functions (ProcessBody f _) = f"
| "body_functions (CaseBody f) = f"
| "body_functions _ = no_function"

fun joinType_value :: "JoinType \<Rightarrow> jsval" where
  "joinType_value JoinUndefined = jint 0"
| "joinType_value InnerJoin = jint 1"
| "joinType_value LeftJoin = jint 2"
| "joinType_value RightJoin = jint 3"
| "joinType_value OuterJoin = jint 4"

fun joinStorage_value :: "JoinStorageType \<Rightarrow> jsval" where
  "joinStorage_value StorageUndefined = jint 0"
| "joinStorage_value HashMap = jint 1"
| "joinStorage_value RocksDB = jint 2"
| "joinStorage_value Aerospike = jint 3"

lemma small_safe_int: "\<bar>n\<bar> \<le> 100 \<Longrightarrow> safe_int n"
  by (simp add: safe_int_def max_safe_integer_def)

lemma join_read [read_simps]:
  "joinType (joinType_value t) path = Inr t" "joinStorage (joinStorage_value s) path = Inr s"
  by (cases t; simp add: joinType_def integer_jint small_safe_int)
    (cases s; simp add: joinStorage_def integer_jint small_safe_int)

fun body_members :: "stream_body \<Rightarrow> jsobj" where
  "body_members (MapBody _ v) = [(''valueType'', JStr v)]"
| "body_members (FlatMapBody _ v) = [(''valueType'', JStr v)]"
| "body_members (DelayBody _ d) = [(''duration'', jint d)]"
| "body_members (FlatMapIterableBody v) = [(''valueType'', JStr v)]"
| "body_members (InputBody v e) = [(''valueType'', JStr v), (''idEndpoint'', jint e)]"
| "body_members (SubStreamBody v) = [(''valueType'', JStr v)]"
| "body_members (JoinBody _ v t s ttl r) =
     [(''valueType'', JStr v), (''joinType'', joinType_value t), (''joinStorage'', joinStorage_value s),
      (''ttl'', jint ttl), (''renewTTL'', JBool r)]"
| "body_members (MultiJoinBody _ v s ttl r) =
     [(''valueType'', JStr v), (''joinStorage'', joinStorage_value s), (''ttl'', jint ttl), (''renewTTL'', JBool r)]"
| "body_members (KeyByBody _ k v) = [(''keyType'', JStr k), (''valueType'', JStr v)]"
| "body_members (ProcessBody _ p) = [(''pattern'', jopt JStr p)]"
| "body_members (SinkBody v e) = [(''valueType'', jopt JStr v), (''idEndpoint'', jint e)]"
| "body_members (WhenBody v) = [(''valueType'', JStr v)]"
| "body_members _ = []"

fun stream_body_ok :: "stream_body \<Rightarrow> bool" where
  "stream_body_ok (DelayBody _ d) = safe_int d"
| "stream_body_ok (InputBody _ e) = safe_int e"
| "stream_body_ok (JoinBody _ _ _ _ ttl _) = safe_int ttl"
| "stream_body_ok (MultiJoinBody _ _ _ ttl _) = safe_int ttl"
| "stream_body_ok (SinkBody _ e) = safe_int e"
| "stream_body_ok _ = True"

lemma stream_body_roundtrip:
  assumes "stream_body_ok b"
    and "\<And>k. k \<in> set (map fst (body_members b)) \<Longrightarrow> field source k = field (body_members b) k"
  shows "parse_stream_body (body_type b) (body_functions b) source path = Inr b"
  using assms by (cases b) (simp_all add: member_at_def read_simps)

definition stream_common :: "StreamConfig \<Rightarrow> jsobj" where
  "stream_common s =
     [(''id'', jint (config_id s)), (''name'', JStr (config_name s)),
      (''type'', JStr (transformation_text (stream_type s))), (''pipeline'', JStr (pipeline s)),
      (''component'', jopt JStr (stream_component s)), (''idService'', jint (idService s)),
      (''idSource'', jint (idSource s)), (''idSources'', JArr (map jint (idSources s))),
      (''xPos'', JNum (Finite (xPos s))), (''yPos'', JNum (Finite (yPos s)))] @
     function_members (body_functions (stream_body s))"

definition all_stream_members :: "StreamConfig \<Rightarrow> jsobj" where
  "all_stream_members s = stream_common s @ body_members (stream_body s)"

definition stream_document :: "StreamConfig \<Rightarrow> jsobj" where
  "stream_document s = document (all_stream_members s) (config_properties s)"

definition stream_ok :: "StreamConfig \<Rightarrow> bool" where
  "stream_ok s \<longleftrightarrow> safe_int (config_id s) \<and> safe_int (idService s) \<and> safe_int (idSource s) \<and>
     (\<forall>n \<in> set (idSources s). safe_int n) \<and> stream_body_ok (stream_body s) \<and>
     props_ok streamKeys (config_properties s)"

lemma stream_keys:
  "distinct (map fst (all_stream_members s))" "set (map fst (all_stream_members s)) \<subseteq> set streamKeys"
  by (cases "stream_body s";
      simp add: all_stream_members_def stream_common_def function_members_def streamKeys_def identityKeys_def)+

lemma stream_roundtrip:
  assumes "stream_ok s"
  shows "parseStream (stream_document s) path = Inr s"
proof -
  have f: "field (stream_document s) k = field (all_stream_members s) k" if "k \<in> set streamKeys" for k
    using field_known [OF stream_keys(1) _ that] assms by (simp add: stream_document_def stream_ok_def)
  have p: "properties streamKeys (stream_document s) = config_properties s"
    using properties_document [OF stream_keys(2)] assms by (simp add: stream_document_def stream_ok_def)
  have k: "k \<in> set streamKeys" if "k \<in> set (map fst (all_stream_members s))" for k
    using that stream_keys(2) by blast
  have c: "field (stream_document s) k = field (stream_common s) k" if "k \<in> set (map fst (stream_common s))" for k
    using f [OF k] field_append_left [OF that] that by (simp add: all_stream_members_def)
  have at: "field (stream_document s) ''id'' = jint (config_id s)"
    "field (stream_document s) ''name'' = JStr (config_name s)"
    "field (stream_document s) ''type'' = JStr (transformation_text (stream_type s))"
    "field (stream_document s) ''pipeline'' = JStr (pipeline s)"
    "field (stream_document s) ''component'' = jopt JStr (stream_component s)"
    "field (stream_document s) ''idService'' = jint (idService s)"
    "field (stream_document s) ''idSource'' = jint (idSource s)"
    "field (stream_document s) ''idSources'' = JArr (map jint (idSources s))"
    "field (stream_document s) ''xPos'' = JNum (Finite (xPos s))"
    "field (stream_document s) ''yPos'' = JNum (Finite (yPos s))"
    by (subst c; simp add: stream_common_def)+
  have "parse_stream_body (stream_type s) (body_functions (stream_body s)) (stream_document s) path = Inr (stream_body s)"
    unfolding stream_type_def
  proof (rule stream_body_roundtrip)
    fix k assume in_body: "k \<in> set (map fst (body_members (stream_body s)))"
    then have "k \<in> set (map fst (all_stream_members s))" by (simp add: all_stream_members_def)
    then show "field (stream_document s) k = field (body_members (stream_body s)) k"
      using f [OF k] field_append_right [OF stream_keys(1) [unfolded all_stream_members_def] in_body]
      by (simp add: all_stream_members_def)
  qed (use assms in \<open>simp add: stream_ok_def\<close>)
  moreover have "functionFields (stream_document s) path = Inr (body_functions (stream_body s))"
  proof (rule function_roundtrip)
    fix k assume *: "k \<in> set (map fst (function_members (body_functions (stream_body s))))"
    have "distinct (map fst (stream_common s))"
      using stream_keys(1) [of s] by (simp add: all_stream_members_def)
    then have "field (stream_common s) k = field (function_members (body_functions (stream_body s))) k"
      unfolding stream_common_def by (rule field_append_right [OF _ *])
    moreover have "k \<in> set (map fst (stream_common s))"
      using * unfolding stream_common_def map_append set_append by blast
    ultimately show "field (stream_document s) k = field (function_members (body_functions (stream_body s))) k"
      using c by simp
  qed
  ultimately show ?thesis
    using assms p by (simp add: parseStream_def identity_def member_at_def at read_simps stream_ok_def)
qed

section \<open>Sections and the whole document\<close>

definition section_document :: "('a \<Rightarrow> jsobj) \<Rightarrow> string list \<Rightarrow> 'a list \<Rightarrow> jsval" where
  "section_document enc names xs = JObj (zip names (map (\<lambda>x. JObj (enc x)) xs))"

definition names_ok :: "string list \<Rightarrow> 'a list \<Rightarrow> bool" where
  "names_ok names xs \<longleftrightarrow> sorted names \<and> distinct names \<and> length names = length xs"

lemma namedSection_roundtrip:
  assumes "field doc name = section_document enc names xs" and "names_ok names xs"
    and "\<And>x path. x \<in> set xs \<Longrightarrow> parse (enc x) path = Inr x"
  shows "namedSection doc name parse = Inr xs"
proof -
  let ?es = "zip names (map (\<lambda>x. JObj (enc x)) xs)"
  have n: "sorted names" "distinct names" "length names = length xs"
    using assms(2) by (simp_all add: names_ok_def)
  have keys: "sort (map fst ?es) = names"
    using n by (simp add: sorted_sort_id)
  have "field ?es (names ! i) = JObj (enc (xs ! i))" if "i < length xs" for i
    using n that by (simp add: field_def jm_get_def map_of_zip_nth)
  then have "mapM (\<lambda>key. bindR (record_value (field ?es key) (name @ ''.'' @ key)) (\<lambda>source.
      parse source (name @ ''.'' @ key))) names = Inr xs"
    using n(3) assms(3) by (simp add: mapM_Inr_iff list_all2_conv_all_nth)
  then show ?thesis
    using assms(1) keys by (simp add: namedSection_def section_value_def section_document_def)
qed

text \<open>The entries of a section may come in any order.\<close>

lemma namedSection_order:
  assumes "field doc name = JObj es" and "field doc' name = JObj es'"
    and "distinct (map fst es)" and "mset es = mset es'"
  shows "namedSection doc name parse = namedSection doc' name parse"
proof -
  have "mset (map fst es) = mset (map fst es')"
    using assms(4) by (simp only: mset_map)
  then have keys: "sort (map fst es) = sort (map fst es')" "distinct (map fst es')"
    using assms(3) mset_eq_imp_distinct_iff [of "map fst es" "map fst es'"]
    by (simp_all add: properties_for_sort)
  have "map_of es = map_of es'"
    using assms(3,4) keys(2) by (metis map_of_inject_set mset_eq_setD)
  then have "field es = field es'" by (simp add: field_def jm_get_def fun_eq_iff)
  with keys(1) assms(1,2) show ?thesis
    by (simp add: namedSection_def section_value_def)
qed

definition config_members :: "(string \<Rightarrow> string list) \<Rightarrow> CanonicalConfig \<Rightarrow> jsobj" where
  "config_members names c =
     [(''services'', section_document service_document (names ''services'') (services c)),
      (''streams'', section_document stream_document (names ''streams'') (streams c)),
      (''dataConnectors'', section_document connector_document (names ''dataConnectors'') (dataConnectors c)),
      (''endpoints'', section_document endpoint_document (names ''endpoints'') (endpoints c)),
      (''pools'', section_document pool_document (names ''pools'') (pools c)),
      (''links'', section_document link_document (names ''links'') (links c)),
      (''modules'', section_document module_document (names ''modules'') (modules c)),
      (''types'', section_document type_document (names ''types'') (types c))]"

definition config_document :: "(string \<Rightarrow> string list) \<Rightarrow> CanonicalConfig \<Rightarrow> jsval" where
  "config_document names c = JObj (document (config_members names c) (root_properties c))"

definition config_ok :: "CanonicalConfig \<Rightarrow> bool" where
  "config_ok c \<longleftrightarrow> list_all service_ok (services c) \<and> list_all stream_ok (streams c) \<and>
     list_all connector_ok (dataConnectors c) \<and> list_all endpoint_ok (endpoints c) \<and>
     list_all pool_ok (pools c) \<and> list_all link_ok (links c) \<and> list_all module_ok (modules c) \<and>
     list_all type_ok (types c) \<and> props_ok rootKeys (root_properties c)"

definition section_names_ok :: "(string \<Rightarrow> string list) \<Rightarrow> CanonicalConfig \<Rightarrow> bool" where
  "section_names_ok names c \<longleftrightarrow>
     names_ok (names ''services'') (services c) \<and> names_ok (names ''streams'') (streams c) \<and>
     names_ok (names ''dataConnectors'') (dataConnectors c) \<and> names_ok (names ''endpoints'') (endpoints c) \<and>
     names_ok (names ''pools'') (pools c) \<and> names_ok (names ''links'') (links c) \<and>
     names_ok (names ''modules'') (modules c) \<and> names_ok (names ''types'') (types c)"

lemma config_section:
  assumes "props_ok rootKeys (root_properties c)" and "names_ok ns xs"
    and "(name, section_document enc ns xs) \<in> set (config_members names c)"
    and "\<And>x path. x \<in> set xs \<Longrightarrow> parse (enc x) path = Inr x"
  shows "namedSection (document (config_members names c) (root_properties c)) name parse = Inr xs"
proof (rule namedSection_roundtrip [OF _ assms(2,4)])
  have d: "distinct (map fst (config_members names c))" "set (map fst (config_members names c)) \<subseteq> set rootKeys"
    by (simp_all add: config_members_def rootKeys_def)
  have "name \<in> set (map fst (config_members names c))" using assms(3) by force
  then have "field (document (config_members names c) (root_properties c)) name = field (config_members names c) name"
    using field_known [OF d(1) assms(1)] d(2) by blast
  also have "\<dots> = section_document enc ns xs"
    using d(1) assms(3) by (simp add: field_def jm_get_def)
  finally show "field (document (config_members names c) (root_properties c)) name = section_document enc ns xs" .
qed

lemma config_document_parses:
  assumes "config_ok c" and "section_names_ok names c"
  shows "parseCanonicalConfig (config_document names c) = Inr c"
proof -
  let ?doc = "document (config_members names c) (root_properties c)"
  have props: "props_ok rootKeys (root_properties c)" using assms(1) by (simp add: config_ok_def)
  have "set (map fst (config_members names c)) \<subseteq> set rootKeys"
    by (simp add: config_members_def rootKeys_def)
  note p = properties_document [OF this props]
  note part = config_section [OF props, where names = names] and mem = config_members_def
  have n: "names_ok (names ''services'') (services c)" "names_ok (names ''streams'') (streams c)"
    "names_ok (names ''dataConnectors'') (dataConnectors c)" "names_ok (names ''endpoints'') (endpoints c)"
    "names_ok (names ''pools'') (pools c)" "names_ok (names ''links'') (links c)"
    "names_ok (names ''modules'') (modules c)" "names_ok (names ''types'') (types c)"
    using assms(2) by (simp_all add: section_names_ok_def)
  have ok: "x \<in> set (services c) \<Longrightarrow> service_ok x" "y \<in> set (streams c) \<Longrightarrow> stream_ok y"
    "d \<in> set (dataConnectors c) \<Longrightarrow> connector_ok d" "e \<in> set (endpoints c) \<Longrightarrow> endpoint_ok e"
    "q \<in> set (pools c) \<Longrightarrow> pool_ok q" "l \<in> set (links c) \<Longrightarrow> link_ok l"
    "u \<in> set (modules c) \<Longrightarrow> module_ok u" "t \<in> set (types c) \<Longrightarrow> type_ok t" for x y d e q l u t
    using assms(1) by (simp_all add: config_ok_def list_all_iff)
  have "namedSection ?doc ''services'' parseService = Inr (services c)"
    by (rule part [OF n(1), where enc = service_document]) (simp_all add: mem service_roundtrip ok)
  moreover have "namedSection ?doc ''streams'' parseStream = Inr (streams c)"
    by (rule part [OF n(2), where enc = stream_document]) (simp_all add: mem stream_roundtrip ok)
  moreover have "namedSection ?doc ''dataConnectors'' parseConnector = Inr (dataConnectors c)"
    by (rule part [OF n(3), where enc = connector_document]) (simp_all add: mem connector_roundtrip ok)
  moreover have "namedSection ?doc ''endpoints'' parseEndpoint = Inr (endpoints c)"
    by (rule part [OF n(4), where enc = endpoint_document]) (simp_all add: mem endpoint_roundtrip ok)
  moreover have "namedSection ?doc ''pools'' parsePool = Inr (pools c)"
    by (rule part [OF n(5), where enc = pool_document]) (simp_all add: mem pool_roundtrip ok)
  moreover have "namedSection ?doc ''links'' parseLink = Inr (links c)"
    by (rule part [OF n(6), where enc = link_document]) (simp_all add: mem link_roundtrip ok)
  moreover have "namedSection ?doc ''modules'' parseModule = Inr (modules c)"
    by (rule part [OF n(7), where enc = module_document]) (simp_all add: mem module_roundtrip ok)
  moreover have "namedSection ?doc ''types'' parseType = Inr (types c)"
    by (rule part [OF n(8), where enc = type_document]) (simp_all add: mem type_roundtrip ok)
  ultimately show ?thesis
    using p by (simp add: parseCanonicalConfig_def config_document_def)
qed

text \<open>
  C5. Parsing a configuration document gives back the configuration it was written from: for
  every configuration whose integers are safe, whose enumerations have admitted values and whose
  custom properties do not use a reserved key, and for all section entry names (sorted, as the
  parser orders them), \<open>parseCanonicalConfig\<close> succeeds and returns that configuration, every
  member and every custom property of every service, stream, connector, endpoint, pool, link,
  module and type included.
\<close>

theorem config_roundtrip:
  assumes "config_ok c" and "section_names_ok names c"
  shows "parseCanonicalConfig (config_document names c) = Inr c"
  by (rule config_document_parses [OF assms])

text \<open>A configuration with a stream, a link between two streams and a custom property.\<close>

definition sample_stream :: "int \<Rightarrow> string \<Rightarrow> stream_body \<Rightarrow> StreamConfig" where
  "sample_stream i n b =
     \<lparr>config_id = i, config_name = n, config_properties = [(''owner'', JStr ''me'')], pipeline = ''p'',
      stream_component = None, idService = 1, idSource = 0, idSources = [], xPos = 1 / 2, yPos = 0,
      stream_body = b\<rparr>"

definition sample_config :: CanonicalConfig where
  "sample_config =
     \<lparr>services = [], streams = [sample_stream 1 ''in'' (InputBody ''T'' 7), sample_stream 2 ''out'' (SinkBody None 7)],
      dataConnectors = [\<lparr>config_id = 5, config_name = ''cron'', config_properties = [], implementation = ''croner'',
        connector_body = CronDataConnector\<rparr>],
      endpoints = [], pools = [\<lparr>poolConfig_name = ''p'', pool_executorsCount = 4, queueCapacity = 0, pool_properties = []\<rparr>],
      links = [\<lparr>link_from = 1, link_to = 2, callSemantics = Some (PriorityTaskPoolCall ''p'' 3), link_properties = []\<rparr>],
      modules = [], types = [], root_properties = [(''version'', JNum (Finite 1))]\<rparr>"

definition sample_names :: "string \<Rightarrow> string list" where
  "sample_names section =
     (if section = ''streams'' then [''in'', ''out''] else if section = ''dataConnectors'' then [''c'']
      else if section = ''pools'' then [''p''] else if section = ''links'' then [''l''] else [])"

theorem config_roundtrip_witness:
  "parseCanonicalConfig (config_document sample_names sample_config) = Inr sample_config \<and>
   length (streams sample_config) = 2"
proof -
  have "config_ok sample_config" by code_simp
  moreover have "section_names_ok sample_names sample_config" by code_simp
  ultimately show ?thesis using config_roundtrip by (simp add: sample_config_def)
qed

text \<open>
  The parse of a section does not depend on the order of its entries in the document: two
  documents whose section has the same entries, in whatever order, give the same result, which
  lists the parsed entries by their sorted names (or the same error).
\<close>

theorem section_order_irrelevant:
  assumes "field doc name = JObj es" and "field doc' name = JObj es'"
    and "distinct (map fst es)" and "mset es = mset es'"
  shows "namedSection doc name parse = namedSection doc' name parse"
  by (rule namedSection_order [OF assms])

theorem section_order_irrelevant_witness:
  "namedSection [(''pools'', JObj [(''b'', JObj []), (''a'', JObj [])])] ''pools'' parsePool =
   namedSection [(''pools'', JObj [(''a'', JObj []), (''b'', JObj [])])] ''pools'' parsePool"
  by (rule section_order_irrelevant [where es = "[(''b'', JObj []), (''a'', JObj [])]"
      and es' = "[(''a'', JObj []), (''b'', JObj [])]"])
    (simp_all add: add_mset_commute)

end
