(* ===== verification/RuntimeConfig.thy ===== *)
theory RuntimeConfig
  imports ConfigTypes
begin

text \<open>
  The runtime configuration of \<open>src/runtime/config/runtime-config.ts\<close>: the indexes over a canonical
  configuration, built by the constructor, and the validation of its references and ranges. The
  theory states what the constructor accepts without loops and maps, and what the lookups return.
\<close>

section \<open>Indexes\<close>

record 'a index =
  byId :: "(int, 'a) jsmap"
  byName :: "(string, 'a) jsmap"

fun index_values ::
  "string \<Rightarrow> ('b NamedIdentity_scheme) index \<Rightarrow> 'b NamedIdentity_scheme list \<Rightarrow>
    string + ('b NamedIdentity_scheme) index" where
  "index_values category ix [] = Inr ix"
| "index_values category ix (v # vs) =
     (if jm_has (byName ix) (config_name v) then
        Inl (''duplicate '' @ category @ '' name: '' @ config_name v)
      else if jm_has (byId ix) (config_id v) then
        Inl (''duplicate '' @ category @ '' id: '' @ show_int (config_id v))
      else index_values category
        (ix\<lparr>byName := jm_set (byName ix) (config_name v) v, byId := jm_set (byId ix) (config_id v) v\<rparr>) vs)"

definition indexIdentities ::
  "string \<Rightarrow> 'b NamedIdentity_scheme list \<Rightarrow> string + ('b NamedIdentity_scheme) index" where
  "indexIdentities category vs = index_values category \<lparr>byId = [], byName = []\<rparr> vs"

fun indexNamed ::
  "string \<Rightarrow> ('a \<Rightarrow> string) \<Rightarrow> (string, 'a) jsmap \<Rightarrow> 'a list \<Rightarrow> string + (string, 'a) jsmap" where
  "indexNamed category name target [] = Inr target"
| "indexNamed category name target (v # vs) =
     (if jm_has target (name v) then Inl (''duplicate '' @ category @ '' name: '' @ name v)
      else indexNamed category name (jm_set target (name v) v) vs)"

definition linkKey :: "int \<Rightarrow> int \<Rightarrow> string" where
  "linkKey from to = show_int from @ '':'' @ show_int to"

fun indexLinks :: "(string, LinkConfig) jsmap \<Rightarrow> LinkConfig list \<Rightarrow> string + (string, LinkConfig) jsmap" where
  "indexLinks target [] = Inr target"
| "indexLinks target (l # ls) =
     (if jm_has target (linkKey (link_from l) (link_to l)) then
        Inl (''duplicate link from='' @ show_int (link_from l) @ '' to='' @ show_int (link_to l))
      else indexLinks (jm_set target (linkKey (link_from l) (link_to l)) l) ls)"

record RuntimeConfig =
  rc_config :: CanonicalConfig
  rc_services :: "ServiceConfig index"
  rc_streams :: "StreamConfig index"
  rc_connectors :: "DataConnectorConfig index"
  rc_endpoints :: "EndpointConfig index"
  rc_pools :: "(string, PoolConfig) jsmap"
  rc_modules :: "(string, ModuleConfig) jsmap"
  rc_types :: "(string, TypeConfig) jsmap"
  rc_links :: "(string, LinkConfig) jsmap"

section \<open>Lookups\<close>

definition serviceByName :: "RuntimeConfig \<Rightarrow> string \<Rightarrow> ServiceConfig option" where
  "serviceByName r n = jm_get (byName (rc_services r)) n"

definition serviceById :: "RuntimeConfig \<Rightarrow> int \<Rightarrow> ServiceConfig option" where
  "serviceById r i = jm_get (byId (rc_services r)) i"

definition streamByName :: "RuntimeConfig \<Rightarrow> string \<Rightarrow> StreamConfig option" where
  "streamByName r n = jm_get (byName (rc_streams r)) n"

definition streamById :: "RuntimeConfig \<Rightarrow> int \<Rightarrow> StreamConfig option" where
  "streamById r i = jm_get (byId (rc_streams r)) i"

definition dataConnectorById :: "RuntimeConfig \<Rightarrow> int \<Rightarrow> DataConnectorConfig option" where
  "dataConnectorById r i = jm_get (byId (rc_connectors r)) i"

definition endpointById :: "RuntimeConfig \<Rightarrow> int \<Rightarrow> EndpointConfig option" where
  "endpointById r i = jm_get (byId (rc_endpoints r)) i"

definition poolByName :: "RuntimeConfig \<Rightarrow> string \<Rightarrow> PoolConfig option" where
  "poolByName r n = jm_get (rc_pools r) n"

definition moduleByName :: "RuntimeConfig \<Rightarrow> string \<Rightarrow> ModuleConfig option" where
  "moduleByName r n = jm_get (rc_modules r) n"

definition typeByName :: "RuntimeConfig \<Rightarrow> string \<Rightarrow> TypeConfig option" where
  "typeByName r n = jm_get (rc_types r) n"

definition link :: "RuntimeConfig \<Rightarrow> int \<Rightarrow> int \<Rightarrow> LinkConfig option" where
  "link r from to = jm_get (rc_links r) (linkKey from to)"

section \<open>Validation\<close>

text \<open>A \<open>for\<close> loop whose body may throw.\<close>

fun each :: "('a \<Rightarrow> string + unit) \<Rightarrow> 'a list \<Rightarrow> string + unit" where
  "each check [] = Inr ()"
| "each check (x # xs) = bindR (check x) (\<lambda>_. each check xs)"

definition require :: "bool \<Rightarrow> string \<Rightarrow> string + unit" where
  "require ok message = (if ok then Inr () else Inl message)"

text \<open>Checks one after the other.\<close>

fun all_checks :: "(string + unit) list \<Rightarrow> string + unit" where
  "all_checks [] = Inr ()"
| "all_checks (c # cs) = bindR c (\<lambda>_. all_checks cs)"

definition validatePort :: "int \<Rightarrow> string \<Rightarrow> string + unit" where
  "validatePort v path =
     require (safe_int v \<and> \<not> v < 0 \<and> \<not> v > 65535) (path @ '' must be an integer between 0 and 65535'')"

definition validateNonNegative :: "int \<Rightarrow> string \<Rightarrow> string + unit" where
  "validateNonNegative v path =
     require (safe_int v \<and> \<not> v < 0) (path @ '' must be a non-negative integer'')"

definition validatePositive :: "int \<Rightarrow> string \<Rightarrow> string + unit" where
  "validatePositive v path = require (safe_int v \<and> \<not> v < 1) (path @ '' must be a positive integer'')"

definition hasStreamReference :: "RuntimeConfig \<Rightarrow> int \<Rightarrow> bool" where
  "hasStreamReference r i =
     (if jm_has (byId (rc_streams r)) i then True
      else if i \<ge> 0 then False
      else (case streamById r (- i) of
              None \<Rightarrow> False
            | Some owner \<Rightarrow>
                stream_type owner = TInput \<or> stream_type owner = TProcess \<or> stream_type owner = TSink))"

fun validateCallSemantics ::
  "RuntimeConfig \<Rightarrow> CallSemanticsGroup option \<Rightarrow> string \<Rightarrow> string + unit" where
  "validateCallSemantics r (Some (TaskPoolCall n)) owner =
     require (n = '''' \<or> jm_has (rc_pools r) n) (owner @ '' references missing pool '' @ n)"
| "validateCallSemantics r (Some (PriorityTaskPoolCall n p)) owner =
     require (n = '''' \<or> jm_has (rc_pools r) n) (owner @ '' references missing pool '' @ n)"
| "validateCallSemantics r _ owner = Inr ()"

definition validate_service :: "RuntimeConfig \<Rightarrow> ServiceConfig \<Rightarrow> string + unit" where
  "validate_service r s =
     (let owner = ''service '' @ config_name s
      in all_checks
           [validatePort (grpcPort s) (owner @ '' grpcPort''),
            validatePort (httpPort s) (owner @ '' httpPort''),
            validateNonNegative (shutdownTimeout s) (owner @ '' shutdownTimeout''),
            (case defaultGrpcTimeout s of
               None \<Rightarrow> Inr ()
             | Some t \<Rightarrow> validateNonNegative t (owner @ '' defaultGrpcTimeout'')),
            validateCallSemantics r (defaultCallSemantics s) owner])"

definition validate_pool :: "PoolConfig \<Rightarrow> string + unit" where
  "validate_pool p =
     all_checks
       [validateNonNegative (pool_executorsCount p) (''pool '' @ poolConfig_name p @ '' executorsCount''),
        validateNonNegative (queueCapacity p) (''pool '' @ poolConfig_name p @ '' queueCapacity'')]"

fun validate_connector_body :: "string \<Rightarrow> connector_body \<Rightarrow> string + unit" where
  "validate_connector_body n (GrpcDataConnector g) =
     validatePositive (connectionsCount g) (''gRPC data connector '' @ n @ '' connectionsCount'')"
| "validate_connector_body n (TemporalDataConnector t) =
     all_checks
       [require (temporal_address t \<noteq> '''') (''Temporal data connector '' @ n @ '' requires address''),
        require (namespace t \<noteq> '''') (''Temporal data connector '' @ n @ '' requires namespace''),
        require ((tlsCertFile t = '''') = (tlsKeyFile t = ''''))
          (''Temporal data connector '' @ n @ '' requires both TLS cert and key''),
        require (\<not> (\<not> tlsEnabled t \<and>
             (tlsCertFile t \<noteq> '''' \<or> tlsKeyFile t \<noteq> '''' \<or> tlsCaFile t \<noteq> '''' \<or> tlsServerName t \<noteq> '''')))
          (''Temporal data connector '' @ n @ '' cannot configure TLS files while TLS is disabled'')]"
| "validate_connector_body n _ = Inr ()"

definition validate_connector :: "DataConnectorConfig \<Rightarrow> string + unit" where
  "validate_connector c = validate_connector_body (config_name c) (connector_body c)"

fun body_endpoint :: "stream_body \<Rightarrow> int option" where
  "body_endpoint (InputBody v e) = Some e"
| "body_endpoint (SinkBody v e) = Some e"
| "body_endpoint _ = None"

definition validate_stream :: "RuntimeConfig \<Rightarrow> StreamConfig \<Rightarrow> string + unit" where
  "validate_stream r s =
     all_checks
       [require (jm_has (byId (rc_services r)) (idService s))
          (''stream '' @ config_name s @ '' references missing service id '' @ show_int (idService s)),
        each (\<lambda>i. require (\<not> (i \<noteq> 0 \<and> \<not> hasStreamReference r i))
            (''stream '' @ config_name s @ '' references missing source stream id '' @ show_int i))
          (idSource s # idSources s),
        (case body_endpoint (stream_body s) of
           None \<Rightarrow> Inr ()
         | Some e \<Rightarrow> require (jm_has (byId (rc_endpoints r)) e)
             (transformation_text (stream_type s) @ '' stream '' @ config_name s @
              '' references missing endpoint id '' @ show_int e))]"

fun endpoint_type :: "endpoint_body \<Rightarrow> int" where
  "endpoint_type (HttpEndpointBody _ _) = 1"
| "endpoint_type (GrpcEndpointBody _ _) = 2"
| "endpoint_type (KafkaEndpointBody _) = 3"
| "endpoint_type (TemporalEndpointBody _) = 6"
| "endpoint_type (CronEndpointBody _) = 5"
| "endpoint_type (CustomEndpointBody _) = 4"

fun validate_endpoint_body :: "string \<Rightarrow> endpoint_body \<Rightarrow> string + unit" where
  "validate_endpoint_body n (TemporalEndpointBody e) =
     all_checks
       [require (taskQueue e \<noteq> '''') (''Temporal endpoint '' @ n @ '' requires taskQueue''),
        require (\<not> (temporalExecutionType e = ''Activity'' \<and> activityStartToCloseTimeout e < 1))
          (''Temporal endpoint '' @ n @ '' requires activityStartToCloseTimeout''),
        require (\<not> maximumAttempts e < 1) (''Temporal endpoint '' @ n @ '' requires maximumAttempts''),
        require (\<not> (temporal_schedule e \<noteq> '''' \<and> (scheduleId e = '''' \<or> temporal_timezone e = '''')))
          (''scheduled Temporal endpoint '' @ n @ '' requires scheduleId, timezone and policies''),
        require (\<not> (temporal_schedule e = '''' \<and> (scheduleId e \<noteq> '''' \<or> temporal_timezone e \<noteq> ''UTC'')))
          (''on-demand Temporal endpoint '' @ n @ '' cannot configure scheduleId or timezone''),
        require (temporal_timezone e = ''UTC'') (''scheduled endpoint '' @ n @ '' requires timezone UTC'')]"
| "validate_endpoint_body n (CronEndpointBody e) =
     require (timezone e = ''UTC'') (''scheduled endpoint '' @ n @ '' requires timezone UTC'')"
| "validate_endpoint_body n _ = Inr ()"

definition validate_endpoint :: "RuntimeConfig \<Rightarrow> EndpointConfig \<Rightarrow> string + unit" where
  "validate_endpoint r e =
     (case dataConnectorById r (idDataConnector e) of
        None \<Rightarrow> Inl (''endpoint '' @ config_name e @ '' references missing data connector id '' @
                     show_int (idDataConnector e))
      | Some c \<Rightarrow>
          all_checks
            [require (connector_type (connector_body c) = endpoint_type (endpoint_body e))
               (''endpoint '' @ config_name e @ '' type does not match data connector '' @ config_name c),
             validate_endpoint_body (config_name e) (endpoint_body e)])"

definition validate_link :: "RuntimeConfig \<Rightarrow> LinkConfig \<Rightarrow> string + unit" where
  "validate_link r l =
     (let owner = ''link from='' @ show_int (link_from l) @ '' to='' @ show_int (link_to l)
      in all_checks
           [require (hasStreamReference r (link_from l) \<and> hasStreamReference r (link_to l))
              (owner @ '' references missing stream''),
            validateCallSemantics r (callSemantics l) owner])"

definition validateReferences :: "RuntimeConfig \<Rightarrow> string + unit" where
  "validateReferences r =
     (let c = rc_config r
      in all_checks
           [each (validate_service r) (services c), each validate_pool (pools c),
            each validate_connector (dataConnectors c), each (validate_stream r) (streams c),
            each (validate_endpoint r) (endpoints c), each (validate_link r) (links c)])"

definition RuntimeConfig_new :: "CanonicalConfig \<Rightarrow> string + RuntimeConfig" where
  "RuntimeConfig_new c =
     bindR (indexIdentities ''service'' (services c)) (\<lambda>se.
     bindR (indexIdentities ''stream'' (streams c)) (\<lambda>st.
     bindR (indexIdentities ''data connector'' (dataConnectors c)) (\<lambda>dc.
     bindR (indexIdentities ''endpoint'' (endpoints c)) (\<lambda>ep.
     bindR (indexNamed ''pool'' poolConfig_name [] (pools c)) (\<lambda>po.
     bindR (indexNamed ''module'' moduleConfig_name [] (modules c)) (\<lambda>mo.
     bindR (indexNamed ''type'' type_name [] (types c)) (\<lambda>ty.
     bindR (indexLinks [] (links c)) (\<lambda>li.
       (let r = \<lparr>rc_config = c, rc_services = se, rc_streams = st, rc_connectors = dc, rc_endpoints = ep,
                 rc_pools = po, rc_modules = mo, rc_types = ty, rc_links = li\<rparr>
        in mapR (\<lambda>_. r) (validateReferences r))))))))))"

section \<open>What the indexes hold\<close>

definition keyed :: "('a \<Rightarrow> 'k) \<Rightarrow> 'a list \<Rightarrow> ('k, 'a) jsmap" where
  "keyed key vs = map (\<lambda>v. (key v, v)) vs"

lemma keyed_keys [simp]: "map fst (keyed key vs) = map key vs"
  by (simp add: keyed_def comp_def)

lemma keyed_has [simp]: "jm_has (keyed key vs) k \<longleftrightarrow> k \<in> key ` set vs"
  unfolding jm_has_iff keyed_keys by simp

lemma keyed_snoc: "key v \<notin> key ` set vs \<Longrightarrow> jm_set (keyed key vs) (key v) v = keyed key (vs @ [v])"
  by (subst jm_set_fresh) (auto simp: keyed_def)

lemma keyed_get:
  "distinct (map key vs) \<Longrightarrow> jm_get (keyed key vs) k = Some v \<longleftrightarrow> v \<in> set vs \<and> key v = k"
  by (induction vs) (auto simp: keyed_def)

lemma indexNamed_spec:
  assumes "distinct (map name ws)"
  shows "indexNamed category name (keyed name ws) vs = Inr ix \<longleftrightarrow>
    distinct (map name (ws @ vs)) \<and> ix = keyed name (ws @ vs)"
  using assms
proof (induction vs arbitrary: ws)
  case (Cons v vs)
  show ?case
  proof (cases "name v \<in> name ` set ws")
    case True
    then show ?thesis by simp
  next
    case False
    then have "distinct (map name (ws @ [v]))" using Cons.prems by auto
    then show ?thesis using Cons.IH [of "ws @ [v]"] False by (simp add: keyed_snoc)
  qed
qed auto

lemma linkKey_inj: "linkKey a b = linkKey c d \<longleftrightarrow> a = c \<and> b = d"
proof
  assume eq: "linkKey a b = linkKey c d"
  have "takeWhile (\<lambda>x. x \<noteq> CHR '':'') (linkKey m n) = show_int m" for m n
    using show_int_no_colon [of m] by (auto simp: linkKey_def takeWhile_append takeWhile_eq_all_conv)
  then have "show_int a = show_int c" using eq by metis
  then show "a = c \<and> b = d" using eq show_int_inj by (auto simp: linkKey_def)
qed simp

definition link_ends :: "LinkConfig \<Rightarrow> int \<times> int" where
  "link_ends l = (link_from l, link_to l)"

definition link_key :: "LinkConfig \<Rightarrow> string" where
  "link_key l = linkKey (link_from l) (link_to l)"

lemma link_key_eq: "link_key l = link_key l' \<longleftrightarrow> link_ends l = link_ends l'"
  by (simp add: link_key_def link_ends_def linkKey_inj)

lemma link_key_distinct: "distinct (map link_key ls) \<longleftrightarrow> distinct (map link_ends ls)"
  by (induction ls) (auto simp: link_key_eq image_iff)

lemma indexLinks_as_named: "is_ok (indexLinks t ls) = is_ok (indexNamed c link_key t ls) \<and>
  (\<forall>r. indexLinks t ls = Inr r \<longleftrightarrow> indexNamed c link_key t ls = Inr r)"
  by (induction t ls rule: indexLinks.induct) (auto simp: link_key_def)

lemma indexLinks_spec:
  "indexLinks [] ls = Inr ix \<longleftrightarrow> distinct (map link_ends ls) \<and> ix = keyed link_key ls"
  using indexLinks_as_named [of "[]" ls "[]"] indexNamed_spec [of link_key "[]" "[]" ls ix]
  by (simp add: keyed_def link_key_distinct)

definition index_of :: "'b NamedIdentity_scheme list \<Rightarrow> ('b NamedIdentity_scheme) index" where
  "index_of vs = \<lparr>byId = keyed config_id vs, byName = keyed config_name vs\<rparr>"

lemma index_of_fields [simp]:
  "byId (index_of vs) = keyed config_id vs" "byName (index_of vs) = keyed config_name vs"
  by (simp_all add: index_of_def)

lemma index_values_spec:
  assumes "distinct (map config_id ws)" and "distinct (map config_name ws)"
  shows "index_values category (index_of ws) vs = Inr ix \<longleftrightarrow>
    distinct (map config_id (ws @ vs)) \<and> distinct (map config_name (ws @ vs)) \<and> ix = index_of (ws @ vs)"
  using assms
proof (induction vs arbitrary: ws)
  case (Cons v vs)
  show ?case
  proof (cases "config_name v \<in> config_name ` set ws \<or> config_id v \<in> config_id ` set ws")
    case True
    then show ?thesis by auto
  next
    case False
    then have "distinct (map config_id (ws @ [v]))" "distinct (map config_name (ws @ [v]))"
      using Cons.prems by auto
    moreover have "(index_of ws)\<lparr>byName := jm_set (keyed config_name ws) (config_name v) v,
        byId := jm_set (keyed config_id ws) (config_id v) v\<rparr> = index_of (ws @ [v])"
      using False by (simp add: index_of_def keyed_snoc)
    ultimately show ?thesis using Cons.IH [of "ws @ [v]"] False by simp
  qed
qed auto

lemma indexIdentities_spec:
  fixes vs :: "'b NamedIdentity_scheme list"
  shows "indexIdentities category vs = Inr ix \<longleftrightarrow>
    distinct (map config_id vs) \<and> distinct (map config_name vs) \<and> ix = index_of vs"
proof -
  have "(index_of [] :: ('b NamedIdentity_scheme) index) = \<lparr>byId = [], byName = []\<rparr>" by (simp add: index_of_def keyed_def)
  then show ?thesis using index_values_spec [of "[]" category vs ix] by (simp add: indexIdentities_def)
qed

section \<open>What is accepted\<close>

lemma is_ok_each [simp]: "is_ok (each check xs) \<longleftrightarrow> (\<forall>x \<in> set xs. is_ok (check x))"
  by (induction xs) (auto simp: is_ok_iff result_simps)

lemma is_ok_all_checks [simp]: "is_ok (all_checks cs) \<longleftrightarrow> (\<forall>c \<in> set cs. is_ok c)"
  by (induction cs) (auto simp: is_ok_iff result_simps)

lemma is_ok_require [simp]: "is_ok (require ok m) \<longleftrightarrow> ok"
  by (simp add: require_def)

declare all_checks.simps [simp del] each.simps [simp del]

text \<open>The same conditions, stated on the lists of the configuration.\<close>

definition port_ok :: "int \<Rightarrow> bool" where
  "port_ok v \<longleftrightarrow> 0 \<le> v \<and> v \<le> 65535"

definition natural_ok :: "int \<Rightarrow> bool" where
  "natural_ok v \<longleftrightarrow> 0 \<le> v \<and> safe_int v"

fun pool_reference_ok :: "CanonicalConfig \<Rightarrow> CallSemanticsGroup option \<Rightarrow> bool" where
  "pool_reference_ok c (Some (TaskPoolCall n)) \<longleftrightarrow> n = '''' \<or> n \<in> set (map poolConfig_name (pools c))"
| "pool_reference_ok c (Some (PriorityTaskPoolCall n p)) \<longleftrightarrow> n = '''' \<or> n \<in> set (map poolConfig_name (pools c))"
| "pool_reference_ok c _ \<longleftrightarrow> True"

text \<open>A stream is referenced by its id, an error stream by the negated id of its owner.\<close>

definition stream_reference :: "CanonicalConfig \<Rightarrow> int \<Rightarrow> bool" where
  "stream_reference c i \<longleftrightarrow>
     (\<exists>s \<in> set (streams c). config_id s = i \<or>
        (i < 0 \<and> config_id s = - i \<and> stream_type s \<in> {TInput, TProcess, TSink}))"

definition valid_service :: "CanonicalConfig \<Rightarrow> ServiceConfig \<Rightarrow> bool" where
  "valid_service c s \<longleftrightarrow> port_ok (grpcPort s) \<and> port_ok (httpPort s) \<and> natural_ok (shutdownTimeout s) \<and>
     pred_option natural_ok (defaultGrpcTimeout s) \<and> pool_reference_ok c (defaultCallSemantics s)"

definition valid_stream :: "CanonicalConfig \<Rightarrow> StreamConfig \<Rightarrow> bool" where
  "valid_stream c s \<longleftrightarrow> idService s \<in> set (map config_id (services c)) \<and>
     (\<forall>i \<in> set (idSource s # idSources s). i = 0 \<or> stream_reference c i) \<and>
     pred_option (\<lambda>e. e \<in> set (map config_id (endpoints c))) (body_endpoint (stream_body s))"

fun valid_connector :: "connector_body \<Rightarrow> bool" where
  "valid_connector (GrpcDataConnector g) \<longleftrightarrow> 1 \<le> connectionsCount g \<and> safe_int (connectionsCount g)"
| "valid_connector (TemporalDataConnector t) \<longleftrightarrow>
     temporal_address t \<noteq> '''' \<and> namespace t \<noteq> '''' \<and> (tlsCertFile t = '''' \<longleftrightarrow> tlsKeyFile t = '''') \<and>
     (tlsEnabled t \<or> (tlsCertFile t = '''' \<and> tlsCaFile t = '''' \<and> tlsServerName t = ''''))"
| "valid_connector _ \<longleftrightarrow> True"

fun valid_endpoint_body :: "endpoint_body \<Rightarrow> bool" where
  "valid_endpoint_body (TemporalEndpointBody e) \<longleftrightarrow>
     taskQueue e \<noteq> '''' \<and> 1 \<le> maximumAttempts e \<and> temporal_timezone e = ''UTC'' \<and>
     (temporalExecutionType e = ''Activity'' \<longrightarrow> 1 \<le> activityStartToCloseTimeout e) \<and>
     (temporal_schedule e = '''' \<longleftrightarrow> scheduleId e = '''')"
| "valid_endpoint_body (CronEndpointBody e) \<longleftrightarrow> timezone e = ''UTC''"
| "valid_endpoint_body _ \<longleftrightarrow> True"

definition valid_endpoint :: "CanonicalConfig \<Rightarrow> EndpointConfig \<Rightarrow> bool" where
  "valid_endpoint c e \<longleftrightarrow> valid_endpoint_body (endpoint_body e) \<and>
     (\<exists>d \<in> set (dataConnectors c). config_id d = idDataConnector e \<and>
        connector_type (connector_body d) = endpoint_type (endpoint_body e))"

definition valid_link :: "CanonicalConfig \<Rightarrow> LinkConfig \<Rightarrow> bool" where
  "valid_link c l \<longleftrightarrow> stream_reference c (link_from l) \<and> stream_reference c (link_to l) \<and>
     pool_reference_ok c (callSemantics l)"

definition unique_keys :: "CanonicalConfig \<Rightarrow> bool" where
  "unique_keys c \<longleftrightarrow>
     distinct (map config_id (services c)) \<and> distinct (map config_name (services c)) \<and>
     distinct (map config_id (streams c)) \<and> distinct (map config_name (streams c)) \<and>
     distinct (map config_id (dataConnectors c)) \<and> distinct (map config_name (dataConnectors c)) \<and>
     distinct (map config_id (endpoints c)) \<and> distinct (map config_name (endpoints c)) \<and>
     distinct (map poolConfig_name (pools c)) \<and> distinct (map moduleConfig_name (modules c)) \<and>
     distinct (map type_name (types c)) \<and> distinct (map link_ends (links c))"

definition valid_config :: "CanonicalConfig \<Rightarrow> bool" where
  "valid_config c \<longleftrightarrow> unique_keys c \<and> list_all (valid_service c) (services c) \<and>
     list_all (\<lambda>p. natural_ok (pool_executorsCount p) \<and> natural_ok (queueCapacity p)) (pools c) \<and>
     list_all (\<lambda>d. valid_connector (connector_body d)) (dataConnectors c) \<and>
     list_all (valid_stream c) (streams c) \<and> list_all (valid_endpoint c) (endpoints c) \<and>
     list_all (valid_link c) (links c)"

text \<open>The indexes of an accepted configuration.\<close>

definition indexed :: "CanonicalConfig \<Rightarrow> RuntimeConfig" where
  "indexed c =
     \<lparr>rc_config = c, rc_services = index_of (services c), rc_streams = index_of (streams c),
      rc_connectors = index_of (dataConnectors c), rc_endpoints = index_of (endpoints c),
      rc_pools = keyed poolConfig_name (pools c), rc_modules = keyed moduleConfig_name (modules c),
      rc_types = keyed type_name (types c), rc_links = keyed link_key (links c)\<rparr>"

lemma RuntimeConfig_new_indexed:
  "RuntimeConfig_new c = Inr r \<longleftrightarrow> unique_keys c \<and> r = indexed c \<and> is_ok (validateReferences (indexed c))"
proof -
  have named: "indexNamed k name [] vs = Inr ix \<longleftrightarrow> distinct (map name vs) \<and> ix = keyed name vs"
    for k name vs and ix :: "(string, 'x) jsmap"
    using indexNamed_spec [of name "[]" k vs ix] by (simp add: keyed_def)
  show ?thesis
    by (auto simp: RuntimeConfig_new_def result_simps indexIdentities_spec named indexLinks_spec unique_keys_def
        indexed_def Let_def is_ok_iff)
qed


lemma validate_number [simp]:
  "is_ok (validatePort v path) \<longleftrightarrow> port_ok v" "is_ok (validateNonNegative v path) \<longleftrightarrow> natural_ok v"
  "is_ok (validatePositive v path) \<longleftrightarrow> 1 \<le> v \<and> safe_int v"
  by (auto simp: validatePort_def validateNonNegative_def validatePositive_def port_ok_def natural_ok_def
      safe_int_def max_safe_integer_def)

lemma indexed_fields [simp]:
  "rc_config (indexed c) = c" "rc_services (indexed c) = index_of (services c)"
  "rc_streams (indexed c) = index_of (streams c)" "rc_connectors (indexed c) = index_of (dataConnectors c)"
  "rc_endpoints (indexed c) = index_of (endpoints c)" "rc_pools (indexed c) = keyed poolConfig_name (pools c)"
  "rc_modules (indexed c) = keyed moduleConfig_name (modules c)" "rc_types (indexed c) = keyed type_name (types c)"
  "rc_links (indexed c) = keyed link_key (links c)"
  by (simp_all add: indexed_def)

lemma semantics_valid [simp]: "is_ok (validateCallSemantics (indexed c) cs owner) \<longleftrightarrow> pool_reference_ok c cs"
  by (cases "(c, cs)" rule: pool_reference_ok.cases) (auto simp: image_iff)

lemma reference_valid:
  assumes "unique_keys c"
  shows "hasStreamReference (indexed c) i \<longleftrightarrow> stream_reference c i"
proof -
  have get: "streamById (indexed c) j = Some s \<longleftrightarrow> s \<in> set (streams c) \<and> config_id s = j" for j s
    using assms by (simp add: streamById_def keyed_get unique_keys_def)
  show ?thesis
  proof (cases "streamById (indexed c) (- i)")
    case None
    then have "\<forall>s \<in> set (streams c). config_id s \<noteq> - i" using get [of "- i"] by auto
    with None show ?thesis by (auto simp: hasStreamReference_def stream_reference_def)
  next
    case (Some owner)
    then have "s = owner" if "s \<in> set (streams c)" "config_id s = - i" for s
      using get [of "- i" s] that by simp
    with Some get [of "- i" owner] show ?thesis
      by (auto simp: hasStreamReference_def stream_reference_def)
  qed
qed

lemma service_valid: "is_ok (validate_service (indexed c) s) \<longleftrightarrow> valid_service c s"
  by (auto simp: validate_service_def valid_service_def Let_def split: option.split)

lemma pool_valid:
  "is_ok (validate_pool p) \<longleftrightarrow> natural_ok (pool_executorsCount p) \<and> natural_ok (queueCapacity p)"
  by (simp add: validate_pool_def)

lemma connector_valid: "is_ok (validate_connector d) \<longleftrightarrow> valid_connector (connector_body d)"
  by (cases "connector_body d") (auto simp: validate_connector_def)

lemma stream_valid:
  assumes "unique_keys c"
  shows "is_ok (validate_stream (indexed c) s) \<longleftrightarrow> valid_stream c s"
  by (auto simp: validate_stream_def valid_stream_def reference_valid [OF assms] split: option.split)

lemma endpoint_body_valid: "is_ok (validate_endpoint_body n b) \<longleftrightarrow> valid_endpoint_body b"
  by (cases b) auto

lemma endpoint_valid:
  assumes "unique_keys c"
  shows "is_ok (validate_endpoint (indexed c) e) \<longleftrightarrow> valid_endpoint c e"
proof -
  have get: "dataConnectorById (indexed c) j = Some d \<longleftrightarrow> d \<in> set (dataConnectors c) \<and> config_id d = j" for j d
    using assms by (simp add: dataConnectorById_def keyed_get unique_keys_def)
  show ?thesis
  proof (cases "dataConnectorById (indexed c) (idDataConnector e)")
    case None
    then show ?thesis
      using get [of "idDataConnector e"] by (auto simp: validate_endpoint_def valid_endpoint_def)
  next
    case (Some d)
    then have d: "d \<in> set (dataConnectors c)" "config_id d = idDataConnector e" using get by auto
    have "d' = d" if "d' \<in> set (dataConnectors c)" "config_id d' = idDataConnector e" for d'
      using get [of "idDataConnector e" d'] that Some by simp
    then have "(\<exists>d' \<in> set (dataConnectors c). config_id d' = idDataConnector e \<and> P d') \<longleftrightarrow> P d" for P
      using d by blast
    with Some show ?thesis
      by (auto simp: validate_endpoint_def valid_endpoint_def endpoint_body_valid)
  qed
qed

lemma link_valid:
  assumes "unique_keys c"
  shows "is_ok (validate_link (indexed c) l) \<longleftrightarrow> valid_link c l"
  by (auto simp: validate_link_def valid_link_def Let_def reference_valid [OF assms])

lemma references_valid:
  assumes "unique_keys c"
  shows "is_ok (validateReferences (indexed c)) \<longleftrightarrow> valid_config c"
  using assms
  by (auto simp: validateReferences_def valid_config_def Let_def service_valid pool_valid connector_valid
      stream_valid endpoint_valid link_valid list_all_iff)

text \<open>
  C6. The constructor of \<open>RuntimeConfig\<close> accepts exactly the valid configurations: ids and
  names are unique per category and so are the end points of links; ports, timeouts and sizes are
  in range; every service, source stream, endpoint, connector and pool a configuration refers to
  exists (an error stream is the negated id of an input, process or sink stream); endpoints have
  the kind of their connector; and the rules of Temporal and scheduled endpoints hold.
\<close>

theorem runtime_config_accepts: "is_ok (RuntimeConfig_new c) \<longleftrightarrow> valid_config c"
proof -
  have "is_ok (RuntimeConfig_new c) \<longleftrightarrow> unique_keys c \<and> is_ok (validateReferences (indexed c))"
    by (simp add: is_ok_iff [of "RuntimeConfig_new c"] RuntimeConfig_new_indexed)
  then show ?thesis
    using references_valid [of c] by (auto simp: valid_config_def)
qed

text \<open>
  The lookups of an accepted configuration return the one entry with the given key, and
  nothing when there is none: streams, services, connectors and endpoints by id, services and
  streams by name, pools, modules and types by name, and links by their two ends.
\<close>

theorem runtime_config_lookups:
  assumes "RuntimeConfig_new c = Inr r"
  shows "(serviceById r i = Some s \<longleftrightarrow> s \<in> set (services c) \<and> config_id s = i) \<and>
    (serviceByName r n = Some s \<longleftrightarrow> s \<in> set (services c) \<and> config_name s = n) \<and>
    (streamById r i = Some t \<longleftrightarrow> t \<in> set (streams c) \<and> config_id t = i) \<and>
    (streamByName r n = Some t \<longleftrightarrow> t \<in> set (streams c) \<and> config_name t = n) \<and>
    (dataConnectorById r i = Some d \<longleftrightarrow> d \<in> set (dataConnectors c) \<and> config_id d = i) \<and>
    (endpointById r i = Some e \<longleftrightarrow> e \<in> set (endpoints c) \<and> config_id e = i) \<and>
    (poolByName r n = Some p \<longleftrightarrow> p \<in> set (pools c) \<and> poolConfig_name p = n) \<and>
    (moduleByName r n = Some m \<longleftrightarrow> m \<in> set (modules c) \<and> moduleConfig_name m = n) \<and>
    (typeByName r n = Some ty \<longleftrightarrow> ty \<in> set (types c) \<and> type_name ty = n) \<and>
    (link r i j = Some l \<longleftrightarrow> l \<in> set (links c) \<and> link_from l = i \<and> link_to l = j)"
proof -
  have r: "r = indexed c" and u: "unique_keys c"
    using assms RuntimeConfig_new_indexed by simp_all
  have "distinct (map link_key (links c))"
    using u by (simp add: unique_keys_def link_key_distinct)
  then have "link r i j = Some l \<longleftrightarrow> l \<in> set (links c) \<and> link_from l = i \<and> link_to l = j"
    unfolding r link_def indexed_fields by (simp add: keyed_get link_key_def linkKey_inj)
  then show ?thesis
    using u unfolding r serviceById_def serviceByName_def streamById_def streamByName_def dataConnectorById_def
      endpointById_def poolByName_def moduleByName_def typeByName_def
    by (simp add: unique_keys_def keyed_get)
qed

text \<open>Two streams in a pipeline, linked, and the error stream of the first one.\<close>

definition tiny_service :: ServiceConfig where
  "tiny_service =
     \<lparr>config_id = 1, config_name = ''svc'', config_properties = [], color = '''', defaultCallSemantics = None,
      defaultGrpcTimeout = None, environment = '''', golangVersion = None, grpcHost = '''', grpcPort = 9000,
      httpHost = '''', httpPort = 8080, logLevel = None, metricsHandler = '''', startupHandler = '''',
      readinessHandler = '''', livenessHandler = '''', kubernetesWorkloadType = Deployment, modulePath = None,
      shutdownTimeout = 5, statusHandler = ''''\<rparr>"

definition tiny_stream :: "int \<Rightarrow> string \<Rightarrow> int \<Rightarrow> stream_body \<Rightarrow> StreamConfig" where
  "tiny_stream i n src b =
     \<lparr>config_id = i, config_name = n, config_properties = [], pipeline = '''', stream_component = None,
      idService = 1, idSource = src, idSources = [], xPos = 0, yPos = 0, stream_body = b\<rparr>"

definition tiny_function :: FunctionConfig where
  "tiny_function = \<lparr>functionPackage = None, functionName = None, publicFunction = None,
     functionDescription = None, functionInitializerGroup = None, functionModule = None\<rparr>"

definition tiny_config :: CanonicalConfig where
  "tiny_config =
     \<lparr>services = [tiny_service],
      streams = [tiny_stream 10 ''proc'' 0 (ProcessBody tiny_function None), tiny_stream 11 ''merge'' 10 MergeBody,
        tiny_stream 12 ''errors'' (-10) MergeBody],
      dataConnectors = [], endpoints = [], pools = [],
      links = [\<lparr>link_from = 10, link_to = 11, callSemantics = None, link_properties = []\<rparr>,
        \<lparr>link_from = -10, link_to = 12, callSemantics = Some ParallelCall, link_properties = []\<rparr>],
      modules = [], types = [], root_properties = []\<rparr>"

lemma tiny_valid: "valid_config tiny_config"
  by (simp add: valid_config_def unique_keys_def tiny_config_def tiny_stream_def tiny_service_def link_ends_def
      valid_service_def valid_stream_def valid_link_def stream_reference_def stream_type_def port_ok_def
      natural_ok_def safe_int_def max_safe_integer_def)

theorem runtime_config_lookups_witness:
  "link (indexed tiny_config) (-10) 12 =
     Some \<lparr>link_from = -10, link_to = 12, callSemantics = Some ParallelCall, link_properties = []\<rparr>"
proof -
  have "RuntimeConfig_new tiny_config = Inr (indexed tiny_config)"
    using tiny_valid references_valid by (simp add: RuntimeConfig_new_indexed valid_config_def)
  from runtime_config_lookups [OF this] show ?thesis by (simp add: tiny_config_def)
qed

end
