(* ===== verification/ConfigMerge.thy ===== *)
theory ConfigMerge
  imports JsValue "HOL-Library.Sublist"
begin

text \<open>
  Layering of configuration documents, from \<open>src/runtime/config/loader.ts\<close>: the deep copy and the
  deep merge of documents, and the patches the environment makes to a merged document. Documents
  are trees: the merge copies every record and array, so a patch of the merged document reaches
  no other document, and replacing a member of a record is the functional update of the tree.
\<close>

section \<open>Copy and merge\<close>

fun isRecord :: "jsval \<Rightarrow> bool" where
  "isRecord (JObj _) = True"
| "isRecord _ = False"

definition requireRecord :: "jsval \<Rightarrow> string \<Rightarrow> string + jsobj" where
  "requireRecord v source =
     (case v of JObj es \<Rightarrow> Inr es | _ \<Rightarrow> Inl (source @ '' root must be a mapping''))"

text \<open>\<open>Object.fromEntries\<close> stores the entries one after the other.\<close>

primrec cloneConfigValue :: "jsval \<Rightarrow> jsval" where
  "cloneConfigValue JUndefined = JUndefined"
| "cloneConfigValue JNull = JNull"
| "cloneConfigValue (JBool b) = JBool b"
| "cloneConfigValue (JNum n) = JNum n"
| "cloneConfigValue (JStr s) = JStr s"
| "cloneConfigValue (JArr vs) = JArr (map cloneConfigValue vs)"
| "cloneConfigValue (JObj es) = JObj (jm_of_list [] (map (map_prod id cloneConfigValue) es))"

text \<open>
  \<open>deepMerge\<close> copies the base and then runs through the entries of the overlay; \<open>merge_value\<close>
  is the value it stores for one of them, given what is stored there so far.
\<close>

function (sequential) deepMerge :: "jsobj \<Rightarrow> jsobj \<Rightarrow> jsobj"
  and merge_entries :: "jsobj \<Rightarrow> jsobj \<Rightarrow> jsobj"
  and merge_value :: "jsval \<Rightarrow> jsval \<Rightarrow> jsval" where
  "deepMerge base overlay =
     merge_entries (jm_of_list [] (map (map_prod id cloneConfigValue) base)) overlay"
| "merge_entries result [] = result"
| "merge_entries result ((key, v) # overlay) =
     merge_entries (jm_set result key (merge_value (field result key) v)) overlay"
| "merge_value (JObj current) (JObj v) = JObj (deepMerge current v)"
| "merge_value current v = cloneConfigValue v"
  by pat_completeness auto

termination
  by (relation "measure (case_sum (\<lambda>(_, overlay). Suc (size_list (size_prod (\<lambda>_. 0) size) overlay))
      (case_sum (\<lambda>(_, overlay). size_list (size_prod (\<lambda>_. 0) size) overlay) (\<lambda>(_, v). Suc (size v))))") auto

declare deepMerge.simps [simp del] merge_entries.simps [simp del]

section \<open>Environment patches\<close>

text \<open>
  \<open>setPath\<close> walks down the records of the path and replaces the member at its end, which has to
  exist. The whole path is named in the error.
\<close>

definition missing_path :: "string list \<Rightarrow> string" where
  "missing_path path = ''environment patch path '' @ join_with ''.'' path @ '' does not exist''"

fun set_below :: "string list \<Rightarrow> jsobj \<Rightarrow> string list \<Rightarrow> jsval \<Rightarrow> string + jsobj" where
  "set_below whole current [] v = Inl (missing_path whole)"
| "set_below whole current [leaf] v =
     (if has_field current leaf then Inr (jm_set current leaf v) else Inl (missing_path whole))"
| "set_below whole current (segment # path) v =
     (case field current segment of
        JObj child \<Rightarrow> mapR (\<lambda>child'. jm_set current segment (JObj child')) (set_below whole child path v)
      | _ \<Rightarrow> Inl (missing_path whole))"

definition setPath :: "jsobj \<Rightarrow> string list \<Rightarrow> jsval \<Rightarrow> string + jsobj" where
  "setPath document path v =
     (if path = [] then Inl ''environment patch path must not be empty'' else set_below path document path v)"

record EnvironmentPatch =
  patch_environment :: string
  patch_path :: "string list"
  patch_parse :: "string \<Rightarrow> string + jsval"

fun applyEnvironment ::
  "jsobj \<Rightarrow> EnvironmentPatch list \<Rightarrow> (string \<Rightarrow> string option) \<Rightarrow> string + jsobj" where
  "applyEnvironment document [] environment = Inr document"
| "applyEnvironment document (patch # patches) environment =
     (case environment (patch_environment patch) of
        None \<Rightarrow> applyEnvironment document patches environment
      | Some raw \<Rightarrow>
          bindR (patch_parse patch raw) (\<lambda>v.
          bindR (setPath document (patch_path patch) v) (\<lambda>document'.
          applyEnvironment document' patches environment)))"

section \<open>Documents as trees\<close>

text \<open>No record of the document has a key twice, as none of JavaScript does.\<close>

primrec tree_ok :: "jsval \<Rightarrow> bool" where
  "tree_ok JUndefined = True"
| "tree_ok JNull = True"
| "tree_ok (JBool b) = True"
| "tree_ok (JNum n) = True"
| "tree_ok (JStr s) = True"
| "tree_ok (JArr vs) = list_all id (map tree_ok vs)"
| "tree_ok (JObj es) = (jm_ok es \<and> list_all (\<lambda>e. snd e) (map (map_prod id tree_ok) es))"

text \<open>The value at a path through records, when there is one.\<close>

fun value_at :: "jsval \<Rightarrow> string list \<Rightarrow> jsval option" where
  "value_at v [] = Some v"
| "value_at (JObj es) (k # path) = (case jm_get es k of None \<Rightarrow> None | Some v \<Rightarrow> value_at v path)"
| "value_at v (k # path) = None"

text \<open>A document hides a path when it has a value that is no record above the end of the path.\<close>

fun hides :: "jsval \<Rightarrow> string list \<Rightarrow> bool" where
  "hides v [] = False"
| "hides (JObj es) (k # path) = (case jm_get es k of None \<Rightarrow> False | Some v \<Rightarrow> hides v path)"
| "hides v (k # path) = True"

lemma map_fst_entries [simp]: "map (fst \<circ> map_prod id f) es = map fst es"
  by (induction es) auto

lemma clone_id: "tree_ok v \<Longrightarrow> cloneConfigValue v = v"
proof (induction v)
  case (JArr vs)
  then show ?case by (auto simp: list_all_iff intro: map_idI)
next
  case (JObj es)
  have "map_prod id cloneConfigValue e = e" if "e \<in> set es" for e
    using JObj that by (cases e) (fastforce simp: list_all_iff)
  then have "map (map_prod id cloneConfigValue) es = es"
    by (intro map_idI) auto
  then show ?case
    using JObj.prems jm_of_list_distinct [of "[]" es] by (simp add: jm_ok_def)
qed auto

lemma entries_clone:
  assumes "tree_ok (JObj es)"
  shows "jm_of_list [] (map (map_prod id cloneConfigValue) es) = es"
  using clone_id [OF assms] by simp

lemma tree_ok_get: "tree_ok (JObj es) \<Longrightarrow> jm_get es k = Some v \<Longrightarrow> tree_ok v"
  by (auto simp: list_all_iff dest!: jm_get_Some_mem)

lemma tree_ok_field: "tree_ok (JObj es) \<Longrightarrow> tree_ok (field es k)"
  using tree_ok_get by (auto simp: field_def split: option.split)

lemma tree_ok_set:
  assumes "tree_ok (JObj es)" and "tree_ok v"
  shows "tree_ok (JObj (jm_set es k v))"
proof -
  have "e \<in> set es \<or> e = (k, v)" if "e \<in> set (jm_set es k v)" for e
    using that by (induction es k v rule: jm_set.induct) (auto split: if_splits)
  with assms show ?thesis by (fastforce simp: list_all_iff)
qed

lemma merge_entries_get:
  "jm_ok overlay \<Longrightarrow> jm_get (merge_entries result overlay) k =
    (case jm_get overlay k of None \<Rightarrow> jm_get result k | Some v \<Rightarrow> Some (merge_value (field result k) v))"
proof (induction overlay arbitrary: result)
  case (Cons e overlay)
  obtain key v where e: "e = (key, v)" by (cases e)
  have "jm_get overlay key = None"
    using Cons.prems by (simp add: e jm_ok_def jm_get_None_iff)
  with Cons e show ?case
    by (auto simp: merge_entries.simps jm_ok_def jsmap_simps field_def split: option.split)
qed (simp add: merge_entries.simps)

lemma deepMerge_get:
  assumes "tree_ok (JObj base)" and "tree_ok (JObj overlay)"
  shows "jm_get (deepMerge base overlay) k =
    (case jm_get overlay k of None \<Rightarrow> jm_get base k | Some v \<Rightarrow> Some (merge_value (field base k) v))"
  using assms merge_entries_get [of overlay base k] by (simp add: deepMerge.simps entries_clone)

lemma merge_tree_ok:
  "tree_ok (JObj base) \<Longrightarrow> tree_ok (JObj overlay) \<Longrightarrow> tree_ok (JObj (deepMerge base overlay))"
  "tree_ok (JObj result) \<Longrightarrow> tree_ok (JObj overlay) \<Longrightarrow> tree_ok (JObj (merge_entries result overlay))"
  "tree_ok current \<Longrightarrow> tree_ok v \<Longrightarrow> tree_ok (merge_value current v)"
proof (induction base overlay and result overlay and current v rule: deepMerge_merge_entries_merge_value.induct)
  case (1 base overlay)
  then show ?case by (simp add: deepMerge.simps entries_clone)
next
  case (3 result key v overlay)
  then have "tree_ok v" "tree_ok (JObj overlay)" by (auto simp: jm_ok_def)
  with 3 show ?case unfolding merge_entries.simps by (metis tree_ok_set tree_ok_field)
qed (simp_all add: clone_id merge_entries.simps del: cloneConfigValue.simps)

text \<open>
  What a merge has at a path: what the overlay has there, merged into what the base has there;
  what the base has where the overlay says nothing; and nothing where the overlay has a value
  that is no record on the way.
\<close>

lemma merge_value_no_record: "\<not> (isRecord u \<and> isRecord v) \<Longrightarrow> tree_ok v \<Longrightarrow> merge_value u v = v"
  by (cases "(u, v)" rule: merge_value.cases) (auto simp: clone_id simp del: cloneConfigValue.simps)

lemma value_at_no_record: "\<not> isRecord v \<Longrightarrow> value_at v (k # path) = None"
  by (cases v) auto

lemma merge_value_at:
  "tree_ok b \<Longrightarrow> tree_ok u \<Longrightarrow> value_at (merge_value b u) path =
    (case value_at u path of
       Some v \<Rightarrow> Some (case value_at b path of Some w \<Rightarrow> merge_value w v | None \<Rightarrow> v)
     | None \<Rightarrow> if hides u path then None else value_at b path)"
proof (induction path arbitrary: b u)
  case (Cons k path)
  consider bs us where "b = JObj bs" "u = JObj us" | us where "\<not> isRecord b" "u = JObj us" | "\<not> isRecord u"
    by (cases b; cases u) auto
  then show ?case
  proof cases
    case (1 bs us)
    show ?thesis
    proof (cases "jm_get us k")
      case None
      with 1 Cons.prems show ?thesis by (simp add: deepMerge_get split: option.split)
    next
      case (Some v)
      have "tree_ok v" "tree_ok (field bs k)"
        using 1 Cons.prems Some tree_ok_get tree_ok_field by blast+
      note IH = Cons.IH [OF this(2,1)]
      show ?thesis
      proof (cases "jm_get bs k")
        case None
        then have "field bs k = JUndefined" by (simp add: field_def)
        moreover have "merge_value JUndefined v = v"
          using \<open>tree_ok v\<close> by (simp add: merge_value_no_record del: merge_value.simps)
        ultimately show ?thesis
          using 1 Cons.prems Some None by (auto simp: deepMerge_get split: option.split)
      next
        case (Some w)
        then have w: "field bs k = w" by (simp add: field_def)
        have at_k: "value_at (merge_value b u) (k # path) = value_at (merge_value w v) path"
          "value_at b (k # path) = value_at w path" "value_at u (k # path) = value_at v path"
          "hides u (k # path) = hides v path"
          using 1 Cons.prems Some \<open>jm_get us k = Some v\<close> w by (simp_all add: deepMerge_get)
        show ?thesis unfolding at_k by (rule IH [unfolded w])
      qed
    qed
  next
    case (2 us)
    then have "merge_value b u = u" using Cons.prems by (simp add: merge_value_no_record)
    moreover have "value_at b (k # path) = None" using 2 by (simp add: value_at_no_record)
    ultimately show ?thesis by (auto split: option.split)
  next
    case 3
    then have "merge_value b u = u" using Cons.prems by (simp add: merge_value_no_record)
    moreover have "value_at u (k # path) = None" "hides u (k # path)" using 3 by (cases u; simp)+
    ultimately show ?thesis by simp
  qed
qed simp

section \<open>Precedence of the layers\<close>

text \<open>The document \<open>loadRuntimeConfig\<close> merges from the defaults and the three files.\<close>

definition merged_document :: "jsobj \<Rightarrow> jsobj \<Rightarrow> jsobj \<Rightarrow> jsobj \<Rightarrow> jsobj" where
  "merged_document defaults base values overrides =
     deepMerge (deepMerge (deepMerge defaults base) values) overrides"

text \<open>The first layer that has a value at the path decides it.\<close>

fun first_value :: "jsobj list \<Rightarrow> string list \<Rightarrow> jsval option" where
  "first_value [] path = None"
| "first_value (layer # layers) path =
     (case value_at (JObj layer) path of Some v \<Rightarrow> Some v | None \<Rightarrow> first_value layers path)"

definition plain_at :: "jsobj \<Rightarrow> string list \<Rightarrow> bool" where
  "plain_at layer path \<longleftrightarrow> \<not> hides (JObj layer) path \<and>
     (case value_at (JObj layer) path of None \<Rightarrow> True | Some v \<Rightarrow> \<not> isRecord v)"

lemma deepMerge_at:
  assumes "tree_ok (JObj base)" and "tree_ok (JObj overlay)" and "plain_at overlay path"
  shows "value_at (JObj (deepMerge base overlay)) path =
    (case value_at (JObj overlay) path of Some v \<Rightarrow> Some v | None \<Rightarrow> value_at (JObj base) path)"
proof -
  have eq: "merge_value w v = v" if "value_at (JObj overlay) path = Some v" for w v
  proof -
    have "\<not> isRecord v" using assms(3) that by (auto simp: plain_at_def)
    moreover have "tree_ok u \<Longrightarrow> value_at u path = Some v \<Longrightarrow> tree_ok v" for u
      by (induction u path rule: value_at.induct)
        (auto simp: list_all_iff dest!: jm_get_Some_mem split: option.splits)
    ultimately show ?thesis using assms(2) that merge_value_no_record by blast
  qed
  have "value_at (JObj (deepMerge base overlay)) path = value_at (merge_value (JObj base) (JObj overlay)) path"
    by simp
  also have "\<dots> = (case value_at (JObj overlay) path of Some v \<Rightarrow> Some v | None \<Rightarrow> value_at (JObj base) path)"
    unfolding merge_value_at [OF assms(1,2)] using eq assms(3)
    by (auto simp: plain_at_def split: option.split)
  finally show ?thesis .
qed

text \<open>
  The layers of a configuration have a fixed precedence: at every path at which no layer has
  a record and above which none has a value that is no record, the merged document has the value
  of the overrides file if it has one there, else that of the values file, else that of the base
  file, else that of the defaults, and no value if none of them has one.
\<close>

theorem layer_precedence:
  assumes "list_all (\<lambda>layer. tree_ok (JObj layer) \<and> plain_at layer path) [defaults, base, values, overrides]"
  shows "value_at (JObj (merged_document defaults base values overrides)) path =
    first_value [overrides, values, base, defaults] path"
  using assms by (simp add: merged_document_def deepMerge_at merge_tree_ok del: tree_ok.simps split: option.split)

definition sample_layer :: "string \<Rightarrow> rat \<Rightarrow> jsobj" where
  "sample_layer k n = [(''pools'', JObj [(k, JNum (Finite n))])]"

theorem layer_precedence_witness:
  "value_at (JObj (merged_document [] (sample_layer ''io'' 1) (sample_layer ''cpu'' 2) (sample_layer ''io'' 3)))
     [''pools'', ''io''] = Some (JNum (Finite 3)) \<and>
   value_at (JObj (merged_document [] (sample_layer ''io'' 1) (sample_layer ''cpu'' 2) (sample_layer ''io'' 3)))
     [''pools'', ''cpu''] = Some (JNum (Finite 2))"
proof -
  have ok: "list_all (\<lambda>layer. tree_ok (JObj layer) \<and> plain_at layer [''pools'', k])
      [[], sample_layer ''io'' 1, sample_layer ''cpu'' 2, sample_layer ''io'' 3]"
    if "k = ''io'' \<or> k = ''cpu''" for k
    using that by (auto simp: sample_layer_def plain_at_def jm_ok_def)
  show ?thesis
    using layer_precedence [OF ok [of "''io''"]] layer_precedence [OF ok [of "''cpu''"]]
    by (simp add: sample_layer_def)
qed

section \<open>Patches\<close>

text \<open>A patch changes what is at its path and nothing that is neither above nor below it.\<close>

lemma value_at_set:
  "value_at (JObj (jm_set es k v)) (j # path) = (if j = k then value_at v path else value_at (JObj es) (j # path))"
  by (simp add: jsmap_simps)

lemma set_below_spec:
  assumes "set_below whole es path v = Inr es'"
  shows "path \<noteq> [] \<and> value_at (JObj es') path = Some v \<and>
    (\<forall>other. path \<parallel> other \<longrightarrow> value_at (JObj es') other = value_at (JObj es) other)"
  using assms
proof (induction whole es path v arbitrary: es' rule: set_below.induct)
  case (2 whole es leaf v)
  have "value_at (JObj es') other = value_at (JObj es) other" if "[leaf] \<parallel> other" for other
    using that 2 by (cases other) (auto simp: value_at_set parallel_def simp del: value_at.simps split: if_splits)
  with 2 show ?case by (auto simp: value_at_set simp del: value_at.simps(2) split: if_splits)
next
  case (3 whole es segment k path v)
  then obtain child child' where c: "field es segment = JObj child"
    "set_below whole child (k # path) v = Inr child'" "es' = jm_set es segment (JObj child')"
    by (auto simp: result_simps split: jsval.splits)
  then have child: "jm_get es segment = Some (JObj child)"
    by (auto simp: field_def split: option.splits)
  have "value_at (JObj es') other = value_at (JObj es) other" if "segment # k # path \<parallel> other" for other
  proof (cases other)
    case (Cons j rest)
    with that have "j = segment \<Longrightarrow> k # path \<parallel> rest" by (auto simp: parallel_def)
    with Cons "3.IH" [OF c(1,2)] child show ?thesis
      unfolding c(3) by (cases "j = segment") (auto simp: jsmap_simps)
  qed (use that in \<open>auto simp: parallel_def\<close>)
  with "3.IH" [OF c(1,2)] show ?case unfolding c(3) by (simp add: value_at_set del: value_at.simps)
qed simp

lemma set_below_ok:
  "path \<noteq> [] \<Longrightarrow> value_at (JObj es) path \<noteq> None \<Longrightarrow> \<exists>es'. set_below whole es path v = Inr es'"
proof (induction whole es path v rule: set_below.induct)
  case (2 whole es leaf v)
  then show ?case by (auto simp: has_field_def jm_has_def split: option.splits)
next
  case (3 whole es segment k path v)
  then obtain w where w: "jm_get es segment = Some w" "value_at w (k # path) \<noteq> None"
    by (auto split: option.splits)
  then obtain child where c: "jm_get es segment = Some (JObj child)" "value_at (JObj child) (k # path) \<noteq> None"
    by (cases w) auto
  then have "field es segment = JObj child" by (simp add: field_def)
  with "3.IH" [OF this] c show ?case by fastforce
qed simp

lemma setPath_spec:
  assumes "setPath document path v = Inr document'"
  shows "value_at (JObj document') path = Some v"
    and "path \<parallel> other \<Longrightarrow> value_at (JObj document') other = value_at (JObj document) other"
  using assms set_below_spec [of path document path v document'] by (auto simp: setPath_def split: if_splits)

text \<open>The patches of the variables that are set, in order.\<close>

definition active :: "EnvironmentPatch list \<Rightarrow> (string \<Rightarrow> string option) \<Rightarrow> EnvironmentPatch list" where
  "active patches environment = filter (\<lambda>p. environment (patch_environment p) \<noteq> None) patches"

lemma applyEnvironment_unrelated:
  "applyEnvironment document patches environment = Inr document' \<Longrightarrow>
    list_all (\<lambda>p. patch_path p \<parallel> path) (active patches environment) \<Longrightarrow>
    value_at (JObj document') path = value_at (JObj document) path"
proof (induction patches arbitrary: document)
  case (Cons patch patches)
  show ?case
  proof (cases "environment (patch_environment patch)")
    case None
    with Cons show ?thesis by (simp add: active_def)
  next
    case (Some raw)
    with Cons.prems obtain v d where "setPath document (patch_path patch) v = Inr d"
      "applyEnvironment d patches environment = Inr document'"
      by (auto simp: result_simps)
    moreover have "patch_path patch \<parallel> path" "list_all (\<lambda>p. patch_path p \<parallel> path) (active patches environment)"
      using Cons.prems(2) Some by (simp_all add: active_def)
    ultimately show ?thesis using Cons.IH [of d] setPath_spec(2) by metis
  qed
qed simp

lemma applyEnvironment_append:
  "applyEnvironment document (ps @ qs) environment =
    bindR (applyEnvironment document ps environment) (\<lambda>d. applyEnvironment d qs environment)"
  by (induction document ps environment rule: applyEnvironment.induct)
    (auto simp: bindR_assoc split: option.split)

text \<open>
  The environment overrides every file, and the last patch wins: when the patches have been
  applied, the document has at the path of a patch whose variable is set the value parsed from
  that variable, unless a later patch changes that path, a part of it or something it lies in;
  and a path that no patch touches keeps the value of the merged document.
\<close>

theorem environment_patches:
  assumes "applyEnvironment document (earlier @ patch # later) environment = Inr document'"
    and "environment (patch_environment patch) = Some raw"
    and "list_all (\<lambda>p. patch_path p \<parallel> patch_path patch) (active later environment)"
    and "list_all (\<lambda>p. patch_path p \<parallel> other) (active (earlier @ patch # later) environment)"
  shows "(\<exists>v. patch_parse patch raw = Inr v \<and> value_at (JObj document') (patch_path patch) = Some v) \<and>
    value_at (JObj document') other = value_at (JObj document) other"
proof
  obtain d v d' where d: "patch_parse patch raw = Inr v" "setPath d (patch_path patch) v = Inr d'"
    "applyEnvironment d' later environment = Inr document'"
    using assms(1,2) by (auto simp: applyEnvironment_append result_simps)
  show "\<exists>v. patch_parse patch raw = Inr v \<and> value_at (JObj document') (patch_path patch) = Some v"
    using d(1) setPath_spec(1) [OF d(2)] applyEnvironment_unrelated [OF d(3) assms(3)] by simp
  show "value_at (JObj document') other = value_at (JObj document) other"
    by (rule applyEnvironment_unrelated [OF assms(1,4)])
qed

definition text_patch :: "string \<Rightarrow> string list \<Rightarrow> EnvironmentPatch" where
  "text_patch name path = \<lparr>patch_environment = name, patch_path = path, patch_parse = (\<lambda>raw. Inr (JStr raw))\<rparr>"

theorem environment_patches_witness:
  "let environment = (\<lambda>name. if name = ''HOST'' then Some ''db'' else None);
       document = [(''a'', JObj [(''host'', JNull)]), (''b'', JNull)]
   in value_at (JObj [(''a'', JObj [(''host'', JStr ''db'')]), (''b'', JNull)]) [''a'', ''host''] = Some (JStr ''db'') \<and>
      applyEnvironment document [text_patch ''PORT'' [''b''], text_patch ''HOST'' [''a'', ''host'']] environment =
        Inr [(''a'', JObj [(''host'', JStr ''db'')]), (''b'', JNull)]"
proof -
  let ?env = "\<lambda>name. if name = ''HOST'' then Some ''db'' else None"
  let ?patches = "[text_patch ''PORT'' [''b'']] @ text_patch ''HOST'' [''a'', ''host''] # []"
  have run: "applyEnvironment [(''a'', JObj [(''host'', JNull)]), (''b'', JNull)] ?patches ?env =
      Inr [(''a'', JObj [(''host'', JStr ''db'')]), (''b'', JNull)]"
    by (simp add: text_patch_def setPath_def field_def has_field_def jm_has_def)
  show ?thesis
    using environment_patches [OF run, of "''db''" "[''b'']"] run
    by (simp add: text_patch_def active_def parallel_def Let_def)
qed

section \<open>Empty layers\<close>

lemma merge_entries_fresh:
  "tree_ok (JObj es) \<Longrightarrow> set (map fst es) \<inter> set (map fst result) = {} \<Longrightarrow> merge_entries result es = result @ es"
proof (induction es arbitrary: result)
  case (Cons e es)
  obtain k v where e: "e = (k, v)" by force
  have "tree_ok v" "tree_ok (JObj es)" "k \<notin> set (map fst es)" "k \<notin> set (map fst result)"
    using Cons.prems e by (auto simp: jm_ok_def)
  moreover from this have "merge_value (field result k) v = v"
    by (intro merge_value_no_record) (simp_all add: field_def jm_get_None_iff [THEN iffD2])
  ultimately show ?case
    using Cons.IH [of "result @ [(k, v)]"] Cons.prems(2) e by (simp add: merge_entries.simps jm_set_fresh)
qed (simp add: merge_entries.simps)

lemma merge_empty_layers:
  assumes "tree_ok (JObj es)"
  shows "deepMerge [] es = es" and "deepMerge es [] = es"
  using assms merge_entries_fresh [of es "[]"] clone_id [OF assms] by (simp_all add: deepMerge.simps merge_entries.simps)

end
