(* ===== verification/ConfigLoader.thy ===== *)
theory ConfigLoader
  imports ConfigMerge RuntimeConfig "HOL-Library.Word"
begin

text \<open>
  Loading and reloading of the configuration, from \<open>src/runtime/config/loader.ts\<close>:
  \<open>loadRuntimeConfig\<close>, the store that publishes configurations to its subscribers, and the loader
  that polls the files. Reading a file, parsing YAML and the schema are parameters. The loader is
  a machine whose events are its calls, the ticks of its timer and the results of its reads and
  loads, in whatever order they come.
\<close>

section \<open>Loading\<close>

definition readYaml ::
  "(string \<Rightarrow> string + string) \<Rightarrow> (string \<Rightarrow> string + jsval) \<Rightarrow> string \<Rightarrow> string + jsobj" where
  "readYaml readFile yaml path =
     (case readFile path of
        Inl _ \<Rightarrow> Inl (''cannot read config file '' @ path)
      | Inr text \<Rightarrow>
          (case yaml text of
             Inl _ \<Rightarrow> Inl (''cannot parse config file '' @ path)
           | Inr v \<Rightarrow> requireRecord v path))"

record ConfigLoadOptions =
  configPath :: string
  valuesPath :: "string option"
  overridesPath :: "string option"
  option_defaults :: "jsobj option"
  option_environment :: "(string \<Rightarrow> string option) option"
  patches :: "EnvironmentPatch list option"
  schema_parse :: "jsval \<Rightarrow> string + CanonicalConfig"

definition optional_yaml :: "(string \<Rightarrow> string + jsobj) \<Rightarrow> string option \<Rightarrow> string + jsobj" where
  "optional_yaml read path = (case path of None \<Rightarrow> Inr [] | Some p \<Rightarrow> read p)"

text \<open>\<open>env\<close> is \<open>process.env\<close>. Freezing the parsed value does not change it.\<close>

definition loadRuntimeConfig ::
  "(string \<Rightarrow> string + string) \<Rightarrow> (string \<Rightarrow> string + jsval) \<Rightarrow> (string \<Rightarrow> string option) \<Rightarrow>
   ConfigLoadOptions \<Rightarrow> string + RuntimeConfig" where
  "loadRuntimeConfig readFile yaml env options =
     bindR (readYaml readFile yaml (configPath options)) (\<lambda>base.
     bindR (optional_yaml (readYaml readFile yaml) (valuesPath options)) (\<lambda>values.
     bindR (optional_yaml (readYaml readFile yaml) (overridesPath options)) (\<lambda>overrides.
     bindR (applyEnvironment
         (merged_document (case option_defaults options of None \<Rightarrow> [] | Some d \<Rightarrow> d) base values overrides)
         (case patches options of None \<Rightarrow> [] | Some ps \<Rightarrow> ps)
         (case option_environment options of None \<Rightarrow> env | Some e \<Rightarrow> e)) (\<lambda>merged.
     bindR (schema_parse options (JObj merged)) RuntimeConfig_new))))"

section \<open>The store\<close>

text \<open>
  Validators and listeners are functions with an identity, kept in a \<open>Set\<close>; each returns the
  error it throws, if any. \<open>store_calls\<close> is what the listeners were called with.
\<close>

record 'c RuntimeConfigStore =
  store_current :: 'c
  store_validators :: "(nat, 'c \<Rightarrow> 'c \<Rightarrow> string option) jsmap"
  store_listeners :: "(nat, 'c \<Rightarrow> string option) jsmap"
  store_calls :: "(nat \<times> 'c) list"

definition store_new :: "'c \<Rightarrow> 'c RuntimeConfigStore" where
  "store_new initial =
     \<lparr>store_current = initial, store_validators = [], store_listeners = [], store_calls = []\<rparr>"

definition store_subscribe ::
  "'c RuntimeConfigStore \<Rightarrow> nat \<Rightarrow> ('c \<Rightarrow> string option) \<Rightarrow> 'c RuntimeConfigStore" where
  "store_subscribe s i f = s\<lparr>store_listeners := jm_set (store_listeners s) i f\<rparr>"

definition store_unsubscribe :: "'c RuntimeConfigStore \<Rightarrow> nat \<Rightarrow> 'c RuntimeConfigStore" where
  "store_unsubscribe s i = s\<lparr>store_listeners := jm_delete (store_listeners s) i\<rparr>"

definition store_validate ::
  "'c RuntimeConfigStore \<Rightarrow> nat \<Rightarrow> ('c \<Rightarrow> 'c \<Rightarrow> string option) \<Rightarrow> 'c RuntimeConfigStore" where
  "store_validate s i f = s\<lparr>store_validators := jm_set (store_validators s) i f\<rparr>"

definition store_unvalidate :: "'c RuntimeConfigStore \<Rightarrow> nat \<Rightarrow> 'c RuntimeConfigStore" where
  "store_unvalidate s i = s\<lparr>store_validators := jm_delete (store_validators s) i\<rparr>"

fun run_validators :: "(nat, 'c \<Rightarrow> 'c \<Rightarrow> string option) jsmap \<Rightarrow> 'c \<Rightarrow> 'c \<Rightarrow> string option" where
  "run_validators [] config current = None"
| "run_validators ((_, f) # fs) config current =
     (case f config current of Some e \<Rightarrow> Some e | None \<Rightarrow> run_validators fs config current)"

fun run_listeners ::
  "(nat, 'c \<Rightarrow> string option) jsmap \<Rightarrow> 'c \<Rightarrow> (nat \<times> 'c) list \<times> string option" where
  "run_listeners [] config = ([], None)"
| "run_listeners ((i, f) # fs) config =
     (case f config of
        Some e \<Rightarrow> ([(i, config)], Some e)
      | None \<Rightarrow> (case run_listeners fs config of (calls, r) \<Rightarrow> ((i, config) # calls, r)))"

definition store_publish :: "'c RuntimeConfigStore \<Rightarrow> 'c \<Rightarrow> 'c RuntimeConfigStore \<times> string option" where
  "store_publish s config =
     (case run_validators (store_validators s) config (store_current s) of
        Some e \<Rightarrow> (s, Some e)
      | None \<Rightarrow>
          (case run_listeners (store_listeners s) config of
             (calls, r) \<Rightarrow> (s\<lparr>store_current := config, store_calls := store_calls s @ calls\<rparr>, r)))"

text \<open>\<open>reload\<close>, given how the load settled: what the promise settles with.\<close>

definition store_reload ::
  "'c RuntimeConfigStore \<Rightarrow> string + 'c \<Rightarrow> ('c \<Rightarrow> string option) \<Rightarrow> (string \<Rightarrow> string option) \<Rightarrow>
   'c RuntimeConfigStore \<times> (string + bool)" where
  "store_reload s loaded onPublished onRejected =
     (let rejected = (\<lambda>e. case onRejected e of Some e' \<Rightarrow> Inl e' | None \<Rightarrow> Inr False)
      in case loaded of
           Inl e \<Rightarrow> (s, rejected e)
         | Inr candidate \<Rightarrow>
             (case store_publish s candidate of
                (s', Some e) \<Rightarrow> (s', rejected e)
              | (s', None) \<Rightarrow>
                  (case onPublished candidate of Some e \<Rightarrow> (s', rejected e) | None \<Rightarrow> (s', Inr True))))"

section \<open>The loader\<close>

type_synonym snapshots = "8 word list list"

definition snapshotsEqual :: "snapshots \<Rightarrow> snapshots \<Rightarrow> bool" where
  "snapshotsEqual left right =
     (if length left \<noteq> length right then False
      else list_all (\<lambda>i. case elem_at right i of None \<Rightarrow> False | Some candidate \<Rightarrow> left ! i = candidate)
        [0..<length left])"

datatype loader_state = LoaderCreated | LoaderRunning | LoaderStopped

text \<open>Where a pass over the files stands: what it awaits, and what it has read so far.\<close>

datatype 'c pass = ReadingBefore | Loading snapshots | ReadingAfter snapshots 'c

text \<open>
  \<open>intervals\<close> are the live intervals of the host, \<open>loader_timer\<close> the one the loader remembers;
  \<open>starts\<close> are the calls of \<open>start\<close> that are synchronising, and \<open>loader_polling\<close> the pass of the
  poll that is under way. The two counters are \<open>loader_success\<close> and \<open>loader_error\<close>.
\<close>

record 'c RuntimeConfigLoader =
  loader_store :: "'c RuntimeConfigStore"
  pollIntervalMs :: int
  observed :: "snapshots option"
  loader_timer :: "nat option"
  intervals :: "nat list"
  next_interval :: nat
  loader_polling :: "'c pass option"
  readFailureRecorded :: bool
  loader_state :: loader_state
  loader_success :: nat
  loader_error :: nat
  loader_log :: "string list"
  starts :: "(nat, 'c pass) jsmap"
  next_start :: nat

definition loader_new ::
  "number option \<Rightarrow> string list \<Rightarrow> 'c RuntimeConfigStore \<Rightarrow> string + 'c RuntimeConfigLoader" where
  "loader_new interval paths store =
     (let ms = (case interval of None \<Rightarrow> Finite 250 | Some n \<Rightarrow> n)
      in if \<not> is_safe_integer ms \<or> num_less ms (Finite 1)
         then Inl ''config reload poll interval must be a positive integer''
         else if paths = [] then Inl ''config reload paths must not be empty''
         else Inr \<lparr>loader_store = store, pollIntervalMs = (case ms of Finite q \<Rightarrow> \<lfloor>q\<rfloor> | _ \<Rightarrow> 0),
                   observed = None, loader_timer = None, intervals = [], next_interval = 0,
                   loader_polling = None, readFailureRecorded = False, loader_state = LoaderCreated,
                   loader_success = 0, loader_error = 0, loader_log = [], starts = [], next_start = 0\<rparr>)"

text \<open>\<open>start\<close> up to its first await; \<open>None\<close> when it throws.\<close>

definition loader_start :: "'c RuntimeConfigLoader \<Rightarrow> 'c RuntimeConfigLoader option" where
  "loader_start l =
     (if loader_state l \<noteq> LoaderCreated then None
      else Some (l\<lparr>starts := jm_set (starts l) (next_start l) ReadingBefore, next_start := next_start l + 1\<rparr>))"

text \<open>The rest of \<open>start\<close>, once the initial snapshot is synchronised.\<close>

definition loader_started :: "'c RuntimeConfigLoader \<Rightarrow> 'c RuntimeConfigLoader" where
  "loader_started l =
     l\<lparr>loader_state := LoaderRunning, loader_timer := Some (next_interval l),
       intervals := intervals l @ [next_interval l], next_interval := next_interval l + 1\<rparr>"

definition loader_stop :: "'c RuntimeConfigLoader \<Rightarrow> 'c RuntimeConfigLoader" where
  "loader_stop l =
     (if loader_state l = LoaderStopped then l
      else (case loader_timer l of
              None \<Rightarrow> l\<lparr>loader_state := LoaderStopped\<rparr>
            | Some h \<Rightarrow> l\<lparr>loader_state := LoaderStopped, loader_timer := None,
                          intervals := filter (\<lambda>i. i \<noteq> h) (intervals l)\<rparr>))"

text \<open>A read or a load of a pass settles: the passes of \<open>synchronizeInitialSnapshot\<close>\<dots>\<close>

datatype 'c settled = ReadDone "string + snapshots" | LoadDone "string + 'c"

fun sync_settled :: "'c RuntimeConfigLoader \<Rightarrow> nat \<Rightarrow> 'c pass \<Rightarrow> 'c settled \<Rightarrow> 'c RuntimeConfigLoader" where
  "sync_settled l i ReadingBefore (ReadDone (Inr before)) = l\<lparr>starts := jm_set (starts l) i (Loading before)\<rparr>"
| "sync_settled l i (Loading before) (LoadDone (Inr candidate)) =
     l\<lparr>starts := jm_set (starts l) i (ReadingAfter before candidate)\<rparr>"
| "sync_settled l i (ReadingAfter before candidate) (ReadDone (Inr after)) =
     (if snapshotsEqual before after then
        (case store_publish (loader_store l) candidate of
           (s, Some e) \<Rightarrow> l\<lparr>loader_store := s, starts := jm_delete (starts l) i\<rparr>
         | (s, None) \<Rightarrow>
             loader_started (l\<lparr>loader_store := s, observed := Some after, starts := jm_delete (starts l) i\<rparr>))
      else l\<lparr>starts := jm_set (starts l) i ReadingBefore\<rparr>)"
| "sync_settled l i _ (ReadDone (Inl e)) = l\<lparr>starts := jm_delete (starts l) i\<rparr>"
| "sync_settled l i _ (LoadDone (Inl e)) = l\<lparr>starts := jm_delete (starts l) i\<rparr>"
| "sync_settled l i _ _ = l"

text \<open>\<dots>and the pass of a poll.\<close>

definition poll_failed :: "snapshots \<Rightarrow> 'c RuntimeConfigLoader \<Rightarrow> 'c RuntimeConfigLoader" where
  "poll_failed before l =
     l\<lparr>observed := Some before, loader_error := loader_error l + 1,
       loader_log := loader_log l @ [''config reload error''], loader_polling := None\<rparr>"

fun poll_settled :: "'c RuntimeConfigLoader \<Rightarrow> 'c pass \<Rightarrow> 'c settled \<Rightarrow> 'c RuntimeConfigLoader" where
  "poll_settled l ReadingBefore (ReadDone (Inl e)) =
     (if readFailureRecorded l then l\<lparr>loader_polling := None\<rparr>
      else l\<lparr>readFailureRecorded := True, loader_error := loader_error l + 1,
             loader_log := loader_log l @ [''error reading override config file''], loader_polling := None\<rparr>)"
| "poll_settled l ReadingBefore (ReadDone (Inr before)) =
     (let l' = l\<lparr>readFailureRecorded := False\<rparr>
      in if (case observed l of None \<Rightarrow> False | Some seen \<Rightarrow> snapshotsEqual seen before)
         then l'\<lparr>loader_polling := None\<rparr>
         else l'\<lparr>loader_polling := Some (Loading before)\<rparr>)"
| "poll_settled l (Loading before) (LoadDone (Inl e)) = poll_failed before l"
| "poll_settled l (Loading before) (LoadDone (Inr candidate)) =
     l\<lparr>loader_polling := Some (ReadingAfter before candidate)\<rparr>"
| "poll_settled l (ReadingAfter before candidate) (ReadDone (Inl e)) = poll_failed before l"
| "poll_settled l (ReadingAfter before candidate) (ReadDone (Inr after)) =
     (if \<not> snapshotsEqual before after then l\<lparr>loader_polling := None\<rparr>
      else (case store_publish (loader_store l) candidate of
              (s, Some e) \<Rightarrow> poll_failed before (l\<lparr>loader_store := s\<rparr>)
            | (s, None) \<Rightarrow>
                l\<lparr>loader_store := s, observed := Some after, loader_success := loader_success l + 1,
                  loader_polling := None\<rparr>))"
| "poll_settled l _ _ = l"

text \<open>The callback of the interval: a poll begins when none is under way.\<close>

definition loader_tick :: "'c RuntimeConfigLoader \<Rightarrow> nat \<Rightarrow> 'c RuntimeConfigLoader" where
  "loader_tick l h =
     (if h \<in> set (intervals l) \<and> loader_polling l = None \<and> loader_state l = LoaderRunning
      then l\<lparr>loader_polling := Some ReadingBefore\<rparr> else l)"

datatype who = Poll | Start nat
datatype 'c loader_event = StartCall | StopCall | Tick nat | Settled who "'c settled"

fun loader_step :: "'c RuntimeConfigLoader \<Rightarrow> 'c loader_event \<Rightarrow> 'c RuntimeConfigLoader" where
  "loader_step l StartCall = (case loader_start l of None \<Rightarrow> l | Some l' \<Rightarrow> l')"
| "loader_step l StopCall = loader_stop l"
| "loader_step l (Tick h) = loader_tick l h"
| "loader_step l (Settled Poll r) = (case loader_polling l of None \<Rightarrow> l | Some p \<Rightarrow> poll_settled l p r)"
| "loader_step l (Settled (Start i) r) = (case jm_get (starts l) i of None \<Rightarrow> l | Some p \<Rightarrow> sync_settled l i p r)"

definition loader_run :: "'c RuntimeConfigLoader \<Rightarrow> 'c loader_event list \<Rightarrow> 'c RuntimeConfigLoader" where
  "loader_run l evs = foldl loader_step l evs"

section \<open>Publication\<close>

lemma snapshotsEqual_iff: "snapshotsEqual left right \<longleftrightarrow> left = right"
proof -
  have "list_all (\<lambda>i. case elem_at right i of None \<Rightarrow> False | Some candidate \<Rightarrow> left ! i = candidate)
      [0..<length left] \<longleftrightarrow> (\<forall>i < length left. left ! i = right ! i)" if "length left = length right"
    using that by (auto simp: list_all_iff elem_at_def split: option.split)
  moreover have "left = right \<longleftrightarrow> length left = length right \<and> (\<forall>i < length left. left ! i = right ! i)"
    by (rule list_eq_iff_nth_eq)
  ultimately show ?thesis by (simp add: snapshotsEqual_def)
qed

text \<open>The listeners up to and including the first that throws.\<close>

fun up_to_throw :: "(nat, 'c \<Rightarrow> string option) jsmap \<Rightarrow> 'c \<Rightarrow> nat list" where
  "up_to_throw [] config = []"
| "up_to_throw ((i, f) # fs) config = (if f config = None then i # up_to_throw fs config else [i])"

lemma run_listeners_calls:
  "run_listeners fs config = (calls, r) \<Longrightarrow>
    calls = map (\<lambda>i. (i, config)) (up_to_throw fs config) \<and>
    (r = None \<longleftrightarrow> list_all (\<lambda>f. snd f config = None) fs)"
  by (induction fs config arbitrary: calls r rule: run_listeners.induct)
    (auto split: option.splits prod.splits)

lemma run_validators_None:
  "run_validators fs config current = None \<longleftrightarrow> list_all (\<lambda>f. snd f config current = None) fs"
  by (induction fs config current rule: run_validators.induct) (auto split: option.splits)

lemma store_publish_cases:
  assumes "store_publish s c = (s', r)"
  obtains e where "run_validators (store_validators s) c (store_current s) = Some e" "s' = s" "r = Some e"
  | "run_validators (store_validators s) c (store_current s) = None" "store_current s' = c"
    "store_validators s' = store_validators s" "store_listeners s' = store_listeners s"
    "store_calls s' = store_calls s @ map (\<lambda>i. (i, c)) (up_to_throw (store_listeners s) c)"
    "r = None \<longleftrightarrow> list_all (\<lambda>f. snd f c = None) (store_listeners s)"
proof (cases "run_validators (store_validators s) c (store_current s)")
  case (Some e)
  with assms have "s' = s" "r = Some e" by (simp_all add: store_publish_def)
  with Some show ?thesis by (rule that(1))
next
  case None
  obtain calls t where l: "run_listeners (store_listeners s) c = (calls, t)"
    by (cases "run_listeners (store_listeners s) c")
  with None assms have "s' = s\<lparr>store_current := c, store_calls := store_calls s @ calls\<rparr>" "r = t"
    by (simp_all add: store_publish_def)
  with None run_listeners_calls [OF l] show ?thesis by (intro that(2)) simp_all
qed

text \<open>
  A candidate a validator rejects is never observable: the store keeps its current
  configuration and no listener is called. A candidate all validators accept becomes the current
  configuration, and the listeners are called with it in the order they subscribed, up to the
  first that throws; \<open>publish\<close> throws exactly when a validator or a listener does.
\<close>

theorem store_publish_atomic:
  "let accepted = list_all (\<lambda>f. snd f c (store_current s) = None) (store_validators s);
       s' = fst (store_publish s c); thrown = snd (store_publish s c)
   in (if accepted
       then store_current s' = c \<and>
         store_calls s' = store_calls s @ map (\<lambda>i. (i, c)) (up_to_throw (store_listeners s) c)
       else s' = s) \<and>
      (thrown = None \<longleftrightarrow> accepted \<and> list_all (\<lambda>f. snd f c = None) (store_listeners s))"
proof -
  obtain s' r where p: "store_publish s c = (s', r)" by (cases "store_publish s c")
  show ?thesis
    unfolding p Let_def fst_conv snd_conv run_validators_None [symmetric]
    using p by (cases rule: store_publish_cases) simp_all
qed

text \<open>
  A listener that throws makes \<open>reload\<close> report the candidate as rejected although the store
  has already made it current: with accepting validators, \<open>reload\<close> answers \<open>false\<close> and the
  candidate is the current configuration.
\<close>

theorem reload_rejects_what_it_published:
  assumes "list_all (\<lambda>f. snd f c (store_current s) = None) (store_validators s)"
    and "list_ex (\<lambda>f. snd f c \<noteq> None) (store_listeners s)"
    and "\<And>e. onRejected e = None"
  shows "\<exists>s'. store_reload s (Inr c) onPublished onRejected = (s', Inr False) \<and> store_current s' = c"
proof -
  obtain s' r where p: "store_publish s c = (s', r)" by (cases "store_publish s c")
  then have "r \<noteq> None \<and> store_current s' = c"
    using assms(1,2)
    by (cases rule: store_publish_cases) (auto simp: run_validators_None [symmetric] list_all_iff list_ex_iff)
  with p assms(3) show ?thesis by (auto simp: store_reload_def split: option.splits)
qed

theorem reload_rejects_what_it_published_witness:
  "\<exists>s'. store_reload (store_subscribe (store_new (1::nat)) 0 (\<lambda>_. Some ''listener'')) (Inr 2)
      (\<lambda>_. None) (\<lambda>_. None) = (s', Inr False) \<and> store_current s' = 2"
  by (rule reload_rejects_what_it_published) (simp_all add: store_subscribe_def store_new_def)

section \<open>Only stable, valid snapshots are published\<close>

text \<open>What the trace of events has to hold for the passes that are under way.\<close>

fun pass_traced :: "'c loader_event list \<Rightarrow> who \<Rightarrow> 'c pass \<Rightarrow> bool" where
  "pass_traced evs w ReadingBefore = True"
| "pass_traced evs w (Loading before) = subseq [Settled w (ReadDone (Inr before))] evs"
| "pass_traced evs w (ReadingAfter before candidate) =
     subseq [Settled w (ReadDone (Inr before)), Settled w (LoadDone (Inr candidate))] evs"

definition loaded_stably :: "'c loader_event list \<Rightarrow> 'c \<Rightarrow> bool" where
  "loaded_stably evs c \<longleftrightarrow>
     (\<exists>w s. subseq [Settled w (ReadDone (Inr s)), Settled w (LoadDone (Inr c)), Settled w (ReadDone (Inr s))] evs)"

definition traced :: "'c loader_event list \<Rightarrow> 'c \<Rightarrow> 'c RuntimeConfigLoader \<Rightarrow> bool" where
  "traced evs initial l \<longleftrightarrow>
     (\<forall>p. loader_polling l = Some p \<longrightarrow> pass_traced evs Poll p) \<and>
     (\<forall>i p. jm_get (starts l) i = Some p \<longrightarrow> pass_traced evs (Start i) p) \<and>
     (store_current (loader_store l) = initial \<or> loaded_stably evs (store_current (loader_store l)))"

lemma pass_traced_snoc: "pass_traced evs w p \<Longrightarrow> pass_traced (evs @ [e]) w p"
  by (cases p) (auto intro: subseq_rev_drop_many)

lemma subseq_snoc: "subseq xs ys \<Longrightarrow> subseq (xs @ [x]) (ys @ [x])"
  by (simp add: subseq_append_iff) blast

lemma pass_traced_advance:
  "pass_traced (evs @ [Settled w (ReadDone (Inr s))]) w (Loading s)"
  "pass_traced evs w (Loading s) \<Longrightarrow> pass_traced (evs @ [Settled w (LoadDone (Inr c))]) w (ReadingAfter s c)"
  "pass_traced evs w (ReadingAfter s c) \<Longrightarrow> loaded_stably (evs @ [Settled w (ReadDone (Inr s))]) c"
  using subseq_snoc [of "[]" evs] subseq_snoc [of "[Settled w (ReadDone (Inr s))]" evs]
    subseq_snoc [of "[Settled w (ReadDone (Inr s)), Settled w (LoadDone (Inr c))]" evs "Settled w (ReadDone (Inr s))"]
  by (simp_all add: loaded_stably_def) blast

lemma traced_polling:
  assumes "traced evs initial l" and "p = None \<or> (\<exists>q. p = Some q \<and> pass_traced (evs @ [e]) Poll q)"
    and "loader_polling l' = p" and "starts l' = starts l"
    and "loader_store l' = loader_store l \<or> loaded_stably (evs @ [e]) (store_current (loader_store l'))"
  shows "traced (evs @ [e]) initial l'"
proof -
  have "loaded_stably evs c \<Longrightarrow> loaded_stably (evs @ [e]) c" for c
    unfolding loaded_stably_def using subseq_rev_drop_many by blast
  with assms pass_traced_snoc [of evs] show ?thesis by (auto simp: traced_def)
qed

lemma traced_starts:
  assumes "traced evs initial l" and "\<And>j q. jm_get m j = Some q \<Longrightarrow>
      jm_get (starts l) j = Some q \<or> pass_traced (evs @ [e]) (Start j) q"
    and "starts l' = m" and "loader_polling l' = loader_polling l"
    and "loader_store l' = loader_store l \<or> loaded_stably (evs @ [e]) (store_current (loader_store l'))"
  shows "traced (evs @ [e]) initial l'"
proof -
  have "loaded_stably evs c \<Longrightarrow> loaded_stably (evs @ [e]) c" for c
    unfolding loaded_stably_def using subseq_rev_drop_many by blast
  with assms pass_traced_snoc [of evs] show ?thesis unfolding traced_def by metis
qed

lemma publish_store:
  assumes "store_publish s c = (s', r)"
  shows "s' = s \<or> store_current s' = c"
  using assms by (cases rule: store_publish_cases) simp_all

lemma poll_settled_traced:
  assumes "traced evs initial l" and "loader_polling l = Some p"
  shows "traced (evs @ [Settled Poll r]) initial (poll_settled l p r)"
proof -
  have p: "pass_traced evs Poll p" using assms by (simp add: traced_def)
  note idle = traced_polling [OF assms(1), where p = None]
    and busy = traced_polling [OF assms(1), where p = "Some q" for q]
  have same: "traced (evs @ [Settled Poll r]) initial l"
    using p assms(2) pass_traced_snoc by (intro busy [of p]) auto
  show ?thesis
  proof (cases "(l, p, r)" rule: poll_settled.cases)
    case (2 l' before)
    then show ?thesis
      using pass_traced_advance(1) [of evs Poll before] by (auto simp: Let_def simp del: pass_traced.simps intro: idle busy)
  next
    case (4 l' before candidate)
    then have "p = Loading before" "r = LoadDone (Inr candidate)" by auto
    then show ?thesis
      using pass_traced_advance(2) [of evs Poll before candidate] p by (auto intro!: busy)
  next
    case (6 l' before candidate after)
    obtain s t where s: "store_publish (loader_store l) candidate = (s, t)"
      by (cases "store_publish (loader_store l) candidate")
    have "before = after \<Longrightarrow> s = loader_store l \<or> loaded_stably (evs @ [Settled Poll r]) (store_current s)"
      using publish_store [OF s] pass_traced_advance(3) [of evs Poll before candidate] p 6 by auto
    with 6 s show ?thesis
      by (auto simp: snapshotsEqual_iff poll_failed_def split: option.split intro!: idle)
  qed (use same in \<open>auto simp: poll_failed_def intro: idle\<close>)
qed

lemma sync_settled_traced:
  assumes "traced evs initial l" and "jm_get (starts l) i = Some p"
  shows "traced (evs @ [Settled (Start i) r]) initial (sync_settled l i p r)"
proof -
  have p: "pass_traced evs (Start i) p" using assms by (simp add: traced_def)
  note step = traced_starts [OF assms(1)]
  have same: "traced (evs @ [Settled (Start i) r]) initial l"
    by (rule step [where m = "starts l"]) auto
  have dropped: "traced (evs @ [e]) initial l'"
    if "starts l' = jm_delete (starts l) i" "loader_polling l' = loader_polling l"
      "loader_store l' = loader_store l \<or>
        loaded_stably (evs @ [e]) (store_current (loader_store l'))" for e l'
    using that by (intro step [where m = "jm_delete (starts l) i"]) (auto simp: jsmap_simps split: if_splits)
  have moved: "traced (evs @ [e]) initial (l\<lparr>starts := jm_set (starts l) i q\<rparr>)"
    if "pass_traced (evs @ [e]) (Start i) q" for e q
    using that by (intro step [where m = "jm_set (starts l) i q"]) (auto simp: jsmap_simps split: if_splits)
  show ?thesis
  proof (cases "(l, i, p, r)" rule: sync_settled.cases)
    case (1 l' i' before)
    then have "p = ReadingBefore" "r = ReadDone (Inr before)" by auto
    then show ?thesis
      using pass_traced_advance(1) [of evs "Start i" before] moved [of "Settled (Start i) r" "Loading before"] by simp
  next
    case (2 l' i' before candidate)
    then have "p = Loading before" "r = LoadDone (Inr candidate)" by auto
    then show ?thesis
      using pass_traced_advance(2) [of evs "Start i" before candidate] moved [of "Settled (Start i) r" "ReadingAfter before candidate"] p
      by simp
  next
    case (3 l' i' before candidate after)
    then have eqs: "p = ReadingAfter before candidate" "r = ReadDone (Inr after)" by auto
    obtain s t where s: "store_publish (loader_store l) candidate = (s, t)"
      by (cases "store_publish (loader_store l) candidate")
    have "before = after \<Longrightarrow> s = loader_store l \<or> loaded_stably (evs @ [Settled (Start i) r]) (store_current s)"
      using publish_store [OF s] pass_traced_advance(3) [of evs "Start i" before candidate] p eqs by auto
    with eqs s show ?thesis
      by (auto simp: snapshotsEqual_iff loader_started_def split: option.split intro!: dropped moved)
  qed (use same in \<open>auto intro: dropped\<close>)
qed

lemma loader_step_traced:
  assumes "traced evs initial l"
  shows "traced (evs @ [e]) initial (loader_step l e)"
proof (cases e)
  case StartCall
  have "traced (evs @ [e]) initial l" by (rule traced_starts [OF assms, of "starts l"]) auto
  moreover have "traced (evs @ [e]) initial
      (l\<lparr>starts := jm_set (starts l) (next_start l) ReadingBefore, next_start := next_start l + 1\<rparr>)"
    by (rule traced_starts [OF assms, of "jm_set (starts l) (next_start l) ReadingBefore"])
      (auto simp: jsmap_simps split: if_splits)
  ultimately show ?thesis using StartCall by (simp add: loader_start_def)
next
  case StopCall
  then show ?thesis
    by (auto simp: loader_stop_def intro!: traced_starts [OF assms] split: option.split)
next
  case (Tick h)
  then show ?thesis
    by (auto simp: loader_tick_def intro: traced_polling [OF assms, of "Some ReadingBefore"]
        traced_starts [OF assms, of "starts l"])
next
  case (Settled w r)
  have same: "traced (evs @ [Settled w r]) initial l"
    by (rule traced_starts [OF assms, where m = "starts l"]) auto
  with Settled show ?thesis
    by (cases w) (auto split: option.split intro: poll_settled_traced [OF assms] sync_settled_traced [OF assms])
qed

lemma loader_run_traced:
  assumes "loader_new interval paths store = Inr l"
  shows "traced evs (store_current store) (loader_run l evs)"
proof (induction evs rule: rev_induct)
  case Nil
  show ?case
    using assms by (auto simp: loader_new_def loader_run_def traced_def Let_def split: if_splits)
next
  case (snoc e evs)
  then show ?case by (simp add: loader_run_def loader_step_traced)
qed

text \<open>
  C11. The loader publishes only what it loaded from files that did not change meanwhile: after
  any events (starts, stops, ticks, and reads and loads of all passes, however they interleave),
  a current configuration that is not the initial one was loaded by a pass that had read the
  files before the load and read the same contents after it.
\<close>

theorem loader_publishes_stable:
  assumes "loader_new interval paths store = Inr l"
    and "store_current (loader_store (loader_run l evs)) \<noteq> store_current store"
  shows "loaded_stably evs (store_current (loader_store (loader_run l evs)))"
  using loader_run_traced [OF assms(1), of evs] assms(2) by (simp add: traced_def)

definition one_reload :: "nat loader_event list" where
  "one_reload = [StartCall, Settled (Start 0) (ReadDone (Inr [[1]])), Settled (Start 0) (LoadDone (Inr 1)),
     Settled (Start 0) (ReadDone (Inr [[1]])), Tick 0, Settled Poll (ReadDone (Inr [[2]])),
     Settled Poll (LoadDone (Inr 2)), Settled Poll (ReadDone (Inr [[2]]))]"

definition fresh_loader :: "nat RuntimeConfigLoader" where
  "fresh_loader = \<lparr>loader_store = store_new 0, pollIntervalMs = 250, observed = None, loader_timer = None,
     intervals = [], next_interval = 0, loader_polling = None, readFailureRecorded = False,
     loader_state = LoaderCreated, loader_success = 0, loader_error = 0, loader_log = [], starts = [],
     next_start = 0\<rparr>"

lemma fresh_loader_new: "loader_new None [''values.yaml''] (store_new 0) = Inr fresh_loader"
  by (simp add: loader_new_def fresh_loader_def max_safe_integer_def safe_int_def)

theorem loader_publishes_stable_witness:
  "store_current (loader_store (loader_run fresh_loader one_reload)) = 2 \<and> loaded_stably one_reload 2"
proof -
  have "store_current (loader_store (loader_run fresh_loader one_reload)) = 2"
    by code_simp
  then show ?thesis
    using loader_publishes_stable [OF fresh_loader_new, of one_reload] by (simp add: store_new_def)
qed

section \<open>Quiet polls\<close>

text \<open>Ticks, and polls whose reads settle with one of the given results.\<close>

fun poll_only :: "(string + snapshots) set \<Rightarrow> 'c loader_event \<Rightarrow> bool" where
  "poll_only results (Tick _) = True"
| "poll_only results (Settled Poll (ReadDone r)) = (r \<in> results)"
| "poll_only results _ = False"

definition between_passes :: "'c RuntimeConfigLoader \<Rightarrow> bool" where
  "between_passes l \<longleftrightarrow> loader_polling l = None \<or> loader_polling l = Some ReadingBefore"

lemma quiet_step:
  assumes "between_passes l" and "observed l = Some s" and "poll_only (range Inl \<union> {Inr s}) e"
  shows "between_passes (loader_step l e) \<and> observed (loader_step l e) = Some s \<and>
    loader_store (loader_step l e) = loader_store l \<and> loader_success (loader_step l e) = loader_success l"
  using assms
  by (cases "(range Inl \<union> {Inr s} :: (string + snapshots) set, e)" rule: poll_only.cases)
    (auto simp: between_passes_def loader_tick_def snapshotsEqual_iff Let_def)

text \<open>
  Files that have not changed are not loaded again: while every read of the files fails or
  finds the contents last seen, no number of ticks makes the loader load the configuration, and
  neither the published configuration nor the count of reloads changes.
\<close>

theorem unchanged_files_not_reloaded:
  assumes "between_passes l" and "observed l = Some s" and "list_all (poll_only (range Inl \<union> {Inr s})) evs"
  shows "between_passes (loader_run l evs) \<and> loader_store (loader_run l evs) = loader_store l \<and>
    loader_success (loader_run l evs) = loader_success l"
proof -
  have "between_passes (loader_run l evs) \<and> observed (loader_run l evs) = Some s \<and>
      loader_store (loader_run l evs) = loader_store l \<and> loader_success (loader_run l evs) = loader_success l"
    using assms
  proof (induction evs arbitrary: l)
    case (Cons e evs)
    then have "between_passes (loader_step l e) \<and> observed (loader_step l e) = Some s \<and>
        loader_store (loader_step l e) = loader_store l \<and> loader_success (loader_step l e) = loader_success l"
      by (intro quiet_step) simp_all
    with Cons show ?case by (simp add: loader_run_def)
  qed (simp add: loader_run_def)
  then show ?thesis by blast
qed

definition after_reload :: "nat RuntimeConfigLoader" where
  "after_reload = loader_run fresh_loader one_reload"

theorem unchanged_files_not_reloaded_witness:
  "let evs = [Tick 0, Settled Poll (ReadDone (Inr [[2]])), Tick 0, Settled Poll (ReadDone (Inl ''gone''))]
   in loader_success (loader_run after_reload evs) = loader_success after_reload \<and>
      between_passes (loader_run after_reload evs)"
proof -
  have "between_passes after_reload" "observed after_reload = Some [[2]]" by code_simp+
  then show ?thesis
    using unchanged_files_not_reloaded [of after_reload "[[2]]"] by simp
qed

text \<open>The errors counted beside the one of the outage that is recorded.\<close>

definition other_errors :: "'c RuntimeConfigLoader \<Rightarrow> int" where
  "other_errors l = int (loader_error l) - (if readFailureRecorded l then 1 else 0)"

lemma outage_step:
  assumes "between_passes l" and "poll_only (range Inl) e"
  shows "between_passes (loader_step l e) \<and> other_errors (loader_step l e) = other_errors l \<and>
    (readFailureRecorded l \<longrightarrow> readFailureRecorded (loader_step l e))"
  using assms
  by (cases "(range Inl :: (string + snapshots) set, e)" rule: poll_only.cases)
    (auto simp: between_passes_def loader_tick_def other_errors_def)

text \<open>
  An outage is reported once: while no read of the files succeeds, the loader counts and logs
  at most one read error, however many polls fail, and none if the outage had been recorded.
\<close>

theorem outage_recorded_once:
  assumes "between_passes l" and "list_all (poll_only (range Inl)) evs"
  shows "loader_error (loader_run l evs) \<le> loader_error l + (if readFailureRecorded l then 0 else 1)"
proof -
  have "other_errors (loader_run l evs) = other_errors l \<and>
      (readFailureRecorded l \<longrightarrow> readFailureRecorded (loader_run l evs))"
    using assms
  proof (induction evs arbitrary: l)
    case (Cons e evs)
    have step: "between_passes (loader_step l e) \<and> other_errors (loader_step l e) = other_errors l \<and>
        (readFailureRecorded l \<longrightarrow> readFailureRecorded (loader_step l e))"
      using Cons.prems by (intro outage_step) simp_all
    with Cons.IH [of "loader_step l e"] Cons.prems(2) show ?case by (simp add: loader_run_def)
  qed (simp add: loader_run_def)
  then show ?thesis by (auto simp: other_errors_def split: if_splits)
qed

theorem outage_recorded_once_witness:
  "let evs = [Tick 0, Settled Poll (ReadDone (Inl ''gone'')), Tick 0, Settled Poll (ReadDone (Inl ''gone''))]
   in loader_error (loader_run after_reload evs) \<le> 1"
proof -
  have "between_passes after_reload" "loader_error after_reload = 0" "\<not> readFailureRecorded after_reload"
    by code_simp+
  then show ?thesis
    using outage_recorded_once [of after_reload
        "[Tick 0, Settled Poll (ReadDone (Inl ''gone'')), Tick 0, Settled Poll (ReadDone (Inl ''gone''))]"]
    by simp
qed

section \<open>Stopping while starting\<close>

text \<open>
  A \<open>stop\<close> during \<open>start\<close> is undone: when \<open>stop\<close> is called while \<open>start\<close> still synchronises
  the first snapshot, and the candidate is then accepted, the loader ends up running with a live
  interval, although it was stopped.
\<close>

theorem stop_during_start_undone:
  assumes "loader_new interval paths store = Inr l"
    and "snd (store_publish store c) = None"
  shows "let l' = loader_run l [StartCall, StopCall, Settled (Start 0) (ReadDone (Inr s)),
      Settled (Start 0) (LoadDone (Inr c)), Settled (Start 0) (ReadDone (Inr s))]
    in loader_state l' = LoaderRunning \<and> intervals l' \<noteq> []"
proof -
  obtain st where "store_publish store c = (st, None)"
    using assms(2) by (cases "store_publish store c") auto
  with assms(1) show ?thesis
    by (auto simp: loader_new_def loader_run_def loader_start_def loader_stop_def loader_started_def
        snapshotsEqual_iff Let_def split: if_splits)
qed

theorem stop_during_start_undone_witness:
  "loader_state (loader_run fresh_loader [StartCall, StopCall, Settled (Start 0) (ReadDone (Inr [[1]])),
      Settled (Start 0) (LoadDone (Inr 1)), Settled (Start 0) (ReadDone (Inr [[1]]))]) = LoaderRunning"
  using stop_during_start_undone [OF fresh_loader_new, of 1 "[[1]]"]
  by (simp add: store_publish_def store_new_def Let_def)

end
