(* ===== verification/ConfigArguments.thy ===== *)
theory ConfigArguments
  imports Prelude "HOL-Library.Sublist"
begin

text \<open>
  The command line of a service, from \<open>src/runtime/config/arguments.ts\<close>: the flags
  that name the configuration files.
\<close>

section \<open>The parser\<close>

record ConfigPaths =
  paths_config :: string
  paths_values :: string
  paths_overrides :: "string option"

definition DEFAULT_CONFIG_PATH :: string where
  "DEFAULT_CONFIG_PATH = ''./config/config.yaml''"

definition DEFAULT_VALUES_PATH :: string where
  "DEFAULT_VALUES_PATH = ''./config/overrides.yaml''"

text \<open>\<open>readValue\<close> gets the arguments after the option.\<close>

definition readValue :: "string list \<Rightarrow> string \<Rightarrow> string + string" where
  "readValue rest option_name =
     (case rest of
        [] \<Rightarrow> Inl (''missing value for '' @ option_name)
      | v # _ \<Rightarrow> if prefix ''-'' v then Inl (''missing value for '' @ option_name) else Inr v)"

function (sequential) parse_arguments :: "ConfigPaths \<Rightarrow> string list \<Rightarrow> string + ConfigPaths" where
  "parse_arguments paths [] = Inr paths"
| "parse_arguments paths (argument # rest) =
     (if argument = ''--config'' \<or> argument = ''-config''
      then bindR (readValue rest argument) (\<lambda>v. parse_arguments (paths\<lparr>paths_config := v\<rparr>) (drop 1 rest))
      else if prefix ''--config='' argument
      then parse_arguments (paths\<lparr>paths_config := drop (length ''--config='') argument\<rparr>) rest
      else if argument = ''--values'' \<or> argument = ''-values''
      then bindR (readValue rest argument) (\<lambda>v. parse_arguments (paths\<lparr>paths_values := v\<rparr>) (drop 1 rest))
      else if prefix ''--values='' argument
      then parse_arguments (paths\<lparr>paths_values := drop (length ''--values='') argument\<rparr>) rest
      else if argument = ''--overrides'' \<or> argument = ''-overrides''
      then bindR (readValue rest argument) (\<lambda>v. parse_arguments (paths\<lparr>paths_overrides := Some v\<rparr>) (drop 1 rest))
      else if prefix ''--overrides='' argument
      then parse_arguments (paths\<lparr>paths_overrides := Some (drop (length ''--overrides='') argument)\<rparr>) rest
      else Inl (''unknown command-line argument: '' @ argument))"
  by pat_completeness auto

termination by (relation "measure (\<lambda>(_, arguments). length arguments)") auto

declare parse_arguments.simps(2) [simp del]

definition parseConfigArguments :: "string list \<Rightarrow> string + ConfigPaths" where
  "parseConfigArguments arguments =
     bindR (parse_arguments \<lparr>paths_config = DEFAULT_CONFIG_PATH, paths_values = DEFAULT_VALUES_PATH,
       paths_overrides = None\<rparr> arguments) (\<lambda>paths.
     if paths_config paths = [] then Inl ''config path must not be empty''
     else if paths_values paths = [] then Inl ''values path must not be empty''
     else if paths_overrides paths = Some [] then Inl ''overrides path must not be empty''
     else Inr paths)"

section \<open>What a command line means\<close>

text \<open>A command line as flags: which path, in which of the three spellings, with what value.\<close>

datatype flag = ConfigFlag | ValuesFlag | OverridesFlag
datatype spelling = TwoDashes | OneDash | WithEquals

fun flag_name :: "flag \<Rightarrow> string" where
  "flag_name ConfigFlag = ''config''"
| "flag_name ValuesFlag = ''values''"
| "flag_name OverridesFlag = ''overrides''"

fun spell :: "flag \<times> spelling \<times> string \<Rightarrow> string list" where
  "spell (f, TwoDashes, v) = [''--'' @ flag_name f, v]"
| "spell (f, OneDash, v) = [''-'' @ flag_name f, v]"
| "spell (f, WithEquals, v) = [''--'' @ flag_name f @ ''='' @ v]"

fun flag_ok :: "flag \<times> spelling \<times> string \<Rightarrow> bool" where
  "flag_ok (f, WithEquals, v) = (v \<noteq> [])"
| "flag_ok (f, _, v) = (v \<noteq> [] \<and> \<not> prefix ''-'' v)"

fun assign_path :: "ConfigPaths \<Rightarrow> flag \<times> spelling \<times> string \<Rightarrow> ConfigPaths" where
  "assign_path paths (ConfigFlag, _, v) = paths\<lparr>paths_config := v\<rparr>"
| "assign_path paths (ValuesFlag, _, v) = paths\<lparr>paths_values := v\<rparr>"
| "assign_path paths (OverridesFlag, _, v) = paths\<lparr>paths_overrides := Some v\<rparr>"

lemma parse_flag:
  assumes "flag_ok fl"
  shows "parse_arguments paths (spell fl @ rest) = parse_arguments (assign_path paths fl) rest"
proof -
  obtain f sp v where fl: "fl = (f, sp, v)" by (cases fl)
  show ?thesis
    using assms unfolding fl
    by (cases f; cases sp) (simp_all add: parse_arguments.simps(2) readValue_def)
qed

lemma parse_flags:
  "list_all flag_ok fls \<Longrightarrow> parse_arguments paths (concat (map spell fls)) = Inr (foldl assign_path paths fls)"
  by (induction fls arbitrary: paths) (simp_all add: parse_flag)

definition paths_given :: "ConfigPaths \<Rightarrow> bool" where
  "paths_given paths \<longleftrightarrow> paths_config paths \<noteq> [] \<and> paths_values paths \<noteq> [] \<and> paths_overrides paths \<noteq> Some []"

lemma assign_paths_given: "list_all flag_ok fls \<Longrightarrow> paths_given paths \<Longrightarrow> paths_given (foldl assign_path paths fls)"
proof (induction fls arbitrary: paths)
  case (Cons fl fls)
  obtain f sp v where fl: "fl = (f, sp, v)" by (cases fl)
  have "v \<noteq> []" using Cons.prems(1) unfolding fl by (cases sp) auto
  then have "paths_given (assign_path paths fl)"
    using Cons.prems(2) unfolding fl by (cases f) (auto simp: paths_given_def)
  with Cons show ?case by simp
qed simp

text \<open>
  Every command line of well-formed flags is understood: in each of the three spellings
  \<open>--name value\<close>, \<open>-name value\<close> and \<open>--name=value\<close>, in any order and number, the arguments
  assign their values from left to right to the default paths, so that the last flag of a kind wins.
\<close>

theorem arguments_roundtrip:
  assumes "list_all flag_ok fls"
  shows "parseConfigArguments (concat (map spell fls)) =
    Inr (foldl assign_path \<lparr>paths_config = DEFAULT_CONFIG_PATH, paths_values = DEFAULT_VALUES_PATH,
      paths_overrides = None\<rparr> fls)"
proof -
  have "paths_given (foldl assign_path \<lparr>paths_config = DEFAULT_CONFIG_PATH, paths_values = DEFAULT_VALUES_PATH,
      paths_overrides = None\<rparr> fls)"
    by (rule assign_paths_given [OF assms])
      (simp add: paths_given_def DEFAULT_CONFIG_PATH_def DEFAULT_VALUES_PATH_def)
  then show ?thesis
    using parse_flags [OF assms] by (simp add: parseConfigArguments_def paths_given_def)
qed

theorem arguments_roundtrip_witness:
  "parseConfigArguments [''--config'', ''a.yaml'', ''-overrides'', ''b.yaml'', ''--config=-c''] =
    Inr \<lparr>paths_config = ''-c'', paths_values = DEFAULT_VALUES_PATH, paths_overrides = Some ''b.yaml''\<rparr>"
  using arguments_roundtrip [of "[(ConfigFlag, TwoDashes, ''a.yaml''), (OverridesFlag, OneDash, ''b.yaml''),
      (ConfigFlag, WithEquals, ''-c'')]"]
  by simp

end
