(* ===== verification/Utf8.thy ===== *)
theory Utf8
  imports Prelude "HOL-Library.Word"
begin

text \<open>
  What the serdes use of \<open>TextEncoder\<close> and \<open>TextDecoder\<close>: JavaScript strings are sequences of
  16-bit code units, encoded as UTF-8 with \<open>U+FFFD\<close> for every surrogate without a partner. The
  decoder is the fatal one: it refuses every ill-formed sequence (overlong forms, surrogates,
  values above \<open>U+10FFFF\<close>, missing or stray continuation bytes), and it drops one leading byte
  order mark, as a \<open>TextDecoder\<close> without \<open>ignoreBOM\<close> does.
\<close>

section \<open>Code units and code points\<close>

type_synonym jsstring = "16 word list"
type_synonym bytes = "8 word list"

definition high_surrogate :: "nat \<Rightarrow> bool" where
  "high_surrogate u \<longleftrightarrow> 0xD800 \<le> u \<and> u < 0xDC00"

definition low_surrogate :: "nat \<Rightarrow> bool" where
  "low_surrogate u \<longleftrightarrow> 0xDC00 \<le> u \<and> u < 0xE000"

fun code_points :: "nat list \<Rightarrow> nat list" where
  "code_points [] = []"
| "code_points [u] = [if high_surrogate u \<or> low_surrogate u then 0xFFFD else u]"
| "code_points (u # v # us) =
     (if high_surrogate u \<and> low_surrogate v
      then (0x10000 + (u - 0xD800) * 0x400 + (v - 0xDC00)) # code_points us
      else (if high_surrogate u \<or> low_surrogate u then 0xFFFD else u) # code_points (v # us))"

fun code_units :: "nat list \<Rightarrow> nat list" where
  "code_units [] = []"
| "code_units (c # cs) =
     (if c < 0x10000 then c # code_units cs
      else (0xD800 + (c - 0x10000) div 0x400) # (0xDC00 + (c - 0x10000) mod 0x400) # code_units cs)"

text \<open>Strings without unpaired surrogates.\<close>

fun well_formed :: "nat list \<Rightarrow> bool" where
  "well_formed [] = True"
| "well_formed [u] = (\<not> high_surrogate u \<and> \<not> low_surrogate u)"
| "well_formed (u # v # us) =
     (if high_surrogate u then low_surrogate v \<and> well_formed us
      else \<not> low_surrogate u \<and> well_formed (v # us))"

definition scalar_value :: "nat \<Rightarrow> bool" where
  "scalar_value c \<longleftrightarrow> c < 0x110000 \<and> \<not> (0xD800 \<le> c \<and> c < 0xE000)"

lemma code_points_scalar: "list_all (\<lambda>u. u < 0x10000) us \<Longrightarrow> list_all scalar_value (code_points us)"
  by (induction us rule: code_points.induct)
    (auto simp: scalar_value_def high_surrogate_def low_surrogate_def)

lemma code_units_points:
  "list_all (\<lambda>u. u < 0x10000) us \<Longrightarrow> well_formed us \<Longrightarrow> code_units (code_points us) = us"
proof (induction us rule: code_points.induct)
  case (3 u v us)
  show ?case
  proof (cases "high_surrogate u")
    case True
    then have "low_surrogate v" "well_formed us" using "3.prems" by simp_all
    moreover have "0x10000 + (u - 0xD800) * 0x400 + (v - 0xDC00) - 0x10000 = (u - 0xD800) * 0x400 + (v - 0xDC00)"
      by simp
    moreover have "(k * 0x400 + l) div 0x400 = k" "(k * 0x400 + l) mod 0x400 = l" if "l < 0x400" for k l :: nat
      using that by simp_all
    moreover have "v - 0xDC00 < 0x400" using \<open>low_surrogate v\<close> by (auto simp: low_surrogate_def)
    ultimately have "code_units (code_points (u # v # us)) =
        (0xD800 + (u - 0xD800)) # (0xDC00 + (v - 0xDC00)) # code_units (code_points us)"
      using True by (simp only: code_points.simps code_units.simps if_True simp_thms) simp
    then show ?thesis
      using True \<open>low_surrogate v\<close> \<open>well_formed us\<close> 3 by (simp add: high_surrogate_def low_surrogate_def)
  next
    case False
    with 3 show ?thesis by (auto simp: high_surrogate_def low_surrogate_def)
  qed
qed (auto simp: high_surrogate_def low_surrogate_def)

section \<open>UTF-8\<close>

definition encode_point :: "nat \<Rightarrow> nat list" where
  "encode_point c =
     (if c < 0x80 then [c]
      else if c < 0x800 then [0xC0 + c div 0x40, 0x80 + c mod 0x40]
      else if c < 0x10000 then [0xE0 + c div 0x1000, 0x80 + c div 0x40 mod 0x40, 0x80 + c mod 0x40]
      else [0xF0 + c div 0x40000, 0x80 + c div 0x1000 mod 0x40, 0x80 + c div 0x40 mod 0x40, 0x80 + c mod 0x40])"

definition continuation :: "nat \<Rightarrow> bool" where
  "continuation b \<longleftrightarrow> 0x80 \<le> b \<and> b < 0xC0"

text \<open>One code point off the front: the value, how many bytes it took, or \<open>None\<close> if ill-formed.\<close>

fun decode_point :: "nat list \<Rightarrow> (nat \<times> nat list) option" where
  "decode_point [] = None"
| "decode_point (a # bs) =
     (if a < 0x80 then Some (a, bs)
      else if 0xC2 \<le> a \<and> a < 0xE0 then
        (case bs of
           b # rest \<Rightarrow> if continuation b then Some ((a - 0xC0) * 0x40 + (b - 0x80), rest) else None
         | _ \<Rightarrow> None)
      else if 0xE0 \<le> a \<and> a < 0xF0 then
        (case bs of
           b # c # rest \<Rightarrow>
             if continuation b \<and> continuation c then
               (let v = (a - 0xE0) * 0x1000 + (b - 0x80) * 0x40 + (c - 0x80)
                in if 0x800 \<le> v \<and> scalar_value v then Some (v, rest) else None)
             else None
         | _ \<Rightarrow> None)
      else if 0xF0 \<le> a \<and> a < 0xF5 then
        (case bs of
           b # c # d # rest \<Rightarrow>
             if continuation b \<and> continuation c \<and> continuation d then
               (let v = (a - 0xF0) * 0x40000 + (b - 0x80) * 0x1000 + (c - 0x80) * 0x40 + (d - 0x80)
                in if 0x10000 \<le> v \<and> scalar_value v then Some (v, rest) else None)
             else None
         | _ \<Rightarrow> None)
      else None)"

lemma decode_point_shorter: "decode_point bs = Some (c, rest) \<Longrightarrow> length rest < length bs"
  by (cases bs) (auto simp: Let_def split: if_splits list.splits)

function decode_points :: "nat list \<Rightarrow> nat list option" where
  "decode_points bs =
     (if bs = [] then Some []
      else case decode_point bs of
             None \<Rightarrow> None
           | Some (c, rest) \<Rightarrow> map_option (Cons c) (decode_points rest))"
  by pat_completeness auto

termination by (relation "measure length") (auto dest: decode_point_shorter)

declare decode_points.simps [simp del]

lemma decode_encode_point:
  assumes "scalar_value c"
  shows "decode_point (encode_point c @ rest) = Some (c, rest)"
proof -
  consider "c < 0x80" | "0x80 \<le> c" "c < 0x800" | "0x800 \<le> c" "c < 0x10000" | "0x10000 \<le> c" "c < 0x110000"
    using assms unfolding scalar_value_def by linarith
  then show ?thesis
  proof cases
    case 2
    then have "2 \<le> c div 0x40" "c div 0x40 < 32" by (simp_all add: div_le_mono [of "0x80" c "0x40", simplified])
    moreover have "c div 0x40 * 0x40 + c mod 0x40 = c" by simp
    ultimately show ?thesis using 2 by (simp add: encode_point_def continuation_def)
  next
    case 3
    have "c div 0x40 div 0x40 = c div 0x1000" by (simp add: div_mult2_eq [symmetric])
    then have "c div 0x1000 * 0x1000 + c div 0x40 mod 0x40 * 0x40 + c mod 0x40 = c"
      using div_mult_mod_eq [of c "0x40"] div_mult_mod_eq [of "c div 0x40" "0x40"] by linarith
    with 3 assms show ?thesis by (simp add: encode_point_def continuation_def Let_def)
  next
    case 4
    have "c div 0x40 div 0x40 = c div 0x1000" "c div 0x1000 div 0x40 = c div 0x40000"
      by (simp_all add: div_mult2_eq [symmetric])
    then have "c div 0x40000 * 0x40000 + c div 0x1000 mod 0x40 * 0x1000 + c div 0x40 mod 0x40 * 0x40 + c mod 0x40 = c"
      using div_mult_mod_eq [of c "0x40"] div_mult_mod_eq [of "c div 0x40" "0x40"]
        div_mult_mod_eq [of "c div 0x1000" "0x40"] by linarith
    with 4 assms show ?thesis by (simp add: encode_point_def continuation_def Let_def)
  qed (simp add: encode_point_def)
qed

lemma encode_point_nonempty: "encode_point c \<noteq> []"
  by (simp add: encode_point_def)

lemma decode_encode_points:
  "list_all scalar_value cs \<Longrightarrow> decode_points (concat (map encode_point cs)) = Some cs"
  by (induction cs) (simp_all add: decode_points.simps decode_encode_point encode_point_nonempty)

lemma encode_point_bytes: "scalar_value c \<Longrightarrow> list_all (\<lambda>b. b < 0x100) (encode_point c)"
  by (auto simp: encode_point_def scalar_value_def)

section \<open>The encoder and the decoder\<close>

definition utf8_encode :: "jsstring \<Rightarrow> bytes" where
  "utf8_encode s = map of_nat (concat (map encode_point (code_points (map unat s))))"

fun strip_bom :: "nat list \<Rightarrow> nat list" where
  "strip_bom [] = []"
| "strip_bom (c # cs) = (if c = 0xFEFF then cs else c # cs)"

definition utf8_decode :: "bytes \<Rightarrow> jsstring option" where
  "utf8_decode bs =
     map_option (\<lambda>cs. map of_nat (code_units (strip_bom cs)))
       (decode_points (map unat bs))"

text \<open>The strings the encoding keeps: no unpaired surrogate and no leading byte order mark.\<close>

definition utf8_ok :: "jsstring \<Rightarrow> bool" where
  "utf8_ok s \<longleftrightarrow> well_formed (map unat s) \<and> (case s of [] \<Rightarrow> True | u # _ \<Rightarrow> u \<noteq> 0xFEFF)"

lemma units_bounded: "list_all (\<lambda>u. u < 0x10000) (map unat (s :: jsstring))"
proof -
  have "unat w < 0x10000" for w :: "16 word"
    using unsigned_less [of w] by simp
  then show ?thesis by (simp add: list_all_iff)
qed

lemma unat_bom: "unat (w :: 16 word) = 0xFEFF \<longleftrightarrow> w = 0xFEFF"
  using unsigned_word_eqI [of w "0xFEFF", where 'a = nat] by auto

lemma unat_of_nat_bytes:
  "list_all (\<lambda>b. b < 0x100) bs \<Longrightarrow> map unat (map of_nat bs :: bytes) = bs"
  by (induction bs) (simp_all add: unat_of_nat take_bit_nat_eq_self)

lemma utf8_encode_units:
  "map unat (utf8_encode s) = concat (map encode_point (code_points (map unat s)))"
proof -
  have "list_all scalar_value (code_points (map unat s))"
    by (rule code_points_scalar [OF units_bounded])
  then have "list_all (\<lambda>b. b < 0x100) (concat (map encode_point (code_points (map unat s))))"
    using encode_point_bytes by (auto simp: list_all_iff)
  then show ?thesis unfolding utf8_encode_def by (rule unat_of_nat_bytes)
qed

lemma strip_bom_kept:
  assumes "utf8_ok s"
  shows "strip_bom (code_points (map unat s)) = code_points (map unat s)"
proof (cases s)
  case (Cons w r)
  then have "unat w \<noteq> 0xFEFF" using assms by (simp add: utf8_ok_def unat_bom)
  with Cons assms show ?thesis
    by (cases r) (auto simp: utf8_ok_def high_surrogate_def low_surrogate_def)
qed simp

lemma utf8_roundtrip:
  assumes "utf8_ok s"
  shows "utf8_decode (utf8_encode s) = Some s"
proof -
  have d: "decode_points (map unat (utf8_encode s)) = Some (code_points (map unat s))"
    unfolding utf8_encode_units
    by (rule decode_encode_points [OF code_points_scalar [OF units_bounded]])
  have "code_units (code_points (map unat s)) = map unat s"
    using assms by (intro code_units_points [OF units_bounded]) (simp add: utf8_ok_def)
  then show ?thesis
    using strip_bom_kept [OF assms] by (simp add: utf8_decode_def d comp_def)
qed

end
