(* ===== verification/SerdeFraming.thy ===== *)
theory SerdeFraming
  imports Utf8 JsValue
begin

text \<open>
  The framing of the binary format, from \<open>src/runtime/serde/framing.ts\<close> and
  \<open>src/runtime/serde/serde.ts\<close>: big-endian numbers, sizes, limits, and the reader that hands out
  slices of the input and never reads past its end.
\<close>

section \<open>Errors and limits\<close>

datatype serde_error = SerdeError string nat | SerdeRangeError string | SerdeTypeError string

record SerdeLimits =
  maxStringBytes :: number
  maxBytes :: number
  maxContainerElements :: number
  maxTotalBytes :: number

definition MAX_SAFE_INTEGER :: number where
  "MAX_SAFE_INTEGER = Finite (of_int max_safe_integer)"

definition unlimitedSerdeLimits :: SerdeLimits where
  "unlimitedSerdeLimits = \<lparr>maxStringBytes = MAX_SAFE_INTEGER, maxBytes = MAX_SAFE_INTEGER,
     maxContainerElements = MAX_SAFE_INTEGER, maxTotalBytes = MAX_SAFE_INTEGER\<rparr>"

definition validateLimit :: "number \<Rightarrow> string \<Rightarrow> serde_error + unit" where
  "validateLimit v limit_name =
     (if \<not> is_safe_integer v \<or> num_less v (Finite 0)
      then Inl (SerdeRangeError (limit_name @ '' must be a non-negative safe integer'')) else Inr ())"

definition validateLimits :: "SerdeLimits \<Rightarrow> serde_error + unit" where
  "validateLimits limits =
     bindR (validateLimit (maxStringBytes limits) ''maxStringBytes'') (\<lambda>_.
     bindR (validateLimit (maxBytes limits) ''maxBytes'') (\<lambda>_.
     bindR (validateLimit (maxContainerElements limits) ''maxContainerElements'') (\<lambda>_.
     validateLimit (maxTotalBytes limits) ''maxTotalBytes'')))"

text \<open>\<open>n > limit\<close> for a count and a limit.\<close>

definition exceeds :: "nat \<Rightarrow> number \<Rightarrow> bool" where
  "exceeds n limit = num_less limit (Finite (of_nat n))"

section \<open>Big-endian numbers\<close>

fun be_bytes :: "nat \<Rightarrow> nat \<Rightarrow> bytes" where
  "be_bytes 0 n = []"
| "be_bytes (Suc w) n = be_bytes w (n div 256) @ [of_nat (n mod 256)]"

definition be_value :: "bytes \<Rightarrow> nat" where
  "be_value bs = foldl (\<lambda>acc b. acc * 256 + unat b) 0 bs"

lemma be_bytes_length [simp]: "length (be_bytes w n) = w"
  by (induction w arbitrary: n) auto

lemma be_value_snoc: "be_value (bs @ [b]) = be_value bs * 256 + unat b"
  by (simp add: be_value_def)

lemma be_value_bytes: "n < 256 ^ w \<Longrightarrow> be_value (be_bytes w n) = n"
proof (induction w arbitrary: n)
  case (Suc w)
  then have "be_value (be_bytes w (n div 256)) = n div 256"
    by (simp add: less_mult_imp_div_less mult.commute)
  moreover have "unat (of_nat (n mod 256) :: 8 word) = n mod 256"
    by (simp add: unat_of_nat take_bit_nat_eq_self)
  ultimately show ?case by (simp only: be_bytes.simps be_value_snoc) simp
qed (simp add: be_value_def)

lemma be_value_bound: "be_value bs < 256 ^ length bs"
proof (induction bs rule: rev_induct)
  case (snoc b bs)
  have "unat b < 256" using unsigned_less [of b] by simp
  with snoc show ?case by (simp add: be_value_snoc)
qed (simp add: be_value_def)

section \<open>Sizes and the reader\<close>

abbreviation sizeBytes :: nat where
  "sizeBytes \<equiv> 8"

definition appendBytes :: "bytes option \<Rightarrow> bytes \<Rightarrow> bytes" where
  "appendBytes prefix v =
     (case prefix of None \<Rightarrow> v | Some p \<Rightarrow> if length p = 0 then v else p @ v)"

definition encodeSize :: "nat \<Rightarrow> serde_error + bytes" where
  "encodeSize len =
     (if \<not> safe_int (int len) then Inl (SerdeError ''size must be a non-negative safe integer'' 0)
      else Inr (be_bytes sizeBytes len))"

record SerdeReader =
  reader_data :: bytes
  reader_offset :: nat

definition reader_new :: "bytes \<Rightarrow> number \<Rightarrow> serde_error + SerdeReader" where
  "reader_new input limit =
     bindR (validateLimit limit ''maxTotalBytes'') (\<lambda>_.
     if exceeds (length input) limit then Inl (SerdeError ''serde input exceeds configured limit'' 0)
     else Inr \<lparr>reader_data = input, reader_offset = 0\<rparr>)"

definition reader_read :: "SerdeReader \<Rightarrow> nat \<Rightarrow> string \<Rightarrow> serde_error + bytes \<times> SerdeReader" where
  "reader_read r len what =
     (if \<not> safe_int (int len) then Inl (SerdeError (what @ '' has invalid size'') (reader_offset r))
      else let end_offset = reader_offset r + len
           in if \<not> safe_int (int end_offset) then Inl (SerdeError ''serde size overflow'' (reader_offset r))
              else if end_offset > length (reader_data r)
              then Inl (SerdeError (''serde underflow while reading '' @ what) (reader_offset r))
              else Inr (take len (drop (reader_offset r) (reader_data r)), r\<lparr>reader_offset := end_offset\<rparr>))"

definition reader_readSize :: "SerdeReader \<Rightarrow> number \<Rightarrow> string \<Rightarrow> serde_error + nat \<times> SerdeReader" where
  "reader_readSize r maximum what =
     bindR (validateLimit maximum what) (\<lambda>_.
     bindR (reader_read r sizeBytes what) (\<lambda>(raw, r').
     let encoded = be_value raw
     in if encoded > nat max_safe_integer
        then Inl (SerdeError (what @ '' does not fit a safe integer'') (reader_offset r))
        else if exceeds encoded maximum
        then Inl (SerdeError (what @ '' exceeds configured limit'') (reader_offset r))
        else Inr (encoded, r')))"

section \<open>Writing, then reading\<close>

lemma appendBytes_None [simp]: "appendBytes None v = v"
  by (simp add: appendBytes_def)

lemma appendBytes_Some [simp]: "appendBytes (Some p) v = p @ v"
  by (simp add: appendBytes_def)

lemma appendBytes_prefix: "appendBytes pre (v @ w) = appendBytes pre v @ w"
  by (cases pre) simp_all

text \<open>What is still to be read.\<close>

definition remaining :: "SerdeReader \<Rightarrow> bytes" where
  "remaining r = drop (reader_offset r) (reader_data r)"

definition reader_ok :: "SerdeReader \<Rightarrow> bool" where
  "reader_ok r \<longleftrightarrow> reader_offset r \<le> length (reader_data r) \<and> safe_int (int (length (reader_data r)))"

text \<open>The limits that pass validation.\<close>

definition limit_ok :: "number \<Rightarrow> bool" where
  "limit_ok v \<longleftrightarrow> is_safe_integer v \<and> \<not> num_less v (Finite 0)"

lemma validateLimit_ok [simp]: "limit_ok v \<Longrightarrow> validateLimit v n = Inr ()"
  by (simp add: validateLimit_def limit_ok_def)

lemma safe_int_mono: "safe_int (int m) \<Longrightarrow> n \<le> m \<Longrightarrow> safe_int (int n)"
  by (simp add: safe_int_def)

lemma limit_of_nat: "safe_int (int n) \<Longrightarrow> limit_ok (Finite (of_nat n))"
  using quotient_of_of_int [of "int n"] by (simp add: limit_ok_def)

lemma not_exceeds_length [simp]: "n \<le> m \<Longrightarrow> \<not> exceeds n (Finite (of_nat m))"
  by (simp add: exceeds_def)

lemma reader_new_spec:
  assumes "limit_ok limit" and "\<not> exceeds (length input) limit"
  shows "\<exists>r. reader_new input limit = Inr r \<and> remaining r = input \<and> reader_data r = input \<and> reader_ok r"
proof -
  have "safe_int (int (length input))"
  proof (cases limit)
    case (Finite q)
    with assms have q: "of_nat (length input) \<le> q" "snd (quotient_of q) = 1" "safe_int (fst (quotient_of q))"
      by (auto simp: exceeds_def limit_ok_def)
    then have "q = of_int (fst (quotient_of q))"
      by (metis div_by_1 of_int_1 prod.collapse quotient_of_div)
    with q(1) have "int (length input) \<le> fst (quotient_of q)"
      by (metis of_int_le_iff of_int_of_nat_eq)
    with q(3) show ?thesis by (simp add: safe_int_def)
  qed (use assms in \<open>auto simp: limit_ok_def\<close>)
  with assms show ?thesis by (simp add: reader_new_def remaining_def reader_ok_def)
qed

lemma reader_read_spec:
  assumes "reader_ok r" and "remaining r = xs @ rest"
  shows "\<exists>r'. reader_read r (length xs) what = Inr (xs, r') \<and> remaining r' = rest \<and>
    reader_data r' = reader_data r \<and> reader_ok r'"
proof -
  have "length (reader_data r) = reader_offset r + length xs + length rest"
    using assms(1) arg_cong [OF assms(2) [unfolded remaining_def], of length]
    unfolding reader_ok_def length_drop length_append by linarith
  moreover have "drop (reader_offset r + length xs) (reader_data r) = rest"
    using arg_cong [OF assms(2), of "drop (length xs)"] by (simp add: remaining_def add.commute)
  moreover have "take (length xs) (drop (reader_offset r) (reader_data r)) = xs"
    using assms(2) by (simp add: remaining_def)
  ultimately show ?thesis
    using assms(1) by (auto simp: reader_read_def remaining_def reader_ok_def safe_int_def)
qed

lemma reader_readSize_spec:
  assumes "reader_ok r" and "encodeSize n = Inr bs" and "remaining r = bs @ rest"
    and "limit_ok maximum" and "\<not> exceeds n maximum"
  shows "\<exists>r'. reader_readSize r maximum what = Inr (n, r') \<and> remaining r' = rest \<and>
    reader_data r' = reader_data r \<and> reader_ok r'"
proof -
  have n: "safe_int (int n)" "bs = be_bytes sizeBytes n"
    using assms(2) by (auto simp: encodeSize_def split: if_splits)
  then have "n < 256 ^ sizeBytes" by (simp add: safe_int_def max_safe_integer_def)
  then have bs: "be_value bs = n" "length bs = sizeBytes" using n(2) be_value_bytes by simp_all
  obtain r' where "reader_read r sizeBytes what = Inr (bs, r')" "remaining r' = rest"
    "reader_data r' = reader_data r" "reader_ok r'"
    using reader_read_spec [OF assms(1,3)] unfolding bs(2) by blast
  moreover have "\<not> nat max_safe_integer < n" using n(1) by (simp add: safe_int_def)
  ultimately show ?thesis using assms(4,5) bs(1) by (simp add: reader_readSize_def Let_def)
qed

text \<open>
  A reader never hands out a byte that is not in its input: whatever is read from it, the
  slice is the next part of the input and the offset ends up behind it, within the input; and
  every read it cannot serve leaves an error with the offset it began at.
\<close>

theorem reader_read_in_bounds:
  assumes "reader_offset r \<le> length (reader_data r)"
  shows "case reader_read r len what of
      Inr (bs, r') \<Rightarrow> length bs = len \<and> remaining r = bs @ remaining r' \<and> reader_data r' = reader_data r \<and>
        reader_offset r' = reader_offset r + len \<and> reader_offset r' \<le> length (reader_data r)
    | Inl e \<Rightarrow> (\<exists>m. e = SerdeError m (reader_offset r)) \<and>
        (length (remaining r) < len \<or> \<not> safe_int (int (reader_offset r + len)))"
proof -
  have "drop (reader_offset r) (reader_data r) =
      take len (drop (reader_offset r) (reader_data r)) @ drop (reader_offset r + len) (reader_data r)"
    by (metis append_take_drop_id add.commute drop_drop)
  moreover have "safe_int (int (reader_offset r + len)) \<Longrightarrow> safe_int (int len)"
    using safe_int_mono [of "reader_offset r + len" len] by simp
  ultimately show ?thesis
    using assms by (simp add: reader_read_def remaining_def Let_def) linarith
qed

theorem reader_read_in_bounds_witness:
  "case reader_read \<lparr>reader_data = [1, 2, 3], reader_offset = 1\<rparr> 2 ''slice'' of
      Inr (bs, r') \<Rightarrow> length bs = 2 \<and> reader_offset r' = 3
    | Inl e \<Rightarrow> False"
  using reader_read_in_bounds [of "\<lparr>reader_data = [1, 2, 3], reader_offset = 1\<rparr>" 2 "''slice''"]
  by (simp add: reader_read_def safe_int_def max_safe_integer_def)

end
