(* ===== verification/SerdeScalar.thy ===== *)
theory SerdeScalar
  imports SerdeFraming
begin

unbundle bit_operations_syntax

text \<open>
  Serdes of single values, from \<open>src/runtime/serde/serde.ts\<close>, \<open>scalar.ts\<close> and \<open>bytes.ts\<close>. The
  values are those of JavaScript at run time, so that the checks of \<open>typeof\<close> and
  \<open>instanceof\<close> are branches of the model.
\<close>

section \<open>Run-time values and serdes\<close>

datatype dyn = DUndefined | DNull | DBool bool | DNumber number | DBigInt int | DString jsstring
  | DBytes bytes | DArray "dyn list" | DMap "(dyn \<times> dyn) list" | DKeyValue dyn dyn
  | DError string | DObject "(string \<times> dyn) list"

record serde =
  serialize :: "dyn \<Rightarrow> bytes option \<Rightarrow> serde_error + bytes"
  deserialize :: "bytes \<Rightarrow> serde_error + dyn"
  isStub :: bool

definition StubSerde :: serde where
  "StubSerde = \<lparr>serialize = (\<lambda>_ _. Inl (SerdeError ''stub serde cannot serialize'' 0)),
     deserialize = (\<lambda>_. Inl (SerdeError ''stub serde cannot deserialize'' 0)), isStub = True\<rparr>"

text \<open>
  The contract of a serde: the values it is meant for are serialised, what is written is read
  back as the same value, and a prefix is put before the same bytes. A fixed-size serde writes as
  many bytes for each of its values.
\<close>

locale serde_contract =
  fixes s :: serde and good :: "dyn \<Rightarrow> bool"
  assumes roundtrip: "good v \<Longrightarrow> \<exists>bs. serialize s v None = Inr bs \<and> deserialize s bs = Inr v"
    and prefixed: "serialize s v (Some p) = mapR ((@) p) (serialize s v None)"

locale fixed_serde = serde_contract +
  fixes width :: nat
  assumes width_positive: "0 < width" and width_safe: "safe_int (int width)"
    and fixed_width: "serialize s v None = Inr bs \<Longrightarrow> length bs = width"

section \<open>Integers of JavaScript\<close>

text \<open>\<open>ToInt32\<close>, and the operators that apply it to their operands.\<close>

definition to_int32 :: "int \<Rightarrow> int" where
  "to_int32 x = signed_take_bit 31 x"

definition js_xor :: "int \<Rightarrow> int \<Rightarrow> int" where
  "js_xor x y = to_int32 x XOR to_int32 y"

definition js_shl :: "int \<Rightarrow> nat \<Rightarrow> int" where
  "js_shl x n = to_int32 (push_bit n (to_int32 x))"

definition js_sar :: "int \<Rightarrow> nat \<Rightarrow> int" where
  "js_sar x n = drop_bit n (to_int32 x)"

definition js_ushr0 :: "int \<Rightarrow> int" where
  "js_ushr0 x = take_bit 32 x"

text \<open>\<open>setUintN\<close> and \<open>getUintN\<close> of a \<open>DataView\<close>, big-endian, of \<open>w\<close> bytes; \<open>getIntN\<close>.\<close>

definition set_uint :: "nat \<Rightarrow> int \<Rightarrow> bytes" where
  "set_uint w x = be_bytes w (nat (x mod 256 ^ w))"

definition get_uint :: "bytes \<Rightarrow> int" where
  "get_uint bs = int (be_value bs)"

definition get_int :: "nat \<Rightarrow> bytes \<Rightarrow> int" where
  "get_int w bs = signed_take_bit (8 * w - 1) (get_uint bs)"

lemma set_uint_length [simp]: "length (set_uint w x) = w"
  by (simp add: set_uint_def)

lemma get_set_uint: "get_uint (set_uint w x) = x mod 256 ^ w"
proof -
  have "nat (x mod 256 ^ w) < 256 ^ w" by (simp add: nat_less_iff)
  then show ?thesis by (simp add: get_uint_def set_uint_def be_value_bytes)
qed

text \<open>Flipping the sign bit maps the signed range onto the unsigned one, in order.\<close>

lemma xor_top:
  fixes u :: int
  assumes "0 \<le> u" and "u < 2 ^ Suc n"
  shows "u XOR 2 ^ n = (if u < 2 ^ n then u + 2 ^ n else u - 2 ^ n)"
proof -
  have disj: "v XOR 2 ^ n = v + 2 ^ n" if "0 \<le> v" "v < 2 ^ n" for v :: int
  proof -
    have "\<not> bit v n" using that by (simp add: bit_iff_odd)
    then have "v AND 2 ^ n = 0" by (intro bit_eqI) (auto simp: bit_simps)
    then show ?thesis by (simp add: disjunctive_add_eq_xor)
  qed
  show ?thesis
  proof (cases "u < 2 ^ n")
    case True
    with assms disj show ?thesis by simp
  next
    case False
    with assms have "(u - 2 ^ n) XOR 2 ^ n = u" using disj [of "u - 2 ^ n"] by simp
    then have "u XOR 2 ^ n = u - 2 ^ n" by (metis xor.assoc xor.right_neutral xor_self_eq)
    with False show ?thesis by simp
  qed
qed

lemma flip_sign:
  fixes v :: int
  assumes "- (2 ^ n) \<le> v" and "v < 2 ^ n"
  shows "(v XOR 2 ^ n) mod 2 ^ Suc n = v + 2 ^ n"
proof -
  have "(v XOR 2 ^ n) mod 2 ^ Suc n = (v mod 2 ^ Suc n) XOR 2 ^ n"
    unfolding take_bit_eq_mod [symmetric] take_bit_xor by simp
  also have "v mod 2 ^ Suc n = (if 0 \<le> v then v else v + 2 ^ Suc n)"
  proof (cases "0 \<le> v")
    case False
    have "(v + 2 ^ Suc n) mod 2 ^ Suc n = v + 2 ^ Suc n"
      using assms False by (intro mod_pos_pos_trivial) simp_all
    with False show ?thesis by simp
  qed (use assms in simp)
  also have "\<dots> XOR 2 ^ n = v + 2 ^ n"
    using assms xor_top [of v n] xor_top [of "v + 2 ^ Suc n" n] by auto
  finally show ?thesis .
qed

lemma unflip_sign:
  fixes u :: int
  assumes "0 \<le> u" and "u < 2 ^ Suc n"
  shows "signed_take_bit n (u XOR 2 ^ n) = u - 2 ^ n"
proof (cases "u < 2 ^ n")
  case True
  then have "(u + 2 ^ n) div 2 ^ n = 1" using assms by simp
  then have "bit (u + 2 ^ n) n" by (simp add: bit_iff_odd)
  with True assms show ?thesis
    by (simp add: xor_top signed_take_bit_eq_take_bit_minus take_bit_int_eq_self)
next
  case False
  with assms show ?thesis by (simp add: xor_top signed_take_bit_int_eq_self)
qed

section \<open>Number serdes\<close>

text \<open>
  What a subclass of \<open>NumberSerde\<close> fixes: its name, width, the writer and the reader. For an
  \<open>IntegerSerde\<close> the writer and the reader work on integers, and the range is given.
\<close>

record integer_class =
  class_name :: string
  class_width :: nat
  minimum :: int
  maximum :: int
  int_write :: "int \<Rightarrow> bytes"
  int_read :: "bytes \<Rightarrow> int"

definition number_validate :: "string \<Rightarrow> dyn \<Rightarrow> serde_error + number" where
  "number_validate cname v =
     (case v of DNumber n \<Rightarrow> Inr n | _ \<Rightarrow> Inl (SerdeTypeError (cname @ '' expects a number'')))"

definition integer_validate :: "integer_class \<Rightarrow> dyn \<Rightarrow> serde_error + int" where
  "integer_validate c v =
     bindR (number_validate (class_name c) v) (\<lambda>n.
     case n of
       Finite q \<Rightarrow>
         if snd (quotient_of q) \<noteq> 1 \<or> q < of_int (minimum c) \<or> q > of_int (maximum c)
         then Inl (SerdeRangeError (class_name c @ '' expects an integer in ['' @ show_int (minimum c) @ '', '' @
                show_int (maximum c) @ '']''))
         else Inr (fst (quotient_of q))
     | _ \<Rightarrow> Inl (SerdeRangeError (class_name c @ '' expects an integer in ['' @ show_int (minimum c) @ '', '' @
                show_int (maximum c) @ '']'')))"

definition IntegerSerde :: "integer_class \<Rightarrow> serde" where
  "IntegerSerde c =
     \<lparr>serialize = (\<lambda>v prefix. mapR (\<lambda>n. appendBytes prefix (int_write c n)) (integer_validate c v)),
      deserialize = (\<lambda>input.
        bindR (reader_new input MAX_SAFE_INTEGER) (\<lambda>r.
        mapR (\<lambda>(bs, _). DNumber (Finite (of_int (int_read c bs)))) (reader_read r (class_width c) (class_name c)))),
      isStub = False\<rparr>"

definition UInt8Serde :: integer_class where
  "UInt8Serde = \<lparr>class_name = ''UInt8Serde'', class_width = 1, minimum = 0, maximum = 0xff,
     int_write = set_uint 1, int_read = get_uint\<rparr>"

definition UInt16Serde :: integer_class where
  "UInt16Serde = \<lparr>class_name = ''UInt16Serde'', class_width = 2, minimum = 0, maximum = 0xffff,
     int_write = set_uint 2, int_read = get_uint\<rparr>"

definition UInt32Serde :: integer_class where
  "UInt32Serde = \<lparr>class_name = ''UInt32Serde'', class_width = 4, minimum = 0, maximum = 0xffffffff,
     int_write = set_uint 4, int_read = get_uint\<rparr>"

definition Int8Serde :: integer_class where
  "Int8Serde = \<lparr>class_name = ''Int8Serde'', class_width = 1, minimum = -0x80, maximum = 0x7f,
     int_write = set_uint 1, int_read = get_int 1\<rparr>"

definition Int16Serde :: integer_class where
  "Int16Serde = \<lparr>class_name = ''Int16Serde'', class_width = 2, minimum = -0x8000, maximum = 0x7fff,
     int_write = (\<lambda>v. set_uint 2 (js_xor v 0x8000)),
     int_read = (\<lambda>bs. js_sar (js_shl (js_xor (get_uint bs) 0x8000) 16) 16)\<rparr>"

definition Int32Serde :: integer_class where
  "Int32Serde = \<lparr>class_name = ''Int32Serde'', class_width = 4, minimum = -0x80000000, maximum = 0x7fffffff,
     int_write = (\<lambda>v. set_uint 4 (js_ushr0 (js_xor v 0x80000000))),
     int_read = (\<lambda>bs. to_int32 (js_xor (get_uint bs) 0x80000000))\<rparr>"

definition RuneSerde :: integer_class where
  "RuneSerde = \<lparr>class_name = ''RuneSerde'', class_width = 4, minimum = -0x80000000, maximum = 0x7fffffff,
     int_write = (\<lambda>v. set_uint 4 (js_ushr0 v)), int_read = get_int 4\<rparr>"

text \<open>\<open>Float32Serde\<close> and \<open>Float64Serde\<close>, over the \<open>setFloat\<close> and \<open>getFloat\<close> of the host.\<close>

definition FloatSerde :: "string \<Rightarrow> nat \<Rightarrow> (number \<Rightarrow> bytes) \<Rightarrow> (bytes \<Rightarrow> number) \<Rightarrow> serde" where
  "FloatSerde cname width setFloat getFloat =
     \<lparr>serialize = (\<lambda>v prefix. mapR (\<lambda>n. appendBytes prefix (setFloat n)) (number_validate cname v)),
      deserialize = (\<lambda>input.
        bindR (reader_new input MAX_SAFE_INTEGER) (\<lambda>r.
        mapR (\<lambda>(bs, _). DNumber (getFloat bs)) (reader_read r width cname))),
      isStub = False\<rparr>"

section \<open>Big integers and booleans\<close>

definition BigIntegerSerde :: "string \<Rightarrow> bool \<Rightarrow> int \<Rightarrow> int \<Rightarrow> serde" where
  "BigIntegerSerde cname is_signed lo hi =
     \<lparr>serialize = (\<lambda>v prefix.
        case v of
          DBigInt n \<Rightarrow>
            if n < lo \<or> n > hi
            then Inl (SerdeRangeError (cname @ '' expects a bigint in ['' @ show_int lo @ '', '' @ show_int hi @ '']''))
            else Inr (appendBytes prefix (set_uint 8 (if is_signed then take_bit 64 n XOR push_bit 63 1 else n)))
        | _ \<Rightarrow> Inl (SerdeRangeError (cname @ '' expects a bigint in ['' @ show_int lo @ '', '' @ show_int hi @ '']''))),
      deserialize = (\<lambda>input.
        bindR (reader_new input MAX_SAFE_INTEGER) (\<lambda>r.
        mapR (\<lambda>(bs, _). DBigInt (if is_signed then signed_take_bit 63 (get_uint bs XOR push_bit 63 1) else get_uint bs))
          (reader_read r 8 cname))),
      isStub = False\<rparr>"

definition UInt64Serde :: "string \<Rightarrow> serde" where
  "UInt64Serde cname = BigIntegerSerde cname False 0 (2 ^ 64 - 1)"

definition Int64Serde :: "string \<Rightarrow> serde" where
  "Int64Serde cname = BigIntegerSerde cname True (- (2 ^ 63)) (2 ^ 63 - 1)"

definition BoolSerde :: serde where
  "BoolSerde =
     \<lparr>serialize = (\<lambda>v prefix.
        case v of
          DBool b \<Rightarrow> Inr (appendBytes prefix [if b then 1 else 0])
        | _ \<Rightarrow> Inl (SerdeTypeError ''BoolSerde expects a boolean'')),
      deserialize = (\<lambda>input.
        bindR (reader_new input MAX_SAFE_INTEGER) (\<lambda>r.
        mapR (\<lambda>(bs, _). DBool (elem_at bs 0 \<noteq> Some 0)) (reader_read r 1 ''BoolSerde''))),
      isStub = False\<rparr>"

section \<open>Bytes and strings\<close>

definition framed :: "bytes \<Rightarrow> bytes option \<Rightarrow> serde_error + bytes" where
  "framed payload prefix = mapR (\<lambda>frame. appendBytes prefix (appendBytes (Some frame) payload)) (encodeSize (length payload))"

definition BytesSerde :: "SerdeLimits \<Rightarrow> serde" where
  "BytesSerde limits =
     \<lparr>serialize = (\<lambda>v prefix.
        case v of
          DBytes bs \<Rightarrow>
            if exceeds (length bs) (maxBytes limits) then Inl (SerdeError ''bytes exceed configured limit'' 0)
            else framed bs prefix
        | _ \<Rightarrow> Inl (SerdeTypeError ''BytesSerde expects Uint8Array'')),
      deserialize = (\<lambda>input.
        bindR (reader_new input (maxTotalBytes limits)) (\<lambda>r.
        bindR (reader_readSize r (maxBytes limits) ''bytes length'') (\<lambda>(len, r').
        mapR (\<lambda>(bs, _). DBytes bs) (reader_read r' len ''bytes'')))),
      isStub = False\<rparr>"

definition StringSerde :: "SerdeLimits \<Rightarrow> serde" where
  "StringSerde limits =
     \<lparr>serialize = (\<lambda>v prefix.
        case v of
          DString s \<Rightarrow>
            (let encoded = utf8_encode s
             in if exceeds (length encoded) (maxStringBytes limits)
                then Inl (SerdeError ''string exceeds configured limit'' 0) else framed encoded prefix)
        | _ \<Rightarrow> Inl (SerdeTypeError ''StringSerde expects a string'')),
      deserialize = (\<lambda>input.
        bindR (reader_new input (maxTotalBytes limits)) (\<lambda>r.
        bindR (reader_readSize r (maxStringBytes limits) ''string length'') (\<lambda>(len, r').
        bindR (reader_read r' len ''string'') (\<lambda>(payload, _).
        case utf8_decode payload of
          None \<Rightarrow> Inl (SerdeError ''invalid UTF-8 string: The encoded data was not valid for encoding utf-8''
                        (reader_offset r + 8))
        | Some s \<Rightarrow> Inr (DString s))))),
      isStub = False\<rparr>"

section \<open>The contract of the scalar serdes\<close>

lemma MAX_SAFE_limit [simp]: "limit_ok MAX_SAFE_INTEGER"
  by (simp add: limit_ok_def MAX_SAFE_INTEGER_def safe_int_def max_safe_integer_def)

lemma exceeds_MAX_SAFE [simp]: "exceeds n MAX_SAFE_INTEGER \<longleftrightarrow> \<not> safe_int (int n)"
proof -
  have "(of_int max_safe_integer :: rat) < of_nat n \<longleftrightarrow> max_safe_integer < int n"
    by (metis of_int_less_iff of_int_of_nat_eq)
  then show ?thesis by (auto simp: exceeds_def MAX_SAFE_INTEGER_def safe_int_def)
qed

text \<open>Reading all of an input of a given length.\<close>

lemma read_all:
  assumes "length bs = w" and "safe_int (int w)"
  shows "bindR (reader_new bs MAX_SAFE_INTEGER) (\<lambda>r. mapR (\<lambda>(bs', _). f bs') (reader_read r w what)) = Inr (f bs)"
proof -
  obtain r where r: "reader_new bs MAX_SAFE_INTEGER = Inr r" "remaining r = bs @ []" "reader_ok r"
    using reader_new_spec [of MAX_SAFE_INTEGER bs] assms by auto
  then show ?thesis using reader_read_spec [OF r(3,2), of what] assms(1) by auto
qed

definition integer_good :: "integer_class \<Rightarrow> dyn \<Rightarrow> bool" where
  "integer_good c v \<longleftrightarrow> (\<exists>n. v = DNumber (Finite (of_int n)) \<and> minimum c \<le> n \<and> n \<le> maximum c)"

definition integer_class_ok :: "integer_class \<Rightarrow> bool" where
  "integer_class_ok c \<longleftrightarrow> 0 < class_width c \<and> safe_int (int (class_width c)) \<and>
     (\<forall>n. length (int_write c n) = class_width c) \<and>
     (\<forall>n. minimum c \<le> n \<and> n \<le> maximum c \<longrightarrow> int_read c (int_write c n) = n)"

lemma integer_validate_good:
  "minimum c \<le> n \<Longrightarrow> n \<le> maximum c \<Longrightarrow> integer_validate c (DNumber (Finite (of_int n))) = Inr n"
  by (simp add: integer_validate_def number_validate_def)

lemma IntegerSerde_contract:
  assumes "integer_class_ok c"
  shows "fixed_serde (IntegerSerde c) (integer_good c) (class_width c)"
proof
  fix v
  assume "integer_good c v"
  then obtain n where "v = DNumber (Finite (of_int n))" "minimum c \<le> n" "n \<le> maximum c"
    by (auto simp: integer_good_def)
  with assms show "\<exists>bs. serialize (IntegerSerde c) v None = Inr bs \<and> deserialize (IntegerSerde c) bs = Inr v"
    by (simp add: IntegerSerde_def integer_validate_good integer_class_ok_def read_all)
next
  fix v p
  show "serialize (IntegerSerde c) v (Some p) = mapR ((@) p) (serialize (IntegerSerde c) v None)"
    by (cases "integer_validate c v") (simp_all add: IntegerSerde_def)
next
  fix v bs
  assume "serialize (IntegerSerde c) v None = Inr bs"
  with assms show "length bs = class_width c"
    by (auto simp: IntegerSerde_def integer_class_ok_def result_simps)
qed (use assms in \<open>simp_all add: integer_class_ok_def\<close>)

lemma small_width: "w \<le> 8 \<Longrightarrow> safe_int (int w)"
  and width_values [simp]: "safe_int 1" "safe_int 2" "safe_int 4" "safe_int 8"
  by (simp_all add: safe_int_def max_safe_integer_def)

lemma unsigned_class_ok:
  assumes "int_write c = set_uint (class_width c)" and "int_read c = get_uint"
    and "minimum c = 0" and "maximum c = 256 ^ class_width c - 1" and "0 < class_width c" "class_width c \<le> 8"
  shows "integer_class_ok c"
  using assms by (auto simp: integer_class_ok_def get_set_uint small_width)

lemma signed_mod: "- (2 ^ n) \<le> v \<Longrightarrow> v < 2 ^ n \<Longrightarrow> signed_take_bit n (v mod 2 ^ Suc n) = v" for v :: int
  unfolding take_bit_eq_mod [symmetric] signed_take_bit_take_bit by (simp add: signed_take_bit_int_eq_self)

lemma Int8_ok: "integer_class_ok Int8Serde"
  using signed_mod [of 7] by (auto simp: integer_class_ok_def Int8Serde_def get_int_def get_set_uint small_width)

lemma Rune_ok: "integer_class_ok RuneSerde"
  using signed_mod [of 31]
  by (auto simp: integer_class_ok_def RuneSerde_def get_int_def get_set_uint small_width js_ushr0_def take_bit_eq_mod)

lemma to_int32_self: "- (2 ^ 31) \<le> x \<Longrightarrow> x < 2 ^ 31 \<Longrightarrow> to_int32 x = x"
  by (simp add: to_int32_def signed_take_bit_int_eq_self)

lemma Int16_flip:
  "- 0x8000 \<le> v \<Longrightarrow> v \<le> 0x7fff \<Longrightarrow> get_uint (set_uint 2 (js_xor v 0x8000)) = v + 0x8000"
  using flip_sign [of 15 v] by (simp add: get_set_uint js_xor_def to_int32_self)

lemma Int16_ok: "integer_class_ok Int16Serde"
proof -
  have "js_sar (js_shl (js_xor (get_uint (set_uint 2 (js_xor v 0x8000))) 0x8000) 16) 16 = v"
    if "- 0x8000 \<le> v" "v \<le> 0x7fff" for v
  proof -
    have "js_xor (v + 0x8000) 0x8000 = (v + 0x8000) XOR 2 ^ 15"
      using that by (simp add: js_xor_def to_int32_self)
    moreover have "js_sar (js_shl x 16) 16 = signed_take_bit 15 x" for x
      by (rule bit_eqI) (auto simp: js_sar_def js_shl_def to_int32_def bit_simps min_def)
    ultimately show ?thesis using Int16_flip [OF that] unflip_sign [of "v + 0x8000" 15] that by simp
  qed
  then show ?thesis by (auto simp: integer_class_ok_def Int16Serde_def small_width)
qed

lemma xor_int32:
  "js_ushr0 (js_xor x y) = (x XOR y) mod 2 ^ Suc 31" "to_int32 (js_xor x y) = signed_take_bit 31 (x XOR y)"
proof -
  have "take_bit 32 (signed_take_bit 31 x XOR signed_take_bit 31 y) = take_bit 32 (x XOR y)"
    "signed_take_bit 31 (signed_take_bit 31 x XOR signed_take_bit 31 y) = signed_take_bit 31 (x XOR y)"
    by (simp_all add: take_bit_xor take_bit_signed_take_bit signed_take_bit_eq_iff_take_bit_eq)
  then show "js_ushr0 (js_xor x y) = (x XOR y) mod 2 ^ Suc 31" "to_int32 (js_xor x y) = signed_take_bit 31 (x XOR y)"
    by (simp_all add: js_ushr0_def js_xor_def to_int32_def take_bit_eq_mod)
qed

lemma Int32_flip:
  "- 0x80000000 \<le> v \<Longrightarrow> v \<le> 0x7fffffff \<Longrightarrow>
    get_uint (set_uint 4 (js_ushr0 (js_xor v 0x80000000))) = v + 0x80000000"
  using flip_sign [of 31 v] unfolding xor_int32 by (simp add: get_set_uint)

lemma Int32_ok: "integer_class_ok Int32Serde"
  using Int32_flip unflip_sign [of "v + 0x80000000" 31 for v]
  by (auto simp: integer_class_ok_def Int32Serde_def xor_int32(2))

lemma UInt_ok: "integer_class_ok UInt8Serde" "integer_class_ok UInt16Serde" "integer_class_ok UInt32Serde"
  by (rule unsigned_class_ok; simp add: UInt8Serde_def UInt16Serde_def UInt32Serde_def)+

interpretation uint8_serde: fixed_serde "IntegerSerde UInt8Serde" "integer_good UInt8Serde" "class_width UInt8Serde"
  by (rule IntegerSerde_contract [OF UInt_ok(1)])

interpretation uint16_serde: fixed_serde "IntegerSerde UInt16Serde" "integer_good UInt16Serde" "class_width UInt16Serde"
  by (rule IntegerSerde_contract [OF UInt_ok(2)])

interpretation uint32_serde: fixed_serde "IntegerSerde UInt32Serde" "integer_good UInt32Serde" "class_width UInt32Serde"
  by (rule IntegerSerde_contract [OF UInt_ok(3)])

interpretation int8_serde: fixed_serde "IntegerSerde Int8Serde" "integer_good Int8Serde" "class_width Int8Serde"
  by (rule IntegerSerde_contract [OF Int8_ok])

interpretation int16_serde: fixed_serde "IntegerSerde Int16Serde" "integer_good Int16Serde" "class_width Int16Serde"
  by (rule IntegerSerde_contract [OF Int16_ok])

interpretation int32_serde: fixed_serde "IntegerSerde Int32Serde" "integer_good Int32Serde" "class_width Int32Serde"
  by (rule IntegerSerde_contract [OF Int32_ok])

interpretation rune_serde: fixed_serde "IntegerSerde RuneSerde" "integer_good RuneSerde" "class_width RuneSerde"
  by (rule IntegerSerde_contract [OF Rune_ok])

definition bigint_good :: "int \<Rightarrow> int \<Rightarrow> dyn \<Rightarrow> bool" where
  "bigint_good lo hi v \<longleftrightarrow> (\<exists>n. v = DBigInt n \<and> lo \<le> n \<and> n \<le> hi)"

lemma BigIntegerSerde_contract:
  assumes "\<And>n. lo \<le> n \<Longrightarrow> n \<le> hi \<Longrightarrow>
    (let bs = set_uint 8 (if is_signed then take_bit 64 n XOR push_bit 63 1 else n)
     in (if is_signed then signed_take_bit 63 (get_uint bs XOR push_bit 63 1) else get_uint bs) = n)"
  shows "fixed_serde (BigIntegerSerde cname is_signed lo hi) (bigint_good lo hi) 8"
proof
  fix v
  assume "bigint_good lo hi v"
  then obtain n where "v = DBigInt n" "lo \<le> n" "n \<le> hi" by (auto simp: bigint_good_def)
  with assms [of n] show "\<exists>bs. serialize (BigIntegerSerde cname is_signed lo hi) v None = Inr bs \<and>
      deserialize (BigIntegerSerde cname is_signed lo hi) bs = Inr v"
    by (auto simp: BigIntegerSerde_def read_all Let_def)
next
  fix v p
  show "serialize (BigIntegerSerde cname is_signed lo hi) v (Some p) =
      mapR ((@) p) (serialize (BigIntegerSerde cname is_signed lo hi) v None)"
    by (cases v) (simp_all add: BigIntegerSerde_def)
next
  fix v bs
  assume "serialize (BigIntegerSerde cname is_signed lo hi) v None = Inr bs"
  then show "length bs = 8" by (auto simp: BigIntegerSerde_def split: dyn.splits if_splits)
qed simp_all

interpretation uint64_serde: fixed_serde "UInt64Serde cname" "bigint_good 0 (2 ^ 64 - 1)" 8 for cname
  unfolding UInt64Serde_def by (rule BigIntegerSerde_contract) (simp add: get_set_uint)

lemma int64_bits:
  assumes "- (2 ^ 63) \<le> n" and "n \<le> 2 ^ 63 - 1"
  shows "get_uint (set_uint 8 (take_bit 64 n XOR push_bit 63 1)) = n + 2 ^ 63"
proof -
  have "(take_bit 64 n XOR 2 ^ 63) mod 2 ^ 64 = (n XOR 2 ^ 63) mod 2 ^ 64"
    unfolding take_bit_eq_mod [symmetric] take_bit_xor by simp
  then show ?thesis
    using flip_sign [of 63 n] assms by (simp add: get_set_uint push_bit_eq_mult)
qed

interpretation int64_serde: fixed_serde "Int64Serde cname" "bigint_good (- (2 ^ 63)) (2 ^ 63 - 1)" 8 for cname
  unfolding Int64Serde_def
proof (rule BigIntegerSerde_contract)
  fix n :: int
  assume n: "- (2 ^ 63) \<le> n" "n \<le> 2 ^ 63 - 1"
  then show "let bs = set_uint 8 (if True then take_bit 64 n XOR push_bit 63 1 else n)
      in (if True then signed_take_bit 63 (get_uint bs XOR push_bit 63 1) else get_uint bs) = n"
    using int64_bits [OF n] unflip_sign [of "n + 2 ^ 63" 63] by (simp add: push_bit_eq_mult Let_def)
qed

definition bool_good :: "dyn \<Rightarrow> bool" where
  "bool_good v \<longleftrightarrow> (\<exists>b. v = DBool b)"

interpretation bool_serde: fixed_serde BoolSerde bool_good 1
proof
  fix v
  assume "bool_good v"
  then show "\<exists>bs. serialize BoolSerde v None = Inr bs \<and> deserialize BoolSerde bs = Inr v"
    by (auto simp: bool_good_def BoolSerde_def read_all elem_at_def)
next
  fix v p
  show "serialize BoolSerde v (Some p) = mapR ((@) p) (serialize BoolSerde v None)"
    by (cases v) (simp_all add: BoolSerde_def)
next
  fix v bs
  assume "serialize BoolSerde v None = Inr bs"
  then show "length bs = 1" by (auto simp: BoolSerde_def split: dyn.splits)
qed simp_all

section \<open>Bytes and strings\<close>

lemma limit_safe:
  assumes "limit_ok limit" and "\<not> exceeds n limit"
  shows "safe_int (int n)"
  using reader_new_spec [of limit "replicate n 0"] assms by (auto simp: reader_ok_def)

lemma encodeSize_ok: "safe_int (int n) \<Longrightarrow> encodeSize n = Inr (be_bytes sizeBytes n)"
  by (simp add: encodeSize_def)

lemma read_framed:
  assumes "limit_ok whole" and "limit_ok most" and "\<not> exceeds (8 + length p) whole" and "\<not> exceeds (length p) most"
  shows "\<exists>r r' r''. reader_new (be_bytes sizeBytes (length p) @ p) whole = Inr r \<and>
    reader_readSize r most what = Inr (length p, r') \<and> reader_read r' (length p) what' = Inr (p, r'')"
proof -
  obtain r where r: "reader_new (be_bytes sizeBytes (length p) @ p) whole = Inr r"
    "remaining r = be_bytes sizeBytes (length p) @ p" "reader_ok r"
    using reader_new_spec [of whole "be_bytes sizeBytes (length p) @ p"] assms by auto
  obtain r' where r': "reader_readSize r most what = Inr (length p, r')" "remaining r' = p @ []" "reader_ok r'"
    using reader_readSize_spec [OF r(3) encodeSize_ok [OF limit_safe [OF assms(2,4)]] r(2) assms(2,4)] by auto
  show ?thesis using r(1) r'(1) reader_read_spec [OF r'(3,2), of what'] by blast
qed

definition limits_ok :: "SerdeLimits \<Rightarrow> bool" where
  "limits_ok limits \<longleftrightarrow> limit_ok (maxStringBytes limits) \<and> limit_ok (maxBytes limits) \<and>
     limit_ok (maxContainerElements limits) \<and> limit_ok (maxTotalBytes limits)"

lemma unlimited_ok: "limits_ok unlimitedSerdeLimits"
  by (simp add: limits_ok_def unlimitedSerdeLimits_def)

definition bytes_good :: "SerdeLimits \<Rightarrow> dyn \<Rightarrow> bool" where
  "bytes_good limits v \<longleftrightarrow> (\<exists>bs. v = DBytes bs \<and> \<not> exceeds (length bs) (maxBytes limits) \<and>
     \<not> exceeds (8 + length bs) (maxTotalBytes limits))"

definition string_good :: "SerdeLimits \<Rightarrow> dyn \<Rightarrow> bool" where
  "string_good limits v \<longleftrightarrow> (\<exists>s. v = DString s \<and> utf8_ok s \<and>
     \<not> exceeds (length (utf8_encode s)) (maxStringBytes limits) \<and>
     \<not> exceeds (8 + length (utf8_encode s)) (maxTotalBytes limits))"

lemma framed_prefixed: "framed payload (Some p) = mapR ((@) p) (framed payload None)"
  by (cases "encodeSize (length payload)") (simp_all add: framed_def)

lemma BytesSerde_contract:
  assumes "limits_ok limits"
  shows "serde_contract (BytesSerde limits) (bytes_good limits)"
proof
  fix v
  assume "bytes_good limits v"
  then obtain bs where v: "v = DBytes bs" "\<not> exceeds (length bs) (maxBytes limits)"
    "\<not> exceeds (8 + length bs) (maxTotalBytes limits)" by (auto simp: bytes_good_def)
  have limits: "limit_ok (maxBytes limits)" "limit_ok (maxTotalBytes limits)"
    using assms by (simp_all add: limits_ok_def)
  show "\<exists>bs. serialize (BytesSerde limits) v None = Inr bs \<and> deserialize (BytesSerde limits) bs = Inr v"
    using v read_framed [OF limits(2,1) v(3,2), of "''bytes length''" "''bytes''"]
      encodeSize_ok [OF limit_safe [OF limits(1) v(2)]]
    by (auto simp: BytesSerde_def framed_def)
next
  fix v p
  show "serialize (BytesSerde limits) v (Some p) = mapR ((@) p) (serialize (BytesSerde limits) v None)"
    by (cases v) (simp_all add: BytesSerde_def framed_prefixed)
qed

lemma StringSerde_contract:
  assumes "limits_ok limits"
  shows "serde_contract (StringSerde limits) (string_good limits)"
proof
  fix v
  assume "string_good limits v"
  then obtain s where v: "v = DString s" "utf8_ok s" "\<not> exceeds (length (utf8_encode s)) (maxStringBytes limits)"
    "\<not> exceeds (8 + length (utf8_encode s)) (maxTotalBytes limits)" by (auto simp: string_good_def)
  have limits: "limit_ok (maxStringBytes limits)" "limit_ok (maxTotalBytes limits)"
    using assms by (simp_all add: limits_ok_def)
  show "\<exists>bs. serialize (StringSerde limits) v None = Inr bs \<and> deserialize (StringSerde limits) bs = Inr v"
    using v read_framed [OF limits(2,1) v(4,3), of "''string length''" "''string''"]
      encodeSize_ok [OF limit_safe [OF limits(1) v(3)]] utf8_roundtrip [OF v(2)]
    by (auto simp: StringSerde_def framed_def Let_def)
next
  fix v p
  show "serialize (StringSerde limits) v (Some p) = mapR ((@) p) (serialize (StringSerde limits) v None)"
    by (cases v) (simp_all add: StringSerde_def framed_prefixed Let_def)
qed

interpretation bytes_serde: serde_contract "BytesSerde unlimitedSerdeLimits" "bytes_good unlimitedSerdeLimits"
  by (rule BytesSerde_contract [OF unlimited_ok])

interpretation string_serde: serde_contract "StringSerde unlimitedSerdeLimits" "string_good unlimitedSerdeLimits"
  by (rule StringSerde_contract [OF unlimited_ok])

text \<open>
  A string that begins with a byte order mark does not survive: for every limit that admits
  it, \<open>StringSerde\<close> reads back what it wrote without the mark.
\<close>

theorem string_serde_drops_bom:
  assumes "limits_ok limits" and "string_good limits (DString s)"
    and "\<not> exceeds (length (utf8_encode (0xFEFF # s))) (maxStringBytes limits)"
    and "\<not> exceeds (8 + length (utf8_encode (0xFEFF # s))) (maxTotalBytes limits)"
  shows "bindR (serialize (StringSerde limits) (DString (0xFEFF # s)) None) (deserialize (StringSerde limits)) =
    Inr (DString s)"
proof -
  have limits: "limit_ok (maxStringBytes limits)" "limit_ok (maxTotalBytes limits)"
    using assms(1) by (simp_all add: limits_ok_def)
  have s: "well_formed (map unat s)" using assms(2) by (auto simp: string_good_def utf8_ok_def)
  have points: "code_points (map unat (0xFEFF # s)) = 0xFEFF # code_points (map unat s)"
    by (cases "map unat s") (simp_all add: high_surrogate_def low_surrogate_def)
  have "decode_points (map unat (utf8_encode (0xFEFF # s))) = Some (0xFEFF # code_points (map unat s))"
    unfolding utf8_encode_units points [symmetric]
    by (rule decode_encode_points [OF code_points_scalar [OF units_bounded]])
  then have "utf8_decode (utf8_encode (0xFEFF # s)) = Some s"
    by (simp add: utf8_decode_def code_units_points [OF units_bounded s] comp_def)
  then show ?thesis
    using read_framed [OF limits(2,1) assms(4,3), of "''string length''" "''string''"] assms(3)
      encodeSize_ok [OF limit_safe [OF limits(1) assms(3)]]
    by (auto simp: StringSerde_def framed_def Let_def)
qed

theorem string_serde_drops_bom_witness:
  "bindR (serialize (StringSerde unlimitedSerdeLimits) (DString [0xFEFF, 0x61]) None)
     (deserialize (StringSerde unlimitedSerdeLimits)) = Inr (DString [0x61])"
proof -
  have "length (utf8_encode [0x61]) = 1" "length (utf8_encode [0xFEFF, 0x61]) = 4" "utf8_ok [0x61]"
    by (simp_all add: utf8_encode_def utf8_ok_def encode_point_def high_surrogate_def low_surrogate_def)
  then show ?thesis
    by (intro string_serde_drops_bom [OF unlimited_ok])
      (simp_all add: string_good_def unlimitedSerdeLimits_def safe_int_def max_safe_integer_def)
qed

section \<open>Order\<close>

lemma be_bytes_less:
  "m < n \<Longrightarrow> n < 256 ^ w \<Longrightarrow> be_bytes w m < be_bytes w n"
proof (induction w arbitrary: m n)
  case (Suc w)
  have last: "(of_nat (m mod 256) :: 8 word) < of_nat (n mod 256) \<longleftrightarrow> m mod 256 < n mod 256"
    by (simp add: word_less_nat_alt unat_of_nat take_bit_nat_eq_self)
  have bound: "n div 256 < 256 ^ w" using Suc.prems(2) by (simp add: less_mult_imp_div_less mult.commute)
  show ?case
  proof (cases "m div 256 = n div 256")
    case True
    then have "m mod 256 < n mod 256" using Suc.prems(1) by (metis div_mult_mod_eq nat_add_left_cancel_less)
    with True last show ?thesis by (simp add: list_less_def lexord_append_leftI)
  next
    case False
    then have "m div 256 < n div 256" using Suc.prems(1) div_le_mono [of m n 256] by simp
    then have "(be_bytes w (m div 256), be_bytes w (n div 256)) \<in> lexord {(u, v). u < v}"
      using Suc.IH bound by (simp add: list_less_def)
    then show ?thesis
      by (auto simp: list_less_def intro: lexord_sufI)
  qed
qed simp

lemma be_bytes_less_iff:
  assumes "m < 256 ^ w" and "n < 256 ^ w"
  shows "be_bytes w m < be_bytes w n \<longleftrightarrow> m < n"
  using be_bytes_less [OF _ assms(2), of m] be_bytes_less [OF _ assms(1), of n]
  by (metis less_asym linorder_neqE_nat order.irrefl)

lemma signed_order:
  assumes "get_uint (f m) = m + b" and "get_uint (f n) = n + b" and "f m = set_uint w x" and "f n = set_uint w y"
  shows "f m < f n \<longleftrightarrow> m < n"
proof -
  have bounds: "nat (x mod 256 ^ w) < 256 ^ w" "nat (y mod 256 ^ w) < 256 ^ w" by (simp_all add: nat_less_iff)
  have "f m < f n \<longleftrightarrow> nat (x mod 256 ^ w) < nat (y mod 256 ^ w)"
    unfolding assms(3,4) set_uint_def by (rule be_bytes_less_iff [OF bounds])
  moreover have "x mod 256 ^ w = m + b" "y mod 256 ^ w = n + b"
    using assms by (simp_all add: get_set_uint)
  moreover have "0 \<le> x mod 256 ^ w" by simp
  ultimately show ?thesis by auto
qed

text \<open>
  The encoding of signed integers keeps their order: the bytes that the serdes of 16, 32 and
  64 bits write for two integers compare, byte by byte from the left, as the integers do.
\<close>

theorem signed_serdes_keep_order:
  assumes "c = Int16Serde \<or> c = Int32Serde"
    and "serialize (IntegerSerde c) (DNumber (Finite (of_int m))) None = Inr a"
    and "serialize (IntegerSerde c) (DNumber (Finite (of_int n))) None = Inr b"
    and "serialize (Int64Serde cname) (DBigInt m') None = Inr a'"
    and "serialize (Int64Serde cname) (DBigInt n') None = Inr b'"
  shows "(a < b \<longleftrightarrow> m < n) \<and> (a' < b' \<longleftrightarrow> m' < n')"
proof
  have range: "minimum c \<le> m" "m \<le> maximum c" "minimum c \<le> n" "n \<le> maximum c"
    using assms(2,3) by (auto simp: IntegerSerde_def integer_validate_def number_validate_def result_simps
        split: if_splits)
  then have ab: "a = int_write c m" "b = int_write c n"
    using assms(2,3) by (simp_all add: IntegerSerde_def integer_validate_good)
  from assms(1) show "a < b \<longleftrightarrow> m < n"
  proof
    assume c: "c = Int16Serde"
    show ?thesis
      unfolding ab using range
      by (intro signed_order [where f = "int_write c" and b = "0x8000" and w = 2]) (simp_all add: c Int16Serde_def Int16_flip)
  next
    assume c: "c = Int32Serde"
    show ?thesis
      unfolding ab using range
      by (intro signed_order [where f = "int_write c" and b = "0x80000000" and w = 4]) (simp_all add: c Int32Serde_def Int32_flip)
  qed
  have range': "- (2 ^ 63) \<le> m'" "m' \<le> 2 ^ 63 - 1" "- (2 ^ 63) \<le> n'" "n' \<le> 2 ^ 63 - 1"
    using assms(4,5) by (auto simp: Int64Serde_def BigIntegerSerde_def split: if_splits)
  then have ab': "a' = set_uint 8 (take_bit 64 m' XOR push_bit 63 1)" "b' = set_uint 8 (take_bit 64 n' XOR push_bit 63 1)"
    using assms(4,5) by (auto simp: Int64Serde_def BigIntegerSerde_def)
  show "a' < b' \<longleftrightarrow> m' < n'"
    unfolding ab'
    by (rule signed_order [where f = "\<lambda>v. set_uint 8 (take_bit 64 v XOR push_bit 63 1)" and b = "2 ^ 63" and w = 8])
      (simp_all only: int64_bits range')
qed

theorem signed_serdes_keep_order_witness:
  "int_write Int16Serde (-1) < int_write Int16Serde 0 \<and>
   (\<exists>a b. serialize (Int64Serde ''Int64Serde'') (DBigInt (-1)) None = Inr a \<and>
     serialize (Int64Serde ''Int64Serde'') (DBigInt 0) None = Inr b \<and> a < b)"
proof -
  have small: "serialize (IntegerSerde Int16Serde) (DNumber (Finite (of_int k))) None = Inr (int_write Int16Serde k)"
    if "k = -1 \<or> k = 0" for k
  proof -
    have "minimum Int16Serde \<le> k" "k \<le> maximum Int16Serde" using that by (auto simp: Int16Serde_def)
    then show ?thesis by (simp add: IntegerSerde_def integer_validate_good)
  qed
  have big: "\<exists>a. serialize (Int64Serde ''Int64Serde'') (DBigInt k) None = Inr a" if "k = -1 \<or> k = 0" for k
    using that by (auto simp: Int64Serde_def BigIntegerSerde_def)
  obtain a b where ab: "serialize (Int64Serde ''Int64Serde'') (DBigInt (-1)) None = Inr a"
    "serialize (Int64Serde ''Int64Serde'') (DBigInt 0) None = Inr b"
    using big by blast
  show ?thesis
    using signed_serdes_keep_order [OF disjI1 [OF refl] small [of "-1"] small [of 0] ab] ab by auto
qed

end
