(* ===== verification/SerdeCollection.thy ===== *)
theory SerdeCollection
  imports SerdeScalar
begin

text \<open>
  Serdes of arrays, maps and key-value pairs, from \<open>src/runtime/serde/collection.ts\<close> and
  \<open>stream.ts\<close>. They are proved once, for every element serde that keeps the contract.
\<close>

section \<open>Arrays\<close>

definition validateArray :: "dyn \<Rightarrow> SerdeLimits \<Rightarrow> serde_error + dyn list" where
  "validateArray v limits =
     (case v of
        DArray xs \<Rightarrow>
          if exceeds (length xs) (maxContainerElements limits)
          then Inl (SerdeError ''array exceeds configured element limit'' 0) else Inr xs
      | _ \<Rightarrow> Inl (SerdeTypeError ''array serde expects an array''))"

text \<open>The loops over the elements: \<open>enc\<close> is what one element adds to the output.\<close>

fun append_elements :: "(dyn \<Rightarrow> serde_error + bytes) \<Rightarrow> bytes \<Rightarrow> dyn list \<Rightarrow> serde_error + bytes" where
  "append_elements enc written [] = Inr written"
| "append_elements enc written (x # xs) =
     bindR (enc x) (\<lambda>encoded. append_elements enc (appendBytes (Some written) encoded) xs)"

fun read_elements ::
  "(SerdeReader \<Rightarrow> serde_error + dyn \<times> SerdeReader) \<Rightarrow> nat \<Rightarrow> SerdeReader \<Rightarrow> serde_error + dyn list \<times> SerdeReader" where
  "read_elements dec 0 r = Inr ([], r)"
| "read_elements dec (Suc n) r =
     bindR (dec r) (\<lambda>(x, r'). bindR (read_elements dec n r') (\<lambda>(xs, r''). Inr (x # xs, r'')))"

definition array_serialize ::
  "(dyn \<Rightarrow> serde_error + bytes) \<Rightarrow> SerdeLimits \<Rightarrow> dyn \<Rightarrow> bytes option \<Rightarrow> serde_error + bytes" where
  "array_serialize enc limits v prefix =
     bindR (validateArray v limits) (\<lambda>xs.
     bindR (encodeSize (length xs)) (\<lambda>frame. append_elements enc (appendBytes prefix frame) xs))"

definition array_deserialize ::
  "(SerdeReader \<Rightarrow> serde_error + dyn \<times> SerdeReader) \<Rightarrow> SerdeLimits \<Rightarrow> bytes \<Rightarrow> serde_error + dyn" where
  "array_deserialize dec limits input =
     bindR (reader_new input (maxTotalBytes limits)) (\<lambda>r.
     bindR (reader_readSize r (maxContainerElements limits) ''array count'') (\<lambda>(n, r').
     mapR (\<lambda>(xs, _). DArray xs) (read_elements dec n r')))"

definition fixed_encode :: "serde \<Rightarrow> nat \<Rightarrow> dyn \<Rightarrow> serde_error + bytes" where
  "fixed_encode s width x =
     bindR (serialize s x None) (\<lambda>encoded.
     if length encoded \<noteq> width then Inl (SerdeError ''fixed-size element serde returned an invalid width'' 0)
     else Inr encoded)"

definition fixed_decode :: "serde \<Rightarrow> nat \<Rightarrow> SerdeReader \<Rightarrow> serde_error + dyn \<times> SerdeReader" where
  "fixed_decode s width r =
     bindR (reader_read r width ''array element'') (\<lambda>(bs, r'). mapR (\<lambda>x. (x, r')) (deserialize s bs))"

definition FixedSizeArraySerde :: "serde \<Rightarrow> nat \<Rightarrow> SerdeLimits \<Rightarrow> serde" where
  "FixedSizeArraySerde s width limits =
     \<lparr>serialize = array_serialize (fixed_encode s width) limits,
      deserialize = array_deserialize (fixed_decode s width) limits, isStub = isStub s\<rparr>"

definition FixedSizeArraySerde_new :: "serde \<Rightarrow> number \<Rightarrow> SerdeLimits \<Rightarrow> serde_error + serde" where
  "FixedSizeArraySerde_new s width limits =
     (if \<not> is_safe_integer width \<or> \<not> num_less (Finite 0) width
      then Inl (SerdeRangeError ''elementSize must be a positive safe integer'')
      else mapR (\<lambda>_. FixedSizeArraySerde s (case width of Finite q \<Rightarrow> nat \<lfloor>q\<rfloor> | _ \<Rightarrow> 0) limits) (validateLimits limits))"

text \<open>The elements of an \<open>ArraySerde\<close> carry their sizes.\<close>

definition sized_encode :: "serde \<Rightarrow> dyn \<Rightarrow> serde_error + bytes" where
  "sized_encode s x =
     bindR (serialize s x None) (\<lambda>encoded. mapR (\<lambda>frame. frame @ encoded) (encodeSize (length encoded)))"

definition sized_decode :: "serde \<Rightarrow> SerdeReader \<Rightarrow> serde_error + dyn \<times> SerdeReader" where
  "sized_decode s r =
     bindR (reader_readSize r (Finite (of_nat (length (reader_data r)))) ''array element length'') (\<lambda>(len, r').
     bindR (reader_read r' len ''array element'') (\<lambda>(bs, r''). mapR (\<lambda>x. (x, r'')) (deserialize s bs)))"

definition ArraySerde :: "serde \<Rightarrow> SerdeLimits \<Rightarrow> serde" where
  "ArraySerde s limits =
     \<lparr>serialize = array_serialize (sized_encode s) limits,
      deserialize = array_deserialize (sized_decode s) limits, isStub = isStub s\<rparr>"

definition text_encode :: "SerdeLimits \<Rightarrow> dyn \<Rightarrow> serde_error + bytes" where
  "text_encode limits x =
     (case x of
        DString s \<Rightarrow>
          (let encoded = utf8_encode s
           in if exceeds (length encoded) (maxStringBytes limits)
              then Inl (SerdeError ''string exceeds configured limit'' 0)
              else mapR (\<lambda>frame. frame @ encoded) (encodeSize (length encoded)))
      | _ \<Rightarrow> Inl (SerdeTypeError ''StringArraySerde expects strings''))"

definition text_decode :: "SerdeLimits \<Rightarrow> SerdeReader \<Rightarrow> serde_error + dyn \<times> SerdeReader" where
  "text_decode limits r =
     bindR (reader_readSize r (maxStringBytes limits) ''string length'') (\<lambda>(len, r').
     bindR (reader_read r' len ''string'') (\<lambda>(encoded, r'').
     case utf8_decode encoded of
       None \<Rightarrow> Inl (SerdeError ''string is not valid UTF-8'' (reader_offset r'))
     | Some s \<Rightarrow> Inr (DString s, r'')))"

definition StringArraySerde :: "SerdeLimits \<Rightarrow> serde" where
  "StringArraySerde limits =
     \<lparr>serialize = array_serialize (text_encode limits) limits,
      deserialize = array_deserialize (text_decode limits) limits, isStub = False\<rparr>"

text \<open>The array classes of the scalars; the float serdes are arguments of theirs.\<close>

definition BoolArraySerde :: "SerdeLimits \<Rightarrow> serde" where "BoolArraySerde = FixedSizeArraySerde BoolSerde 1"
definition Int8ArraySerde :: "SerdeLimits \<Rightarrow> serde" where "Int8ArraySerde = FixedSizeArraySerde (IntegerSerde Int8Serde) 1"
definition UInt8ArraySerde :: "SerdeLimits \<Rightarrow> serde" where "UInt8ArraySerde = FixedSizeArraySerde (IntegerSerde UInt8Serde) 1"
definition Int16ArraySerde :: "SerdeLimits \<Rightarrow> serde" where "Int16ArraySerde = FixedSizeArraySerde (IntegerSerde Int16Serde) 2"
definition UInt16ArraySerde :: "SerdeLimits \<Rightarrow> serde" where "UInt16ArraySerde = FixedSizeArraySerde (IntegerSerde UInt16Serde) 2"
definition Int32ArraySerde :: "SerdeLimits \<Rightarrow> serde" where "Int32ArraySerde = FixedSizeArraySerde (IntegerSerde Int32Serde) 4"
definition UInt32ArraySerde :: "SerdeLimits \<Rightarrow> serde" where "UInt32ArraySerde = FixedSizeArraySerde (IntegerSerde UInt32Serde) 4"
definition Int64ArraySerde :: "SerdeLimits \<Rightarrow> serde" where "Int64ArraySerde = FixedSizeArraySerde (Int64Serde ''Int64Serde'') 8"
definition UInt64ArraySerde :: "SerdeLimits \<Rightarrow> serde" where "UInt64ArraySerde = FixedSizeArraySerde (UInt64Serde ''UInt64Serde'') 8"
definition IntArraySerde :: "SerdeLimits \<Rightarrow> serde" where "IntArraySerde = Int64ArraySerde"
definition UIntArraySerde :: "SerdeLimits \<Rightarrow> serde" where "UIntArraySerde = UInt64ArraySerde"
definition Float32ArraySerde :: "serde \<Rightarrow> SerdeLimits \<Rightarrow> serde" where "Float32ArraySerde f32 = FixedSizeArraySerde f32 4"
definition Float64ArraySerde :: "serde \<Rightarrow> SerdeLimits \<Rightarrow> serde" where "Float64ArraySerde f64 = FixedSizeArraySerde f64 8"

section \<open>Reading back an array\<close>

text \<open>The arrays whose size the limits admit.\<close>

definition array_good :: "(dyn \<Rightarrow> serde_error + bytes) \<Rightarrow> (dyn \<Rightarrow> bool) \<Rightarrow> SerdeLimits \<Rightarrow> dyn \<Rightarrow> bool" where
  "array_good enc good limits v \<longleftrightarrow> (\<exists>xs. v = DArray xs \<and> list_all good xs \<and>
     \<not> exceeds (length xs) (maxContainerElements limits) \<and>
     (\<forall>bs. array_serialize enc limits v None = Inr bs \<longrightarrow> \<not> exceeds (length bs) (maxTotalBytes limits)))"

text \<open>
  What the loops need of an element codec: what it writes for a good element it reads back from
  the front of the input.
\<close>

locale element_codec =
  fixes enc :: "dyn \<Rightarrow> serde_error + bytes" and dec :: "SerdeReader \<Rightarrow> serde_error + dyn \<times> SerdeReader"
    and good :: "dyn \<Rightarrow> bool"
  assumes element: "good x \<Longrightarrow> \<exists>bs. enc x = Inr bs \<and>
    (\<forall>r rest. reader_ok r \<longrightarrow> remaining r = bs @ rest \<longrightarrow>
      (\<exists>r'. dec r = Inr (x, r') \<and> reader_ok r' \<and> remaining r' = rest))"
begin

lemma elements_roundtrip:
  assumes "list_all good xs"
  shows "\<exists>bs. (\<forall>written. append_elements enc written xs = Inr (written @ bs)) \<and>
    (\<forall>r rest. reader_ok r \<longrightarrow> remaining r = bs @ rest \<longrightarrow>
      (\<exists>r'. read_elements dec (length xs) r = Inr (xs, r') \<and> remaining r' = rest))"
  using assms
proof (induction xs)
  case Nil
  then show ?case by (intro exI [of _ "[]"]) simp
next
  case (Cons x xs)
  then obtain bs where bs: "\<And>written. append_elements enc written xs = Inr (written @ bs)"
    "\<And>r rest. reader_ok r \<Longrightarrow> remaining r = bs @ rest \<Longrightarrow>
      \<exists>r'. read_elements dec (length xs) r = Inr (xs, r') \<and> remaining r' = rest"
    by auto
  obtain as where as: "enc x = Inr as" "\<And>r rest. reader_ok r \<Longrightarrow> remaining r = as @ rest \<Longrightarrow>
      \<exists>r'. dec r = Inr (x, r') \<and> reader_ok r' \<and> remaining r' = rest"
    using Cons.prems element [of x] by auto
  have "\<exists>r'. read_elements dec (length (x # xs)) r = Inr (x # xs, r') \<and> remaining r' = rest"
    if ok: "reader_ok r" and rem: "remaining r = (as @ bs) @ rest" for r rest
  proof -
    obtain r' where r': "dec r = Inr (x, r')" "reader_ok r'" "remaining r' = bs @ rest"
      using as(2) [OF ok, of "bs @ rest"] rem by auto
    show ?thesis using bs(2) [OF r'(2,3)] r'(1) by auto
  qed
  then show ?case using as(1) bs(1) by (intro exI [of _ "as @ bs"]) simp
qed

lemma array_roundtrip:
  assumes "limits_ok limits" and "array_good enc good limits v"
  shows "\<exists>bs. array_serialize enc limits v None = Inr bs \<and> array_deserialize dec limits bs = Inr v"
proof -
  have limits: "limit_ok (maxContainerElements limits)" "limit_ok (maxTotalBytes limits)"
    using assms(1) by (simp_all add: limits_ok_def)
  obtain xs where xs: "v = DArray xs" "list_all good xs" "\<not> exceeds (length xs) (maxContainerElements limits)"
    using assms(2) by (auto simp: array_good_def)
  obtain bs where bs: "\<And>written. append_elements enc written xs = Inr (written @ bs)"
    "\<And>r rest. reader_ok r \<Longrightarrow> remaining r = bs @ rest \<Longrightarrow>
      \<exists>r'. read_elements dec (length xs) r = Inr (xs, r') \<and> remaining r' = rest"
    using elements_roundtrip [OF xs(2)] by blast
  let ?out = "be_bytes sizeBytes (length xs) @ bs"
  have frame: "encodeSize (length xs) = Inr (be_bytes sizeBytes (length xs))"
    by (rule encodeSize_ok [OF limit_safe [OF limits(1) xs(3)]])
  then have ser: "array_serialize enc limits v None = Inr ?out"
    using xs bs(1) by (simp add: array_serialize_def validateArray_def)
  then have "\<not> exceeds (length ?out) (maxTotalBytes limits)"
    using assms(2) by (auto simp: array_good_def)
  then obtain r where r: "reader_new ?out (maxTotalBytes limits) = Inr r" "remaining r = ?out" "reader_ok r"
    using reader_new_spec [OF limits(2), of ?out] by auto
  obtain r' where r': "reader_readSize r (maxContainerElements limits) ''array count'' = Inr (length xs, r')"
    "remaining r' = bs @ []" "reader_ok r'"
    using reader_readSize_spec [OF r(3) frame r(2) limits(1) xs(3)] by auto
  have "array_deserialize dec limits ?out = Inr v"
    using r(1) r'(1) bs(2) [OF r'(3,2)] xs(1) by (auto simp: array_deserialize_def)
  with ser show ?thesis by blast
qed

end

lemma append_elements_output:
  "append_elements enc (p @ written) xs = mapR ((@) p) (append_elements enc written xs)"
proof (induction xs arbitrary: written)
  case (Cons x xs)
  show ?case by (cases "enc x") (simp_all add: Cons)
qed simp

lemma array_serialize_prefixed:
  "array_serialize enc limits v (Some p) = mapR ((@) p) (array_serialize enc limits v None)"
proof (cases "validateArray v limits")
  case (Inr xs)
  then show ?thesis
    by (cases "encodeSize (length xs)") (simp_all add: array_serialize_def append_elements_output)
qed (simp add: array_serialize_def)

section \<open>The contract of the collections\<close>

sublocale fixed_serde \<subseteq> fixed: element_codec "fixed_encode s width" "fixed_decode s width" good
proof
  fix x
  assume "good x"
  then obtain bs where bs: "serialize s x None = Inr bs" "deserialize s bs = Inr x"
    using roundtrip by blast
  then have w: "length bs = width" using fixed_width by blast
  have "\<exists>r'. fixed_decode s width r = Inr (x, r') \<and> reader_ok r' \<and> remaining r' = rest"
    if ok: "reader_ok r" and rem: "remaining r = bs @ rest" for r rest
    using reader_read_spec [OF ok rem, of "''array element''"] bs(2) w by (auto simp: fixed_decode_def)
  with bs(1) w show "\<exists>bs. fixed_encode s width x = Inr bs \<and> (\<forall>r rest. reader_ok r \<longrightarrow> remaining r = bs @ rest \<longrightarrow>
      (\<exists>r'. fixed_decode s width r = Inr (x, r') \<and> reader_ok r' \<and> remaining r' = rest))"
    by (intro exI [of _ bs]) (simp add: fixed_encode_def)
qed

definition sized_good :: "serde \<Rightarrow> (dyn \<Rightarrow> bool) \<Rightarrow> dyn \<Rightarrow> bool" where
  "sized_good s good x \<longleftrightarrow> good x \<and> (\<forall>bs. serialize s x None = Inr bs \<longrightarrow> safe_int (int (length bs)))"

text \<open>A size and the bytes it counts, read back with the limits that admit them.\<close>

lemma read_sized:
  assumes "reader_ok r" and "remaining r = (be_bytes sizeBytes (length p) @ p) @ rest"
    and "limit_ok most" and "\<not> exceeds (length p) most"
  shows "\<exists>r' r''. reader_readSize r most what = Inr (length p, r') \<and> reader_read r' (length p) what' = Inr (p, r'') \<and>
    reader_ok r'' \<and> remaining r'' = rest \<and> reader_data r' = reader_data r \<and> reader_data r'' = reader_data r"
proof -
  have rem: "remaining r = be_bytes sizeBytes (length p) @ p @ rest" using assms(2) by simp
  obtain r' where r': "reader_readSize r most what = Inr (length p, r')" "remaining r' = p @ rest"
    "reader_data r' = reader_data r" "reader_ok r'"
    using reader_readSize_spec [OF assms(1) encodeSize_ok [OF limit_safe [OF assms(3,4)]] rem assms(3,4)] by auto
  show ?thesis using r' reader_read_spec [OF r'(4,2), of what'] by auto
qed

lemma data_limit:
  assumes "reader_ok r" and "remaining r = p @ rest" and "length q \<le> length p"
  shows "limit_ok (Finite (of_nat (length (reader_data r))))"
    and "\<not> exceeds (length q) (Finite (of_nat (length (reader_data r))))"
proof -
  have "length (remaining r) \<le> length (reader_data r)" by (simp add: remaining_def)
  with assms show "limit_ok (Finite (of_nat (length (reader_data r))))"
    "\<not> exceeds (length q) (Finite (of_nat (length (reader_data r))))"
    by (auto simp: reader_ok_def intro!: limit_of_nat not_exceeds_length)
qed

sublocale serde_contract \<subseteq> sized: element_codec "sized_encode s" "sized_decode s" "sized_good s good"
proof
  fix x
  assume x: "sized_good s good x"
  then have "good x" by (simp add: sized_good_def)
  then obtain bs where bs: "serialize s x None = Inr bs" "deserialize s bs = Inr x" using roundtrip by blast
  with x have safe: "safe_int (int (length bs))" by (simp add: sized_good_def)
  have "\<exists>r'. sized_decode s r = Inr (x, r') \<and> reader_ok r' \<and> remaining r' = rest"
    if ok: "reader_ok r" and rem: "remaining r = (be_bytes sizeBytes (length bs) @ bs) @ rest" for r rest
  proof -
    have "length bs \<le> length (be_bytes sizeBytes (length bs) @ bs)" by simp
    from read_sized [OF ok rem data_limit [OF ok rem this], of "''array element length''" "''array element''"] bs(2)
    show ?thesis by (auto simp: sized_decode_def)
  qed
  with bs(1) safe show "\<exists>bs. sized_encode s x = Inr bs \<and> (\<forall>r rest. reader_ok r \<longrightarrow> remaining r = bs @ rest \<longrightarrow>
      (\<exists>r'. sized_decode s r = Inr (x, r') \<and> reader_ok r' \<and> remaining r' = rest))"
    by (intro exI [of _ "be_bytes sizeBytes (length bs) @ bs"]) (simp add: sized_encode_def encodeSize_ok)
qed

definition text_good :: "SerdeLimits \<Rightarrow> dyn \<Rightarrow> bool" where
  "text_good limits x \<longleftrightarrow> (\<exists>s. x = DString s \<and> utf8_ok s \<and> \<not> exceeds (length (utf8_encode s)) (maxStringBytes limits))"

lemma text_codec:
  assumes "limits_ok limits"
  shows "element_codec (text_encode limits) (text_decode limits) (text_good limits)"
proof
  fix x
  assume "text_good limits x"
  then obtain s where x: "x = DString s" "utf8_ok s" "\<not> exceeds (length (utf8_encode s)) (maxStringBytes limits)"
    by (auto simp: text_good_def)
  have limit: "limit_ok (maxStringBytes limits)" using assms by (simp add: limits_ok_def)
  let ?bs = "be_bytes sizeBytes (length (utf8_encode s)) @ utf8_encode s"
  have "\<exists>r'. text_decode limits r = Inr (x, r') \<and> reader_ok r' \<and> remaining r' = rest"
    if ok: "reader_ok r" and rem: "remaining r = ?bs @ rest" for r rest
    using read_sized [OF ok rem limit x(3), of "''string length''" "''string''"] x(1) utf8_roundtrip [OF x(2)]
    by (auto simp: text_decode_def)
  then show "\<exists>bs. text_encode limits x = Inr bs \<and> (\<forall>r rest. reader_ok r \<longrightarrow> remaining r = bs @ rest \<longrightarrow>
      (\<exists>r'. text_decode limits r = Inr (x, r') \<and> reader_ok r' \<and> remaining r' = rest))"
    using x encodeSize_ok [OF limit_safe [OF limit x(3)]]
    by (intro exI [of _ ?bs]) (simp add: text_encode_def Let_def)
qed

lemma array_contract:
  assumes "element_codec enc dec good" and "limits_ok limits"
    and "serialize a = array_serialize enc limits" and "deserialize a = array_deserialize dec limits"
  shows "serde_contract a (array_good enc good limits)"
proof
  fix v
  assume "array_good enc good limits v"
  then show "\<exists>bs. serialize a v None = Inr bs \<and> deserialize a bs = Inr v"
    unfolding assms(3,4) by (rule element_codec.array_roundtrip [OF assms(1,2)])
qed (simp add: assms(3) array_serialize_prefixed)

lemma StringArraySerde_contract:
  assumes "limits_ok limits"
  shows "serde_contract (StringArraySerde limits) (array_good (text_encode limits) (text_good limits) limits)"
  by (rule array_contract [OF text_codec [OF assms] assms]) (simp_all add: StringArraySerde_def)

context fixed_serde
begin

lemma fixed_array_contract:
  "limits_ok limits \<Longrightarrow> serde_contract (FixedSizeArraySerde s width limits) (array_good (fixed_encode s width) good limits)"
  by (rule array_contract [OF fixed.element_codec_axioms]) (simp_all add: FixedSizeArraySerde_def)

end

context serde_contract
begin

lemma sized_array_contract:
  "limits_ok limits \<Longrightarrow> serde_contract (ArraySerde s limits) (array_good (sized_encode s) (sized_good s good) limits)"
  by (rule array_contract [OF sized.element_codec_axioms]) (simp_all add: ArraySerde_def)

end

section \<open>Maps\<close>

text \<open>
  \<open>Map.set\<close>: primitive keys are compared by value; the objects a serde returns are new, so none
  of them is the key of an entry already.
\<close>

fun is_primitive :: "dyn \<Rightarrow> bool" where
  "is_primitive (DBytes _) = False"
| "is_primitive (DArray _) = False"
| "is_primitive (DMap _) = False"
| "is_primitive (DKeyValue _ _) = False"
| "is_primitive (DError _) = False"
| "is_primitive (DObject _) = False"
| "is_primitive _ = True"

definition map_set :: "(dyn \<times> dyn) list \<Rightarrow> dyn \<times> dyn \<Rightarrow> (dyn \<times> dyn) list" where
  "map_set es e = (if is_primitive (fst e) then jm_set es (fst e) (snd e) else es @ [e])"

text \<open>Two parts, each behind its size: the layout of maps and of key-value pairs.\<close>

definition two_parts :: "bytes option \<Rightarrow> bytes \<Rightarrow> bytes \<Rightarrow> serde_error + bytes" where
  "two_parts prefix a b =
     bindR (encodeSize (length a)) (\<lambda>frame_a.
     bindR (encodeSize (length b)) (\<lambda>frame_b.
     Inr (appendBytes prefix frame_a @ a @ frame_b @ b)))"

definition read_two_parts ::
  "(bytes \<Rightarrow> serde_error + dyn) \<Rightarrow> (bytes \<Rightarrow> serde_error + dyn) \<Rightarrow> string \<Rightarrow> string \<Rightarrow> SerdeReader \<Rightarrow>
   serde_error + dyn \<times> dyn \<times> SerdeReader" where
  "read_two_parts dec_a dec_b what_a what_b r =
     (let most = Finite (of_nat (length (reader_data r)))
      in bindR (reader_readSize r most (what_a @ '' length'')) (\<lambda>(len_a, r1).
         bindR (reader_read r1 len_a what_a) (\<lambda>(bs_a, r2).
         bindR (dec_a bs_a) (\<lambda>a.
         bindR (reader_readSize r2 most (what_b @ '' length'')) (\<lambda>(len_b, r3).
         bindR (reader_read r3 len_b what_b) (\<lambda>(bs_b, r4).
         bindR (dec_b bs_b) (\<lambda>b. Inr (a, b, r4))))))))"

definition array_items :: "dyn \<Rightarrow> dyn list" where
  "array_items v = (case v of DArray xs \<Rightarrow> xs | _ \<Rightarrow> [])"

definition MapSerde :: "serde \<Rightarrow> serde \<Rightarrow> number \<Rightarrow> serde" where
  "MapSerde keys values maxTotal =
     \<lparr>serialize = (\<lambda>v prefix.
        case v of
          DMap es \<Rightarrow>
            bindR (serialize keys (DArray (map fst es)) None) (\<lambda>a.
            bindR (serialize values (DArray (map snd es)) None) (\<lambda>b. two_parts prefix a b))
        | _ \<Rightarrow> Inl (SerdeTypeError ''MapSerde expects Map'')),
      deserialize = (\<lambda>input.
        bindR (reader_new input maxTotal) (\<lambda>r.
        bindR (read_two_parts (deserialize keys) (deserialize values) ''map keys'' ''map values'' r) (\<lambda>(ks, vs, r').
        if length (array_items ks) \<noteq> length (array_items vs)
        then Inl (SerdeError ''map key and value counts do not match'' (reader_offset r'))
        else Inr (DMap (foldl map_set [] (zip (array_items ks) (array_items vs))))))),
      isStub = (isStub keys \<or> isStub values)\<rparr>"

definition MapSerde_new :: "serde \<Rightarrow> serde \<Rightarrow> number \<Rightarrow> serde_error + serde" where
  "MapSerde_new keys values maxTotal =
     (if \<not> is_safe_integer maxTotal \<or> num_less maxTotal (Finite 0)
      then Inl (SerdeRangeError ''maxTotalBytes must be a non-negative safe integer'')
      else Inr (MapSerde keys values maxTotal))"

lemma two_parts_prefixed: "two_parts (Some p) a b = mapR ((@) p) (two_parts None a b)"
  by (cases "encodeSize (length a)"; cases "encodeSize (length b)") (simp_all add: two_parts_def)

lemma two_parts_roundtrip:
  assumes "two_parts None a b = Inr bs" and "dec_a a = Inr x" and "dec_b b = Inr y"
    and "limit_ok whole" and "\<not> exceeds (length bs) whole"
  shows "\<exists>r r'. reader_new bs whole = Inr r \<and> read_two_parts dec_a dec_b what_a what_b r = Inr (x, y, r')"
proof -
  let ?a = "be_bytes sizeBytes (length a) @ a" and ?b = "be_bytes sizeBytes (length b) @ b"
  have bs: "bs = ?a @ ?b"
    using assms(1) by (auto simp: two_parts_def encodeSize_def result_simps split: if_splits)
  obtain r where r: "reader_new bs whole = Inr r" "remaining r = ?a @ ?b" "reader_data r = bs" "reader_ok r"
    using reader_new_spec [OF assms(4,5)] bs by auto
  have la: "length a \<le> length (?a @ ?b)" and lb: "length b \<le> length (?a @ ?b)" by simp_all
  have whole: "remaining r = (?a @ ?b) @ []" using r(2) by simp
  obtain r1 r2 where r2: "reader_readSize r (Finite (of_nat (length (reader_data r)))) (what_a @ '' length'') = Inr (length a, r1)"
    "reader_read r1 (length a) what_a = Inr (a, r2)" "reader_ok r2" "remaining r2 = ?b @ []"
    using read_sized [OF r(4,2) data_limit [OF r(4) whole la], of "what_a @ '' length''" what_a] by auto
  obtain r3 r4 where "reader_readSize r2 (Finite (of_nat (length (reader_data r)))) (what_b @ '' length'') = Inr (length b, r3)"
    "reader_read r3 (length b) what_b = Inr (b, r4)"
    using read_sized [OF r2(3,4) data_limit [OF r(4) whole lb], of "what_b @ '' length''" what_b] by auto
  with r(1) r2 assms(2,3) show ?thesis by (auto simp: read_two_parts_def Let_def)
qed

lemma map_set_all:
  "distinct (map fst (es @ zs)) \<Longrightarrow> foldl map_set es zs = es @ zs"
proof (induction zs arbitrary: es)
  case (Cons z zs)
  then have "map_set es z = es @ [z]" by (simp add: map_set_def jm_set_fresh)
  with Cons show ?case by simp
qed simp

text \<open>The maps with distinct keys whose parts are good and whose size the limit admits.\<close>

definition map_good :: "serde \<Rightarrow> serde \<Rightarrow> (dyn \<Rightarrow> bool) \<Rightarrow> (dyn \<Rightarrow> bool) \<Rightarrow> number \<Rightarrow> dyn \<Rightarrow> bool" where
  "map_good keys values good_keys good_values maxTotal v \<longleftrightarrow>
     (\<exists>es. v = DMap es \<and> distinct (map fst es) \<and> good_keys (DArray (map fst es)) \<and> good_values (DArray (map snd es)) \<and>
       (\<exists>bs. serialize (MapSerde keys values maxTotal) v None = Inr bs \<and> \<not> exceeds (length bs) maxTotal))"

lemma MapSerde_contract:
  assumes "serde_contract keys good_keys" and "serde_contract values good_values" and "limit_ok maxTotal"
  shows "serde_contract (MapSerde keys values maxTotal) (map_good keys values good_keys good_values maxTotal)"
proof
  fix v
  assume "map_good keys values good_keys good_values maxTotal v"
  then obtain es bs where v: "v = DMap es" "distinct (map fst es)" "good_keys (DArray (map fst es))"
    "good_values (DArray (map snd es))" "serialize (MapSerde keys values maxTotal) v None = Inr bs"
    "\<not> exceeds (length bs) maxTotal" by (auto simp: map_good_def)
  obtain a where a: "serialize keys (DArray (map fst es)) None = Inr a" "deserialize keys a = Inr (DArray (map fst es))"
    using serde_contract.roundtrip [OF assms(1) v(3)] by blast
  obtain b where b: "serialize values (DArray (map snd es)) None = Inr b" "deserialize values b = Inr (DArray (map snd es))"
    using serde_contract.roundtrip [OF assms(2) v(4)] by blast
  have parts: "two_parts None a b = Inr bs" using v(1,5) a(1) b(1) by (simp add: MapSerde_def)
  have "foldl map_set [] (zip (map fst es) (map snd es)) = es"
    using map_set_all [of "[]" es] v(2) by (simp add: zip_map_fst_snd)
  then have "deserialize (MapSerde keys values maxTotal) bs = Inr v"
    using two_parts_roundtrip [where dec_a = "deserialize keys" and dec_b = "deserialize values",
        OF parts a(2) b(2) assms(3) v(6), of "''map keys''" "''map values''"] v(1)
    by (auto simp: MapSerde_def array_items_def)
  with v(5) show "\<exists>bs. serialize (MapSerde keys values maxTotal) v None = Inr bs \<and>
      deserialize (MapSerde keys values maxTotal) bs = Inr v" by blast
next
  fix v p
  show "serialize (MapSerde keys values maxTotal) v (Some p) =
      mapR ((@) p) (serialize (MapSerde keys values maxTotal) v None)"
  proof (cases v)
    case (DMap es)
    then show ?thesis
      by (cases "serialize keys (DArray (map fst es)) None"; cases "serialize values (DArray (map snd es)) None")
        (simp_all add: MapSerde_def two_parts_prefixed)
  qed (simp_all add: MapSerde_def)
qed

section \<open>Stream serdes\<close>

record stream_serde =
  base_serde :: serde
  typeName :: string
  isKeyValue :: bool
  serializeKey :: "dyn \<Rightarrow> serde_error + bytes option"
  serializeValue :: "dyn \<Rightarrow> serde_error + bytes"
  deserializeKeyValue :: "bytes option \<Rightarrow> bytes \<Rightarrow> serde_error + dyn"

definition makeStreamSerde :: "serde \<Rightarrow> stream_serde" where
  "makeStreamSerde s =
     \<lparr>base_serde = s, typeName = [], isKeyValue = False, serializeKey = (\<lambda>_. Inr None),
      serializeValue = (\<lambda>v. serialize s v None), deserializeKeyValue = (\<lambda>_ v. deserialize s v)\<rparr>"

definition key_of :: "dyn \<Rightarrow> dyn" where
  "key_of v = (case v of DKeyValue k _ \<Rightarrow> k | _ \<Rightarrow> DUndefined)"

definition value_of :: "dyn \<Rightarrow> dyn" where
  "value_of v = (case v of DKeyValue _ w \<Rightarrow> w | _ \<Rightarrow> DUndefined)"

definition StreamKeyValueSerde :: "serde \<Rightarrow> serde \<Rightarrow> string \<Rightarrow> stream_serde" where
  "StreamKeyValueSerde keys values tname =
     \<lparr>base_serde =
        \<lparr>serialize = (\<lambda>v prefix.
           bindR (serialize keys (key_of v) None) (\<lambda>a.
           bindR (serialize values (value_of v) None) (\<lambda>b. two_parts prefix a b))),
         deserialize = (\<lambda>input.
           bindR (reader_new input MAX_SAFE_INTEGER) (\<lambda>r.
           mapR (\<lambda>(k, w, _). DKeyValue k w)
             (read_two_parts (deserialize keys) (deserialize values) ''key'' ''value'' r))),
         isStub = (isStub keys \<or> isStub values)\<rparr>,
      typeName = tname, isKeyValue = True,
      serializeKey = (\<lambda>v. mapR Some (serialize keys (key_of v) None)),
      serializeValue = (\<lambda>v. serialize values (value_of v) None),
      deserializeKeyValue = (\<lambda>k v.
        case k of
          None \<Rightarrow> Inl (SerdeError ''key is required'' 0)
        | Some kb \<Rightarrow> bindR (deserialize keys kb) (\<lambda>x. mapR (DKeyValue x) (deserialize values v)))\<rparr>"

definition makeStreamKeyValueSerde :: "stream_serde \<Rightarrow> stream_serde \<Rightarrow> stream_serde" where
  "makeStreamKeyValueSerde ks vs =
     StreamKeyValueSerde (base_serde ks) (base_serde vs) (''KeyValue['' @ typeName ks @ '','' @ typeName vs @ '']'')"

text \<open>The pairs whose parts are good and whose size is a safe integer.\<close>

definition pair_good :: "serde \<Rightarrow> serde \<Rightarrow> (dyn \<Rightarrow> bool) \<Rightarrow> (dyn \<Rightarrow> bool) \<Rightarrow> dyn \<Rightarrow> bool" where
  "pair_good keys values good_keys good_values v \<longleftrightarrow>
     (\<exists>k w. v = DKeyValue k w \<and> good_keys k \<and> good_values w \<and>
       (\<exists>bs. serialize (base_serde (StreamKeyValueSerde keys values [])) v None = Inr bs \<and> safe_int (int (length bs))))"

lemma StreamKeyValueSerde_contract:
  assumes "serde_contract keys good_keys" and "serde_contract values good_values"
  shows "serde_contract (base_serde (StreamKeyValueSerde keys values tname)) (pair_good keys values good_keys good_values)"
proof
  let ?s = "base_serde (StreamKeyValueSerde keys values tname)"
  fix v
  assume "pair_good keys values good_keys good_values v"
  then obtain k w bs where v: "v = DKeyValue k w" "good_keys k" "good_values w"
    "serialize ?s v None = Inr bs" "safe_int (int (length bs))"
    by (auto simp: pair_good_def StreamKeyValueSerde_def)
  obtain a where a: "serialize keys k None = Inr a" "deserialize keys a = Inr k"
    using serde_contract.roundtrip [OF assms(1) v(2)] by blast
  obtain b where b: "serialize values w None = Inr b" "deserialize values b = Inr w"
    using serde_contract.roundtrip [OF assms(2) v(3)] by blast
  have parts: "two_parts None a b = Inr bs"
    using v(1,4) a(1) b(1) by (simp add: StreamKeyValueSerde_def key_of_def value_of_def)
  have "\<not> exceeds (length bs) MAX_SAFE_INTEGER" using v(5) by simp
  from two_parts_roundtrip [where dec_a = "deserialize keys" and dec_b = "deserialize values",
      OF parts a(2) b(2) MAX_SAFE_limit this, of "''key''" "''value''"] v(1)
  have "deserialize ?s bs = Inr v" by (auto simp: StreamKeyValueSerde_def)
  with v(4) show "\<exists>bs. serialize ?s v None = Inr bs \<and> deserialize ?s bs = Inr v" by blast
next
  fix v p
  show "serialize (base_serde (StreamKeyValueSerde keys values tname)) v (Some p) =
      mapR ((@) p) (serialize (base_serde (StreamKeyValueSerde keys values tname)) v None)"
    by (cases "serialize keys (key_of v) None"; cases "serialize values (value_of v) None")
      (simp_all add: StreamKeyValueSerde_def two_parts_prefixed)
qed

interpretation int_to_string: serde_contract
  "base_serde (makeStreamKeyValueSerde (makeStreamSerde (Int64Serde ''Int64Serde'')) (makeStreamSerde (StringSerde unlimitedSerdeLimits)))"
  "pair_good (Int64Serde ''Int64Serde'') (StringSerde unlimitedSerdeLimits) (bigint_good (- (2 ^ 63)) (2 ^ 63 - 1))
     (string_good unlimitedSerdeLimits)"
  unfolding makeStreamKeyValueSerde_def makeStreamSerde_def stream_serde.simps
  by (rule StreamKeyValueSerde_contract [OF int64_serde.serde_contract_axioms string_serde.serde_contract_axioms])

text \<open>
  A map survives its serde, whatever the serdes of its keys and values are, as long as these
  keep the contract: every map with distinct keys that is within the limits is serialised, and
  reading the bytes gives the same entries in the same order. A prefix only precedes the bytes.
\<close>

theorem map_serde_roundtrip:
  assumes "serde_contract keys good_keys" and "serde_contract values good_values" and "limit_ok maxTotal"
    and "map_good keys values good_keys good_values maxTotal v"
  shows "bindR (serialize (MapSerde keys values maxTotal) v None) (deserialize (MapSerde keys values maxTotal)) = Inr v \<and>
    serialize (MapSerde keys values maxTotal) v (Some p) =
      mapR ((@) p) (serialize (MapSerde keys values maxTotal) v None)"
  using serde_contract.roundtrip [OF MapSerde_contract [OF assms(1-3)] assms(4)]
    serde_contract.prefixed [OF MapSerde_contract [OF assms(1-3)], of v p] by auto

definition small_map :: dyn where
  "small_map = DMap [(DBool True, DBool False), (DBool False, DBool False)]"

abbreviation bool_array :: serde where
  "bool_array \<equiv> FixedSizeArraySerde BoolSerde 1 unlimitedSerdeLimits"

lemma bool_array_contract: "serde_contract bool_array (array_good (fixed_encode BoolSerde 1) bool_good unlimitedSerdeLimits)"
  by (rule bool_serde.fixed_array_contract [OF unlimited_ok])

lemma two_bools:
  "array_good (fixed_encode BoolSerde 1) bool_good unlimitedSerdeLimits (DArray [DBool b, DBool c])"
  "serialize bool_array (DArray [DBool b, DBool c]) None =
    Inr (be_bytes sizeBytes 2 @ [if b then 1 else 0] @ [if c then 1 else 0])"
  by (simp_all add: array_good_def bool_good_def FixedSizeArraySerde_def array_serialize_def validateArray_def
      unlimitedSerdeLimits_def encodeSize_ok fixed_encode_def BoolSerde_def safe_int_def max_safe_integer_def
      numeral_2_eq_2)

theorem map_serde_roundtrip_witness:
  "bindR (serialize (MapSerde bool_array bool_array MAX_SAFE_INTEGER) small_map None)
     (deserialize (MapSerde bool_array bool_array MAX_SAFE_INTEGER)) = Inr small_map"
proof -
  have "map_good bool_array bool_array (array_good (fixed_encode BoolSerde 1) bool_good unlimitedSerdeLimits)
      (array_good (fixed_encode BoolSerde 1) bool_good unlimitedSerdeLimits) MAX_SAFE_INTEGER small_map"
    using two_bools
    by (simp add: map_good_def small_map_def MapSerde_def two_parts_def encodeSize_ok safe_int_def max_safe_integer_def)
  from map_serde_roundtrip [OF bool_array_contract bool_array_contract MAX_SAFE_limit this]
  show ?thesis by simp
qed

end
