(* ===== verification/SerdeRegistry.thy ===== *)
theory SerdeRegistry
  imports SerdeCollection
begin

text \<open>
  The registry of serdes and the default registry, from \<open>src/runtime/serde/registry.ts\<close> and
  \<open>defaults.ts\<close>. A \<open>SerdeType\<close> is an object with an identity; the serdes of the floats and of
  the JSON encoded \<open>ScheduleTrigger\<close> are parameters of the default registry.
\<close>

section \<open>Types and validated serdes\<close>

record SerdeType =
  serdeType_id :: nat
  serdeType_name :: string
  serdeType_predicate :: "dyn \<Rightarrow> bool"

text \<open>The white space of \<open>trim\<close>, and the constructor, which refuses a blank name.\<close>

definition blank :: "string \<Rightarrow> bool" where
  "blank s = list_all (\<lambda>c. (of_char c :: nat) \<in> {9, 10, 11, 12, 13, 32, 160}) s"

definition SerdeType_new :: "nat \<Rightarrow> string \<Rightarrow> (dyn \<Rightarrow> bool) \<Rightarrow> string + SerdeType" where
  "SerdeType_new i n p =
     (if blank n then Inl ''serde type name must not be empty''
      else Inr \<lparr>serdeType_id = i, serdeType_name = n, serdeType_predicate = p\<rparr>)"

definition type_assert :: "SerdeType \<Rightarrow> dyn \<Rightarrow> serde_error + unit" where
  "type_assert t v =
     (if serdeType_predicate t v then Inr () else Inl (SerdeTypeError (''value is not '' @ serdeType_name t)))"

definition validated :: "SerdeType \<Rightarrow> dyn \<Rightarrow> serde_error + dyn" where
  "validated t v = mapR (\<lambda>_. v) (type_assert t v)"

definition RuntimeValidatedStreamSerde :: "SerdeType \<Rightarrow> stream_serde \<Rightarrow> stream_serde" where
  "RuntimeValidatedStreamSerde t s =
     \<lparr>base_serde =
        \<lparr>serialize = (\<lambda>v prefix. bindR (type_assert t v) (\<lambda>_. serialize (base_serde s) v prefix)),
         deserialize = (\<lambda>input. bindR (deserialize (base_serde s) input) (validated t)),
         isStub = isStub (base_serde s)\<rparr>,
      typeName = serdeType_name t, isKeyValue = isKeyValue s,
      serializeKey = (\<lambda>v. bindR (type_assert t v) (\<lambda>_. serializeKey s v)),
      serializeValue = (\<lambda>v. bindR (type_assert t v) (\<lambda>_. serializeValue s v)),
      deserializeKeyValue = (\<lambda>k v. bindR (deserializeKeyValue s k v) (validated t))\<rparr>"

section \<open>The registry\<close>

record SerdeRegistry =
  byName :: "(string, stream_serde) jsmap"
  assertByNames :: "(string, SerdeType) jsmap"
  registered :: "(nat, stream_serde) jsmap"
  streamValueTypes :: "(int, string) jsmap"
  streamErrorTypes :: "(int, string) jsmap"

definition registry_new :: SerdeRegistry where
  "registry_new = \<lparr>byName = [], assertByNames = [], registered = [], streamValueTypes = [], streamErrorTypes = []\<rparr>"

definition register :: "SerdeRegistry \<Rightarrow> SerdeType \<Rightarrow> stream_serde \<Rightarrow> string + SerdeRegistry" where
  "register reg t s =
     (if jm_has (byName reg) (serdeType_name t)
      then Inl (''serde type '' @ serdeType_name t @ '' is already registered'')
      else let v = RuntimeValidatedStreamSerde t s
           in Inr (reg\<lparr>byName := jm_set (byName reg) (serdeType_name t) v,
                       assertByNames := jm_set (assertByNames reg) (serdeType_name t) t,
                       registered := jm_set (registered reg) (serdeType_id t) v\<rparr>))"

definition registry_get :: "SerdeRegistry \<Rightarrow> SerdeType \<Rightarrow> stream_serde option" where
  "registry_get reg t = jm_get (registered reg) (serdeType_id t)"

definition not_registered :: "string \<Rightarrow> string" where
  "not_registered n = ''serde type '' @ n @ '' is not registered''"

definition registry_require :: "SerdeRegistry \<Rightarrow> SerdeType \<Rightarrow> string + stream_serde" where
  "registry_require reg t =
     (case registry_get reg t of None \<Rightarrow> Inl (not_registered (serdeType_name t)) | Some s \<Rightarrow> Inr s)"

definition requireByName :: "SerdeRegistry \<Rightarrow> string \<Rightarrow> string + stream_serde" where
  "requireByName reg n = (case jm_get (byName reg) n of None \<Rightarrow> Inl (not_registered n) | Some s \<Rightarrow> Inr s)"

text \<open>
  \<open>matchesByName\<close>: a predicate here always answers, so the branch that rethrows what a predicate throws other than
  a \<open>TypeError\<close> does not occur.
\<close>

definition matchesByName :: "SerdeRegistry \<Rightarrow> string \<Rightarrow> dyn \<Rightarrow> string + bool" where
  "matchesByName reg n v =
     (case jm_get (assertByNames reg) n of
        None \<Rightarrow> Inl (not_registered n)
      | Some t \<Rightarrow> (case type_assert t v of Inl _ \<Rightarrow> Inr False | Inr _ \<Rightarrow> Inr True))"

definition assertByName :: "SerdeRegistry \<Rightarrow> string \<Rightarrow> dyn \<Rightarrow> string + (serde_error + unit)" where
  "assertByName reg n v =
     (case jm_get (assertByNames reg) n of None \<Rightarrow> Inl (not_registered n) | Some t \<Rightarrow> Inr (type_assert t v))"

definition registerStreamErrorType :: "SerdeRegistry \<Rightarrow> int \<Rightarrow> SerdeType \<Rightarrow> string + SerdeRegistry" where
  "registerStreamErrorType reg i t =
     (if jm_has (streamErrorTypes reg) i
      then Inl (''error serde for stream '' @ show_int i @ '' is already registered'')
      else Inr (reg\<lparr>streamErrorTypes := jm_set (streamErrorTypes reg) i (serdeType_name t)\<rparr>))"

definition registerStreamValueType :: "SerdeRegistry \<Rightarrow> int \<Rightarrow> SerdeType \<Rightarrow> string + SerdeRegistry" where
  "registerStreamValueType reg i t =
     (if jm_has (streamValueTypes reg) i
      then Inl (''value serde for stream '' @ show_int i @ '' is already registered'')
      else Inr (reg\<lparr>streamValueTypes := jm_set (streamValueTypes reg) i (serdeType_name t)\<rparr>))"

definition requireStreamValue :: "SerdeRegistry \<Rightarrow> int \<Rightarrow> string + stream_serde" where
  "requireStreamValue reg i =
     (case jm_get (streamValueTypes reg) i of
        None \<Rightarrow> Inl (''value serde for stream '' @ show_int i @ '' is not registered'')
      | Some n \<Rightarrow> requireByName reg n)"

definition requireStreamError :: "SerdeRegistry \<Rightarrow> int \<Rightarrow> string + stream_serde" where
  "requireStreamError reg i =
     (case jm_get (streamErrorTypes reg) i of
        None \<Rightarrow> Inl (''error serde for stream '' @ show_int i @ '' is not registered'')
      | Some n \<Rightarrow> requireByName reg n)"

section \<open>The default types\<close>

definition isIntegerInRange :: "dyn \<Rightarrow> int \<Rightarrow> int \<Rightarrow> bool" where
  "isIntegerInRange v lo hi =
     (case v of
        DNumber (Finite q) \<Rightarrow> snd (quotient_of q) = 1 \<and> q \<ge> of_int lo \<and> q \<le> of_int hi
      | _ \<Rightarrow> False)"

definition isBigIntInRange :: "dyn \<Rightarrow> int \<Rightarrow> int \<Rightarrow> bool" where
  "isBigIntInRange v lo hi = (case v of DBigInt n \<Rightarrow> n \<ge> lo \<and> n < hi | _ \<Rightarrow> False)"

definition isBoolean :: "dyn \<Rightarrow> bool" where
  "isBoolean v = (case v of DBool _ \<Rightarrow> True | _ \<Rightarrow> False)"

definition isString :: "dyn \<Rightarrow> bool" where
  "isString v = (case v of DString _ \<Rightarrow> True | _ \<Rightarrow> False)"

definition isNumber :: "dyn \<Rightarrow> bool" where
  "isNumber v = (case v of DNumber _ \<Rightarrow> True | _ \<Rightarrow> False)"

definition isBytes :: "dyn \<Rightarrow> bool" where
  "isBytes v = (case v of DBytes _ \<Rightarrow> True | _ \<Rightarrow> False)"

definition isInt8 :: "dyn \<Rightarrow> bool" where "isInt8 v = isIntegerInRange v (-0x80) 0x7f"
definition isInt16 :: "dyn \<Rightarrow> bool" where "isInt16 v = isIntegerInRange v (-0x8000) 0x7fff"
definition isInt32 :: "dyn \<Rightarrow> bool" where "isInt32 v = isIntegerInRange v (-0x80000000) 0x7fffffff"
definition isUInt8 :: "dyn \<Rightarrow> bool" where "isUInt8 v = isIntegerInRange v 0 0xff"
definition isUInt16 :: "dyn \<Rightarrow> bool" where "isUInt16 v = isIntegerInRange v 0 0xffff"
definition isUInt32 :: "dyn \<Rightarrow> bool" where "isUInt32 v = isIntegerInRange v 0 0xffffffff"
definition isInt64 :: "dyn \<Rightarrow> bool" where "isInt64 v = isBigIntInRange v (- (2 ^ 63)) (2 ^ 63)"
definition isUInt64 :: "dyn \<Rightarrow> bool" where "isUInt64 v = isBigIntInRange v 0 (2 ^ 64)"

definition makeArrayType :: "nat \<Rightarrow> string \<Rightarrow> SerdeType \<Rightarrow> SerdeType" where
  "makeArrayType i n element =
     \<lparr>serdeType_id = i, serdeType_name = n,
      serdeType_predicate = (\<lambda>v. case v of DArray xs \<Rightarrow> list_all (serdeType_predicate element) xs | _ \<Rightarrow> False)\<rparr>"

text \<open>
  The types with their serdes, in the order of their registration. \<open>f32\<close> and \<open>f64\<close> are the serdes
  of the floats, \<open>trigger\<close> the type guard and the JSON serde of a \<open>ScheduleTrigger\<close>.
\<close>

definition scalar_types :: "serde \<Rightarrow> serde \<Rightarrow> (SerdeType \<times> serde \<times> (SerdeLimits \<Rightarrow> serde)) list" where
  "scalar_types f32 f64 =
     [(\<lparr>serdeType_id = 0, serdeType_name = ''bool'', serdeType_predicate = isBoolean\<rparr>, BoolSerde, BoolArraySerde),
      (\<lparr>serdeType_id = 1, serdeType_name = ''int8'', serdeType_predicate = isInt8\<rparr>, IntegerSerde Int8Serde, Int8ArraySerde),
      (\<lparr>serdeType_id = 2, serdeType_name = ''int16'', serdeType_predicate = isInt16\<rparr>, IntegerSerde Int16Serde, Int16ArraySerde),
      (\<lparr>serdeType_id = 3, serdeType_name = ''int32'', serdeType_predicate = isInt32\<rparr>, IntegerSerde Int32Serde, Int32ArraySerde),
      (\<lparr>serdeType_id = 4, serdeType_name = ''int64'', serdeType_predicate = isInt64\<rparr>, Int64Serde ''Int64Serde'', Int64ArraySerde),
      (\<lparr>serdeType_id = 5, serdeType_name = ''int'', serdeType_predicate = isInt64\<rparr>, Int64Serde ''IntSerde'', IntArraySerde),
      (\<lparr>serdeType_id = 6, serdeType_name = ''uint8'', serdeType_predicate = isUInt8\<rparr>, IntegerSerde UInt8Serde, UInt8ArraySerde),
      (\<lparr>serdeType_id = 7, serdeType_name = ''uint16'', serdeType_predicate = isUInt16\<rparr>, IntegerSerde UInt16Serde, UInt16ArraySerde),
      (\<lparr>serdeType_id = 8, serdeType_name = ''uint32'', serdeType_predicate = isUInt32\<rparr>, IntegerSerde UInt32Serde, UInt32ArraySerde),
      (\<lparr>serdeType_id = 9, serdeType_name = ''uint64'', serdeType_predicate = isUInt64\<rparr>, UInt64Serde ''UInt64Serde'', UInt64ArraySerde),
      (\<lparr>serdeType_id = 10, serdeType_name = ''uint'', serdeType_predicate = isUInt64\<rparr>, UInt64Serde ''UIntSerde'', UIntArraySerde),
      (\<lparr>serdeType_id = 11, serdeType_name = ''float32'', serdeType_predicate = isNumber\<rparr>, f32, Float32ArraySerde f32),
      (\<lparr>serdeType_id = 12, serdeType_name = ''float64'', serdeType_predicate = isNumber\<rparr>, f64, Float64ArraySerde f64)]"

definition single_types :: "(dyn \<Rightarrow> bool) \<times> serde \<Rightarrow> (SerdeType \<times> serde) list" where
  "single_types trigger =
     [(\<lparr>serdeType_id = 13, serdeType_name = ''rune'', serdeType_predicate = isInt32\<rparr>, IntegerSerde RuneSerde),
      (\<lparr>serdeType_id = 14, serdeType_name = ''string'', serdeType_predicate = isString\<rparr>, StringSerde unlimitedSerdeLimits),
      (\<lparr>serdeType_id = 15, serdeType_name = ''[]byte'', serdeType_predicate = isBytes\<rparr>, BytesSerde unlimitedSerdeLimits),
      (\<lparr>serdeType_id = 16, serdeType_name = ''error'', serdeType_predicate = (\<lambda>v. case v of DError _ \<Rightarrow> True | _ \<Rightarrow> False)\<rparr>, StubSerde),
      (\<lparr>serdeType_id = 17, serdeType_name = ''ScheduleTrigger'', serdeType_predicate = fst trigger\<rparr>, snd trigger)]"

definition array_types :: "serde \<Rightarrow> serde \<Rightarrow> (SerdeType \<times> serde) list" where
  "array_types f32 f64 =
     map (\<lambda>(t, _, a). (makeArrayType (18 + serdeType_id t) (''[]'' @ serdeType_name t) t, a unlimitedSerdeLimits))
       (scalar_types f32 f64) @
     [(makeArrayType 31 ''[]string'' \<lparr>serdeType_id = 14, serdeType_name = ''string'', serdeType_predicate = isString\<rparr>,
       StringArraySerde unlimitedSerdeLimits)]"

definition default_types :: "serde \<Rightarrow> serde \<Rightarrow> (dyn \<Rightarrow> bool) \<times> serde \<Rightarrow> (SerdeType \<times> serde) list" where
  "default_types f32 f64 trigger =
     map (\<lambda>(t, s, _). (t, s)) (scalar_types f32 f64) @ single_types trigger @ array_types f32 f64"

fun register_all :: "SerdeRegistry \<Rightarrow> (SerdeType \<times> serde) list \<Rightarrow> string + SerdeRegistry" where
  "register_all reg [] = Inr reg"
| "register_all reg ((t, s) # rest) = bindR (register reg t (makeStreamSerde s)) (\<lambda>reg'. register_all reg' rest)"

definition makeDefaultSerdeRegistry :: "serde \<Rightarrow> serde \<Rightarrow> (dyn \<Rightarrow> bool) \<times> serde \<Rightarrow> string + SerdeRegistry" where
  "makeDefaultSerdeRegistry f32 f64 trigger = register_all registry_new (default_types f32 f64 trigger)"

section \<open>What registration gives\<close>

text \<open>No default type has a blank name, so the constructor makes each of them.\<close>

lemma default_types_made:
  "list_all (\<lambda>(t, _). SerdeType_new (serdeType_id t) (serdeType_name t) (serdeType_predicate t) = Inr t)
    (default_types f32 f64 trigger)"
  by (simp add: SerdeType_new_def default_types_def scalar_types_def single_types_def array_types_def makeArrayType_def blank_def)

lemma register_fresh:
  assumes "\<not> jm_has (byName reg) (serdeType_name t)"
  shows "\<exists>reg'. register reg t s = Inr reg' \<and>
    (\<forall>n. jm_get (byName reg') n =
       (if n = serdeType_name t then Some (RuntimeValidatedStreamSerde t s) else jm_get (byName reg) n)) \<and>
    (\<forall>n. jm_get (assertByNames reg') n = (if n = serdeType_name t then Some t else jm_get (assertByNames reg) n))"
  using assms by (simp add: register_def Let_def jsmap_simps)

lemma register_all_spec:
  assumes "distinct (map (serdeType_name \<circ> fst) ts)"
    and "\<And>t s. (t, s) \<in> set ts \<Longrightarrow> \<not> jm_has (byName reg) (serdeType_name t)"
  shows "\<exists>reg'. register_all reg ts = Inr reg' \<and>
    (\<forall>(t, s) \<in> set ts. jm_get (byName reg') (serdeType_name t) =
         Some (RuntimeValidatedStreamSerde t (makeStreamSerde s)) \<and>
       jm_get (assertByNames reg') (serdeType_name t) = Some t) \<and>
    (\<forall>n. n \<notin> set (map (serdeType_name \<circ> fst) ts) \<longrightarrow>
       jm_get (byName reg') n = jm_get (byName reg) n \<and>
       jm_get (assertByNames reg') n = jm_get (assertByNames reg) n)"
  using assms
proof (induction ts arbitrary: reg)
  case (Cons row ts)
  obtain t s where row: "row = (t, s)" by force
  obtain r where r: "register reg t (makeStreamSerde s) = Inr r"
    "\<And>n. jm_get (byName r) n = (if n = serdeType_name t
       then Some (RuntimeValidatedStreamSerde t (makeStreamSerde s)) else jm_get (byName reg) n)"
    "\<And>n. jm_get (assertByNames r) n = (if n = serdeType_name t then Some t else jm_get (assertByNames reg) n)"
    using register_fresh [of reg t "makeStreamSerde s"] Cons.prems(2) [of t s] row by auto
  have "\<not> jm_has (byName r) (serdeType_name t')" if "(t', s') \<in> set ts" for t' s'
  proof -
    have "serdeType_name t' \<noteq> serdeType_name t" using Cons.prems(1) that row by force
    then show ?thesis using r(2) Cons.prems(2) [of t' s'] that by (simp add: jm_has_def)
  qed
  then obtain reg' where reg': "register_all r ts = Inr reg'"
    "\<forall>(t, s) \<in> set ts. jm_get (byName reg') (serdeType_name t) =
         Some (RuntimeValidatedStreamSerde t (makeStreamSerde s)) \<and>
       jm_get (assertByNames reg') (serdeType_name t) = Some t"
    "\<And>n. n \<notin> set (map (serdeType_name \<circ> fst) ts) \<Longrightarrow>
       jm_get (byName reg') n = jm_get (byName r) n \<and>
       jm_get (assertByNames reg') n = jm_get (assertByNames r) n"
    using Cons.IH [of r] Cons.prems(1) by auto
  have "serdeType_name t \<notin> set (map (serdeType_name \<circ> fst) ts)" using Cons.prems(1) row by simp
  with reg'(3) [of "serdeType_name t"] r(2,3) have
    "jm_get (byName reg') (serdeType_name t) = Some (RuntimeValidatedStreamSerde t (makeStreamSerde s))"
    "jm_get (assertByNames reg') (serdeType_name t) = Some t" by simp_all
  with reg' r show ?case by (intro exI [of _ reg']) (auto simp: row)
qed simp

lemma default_names: "distinct (map (serdeType_name \<circ> fst) (default_types f32 f64 trigger))"
  by (simp add: default_types_def scalar_types_def single_types_def array_types_def makeArrayType_def)

lemma default_registry:
  "\<exists>reg. makeDefaultSerdeRegistry f32 f64 trigger = Inr reg \<and>
    (\<forall>(t, s) \<in> set (default_types f32 f64 trigger).
       requireByName reg (serdeType_name t) = Inr (RuntimeValidatedStreamSerde t (makeStreamSerde s)) \<and>
       (\<forall>v. matchesByName reg (serdeType_name t) v = Inr (serdeType_predicate t v)))"
proof -
  have "\<not> jm_has (byName registry_new) n" for n by (simp add: registry_new_def jm_has_def)
  then obtain reg where reg: "register_all registry_new (default_types f32 f64 trigger) = Inr reg"
    "\<forall>(t, s) \<in> set (default_types f32 f64 trigger).
       jm_get (byName reg) (serdeType_name t) = Some (RuntimeValidatedStreamSerde t (makeStreamSerde s)) \<and>
       jm_get (assertByNames reg) (serdeType_name t) = Some t"
    using register_all_spec [OF default_names, where reg = registry_new] by blast
  then show ?thesis
    by (intro exI [of _ reg])
      (auto simp: makeDefaultSerdeRegistry_def requireByName_def matchesByName_def type_assert_def)
qed

section \<open>What the default types read back\<close>

text \<open>An upper bound of the bytes of a value, and the values UTF-8 and the size limit can carry.\<close>

fun room :: "dyn \<Rightarrow> nat" where
  "room (DBytes bs) = 8 + length bs"
| "room (DString s) = 8 + length (utf8_encode s)"
| "room (DArray xs) = 8 + sum_list (map room xs)"
| "room _ = 8"

fun texts_ok :: "dyn \<Rightarrow> bool" where
  "texts_ok (DString s) = utf8_ok s"
| "texts_ok (DArray xs) = list_all texts_ok xs"
| "texts_ok _ = True"

definition portable :: "SerdeType \<Rightarrow> dyn \<Rightarrow> bool" where
  "portable t v \<longleftrightarrow> serdeType_predicate t v \<and> texts_ok v \<and> safe_int (int (room v))"

lemma contract_weaken: "serde_contract s good \<Longrightarrow> (\<And>v. p v \<Longrightarrow> good v) \<Longrightarrow> serde_contract s p"
  by (auto simp: serde_contract_def)

lemma validated_contract:
  assumes "serde_contract s (portable t)"
  shows "serde_contract (base_serde (RuntimeValidatedStreamSerde t (makeStreamSerde s))) (portable t)"
proof
  fix v
  assume v: "portable t v"
  with serde_contract.roundtrip [OF assms v]
  show "\<exists>bs. serialize (base_serde (RuntimeValidatedStreamSerde t (makeStreamSerde s))) v None = Inr bs \<and>
      deserialize (base_serde (RuntimeValidatedStreamSerde t (makeStreamSerde s))) bs = Inr v"
    by (auto simp: RuntimeValidatedStreamSerde_def makeStreamSerde_def type_assert_def validated_def portable_def)
next
  fix v p
  show "serialize (base_serde (RuntimeValidatedStreamSerde t (makeStreamSerde s))) v (Some p) =
      mapR ((@) p) (serialize (base_serde (RuntimeValidatedStreamSerde t (makeStreamSerde s))) v None)"
    using serde_contract.prefixed [OF assms]
    by (simp add: RuntimeValidatedStreamSerde_def makeStreamSerde_def type_assert_def)
qed

lemma elements_room:
  assumes "\<And>x bs. x \<in> set xs \<Longrightarrow> enc x = Inr bs \<Longrightarrow> length bs \<le> room x"
    and "append_elements enc out xs = Inr bs"
  shows "length bs \<le> length out + sum_list (map room xs)"
  using assms
proof (induction xs arbitrary: out)
  case (Cons x xs)
  from Cons.prems(2) obtain b where b: "enc x = Inr b" "append_elements enc (out @ b) xs = Inr bs"
    by (auto simp: result_simps)
  with Cons.IH [of "out @ b"] Cons.prems(1) [of x b] Cons.prems(1) show ?case by fastforce
qed simp

lemma array_room:
  assumes "\<And>x bs. x \<in> set xs \<Longrightarrow> enc x = Inr bs \<Longrightarrow> length bs \<le> room x"
    and "array_serialize enc limits (DArray xs) None = Inr bs"
  shows "length bs \<le> room (DArray xs)"
proof -
  from assms(2) obtain n where "encodeSize (length xs) = Inr n" "append_elements enc n xs = Inr bs"
    by (auto simp: array_serialize_def validateArray_def result_simps split: if_splits)
  moreover from this(1) have "length n = 8" by (auto simp: encodeSize_def split: if_splits)
  ultimately show ?thesis using elements_room [where enc = enc and out = n, OF assms(1)] by fastforce
qed

lemma room_positive: "8 \<le> room v"
  by (cases v) simp_all

lemma element_room: "x \<in> set xs \<Longrightarrow> room x \<le> room (DArray xs)"
  by (induction xs) auto

lemma length_room: "length xs \<le> sum_list (map room xs)"
proof (induction xs)
  case (Cons x xs)
  then show ?case using room_positive [of x] by simp
qed simp

lemma elements_safe: "safe_int (int (room (DArray xs))) \<Longrightarrow> safe_int (int (length xs))"
  by (erule safe_int_mono) (simp add: length_room trans_le_add2)

lemma integer_in_range:
  "isIntegerInRange v lo hi \<Longrightarrow> \<exists>n. v = DNumber (Finite (of_int n)) \<and> lo \<le> n \<and> n \<le> hi"
proof -
  assume "isIntegerInRange v lo hi"
  then obtain q where q: "v = DNumber (Finite q)" "snd (quotient_of q) = 1" "q \<ge> of_int lo" "q \<le> of_int hi"
    by (auto simp: isIntegerInRange_def split: dyn.splits number.splits)
  then have "q = of_int (fst (quotient_of q))"
    using quotient_of_div [of q "fst (quotient_of q)" 1] by (metis div_by_1 of_int_1 prod.collapse)
  then obtain n where "q = of_int n" by blast
  with q show ?thesis by auto
qed

text \<open>The values of a type and the values its serde is meant for.\<close>

lemma good_values:
  "isBoolean v \<Longrightarrow> bool_good v" "isInt8 v \<Longrightarrow> integer_good Int8Serde v" "isInt16 v \<Longrightarrow> integer_good Int16Serde v"
  "isInt32 v \<Longrightarrow> integer_good Int32Serde v" "isInt32 v \<Longrightarrow> integer_good RuneSerde v"
  "isUInt8 v \<Longrightarrow> integer_good UInt8Serde v" "isUInt16 v \<Longrightarrow> integer_good UInt16Serde v"
  "isUInt32 v \<Longrightarrow> integer_good UInt32Serde v"
  "isInt64 v \<Longrightarrow> bigint_good (- (2 ^ 63)) (2 ^ 63 - 1) v" "isUInt64 v \<Longrightarrow> bigint_good 0 (2 ^ 64 - 1) v"
  by (simp_all add: isBoolean_def bool_good_def isInt8_def isInt16_def isInt32_def isUInt8_def isUInt16_def isUInt32_def
      isInt64_def isUInt64_def isBigIntInRange_def integer_good_def bigint_good_def Int8Serde_def Int16Serde_def
      Int32Serde_def RuneSerde_def UInt8Serde_def UInt16Serde_def UInt32Serde_def integer_in_range split: dyn.splits)

lemma array_portable:
  assumes "serde_contract a (array_good enc good unlimitedSerdeLimits)"
    and "\<And>v bs. enc v = Inr bs \<Longrightarrow> length bs \<le> room v"
    and "\<And>v. portable t v \<Longrightarrow> good v"
  shows "serde_contract a (portable (makeArrayType i n t))"
proof (rule contract_weaken [OF assms(1)])
  fix v
  assume "portable (makeArrayType i n t) v"
  then obtain xs where v: "v = DArray xs" "list_all (serdeType_predicate t) xs" "list_all texts_ok xs"
    "safe_int (int (room (DArray xs)))"
    by (auto simp: portable_def makeArrayType_def split: dyn.splits)
  have "portable t x" if "x \<in> set xs" for x
    using that v(2-4) safe_int_mono [OF v(4) element_room [OF that]] by (simp add: portable_def list_all_iff)
  then have "list_all good xs" using assms(3) by (simp add: list_all_iff)
  moreover have "safe_int (int (length bs))" if "array_serialize enc unlimitedSerdeLimits (DArray xs) None = Inr bs" for bs
    using safe_int_mono [OF v(4) array_room [OF assms(2) that]] by blast
  ultimately show "array_good enc good unlimitedSerdeLimits v"
    using v(1) elements_safe [OF v(4)] by (simp add: array_good_def unlimitedSerdeLimits_def)
qed

lemma fixed_array_portable:
  assumes "fixed_serde s good w" and "w \<le> 8" and "\<And>v. serdeType_predicate t v \<Longrightarrow> good v"
  shows "serde_contract (FixedSizeArraySerde s w unlimitedSerdeLimits) (portable (makeArrayType i n t))"
proof (rule array_portable [OF fixed_serde.fixed_array_contract [OF assms(1) unlimited_ok]])
  fix v bs
  assume "fixed_encode s w v = Inr bs"
  then have "length bs = w" by (auto simp: fixed_encode_def result_simps split: if_splits)
  then show "length bs \<le> room v" using room_positive [of v] assms(2) by simp
qed (use assms(3) in \<open>simp add: portable_def\<close>)

lemma text_array_portable:
  assumes "\<And>v. serdeType_predicate t v \<Longrightarrow> isString v"
  shows "serde_contract (StringArraySerde unlimitedSerdeLimits) (portable (makeArrayType i n t))"
proof (rule array_portable [OF StringArraySerde_contract [OF unlimited_ok]])
  fix v bs
  assume "text_encode unlimitedSerdeLimits v = Inr bs"
  then show "length bs \<le> room v"
    by (auto simp: text_encode_def encodeSize_def Let_def result_simps split: dyn.splits if_splits)
next
  fix v
  assume v: "portable t v"
  then have "safe_int (int (length (utf8_encode s)))" if "v = DString s" for s
    using that safe_int_mono [of "room v" "length (utf8_encode s)"] by (simp add: portable_def)
  moreover obtain s where "v = DString s"
    using v assms [of v] by (auto simp: portable_def isString_def split: dyn.splits)
  ultimately show "text_good unlimitedSerdeLimits v"
    using v by (simp add: portable_def text_good_def unlimitedSerdeLimits_def)
qed

text \<open>The types whose serde is a parameter of the default registry, or a stub.\<close>

definition opaque_types :: "string list" where
  "opaque_types = [''float32'', ''float64'', ''[]float32'', ''[]float64'', ''error'', ''ScheduleTrigger'']"

lemmas array_classes = BoolArraySerde_def Int8ArraySerde_def UInt8ArraySerde_def Int16ArraySerde_def UInt16ArraySerde_def
  Int32ArraySerde_def UInt32ArraySerde_def Int64ArraySerde_def UInt64ArraySerde_def IntArraySerde_def UIntArraySerde_def

lemmas integer_widths = UInt8Serde_def UInt16Serde_def UInt32Serde_def Int8Serde_def Int16Serde_def Int32Serde_def

lemma scalar_portable:
  assumes "serde_contract s good" and "\<And>v. serdeType_predicate t v \<Longrightarrow> good v"
  shows "serde_contract s (portable t)"
  by (rule contract_weaken [OF assms(1)]) (simp add: portable_def assms(2))

lemma framed_portable:
  "serdeType_predicate t = isString \<Longrightarrow> serde_contract (StringSerde unlimitedSerdeLimits) (portable t)"
  "serdeType_predicate t = isBytes \<Longrightarrow> serde_contract (BytesSerde unlimitedSerdeLimits) (portable t)"
proof -
  show "serde_contract (StringSerde unlimitedSerdeLimits) (portable t)" if "serdeType_predicate t = isString"
  proof (rule contract_weaken [OF string_serde.serde_contract_axioms])
    fix v
    assume v: "portable t v"
    then obtain s where "v = DString s"
      using \<open>serdeType_predicate t = isString\<close> by (auto simp: portable_def isString_def split: dyn.splits)
    with v safe_int_mono [of "room v" "length (utf8_encode s)"] show "string_good unlimitedSerdeLimits v"
      by (simp add: portable_def string_good_def unlimitedSerdeLimits_def)
  qed
  show "serde_contract (BytesSerde unlimitedSerdeLimits) (portable t)" if "serdeType_predicate t = isBytes"
  proof (rule contract_weaken [OF bytes_serde.serde_contract_axioms])
    fix v
    assume v: "portable t v"
    then obtain bs where "v = DBytes bs"
      using \<open>serdeType_predicate t = isBytes\<close> by (auto simp: portable_def isBytes_def split: dyn.splits)
    with v safe_int_mono [of "room v" "length bs"] show "bytes_good unlimitedSerdeLimits v"
      by (simp add: portable_def bytes_good_def unlimitedSerdeLimits_def)
  qed
qed

lemmas scalar_contracts = bool_serde.serde_contract_axioms int8_serde.serde_contract_axioms
  int16_serde.serde_contract_axioms int32_serde.serde_contract_axioms int64_serde.serde_contract_axioms
  uint8_serde.serde_contract_axioms uint16_serde.serde_contract_axioms uint32_serde.serde_contract_axioms
  uint64_serde.serde_contract_axioms rune_serde.serde_contract_axioms

lemmas scalar_fixed = bool_serde.fixed_serde_axioms int64_serde.fixed_serde_axioms uint64_serde.fixed_serde_axioms

lemma integer_fixed:
  "fixed_serde (IntegerSerde Int8Serde) (integer_good Int8Serde) 1"
  "fixed_serde (IntegerSerde Int16Serde) (integer_good Int16Serde) 2"
  "fixed_serde (IntegerSerde Int32Serde) (integer_good Int32Serde) 4"
  "fixed_serde (IntegerSerde UInt8Serde) (integer_good UInt8Serde) 1"
  "fixed_serde (IntegerSerde UInt16Serde) (integer_good UInt16Serde) 2"
  "fixed_serde (IntegerSerde UInt32Serde) (integer_good UInt32Serde) 4"
  using int8_serde.fixed_serde_axioms int16_serde.fixed_serde_axioms int32_serde.fixed_serde_axioms
    uint8_serde.fixed_serde_axioms uint16_serde.fixed_serde_axioms uint32_serde.fixed_serde_axioms
  by (simp_all add: integer_widths)

lemmas scalar_rules = scalar_contracts [THEN scalar_portable]
lemmas array_rules = integer_fixed [THEN fixed_array_portable] scalar_fixed [THEN fixed_array_portable]

lemma scalar_rows:
  "(t, s, a) \<in> set (scalar_types f32 f64) \<Longrightarrow> serdeType_name t \<notin> set opaque_types \<Longrightarrow>
    serde_contract s (portable t) \<and> serde_contract (a unlimitedSerdeLimits) (portable (makeArrayType i n t))"
  unfolding scalar_types_def opaque_types_def
  by (auto simp: array_classes simp del: One_nat_def intro!: scalar_rules array_rules intro: good_values)

lemma default_rows:
  assumes "(t, s) \<in> set (default_types f32 f64 trigger)" and "serdeType_name t \<notin> set opaque_types"
  shows "serde_contract s (portable t)"
proof -
  consider (scalar) a where "(t, s, a) \<in> set (scalar_types f32 f64)"
    | (single) "(t, s) \<in> set (single_types trigger)"
    | (array) t' s' a where "(t', s', a) \<in> set (scalar_types f32 f64)" "s = a unlimitedSerdeLimits"
        "t = makeArrayType (18 + serdeType_id t') (''[]'' @ serdeType_name t') t'"
    | (texts) "t = makeArrayType 31 ''[]string'' \<lparr>serdeType_id = 14, serdeType_name = ''string'', serdeType_predicate = isString\<rparr>"
        "s = StringArraySerde unlimitedSerdeLimits"
    using assms(1) unfolding default_types_def array_types_def by force
  then show ?thesis
  proof cases
    case scalar
    then show ?thesis using scalar_rows assms(2) by blast
  next
    case single
    then show ?thesis
      using assms(2) scalar_portable [OF scalar_contracts(10), of t] framed_portable [of t]
      by (auto simp: single_types_def opaque_types_def good_values)
  next
    case array
    then have "serdeType_name t' \<notin> set opaque_types"
      using assms(2) by (auto simp: scalar_types_def opaque_types_def makeArrayType_def)
    with array scalar_rows show ?thesis by blast
  next
    case texts
    then show ?thesis by (auto intro!: text_array_portable)
  qed
qed

text \<open>
  C12. The default registry is built without error, and for every one of its types but the floats,
  the stub of \<open>error\<close> and the JSON encoded \<open>ScheduleTrigger\<close>, the serde found under the name of
  the type serialises every value of that type and reads the bytes back as the same value, as long
  as its strings are well-formed UTF-16 without a leading byte order mark and its size is a safe
  integer.
\<close>

theorem default_registry_roundtrip:
  assumes "(t, s) \<in> set (default_types f32 f64 trigger)" and "serdeType_name t \<notin> set opaque_types" and "portable t v"
  shows "\<exists>reg ser. makeDefaultSerdeRegistry f32 f64 trigger = Inr reg \<and> requireByName reg (serdeType_name t) = Inr ser \<and>
    matchesByName reg (serdeType_name t) v = Inr True \<and>
    bindR (serialize (base_serde ser) v None) (deserialize (base_serde ser)) = Inr v \<and>
    bindR (serializeValue ser v) (deserializeKeyValue ser None) = Inr v"
proof -
  let ?ser = "RuntimeValidatedStreamSerde t (makeStreamSerde s)"
  obtain reg where reg: "makeDefaultSerdeRegistry f32 f64 trigger = Inr reg"
    "requireByName reg (serdeType_name t) = Inr ?ser"
    "matchesByName reg (serdeType_name t) v = Inr (serdeType_predicate t v)"
    using default_registry [of f32 f64 trigger] assms(1) by blast
  have v: "serdeType_predicate t v" using assms(3) by (simp add: portable_def)
  have "bindR (serialize (base_serde ?ser) v None) (deserialize (base_serde ?ser)) = Inr v"
    using serde_contract.roundtrip [OF validated_contract [OF default_rows [OF assms(1,2)]] assms(3)] by auto
  moreover have "bindR (serializeValue ?ser v) (deserializeKeyValue ?ser None) = Inr v"
    using serde_contract.roundtrip [OF default_rows [OF assms(1,2)] assms(3)] v
    by (auto simp: RuntimeValidatedStreamSerde_def makeStreamSerde_def type_assert_def validated_def)
  ultimately show ?thesis using reg v by auto
qed

text \<open>The two types that a witness uses, and a value of them.\<close>

definition int16_array :: SerdeType where
  "int16_array = makeArrayType 20 ''[]int16'' \<lparr>serdeType_id = 2, serdeType_name = ''int16'', serdeType_predicate = isInt16\<rparr>"

theorem default_registry_roundtrip_witness:
  "\<exists>reg ser. makeDefaultSerdeRegistry StubSerde StubSerde (\<lambda>_. False, StubSerde) = Inr reg \<and>
    requireByName reg ''[]int16'' = Inr ser \<and>
    bindR (serialize (base_serde ser) (DArray [DNumber (Finite (-2)), DNumber (Finite 32767)]) None)
      (deserialize (base_serde ser)) = Inr (DArray [DNumber (Finite (-2)), DNumber (Finite 32767)])"
proof -
  have "(int16_array, Int16ArraySerde unlimitedSerdeLimits) \<in>
      set (default_types StubSerde StubSerde (\<lambda>_. False, StubSerde))"
    by (simp add: default_types_def array_types_def scalar_types_def int16_array_def)
  moreover have "serdeType_name int16_array \<notin> set opaque_types"
    by (simp add: int16_array_def makeArrayType_def opaque_types_def)
  moreover have "portable int16_array (DArray [DNumber (Finite (-2)), DNumber (Finite 32767)])"
    by (simp add: portable_def int16_array_def makeArrayType_def isInt16_def isIntegerInRange_def quotient_of_number
        safe_int_def max_safe_integer_def)
  ultimately show ?thesis
    using default_registry_roundtrip [of int16_array] by (fastforce simp: int16_array_def makeArrayType_def)
qed

section \<open>Type safety of a registry\<close>

text \<open>The registries that calls of the registration methods make.\<close>

inductive built :: "SerdeRegistry \<Rightarrow> bool" where
  built_new: "built registry_new"
| built_register: "built reg \<Longrightarrow> register reg t s = Inr reg' \<Longrightarrow> built reg'"
| built_error: "built reg \<Longrightarrow> registerStreamErrorType reg i t = Inr reg' \<Longrightarrow> built reg'"
| built_value: "built reg \<Longrightarrow> registerStreamValueType reg i t = Inr reg' \<Longrightarrow> built reg'"

lemma built_entries:
  assumes "built reg" and "jm_get (byName reg) n = Some ser"
  shows "\<exists>t s. ser = RuntimeValidatedStreamSerde t s \<and> serdeType_name t = n \<and> jm_get (assertByNames reg) n = Some t"
  using assms
proof (induction arbitrary: n ser rule: built.induct)
  case built_new
  then show ?case by (simp add: registry_new_def)
next
  case (built_register reg t s reg')
  then show ?case by (force simp: register_def Let_def jsmap_simps split: if_splits)
qed (force simp: registerStreamErrorType_def registerStreamValueType_def split: if_splits)+

lemma bind_validated:
  "bindR m (validated t) = Inr v \<Longrightarrow> serdeType_predicate t v"
  "bindR (type_assert t v) (\<lambda>_. m') = Inr bs \<Longrightarrow> serdeType_predicate t v"
  by (auto simp: validated_def type_assert_def result_simps split: if_splits)

text \<open>
  C13. Whatever has been registered, the serde found under a name carries that name and never lets a
  value of another type through: a value it serialises, as a whole, as a message key or as a message
  value, and a value it reads, from one buffer or from key and value, is accepted by the guard
  registered under the same name.
\<close>

theorem registry_type_safe:
  assumes "built reg" and "requireByName reg n = Inr ser"
    and "serialize (base_serde ser) v pre = Inr bs \<or> serializeKey ser v = Inr key \<or> serializeValue ser v = Inr bs \<or>
      deserialize (base_serde ser) input = Inr v \<or> deserializeKeyValue ser k input = Inr v"
  shows "typeName ser = n \<and> matchesByName reg n v = Inr True \<and> assertByName reg n v = Inr (Inr ())"
proof -
  from assms obtain t s where t: "ser = RuntimeValidatedStreamSerde t s" "serdeType_name t = n"
    "jm_get (assertByNames reg) n = Some t"
    using built_entries [of reg n ser] by (auto simp: requireByName_def split: option.splits)
  have "serdeType_predicate t v"
    using assms(3) t(1) by (auto dest: bind_validated simp: RuntimeValidatedStreamSerde_def)
  with t show ?thesis
    by (simp add: RuntimeValidatedStreamSerde_def matchesByName_def assertByName_def type_assert_def)
qed

definition flag_type :: SerdeType where
  "flag_type = \<lparr>serdeType_id = 40, serdeType_name = ''flag'', serdeType_predicate = isBoolean\<rparr>"

theorem registry_type_safe_witness:
  "\<exists>reg ser. register registry_new flag_type (makeStreamSerde BoolSerde) = Inr reg \<and> requireByName reg ''flag'' = Inr ser \<and>
    serialize (base_serde ser) (DBool True) None = Inr [1] \<and> matchesByName reg ''flag'' (DBool True) = Inr True"
proof -
  obtain reg where reg: "register registry_new flag_type (makeStreamSerde BoolSerde) = Inr reg"
    "requireByName reg ''flag'' = Inr (RuntimeValidatedStreamSerde flag_type (makeStreamSerde BoolSerde))"
    by (simp add: register_def registry_new_def jm_has_def flag_type_def requireByName_def Let_def)
  let ?ser = "RuntimeValidatedStreamSerde flag_type (makeStreamSerde BoolSerde)"
  have "serialize (base_serde ?ser) (DBool True) None = Inr [1]"
    by (simp add: RuntimeValidatedStreamSerde_def makeStreamSerde_def type_assert_def flag_type_def isBoolean_def BoolSerde_def)
  moreover from this registry_type_safe [OF built_register [OF built_new reg(1)] reg(2), of "DBool True" None "[1]"]
  have "matchesByName reg ''flag'' (DBool True) = Inr True" by blast
  ultimately show ?thesis using reg by blast
qed

end
