(* ===== verification/MessageContext.thy ===== *)
theory MessageContext
  imports RuntimeContext
begin

text \<open>
  The contexts of \<open>src/runtime/context.ts\<close>: abort signals derived from other signals and from
  deadlines, and the immutable contexts that are derived from one another along a request. Signals
  are kept in a store; a context is a value that names its signal.
\<close>

section \<open>Abort signals\<close>

text \<open>
  The signal of an \<open>AbortController\<close> of the host, the signal \<open>composeSignal\<close> makes of a parent and a
  deadline (whose timer is due at the given time), and the signal \<open>combineAbortSignals\<close> makes of several.
\<close>

datatype signal_source = Controller | Composed signal millis | Combined "signal list"

record signal_state =
  source :: signal_source
  reason :: "thrown option"

type_synonym signals = "signal_state list"

definition signal_reason :: "signals \<Rightarrow> signal \<Rightarrow> thrown option" where
  "signal_reason st s = (if s < length st then reason (st ! s) else None)"

definition aborted :: "signals \<Rightarrow> signal \<Rightarrow> bool" where
  "aborted st s = (signal_reason st s \<noteq> None)"

fun parents :: "signal_source \<Rightarrow> signal list" where
  "parents Controller = []"
| "parents (Composed s d) = [s]"
| "parents (Combined ss) = ss"

text \<open>
  The signals that listen to the abort of \<open>s\<close>, in the order they subscribed: a derived signal
  listens to its parents until it is aborted itself.
\<close>

definition abort_listeners :: "signals \<Rightarrow> signal \<Rightarrow> signal list" where
  "abort_listeners st s = filter (\<lambda>c. \<not> aborted st c \<and> s \<in> set (parents (source (st ! c)))) [0..<length st]"

lemma abort_fewer:
  assumes "s < length st" and "\<not> aborted st s"
  shows "length (filter (\<lambda>k. reason k = None) (st[s := (st ! s)\<lparr>reason := Some r\<rparr>])) <
    length (filter (\<lambda>k. reason k = None) st)"
proof -
  have "reason (st ! s) = None" using assms by (simp add: aborted_def signal_reason_def)
  then have "length (filter (\<lambda>k. reason k = None) (take s st @ st ! s # drop (Suc s) st)) =
      Suc (length (filter (\<lambda>k. reason k = None) (st[s := (st ! s)\<lparr>reason := Some r\<rparr>])))"
    using assms(1) by (simp add: upd_conv_take_nth_drop)
  then show ?thesis using id_take_nth_drop [OF assms(1)] by simp
qed

text \<open>
  \<open>controller.abort(reason)\<close>: the signal is aborted unless it is already, and its listeners run at
  once and abort the derived signals with the same reason, depth first. The list holds the signals
  still to abort.
\<close>

function abort_all :: "thrown \<Rightarrow> signals \<Rightarrow> signal list \<Rightarrow> signals" where
  "abort_all r st [] = st"
| "abort_all r st (s # ss) =
     (if s < length st \<and> \<not> aborted st s
      then abort_all r (st[s := (st ! s)\<lparr>reason := Some r\<rparr>]) (abort_listeners (st[s := (st ! s)\<lparr>reason := Some r\<rparr>]) s @ ss)
      else abort_all r st ss)"
  by pat_completeness auto

termination
  by (relation "measures [\<lambda>(r, st, ss). length (filter (\<lambda>k. reason k = None) st), \<lambda>(r, st, ss). length ss]")
    (auto simp: abort_fewer)

declare abort_all.simps(2) [simp del]

definition abort :: "signals \<Rightarrow> signal \<Rightarrow> thrown \<Rightarrow> signals" where
  "abort st s r = abort_all r st [s]"

definition new_signal :: "signals \<Rightarrow> signals \<times> signal" where
  "new_signal st = (st @ [\<lparr>source = Controller, reason = None\<rparr>], length st)"

text \<open>An aborted parent aborts the composed signal at once, with its reason.\<close>

definition composeSignal :: "signals \<Rightarrow> signal \<Rightarrow> millis option \<Rightarrow> signals \<times> signal" where
  "composeSignal st s deadline =
     (case deadline of
        None \<Rightarrow> (st, s)
      | Some d \<Rightarrow> (st @ [\<lparr>source = Composed s d, reason = signal_reason st s\<rparr>], length st))"

text \<open>The callback of the timer of a composed signal; \<open>i\<close> is the identity of the new error.\<close>

definition deadline_timer :: "signals \<Rightarrow> signal \<Rightarrow> nat \<Rightarrow> signals" where
  "deadline_timer st s i =
     (case elem_at st s of
        Some k \<Rightarrow>
          (case source k of
             Composed _ _ \<Rightarrow> abort st s (ErrorObj i ''ContextDeadlineExceededError'' ''context deadline exceeded'')
           | _ \<Rightarrow> st)
      | None \<Rightarrow> st)"

definition combineAbortSignals :: "signals \<Rightarrow> signal list \<Rightarrow> signals \<times> signal" where
  "combineAbortSignals st ss =
     (case ss of
        [] \<Rightarrow> new_signal st
      | [s] \<Rightarrow> (st, s)
      | _ \<Rightarrow> (st @ [\<lparr>source = Combined ss, reason = (case filter (aborted st) ss of [] \<Rightarrow> None | s # _ \<Rightarrow> signal_reason st s)\<rparr>],
              length st))"

section \<open>Contexts\<close>

text \<open>
  A message context extends the fields every context has. \<open>localValues\<close> are the bindings from the
  newest to the oldest; a key is an identity.
\<close>

record 'v message_context = context_state +
  localValues :: "(nat \<times> 'v) list"
  durableCallContext :: "string option"
  ctx_metadata :: "(string, string) jsmap option"
  openTelemetryContext :: "nat option"
  ctx_priority :: "number option"

definition STREAM_ID_HEADER :: string where "STREAM_ID_HEADER = ''x-stream-id''"
definition TRACE_SAMPLING_HEADER :: string where "TRACE_SAMPLING_HEADER = ''x-trace''"

definition context_new :: "signal \<Rightarrow> context_state" where
  "context_new s = \<lparr>ctx_signal = s, ctx_deadline = None, ctx_sampling = False\<rparr>"

definition messageContext_new :: "signal \<Rightarrow> 'v message_context" where
  "messageContext_new s =
     \<lparr>ctx_signal = s, ctx_deadline = None, ctx_sampling = False, localValues = [], durableCallContext = None,
      ctx_metadata = None, openTelemetryContext = None, ctx_priority = None\<rparr>"

definition childDeadline :: "millis option \<Rightarrow> millis option \<Rightarrow> millis option" where
  "childDeadline current requested =
     (case requested of
        None \<Rightarrow> current
      | Some r \<Rightarrow> (case current of None \<Rightarrow> Some r | Some c \<Rightarrow> Some (min c r)))"

definition boundedDeadline :: "millis \<Rightarrow> millis option \<Rightarrow> millis \<Rightarrow> millis" where
  "boundedDeadline now current timeoutMs =
     (let candidate = now + max 0 timeoutMs in case current of None \<Rightarrow> candidate | Some c \<Rightarrow> min c candidate)"

text \<open>The methods that \<open>Context\<close> and \<open>MessageContext\<close> share in text: the scheme stands for either class.\<close>

definition withDeadline :: "signals \<Rightarrow> 'b context_state_scheme \<Rightarrow> millis option \<Rightarrow> signals \<times> 'b context_state_scheme" where
  "withDeadline st c deadline =
     (let effective = childDeadline (ctx_deadline c) deadline
      in if effective = ctx_deadline c then (st, c)
         else (case composeSignal st (ctx_signal c) effective of
                 (st', s) \<Rightarrow> (st', c\<lparr>ctx_deadline := effective, ctx_signal := s\<rparr>)))"

definition bounded :: "millis \<Rightarrow> signals \<Rightarrow> 'b context_state_scheme \<Rightarrow> millis \<Rightarrow> signals \<times> 'b context_state_scheme" where
  "bounded now st c timeoutMs = withDeadline st c (Some (boundedDeadline now (ctx_deadline c) timeoutMs))"

definition withExternalCancellation ::
  "signals \<Rightarrow> 'b context_state_scheme \<Rightarrow> signal \<Rightarrow> signals \<times> 'b context_state_scheme" where
  "withExternalCancellation st c s =
     (if s = ctx_signal c then (st, c)
      else (case combineAbortSignals st [ctx_signal c, s] of (st', s') \<Rightarrow> (st', c\<lparr>ctx_signal := s'\<rparr>)))"

definition withoutCancellation :: "signals \<Rightarrow> 'b context_state_scheme \<Rightarrow> signals \<times> 'b context_state_scheme" where
  "withoutCancellation st c =
     (case new_signal st of (st', s) \<Rightarrow> (st', c\<lparr>ctx_signal := s, ctx_deadline := None\<rparr>))"

definition context_withSampling :: "context_state \<Rightarrow> bool \<Rightarrow> context_state" where
  "context_withSampling c enabled = c\<lparr>ctx_sampling := enabled\<rparr>"

definition metadata_of :: "'v message_context \<Rightarrow> (string, string) jsmap" where
  "metadata_of c = (case ctx_metadata c of None \<Rightarrow> [] | Some m \<Rightarrow> m)"

definition stored :: "(string, string) jsmap \<Rightarrow> (string, string) jsmap option" where
  "stored m = (if m = [] then None else Some m)"

definition withSampling :: "'v message_context \<Rightarrow> bool \<Rightarrow> 'v message_context" where
  "withSampling c enabled =
     (let m = (if enabled then jm_set (metadata_of c) TRACE_SAMPLING_HEADER ''1''
               else jm_delete (metadata_of c) TRACE_SAMPLING_HEADER)
      in c\<lparr>ctx_metadata := stored m, ctx_sampling := enabled\<rparr>)"

definition fromContext :: "signals \<Rightarrow> context_state \<Rightarrow> signals \<times> 'v message_context" where
  "fromContext st c =
     (case withDeadline st (messageContext_new (ctx_signal c)) (ctx_deadline c) of
        (st', m) \<Rightarrow> (st', withSampling m (ctx_sampling c)))"

section \<open>Metadata\<close>

text \<open>\<open>split("-")\<close>.\<close>

fun split_dash :: "string \<Rightarrow> string list" where
  "split_dash [] = [[]]"
| "split_dash (c # cs) =
     (case split_dash cs of
        [] \<Rightarrow> [[c]]
      | f # fs \<Rightarrow> if c = CHR ''-'' then [] # f # fs else (c # f) # fs)"

definition hex_digit :: "char \<Rightarrow> int option" where
  "hex_digit c =
     (let n = (of_char c :: int)
      in if 48 \<le> n \<and> n \<le> 57 then Some (n - 48) else if 97 \<le> n \<and> n \<le> 102 then Some (n - 87)
         else if 65 \<le> n \<and> n \<le> 70 then Some (n - 55) else None)"

text \<open>\<open>Number.parseInt(s, 16)\<close>: white space, a sign and \<open>0x\<close> are skipped, then digits are read as far as they go.\<close>

fun hex_prefix :: "int \<Rightarrow> string \<Rightarrow> int" where
  "hex_prefix acc [] = acc"
| "hex_prefix acc (c # cs) = (case hex_digit c of None \<Rightarrow> acc | Some d \<Rightarrow> hex_prefix (acc * 16 + d) cs)"

definition skip_blank :: "string \<Rightarrow> string" where
  "skip_blank s = dropWhile (\<lambda>c. (of_char c :: nat) \<in> {9, 10, 11, 12, 13, 32, 160}) s"

fun strip_0x :: "string \<Rightarrow> string" where
  "strip_0x (a # b # cs) = (if a = CHR ''0'' \<and> (b = CHR ''x'' \<or> b = CHR ''X'') then cs else a # b # cs)"
| "strip_0x s = s"

fun unsigned_hex :: "string \<Rightarrow> int option" where
  "unsigned_hex s =
     (case strip_0x s of [] \<Rightarrow> None | c # cs \<Rightarrow> (case hex_digit c of None \<Rightarrow> None | Some _ \<Rightarrow> Some (hex_prefix 0 (c # cs))))"

definition parseInt16 :: "string \<Rightarrow> int option" where
  "parseInt16 s =
     (case skip_blank s of
        [] \<Rightarrow> None
      | c # cs \<Rightarrow> if c = CHR ''-'' then map_option uminus (unsigned_hex cs)
                  else if c = CHR ''+'' then unsigned_hex cs else unsigned_hex (c # cs))"

definition traceparentIsSampled :: "string option \<Rightarrow> bool" where
  "traceparentIsSampled v =
     (case v of
        None \<Rightarrow> False
      | Some s \<Rightarrow>
          (case split_dash s of
             [_, _, _, flags] \<Rightarrow>
               length flags = 2 \<and> (case parseInt16 flags of None \<Rightarrow> False | Some n \<Rightarrow> odd n)
           | _ \<Rightarrow> False))"

definition withMetadata :: "'v message_context \<Rightarrow> (string, string) jsmap \<Rightarrow> 'v message_context" where
  "withMetadata c m =
     c\<lparr>ctx_metadata := stored m,
       ctx_sampling := ((case jm_get m TRACE_SAMPLING_HEADER of None \<Rightarrow> False | Some v \<Rightarrow> length v > 0) \<or>
         traceparentIsSampled (jm_get m ''traceparent''))\<rparr>"

definition streamId :: "'v message_context \<Rightarrow> string option" where
  "streamId c = jm_get (metadata_of c) STREAM_ID_HEADER"

definition withStreamId :: "'v message_context \<Rightarrow> string \<Rightarrow> 'v message_context" where
  "withStreamId c i = c\<lparr>ctx_metadata := Some (jm_set (metadata_of c) STREAM_ID_HEADER i)\<rparr>"

definition withPriority :: "'v message_context \<Rightarrow> number \<Rightarrow> 'v message_context" where
  "withPriority c p = c\<lparr>ctx_priority := Some p\<rparr>"

definition withOpenTelemetryContext :: "'v message_context \<Rightarrow> nat \<Rightarrow> 'v message_context" where
  "withOpenTelemetryContext c t = c\<lparr>openTelemetryContext := Some t\<rparr>"

definition withDurableCallContext :: "'v message_context \<Rightarrow> string \<Rightarrow> 'v message_context" where
  "withDurableCallContext c d = c\<lparr>durableCallContext := Some d\<rparr>"

definition withLocalValue :: "'v message_context \<Rightarrow> nat \<Rightarrow> 'v \<Rightarrow> 'v message_context" where
  "withLocalValue c key v = c\<lparr>localValues := (key, v) # localValues c\<rparr>"

fun find_binding :: "(nat \<times> 'v) list \<Rightarrow> nat \<Rightarrow> 'v \<Rightarrow> 'v" where
  "find_binding [] key d = d"
| "find_binding ((k, v) # bs) key d = (if k = key then v else find_binding bs key d)"

definition localValue :: "'v message_context \<Rightarrow> nat \<Rightarrow> 'v \<Rightarrow> 'v" where
  "localValue c key default_value = find_binding (localValues c) key default_value"

definition TRACING_TRANSPORT_HEADERS :: "string list" where
  "TRACING_TRANSPORT_HEADERS = [STREAM_ID_HEADER, TRACE_SAMPLING_HEADER, ''traceparent'', ''tracestate'', ''baggage'']"

fun transport_entries :: "(string, string) jsmap \<Rightarrow> string list \<Rightarrow> (string, string) jsmap \<Rightarrow> (string, string) jsmap" where
  "transport_entries m [] result = result"
| "transport_entries m (n # ns) result =
     transport_entries m ns (case jm_get m n of None \<Rightarrow> result | Some v \<Rightarrow> jm_set result n v)"

definition transportMetadata :: "'v message_context \<Rightarrow> bool \<Rightarrow> (string, string) jsmap" where
  "transportMetadata c tracingEnabled =
     transport_entries (metadata_of c) (if tracingEnabled then TRACING_TRANSPORT_HEADERS else [STREAM_ID_HEADER]) []"

section \<open>Derivation of contexts\<close>

text \<open>Every way to derive a message context from another.\<close>

datatype 'v derivation =
    Deadline "millis option" | Bounded millis millis | ExternalCancellation signal | WithoutCancellation | Sampling bool
  | Metadata "(string, string) jsmap" | StreamId string | Priority number | OpenTelemetry nat | LocalValue nat 'v | Durable string

fun derive :: "signals \<times> 'v message_context \<Rightarrow> 'v derivation \<Rightarrow> signals \<times> 'v message_context" where
  "derive (st, c) (Deadline d) = withDeadline st c d"
| "derive (st, c) (Bounded now t) = bounded now st c t"
| "derive (st, c) (ExternalCancellation s) = withExternalCancellation st c s"
| "derive (st, c) WithoutCancellation = withoutCancellation st c"
| "derive (st, c) (Sampling b) = (st, withSampling c b)"
| "derive (st, c) (Metadata m) = (st, withMetadata c m)"
| "derive (st, c) (StreamId i) = (st, withStreamId c i)"
| "derive (st, c) (Priority p) = (st, withPriority c p)"
| "derive (st, c) (OpenTelemetry t) = (st, withOpenTelemetryContext c t)"
| "derive (st, c) (LocalValue k v) = (st, withLocalValue c k v)"
| "derive (st, c) (Durable d) = (st, withDurableCallContext c d)"

definition derive_all :: "signals \<times> 'v message_context \<Rightarrow> 'v derivation list \<Rightarrow> signals \<times> 'v message_context" where
  "derive_all sc ds = foldl derive sc ds"

section \<open>Aborts reach derived signals\<close>

text \<open>A signal is derived from earlier ones, and is aborted once one of them is.\<close>

definition closed_but :: "signal list \<Rightarrow> signals \<Rightarrow> bool" where
  "closed_but ss st \<longleftrightarrow>
     (\<forall>i < length st. \<forall>p \<in> set (parents (source (st ! i))). aborted st p \<longrightarrow> aborted st i \<or> i \<in> set ss)"

definition signals_ok :: "signals \<Rightarrow> bool" where
  "signals_ok st \<longleftrightarrow> closed_but [] st \<and> (\<forall>i < length st. \<forall>p \<in> set (parents (source (st ! i))). p < i)"

lemma aborted_update:
  "s < length st \<Longrightarrow> signal_reason (st[s := (st ! s)\<lparr>reason := Some r\<rparr>]) x = (if x = s then Some r else signal_reason st x)"
  by (simp add: signal_reason_def nth_list_update)

lemma source_update: "source (st[s := (st ! s)\<lparr>reason := r\<rparr>] ! x) = source (st ! x)"
  by (cases "s < length st"; cases "s = x") (simp_all add: list_update_beyond)

lemma abort_all_step:
  "s < length st \<and> \<not> aborted st s \<Longrightarrow> abort_all r st (s # ss) =
     abort_all r (st[s := (st ! s)\<lparr>reason := Some r\<rparr>]) (abort_listeners (st[s := (st ! s)\<lparr>reason := Some r\<rparr>]) s @ ss)"
  by (subst abort_all.simps(2)) (rule if_P)

lemma abort_all_skip: "\<not> (s < length st \<and> \<not> aborted st s) \<Longrightarrow> abort_all r st (s # ss) = abort_all r st ss"
  by (subst abort_all.simps(2)) (rule if_not_P)

lemma abort_all_frame:
  "length (abort_all r st ss) = length st \<and> source (abort_all r st ss ! x) = source (st ! x)"
proof (induction r st ss rule: abort_all.induct)
  case (2 r st s ss)
  then show ?case by (simp add: abort_all.simps(2) source_update)
qed simp

lemma abort_all_keeps: "signal_reason st x = Some e \<Longrightarrow> signal_reason (abort_all r st ss) x = Some e"
proof (induction r st ss rule: abort_all.induct)
  case (2 r st s ss)
  show ?case
  proof (cases "s < length st \<and> \<not> aborted st s")
    case True
    then have "x \<noteq> s" using "2.prems" by (auto simp: aborted_def)
    with 2 True show ?thesis by (simp add: abort_all_step aborted_update)
  next
    case False
    with 2 show ?thesis unfolding abort_all_skip [OF False] by blast
  qed
qed simp

lemma abort_all_done: "s \<in> set ss \<Longrightarrow> s < length st \<Longrightarrow> aborted (abort_all r st ss) s"
proof (induction r st ss rule: abort_all.induct)
  case (2 r st s' ss)
  show ?case
  proof (cases "s' < length st \<and> \<not> aborted st s'")
    case True
    let ?st = "st[s' := (st ! s')\<lparr>reason := Some r\<rparr>]"
    have "abort_all r st (s' # ss) = abort_all r ?st (abort_listeners ?st s' @ ss)"
      by (rule abort_all_step [OF True])
    moreover have "aborted (abort_all r ?st (abort_listeners ?st s' @ ss)) s"
    proof (cases "s = s'")
      case True
      have "signal_reason ?st s = Some r" using "2.prems"(2) True by (simp add: aborted_update)
      from abort_all_keeps [OF this] show ?thesis by (simp add: aborted_def)
    qed (use 2 True in auto)
    ultimately show ?thesis by simp
  next
    case False
    then have eq: "abort_all r st (s' # ss) = abort_all r st ss" by (rule abort_all_skip)
    show ?thesis
    proof (cases "s = s'")
      case True
      then obtain e where "signal_reason st s = Some e" using False "2.prems"(2) by (auto simp: aborted_def)
      from abort_all_keeps [OF this] show ?thesis unfolding eq by (simp add: aborted_def)
    qed (use 2 False eq in auto)
  qed
qed simp

lemma abort_all_closed: "closed_but ss st \<Longrightarrow> closed_but [] (abort_all r st ss)"
proof (induction r st ss rule: abort_all.induct)
  case (2 r st s ss)
  show ?case
  proof (cases "s < length st \<and> \<not> aborted st s")
    case True
    let ?st = "st[s := (st ! s)\<lparr>reason := Some r\<rparr>]"
    have "closed_but (abort_listeners ?st s @ ss) ?st"
      using "2.prems" True
      by (auto simp: closed_but_def abort_listeners_def source_update aborted_def aborted_update)
    with 2 True show ?thesis unfolding abort_all_step [OF True] by blast
  next
    case False
    then have "closed_but ss st" using "2.prems" by (auto simp: closed_but_def)
    with 2 False show ?thesis unfolding abort_all_skip [OF False] by blast
  qed
qed simp

lemma abort_signals_ok: "signals_ok st \<Longrightarrow> signals_ok (abort st s r)"
  using abort_all_closed [of "[s]" st r] abort_all_frame [of r st "[s]"]
  by (auto simp: signals_ok_def abort_def closed_but_def)

text \<open>A signal that has no parents is aborted by nobody else.\<close>

lemma abort_all_controller:
  "source (st ! x) = Controller \<Longrightarrow> x \<notin> set ss \<Longrightarrow> signal_reason (abort_all r st ss) x = signal_reason st x"
proof (induction r st ss rule: abort_all.induct)
  case (2 r st s ss)
  then have "x \<notin> set (abort_listeners (st[s := (st ! s)\<lparr>reason := Some r\<rparr>]) s)"
    by (auto simp: abort_listeners_def source_update)
  with 2 show ?case by (auto simp: abort_all.simps(2) source_update aborted_update)
qed simp

section \<open>What a derived context inherits\<close>

text \<open>\<open>derived st p x\<close>: the signal \<open>x\<close> is \<open>p\<close> or was made of signals one of which is derived from \<open>p\<close>.\<close>

inductive derived :: "signals \<Rightarrow> signal \<Rightarrow> signal \<Rightarrow> bool" for st p where
  same: "derived st p p"
| parent: "derived st p q \<Longrightarrow> x < length st \<Longrightarrow> q \<in> set (parents (source (st ! x))) \<Longrightarrow> derived st p x"

lemma derived_aborted: "derived st p x \<Longrightarrow> signals_ok st \<Longrightarrow> aborted st p \<Longrightarrow> aborted st x"
  by (induction rule: derived.induct) (auto simp: signals_ok_def closed_but_def)

text \<open>The store only grows, signals stay aborted with their reason and keep their sources.\<close>

definition grows :: "signals \<Rightarrow> signals \<Rightarrow> bool" where
  "grows st st' \<longleftrightarrow> length st \<le> length st' \<and> (\<forall>i < length st. source (st' ! i) = source (st ! i))"

lemma derived_grows: "derived st p x \<Longrightarrow> grows st st' \<Longrightarrow> derived st' p x"
  by (induction rule: derived.induct) (auto simp: grows_def intro: derived.intros)

lemma grows_trans: "grows a b \<Longrightarrow> grows b c \<Longrightarrow> grows a c"
  by (auto simp: grows_def)

lemma grows_refl [simp]: "grows st st"
  by (simp add: grows_def)

lemma grows_append [simp]: "grows st (st @ [k])"
  by (simp add: grows_def nth_append)

lemma grows_abort [simp]: "grows st (abort st s r)"
  using abort_all_frame [of r st "[s]"] by (simp add: grows_def abort_def)

text \<open>What can happen to the signals of a process: new ones are made, one is aborted, a deadline passes.\<close>

inductive evolves :: "signals \<Rightarrow> signals \<Rightarrow> bool" where
  stay: "evolves st st"
| make: "evolves st st' \<Longrightarrow> s < length st' \<Longrightarrow> evolves st (fst (composeSignal st' s d))"
| combine: "evolves st st' \<Longrightarrow> \<forall>s \<in> set ss. s < length st' \<Longrightarrow> evolves st (fst (combineAbortSignals st' ss))"
| abort: "evolves st st' \<Longrightarrow> evolves st (abort st' s r)"
| timer: "evolves st st' \<Longrightarrow> evolves st (deadline_timer st' s i)"

lemma append_ok:
  assumes "signals_ok st" and "\<forall>p \<in> set (parents (source k)). p < length st"
    and "\<forall>p \<in> set (parents (source k)). aborted st p \<longrightarrow> reason k \<noteq> None"
  shows "signals_ok (st @ [k])"
proof -
  have "aborted (st @ [k]) p = aborted st p" if "p < length st" for p
    using that by (simp add: aborted_def signal_reason_def nth_append)
  moreover have "aborted (st @ [k]) (length st) \<longleftrightarrow> reason k \<noteq> None"
    by (simp add: aborted_def signal_reason_def)
  ultimately show ?thesis
    using assms unfolding signals_ok_def closed_but_def
    by (auto simp: nth_append less_Suc_eq) (metis order.strict_trans)+
qed

lemma compose_ok:
  assumes "signals_ok st" and "s < length st"
  shows "signals_ok (fst (composeSignal st s d))" and "snd (composeSignal st s d) < length (fst (composeSignal st s d))"
    and "derived (fst (composeSignal st s d)) s (snd (composeSignal st s d))" and "grows st (fst (composeSignal st s d))"
proof -
  show "signals_ok (fst (composeSignal st s d))"
    using append_ok [OF assms(1), of "\<lparr>source = Composed s x, reason = signal_reason st s\<rparr>" for x] assms
    by (auto simp: composeSignal_def aborted_def split: option.split)
  show "derived (fst (composeSignal st s d)) s (snd (composeSignal st s d))"
    by (cases d) (auto simp: composeSignal_def intro: derived.same derived.parent [OF derived.same])
qed (use assms(2) in \<open>simp_all add: composeSignal_def split: option.split\<close>)

lemma combine_signals_ok:
  assumes "signals_ok st" and "\<forall>s \<in> set ss. s < length st"
  shows "signals_ok (fst (combineAbortSignals st ss))"
    and "snd (combineAbortSignals st ss) < length (fst (combineAbortSignals st ss))"
    and "s \<in> set ss \<Longrightarrow> derived (fst (combineAbortSignals st ss)) s (snd (combineAbortSignals st ss))"
    and "grows st (fst (combineAbortSignals st ss))"
proof -
  let ?k = "\<lparr>source = Combined ss, reason = (case filter (aborted st) ss of [] \<Rightarrow> None | s # _ \<Rightarrow> signal_reason st s)\<rparr>"
  have "reason ?k \<noteq> None" if p: "p \<in> set ss" "aborted st p" for p
  proof -
    obtain x xs where f: "filter (aborted st) ss = x # xs" using p by (cases "filter (aborted st) ss") (auto simp: filter_empty_conv)
    then have "x \<in> set (filter (aborted st) ss)" by simp
    then have "aborted st x" by simp
    with f show ?thesis by (simp add: aborted_def)
  qed
  then have ok: "signals_ok (st @ [?k])" using append_ok [OF assms(1), of ?k] assms(2) by auto
  have new: "signals_ok (st @ [\<lparr>source = Controller, reason = None\<rparr>])"
    using append_ok [OF assms(1), of "\<lparr>source = Controller, reason = None\<rparr>"] by simp
  let ?c = "combineAbortSignals st ss"
  consider "?c = new_signal st" "ss = []" | s where "?c = (st, s)" "ss = [s]" | "?c = (st @ [?k], length st)"
    by (cases ss; cases "tl ss") (auto simp: combineAbortSignals_def)
  then have all: "signals_ok (fst ?c) \<and> snd ?c < length (fst ?c) \<and> (\<forall>s \<in> set ss. derived (fst ?c) s (snd ?c)) \<and> grows st (fst ?c)"
  proof cases
    case 3
    then show ?thesis using ok by (auto intro: derived.parent [OF derived.same])
  qed (use new assms in \<open>auto simp: new_signal_def intro: derived.same\<close>)
  then show "signals_ok (fst ?c)" "snd ?c < length (fst ?c)" "grows st (fst ?c)" by blast+
  show "derived (fst ?c) s (snd ?c)" if "s \<in> set ss" using all that by blast
qed

lemma timer_eq: "deadline_timer st s i = st \<or> (\<exists>r. deadline_timer st s i = abort st s r)"
  by (auto simp: deadline_timer_def split: option.splits signal_source.splits)

lemma evolves_ok: "evolves st st' \<Longrightarrow> signals_ok st \<Longrightarrow> signals_ok st' \<and> grows st st'"
proof (induction rule: evolves.induct)
  case (make st st' s d)
  then show ?case using compose_ok(1,4) [of st' s d] grows_trans by blast
next
  case (combine st st' ss)
  then show ?case using combine_signals_ok(1,4) [of st' ss] grows_trans by blast
next
  case (abort st st' s r)
  then show ?case using abort_signals_ok grows_abort grows_trans by blast
next
  case (timer st st' s i)
  then show ?case using timer_eq [of st' s i] abort_signals_ok grows_abort grows_trans by metis
qed simp

text \<open>The world that a context sees at a time.\<close>

definition world_at :: "signals \<Rightarrow> millis \<Rightarrow> world" where
  "world_at st t = \<lparr>clock = t, abort_reason = signal_reason st, next_error = 0\<rparr>"

fun keeps_cancellation :: "signals \<Rightarrow> 'v derivation \<Rightarrow> bool" where
  "keeps_cancellation st WithoutCancellation = False"
| "keeps_cancellation st (ExternalCancellation s) = (s < length st)"
| "keeps_cancellation st _ = True"

definition bounded_by :: "millis option \<Rightarrow> millis option \<Rightarrow> bool" where
  "bounded_by d' d \<longleftrightarrow> (case d of None \<Rightarrow> True | Some x \<Rightarrow> (case d' of None \<Rightarrow> False | Some y \<Rightarrow> y \<le> x))"

lemma deadline_bound_trans: "bounded_by a b \<Longrightarrow> bounded_by b c \<Longrightarrow> bounded_by a c"
  by (auto simp: bounded_by_def split: option.splits)

lemma deadline_bound_refl [simp]: "bounded_by d d"
  by (simp add: bounded_by_def split: option.split)

lemma child_bounded: "bounded_by (childDeadline d r) d"
  by (auto simp: bounded_by_def childDeadline_def split: option.split)

lemma withDeadline_inherits:
  assumes "signals_ok st" and "ctx_signal c < length st" and "withDeadline st c d = (st', c')"
  shows "signals_ok st' \<and> ctx_signal c' < length st' \<and> grows st st' \<and> derived st' (ctx_signal c) (ctx_signal c') \<and>
    bounded_by (ctx_deadline c') (ctx_deadline c)"
  using assms compose_ok [OF assms(1,2), of "childDeadline (ctx_deadline c) d"] child_bounded [of "ctx_deadline c" d]
  by (auto simp: withDeadline_def Let_def derived.same split: if_splits prod.splits)

lemma external_inherits:
  assumes "signals_ok st" and "ctx_signal c < length st" and "s < length st" and "withExternalCancellation st c s = (st', c')"
  shows "signals_ok st' \<and> ctx_signal c' < length st' \<and> grows st st' \<and> derived st' (ctx_signal c) (ctx_signal c') \<and>
    bounded_by (ctx_deadline c') (ctx_deadline c)"
  using assms combine_signals_ok [OF assms(1), of "[ctx_signal c, s]"]
  by (auto simp: withExternalCancellation_def derived.same split: if_splits prod.splits)

lemma derive_inherits:
  assumes "signals_ok st" and "ctx_signal c < length st" and "keeps_cancellation st d" and "derive (st, c) d = (st', c')"
  shows "signals_ok st' \<and> ctx_signal c' < length st' \<and> grows st st' \<and> derived st' (ctx_signal c) (ctx_signal c') \<and>
    bounded_by (ctx_deadline c') (ctx_deadline c)"
proof (cases d)
  case (ExternalCancellation s)
  then show ?thesis using external_inherits [OF assms(1,2)] assms(3,4) by simp
qed (use assms in \<open>auto simp: bounded_def withSampling_def withMetadata_def withStreamId_def withPriority_def
  withOpenTelemetryContext_def withDurableCallContext_def withLocalValue_def Let_def derived.same
  dest!: withDeadline_inherits [OF assms(1,2)]\<close>)

lemma derived_trans: "derived st q x \<Longrightarrow> derived st p q \<Longrightarrow> derived st p x"
  by (induction rule: derived.induct) (auto intro: derived.intros)

lemma derive_all_inherits:
  assumes "signals_ok st" and "ctx_signal c < length st" and "list_all (keeps_cancellation st) ds"
    and "derive_all (st, c) ds = (st', c')"
  shows "signals_ok st' \<and> ctx_signal c' < length st' \<and> grows st st' \<and> derived st' (ctx_signal c) (ctx_signal c') \<and>
    bounded_by (ctx_deadline c') (ctx_deadline c)"
  using assms
proof (induction ds arbitrary: st c)
  case Nil
  then show ?case by (simp add: derive_all_def derived.same)
next
  case (Cons d ds)
  obtain st1 c1 where d: "derive (st, c) d = (st1, c1)" by force
  have one: "signals_ok st1 \<and> ctx_signal c1 < length st1 \<and> grows st st1 \<and> derived st1 (ctx_signal c) (ctx_signal c1) \<and>
      bounded_by (ctx_deadline c1) (ctx_deadline c)"
    using derive_inherits [OF Cons.prems(1,2) _ d] Cons.prems(3) by simp
  have "keeps_cancellation st1 x" if "keeps_cancellation st x" for x :: "'a derivation"
    using that one by (cases x) (auto simp: grows_def)
  then have "list_all (keeps_cancellation st1) ds" using Cons.prems(3) by (auto simp: list_all_iff)
  moreover have "derive_all (st1, c1) ds = (st', c')" using Cons.prems(4) d by (simp add: derive_all_def)
  ultimately have rest: "signals_ok st' \<and> ctx_signal c' < length st' \<and> grows st1 st' \<and> derived st' (ctx_signal c1) (ctx_signal c') \<and>
      bounded_by (ctx_deadline c') (ctx_deadline c1)" using one Cons.IH [of st1 c1] by blast
  then show ?case
    using one derived_trans derived_grows grows_trans deadline_bound_trans by metis
qed

text \<open>
  Cancellation is inherited along a request. Let a message context be derived from another by any
  sequence of its methods other than \<open>withoutCancellation\<close>. Whatever happens to the signals later
  (aborts, deadlines, new signals) and whenever one looks, a cancelled ancestor means a cancelled
  descendant, and the descendant has at most the time left that the ancestor has.
\<close>

theorem cancellation_inherited:
  assumes "signals_ok st" and "ctx_signal c < length st" and "list_all (keeps_cancellation st) ds"
    and "derive_all (st, c) ds = (st', c')" and "evolves st' later"
  shows "(cancelled (world_at later t) c \<longrightarrow> cancelled (world_at later t) c') \<and>
    (\<forall>left. remainingMs (world_at later t) c = Some left \<longrightarrow>
       (\<exists>left'. remainingMs (world_at later t) c' = Some left' \<and> left' \<le> left))"
proof -
  have d: "signals_ok st'" "derived st' (ctx_signal c) (ctx_signal c')" "bounded_by (ctx_deadline c') (ctx_deadline c)"
    using derive_all_inherits [OF assms(1-4)] by blast+
  have later: "signals_ok later" "grows st' later" using evolves_ok [OF assms(5) d(1)] by blast+
  have "signal_aborted (world_at later t) (ctx_signal c) \<Longrightarrow> signal_aborted (world_at later t) (ctx_signal c')"
    using derived_aborted [OF derived_grows [OF d(2) later(2)] later(1)]
    by (simp add: signal_aborted_def world_at_def aborted_def)
  moreover have "case ctx_deadline c of None \<Rightarrow> True | Some x \<Rightarrow> \<exists>y. ctx_deadline c' = Some y \<and> y \<le> x"
    using d(3) by (auto simp: bounded_by_def split: option.splits)
  ultimately show ?thesis
    by (auto simp: cancelled_def remainingMs_def world_at_def split: option.splits)
qed

text \<open>
  \<open>withoutCancellation\<close> cuts a context off: whatever other signals are aborted afterwards, for
  whatever reasons and in whatever order, the new context is not cancelled at any time and has no deadline.
\<close>

theorem without_cancellation_isolates:
  assumes "withoutCancellation st c = (st', c')" and "ctx_signal c' \<notin> fst ` set aborts"
  shows "\<not> cancelled (world_at (foldl (\<lambda>st (s, r). abort st s r) st' aborts) t) c' \<and>
    remainingMs (world_at (foldl (\<lambda>st (s, r). abort st s r) st' aborts) t) c' = None"
proof -
  have c': "ctx_signal c' = length st" "ctx_deadline c' = None" "st' = st @ [\<lparr>source = Controller, reason = None\<rparr>]"
    using assms(1) by (auto simp: withoutCancellation_def new_signal_def)
  have "signal_reason (foldl (\<lambda>st (s, r). abort st s r) st1 as) x = signal_reason st1 x"
    if "source (st1 ! x) = Controller" "x \<notin> fst ` set as" for st1 x and as :: "(signal \<times> thrown) list"
    using that
  proof (induction as arbitrary: st1)
    case (Cons a as)
    obtain s r where a: "a = (s, r)" by force
    have "signal_reason (abort st1 s r) x = signal_reason st1 x" "source (abort st1 s r ! x) = Controller"
      using Cons.prems a abort_all_controller [of st1 x "[s]" r] abort_all_frame [of r st1 "[s]" x] by (auto simp: abort_def)
    with Cons a show ?case by simp
  qed simp
  from this [of st' "ctx_signal c'" aborts] assms(2) c'
  show ?thesis by (simp add: cancelled_def signal_aborted_def remainingMs_def world_at_def signal_reason_def)
qed

section \<open>Transport of metadata\<close>

definition sampled :: "(string, string) jsmap \<Rightarrow> bool" where
  "sampled m \<longleftrightarrow> (case jm_get m TRACE_SAMPLING_HEADER of None \<Rightarrow> False | Some v \<Rightarrow> length v > 0) \<or>
     traceparentIsSampled (jm_get m ''traceparent'')"

lemma transport_get:
  "jm_get (transport_entries m ns result) n = (if n \<in> set ns \<and> jm_get m n \<noteq> None then jm_get m n else jm_get result n)"
proof (induction m ns result rule: transport_entries.induct)
  case (2 m n' ns result)
  then show ?case by (cases "jm_get m n'") (auto simp: jsmap_simps)
qed simp

lemma transport_entries_cong:
  "\<forall>n \<in> set ns. jm_get m n = jm_get m' n \<Longrightarrow> transport_entries m ns result = transport_entries m' ns result"
  by (induction ns arbitrary: result) auto

lemma header_names [simp]:
  "STREAM_ID_HEADER \<noteq> TRACE_SAMPLING_HEADER" "TRACE_SAMPLING_HEADER \<noteq> STREAM_ID_HEADER"
  "STREAM_ID_HEADER \<noteq> ''traceparent''" "TRACE_SAMPLING_HEADER \<noteq> ''traceparent''"
  by (simp_all add: STREAM_ID_HEADER_def TRACE_SAMPLING_HEADER_def)

lemma metadata_stored [simp]: "(case stored m of None \<Rightarrow> [] | Some m' \<Rightarrow> m') = m"
  by (simp add: stored_def)

definition sampling_ok :: "'v message_context \<Rightarrow> bool" where
  "sampling_ok c \<longleftrightarrow> ctx_sampling c = sampled (metadata_of c)"

lemma withDeadline_metadata:
  "withDeadline st c d = (st', c') \<Longrightarrow> metadata_of c' = metadata_of c \<and> ctx_sampling c' = ctx_sampling c"
  by (auto simp: withDeadline_def Let_def metadata_of_def split: if_splits prod.splits)

lemma derive_sampling:
  assumes "sampling_ok c" and "d \<noteq> Sampling False" and "derive (st, c) d = (st', c')"
  shows "sampling_ok c'"
proof (cases d)
  case (Sampling b)
  with assms show ?thesis
    by (auto simp: sampling_ok_def withSampling_def metadata_of_def sampled_def jsmap_simps Let_def)
next
  case (StreamId i)
  have header: "''traceparent'' \<noteq> STREAM_ID_HEADER" using header_names(3) by metis
  from StreamId assms show ?thesis
    by (auto simp: sampling_ok_def withStreamId_def metadata_of_def sampled_def jsmap_simps header split: option.splits)
qed (use assms in \<open>auto simp: sampling_ok_def bounded_def withMetadata_def withPriority_def withOpenTelemetryContext_def
    withDurableCallContext_def withLocalValue_def withExternalCancellation_def withoutCancellation_def metadata_of_def
    sampled_def split: if_splits prod.splits dest!: withDeadline_metadata\<close>)

lemma derive_all_sampling:
  "sampling_ok c \<Longrightarrow> Sampling False \<notin> set ds \<Longrightarrow> derive_all (st, c) ds = (st', c') \<Longrightarrow> sampling_ok c'"
proof (induction ds arbitrary: st c)
  case (Cons d ds)
  obtain st1 c1 where d: "derive (st, c) d = (st1, c1)" by force
  then have "sampling_ok c1" using derive_sampling [OF Cons.prems(1) _ d] Cons.prems(2) by auto
  with Cons d show ?case by (simp add: derive_all_def)
qed (simp add: derive_all_def)

text \<open>
  The transport of a message context: only the stream id and, with tracing, the four tracing
  headers leave the process, with their values, and the context a receiver makes of them has the
  same stream id, the same decision whether to sample the trace, and passes the same headers on.
  The sender may be derived in any way but by \<open>withSampling(false)\<close>, which leaves the sampled flag
  of \<open>traceparent\<close> in place.
\<close>

theorem transport_roundtrip:
  assumes "derive_all (st, messageContext_new s) ds = (st', c)" and "Sampling False \<notin> set ds"
  shows "jm_get (transportMetadata c tracing) n =
      (if n \<in> set (if tracing then TRACING_TRANSPORT_HEADERS else [STREAM_ID_HEADER]) then jm_get (metadata_of c) n else None) \<and>
    streamId (withMetadata receiver (transportMetadata c True)) = streamId c \<and>
    ctx_sampling (withMetadata receiver (transportMetadata c True)) = ctx_sampling c \<and>
    transportMetadata (withMetadata receiver (transportMetadata c True)) tracing = transportMetadata c tracing"
proof -
  have get: "jm_get (transportMetadata c tr) n =
      (if n \<in> set (if tr then TRACING_TRANSPORT_HEADERS else [STREAM_ID_HEADER]) then jm_get (metadata_of c) n else None)" for tr n
    by (simp add: transportMetadata_def transport_get)
  have "sampling_ok (messageContext_new s)"
    by (simp add: sampling_ok_def messageContext_new_def metadata_of_def sampled_def traceparentIsSampled_def)
  then have ok: "sampling_ok c" by (rule derive_all_sampling [OF _ assms(2,1)])
  let ?m = "withMetadata receiver (transportMetadata c True)"
  have meta: "metadata_of ?m = transportMetadata c True" by (simp add: withMetadata_def metadata_of_def)
  have "ctx_sampling ?m = sampled (transportMetadata c True)" by (simp add: withMetadata_def sampled_def)
  also have "\<dots> = ctx_sampling c"
    using ok by (simp add: sampling_ok_def sampled_def get TRACING_TRANSPORT_HEADERS_def)
  finally have "ctx_sampling ?m = ctx_sampling c" .
  moreover have "streamId ?m = streamId c"
    by (simp add: streamId_def meta get TRACING_TRANSPORT_HEADERS_def)
  moreover have "transportMetadata ?m tracing = transportMetadata c tracing"
    unfolding transportMetadata_def [of ?m] meta unfolding transportMetadata_def [of c tracing]
    by (rule transport_entries_cong) (simp add: get TRACING_TRANSPORT_HEADERS_def)
  ultimately show ?thesis using get [of tracing n] by simp
qed

section \<open>A request\<close>

definition one_signal :: signals where
  "one_signal = [\<lparr>source = Controller, reason = None\<rparr>]"

definition request :: "int derivation list" where
  "request = [Deadline (Some 10), StreamId ''s'', Sampling True, Bounded 0 5, LocalValue 1 7]"

theorem cancellation_inherited_witness:
  "\<exists>st c. derive_all (one_signal, messageContext_new 0) request = (st, c) \<and>
    cancelled (world_at (abort st 0 (NonError ''gone'')) 1) c"
proof -
  obtain st c where d: "derive_all (one_signal, messageContext_new 0) request = (st, c)" by force
  have ok: "signals_ok one_signal" by (simp add: signals_ok_def closed_but_def one_signal_def)
  have keeps: "list_all (keeps_cancellation one_signal) request" by (simp add: request_def)
  have base: "ctx_signal (messageContext_new 0) < length one_signal" by (simp add: messageContext_new_def one_signal_def)
  have "0 < length st" using derive_all_inherits [OF ok base keeps d] by auto
  then have "aborted (abort st 0 (NonError ''gone'')) 0"
    using abort_all_done [of 0 "[0]" st "NonError ''gone''"] by (simp add: abort_def)
  then have "cancelled (world_at (abort st 0 (NonError ''gone'')) 1) (messageContext_new 0)"
    by (simp add: cancelled_def signal_aborted_def world_at_def aborted_def messageContext_new_def)
  with cancellation_inherited [OF ok base keeps d evolves.abort [OF evolves.stay], of 0 "NonError ''gone''" 1] d
  show ?thesis by auto
qed

theorem without_cancellation_isolates_witness:
  "\<exists>st c. withoutCancellation one_signal (messageContext_new 0 :: int message_context) = (st, c) \<and>
    \<not> cancelled (world_at (abort st 0 (NonError ''gone'')) 1) c"
proof -
  obtain st and c :: "int message_context" where c: "withoutCancellation one_signal (messageContext_new 0) = (st, c)" by force
  then have "ctx_signal c \<notin> fst ` set [(0 :: signal, NonError ''gone'')]"
    by (auto simp: withoutCancellation_def new_signal_def one_signal_def)
  from without_cancellation_isolates [OF c this, of 1] c show ?thesis by auto
qed

theorem transport_roundtrip_witness:
  "\<exists>st c. derive_all (one_signal, messageContext_new 0) request = (st, c) \<and>
    ctx_sampling (withMetadata (messageContext_new 3 :: int message_context) (transportMetadata c True)) = ctx_sampling c"
proof -
  obtain st c where d: "derive_all (one_signal, messageContext_new 0) request = (st, c)" by force
  have "Sampling False \<notin> set request" by (simp add: request_def)
  from transport_roundtrip [OF d this, where receiver = "messageContext_new 3 :: int message_context"] d
  show ?thesis by auto
qed

end
