(* ===== verification/JoinStorage.thy ===== *)
theory JoinStorage
  imports RuntimeContext ConfigTypes
begin

text \<open>
  The join storage of \<open>src/runtime/store/hash-map-join-storage.ts\<close>: values that arrive under one key
  are collected in an item until a callback accepts the group or its time to live is over. The
  operations of an item run one after the other, chained on its \<open>tail\<close>; between them, and while
  a callback is pending, everything else may happen. The model is a machine whose events are the calls,
  the turns of the event loop, the settling of callbacks, the timers and the aborts, in any order.
\<close>

section \<open>State\<close>

text \<open>An operation chained on the tail of an item: a call of \<open>joinValue\<close>, or the expiry under a context.\<close>

datatype op = JoinOp nat | ExpireOp context_state

text \<open>
  \<open>item_armed\<close> is the context of the armed deadline (a timer, or the abort listener of a context with
  a deadline) until \<open>cancelDeadline\<close> retires it; \<open>item_tail\<close> are the operations that have not begun;
  \<open>item_busy\<close> is the one that waits for its callback.
\<close>

record ('k, 'v) item =
  item_key :: 'k
  item_values :: "'v list list"
  deadlineCallback :: nat
  item_deadline :: "millis option"
  item_processed :: bool
  item_armed :: "context_state option"
  item_tail :: "op list"
  item_busy :: "op option"

datatype call_state = AwaitingStop | Queued nat | Retrying | Returned | Threw thrown

record ('k, 'v) call =
  call_context :: context_state
  call_key :: 'k
  call_index :: nat
  call_value :: 'v
  call_callback :: nat
  call_ttl :: millis
  call_renew :: bool
  call_state :: call_state

text \<open>
  \<open>stopCompletion\<close> is \<open>None\<close> while undefined, then whether its promise is resolved. \<open>invocations\<close> (item
  and callback) and \<open>delivered\<close> (call and item) are histories, read by no operation.
\<close>

record ('k, 'v) JoinStorage =
  config_ttlMs :: millis
  config_renewTTL :: bool
  join_current :: "('k, nat) jsmap"
  join_previous :: "('k, nat) jsmap"
  join_items :: "('k, 'v) item list"
  join_calls :: "('k, 'v) call list"
  metricsEnabled :: bool
  join_count :: int
  evictionsTotal :: nat
  join_highWaterMark :: nat
  rotationTimer :: bool
  join_started :: bool
  join_stopped :: bool
  activeTTLJoins :: int
  stopCompletion :: "bool option"
  unhandled :: "thrown list"
  invocations :: "(nat \<times> nat) list"
  delivered :: "(nat \<times> nat) list"

definition join_new :: "millis \<Rightarrow> bool \<Rightarrow> bool \<Rightarrow> ('k, 'v) JoinStorage" where
  "join_new ttl renew enabled =
     \<lparr>config_ttlMs = ttl, config_renewTTL = renew, join_current = [], join_previous = [], join_items = [],
      join_calls = [], metricsEnabled = enabled, join_count = 0, evictionsTotal = 0, join_highWaterMark = 0,
      rotationTimer = False, join_started = False, join_stopped = False, activeTTLJoins = 0,
      stopCompletion = None, unhandled = [], invocations = [], delivered = []\<rparr>"

text \<open>\<open>makeJoinStorage\<close>: the only kind of storage there is.\<close>

fun makeJoinStorage :: "JoinStorageType \<Rightarrow> millis \<Rightarrow> bool \<Rightarrow> bool \<Rightarrow> string + ('k, 'v) JoinStorage" where
  "makeJoinStorage HashMap ttl renew enabled = Inr (join_new ttl renew enabled)"
| "makeJoinStorage storageType ttl renew enabled = Inl ''join storage type is not supported''"

definition join_size :: "('k, 'v) JoinStorage \<Rightarrow> nat" where
  "join_size s = jm_size (join_current s) + jm_size (join_previous s)"

definition on_item :: "nat \<Rightarrow> (('k, 'v) item \<Rightarrow> ('k, 'v) item) \<Rightarrow> ('k, 'v) JoinStorage \<Rightarrow> ('k, 'v) JoinStorage" where
  "on_item i f s = s\<lparr>join_items := (join_items s)[i := f (join_items s ! i)]\<rparr>"

definition set_call :: "nat \<Rightarrow> call_state \<Rightarrow> ('k, 'v) JoinStorage \<Rightarrow> ('k, 'v) JoinStorage" where
  "set_call c st s = s\<lparr>join_calls := (join_calls s)[c := (join_calls s ! c)\<lparr>call_state := st\<rparr>]\<rparr>"

section \<open>Lookup and removal\<close>

text \<open>\<open>wall\<close> is \<open>Date.now()\<close>.\<close>

definition expired :: "millis \<Rightarrow> ('k, 'v) item \<Rightarrow> bool" where
  "expired wall it = (case item_deadline it of None \<Rightarrow> False | Some d \<Rightarrow> d \<le> wall)"

definition findLive :: "millis \<Rightarrow> ('k, 'v) JoinStorage \<Rightarrow> 'k \<Rightarrow> nat option" where
  "findLive wall s k =
     (case jm_get (join_current s) k of
        Some i \<Rightarrow> if expired wall (join_items s ! i) then None else Some i
      | None \<Rightarrow>
          (case jm_get (join_previous s) k of
             Some i \<Rightarrow> if expired wall (join_items s ! i) then None else Some i
           | None \<Rightarrow> None))"

datatype location = Current | Previous

definition locate :: "('k, 'v) JoinStorage \<Rightarrow> 'k \<Rightarrow> nat \<Rightarrow> location option" where
  "locate s k i =
     (if jm_get (join_current s) k = Some i then Some Current
      else if jm_get (join_previous s) k = Some i then Some Previous else None)"

definition with_count :: "(int \<Rightarrow> int) \<Rightarrow> ('k, 'v) JoinStorage \<Rightarrow> ('k, 'v) JoinStorage" where
  "with_count f s = (if metricsEnabled s then s\<lparr>join_count := f (join_count s)\<rparr> else s)"

definition removeAt :: "('k, 'v) JoinStorage \<Rightarrow> 'k \<Rightarrow> nat \<Rightarrow> location \<Rightarrow> bool \<Rightarrow> ('k, 'v) JoinStorage" where
  "removeAt s k i loc evicted =
     (let store = (case loc of Current \<Rightarrow> join_current s | Previous \<Rightarrow> join_previous s)
      in if jm_get store k \<noteq> Some i then s
         else
           (let s1 = (case loc of
                        Current \<Rightarrow> s\<lparr>join_current := jm_delete (join_current s) k\<rparr>
                      | Previous \<Rightarrow> s\<lparr>join_previous := jm_delete (join_previous s) k\<rparr>);
                s2 = with_count (\<lambda>n. n - 1) s1
            in if metricsEnabled s2 \<and> evicted then s2\<lparr>evictionsTotal := evictionsTotal s2 + 1\<rparr> else s2))"

section \<open>Deadlines\<close>

definition expire :: "('k, 'v) JoinStorage \<Rightarrow> nat \<Rightarrow> ('k, 'v) JoinStorage" where
  "expire s i =
     (case item_armed (join_items s ! i) of
        None \<Rightarrow> s
      | Some ctx \<Rightarrow> on_item i (\<lambda>it. it\<lparr>item_armed := None, item_tail := item_tail it @ [ExpireOp ctx]\<rparr>) s)"

text \<open>A context with a deadline is listened to; one that is aborted already expires the item at once.\<close>

definition armDeadline :: "world \<Rightarrow> context_state \<Rightarrow> ('k, 'v) JoinStorage \<Rightarrow> nat \<Rightarrow> ('k, 'v) JoinStorage" where
  "armDeadline w ctx s i =
     (let s1 = on_item i (\<lambda>it. it\<lparr>item_armed := Some ctx\<rparr>) s
      in if ctx_deadline ctx \<noteq> None \<and> signal_aborted w (ctx_signal ctx) then expire s1 i else s1)"

definition cancelDeadline :: "('k, 'v) JoinStorage \<Rightarrow> nat \<Rightarrow> ('k, 'v) JoinStorage" where
  "cancelDeadline s i = on_item i (\<lambda>it. it\<lparr>item_armed := None\<rparr>) s"

definition createItem :: "world \<Rightarrow> millis \<Rightarrow> ('k, 'v) JoinStorage \<Rightarrow> ('k, 'v) call \<Rightarrow> ('k, 'v) JoinStorage \<times> nat" where
  "createItem w wall s c =
     (let i = length (join_items s);
          it = \<lparr>item_key = call_key c, item_values = replicate (call_index c + 1) [], deadlineCallback = call_callback c,
                item_deadline = (if call_ttl c > 0 then Some (wall + call_ttl c) else None), item_processed = False,
                item_armed = None, item_tail = [], item_busy = None\<rparr>;
          replaced = jm_get (join_current s) (call_key c);
          s1 = (if jm_has (join_previous s) (call_key c)
                then with_count (\<lambda>n. n - 1) (s\<lparr>join_previous := jm_delete (join_previous s) (call_key c)\<rparr>) else s);
          s2 = s1\<lparr>join_items := join_items s1 @ [it], join_current := jm_set (join_current s1) (call_key c) i\<rparr>;
          s3 = (if replaced = None then with_count (\<lambda>n. n + 1) s2 else s2)
      in (if call_ttl c > 0 then armDeadline w (call_context c) s3 i else s3, i))"

section \<open>Joining a value\<close>

text \<open>One turn of the loop of \<open>joinValue\<close>: the call is chained on a live item, or on a new one.\<close>

definition loop_turn :: "world \<Rightarrow> millis \<Rightarrow> ('k, 'v) JoinStorage \<Rightarrow> nat \<Rightarrow> ('k, 'v) JoinStorage" where
  "loop_turn w wall s c =
     (case (case findLive wall s (call_key (join_calls s ! c)) of
              Some i \<Rightarrow> (s, i)
            | None \<Rightarrow> createItem w wall s (join_calls s ! c)) of
        (s1, i) \<Rightarrow> set_call c (Queued i) (on_item i (\<lambda>it. it\<lparr>item_tail := item_tail it @ [JoinOp c]\<rparr>) s1))"

definition admit :: "world \<Rightarrow> millis \<Rightarrow> ('k, 'v) JoinStorage \<Rightarrow> nat \<Rightarrow> ('k, 'v) JoinStorage" where
  "admit w wall s c =
     loop_turn w wall
       (if call_ttl (join_calls s ! c) > 0 then s\<lparr>activeTTLJoins := activeTTLJoins s + 1\<rparr> else s) c"

definition effectiveTTL :: "world \<Rightarrow> ('k, 'v) JoinStorage \<Rightarrow> context_state \<Rightarrow> millis" where
  "effectiveTTL w s ctx = (case remainingMs w ctx of Some r \<Rightarrow> r | None \<Rightarrow> config_ttlMs s)"

definition joinValue ::
  "world \<Rightarrow> millis \<Rightarrow> ('k, 'v) JoinStorage \<Rightarrow> context_state \<Rightarrow> 'k \<Rightarrow> number \<Rightarrow> 'v \<Rightarrow> nat \<Rightarrow> ('k, 'v) JoinStorage \<times> string option" where
  "joinValue w wall s ctx k index v callback =
     (case index of
        Finite q \<Rightarrow>
          if is_safe_integer index \<and> \<not> fst (quotient_of q) < 0 then
            (let ttl = effectiveTTL w s ctx;
                 c = length (join_calls s);
                 s1 = s\<lparr>join_calls := join_calls s @
                         [\<lparr>call_context = ctx, call_key = k, call_index = nat (fst (quotient_of q)), call_value = v,
                           call_callback = callback, call_ttl = ttl, call_renew = config_renewTTL s, call_state = AwaitingStop\<rparr>]\<rparr>
             in (if ttl > 0 \<and> stopCompletion s \<noteq> None then s1 else admit w wall s1 c, None))
          else (s, Some ''join value index must be a non-negative integer'')
      | _ \<Rightarrow> (s, Some ''join value index must be a non-negative integer''))"

text \<open>The \<open>finally\<close> block of a call.\<close>

definition finish_call :: "('k, 'v) JoinStorage \<Rightarrow> nat \<Rightarrow> call_state \<Rightarrow> ('k, 'v) JoinStorage" where
  "finish_call s c st =
     (let s1 = set_call c st s
      in if call_ttl (join_calls s ! c) > 0 then
           (let s2 = s1\<lparr>activeTTLJoins := activeTTLJoins s1 - 1\<rparr>
            in if activeTTLJoins s2 = 0 then s2\<lparr>stopCompletion := map_option (\<lambda>_. True) (stopCompletion s2)\<rparr> else s2)
         else s1)"

fun push_at :: "nat \<Rightarrow> 'v \<Rightarrow> 'v list list \<Rightarrow> 'v list list" where
  "push_at index v vs =
     (let vs' = vs @ replicate (Suc index - length vs) [] in vs'[index := vs' ! index @ [v]])"

text \<open>The first operation of the tail of an item begins, when none is pending.\<close>

definition run_op :: "world \<Rightarrow> millis \<Rightarrow> ('k, 'v) JoinStorage \<Rightarrow> nat \<Rightarrow> ('k, 'v) JoinStorage" where
  "run_op w wall s i =
     (let it = join_items s ! i
      in if i \<ge> length (join_items s) \<or> item_busy it \<noteq> None then s
         else case item_tail it of
           [] \<Rightarrow> s
         | JoinOp c # rest \<Rightarrow>
             (let s1 = on_item i (\<lambda>it. it\<lparr>item_tail := rest\<rparr>) s; call = join_calls s ! c
              in if item_processed it \<or> expired wall it \<or> locate s (call_key call) i = None
                 then set_call c Retrying s1
                 else (on_item i (\<lambda>it. it\<lparr>item_values := push_at (call_index call) (call_value call) (item_values it),
                           item_busy := Some (JoinOp c)\<rparr>) s1)
                        \<lparr>invocations := invocations s @ [(i, call_callback call)], delivered := delivered s @ [(c, i)]\<rparr>)
         | ExpireOp ctx # rest \<Rightarrow>
             (let s1 = on_item i (\<lambda>it. it\<lparr>item_tail := rest\<rparr>) s
              in if item_processed it then s1
                 else if ctx_deadline ctx = None \<and> (case item_deadline it of None \<Rightarrow> False | Some d \<Rightarrow> d - wall > 0)
                 then armDeadline w ctx (cancelDeadline s1 i) i
                 else (on_item i (\<lambda>it. it\<lparr>item_processed := True, item_busy := Some (ExpireOp ctx)\<rparr>) s1)
                        \<lparr>invocations := invocations s @ [(i, deadlineCallback it)]\<rparr>))"

text \<open>The pending callback of an item settles: with its answer, or with an error.\<close>

definition join_settled :: "world \<Rightarrow> millis \<Rightarrow> ('k, 'v) JoinStorage \<Rightarrow> nat \<Rightarrow> nat \<Rightarrow> bool \<Rightarrow> ('k, 'v) JoinStorage" where
  "join_settled w wall s i c answer =
     (let call = join_calls s ! c;
          s1 = on_item i (\<lambda>it. it\<lparr>item_processed := answer\<rparr>) s
      in case locate s (call_key call) i of
           None \<Rightarrow> s1
         | Some loc \<Rightarrow>
             if answer then removeAt (cancelDeadline s1 i) (call_key call) i loc False
             else if call_renew call \<and> call_ttl call > 0 then
               (let s2 = (if loc = Previous then s1\<lparr>join_previous := jm_delete (join_previous s1) (call_key call)\<rparr> else s1);
                    s3 = on_item i (\<lambda>it. it\<lparr>item_deadline := Some (wall + call_ttl call)\<rparr>) s2;
                    s4 = s3\<lparr>join_current := jm_set (join_current s3) (call_key call) i\<rparr>
                in armDeadline w (call_context call) (cancelDeadline s4 i) i)
             else s1)"

definition settle_op :: "world \<Rightarrow> millis \<Rightarrow> ('k, 'v) JoinStorage \<Rightarrow> nat \<Rightarrow> thrown + bool \<Rightarrow> ('k, 'v) JoinStorage" where
  "settle_op w wall s i result =
     (if i \<ge> length (join_items s) then s
      else case item_busy (join_items s ! i) of
        None \<Rightarrow> s
      | Some (JoinOp c) \<Rightarrow>
          (let s1 = on_item i (\<lambda>it. it\<lparr>item_busy := None\<rparr>) s
           in case result of
                Inl e \<Rightarrow> finish_call s1 c (Threw e)
              | Inr answer \<Rightarrow> finish_call (join_settled w wall s1 i c answer) c Returned)
      | Some (ExpireOp ctx) \<Rightarrow>
          (let s1 = on_item i (\<lambda>it. it\<lparr>item_busy := None\<rparr>) s;
               k = item_key (join_items s ! i);
               s2 = (case locate s1 k i of None \<Rightarrow> s1 | Some loc \<Rightarrow> removeAt s1 k i loc True)
           in case result of
                Inl e \<Rightarrow> if isTaskCancellation w e (ctx_signal ctx) then s2 else s2\<lparr>unhandled := unhandled s2 @ [e]\<rparr>
              | Inr _ \<Rightarrow> s2))"

section \<open>Lifecycle and rotation\<close>

definition armRotation :: "('k, 'v) JoinStorage \<Rightarrow> ('k, 'v) JoinStorage" where
  "armRotation s = (if join_stopped s \<or> config_ttlMs s \<le> 0 then s else s\<lparr>rotationTimer := True\<rparr>)"

definition join_start :: "('k, 'v) JoinStorage \<Rightarrow> string + ('k, 'v) JoinStorage" where
  "join_start s =
     (if join_stopped s then Inl ''store stopped''
      else if join_started s then Inl ''store already started''
      else Inr (armRotation (s\<lparr>join_started := True\<rparr>)))"

definition join_stop :: "('k, 'v) JoinStorage \<Rightarrow> ('k, 'v) JoinStorage" where
  "join_stop s =
     (if stopCompletion s \<noteq> None then s
      else s\<lparr>join_stopped := True, rotationTimer := False, stopCompletion := Some (activeTTLJoins s = 0)\<rparr>)"

fun rescue :: "('k, nat) jsmap \<Rightarrow> ('k, nat) jsmap \<Rightarrow> ('k, nat) jsmap \<times> nat" where
  "rescue current [] = (current, 0)"
| "rescue current ((k, i) # es) =
     (if jm_has current k then rescue current es
      else (case rescue (jm_set current k i) es of (m, n) \<Rightarrow> (m, Suc n)))"

definition join_rotate :: "('k, 'v) JoinStorage \<Rightarrow> ('k, 'v) JoinStorage" where
  "join_rotate s =
     (let total_size = jm_size (join_current s) + jm_size (join_previous s);
          shouldRotate = join_highWaterMark s = 0 \<or> total_size * 4 < join_highWaterMark s;
          s1 = (if total_size > join_highWaterMark s then s\<lparr>join_highWaterMark := total_size\<rparr> else s)
      in if \<not> shouldRotate then s1
         else
           (case rescue (join_current s1) (join_previous s1) of
              (current, rescued) \<Rightarrow>
                (let evicted = jm_size (join_previous s1) - rescued;
                     s2 = s1\<lparr>join_highWaterMark := total_size, join_previous := jm_of_list [] current, join_current := []\<rparr>
                 in if metricsEnabled s2 \<and> evicted > 0
                    then s2\<lparr>join_count := join_count s2 - int evicted, evictionsTotal := evictionsTotal s2 + evicted\<rparr>
                    else s2)))"

definition rotation_fired :: "('k, 'v) JoinStorage \<Rightarrow> ('k, 'v) JoinStorage" where
  "rotation_fired s = (if rotationTimer s then armRotation (join_rotate (s\<lparr>rotationTimer := False\<rparr>)) else s)"

section \<open>Runs\<close>

datatype ('k, 'v) join_event =
    JoinCall context_state 'k number 'v nat
  | Resume nat
  | RunOp nat
  | SettleOp nat "thrown + bool"
  | Expiry nat
  | RotationTimer
  | JoinStart
  | JoinStop
  | Configure millis bool

text \<open>
  One event in the world \<open>w\<close> at the wall clock \<open>wall\<close>. \<open>Resume\<close> continues a call whose wait is over:
  for the stop, or for an operation that answered false. \<open>Expiry\<close> is the timer or the abort of the armed
  deadline of an item; it may come at any time. \<open>Configure\<close> changes what the configuration answers from then on.
\<close>

fun join_step :: "('k, 'v) JoinStorage \<Rightarrow> world \<times> millis \<times> ('k, 'v) join_event \<Rightarrow> ('k, 'v) JoinStorage" where
  "join_step s (w, wall, JoinCall ctx k index v cb) = fst (joinValue w wall s ctx k index v cb)"
| "join_step s (w, wall, Resume c) =
     (if c \<ge> length (join_calls s) then s
      else case call_state (join_calls s ! c) of
        AwaitingStop \<Rightarrow> if stopCompletion s = Some True then admit w wall s c else s
      | Retrying \<Rightarrow> loop_turn w wall s c
      | _ \<Rightarrow> s)"
| "join_step s (w, wall, RunOp i) = run_op w wall s i"
| "join_step s (w, wall, SettleOp i r) = settle_op w wall s i r"
| "join_step s (w, wall, Expiry i) = (if i < length (join_items s) then expire s i else s)"
| "join_step s (w, wall, RotationTimer) = rotation_fired s"
| "join_step s (w, wall, JoinStart) = (case join_start s of Inl _ \<Rightarrow> s | Inr s' \<Rightarrow> s')"
| "join_step s (w, wall, JoinStop) = join_stop s"
| "join_step s (w, wall, Configure ttl renew) = s\<lparr>config_ttlMs := ttl, config_renewTTL := renew\<rparr>"

definition join_run :: "('k, 'v) JoinStorage \<Rightarrow> (world \<times> millis \<times> ('k, 'v) join_event) list \<Rightarrow> ('k, 'v) JoinStorage" where
  "join_run s evs = foldl join_step s evs"

section \<open>Quiet steps\<close>

text \<open>The calls chained on an item: the one whose callback is pending, then those that wait.\<close>

fun op_calls :: "op list \<Rightarrow> nat list" where
  "op_calls [] = []"
| "op_calls (JoinOp c # ops) = c # op_calls ops"
| "op_calls (ExpireOp ctx # ops) = op_calls ops"

lemma op_calls_append [simp]: "op_calls (xs @ ys) = op_calls xs @ op_calls ys"
  by (induction xs rule: op_calls.induct) auto

definition busy_call :: "('k, 'v) item \<Rightarrow> nat list" where
  "busy_call it = (case item_busy it of Some (JoinOp c) \<Rightarrow> [c] | _ \<Rightarrow> [])"

definition queue :: "('k, 'v) item \<Rightarrow> nat list" where
  "queue it = busy_call it @ op_calls (item_tail it)"

text \<open>
  A step is quiet when it touches only the deadlines of items and the expiry operations they chain:
  every invariant below is insensitive to it.
\<close>

definition same_item :: "('k, 'v) item \<Rightarrow> ('k, 'v) item \<Rightarrow> bool" where
  "same_item a b \<longleftrightarrow> item_key a = item_key b \<and> item_values a = item_values b \<and> item_processed a = item_processed b \<and>
     item_busy a = item_busy b \<and> op_calls (item_tail a) = op_calls (item_tail b)"

definition quiet :: "('k, 'v) JoinStorage \<Rightarrow> ('k, 'v) JoinStorage \<Rightarrow> bool" where
  "quiet s s' \<longleftrightarrow> (\<exists>its. s' = s\<lparr>join_items := its\<rparr> \<and> list_all2 same_item (join_items s) its)"

lemma same_item_refl: "same_item a a"
  by (simp add: same_item_def)

lemma same_item_trans: "same_item a b \<Longrightarrow> same_item b c \<Longrightarrow> same_item a c"
  by (simp add: same_item_def)

lemma quiet_refl [intro]: "quiet s s"
  unfolding quiet_def by (rule exI [of _ "join_items s"]) (simp add: list.rel_refl same_item_refl)

lemma quiet_trans [trans]:
  assumes "quiet s s'" and "quiet s' s''"
  shows "quiet s s''"
proof -
  obtain its its' where "s' = s\<lparr>join_items := its\<rparr>" "s'' = s'\<lparr>join_items := its'\<rparr>"
    and l: "list_all2 same_item (join_items s) its" "list_all2 same_item (join_items s') its'"
    using assms by (auto simp: quiet_def)
  then have "s'' = s\<lparr>join_items := its'\<rparr>" "list_all2 same_item its its'" by simp_all
  moreover have "list_all2 same_item (join_items s) its'"
    by (rule list_all2_trans [OF same_item_trans l(1)]) (use calculation in auto)
  ultimately show ?thesis unfolding quiet_def by blast
qed

lemma quiet_on_item:
  assumes "same_item (join_items s ! i) (f (join_items s ! i))"
  shows "quiet s (on_item i f s)"
proof -
  have "same_item (join_items s ! j) ((join_items s)[i := f (join_items s ! i)] ! j)"
    if "j < length (join_items s)" for j
    using that assms same_item_refl by (cases "j = i") auto
  then have "list_all2 same_item (join_items s) ((join_items s)[i := f (join_items s ! i)])"
    by (simp add: list_all2_all_nthI)
  then show ?thesis unfolding quiet_def on_item_def by blast
qed

lemma same_item_map:
  assumes "list_all2 same_item xs ys" and "\<And>a b. same_item a b \<Longrightarrow> g a = g b"
  shows "map g ys = map g xs"
  using assms(1) by (induction rule: list_all2_induct) (simp_all add: assms(2))

lemma quiet_expire: "quiet s (expire s i)"
  unfolding expire_def
  by (cases "item_armed (join_items s ! i)") (auto intro!: quiet_on_item simp: same_item_def)

lemma quiet_cancelDeadline: "quiet s (cancelDeadline s i)"
  unfolding cancelDeadline_def by (rule quiet_on_item) (simp add: same_item_def)

lemma quiet_armDeadline: "quiet s (armDeadline w ctx s i)"
proof -
  have "quiet s (on_item i (\<lambda>it. it\<lparr>item_armed := Some ctx\<rparr>) s)"
    by (rule quiet_on_item) (simp add: same_item_def)
  with quiet_trans [OF this quiet_expire] show ?thesis by (simp add: armDeadline_def Let_def)
qed

text \<open>What a quiet step leaves as it is.\<close>

lemma quiet_fields:
  assumes "quiet s s'"
  shows "join_current s' = join_current s" "join_previous s' = join_previous s" "join_calls s' = join_calls s"
    "metricsEnabled s' = metricsEnabled s" "join_count s' = join_count s" "activeTTLJoins s' = activeTTLJoins s"
    "stopCompletion s' = stopCompletion s" "invocations s' = invocations s" "delivered s' = delivered s"
    "length (join_items s') = length (join_items s)"
    "map item_key (join_items s') = map item_key (join_items s)"
    "map item_values (join_items s') = map item_values (join_items s)"
    "map item_processed (join_items s') = map item_processed (join_items s)"
    "map item_busy (join_items s') = map item_busy (join_items s)"
    "map queue (join_items s') = map queue (join_items s)"
proof -
  obtain its where s': "s' = s\<lparr>join_items := its\<rparr>" and l: "list_all2 same_item (join_items s) its"
    using assms by (auto simp: quiet_def)
  show "join_current s' = join_current s" "join_previous s' = join_previous s" "join_calls s' = join_calls s"
    "metricsEnabled s' = metricsEnabled s" "join_count s' = join_count s" "activeTTLJoins s' = activeTTLJoins s"
    "stopCompletion s' = stopCompletion s" "invocations s' = invocations s" "delivered s' = delivered s"
    by (simp_all add: s')
  show "length (join_items s') = length (join_items s)" using list_all2_lengthD [OF l] by (simp add: s')
  show "map item_key (join_items s') = map item_key (join_items s)"
    "map item_values (join_items s') = map item_values (join_items s)"
    "map item_processed (join_items s') = map item_processed (join_items s)"
    "map item_busy (join_items s') = map item_busy (join_items s)"
    "map queue (join_items s') = map queue (join_items s)"
    by (simp_all add: s', rule_tac [!] same_item_map [OF l]) (simp_all add: same_item_def queue_def busy_call_def)
qed


section \<open>The generations\<close>

text \<open>
  The keys of a generation are distinct and no key is in both; every stored item carries the key it
  is stored under; the gauge counts the stored items.
\<close>

definition item_keys :: "('k, 'v) JoinStorage \<Rightarrow> 'k list" where
  "item_keys s = map item_key (join_items s)"

definition gens_ok :: "('k, nat) jsmap \<Rightarrow> ('k, nat) jsmap \<Rightarrow> 'k list \<Rightarrow> bool" where
  "gens_ok current previous ks \<longleftrightarrow> jm_ok current \<and> jm_ok previous \<and>
     (\<forall>k. jm_get current k = None \<or> jm_get previous k = None) \<and>
     (\<forall>k i. jm_get current k = Some i \<or> jm_get previous k = Some i \<longrightarrow> i < length ks \<and> ks ! i = k)"

definition maps_ok :: "('k, 'v) JoinStorage \<Rightarrow> bool" where
  "maps_ok s \<longleftrightarrow> gens_ok (join_current s) (join_previous s) (item_keys s) \<and>
     (metricsEnabled s \<longrightarrow> join_count s = int (join_size s))"

lemma gens_delete:
  assumes "gens_ok current previous ks"
  shows "gens_ok (jm_delete current k) previous ks" "gens_ok current (jm_delete previous k) ks"
  using assms unfolding gens_ok_def by (auto simp: jsmap_simps)

lemma gens_set:
  assumes "gens_ok current previous ks" and "jm_get previous k = None" and "i < length ks" and "ks ! i = k"
  shows "gens_ok (jm_set current k i) previous ks"
  using assms unfolding gens_ok_def by (auto simp: jsmap_simps)

lemma gens_append: "gens_ok current previous ks \<Longrightarrow> gens_ok current previous (ks @ [k])"
  unfolding gens_ok_def by (auto simp: nth_append less_Suc_eq)

lemma maps_ok_cong:
  assumes "maps_ok s" and "join_current s' = join_current s" and "join_previous s' = join_previous s"
    and "metricsEnabled s' = metricsEnabled s" and "join_count s' = join_count s"
    and "item_keys s' = item_keys s"
  shows "maps_ok s'"
  using assms unfolding maps_ok_def join_size_def by simp

lemma maps_ok_quiet: "maps_ok s \<Longrightarrow> quiet s s' \<Longrightarrow> maps_ok s'"
  by (rule maps_ok_cong) (simp_all add: quiet_fields item_keys_def)

lemma map_on_item:
  assumes "\<And>it. g (f it) = g it"
  shows "map g (join_items (on_item i f s)) = map g (join_items s)"
  unfolding on_item_def by (cases "i < length (join_items s)") (simp_all add: assms map_update list_update_same_conv list_update_beyond)

lemma on_item_fields [simp]:
  "config_ttlMs (on_item i f s) = config_ttlMs s" "config_renewTTL (on_item i f s) = config_renewTTL s"
  "join_current (on_item i f s) = join_current s" "join_previous (on_item i f s) = join_previous s"
  "join_calls (on_item i f s) = join_calls s" "metricsEnabled (on_item i f s) = metricsEnabled s"
  "join_count (on_item i f s) = join_count s" "activeTTLJoins (on_item i f s) = activeTTLJoins s"
  "stopCompletion (on_item i f s) = stopCompletion s" "invocations (on_item i f s) = invocations s"
  "delivered (on_item i f s) = delivered s" "length (join_items (on_item i f s)) = length (join_items s)"
  by (simp_all add: on_item_def)

lemma set_call_fields [simp]:
  "config_ttlMs (set_call c st s) = config_ttlMs s" "config_renewTTL (set_call c st s) = config_renewTTL s"
  "join_current (set_call c st s) = join_current s" "join_previous (set_call c st s) = join_previous s"
  "join_items (set_call c st s) = join_items s" "metricsEnabled (set_call c st s) = metricsEnabled s"
  "join_count (set_call c st s) = join_count s" "activeTTLJoins (set_call c st s) = activeTTLJoins s"
  "stopCompletion (set_call c st s) = stopCompletion s" "invocations (set_call c st s) = invocations s"
  "delivered (set_call c st s) = delivered s" "length (join_calls (set_call c st s)) = length (join_calls s)"
  by (simp_all add: set_call_def)

lemma with_count_fields [simp]:
  "config_ttlMs (with_count f s) = config_ttlMs s" "config_renewTTL (with_count f s) = config_renewTTL s"
  "join_current (with_count f s) = join_current s" "join_previous (with_count f s) = join_previous s"
  "join_items (with_count f s) = join_items s" "join_calls (with_count f s) = join_calls s"
  "metricsEnabled (with_count f s) = metricsEnabled s"
  "join_count (with_count f s) = (if metricsEnabled s then f (join_count s) else join_count s)"
  "activeTTLJoins (with_count f s) = activeTTLJoins s" "stopCompletion (with_count f s) = stopCompletion s"
  "invocations (with_count f s) = invocations s" "delivered (with_count f s) = delivered s"
  by (simp_all add: with_count_def)

lemma removeAt_fields [simp]:
  "join_items (removeAt s k i loc ev) = join_items s" "join_calls (removeAt s k i loc ev) = join_calls s"
  "metricsEnabled (removeAt s k i loc ev) = metricsEnabled s"
  "activeTTLJoins (removeAt s k i loc ev) = activeTTLJoins s" "stopCompletion (removeAt s k i loc ev) = stopCompletion s"
  "invocations (removeAt s k i loc ev) = invocations s" "delivered (removeAt s k i loc ev) = delivered s"
  by (simp_all add: removeAt_def Let_def split: location.split)

lemma item_keys_simps [simp]:
  "item_keys (removeAt s k i loc ev) = item_keys s" "item_keys (set_call c st s) = item_keys s"
  "item_keys (with_count g s) = item_keys s"
  by (simp_all add: item_keys_def)

lemma removeAt_maps:
  "join_current (removeAt s k i loc ev) =
     (if loc = Current \<and> jm_get (join_current s) k = Some i then jm_delete (join_current s) k else join_current s)"
  "join_previous (removeAt s k i loc ev) =
     (if loc = Previous \<and> jm_get (join_previous s) k = Some i then jm_delete (join_previous s) k else join_previous s)"
  by (cases loc; simp add: removeAt_def Let_def)+

lemma removeAt_count:
  "join_count (removeAt s k i loc ev) =
     (if metricsEnabled s \<and> jm_get (case loc of Current \<Rightarrow> join_current s | Previous \<Rightarrow> join_previous s) k = Some i
      then join_count s - 1 else join_count s)"
  by (cases loc; simp add: removeAt_def Let_def)+

lemma maps_ok_removeAt:
  assumes "maps_ok s"
  shows "maps_ok (removeAt s k i loc ev)"
proof -
  have g: "gens_ok (join_current s) (join_previous s) (item_keys s)" using assms by (simp add: maps_ok_def)
  then have "jm_ok (join_current s)" "jm_ok (join_previous s)" by (simp_all add: gens_ok_def)
  with assms gens_delete [OF g] show ?thesis
    by (cases loc) (auto simp: maps_ok_def join_size_def removeAt_maps removeAt_count jm_size_deleted)
qed

lemma maps_ok_append_call: "maps_ok s \<Longrightarrow> maps_ok (s\<lparr>join_calls := cs\<rparr>)"
  by (rule maps_ok_cong) (simp_all add: item_keys_def)


text \<open>A new item takes the place of what is stored under its key in either generation.\<close>

lemma createItem_shape:
  assumes "createItem w wall s c = (s', i)"
  obtains s3 it where "quiet s3 s'" "i = length (join_items s)" "join_items s3 = join_items s @ [it]"
    "join_current s3 = jm_set (join_current s) (call_key c) i" "join_previous s3 = jm_delete (join_previous s) (call_key c)"
    "item_key it = call_key c" "item_values it = replicate (call_index c + 1) []" "\<not> item_processed it"
    "item_busy it = None" "item_tail it = []"
    "join_calls s3 = join_calls s" "activeTTLJoins s3 = activeTTLJoins s" "stopCompletion s3 = stopCompletion s"
    "invocations s3 = invocations s" "delivered s3 = delivered s" "metricsEnabled s3 = metricsEnabled s"
    "join_count s3 = (if metricsEnabled s then join_count s - of_bool (jm_has (join_previous s) (call_key c)) +
       of_bool (jm_get (join_current s) (call_key c) = None) else join_count s)"
proof -
  define it :: "('a, 'b) item" where "it = \<lparr>item_key = call_key c, item_values = replicate (call_index c + 1) [],
    deadlineCallback = call_callback c, item_deadline = (if call_ttl c > 0 then Some (wall + call_ttl c) else None),
    item_processed = False, item_armed = None, item_tail = [], item_busy = None\<rparr>"
  define s1 where "s1 = (if jm_has (join_previous s) (call_key c)
    then with_count (\<lambda>n. n - 1) (s\<lparr>join_previous := jm_delete (join_previous s) (call_key c)\<rparr>) else s)"
  define s2 where "s2 = s1\<lparr>join_items := join_items s1 @ [it],
    join_current := jm_set (join_current s1) (call_key c) (length (join_items s))\<rparr>"
  define s3 where "s3 = (if jm_get (join_current s) (call_key c) = None then with_count (\<lambda>n. n + 1) s2 else s2)"
  have "s' = (if call_ttl c > 0 then armDeadline w (call_context c) s3 i else s3)" and i: "i = length (join_items s)"
    using assms unfolding createItem_def Let_def it_def s1_def s2_def s3_def by auto
  then have "quiet s3 s'" by (auto intro: quiet_armDeadline)
  moreover have "jm_delete (join_previous s) (call_key c) = join_previous s" if "\<not> jm_has (join_previous s) (call_key c)"
    using that by (simp add: jm_has_def jm_delete_absent)
  moreover have "join_items s1 = join_items s" "join_current s1 = join_current s" by (simp_all add: s1_def)
  ultimately show thesis
    using i by (intro that [of s3 it]) (simp_all add: s3_def s2_def s1_def it_def)
qed

lemma maps_ok_createItem:
  assumes "createItem w wall s c = (s', i)" and "maps_ok s"
  shows "maps_ok s'"
  using assms(1)
proof (rule createItem_shape)
  fix s3 it
  assume q: "quiet s3 s'" and i: "i = length (join_items s)"
    and f: "join_items s3 = join_items s @ [it]" "join_current s3 = jm_set (join_current s) (call_key c) i"
      "join_previous s3 = jm_delete (join_previous s) (call_key c)" "item_key it = call_key c"
    and n: "metricsEnabled s3 = metricsEnabled s"
      "join_count s3 = (if metricsEnabled s then join_count s - of_bool (jm_has (join_previous s) (call_key c)) +
       of_bool (jm_get (join_current s) (call_key c) = None) else join_count s)"
  have g: "gens_ok (join_current s) (join_previous s) (item_keys s)" using assms(2) by (simp add: maps_ok_def)
  have "gens_ok (join_current s3) (join_previous s3) (item_keys s3)"
    unfolding f(2,3) using i f(1,4) gens_append [OF gens_delete(2) [OF g]]
    by (intro gens_set) (simp_all add: item_keys_def jsmap_simps nth_append)
  moreover have "jm_size (join_current s3) = jm_size (join_current s) + of_bool (jm_get (join_current s) (call_key c) = None)"
    by (simp add: f jm_size_set jm_has_def)
  moreover have "int (jm_size (join_previous s3)) = int (jm_size (join_previous s)) - of_bool (jm_has (join_previous s) (call_key c))"
    using g by (cases "jm_get (join_previous s) (call_key c)")
      (simp_all add: f jm_size_deleted jm_has_def jm_delete_absent gens_ok_def)
  ultimately have "maps_ok s3" using assms(2) n by (auto simp: maps_ok_def join_size_def)
  then show ?thesis using q by (rule maps_ok_quiet)
qed

section \<open>Rotation\<close>

text \<open>The generations share no key, so a rotation rescues every item and evicts none.\<close>

lemma rescue_disjoint:
  "distinct (map fst (current @ es)) \<Longrightarrow> rescue current es = (current @ es, length es)"
  by (induction current es rule: rescue.induct) (auto simp: jm_has_iff jm_set_fresh)

lemma gens_distinct:
  assumes "gens_ok current previous ks"
  shows "distinct (map fst (current @ previous))"
  using assms unfolding gens_ok_def jm_ok_def by (auto simp: jm_get_None_iff)

lemma join_rotate_shape:
  assumes "gens_ok (join_current s) (join_previous s) ks"
  shows "\<exists>hw. join_rotate s = s\<lparr>join_highWaterMark := hw\<rparr> \<or>
    join_rotate s = s\<lparr>join_highWaterMark := hw, join_previous := join_current s @ join_previous s, join_current := []\<rparr>"
proof -
  have d: "distinct (map fst (join_current s @ join_previous s))" using gens_distinct [OF assms] .
  have "jm_of_list [] (join_current s @ join_previous s) = join_current s @ join_previous s"
    using jm_of_list_distinct [of "[]" "join_current s @ join_previous s"] d by simp
  then have e: "join_rotate s =
      (let total_size = jm_size (join_current s) + jm_size (join_previous s);
           hw = max total_size (join_highWaterMark s)
       in if join_highWaterMark s = 0 \<or> total_size * 4 < join_highWaterMark s
          then s\<lparr>join_highWaterMark := total_size, join_previous := join_current s @ join_previous s, join_current := []\<rparr>
          else s\<lparr>join_highWaterMark := hw\<rparr>)"
    by (auto simp: join_rotate_def Let_def rescue_disjoint [OF d] max_def)
  show ?thesis unfolding e Let_def by (auto split: if_splits)
qed

lemma gens_rotate:
  assumes "gens_ok current previous ks"
  shows "gens_ok [] (current @ previous) ks"
proof -
  have "jm_get (current @ previous) k = (case jm_get current k of None \<Rightarrow> jm_get previous k | Some i \<Rightarrow> Some i)" for k
    by (simp add: jm_get_def map_add_def split: option.split)
  then show ?thesis
    using assms gens_distinct [OF assms] unfolding gens_ok_def jm_ok_def by (auto split: option.splits)
qed

lemma maps_ok_rotate: "maps_ok s \<Longrightarrow> maps_ok (join_rotate s)"
proof -
  assume ok: "maps_ok s"
  then have g: "gens_ok (join_current s) (join_previous s) (item_keys s)" by (simp add: maps_ok_def)
  show "maps_ok (join_rotate s)"
    using join_rotate_shape [OF g] ok gens_rotate [OF g]
    by (auto simp: maps_ok_def join_size_def item_keys_def)
qed


section \<open>The chains\<close>

text \<open>Every call waits on at most one item, once; the calls of a chain are those queued on its item.\<close>

definition chained :: "nat list list \<Rightarrow> call_state list \<Rightarrow> bool" where
  "chained qs sts \<longleftrightarrow>
     (\<forall>i<length qs. distinct (qs ! i) \<and> set (qs ! i) = {c. c < length sts \<and> sts ! c = Queued i}) \<and>
     (\<forall>c<length sts. \<forall>i. sts ! c = Queued i \<longrightarrow> i < length qs)"

fun is_queued :: "call_state \<Rightarrow> bool" where
  "is_queued (Queued i) = True"
| "is_queued st = False"

lemma is_queued_iff: "is_queued st \<longleftrightarrow> (\<exists>i. st = Queued i)"
  by (cases st) auto

lemma chained_enqueue:
  assumes "chained qs sts" and "i < length qs" and "c < length sts" and "\<not> is_queued (sts ! c)"
  shows "chained (qs[i := qs ! i @ [c]]) (sts[c := Queued i])"
  using assms unfolding chained_def is_queued_iff by (auto simp: nth_list_update)

lemma chained_dequeue:
  assumes "chained qs sts" and "i < length qs" and "qs ! i = c # rest" and "\<not> is_queued st"
  shows "chained (qs[i := rest]) (sts[c := st])"
proof -
  have "distinct (c # rest)" and q: "set (c # rest) = {d. d < length sts \<and> sts ! d = Queued i}"
    using assms(1-3) unfolding chained_def by metis+
  then have c: "c < length sts" "sts ! c = Queued i" "c \<notin> set rest" "distinct rest"
    and r: "set rest = {d. d < length sts \<and> sts ! d = Queued i} - {c}" by auto
  show ?thesis
    using assms c r unfolding chained_def is_queued_iff by (auto simp: nth_list_update)
qed

lemma chained_new_call: "chained qs sts \<Longrightarrow> \<not> is_queued st \<Longrightarrow> chained qs (sts @ [st])"
  unfolding chained_def is_queued_iff by (auto simp: nth_append less_Suc_eq)

lemma chained_new_item: "chained qs sts \<Longrightarrow> chained (qs @ [[]]) sts"
  unfolding chained_def by (auto simp: nth_append less_Suc_eq)

text \<open>
  The history of deliveries: every call is delivered at most once; the delivered ones are those that
  settled and those whose callback is pending.
\<close>

fun is_settled :: "call_state \<Rightarrow> bool" where
  "is_settled Returned = True"
| "is_settled (Threw e) = True"
| "is_settled st = False"

definition history_ok :: "(nat \<times> nat) list \<Rightarrow> call_state list \<Rightarrow> nat list list \<Rightarrow> bool" where
  "history_ok dl sts bs \<longleftrightarrow> distinct (map fst dl) \<and>
     (\<forall>c<length sts. is_settled (sts ! c) \<longrightarrow> c \<in> fst ` set dl) \<and>
     (\<forall>i<length bs. \<forall>c. bs ! i = [c] \<longrightarrow> (c, i) \<in> set dl) \<and>
     (\<forall>c i. (c, i) \<in> set dl \<longrightarrow> c < length sts \<and> i < length bs \<and> (is_settled (sts ! c) \<or> bs ! i = [c]))"

lemma history_new_call: "history_ok dl sts bs \<Longrightarrow> \<not> is_settled st \<Longrightarrow> history_ok dl (sts @ [st]) bs"
  unfolding history_ok_def by (auto simp: nth_append less_Suc_eq)

lemma history_new_item: "history_ok dl sts bs \<Longrightarrow> history_ok dl sts (bs @ [[]])"
  unfolding history_ok_def by (auto simp: nth_append less_Suc_eq)

lemma history_move:
  assumes "history_ok dl sts bs" and "\<not> is_settled (sts ! c)" and "\<not> is_settled st" and "c < length sts"
  shows "history_ok dl (sts[c := st]) bs"
  using assms unfolding history_ok_def by (auto simp: nth_list_update)

lemma history_deliver:
  assumes "history_ok dl sts bs" and "bs ! i = []" and "i < length bs" and "c < length sts" and "\<not> is_settled (sts ! c)"
    and "\<And>j. j < length bs \<Longrightarrow> bs ! j \<noteq> [c]"
  shows "history_ok (dl @ [(c, i)]) sts (bs[i := [c]])"
proof -
  have h: "distinct (map fst dl)" "\<And>d. d < length sts \<Longrightarrow> is_settled (sts ! d) \<Longrightarrow> d \<in> fst ` set dl"
    "\<And>j d. j < length bs \<Longrightarrow> bs ! j = [d] \<Longrightarrow> (d, j) \<in> set dl"
    "\<And>d j. (d, j) \<in> set dl \<Longrightarrow> d < length sts \<and> j < length bs \<and> (is_settled (sts ! d) \<or> bs ! j = [d])"
    using assms(1) unfolding history_ok_def by blast+
  have "c \<notin> fst ` set dl" using h(4) assms(5,6) by force
  moreover have "is_settled (sts ! d) \<or> bs[i := [c]] ! j = [d]" if "(d, j) \<in> set dl" for d j
    using h(4) [OF that] assms(2) by (cases "j = i") auto
  moreover have "(d, j) \<in> set (dl @ [(c, i)])" if "j < length bs" "bs[i := [c]] ! j = [d]" for d j
    using h(3) [of j d] that assms(3) by (cases "j = i") auto
  ultimately show ?thesis using h assms(3,4) unfolding history_ok_def by auto
qed

lemma history_settle:
  assumes "history_ok dl sts bs" and "bs ! i = [c]" and "i < length bs" and "is_settled st"
  shows "history_ok dl (sts[c := st]) (bs[i := []])"
proof -
  have h: "distinct (map fst dl)" "\<And>d. d < length sts \<Longrightarrow> is_settled (sts ! d) \<Longrightarrow> d \<in> fst ` set dl"
    "\<And>j d. j < length bs \<Longrightarrow> bs ! j = [d] \<Longrightarrow> (d, j) \<in> set dl"
    "\<And>d j. (d, j) \<in> set dl \<Longrightarrow> d < length sts \<and> j < length bs \<and> (is_settled (sts ! d) \<or> bs ! j = [d])"
    using assms(1) unfolding history_ok_def by blast+
  have ci: "(c, i) \<in> set dl" "c < length sts" using h(3,4) assms(2,3) by blast+
  have "d \<in> fst ` set dl" if "d < length sts" "is_settled (sts[c := st] ! d)" for d
    using h(2) [of d] that ci by (cases "d = c") force+
  moreover have "(d, j) \<in> set dl" if "j < length bs" "bs[i := []] ! j = [d]" for d j
    using h(3) [of j d] that by (cases "j = i") auto
  moreover have "is_settled (sts[c := st] ! d) \<or> bs[i := []] ! j = [d]" if "(d, j) \<in> set dl" for d j
    using h(4) [OF that] assms(2-4) ci by (cases "d = c"; cases "j = i") auto
  ultimately show ?thesis using h(1,4) unfolding history_ok_def by simp
qed

section \<open>The invariant\<close>

text \<open>The columns of the tables of items and calls the invariant reads.\<close>

definition queues :: "('k, 'v) JoinStorage \<Rightarrow> nat list list" where
  "queues s = map queue (join_items s)"

definition busies :: "('k, 'v) JoinStorage \<Rightarrow> nat list list" where
  "busies s = map busy_call (join_items s)"

definition phases :: "('k, 'v) JoinStorage \<Rightarrow> (bool \<times> op option) list" where
  "phases s = map (\<lambda>it. (item_processed it, item_busy it)) (join_items s)"

definition groups :: "('k, 'v) JoinStorage \<Rightarrow> 'v list list list" where
  "groups s = map item_values (join_items s)"

definition call_states :: "('k, 'v) JoinStorage \<Rightarrow> call_state list" where
  "call_states s = map call_state (join_calls s)"

definition call_data :: "('k, 'v) JoinStorage \<Rightarrow> ('k \<times> nat \<times> 'v) list" where
  "call_data s = map (\<lambda>c. (call_key c, call_index c, call_value c)) (join_calls s)"

lemmas column_defs = queues_def busies_def phases_def groups_def item_keys_def

lemma column_lengths [simp]:
  "length (queues s) = length (join_items s)" "length (busies s) = length (join_items s)"
  "length (phases s) = length (join_items s)" "length (groups s) = length (join_items s)"
  "length (item_keys s) = length (join_items s)" "length (call_states s) = length (join_calls s)"
  "length (call_data s) = length (join_calls s)"
  by (simp_all add: column_defs call_states_def call_data_def)

definition values_at :: "'v list list \<Rightarrow> nat \<Rightarrow> 'v list" where
  "values_at vs j = (if j < length vs then vs ! j else [])"

lemma values_at_fresh: "values_at (replicate n []) j = []"
  by (simp add: values_at_def)

text \<open>The calls delivered to an item, in order, and the values they brought under an index.\<close>

definition delivered_to :: "('k, 'v) JoinStorage \<Rightarrow> nat \<Rightarrow> nat list" where
  "delivered_to s i = map fst (filter (\<lambda>d. snd d = i) (delivered s))"

definition brought :: "('k \<times> nat \<times> 'v) list \<Rightarrow> nat list \<Rightarrow> nat \<Rightarrow> 'v list" where
  "brought data cs j = map (\<lambda>c. snd (snd (data ! c))) (filter (\<lambda>c. fst (snd (data ! c)) = j) cs)"

definition unfiled :: "('k, 'v) JoinStorage \<Rightarrow> nat \<Rightarrow> bool" where
  "unfiled s i \<longleftrightarrow> (\<forall>k. jm_get (join_current s) k \<noteq> Some i \<and> jm_get (join_previous s) k \<noteq> Some i)"

definition calls_ok :: "('k, 'v) JoinStorage \<Rightarrow> bool" where
  "calls_ok s \<longleftrightarrow> chained (queues s) (call_states s) \<and> history_ok (delivered s) (call_states s) (busies s) \<and>
     (\<forall>c<length (join_calls s). \<forall>i. call_states s ! c = Queued i \<longrightarrow> item_keys s ! i = fst (call_data s ! c)) \<and>
     (\<forall>c i. (c, i) \<in> set (delivered s) \<longrightarrow> item_keys s ! i = fst (call_data s ! c))"

definition values_ok :: "('k, 'v) JoinStorage \<Rightarrow> bool" where
  "values_ok s \<longleftrightarrow> (\<forall>i<length (join_items s). \<forall>j. values_at (groups s ! i) j = brought (call_data s) (delivered_to s i) j)"

fun phase_ok :: "bool \<times> op option \<Rightarrow> bool \<Rightarrow> bool" where
  "phase_ok (processed, None) out = (processed \<longrightarrow> out)"
| "phase_ok (processed, Some (JoinOp c)) out = (\<not> processed)"
| "phase_ok (processed, Some (ExpireOp ctx)) out = processed"

lemma phase_ok_mono: "phase_ok ph out \<Longrightarrow> (out \<Longrightarrow> out') \<Longrightarrow> phase_ok ph out'"
  by (induction ph out rule: phase_ok.induct) auto

definition phases_ok :: "('k, 'v) JoinStorage \<Rightarrow> bool" where
  "phases_ok s \<longleftrightarrow> (\<forall>i<length (join_items s). phase_ok (phases s ! i) (unfiled s i))"

definition join_inv :: "('k, 'v) JoinStorage \<Rightarrow> bool" where
  "join_inv s \<longleftrightarrow> maps_ok s \<and> calls_ok s \<and> values_ok s \<and> phases_ok s"

text \<open>A step that changes no column, no generation and no history keeps the invariant.\<close>

lemma join_inv_cong:
  assumes "join_inv s" and "join_current s' = join_current s" and "join_previous s' = join_previous s"
    and "metricsEnabled s' = metricsEnabled s" and "join_count s' = join_count s" and "delivered s' = delivered s"
    and "item_keys s' = item_keys s" and "queues s' = queues s" and "busies s' = busies s" and "phases s' = phases s"
    and "groups s' = groups s" and "call_states s' = call_states s" and "call_data s' = call_data s"
  shows "join_inv s'"
proof -
  have "length (join_items s') = length (join_items s)" "length (join_calls s') = length (join_calls s)"
    using assms(8,12) column_lengths(1,6) by metis+
  then show ?thesis
    using assms maps_ok_cong [of s s']
    unfolding join_inv_def calls_ok_def values_ok_def phases_ok_def unfiled_def delivered_to_def by simp
qed

lemma quiet_columns:
  assumes "quiet s s'"
  shows "item_keys s' = item_keys s" "queues s' = queues s" "busies s' = busies s" "phases s' = phases s"
    "groups s' = groups s" "call_states s' = call_states s" "call_data s' = call_data s"
proof -
  note q = quiet_fields [OF assms]
  show "item_keys s' = item_keys s" "queues s' = queues s" "groups s' = groups s" "call_states s' = call_states s"
    "call_data s' = call_data s"
    by (simp_all add: column_defs call_states_def call_data_def q)
  show "busies s' = busies s"
    using arg_cong [OF q(14), of "map (\<lambda>b. case b of Some (JoinOp c) \<Rightarrow> [c] | _ \<Rightarrow> [])"]
    by (simp add: busies_def busy_call_def [abs_def] o_def)
  show "phases s' = phases s"
    using arg_cong2 [OF q(13,14), of zip] by (simp add: phases_def zip_map_map zip_same_conv_map o_def)
qed

lemma join_inv_quiet: "join_inv s \<Longrightarrow> quiet s s' \<Longrightarrow> join_inv s'"
  by (rule join_inv_cong) (simp_all add: quiet_fields quiet_columns)


lemma delivered_bounds:
  assumes "calls_ok s" and "c \<in> set (delivered_to s i)"
  shows "c < length (join_calls s)" "i < length (join_items s)"
  using assms by (auto simp: calls_ok_def history_ok_def delivered_to_def)

lemma delivered_filed:
  assumes "calls_ok s" and "(c, i) \<in> set (delivered s)"
  shows "c < length (join_calls s)" "i < length (join_items s)" "item_keys s ! i = fst (call_data s ! c)"
  using assms by (auto simp: calls_ok_def history_ok_def)

lemma brought_cong:
  "(\<And>c. c \<in> set cs \<Longrightarrow> data' ! c = data ! c) \<Longrightarrow> brought data' cs j = brought data cs j"
  by (simp add: brought_def cong: filter_cong)

text \<open>A call arrives.\<close>

lemma join_inv_new_call:
  assumes "join_inv s" and "call_state cl = AwaitingStop"
  shows "join_inv (s\<lparr>join_calls := join_calls s @ [cl]\<rparr>)" (is "join_inv ?s'")
proof -
  have c: "call_states ?s' = call_states s @ [AwaitingStop]"
    "call_data ?s' = call_data s @ [(call_key cl, call_index cl, call_value cl)]"
    by (simp_all add: call_states_def call_data_def assms(2))
  have i: "queues ?s' = queues s" "busies ?s' = busies s" "phases ?s' = phases s" "groups ?s' = groups s" "item_keys ?s' = item_keys s"
    by (simp_all add: column_defs)
  have ok: "calls_ok s" using assms(1) by (simp add: join_inv_def)
  have "calls_ok ?s'"
    using ok chained_new_call [of "queues s" "call_states s" AwaitingStop] history_new_call [of "delivered s" "call_states s" "busies s" AwaitingStop]
      delivered_filed [OF ok]
    by (auto simp: calls_ok_def c i nth_append less_Suc_eq)
  moreover have "brought (call_data ?s') (delivered_to s i) j = brought (call_data s) (delivered_to s i) j" for i j
    by (rule brought_cong) (simp add: c nth_append delivered_bounds [OF ok])
  ultimately show ?thesis
    using assms(1) maps_ok_append_call [of s]
    by (simp add: join_inv_def values_ok_def phases_ok_def unfiled_def delivered_to_def i)
qed

text \<open>A new item is filed.\<close>

lemma join_inv_createItem:
  assumes "createItem w wall s c = (s', i)" and "join_inv s"
  shows "join_inv s'"
  using assms(1)
proof (rule createItem_shape)
  fix s3 it
  assume q: "quiet s3 s'" and i: "i = length (join_items s)"
    and f: "join_items s3 = join_items s @ [it]" "join_current s3 = jm_set (join_current s) (call_key c) i"
      "join_previous s3 = jm_delete (join_previous s) (call_key c)" "item_key it = call_key c"
      "item_values it = replicate (call_index c + 1) []" "\<not> item_processed it" "item_busy it = None" "item_tail it = []"
    and n: "join_calls s3 = join_calls s" "delivered s3 = delivered s"
  have cols: "queues s3 = queues s @ [[]]" "busies s3 = busies s @ [[]]" "phases s3 = phases s @ [(False, None)]"
    "groups s3 = groups s @ [replicate (call_index c + 1) []]" "item_keys s3 = item_keys s @ [call_key c]"
    "call_states s3 = call_states s" "call_data s3 = call_data s" "delivered_to s3 = delivered_to s"
    by (simp_all add: column_defs call_states_def call_data_def delivered_to_def f n queue_def busy_call_def fun_eq_iff)
  have ok: "calls_ok s" "values_ok s" "phases_ok s" using assms(2) by (auto simp: join_inv_def)
  have ch: "chained (queues s) (call_states s)" using ok(1) by (simp add: calls_ok_def)
  then have "k < length (join_items s)" if "d < length (join_calls s)" "call_states s ! d = Queued k" for d k
    using that by (simp add: chained_def)
  then have "calls_ok s3"
    using ok(1) chained_new_item [OF ch] history_new_item [of "delivered s" "call_states s" "busies s"]
      delivered_filed [OF ok(1)]
    unfolding calls_ok_def cols n by (auto simp: nth_append)
  moreover have "delivered_to s (length (join_items s)) = []"
    using delivered_bounds(2) [OF ok(1)] by (metis last_in_set less_irrefl)
  then have "values_ok s3"
    using ok(2) values_at_fresh [of "call_index c + 1"] unfolding values_ok_def cols
    by (auto simp: nth_append less_Suc_eq f brought_def)
  moreover have "unfiled s3 k" if "unfiled s k" "k < i" for k
    using that by (auto simp: unfiled_def f jsmap_simps)
  then have "phases_ok s3"
    using ok(3) i unfolding phases_ok_def cols by (auto simp: nth_append less_Suc_eq f intro: phase_ok_mono)
  moreover have "maps_ok s'" using maps_ok_createItem [OF assms(1)] assms(2) by (simp add: join_inv_def)
  ultimately show ?thesis
    using q join_inv_quiet [of s3 s'] maps_ok_cong [of s' s3] by (simp add: join_inv_def quiet_fields quiet_columns)
qed

text \<open>How the columns change when one item or one call does.\<close>

lemma on_item_columns:
  assumes "i < length (join_items s)"
  shows "queues (on_item i f s) = (queues s)[i := queue (f (join_items s ! i))]"
    "busies (on_item i f s) = (busies s)[i := busy_call (f (join_items s ! i))]"
    "phases (on_item i f s) = (phases s)[i := (item_processed (f (join_items s ! i)), item_busy (f (join_items s ! i)))]"
    "groups (on_item i f s) = (groups s)[i := item_values (f (join_items s ! i))]"
    "item_keys (on_item i f s) = (item_keys s)[i := item_key (f (join_items s ! i))]"
    "call_states (on_item i f s) = call_states s" "call_data (on_item i f s) = call_data s"
  using assms by (simp_all add: column_defs on_item_def map_update call_states_def call_data_def)

lemma on_item_frame:
  "(\<And>it. queue (f it) = queue it) \<Longrightarrow> queues (on_item i f s) = queues s"
  "(\<And>it. busy_call (f it) = busy_call it) \<Longrightarrow> busies (on_item i f s) = busies s"
  "(\<And>it. item_processed (f it) = item_processed it \<and> item_busy (f it) = item_busy it) \<Longrightarrow> phases (on_item i f s) = phases s"
  "(\<And>it. item_values (f it) = item_values it) \<Longrightarrow> groups (on_item i f s) = groups s"
  "(\<And>it. item_key (f it) = item_key it) \<Longrightarrow> item_keys (on_item i f s) = item_keys s"
  by (simp_all add: column_defs map_on_item)

lemma column_nth:
  assumes "i < length (join_items s)"
  shows "queues s ! i = queue (join_items s ! i)" "busies s ! i = busy_call (join_items s ! i)"
    "phases s ! i = (item_processed (join_items s ! i), item_busy (join_items s ! i))"
    "groups s ! i = item_values (join_items s ! i)" "item_keys s ! i = item_key (join_items s ! i)"
  using assms by (simp_all add: column_defs)

lemma set_call_columns [simp]:
  "queues (set_call c st s) = queues s" "busies (set_call c st s) = busies s" "phases (set_call c st s) = phases s"
  "groups (set_call c st s) = groups s"
  "call_states (set_call c st s) = (call_states s)[c := st]" "call_data (set_call c st s) = call_data s"
proof -
  show "queues (set_call c st s) = queues s" "busies (set_call c st s) = busies s" "phases (set_call c st s) = phases s"
    "groups (set_call c st s) = groups s" by (simp_all add: column_defs)
  show "call_states (set_call c st s) = (call_states s)[c := st]"
    by (simp add: call_states_def set_call_def map_update)
  show "call_data (set_call c st s) = call_data s"
    by (cases "c < length (join_calls s)") (simp_all add: call_data_def set_call_def map_update list_update_same_conv list_update_beyond)
qed


lemma chain_member:
  assumes "calls_ok s" and "i < length (join_items s)" and "c \<in> set (queue (join_items s ! i))"
  shows "c < length (join_calls s)" "call_states s ! c = Queued i" "call_key (join_calls s ! c) = item_key (join_items s ! i)"
proof -
  show c: "c < length (join_calls s)" "call_states s ! c = Queued i"
    using assms by (auto simp: calls_ok_def chained_def column_nth)
  then show "call_key (join_calls s ! c) = item_key (join_items s ! i)"
    using assms by (simp add: calls_ok_def call_data_def flip: column_nth(5))
qed

text \<open>A call is chained on an item.\<close>

lemma join_inv_enqueue:
  assumes "join_inv s" and "i < length (join_items s)" and "c < length (join_calls s)"
    and "\<not> is_queued (call_states s ! c)" and "\<not> is_settled (call_states s ! c)"
    and "item_keys s ! i = call_key (join_calls s ! c)"
  shows "join_inv (set_call c (Queued i) (on_item i (\<lambda>it. it\<lparr>item_tail := item_tail it @ [JoinOp c]\<rparr>) s))" (is "join_inv ?s'")
proof -
  have same: "busies ?s' = busies s" "phases ?s' = phases s" "groups ?s' = groups s" "item_keys ?s' = item_keys s"
    by (simp_all add: on_item_frame busy_call_def)
  have cols: "queues ?s' = (queues s)[i := queues s ! i @ [c]]" "call_states ?s' = (call_states s)[c := Queued i]"
    using assms(2) by (simp_all add: on_item_columns column_nth queue_def busy_call_def)
  have d: "call_data ?s' = call_data s" using assms(2) by (simp add: on_item_columns)
  have "calls_ok ?s'"
    using assms chained_enqueue [of "queues s" "call_states s" i c] history_move [of "delivered s" "call_states s" "busies s" c "Queued i"]
    unfolding calls_ok_def same cols d
    by (auto simp: join_inv_def calls_ok_def nth_list_update call_data_def)
  moreover have "maps_ok ?s'" using assms(1) maps_ok_cong [of s ?s'] same by (simp add: join_inv_def)
  ultimately show ?thesis
    using assms(1) unfolding join_inv_def values_ok_def phases_ok_def same d by (simp add: unfiled_def delivered_to_def)
qed

text \<open>The first call of a chain leaves it without a delivery.\<close>

lemma join_inv_retry:
  assumes "join_inv s" and "i < length (join_items s)" and "item_busy (join_items s ! i) = None"
    and "item_tail (join_items s ! i) = JoinOp c # rest"
  shows "join_inv (set_call c Retrying (on_item i (\<lambda>it. it\<lparr>item_tail := rest\<rparr>) s))" (is "join_inv ?s'")
proof -
  have same: "busies ?s' = busies s" "phases ?s' = phases s" "groups ?s' = groups s" "item_keys ?s' = item_keys s" "call_data ?s' = call_data s"
    using assms(2) by (simp_all add: on_item_frame busy_call_def on_item_columns(7))
  have q: "queues s ! i = c # op_calls rest"
    using assms(2-4) by (simp add: column_nth queue_def busy_call_def)
  have cols: "queues ?s' = (queues s)[i := op_calls rest]" "call_states ?s' = (call_states s)[c := Retrying]"
    using assms(2,3) by (simp_all add: on_item_columns queue_def busy_call_def)
  have ok: "calls_ok s" using assms(1) by (simp add: join_inv_def)
  have c: "c < length (join_calls s)" "call_states s ! c = Queued i"
    using chain_member [OF ok assms(2), of c] assms(2) q by (simp_all add: column_nth)
  have "calls_ok ?s'"
    using ok chained_dequeue [of "queues s" "call_states s" i c "op_calls rest" Retrying] q assms(2) c
      history_move [of "delivered s" "call_states s" "busies s" c Retrying]
    unfolding calls_ok_def same cols by (auto simp: nth_list_update)
  moreover have "maps_ok ?s'" using assms(1) maps_ok_cong [of s ?s'] same by (simp add: join_inv_def)
  ultimately show ?thesis
    using assms(1) unfolding join_inv_def values_ok_def phases_ok_def same by (simp add: unfiled_def delivered_to_def)
qed


text \<open>A value is delivered: it is the last one under its index, and the callback is pending.\<close>

lemma values_at_push: "values_at (push_at idx v vs) j = values_at vs j @ (if j = idx then [v] else [])"
  by (auto simp: values_at_def nth_append nth_list_update Let_def)

declare push_at.simps [simp del]

lemma brought_snoc:
  "brought data (cs @ [c]) j = brought data cs j @ (if j = fst (snd (data ! c)) then [snd (snd (data ! c))] else [])"
  by (auto simp: brought_def)

lemma join_inv_deliver:
  assumes "join_inv s" and "i < length (join_items s)" and "item_busy (join_items s ! i) = None"
    and "item_tail (join_items s ! i) = JoinOp c # rest" and "\<not> item_processed (join_items s ! i)"
  shows "join_inv ((on_item i (\<lambda>it. it\<lparr>item_tail := rest,
      item_values := push_at (call_index (join_calls s ! c)) (call_value (join_calls s ! c)) (item_values it),
      item_busy := Some (JoinOp c)\<rparr>) s)\<lparr>invocations := calls, delivered := delivered s @ [(c, i)]\<rparr>)" (is "join_inv ?s'")
proof -
  let ?on = "on_item i (\<lambda>it. it\<lparr>item_tail := rest,
      item_values := push_at (call_index (join_calls s ! c)) (call_value (join_calls s ! c)) (item_values it),
      item_busy := Some (JoinOp c)\<rparr>) s"
  have hist: "queues ?s' = queues ?on" "busies ?s' = busies ?on" "phases ?s' = phases ?on" "groups ?s' = groups ?on"
    "item_keys ?s' = item_keys ?on" "call_states ?s' = call_states ?on" "call_data ?s' = call_data ?on"
    by (simp_all add: column_defs call_states_def call_data_def)
  have q: "queues s ! i = c # op_calls rest" using assms(2-4) by (simp add: column_nth queue_def busy_call_def)
  have ok: "calls_ok s" "values_ok s" "phases_ok s" using assms(1) by (auto simp: join_inv_def)
  have c: "c < length (join_calls s)" "call_states s ! c = Queued i"
    using chain_member [OF ok(1) assms(2), of c] assms(2) q by (simp_all add: column_nth)
  have cols: "queues ?s' = queues s" "busies ?s' = (busies s)[i := [c]]" "phases ?s' = (phases s)[i := (False, Some (JoinOp c))]"
    "groups ?s' = (groups s)[i := push_at (fst (snd (call_data s ! c))) (snd (snd (call_data s ! c))) (groups s ! i)]"
    "item_keys ?s' = item_keys s" "call_states ?s' = call_states s" "call_data ?s' = call_data s"
    unfolding hist using assms(2-5) c q
    by (simp_all add: on_item_columns queue_def busy_call_def on_item_frame(5) list_update_same_conv column_nth(4,5) call_data_def)
  have "busies s ! j \<noteq> [c]" if "j < length (join_items s)" for j
  proof
    assume b: "busies s ! j = [c]"
    then have "call_states s ! c = Queued j" using chain_member(2) [OF ok(1) that, of c] that by (simp add: column_nth queue_def)
    with b c assms(2,3) show False by (simp add: column_nth busy_call_def)
  qed
  moreover have "busies s ! i = []" using assms(2,3) by (simp add: column_nth busy_call_def)
  ultimately have "history_ok (delivered s @ [(c, i)]) (call_states s) ((busies s)[i := [c]])"
    using ok(1) assms(2) c by (intro history_deliver) (simp_all add: calls_ok_def)
  then have "calls_ok ?s'" using ok(1) c unfolding calls_ok_def cols by auto
  moreover have "delivered_to ?s' k = delivered_to s k @ (if k = i then [c] else [])" for k
    by (simp add: delivered_to_def)
  then have "values_ok ?s'"
    using ok(2) assms(2) unfolding values_ok_def cols by (auto simp: nth_list_update brought_snoc values_at_push)
  moreover have "phases_ok ?s'"
    using ok(3) assms(2) unfolding phases_ok_def cols by (auto simp: nth_list_update unfiled_def)
  moreover have "maps_ok ?s'" using assms(1) maps_ok_cong [of s ?s'] cols by (simp add: join_inv_def)
  ultimately show ?thesis by (simp add: join_inv_def)
qed

text \<open>The expiry of an item begins: it is processed from then on.\<close>

lemma join_inv_begin_expiry:
  assumes "join_inv s" and "i < length (join_items s)" and "item_busy (join_items s ! i) = None"
    and "item_tail (join_items s ! i) = ExpireOp ctx # rest"
  shows "join_inv ((on_item i (\<lambda>it. it\<lparr>item_tail := rest, item_processed := True, item_busy := Some (ExpireOp ctx)\<rparr>) s)
    \<lparr>invocations := calls\<rparr>)" (is "join_inv ?s'")
proof -
  let ?on = "on_item i (\<lambda>it. it\<lparr>item_tail := rest, item_processed := True, item_busy := Some (ExpireOp ctx)\<rparr>) s"
  have hist: "queues ?s' = queues ?on" "busies ?s' = busies ?on" "phases ?s' = phases ?on" "groups ?s' = groups ?on"
    "item_keys ?s' = item_keys ?on" "call_states ?s' = call_states ?on" "call_data ?s' = call_data ?on"
    by (simp_all add: column_defs call_states_def call_data_def)
  have cols: "queues ?s' = queues s" "busies ?s' = busies s" "phases ?s' = (phases s)[i := (True, Some (ExpireOp ctx))]"
    "groups ?s' = groups s" "item_keys ?s' = item_keys s" "call_states ?s' = call_states s" "call_data ?s' = call_data s"
    unfolding hist using assms(2-4)
    by (simp_all add: on_item_columns queue_def busy_call_def on_item_frame list_update_same_conv column_nth)
  have "phases_ok ?s'"
    using assms(1,2) unfolding phases_ok_def cols by (auto simp: nth_list_update unfiled_def join_inv_def phases_ok_def)
  moreover have "maps_ok ?s'" using assms(1) maps_ok_cong [of s ?s'] cols by (simp add: join_inv_def)
  ultimately show ?thesis
    using assms(1) unfolding join_inv_def calls_ok_def values_ok_def cols by (simp add: delivered_to_def)
qed

lemma on_item_twice:
  "i < length (join_items s) \<Longrightarrow> on_item i f (on_item i g s) = on_item i (\<lambda>it. f (g it)) s"
  by (simp add: on_item_def)

lemma join_inv_run_op:
  assumes "join_inv s"
  shows "join_inv (run_op w wall s i)"
proof (cases "i < length (join_items s) \<and> item_busy (join_items s ! i) = None")
  case True
  then have i: "i < length (join_items s)" "item_busy (join_items s ! i) = None" by blast+
  show ?thesis
  proof (cases "item_tail (join_items s ! i)")
    case (Cons op rest)
    show ?thesis
    proof (cases op)
      case (JoinOp c)
      note t = Cons [unfolded JoinOp]
      show ?thesis
        using join_inv_retry [OF assms i t] join_inv_deliver [OF assms i t] i
        by (auto simp: run_op_def t Let_def on_item_twice)
    next
      case (ExpireOp ctx)
      note t = Cons [unfolded ExpireOp]
      let ?s1 = "on_item i (\<lambda>it. it\<lparr>item_tail := rest\<rparr>) s"
      have "quiet s ?s1"
        using t by (intro quiet_on_item) (simp add: same_item_def)
      then have q: "quiet s ?s1" "quiet s (armDeadline w ctx (cancelDeadline ?s1 i) i)"
        using quiet_trans quiet_armDeadline quiet_cancelDeadline by metis+
      show ?thesis
        using join_inv_begin_expiry [OF assms i t] join_inv_quiet [OF assms q(1)] join_inv_quiet [OF assms q(2)] i
        by (simp add: run_op_def t Let_def on_item_twice)
    qed
  qed (use assms True in \<open>simp add: run_op_def\<close>)
qed (use assms in \<open>auto simp: run_op_def Let_def\<close>)


text \<open>An item is filed under its own key only, in one generation only.\<close>

lemma unfiled_iff:
  assumes "maps_ok s" and "i < length (join_items s)"
  shows "unfiled s i \<longleftrightarrow> locate s (item_key (join_items s ! i)) i = None"
proof -
  have "k = item_key (join_items s ! i)" if "jm_get (join_current s) k = Some i \<or> jm_get (join_previous s) k = Some i" for k
    using assms that unfolding maps_ok_def gens_ok_def by (metis column_nth(5))
  then show ?thesis by (auto simp: unfiled_def locate_def)
qed

lemma unfiled_removeAt:
  assumes "maps_ok s" and "i < length (join_items s)" and "locate s (item_key (join_items s ! i)) i = Some loc"
  shows "unfiled (removeAt s (item_key (join_items s ! i)) i loc ev) i"
proof -
  let ?k = "item_key (join_items s ! i)"
  have "jm_get (join_current s) ?k = None \<or> jm_get (join_previous s) ?k = None"
    using assms(1) by (simp add: maps_ok_def gens_ok_def)
  then have "locate (removeAt s ?k i loc ev) ?k i = None"
    using assms(3) by (auto simp: locate_def removeAt_maps jsmap_simps split: if_splits)
  then show ?thesis using unfiled_iff [OF maps_ok_removeAt [OF assms(1)], of i ?k i loc ev] assms(2) by simp
qed

lemma unfiled_removeAt_mono: "unfiled s j \<Longrightarrow> unfiled (removeAt s k i loc ev) j"
  by (simp add: unfiled_def removeAt_maps jsmap_simps)

lemma unfiled_quiet: "quiet s s' \<Longrightarrow> unfiled s' = unfiled s"
  by (simp add: unfiled_def quiet_fields fun_eq_iff)

lemma removeAt_columns [simp]:
  "queues (removeAt s k i loc ev) = queues s" "busies (removeAt s k i loc ev) = busies s"
  "phases (removeAt s k i loc ev) = phases s" "groups (removeAt s k i loc ev) = groups s"
  "call_states (removeAt s k i loc ev) = call_states s" "call_data (removeAt s k i loc ev) = call_data s"
  by (simp_all add: column_defs call_states_def call_data_def)

text \<open>The renewal of an item: it moves to the current generation.\<close>

definition renewed :: "('k, 'v) JoinStorage \<Rightarrow> nat \<Rightarrow> location \<Rightarrow> ('k, 'v) JoinStorage" where
  "renewed s i loc =
     (let k = item_key (join_items s ! i) in
      s\<lparr>join_previous := (if loc = Previous then jm_delete (join_previous s) k else join_previous s),
        join_current := jm_set (join_current s) k i\<rparr>)"

lemma maps_ok_renewed:
  assumes "maps_ok s" and "i < length (join_items s)" and "locate s (item_key (join_items s ! i)) i = Some loc"
  shows "maps_ok (renewed s i loc)"
proof -
  let ?k = "item_key (join_items s ! i)"
  have g: "gens_ok (join_current s) (join_previous s) (item_keys s)" using assms(1) by (simp add: maps_ok_def)
  then have n: "jm_get (join_current s) ?k = None \<or> jm_get (join_previous s) ?k = None"
    and o: "jm_ok (join_previous s)" by (simp_all add: gens_ok_def)
  have "gens_ok (join_current (renewed s i loc)) (join_previous (renewed s i loc)) (item_keys (renewed s i loc))"
    using assms(2,3) n g gens_delete(2) [OF g, of ?k]
    by (auto simp: renewed_def Let_def item_keys_def locate_def jsmap_simps split: if_splits intro!: gens_set)
  moreover have "int (join_size (renewed s i loc)) = int (join_size s)"
    using assms(3) n o by (auto simp: renewed_def Let_def join_size_def locate_def jm_size_set jm_has_def jm_size_deleted split: if_splits)
  ultimately show ?thesis using assms(1) by (simp add: maps_ok_def renewed_def Let_def)
qed

text \<open>
  The ways a callback settles: the item is no longer filed, or stays as it is; it is removed; it is
  renewed. In all of them the item is first marked with the answer.
\<close>

definition answered :: "('k, 'v) JoinStorage \<Rightarrow> nat \<Rightarrow> bool \<Rightarrow> ('k, 'v) JoinStorage" where
  "answered s i answer = on_item i (\<lambda>it. it\<lparr>item_processed := answer\<rparr>) s"

lemma answered_columns:
  assumes "i < length (join_items s)"
  shows "queues (answered s i a) = queues s" "busies (answered s i a) = busies s" "groups (answered s i a) = groups s"
    "item_keys (answered s i a) = item_keys s" "phases (answered s i a) = (phases s)[i := (a, item_busy (join_items s ! i))]"
    "unfiled (answered s i a) = unfiled s" "locate (answered s i a) = locate s"
    "item_key (join_items (answered s i a) ! i) = item_key (join_items s ! i)"
    "length (join_items (answered s i a)) = length (join_items s)" "join_calls (answered s i a) = join_calls s"
    "delivered (answered s i a) = delivered s" "activeTTLJoins (answered s i a) = activeTTLJoins s"
    "stopCompletion (answered s i a) = stopCompletion s" "invocations (answered s i a) = invocations s"
  using assms
  by (simp_all add: answered_def on_item_frame on_item_columns(3) queue_def busy_call_def unfiled_def locate_def fun_eq_iff)
    (simp add: on_item_def)

lemma maps_ok_answered: "maps_ok s \<Longrightarrow> maps_ok (answered s i a)"
  by (rule maps_ok_cong) (simp_all add: answered_def on_item_frame)

lemma renewed_columns [simp]:
  "queues (renewed s i loc) = queues s" "busies (renewed s i loc) = busies s" "groups (renewed s i loc) = groups s"
  "item_keys (renewed s i loc) = item_keys s" "phases (renewed s i loc) = phases s" "join_calls (renewed s i loc) = join_calls s"
  "delivered (renewed s i loc) = delivered s" "activeTTLJoins (renewed s i loc) = activeTTLJoins s"
  "stopCompletion (renewed s i loc) = stopCompletion s" "invocations (renewed s i loc) = invocations s"
  by (simp_all add: renewed_def Let_def column_defs)

lemma join_settled_renews:
  assumes "i < length (join_items s)" and "call_key (join_calls s ! c) = item_key (join_items s ! i)"
    and "locate s (item_key (join_items s ! i)) i = Some loc" and "call_renew (join_calls s ! c)" and "call_ttl (join_calls s ! c) > 0"
  shows "quiet (renewed (answered s i False) i loc) (join_settled w wall s i c False)"
proof -
  have comm: "x\<lparr>join_items := its, join_current := m\<rparr> = x\<lparr>join_current := m, join_items := its\<rparr>"
    for x :: "('a, 'b) JoinStorage" and its m by (cases x) simp
  let ?s1 = "answered s i False"
  let ?r = "on_item i (\<lambda>it. it\<lparr>item_deadline := Some (wall + call_ttl (join_calls s ! c))\<rparr>) (renewed ?s1 i loc)"
  have "join_settled w wall s i c False = armDeadline w (call_context (join_calls s ! c)) (cancelDeadline ?r i) i"
    using assms by (auto simp: join_settled_def Let_def renewed_def answered_def on_item_def comm)
  moreover have "quiet (renewed ?s1 i loc) ?r" by (rule quiet_on_item) (simp add: same_item_def)
  ultimately show ?thesis using quiet_trans quiet_cancelDeadline quiet_armDeadline by metis
qed

lemma join_settled_cases:
  assumes "i < length (join_items s)" and "call_key (join_calls s ! c) = item_key (join_items s ! i)"
  obtains (same) "locate s (item_key (join_items s ! i)) i = None \<or> \<not> answer" "join_settled w wall s i c answer = answered s i answer"
  | (out) loc where "locate s (item_key (join_items s ! i)) i = Some loc" answer
      "join_settled w wall s i c answer = removeAt (cancelDeadline (answered s i answer) i) (item_key (join_items s ! i)) i loc False"
  | (renew) loc where "locate s (item_key (join_items s ! i)) i = Some loc" "\<not> answer"
      "quiet (renewed (answered s i False) i loc) (join_settled w wall s i c answer)"
proof (cases "locate s (item_key (join_items s ! i)) i")
  case None
  then show thesis using assms same by (simp add: join_settled_def answered_def Let_def)
next
  case (Some loc)
  show thesis
  proof (cases "answer \<or> \<not> (call_renew (join_calls s ! c) \<and> call_ttl (join_calls s ! c) > 0)")
    case True
    then show thesis using Some assms same out by (cases answer) (auto simp: join_settled_def answered_def Let_def)
  next
    case False
    then show thesis using Some join_settled_renews [OF assms Some] renew by simp
  qed
qed

lemma join_settled_columns:
  assumes "i < length (join_items s)" and "call_key (join_calls s ! c) = item_key (join_items s ! i)"
  defines "s' \<equiv> \<lambda>w wall answer. join_settled w wall s i c answer"
  shows "queues (s' w wall answer) = queues s" "busies (s' w wall answer) = busies s" "groups (s' w wall answer) = groups s"
    "item_keys (s' w wall answer) = item_keys s"
    "phases (s' w wall answer) = (phases s)[i := (answer, item_busy (join_items s ! i))]" "join_calls (s' w wall answer) = join_calls s"
    "delivered (s' w wall answer) = delivered s" "activeTTLJoins (s' w wall answer) = activeTTLJoins s"
    "stopCompletion (s' w wall answer) = stopCompletion s" "invocations (s' w wall answer) = invocations s"
  unfolding s'_def
  by (rule join_settled_cases [OF assms(1,2), of answer w wall];
      simp add: answered_columns [OF assms(1)] quiet_columns quiet_fields
        quiet_columns [OF quiet_cancelDeadline] quiet_fields [OF quiet_cancelDeadline])+

lemma join_settled_maps:
  assumes "maps_ok s" and "i < length (join_items s)" and "call_key (join_calls s ! c) = item_key (join_items s ! i)"
  shows "maps_ok (join_settled w wall s i c answer)"
    and "\<And>j. unfiled s j \<Longrightarrow> unfiled (join_settled w wall s i c answer) j"
    and "answer \<Longrightarrow> unfiled (join_settled w wall s i c answer) i"
proof -
  let ?s' = "join_settled w wall s i c answer" and ?s1 = "answered s i answer" and ?k = "item_key (join_items s ! i)"
  note m1 = maps_ok_answered [OF assms(1), of i] and c1 = answered_columns [OF assms(2)]
  note q = quiet_cancelDeadline [of ?s1 i]
  note mc = maps_ok_quiet [OF m1 q]
  note cases = join_settled_cases [OF assms(2,3), of answer w wall]
  show "maps_ok ?s'"
  proof (rule cases)
    fix loc
    assume "locate s ?k i = Some loc" and r: "quiet (renewed (answered s i False) i loc) ?s'"
    then have "maps_ok (renewed (answered s i False) i loc)"
      using assms(2) c1 by (intro maps_ok_renewed [OF m1]) simp_all
    then show ?thesis using r by (rule maps_ok_quiet)
  qed (use m1 maps_ok_removeAt [OF mc] in auto)
  show "unfiled ?s' j" if "unfiled s j" for j
  proof (rule cases)
    fix loc
    assume l: "locate s ?k i = Some loc" and r: "quiet (renewed (answered s i False) i loc) ?s'"
    with that have "j \<noteq> i" by (auto simp: unfiled_def locate_def split: if_splits)
    with that have "unfiled (renewed (answered s i False) i loc) j"
      by (auto simp: unfiled_def renewed_def Let_def jsmap_simps answered_def)
    then show ?thesis using unfiled_quiet [OF r] by simp
  qed (use that c1(6) unfiled_quiet [OF q] in \<open>auto intro: unfiled_removeAt_mono\<close>)
  show "unfiled ?s' i" if answer
  proof (rule cases)
    fix loc
    assume "locate s ?k i = Some loc" and s': "?s' = removeAt (cancelDeadline ?s1 i) ?k i loc False"
    then have "item_key (join_items (cancelDeadline ?s1 i) ! i) = ?k" "locate (cancelDeadline ?s1 i) ?k i = Some loc"
      using assms(2) by (auto simp: cancelDeadline_def on_item_def locate_def answered_def split: if_splits)
    with unfiled_removeAt [OF mc, of i loc False] assms(2) c1(9) quiet_fields(10) [OF q] s' show ?thesis by simp
  qed (use that c1(6) unfiled_iff [OF assms(1,2)] in auto)
qed


text \<open>The first call of a chain, whose callback was pending, is over.\<close>

lemma calls_ok_settle:
  assumes "calls_ok s" and "i < length (join_items s)" and "item_busy (join_items s ! i) = Some (JoinOp c)" and "is_settled st"
    and "queues s' = (queues s)[i := op_calls (item_tail (join_items s ! i))]" and "busies s' = (busies s)[i := []]"
    and "call_states s' = (call_states s)[c := st]" and "call_data s' = call_data s" and "delivered s' = delivered s"
    and "item_keys s' = item_keys s"
  shows "calls_ok s'"
proof -
  have b: "busies s ! i = [c]" and q: "queues s ! i = c # op_calls (item_tail (join_items s ! i))"
    using assms(2,3) by (simp_all add: column_nth busy_call_def queue_def)
  have n: "\<not> is_queued st" "length (join_calls s') = length (join_calls s)"
    using assms(4) arg_cong [OF assms(7), of length] by (cases st; simp)+
  have "chained (queues s') (call_states s')"
    using chained_dequeue [OF _ _ q n(1)] assms(1,2,5,7) by (simp add: calls_ok_def)
  moreover have "history_ok (delivered s') (call_states s') (busies s')"
    using history_settle [OF _ b _ assms(4)] assms(1,2,6,7,9) by (simp add: calls_ok_def)
  moreover have "item_keys s' ! j = fst (call_data s' ! d)" if "d < length (join_calls s)" "call_states s' ! d = Queued j" for d j
  proof -
    have "d \<noteq> c" using that n(1) assms(7) by (auto simp: is_queued_iff)
    with that assms show ?thesis by (simp add: calls_ok_def)
  qed
  ultimately show ?thesis using assms(1,8-10) by (simp add: calls_ok_def n(2))
qed

lemma finish_call_fields:
  "join_current (finish_call s c st) = join_current s" "join_previous (finish_call s c st) = join_previous s"
  "join_items (finish_call s c st) = join_items s" "delivered (finish_call s c st) = delivered s"
  "invocations (finish_call s c st) = invocations s" "metricsEnabled (finish_call s c st) = metricsEnabled s"
  "join_count (finish_call s c st) = join_count s" "call_states (finish_call s c st) = (call_states s)[c := st]"
  "call_data (finish_call s c st) = call_data s" "unfiled (finish_call s c st) = unfiled s"
proof -
  have c: "join_calls (finish_call s c st) = join_calls (set_call c st s)" by (simp add: finish_call_def Let_def)
  show "call_states (finish_call s c st) = (call_states s)[c := st]" "call_data (finish_call s c st) = call_data s"
    using set_call_columns(5,6) [of c st s] by (simp_all add: call_states_def call_data_def c)
qed (simp_all add: finish_call_def Let_def unfiled_def fun_eq_iff)

lemma finish_call_columns:
  "queues (finish_call s c st) = queues s" "busies (finish_call s c st) = busies s" "phases (finish_call s c st) = phases s"
  "groups (finish_call s c st) = groups s" "item_keys (finish_call s c st) = item_keys s" "delivered_to (finish_call s c st) = delivered_to s"
  by (simp_all add: column_defs finish_call_fields delivered_to_def fun_eq_iff)

text \<open>The state in which no callback of the item is pending any more.\<close>

definition idle :: "('k, 'v) JoinStorage \<Rightarrow> nat \<Rightarrow> ('k, 'v) JoinStorage" where
  "idle s i = on_item i (\<lambda>it. it\<lparr>item_busy := None\<rparr>) s"

lemma idle_columns:
  assumes "i < length (join_items s)"
  shows "queues (idle s i) = (queues s)[i := op_calls (item_tail (join_items s ! i))]" "busies (idle s i) = (busies s)[i := []]"
    "groups (idle s i) = groups s" "item_keys (idle s i) = item_keys s"
    "phases (idle s i) = (phases s)[i := (item_processed (join_items s ! i), None)]" "unfiled (idle s i) = unfiled s"
    "locate (idle s i) = locate s" "item_key (join_items (idle s i) ! i) = item_key (join_items s ! i)"
    "item_processed (join_items (idle s i) ! i) = item_processed (join_items s ! i)" "item_busy (join_items (idle s i) ! i) = None"
    "length (join_items (idle s i)) = length (join_items s)" "join_calls (idle s i) = join_calls s"
    "delivered (idle s i) = delivered s" "activeTTLJoins (idle s i) = activeTTLJoins s"
    "stopCompletion (idle s i) = stopCompletion s" "invocations (idle s i) = invocations s"
    "call_states (idle s i) = call_states s" "call_data (idle s i) = call_data s" "delivered_to (idle s i) = delivered_to s"
  using assms
  by (simp_all add: idle_def on_item_frame on_item_columns queue_def busy_call_def unfiled_def locate_def fun_eq_iff delivered_to_def)
    (simp_all add: on_item_def)

lemma maps_ok_idle: "maps_ok s \<Longrightarrow> maps_ok (idle s i)"
  by (rule maps_ok_cong) (simp_all add: idle_def on_item_frame)

lemma phases_ok_update:
  assumes "phases_ok s" and "i < length (join_items s)" and "phases s' = (phases s)[i := ph]"
    and "\<And>j. unfiled s j \<Longrightarrow> unfiled s' j" and "phase_ok ph (unfiled s' i)"
  shows "phases_ok s'"
proof -
  have "length (join_items s') = length (join_items s)" using column_lengths(3) assms(3) by (metis length_list_update)
  then show ?thesis
    using assms unfolding phases_ok_def by (auto simp: nth_list_update intro: phase_ok_mono)
qed

lemma join_inv_settle_join:
  assumes "join_inv s" and i: "i < length (join_items s)" and b: "item_busy (join_items s ! i) = Some (JoinOp c)"
  shows "join_inv (finish_call (idle s i) c (Threw e))"
    and "join_inv (finish_call (join_settled w wall (idle s i) i c answer) c Returned)"
proof -
  have ok: "maps_ok s" "calls_ok s" "values_ok s" "phases_ok s" using assms(1) by (auto simp: join_inv_def)
  note d = idle_columns [OF i]
  have p: "\<not> item_processed (join_items s ! i)" using ok(4) i b by (auto simp: phases_ok_def column_nth)
  let ?t = "finish_call (idle s i) c (Threw e)"
  have "calls_ok ?t"
    by (rule calls_ok_settle [OF ok(2) i b, of "Threw e"]) (simp_all add: finish_call_fields finish_call_columns d)
  moreover have "maps_ok ?t"
    by (rule maps_ok_cong [OF maps_ok_idle [OF ok(1)]]) (simp_all add: finish_call_fields finish_call_columns)
  moreover have "phases_ok ?t"
    by (rule phases_ok_update [OF ok(4) i, of _ "(False, None)"]) (use p in \<open>auto simp: finish_call_fields finish_call_columns d\<close>)
  ultimately show "join_inv ?t"
    using ok(3) by (simp add: join_inv_def values_ok_def finish_call_fields finish_call_columns d)
  let ?u = "join_settled w wall (idle s i) i c answer" and ?r = "finish_call (join_settled w wall (idle s i) i c answer) c Returned"
  have i': "i < length (join_items (idle s i))" and k: "call_key (join_calls (idle s i) ! c) = item_key (join_items (idle s i) ! i)"
    using i chain_member(3) [OF ok(2) i, of c] b by (simp_all add: d queue_def busy_call_def)
  note j = join_settled_columns [OF i' k, where w = w and wall = wall and answer = answer]
    and m = join_settled_maps [OF maps_ok_idle [OF ok(1)] i' k, where w = w and wall = wall and answer = answer]
  have len: "length (join_items ?u) = length (join_items s)" using j(1) d(11) column_lengths(1) by metis
  have cs: "call_states ?u = call_states s" "call_data ?u = call_data s" "delivered_to ?u = delivered_to s"
    using j(6,7) by (simp_all add: call_states_def call_data_def delivered_to_def d fun_eq_iff)
  have "calls_ok ?r"
    by (rule calls_ok_settle [OF ok(2) i b, of Returned]) (simp_all add: finish_call_fields finish_call_columns j d cs)
  moreover have "maps_ok ?r"
    by (rule maps_ok_cong [OF m(1)]) (simp_all add: finish_call_fields finish_call_columns)
  moreover have "phases_ok ?r"
    by (rule phases_ok_update [OF ok(4) i, of _ "(answer, None)"])
      (use m(2,3) in \<open>auto simp: finish_call_fields finish_call_columns j d\<close>)
  ultimately show "join_inv ?r"
    using ok(3) by (simp add: join_inv_def values_ok_def finish_call_fields finish_call_columns j d cs len)
qed


lemma calls_ok_idle_expiry:
  assumes "calls_ok s" and "i < length (join_items s)" and "item_busy (join_items s ! i) = Some (ExpireOp ctx)"
  shows "queues (idle s i) = queues s" "busies (idle s i) = busies s" "calls_ok (idle s i)"
proof -
  note d = idle_columns [OF assms(2)]
  show q: "queues (idle s i) = queues s" "busies (idle s i) = busies s"
    using assms(2,3) by (simp_all add: d list_update_same_conv column_nth queue_def busy_call_def)
  show "calls_ok (idle s i)"
    using assms(1) unfolding calls_ok_def q by (simp add: d)
qed

text \<open>An expiry ends: the item is removed, whether its callback failed or not.\<close>

lemma join_inv_settle_expiry:
  assumes "join_inv s" and i: "i < length (join_items s)" and b: "item_busy (join_items s ! i) = Some (ExpireOp ctx)"
  shows "join_inv (case locate s (item_key (join_items s ! i)) i of None \<Rightarrow> idle s i
    | Some loc \<Rightarrow> removeAt (idle s i) (item_key (join_items s ! i)) i loc True)" (is "join_inv ?s'")
proof -
  have ok: "maps_ok s" "calls_ok s" "values_ok s" "phases_ok s" using assms(1) by (auto simp: join_inv_def)
  note d = idle_columns [OF i] and e = calls_ok_idle_expiry [OF ok(2) i b] and m = maps_ok_idle [OF ok(1), of i]
  have cols: "queues ?s' = queues (idle s i)" "busies ?s' = busies (idle s i)" "groups ?s' = groups s" "item_keys ?s' = item_keys s"
    "phases ?s' = phases (idle s i)" "call_states ?s' = call_states s" "call_data ?s' = call_data s" "delivered ?s' = delivered s"
    "length (join_calls ?s') = length (join_calls s)" "length (join_items ?s') = length (join_items s)"
    by (auto simp: d split: option.split)
  have "unfiled ?s' i"
  proof (cases "locate s (item_key (join_items s ! i)) i")
    case None
    then show ?thesis using unfiled_iff [OF ok(1) i] by (simp add: d)
  next
    case (Some loc)
    then show ?thesis using unfiled_removeAt [OF m, of i loc True] i by (simp add: d)
  qed
  moreover have "unfiled ?s' j" if "unfiled s j" for j
    using that by (auto simp: d intro: unfiled_removeAt_mono split: option.split)
  ultimately have "phases_ok ?s'"
    by (intro phases_ok_update [OF ok(4) i, of _ "(item_processed (join_items s ! i), None)"]) (simp_all add: cols d)
  moreover have "maps_ok ?s'" using m maps_ok_removeAt [OF m] by (simp split: option.split)
  moreover have "calls_ok ?s'" using e(3) unfolding calls_ok_def cols by (simp add: d)
  moreover have "values_ok ?s'" using ok(3) unfolding values_ok_def cols by (simp add: delivered_to_def cols)
  ultimately show ?thesis by (simp add: join_inv_def)
qed

lemma join_inv_settle_op:
  assumes "join_inv s"
  shows "join_inv (settle_op w wall s i r)"
proof (cases "i < length (join_items s)")
  case i: True
  show ?thesis
  proof (cases "item_busy (join_items s ! i)")
    case (Some op)
    show ?thesis
    proof (cases op)
      case (JoinOp c)
      with join_inv_settle_join [OF assms i] i Some show ?thesis
        by (cases r) (simp_all add: settle_op_def idle_def)
    next
      case (ExpireOp ctx)
      let ?s2 = "case locate s (item_key (join_items s ! i)) i of None \<Rightarrow> idle s i
        | Some loc \<Rightarrow> removeAt (idle s i) (item_key (join_items s ! i)) i loc True"
      have s2: "join_inv ?s2" using join_inv_settle_expiry [OF assms i] Some ExpireOp by simp
      have "join_inv (?s2\<lparr>unhandled := es\<rparr>)" for es
        by (rule join_inv_cong [OF s2]) (simp_all add: column_defs call_states_def call_data_def)
      with s2 i Some ExpireOp idle_columns(7) [OF i] show ?thesis
        by (cases r) (simp_all add: settle_op_def Let_def flip: idle_def)
    qed
  qed (use assms i in \<open>simp add: settle_op_def\<close>)
qed (use assms in \<open>simp add: settle_op_def\<close>)

text \<open>The loop of a call: it is chained on the item filed under its key.\<close>

lemma findLive_filed:
  assumes "maps_ok s" and "findLive wall s k = Some i"
  shows "i < length (join_items s)" "item_keys s ! i = k" "locate s k i \<noteq> None"
proof -
  have "jm_get (join_current s) k = Some i \<or> jm_get (join_previous s) k = Some i"
    using assms(2) by (auto simp: findLive_def split: option.splits if_splits)
  with assms(1) show "i < length (join_items s)" "item_keys s ! i = k" "locate s k i \<noteq> None"
    by (auto simp: maps_ok_def gens_ok_def locate_def)
qed

lemma createItem_new:
  assumes "createItem w wall s c = (s', i)"
  shows "i = length (join_items s)" "length (join_items s') = Suc i" "item_keys s' ! i = call_key c"
    "join_calls s' = join_calls s" "activeTTLJoins s' = activeTTLJoins s" "stopCompletion s' = stopCompletion s"
    "call_states s' = call_states s" "invocations s' = invocations s" "delivered s' = delivered s"
proof -
  obtain s3 it where q: "quiet s3 s'" "i = length (join_items s)" "join_items s3 = join_items s @ [it]" "item_key it = call_key c"
    "join_calls s3 = join_calls s" "activeTTLJoins s3 = activeTTLJoins s" "stopCompletion s3 = stopCompletion s"
    "invocations s3 = invocations s" "delivered s3 = delivered s"
    using createItem_shape [OF assms] by metis
  then show "i = length (join_items s)" "length (join_items s') = Suc i" "item_keys s' ! i = call_key c"
    "join_calls s' = join_calls s" "activeTTLJoins s' = activeTTLJoins s" "stopCompletion s' = stopCompletion s"
    "call_states s' = call_states s" "invocations s' = invocations s" "delivered s' = delivered s"
    by (simp_all add: quiet_fields quiet_columns [OF q(1)]) (simp_all add: item_keys_def call_states_def nth_append)
qed

lemma join_inv_loop_turn:
  assumes "join_inv s" and "c < length (join_calls s)" and "\<not> is_queued (call_states s ! c)" and "\<not> is_settled (call_states s ! c)"
  shows "join_inv (loop_turn w wall s c)" "\<exists>i. call_states (loop_turn w wall s c) = (call_states s)[c := Queued i]"
    "activeTTLJoins (loop_turn w wall s c) = activeTTLJoins s" "stopCompletion (loop_turn w wall s c) = stopCompletion s"
    "map call_ttl (join_calls (loop_turn w wall s c)) = map call_ttl (join_calls s)"
proof -
  obtain s1 i where t: "loop_turn w wall s c = set_call c (Queued i) (on_item i (\<lambda>it. it\<lparr>item_tail := item_tail it @ [JoinOp c]\<rparr>) s1)"
    and s1: "join_inv s1" "i < length (join_items s1)" "item_keys s1 ! i = call_key (join_calls s ! c)" "join_calls s1 = join_calls s"
      "activeTTLJoins s1 = activeTTLJoins s" "stopCompletion s1 = stopCompletion s" "call_states s1 = call_states s"
  proof (cases "findLive wall s (call_key (join_calls s ! c))")
    case None
    obtain s1 i where "createItem w wall s (join_calls s ! c) = (s1, i)" by force
    with None show thesis
      using createItem_new [of w wall s "join_calls s ! c" s1 i] join_inv_createItem [of w wall s "join_calls s ! c" s1 i] assms(1)
      by (intro that [of i s1]) (auto simp: loop_turn_def)
  next
    case (Some i)
    then show thesis
      using findLive_filed [of s wall "call_key (join_calls s ! c)" i] assms(1)
      by (intro that [of i s]) (auto simp: loop_turn_def join_inv_def)
  qed
  show "join_inv (loop_turn w wall s c)" unfolding t using assms(2-4) s1 by (intro join_inv_enqueue) simp_all
  show "activeTTLJoins (loop_turn w wall s c) = activeTTLJoins s" "stopCompletion (loop_turn w wall s c) = stopCompletion s"
    by (simp_all add: t s1)
  show "\<exists>i. call_states (loop_turn w wall s c) = (call_states s)[c := Queued i]"
    using on_item_columns(6) [OF s1(2)] by (auto simp: t s1)
  show "map call_ttl (join_calls (loop_turn w wall s c)) = map call_ttl (join_calls s)"
    using assms(2) by (simp add: t s1 set_call_def map_update list_update_same_conv)
qed


section \<open>Counting the joins with a time to live\<close>

fun is_active :: "call_state \<Rightarrow> bool" where
  "is_active (Queued i) = True"
| "is_active Retrying = True"
| "is_active st = False"

definition active_calls :: "millis list \<Rightarrow> call_state list \<Rightarrow> int" where
  "active_calls ttls sts = int (length (filter (\<lambda>(ttl, st). ttl > 0 \<and> is_active st) (zip ttls sts)))"

definition call_ttls :: "('k, 'v) JoinStorage \<Rightarrow> millis list" where
  "call_ttls s = map call_ttl (join_calls s)"

text \<open>The counter counts them, and the promise of \<open>stop\<close> is pending only while there is one.\<close>

definition active_ok :: "('k, 'v) JoinStorage \<Rightarrow> bool" where
  "active_ok s \<longleftrightarrow> activeTTLJoins s = active_calls (call_ttls s) (call_states s) \<and>
     (stopCompletion s = Some False \<longrightarrow> activeTTLJoins s > 0)"

lemma active_calls_nonneg: "0 \<le> active_calls ttls sts"
  by (simp add: active_calls_def)

lemma active_calls_update:
  assumes "length ttls = length sts" and "c < length sts"
  shows "active_calls ttls (sts[c := st]) =
    active_calls ttls sts - of_bool (ttls ! c > 0 \<and> is_active (sts ! c)) + of_bool (ttls ! c > 0 \<and> is_active st)"
  using assms
proof (induction ttls sts arbitrary: c rule: list_induct2)
  case (Cons t ttls x sts)
  then show ?case by (cases c) (auto simp: active_calls_def)
qed simp

lemma active_ok_cong:
  "active_ok s \<Longrightarrow> activeTTLJoins s' = activeTTLJoins s \<Longrightarrow> stopCompletion s' = stopCompletion s \<Longrightarrow>
   call_ttls s' = call_ttls s \<Longrightarrow> call_states s' = call_states s \<Longrightarrow> active_ok s'"
  by (auto simp: active_ok_def)

lemma active_ok_quiet: "active_ok s \<Longrightarrow> quiet s s' \<Longrightarrow> active_ok s'"
  by (erule active_ok_cong) (simp_all add: quiet_fields quiet_columns call_ttls_def)

lemma active_ok_move:
  assumes "active_ok s" and "c < length (join_calls s)" and "is_active st = is_active (call_states s ! c)"
    and "call_states s' = (call_states s)[c := st]" and "call_ttls s' = call_ttls s"
    and "activeTTLJoins s' = activeTTLJoins s" and "stopCompletion s' = stopCompletion s"
  shows "active_ok s'"
  using assms active_calls_update [of "call_ttls s" "call_states s" c st]
  by (auto simp: active_ok_def call_ttls_def)

lemma call_ttls_set_call [simp]: "call_ttls (set_call c st s) = call_ttls s"
  by (cases "c < length (join_calls s)")
    (simp_all add: call_ttls_def set_call_def map_update list_update_same_conv list_update_beyond)

lemma call_ttls_simps [simp]:
  "call_ttls (on_item i f s) = call_ttls s" "call_ttls (removeAt s k i loc ev) = call_ttls s"
  by (simp_all add: call_ttls_def)

lemma active_ok_run_op:
  assumes "join_inv s" and "active_ok s"
  shows "active_ok (run_op w wall s i)"
proof (cases "i < length (join_items s) \<and> item_busy (join_items s ! i) = None")
  case i: True
  show ?thesis
  proof (cases "item_tail (join_items s ! i)")
    case (Cons op rest)
    show ?thesis
    proof (cases op)
      case (JoinOp c)
      then have "c < length (join_calls s)" "is_active (call_states s ! c)"
        using chain_member [of s i c] assms(1) i Cons by (auto simp: join_inv_def queue_def)
      then have "active_ok (set_call c Retrying (on_item i (\<lambda>it. it\<lparr>item_tail := rest\<rparr>) s))"
        using i by (intro active_ok_move [OF assms(2), of c Retrying]) (simp_all add: on_item_columns)
      moreover have "active_ok ((on_item i f s)\<lparr>invocations := xs, delivered := ys\<rparr>)" for f xs ys
        by (rule active_ok_cong [OF assms(2)]) (simp_all add: call_ttls_def call_states_def)
      ultimately show ?thesis using i Cons JoinOp by (simp add: run_op_def Let_def on_item_twice)
    next
      case (ExpireOp ctx)
      have on: "active_ok (on_item i f s)" for f
        by (rule active_ok_cong [OF assms(2)]) (simp_all add: call_ttls_def call_states_def)
      moreover have "active_ok ((on_item i f s)\<lparr>invocations := xs\<rparr>)" for f xs
        by (rule active_ok_cong [OF assms(2)]) (simp_all add: call_ttls_def call_states_def)
      moreover have "active_ok (armDeadline w ctx (cancelDeadline (on_item i f s) i) i)" for f
        using active_ok_quiet [OF active_ok_quiet [OF on quiet_cancelDeadline] quiet_armDeadline] .
      ultimately show ?thesis using i Cons ExpireOp by (simp add: run_op_def Let_def on_item_twice)
    qed
  qed (use assms(2) i in \<open>simp add: run_op_def\<close>)
qed (use assms(2) in \<open>auto simp: run_op_def Let_def\<close>)

text \<open>The end of an active call: the last one releases a pending stop.\<close>

lemma active_ok_finish:
  assumes "active_ok s" and "c < length (join_calls s)" and "is_active (call_states s ! c)" and "is_settled st"
  shows "active_ok (finish_call s c st)"
proof -
  have st: "\<not> is_active st" using assms(4) by (cases st) simp_all
  have u: "active_calls (call_ttls s) ((call_states s)[c := st]) =
      active_calls (call_ttls s) (call_states s) - of_bool (call_ttl (join_calls s ! c) > 0)"
    using active_calls_update [of "call_ttls s" "call_states s" c st] assms(2,3) st by (simp add: call_ttls_def)
  have c: "call_ttls (finish_call s c st) = call_ttls s" "call_states (finish_call s c st) = (call_states s)[c := st]"
    using call_ttls_set_call [of c st s]
    by (simp add: finish_call_def Let_def call_ttls_def) (rule finish_call_fields(8))
  show ?thesis
    using assms(1) active_calls_nonneg [of "call_ttls s" "(call_states s)[c := st]"]
    unfolding active_ok_def c u by (auto simp: finish_call_def Let_def)
qed

lemma active_ok_settle_op:
  assumes "join_inv s" and "active_ok s"
  shows "active_ok (settle_op w wall s i r)"
proof (cases "i < length (join_items s)")
  case i: True
  note d = idle_columns [OF i]
  have idle: "active_ok (idle s i)" by (rule active_ok_cong [OF assms(2)]) (simp_all add: d call_ttls_def)
  show ?thesis
  proof (cases "item_busy (join_items s ! i)")
    case (Some op)
    show ?thesis
    proof (cases op)
      case (JoinOp c)
      then have c: "c < length (join_calls s)" "is_active (call_states s ! c)" "call_key (join_calls s ! c) = item_key (join_items s ! i)"
        using chain_member [of s i c] assms(1) i Some by (auto simp: join_inv_def queue_def busy_call_def)
      then have k: "call_key (join_calls (idle s i) ! c) = item_key (join_items (idle s i) ! i)" by (simp add: d)
      have j: "call_states (join_settled w wall (idle s i) i c a) = call_states s" "join_calls (join_settled w wall (idle s i) i c a) = join_calls s" for a
        using join_settled_columns(6) [OF _ k, where w = w and wall = wall and answer = a] i by (simp_all add: d call_states_def)
      have "active_ok (join_settled w wall (idle s i) i c a)" for a
        by (rule active_ok_cong [OF idle])
          (use j join_settled_columns(8,9) [OF _ k, where w = w and wall = wall and answer = a] i in \<open>simp_all add: d call_ttls_def\<close>)
      then have "active_ok (finish_call (join_settled w wall (idle s i) i c a) c Returned)" for a
        using c by (intro active_ok_finish) (simp_all add: j)
      moreover have "active_ok (finish_call (idle s i) c (Threw e))" for e
        using c by (intro active_ok_finish [OF idle]) (simp_all add: d)
      ultimately show ?thesis using i Some JoinOp by (cases r) (simp_all add: settle_op_def flip: idle_def)
    next
      case (ExpireOp ctx)
      have rm: "active_ok (removeAt (idle s i) k i loc True)" for k loc
        by (rule active_ok_cong [OF idle]) simp_all
      have "active_ok (x\<lparr>unhandled := es\<rparr>)" if "active_ok x" for es and x :: "('a, 'b) JoinStorage"
        by (rule active_ok_cong [OF that]) (simp_all add: call_ttls_def call_states_def)
      with rm idle i Some ExpireOp show ?thesis
        by (cases r) (simp_all add: settle_op_def Let_def flip: idle_def split: option.split)
    qed
  qed (use assms(2) i in \<open>simp add: settle_op_def\<close>)
qed (use assms(2) in \<open>simp add: settle_op_def\<close>)


section \<open>Every run\<close>

lemma plain_step:
  assumes "join_inv s \<and> active_ok s"
  shows "join_inv (s\<lparr>config_ttlMs := t, config_renewTTL := r\<rparr>) \<and> active_ok (s\<lparr>config_ttlMs := t, config_renewTTL := r\<rparr>)"
    "join_inv (s\<lparr>join_started := b\<rparr>) \<and> active_ok (s\<lparr>join_started := b\<rparr>)"
    "join_inv (s\<lparr>rotationTimer := b\<rparr>) \<and> active_ok (s\<lparr>rotationTimer := b\<rparr>)"
  using assms by (auto intro: join_inv_cong active_ok_cong simp: column_defs call_states_def call_data_def call_ttls_def)

lemma join_inv_rotate:
  assumes "join_inv s \<and> active_ok s"
  shows "join_inv (join_rotate s) \<and> active_ok (join_rotate s)"
proof -
  have m: "maps_ok s" using assms by (simp add: join_inv_def)
  then have g: "gens_ok (join_current s) (join_previous s) (item_keys s)" by (simp add: maps_ok_def)
  have d: "jm_get (join_current s @ join_previous s) k = (case jm_get (join_current s) k of None \<Rightarrow> jm_get (join_previous s) k | Some i \<Rightarrow> Some i)" for k
    by (simp add: jm_get_def map_add_def split: option.split)
  have u: "unfiled (join_rotate s) i" if "unfiled s i" for i
    using join_rotate_shape [OF g] that d by (auto simp: unfiled_def split: option.splits)
  have cols: "queues (join_rotate s) = queues s" "busies (join_rotate s) = busies s" "phases (join_rotate s) = phases s"
    "groups (join_rotate s) = groups s" "item_keys (join_rotate s) = item_keys s" "call_states (join_rotate s) = call_states s"
    "call_data (join_rotate s) = call_data s" "delivered (join_rotate s) = delivered s" "call_ttls (join_rotate s) = call_ttls s"
    "activeTTLJoins (join_rotate s) = activeTTLJoins s" "stopCompletion (join_rotate s) = stopCompletion s"
    "join_items (join_rotate s) = join_items s" "join_calls (join_rotate s) = join_calls s"
    using join_rotate_shape [OF g] by (auto simp: column_defs call_states_def call_data_def call_ttls_def)
  have "phases_ok (join_rotate s)"
    using assms u phase_ok_mono unfolding join_inv_def phases_ok_def cols by blast
  with assms maps_ok_rotate [OF m] cols show ?thesis
    by (auto simp: join_inv_def calls_ok_def values_ok_def delivered_to_def active_ok_def)
qed

lemma join_inv_admit:
  assumes "join_inv s" and "active_ok s" and "c < length (join_calls s)" and "call_states s ! c = AwaitingStop"
    and "call_ttl (join_calls s ! c) > 0 \<Longrightarrow> stopCompletion s \<noteq> Some False"
  shows "join_inv (admit w wall s c) \<and> active_ok (admit w wall s c)"
proof -
  define s1 where "s1 = (if call_ttl (join_calls s ! c) > 0 then s\<lparr>activeTTLJoins := activeTTLJoins s + 1\<rparr> else s)"
  have f: "join_calls s1 = join_calls s" "call_states s1 = call_states s" "stopCompletion s1 = stopCompletion s" "call_ttls s1 = call_ttls s"
    "activeTTLJoins s1 = activeTTLJoins s + of_bool (call_ttl (join_calls s ! c) > 0)"
    by (simp_all add: s1_def call_states_def call_ttls_def)
  have "join_inv s1"
    by (rule join_inv_cong [OF assms(1)]) (simp_all add: s1_def column_defs call_states_def call_data_def)
  note t = join_inv_loop_turn [OF this, of c w wall] and a = admit_def [of w wall s c, folded s1_def]
  obtain i where "call_states (admit w wall s c) = (call_states s)[c := Queued i]" using t(2) assms(3,4) f a by auto
  moreover have "call_ttls (admit w wall s c) = call_ttls s" using t(5) assms(3,4) f a by (simp add: call_ttls_def)
  ultimately have "active_ok (admit w wall s c)"
    using assms(2-5) t(3,4) f a active_calls_update [of "call_ttls s" "call_states s" c "Queued i"]
    by (auto simp: active_ok_def call_ttls_def)
  then show ?thesis using t(1) assms(3,4) f a by simp
qed

lemma join_inv_retried:
  assumes "join_inv s" and "active_ok s" and "c < length (join_calls s)" and "call_states s ! c = Retrying"
  shows "join_inv (loop_turn w wall s c) \<and> active_ok (loop_turn w wall s c)"
proof -
  have n: "\<not> is_queued (call_states s ! c)" "\<not> is_settled (call_states s ! c)" using assms(4) by simp_all
  note t = join_inv_loop_turn [OF assms(1,3) n, of w wall]
  obtain i where "call_states (loop_turn w wall s c) = (call_states s)[c := Queued i]" using t(2) ..
  then have "active_ok (loop_turn w wall s c)"
    by (intro active_ok_move [OF assms(2,3), of "Queued i"]) (use assms(4) t(3-5) in \<open>simp_all add: call_ttls_def\<close>)
  with t(1) show ?thesis ..
qed

lemma join_inv_joinValue:
  assumes "join_inv s \<and> active_ok s"
  shows "join_inv (fst (joinValue w wall s ctx k index v cb)) \<and> active_ok (fst (joinValue w wall s ctx k index v cb))"
proof (cases "snd (joinValue w wall s ctx k index v cb)")
  case None
  define idx where "idx = (case index of Finite q \<Rightarrow> nat (fst (quotient_of q)) | _ \<Rightarrow> 0)"
  define cl where "cl = \<lparr>call_context = ctx, call_key = k, call_index = idx, call_value = v, call_callback = cb,
    call_ttl = effectiveTTL w s ctx, call_renew = config_renewTTL s, call_state = AwaitingStop\<rparr>"
  define s1 where "s1 = s\<lparr>join_calls := join_calls s @ [cl]\<rparr>"
  have e: "fst (joinValue w wall s ctx k index v cb) =
      (if effectiveTTL w s ctx > 0 \<and> stopCompletion s \<noteq> None then s1 else admit w wall s1 (length (join_calls s)))"
    using None by (auto simp: joinValue_def idx_def cl_def s1_def Let_def split: number.splits if_splits)
  have i1: "join_inv s1" unfolding s1_def using assms by (intro join_inv_new_call) (simp_all add: cl_def)
  have "active_calls (call_ttls s1) (call_states s1) = active_calls (call_ttls s) (call_states s)"
    by (simp add: active_calls_def s1_def cl_def call_ttls_def call_states_def)
  then have a1: "active_ok s1" using assms by (auto simp: active_ok_def s1_def)
  show ?thesis
    unfolding e using i1 a1 join_inv_admit [OF i1 a1, of "length (join_calls s)" w wall]
    by (auto simp: s1_def cl_def call_states_def nth_append)
next
  case (Some e)
  then have "fst (joinValue w wall s ctx k index v cb) = s"
    by (auto simp: joinValue_def Let_def split: number.splits if_splits)
  with assms show ?thesis by simp
qed

lemma join_inv_step:
  assumes "join_inv s \<and> active_ok s"
  shows "join_inv (join_step s e) \<and> active_ok (join_step s e)"
proof (cases "(s, e)" rule: join_step.cases)
  case (1 s' w wall ctx k index v cb)
  then show ?thesis using join_inv_joinValue [OF assms] by simp
next
  case (2 s' w wall c)
  then show ?thesis
    using assms join_inv_admit [of s c w wall] join_inv_retried [of s c w wall]
    by (cases "call_state (join_calls s ! c)") (simp_all add: call_states_def)
next
  case (3 s' w wall i)
  then show ?thesis using join_inv_run_op [of s w wall i] active_ok_run_op [of s w wall i] assms by simp
next
  case (4 s' w wall i r)
  then show ?thesis using join_inv_settle_op [of s w wall i r] active_ok_settle_op [of s w wall i r] assms by simp
next
  case (5 s' w wall i)
  then show ?thesis using join_inv_quiet [OF _ quiet_expire] active_ok_quiet [OF _ quiet_expire] assms by auto
next
  case (6 s' w wall)
  then show ?thesis
    using assms plain_step(3) [OF join_inv_rotate [OF plain_step(3) [OF assms, of False]], of True] join_inv_rotate [OF plain_step(3) [OF assms, of False]]
    by (simp add: rotation_fired_def armRotation_def)
next
  case (7 s' w wall)
  then show ?thesis
    using assms plain_step(2) [OF assms, of True] plain_step(3) [OF plain_step(2) [OF assms, of True], of True]
    by (simp add: join_start_def armRotation_def)
next
  case (8 s' w wall)
  have "join_inv (join_stop s)"
    by (rule join_inv_cong [OF conjunct1 [OF assms]]) (simp_all add: join_stop_def column_defs call_states_def call_data_def)
  moreover have "active_ok (join_stop s)"
    using assms active_calls_nonneg [of "call_ttls s" "call_states s"]
    by (auto simp: join_stop_def active_ok_def call_ttls_def call_states_def)
  ultimately show ?thesis using 8 by simp
next
  case (9 s' w wall t r)
  then show ?thesis using plain_step(1) [OF assms] by simp
qed

lemma join_inv_run: "join_inv s \<and> active_ok s \<Longrightarrow> join_inv (join_run s evs) \<and> active_ok (join_run s evs)"
  unfolding join_run_def by (induction evs arbitrary: s) (simp_all add: join_inv_step)

lemma join_inv_new: "join_inv (join_new ttl renew enabled) \<and> active_ok (join_new ttl renew enabled)"
  by (simp add: join_new_def join_inv_def maps_ok_def gens_ok_def calls_ok_def chained_def history_ok_def values_ok_def phases_ok_def
      active_ok_def active_calls_def join_size_def column_defs call_states_def call_data_def call_ttls_def)


section \<open>Completed groups\<close>

text \<open>What stays of an item between two states: its values, its phase and the callbacks invoked for it.\<close>

definition keeps :: "nat \<Rightarrow> ('k, 'v) JoinStorage \<Rightarrow> ('k, 'v) JoinStorage \<Rightarrow> bool" where
  "keeps i s s' \<longleftrightarrow> i < length (join_items s') \<and> phases s' ! i = phases s ! i \<and> groups s' ! i = groups s ! i \<and>
     filter (\<lambda>p. fst p = i) (invocations s') = filter (\<lambda>p. fst p = i) (invocations s)"

lemma keeps_refl: "i < length (join_items s) \<Longrightarrow> keeps i s s"
  by (simp add: keeps_def)

lemma keeps_trans: "keeps i s s' \<Longrightarrow> keeps i s' s'' \<Longrightarrow> keeps i s s''"
  by (simp add: keeps_def)

lemma keeps_quiet: "i < length (join_items s) \<Longrightarrow> quiet s s' \<Longrightarrow> keeps i s s'"
  by (simp add: keeps_def quiet_fields quiet_columns)

lemma keeps_cong:
  "i < length (join_items s) \<Longrightarrow> join_items s' = join_items s \<Longrightarrow> invocations s' = invocations s \<Longrightarrow> keeps i s s'"
  by (simp add: keeps_def phases_def groups_def)

lemma keeps_on_item:
  assumes "i < length (join_items s)" and "j \<noteq> i \<or> (let it = join_items s ! i in
    item_processed (f it) = item_processed it \<and> item_busy (f it) = item_busy it \<and> item_values (f it) = item_values it)"
  shows "keeps i s (on_item j f s)"
proof (cases "j = i")
  case True
  with assms show ?thesis by (simp add: keeps_def on_item_columns column_nth Let_def)
next
  case False
  with assms(1) show ?thesis by (simp add: keeps_def phases_def groups_def on_item_def)
qed

lemma keeps_createItem: "createItem w wall s c = (s', j) \<Longrightarrow> i < length (join_items s) \<Longrightarrow> keeps i s s'"
proof (erule createItem_shape)
  fix s3 it
  assume "quiet s3 s'" "join_items s3 = join_items s @ [it]" "invocations s3 = invocations s" "i < length (join_items s)"
  then have "keeps i s s3" by (simp add: keeps_def phases_def groups_def nth_append)
  then show "keeps i s s'" using keeps_trans [OF _ keeps_quiet [OF _ \<open>quiet s3 s'\<close>]] by (simp add: keeps_def)
qed

lemma keeps_loop_turn: "i < length (join_items s) \<Longrightarrow> keeps i s (loop_turn w wall s c)"
proof -
  assume i: "i < length (join_items s)"
  have chain: "keeps i s1 (set_call c (Queued j) (on_item j (\<lambda>it. it\<lparr>item_tail := item_tail it @ [JoinOp c]\<rparr>) s1))"
    if "i < length (join_items s1)" for j and s1 :: "('a, 'b) JoinStorage"
  proof -
    let ?on = "on_item j (\<lambda>it. it\<lparr>item_tail := item_tail it @ [JoinOp c]\<rparr>) s1"
    have "keeps i s1 ?on" using that by (intro keeps_on_item) simp_all
    moreover have "keeps i ?on (set_call c (Queued j) ?on)" using that by (intro keeps_cong) simp_all
    ultimately show ?thesis by (rule keeps_trans)
  qed
  show "keeps i s (loop_turn w wall s c)"
  proof (cases "findLive wall s (call_key (join_calls s ! c))")
    case None
    obtain s1 j where c: "createItem w wall s (join_calls s ! c) = (s1, j)" by force
    note k = keeps_createItem [OF c i]
    then have "i < length (join_items s1)" by (simp add: keeps_def)
    from keeps_trans [OF k chain [OF this, of j]] None c show ?thesis by (simp add: loop_turn_def)
  qed (use chain [OF i] in \<open>simp add: loop_turn_def\<close>)
qed


text \<open>An item that is processed and has no callback pending is complete.\<close>

definition completed :: "('k, 'v) JoinStorage \<Rightarrow> nat \<Rightarrow> bool" where
  "completed s i \<longleftrightarrow> i < length (join_items s) \<and> item_processed (join_items s ! i) \<and> item_busy (join_items s ! i) = None"

lemma completed_phase: "completed s i \<longleftrightarrow> i < length (join_items s) \<and> phases s ! i = (True, None)"
  by (auto simp: completed_def column_nth)

lemma keeps_run_op:
  assumes "completed s i"
  shows "keeps i s (run_op w wall s j)"
proof (cases "j < length (join_items s) \<and> item_busy (join_items s ! j) = None")
  case j: True
  have i: "i < length (join_items s)" using assms by (simp add: completed_def)
  have drop: "keeps i s (on_item j (\<lambda>it. it\<lparr>item_tail := rest\<rparr>) s)" for rest
    using i by (intro keeps_on_item) simp_all
  have other: "keeps i s (on_item j f s)" if "j \<noteq> i" for f using i that by (intro keeps_on_item) simp_all
  have retry: "keeps i s (set_call c st (on_item j (\<lambda>it. it\<lparr>item_tail := rest\<rparr>) s))" for c st rest
    by (rule keeps_trans [OF drop keeps_cong]) (use i in simp_all)
  have more: "keeps i s ((on_item j f s)\<lparr>invocations := invocations s @ [(j, cb)]\<rparr>)" if "j \<noteq> i" for f cb
    using other [OF that, of f] that by (simp add: keeps_def phases_def groups_def)
  have more': "keeps i s ((on_item j f s)\<lparr>invocations := invocations s @ [(j, cb)], delivered := dl\<rparr>)" if "j \<noteq> i" for f cb dl
    using other [OF that, of f] that by (simp add: keeps_def phases_def groups_def)
  have arm: "keeps i s (armDeadline w ctx (cancelDeadline (on_item j (\<lambda>it. it\<lparr>item_tail := rest\<rparr>) s) j) j)" for ctx rest
    by (rule keeps_trans [OF drop keeps_quiet [OF _ quiet_trans [OF quiet_cancelDeadline quiet_armDeadline]]]) (use i in simp)
  show ?thesis
  proof (cases "item_tail (join_items s ! j)")
    case Nil
    then show ?thesis using j i by (simp add: run_op_def keeps_refl)
  next
    case (Cons op rest)
    have p: "j = i \<Longrightarrow> item_processed (join_items s ! j)" using assms by (simp add: completed_def)
    show ?thesis
    proof (cases op)
      case (JoinOp c)
      then show ?thesis using Cons j p retry more' by (cases "j = i") (simp_all add: run_op_def Let_def on_item_twice)
    next
      case (ExpireOp ctx)
      then show ?thesis using Cons j p drop more arm by (cases "j = i") (simp_all add: run_op_def Let_def on_item_twice)
    qed
  qed
next
  case False
  then show ?thesis using assms by (auto simp: run_op_def Let_def completed_def intro: keeps_refl)
qed

lemma keeps_settle_op:
  assumes "join_inv s" and "completed s i"
  shows "keeps i s (settle_op w wall s j r)"
proof (cases "j < length (join_items s) \<and> item_busy (join_items s ! j) \<noteq> None")
  case False
  then show ?thesis using assms(2) by (auto simp: settle_op_def completed_def intro: keeps_refl)
next
  case True
  then have j: "j < length (join_items s)" and i: "i < length (join_items s)" and n: "j \<noteq> i"
    using assms(2) by (auto simp: completed_def)
  note d = idle_columns [OF j]
  have idle: "keeps i s (idle s j)" unfolding idle_def using i n by (intro keeps_on_item) simp_all
  from True obtain op where b: "item_busy (join_items s ! j) = Some op" by blast
  show ?thesis
  proof (cases op)
    case (JoinOp c)
    then have k: "call_key (join_calls (idle s j) ! c) = item_key (join_items (idle s j) ! j)"
      using chain_member(3) [of s j c] assms(1) j b by (simp add: d join_inv_def queue_def busy_call_def)
    have "keeps i (idle s j) (join_settled w wall (idle s j) j c a)" for a
      using join_settled_columns [OF _ k, where w = w and wall = wall and answer = a] j i n column_lengths(3)
      by (simp add: keeps_def d) (metis column_lengths(3) d(11) length_list_update)
    moreover have "keeps i x (finish_call x c st)" if "i < length (join_items x)" for x :: "('a, 'b) JoinStorage" and st
      using that by (intro keeps_cong) (simp_all add: finish_call_fields)
    ultimately have "keeps i s (finish_call (join_settled w wall (idle s j) j c a) c Returned)" "keeps i s (finish_call (idle s j) c (Threw e))" for a e
      using idle keeps_trans by (metis keeps_def)+
    then show ?thesis using j b JoinOp by (cases r) (simp_all add: settle_op_def flip: idle_def)
  next
    case (ExpireOp ctx)
    have "keeps i s (removeAt (idle s j) k j loc True)" for k loc
      by (rule keeps_trans [OF idle keeps_cong]) (use i d in simp_all)
    moreover have "keeps i s (x\<lparr>unhandled := es\<rparr>)" if "keeps i s x" for x es
      using that by (simp add: keeps_def phases_def groups_def)
    ultimately show ?thesis
      using j b ExpireOp idle by (cases r) (simp_all add: settle_op_def Let_def flip: idle_def split: option.split)
  qed
qed


lemma keeps_step:
  assumes "join_inv s" and "completed s i"
  shows "keeps i s (join_step s e)"
proof -
  have i: "i < length (join_items s)" using assms(2) by (simp add: completed_def)
  have admit: "keeps i x (admit w wall x c)" if "i < length (join_items x)" for w wall c and x :: "('a, 'b) JoinStorage"
  proof -
    let ?y = "if call_ttl (join_calls x ! c) > 0 then x\<lparr>activeTTLJoins := activeTTLJoins x + 1\<rparr> else x"
    have "keeps i x ?y" "i < length (join_items ?y)" using that by (auto intro: keeps_cong)
    then show ?thesis unfolding admit_def by (blast intro: keeps_trans keeps_loop_turn)
  qed
  have g: "gens_ok (join_current s) (join_previous s) (item_keys s)" using assms(1) by (simp add: join_inv_def maps_ok_def)
  show ?thesis
  proof (cases "(s, e)" rule: join_step.cases)
    case (1 s' w wall ctx k index v cb)
    let ?app = "\<lambda>cl. s\<lparr>join_calls := join_calls s @ [cl]\<rparr>"
    have "keeps i s (?app cl)" for cl using i by (intro keeps_cong) simp_all
    moreover from this have "keeps i s (admit w wall (?app cl) c)" for cl c using i by (intro keeps_trans [OF _ admit]) simp_all
    ultimately show ?thesis using 1 i keeps_refl by (auto simp: joinValue_def Let_def split: number.split)
  next
    case (2 s' w wall c)
    then show ?thesis using i admit keeps_loop_turn keeps_refl by (auto split: call_state.split)
  next
    case (6 s' w wall)
    have "keeps i s (join_rotate (s\<lparr>rotationTimer := False\<rparr>))"
      using join_rotate_shape [of "s\<lparr>rotationTimer := False\<rparr>" "item_keys s"] g i by (intro keeps_cong) auto
    moreover have "keeps i x (armRotation x)" if "i < length (join_items x)" for x :: "('a, 'b) JoinStorage"
      using that by (intro keeps_cong) (simp_all add: armRotation_def)
    ultimately have "keeps i s (armRotation (join_rotate (s\<lparr>rotationTimer := False\<rparr>)))"
      by (blast intro: keeps_trans dest: keeps_def [THEN iffD1])
    then show ?thesis using 6 keeps_refl [OF i] by (auto simp: rotation_fired_def)
  next
    case (7 s' w wall)
    then show ?thesis using i keeps_refl by (auto simp: join_start_def armRotation_def intro: keeps_cong)
  next
    case (8 s' w wall)
    then show ?thesis using i keeps_refl by (auto simp: join_stop_def intro: keeps_cong)
  next
    case (9 s' w wall ttl renew)
    then show ?thesis using i by (auto intro: keeps_cong)
  qed (use assms i keeps_run_op keeps_settle_op keeps_quiet [OF i quiet_expire] keeps_refl in auto)
qed

lemma keeps_run:
  "join_inv s \<and> active_ok s \<Longrightarrow> completed s i \<Longrightarrow> keeps i s (join_run s evs) \<and> completed (join_run s evs) i"
proof (induction evs arbitrary: s)
  case Nil
  then show ?case by (simp add: join_run_def completed_def keeps_refl)
next
  case (Cons e evs)
  have k: "keeps i s (join_step s e)" using Cons.prems by (intro keeps_step) simp_all
  with Cons.prems(2) have "completed (join_step s e) i" by (simp add: keeps_def completed_phase)
  with Cons.IH [OF join_inv_step [OF Cons.prems(1)]] k keeps_trans [OF k] show ?case by (simp add: join_run_def)
qed

section \<open>Properties\<close>

text \<open>
  C20. After any sequence of calls, event-loop turns, settled callbacks, timers and aborts: the
  generations share no key, and every stored item is the one of its key; the gauge shows the number
  of stored groups; \<open>activeTTLJoins\<close> counts the calls with a time to live that are under way; and the
  promise of \<open>stop\<close> is pending only while there is one.
\<close>

theorem join_storage_invariant:
  fixes evs :: "(world \<times> millis \<times> ('k, 'v) join_event) list"
  assumes "s = join_run (join_new ttl renew enabled) evs"
  shows "distinct (jm_keys (join_current s @ join_previous s)) \<and>
    (\<forall>k i. jm_get (join_current s) k = Some i \<or> jm_get (join_previous s) k = Some i \<longrightarrow>
       i < length (join_items s) \<and> item_key (join_items s ! i) = k) \<and>
    (metricsEnabled s \<longrightarrow> join_count s = int (join_size s)) \<and>
    activeTTLJoins s = int (length (filter (\<lambda>c. call_ttl c > 0 \<and> is_active (call_state c)) (join_calls s))) \<and>
    (stopCompletion s = Some False \<longrightarrow> activeTTLJoins s > 0)"
proof -
  have ok: "maps_ok s" "active_ok s" using join_inv_run [OF join_inv_new] unfolding assms join_inv_def by blast+
  then have g: "gens_ok (join_current s) (join_previous s) (item_keys s)" by (simp add: maps_ok_def)
  have "activeTTLJoins s = int (length (filter (\<lambda>c. call_ttl c > 0 \<and> is_active (call_state c)) (join_calls s)))"
    using ok(2) by (simp add: active_ok_def active_calls_def call_ttls_def call_states_def zip_map_map zip_same_conv_map filter_map o_def)
  moreover have "i < length (join_items s) \<and> item_key (join_items s ! i) = k"
    if "jm_get (join_current s) k = Some i \<or> jm_get (join_previous s) k = Some i" for k i
    using g that unfolding gens_ok_def by (metis column_lengths(5) column_nth(5))
  ultimately show ?thesis
    using gens_distinct [OF g] ok unfolding maps_ok_def active_ok_def by blast
qed

text \<open>
  C18. After any such sequence, no call was delivered twice and every call that returned was delivered;
  each call was delivered to a group of its own key; and what a group holds under an index is exactly
  the values of the calls delivered to it with that index, in the order of their delivery.
\<close>

theorem join_delivery:
  fixes evs :: "(world \<times> millis \<times> ('k, 'v) join_event) list"
  assumes "s = join_run (join_new ttl renew enabled) evs"
  shows "distinct (map fst (delivered s)) \<and>
    (\<forall>c<length (join_calls s). call_state (join_calls s ! c) = Returned \<longrightarrow> c \<in> fst ` set (delivered s)) \<and>
    (\<forall>(c, i) \<in> set (delivered s). c < length (join_calls s) \<and> i < length (join_items s) \<and>
       item_key (join_items s ! i) = call_key (join_calls s ! c)) \<and>
    (\<forall>i<length (join_items s). \<forall>j. values_at (item_values (join_items s ! i)) j =
       map (\<lambda>c. call_value (join_calls s ! c))
         (filter (\<lambda>c. call_index (join_calls s ! c) = j) (delivered_to s i)))"
proof -
  have ok: "calls_ok s" "values_ok s" using join_inv_run [OF join_inv_new] unfolding assms join_inv_def by blast+
  have data: "call_data s ! c = (call_key (join_calls s ! c), call_index (join_calls s ! c), call_value (join_calls s ! c))"
    if "c < length (join_calls s)" for c using that by (simp add: call_data_def)
  have "c < length (join_calls s) \<and> i < length (join_items s) \<and> item_key (join_items s ! i) = call_key (join_calls s ! c)"
    if "(c, i) \<in> set (delivered s)" for c i
    using delivered_filed [OF ok(1) that] data column_nth(5) [of i s] by simp
  moreover have "values_at (item_values (join_items s ! i)) j =
      map (\<lambda>c. call_value (join_calls s ! c)) (filter (\<lambda>c. call_index (join_calls s ! c) = j) (delivered_to s i))"
    if "i < length (join_items s)" for i j
  proof -
    have "brought (call_data s) (delivered_to s i) j =
        map (\<lambda>c. call_value (join_calls s ! c)) (filter (\<lambda>c. call_index (join_calls s ! c) = j) (delivered_to s i))"
      unfolding brought_def using data delivered_bounds(1) [OF ok(1)] by (intro map_cong filter_cong) auto
    with ok(2) that show ?thesis by (simp add: values_ok_def column_nth(4))
  qed
  moreover have "c \<in> fst ` set (delivered s)" if "c < length (join_calls s)" "call_state (join_calls s ! c) = Returned" for c
    using ok(1) that by (simp add: calls_ok_def history_ok_def call_states_def)
  moreover have "distinct (map fst (delivered s))" using ok(1) by (simp add: calls_ok_def history_ok_def)
  ultimately show ?thesis by blast
qed

text \<open>
  C19. A group is completed once: when an item is processed, by an accepting callback or by its expiry,
  and no callback of it is pending, it is stored no more, and whatever happens afterwards no callback
  is invoked for it again and its values do not change.
\<close>

theorem join_group_completed:
  fixes evs :: "(world \<times> millis \<times> ('k, 'v) join_event) list"
  assumes "i < length (join_items s)" and "item_processed (join_items s ! i)" and "item_busy (join_items s ! i) = None"
    and "s = join_run (join_new ttl renew enabled) evs" and "s' = join_run s later"
  shows "(\<forall>k. locate s' k i = None) \<and> item_processed (join_items s' ! i) \<and>
    item_values (join_items s' ! i) = item_values (join_items s ! i) \<and>
    filter (\<lambda>p. fst p = i) (invocations s') = filter (\<lambda>p. fst p = i) (invocations s)"
proof -
  have s: "join_inv s \<and> active_ok s" using join_inv_run [OF join_inv_new] assms(4) by simp
  have k: "keeps i s s'" "completed s' i" using keeps_run [OF s, of i later] assms(1-3,5) by (simp_all add: completed_def)
  have "phases_ok s'" using join_inv_run [OF s, of later] assms(5) by (simp add: join_inv_def)
  with k(2) have "unfiled s' i" by (auto simp: phases_ok_def completed_phase)
  then show ?thesis
    using k assms(1) by (auto simp: keeps_def column_nth completed_def unfiled_def locate_def)
qed


section \<open>A join under an aborted context\<close>

text \<open>
  The shapes of the items while the only call is one under a context with a deadline whose signal is
  aborted: a new item is expired before the call reaches it.
\<close>

definition spin_shape :: "context_state \<Rightarrow> bool \<Rightarrow> ('k, 'v) item \<Rightarrow> bool" where
  "spin_shape ctx queued it \<longleftrightarrow> item_armed it = None \<and>
     (if queued
      then item_tail it = [ExpireOp ctx, JoinOp 0] \<and> item_busy it = None \<and> \<not> item_processed it \<or>
           item_tail it = [JoinOp 0] \<and> item_processed it \<and> (item_busy it = None \<or> item_busy it = Some (ExpireOp ctx))
      else item_tail it = [] \<and> item_busy it = None \<and> item_processed it)"

definition spinning :: "context_state \<Rightarrow> ('k, 'v) JoinStorage \<Rightarrow> bool" where
  "spinning ctx s \<longleftrightarrow> join_inv s \<and> active_ok s \<and> delivered s = [] \<and> stopCompletion s \<noteq> Some True \<and>
     (\<exists>cl. join_calls s = [cl] \<and> call_context cl = ctx \<and> call_ttl cl > 0 \<and> is_active (call_state cl) \<and>
        (\<forall>i<length (join_items s). spin_shape ctx (call_state cl = Queued i) (join_items s ! i)))"

lemma spinningE:
  assumes "spinning ctx s"
  obtains cl where "join_calls s = [cl]" "call_context cl = ctx" "call_ttl cl > 0" "is_active (call_state cl)"
    "\<And>i. i < length (join_items s) \<Longrightarrow> spin_shape ctx (call_state cl = Queued i) (join_items s ! i)"
    "join_inv s" "active_ok s" "delivered s = []" "stopCompletion s \<noteq> Some True"
  using assms unfolding spinning_def by blast

lemma spinning_same:
  assumes "spinning ctx s" and "join_inv s' \<and> active_ok s'" and "delivered s' = delivered s"
    and "join_calls s' = join_calls s" and "join_items s' = join_items s" and "stopCompletion s' \<noteq> Some True"
  shows "spinning ctx s'"
  using assms unfolding spinning_def by simp

text \<open>A new item under the aborted context: its expiry is chained at once.\<close>

lemma createItem_aborted:
  assumes "ctx_deadline (call_context c) \<noteq> None" and "signal_aborted w (ctx_signal (call_context c))" and "call_ttl c > 0"
  obtains s' it where "createItem w wall s c = (s', length (join_items s))" "join_items s' = join_items s @ [it]"
    "item_armed it = None" "item_tail it = [ExpireOp (call_context c)]" "item_busy it = None" "\<not> item_processed it"
    "join_calls s' = join_calls s" "delivered s' = delivered s" "stopCompletion s' = stopCompletion s"
proof -
  obtain s' i where c: "createItem w wall s c = (s', i)" by force
  note n = createItem_new [OF c]
  have "\<exists>it. join_items s' = join_items s @ [it] \<and> item_armed it = None \<and> item_tail it = [ExpireOp (call_context c)] \<and>
      item_busy it = None \<and> \<not> item_processed it"
    using c assms by (auto simp: createItem_def Let_def armDeadline_def expire_def on_item_def nth_append list_update_append with_count_def split: if_splits)
  then show thesis using c n that by blast
qed

lemma spinning_no_live:
  assumes "spinning ctx s" and "join_calls s = [cl]" and "call_state cl = Retrying"
  shows "findLive wall s k = None"
proof (cases "findLive wall s k")
  case (Some i)
  have ok: "maps_ok s" "phases_ok s" using assms(1) by (simp_all add: spinning_def join_inv_def)
  note f = findLive_filed [OF ok(1) Some]
  have "spin_shape ctx False (join_items s ! i)" using assms f(1) by (auto simp: spinning_def)
  then have "phases s ! i = (True, None)" using f(1) by (simp add: spin_shape_def column_nth)
  then have "unfiled s i" using ok(2) f(1) by (auto simp: phases_ok_def)
  with f(3) show ?thesis by (simp add: unfiled_def locate_def)
qed simp

lemma spinning_loop_turn:
  assumes "join_inv s" and "join_calls s = [cl]" and "call_context cl = ctx" and "call_ttl cl > 0"
    and "\<not> is_queued (call_state cl)" and "\<not> is_settled (call_state cl)" and "findLive wall s (call_key cl) = None"
    and "\<And>i. i < length (join_items s) \<Longrightarrow> spin_shape ctx False (join_items s ! i)"
    and "ctx_deadline ctx \<noteq> None" and "signal_aborted w (ctx_signal ctx)"
    and "active_ok (loop_turn w wall s 0)" and "delivered s = []" and "stopCompletion s \<noteq> Some True"
  shows "spinning ctx (loop_turn w wall s 0)"
proof -
  obtain s' it where c: "createItem w wall s cl = (s', length (join_items s))" and s': "join_items s' = join_items s @ [it]"
    "item_armed it = None" "item_tail it = [ExpireOp ctx]" "item_busy it = None" "\<not> item_processed it"
    "join_calls s' = join_calls s" "delivered s' = delivered s" "stopCompletion s' = stopCompletion s"
    using createItem_aborted [of cl w wall s] assms(3,4,9,10) by metis
  let ?i = "length (join_items s)"
  have t: "loop_turn w wall s 0 = set_call 0 (Queued ?i) (on_item ?i (\<lambda>it. it\<lparr>item_tail := item_tail it @ [JoinOp 0]\<rparr>) s')"
    using assms(2,7) c by (simp add: loop_turn_def)
  have calls: "join_calls (loop_turn w wall s 0) = [cl\<lparr>call_state := Queued ?i\<rparr>]" by (simp add: t set_call_def s' assms(2))
  have items: "join_items (loop_turn w wall s 0) = join_items s @ [it\<lparr>item_tail := [ExpireOp ctx, JoinOp 0]\<rparr>]"
    by (simp add: t on_item_def s' nth_append list_update_append)
  have "spin_shape ctx (Queued ?i = Queued i) ((join_items s @ [it\<lparr>item_tail := [ExpireOp ctx, JoinOp 0]\<rparr>]) ! i)" if "i \<le> ?i" for i
    using that assms(8) [of i] s' by (cases "i = ?i") (simp_all add: nth_append spin_shape_def)
  moreover have "join_inv (loop_turn w wall s 0)"
    using join_inv_loop_turn(1) [OF assms(1), of 0 w wall] assms(2,5,6) by (simp add: call_states_def)
  moreover have "delivered (loop_turn w wall s 0) = []" "stopCompletion (loop_turn w wall s 0) \<noteq> Some True"
    using assms(12,13) by (simp_all add: t s')
  ultimately show ?thesis using assms(3,4,11) by (simp add: spinning_def calls items less_Suc_eq_le)
qed


lemma spinning_run_op:
  assumes "spinning ctx s" and "ctx_deadline ctx \<noteq> None"
  shows "spinning ctx (run_op w wall s j)"
proof -
  obtain cl where cl: "join_calls s = [cl]" "call_context cl = ctx" "call_ttl cl > 0" "is_active (call_state cl)"
    and sh: "\<And>i. i < length (join_items s) \<Longrightarrow> spin_shape ctx (call_state cl = Queued i) (join_items s ! i)"
    and ok: "join_inv s" "active_ok s" "delivered s = []" "stopCompletion s \<noteq> Some True"
    using spinningE [OF assms(1)] by blast
  have inv: "join_inv (run_op w wall s j)" "active_ok (run_op w wall s j)"
    using join_inv_run_op active_ok_run_op ok by blast+
  consider (none) "run_op w wall s j = s"
    | (expiry) "j < length (join_items s)" "call_state cl = Queued j" "item_tail (join_items s ! j) = [ExpireOp ctx, JoinOp 0]"
        "item_busy (join_items s ! j) = None" "\<not> item_processed (join_items s ! j)"
    | (retry) "j < length (join_items s)" "call_state cl = Queued j" "item_tail (join_items s ! j) = [JoinOp 0]"
        "item_busy (join_items s ! j) = None" "item_processed (join_items s ! j)"
  proof (cases "j < length (join_items s) \<and> item_busy (join_items s ! j) = None")
    case True
    then show thesis
      using sh [of j] none expiry retry by (cases "call_state cl = Queued j") (auto simp: spin_shape_def run_op_def)
  next
    case False
    then show thesis by (intro none) (auto simp: run_op_def Let_def)
  qed
  then show ?thesis
  proof cases
    case none
    then show ?thesis using assms(1) by simp
  next
    case expiry
    let ?it = "(join_items s ! j)\<lparr>item_tail := [JoinOp 0], item_processed := True, item_busy := Some (ExpireOp ctx)\<rparr>"
    have r: "join_items (run_op w wall s j) = (join_items s)[j := ?it]" "join_calls (run_op w wall s j) = [cl]"
      "delivered (run_op w wall s j) = []" "stopCompletion (run_op w wall s j) = stopCompletion s"
      using expiry assms(2) cl ok by (auto simp: run_op_def Let_def on_item_def)
    have "spin_shape ctx (call_state cl = Queued i) ((join_items s)[j := ?it] ! i)" if "i < length (join_items s)" for i
      using sh [OF that] sh [of j] expiry that by (cases "i = j") (simp_all add: spin_shape_def)
    then show ?thesis using inv cl ok r by (simp add: spinning_def)
  next
    case retry
    have r: "join_items (run_op w wall s j) = (join_items s)[j := (join_items s ! j)\<lparr>item_tail := []\<rparr>]"
      "join_calls (run_op w wall s j) = [cl\<lparr>call_state := Retrying\<rparr>]"
      "delivered (run_op w wall s j) = []" "stopCompletion (run_op w wall s j) = stopCompletion s"
      using retry cl ok by (simp_all add: run_op_def Let_def on_item_def set_call_def)
    have "spin_shape ctx False ((join_items s)[j := (join_items s ! j)\<lparr>item_tail := []\<rparr>] ! i)" if "i < length (join_items s)" for i
      using sh [OF that] retry that by (cases "i = j") (simp_all add: spin_shape_def)
    then show ?thesis using inv cl ok r by (simp add: spinning_def)
  qed
qed

lemma spinning_settle_op:
  assumes "spinning ctx s"
  shows "spinning ctx (settle_op w wall s j r)"
proof (cases "j < length (join_items s) \<and> item_busy (join_items s ! j) \<noteq> None")
  case False
  then show ?thesis using assms by (auto simp: settle_op_def)
next
  case True
  obtain cl where cl: "join_calls s = [cl]" "call_context cl = ctx" "call_ttl cl > 0" "is_active (call_state cl)"
    and sh: "\<And>i. i < length (join_items s) \<Longrightarrow> spin_shape ctx (call_state cl = Queued i) (join_items s ! i)"
    and ok: "join_inv s" "active_ok s" "delivered s = []" "stopCompletion s \<noteq> Some True"
    using spinningE [OF assms] by blast
  have j: "j < length (join_items s)" "item_busy (join_items s ! j) = Some (ExpireOp ctx)" "call_state cl = Queued j"
    using True sh [of j] by (auto simp: spin_shape_def split: if_splits)
  have inv: "join_inv (settle_op w wall s j r)" "active_ok (settle_op w wall s j r)"
    using join_inv_settle_op active_ok_settle_op ok by blast+
  have f: "join_items (settle_op w wall s j r) = (join_items s)[j := (join_items s ! j)\<lparr>item_busy := None\<rparr>]"
    "join_calls (settle_op w wall s j r) = [cl]" "delivered (settle_op w wall s j r) = []"
    "stopCompletion (settle_op w wall s j r) = stopCompletion s"
    using j cl ok by (auto simp: settle_op_def Let_def on_item_def split: option.split sum.split)
  have "spin_shape ctx (call_state cl = Queued i) ((join_items s)[j := (join_items s ! j)\<lparr>item_busy := None\<rparr>] ! i)"
    if "i < length (join_items s)" for i
    using sh [OF that] j that by (cases "i = j") (auto simp: spin_shape_def)
  then show ?thesis using inv cl ok f by (simp add: spinning_def)
qed

fun is_join :: "('k, 'v) join_event \<Rightarrow> bool" where
  "is_join (JoinCall ctx k index v cb) = True"
| "is_join e = False"

lemma spinning_resume:
  assumes "spinning ctx s" and "ctx_deadline ctx \<noteq> None" and "signal_aborted w (ctx_signal ctx)"
  shows "spinning ctx (join_step s (w, wall, Resume c))"
proof -
  obtain cl where cl: "join_calls s = [cl]" "call_context cl = ctx" "call_ttl cl > 0" "is_active (call_state cl)"
    and sh: "\<And>i. i < length (join_items s) \<Longrightarrow> spin_shape ctx (call_state cl = Queued i) (join_items s ! i)"
    and ok: "join_inv s" "active_ok s" "delivered s = []" "stopCompletion s \<noteq> Some True"
    using spinningE [OF assms(1)] by blast
  show ?thesis
  proof (cases "c = 0 \<and> call_state cl = Retrying")
    case True
    then have "active_ok (loop_turn w wall s 0)"
      using join_inv_retried [OF ok(1,2), of 0 w wall] cl by (simp add: call_states_def)
    then have "spinning ctx (loop_turn w wall s 0)"
      using spinning_loop_turn [of s cl ctx wall w] spinning_no_live [OF assms(1) cl(1)] True cl sh ok assms(2,3) by simp
    with True cl(1) show ?thesis by simp
  next
    case False
    then have "join_step s (w, wall, Resume c) = s" using cl(1,4) by (cases c; cases "call_state cl") auto
    with assms(1) show ?thesis by simp
  qed
qed

lemma spinning_step:
  assumes "spinning ctx s" and "ctx_deadline ctx \<noteq> None" and "signal_aborted w (ctx_signal ctx)" and "\<not> is_join e"
  shows "spinning ctx (join_step s (w, wall, e))"
proof -
  have ok: "join_inv s \<and> active_ok s" "stopCompletion s \<noteq> Some True" using assms(1) by (simp_all add: spinning_def)
  note inv = join_inv_step [OF ok(1), of "(w, wall, e)"]
  have g: "gens_ok (join_current s) (join_previous s) (item_keys s)" using ok by (simp add: join_inv_def maps_ok_def)
  have active: "activeTTLJoins s = 1"
    using assms(1) by (auto simp: spinning_def active_ok_def active_calls_def call_ttls_def call_states_def)
  show ?thesis
  proof (cases e)
    case (Expiry i)
    have "i < length (join_items s) \<Longrightarrow> item_armed (join_items s ! i) = None"
      using assms(1) by (auto simp: spinning_def spin_shape_def)
    then show ?thesis using Expiry assms(1) by (simp add: expire_def)
  next
    case RotationTimer
    have "delivered (rotation_fired s) = delivered s" "join_calls (rotation_fired s) = join_calls s" "join_items (rotation_fired s) = join_items s"
      "stopCompletion (rotation_fired s) = stopCompletion s"
      using join_rotate_shape [of "s\<lparr>rotationTimer := False\<rparr>" "item_keys s"] g by (auto simp: rotation_fired_def armRotation_def)
    with spinning_same [OF assms(1) inv] ok(2) RotationTimer show ?thesis by simp
  next
    case JoinStop
    have "stopCompletion (join_stop s) \<noteq> Some True" using ok(2) active by (simp add: join_stop_def)
    then show ?thesis using spinning_same [OF assms(1) inv] JoinStop by (simp add: join_stop_def)
  next
    case (Resume c)
    show ?thesis unfolding Resume by (rule spinning_resume [OF assms(1-3)])
  qed (use assms ok(2) spinning_same [OF assms(1) inv] spinning_run_op spinning_settle_op in
    \<open>simp_all add: join_start_def armRotation_def\<close>)
qed


lemma spinning_run:
  assumes "spinning ctx s" and "ctx_deadline ctx \<noteq> None"
    and "list_all (\<lambda>(w, wall, e). signal_aborted w (ctx_signal ctx) \<and> \<not> is_join e) evs"
  shows "spinning ctx (join_run s evs)"
  using assms(1,3)
proof (induction evs arbitrary: s)
  case (Cons e evs)
  then show ?case using spinning_step [OF Cons.prems(1) assms(2)] by (cases e) (simp add: join_run_def)
qed (simp add: join_run_def)

lemma spinning_first:
  assumes "ctx_deadline ctx = Some d" and "clock w < d" and "signal_aborted w (ctx_signal ctx)" and "is_safe_integer (Finite (of_nat n))"
  shows "spinning ctx (join_step (join_new ttl renew enabled) (w, wall, JoinCall ctx k (Finite (of_nat n)) v cb))"
proof -
  let ?s0 = "join_new ttl renew enabled :: ('a, 'b) JoinStorage" and ?ttl = "max 0 (d - clock w)"
  let ?cl = "\<lparr>call_context = ctx, call_key = k, call_index = n, call_value = v, call_callback = cb, call_ttl = ?ttl,
    call_renew = renew, call_state = AwaitingStop\<rparr>"
  define s1 where "s1 = ?s0\<lparr>join_calls := [?cl]\<rparr>"
  define s2 where "s2 = s1\<lparr>activeTTLJoins := 1\<rparr>"
  have q: "quotient_of (of_nat n) = (int n, 1)" using quotient_of_int [of "int n"] by simp
  have i1: "join_inv s1" "active_ok s1"
    using join_inv_joinValue [OF join_inv_new [of ttl renew enabled]] join_inv_new_call [of ?s0 ?cl] join_inv_new [of ttl renew enabled]
    by (simp_all add: s1_def join_new_def active_ok_def active_calls_def call_ttls_def call_states_def)
  have adm: "admit w wall s1 0 = loop_turn w wall s2 0"
    using assms(2) by (simp add: admit_def s1_def s2_def join_new_def)
  have st: "join_step ?s0 (w, wall, JoinCall ctx k (Finite (of_nat n)) v cb) = loop_turn w wall s2 0"
    using assms(1,2,4) adm by (simp add: joinValue_def q effectiveTTL_def remainingMs_def s1_def join_new_def)
  have "join_inv s2" by (rule join_inv_cong [OF i1(1)]) (simp_all add: s2_def column_defs call_states_def call_data_def)
  moreover have "active_ok (loop_turn w wall s2 0)"
    using join_inv_admit [OF i1, of 0 w wall] adm by (simp add: s1_def join_new_def call_states_def)
  ultimately show ?thesis
    unfolding st using assms by (intro spinning_loop_turn [of s2 ?cl]) (simp_all add: s2_def s1_def join_new_def findLive_def)
qed

text \<open>
  C21. On a new storage, a first call of \<open>joinValue\<close> under a context that has a deadline and time left but whose signal is
  aborted already never comes to an end by itself: in every run that follows without another call of
  \<open>joinValue\<close>, however its turns, callbacks and timers interleave, the call is still under way, its value was delivered to no group, and a \<open>stop\<close> of the
  storage waits for it forever. Each turn of its loop files a group that is expired, with its callback
  invoked on no value, before the call is reached.
\<close>

theorem join_aborted_never_ends:
  fixes evs :: "(world \<times> millis \<times> ('k, 'v) join_event) list"
  assumes "ctx_deadline ctx = Some d" and "clock w < d" and "signal_aborted w (ctx_signal ctx)"
    and "is_safe_integer (Finite (of_nat n))"
    and "list_all (\<lambda>(w, wall, e). signal_aborted w (ctx_signal ctx) \<and> \<not> is_join e) evs"
    and "s = join_run (join_new ttl renew enabled) ((w, wall, JoinCall ctx k (Finite (of_nat n)) v cb) # evs)"
  shows "(\<exists>cl. join_calls s = [cl] \<and> is_active (call_state cl)) \<and> delivered s = [] \<and> activeTTLJoins s = 1 \<and>
    stopCompletion s \<noteq> Some True"
proof -
  have "spinning ctx s"
    using spinning_run [OF spinning_first [OF assms(1-4)] _ assms(5)] assms(1,6) by (simp add: join_run_def)
  then show ?thesis
    by (auto elim!: spinningE simp: active_ok_def active_calls_def call_ttls_def call_states_def)
qed


section \<open>Witnesses\<close>

text \<open>Two values of a key are joined: the callback declines the first and accepts the group of both.\<close>

definition sample_world :: world where
  "sample_world = \<lparr>clock = 0, abort_reason = (\<lambda>s. if s = 1 then Some (NonError ''stop'') else None), next_error = 0\<rparr>"

definition join_context :: context_state where
  "join_context = \<lparr>ctx_signal = 0, ctx_deadline = None, ctx_sampling = False\<rparr>"

definition aborted_context :: context_state where
  "aborted_context = \<lparr>ctx_signal = 1, ctx_deadline = Some 100, ctx_sampling = False\<rparr>"

definition sample_events :: "(world \<times> millis \<times> (string, int) join_event) list" where
  "sample_events = map (\<lambda>e. (sample_world, 0, e))
     [JoinStart, JoinCall join_context ''k'' (Finite (of_nat 0)) 10 1, RunOp 0, SettleOp 0 (Inr False),
      JoinCall join_context ''k'' (Finite (of_nat 1)) 20 2, RunOp 0]"

definition sample_run :: "(string, int) JoinStorage" where
  "sample_run = join_run (join_new 1000 False True) sample_events"

definition sample_end :: "(string, int) JoinStorage" where
  "sample_end = join_run (join_new 1000 False True) (sample_events @ [(sample_world, 0, SettleOp 0 (Inr True))])"

text \<open>The callback of the second value is pending: one group is stored, one join is under way.\<close>

theorem join_storage_invariant_witness:
  "metricsEnabled sample_run \<and> join_count sample_run = int (join_size sample_run) \<and> activeTTLJoins sample_run = 1 \<and>
   jm_get (join_current sample_run) ''k'' = Some 0 \<and> item_key (join_items sample_run ! 0) = ''k''"
proof -
  have "metricsEnabled sample_run" "jm_get (join_current sample_run) ''k'' = Some 0" "activeTTLJoins sample_run = 1" by code_simp+
  with join_storage_invariant [OF sample_run_def] show ?thesis by blast
qed

theorem join_delivery_witness:
  "delivered sample_end = [(0, 0), (1, 0)] \<and> call_state (join_calls sample_end ! 1) = Returned \<and> 1 \<in> fst ` set (delivered sample_end) \<and>
   values_at (item_values (join_items sample_end ! 0)) 1 =
     map (\<lambda>c. call_value (join_calls sample_end ! c)) (filter (\<lambda>c. call_index (join_calls sample_end ! c) = 1) (delivered_to sample_end 0)) \<and>
   values_at (item_values (join_items sample_end ! 0)) 1 = [20]"
proof -
  have "delivered sample_end = [(0, 0), (1, 0)]" "call_state (join_calls sample_end ! 1) = Returned" "1 < length (join_calls sample_end)"
    "0 < length (join_items sample_end)" "values_at (item_values (join_items sample_end ! 0)) 1 = [20]" by code_simp+
  with join_delivery [OF sample_end_def] show ?thesis by blast
qed

text \<open>The accepted group is gone; a later value of the key starts another one.\<close>

theorem join_group_completed_witness:
  "item_values (join_items (join_run sample_end sample_events) ! 0) = [[10], [20]] \<and>
   locate (join_run sample_end sample_events) ''k'' 0 = None \<and> join_size (join_run sample_end sample_events) = 1"
proof -
  have "0 < length (join_items sample_end)" "item_processed (join_items sample_end ! 0)" "item_busy (join_items sample_end ! 0) = None"
    and v: "item_values (join_items sample_end ! 0) = [[10], [20]]" "join_size (join_run sample_end sample_events) = 1" by code_simp+
  from join_group_completed [OF this(1-3) sample_end_def refl, of sample_events] v show ?thesis by simp
qed

text \<open>Two turns of the loop under the aborted context: two groups were expired, the call is queued on a third.\<close>

definition spin_events :: "(world \<times> millis \<times> (string, int) join_event) list" where
  "spin_events = map (\<lambda>e. (sample_world, 0, e))
     [RunOp 0, SettleOp 0 (Inr True), RunOp 0, Resume 0, RunOp 1, SettleOp 1 (Inr True), RunOp 1, Resume 0, JoinStop]"

definition spin_run :: "(string, int) JoinStorage" where
  "spin_run = join_run (join_new 1000 False True)
     ((sample_world, 0, JoinCall aborted_context ''k'' (Finite (of_nat 0)) 10 7) # spin_events)"

theorem join_aborted_never_ends_witness:
  "invocations spin_run = [(0, 7), (1, 7)] \<and> delivered spin_run = [] \<and> activeTTLJoins spin_run = 1 \<and>
   stopCompletion spin_run = Some False"
proof -
  have "ctx_deadline aborted_context = Some 100" "clock sample_world < 100" "signal_aborted sample_world (ctx_signal aborted_context)"
    "is_safe_integer (Finite (of_nat 0))"
    "list_all (\<lambda>(w, wall, e). signal_aborted w (ctx_signal aborted_context) \<and> \<not> is_join e) spin_events" by code_simp+
  from join_aborted_never_ends [OF this spin_run_def]
  have "delivered spin_run = []" "activeTTLJoins spin_run = 1" by blast+
  moreover have "invocations spin_run = [(0, 7), (1, 7)]" "stopCompletion spin_run = Some False" by code_simp+
  ultimately show ?thesis by blast
qed


end
