(* ===== verification/TaskRegistry.thy ===== *)
theory TaskRegistry
  imports MessageContext
begin

text \<open>
  The registry of background tasks of \<open>src/runtime/task-registry.ts\<close>: it admits tasks until it is
  told to stop, hands every task a signal that aborts with the registry, reports failures, and drains.
  The body of a task runs inside the call that admits it, up to its first wait, and may call the
  registry itself; so a call is two events, the begin of the body and its return, and everything may
  happen between them. A task settles at any later time.
\<close>

section \<open>State\<close>

text \<open>
  \<open>reg_signals\<close> is the store of all abort signals, \<open>reg_controller\<close> the registry's own one.
  \<open>reg_tasks\<close> is the map \<open>#tasks\<close>; \<open>reg_bodies\<close> are the tasks whose body has begun and is not yet in it.
  A handler given to the constructor sees \<open>reg_reports\<close>; failures without handler go to \<open>reg_unhandled\<close>.
\<close>

record task_entry =
  entry_signal :: signal
  entry_detached :: bool
  entry_context :: "context_state option"

datatype drain_state = DrainWaiting "nat list" | Drained | DrainTimedOut millis

record registry =
  reg_signals :: signals
  reg_controller :: signal
  reg_tasks :: "(nat, task_entry) jsmap"
  reg_bodies :: "(nat, task_entry) jsmap"
  reg_hasHandler :: bool
  accepting :: bool
  nextId :: nat
  reg_reports :: "(thrown \<times> context_state option) list"
  reg_unhandled :: "thrown list"
  drains :: "(millis option \<times> drain_state) list"

definition registry_new :: "signals \<Rightarrow> bool \<Rightarrow> registry" where
  "registry_new st handler =
     (case new_signal st of (st', s) \<Rightarrow>
        \<lparr>reg_signals = st', reg_controller = s, reg_tasks = [], reg_bodies = [], reg_hasHandler = handler, accepting = True,
         nextId = 1, reg_reports = [], reg_unhandled = [], drains = []\<rparr>)"

definition activeCount :: "registry \<Rightarrow> nat" where
  "activeCount r = jm_size (reg_tasks r)"

section \<open>Admission\<close>

text \<open>\<open>startTask\<close> up to the call of the body, which gets the identity and the signal.\<close>

definition startTask :: "registry \<Rightarrow> signal option \<Rightarrow> bool \<Rightarrow> context_state option \<Rightarrow> registry \<times> nat" where
  "startTask r external detached ctx =
     (case (case external of
              None \<Rightarrow> (reg_signals r, reg_controller r)
            | Some s \<Rightarrow> combineAbortSignals (reg_signals r) [reg_controller r, s]) of
        (st, s) \<Rightarrow>
          (r\<lparr>reg_signals := st, nextId := nextId r + 1,
             reg_bodies := jm_set (reg_bodies r) (nextId r) \<lparr>entry_signal = s, entry_detached = detached, entry_context = ctx\<rparr>\<rparr>,
           nextId r))"

text \<open>The body has returned its promise, or thrown: \<open>this.#tasks.set(id, observed)\<close>.\<close>

definition body_returned :: "registry \<Rightarrow> nat \<Rightarrow> registry" where
  "body_returned r i =
     (case jm_get (reg_bodies r) i of
        None \<Rightarrow> r
      | Some e \<Rightarrow> r\<lparr>reg_bodies := jm_delete (reg_bodies r) i, reg_tasks := jm_set (reg_tasks r) i e\<rparr>)"

definition runtime_stopped :: thrown where
  "runtime_stopped = ErrorObj 0 ''RuntimeStoppedError'' ''runtime is not accepting new work''"

text \<open>\<open>admit\<close> answers a stopped registry by a rejected promise, the detached forms by a report.\<close>

definition registry_admit :: "registry \<Rightarrow> signal option \<Rightarrow> thrown + registry \<times> nat" where
  "registry_admit r external = (if \<not> accepting r then Inl runtime_stopped else Inr (startTask r external False None))"

definition refuse :: "registry \<Rightarrow> context_state option \<Rightarrow> registry" where
  "refuse r ctx = (if reg_hasHandler r then r\<lparr>reg_reports := reg_reports r @ [(runtime_stopped, ctx)]\<rparr> else r)"

definition admitDetached :: "registry \<Rightarrow> signal option \<Rightarrow> registry" where
  "admitDetached r external = (if \<not> accepting r then refuse r None else fst (startTask r external True None))"

definition admitDetachedWithContext :: "registry \<Rightarrow> context_state \<Rightarrow> registry" where
  "admitDetachedWithContext r ctx =
     (if \<not> accepting r then refuse r (Some ctx) else fst (startTask r (Some (ctx_signal ctx)) True (Some ctx)))"

section \<open>Completion\<close>

text \<open>
  The reaction to the promise of a task. \<open>i\<close> is the identity of the object \<open>errorFromUnknown\<close> makes;
  what a handler throws is swallowed.
\<close>

definition registry_world :: "registry \<Rightarrow> world" where
  "registry_world r = \<lparr>clock = 0, abort_reason = signal_reason (reg_signals r), next_error = 0\<rparr>"

definition task_settled :: "registry \<Rightarrow> nat \<Rightarrow> nat \<Rightarrow> thrown option \<Rightarrow> registry" where
  "task_settled r k i failure =
     (case jm_get (reg_tasks r) i of
        None \<Rightarrow> r
      | Some e \<Rightarrow>
          (let r1 = (case failure of
                       None \<Rightarrow> r
                     | Some v \<Rightarrow>
                         if isTaskCancellation (registry_world r) v (entry_signal e) then r
                         else if reg_hasHandler r
                         then r\<lparr>reg_reports := reg_reports r @ [(errorFromUnknown k v, entry_context e)]\<rparr>
                         else if entry_detached e then r\<lparr>reg_unhandled := reg_unhandled r @ [errorFromUnknown k v]\<rparr> else r)
           in r1\<lparr>reg_tasks := jm_delete (reg_tasks r1) i\<rparr>))"

definition stopAdmission :: "registry \<Rightarrow> registry" where
  "stopAdmission r = r\<lparr>accepting := False\<rparr>"

definition registry_cancel :: "registry \<Rightarrow> thrown \<Rightarrow> registry" where
  "registry_cancel r why = r\<lparr>accepting := False, reg_signals := abort (reg_signals r) (reg_controller r) why\<rparr>"

section \<open>Draining\<close>

text \<open>
  One turn of the loop of \<open>drain\<close>: nothing is left, or the tasks of the moment are waited for. The
  waiting ends when all of them have settled, or with the timer.
\<close>

definition drain_turn :: "registry \<Rightarrow> drain_state" where
  "drain_turn r = (if activeCount r > 0 then DrainWaiting (map fst (reg_tasks r)) else Drained)"

definition drain :: "registry \<Rightarrow> millis option \<Rightarrow> registry" where
  "drain r timeout = r\<lparr>drains := drains r @ [(timeout, drain_turn r)]\<rparr>"

definition drain_awake :: "registry \<Rightarrow> nat \<Rightarrow> registry" where
  "drain_awake r d =
     (case elem_at (drains r) d of
        Some (timeout, DrainWaiting snapshot) \<Rightarrow>
          if list_all (\<lambda>i. \<not> jm_has (reg_tasks r) i) snapshot
          then r\<lparr>drains := (drains r)[d := (timeout, drain_turn r)]\<rparr> else r
      | _ \<Rightarrow> r)"

definition drain_timer :: "registry \<Rightarrow> nat \<Rightarrow> registry" where
  "drain_timer r d =
     (case elem_at (drains r) d of
        Some (Some timeout, DrainWaiting snapshot) \<Rightarrow> r\<lparr>drains := (drains r)[d := (Some timeout, DrainTimedOut timeout)]\<rparr>
      | _ \<Rightarrow> r)"

section \<open>Runs\<close>

text \<open>\<open>Outside\<close> is whatever the rest of the program does to the signals: new ones, derived ones, aborts.\<close>

datatype registry_event =
    Admit "signal option"
  | AdmitDetached "signal option"
  | AdmitWithContext context_state
  | BodyReturned nat
  | TaskSettled nat nat "thrown option"
  | StopAdmission
  | CancelAll thrown
  | Drain "millis option"
  | DrainAwake nat
  | DrainTimer nat
  | Outside signals

fun registry_step :: "registry \<Rightarrow> registry_event \<Rightarrow> registry" where
  "registry_step r (Admit s) = (case registry_admit r s of Inl e \<Rightarrow> r | Inr p \<Rightarrow> fst p)"
| "registry_step r (AdmitDetached s) = admitDetached r s"
| "registry_step r (AdmitWithContext ctx) = admitDetachedWithContext r ctx"
| "registry_step r (BodyReturned i) = body_returned r i"
| "registry_step r (TaskSettled k i failure) = task_settled r k i failure"
| "registry_step r StopAdmission = stopAdmission r"
| "registry_step r (CancelAll why) = registry_cancel r why"
| "registry_step r (Drain timeout) = drain r timeout"
| "registry_step r (DrainAwake d) = drain_awake r d"
| "registry_step r (DrainTimer d) = drain_timer r d"
| "registry_step r (Outside st) = r\<lparr>reg_signals := st\<rparr>"

definition registry_run :: "registry \<Rightarrow> registry_event list \<Rightarrow> registry" where
  "registry_run r es = foldl registry_step r es"

section \<open>What the registry keeps\<close>

text \<open>The tasks whose body runs and those that are waited for are different, and older than the next one.\<close>

definition registry_ok :: "registry \<Rightarrow> bool" where
  "registry_ok r \<longleftrightarrow> jm_ok (reg_tasks r) \<and> jm_ok (reg_bodies r) \<and>
     set (jm_keys (reg_tasks r)) \<inter> set (jm_keys (reg_bodies r)) = {} \<and>
     set (jm_keys (reg_tasks r)) \<union> set (jm_keys (reg_bodies r)) \<subseteq> {1..<nextId r}"

lemma registry_ok_cong:
  "registry_ok r \<Longrightarrow> reg_tasks r' = reg_tasks r \<Longrightarrow> reg_bodies r' = reg_bodies r \<Longrightarrow> nextId r' = nextId r \<Longrightarrow> registry_ok r'"
  by (simp add: registry_ok_def)

lemma registry_ok_new: "registry_ok (registry_new st h)"
  by (simp add: registry_new_def registry_ok_def new_signal_def)

lemma startTask_fields:
  "reg_tasks (fst (startTask r s det ctx)) = reg_tasks r" "accepting (fst (startTask r s det ctx)) = accepting r"
  "drains (fst (startTask r s det ctx)) = drains r" "nextId (fst (startTask r s det ctx)) = nextId r + 1"
  "\<exists>e. reg_bodies (fst (startTask r s det ctx)) = jm_set (reg_bodies r) (nextId r) e"
  by (auto simp: startTask_def split: prod.split)

lemma startTask_ok:
  assumes "registry_ok r" and "nextId r > 0"
  shows "registry_ok (fst (startTask r s det ctx))"
proof -
  obtain e where "reg_bodies (fst (startTask r s det ctx)) = jm_set (reg_bodies r) (nextId r) e"
    using startTask_fields(5) by blast
  then show ?thesis
    using assms jm_keys_set [of "reg_bodies r" "nextId r" e]
    by (auto simp: registry_ok_def startTask_fields subset_eq less_Suc_eq)
qed

lemma body_returned_ok:
  assumes "registry_ok r"
  shows "registry_ok (body_returned r i)"
proof (cases "jm_get (reg_bodies r) i")
  case (Some e)
  then have "i \<in> set (jm_keys (reg_bodies r))" using jm_get_None_iff [of "reg_bodies r" i] by auto
  then show ?thesis
    using assms Some jm_keys_set [of "reg_tasks r" i e] jm_keys_delete [of "reg_bodies r" i]
    by (auto simp: registry_ok_def body_returned_def)
qed (use assms in \<open>simp add: body_returned_def\<close>)

lemma refuse_fields:
  "reg_tasks (refuse r ctx) = reg_tasks r" "reg_bodies (refuse r ctx) = reg_bodies r" "nextId (refuse r ctx) = nextId r"
  "accepting (refuse r ctx) = accepting r" "drains (refuse r ctx) = drains r"
  by (simp_all add: refuse_def)

lemma task_settled_fields:
  "reg_tasks (task_settled r k i f) = jm_delete (reg_tasks r) i" "reg_bodies (task_settled r k i f) = reg_bodies r"
  "nextId (task_settled r k i f) = nextId r" "accepting (task_settled r k i f) = accepting r" "drains (task_settled r k i f) = drains r"
  by (auto simp: task_settled_def Let_def jm_delete_absent split: option.split)

lemma drain_fields:
  "reg_tasks (drain_awake r d) = reg_tasks r" "reg_bodies (drain_awake r d) = reg_bodies r" "nextId (drain_awake r d) = nextId r"
  "accepting (drain_awake r d) = accepting r" "length (drains (drain_awake r d)) = length (drains r)"
  "reg_tasks (drain_timer r d) = reg_tasks r" "reg_bodies (drain_timer r d) = reg_bodies r" "nextId (drain_timer r d) = nextId r"
  "accepting (drain_timer r d) = accepting r" "length (drains (drain_timer r d)) = length (drains r)"
  by (auto simp: drain_awake_def drain_timer_def split: option.split prod.split drain_state.split)

lemma nextId_step: "nextId r > 0 \<Longrightarrow> nextId (registry_step r e) > 0"
  by (cases e) (auto simp: registry_admit_def admitDetached_def admitDetachedWithContext_def startTask_fields refuse_fields
      body_returned_def task_settled_fields stopAdmission_def registry_cancel_def drain_def drain_fields
      split: prod.split option.split)

lemma registry_ok_step:
  assumes "registry_ok r" and "nextId r > 0"
  shows "registry_ok (registry_step r e)"
proof (cases e)
  case (Admit s)
  then show ?thesis using assms startTask_ok [OF assms] by (simp add: registry_admit_def)
next
  case (BodyReturned i)
  then show ?thesis using body_returned_ok [OF assms(1)] by simp
next
  case (TaskSettled k i f)
  then show ?thesis using assms jm_keys_delete [of "reg_tasks r" i] by (auto simp: registry_ok_def task_settled_fields)
qed (use assms startTask_ok [OF assms] registry_ok_cong [OF assms(1)] in
  \<open>simp_all add: admitDetached_def admitDetachedWithContext_def refuse_fields stopAdmission_def registry_cancel_def drain_def drain_fields\<close>)

lemma registry_ok_run: "registry_ok r \<Longrightarrow> nextId r > 0 \<Longrightarrow> registry_ok (registry_run r es) \<and> nextId (registry_run r es) > 0"
  unfolding registry_run_def by (induction es arbitrary: r) (auto simp: registry_ok_step nextId_step)

section \<open>A closed registry\<close>

text \<open>Once it does not accept, the registry starts nothing more, and its tasks only become fewer.\<close>

definition closed_registry :: "registry \<Rightarrow> bool" where
  "closed_registry r \<longleftrightarrow> \<not> accepting r \<and> reg_bodies r = []"

lemma closed_step:
  assumes "closed_registry r"
  shows "closed_registry (registry_step r e)" "nextId (registry_step r e) = nextId r"
    "set (jm_keys (reg_tasks (registry_step r e))) = set (jm_keys (reg_tasks r)) - {i. \<exists>k f. e = TaskSettled k i f}"
  using assms
  by (cases e; auto simp: closed_registry_def registry_admit_def admitDetached_def admitDetachedWithContext_def refuse_fields
      body_returned_def task_settled_fields stopAdmission_def registry_cancel_def drain_def drain_fields jm_delete_def)+

lemma closed_run:
  "closed_registry r \<Longrightarrow> closed_registry (registry_run r es) \<and> nextId (registry_run r es) = nextId r \<and>
   set (jm_keys (reg_tasks (registry_run r es))) = set (jm_keys (reg_tasks r)) - {i. \<exists>k f. TaskSettled k i f \<in> set es}"
proof (induction es arbitrary: r)
  case (Cons e es)
  note s = closed_step [OF Cons.prems, of e]
  show ?case using Cons.IH [OF s(1)] s(2,3) by (auto simp: registry_run_def)
qed (simp add: registry_run_def)

fun is_waiting :: "drain_state \<Rightarrow> bool" where
  "is_waiting (DrainWaiting ids) = True"
| "is_waiting ds = False"

lemma drain_awake_empty:
  assumes "activeCount r = 0" and "d < length (drains r)"
  shows "\<not> is_waiting (snd (drains (drain_awake r d) ! d))"
proof -
  have "reg_tasks r = []" using assms(1) by (simp add: activeCount_def)
  then show ?thesis
    using assms by (auto simp: drain_awake_def drain_turn_def jm_has_def list_all_iff elem_at_def
        split: prod.split drain_state.split)
qed

text \<open>
  C40. Draining terminates. Once the registry accepts no more work, and every task that is active settles
  at some time, in whatever order and among whatever other events: no task is active any more, none was
  started meanwhile, and every call of \<open>drain\<close>, also one made meanwhile, has ended or ends at its next turn.
\<close>

theorem registry_drains:
  assumes "r = registry_run (registry_new st handler) es" and "\<not> accepting r" and "reg_bodies r = []"
    and "\<forall>i \<in> set (jm_keys (reg_tasks r)). \<exists>k f. TaskSettled k i f \<in> set later" and "r' = registry_run r later"
  shows "activeCount r' = 0 \<and> nextId r' = nextId r \<and>
    (\<forall>d<length (drains r'). \<not> is_waiting (snd (drains (registry_step r' (DrainAwake d)) ! d)))"
proof -
  have c: "closed_registry r" using assms(2,3) by (simp add: closed_registry_def)
  have "set (jm_keys (reg_tasks r')) = {}" using closed_run [OF c, of later] assms(4,5) by auto
  then have a: "activeCount r' = 0" by (simp add: activeCount_def)
  then show ?thesis using closed_run [OF c, of later] assms(5) drain_awake_empty [OF a] by simp
qed

text \<open>
  A call of \<open>drain\<close> resolves only when there is nothing left: when an event makes one resolve, no
  task of the registry is active then; and the tasks that are active, with those that are being
  started, are distinct and were all admitted.
\<close>

theorem drain_resolves_when_idle:
  assumes "r = registry_run (registry_new st handler) es" and "r' = registry_step r e"
    and "d < length (drains r')" and "snd (drains r' ! d) = Drained"
    and "d < length (drains r) \<longrightarrow> snd (drains r ! d) \<noteq> Drained"
  shows "activeCount r' = 0 \<and> distinct (jm_keys (reg_tasks r' @ reg_bodies r')) \<and>
    set (jm_keys (reg_tasks r' @ reg_bodies r')) \<subseteq> {1..<nextId r'}"
proof -
  have "registry_ok r'"
    using registry_ok_run [OF registry_ok_new, of st handler es] assms(1,2) registry_ok_step
    by (simp add: registry_new_def new_signal_def)
  moreover have "activeCount r' = 0"
    using assms(2-5)
    by (cases e)
      (auto simp: registry_admit_def admitDetached_def admitDetachedWithContext_def startTask_fields refuse_fields body_returned_def
        task_settled_fields stopAdmission_def registry_cancel_def drain_def drain_awake_def drain_timer_def drain_turn_def
        activeCount_def nth_append nth_list_update
        split: prod.splits option.splits drain_state.splits if_splits)
  ultimately show ?thesis by (auto simp: registry_ok_def jm_ok_def)
qed


section \<open>Witnesses\<close>

definition one_task :: registry where
  "one_task = registry_run (registry_new [] True) [Admit None, BodyReturned 1, Drain None, StopAdmission, Admit None]"

text \<open>The task fails; the failure is reported and the waiting drain ends.\<close>

theorem registry_drains_witness:
  "drains one_task = [(None, DrainWaiting [1])] \<and>
   activeCount (registry_run one_task [TaskSettled 9 1 (Some (NonError ''no''))]) = 0 \<and>
   reg_reports (registry_run one_task [TaskSettled 9 1 (Some (NonError ''no''))]) = [(ErrorObj 9 ''Error'' ''no'', None)]"
proof -
  have "\<not> accepting one_task" "reg_bodies one_task = []" "jm_keys (reg_tasks one_task) = [1]"
    and d: "drains one_task = [(None, DrainWaiting [1])]"
      "reg_reports (registry_run one_task [TaskSettled 9 1 (Some (NonError ''no''))]) = [(ErrorObj 9 ''Error'' ''no'', None)]"
    by code_simp+
  then have "activeCount (registry_run one_task [TaskSettled 9 1 (Some (NonError ''no''))]) = 0"
    using registry_drains [OF one_task_def, of "[TaskSettled 9 1 (Some (NonError ''no''))]"] by simp
  with d show ?thesis by blast
qed

theorem drain_resolves_when_idle_witness:
  "activeCount (registry_step (registry_run (registry_new [] True)
       [Admit None, BodyReturned 1, Drain None, TaskSettled 9 1 None]) (DrainAwake 0)) = 0"
proof -
  let ?r = "registry_run (registry_new [] True) [Admit None, BodyReturned 1, Drain None, TaskSettled 9 1 None]"
  have "0 < length (drains (registry_step ?r (DrainAwake 0)))" "snd (drains (registry_step ?r (DrainAwake 0)) ! 0) = Drained"
    "snd (drains ?r ! 0) \<noteq> Drained" by code_simp+
  then show ?thesis using drain_resolves_when_idle [OF refl refl] by blast
qed


end
