(* ===== verification/Callers.thy ===== *)
theory Callers
  imports RuntimeConfig ConfigLoader TaskPool PriorityTaskPool TaskRegistry "HOL-Library.Sublist"
begin

text \<open>
  How a link of the graph is called: the pools a service makes from its configuration
  (\<open>makeRuntimePools\<close>, \<open>resizeRuntimePools\<close>, \<open>validateRuntimePools\<close> of \<open>service-app.ts\<close>), the choice of a
  caller (\<open>caller-factory.ts\<close>), what each caller does with a message (\<open>caller.ts\<close>, \<open>FunctionCaller\<close> of
  \<open>stream.ts\<close>), and the call counts of the links (\<open>counted-caller.ts\<close>, \<open>makeCaller\<close> and
  \<open>makeLinkRecorder\<close> of \<open>runtime-environment.ts\<close>).
\<close>

section \<open>The pools of a service\<close>

record runtime_pools =
  rp_task :: "(string, TaskPool) jsmap"
  rp_priority :: "(string, PriorityTaskPool) jsmap"

definition pool_missing :: "string \<Rightarrow> string" where
  "pool_missing n = ''pool config '' @ n @ '' not found''"

text \<open>\<open>use\<close>: the pool that the semantics names is made the first time it is named.\<close>

fun use_semantics ::
  "RuntimeConfig \<Rightarrow> int option \<Rightarrow> pool_metrics option \<Rightarrow> runtime_pools \<Rightarrow> CallSemanticsGroup option \<Rightarrow> string + runtime_pools"
  where
  "use_semantics r cores m ps (Some (TaskPoolCall n)) =
     (case poolByName r n of
        None \<Rightarrow> Inl (pool_missing n)
      | Some pc \<Rightarrow>
          if jm_has (rp_task ps) n then Inr ps
          else mapR (\<lambda>p. ps\<lparr>rp_task := jm_set (rp_task ps) n p\<rparr>)
                 (taskPool_new cores n (Finite (of_int (pool_executorsCount pc))) m))"
| "use_semantics r cores m ps (Some (PriorityTaskPoolCall n prio)) =
     (case poolByName r n of
        None \<Rightarrow> Inl (pool_missing n)
      | Some pc \<Rightarrow>
          if jm_has (rp_priority ps) n then Inr ps
          else mapR (\<lambda>p. ps\<lparr>rp_priority := jm_set (rp_priority ps) n p\<rparr>)
                 (priorityTaskPool_new cores n (Finite (of_int (pool_executorsCount pc))) m))"
| "use_semantics r cores m ps _ = Inr ps"

fun use_all ::
  "RuntimeConfig \<Rightarrow> int option \<Rightarrow> pool_metrics option \<Rightarrow> runtime_pools \<Rightarrow> CallSemanticsGroup option list \<Rightarrow> string + runtime_pools"
  where
  "use_all r cores m ps [] = Inr ps"
| "use_all r cores m ps (s # ss) = bindR (use_semantics r cores m ps s) (\<lambda>ps'. use_all r cores m ps' ss)"

definition configured_semantics :: "CanonicalConfig \<Rightarrow> CallSemanticsGroup option list" where
  "configured_semantics c = map callSemantics (links c) @ map defaultCallSemantics (services c)"

definition makeRuntimePools :: "RuntimeConfig \<Rightarrow> int option \<Rightarrow> bool \<Rightarrow> string \<Rightarrow> string + runtime_pools" where
  "makeRuntimePools r cores metricsEnabled service =
     use_all r cores (makeTaskPoolMetrics (Some metricsEnabled) (Some service)) \<lparr>rp_task = [], rp_priority = []\<rparr>
       (configured_semantics (rc_config r))"

definition validateRuntimePools :: "RuntimeConfig \<Rightarrow> runtime_pools \<Rightarrow> string + unit" where
  "validateRuntimePools r ps =
     each (\<lambda>n. require (poolByName r n \<noteq> None) (pool_missing n)) (jm_keys (rp_task ps) @ jm_keys (rp_priority ps))"

text \<open>The pools after the loop, and the error that ended it early, if one did.\<close>

fun resize_each ::
  "RuntimeConfig \<Rightarrow> ('p \<Rightarrow> number \<Rightarrow> string + 'p) \<Rightarrow> (string, 'p) jsmap \<Rightarrow> (string, 'p) jsmap \<times> string option" where
  "resize_each r resize_pool [] = ([], None)"
| "resize_each r resize_pool ((n, p) # ps) =
     (case poolByName r n of
        None \<Rightarrow> (case resize_each r resize_pool ps of (ps', e) \<Rightarrow> ((n, p) # ps', e))
      | Some pc \<Rightarrow>
          (case resize_pool p (Finite (of_int (pool_executorsCount pc))) of
             Inl e \<Rightarrow> ((n, p) # ps, Some e)
           | Inr p' \<Rightarrow> (case resize_each r resize_pool ps of (ps', e) \<Rightarrow> ((n, p') # ps', e))))"

definition resizeRuntimePools :: "RuntimeConfig \<Rightarrow> int option \<Rightarrow> runtime_pools \<Rightarrow> runtime_pools \<times> string option" where
  "resizeRuntimePools r cores ps =
     (case validateRuntimePools r ps of
        Inl e \<Rightarrow> (ps, Some e)
      | Inr _ \<Rightarrow>
          (case resize_each r (resize fifo_ops cores) (rp_task ps) of
             (ts, Some e) \<Rightarrow> (ps\<lparr>rp_task := ts\<rparr>, Some e)
           | (ts, None) \<Rightarrow>
               (case resize_each r (priority_resize cores) (rp_priority ps) of
                  (qs, e) \<Rightarrow> (ps\<lparr>rp_task := ts, rp_priority := qs\<rparr>, e))))"

section \<open>The choice of a caller\<close>

text \<open>A pool caller holds its pool; the maps of pools never change, so the name stands for it.\<close>

datatype caller = FunctionCaller bool | TaskPoolCaller string | PriorityTaskPoolCaller string int | ParallelCaller

definition DEFAULT_CALL_SEMANTICS :: CallSemanticsGroup where
  "DEFAULT_CALL_SEMANTICS = FunctionCall False"

definition link_call_semantics :: "RuntimeConfig \<Rightarrow> ServiceConfig \<Rightarrow> int \<Rightarrow> int \<Rightarrow> CallSemanticsGroup" where
  "link_call_semantics r service from to =
     (case Option.bind (link r from to) callSemantics of
        Some s \<Rightarrow> s
      | None \<Rightarrow> (case defaultCallSemantics service of Some s \<Rightarrow> s | None \<Rightarrow> DEFAULT_CALL_SEMANTICS))"

definition create :: "RuntimeConfig \<Rightarrow> int \<Rightarrow> runtime_pools \<Rightarrow> int \<Rightarrow> int \<Rightarrow> string + caller" where
  "create r service_id ps from to =
     (case serviceById r service_id of
        None \<Rightarrow> Inl (''service config '' @ show_int service_id @ '' not found'')
      | Some service \<Rightarrow>
          (case link_call_semantics r service from to of
             FunctionCall async \<Rightarrow> Inr (FunctionCaller async)
           | TaskPoolCall n \<Rightarrow>
               if jm_has (rp_task ps) n then Inr (TaskPoolCaller n) else Inl (''task pool '' @ n @ '' not found'')
           | PriorityTaskPoolCall n prio \<Rightarrow>
               if jm_has (rp_priority ps) n then Inr (PriorityTaskPoolCaller n prio)
               else Inl (''priority task pool '' @ n @ '' not found'')
           | ParallelCall \<Rightarrow> Inr ParallelCaller))"

fun isAsync :: "caller \<Rightarrow> bool" where
  "isAsync (FunctionCaller async) = async"
| "isAsync _ = True"

text \<open>\<open>setCallerMetadata\<close>: the type of the caller and the name of its pool.\<close>

fun callerMetadata :: "runtime_pools \<Rightarrow> caller \<Rightarrow> (string \<times> string option) option" where
  "callerMetadata ps (FunctionCaller async) = None"
| "callerMetadata ps (TaskPoolCaller n) = Some (''taskpool'', map_option pool_name (jm_get (rp_task ps) n))"
| "callerMetadata ps (PriorityTaskPoolCaller n prio) =
     Some (''prioritytaskpool'', map_option pool_name (jm_get (rp_priority ps) n))"
| "callerMetadata ps ParallelCaller = Some (''parallel'', None)"

section \<open>Calls\<close>

text \<open>
  What callers act on: the pools, the registry of background tasks, the values given to \<open>onRejected\<close>,
  and for every task handed to a pool or to the registry the call it stands for. A task of a pool is named by
  the pool and its index there, a task of the registry by its identity.
\<close>

datatype task_name = InPool string nat | InPriorityPool string nat | InRegistry nat

record ('v, 'm) call_state =
  cs_pools :: runtime_pools
  cs_registry :: registry
  cs_rejected :: "thrown list"
  cs_calls :: "(task_name \<times> int \<times> 'v message_context \<times> 'm) list"

text \<open>
  \<open>consume\<close> of the callers that hand the message over; \<open>to\<close> is the consumer. A direct call is not one of
  them. A rejected task is reported and leaves no call.
\<close>

definition pool_caller_consume ::
  "world \<Rightarrow> string \<Rightarrow> int \<Rightarrow> ('v, 'm) call_state \<Rightarrow> 'v message_context \<Rightarrow> 'm \<Rightarrow> ('v, 'm) call_state" where
  "pool_caller_consume w n to st ctx v =
     (case jm_get (rp_task (cs_pools st)) n of
        None \<Rightarrow> st
      | Some p \<Rightarrow>
          (case addTask fifo_ops fifo_push w p (context_state.truncate ctx) of
             (p', result) \<Rightarrow>
               (let st' = st\<lparr>cs_pools := (cs_pools st)\<lparr>rp_task := jm_set (rp_task (cs_pools st)) n p'\<rparr>\<rparr>
                in case result of
                     Some e \<Rightarrow> st'\<lparr>cs_rejected := cs_rejected st' @ [e]\<rparr>
                   | None \<Rightarrow> st'\<lparr>cs_calls := cs_calls st' @ [(InPool n (length (tasks p)), to, ctx, v)]\<rparr>)))"

definition priority_caller_consume ::
  "world \<Rightarrow> string \<Rightarrow> int \<Rightarrow> int \<Rightarrow> ('v, 'm) call_state \<Rightarrow> 'v message_context \<Rightarrow> 'm \<Rightarrow> ('v, 'm) call_state" where
  "priority_caller_consume w n default_priority to st ctx v =
     (case jm_get (rp_priority (cs_pools st)) n of
        None \<Rightarrow> st
      | Some p \<Rightarrow>
          (let prio = (case ctx_priority ctx of Some q \<Rightarrow> q | None \<Rightarrow> Finite (of_int default_priority))
           in case priority_addTask w p (context_state.truncate ctx) prio of
             (p', result) \<Rightarrow>
               (let st' = st\<lparr>cs_pools := (cs_pools st)\<lparr>rp_priority := jm_set (rp_priority (cs_pools st)) n p'\<rparr>\<rparr>
                in case result of
                     Some e \<Rightarrow> st'\<lparr>cs_rejected := cs_rejected st' @ [e]\<rparr>
                   | None \<Rightarrow> st'\<lparr>cs_calls := cs_calls st' @ [(InPriorityPool n (length (tasks p)), to, ctx, v)]\<rparr>)))"

text \<open>
  The body the parallel caller gives to the registry runs at once: it derives the context of the call from
  the signal of the task and calls the consumer.
\<close>

definition parallel_caller_consume ::
  "int \<Rightarrow> ('v, 'm) call_state \<Rightarrow> 'v message_context \<Rightarrow> 'm \<Rightarrow> ('v, 'm) call_state" where
  "parallel_caller_consume to st ctx v =
     (let r = cs_registry st; r1 = admitDetachedWithContext r (context_state.truncate ctx)
      in if \<not> accepting r then st\<lparr>cs_registry := r1\<rparr>
         else (case jm_get (reg_bodies r1) (nextId r) of
                 None \<Rightarrow> st\<lparr>cs_registry := r1\<rparr>
               | Some e \<Rightarrow>
                   (case withExternalCancellation (reg_signals r1) ctx (entry_signal e) of
                      (sig, ctx') \<Rightarrow> st\<lparr>cs_registry := r1\<lparr>reg_signals := sig\<rparr>,
                                        cs_calls := cs_calls st @ [(InRegistry (nextId r), to, ctx', v)]\<rparr>)))"

text \<open>
  \<open>consume\<close> of a caller. A \<open>FunctionCaller\<close> calls the consumer itself, which is no concern of this state
  (\<open>None\<close>); the others hand the message over.
\<close>

fun caller_consume ::
  "world \<Rightarrow> caller \<Rightarrow> int \<Rightarrow> ('v, 'm) call_state \<Rightarrow> 'v message_context \<Rightarrow> 'm \<Rightarrow> ('v, 'm) call_state option" where
  "caller_consume w (FunctionCaller async) to st ctx v = None"
| "caller_consume w (TaskPoolCaller n) to st ctx v = Some (pool_caller_consume w n to st ctx v)"
| "caller_consume w (PriorityTaskPoolCaller n prio) to st ctx v = Some (priority_caller_consume w n prio to st ctx v)"
| "caller_consume w ParallelCaller to st ctx v = Some (parallel_caller_consume to st ctx v)"

text \<open>Everything that can happen to the pools and the registry, in any order.\<close>

datatype ('v, 'm) call_event =
    Call caller int "'v message_context" 'm
  | TaskPoolEvent string "unit pool_event"
  | PriorityPoolEvent string "number pool_event"
  | RegistryEvent registry_event

fun call_step :: "int option \<Rightarrow> ('v, 'm) call_state \<Rightarrow> world \<times> ('v, 'm) call_event \<Rightarrow> ('v, 'm) call_state" where
  "call_step cores st (w, Call k to ctx v) = (case caller_consume w k to st ctx v of None \<Rightarrow> st | Some st' \<Rightarrow> st')"
| "call_step cores st (w, TaskPoolEvent n e) =
     (case jm_get (rp_task (cs_pools st)) n of
        None \<Rightarrow> st
      | Some p \<Rightarrow> st\<lparr>cs_pools := (cs_pools st)\<lparr>rp_task := jm_set (rp_task (cs_pools st)) n (pool_step fifo_ops fifo_insert cores p (w, e))\<rparr>\<rparr>)"
| "call_step cores st (w, PriorityPoolEvent n e) =
     (case jm_get (rp_priority (cs_pools st)) n of
        None \<Rightarrow> st
      | Some p \<Rightarrow> st\<lparr>cs_pools := (cs_pools st)\<lparr>rp_priority := jm_set (rp_priority (cs_pools st)) n (priority_step cores p (w, e))\<rparr>\<rparr>)"
| "call_step cores st (w, RegistryEvent e) = st\<lparr>cs_registry := registry_step (cs_registry st) e\<rparr>"

definition call_run ::
  "int option \<Rightarrow> ('v, 'm) call_state \<Rightarrow> (world \<times> ('v, 'm) call_event) list \<Rightarrow> ('v, 'm) call_state" where
  "call_run cores st es = foldl (call_step cores) st es"

section \<open>Pools and callers of a valid configuration\<close>

fun pool_configured :: "CanonicalConfig \<Rightarrow> CallSemanticsGroup option \<Rightarrow> bool" where
  "pool_configured c (Some (TaskPoolCall n)) \<longleftrightarrow> n \<in> poolConfig_name ` set (pools c)"
| "pool_configured c (Some (PriorityTaskPoolCall n prio)) \<longleftrightarrow> n \<in> poolConfig_name ` set (pools c)"
| "pool_configured c _ \<longleftrightarrow> True"

definition executors_for :: "int option \<Rightarrow> int \<Rightarrow> int" where
  "executors_for cores k = (if k = 0 then (case cores of None \<Rightarrow> 1 | Some n \<Rightarrow> n) else k)"

lemma normalize_natural: "natural_ok k \<Longrightarrow> normalizeExecutorsCount cores (Finite (of_int k)) = Inr (executors_for cores k)"
  by (simp add: normalizeExecutorsCount_def natural_ok_def executors_for_def)

lemma pool_lookup:
  assumes "valid_config c"
  shows "poolByName (indexed c) n = Some pc \<longleftrightarrow> pc \<in> set (pools c) \<and> poolConfig_name pc = n"
  using assms by (simp add: poolByName_def keyed_get valid_config_def unique_keys_def)

lemma pool_lookup_None: "poolByName (indexed c) n = None \<longleftrightarrow> n \<notin> poolConfig_name ` set (pools c)"
  by (simp add: poolByName_def jm_get_None_iff)

lemma pool_natural: "valid_config c \<Longrightarrow> pc \<in> set (pools c) \<Longrightarrow> natural_ok (pool_executorsCount pc)"
  by (auto simp: valid_config_def list_all_iff)

text \<open>A pool as it is made from its configuration.\<close>

definition fresh_pool :: "CanonicalConfig \<Rightarrow> int option \<Rightarrow> string \<Rightarrow> 'q pool \<Rightarrow> bool" where
  "fresh_pool c cores n p \<longleftrightarrow> pool_name p = n \<and> pool_state p = Created \<and> tasks p = [] \<and>
     (\<exists>pc \<in> set (pools c). poolConfig_name pc = n \<and> executorsCount p = executors_for cores (pool_executorsCount pc))"

lemma new_pool_fresh:
  assumes "pc \<in> set (pools c)" and "poolConfig_name pc = n"
  shows "fresh_pool c cores n (new_pool n q (executors_for cores (pool_executorsCount pc)) m)"
  using assms by (auto simp: fresh_pool_def new_pool_def)

definition pools_for :: "CanonicalConfig \<Rightarrow> int option \<Rightarrow> CallSemanticsGroup option set \<Rightarrow> runtime_pools \<Rightarrow> bool" where
  "pools_for c cores S ps \<longleftrightarrow>
     set (jm_keys (rp_task ps)) = {n. Some (TaskPoolCall n) \<in> S} \<and>
     set (jm_keys (rp_priority ps)) = {n. \<exists>prio. Some (PriorityTaskPoolCall n prio) \<in> S} \<and>
     (\<forall>(n, p) \<in> set (rp_task ps). fresh_pool c cores n p) \<and> (\<forall>(n, p) \<in> set (rp_priority ps). fresh_pool c cores n p)"

lemma jm_set_mem: "(k, v) \<in> set (jm_set m k v)"
  by (induction m k v rule: jm_set.induct) auto

lemma set_jm_set_subset: "set (jm_set m k v) \<subseteq> insert (k, v) (set m)"
  by (induction m k v rule: jm_set.induct) auto

lemma pools_for_task:
  assumes "pools_for c cores S ps" and "fresh_pool c cores n p" and "\<not> jm_has (rp_task ps) n"
  shows "pools_for c cores (insert (Some (TaskPoolCall n)) S) (ps\<lparr>rp_task := jm_set (rp_task ps) n p\<rparr>)"
  using assms set_jm_set_subset [of "rp_task ps" n p] jm_keys_set [of "rp_task ps" n p]
  by (auto simp: pools_for_def)

lemma pools_for_priority:
  assumes "pools_for c cores S ps" and "fresh_pool c cores n p" and "\<not> jm_has (rp_priority ps) n"
  shows "pools_for c cores (insert (Some (PriorityTaskPoolCall n prio)) S) (ps\<lparr>rp_priority := jm_set (rp_priority ps) n p\<rparr>)"
  using assms set_jm_set_subset [of "rp_priority ps" n p] jm_keys_set [of "rp_priority ps" n p]
  by (auto simp: pools_for_def)

lemma pools_for_again:
  assumes "pools_for c cores S ps"
  shows "jm_has (rp_task ps) n \<Longrightarrow> pools_for c cores (insert (Some (TaskPoolCall n)) S) ps"
    "jm_has (rp_priority ps) n \<Longrightarrow> pools_for c cores (insert (Some (PriorityTaskPoolCall n prio)) S) ps"
  using assms by (auto simp: pools_for_def jm_has_iff)

lemma use_semantics_spec:
  assumes "valid_config c" and "pools_for c cores S ps"
  shows "if pool_configured c s then \<exists>ps'. use_semantics (indexed c) cores m ps s = Inr ps' \<and> pools_for c cores (insert s S) ps'
     else \<exists>e. use_semantics (indexed c) cores m ps s = Inl e"
proof (cases "(c, s)" rule: pool_configured.cases)
  case (1 _ n)
  show ?thesis
  proof (cases "poolByName (indexed c) n")
    case None
    then show ?thesis using 1 pool_lookup_None [of c n] by auto
  next
    case (Some pc)
    then have pc: "pc \<in> set (pools c)" "poolConfig_name pc = n" using pool_lookup [OF assms(1)] by simp_all
    note new = new_pool_fresh [OF pc, of cores "fifo_new :: nat FifoQueue" m]
    have n: "normalizeExecutorsCount cores (Finite (of_int (pool_executorsCount pc))) = Inr (executors_for cores (pool_executorsCount pc))"
      using normalize_natural [OF pool_natural [OF assms(1) pc(1)]] .
    show ?thesis
      using 1 Some pc n pools_for_again(1) [OF assms(2), of n] pools_for_task [OF assms(2) new]
      by (cases "jm_has (rp_task ps) n") (auto simp: taskPool_new_def)
  qed
next
  case (2 _ n prio)
  show ?thesis
  proof (cases "poolByName (indexed c) n")
    case None
    then show ?thesis using 2 pool_lookup_None [of c n] by auto
  next
    case (Some pc)
    then have pc: "pc \<in> set (pools c)" "poolConfig_name pc = n" using pool_lookup [OF assms(1)] by simp_all
    note new = new_pool_fresh [OF pc, of cores pq_new m]
    have n: "normalizeExecutorsCount cores (Finite (of_int (pool_executorsCount pc))) = Inr (executors_for cores (pool_executorsCount pc))"
      using normalize_natural [OF pool_natural [OF assms(1) pc(1)]] .
    show ?thesis
      using 2 Some pc n pools_for_again(2) [OF assms(2), of n prio] pools_for_priority [OF assms(2) new, of prio]
      by (cases "jm_has (rp_priority ps) n") (auto simp: priorityTaskPool_new_def)
  qed
qed (use assms(2) in \<open>auto simp: pools_for_def\<close>)


lemma use_all_spec:
  assumes "valid_config c" and "pools_for c cores S ps"
  shows "if list_all (pool_configured c) ss
     then \<exists>ps'. use_all (indexed c) cores m ps ss = Inr ps' \<and> pools_for c cores (set ss \<union> S) ps'
     else \<exists>e. use_all (indexed c) cores m ps ss = Inl e"
  using assms(2)
proof (induction ss arbitrary: ps S)
  case (Cons s ss)
  show ?case
  proof (cases "pool_configured c s")
    case True
    then obtain ps' where "use_semantics (indexed c) cores m ps s = Inr ps'" "pools_for c cores (insert s S) ps'"
      using use_semantics_spec [OF assms(1) Cons.prems, of s m] by auto
    then show ?thesis using Cons.IH [of "insert s S" ps'] True by auto
  next
    case False
    then show ?thesis using use_semantics_spec [OF assms(1) Cons.prems, of s m] by auto
  qed
qed simp

lemma makeRuntimePools_spec:
  assumes "valid_config c"
  shows "if list_all (pool_configured c) (configured_semantics c)
     then \<exists>ps. makeRuntimePools (indexed c) cores en svc = Inr ps \<and> pools_for c cores (set (configured_semantics c)) ps
     else \<exists>e. makeRuntimePools (indexed c) cores en svc = Inl e"
proof -
  have "pools_for c cores {} \<lparr>rp_task = [], rp_priority = []\<rparr>" by (simp add: pools_for_def)
  from use_all_spec [OF assms this, of "configured_semantics c" "makeTaskPoolMetrics (Some en) (Some svc)"] show ?thesis
    by (auto simp: makeRuntimePools_def split: if_splits)
qed

fun caller_of :: "CallSemanticsGroup \<Rightarrow> caller" where
  "caller_of (FunctionCall async) = FunctionCaller async"
| "caller_of (TaskPoolCall n) = TaskPoolCaller n"
| "caller_of (PriorityTaskPoolCall n prio) = PriorityTaskPoolCaller n prio"
| "caller_of ParallelCall = ParallelCaller"

lemma create_resolves:
  assumes "serviceById r k = Some s" and "pools_for c cores S ps"
    and "Some (link_call_semantics r s i j) \<in> S \<or> link_call_semantics r s i j = DEFAULT_CALL_SEMANTICS"
  shows "create r k ps i j = Inr (caller_of (link_call_semantics r s i j))"
  using assms
  by (cases "link_call_semantics r s i j") (auto simp: create_def pools_for_def jm_has_iff DEFAULT_CALL_SEMANTICS_def)

lemma link_lookup:
  assumes "valid_config c"
  shows "link (indexed c) i j = Some l \<longleftrightarrow> l \<in> set (links c) \<and> link_ends l = (i, j)"
proof -
  have "distinct (map link_key (links c))" using assms by (simp add: valid_config_def unique_keys_def link_key_distinct)
  then show ?thesis by (auto simp: link_def keyed_get link_key_def linkKey_inj link_ends_def)
qed

lemma own_semantics:
  assumes "valid_config c" and "l \<in> set (links c)" and "callSemantics l = Some cs"
  shows "link_call_semantics (indexed c) s (link_from l) (link_to l) = cs"
  using link_lookup [OF assms(1), of "link_from l" "link_to l" l] assms(2,3)
  by (simp add: link_call_semantics_def link_ends_def)

lemma default_semantics:
  assumes "valid_config c" and "\<forall>l \<in> set (links c). link_ends l = (i, j) \<longrightarrow> callSemantics l = None"
  shows "link_call_semantics (indexed c) s i j =
    (case defaultCallSemantics s of Some cs \<Rightarrow> cs | None \<Rightarrow> DEFAULT_CALL_SEMANTICS)"
proof -
  have "Option.bind (link (indexed c) i j) callSemantics = None"
    using link_lookup [OF assms(1), of i j] assms(2) by (cases "link (indexed c) i j") auto
  then show ?thesis by (simp add: link_call_semantics_def)
qed

lemma own_semantics_configured: "l \<in> set (links c) \<Longrightarrow> callSemantics l = Some cs \<Longrightarrow> Some cs \<in> set (configured_semantics c)"
  by (force simp: configured_semantics_def image_iff)

lemma default_semantics_configured:
  "s \<in> set (services c) \<Longrightarrow> defaultCallSemantics s = Some cs \<Longrightarrow> Some cs \<in> set (configured_semantics c)"
  by (force simp: configured_semantics_def image_iff)

text \<open>
  C22. The pools and callers of a service. For a valid configuration the pools can be made exactly when
  every pool that a link or a service names is configured; each named pool is then made once, with the
  configured number of executors (the processors of the host for 0). With these pools every link of every
  service of the configuration has a caller: the one its own semantics asks for, else the one of the
  service's default, else a direct call.
\<close>

theorem service_callers:
  assumes "valid_config c" and "s \<in> set (services c)"
  shows "(is_ok (makeRuntimePools (indexed c) cores en svc) \<longleftrightarrow> list_all (pool_configured c) (configured_semantics c)) \<and>
    (\<forall>ps. makeRuntimePools (indexed c) cores en svc = Inr ps \<longrightarrow>
      pools_for c cores (set (configured_semantics c)) ps \<and>
      (\<forall>l \<in> set (links c). \<forall>cs. callSemantics l = Some cs \<longrightarrow>
         create (indexed c) (config_id s) ps (link_from l) (link_to l) = Inr (caller_of cs)) \<and>
      (\<forall>i j. (\<forall>l \<in> set (links c). link_ends l = (i, j) \<longrightarrow> callSemantics l = None) \<longrightarrow>
         create (indexed c) (config_id s) ps i j =
           Inr (case defaultCallSemantics s of Some cs \<Rightarrow> caller_of cs | None \<Rightarrow> FunctionCaller False)))"
proof (intro conjI allI ballI impI)
  note spec = makeRuntimePools_spec [OF assms(1), of cores en svc]
  show "is_ok (makeRuntimePools (indexed c) cores en svc) \<longleftrightarrow> list_all (pool_configured c) (configured_semantics c)"
    using spec by (auto split: if_splits)
  have s: "serviceById (indexed c) (config_id s) = Some s"
    using assms by (simp add: serviceById_def keyed_get valid_config_def unique_keys_def)
  fix ps assume "makeRuntimePools (indexed c) cores en svc = Inr ps"
  then show p: "pools_for c cores (set (configured_semantics c)) ps" using spec by (auto split: if_splits)
  note make = create_resolves [OF s p]
  show "create (indexed c) (config_id s) ps (link_from l) (link_to l) = Inr (caller_of cs)"
    if "l \<in> set (links c)" "callSemantics l = Some cs" for l cs
    using make own_semantics [OF assms(1) that] own_semantics_configured [OF that] by metis
  show "create (indexed c) (config_id s) ps i j =
      Inr (case defaultCallSemantics s of Some cs \<Rightarrow> caller_of cs | None \<Rightarrow> FunctionCaller False)"
    if "\<forall>l \<in> set (links c). link_ends l = (i, j) \<longrightarrow> callSemantics l = None" for i j
    using make [of i j] default_semantics [OF assms(1) that, of s] default_semantics_configured [OF assms(2)]
    by (cases "defaultCallSemantics s") (simp_all add: DEFAULT_CALL_SEMANTICS_def)
qed

section \<open>Reloads\<close>

lemma pump_loop_name [simp]: "pool_name (pump_loop ops p) = pool_name p"
proof (induction ops p rule: pump_loop.induct)
  case (1 ops p)
  have "pool_name (dispatch q t) = pool_name q" for q :: "'a pool" and t
    by (simp add: dispatch_def Let_def with_metrics_def removeAbortListener_def split: option.split)
  then show ?case using 1 by (subst pump_loop.simps) (auto split: prod.split option.split)
qed

lemma pump_frame:
  "tasks (pump ops p) = tasks p" "executorsCount (pump ops p) = executorsCount p" "pool_name (pump ops p) = pool_name p"
  "pool_state p \<noteq> Stopping \<Longrightarrow> pool_state (pump ops p) = pool_state p"
  using pump_loop_fields [of ops p] by (auto simp: pump_def finishDrainIfIdle_def with_metrics_def)

text \<open>What a resize does to a pool that is not being stopped; the others keep their size.\<close>

definition resized :: "int option \<Rightarrow> int \<Rightarrow> 'q pool \<Rightarrow> 'q pool \<Rightarrow> bool" where
  "resized cores k p p' \<longleftrightarrow> pool_name p' = pool_name p \<and> tasks p' = tasks p \<and> pool_state p' = pool_state p \<and>
     (if pool_state p = Stopping \<or> pool_state p = Stopped then p' = p else executorsCount p' = executors_for cores k)"

lemma resize_resized:
  assumes "natural_ok k"
  shows "\<exists>p'. resize ops cores p (Finite (of_int k)) = Inr p' \<and> resized cores k p p'"
  using normalize_natural [OF assms, of cores]
  by (auto simp: resize_def resized_def with_metrics_def Let_def pump_frame)

definition all_resized :: "CanonicalConfig \<Rightarrow> int option \<Rightarrow> (string, 'q pool) jsmap \<Rightarrow> (string, 'q pool) jsmap \<Rightarrow> bool" where
  "all_resized c cores ps ps' \<longleftrightarrow>
     list_all2 (\<lambda>(n, p) (n', p'). n' = n \<and>
       (\<exists>pc \<in> set (pools c). poolConfig_name pc = n \<and> resized cores (pool_executorsCount pc) p p')) ps ps'"

lemma resize_each_spec:
  assumes "valid_config c" and "set (jm_keys ps) \<subseteq> poolConfig_name ` set (pools c)"
    and "\<And>k p. natural_ok k \<Longrightarrow> \<exists>p'. resize_pool p (Finite (of_int k)) = Inr p' \<and> resized cores k p p'"
  shows "\<exists>ps'. resize_each (indexed c) resize_pool ps = (ps', None) \<and> all_resized c cores ps ps'"
  using assms(2)
proof (induction ps)
  case (Cons np ps)
  obtain n p where np: "np = (n, p)" by (cases np)
  obtain pc where pc: "pc \<in> set (pools c)" "poolConfig_name pc = n" using Cons.prems np by auto
  then have look: "poolByName (indexed c) n = Some pc" using pool_lookup [OF assms(1)] by simp
  obtain p' where "resize_pool p (Finite (of_int (pool_executorsCount pc))) = Inr p'" "resized cores (pool_executorsCount pc) p p'"
    using assms(3) [OF pool_natural [OF assms(1) pc(1)]] by blast
  moreover obtain ps' where "resize_each (indexed c) resize_pool ps = (ps', None)" "all_resized c cores ps ps'"
    using Cons by auto
  ultimately show ?case using np pc look by (auto simp: all_resized_def)
qed (simp add: all_resized_def)

lemma validate_pools_iff:
  "is_ok (validateRuntimePools (indexed c) ps) \<longleftrightarrow>
     set (jm_keys (rp_task ps)) \<union> set (jm_keys (rp_priority ps)) \<subseteq> poolConfig_name ` set (pools c)"
  using pool_lookup_None [of c] by (auto simp: validateRuntimePools_def require_def split: if_splits)

text \<open>The validator that a service registers with its configuration store.\<close>

definition pool_validator :: "runtime_pools \<Rightarrow> RuntimeConfig \<Rightarrow> RuntimeConfig \<Rightarrow> string option" where
  "pool_validator ps next current = (case validateRuntimePools next ps of Inl e \<Rightarrow> Some e | Inr _ \<Rightarrow> None)"

text \<open>
  Reloads and pools. A candidate configuration that does not configure a pool in use is refused by
  the validator that the service registers: the store keeps its configuration. Whatever
  valid configuration passes, the listener that resizes the pools succeeds on it: it
  gives every pool that is not being stopped the configured number of executors and changes neither the
  tasks nor the state of any pool.
\<close>

theorem reload_resizes_pools:
  assumes "valid_config c" and "used = set (jm_keys (rp_task ps)) \<union> set (jm_keys (rp_priority ps))"
    and "store_publish (store_validate s k (pool_validator ps)) (indexed c) = (s', thrown)"
  shows "(\<not> used \<subseteq> poolConfig_name ` set (pools c) \<longrightarrow> thrown \<noteq> None \<and> store_current s' = store_current s) \<and>
    (used \<subseteq> poolConfig_name ` set (pools c) \<longrightarrow>
      (\<exists>ts qs. resizeRuntimePools (indexed c) cores ps = (ps\<lparr>rp_task := ts, rp_priority := qs\<rparr>, None) \<and>
         all_resized c cores (rp_task ps) ts \<and> all_resized c cores (rp_priority ps) qs))"
proof (rule conjI; rule impI)
  assume "\<not> used \<subseteq> poolConfig_name ` set (pools c)"
  then have "\<not> is_ok (validateRuntimePools (indexed c) ps)" using assms(2) validate_pools_iff by simp
  then have "pool_validator ps (indexed c) cur \<noteq> None" for cur
    by (auto simp: pool_validator_def is_ok_iff split: sum.split)
  moreover have "(k, pool_validator ps) \<in> set (store_validators (store_validate s k (pool_validator ps)))"
    by (simp add: store_validate_def jm_set_mem)
  ultimately have "\<not> list_all (\<lambda>f. snd f (indexed c) cur = None) (store_validators (store_validate s k (pool_validator ps)))" for cur
    unfolding list_all_iff by (auto intro!: bexI [of _ "(k, pool_validator ps)"])
  with assms(3) show "thrown \<noteq> None \<and> store_current s' = store_current s"
    by (cases rule: store_publish_cases) (auto simp: store_validate_def run_validators_None)
next
  assume used: "used \<subseteq> poolConfig_name ` set (pools c)"
  then have "is_ok (validateRuntimePools (indexed c) ps)" using assms(2) validate_pools_iff by simp
  moreover obtain ts where "resize_each (indexed c) (resize fifo_ops cores) (rp_task ps) = (ts, None)"
      "all_resized c cores (rp_task ps) ts"
    using resize_each_spec [OF assms(1), of "rp_task ps" "resize fifo_ops cores" cores] used assms(2)
      resize_resized [of _ fifo_ops cores] by auto
  moreover obtain qs where "resize_each (indexed c) (priority_resize cores) (rp_priority ps) = (qs, None)"
      "all_resized c cores (rp_priority ps) qs"
    using resize_each_spec [OF assms(1), of "rp_priority ps" "priority_resize cores" cores] used assms(2)
      resize_resized [of _ pq_ops cores] by (auto simp: priority_resize_def)
  ultimately show "\<exists>ts qs. resizeRuntimePools (indexed c) cores ps = (ps\<lparr>rp_task := ts, rp_priority := qs\<rparr>, None) \<and>
      all_resized c cores (rp_task ps) ts \<and> all_resized c cores (rp_priority ps) qs"
    by (auto simp: resizeRuntimePools_def is_ok_iff)
qed


section \<open>Messages handed over\<close>

lemma notify_all_tasks: "tasks (notify_all ops s p ts) = tasks p"
  by (induction ops s p ts rule: notify_all.induct)
    (auto simp: cancel_def Let_def pump_frame split: option.split prod.split)

lemma kept_tasks [simp]:
  "tasks (abort_listener ops s p) = tasks p" "tasks (taskFinished ops w p t b) = tasks p" "tasks (run_next ops w p r) = tasks p"
  "tasks (settle ops w p t x) = tasks p" "tasks (fst (stop ops p)) = tasks p" "tasks (cancel ops p t) = tasks p"
  by (auto simp: abort_listener_def notify_all_tasks Let_def taskFinished_def run_next_def settle_def stop_def cancel_def
      finishDrainIfIdle_def pump_frame split: option.split outcome.split list.split prod.split)

lemma started_tasks: "start ops p = Inr p' \<Longrightarrow> tasks p' = tasks p" "resize ops cores p k = Inr p' \<Longrightarrow> tasks p' = tasks p"
  by (auto simp: start_def resize_def result_simps Let_def pump_frame split: if_splits)

lemma addTask_tasks:
  "tasks (fst (addTask ops push w p c)) = tasks p @ (if snd (addTask ops push w p c) = None then [c] else [])"
  by (auto simp: addTask_def reject_def Let_def pump_frame)

lemma pool_step_tasks: "prefix (tasks p) (tasks (pool_step ops push cores p e))"
proof (cases e)
  case (Pair w ev)
  then show ?thesis by (cases ev) (auto simp: addTask_tasks started_tasks split: sum.split)
qed

text \<open>A task that was handed over is the one its name says.\<close>

fun named_task :: "('v, 'm) call_state \<Rightarrow> task_name \<Rightarrow> context_state \<Rightarrow> bool" where
  "named_task st (InPool n i) c \<longleftrightarrow>
     (\<exists>p. jm_get (rp_task (cs_pools st)) n = Some p \<and> i < length (tasks p) \<and> tasks p ! i = c)"
| "named_task st (InPriorityPool n i) c \<longleftrightarrow>
     (\<exists>p. jm_get (rp_priority (cs_pools st)) n = Some p \<and> i < length (tasks p) \<and> tasks p ! i = c)"
| "named_task st (InRegistry i) c \<longleftrightarrow> i < nextId (cs_registry st)"

definition calls_ok :: "('v, 'm) call_state \<Rightarrow> bool" where
  "calls_ok st \<longleftrightarrow> distinct (map fst (cs_calls st)) \<and>
     (\<forall>(name, to, ctx, v) \<in> set (cs_calls st). named_task st name (context_state.truncate ctx))"

text \<open>Pools only take on more tasks and the registry more identities.\<close>

definition tasks_grow :: "('v, 'm) call_state \<Rightarrow> ('v, 'm) call_state \<Rightarrow> bool" where
  "tasks_grow st st' \<longleftrightarrow> nextId (cs_registry st) \<le> nextId (cs_registry st') \<and>
     (\<forall>n p. jm_get (rp_task (cs_pools st)) n = Some p \<longrightarrow>
        (\<exists>p'. jm_get (rp_task (cs_pools st')) n = Some p' \<and> prefix (tasks p) (tasks p'))) \<and>
     (\<forall>n p. jm_get (rp_priority (cs_pools st)) n = Some p \<longrightarrow>
        (\<exists>p'. jm_get (rp_priority (cs_pools st')) n = Some p' \<and> prefix (tasks p) (tasks p')))"

lemma prefix_nth: "prefix xs ys \<Longrightarrow> i < length xs \<Longrightarrow> i < length ys \<and> ys ! i = xs ! i"
  by (auto simp: prefix_def nth_append)

lemma named_task_grows: "tasks_grow st st' \<Longrightarrow> named_task st name c \<Longrightarrow> named_task st' name c"
  by (cases name) (fastforce simp: tasks_grow_def dest: prefix_nth)+


lemma calls_ok_grow: "calls_ok st \<Longrightarrow> tasks_grow st st' \<Longrightarrow> cs_calls st' = cs_calls st \<Longrightarrow> calls_ok st'"
  by (fastforce simp: calls_ok_def dest: named_task_grows)

lemma calls_ok_add:
  assumes "calls_ok st" and "tasks_grow st st'" and "cs_calls st' = cs_calls st @ [(name, to, ctx, v)]"
    and "\<And>c. \<not> named_task st name c" and "named_task st' name (context_state.truncate ctx)"
  shows "calls_ok st'"
proof -
  have "name \<notin> fst ` set (cs_calls st)" using assms(1,4) by (fastforce simp: calls_ok_def)
  then show ?thesis using assms(1-3,5) by (fastforce simp: calls_ok_def dest: named_task_grows)
qed

lemma tasks_grow_task:
  assumes "jm_get (rp_task (cs_pools st)) n = Some p" and "prefix (tasks p) (tasks p')"
    and "cs_pools st' = (cs_pools st)\<lparr>rp_task := jm_set (rp_task (cs_pools st)) n p'\<rparr>" and "cs_registry st' = cs_registry st"
  shows "tasks_grow st st'"
  using assms by (auto simp: tasks_grow_def jm_get_set)

lemma tasks_grow_priority:
  assumes "jm_get (rp_priority (cs_pools st)) n = Some p" and "prefix (tasks p) (tasks p')"
    and "cs_pools st' = (cs_pools st)\<lparr>rp_priority := jm_set (rp_priority (cs_pools st)) n p'\<rparr>" and "cs_registry st' = cs_registry st"
  shows "tasks_grow st st'"
  using assms by (auto simp: tasks_grow_def jm_get_set)

lemma tasks_grow_registry:
  "cs_pools st' = cs_pools st \<Longrightarrow> nextId (cs_registry st) \<le> nextId (cs_registry st') \<Longrightarrow> tasks_grow st st'"
  by (auto simp: tasks_grow_def)

text \<open>What a call through a pool does: the task is accepted or the error is reported.\<close>

lemma pool_call_result:
  assumes "jm_get (rp_task (cs_pools st)) n = Some p" and "st' = pool_caller_consume w n to st ctx v"
    and "addTask fifo_ops fifo_push w p (context_state.truncate ctx) = (p', r)"
  shows "cs_pools st' = (cs_pools st)\<lparr>rp_task := jm_set (rp_task (cs_pools st)) n p'\<rparr>" "cs_registry st' = cs_registry st"
    "cs_calls st' = cs_calls st @ (if r = None then [(InPool n (length (tasks p)), to, ctx, v)] else [])"
    "length (cs_rejected st') = length (cs_rejected st) + (if r = None then 0 else 1)"
  using assms by (auto simp: pool_caller_consume_def Let_def split: option.split)

lemma priority_call_result:
  assumes "jm_get (rp_priority (cs_pools st)) n = Some p" and "st' = priority_caller_consume w n d to st ctx v"
    and "priority_addTask w p (context_state.truncate ctx) (case ctx_priority ctx of Some q \<Rightarrow> q | None \<Rightarrow> Finite (of_int d)) = (p', r)"
  shows "cs_pools st' = (cs_pools st)\<lparr>rp_priority := jm_set (rp_priority (cs_pools st)) n p'\<rparr>" "cs_registry st' = cs_registry st"
    "cs_calls st' = cs_calls st @ (if r = None then [(InPriorityPool n (length (tasks p)), to, ctx, v)] else [])"
    "length (cs_rejected st') = length (cs_rejected st) + (if r = None then 0 else 1)"
  using assms by (auto simp: priority_caller_consume_def Let_def split: option.split)

lemma nextId_grows: "nextId r \<le> nextId (registry_step r e)"
  by (cases e) (auto simp: registry_admit_def admitDetached_def admitDetachedWithContext_def startTask_fields refuse_fields
      body_returned_def task_settled_fields stopAdmission_def registry_cancel_def drain_def drain_fields
      split: prod.split option.split)

lemma parallel_call_result:
  assumes "st' = parallel_caller_consume to st ctx v"
  shows "cs_pools st' = cs_pools st" "cs_rejected st' = cs_rejected st"
    "(cs_calls st' = cs_calls st \<and> nextId (cs_registry st') = nextId (cs_registry st)) \<or>
     (\<exists>ctx'. cs_calls st' = cs_calls st @ [(InRegistry (nextId (cs_registry st)), to, ctx', v)] \<and>
        nextId (cs_registry st') = nextId (cs_registry st) + 1)"
proof -
  let ?r = "cs_registry st"
  let ?r1 = "admitDetachedWithContext ?r (context_state.truncate ctx)"
  have "nextId ?r1 = nextId ?r + 1 \<and> jm_get (reg_bodies ?r1) (nextId ?r) \<noteq> None" if "accepting ?r"
    using that by (simp add: admitDetachedWithContext_def startTask_def jm_get_set split: prod.split)
  moreover have "nextId ?r1 = nextId ?r" if "\<not> accepting ?r"
    using that by (simp add: admitDetachedWithContext_def refuse_fields)
  ultimately show "cs_pools st' = cs_pools st" "cs_rejected st' = cs_rejected st"
    "(cs_calls st' = cs_calls st \<and> nextId (cs_registry st') = nextId (cs_registry st)) \<or>
     (\<exists>ctx'. cs_calls st' = cs_calls st @ [(InRegistry (nextId (cs_registry st)), to, ctx', v)] \<and>
        nextId (cs_registry st') = nextId (cs_registry st) + 1)"
    using assms by (auto simp: parallel_caller_consume_def Let_def split: option.split prod.split)
qed


lemma pool_call_ok:
  assumes "calls_ok st" and "st' = pool_caller_consume w n to st ctx v"
  shows "calls_ok st' \<and> tasks_grow st st'"
proof (cases "jm_get (rp_task (cs_pools st)) n")
  case (Some p)
  let ?c = "context_state.truncate ctx"
  obtain p' r where a: "addTask fifo_ops fifo_push w p ?c = (p', r)" by (cases "addTask fifo_ops fifo_push w p ?c")
  note res = pool_call_result [OF Some assms(2) a]
  have t: "tasks p' = tasks p @ (if r = None then [?c] else [])" using addTask_tasks [of fifo_ops fifo_push w p ?c] a by simp
  have g: "tasks_grow st st'" using tasks_grow_task [OF Some _ res(1,2)] t by simp
  then show ?thesis
    using calls_ok_grow [OF assms(1) g] calls_ok_add [OF assms(1) g, of "InPool n (length (tasks p))" to ctx v] res(1,3) Some t
    by (cases "r = None") (auto simp: jm_get_set)
qed (use assms in \<open>simp add: pool_caller_consume_def tasks_grow_def\<close>)

lemma priority_call_ok:
  assumes "calls_ok st" and "st' = priority_caller_consume w n d to st ctx v"
  shows "calls_ok st' \<and> tasks_grow st st'"
proof (cases "jm_get (rp_priority (cs_pools st)) n")
  case (Some p)
  let ?c = "context_state.truncate ctx" and ?q = "case ctx_priority ctx of Some q \<Rightarrow> q | None \<Rightarrow> Finite (of_int d)"
  obtain p' r where a: "priority_addTask w p ?c ?q = (p', r)" by (cases "priority_addTask w p ?c ?q")
  note res = priority_call_result [OF Some assms(2) a]
  have t: "tasks p' = tasks p @ (if r = None then [?c] else [])"
    using addTask_tasks [of pq_ops "pq_push ?q" w p ?c] a by (simp add: priority_addTask_def)
  have g: "tasks_grow st st'" using tasks_grow_priority [OF Some _ res(1,2)] t by simp
  then show ?thesis
    using calls_ok_grow [OF assms(1) g] calls_ok_add [OF assms(1) g, of "InPriorityPool n (length (tasks p))" to ctx v] res(1,3) Some t
    by (cases "r = None") (auto simp: jm_get_set)
qed (use assms in \<open>simp add: priority_caller_consume_def tasks_grow_def\<close>)

lemma parallel_call_ok:
  assumes "calls_ok st" and "st' = parallel_caller_consume to st ctx v"
  shows "calls_ok st' \<and> tasks_grow st st'"
proof -
  note res = parallel_call_result [OF assms(2)]
  have g: "tasks_grow st st'" using tasks_grow_registry [of st' st] res by auto
  then show ?thesis
    using res(3) calls_ok_grow [OF assms(1) g] calls_ok_add [OF assms(1) g, of "InRegistry (nextId (cs_registry st))"] by auto
qed

lemma call_step_ok:
  assumes "calls_ok st"
  shows "calls_ok (call_step cores st (w, e)) \<and> tasks_grow st (call_step cores st (w, e))"
proof (cases e)
  case (Call k to ctx v)
  have "tasks_grow st st" by (simp add: tasks_grow_def)
  then show ?thesis
    using assms Call pool_call_ok [OF assms refl] priority_call_ok [OF assms refl] parallel_call_ok [OF assms refl]
    by (cases k) simp_all
next
  case (TaskPoolEvent n pe)
  show ?thesis
  proof (cases "jm_get (rp_task (cs_pools st)) n")
    case (Some p)
    then have "tasks_grow st (call_step cores st (w, e))"
      using TaskPoolEvent tasks_grow_task [OF Some pool_step_tasks [of p fifo_ops fifo_insert cores "(w, pe)"]] by simp
    then show ?thesis using calls_ok_grow [OF assms] TaskPoolEvent Some by simp
  qed (use assms TaskPoolEvent in \<open>simp add: tasks_grow_def\<close>)
next
  case (PriorityPoolEvent n pe)
  show ?thesis
  proof (cases "jm_get (rp_priority (cs_pools st)) n")
    case (Some p)
    then have "tasks_grow st (call_step cores st (w, e))"
      using PriorityPoolEvent tasks_grow_priority [OF Some pool_step_tasks [of p pq_ops pq_push cores "(w, pe)"]]
      by (simp add: priority_step_pool)
    then show ?thesis using calls_ok_grow [OF assms] PriorityPoolEvent Some by simp
  qed (use assms PriorityPoolEvent in \<open>simp add: tasks_grow_def\<close>)
next
  case (RegistryEvent re)
  have "tasks_grow st (call_step cores st (w, e))"
    using RegistryEvent by (simp add: tasks_grow_registry nextId_grows)
  then show ?thesis using calls_ok_grow [OF assms] RegistryEvent by simp
qed

text \<open>The pools keep their invariants, and calls through pools are handed over or rejected.\<close>

definition pools_inv :: "runtime_pools \<Rightarrow> bool" where
  "pools_inv ps \<longleftrightarrow> (\<forall>n p. jm_get (rp_task ps) n = Some p \<longrightarrow> pool_inv fifo_contents fifo_ok p) \<and>
     (\<forall>n p. jm_get (rp_priority ps) n = Some p \<longrightarrow> pool_inv pq_contents pq_ok p)"

fun numeric_event :: "('v, 'm) call_event \<Rightarrow> bool" where
  "numeric_event (Call k to ctx v) \<longleftrightarrow> ctx_priority ctx \<noteq> Some NaN"
| "numeric_event (PriorityPoolEvent n e) \<longleftrightarrow> accepts (\<lambda>a. a \<noteq> NaN) e"
| "numeric_event e \<longleftrightarrow> True"

lemma call_step_pools:
  assumes "pools_inv (cs_pools st)" and "numeric_event e" and "\<forall>c. cores = Some c \<longrightarrow> 1 \<le> c"
  shows "pools_inv (cs_pools (call_step cores st (w, e)))"
proof -
  have task: "pool_inv fifo_contents fifo_ok (pool_step fifo_ops fifo_insert cores p (w, pe))"
    if "jm_get (rp_task (cs_pools st)) n = Some p" for n p pe
    using that assms(1) task_pool.step_inv [OF _ _ assms(3)] by (auto simp: pools_inv_def accepts_def split: pool_event.split)
  have prio: "pool_inv pq_contents pq_ok (priority_step cores p (w, pe))"
    if "jm_get (rp_priority (cs_pools st)) n = Some p" "accepts (\<lambda>a. a \<noteq> NaN) pe" for n p pe
    using that assms(1) priority_pool.step_inv [OF _ _ assms(3)] by (auto simp: pools_inv_def priority_step_pool)
  show ?thesis
  proof (cases e)
    case (Call k to ctx v)
    show ?thesis
    proof (cases k)
      case (TaskPoolCaller n)
      then show ?thesis using Call assms(1) task [of n _ "AddTask () (context_state.truncate ctx)"]
        by (auto simp: pools_inv_def pool_caller_consume_def Let_def jm_get_set split: option.split prod.split)
    next
      case (PriorityTaskPoolCaller n d)
      let ?q = "case ctx_priority ctx of Some q \<Rightarrow> q | None \<Rightarrow> Finite (of_int d)"
      have "accepts (\<lambda>a. a \<noteq> NaN) (AddTask ?q (context_state.truncate ctx))"
        using assms(2) Call by (auto simp: accepts_def split: option.split)
      then show ?thesis using Call PriorityTaskPoolCaller assms(1) prio [of n _ "AddTask ?q (context_state.truncate ctx)"]
        by (auto simp: pools_inv_def priority_caller_consume_def Let_def jm_get_set split: option.split prod.split)
    qed (use Call assms(1) parallel_call_result(1) [OF refl, of to st ctx v] in auto)
  qed (use assms task prio in \<open>auto simp: pools_inv_def jm_get_set split: option.split\<close>)
qed


lemma use_semantics_inv:
  assumes "use_semantics r cores m ps s = Inr ps'" and "pools_inv ps" and "\<forall>c. cores = Some c \<longrightarrow> 1 \<le> c"
  shows "pools_inv ps'"
  using assms taskPool_new_inv [OF _ assms(3)] priorityTaskPool_new_inv [OF _ assms(3)]
  by (cases "(r, cores, m, ps, s)" rule: use_semantics.cases)
    (auto simp: pools_inv_def jm_get_set result_simps split: option.splits if_splits)

lemma use_all_inv:
  assumes "use_all r cores m ps ss = Inr ps'" and "pools_inv ps" and "\<forall>c. cores = Some c \<longrightarrow> 1 \<le> c"
  shows "pools_inv ps'"
  using assms(1,2)
  by (induction ss arbitrary: ps) (auto simp: result_simps dest: use_semantics_inv [OF _ _ assms(3)])

text \<open>Calls through a pool, those whose pool exists, and the messages that pools hold.\<close>

fun pool_call :: "('v, 'm) call_event \<Rightarrow> bool" where
  "pool_call (Call (TaskPoolCaller n) to ctx v) \<longleftrightarrow> True"
| "pool_call (Call (PriorityTaskPoolCaller n d) to ctx v) \<longleftrightarrow> True"
| "pool_call e \<longleftrightarrow> False"

fun caller_made :: "runtime_pools \<Rightarrow> ('v, 'm) call_event \<Rightarrow> bool" where
  "caller_made ps (Call (TaskPoolCaller n) to ctx v) \<longleftrightarrow> jm_has (rp_task ps) n"
| "caller_made ps (Call (PriorityTaskPoolCaller n d) to ctx v) \<longleftrightarrow> jm_has (rp_priority ps) n"
| "caller_made ps e \<longleftrightarrow> True"

fun pool_name_of :: "task_name \<Rightarrow> bool" where
  "pool_name_of (InRegistry i) \<longleftrightarrow> False"
| "pool_name_of nm \<longleftrightarrow> True"

definition handed :: "('v, 'm) call_state \<Rightarrow> nat" where
  "handed st = length (filter (\<lambda>c. pool_name_of (fst c)) (cs_calls st))"

lemma call_step_handed:
  assumes "caller_made (cs_pools st) e"
  shows "handed (call_step cores st (w, e)) + length (cs_rejected (call_step cores st (w, e))) =
    handed st + length (cs_rejected st) + (if pool_call e then 1 else 0)"
proof (cases e)
  case (Call k to ctx v)
  show ?thesis
  proof (cases k)
    case (TaskPoolCaller n)
    then obtain p where p: "jm_get (rp_task (cs_pools st)) n = Some p" using assms Call by (auto simp: jm_has_def)
    obtain p' r where "addTask fifo_ops fifo_push w p (context_state.truncate ctx) = (p', r)"
      by (cases "addTask fifo_ops fifo_push w p (context_state.truncate ctx)")
    from pool_call_result [OF p refl this, of to v] show ?thesis using Call TaskPoolCaller by (simp add: handed_def)
  next
    case (PriorityTaskPoolCaller n d)
    let ?q = "case ctx_priority ctx of Some q \<Rightarrow> q | None \<Rightarrow> Finite (of_int d)"
    obtain p where p: "jm_get (rp_priority (cs_pools st)) n = Some p" using assms Call PriorityTaskPoolCaller by (auto simp: jm_has_def)
    obtain p' r where "priority_addTask w p (context_state.truncate ctx) ?q = (p', r)"
      by (cases "priority_addTask w p (context_state.truncate ctx) ?q")
    from priority_call_result [OF p refl this, of to v] show ?thesis using Call PriorityTaskPoolCaller by (simp add: handed_def)
  next
    case ParallelCaller
    then show ?thesis using Call parallel_call_result [OF refl, of to st ctx v] by (auto simp: handed_def)
  qed (use Call in simp)
qed (auto simp: handed_def split: option.split)

lemma caller_made_grows: "tasks_grow st st' \<Longrightarrow> caller_made (cs_pools st) e \<Longrightarrow> caller_made (cs_pools st') e"
  by (cases "(cs_pools st, e)" rule: caller_made.cases) (fastforce simp: tasks_grow_def jm_has_def)+

lemma call_run_spec:
  assumes "calls_ok st" and "pools_inv (cs_pools st)" and "\<forall>c. cores = Some c \<longrightarrow> 1 \<le> c"
    and "\<forall>(w, e) \<in> set es. numeric_event e \<and> caller_made (cs_pools st) e"
  shows "calls_ok (call_run cores st es) \<and> pools_inv (cs_pools (call_run cores st es)) \<and>
    handed (call_run cores st es) + length (cs_rejected (call_run cores st es)) =
      handed st + length (cs_rejected st) + length (filter (\<lambda>e. pool_call (snd e)) es)"
  using assms(1,2,4)
proof (induction es arbitrary: st)
  case (Cons we es)
  obtain w e where we: "we = (w, e)" by (cases we)
  let ?st = "call_step cores st (w, e)"
  have ok: "calls_ok ?st" "tasks_grow st ?st" using call_step_ok [OF Cons.prems(1)] by simp_all
  have inv: "pools_inv (cs_pools ?st)" using call_step_pools [OF Cons.prems(2) _ assms(3)] Cons.prems(3) we by simp
  have made: "\<forall>(w, e) \<in> set es. numeric_event e \<and> caller_made (cs_pools ?st) e"
    using Cons.prems(3) caller_made_grows [OF ok(2)] by auto
  have "handed ?st + length (cs_rejected ?st) = handed st + length (cs_rejected st) + (if pool_call e then 1 else 0)"
    using call_step_handed [of st e cores w] Cons.prems(3) we by auto
  then show ?case using Cons.IH [OF ok(1) inv made] we by (simp add: call_run_def)
qed (simp add: call_run_def)

lemma accounted_once:
  assumes "pool_inv contents ok p" and "i < length (tasks p)"
  shows "count (mset (contents (pool_queue p) @ microtasks p @ map fst (running p) @ finished p)) i = 1"
proof -
  have "mset (contents (pool_queue p) @ microtasks p @ map fst (running p) @ finished p) = mset [0..<length (tasks p)]"
    using assms(1) by (simp add: pool_inv_def accounted_def ac_simps)
  moreover have "count (mset [0..<length (tasks p)]) i = 1"
    using assms(2) distinct_count_atmost_1 [of "[0..<length (tasks p)]"] by simp
  ultimately show ?thesis by metis
qed

definition service_calls :: "runtime_pools \<Rightarrow> signals \<Rightarrow> bool \<Rightarrow> ('v, 'm) call_state" where
  "service_calls ps sig handler =
     \<lparr>cs_pools = ps, cs_registry = registry_new sig handler, cs_rejected = [], cs_calls = []\<rparr>"

text \<open>
  Messages handed to pools. Start with the pools of a service and let calls through its callers,
  the events of the pools and of the task registry happen in any order. Every message that was given to
  a pool was either rejected, with the error reported, or is held under a name of its own; and the
  task of that name has the context of the message and is in exactly one place: waiting,
  scheduled, running or finished. So no message is lost or run twice.
\<close>

theorem handed_over_once:
  assumes "makeRuntimePools r cores en svc = Inr ps" and "\<forall>k. cores = Some k \<longrightarrow> 1 \<le> k"
    and "\<forall>(w, e) \<in> set es. numeric_event e \<and> caller_made ps e"
    and "st = call_run cores (service_calls ps sig handler) es"
  shows "distinct (map fst (cs_calls st)) \<and>
    handed st + length (cs_rejected st) = length (filter (\<lambda>e. pool_call (snd e)) es) \<and>
    (\<forall>n i to ctx v. (InPool n i, to, ctx, v) \<in> set (cs_calls st) \<longrightarrow>
      (\<exists>p. jm_get (rp_task (cs_pools st)) n = Some p \<and> tasks p ! i = context_state.truncate ctx \<and>
        count (mset (fifo_contents (pool_queue p) @ microtasks p @ map fst (running p) @ finished p)) i = 1)) \<and>
    (\<forall>n i to ctx v. (InPriorityPool n i, to, ctx, v) \<in> set (cs_calls st) \<longrightarrow>
      (\<exists>p. jm_get (rp_priority (cs_pools st)) n = Some p \<and> tasks p ! i = context_state.truncate ctx \<and>
        count (mset (pq_contents (pool_queue p) @ microtasks p @ map fst (running p) @ finished p)) i = 1))"
proof -
  have "pools_inv \<lparr>rp_task = [], rp_priority = []\<rparr>" by (simp add: pools_inv_def)
  then have "pools_inv ps" using use_all_inv [OF _ _ assms(2)] assms(1) unfolding makeRuntimePools_def by blast
  moreover have s: "calls_ok (service_calls ps sig handler)" "cs_pools (service_calls ps sig handler) = ps"
    "handed (service_calls ps sig handler) = 0" "cs_rejected (service_calls ps sig handler) = []"
    by (simp_all add: service_calls_def calls_ok_def handed_def)
  ultimately have inv: "calls_ok st" "pools_inv (cs_pools st)"
    and n: "handed st + length (cs_rejected st) = length (filter (\<lambda>e. pool_call (snd e)) es)"
    using call_run_spec [OF s(1) _ assms(2), of es] assms(3) unfolding assms(4) s by simp_all
  then have named: "named_task st nm (context_state.truncate ctx)" if "(nm, to, ctx, v) \<in> set (cs_calls st)" for nm to ctx v
    using that by (auto simp: calls_ok_def)
  have "\<exists>p. jm_get (rp_task (cs_pools st)) n = Some p \<and> tasks p ! i = context_state.truncate ctx \<and>
      count (mset (fifo_contents (pool_queue p) @ microtasks p @ map fst (running p) @ finished p)) i = 1"
    if "(InPool n i, to, ctx, v) \<in> set (cs_calls st)" for n i to ctx v
    using named [OF that] inv(2) accounted_once [of fifo_contents fifo_ok] by (auto simp: pools_inv_def)
  moreover have "\<exists>p. jm_get (rp_priority (cs_pools st)) n = Some p \<and> tasks p ! i = context_state.truncate ctx \<and>
      count (mset (pq_contents (pool_queue p) @ microtasks p @ map fst (running p) @ finished p)) i = 1"
    if "(InPriorityPool n i, to, ctx, v) \<in> set (cs_calls st)" for n i to ctx v
    using named [OF that] inv(2) accounted_once [of pq_contents pq_ok] by (auto simp: pools_inv_def)
  ultimately show ?thesis using inv(1) n by (auto simp: calls_ok_def)
qed


section \<open>Call counts of links\<close>

text \<open>
  \<open>makeLinkRecorder\<close> makes a statistics object per caller, and the environment keeps the object of each pair
  of stream ids; \<open>CountedCaller\<close> counts on the object it was made with. Objects are named by the order
  they were made in.
\<close>

record link_counts =
  statistics :: "nat list"
  linkCallCounts :: "(string, nat) jsmap"

definition makeLinkRecorder :: "link_counts \<Rightarrow> int \<Rightarrow> int \<Rightarrow> link_counts \<times> nat" where
  "makeLinkRecorder lc a b =
     (lc\<lparr>statistics := statistics lc @ [0], linkCallCounts := jm_set (linkCallCounts lc) (linkKey a b) (length (statistics lc))\<rparr>,
      length (statistics lc))"

definition recordCall :: "link_counts \<Rightarrow> nat \<Rightarrow> link_counts" where
  "recordCall lc i = lc\<lparr>statistics := (statistics lc)[i := statistics lc ! i + 1]\<rparr>"

definition linkCallCount :: "link_counts \<Rightarrow> int \<Rightarrow> int \<Rightarrow> nat" where
  "linkCallCount lc a b =
     (case jm_get (linkCallCounts lc) (linkKey a b) of
        None \<Rightarrow> 0
      | Some i \<Rightarrow> (case elem_at (statistics lc) i of None \<Rightarrow> 0 | Some n \<Rightarrow> n))"

datatype link_event = MakeCaller int int | CountedCall nat

fun link_step :: "link_counts \<Rightarrow> link_event \<Rightarrow> link_counts" where
  "link_step lc (MakeCaller a b) = fst (makeLinkRecorder lc a b)"
| "link_step lc (CountedCall i) = (if i < length (statistics lc) then recordCall lc i else lc)"

definition link_run :: "link_event list \<Rightarrow> link_counts" where
  "link_run es = foldl link_step \<lparr>statistics = [], linkCallCounts = []\<rparr> es"

text \<open>The callers in the order they were made, and the calls made through each of them.\<close>

definition callers_made :: "link_event list \<Rightarrow> (int \<times> int) list" where
  "callers_made es = concat (map (\<lambda>e. case e of MakeCaller a b \<Rightarrow> [(a, b)] | CountedCall i \<Rightarrow> []) es)"

fun calls_through :: "nat \<Rightarrow> link_event list \<Rightarrow> nat" where
  "calls_through i [] = 0"
| "calls_through i (MakeCaller a b # es) = calls_through i es"
| "calls_through i (CountedCall j # es) = (if j = i then 1 else 0) + calls_through i es"

text \<open>Calls are made through callers that exist.\<close>

fun calls_after_made :: "nat \<Rightarrow> link_event list \<Rightarrow> bool" where
  "calls_after_made k [] \<longleftrightarrow> True"
| "calls_after_made k (MakeCaller a b # es) \<longleftrightarrow> calls_after_made (Suc k) es"
| "calls_after_made k (CountedCall i # es) \<longleftrightarrow> i < k \<and> calls_after_made k es"

lemma calls_through_append: "calls_through i (xs @ ys) = calls_through i xs + calls_through i ys"
  by (induction i xs rule: calls_through.induct) auto

lemma callers_made_append: "callers_made (xs @ ys) = callers_made xs @ callers_made ys"
  by (simp add: callers_made_def)

lemma calls_after_made_append:
  "calls_after_made k (xs @ ys) \<longleftrightarrow> calls_after_made k xs \<and> calls_after_made (k + length (callers_made xs)) ys"
  by (induction k xs rule: calls_after_made.induct) (auto simp: callers_made_def)

lemma no_calls_before: "calls_after_made k es \<Longrightarrow> k + length (callers_made es) \<le> i \<Longrightarrow> calls_through i es = 0"
  by (induction k es rule: calls_after_made.induct) (auto simp: callers_made_def)

fun last_caller :: "(int \<times> int) list \<Rightarrow> int \<times> int \<Rightarrow> nat \<Rightarrow> nat option" where
  "last_caller [] ab k = None"
| "last_caller (x # xs) ab k =
     (case last_caller xs ab (Suc k) of Some i \<Rightarrow> Some i | None \<Rightarrow> if x = ab then Some k else None)"

lemma last_caller_snoc:
  "last_caller (xs @ [x]) ab k = (if x = ab then Some (k + length xs) else last_caller xs ab k)"
  by (induction xs arbitrary: k) (auto split: option.split)

lemma last_caller_bound: "last_caller xs ab k = Some i \<Longrightarrow> i < k + length xs"
proof (induction xs arbitrary: k)
  case (Cons x xs)
  then show ?case using Cons.IH [of "Suc k"] by (auto split: option.splits if_splits)
qed simp

lemma link_run_spec:
  "calls_after_made 0 es \<Longrightarrow> statistics (link_run es) = map (\<lambda>i. calls_through i es) [0..<length (callers_made es)] \<and>
    (\<forall>a b. jm_get (linkCallCounts (link_run es)) (linkKey a b) = last_caller (callers_made es) (a, b) 0)"
proof (induction es rule: rev_induct)
  case (snoc e es)
  then have "calls_after_made 0 es" by (simp add: calls_after_made_append)
  note IH = snoc.IH [OF this]
  show ?case
  proof (cases e)
    case (MakeCaller a b)
    have "calls_through (length (callers_made es)) es = 0" using no_calls_before [OF \<open>calls_after_made 0 es\<close>] by simp
    then show ?thesis
      using IH MakeCaller
      by (auto simp: link_run_def makeLinkRecorder_def callers_made_append callers_made_def [of "[MakeCaller a b]"]
          calls_through_append last_caller_snoc jm_get_set linkKey_inj)
  next
    case (CountedCall i)
    then have "i < length (callers_made es)" using snoc.prems by (simp add: calls_after_made_append)
    then show ?thesis
      using IH CountedCall
      by (auto simp: link_run_def recordCall_def callers_made_append callers_made_def [of "[CountedCall i]"]
          calls_through_append nth_list_update intro!: nth_equalityI)
  qed
qed (simp add: link_run_def callers_made_def)


text \<open>
  C23. The call count of a pair of streams is the number of calls through the caller that was made last for
  the pair. With one caller per pair it is exact; when a second caller is made for the same
  pair (two branches of a split that both lead into one merge), the calls through the first are not
  counted any more.
\<close>

theorem link_call_count:
  assumes "calls_after_made 0 es"
  shows "linkCallCount (link_run es) a b =
    (case last_caller (callers_made es) (a, b) 0 of None \<Rightarrow> 0 | Some i \<Rightarrow> calls_through i es)"
  using link_run_spec [OF assms]
  by (auto simp: linkCallCount_def elem_at_def split: option.split dest: last_caller_bound)

section \<open>Witnesses\<close>

theorem link_call_count_witness:
  "linkCallCount (link_run [MakeCaller 1 2, MakeCaller 1 2, CountedCall 0, CountedCall 0, CountedCall 1]) 1 2 = 1"
proof -
  let ?es = "[MakeCaller 1 2, MakeCaller 1 2, CountedCall 0, CountedCall 0, CountedCall 1]"
  have "calls_after_made 0 ?es" "last_caller (callers_made ?es) (1, 2) 0 = Some 1" "calls_through 1 ?es = 1" by code_simp+
  then show ?thesis using link_call_count [of ?es 1 2] by simp
qed

text \<open>One service whose default is a pool of two executors, and one link that is called in parallel.\<close>

definition pooled_config :: CanonicalConfig where
  "pooled_config = tiny_config\<lparr>services := [tiny_service\<lparr>defaultCallSemantics := Some (TaskPoolCall ''p'')\<rparr>],
     pools := [\<lparr>poolConfig_name = ''p'', pool_executorsCount = 2, queueCapacity = 0, pool_properties = []\<rparr>],
     links := [\<lparr>link_from = 10, link_to = 11, callSemantics = Some ParallelCall, link_properties = []\<rparr>]\<rparr>"

definition pooled_service :: ServiceConfig where
  "pooled_service = tiny_service\<lparr>defaultCallSemantics := Some (TaskPoolCall ''p'')\<rparr>"



lemma pooled_valid: "valid_config pooled_config" "pooled_service \<in> set (services pooled_config)"
  by (simp_all add: valid_config_def unique_keys_def pooled_config_def pooled_service_def tiny_config_def tiny_stream_def
      tiny_service_def link_ends_def valid_service_def valid_stream_def valid_link_def stream_reference_def stream_type_def
      port_ok_def natural_ok_def safe_int_def max_safe_integer_def)

lemma pooled_pools:
  obtains ps where "makeRuntimePools (indexed pooled_config) None False ''svc'' = Inr ps" "jm_keys (rp_task ps) = [''p'']"
proof -
  have "is_ok (makeRuntimePools (indexed pooled_config) None False ''svc'')"
    "mapR (\<lambda>ps. jm_keys (rp_task ps)) (makeRuntimePools (indexed pooled_config) None False ''svc'') = Inr [''p'']"
    by code_simp+
  then show ?thesis using that by (auto simp: is_ok_iff)
qed

theorem service_callers_witness:
  "\<exists>ps. makeRuntimePools (indexed pooled_config) None False ''svc'' = Inr ps \<and>
     create (indexed pooled_config) 1 ps 10 11 = Inr ParallelCaller \<and> create (indexed pooled_config) 1 ps 11 12 = Inr (TaskPoolCaller ''p'')"
proof -
  obtain ps where ps: "makeRuntimePools (indexed pooled_config) None False ''svc'' = Inr ps" by (rule pooled_pools)
  have l: "links pooled_config = [\<lparr>link_from = 10, link_to = 11, callSemantics = Some ParallelCall, link_properties = []\<rparr>]"
    "config_id pooled_service = 1" "defaultCallSemantics pooled_service = Some (TaskPoolCall ''p'')"
    by (simp_all add: pooled_config_def pooled_service_def tiny_service_def)
  show ?thesis
    using service_callers [OF pooled_valid, of None False "''svc''"] ps unfolding l by (simp add: link_ends_def)
qed

theorem reload_resizes_pools_witness:
  "\<exists>ps. makeRuntimePools (indexed pooled_config) None False ''svc'' = Inr ps \<and>
     snd (store_publish (store_validate (store_new (indexed pooled_config)) 1 (pool_validator ps)) (indexed tiny_config)) \<noteq> None"
proof -
  obtain ps where ps: "makeRuntimePools (indexed pooled_config) None False ''svc'' = Inr ps" "jm_keys (rp_task ps) = [''p'']"
    by (rule pooled_pools)
  obtain s' t where p: "store_publish (store_validate (store_new (indexed pooled_config)) 1 (pool_validator ps)) (indexed tiny_config) = (s', t)"
    by (cases "store_publish (store_validate (store_new (indexed pooled_config)) 1 (pool_validator ps)) (indexed tiny_config)")
  have "pools tiny_config = []" by (simp add: tiny_config_def)
  then show ?thesis using reload_resizes_pools [OF tiny_valid refl p] ps p by simp
qed

definition pooled_calls :: "(world \<times> (nat, nat) call_event) list" where
  "pooled_calls = [(quiet_world, Call (TaskPoolCaller ''p'') 12 (messageContext_new 1) 7), (quiet_world, TaskPoolEvent ''p'' Stop),
     (quiet_world, Call (TaskPoolCaller ''p'') 12 (messageContext_new 1) 8)]"

theorem handed_over_once_witness:
  "\<exists>ps. makeRuntimePools (indexed pooled_config) None False ''svc'' = Inr ps \<and>
     (let st = call_run None (service_calls ps [] True) pooled_calls in handed st + length (cs_rejected st) = 2)"
proof -
  obtain ps where ps: "makeRuntimePools (indexed pooled_config) None False ''svc'' = Inr ps" "jm_keys (rp_task ps) = [''p'']"
    by (rule pooled_pools)
  have "\<forall>(w, e) \<in> set pooled_calls. numeric_event e \<and> caller_made ps e"
    using ps(2) by (simp add: pooled_calls_def messageContext_new_def jm_has_iff)
  moreover have "length (filter (\<lambda>e. pool_call (snd e)) pooled_calls) = 2" by (simp add: pooled_calls_def)
  ultimately show ?thesis using handed_over_once [OF ps(1) _ _ refl, of pooled_calls "[]" True] ps(1) by (simp add: Let_def)
qed

end
