(* ===== verification/SubStreamCall.thy ===== *)
theory SubStreamCall
  imports RuntimeContext
begin

text \<open>
  One call of a sub-stream: \<open>SubStreamCall\<close> and \<open>SubStream.consume\<close> of \<open>src/operators/substream.ts\<close>. The body
  of the sub-stream delivers results at any time and from anywhere; each is given to the caller's
  collector, one after the other, until the collector says it has enough, the context is aborted or
  something fails. A collector answers at once or with a promise, and it may deliver to its own call before it
  answers.
\<close>

section \<open>State\<close>

text \<open>
  A promise of the collector is running until it settles; then its handler has run (\<open>CallbackSettled\<close>), and
  a microtask later \<open>finally\<close> has cleared \<open>#active\<close> and the promise kept there settles (\<open>ActiveDone\<close>), with
  the error, if there was one. \<open>sc_waiters\<close> are the deliveries that wait for a promise, in order.
  \<open>sc_calling\<close> is the number of calls of the collector that have not returned. \<open>sc_delivered\<close> is the history of the values
  given to the collector, \<open>sc_nested\<close> records whether the collector was ever called while a call of it had not
  returned, \<open>sc_resolved\<close> counts the calls that resolved the completion.
\<close>

datatype callback_stage = CallbackRunning | CallbackSettled "thrown option" | ActiveDone "thrown option"

datatype call_stage = Dispatching | AwaitingCompletion | Closing "nat option" "thrown option" | Ended "thrown option"

record 'r sub_call =
  sc_signal :: signal
  sc_context :: "context_state option"
  sc_collector :: bool
  sc_active :: "nat option"
  sc_closed :: bool
  sc_failure :: "thrown option"
  sc_listening :: bool
  sc_promises :: "callback_stage list"
  sc_waiters :: "(nat \<times> 'r) list"
  sc_calling :: nat
  sc_nested :: bool
  sc_delivered :: "'r list"
  sc_resolved :: nat
  sc_stage :: call_stage

section \<open>Operations\<close>

definition finish :: "'r sub_call \<Rightarrow> thrown option \<Rightarrow> 'r sub_call" where
  "finish c failure =
     (if sc_closed c then c
      else c\<lparr>sc_closed := True, sc_failure := failure, sc_collector := False, sc_context := None, sc_listening := False,
             sc_resolved := sc_resolved c + 1\<rparr>)"

text \<open>\<open>#abort\<close>; the error is that of the signal.\<close>

definition abort_call :: "world \<Rightarrow> 'r sub_call \<Rightarrow> 'r sub_call" where
  "abort_call w c =
     finish c (Some (errorFromUnknown (next_error w)
       (case abort_reason w (sc_signal c) of Some r \<Rightarrow> r | None \<Rightarrow> new_error w ''Error'' ''substream cancelled'')))"

text \<open>Closing: \<open>close\<close> waits for the callback that is active now. \<open>result\<close> is what \<open>consume\<close> will throw.\<close>

definition close_call :: "'r sub_call \<Rightarrow> thrown option \<Rightarrow> 'r sub_call" where
  "close_call c result = (let c1 = finish c None in c1\<lparr>sc_stage := Closing (sc_active c1) result\<rparr>)"

text \<open>The constructor, and \<open>consume\<close> up to the dispatch: \<open>throwIfFailed\<close> leads straight to \<open>close\<close>.\<close>

definition open_call :: "context_state \<Rightarrow> 'r sub_call" where
  "open_call ctx =
     \<lparr>sc_signal = ctx_signal ctx, sc_context = Some ctx, sc_collector = True, sc_active = None, sc_closed = False,
      sc_failure = None, sc_listening = True, sc_promises = [], sc_waiters = [], sc_calling = 0, sc_nested = False, sc_delivered = [], sc_resolved = 0,
      sc_stage = Dispatching\<rparr>"

definition sub_call_new :: "world \<Rightarrow> context_state \<Rightarrow> 'r sub_call" where
  "sub_call_new w ctx = (if cancelled w ctx then abort_call w (open_call ctx) else open_call ctx)"

definition consume_begin :: "world \<Rightarrow> context_state \<Rightarrow> 'r sub_call" where
  "consume_begin w ctx =
     (let c = sub_call_new w ctx in if sc_failure c \<noteq> None then close_call c (sc_failure c) else c)"

text \<open>
  \<open>deliver\<close> up to the call of the collector, if it comes to that; the second value is what its caller gets, nothing or
  the promise to wait for, or that the collector is called.
\<close>

datatype deliver_result = Returned | Threw thrown | Waits nat | CallsCollector

definition deliver :: "world \<Rightarrow> 'r sub_call \<Rightarrow> 'r \<Rightarrow> 'r sub_call \<times> deliver_result" where
  "deliver w c v =
     (if sc_closed c then (c, Returned)
      else case sc_active c of
        Some i \<Rightarrow> (c\<lparr>sc_waiters := sc_waiters c @ [(i, v)]\<rparr>, Waits i)
      | None \<Rightarrow>
          (case sc_context c of
             None \<Rightarrow> (c, Returned)
           | Some ctx \<Rightarrow>
               if \<not> sc_collector c then (c, Returned)
               else if cancelled w ctx then (abort_call w c, Returned)
               else (c\<lparr>sc_calling := sc_calling c + 1, sc_nested := (sc_nested c \<or> sc_calling c > 0), sc_delivered := sc_delivered c @ [v]\<rparr>,
                     CallsCollector)))"

text \<open>The rest of \<open>deliver\<close>: the collector, called last, answers with a boolean, a throw or a promise.\<close>

datatype out_result = OutBool bool | OutThrow thrown | OutPromise

definition out_returns :: "world \<Rightarrow> 'r sub_call \<Rightarrow> out_result \<Rightarrow> 'r sub_call \<times> deliver_result" where
  "out_returns w c result =
     (let c1 = c\<lparr>sc_calling := sc_calling c - 1\<rparr>
      in case result of
           OutBool enough \<Rightarrow> (if enough then finish c1 None else c1, Returned)
         | OutThrow e \<Rightarrow> (finish c1 (Some (errorFromUnknown (next_error w) e)), Threw e)
         | OutPromise \<Rightarrow>
             (c1\<lparr>sc_promises := sc_promises c1 @ [CallbackRunning], sc_active := Some (length (sc_promises c1))\<rparr>,
              Waits (length (sc_promises c1))))"

section \<open>Events\<close>

text \<open>
  \<open>CallbackSettles\<close>: the promise of the collector is fulfilled with a boolean or rejected, and its handler
  runs. \<open>ActiveCleared\<close>: the \<open>finally\<close> handler. \<open>WaiterRuns\<close>: the reaction of the first waiting delivery whose
  promise has settled. \<open>EmitSettles\<close>, \<open>CompletionSeen\<close> and \<open>CloseAwake\<close> are the turns of \<open>consume\<close>. While a call of the
  collector has not returned, only what the collector itself may do can happen: deliveries and aborts.
\<close>

datatype 'r sub_event =
    Deliver 'r
  | OutReturns out_result
  | CallbackSettles nat "thrown + bool"
  | ActiveCleared nat
  | WaiterRuns
  | SignalAborted
  | EmitSettles "thrown option"
  | CompletionSeen
  | CloseAwake

definition active_done :: "callback_stage list \<Rightarrow> nat \<Rightarrow> thrown option option" where
  "active_done ps i = (case elem_at ps i of Some (ActiveDone e) \<Rightarrow> Some e | _ \<Rightarrow> None)"

definition callback_settles :: "world \<Rightarrow> 'r sub_call \<Rightarrow> nat \<Rightarrow> thrown + bool \<Rightarrow> 'r sub_call" where
  "callback_settles w c i result =
     (if elem_at (sc_promises c) i \<noteq> Some CallbackRunning then c
      else case result of
        Inr enough \<Rightarrow>
          (let c1 = c\<lparr>sc_promises := (sc_promises c)[i := CallbackSettled None]\<rparr> in if enough then finish c1 None else c1)
      | Inl e \<Rightarrow>
          finish (c\<lparr>sc_promises := (sc_promises c)[i := CallbackSettled (Some e)]\<rparr>) (Some (errorFromUnknown (next_error w) e)))"

definition active_cleared :: "'r sub_call \<Rightarrow> nat \<Rightarrow> 'r sub_call" where
  "active_cleared c i =
     (case elem_at (sc_promises c) i of
        Some (CallbackSettled e) \<Rightarrow> c\<lparr>sc_active := None, sc_promises := (sc_promises c)[i := ActiveDone e]\<rparr>
      | _ \<Rightarrow> c)"

text \<open>A delivery that waited for a promise that was rejected is rejected too.\<close>

definition waiter_runs :: "world \<Rightarrow> 'r sub_call \<Rightarrow> 'r sub_call" where
  "waiter_runs w c =
     (case find (\<lambda>x. active_done (sc_promises c) (fst x) \<noteq> None) (sc_waiters c) of
        None \<Rightarrow> c
      | Some (i, v) \<Rightarrow>
          (let ws = sc_waiters c; n = length (takeWhile (\<lambda>x. active_done (sc_promises c) (fst x) = None) ws);
               c1 = c\<lparr>sc_waiters := take n ws @ drop (Suc n) ws\<rparr>
           in if active_done (sc_promises c) i = Some None then fst (deliver w c1 v) else c1))"

definition close_awake :: "'r sub_call \<Rightarrow> 'r sub_call" where
  "close_awake c =
     (case sc_stage c of
        Closing waits result \<Rightarrow>
          if (case waits of None \<Rightarrow> True | Some i \<Rightarrow> active_done (sc_promises c) i \<noteq> None)
          then c\<lparr>sc_stage := Ended result\<rparr> else c
      | _ \<Rightarrow> c)"

definition emit_settles :: "'r sub_call \<Rightarrow> thrown option \<Rightarrow> 'r sub_call" where
  "emit_settles c failure =
     (if sc_stage c \<noteq> Dispatching then c
      else case failure of Some e \<Rightarrow> close_call c (Some e) | None \<Rightarrow> c\<lparr>sc_stage := AwaitingCompletion\<rparr>)"

definition completion_seen :: "'r sub_call \<Rightarrow> 'r sub_call" where
  "completion_seen c = (if sc_stage c = AwaitingCompletion \<and> sc_resolved c > 0 then close_call c (sc_failure c) else c)"

fun sub_step :: "'r sub_call \<Rightarrow> world \<times> 'r sub_event \<Rightarrow> 'r sub_call" where
  "sub_step c (w, Deliver v) = fst (deliver w c v)"
| "sub_step c (w, OutReturns result) = (if sc_calling c = 0 then c else fst (out_returns w c result))"
| "sub_step c (w, SignalAborted) = (if sc_listening c then abort_call w c else c)"
| "sub_step c (w, CallbackSettles i result) = (if sc_calling c = 0 then callback_settles w c i result else c)"
| "sub_step c (w, ActiveCleared i) = (if sc_calling c = 0 then active_cleared c i else c)"
| "sub_step c (w, WaiterRuns) = (if sc_calling c = 0 then waiter_runs w c else c)"
| "sub_step c (w, EmitSettles failure) = (if sc_calling c = 0 then emit_settles c failure else c)"
| "sub_step c (w, CompletionSeen) = (if sc_calling c = 0 then completion_seen c else c)"
| "sub_step c (w, CloseAwake) = (if sc_calling c = 0 then close_awake c else c)"

definition sub_run :: "'r sub_call \<Rightarrow> (world \<times> 'r sub_event) list \<Rightarrow> 'r sub_call" where
  "sub_run c es = foldl sub_step c es"


section \<open>What holds in every run\<close>

fun is_done :: "callback_stage \<Rightarrow> bool" where
  "is_done (ActiveDone e) \<longleftrightarrow> True"
| "is_done p \<longleftrightarrow> False"

text \<open>
  An open call listens and has resolved nothing; a closed one has resolved its completion once and holds neither
  context nor collector. A call that closes or has ended is closed, and its collector is not being called.
\<close>

definition closed_ok :: "'r sub_call \<Rightarrow> bool" where
  "closed_ok c \<longleftrightarrow>
     (if sc_closed c then sc_context c = None \<and> \<not> sc_collector c \<and> \<not> sc_listening c \<and> sc_resolved c = 1
      else sc_context c \<noteq> None \<and> sc_collector c \<and> sc_listening c \<and> sc_resolved c = 0 \<and> sc_failure c = None)"

definition names_promise :: "'r sub_call \<Rightarrow> nat option \<Rightarrow> bool" where
  "names_promise c a \<longleftrightarrow> (\<forall>i. a = Some i \<longrightarrow> i < length (sc_promises c))"

definition core_inv :: "'r sub_call \<Rightarrow> bool" where
  "core_inv c \<longleftrightarrow> closed_ok c \<and> names_promise c (sc_active c) \<and>
     (case sc_stage c of Closing waits r \<Rightarrow> sc_closed c \<and> sc_calling c = 0 \<and> names_promise c waits
      | Ended r \<Rightarrow> sc_closed c \<and> sc_calling c = 0 | _ \<Rightarrow> True)"

text \<open>
  As long as the collector was never called from within its own call: only the promise in \<open>#active\<close> is
  unfinished, a call that has ended has none, and there is none while the collector is being called.
\<close>

definition single_inv :: "'r sub_call \<Rightarrow> bool" where
  "single_inv c \<longleftrightarrow>
     (\<forall>i < length (sc_promises c). is_done (sc_promises c ! i) \<longleftrightarrow> sc_active c \<noteq> Some i) \<and>
     sc_calling c \<le> 1 \<and> (sc_calling c = 1 \<longrightarrow> sc_active c = None) \<and>
     (case sc_stage c of Closing waits r \<Rightarrow> sc_active c = None \<or> sc_active c = waits | Ended r \<Rightarrow> sc_active c = None | _ \<Rightarrow> True)"

definition sub_inv :: "'r sub_call \<Rightarrow> bool" where
  "sub_inv c \<longleftrightarrow> core_inv c \<and> (\<not> sc_nested c \<longrightarrow> single_inv c)"

lemma finish_fields [simp]:
  "sc_promises (finish c e) = sc_promises c" "sc_active (finish c e) = sc_active c" "sc_stage (finish c e) = sc_stage c"
  "sc_waiters (finish c e) = sc_waiters c" "sc_delivered (finish c e) = sc_delivered c" "sc_closed (finish c e)"
  "sc_signal (finish c e) = sc_signal c" "sc_calling (finish c e) = sc_calling c" "sc_nested (finish c e) = sc_nested c"
  by (simp_all add: finish_def)


lemma inv_cong:
  assumes "sc_promises c' = sc_promises c" "sc_active c' = sc_active c" "sc_stage c' = sc_stage c" "sc_calling c' = sc_calling c" "sc_nested c' = sc_nested c"
    and "closed_ok c'" and "sc_closed c \<longrightarrow> sc_closed c'"
  shows "sub_inv c \<Longrightarrow> sub_inv c'"
  using assms by (auto simp: sub_inv_def core_inv_def single_inv_def names_promise_def split: call_stage.splits option.splits)

lemma finish_closed_ok: "closed_ok c \<Longrightarrow> closed_ok (finish c e)"
  by (cases "sc_closed c") (simp_all add: closed_ok_def finish_def)

lemma finish_inv: "sub_inv c \<Longrightarrow> sub_inv (finish c e)"
  by (rule inv_cong [of _ c]) (simp_all add: finish_closed_ok sub_inv_def core_inv_def)

lemma abort_call_inv: "sub_inv c \<Longrightarrow> sub_inv (abort_call w c)"
  by (simp add: abort_call_def finish_inv)

lemma close_call_inv:
  assumes "sub_inv c" and "sc_calling c = 0"
  shows "sub_inv (close_call c r)"
  using finish_inv [OF assms(1), of None] assms(2)
  by (auto simp: close_call_def Let_def sub_inv_def core_inv_def single_inv_def closed_ok_def names_promise_def split: call_stage.splits)

lemma consume_begin_inv: "sub_inv (consume_begin w ctx)"
proof -
  have open_inv: "sub_inv (open_call ctx :: 'a sub_call)"
    by (simp add: open_call_def sub_inv_def core_inv_def single_inv_def closed_ok_def names_promise_def)
  have "sc_calling (sub_call_new w ctx :: 'a sub_call) = 0" by (simp add: sub_call_new_def abort_call_def open_call_def)
  moreover have "sub_inv (sub_call_new w ctx :: 'a sub_call)" using open_inv by (simp add: sub_call_new_def abort_call_inv)
  ultimately show ?thesis by (simp add: consume_begin_def Let_def close_call_inv)
qed

text \<open>A call that is open has not begun to close.\<close>

lemma open_stage:
  assumes "core_inv c" and "\<not> sc_closed c \<or> 0 < sc_calling c"
  shows "sc_stage c = Dispatching \<or> sc_stage c = AwaitingCompletion"
  using assms by (cases "sc_stage c") (auto simp: core_inv_def)

lemma deliver_inv:
  assumes "sub_inv c"
  shows "sub_inv (fst (deliver w c v))"
proof (cases "sc_closed c \<or> sc_active c \<noteq> None")
  case True
  have "sub_inv (c\<lparr>sc_waiters := ws\<rparr>)" for ws using assms by (rule inv_cong [rotated -1]) (use assms in \<open>simp_all add: sub_inv_def core_inv_def closed_ok_def\<close>)
  then show ?thesis using True assms by (auto simp: deliver_def split: option.split)
next
  case False
  have st: "sc_stage c = Dispatching \<or> sc_stage c = AwaitingCompletion" using assms False by (intro open_stage) (auto simp: sub_inv_def)
  have "sub_inv (c\<lparr>sc_calling := sc_calling c + 1, sc_nested := (sc_nested c \<or> sc_calling c > 0), sc_delivered := sc_delivered c @ [v]\<rparr>)"
    using False st assms by (auto simp: sub_inv_def core_inv_def single_inv_def closed_ok_def names_promise_def)
  then show ?thesis using False abort_call_inv [OF assms] assms by (auto simp: deliver_def split: option.split)
qed

lemma out_returns_inv:
  assumes "sub_inv c" and "0 < sc_calling c"
  shows "sub_inv (fst (out_returns w c r))"
proof -
  let ?c = "c\<lparr>sc_calling := sc_calling c - 1\<rparr>"
  have st: "sc_stage c = Dispatching \<or> sc_stage c = AwaitingCompletion" using assms by (intro open_stage) (auto simp: sub_inv_def)
  have c: "sub_inv ?c" using assms st by (auto simp: sub_inv_def core_inv_def single_inv_def closed_ok_def names_promise_def)
  have "sub_inv (?c\<lparr>sc_promises := sc_promises c @ [CallbackRunning], sc_active := Some (length (sc_promises c))\<rparr>)"
    using assms st by (auto simp: sub_inv_def core_inv_def single_inv_def closed_ok_def names_promise_def nth_append less_Suc_eq)
  then show ?thesis using c finish_inv [OF c] by (auto simp: out_returns_def Let_def split: out_result.split)
qed

lemma single_active: "single_inv c \<Longrightarrow> i < length (sc_promises c) \<Longrightarrow> \<not> is_done (sc_promises c ! i) \<Longrightarrow> sc_active c = Some i"
  by (auto simp: single_inv_def)

lemma callback_settles_inv:
  assumes "sub_inv c"
  shows "sub_inv (callback_settles w c i r)"
proof (cases "elem_at (sc_promises c) i = Some CallbackRunning")
  case True
  have "sub_inv (c\<lparr>sc_promises := (sc_promises c)[i := CallbackSettled e]\<rparr>)" for e
  proof -
    have "single_inv (c\<lparr>sc_promises := (sc_promises c)[i := CallbackSettled e]\<rparr>)" if "single_inv c"
      using that True single_active [OF that, of i] by (auto simp: single_inv_def nth_list_update split: call_stage.splits)
    then show ?thesis using assms by (auto simp: sub_inv_def core_inv_def closed_ok_def names_promise_def split: call_stage.splits option.splits)
  qed
  then show ?thesis using True by (auto simp: callback_settles_def Let_def finish_inv split: sum.split)
qed (use assms in \<open>simp add: callback_settles_def\<close>)

lemma active_cleared_inv:
  assumes "sub_inv c"
  shows "sub_inv (active_cleared c i)"
proof (cases "\<exists>e. elem_at (sc_promises c) i = Some (CallbackSettled e)")
  case True
  then obtain e where e: "i < length (sc_promises c)" "sc_promises c ! i = CallbackSettled e" by auto
  let ?c = "c\<lparr>sc_active := None, sc_promises := (sc_promises c)[i := ActiveDone e]\<rparr>"
  have "single_inv ?c" if "single_inv c"
    using that e single_active [OF that e(1)] by (auto simp: single_inv_def nth_list_update split: call_stage.splits)
  then have "sub_inv ?c" using assms by (auto simp: sub_inv_def core_inv_def closed_ok_def names_promise_def split: call_stage.splits option.splits)
  then show ?thesis using e by (simp add: active_cleared_def elem_at_def)
qed (use assms in \<open>auto simp: active_cleared_def split: option.split callback_stage.split\<close>)

lemma waiter_runs_inv:
  assumes "sub_inv c"
  shows "sub_inv (waiter_runs w c)"
proof -
  have "sub_inv (c\<lparr>sc_waiters := ws\<rparr>)" for ws using assms by (rule inv_cong [rotated -1]) (use assms in \<open>simp_all add: sub_inv_def core_inv_def closed_ok_def\<close>)
  then show ?thesis using assms by (auto simp: waiter_runs_def Let_def deliver_inv split: option.split)
qed

lemma done_not_active:
  assumes "single_inv c" and "active_done (sc_promises c) i \<noteq> None"
  shows "sc_active c \<noteq> Some i"
proof -
  have "i < length (sc_promises c)" "is_done (sc_promises c ! i)"
    using assms(2) by (auto simp: active_done_def elem_at_def split: callback_stage.splits if_splits)
  then show ?thesis using assms(1) by (simp add: single_inv_def)
qed

lemma close_awake_inv:
  assumes "sub_inv c"
  shows "sub_inv (close_awake c)"
proof (cases "sc_stage c")
  case (Closing waits r)
  show ?thesis
  proof (cases "case waits of None \<Rightarrow> True | Some i \<Rightarrow> active_done (sc_promises c) i \<noteq> None")
    case True
    have "single_inv (c\<lparr>sc_stage := Ended r\<rparr>)" if s: "single_inv c"
    proof -
      have "sc_active c = None \<or> sc_active c = waits" using s Closing unfolding single_inv_def by simp
      then have "sc_active c = None" using done_not_active [OF s] True by (cases waits) auto
      then show ?thesis using s unfolding single_inv_def by simp
    qed
    moreover have "core_inv (c\<lparr>sc_stage := Ended r\<rparr>)"
      using assms Closing by (simp add: sub_inv_def core_inv_def closed_ok_def names_promise_def)
    ultimately have "sub_inv (c\<lparr>sc_stage := Ended r\<rparr>)" using assms by (simp add: sub_inv_def)
    then show ?thesis using True Closing by (simp add: close_awake_def)
  next
    case False
    then show ?thesis using assms Closing by (simp add: close_awake_def)
  qed
qed (use assms in \<open>simp_all add: close_awake_def\<close>)

lemma emit_settles_inv:
  assumes "sub_inv c" and "sc_calling c = 0"
  shows "sub_inv (emit_settles c f)"
proof -
  have "sub_inv (c\<lparr>sc_stage := AwaitingCompletion\<rparr>)" if "sc_stage c = Dispatching"
    using assms that by (auto simp: sub_inv_def core_inv_def single_inv_def closed_ok_def names_promise_def)
  then show ?thesis using assms close_call_inv by (auto simp: emit_settles_def split: option.split)
qed

lemma sub_step_inv: "sub_inv c \<Longrightarrow> sub_inv (sub_step c (w, e))"
  by (cases e)
    (auto simp: deliver_inv out_returns_inv callback_settles_inv active_cleared_inv waiter_runs_inv abort_call_inv close_call_inv close_awake_inv
      emit_settles_inv completion_seen_def)

lemma sub_run_inv: "sub_inv c \<Longrightarrow> sub_inv (sub_run c es)"
  unfolding sub_run_def by (induction es arbitrary: c) (auto simp: sub_step_inv)


lemma sub_run_Cons: "sub_run c ((w, e) # es) = sub_run (sub_step c (w, e)) es"
  by (simp add: sub_run_def)

section \<open>A closed call\<close>

text \<open>It stays closed with its failure; when its collector is not being called, it never is again.\<close>

definition still_closed :: "'r sub_call \<Rightarrow> 'r sub_call \<Rightarrow> bool" where
  "still_closed c c' \<longleftrightarrow> sc_closed c' \<and> sc_failure c' = sc_failure c \<and> sc_delivered c' = sc_delivered c \<and>
     (sc_calling c = 0 \<longrightarrow> sc_calling c' = 0 \<and> length (sc_promises c') = length (sc_promises c))"

lemma sub_closed_step:
  assumes "sc_closed c"
  shows "still_closed c (sub_step c (w, e))"
  using assms
  by (cases e) (auto simp: still_closed_def deliver_def out_returns_def callback_settles_def active_cleared_def waiter_runs_def abort_call_def close_call_def
      close_awake_def emit_settles_def completion_seen_def finish_def Let_def split: option.split callback_stage.split call_stage.split sum.split out_result.split)

lemma sub_closed_run: "sc_closed c \<Longrightarrow> still_closed c (sub_run c es)"
proof (induction es arbitrary: c)
  case Nil
  then show ?case by (simp add: sub_run_def still_closed_def)
next
  case (Cons we es)
  obtain w e where we: "we = (w, e)" by (cases we)
  show ?case using Cons.IH [of "sub_step c (w, e)"] sub_closed_step [OF Cons.prems, of w e] by (auto simp: we sub_run_Cons still_closed_def)
qed

lemma running_at_most_one:
  assumes "single_inv c"
  shows "length (filter (\<lambda>p. \<not> is_done p) (sc_promises c)) \<le> 1"
proof -
  have "{i. i < length (sc_promises c) \<and> \<not> is_done (sc_promises c ! i)} \<subseteq> set_option (sc_active c)"
    using assms by (auto simp: single_inv_def)
  then have "card {i. i < length (sc_promises c) \<and> \<not> is_done (sc_promises c ! i)} \<le> card (set_option (sc_active c))"
    by (intro card_mono) simp_all
  also have "\<dots> \<le> 1" by (cases "sc_active c") simp_all
  finally show ?thesis by (simp only: length_filter_conv_card)
qed

text \<open>
  C38. A sub-stream call is safe. However deliveries, answers of the collector, aborts and the turns of the
  call interleave: the completion is resolved at most once, exactly when the call closes; a closed call gives nothing more
  to the collector and keeps its failure. And as long as the collector has not been called from within its own call, at most one
  callback of it is unfinished at any time, and when \<open>consume\<close> has ended, the call is closed and no callback is
  unfinished.
\<close>

theorem sub_call_safe:
  assumes "c = sub_run (consume_begin w ctx) es"
  shows "sc_resolved c = (if sc_closed c then 1 else 0) \<and>
    (sc_closed c \<longrightarrow> (\<forall>later. sc_delivered (sub_run c later) = sc_delivered c \<and> sc_failure (sub_run c later) = sc_failure c)) \<and>
    (\<not> sc_nested c \<longrightarrow> length (filter (\<lambda>p. \<not> is_done p) (sc_promises c)) \<le> 1 \<and>
       (\<forall>result. sc_stage c = Ended result \<longrightarrow> sc_closed c \<and> list_all is_done (sc_promises c)))"
proof -
  have inv: "sub_inv c" using sub_run_inv [OF consume_begin_inv] assms by simp
  have "sc_resolved c = (if sc_closed c then 1 else 0)" using inv by (simp add: sub_inv_def core_inv_def closed_ok_def split: if_splits)
  moreover have "sc_closed c \<longrightarrow> (\<forall>later. sc_delivered (sub_run c later) = sc_delivered c \<and> sc_failure (sub_run c later) = sc_failure c)"
    using sub_closed_run [of c] by (simp add: still_closed_def)
  moreover have "length (filter (\<lambda>p. \<not> is_done p) (sc_promises c)) \<le> 1" if "\<not> sc_nested c"
    using running_at_most_one [of c] inv that by (simp add: sub_inv_def)
  moreover have "sc_closed c \<and> list_all is_done (sc_promises c)" if "\<not> sc_nested c" "sc_stage c = Ended result" for result
    using that inv by (auto simp: sub_inv_def core_inv_def single_inv_def list_all_length)
  ultimately show ?thesis by blast
qed

section \<open>The end of a call\<close>












section \<open>Witnesses\<close>

definition idle_world :: world where
  "idle_world = \<lparr>clock = 0, abort_reason = (\<lambda>_. None), next_error = 0\<rparr>"

definition plain_call :: "nat sub_call" where
  "plain_call = consume_begin idle_world \<lparr>ctx_signal = 0, ctx_deadline = None, ctx_sampling = False\<rparr>"

text \<open>The collector answers the first value with a promise, meanwhile a second value waits; the promise says enough.\<close>

definition two_values :: "nat sub_call" where
  "two_values = sub_run (consume_begin idle_world \<lparr>ctx_signal = 0, ctx_deadline = None, ctx_sampling = False\<rparr>)
     [(idle_world, Deliver 1), (idle_world, OutReturns OutPromise), (idle_world, Deliver 2), (idle_world, CallbackSettles 0 (Inr True))]"

theorem sub_call_safe_witness:
  "sc_delivered (sub_run two_values [(idle_world, ActiveCleared 0), (idle_world, WaiterRuns)]) = [1] \<and>
   length (filter (\<lambda>p. \<not> is_done p) (sc_promises two_values)) \<le> 1"
proof -
  have "sc_closed two_values" "sc_delivered two_values = [1]" "\<not> sc_nested two_values" by code_simp+
  then show ?thesis using sub_call_safe [OF two_values_def] by simp
qed


text \<open>
  A collector that delivers to its own call before it answers breaks the promise of \<open>close\<close> not to return while a callback is
  active: the second promise replaces the first in \<open>#active\<close>, and when it is done the call ends while the first runs.
\<close>

lemma reentrant_collector:
  "let c = sub_run plain_call (map (Pair idle_world)
       [Deliver 1, Deliver 2, OutReturns OutPromise, OutReturns OutPromise, EmitSettles None, CallbackSettles 1 (Inr True), ActiveCleared 1,
        CompletionSeen, CloseAwake])
   in sc_stage c = Ended None \<and> sc_promises c = [CallbackRunning, ActiveDone None]"
  by code_simp

end
