(* ===== verification/ServiceRuntime.thy ===== *)
theory ServiceRuntime
  imports TaskRegistry JsValue
begin

text \<open>
  The lifecycle of a service: \<open>ServiceRuntime\<close> of \<open>src/runtime/service-runtime.ts\<close> with \<open>settleWithinDeadline\<close> of
  \<open>lifecycle.ts\<close>. Components are started category by category, a failed start is rolled back, and a stop
  takes the components down in phases, with the tasks drained in between. Stops may be called at any
  time and by many callers; one attempt runs at a time, callers join it, and a component that is being stopped is
  never stopped a second time. The awaits of the methods are the places where other events may happen.
\<close>

section \<open>Components and contexts\<close>

datatype category = DataSource | DataSink | ManagedDataConnector | Storage | DelayPools | TaskPools | PriorityTaskPools
  | Components | HttpServer | Telemetry

fun category_text :: "category \<Rightarrow> string" where
  "category_text DataSource = ''dataSource''"
| "category_text DataSink = ''dataSink''"
| "category_text ManagedDataConnector = ''managedDataConnector''"
| "category_text Storage = ''storage''"
| "category_text DelayPools = ''delayPool''"
| "category_text TaskPools = ''taskPool''"
| "category_text PriorityTaskPools = ''priorityTaskPool''"
| "category_text Components = ''component''"
| "category_text HttpServer = ''httpServer''"
| "category_text Telemetry = ''telemetry''"

text \<open>\<open>comp_admission\<close>: the lifecycle has a method \<open>stopAdmission\<close>.\<close>

record component =
  comp_category :: category
  comp_name :: string
  comp_admission :: bool

definition START_ORDER :: "category list" where
  "START_ORDER = [Telemetry, ManagedDataConnector, Storage, DelayPools, TaskPools, PriorityTaskPools, Components, DataSink,
     DataSource, HttpServer]"

definition ADMISSION_CATEGORIES :: "category list" where
  "ADMISSION_CATEGORIES = [DataSource, Components, HttpServer]"

text \<open>
  \<open>error_cause\<close> is the \<open>cause\<close> of an error object, \<open>show_number\<close> the text of a number. The startup context is the
  caller's context joined with the signal of \<open>#startupController\<close>; a stop context has an identity.
\<close>

record stop_world = world +
  error_cause :: "thrown \<Rightarrow> thrown option"
  show_number :: "rat \<Rightarrow> string"

datatype rt_context = StartupContext | StopContext nat context_state

datatype rt_state = RtCreated | RtStarting | RtRunning | RtStopping | RtStopped

fun rt_state_text :: "rt_state \<Rightarrow> string" where
  "rt_state_text RtCreated = ''created''"
| "rt_state_text RtStarting = ''starting''"
| "rt_state_text RtRunning = ''running''"
| "rt_state_text RtStopping = ''stopping''"
| "rt_state_text RtStopped = ''stopped''"

section \<open>State\<close>

text \<open>
  A stop operation is the promise \<open>operation\<close> of \<open>stopComponent\<close>. A ticket is what a wait holds for a
  component: the operation it waits for, and whether it joined one that another context had begun; or the
  result. A wait is that of \<open>stopGroup\<close> or of one turn of \<open>stopSequential\<close>, with the time that remained when it began.
\<close>

datatype op_status = OpRunning | OpFulfilled | OpRejected thrown

record stop_op =
  op_component :: component
  op_admissionOnly :: bool
  op_context :: rt_context
  op_status :: op_status

datatype ticket = Waits nat bool | Settled "thrown option"

datatype wait = GroupWait bool "millis option" "(component \<times> ticket) list" | SeqWait "millis option" component ticket "component list"

text \<open>Where \<open>startOnce\<close> is: what it awaits, and what it has still to do.\<close>

datatype start_action = StartComponent component | StartAdmission component | AdmitManaged

datatype start_pc =
    StartIdle
  | StartBuilding bool
  | StartAwaits start_action "start_action list"
  | StartRollback thrown wait
  | StartEnded "thrown option"

text \<open>
  Where \<open>stopOnce\<close> is. Its phases are numbered: 0 admission of the sources, 1 the sources, 2 admission of the
  connectors, 3 storages and pools, then the drain, 4 sinks, 5 connectors, 6 telemetry.
  The flag of the drain says that it follows a rollback.
\<close>

datatype stop_pc =
    StopIdle
  | StopAwaitStartup "millis option"
  | StopRollback wait
  | StopDrain nat "millis option" bool
  | StopPhase nat wait

record stop_caller =
  caller_context :: rt_context
  caller_budget :: "millis option"
  caller_attempt :: nat
  caller_owns :: bool
  caller_outcome :: "thrown option option"

record runtime =
  rt_components :: "component list"
  rt_started :: "component list"
  rt_tasks :: registry
  rt_ops :: "stop_op list"
  admissionStops :: "(component, nat) jsmap"
  componentStops :: "(component, nat) jsmap"
  rollbackPending :: bool
  startupPending :: bool
  startup_reason :: "thrown option"
  startup_context :: context_state
  rt_state :: rt_state
  start_pc :: start_pc
  stop_pc :: stop_pc
  stop_context :: rt_context
  attempts :: "thrown option list"
  callers :: "stop_caller list"

definition runtime_new :: "registry \<Rightarrow> context_state \<Rightarrow> runtime" where
  "runtime_new tasks ctx =
     \<lparr>rt_components = [], rt_started = [], rt_tasks = tasks, rt_ops = [], admissionStops = [], componentStops = [],
      rollbackPending = False, startupPending = False, startup_reason = None, startup_context = ctx, rt_state = RtCreated,
      start_pc = StartIdle, stop_pc = StopIdle, stop_context = StartupContext, attempts = [], callers = []\<rparr>"

section \<open>Contexts and errors\<close>

fun reason_of :: "stop_world \<Rightarrow> runtime \<Rightarrow> rt_context \<Rightarrow> thrown option" where
  "reason_of w rt StartupContext =
     (case startup_reason rt of Some r \<Rightarrow> Some r | None \<Rightarrow> abort_reason w (ctx_signal (startup_context rt)))"
| "reason_of w rt (StopContext i c) = abort_reason w (ctx_signal c)"

fun context_cancelled :: "stop_world \<Rightarrow> runtime \<Rightarrow> rt_context \<Rightarrow> bool" where
  "context_cancelled w rt StartupContext = (startup_reason rt \<noteq> None \<or> cancelled (world.truncate w) (startup_context rt))"
| "context_cancelled w rt (StopContext i c) = cancelled (world.truncate w) c"

fun context_remaining :: "stop_world \<Rightarrow> runtime \<Rightarrow> rt_context \<Rightarrow> millis option" where
  "context_remaining w rt StartupContext = remainingMs (world.truncate w) (startup_context rt)"
| "context_remaining w rt (StopContext i c) = remainingMs (world.truncate w) c"

definition stopped_error :: "stop_world \<Rightarrow> string \<Rightarrow> thrown" where
  "stopped_error w message = ErrorObj (next_error w) ''RuntimeStoppedError'' message"

definition drain_timeout_error :: "stop_world \<Rightarrow> millis \<Rightarrow> thrown" where
  "drain_timeout_error w budget =
     ErrorObj (next_error w) ''RuntimeDrainTimeoutError'' (''runtime did not drain accepted work within '' @ show_number w budget @ ''ms'')"

text \<open>\<open>budget\<close> is the remaining time when the wait began.\<close>

definition shutdownError :: "stop_world \<Rightarrow> runtime \<Rightarrow> rt_context \<Rightarrow> millis option \<Rightarrow> thrown" where
  "shutdownError w rt ctx budget =
     (if (case reason_of w rt ctx of Some r \<Rightarrow> error_name r = ''ContextDeadlineExceededError'' | None \<Rightarrow> False) \<or>
         context_remaining w rt ctx = Some 0
      then drain_timeout_error w (case budget of Some b \<Rightarrow> b | None \<Rightarrow> 0)
      else errorFromUnknown (next_error w)
        (case reason_of w rt ctx of Some r \<Rightarrow> r | None \<Rightarrow> stopped_error w ''runtime shutdown was cancelled''))"

section \<open>Stopping components\<close>

definition pending_stops :: "runtime \<Rightarrow> bool \<Rightarrow> (component, nat) jsmap" where
  "pending_stops rt admissionOnly = (if admissionOnly then admissionStops rt else componentStops rt)"

definition with_pending :: "runtime \<Rightarrow> bool \<Rightarrow> (component, nat) jsmap \<Rightarrow> runtime" where
  "with_pending rt admissionOnly m = (if admissionOnly then rt\<lparr>admissionStops := m\<rparr> else rt\<lparr>componentStops := m\<rparr>)"

text \<open>\<open>stopComponent\<close>: join the operation that is there, or begin one.\<close>

definition stopComponent :: "runtime \<Rightarrow> component \<Rightarrow> rt_context \<Rightarrow> bool \<Rightarrow> runtime \<times> ticket" where
  "stopComponent rt c ctx admission =
     (let admissionOnly = (admission \<and> comp_admission c); pending = pending_stops rt admissionOnly
      in case jm_get pending c of
           Some n \<Rightarrow> (rt, Waits n (n < length (rt_ops rt) \<and> op_context (rt_ops rt ! n) \<noteq> ctx))
         | None \<Rightarrow>
             ((with_pending rt admissionOnly (jm_set pending c (length (rt_ops rt))))
                \<lparr>rt_ops := rt_ops rt @ [\<lparr>op_component = c, op_admissionOnly = admissionOnly, op_context = ctx, op_status = OpRunning\<rparr>]\<rparr>,
              Waits (length (rt_ops rt)) False))"

text \<open>The lifecycle method of an operation has returned or thrown.\<close>

definition op_settles :: "runtime \<Rightarrow> nat \<Rightarrow> thrown option \<Rightarrow> runtime" where
  "op_settles rt n failure =
     (case elem_at (rt_ops rt) n of
        None \<Rightarrow> rt
      | Some p \<Rightarrow>
          if op_status p \<noteq> OpRunning then rt
          else
            (case failure of
               None \<Rightarrow>
                 (let rt1 = rt\<lparr>rt_ops := (rt_ops rt)[n := p\<lparr>op_status := OpFulfilled\<rparr>]\<rparr>
                  in if op_admissionOnly p then rt1
                     else rt1\<lparr>rt_started := remove1 (op_component p) (rt_started rt1),
                              admissionStops := jm_delete (admissionStops rt1) (op_component p)\<rparr>)
             | Some e \<Rightarrow>
                 (let rt1 = rt\<lparr>rt_ops := (rt_ops rt)[n := p\<lparr>op_status := OpRejected e\<rparr>]\<rparr>; pending = pending_stops rt1 (op_admissionOnly p)
                  in if jm_get pending (op_component p) = Some n
                     then with_pending rt1 (op_admissionOnly p) (jm_delete pending (op_component p)) else rt1)))"

text \<open>The failure of a joined operation is retried when only the wait of the other context has failed.\<close>

definition retry_allowed :: "stop_world \<Rightarrow> runtime \<Rightarrow> rt_context \<Rightarrow> rt_context \<Rightarrow> thrown \<Rightarrow> bool" where
  "retry_allowed w rt existing ctx e \<longleftrightarrow>
     (context_cancelled w rt existing \<or> context_remaining w rt existing = Some 0) \<and>
     (error_name e = ''RuntimeDrainTimeoutError'' \<or> error_name e = ''ContextDeadlineExceededError'' \<or>
      (case reason_of w rt existing of None \<Rightarrow> False | Some r \<Rightarrow> e = r \<or> (is_error e \<and> error_cause w e = Some r))) \<and>
     \<not> context_cancelled w rt ctx \<and> context_remaining w rt ctx \<noteq> Some 0"

definition ticket_step :: "stop_world \<Rightarrow> runtime \<Rightarrow> rt_context \<Rightarrow> bool \<Rightarrow> component \<Rightarrow> ticket \<Rightarrow> runtime \<times> ticket" where
  "ticket_step w rt ctx admission c t =
     (case t of
        Settled r \<Rightarrow> (rt, t)
      | Waits n joined \<Rightarrow>
          (case elem_at (rt_ops rt) n of
             None \<Rightarrow> (rt, t)
           | Some p \<Rightarrow>
               (case op_status p of
                  OpRunning \<Rightarrow> (rt, t)
                | OpFulfilled \<Rightarrow> (rt, Settled None)
                | OpRejected e \<Rightarrow>
                    if joined \<and> retry_allowed w rt (op_context p) ctx e then stopComponent rt c ctx admission
                    else (rt, Settled (Some e)))))"

section \<open>Waits\<close>

fun stop_all :: "runtime \<Rightarrow> component list \<Rightarrow> rt_context \<Rightarrow> bool \<Rightarrow> runtime \<times> (component \<times> ticket) list" where
  "stop_all rt [] ctx admission = (rt, [])"
| "stop_all rt (c # cs) ctx admission =
     (case stopComponent rt c ctx admission of
        (rt1, t) \<Rightarrow> (case stop_all rt1 cs ctx admission of (rt2, ts) \<Rightarrow> (rt2, (c, t) # ts)))"

text \<open>\<open>stopGroup\<close> up to its wait.\<close>

definition stopGroup :: "stop_world \<Rightarrow> runtime \<Rightarrow> component list \<Rightarrow> rt_context \<Rightarrow> bool \<Rightarrow> runtime \<times> wait" where
  "stopGroup w rt cs ctx admission =
     (case stop_all rt (rev cs) ctx admission of (rt', ts) \<Rightarrow> (rt', GroupWait admission (context_remaining w rt ctx) ts))"

text \<open>A turn of \<open>stopSequential\<close>; \<open>None\<close> when there is nothing left to stop.\<close>

fun stop_next :: "stop_world \<Rightarrow> runtime \<Rightarrow> component list \<Rightarrow> rt_context \<Rightarrow> runtime \<times> wait option" where
  "stop_next w rt [] ctx = (rt, None)"
| "stop_next w rt (c # cs) ctx =
     (case stopComponent rt c ctx False of (rt', t) \<Rightarrow> (rt', Some (SeqWait (context_remaining w rt ctx) c t cs)))"

fun wait_step :: "stop_world \<Rightarrow> runtime \<Rightarrow> rt_context \<Rightarrow> wait \<Rightarrow> nat \<Rightarrow> runtime \<times> wait" where
  "wait_step w rt ctx (GroupWait admission budget ts) k =
     (case elem_at ts k of
        None \<Rightarrow> (rt, GroupWait admission budget ts)
      | Some (c, t) \<Rightarrow>
          (case ticket_step w rt ctx admission c t of (rt', t') \<Rightarrow> (rt', GroupWait admission budget (ts[k := (c, t')]))))"
| "wait_step w rt ctx (SeqWait budget c t cs) k =
     (case ticket_step w rt ctx False c t of (rt', t') \<Rightarrow> (rt', SeqWait budget c t' cs))"

fun ticket_settled :: "ticket \<Rightarrow> bool" where
  "ticket_settled (Settled r) \<longleftrightarrow> True"
| "ticket_settled (Waits n j) \<longleftrightarrow> False"

fun ticket_failure :: "thrown \<Rightarrow> nat \<Rightarrow> ticket \<Rightarrow> thrown option" where
  "ticket_failure shutdown k (Settled r) = map_option (errorFromUnknown k) r"
| "ticket_failure shutdown k (Waits n j) = Some shutdown"

fun first_failure :: "thrown option list \<Rightarrow> thrown option" where
  "first_failure [] = None"
| "first_failure (None # fs) = first_failure fs"
| "first_failure (Some e # fs) = Some e"

text \<open>
  \<open>settleWithinDeadline\<close>: the wait is over when everything has settled or the context is cancelled. \<open>Some\<close> is
  the end of the wait, with the failure that is thrown, if one is.
\<close>

fun wait_over :: "stop_world \<Rightarrow> runtime \<Rightarrow> rt_context \<Rightarrow> wait \<Rightarrow> thrown option option" where
  "wait_over w rt ctx (GroupWait admission budget ts) =
     (if list_all (\<lambda>x. ticket_settled (snd x)) ts \<or> context_cancelled w rt ctx
      then Some (first_failure (map (\<lambda>x. ticket_failure (shutdownError w rt ctx budget) (next_error w) (snd x)) ts)) else None)"
| "wait_over w rt ctx (SeqWait budget c t cs) =
     (if ticket_settled t \<or> context_cancelled w rt ctx
      then Some (ticket_failure (shutdownError w rt ctx budget) (next_error w) t) else None)"

text \<open>The components that a sequential wait has still to stop.\<close>

fun wait_rest :: "wait \<Rightarrow> component list" where
  "wait_rest (GroupWait a b ts) = []"
| "wait_rest (SeqWait b c t cs) = cs"

section \<open>Starting\<close>

definition register_component :: "runtime \<Rightarrow> component \<Rightarrow> string + runtime" where
  "register_component rt c =
     (if rt_state rt \<noteq> RtCreated then Inl ''runtime components must be registered before start''
      else if list_ex (\<lambda>d. comp_category d = comp_category c \<and> comp_name d = comp_name c) (rt_components rt)
      then Inl (''duplicate runtime component '' @ category_text (comp_category c) @ '':'' @ comp_name c)
      else Inr (rt\<lparr>rt_components := rt_components rt @ [c]\<rparr>))"

text \<open>What \<open>startOnce\<close> does after the build, in order.\<close>

definition start_plan :: "component list \<Rightarrow> bool \<Rightarrow> start_action list" where
  "start_plan cs admission =
     concat (map (\<lambda>cat.
       if \<not> admission \<and> (cat = DataSource \<or> cat = HttpServer) then []
       else (if cat = DataSource then [AdmitManaged] else []) @ map StartComponent (filter (\<lambda>c. comp_category c = cat) cs))
     START_ORDER)"

definition startMode :: "runtime \<Rightarrow> context_state \<Rightarrow> bool \<Rightarrow> string + runtime" where
  "startMode rt ctx admission =
     (if rt_state rt \<noteq> RtCreated then Inl (''runtime cannot start from state '' @ rt_state_text (rt_state rt))
      else Inr (rt\<lparr>rt_state := RtStarting, startupPending := True, startup_context := ctx, start_pc := StartBuilding admission\<rparr>))"

definition startup_aborted :: "stop_world \<Rightarrow> runtime \<Rightarrow> thrown option" where
  "startup_aborted w rt = reason_of w rt StartupContext"

text \<open>The end of \<open>startOnce\<close> after a failure, when the rollback has ended.\<close>

definition rollback_ended :: "runtime \<Rightarrow> thrown \<Rightarrow> bool \<Rightarrow> runtime" where
  "rollback_ended rt e complete_rollback =
     (let rt1 = rt\<lparr>rollbackPending := \<not> complete_rollback\<rparr>
      in rt1\<lparr>rt_state := (if rt_started rt1 = [] \<and> activeCount (rt_tasks rt1) = 0 then RtStopped else RtStopping),
             startupPending := False, start_pc := StartEnded (Some e)\<rparr>)"

text \<open>\<open>catch\<close>: the tasks are cancelled and what was started is stopped again, last first.\<close>

definition start_failed :: "stop_world \<Rightarrow> runtime \<Rightarrow> thrown \<Rightarrow> runtime" where
  "start_failed w rt e =
     (let rt1 = rt\<lparr>rt_tasks := registry_cancel (rt_tasks rt) e, rollbackPending := True\<rparr>
      in case stop_next w rt1 (rev (rt_started rt1)) StartupContext of
           (rt2, None) \<Rightarrow> rollback_ended rt2 e True
         | (rt2, Some wt) \<Rightarrow> rt2\<lparr>start_pc := StartRollback e wt\<rparr>)"

fun start_next :: "stop_world \<Rightarrow> runtime \<Rightarrow> start_action list \<Rightarrow> runtime" where
  "start_next w rt [] = rt\<lparr>rt_state := RtRunning, startupPending := False, start_pc := StartEnded None\<rparr>"
| "start_next w rt (AdmitManaged # as) =
     (case map StartAdmission (filter (\<lambda>c. comp_category c = ManagedDataConnector) (rt_started rt)) of
        [] \<Rightarrow> start_next w rt as
      | a # bs \<Rightarrow> rt\<lparr>start_pc := StartAwaits a (bs @ as)\<rparr>)"
| "start_next w rt (StartComponent c # as) =
     (case startup_aborted w rt of
        Some r \<Rightarrow> start_failed w rt r
      | None \<Rightarrow> rt\<lparr>start_pc := StartAwaits (StartComponent c) as\<rparr>)"
| "start_next w rt (StartAdmission c # as) = rt\<lparr>start_pc := StartAwaits (StartAdmission c) as\<rparr>"

text \<open>The build of the streams has ended; \<open>topology\<close> is what \<open>validateRuntimeTopology\<close> throws.\<close>

definition build_settles :: "stop_world \<Rightarrow> runtime \<Rightarrow> thrown option \<Rightarrow> thrown option \<Rightarrow> runtime" where
  "build_settles w rt failure topology =
     (case start_pc rt of
        StartBuilding admission \<Rightarrow>
          (case first_failure [failure, startup_aborted w rt, topology] of
             Some e \<Rightarrow> start_failed w rt e
           | None \<Rightarrow> start_next w rt (start_plan (rt_components rt) admission))
      | _ \<Rightarrow> rt)"

text \<open>\<open>lifecycle.start\<close> or \<open>startAdmission\<close> of the component has returned or thrown.\<close>

definition start_settles :: "stop_world \<Rightarrow> runtime \<Rightarrow> thrown option \<Rightarrow> runtime" where
  "start_settles w rt failure =
     (case start_pc rt of
        StartAwaits a as \<Rightarrow>
          (case failure of
             Some e \<Rightarrow> start_failed w rt e
           | None \<Rightarrow>
               (let rt1 = (case a of StartComponent c \<Rightarrow> rt\<lparr>rt_started := rt_started rt @ [c]\<rparr> | _ \<Rightarrow> rt)
                in case startup_aborted w rt1 of Some r \<Rightarrow> start_failed w rt1 r | None \<Rightarrow> start_next w rt1 as))
      | _ \<Rightarrow> rt)"

text \<open>The wait of the rollback is over.\<close>

definition rollback_over :: "stop_world \<Rightarrow> runtime \<Rightarrow> runtime" where
  "rollback_over w rt =
     (case start_pc rt of
        StartRollback e wt \<Rightarrow>
          (case wait_over w rt StartupContext wt of
             None \<Rightarrow> rt
           | Some (Some f) \<Rightarrow> rollback_ended rt e False
           | Some None \<Rightarrow>
               (case stop_next w rt (wait_rest wt) StartupContext of
                  (rt1, None) \<Rightarrow> rollback_ended rt1 e True
                | (rt1, Some wt') \<Rightarrow> rt1\<lparr>start_pc := StartRollback e wt'\<rparr>))
      | _ \<Rightarrow> rt)"

section \<open>One attempt to stop\<close>

definition is_admission_category :: "component \<Rightarrow> bool" where
  "is_admission_category c \<longleftrightarrow> comp_category c \<in> set ADMISSION_CATEGORIES"

text \<open>The components of a phase, among those that are started.\<close>

definition phase_components :: "nat \<Rightarrow> component \<Rightarrow> bool" where
  "phase_components n c \<longleftrightarrow>
     (if n = 0 then is_admission_category c
      else if n = 1 then is_admission_category c \<and> comp_admission c
      else if n = 2 then comp_category c = ManagedDataConnector
      else if n = 3 then comp_category c \<in> {Storage, DelayPools, TaskPools, PriorityTaskPools}
      else if n = 4 then comp_category c = DataSink
      else if n = 5 then comp_category c = ManagedDataConnector
      else comp_category c = Telemetry)"

definition attempt_ended :: "runtime \<Rightarrow> thrown option \<Rightarrow> runtime" where
  "attempt_ended rt result = rt\<lparr>stop_pc := StopIdle, attempts := attempts rt @ [result]\<rparr>"

definition attempt_succeeded :: "runtime \<Rightarrow> runtime" where
  "attempt_succeeded rt = attempt_ended (rt\<lparr>rt_state := RtStopped\<rparr>) None"

text \<open>The beginning of phase \<open>n\<close>: admission stops in phases 0 and 2, one component after the other in phase 6.\<close>

definition begin_phase :: "stop_world \<Rightarrow> runtime \<Rightarrow> nat \<Rightarrow> runtime" where
  "begin_phase w rt n =
     (let cs = filter (phase_components n) (rt_started rt); ctx = stop_context rt
      in if n < 6
         then (case stopGroup w rt cs ctx (n = 0 \<or> n = 2) of (rt', wt) \<Rightarrow> rt'\<lparr>stop_pc := StopPhase n wt\<rparr>)
         else (case stop_next w rt (rev cs) ctx of
                 (rt', None) \<Rightarrow> attempt_succeeded rt'
               | (rt', Some wt) \<Rightarrow> rt'\<lparr>stop_pc := StopPhase n wt\<rparr>))"

text \<open>After the drain: the end, or the phase of the sinks.\<close>

definition drained :: "stop_world \<Rightarrow> runtime \<Rightarrow> bool \<Rightarrow> runtime" where
  "drained w rt after_rollback =
     (let rt1 = rt\<lparr>rt_tasks := stopAdmission (rt_tasks rt)\<rparr>
      in if after_rollback then attempt_succeeded rt1 else begin_phase w rt1 4)"

definition drainTasks :: "stop_world \<Rightarrow> runtime \<Rightarrow> bool \<Rightarrow> runtime" where
  "drainTasks w rt after_rollback =
     (if activeCount (rt_tasks rt) > 0
      then (let budget = context_remaining w rt (stop_context rt)
            in rt\<lparr>rt_tasks := TaskRegistry.drain (rt_tasks rt) budget,
                  stop_pc := StopDrain (length (drains (rt_tasks rt))) budget after_rollback\<rparr>)
      else drained w rt after_rollback)"

definition drain_failed :: "runtime \<Rightarrow> thrown \<Rightarrow> runtime" where
  "drain_failed rt e = attempt_ended (rt\<lparr>rt_tasks := registry_cancel (rt_tasks rt) e\<rparr>) (Some e)"

text \<open>The wait for the drain: resolved, timed out, or the context has ended.\<close>

definition drain_over :: "stop_world \<Rightarrow> runtime \<Rightarrow> runtime" where
  "drain_over w rt =
     (case stop_pc rt of
        StopDrain d budget after_rollback \<Rightarrow>
          (case elem_at (drains (rt_tasks rt)) d of
             Some (_, Drained) \<Rightarrow> drained w rt after_rollback
           | Some (_, DrainTimedOut ms) \<Rightarrow> drain_failed rt (drain_timeout_error w ms)
           | _ \<Rightarrow> if context_cancelled w rt (stop_context rt)
                  then drain_failed rt (shutdownError w rt (stop_context rt) budget) else rt)
      | _ \<Rightarrow> rt)"

text \<open>The rollback of an attempt, component by component.\<close>

definition attempt_rollback :: "stop_world \<Rightarrow> runtime \<Rightarrow> component list \<Rightarrow> runtime" where
  "attempt_rollback w rt cs =
     (case stop_next w rt cs (stop_context rt) of
        (rt1, None) \<Rightarrow> drainTasks w (rt1\<lparr>rollbackPending := False\<rparr>) True
      | (rt1, Some wt) \<Rightarrow> rt1\<lparr>stop_pc := StopRollback wt\<rparr>)"

text \<open>What follows once the startup is over.\<close>

definition after_startup :: "stop_world \<Rightarrow> runtime \<Rightarrow> runtime" where
  "after_startup w rt = (if rollbackPending rt then attempt_rollback w rt (rev (rt_started rt)) else begin_phase w rt 0)"

definition stopOnce :: "stop_world \<Rightarrow> runtime \<Rightarrow> rt_context \<Rightarrow> runtime" where
  "stopOnce w rt ctx =
     (let rt1 = rt\<lparr>rt_state := RtStopping, stop_context := ctx\<rparr>
      in if startupPending rt1
         then rt1\<lparr>startup_reason := Some (case reason_of w rt1 StartupContext of
                                          Some r \<Rightarrow> r
                                        | None \<Rightarrow> stopped_error w ''runtime startup was stopped''),
                  stop_pc := StopAwaitStartup (context_remaining w rt1 ctx)\<rparr>
         else after_startup w rt1)"

text \<open>The wait for the startup is over: it has ended, or the context has.\<close>

definition startup_over :: "stop_world \<Rightarrow> runtime \<Rightarrow> runtime" where
  "startup_over w rt =
     (case stop_pc rt of
        StopAwaitStartup budget \<Rightarrow>
          (case start_pc rt of
             StartEnded r \<Rightarrow> after_startup w rt
           | _ \<Rightarrow>
               if context_cancelled w rt (stop_context rt)
               then (let e = shutdownError w rt (stop_context rt) budget
                     in attempt_ended (rt\<lparr>rt_tasks := registry_cancel (rt_tasks rt) e\<rparr>) (Some e))
               else rt)
      | _ \<Rightarrow> rt)"

text \<open>The wait of a rollback or of a phase is over.\<close>

definition phase_over :: "stop_world \<Rightarrow> runtime \<Rightarrow> runtime" where
  "phase_over w rt =
     (case stop_pc rt of
        StopRollback wt \<Rightarrow>
          (case wait_over w rt (stop_context rt) wt of
             None \<Rightarrow> rt
           | Some (Some e) \<Rightarrow> attempt_ended rt (Some e)
           | Some None \<Rightarrow> attempt_rollback w rt (wait_rest wt))
      | StopPhase n wt \<Rightarrow>
          (case wait_over w rt (stop_context rt) wt of
             None \<Rightarrow> rt
           | Some (Some e) \<Rightarrow> attempt_ended rt (Some e)
           | Some None \<Rightarrow>
               if n < 6 then (if n = 3 then drainTasks w rt False else begin_phase w rt (n + 1))
               else (case stop_next w rt (wait_rest wt) (stop_context rt) of
                       (rt1, None) \<Rightarrow> attempt_succeeded rt1
                     | (rt1, Some wt') \<Rightarrow> rt1\<lparr>stop_pc := StopPhase n wt'\<rparr>))
      | _ \<Rightarrow> rt)"

section \<open>Callers of stop\<close>

definition join_attempt :: "stop_world \<Rightarrow> runtime \<Rightarrow> rt_context \<Rightarrow> runtime \<times> bool \<times> nat" where
  "join_attempt w rt ctx =
     (if stop_pc rt = StopIdle then (stopOnce w rt ctx, True, length (attempts rt)) else (rt, False, length (attempts rt)))"

definition stop_service :: "stop_world \<Rightarrow> runtime \<Rightarrow> nat \<Rightarrow> context_state \<Rightarrow> runtime" where
  "stop_service w rt i c =
     (let ctx = StopContext i c; budget = context_remaining w rt ctx
      in if \<not> startupPending rt \<and> rt_started rt = [] \<and> activeCount (rt_tasks rt) = 0
         then rt\<lparr>rt_tasks := stopAdmission (rt_tasks rt), rt_state := RtStopped,
                 callers := callers rt @ [\<lparr>caller_context = ctx, caller_budget = budget, caller_attempt = length (attempts rt),
                   caller_owns = False, caller_outcome = Some None\<rparr>]\<rparr>
         else (case join_attempt w rt ctx of
                 (rt1, owns, a) \<Rightarrow>
                   rt1\<lparr>callers := callers rt1 @ [\<lparr>caller_context = ctx, caller_budget = budget, caller_attempt = a,
                     caller_owns = owns, caller_outcome = None\<rparr>]\<rparr>))"

text \<open>A caller wakes: its attempt has ended, or its context has.\<close>

definition caller_fails :: "runtime \<Rightarrow> nat \<Rightarrow> stop_caller \<Rightarrow> thrown \<Rightarrow> runtime" where
  "caller_fails rt k c e =
     rt\<lparr>rt_tasks := stopAdmission (rt_tasks rt), callers := (callers rt)[k := c\<lparr>caller_outcome := Some (Some e)\<rparr>]\<rparr>"

definition caller_wakes :: "stop_world \<Rightarrow> runtime \<Rightarrow> nat \<Rightarrow> runtime" where
  "caller_wakes w rt k =
     (case elem_at (callers rt) k of
        None \<Rightarrow> rt
      | Some c \<Rightarrow>
          if caller_outcome c \<noteq> None then rt
          else
            (let ctx = caller_context c; failure = shutdownError w rt ctx (caller_budget c)
             in case elem_at (attempts rt) (caller_attempt c) of
                  None \<Rightarrow> if context_cancelled w rt ctx then caller_fails rt k c failure else rt
                | Some None \<Rightarrow> rt\<lparr>callers := (callers rt)[k := c\<lparr>caller_outcome := Some None\<rparr>]\<rparr>
                | Some (Some e) \<Rightarrow>
                    if context_cancelled w rt ctx \<or> context_remaining w rt ctx = Some 0 then caller_fails rt k c failure
                    else if caller_owns c then caller_fails rt k c (errorFromUnknown (next_error w) e)
                    else (case join_attempt w rt ctx of
                            (rt1, owns, a) \<Rightarrow>
                              rt1\<lparr>callers := (callers rt1)[k := c\<lparr>caller_attempt := a, caller_owns := owns\<rparr>]\<rparr>)))"

section \<open>Events\<close>

datatype rt_event =
    Register component
  | StartService context_state bool
  | BuildSettles "thrown option" "thrown option"
  | StartSettles "thrown option"
  | RollbackTicket nat
  | RollbackOver
  | StopService nat context_state
  | StartupOver
  | StopTicket nat
  | PhaseOver
  | DrainOver
  | CallerWakes nat
  | OpSettles nat "thrown option"
  | TaskEvent registry_event

definition rollback_ticket :: "stop_world \<Rightarrow> runtime \<Rightarrow> nat \<Rightarrow> runtime" where
  "rollback_ticket w rt k =
     (case start_pc rt of
        StartRollback e wt \<Rightarrow> (case wait_step w rt StartupContext wt k of (rt', wt') \<Rightarrow> rt'\<lparr>start_pc := StartRollback e wt'\<rparr>)
      | _ \<Rightarrow> rt)"

definition stop_ticket :: "stop_world \<Rightarrow> runtime \<Rightarrow> nat \<Rightarrow> runtime" where
  "stop_ticket w rt k =
     (case stop_pc rt of
        StopRollback wt \<Rightarrow> (case wait_step w rt (stop_context rt) wt k of (rt', wt') \<Rightarrow> rt'\<lparr>stop_pc := StopRollback wt'\<rparr>)
      | StopPhase n wt \<Rightarrow> (case wait_step w rt (stop_context rt) wt k of (rt', wt') \<Rightarrow> rt'\<lparr>stop_pc := StopPhase n wt'\<rparr>)
      | _ \<Rightarrow> rt)"

fun rt_step :: "runtime \<Rightarrow> stop_world \<times> rt_event \<Rightarrow> runtime" where
  "rt_step rt (w, Register c) = (case register_component rt c of Inl _ \<Rightarrow> rt | Inr rt' \<Rightarrow> rt')"
| "rt_step rt (w, StartService ctx admission) = (case startMode rt ctx admission of Inl _ \<Rightarrow> rt | Inr rt' \<Rightarrow> rt')"
| "rt_step rt (w, BuildSettles failure topology) = build_settles w rt failure topology"
| "rt_step rt (w, StartSettles failure) = start_settles w rt failure"
| "rt_step rt (w, RollbackTicket k) = rollback_ticket w rt k"
| "rt_step rt (w, RollbackOver) = rollback_over w rt"
| "rt_step rt (w, StopService i c) = stop_service w rt i c"
| "rt_step rt (w, StartupOver) = startup_over w rt"
| "rt_step rt (w, StopTicket k) = stop_ticket w rt k"
| "rt_step rt (w, PhaseOver) = phase_over w rt"
| "rt_step rt (w, DrainOver) = drain_over w rt"
| "rt_step rt (w, CallerWakes k) = caller_wakes w rt k"
| "rt_step rt (w, OpSettles n failure) = op_settles rt n failure"
| "rt_step rt (w, TaskEvent e) = rt\<lparr>rt_tasks := registry_step (rt_tasks rt) e\<rparr>"

definition rt_run :: "runtime \<Rightarrow> (stop_world \<times> rt_event) list \<Rightarrow> runtime" where
  "rt_run rt es = foldl rt_step rt es"


section \<open>Operations and tickets\<close>

text \<open>
  The pending maps lead to operations of their component that run or have succeeded; a stop that runs or
  has succeeded is the one its component is mapped to, so there is one per component; and a component
  whose stop has succeeded is not started any more.
\<close>

fun op_alive :: "op_status \<Rightarrow> bool" where
  "op_alive (OpRejected e) \<longleftrightarrow> False"
| "op_alive s \<longleftrightarrow> True"

definition maps_to_ops :: "runtime \<Rightarrow> bool \<Rightarrow> bool" where
  "maps_to_ops rt a \<longleftrightarrow>
     (\<forall>c n. jm_get (pending_stops rt a) c = Some n \<longrightarrow> n < length (rt_ops rt) \<and> op_component (rt_ops rt ! n) = c \<and>
        op_admissionOnly (rt_ops rt ! n) = a)"

definition ops_ok :: "runtime \<Rightarrow> bool" where
  "ops_ok rt \<longleftrightarrow> maps_to_ops rt True \<and> maps_to_ops rt False \<and> distinct (rt_started rt) \<and>
     (\<forall>n < length (rt_ops rt). \<not> op_admissionOnly (rt_ops rt ! n) \<and> op_alive (op_status (rt_ops rt ! n)) \<longrightarrow>
        jm_get (componentStops rt) (op_component (rt_ops rt ! n)) = Some n) \<and>
     (\<forall>n < length (rt_ops rt). \<not> op_admissionOnly (rt_ops rt ! n) \<and> op_status (rt_ops rt ! n) = OpFulfilled \<longrightarrow>
        op_component (rt_ops rt ! n) \<notin> set (rt_started rt))"

fun ticket_ok :: "runtime \<Rightarrow> bool \<Rightarrow> component \<times> ticket \<Rightarrow> bool" where
  "ticket_ok rt admission (c, Waits n j) \<longleftrightarrow> n < length (rt_ops rt) \<and> op_component (rt_ops rt ! n) = c \<and>
     op_admissionOnly (rt_ops rt ! n) = (admission \<and> comp_admission c)"
| "ticket_ok rt admission (c, Settled (Some e)) \<longleftrightarrow> True"
| "ticket_ok rt admission (c, Settled None) \<longleftrightarrow> (admission \<and> comp_admission c) \<or> c \<notin> set (rt_started rt)"

fun wait_ok :: "runtime \<Rightarrow> wait \<Rightarrow> bool" where
  "wait_ok rt (GroupWait a b ts) \<longleftrightarrow> list_all (ticket_ok rt a) ts"
| "wait_ok rt (SeqWait b c t cs) \<longleftrightarrow> ticket_ok rt False (c, t)"

text \<open>The started components with a property are all in the wait.\<close>

fun covers :: "component set \<Rightarrow> wait \<Rightarrow> bool" where
  "covers S (GroupWait a b ts) \<longleftrightarrow> S \<subseteq> set (map fst ts)"
| "covers S (SeqWait b c t cs) \<longleftrightarrow> S \<subseteq> insert c (set cs)"

text \<open>Time passes: components are stopped, operations are added and keep what they are for.\<close>

definition later :: "runtime \<Rightarrow> runtime \<Rightarrow> bool" where
  "later rt rt' \<longleftrightarrow> set (rt_started rt') \<subseteq> set (rt_started rt) \<and> length (rt_ops rt) \<le> length (rt_ops rt') \<and>
     (\<forall>n < length (rt_ops rt). op_component (rt_ops rt' ! n) = op_component (rt_ops rt ! n) \<and>
        op_admissionOnly (rt_ops rt' ! n) = op_admissionOnly (rt_ops rt ! n))"

lemma later_refl: "later rt rt"
  by (simp add: later_def)

lemma later_trans: "later a b \<Longrightarrow> later b c \<Longrightarrow> later a c"
  by (auto simp: later_def)

lemma later_cong: "rt_started rt' = rt_started rt \<Longrightarrow> rt_ops rt' = rt_ops rt \<Longrightarrow> later rt rt'"
  by (simp add: later_def)

lemma ticket_ok_later: "later rt rt' \<Longrightarrow> ticket_ok rt a x \<Longrightarrow> ticket_ok rt' a x"
  by (cases "(rt, a, x)" rule: ticket_ok.cases) (auto simp: later_def)

lemma wait_ok_later: "later rt rt' \<Longrightarrow> wait_ok rt wt \<Longrightarrow> wait_ok rt' wt"
  by (cases wt) (auto simp: list_all_iff intro: ticket_ok_later)

lemma ops_ok_cong:
  assumes "ops_ok rt" and "rt_started rt' = rt_started rt" and "rt_ops rt' = rt_ops rt"
    and "admissionStops rt' = admissionStops rt" and "componentStops rt' = componentStops rt"
  shows "ops_ok rt'"
  using assms by (auto simp: ops_ok_def maps_to_ops_def pending_stops_def)

lemma ops_ok_update [simp]:
  "ops_ok (rt\<lparr>rt_components := x0\<rparr>) = ops_ok rt"
  "ops_ok (rt\<lparr>rt_tasks := x1\<rparr>) = ops_ok rt"
  "ops_ok (rt\<lparr>rollbackPending := x2\<rparr>) = ops_ok rt"
  "ops_ok (rt\<lparr>startupPending := x3\<rparr>) = ops_ok rt"
  "ops_ok (rt\<lparr>startup_reason := x4\<rparr>) = ops_ok rt"
  "ops_ok (rt\<lparr>startup_context := x5\<rparr>) = ops_ok rt"
  "ops_ok (rt\<lparr>rt_state := x6\<rparr>) = ops_ok rt"
  "ops_ok (rt\<lparr>start_pc := x7\<rparr>) = ops_ok rt"
  "ops_ok (rt\<lparr>stop_pc := x8\<rparr>) = ops_ok rt"
  "ops_ok (rt\<lparr>stop_context := x9\<rparr>) = ops_ok rt"
  "ops_ok (rt\<lparr>attempts := x10\<rparr>) = ops_ok rt"
  "ops_ok (rt\<lparr>callers := x11\<rparr>) = ops_ok rt"
  by (simp_all add: ops_ok_def maps_to_ops_def pending_stops_def)

text \<open>What \<open>stopComponent\<close> and the like leave alone.\<close>

definition rest_of where
  "rest_of rt = (rt_components rt, rt_started rt, rt_tasks rt, (rollbackPending rt, startupPending rt, startup_reason rt, startup_context rt),
     rt_state rt, start_pc rt, stop_pc rt, stop_context rt, attempts rt, callers rt)"

lemma rest_of_fields:
  assumes "rest_of rt' = rest_of rt"
  shows "rt_components rt' = rt_components rt" "rt_started rt' = rt_started rt" "rt_tasks rt' = rt_tasks rt"
    "rollbackPending rt' = rollbackPending rt" "startupPending rt' = startupPending rt" "startup_reason rt' = startup_reason rt"
    "startup_context rt' = startup_context rt" "rt_state rt' = rt_state rt" "start_pc rt' = start_pc rt" "stop_pc rt' = stop_pc rt"
    "stop_context rt' = stop_context rt" "attempts rt' = attempts rt" "callers rt' = callers rt"
  using assms by (simp_all add: rest_of_def)

lemma with_pending_fields [simp]:
  "rest_of (with_pending rt a m) = rest_of rt" "rt_ops (with_pending rt a m) = rt_ops rt"
  "rt_started (with_pending rt a m) = rt_started rt"
  by (simp_all add: with_pending_def rest_of_def)

lemma pending_with_pending [simp]:
  "pending_stops (with_pending rt a m) b = (if b = a then m else pending_stops rt b)"
  "componentStops (with_pending rt a m) = (if a then componentStops rt else m)"
  by (simp_all add: pending_stops_def with_pending_def)

lemma all_maps: "ops_ok rt \<Longrightarrow> maps_to_ops rt b"
  by (cases b) (simp_all add: ops_ok_def)

lemma stopComponent_spec:
  assumes "ops_ok rt" and "stopComponent rt c ctx admission = (rt', t)"
  shows "ops_ok rt' \<and> later rt rt' \<and> rest_of rt' = rest_of rt \<and> ticket_ok rt' admission (c, t)"
proof (cases "jm_get (pending_stops rt (admission \<and> comp_admission c)) c")
  case (Some n)
  show ?thesis
    using assms Some all_maps [OF assms(1), of "admission \<and> comp_admission c"]
    by (auto simp: stopComponent_def Let_def later_refl maps_to_ops_def)
next
  case None
  let ?a = "admission \<and> comp_admission c"
  let ?p = "\<lparr>op_component = c, op_admissionOnly = ?a, op_context = ctx, op_status = OpRunning\<rparr>"
  let ?n = "length (rt_ops rt)"
  have rt': "rt' = (with_pending rt ?a (jm_set (pending_stops rt ?a) c ?n))\<lparr>rt_ops := rt_ops rt @ [?p]\<rparr>" and t: "t = Waits ?n False"
    using assms(2) None by (auto simp: stopComponent_def Let_def)
  have st: "rt_started rt' = rt_started rt" and ops: "rt_ops rt' = rt_ops rt @ [?p]"
    and pend: "pending_stops rt' b = (if b = ?a then jm_set (pending_stops rt ?a) c ?n else pending_stops rt b)" for b
    unfolding rt' by (simp_all add: pending_stops_def with_pending_def)
  have maps: "maps_to_ops rt' b" for b
    unfolding maps_to_ops_def pend ops
    using all_maps [OF assms(1), of b] all_maps [OF assms(1), of ?a]
    by (cases "b = ?a") (auto simp: maps_to_ops_def jm_get_set nth_append less_SucI split: if_splits)
  have comp: "componentStops rt' = (if ?a then componentStops rt else jm_set (componentStops rt) c ?n)"
    using pend [of False] by (simp add: pending_stops_def split: if_splits)
  have fresh: "op_component (rt_ops rt ! n) \<noteq> c" if "\<not> ?a" "n < ?n" "\<not> op_admissionOnly (rt_ops rt ! n)" "op_alive (op_status (rt_ops rt ! n))" for n
    using that assms(1) None by (auto simp: ops_ok_def pending_stops_def)
  have "ops_ok rt'"
    unfolding ops_ok_def using maps assms(1) fresh
    by (auto simp: ops_ok_def st ops comp jm_get_set nth_append less_Suc_eq)
  moreover have "later rt rt'" by (simp add: later_def st ops nth_append)
  moreover have "rest_of rt' = rest_of rt" unfolding rt' by (simp add: rest_of_def with_pending_def)
  ultimately show ?thesis by (simp add: t ops nth_append)
qed


lemma stop_all_spec:
  "ops_ok rt \<Longrightarrow> stop_all rt cs ctx a = (rt', ts) \<Longrightarrow>
    ops_ok rt' \<and> later rt rt' \<and> rest_of rt' = rest_of rt \<and> map fst ts = cs \<and> list_all (ticket_ok rt' a) ts"
proof (induction cs arbitrary: rt rt' ts)
  case (Cons c cs)
  obtain rt1 t where s: "stopComponent rt c ctx a = (rt1, t)" by (cases "stopComponent rt c ctx a")
  obtain rt2 us where u: "stop_all rt1 cs ctx a = (rt2, us)" by (cases "stop_all rt1 cs ctx a")
  note first = stopComponent_spec [OF Cons.prems(1) s]
  note others = Cons.IH [of rt1 rt2 us]
  from Cons.prems(2) s u have "rt' = rt2" "ts = (c, t) # us" by simp_all
  with first others u show ?case by (auto intro: later_trans ticket_ok_later)
qed (simp add: later_refl)

lemma stopGroup_spec:
  assumes "ops_ok rt" and "stopGroup w rt cs ctx a = (rt', wt)"
  shows "ops_ok rt' \<and> later rt rt' \<and> rest_of rt' = rest_of rt \<and> wait_ok rt' wt \<and> covers (set cs) wt \<and> (\<exists>b ts. wt = GroupWait a b ts) \<and>
    (cs = [] \<longrightarrow> rt' = rt)"
proof -
  obtain rt1 ts where s: "stop_all rt (rev cs) ctx a = (rt1, ts)" by (cases "stop_all rt (rev cs) ctx a")
  have "set cs = set (map fst ts)" using stop_all_spec [OF assms(1) s] by (metis set_rev)
  then show ?thesis using stop_all_spec [OF assms(1) s] assms(2) s by (auto simp: stopGroup_def)
qed

lemma stop_next_spec:
  assumes "ops_ok rt" and "stop_next w rt cs ctx = (rt', r)"
  shows "ops_ok rt' \<and> later rt rt' \<and> rest_of rt' = rest_of rt \<and>
    (case r of None \<Rightarrow> cs = [] \<and> rt' = rt | Some wt \<Rightarrow> wait_ok rt' wt \<and> covers (set cs) wt \<and> (\<exists>b c t ds. wt = SeqWait b c t ds))"
proof (cases cs)
  case (Cons c ds)
  obtain rt1 t where s: "stopComponent rt c ctx False = (rt1, t)" by (cases "stopComponent rt c ctx False")
  with stopComponent_spec [OF assms(1) s] assms(2) Cons show ?thesis by auto
qed (use assms in \<open>auto simp: later_refl\<close>)

lemma ticket_step_spec:
  assumes "ops_ok rt" and "ticket_ok rt a (c, t)" and "ticket_step w rt ctx a c t = (rt', t')"
  shows "ops_ok rt' \<and> later rt rt' \<and> rest_of rt' = rest_of rt \<and> ticket_ok rt' a (c, t') \<and> (rt_ops rt = [] \<longrightarrow> rt' = rt)"
proof (cases t)
  case (Waits n j)
  then have n: "n < length (rt_ops rt)" "op_component (rt_ops rt ! n) = c" "op_admissionOnly (rt_ops rt ! n) = (a \<and> comp_admission c)"
    using assms(2) by simp_all
  show ?thesis
  proof (cases "op_status (rt_ops rt ! n)")
    case OpFulfilled
    then have "(a \<and> comp_admission c) \<or> c \<notin> set (rt_started rt)" using n assms(1) by (auto simp: ops_ok_def)
    then show ?thesis using assms Waits n OpFulfilled by (auto simp: ticket_step_def elem_at_def later_refl)
  next
    case (OpRejected e)
    then show ?thesis
      using assms Waits n stopComponent_spec [OF assms(1)]
      by (auto simp: ticket_step_def elem_at_def later_refl split: if_splits)
  qed (use assms Waits n in \<open>auto simp: ticket_step_def elem_at_def later_refl\<close>)
qed (use assms in \<open>auto simp: ticket_step_def later_refl\<close>)

lemma wait_step_spec:
  assumes "ops_ok rt" and "wait_ok rt wt" and "wait_step w rt ctx wt k = (rt', wt')"
  shows "ops_ok rt' \<and> later rt rt' \<and> rest_of rt' = rest_of rt \<and> wait_ok rt' wt' \<and> (covers S wt \<longrightarrow> covers S wt') \<and>
    (\<forall>a. (\<exists>b ts. wt = GroupWait a b ts) \<longrightarrow> (\<exists>b ts. wt' = GroupWait a b ts)) \<and>
    ((\<exists>b c t cs. wt = SeqWait b c t cs) \<longrightarrow> (\<exists>b c t cs. wt' = SeqWait b c t cs)) \<and> (rt_ops rt = [] \<longrightarrow> rt' = rt)"
proof (cases wt)
  case (GroupWait a b ts)
  show ?thesis
  proof (cases "elem_at ts k")
    case None
    then show ?thesis using assms GroupWait by (auto simp: later_refl elem_at_def)
  next
    case (Some ct)
    obtain c t where ct: "ct = (c, t)" by (cases ct)
    obtain rt1 t' where s: "ticket_step w rt ctx a c t = (rt1, t')" by (cases "ticket_step w rt ctx a c t")
    have k: "k < length ts" "ts ! k = (c, t)" using Some ct by simp_all
    have "ticket_ok rt a (c, t)" using assms(2) GroupWait k by (metis list_all_length wait_ok.simps(1))
    note spec = ticket_step_spec [OF assms(1) this s]
    have eq: "rt' = rt1" "wt' = GroupWait a b (ts[k := (c, t')])" using assms(3) GroupWait k ct s by (simp_all add: elem_at_def)
    have "map fst (ts[k := (c, t')]) = map fst ts" using k by (metis fst_conv list_update_id map_update nth_map)
    moreover have "list_all (ticket_ok rt1 a) (ts[k := (c, t')])"
      using assms(2) GroupWait spec ticket_ok_later [of rt rt1]
      by (auto simp: list_all_iff dest!: set_update_subset_insert [THEN subsetD])
    ultimately show ?thesis using spec eq GroupWait by simp
  qed
next
  case (SeqWait b c t cs)
  obtain rt1 t' where s: "ticket_step w rt ctx False c t = (rt1, t')" by (cases "ticket_step w rt ctx False c t")
  have "ticket_ok rt False (c, t)" using assms(2) SeqWait by simp
  from ticket_step_spec [OF assms(1) this s] show ?thesis using assms(3) SeqWait s by auto
qed

lemma updated_op:
  assumes "n < length ops"
  shows "op_component (ops[n := (ops ! n)\<lparr>op_status := s\<rparr>] ! k) = op_component (ops ! k)"
    "op_admissionOnly (ops[n := (ops ! n)\<lparr>op_status := s\<rparr>] ! k) = op_admissionOnly (ops ! k)"
    "op_status (ops[n := (ops ! n)\<lparr>op_status := s\<rparr>] ! k) = (if k = n then s else op_status (ops ! k))"
  using assms by (simp_all add: nth_list_update)

lemma op_settles_spec:
  assumes "ops_ok rt"
  shows "ops_ok (op_settles rt n failure) \<and> later rt (op_settles rt n failure) \<and>
    rest_of ((op_settles rt n failure)\<lparr>rt_started := rt_started rt\<rparr>) = rest_of rt"
proof (cases "n < length (rt_ops rt) \<and> op_status (rt_ops rt ! n) = OpRunning")
  case running: True
  let ?p = "rt_ops rt ! n"
  note upd = updated_op [OF conjunct1 [OF running]]
  have own: "jm_get (componentStops rt) (op_component ?p) = Some n" if "\<not> op_admissionOnly ?p"
    using that assms running by (simp add: ops_ok_def)
  show ?thesis
  proof (cases failure)
    case None
    show ?thesis
    proof (cases "op_admissionOnly ?p")
      case True
      then have "op_settles rt n failure = rt\<lparr>rt_ops := (rt_ops rt)[n := ?p\<lparr>op_status := OpFulfilled\<rparr>]\<rparr>"
        using running None by (simp add: op_settles_def elem_at_def Let_def)
      then show ?thesis using assms True
        by (auto simp: ops_ok_def maps_to_ops_def pending_stops_def later_def rest_of_def upd)
    next
      case False
      let ?rt = "op_settles rt n failure"
      have eq: "?rt = rt\<lparr>rt_ops := (rt_ops rt)[n := ?p\<lparr>op_status := OpFulfilled\<rparr>], rt_started := remove1 (op_component ?p) (rt_started rt),
          admissionStops := jm_delete (admissionStops rt) (op_component ?p)\<rparr>"
        using running None False by (simp add: op_settles_def elem_at_def Let_def)
      have d: "distinct (rt_started rt)" using assms by (simp add: ops_ok_def)
      have m: "maps_to_ops ?rt b" for b
        using all_maps [OF assms, of b] unfolding eq maps_to_ops_def pending_stops_def
        by (cases b) (auto simp: upd jm_get_delete split: if_splits)
      have a: "jm_get (componentStops ?rt) (op_component (rt_ops ?rt ! k)) = Some k"
        if "k < length (rt_ops ?rt)" "\<not> op_admissionOnly (rt_ops ?rt ! k)" "op_alive (op_status (rt_ops ?rt ! k))" for k
        using that assms own [OF False] unfolding eq by (cases "k = n") (simp_all add: upd ops_ok_def)
      have f: "op_component (rt_ops ?rt ! k) \<notin> set (rt_started ?rt)"
        if "k < length (rt_ops ?rt)" "\<not> op_admissionOnly (rt_ops ?rt ! k)" "op_status (rt_ops ?rt ! k) = OpFulfilled" for k
        using that assms d unfolding eq by (cases "k = n") (simp_all add: upd ops_ok_def)
      have "ops_ok ?rt" using m a f d unfolding ops_ok_def by (simp add: eq)
      moreover have "later rt ?rt" unfolding eq using d by (auto simp: later_def upd)
      ultimately show ?thesis by (simp add: eq rest_of_def)
    qed
  next
    case (Some e)
    let ?rt1 = "rt\<lparr>rt_ops := (rt_ops rt)[n := ?p\<lparr>op_status := OpRejected e\<rparr>]\<rparr>"
    let ?a = "op_admissionOnly ?p"
    have eq: "op_settles rt n failure = (if jm_get (pending_stops rt ?a) (op_component ?p) = Some n
        then with_pending ?rt1 ?a (jm_delete (pending_stops rt ?a) (op_component ?p)) else ?rt1)"
      using running Some by (simp add: op_settles_def elem_at_def Let_def pending_stops_def)
    have alive: "op_component (rt_ops rt ! k) \<noteq> op_component ?p"
      if "\<not> ?a" "k < length (rt_ops rt)" "k \<noteq> n" "\<not> op_admissionOnly (rt_ops rt ! k)" "op_alive (op_status (rt_ops rt ! k))" for k
      using that assms own by (auto simp: ops_ok_def)
    have "ops_ok ?rt1" if "?a" using assms that by (auto simp: ops_ok_def maps_to_ops_def pending_stops_def upd)
    moreover have "ops_ok (with_pending ?rt1 ?a (jm_delete (pending_stops rt ?a) (op_component ?p)))"
      using assms alive
      by (auto simp: ops_ok_def maps_to_ops_def pending_stops_def with_pending_def upd jm_get_delete)
    moreover have "later rt ?rt1" by (simp add: later_def upd)
    ultimately show ?thesis using own unfolding eq
      by (auto simp: later_def rest_of_def pending_stops_def with_pending_def upd)
  qed
next
  case False
  then have "op_settles rt n failure = rt" by (auto simp: op_settles_def elem_at_def)
  then show ?thesis using assms by (simp add: later_refl)
qed


text \<open>A wait that is over without failure has stopped its components, or their admission.\<close>

lemma first_failure_None: "first_failure fs = None \<longleftrightarrow> list_all (\<lambda>f. f = None) fs"
  by (induction fs rule: first_failure.induct) auto

lemma ticket_failure_None: "ticket_failure s k t = None \<longleftrightarrow> t = Settled None"
  by (cases t) auto

lemma group_over:
  assumes "wait_over w rt ctx (GroupWait a b ts) = Some None" and "wait_ok rt (GroupWait a b ts)" and "c \<in> set (map fst ts)"
    and "c \<in> set (rt_started rt)"
  shows "a \<and> comp_admission c"
proof -
  have "list_all (\<lambda>x. snd x = Settled None) ts"
    using assms(1) by (simp add: first_failure_None ticket_failure_None list_all_iff split: if_splits)
  moreover obtain t where "(c, t) \<in> set ts" using assms(3) by auto
  ultimately have "(c, Settled None) \<in> set ts" by (auto simp: list_all_iff)
  then show ?thesis using assms(2,4) by (auto simp: list_all_iff)
qed

lemma seq_over:
  assumes "wait_over w rt ctx (SeqWait b c t cs) = Some None" and "wait_ok rt (SeqWait b c t cs)"
  shows "c \<notin> set (rt_started rt)"
  using assms by (simp add: ticket_failure_None split: if_splits)

section \<open>The invariant\<close>

text \<open>
  The phase in which a component is stopped; a component without \<open>stopAdmission\<close> is stopped where others stop to
  admit. A component is cleared for phase \<open>n\<close> when no phase before it stops it.
\<close>

definition stop_rank :: "component \<Rightarrow> nat" where
  "stop_rank c =
     (if is_admission_category c then (if comp_admission c then 1 else 0)
      else if comp_category c = ManagedDataConnector then (if comp_admission c then 5 else 2)
      else if comp_category c = DataSink then 4 else if comp_category c = Telemetry then 6 else 3)"

definition cleared :: "nat \<Rightarrow> component \<Rightarrow> bool" where
  "cleared n c \<longleftrightarrow> n \<le> stop_rank c"

fun planned :: "start_action list \<Rightarrow> component list" where
  "planned [] = []"
| "planned (StartComponent c # as) = c # planned as"
| "planned (a # as) = planned as"

fun start_ok :: "runtime \<Rightarrow> start_pc \<Rightarrow> bool" where
  "start_ok rt StartIdle \<longleftrightarrow> \<not> startupPending rt \<and> rt_started rt = [] \<and> rt_ops rt = []"
| "start_ok rt (StartBuilding admission) \<longleftrightarrow> startupPending rt \<and> rt_started rt = [] \<and> rt_ops rt = [] \<and> rt_state rt \<noteq> RtCreated"
| "start_ok rt (StartAwaits a as) \<longleftrightarrow> startupPending rt \<and> rt_ops rt = [] \<and> rt_state rt \<noteq> RtCreated \<and>
     (\<exists>admission. rt_started rt @ planned (a # as) = planned (start_plan (rt_components rt) admission))"
| "start_ok rt (StartRollback e wt) \<longleftrightarrow> startupPending rt \<and> rt_state rt \<noteq> RtCreated \<and> wait_ok rt wt \<and>
     covers (set (rt_started rt)) wt \<and> (\<exists>b c t cs. wt = SeqWait b c t cs) \<and> \<not> accepting (rt_tasks rt)"
| "start_ok rt (StartEnded r) \<longleftrightarrow> \<not> startupPending rt \<and> rt_state rt \<noteq> RtCreated"

fun stop_ok :: "runtime \<Rightarrow> stop_pc \<Rightarrow> bool" where
  "stop_ok rt StopIdle \<longleftrightarrow> True"
| "stop_ok rt (StopAwaitStartup b) \<longleftrightarrow> rt_state rt \<noteq> RtCreated"
| "stop_ok rt (StopRollback wt) \<longleftrightarrow> \<not> startupPending rt \<and> start_pc rt \<noteq> StartIdle \<and> rt_state rt \<noteq> RtCreated \<and> wait_ok rt wt \<and>
     covers (set (rt_started rt)) wt \<and> (\<exists>b c t cs. wt = SeqWait b c t cs)"
| "stop_ok rt (StopDrain d b after_rollback) \<longleftrightarrow> \<not> startupPending rt \<and> rt_state rt \<noteq> RtCreated \<and>
     (if after_rollback then rt_started rt = [] else (\<forall>c \<in> set (rt_started rt). cleared 4 c))"
| "stop_ok rt (StopPhase n wt) \<longleftrightarrow> \<not> startupPending rt \<and> rt_state rt \<noteq> RtCreated \<and> n \<le> 6 \<and> wait_ok rt wt \<and>
     covers {c \<in> set (rt_started rt). phase_components n c} wt \<and> (\<forall>c \<in> set (rt_started rt). cleared n c) \<and>
     (if n < 6 then \<exists>b ts. wt = GroupWait (n = 0 \<or> n = 2) b ts else (\<exists>b c t cs. wt = SeqWait b c t cs) \<and> start_pc rt \<noteq> StartIdle) \<and>
     (4 \<le> n \<longrightarrow> \<not> accepting (rt_tasks rt))"

definition components_ok :: "component list \<Rightarrow> bool" where
  "components_ok cs \<longleftrightarrow> distinct (map (\<lambda>c. (comp_category c, comp_name c)) cs)"

definition rt_inv :: "runtime \<Rightarrow> bool" where
  "rt_inv rt \<longleftrightarrow> ops_ok rt \<and> start_ok rt (start_pc rt) \<and> stop_ok rt (stop_pc rt) \<and> components_ok (rt_components rt) \<and>
     (rt_state rt = RtCreated \<longrightarrow> start_pc rt = StartIdle) \<and>
     (rt_state rt = RtStopped \<longrightarrow> rt_started rt = [] \<and> \<not> startupPending rt \<and> \<not> accepting (rt_tasks rt))"

lemma category_cases:
  "is_admission_category c \<or> comp_category c = ManagedDataConnector \<or> comp_category c = DataSink \<or> comp_category c = Telemetry \<or>
   comp_category c \<in> {Storage, DelayPools, TaskPools, PriorityTaskPools}"
  by (cases "comp_category c") (simp_all add: is_admission_category_def ADMISSION_CATEGORIES_def)

lemma stop_rank_phase: "phase_components (stop_rank c) c"
  using category_cases [of c] by (auto simp: stop_rank_def phase_components_def is_admission_category_def ADMISSION_CATEGORIES_def)

lemma phase_rank:
  assumes "phase_components n c" and "n \<le> 6" and "\<not> ((n = 0 \<or> n = 2) \<and> comp_admission c)"
  shows "stop_rank c \<le> n"
  using assms by (auto simp: stop_rank_def phase_components_def is_admission_category_def ADMISSION_CATEGORIES_def split: if_splits)

lemma phase_cleared:
  assumes "\<forall>c \<in> set S. cleared n c" and "\<forall>c \<in> set S. phase_components n c \<longrightarrow> (n = 0 \<or> n = 2) \<and> comp_admission c" and "n < 6"
  shows "\<forall>c \<in> set S. cleared (n + 1) c"
proof
  fix c assume c: "c \<in> set S"
  have "stop_rank c \<noteq> n"
  proof
    assume r: "stop_rank c = n"
    then have "phase_components n c" using stop_rank_phase [of c] by simp
    then have "(n = 0 \<or> n = 2) \<and> comp_admission c" using assms(2) c by blast
    then show False using r by (auto simp: stop_rank_def split: if_splits)
  qed
  then show "cleared (n + 1) c" using assms(1) c by (auto simp: cleared_def)
qed

lemma cleared_all:
  assumes "cleared 6 c" and "\<not> phase_components 6 c"
  shows False
proof -
  have "stop_rank c = 6" using assms(1) by (auto simp: cleared_def stop_rank_def split: if_splits)
  then show False using stop_rank_phase [of c] assms(2) by simp
qed

lemma covers_mono: "covers S wt \<Longrightarrow> S' \<subseteq> S \<Longrightarrow> covers S' wt"
  by (cases wt) auto

lemma stop_ok_later:
  assumes "stop_ok rt pc" and "later rt rt'" and "startupPending rt' = startupPending rt"
    and "rt_state rt' = RtCreated \<longrightarrow> rt_state rt = RtCreated" and "accepting (rt_tasks rt') \<longrightarrow> accepting (rt_tasks rt)"
    and "start_pc rt' = StartIdle \<longrightarrow> start_pc rt = StartIdle"
  shows "stop_ok rt' pc"
proof (cases pc)
  case (StopRollback wt)
  then show ?thesis using assms wait_ok_later [OF assms(2), of wt] covers_mono [of "set (rt_started rt)" wt "set (rt_started rt')"]
    by (auto simp: later_def)
next
  case (StopPhase n wt)
  have "{c \<in> set (rt_started rt'). phase_components n c} \<subseteq> {c \<in> set (rt_started rt). phase_components n c}"
    using assms(2) by (auto simp: later_def)
  then show ?thesis using StopPhase assms wait_ok_later [OF assms(2), of wt] covers_mono [of _ wt]
    by (auto simp: later_def)
qed (use assms in \<open>auto simp: later_def split: if_splits\<close>)

lemma start_ok_later:
  assumes "start_ok rt pc" and "later rt rt'" and "startupPending rt' = startupPending rt" and "rt_components rt' = rt_components rt"
    and "rt_state rt' = RtCreated \<longrightarrow> rt_state rt = RtCreated"
    and "rt_ops rt = [] \<longrightarrow> rt_started rt' = rt_started rt \<and> rt_ops rt' = []"
    and "accepting (rt_tasks rt') \<longrightarrow> accepting (rt_tasks rt)"
  shows "start_ok rt' pc"
proof (cases pc)
  case (StartRollback e wt)
  then show ?thesis using assms wait_ok_later [OF assms(2), of wt] covers_mono [of "set (rt_started rt)" wt "set (rt_started rt')"]
    by (auto simp: later_def)
qed (use assms in \<open>auto simp: later_def\<close>)

text \<open>While the startup is pending, a stop can only wait for it; once it is over, it has begun or ended.\<close>

lemma pending_stop_pc: "stop_ok rt pc \<Longrightarrow> startupPending rt \<Longrightarrow> pc = StopIdle \<or> (\<exists>b. pc = StopAwaitStartup b)"
  by (cases pc) auto

lemma not_pending_start_pc: "start_ok rt pc \<Longrightarrow> \<not> startupPending rt \<Longrightarrow> pc = StartIdle \<or> (\<exists>r. pc = StartEnded r)"
  by (cases pc) auto

lemma start_ok_stable:
  assumes "start_ok rt (start_pc rt)" and "\<not> startupPending rt" and "rest_of rt' = rest_of rt"
    and "start_pc rt = StartIdle \<longrightarrow> rt_ops rt' = rt_ops rt"
  shows "start_ok rt' (start_pc rt')"
  using assms not_pending_start_pc [OF assms(1,2)] rest_of_fields [OF assms(3)] by auto

text \<open>What holds of a runtime when the attempt that runs takes its next step.\<close>

definition attempt_ok :: "runtime \<Rightarrow> bool" where
  "attempt_ok rt \<longleftrightarrow> ops_ok rt \<and> start_ok rt (start_pc rt) \<and> components_ok (rt_components rt) \<and> \<not> startupPending rt \<and> rt_state rt \<noteq> RtCreated \<and>
     (rt_state rt = RtStopped \<longrightarrow> rt_started rt = [] \<and> \<not> accepting (rt_tasks rt))"

lemma attempt_inv: "attempt_ok rt \<Longrightarrow> stop_ok rt (stop_pc rt) \<Longrightarrow> rt_inv rt"
  by (simp add: attempt_ok_def rt_inv_def)

lemma attempt_okD: "rt_inv rt \<Longrightarrow> \<not> startupPending rt \<Longrightarrow> rt_state rt \<noteq> RtCreated \<Longrightarrow> attempt_ok rt"
  by (simp add: attempt_ok_def rt_inv_def)

lemma start_ok_cong:
  assumes "start_ok rt q" and "rt_started rt' = rt_started rt" and "rt_ops rt' = rt_ops rt" and "startupPending rt' = startupPending rt"
    and "rt_components rt' = rt_components rt" and "rt_state rt' = RtCreated \<longrightarrow> rt_state rt = RtCreated"
    and "accepting (rt_tasks rt') \<longrightarrow> accepting (rt_tasks rt)"
  shows "start_ok rt' q"
  using start_ok_later [OF assms(1) later_cong, of rt'] assms(2-7) by simp

lemma stop_ok_cong:
  assumes "stop_ok rt q" and "rt_started rt' = rt_started rt" and "rt_ops rt' = rt_ops rt" and "startupPending rt' = startupPending rt"
    and "rt_state rt' = RtCreated \<longrightarrow> rt_state rt = RtCreated" and "accepting (rt_tasks rt') \<longrightarrow> accepting (rt_tasks rt)"
    and "start_pc rt' = StartIdle \<longrightarrow> start_pc rt = StartIdle"
  shows "stop_ok rt' q"
  using stop_ok_later [OF assms(1) later_cong, of rt'] assms(2-7) by simp

lemma attempt_ok_cong:
  assumes "attempt_ok rt" and "rt_started rt' = rt_started rt" and "rt_ops rt' = rt_ops rt" and "startupPending rt' = startupPending rt"
    and "rt_components rt' = rt_components rt" and "rt_state rt' = rt_state rt \<or> rt_state rt' = RtStopping \<or> (rt_started rt = [] \<and> rt_state rt' = RtStopped \<and> \<not> accepting (rt_tasks rt'))"
    and "accepting (rt_tasks rt') \<longrightarrow> accepting (rt_tasks rt)"
    and "admissionStops rt' = admissionStops rt" and "componentStops rt' = componentStops rt" and "start_pc rt' = start_pc rt"
  shows "attempt_ok rt'"
  using assms ops_ok_cong [of rt rt'] start_ok_cong [of rt "start_pc rt" rt'] by (auto simp: attempt_ok_def)

lemma attempt_ok_ops:
  assumes "attempt_ok rt" and "ops_ok rt'" and "rest_of rt' = rest_of rt" and "start_pc rt = StartIdle \<longrightarrow> rt_ops rt' = rt_ops rt"
  shows "attempt_ok rt'"
  using assms start_ok_stable [OF _ _ assms(3,4)] rest_of_fields [OF assms(3)] by (auto simp: attempt_ok_def)

lemma attempt_succeeded_inv:
  assumes "attempt_ok rt" and "rt_started rt = []" and "\<not> accepting (rt_tasks rt)"
  shows "rt_inv (attempt_succeeded rt)"
  using attempt_ok_cong [OF assms(1), of "attempt_succeeded rt"] assms(2,3)
  by (intro attempt_inv) (simp_all add: attempt_succeeded_def attempt_ended_def)

lemma attempt_ended_inv: "attempt_ok rt \<Longrightarrow> rt_inv (attempt_ended rt r)"
  using attempt_ok_cong [of rt "attempt_ended rt r"] by (intro attempt_inv) (simp_all add: attempt_ended_def)

text \<open>Entering a wait.\<close>

lemma enter_inv:
  assumes "attempt_ok rt" and "stop_ok rt pc"
  shows "rt_inv (rt\<lparr>stop_pc := pc\<rparr>)"
  using attempt_ok_cong [OF assms(1), of "rt\<lparr>stop_pc := pc\<rparr>"] stop_ok_cong [OF assms(2), of "rt\<lparr>stop_pc := pc\<rparr>"]
  by (intro attempt_inv) simp_all

lemma begin_phase_inv:
  assumes "attempt_ok rt" and "n \<le> 6" and "\<forall>c \<in> set (rt_started rt). cleared n c" and "4 \<le> n \<longrightarrow> \<not> accepting (rt_tasks rt)"
  shows "rt_inv (begin_phase w rt n)"
proof (cases "n < 6")
  case True
  let ?cs = "filter (phase_components n) (rt_started rt)"
  obtain rt' wt where s: "stopGroup w rt ?cs (stop_context rt) (n = 0 \<or> n = 2) = (rt', wt)"
    by (cases "stopGroup w rt ?cs (stop_context rt) (n = 0 \<or> n = 2)")
  have ok: "ops_ok rt" using assms(1) by (simp add: attempt_ok_def)
  note spec = stopGroup_spec [OF ok s]
  have "start_pc rt = StartIdle \<longrightarrow> rt_ops rt' = rt_ops rt" using spec assms(1) by (auto simp: attempt_ok_def)
  then have a: "attempt_ok rt'" using attempt_ok_ops [OF assms(1)] spec by blast
  have "stop_ok rt' (StopPhase n wt)"
    using spec a assms True rest_of_fields [of rt' rt] by (auto simp: attempt_ok_def)
  then show ?thesis using enter_inv [OF a] True s by (simp add: begin_phase_def Let_def)
next
  case False
  then have n: "n = 6" using assms(2) by simp
  let ?cs = "rev (filter (phase_components n) (rt_started rt))"
  obtain rt' r where s: "stop_next w rt ?cs (stop_context rt) = (rt', r)" by (cases "stop_next w rt ?cs (stop_context rt)")
  have ok: "ops_ok rt" using assms(1) by (simp add: attempt_ok_def)
  note spec = stop_next_spec [OF ok s]
  show ?thesis
  proof (cases r)
    case None
    then have "filter (phase_components 6) (rt_started rt) = []" "rt' = rt" using spec n by simp_all
    then have "rt_started rt = []" using assms(3) cleared_all n by (cases "rt_started rt") (auto split: if_splits)
    then show ?thesis using attempt_succeeded_inv [OF assms(1)] assms(4) n None s \<open>rt' = rt\<close> by (simp add: begin_phase_def Let_def)
  next
    case (Some wt)
    then have ne: "start_pc rt \<noteq> StartIdle" using s assms(1) by (auto simp: attempt_ok_def)
    then have a: "attempt_ok rt'" using attempt_ok_ops [OF assms(1)] spec by blast
    have "stop_ok rt' (StopPhase n wt)"
      using spec a assms n Some ne rest_of_fields [of rt' rt] by (auto simp: attempt_ok_def)
    then show ?thesis using enter_inv [OF a] n s Some by (simp add: begin_phase_def Let_def)
  qed
qed


lemma accepting_step: "\<not> accepting r \<Longrightarrow> \<not> accepting (registry_step r e)"
  by (cases e) (auto simp: registry_admit_def admitDetached_def admitDetachedWithContext_def startTask_fields refuse_fields
      body_returned_def task_settled_fields stopAdmission_def registry_cancel_def drain_def drain_fields
      split: prod.split option.split)

lemma accepting_simps [simp]:
  "accepting (stopAdmission r) = False" "accepting (registry_cancel r e) = False" "accepting (TaskRegistry.drain r t) = accepting r"
  by (simp_all add: stopAdmission_def registry_cancel_def drain_def)

lemma drained_inv:
  assumes "attempt_ok rt" and "if after then rt_started rt = [] else (\<forall>c \<in> set (rt_started rt). cleared 4 c)"
  shows "rt_inv (drained w rt after)"
proof -
  have "attempt_ok (rt\<lparr>rt_tasks := stopAdmission (rt_tasks rt)\<rparr>)" by (rule attempt_ok_cong [OF assms(1)]) simp_all
  then show ?thesis using assms(2)
    by (cases after) (simp_all add: drained_def Let_def attempt_succeeded_inv begin_phase_inv)
qed

lemma drainTasks_inv:
  assumes "attempt_ok rt" and "if after then rt_started rt = [] else (\<forall>c \<in> set (rt_started rt). cleared 4 c)"
  shows "rt_inv (drainTasks w rt after)"
proof (cases "activeCount (rt_tasks rt) > 0")
  case True
  let ?b = "context_remaining w rt (stop_context rt)" and ?d = "length (drains (rt_tasks rt))"
  let ?rt = "rt\<lparr>rt_tasks := TaskRegistry.drain (rt_tasks rt) ?b\<rparr>"
  have a: "attempt_ok ?rt" by (rule attempt_ok_cong [OF assms(1)]) simp_all
  moreover have "stop_ok ?rt (StopDrain ?d ?b after)" using assms by (auto simp: attempt_ok_def split: if_splits)
  ultimately have "rt_inv (?rt\<lparr>stop_pc := StopDrain ?d ?b after\<rparr>)" by (rule enter_inv)
  then show ?thesis using True by (simp add: drainTasks_def Let_def)
qed (use drained_inv [OF assms] in \<open>simp add: drainTasks_def\<close>)

lemma attempt_rollback_inv:
  assumes "attempt_ok rt" and "set (rt_started rt) \<subseteq> set cs" and "cs \<noteq> [] \<longrightarrow> start_pc rt \<noteq> StartIdle"
  shows "rt_inv (attempt_rollback w rt cs)"
proof -
  obtain rt' r where s: "stop_next w rt cs (stop_context rt) = (rt', r)" by (cases "stop_next w rt cs (stop_context rt)")
  have ok: "ops_ok rt" using assms(1) by (simp add: attempt_ok_def)
  note spec = stop_next_spec [OF ok s]
  show ?thesis
  proof (cases r)
    case None
    then have "rt_started rt = []" "rt' = rt" using spec assms(2) by simp_all
    moreover have "attempt_ok (rt\<lparr>rollbackPending := False\<rparr>)" by (rule attempt_ok_cong [OF assms(1)]) simp_all
    ultimately show ?thesis using s None by (simp add: attempt_rollback_def drainTasks_inv)
  next
    case (Some wt)
    then have p: "start_pc rt \<noteq> StartIdle" using s assms(3) by (cases cs) auto
    then have a: "attempt_ok rt'" using attempt_ok_ops [OF assms(1)] spec by blast
    have "stop_ok rt' (StopRollback wt)"
      using spec a p Some covers_mono [of "set cs" wt "set (rt_started rt)"] assms(2) rest_of_fields [of rt' rt]
      by (auto simp: attempt_ok_def)
    then show ?thesis using enter_inv [OF a] s Some by (simp add: attempt_rollback_def)
  qed
qed

lemma after_startup_inv:
  assumes "attempt_ok rt"
  shows "rt_inv (after_startup w rt)"
proof (cases "rollbackPending rt")
  case True
  have "rt_started rt \<noteq> [] \<longrightarrow> start_pc rt \<noteq> StartIdle" using assms by (auto simp: attempt_ok_def)
  then show ?thesis using True attempt_rollback_inv [OF assms, of "rev (rt_started rt)"] by (simp add: after_startup_def)
next
  case False
  have "cleared 0 c" for c by (simp add: cleared_def)
  then show ?thesis using False begin_phase_inv [OF assms, of 0] by (simp add: after_startup_def)
qed

lemma stopOnce_inv:
  assumes "rt_inv rt" and "stop_pc rt = StopIdle"
  shows "rt_inv (stopOnce w rt ctx)"
proof (cases "startupPending rt")
  case True
  let ?rt = "stopOnce w rt ctx"
  have "ops_ok ?rt" "start_ok ?rt (start_pc ?rt)"
    using assms(1) True ops_ok_cong [of rt ?rt] start_ok_cong [of rt "start_pc rt" ?rt] by (simp_all add: stopOnce_def Let_def rt_inv_def)
  then show ?thesis using assms(1) True by (simp add: stopOnce_def Let_def rt_inv_def)
next
  case False
  let ?rt = "rt\<lparr>rt_state := RtStopping, stop_context := ctx\<rparr>"
  have "attempt_ok ?rt"
    using assms(1) False ops_ok_cong [of rt ?rt] start_ok_cong [of rt "start_pc rt" ?rt]
    by (simp add: attempt_ok_def rt_inv_def)
  then show ?thesis using False after_startup_inv by (simp add: stopOnce_def Let_def)
qed

lemma startup_over_inv:
  assumes "rt_inv rt"
  shows "rt_inv (startup_over w rt)"
proof (cases "\<exists>b. stop_pc rt = StopAwaitStartup b")
  case True
  then obtain b where b: "stop_pc rt = StopAwaitStartup b" by blast
  then have st: "rt_state rt \<noteq> RtCreated" using assms by (simp add: rt_inv_def)
  let ?e = "shutdownError w rt (stop_context rt) b"
  let ?rt = "attempt_ended (rt\<lparr>rt_tasks := registry_cancel (rt_tasks rt) ?e\<rparr>) (Some ?e)"
  have "ops_ok ?rt" "start_ok ?rt (start_pc ?rt)"
    using assms ops_ok_cong [of rt ?rt] start_ok_cong [of rt "start_pc rt" ?rt] by (simp_all add: attempt_ended_def rt_inv_def)
  then have "rt_inv ?rt" using assms by (simp add: attempt_ended_def rt_inv_def)
  moreover have "rt_inv (after_startup w rt)" if "start_pc rt = StartEnded r" for r
    using that assms st attempt_okD [OF assms] after_startup_inv by (simp add: rt_inv_def)
  ultimately show ?thesis using assms b by (auto simp: startup_over_def Let_def split: start_pc.split)
qed (use assms in \<open>auto simp: startup_over_def split: stop_pc.split\<close>)

lemma drain_over_inv:
  assumes "rt_inv rt"
  shows "rt_inv (drain_over w rt)"
proof (cases "\<exists>d b after. stop_pc rt = StopDrain d b after")
  case True
  then obtain d b after where p: "stop_pc rt = StopDrain d b after" by blast
  then have a: "attempt_ok rt" using assms attempt_okD [OF assms] by (auto simp: rt_inv_def)
  have cl: "if after then rt_started rt = [] else (\<forall>c \<in> set (rt_started rt). cleared 4 c)" using p assms by (simp add: rt_inv_def)
  have "rt_inv (drain_failed rt e)" for e
    unfolding drain_failed_def by (rule attempt_ended_inv, rule attempt_ok_cong [OF a]) simp_all
  then show ?thesis using p assms drained_inv [OF a cl]
    by (auto simp: drain_over_def split: option.split drain_state.split prod.split)
qed (use assms in \<open>auto simp: drain_over_def split: stop_pc.split\<close>)


lemma phase_group_over_inv:
  assumes "rt_inv rt" and "stop_pc rt = StopPhase n wt" and "n < 6" and "wait_over w rt (stop_context rt) wt = Some None"
  shows "rt_inv (if n = 3 then drainTasks w rt False else begin_phase w rt (n + 1))"
proof -
  have a: "attempt_ok rt" using assms attempt_okD [OF assms(1)] by (auto simp: rt_inv_def)
  have st: "stop_ok rt (StopPhase n wt)" using assms(1,2) by (simp add: rt_inv_def)
  obtain b ts where wt: "wt = GroupWait (n = 0 \<or> n = 2) b ts" using st assms(3) by auto
  have "(n = 0 \<or> n = 2) \<and> comp_admission c" if "c \<in> set (rt_started rt)" "phase_components n c" for c
    using group_over [OF assms(4) [unfolded wt], of c] st wt that by auto
  then have next_cleared: "\<forall>c \<in> set (rt_started rt). cleared (n + 1) c" using phase_cleared [of "rt_started rt" n] st assms(3) by auto
  then show ?thesis using drainTasks_inv [OF a, of False w] begin_phase_inv [OF a, of "n + 1" w] st assms(3) by (auto simp: eval_nat_numeral)
qed

lemma telemetry_over_inv:
  assumes "rt_inv rt" and "stop_pc rt = StopPhase n wt" and "\<not> n < 6" and "wait_over w rt (stop_context rt) wt = Some None"
    and "stop_next w rt (wait_rest wt) (stop_context rt) = (rt', r)"
  shows "rt_inv (case r of None \<Rightarrow> attempt_succeeded rt' | Some wt' \<Rightarrow> rt'\<lparr>stop_pc := StopPhase n wt'\<rparr>)"
proof -
  have a: "attempt_ok rt" using assms attempt_okD [OF assms(1)] by (auto simp: rt_inv_def)
  have st: "stop_ok rt (StopPhase n wt)" using assms(1,2) by (simp add: rt_inv_def)
  then have n: "n = 6" using assms(3) by simp
  obtain b c t cs where wt: "wt = SeqWait b c t cs" using st n by auto
  have "c \<notin> set (rt_started rt)" using seq_over assms(4) st wt by simp
  then have cov: "{c \<in> set (rt_started rt). phase_components 6 c} \<subseteq> set cs" using st wt n by auto
  note spec = stop_next_spec [OF _ assms(5)]
  have ok: "ops_ok rt" using a by (simp add: attempt_ok_def)
  show ?thesis
  proof (cases r)
    case None
    then have "rt' = rt" "cs = []" using spec [OF ok] wt by simp_all
    then have "rt_started rt = []" using cov cleared_all st n by (cases "rt_started rt") auto
    then show ?thesis using None \<open>rt' = rt\<close> attempt_succeeded_inv [OF a] st n by simp
  next
    case (Some wt')
    have f: "rt_started rt' = rt_started rt" "rt_tasks rt' = rt_tasks rt" "startupPending rt' = startupPending rt" "rt_state rt' = rt_state rt"
      using spec [OF ok] rest_of_fields by blast+
    have p: "start_pc rt \<noteq> StartIdle" "start_pc rt' = start_pc rt" using st n spec [OF ok] rest_of_fields by auto
    then have a': "attempt_ok rt'" using attempt_ok_ops [OF a] spec [OF ok] by blast
    have "stop_ok rt' (StopPhase n wt')" using spec [OF ok] Some st n wt cov covers_mono [of "set cs" wt'] f p by auto
    then show ?thesis using enter_inv [OF a'] Some by simp
  qed
qed

lemma phase_over_inv:
  assumes "rt_inv rt"
  shows "rt_inv (phase_over w rt)"
proof (cases "stop_pc rt")
  case (StopRollback wt)
  have a: "attempt_ok rt" using assms attempt_okD [OF assms] StopRollback by (auto simp: rt_inv_def)
  have st: "stop_ok rt (StopRollback wt)" using assms StopRollback by (simp add: rt_inv_def)
  obtain b c t cs where wt: "wt = SeqWait b c t cs" using st by auto
  have "rt_inv (attempt_rollback w rt (wait_rest wt))" if "wait_over w rt (stop_context rt) wt = Some None"
    using attempt_rollback_inv [OF a, of cs] seq_over [of w rt "stop_context rt" b c t cs] st wt that by auto
  then show ?thesis using StopRollback assms attempt_ended_inv [OF a] by (auto simp: phase_over_def split: option.split)
next
  case (StopPhase n wt)
  have a: "attempt_ok rt" using assms attempt_okD [OF assms] StopPhase by (auto simp: rt_inv_def)
  show ?thesis
  proof (cases "wait_over w rt (stop_context rt) wt = Some None")
    case True
    obtain rt' r where s: "stop_next w rt (wait_rest wt) (stop_context rt) = (rt', r)" by (cases "stop_next w rt (wait_rest wt) (stop_context rt)")
    show ?thesis
      using phase_group_over_inv [OF assms StopPhase _ True] telemetry_over_inv [OF assms StopPhase _ True s] StopPhase True s
      by (cases "n < 6"; cases r) (simp_all add: phase_over_def)
  next
    case False
    then show ?thesis using StopPhase assms attempt_ended_inv [OF a] by (auto simp: phase_over_def split: option.split)
  qed
qed (use assms in \<open>simp_all add: phase_over_def\<close>)

lemma stop_ticket_inv:
  assumes "rt_inv rt"
  shows "rt_inv (stop_ticket w rt k)"
proof (cases "\<exists>wt. stop_pc rt = StopRollback wt \<or> (\<exists>n. stop_pc rt = StopPhase n wt)")
  case True
  then obtain wt pc where pc: "stop_pc rt = pc wt" "pc = StopRollback \<or> (\<exists>n. pc = StopPhase n)" by blast
  have a: "attempt_ok rt" using assms attempt_okD [OF assms] pc by (auto simp: rt_inv_def)
  have st: "stop_ok rt (pc wt)" using assms pc by (simp add: rt_inv_def)
  then have wo: "wait_ok rt wt" using pc(2) by auto
  obtain rt' wt' where s: "wait_step w rt (stop_context rt) wt k = (rt', wt')" by (cases "wait_step w rt (stop_context rt) wt k")
  have ok: "ops_ok rt" using a by (simp add: attempt_ok_def)
  note spec = wait_step_spec [OF ok wo s]
  have f: "rt_started rt' = rt_started rt" "rt_tasks rt' = rt_tasks rt" "startupPending rt' = startupPending rt" "rt_state rt' = rt_state rt"
    "start_pc rt' = start_pc rt"
    using rest_of_fields [of rt' rt] spec by simp_all
  have "start_pc rt = StartIdle \<longrightarrow> rt_ops rt' = rt_ops rt" using spec a by (auto simp: attempt_ok_def)
  then have a': "attempt_ok rt'" using attempt_ok_ops [OF a] spec by blast
  have "stop_ok rt' (pc wt')" using spec st pc(2) f by (elim disjE) (auto split: if_splits)
  then show ?thesis using enter_inv [OF a'] s pc by (auto simp: stop_ticket_def)
qed (use assms in \<open>auto simp: stop_ticket_def split: stop_pc.split\<close>)


section \<open>Steps of the startup\<close>

definition start_ready :: "runtime \<Rightarrow> bool" where
  "start_ready rt \<longleftrightarrow> ops_ok rt \<and> components_ok (rt_components rt) \<and> startupPending rt \<and> rt_state rt \<notin> {RtCreated, RtStopped} \<and>
     (stop_pc rt = StopIdle \<or> (\<exists>b. stop_pc rt = StopAwaitStartup b))"

lemma start_ready_inv: "start_ready rt \<Longrightarrow> start_ok rt (start_pc rt) \<Longrightarrow> rt_inv rt"
  by (auto simp: start_ready_def rt_inv_def)

lemma start_readyD:
  assumes "rt_inv rt" and "startupPending rt"
  shows "start_ready rt"
  using assms pending_stop_pc [of rt "stop_pc rt"] by (auto simp: start_ready_def rt_inv_def)

lemma start_ready_cong:
  assumes "start_ready rt" and "ops_ok rt'" and "rt_components rt' = rt_components rt" and "startupPending rt' = startupPending rt"
    and "rt_state rt' = rt_state rt" and "stop_pc rt' = stop_pc rt"
  shows "start_ready rt'"
  using assms by (simp add: start_ready_def)

lemma rollback_ended_inv:
  assumes "start_ready rt" and "\<not> accepting (rt_tasks rt)"
  shows "rt_inv (rollback_ended rt e r)"
proof -
  have "ops_ok (rollback_ended rt e r)"
    using assms by (simp add: rollback_ended_def Let_def start_ready_def)
  then show ?thesis using assms by (auto simp: rollback_ended_def Let_def rt_inv_def start_ready_def)
qed

text \<open>A turn of the rollback of a failed start.\<close>

lemma rollback_turn_inv:
  assumes "start_ready rt" and "\<not> accepting (rt_tasks rt)" and "set (rt_started rt) \<subseteq> set cs"
    and "stop_next w rt cs StartupContext = (rt', r)"
  shows "rt_inv (case r of None \<Rightarrow> rollback_ended rt' e True | Some wt \<Rightarrow> rt'\<lparr>start_pc := StartRollback e wt\<rparr>)"
proof -
  have ok: "ops_ok rt" using assms(1) by (simp add: start_ready_def)
  note spec = stop_next_spec [OF ok assms(4)]
  have f: "rest_of rt' = rest_of rt" using spec by blast
  show ?thesis
  proof (cases r)
    case None
    then show ?thesis using spec rollback_ended_inv [OF assms(1,2)] by simp
  next
    case (Some wt)
    let ?rt = "rt'\<lparr>start_pc := StartRollback e wt\<rparr>"
    have o: "ops_ok ?rt" using spec by simp
    then have "start_ready ?rt" using start_ready_cong [OF assms(1) o] rest_of_fields [OF f] by simp
    moreover have "wait_ok ?rt wt" using wait_ok_later [OF later_cong, of ?rt rt'] spec Some by simp
    moreover have "covers (set (rt_started rt)) wt" using covers_mono [OF _ assms(3), of wt] spec Some by simp
    ultimately show ?thesis using spec Some assms(2) rest_of_fields [OF f] by (intro start_ready_inv) (auto simp: start_ready_def)
  qed
qed

lemma start_failed_inv:
  assumes "start_ready rt"
  shows "rt_inv (start_failed w rt e)"
proof -
  let ?rt = "rt\<lparr>rt_tasks := registry_cancel (rt_tasks rt) e, rollbackPending := True\<rparr>"
  obtain rt' r where s: "stop_next w ?rt (rev (rt_started ?rt)) StartupContext = (rt', r)"
    by (cases "stop_next w ?rt (rev (rt_started ?rt)) StartupContext")
  have o: "ops_ok ?rt" using assms by (simp add: start_ready_def)
  then have "start_ready ?rt" using start_ready_cong [OF assms o] by simp
  from rollback_turn_inv [OF this _ _ s, of e] show ?thesis using s by (cases r) (simp_all add: start_failed_def Let_def)
qed

lemma planned_append: "planned (as @ bs) = planned as @ planned bs"
  by (induction as rule: planned.induct) simp_all

lemma planned_admissions: "planned (map StartAdmission cs) = []"
  by (induction cs) simp_all

lemma start_next_inv:
  assumes "start_ready rt" and "rt_ops rt = []" and "rt_started rt @ planned as = planned (start_plan (rt_components rt) admission)"
  shows "rt_inv (start_next w rt as)"
  using assms
proof (induction w rt as rule: start_next.induct)
  case (1 w rt)
  let ?rt = "start_next w rt []"
  have "ops_ok ?rt" using 1 by (simp add: start_ready_def)
  then show ?case using 1 by (auto simp: rt_inv_def start_ready_def)
next
  case (2 w rt as)
  let ?m = "map StartAdmission (filter (\<lambda>c. comp_category c = ManagedDataConnector) (rt_started rt))"
  show ?case
  proof (cases ?m)
    case Nil
    then show ?thesis using 2 by simp
  next
    case (Cons a bs)
    let ?rt = "rt\<lparr>start_pc := StartAwaits a (bs @ as)\<rparr>"
    have o: "ops_ok ?rt" using 2 by (simp add: start_ready_def)
    have r: "start_ready ?rt" using start_ready_cong [OF "2.prems"(1) o] by simp
    have "planned (a # bs) = []" using Cons planned_admissions by metis
    then have "planned (a # bs @ as) = planned as" using planned_append [of "a # bs" as] by simp
    then have "rt_inv ?rt" using start_ready_inv [OF r] r "2.prems" by (auto simp: start_ready_def)
    then show ?thesis using Cons by simp
  qed
next
  case (3 w rt c as)
  let ?rt = "rt\<lparr>start_pc := StartAwaits (StartComponent c) as\<rparr>"
  have o: "ops_ok ?rt" using 3 by (simp add: start_ready_def)
  have r: "start_ready ?rt" using start_ready_cong [OF "3.prems"(1) o] by simp
  have "rt_inv ?rt" using start_ready_inv [OF r] r "3.prems" by (auto simp: start_ready_def)
  then show ?case using start_failed_inv "3.prems" by (simp split: option.split)
next
  case (4 w rt c as)
  let ?rt = "rt\<lparr>start_pc := StartAwaits (StartAdmission c) as\<rparr>"
  have o: "ops_ok ?rt" using 4 by (simp add: start_ready_def)
  have r: "start_ready ?rt" using start_ready_cong [OF "4.prems"(1) o] by simp
  show ?case using start_ready_inv [OF r] r "4.prems" by (auto simp: start_ready_def)
qed


lemma planned_plan:
  "planned (start_plan cs admission) =
    concat (map (\<lambda>cat. filter (\<lambda>c. comp_category c = cat) cs)
      (filter (\<lambda>cat. admission \<or> cat \<notin> {DataSource, HttpServer}) START_ORDER))"
proof -
  have p: "planned (map StartComponent ds) = ds" for ds by (induction ds) simp_all
  have "planned (concat (map (\<lambda>cat. if \<not> admission \<and> (cat = DataSource \<or> cat = HttpServer) then []
      else (if cat = DataSource then [AdmitManaged] else []) @ map StartComponent (filter (\<lambda>c. comp_category c = cat) cs)) cats)) =
    concat (map (\<lambda>cat. filter (\<lambda>c. comp_category c = cat) cs) (filter (\<lambda>cat. admission \<or> cat \<notin> {DataSource, HttpServer}) cats))" for cats
    by (induction cats) (auto simp: planned_append p)
  then show ?thesis by (simp add: start_plan_def)
qed

lemma planned_distinct:
  assumes "components_ok cs"
  shows "distinct (planned (start_plan cs admission))"
proof -
  have d: "distinct cs" using assms by (simp add: components_ok_def distinct_map)
  have "distinct cats \<Longrightarrow> distinct (concat (map (\<lambda>cat. filter (\<lambda>c. comp_category c = cat) cs) cats))" for cats
    using d by (induction cats) auto
  moreover have "distinct START_ORDER" by (simp add: START_ORDER_def)
  ultimately show ?thesis unfolding planned_plan by (simp only: distinct_filter)
qed

lemma build_settles_inv:
  assumes "rt_inv rt"
  shows "rt_inv (build_settles w rt failure topology)"
proof (cases "\<exists>admission. start_pc rt = StartBuilding admission")
  case True
  then obtain admission where pc: "start_pc rt = StartBuilding admission" by blast
  then have s: "start_ok rt (StartBuilding admission)" using assms by (simp add: rt_inv_def)
  then have "start_ready rt" using start_readyD [OF assms] by simp
  then show ?thesis using start_failed_inv start_next_inv [of rt "start_plan (rt_components rt) admission" admission] s pc
    by (simp add: build_settles_def split: option.split)
qed (use assms in \<open>auto simp: build_settles_def split: start_pc.split\<close>)

text \<open>A component that is started joins the started ones, and is not among them yet.\<close>

lemma start_action_ready:
  assumes "start_ready rt" and "rt_ops rt = []" and "rt_started rt @ planned (a # as) = planned (start_plan (rt_components rt) admission)"
  shows "start_ready (case a of StartComponent c \<Rightarrow> rt\<lparr>rt_started := rt_started rt @ [c]\<rparr> | _ \<Rightarrow> rt)" (is "start_ready ?rt")
proof -
  have "distinct (rt_started rt @ planned (a # as))" using planned_distinct assms(1,3) by (simp add: start_ready_def)
  then have "ops_ok ?rt"
    using assms(1,2) by (cases a) (auto simp: start_ready_def ops_ok_def maps_to_ops_def pending_stops_def)
  then show ?thesis using start_ready_cong [OF assms(1), of ?rt] by (simp split: start_action.split)
qed

lemma start_settles_inv:
  assumes "rt_inv rt"
  shows "rt_inv (start_settles w rt failure)"
proof (cases "\<exists>a as. start_pc rt = StartAwaits a as")
  case True
  then obtain a as where pc: "start_pc rt = StartAwaits a as" by blast
  then have s: "start_ok rt (StartAwaits a as)" using assms by (simp add: rt_inv_def)
  then obtain admission where pl: "rt_started rt @ planned (a # as) = planned (start_plan (rt_components rt) admission)" by auto
  have r: "start_ready rt" using s start_readyD [OF assms] by simp
  let ?rt = "case a of StartComponent c \<Rightarrow> rt\<lparr>rt_started := rt_started rt @ [c]\<rparr> | _ \<Rightarrow> rt"
  have r': "start_ready ?rt" using start_action_ready [OF r _ pl] s by simp
  have "rt_inv (start_next w ?rt as)"
    by (rule start_next_inv [OF r', of as admission]) (use s pl in \<open>cases a; simp\<close>)+
  then show ?thesis using start_failed_inv [OF r] start_failed_inv [OF r'] pc
    by (simp add: start_settles_def Let_def split: option.split)
qed (use assms in \<open>auto simp: start_settles_def split: start_pc.split\<close>)

lemma rollback_over_inv:
  assumes "rt_inv rt"
  shows "rt_inv (rollback_over w rt)"
proof (cases "\<exists>e wt. start_pc rt = StartRollback e wt")
  case True
  then obtain e wt where pc: "start_pc rt = StartRollback e wt" by blast
  then have s: "start_ok rt (StartRollback e wt)" using assms by (simp add: rt_inv_def)
  then obtain b c t cs where wt: "wt = SeqWait b c t cs" by auto
  have r: "start_ready rt" using s start_readyD [OF assms] by simp
  obtain rt' q where n: "stop_next w rt cs StartupContext = (rt', q)" by (cases "stop_next w rt cs StartupContext")
  have "rt_inv (case q of None \<Rightarrow> rollback_ended rt' e True | Some wt \<Rightarrow> rt'\<lparr>start_pc := StartRollback e wt\<rparr>)"
    if "wait_over w rt StartupContext wt = Some None"
    using rollback_turn_inv [OF r _ _ n, of e] seq_over [of w rt StartupContext b c t cs] that s wt by auto
  then show ?thesis using rollback_ended_inv [OF r] s pc wt n assms
    by (cases q) (auto simp: rollback_over_def simp del: wait_over.simps split: option.split)
qed (use assms in \<open>auto simp: rollback_over_def split: start_pc.split\<close>)

lemma rollback_ticket_inv:
  assumes "rt_inv rt"
  shows "rt_inv (rollback_ticket w rt k)"
proof (cases "\<exists>e wt. start_pc rt = StartRollback e wt")
  case True
  then obtain e wt where pc: "start_pc rt = StartRollback e wt" by blast
  then have s: "start_ok rt (StartRollback e wt)" using assms by (simp add: rt_inv_def)
  have r: "start_ready rt" using s start_readyD [OF assms] by simp
  obtain rt' wt' where st: "wait_step w rt StartupContext wt k = (rt', wt')" by (cases "wait_step w rt StartupContext wt k")
  have ok: "ops_ok rt" "wait_ok rt wt" using r s by (simp_all add: start_ready_def)
  note spec = wait_step_spec [OF ok st, of "set (rt_started rt)"]
  have f: "rest_of rt' = rest_of rt" using spec by blast
  let ?rt = "rt'\<lparr>start_pc := StartRollback e wt'\<rparr>"
  have "start_ready ?rt" using start_ready_cong [OF r, of ?rt] spec rest_of_fields [OF f] by simp
  moreover have "wait_ok ?rt wt'" using wait_ok_later [OF later_cong, of ?rt rt'] spec by simp
  ultimately have "rt_inv ?rt" using s spec rest_of_fields [OF f] by (intro start_ready_inv) (auto simp: start_ready_def)
  then show ?thesis using pc st by (simp add: rollback_ticket_def)
qed (use assms in \<open>auto simp: rollback_ticket_def split: start_pc.split\<close>)


section \<open>Reachable states\<close>

lemma callers_inv [simp]: "rt_inv (rt\<lparr>callers := cs\<rparr>) = rt_inv rt"
proof -
  have "rt_inv (rt'\<lparr>callers := ds\<rparr>)" if "rt_inv rt'" for rt' ds
    using that start_ok_cong [of rt' "start_pc rt'" "rt'\<lparr>callers := ds\<rparr>"] stop_ok_cong [of rt' "stop_pc rt'" "rt'\<lparr>callers := ds\<rparr>"]
    by (simp add: rt_inv_def)
  from this [of rt cs] this [of "rt\<lparr>callers := cs\<rparr>" "callers rt"] show ?thesis by auto
qed

lemma tasks_inv:
  assumes "rt_inv rt" and "accepting ts \<longrightarrow> accepting (rt_tasks rt)"
  shows "rt_inv (rt\<lparr>rt_tasks := ts\<rparr>)"
  using assms start_ok_cong [of rt "start_pc rt" "rt\<lparr>rt_tasks := ts\<rparr>"] stop_ok_cong [of rt "stop_pc rt" "rt\<lparr>rt_tasks := ts\<rparr>"]
  by (auto simp: rt_inv_def)

lemma register_inv:
  assumes "rt_inv rt" and "register_component rt c = Inr rt'"
  shows "rt_inv rt'"
proof -
  have rt': "rt' = rt\<lparr>rt_components := rt_components rt @ [c]\<rparr>" "rt_state rt = RtCreated"
    and new: "\<not> list_ex (\<lambda>d. comp_category d = comp_category c \<and> comp_name d = comp_name c) (rt_components rt)"
    using assms(2) by (simp_all add: register_component_def split: if_splits)
  have "start_pc rt = StartIdle" "stop_pc rt = StopIdle"
    using assms(1) rt' by (auto simp: rt_inv_def elim!: stop_ok.elims)
  then show ?thesis using assms(1) rt' new by (auto simp: rt_inv_def components_ok_def list_ex_iff)
qed

lemma startMode_inv:
  assumes "rt_inv rt" and "startMode rt ctx admission = Inr rt'"
  shows "rt_inv rt'"
proof -
  have rt': "rt' = rt\<lparr>rt_state := RtStarting, startupPending := True, startup_context := ctx, start_pc := StartBuilding admission\<rparr>"
    and st: "rt_state rt = RtCreated"
    using assms(2) by (simp_all add: startMode_def split: if_splits)
  have "start_pc rt = StartIdle" "stop_pc rt = StopIdle"
    using assms(1) st by (auto simp: rt_inv_def elim!: stop_ok.elims)
  then show ?thesis using assms(1) rt' by (simp add: rt_inv_def)
qed

lemma join_attempt_inv: "rt_inv rt \<Longrightarrow> join_attempt w rt ctx = (rt', owns, a) \<Longrightarrow> rt_inv rt'"
  using stopOnce_inv by (auto simp: join_attempt_def split: if_splits)

lemma stop_service_inv:
  assumes "rt_inv rt"
  shows "rt_inv (stop_service w rt i c)"
proof (cases "\<not> startupPending rt \<and> rt_started rt = [] \<and> activeCount (rt_tasks rt) = 0")
  case True
  let ?rt = "rt\<lparr>rt_tasks := stopAdmission (rt_tasks rt), rt_state := RtStopped\<rparr>"
  have "rt_inv ?rt"
    using assms True start_ok_cong [of rt "start_pc rt" ?rt] stop_ok_cong [of rt "stop_pc rt" ?rt] by (simp add: rt_inv_def)
  then show ?thesis using True by (simp add: stop_service_def Let_def)
next
  case False
  obtain rt' owns a where j: "join_attempt w rt (StopContext i c) = (rt', owns, a)" by (cases "join_attempt w rt (StopContext i c)")
  have "stop_service w rt i c = rt'\<lparr>callers := callers rt' @ [\<lparr>caller_context = StopContext i c,
      caller_budget = context_remaining w rt (StopContext i c), caller_attempt = a, caller_owns = owns, caller_outcome = None\<rparr>]\<rparr>"
    unfolding stop_service_def Let_def if_not_P [OF False] j by simp
  then show ?thesis using join_attempt_inv [OF assms j] by simp
qed

lemma caller_wakes_inv:
  assumes "rt_inv rt"
  shows "rt_inv (caller_wakes w rt k)"
proof -
  have f: "rt_inv (caller_fails rt k c e)" for c e
    using tasks_inv [OF assms, of "stopAdmission (rt_tasks rt)"] callers_inv [of _ "rt\<lparr>rt_tasks := stopAdmission (rt_tasks rt)\<rparr>"]
    by (simp add: caller_fails_def)
  have j: "rt_inv (case join_attempt w rt ctx of (rt1, owns, a) \<Rightarrow> rt1\<lparr>callers := g rt1 owns a\<rparr>)" for ctx g
    using join_attempt_inv [OF assms, of w ctx] by (auto split: prod.split)
  show ?thesis using assms f j
    unfolding caller_wakes_def Let_def by (simp split: option.split)
qed

lemma op_settles_inv:
  assumes "rt_inv rt"
  shows "rt_inv (op_settles rt n failure)"
proof -
  let ?rt = "op_settles rt n failure"
  have ok: "ops_ok rt" using assms by (simp add: rt_inv_def)
  note spec = op_settles_spec [OF ok, of n failure]
  have f: "rest_of (?rt\<lparr>rt_started := rt_started rt\<rparr>) = rest_of rt" using spec by blast
  have idle: "?rt = rt" if "rt_ops rt = []" using that by (simp add: op_settles_def elem_at_def)
  have "start_ok ?rt (start_pc ?rt)"
    using assms start_ok_later [of rt "start_pc rt" ?rt] spec idle rest_of_fields [OF f] by (auto simp: rt_inv_def)
  moreover have "stop_ok ?rt (stop_pc ?rt)"
    using assms stop_ok_later [of rt "stop_pc rt" ?rt] spec rest_of_fields [OF f] by (auto simp: rt_inv_def)
  ultimately show ?thesis using assms spec rest_of_fields [OF f] by (auto simp: rt_inv_def later_def)
qed

lemma rt_step_inv:
  assumes "rt_inv rt"
  shows "rt_inv (rt_step rt (w, e))"
proof (cases e)
  case (Register c)
  then show ?thesis using assms register_inv [OF assms, of c] by (auto split: sum.split)
next
  case (StartService ctx admission)
  then show ?thesis using assms startMode_inv [OF assms, of ctx admission] by (auto split: sum.split)
next
  case (TaskEvent t)
  then show ?thesis using tasks_inv [OF assms, of "registry_step (rt_tasks rt) t"] accepting_step by auto
qed (simp_all add: build_settles_inv [OF assms] start_settles_inv [OF assms] rollback_ticket_inv [OF assms] rollback_over_inv [OF assms]
    stop_service_inv [OF assms] startup_over_inv [OF assms] stop_ticket_inv [OF assms] phase_over_inv [OF assms] drain_over_inv [OF assms]
    caller_wakes_inv [OF assms] op_settles_inv [OF assms])

lemma runtime_new_inv: "rt_inv (runtime_new ts ctx)"
  by (simp add: runtime_new_def rt_inv_def ops_ok_def maps_to_ops_def pending_stops_def components_ok_def jm_get_def)

lemma rt_run_inv: "rt_inv rt \<Longrightarrow> rt_inv (rt_run rt es)"
proof (induction es arbitrary: rt)
  case (Cons x es)
  then show ?case using rt_step_inv [of rt "fst x" "snd x"] by (simp add: rt_run_def)
qed (simp add: rt_run_def)


section \<open>The order of a shutdown\<close>

text \<open>
  A runtime is calm until its startup fails. In a calm runtime a stop begins only when every component of an earlier rank
  is stopped, and one of rank 4 or more only when no task is admitted any more.
\<close>

fun is_calm :: "start_pc \<Rightarrow> bool" where
  "is_calm (StartRollback e wt) \<longleftrightarrow> False"
| "is_calm (StartEnded (Some e)) \<longleftrightarrow> False"
| "is_calm pc \<longleftrightarrow> True"

definition ranked :: "runtime \<Rightarrow> component \<Rightarrow> bool" where
  "ranked rt c \<longleftrightarrow> (\<forall>d \<in> set (rt_started rt). stop_rank c \<le> stop_rank d) \<and> (4 \<le> stop_rank c \<longrightarrow> \<not> accepting (rt_tasks rt))"

definition order_ok :: "runtime \<Rightarrow> bool" where
  "order_ok rt \<longleftrightarrow> (is_calm (start_pc rt) \<longrightarrow> \<not> rollbackPending rt \<and>
     (\<forall>p \<in> set (rt_ops rt). \<not> op_admissionOnly p \<longrightarrow> ranked rt (op_component p)))"

fun wait_comps :: "wait \<Rightarrow> component set" where
  "wait_comps (GroupWait a b ts) = set (map fst ts)"
| "wait_comps (SeqWait b c t cs) = insert c (set cs)"

fun wait_admission :: "wait \<Rightarrow> bool" where
  "wait_admission (GroupWait a b ts) = a"
| "wait_admission (SeqWait b c t cs) = False"

fun stop_order :: "runtime \<Rightarrow> stop_pc \<Rightarrow> bool" where
  "stop_order rt (StopRollback wt) \<longleftrightarrow> \<not> is_calm (start_pc rt)"
| "stop_order rt (StopDrain d b after_rollback) \<longleftrightarrow> after_rollback \<longrightarrow> \<not> is_calm (start_pc rt)"
| "stop_order rt (StopPhase n wt) \<longleftrightarrow> (\<forall>c \<in> wait_comps wt. phase_components n c)"
| "stop_order rt pc \<longleftrightarrow> True"

definition order_inv :: "runtime \<Rightarrow> bool" where
  "order_inv rt \<longleftrightarrow> order_ok rt \<and> stop_order rt (stop_pc rt)"

lemma order_ok_later:
  assumes "order_ok rt" and "is_calm (start_pc rt') \<longrightarrow> is_calm (start_pc rt)" and "rollbackPending rt' \<longrightarrow> rollbackPending rt"
    and "set (rt_started rt') \<subseteq> set (rt_started rt)" and "accepting (rt_tasks rt') \<longrightarrow> accepting (rt_tasks rt)"
    and "\<forall>p \<in> set (rt_ops rt'). \<not> op_admissionOnly p \<longrightarrow> ranked rt (op_component p) \<or>
      (\<exists>q \<in> set (rt_ops rt). \<not> op_admissionOnly q \<and> op_component q = op_component p)"
  shows "order_ok rt'"
proof -
  have "ranked rt' c" if "ranked rt c" for c using that assms(4,5) by (auto simp: ranked_def)
  then show ?thesis using assms unfolding order_ok_def by metis
qed

lemma order_ok_cong:
  assumes "order_ok rt" and "start_pc rt' = start_pc rt" and "rollbackPending rt' = rollbackPending rt" and "rt_started rt' = rt_started rt"
    and "accepting (rt_tasks rt') \<longrightarrow> accepting (rt_tasks rt)" and "rt_ops rt' = rt_ops rt"
  shows "order_ok rt'"
  by (rule order_ok_later [OF assms(1)]) (use assms in auto)

lemma ranked_rest: "rest_of rt' = rest_of rt \<Longrightarrow> ranked rt' c = ranked rt c"
  using rest_of_fields [of rt' rt] by (simp add: ranked_def)

text \<open>A wait may begin the stops it is for.\<close>

definition may_stop :: "runtime \<Rightarrow> bool \<Rightarrow> component \<Rightarrow> bool" where
  "may_stop rt admission c \<longleftrightarrow> (is_calm (start_pc rt) \<longrightarrow> (admission \<and> comp_admission c) \<or> ranked rt c)"

lemma may_stop_rest: "rest_of rt' = rest_of rt \<Longrightarrow> may_stop rt' a c = may_stop rt a c"
  using rest_of_fields [of rt' rt] ranked_rest [of rt' rt] by (simp add: may_stop_def)

lemma stopComponent_order:
  assumes "order_ok rt" and "may_stop rt admission c" and "stopComponent rt c ctx admission = (rt', t)"
  shows "order_ok rt' \<and> rest_of rt' = rest_of rt"
proof -
  have o: "rest_of (q\<lparr>rt_ops := ops\<rparr>) = rest_of q" for q ops by (simp add: rest_of_def)
  have r: "rest_of rt' = rest_of rt" using assms(3) by (auto simp: stopComponent_def Let_def o split: option.splits)
  have "set (rt_ops rt') \<subseteq> insert \<lparr>op_component = c, op_admissionOnly = admission \<and> comp_admission c, op_context = ctx, op_status = OpRunning\<rparr> (set (rt_ops rt))"
    using assms(3) by (auto simp: stopComponent_def Let_def split: option.splits)
  then show ?thesis using assms(1,2) r ranked_rest [OF r] rest_of_fields [OF r]
    by (auto simp: order_ok_def may_stop_def)
qed

lemma stop_all_order:
  "order_ok rt \<Longrightarrow> list_all (may_stop rt a) cs \<Longrightarrow> stop_all rt cs ctx a = (rt', ts) \<Longrightarrow>
    order_ok rt' \<and> rest_of rt' = rest_of rt \<and> map fst ts = cs"
proof (induction cs arbitrary: rt rt' ts)
  case (Cons c cs)
  obtain rt1 t where s: "stopComponent rt c ctx a = (rt1, t)" by (cases "stopComponent rt c ctx a")
  obtain rt2 us where u: "stop_all rt1 cs ctx a = (rt2, us)" by (cases "stop_all rt1 cs ctx a")
  have first: "order_ok rt1" "rest_of rt1 = rest_of rt" using stopComponent_order [OF _ _ s] Cons.prems by simp_all
  moreover have "list_all (may_stop rt1 a) cs" using Cons.prems(2) may_stop_rest [OF first(2)] by (simp add: list_all_iff)
  ultimately show ?case using Cons.IH [of rt1 rt2 us] u s Cons.prems(3) by auto
qed simp

lemma stopGroup_order:
  assumes "order_ok rt" and "list_all (may_stop rt a) cs" and "stopGroup w rt cs ctx a = (rt', wt)"
  shows "order_ok rt' \<and> rest_of rt' = rest_of rt \<and> wait_comps wt = set cs"
proof -
  obtain rt1 ts where s: "stop_all rt (rev cs) ctx a = (rt1, ts)" by (cases "stop_all rt (rev cs) ctx a")
  have "list_all (may_stop rt a) (rev cs)" using assms(2) by (simp add: list_all_iff)
  note spec = stop_all_order [OF assms(1) this s]
  then have "set (map fst ts) = set cs" by (metis set_rev)
  then show ?thesis using spec s assms(3) by (auto simp: stopGroup_def)
qed

lemma stop_next_order:
  assumes "order_ok rt" and "list_all (may_stop rt False) cs" and "stop_next w rt cs ctx = (rt', r)"
  shows "order_ok rt' \<and> rest_of rt' = rest_of rt \<and> (case r of None \<Rightarrow> rt' = rt | Some wt \<Rightarrow> wait_comps wt = set cs)"
proof (cases cs)
  case (Cons c ds)
  obtain rt1 t where s: "stopComponent rt c ctx False = (rt1, t)" by (cases "stopComponent rt c ctx False")
  with stopComponent_order [OF assms(1) _ s] assms Cons show ?thesis by auto
qed (use assms in auto)

lemma ticket_step_order:
  assumes "order_ok rt" and "may_stop rt a c" and "ticket_step w rt ctx a c t = (rt', t')"
  shows "order_ok rt' \<and> rest_of rt' = rest_of rt"
  using assms(3) assms(1) stopComponent_order [OF assms(1,2), of ctx rt']
  by (auto simp: ticket_step_def split: ticket.splits option.splits op_status.splits if_splits)

lemma wait_step_order:
  assumes "order_ok rt" and "\<forall>c \<in> wait_comps wt. may_stop rt (wait_admission wt) c" and "wait_step w rt ctx wt k = (rt', wt')"
  shows "order_ok rt' \<and> rest_of rt' = rest_of rt \<and> wait_comps wt' = wait_comps wt"
proof (cases wt)
  case (GroupWait a b ts)
  show ?thesis
  proof (cases "k < length ts")
    case False
    then show ?thesis using assms GroupWait by (auto simp: elem_at_def)
  next
    case True
    obtain c t where ct: "ts ! k = (c, t)" by (cases "ts ! k")
    obtain rt1 t' where s: "ticket_step w rt ctx a c t = (rt1, t')" by (cases "ticket_step w rt ctx a c t")
    have "c \<in> wait_comps wt" using GroupWait True ct by (auto intro: rev_image_eqI [OF nth_mem])
    then have "may_stop rt a c" using assms(2) GroupWait by auto
    note spec = ticket_step_order [OF assms(1) this s]
    have "map fst (ts[k := (c, t')]) = map fst ts" using True ct by (metis fst_conv list_update_id map_update nth_map)
    then have "wait_comps (GroupWait a b (ts[k := (c, t')])) = wait_comps wt" by (simp only: wait_comps.simps GroupWait)
    moreover have "rt' = rt1" "wt' = GroupWait a b (ts[k := (c, t')])" using assms(3) GroupWait True ct s by (simp_all add: elem_at_def)
    ultimately show ?thesis using spec by simp
  qed
next
  case (SeqWait b c t cs)
  obtain rt1 t' where s: "ticket_step w rt ctx False c t = (rt1, t')" by (cases "ticket_step w rt ctx False c t")
  have "may_stop rt False c" using assms(2) SeqWait by simp
  from ticket_step_order [OF assms(1) this s] show ?thesis using assms(3) SeqWait s by auto
qed

lemma phase_may_stop:
  assumes "\<forall>d \<in> set (rt_started rt). cleared n d" and "4 \<le> n \<longrightarrow> \<not> accepting (rt_tasks rt)" and "n \<le> 6" and "phase_components n c"
  shows "may_stop rt (n = 0 \<or> n = 2) c"
  using phase_rank [OF assms(4,3)] assms(1,2) by (fastforce simp: may_stop_def ranked_def cleared_def)


lemma begin_phase_order:
  assumes "order_ok rt" and "n \<le> 6" and "\<forall>c \<in> set (rt_started rt). cleared n c" and "4 \<le> n \<longrightarrow> \<not> accepting (rt_tasks rt)"
  shows "order_inv (begin_phase w rt n)"
proof -
  let ?cs = "filter (phase_components n) (rt_started rt)"
  have may: "list_all (may_stop rt (n = 0 \<or> n = 2)) ?cs" using phase_may_stop [OF assms(3,4,2)] by (simp add: list_all_iff)
  show ?thesis
  proof (cases "n < 6")
    case True
    obtain rt' wt where s: "stopGroup w rt ?cs (stop_context rt) (n = 0 \<or> n = 2) = (rt', wt)"
      by (cases "stopGroup w rt ?cs (stop_context rt) (n = 0 \<or> n = 2)")
    note spec = stopGroup_order [OF assms(1) may s]
    then have "order_ok (rt'\<lparr>stop_pc := StopPhase n wt\<rparr>)" using order_ok_cong [of rt'] by simp
    then show ?thesis using spec s True by (simp add: begin_phase_def Let_def order_inv_def)
  next
    case False
    obtain rt' r where s: "stop_next w rt (rev ?cs) (stop_context rt) = (rt', r)" by (cases "stop_next w rt (rev ?cs) (stop_context rt)")
    have "list_all (may_stop rt False) (rev ?cs)" using may False assms(2) by (simp add: list_all_iff)
    note spec = stop_next_order [OF assms(1) this s]
    then have "order_ok (rt'\<lparr>stop_pc := pc\<rparr>)" "order_ok (attempt_succeeded rt')" for pc
      using order_ok_cong [of rt'] by (simp_all add: attempt_succeeded_def attempt_ended_def)
    then show ?thesis using spec s False
      by (cases r) (simp_all add: begin_phase_def Let_def order_inv_def attempt_succeeded_def attempt_ended_def)
  qed
qed

lemma attempt_ended_order: "order_ok rt \<Longrightarrow> order_inv (attempt_ended rt r)" "order_ok rt \<Longrightarrow> order_inv (attempt_succeeded rt)"
  using order_ok_cong [of rt "attempt_ended rt r"] order_ok_cong [of rt "attempt_succeeded rt"]
  by (simp_all add: order_inv_def attempt_succeeded_def attempt_ended_def)

lemma drained_order:
  assumes "order_ok rt" and "after \<or> (\<forall>c \<in> set (rt_started rt). cleared 4 c)"
  shows "order_inv (drained w rt after)"
proof -
  have "order_ok (rt\<lparr>rt_tasks := stopAdmission (rt_tasks rt)\<rparr>)" by (rule order_ok_cong [OF assms(1)]) simp_all
  then show ?thesis using assms(2) by (auto simp: drained_def Let_def intro: begin_phase_order attempt_ended_order)
qed

lemma drainTasks_order:
  assumes "order_ok rt" and "after \<longrightarrow> \<not> is_calm (start_pc rt)" and "after \<or> (\<forall>c \<in> set (rt_started rt). cleared 4 c)"
  shows "order_inv (drainTasks w rt after)"
proof (cases "activeCount (rt_tasks rt) > 0")
  case True
  then have "order_ok (drainTasks w rt after)" by (intro order_ok_cong [OF assms(1)]) (simp_all add: drainTasks_def Let_def)
  then show ?thesis using True assms(2) by (simp add: drainTasks_def Let_def order_inv_def)
qed (use drained_order [OF assms(1,3)] in \<open>simp add: drainTasks_def\<close>)

lemma not_calm_order: "\<not> is_calm (start_pc rt) \<Longrightarrow> order_ok rt" "\<not> is_calm (start_pc rt) \<Longrightarrow> may_stop rt a c"
  by (simp_all add: order_ok_def may_stop_def)

lemma attempt_rollback_order:
  assumes "\<not> is_calm (start_pc rt)"
  shows "order_inv (attempt_rollback w rt cs)"
proof -
  obtain rt' r where s: "stop_next w rt cs (stop_context rt) = (rt', r)" by (cases "stop_next w rt cs (stop_context rt)")
  have "list_all (may_stop rt False) cs" using not_calm_order assms by (simp add: list_all_iff)
  note spec = stop_next_order [OF not_calm_order(1) [OF assms] this s]
  then have c: "\<not> is_calm (start_pc rt')" using assms rest_of_fields [of rt' rt] by simp
  then have "order_inv (drainTasks w (rt'\<lparr>rollbackPending := False\<rparr>) True)"
    by (intro drainTasks_order not_calm_order) simp_all
  moreover have "order_inv (rt'\<lparr>stop_pc := StopRollback wt\<rparr>)" for wt using c by (simp add: order_inv_def not_calm_order)
  ultimately show ?thesis using s by (simp add: attempt_rollback_def split: option.split)
qed

lemma after_startup_order:
  assumes "order_ok rt"
  shows "order_inv (after_startup w rt)"
  using assms attempt_rollback_order [of rt] begin_phase_order [OF assms, of 0]
  by (auto simp: after_startup_def order_ok_def cleared_def)

lemma stopOnce_order:
  assumes "order_ok rt"
  shows "order_inv (stopOnce w rt ctx)"
proof (cases "startupPending rt")
  case True
  then have "order_ok (stopOnce w rt ctx)" by (intro order_ok_cong [OF assms]) (simp_all add: stopOnce_def Let_def)
  then show ?thesis using True by (simp add: stopOnce_def Let_def order_inv_def)
next
  case False
  have "order_ok (rt\<lparr>rt_state := RtStopping, stop_context := ctx\<rparr>)" by (rule order_ok_cong [OF assms]) simp_all
  then show ?thesis using False after_startup_order by (simp add: stopOnce_def Let_def)
qed

lemma startup_over_order:
  assumes "order_inv rt"
  shows "order_inv (startup_over w rt)"
proof -
  have a: "order_ok rt" using assms by (simp add: order_inv_def)
  have "order_ok (rt\<lparr>rt_tasks := registry_cancel (rt_tasks rt) e\<rparr>)" for e by (rule order_ok_cong [OF a]) simp_all
  then show ?thesis using assms after_startup_order [OF a] attempt_ended_order
    by (simp add: startup_over_def Let_def split: stop_pc.split start_pc.split)
qed

lemma drain_over_order:
  assumes "rt_inv rt" and "order_inv rt"
  shows "order_inv (drain_over w rt)"
proof (cases "\<exists>d b after. stop_pc rt = StopDrain d b after")
  case True
  then obtain d b after where pc: "stop_pc rt = StopDrain d b after" by blast
  have a: "order_ok rt" using assms(2) by (simp add: order_inv_def)
  have "order_ok (rt\<lparr>rt_tasks := registry_cancel (rt_tasks rt) e\<rparr>)" for e by (rule order_ok_cong [OF a]) simp_all
  then have "order_inv (drain_failed rt e)" for e using attempt_ended_order by (simp add: drain_failed_def)
  moreover have "after \<or> (\<forall>c \<in> set (rt_started rt). cleared 4 c)" using assms(1) pc by (simp add: rt_inv_def split: if_splits)
  ultimately show ?thesis using drained_order [OF a] pc assms(2)
    by (auto simp: drain_over_def split: option.split drain_state.split)
qed (use assms in \<open>auto simp: drain_over_def split: stop_pc.split\<close>)


lemma phase_over_order:
  assumes "rt_inv rt" and "order_inv rt"
  shows "order_inv (phase_over w rt)"
proof (cases "stop_pc rt")
  case (StopRollback wt)
  then show ?thesis using assms(2) attempt_ended_order attempt_rollback_order
    by (auto simp: phase_over_def order_inv_def split: option.split)
next
  case (StopPhase n wt)
  have a: "order_ok rt" and ph: "\<forall>c \<in> wait_comps wt. phase_components n c" using assms(2) StopPhase by (simp_all add: order_inv_def)
  have st: "stop_ok rt (StopPhase n wt)" using assms(1) StopPhase by (simp add: rt_inv_def)
  show ?thesis
  proof (cases "wait_over w rt (stop_context rt) wt = Some None")
    case False
    then show ?thesis using StopPhase assms(2) attempt_ended_order [OF a] by (auto simp: phase_over_def split: option.split)
  next
    case over: True
    show ?thesis
    proof (cases "n < 6")
      case True
      obtain b ts where wt: "wt = GroupWait (n = 0 \<or> n = 2) b ts" using st True by auto
      have "(n = 0 \<or> n = 2) \<and> comp_admission c" if "c \<in> set (rt_started rt)" "phase_components n c" for c
        using group_over [OF over [unfolded wt], of c] st wt that by auto
      then have "\<forall>c \<in> set (rt_started rt). cleared (n + 1) c" using phase_cleared [of "rt_started rt" n] st True by auto
      then have "order_inv (if n = 3 then drainTasks w rt False else begin_phase w rt (n + 1))"
        using drainTasks_order [OF a, of False w] begin_phase_order [OF a, of "n + 1" w] st True by (auto simp: eval_nat_numeral)
      then show ?thesis using StopPhase over True by (simp add: phase_over_def)
    next
      case False
      then have n: "n = 6" using st by simp
      then obtain b c t cs where wt: "wt = SeqWait b c t cs" using st by auto
      obtain rt' r where s: "stop_next w rt cs (stop_context rt) = (rt', r)" by (cases "stop_next w rt cs (stop_context rt)")
      have "list_all (may_stop rt False) cs" using phase_may_stop [of rt 6] st ph wt n by (simp add: list_all_iff)
      note spec = stop_next_order [OF a this s]
      then have "order_ok (rt'\<lparr>stop_pc := pc\<rparr>)" for pc using order_ok_cong [of rt'] by simp
      then show ?thesis using spec StopPhase over False wt s ph attempt_ended_order(2) [OF a]
        by (cases r) (simp_all add: phase_over_def order_inv_def)
    qed
  qed
qed (use assms in \<open>simp_all add: phase_over_def\<close>)

lemma stop_ticket_order:
  assumes "rt_inv rt" and "order_inv rt"
  shows "order_inv (stop_ticket w rt k)"
proof (cases "\<exists>wt. stop_pc rt = StopRollback wt \<or> (\<exists>n. stop_pc rt = StopPhase n wt)")
  case True
  then obtain wt where pc: "stop_pc rt = StopRollback wt \<or> (\<exists>n. stop_pc rt = StopPhase n wt)" by blast
  have a: "order_ok rt" using assms(2) by (simp add: order_inv_def)
  obtain rt' wt' where s: "wait_step w rt (stop_context rt) wt k = (rt', wt')" by (cases "wait_step w rt (stop_context rt) wt k")
  have "\<forall>c \<in> wait_comps wt. may_stop rt (wait_admission wt) c"
  proof (cases "stop_pc rt = StopRollback wt")
    case True
    then show ?thesis using assms(2) not_calm_order by (simp add: order_inv_def)
  next
    case False
    then obtain n where n: "stop_pc rt = StopPhase n wt" using pc by blast
    then have st: "stop_ok rt (StopPhase n wt)" "stop_order rt (StopPhase n wt)" using assms by (simp_all add: rt_inv_def order_inv_def)
    have "wait_admission wt = (n = 0 \<or> n = 2)" using st(1) by (auto split: if_splits)
    then show ?thesis using phase_may_stop [of rt n] st by simp
  qed
  note spec = wait_step_order [OF a this s]
  then have "order_ok (rt'\<lparr>stop_pc := q\<rparr>)" for q using order_ok_cong [of rt'] by simp
  then show ?thesis using spec pc s assms(2) rest_of_fields [of rt' rt] by (auto simp: stop_ticket_def order_inv_def)
qed (use assms in \<open>auto simp: stop_ticket_def split: stop_pc.split\<close>)

text \<open>The startup: no stop is there until it fails, and then the runtime is not calm.\<close>

lemma pending_order: "startupPending rt \<Longrightarrow> stop_ok rt (stop_pc rt) \<Longrightarrow> order_ok rt \<Longrightarrow> order_inv rt"
  using pending_stop_pc [of rt "stop_pc rt"] by (auto simp: order_inv_def)

lemma start_failed_order:
  assumes "start_ready rt"
  shows "order_inv (start_failed w rt e)"
proof -
  let ?rt = "rt\<lparr>rt_tasks := registry_cancel (rt_tasks rt) e, rollbackPending := True\<rparr>"
  obtain rt' r where s: "stop_next w ?rt (rev (rt_started ?rt)) StartupContext = (rt', r)"
    by (cases "stop_next w ?rt (rev (rt_started ?rt)) StartupContext")
  have "ops_ok ?rt" using assms by (simp add: start_ready_def)
  then have "stop_pc rt' = stop_pc rt" using stop_next_spec [OF _ s] rest_of_fields [of rt' ?rt] by simp
  then show ?thesis using s assms
    by (cases r) (auto simp: start_failed_def Let_def rollback_ended_def order_inv_def not_calm_order start_ready_def)
qed

lemma idle_order:
  assumes "rt_ops rt = []" and "\<not> rollbackPending rt"
  shows "order_ok rt"
  using assms by (simp add: order_ok_def)

lemma start_next_order:
  assumes "start_ready rt" and "rt_ops rt = []" and "\<not> rollbackPending rt"
  shows "order_inv (start_next w rt as)"
  using assms
proof (induction w rt as rule: start_next.induct)
  case (3 w rt c as)
  then show ?case using start_failed_order [of rt w]
    by (auto simp: order_inv_def idle_order start_ready_def split: option.split)
qed (auto simp: order_inv_def idle_order start_ready_def split: list.split)

lemma build_settles_order:
  assumes "rt_inv rt" and "order_inv rt"
  shows "order_inv (build_settles w rt failure topology)"
proof (cases "\<exists>admission. start_pc rt = StartBuilding admission")
  case True
  then obtain admission where pc: "start_pc rt = StartBuilding admission" by blast
  then have s: "start_ok rt (StartBuilding admission)" using assms(1) by (simp add: rt_inv_def)
  then have "start_ready rt" using start_readyD [OF assms(1)] by simp
  moreover have "\<not> rollbackPending rt" using assms(2) pc by (simp add: order_inv_def order_ok_def)
  ultimately show ?thesis using start_failed_order start_next_order s pc by (simp add: build_settles_def split: option.split)
qed (use assms in \<open>auto simp: build_settles_def split: start_pc.split\<close>)

lemma start_settles_order:
  assumes "rt_inv rt" and "order_inv rt"
  shows "order_inv (start_settles w rt failure)"
proof (cases "\<exists>a as. start_pc rt = StartAwaits a as")
  case True
  then obtain a as where pc: "start_pc rt = StartAwaits a as" by blast
  then have s: "start_ok rt (StartAwaits a as)" using assms(1) by (simp add: rt_inv_def)
  then have r: "start_ready rt" using start_readyD [OF assms(1)] by simp
  have b: "\<not> rollbackPending rt" using assms(2) pc by (simp add: order_inv_def order_ok_def)
  let ?rt = "case a of StartComponent c \<Rightarrow> rt\<lparr>rt_started := rt_started rt @ [c]\<rparr> | _ \<Rightarrow> rt"
  obtain admission where pl: "rt_started rt @ planned (a # as) = planned (start_plan (rt_components rt) admission)" using s by auto
  have r': "start_ready ?rt" using start_action_ready [OF r _ pl] s by simp
  have "order_inv (start_next w ?rt as)" by (rule start_next_order [OF r']) (use s b in \<open>cases a; simp\<close>)+
  then show ?thesis using start_failed_order [OF r] start_failed_order [OF r'] pc
    by (simp add: start_settles_def Let_def split: option.split)
qed (use assms in \<open>auto simp: start_settles_def split: start_pc.split\<close>)

text \<open>The steps of the rollback leave the runtime as it is to a stop: it is not calm, and a stop can only wait.\<close>

lemma rollback_order:
  assumes "rt_inv rt" and "order_inv rt"
  shows "order_inv (rollback_over w rt)" and "order_inv (rollback_ticket w rt k)"
proof -
  have keep: "order_inv q" if "start_pc rt = StartRollback e wt" "stop_pc q = stop_pc rt" "\<not> is_calm (start_pc q)" for q e wt
  proof -
    have "start_ok rt (StartRollback e wt)" using assms(1) that(1) by (simp add: rt_inv_def)
    then have "start_ready rt" using start_readyD [OF assms(1)] by simp
    then show ?thesis using that by (auto simp: order_inv_def not_calm_order start_ready_def)
  qed
  have ok: "ops_ok rt" using assms(1) by (simp add: rt_inv_def)
  have "stop_pc rt' = stop_pc rt" if "stop_next w rt cs StartupContext = (rt', r)" for cs rt' r
    using stop_next_spec [OF ok that] rest_of_fields [of rt' rt] by simp
  then show "order_inv (rollback_over w rt)" using assms(2)
    by (auto simp: rollback_over_def rollback_ended_def Let_def split: start_pc.split option.split prod.split intro!: keep)
  have "stop_pc rt' = stop_pc rt" if "start_pc rt = StartRollback e wt" "wait_step w rt StartupContext wt k = (rt', wt')" for e wt rt' wt'
    using wait_step_spec [OF ok _ that(2)] that(1) assms(1) rest_of_fields [of rt' rt] by (simp add: rt_inv_def)
  then show "order_inv (rollback_ticket w rt k)" using assms(2)
    by (auto simp: rollback_ticket_def split: start_pc.split prod.split intro!: keep)
qed


lemma op_settles_order:
  assumes "rt_inv rt" and "order_inv rt"
  shows "order_inv (op_settles rt n failure)"
proof -
  let ?rt = "op_settles rt n failure"
  have ok: "ops_ok rt" using assms(1) by (simp add: rt_inv_def)
  note spec = op_settles_spec [OF ok, of n failure]
  have f: "rest_of (?rt\<lparr>rt_started := rt_started rt\<rparr>) = rest_of rt" using spec by blast
  have "length (rt_ops ?rt) = length (rt_ops rt)"
    by (auto simp: op_settles_def Let_def split: option.split)
  then have "\<exists>q \<in> set (rt_ops rt). op_admissionOnly q = op_admissionOnly p \<and> op_component q = op_component p" if "p \<in> set (rt_ops ?rt)" for p
    using that spec unfolding in_set_conv_nth later_def by (metis nth_mem)
  then have "order_ok ?rt"
    using order_ok_later [of rt ?rt] assms(2) spec rest_of_fields [OF f] by (fastforce simp: order_inv_def later_def)
  moreover have "stop_order ?rt pc = stop_order rt pc" for pc using rest_of_fields [OF f] by (cases pc) simp_all
  ultimately show ?thesis using assms(2) rest_of_fields [OF f] by (simp add: order_inv_def)
qed

lemma order_inv_cong:
  assumes "order_inv rt" and "start_pc rt' = start_pc rt" and "rollbackPending rt' = rollbackPending rt" and "rt_started rt' = rt_started rt"
    and "accepting (rt_tasks rt') \<longrightarrow> accepting (rt_tasks rt)" and "rt_ops rt' = rt_ops rt" and "stop_pc rt' = stop_pc rt"
  shows "order_inv rt'"
proof -
  have "stop_order rt' pc = stop_order rt pc" for pc using assms(2) by (cases pc) simp_all
  then show ?thesis using assms order_ok_cong [of rt rt'] by (simp add: order_inv_def)
qed

lemma callers_order: "order_inv rt \<Longrightarrow> order_inv (rt\<lparr>callers := cs\<rparr>)"
  by (rule order_inv_cong [of rt]) simp_all

lemma join_attempt_order: "order_inv rt \<Longrightarrow> join_attempt w rt ctx = (rt', owns, a) \<Longrightarrow> order_inv rt'"
  using stopOnce_order by (auto simp: join_attempt_def order_inv_def split: if_splits)

lemma stop_service_order:
  assumes "order_inv rt"
  shows "order_inv (stop_service w rt i c)"
proof (cases "\<not> startupPending rt \<and> rt_started rt = [] \<and> activeCount (rt_tasks rt) = 0")
  case True
  then show ?thesis by (intro order_inv_cong [OF assms]) (simp_all add: stop_service_def Let_def)
next
  case False
  obtain rt' owns a where j: "join_attempt w rt (StopContext i c) = (rt', owns, a)" by (cases "join_attempt w rt (StopContext i c)")
  show ?thesis unfolding stop_service_def Let_def if_not_P [OF False] j using callers_order [OF join_attempt_order [OF assms j]] by simp
qed

lemma caller_wakes_order:
  assumes "order_inv rt"
  shows "order_inv (caller_wakes w rt k)"
proof -
  have f: "order_inv (caller_fails rt k c e)" for c e by (rule order_inv_cong [OF assms]) (simp_all add: caller_fails_def)
  have j: "order_inv (case join_attempt w rt ctx of (rt1, owns, a) \<Rightarrow> rt1\<lparr>callers := g rt1 owns a\<rparr>)" for ctx g
    using join_attempt_order [OF assms, of w ctx] callers_order by (auto split: prod.split)
  show ?thesis using assms f j callers_order [OF assms]
    unfolding caller_wakes_def Let_def by (simp split: option.split)
qed

lemma startMode_order:
  assumes "rt_inv rt" and "order_inv rt" and "startMode rt ctx admission = Inr rt'"
  shows "order_inv rt'"
proof -
  have rt': "rt' = rt\<lparr>rt_state := RtStarting, startupPending := True, startup_context := ctx, start_pc := StartBuilding admission\<rparr>"
    and st: "rt_state rt = RtCreated"
    using assms(3) by (simp_all add: startMode_def split: if_splits)
  have pc: "start_pc rt = StartIdle" "stop_pc rt = StopIdle"
    using assms(1) st by (auto simp: rt_inv_def elim!: stop_ok.elims)
  then have "rt_ops rt = []" using assms(1) by (simp add: rt_inv_def)
  then show ?thesis using assms(2) rt' pc by (simp add: order_inv_def order_ok_def)
qed

lemma rt_step_order:
  assumes "rt_inv rt" and "order_inv rt"
  shows "order_inv (rt_step rt (w, e))"
proof (cases e)
  case (Register c)
  moreover have "order_inv (rt\<lparr>rt_components := cs\<rparr>)" for cs by (rule order_inv_cong [OF assms(2)]) simp_all
  ultimately show ?thesis using assms(2) by (auto simp: register_component_def)
next
  case (StartService ctx admission)
  then show ?thesis using assms startMode_order [OF assms, of ctx admission] by (auto split: sum.split)
next
  case (TaskEvent t)
  have "order_inv (rt\<lparr>rt_tasks := registry_step (rt_tasks rt) t\<rparr>)"
    by (rule order_inv_cong [OF assms(2)]) (use accepting_step in auto)
  then show ?thesis using TaskEvent by simp
qed (simp_all add: build_settles_order [OF assms] start_settles_order [OF assms] rollback_order [OF assms]
    stop_service_order [OF assms(2)] startup_over_order [OF assms(2)] stop_ticket_order [OF assms] phase_over_order [OF assms]
    drain_over_order [OF assms] caller_wakes_order [OF assms(2)] op_settles_order [OF assms])

lemma rt_run_order: "rt_inv rt \<Longrightarrow> order_inv rt \<Longrightarrow> order_inv (rt_run rt es)"
proof (induction es arbitrary: rt)
  case (Cons x es)
  then show ?case using rt_step_inv [of rt "fst x" "snd x"] rt_step_order [of rt "fst x" "snd x"] by (simp add: rt_run_def)
qed (simp add: rt_run_def)

lemma runtime_new_order: "order_inv (runtime_new ts ctx)"
  by (simp add: runtime_new_def order_inv_def order_ok_def)


section \<open>What a stop that returns has done\<close>

text \<open>An attempt has succeeded, or a caller of \<open>stop\<close> has returned; then nothing is started or admitted any more.\<close>

definition has_returned :: "runtime \<Rightarrow> bool" where
  "has_returned rt \<longleftrightarrow> None \<in> set (attempts rt) \<or> (\<exists>c \<in> set (callers rt). caller_outcome c = Some None)"

definition quiesced :: "runtime \<Rightarrow> bool" where
  "quiesced rt \<longleftrightarrow> rt_started rt = [] \<and> \<not> startupPending rt \<and> \<not> accepting (rt_tasks rt) \<and> rt_state rt \<noteq> RtCreated"

definition return_ok :: "runtime \<Rightarrow> bool" where
  "return_ok rt \<longleftrightarrow> (has_returned rt \<longrightarrow> quiesced rt)"

text \<open>The end of a step: what \<open>stopped\<close> says is in the invariant.\<close>

definition returns :: "runtime \<Rightarrow> bool" where
  "returns rt \<longleftrightarrow> rt_state rt = RtStopped \<or> return_ok rt"

lemma returns_inv: "rt_inv rt \<Longrightarrow> returns rt \<Longrightarrow> return_ok rt"
  by (auto simp: returns_def return_ok_def rt_inv_def quiesced_def)

lemma return_ok_later:
  assumes "return_ok rt" and "set (rt_started rt') \<subseteq> set (rt_started rt)" and "startupPending rt' = startupPending rt"
    and "accepting (rt_tasks rt') \<longrightarrow> accepting (rt_tasks rt)" and "rt_state rt' = RtCreated \<longrightarrow> rt_state rt = RtCreated"
    and "has_returned rt' \<longrightarrow> has_returned rt"
  shows "return_ok rt'"
  using assms by (auto simp: return_ok_def quiesced_def)

lemma return_ok_rest:
  assumes "return_ok rt" and "rest_of rt' = rest_of rt"
  shows "return_ok rt'" "return_ok (rt'\<lparr>stop_pc := pc\<rparr>)" "return_ok (rt'\<lparr>start_pc := q\<rparr>)"
  by (rule return_ok_later [OF assms(1)]; use rest_of_fields [OF assms(2)] in \<open>simp add: has_returned_def\<close>)+

lemma return_ok_tasks: "return_ok rt \<Longrightarrow> (accepting ts \<longrightarrow> accepting (rt_tasks rt)) \<Longrightarrow> return_ok (rt\<lparr>rt_tasks := ts\<rparr>)"
  by (erule return_ok_later) (simp_all add: has_returned_def)

lemma attempt_ended_returns:
  "return_ok rt \<Longrightarrow> returns (attempt_ended rt (Some e))" "returns (attempt_succeeded rt)"
  by (simp_all add: returns_def return_ok_def has_returned_def quiesced_def attempt_ended_def attempt_succeeded_def)

lemma begin_phase_returns:
  assumes "return_ok rt" and "ops_ok rt"
  shows "returns (begin_phase w rt n)"
proof -
  have "return_ok (rt'\<lparr>stop_pc := pc\<rparr>)" if "stopGroup w rt cs ctx a = (rt', wt)" for cs ctx a rt' wt pc
    using return_ok_rest(2) [OF assms(1)] stopGroup_spec [OF assms(2) that] by blast
  moreover have "return_ok (rt'\<lparr>stop_pc := pc\<rparr>)" if "stop_next w rt cs ctx = (rt', r)" for cs ctx rt' r pc
    using return_ok_rest(2) [OF assms(1)] stop_next_spec [OF assms(2) that] by blast
  ultimately show ?thesis using attempt_ended_returns
    by (auto simp: begin_phase_def Let_def returns_def split: prod.split option.split)
qed

lemma drained_returns:
  assumes "return_ok rt" and "ops_ok rt"
  shows "returns (drained w rt after)"
  using attempt_ended_returns(2) begin_phase_returns [OF return_ok_tasks [OF assms(1), of "stopAdmission (rt_tasks rt)"]] assms(2)
  by (simp add: drained_def Let_def)

lemma drainTasks_returns:
  assumes "return_ok rt" and "ops_ok rt"
  shows "returns (drainTasks w rt after)"
proof -
  have "return_ok (rt\<lparr>rt_tasks := TaskRegistry.drain (rt_tasks rt) b, stop_pc := pc\<rparr>)" for b pc
    by (rule return_ok_later [OF assms(1)]) (simp_all add: has_returned_def)
  then show ?thesis using drained_returns [OF assms] by (simp add: drainTasks_def Let_def returns_def)
qed

lemma attempt_rollback_returns:
  assumes "return_ok rt" and "ops_ok rt"
  shows "returns (attempt_rollback w rt cs)"
proof -
  obtain rt' r where s: "stop_next w rt cs (stop_context rt) = (rt', r)" by (cases "stop_next w rt cs (stop_context rt)")
  note spec = stop_next_spec [OF assms(2) s]
  then have q: "return_ok rt'" "return_ok (rt'\<lparr>stop_pc := pc\<rparr>)" for pc using return_ok_rest [OF assms(1)] by blast+
  have "return_ok (rt'\<lparr>rollbackPending := False\<rparr>)" by (rule return_ok_later [OF q(1)]) (simp_all add: has_returned_def)
  then show ?thesis using q s spec drainTasks_returns by (simp add: attempt_rollback_def returns_def split: option.split)
qed

lemma after_startup_returns: "return_ok rt \<Longrightarrow> ops_ok rt \<Longrightarrow> returns (after_startup w rt)"
  by (simp add: after_startup_def attempt_rollback_returns begin_phase_returns)

lemma stopOnce_returns:
  assumes "return_ok rt" and "ops_ok rt"
  shows "returns (stopOnce w rt ctx)"
proof (cases "startupPending rt")
  case True
  have "return_ok (stopOnce w rt ctx)"
    by (rule return_ok_later [OF assms(1)]) (use True in \<open>simp_all add: stopOnce_def Let_def has_returned_def\<close>)
  then show ?thesis by (simp add: returns_def)
next
  case False
  have "return_ok (rt\<lparr>rt_state := RtStopping, stop_context := ctx\<rparr>)" by (rule return_ok_later [OF assms(1)]) (simp_all add: has_returned_def)
  then show ?thesis using False assms(2) after_startup_returns by (simp add: stopOnce_def Let_def)
qed

lemma attempt_steps_return:
  assumes "return_ok rt" and "ops_ok rt"
  shows "returns (startup_over w rt)" and "returns (drain_over w rt)" and "returns (phase_over w rt)"
proof -
  have q: "returns rt" using assms(1) by (simp add: returns_def)
  have f: "returns (attempt_ended (rt\<lparr>rt_tasks := registry_cancel (rt_tasks rt) e\<rparr>) (Some e))" for e
    using attempt_ended_returns(1) return_ok_tasks [OF assms(1)] by simp
  show "returns (startup_over w rt)" using q f after_startup_returns [OF assms]
    by (simp add: startup_over_def Let_def split: stop_pc.split start_pc.split)
  show "returns (drain_over w rt)" using q f drained_returns [OF assms]
    by (auto simp: drain_over_def drain_failed_def split: stop_pc.split option.split drain_state.split)
  have "returns (case stop_next w rt cs (stop_context rt) of (rt1, None) \<Rightarrow> attempt_succeeded rt1 | (rt1, Some wt) \<Rightarrow> rt1\<lparr>stop_pc := StopPhase n wt\<rparr>)" for cs n
    using attempt_ended_returns(2) return_ok_rest(2) [OF assms(1)] stop_next_spec [OF assms(2), of w cs "stop_context rt"]
    by (auto simp: returns_def split: prod.split option.split)
  then show "returns (phase_over w rt)"
    using q attempt_ended_returns(1) [OF assms(1)] attempt_rollback_returns [OF assms] drainTasks_returns [OF assms] begin_phase_returns [OF assms]
    by (simp add: phase_over_def split: stop_pc.split option.split)
qed


lemma stop_ticket_returns:
  assumes "return_ok rt" and "rt_inv rt"
  shows "return_ok (stop_ticket w rt k)"
proof -
  have ok: "ops_ok rt" using assms(2) by (simp add: rt_inv_def)
  have "return_ok (rt'\<lparr>stop_pc := pc\<rparr>)" if "wait_ok rt wt" "wait_step w rt (stop_context rt) wt k = (rt', wt')" for wt rt' wt' pc
    using return_ok_rest(2) [OF assms(1)] wait_step_spec [OF ok that] by blast
  moreover have "wait_ok rt wt" if "stop_pc rt = StopRollback wt \<or> stop_pc rt = StopPhase n wt" for wt n using that assms(2) by (auto simp: rt_inv_def)
  ultimately show ?thesis using assms(1) by (auto simp: stop_ticket_def split: stop_pc.split prod.split)
qed

lemma callers_return:
  assumes "return_ok rt" and "\<forall>c \<in> set cs. caller_outcome c = Some None \<longrightarrow> has_returned rt"
  shows "return_ok (rt\<lparr>callers := cs\<rparr>)"
  using assms by (auto simp: return_ok_def has_returned_def quiesced_def)

lemma join_attempt_return:
  assumes "return_ok rt" and "rt_inv rt" and "join_attempt w rt ctx = (rt', owns, a)"
  shows "return_ok rt'"
proof -
  have "returns rt'" using assms stopOnce_returns [OF assms(1)] by (auto simp: join_attempt_def returns_def rt_inv_def split: if_splits)
  then show ?thesis using returns_inv join_attempt_inv [OF assms(2,3)] by blast
qed

lemma stop_service_return:
  assumes "return_ok rt" and "rt_inv rt"
  shows "return_ok (stop_service w rt i c)"
proof (cases "\<not> startupPending rt \<and> rt_started rt = [] \<and> activeCount (rt_tasks rt) = 0")
  case True
  then have "rt_state (stop_service w rt i c) = RtStopped" by (simp add: stop_service_def Let_def)
  then have "returns (stop_service w rt i c)" by (simp add: returns_def)
  then show ?thesis by (rule returns_inv [OF stop_service_inv [OF assms(2)]])
next
  case False
  obtain rt' owns a where j: "join_attempt w rt (StopContext i c) = (rt', owns, a)" by (cases "join_attempt w rt (StopContext i c)")
  have "return_ok (rt'\<lparr>callers := callers rt' @ [d]\<rparr>)" if "caller_outcome d = None" for d
    using callers_return [OF join_attempt_return [OF assms j], of "callers rt' @ [d]"] that by (auto simp: has_returned_def)
  then show ?thesis unfolding stop_service_def Let_def if_not_P [OF False] j by simp
qed

lemma updated_callers:
  "d \<in> set ((callers rt)[k := c]) \<Longrightarrow> caller_outcome d = Some None \<Longrightarrow> caller_outcome c = Some None \<or> has_returned rt"
  by (auto simp: has_returned_def dest!: set_update_subset_insert [THEN subsetD])

lemma caller_wakes_return:
  assumes "return_ok rt" and "rt_inv rt"
  shows "return_ok (caller_wakes w rt k)"
proof -
  have f: "return_ok (caller_fails rt k c e)" for c e
  proof -
    have "has_returned (caller_fails rt k c e) \<longrightarrow> has_returned rt"
      using updated_callers [of _ rt k "c\<lparr>caller_outcome := Some (Some e)\<rparr>"] by (auto simp: caller_fails_def has_returned_def)
    then show ?thesis by (intro return_ok_later [OF assms(1)]) (simp_all add: caller_fails_def)
  qed
  have j: "return_ok (case join_attempt w rt ctx of (rt1, owns, a) \<Rightarrow> rt1\<lparr>callers := (callers rt1)[k := c\<lparr>caller_attempt := a, caller_owns := owns\<rparr>]\<rparr>)"
    if "caller_outcome c = None" for ctx c
    using join_attempt_return [OF assms, of w ctx] updated_callers [of _ _ k "c\<lparr>caller_attempt := _, caller_owns := _\<rparr>"] that
    by (auto split: prod.split intro!: callers_return)
  have r: "return_ok (rt\<lparr>callers := (callers rt)[k := c\<lparr>caller_outcome := Some None\<rparr>]\<rparr>)"
    if "elem_at (attempts rt) n = Some None" for c n
  proof -
    have "None \<in> set (attempts rt)" using that by (metis elem_at_def nth_mem option.distinct(1) option.inject)
    then have "has_returned rt" by (simp add: has_returned_def)
    then show ?thesis using callers_return [OF assms(1)] by simp
  qed
  show ?thesis using assms(1) f j r unfolding caller_wakes_def Let_def by (auto split: option.split)
qed

lemma pending_no_return: "startupPending rt \<Longrightarrow> return_ok rt \<longleftrightarrow> \<not> has_returned rt"
  by (simp add: return_ok_def quiesced_def)

lemma start_failed_return:
  assumes "start_ready rt" and "\<not> has_returned rt"
  shows "\<not> has_returned (start_failed w rt e)"
proof -
  let ?rt = "rt\<lparr>rt_tasks := registry_cancel (rt_tasks rt) e, rollbackPending := True\<rparr>"
  obtain rt' r where s: "stop_next w ?rt (rev (rt_started ?rt)) StartupContext = (rt', r)"
    by (cases "stop_next w ?rt (rev (rt_started ?rt)) StartupContext")
  have "ops_ok ?rt" using assms by (simp add: start_ready_def)
  then have "attempts rt' = attempts rt" "callers rt' = callers rt" using stop_next_spec [OF _ s] rest_of_fields [of rt' ?rt] by simp_all
  then show ?thesis using s assms(2) by (cases r) (simp_all add: start_failed_def Let_def rollback_ended_def has_returned_def)
qed

lemma start_next_return: "start_ready rt \<Longrightarrow> \<not> has_returned rt \<Longrightarrow> \<not> has_returned (start_next w rt as)"
proof (induction w rt as rule: start_next.induct)
  case (3 w rt c as)
  moreover have "\<not> has_returned (rt\<lparr>start_pc := q\<rparr>)" for q using 3 by (simp add: has_returned_def)
  ultimately show ?case using start_failed_return [of rt w] by (simp split: option.split)
qed (auto simp: has_returned_def split: list.split)

lemma start_steps_return:
  assumes "return_ok rt" and "rt_inv rt"
  shows "return_ok (build_settles w rt failure topology)" and "return_ok (start_settles w rt failure)"
    and "return_ok (rollback_over w rt)" and "return_ok (rollback_ticket w rt k)"
proof -
  have none: "\<not> has_returned rt" if "startupPending rt" using that assms(1) pending_no_return by simp
  have ready: "start_ready rt" if "startupPending rt" using that start_readyD [OF assms(2)] by simp
  have st: "start_ok rt (start_pc rt)" using assms(2) by (simp add: rt_inv_def)
  show "return_ok (build_settles w rt failure topology)"
    using st assms(1) none ready start_failed_return start_next_return
    by (auto simp: build_settles_def return_ok_def split: start_pc.split option.split)
  show "return_ok (start_settles w rt failure)"
  proof (cases "\<exists>a as. start_pc rt = StartAwaits a as")
    case True
    then obtain a as where pc: "start_pc rt = StartAwaits a as" by blast
    then obtain admission where pl: "rt_started rt @ planned (a # as) = planned (start_plan (rt_components rt) admission)" using st by auto
    let ?rt = "case a of StartComponent c \<Rightarrow> rt\<lparr>rt_started := rt_started rt @ [c]\<rparr> | _ \<Rightarrow> rt"
    have p: "startupPending rt" "rt_ops rt = []" using st pc by simp_all
    have r: "start_ready ?rt" using start_action_ready [OF ready [OF p(1)] p(2) pl] .
    have "\<not> has_returned ?rt" using none p by (simp add: has_returned_def split: start_action.split)
    then have "\<not> has_returned (start_settles w rt failure)"
      using start_failed_return [OF r] start_next_return [OF r] start_failed_return [OF ready [OF p(1)] none [OF p(1)]] pc
      by (simp add: start_settles_def Let_def split: option.split)
    then show ?thesis by (simp add: return_ok_def)
  qed (use assms(1) in \<open>auto simp: start_settles_def split: start_pc.split\<close>)
  have ok: "ops_ok rt" using assms(2) by (simp add: rt_inv_def)
  have keep: "return_ok q" if "startupPending rt" "rest_of rt' = rest_of rt" "attempts q = attempts rt'" "callers q = callers rt'" for rt' q
    using none that rest_of_fields [OF that(2)] by (simp add: return_ok_def has_returned_def)
  show "return_ok (rollback_over w rt)"
  proof (cases "\<exists>e wt. start_pc rt = StartRollback e wt")
    case True
    then obtain e wt where pc: "start_pc rt = StartRollback e wt" by blast
    obtain rt' r where s: "stop_next w rt (wait_rest wt) StartupContext = (rt', r)" by (cases "stop_next w rt (wait_rest wt) StartupContext")
    have f: "rest_of rt' = rest_of rt" "startupPending rt" using stop_next_spec [OF ok s] st pc by auto
    show ?thesis using keep [OF f(2,1)] keep [OF f(2) refl] pc s assms(1)
      by (cases r) (auto simp: rollback_over_def rollback_ended_def Let_def split: option.split)
  qed (use assms(1) in \<open>auto simp: rollback_over_def split: start_pc.split\<close>)
  show "return_ok (rollback_ticket w rt k)"
  proof (cases "\<exists>e wt. start_pc rt = StartRollback e wt")
    case True
    then obtain e wt where pc: "start_pc rt = StartRollback e wt" by blast
    obtain rt' wt' where s: "wait_step w rt StartupContext wt k = (rt', wt')" by (cases "wait_step w rt StartupContext wt k")
    have "wait_ok rt wt" using st pc by simp
    then have "rest_of rt' = rest_of rt" using wait_step_spec [OF ok _ s] by blast
    then show ?thesis using return_ok_rest(3) [OF assms(1)] pc s by (simp add: rollback_ticket_def)
  qed (use assms(1) in \<open>auto simp: rollback_ticket_def split: start_pc.split\<close>)
qed

lemma op_settles_return:
  assumes "return_ok rt" and "rt_inv rt"
  shows "return_ok (op_settles rt n failure)"
proof -
  let ?rt = "op_settles rt n failure"
  have ok: "ops_ok rt" using assms(2) by (simp add: rt_inv_def)
  note spec = op_settles_spec [OF ok, of n failure]
  have f: "rest_of (?rt\<lparr>rt_started := rt_started rt\<rparr>) = rest_of rt" using spec by blast
  show ?thesis by (rule return_ok_later [OF assms(1)]) (use spec rest_of_fields [OF f] in \<open>simp_all add: later_def has_returned_def\<close>)
qed

lemma rt_step_return:
  assumes "rt_inv rt" and "return_ok rt"
  shows "return_ok (rt_step rt (w, e))"
proof -
  have ok: "ops_ok rt" using assms(1) by (simp add: rt_inv_def)
  show ?thesis
  proof (cases e)
    case (Register c)
    have "return_ok (rt\<lparr>rt_components := cs\<rparr>)" for cs by (rule return_ok_later [OF assms(2)]) (simp_all add: has_returned_def)
    then show ?thesis using assms(2) Register by (auto simp: register_component_def)
  next
    case (StartService ctx admission)
    have "\<not> has_returned rt" if "rt_state rt = RtCreated" using that assms(2) by (auto simp: return_ok_def quiesced_def)
    then show ?thesis using StartService assms(2) by (auto simp: startMode_def return_ok_def has_returned_def)
  next
    case (TaskEvent t)
    then show ?thesis using return_ok_tasks [OF assms(2)] accepting_step by auto
  qed (use returns_inv [OF rt_step_inv [OF assms(1), of w e]] attempt_steps_return [OF assms(2) ok] in
    \<open>simp_all add: start_steps_return [OF assms(2,1)] stop_service_return [OF assms(2,1)] stop_ticket_returns [OF assms(2,1)]
      caller_wakes_return [OF assms(2,1)] op_settles_return [OF assms(2,1)]\<close>)
qed


lemma rt_run_return: "rt_inv rt \<Longrightarrow> return_ok rt \<Longrightarrow> return_ok (rt_run rt es)"
proof (induction es arbitrary: rt)
  case (Cons x es)
  then show ?case using rt_step_inv [of rt "fst x" "snd x"] rt_step_return [of rt "fst x" "snd x"] by (simp add: rt_run_def)
qed (simp add: rt_run_def)

lemma runtime_new_return: "return_ok (runtime_new ts ctx)"
  by (simp add: runtime_new_def return_ok_def has_returned_def)

section \<open>A startup without failures\<close>

lemma startup_aborted_update [simp]:
  "startup_aborted w (rt\<lparr>start_pc := q\<rparr>) = startup_aborted w rt"
  "startup_aborted w (rt\<lparr>rt_started := cs\<rparr>) = startup_aborted w rt"
  by (simp_all add: startup_aborted_def split: option.split)

lemma rt_run_Cons: "rt_run rt (x # es) = rt_run (rt_step rt x) es"
  by (simp add: rt_run_def)

definition starts_up :: "stop_world \<Rightarrow> runtime \<Rightarrow> component list \<Rightarrow> bool" where
  "starts_up w rt cs \<longleftrightarrow>
     (\<exists>k. let rt' = rt_run rt (replicate k (w, StartSettles None)) in rt_state rt' = RtRunning \<and> rt_started rt' = cs)"

lemma starts_up_step: "starts_up w (start_settles w rt None) cs \<Longrightarrow> starts_up w rt cs"
proof -
  assume "starts_up w (start_settles w rt None) cs"
  then obtain k where "let rt' = rt_run rt (replicate (Suc k) (w, StartSettles None)) in rt_state rt' = RtRunning \<and> rt_started rt' = cs"
    unfolding starts_up_def by (auto simp: rt_run_Cons)
  then show ?thesis unfolding starts_up_def by blast
qed

text \<open>The admissions of the managed connectors, one after the other.\<close>

lemma admissions_start_up:
  assumes "startup_aborted w rt = None" and "\<And>q. starts_up w (start_next w (rt\<lparr>start_pc := q\<rparr>) as) cs"
  shows "starts_up w (rt\<lparr>start_pc := StartAwaits (StartAdmission c) (map StartAdmission bs @ as)\<rparr>) cs"
proof (induction bs arbitrary: c)
  case Nil
  show ?case by (rule starts_up_step) (use assms in \<open>simp add: start_settles_def Let_def\<close>)
next
  case (Cons b bs)
  have "start_settles w (rt\<lparr>start_pc := StartAwaits (StartAdmission c) (map StartAdmission (b # bs) @ as)\<rparr>) None =
      rt\<lparr>start_pc := StartAwaits (StartAdmission b) (map StartAdmission bs @ as)\<rparr>"
    using assms(1) by (simp add: start_settles_def Let_def)
  then show ?case using starts_up_step Cons.IH [of b] by metis
qed

lemma start_next_starts_up:
  assumes "startup_aborted w rt = None" and "\<forall>a \<in> set as. \<forall>c. a \<noteq> StartAdmission c"
  shows "starts_up w (start_next w rt as) (rt_started rt @ planned as)"
  using assms
proof (induction as arbitrary: rt)
  case Nil
  show ?case unfolding starts_up_def by (rule exI [of _ 0]) (simp add: rt_run_def)
next
  case (Cons a as)
  show ?case
  proof (cases a)
    case (StartComponent c)
    let ?rt = "rt\<lparr>start_pc := StartAwaits (StartComponent c) as\<rparr>"
    have "starts_up w (start_settles w ?rt None) (rt_started rt @ planned (a # as))"
      using Cons.IH [of "?rt\<lparr>rt_started := rt_started rt @ [c]\<rparr>"] Cons.prems StartComponent by (simp add: start_settles_def Let_def)
    then show ?thesis using StartComponent Cons.prems starts_up_step by simp
  next
    case AdmitManaged
    then have next_up: "starts_up w (start_next w (rt\<lparr>start_pc := q\<rparr>) as) (rt_started rt @ planned (a # as))"
        "starts_up w (start_next w rt as) (rt_started rt @ planned (a # as))" for q
      using Cons.IH [of "rt\<lparr>start_pc := q\<rparr>"] Cons.IH [of rt] Cons.prems by simp_all
    show ?thesis
    proof (cases "filter (\<lambda>c. comp_category c = ManagedDataConnector) (rt_started rt)")
      case Nil
      then show ?thesis using next_up AdmitManaged by simp
    next
      case (Cons b bs)
      then show ?thesis using admissions_start_up [OF \<open>startup_aborted w rt = None\<close>, of as] next_up AdmitManaged by simp
    qed
  qed (use Cons.prems in simp)
qed

lemma plan_without_admissions: "a \<in> set (start_plan cs admission) \<Longrightarrow> a \<noteq> StartAdmission c"
  by (auto simp: start_plan_def START_ORDER_def split: if_splits)

section \<open>Properties\<close>

text \<open>
  C34. When a call of \<open>stop\<close> returns, the service is down and stays down: in every state from then on, whatever
  calls, failures, timeouts and interleavings led there, no component is started, no startup is pending and the
  task registry admits nothing.
\<close>

theorem stop_returns_stopped:
  assumes "rt = rt_run (runtime_new tasks ctx) es" and "c \<in> set (callers rt)" and "caller_outcome c = Some None"
  shows "rt_started rt = [] \<and> \<not> startupPending rt \<and> \<not> accepting (rt_tasks rt)"
proof -
  have "return_ok rt" using rt_run_return [OF runtime_new_inv runtime_new_return] assms(1) by simp
  then show ?thesis using assms(2,3) by (auto simp: return_ok_def has_returned_def quiesced_def)
qed

text \<open>
  C35. A component is stopped once: of all the stops that the attempts, the retries and the rollback begin
  for a component, at most one runs or has succeeded; and a component whose stop has succeeded is no
  longer among the started ones.
\<close>

theorem component_stopped_once:
  assumes "rt = rt_run (runtime_new tasks ctx) es" and "n < length (rt_ops rt)" and "\<not> op_admissionOnly (rt_ops rt ! n)"
    and "op_status (rt_ops rt ! n) \<in> {OpRunning, OpFulfilled}"
  shows "(\<forall>m < length (rt_ops rt). m \<noteq> n \<and> \<not> op_admissionOnly (rt_ops rt ! m) \<and> op_component (rt_ops rt ! m) = op_component (rt_ops rt ! n) \<longrightarrow>
      (\<exists>e. op_status (rt_ops rt ! m) = OpRejected e)) \<and>
    (op_status (rt_ops rt ! n) = OpFulfilled \<longrightarrow> op_component (rt_ops rt ! n) \<notin> set (rt_started rt))"
proof -
  have ok: "ops_ok rt" using rt_run_inv [OF runtime_new_inv, of tasks ctx es] assms(1) by (simp add: rt_inv_def)
  have own: "jm_get (componentStops rt) (op_component (rt_ops rt ! k)) = Some k"
    if "k < length (rt_ops rt)" "\<not> op_admissionOnly (rt_ops rt ! k)" "op_alive (op_status (rt_ops rt ! k))" for k
    using ok that by (simp add: ops_ok_def)
  have alive: "op_alive (op_status (rt_ops rt ! n))" using assms(4) by auto
  have "\<exists>e. op_status (rt_ops rt ! m) = OpRejected e"
    if "m < length (rt_ops rt)" "m \<noteq> n" "\<not> op_admissionOnly (rt_ops rt ! m)" "op_component (rt_ops rt ! m) = op_component (rt_ops rt ! n)" for m
    using own [of m] own [OF assms(2,3) alive] that by (cases "op_status (rt_ops rt ! m)") auto
  moreover have "op_component (rt_ops rt ! n) \<notin> set (rt_started rt)" if "op_status (rt_ops rt ! n) = OpFulfilled"
    using ok that assms(2,3) by (simp add: ops_ok_def)
  ultimately show ?thesis by blast
qed

text \<open>
  C36. The order of a shutdown. After a startup that succeeded, no component is stopped while one of an earlier rank
  is still started: sources, servers and components first, then storages and pools, sinks, connectors, and
  telemetry last. Sinks, connectors that admit, and telemetry are stopped only when no task is admitted any more. This
  holds across attempts that fail or time out and are made again.
\<close>

theorem shutdown_order:
  assumes "rt = rt_run (runtime_new tasks ctx) es" and "start_pc rt = StartEnded None" and "p \<in> set (rt_ops rt)" and "\<not> op_admissionOnly p"
  shows "(\<forall>d \<in> set (rt_started rt). stop_rank (op_component p) \<le> stop_rank d) \<and>
    (4 \<le> stop_rank (op_component p) \<longrightarrow> \<not> accepting (rt_tasks rt))"
proof -
  have "order_inv rt" using rt_run_order [OF runtime_new_inv runtime_new_order] assms(1) by simp
  then show ?thesis using assms(2-4) by (auto simp: order_inv_def order_ok_def ranked_def)
qed

text \<open>
  C37. A startup that meets no failure and is not stopped comes to an end: when the streams are built and each
  component that is called returns, the service is running, and the components are started category by category
  (telemetry, connectors, storages, the pools, the components of the service, sinks, sources, servers), in
  the order of registration within one; without admission, all but the sources and servers.
\<close>

theorem startup_completes:
  assumes "rt = rt_run (runtime_new tasks ctx) es" and "start_pc rt = StartBuilding admission" and "startup_aborted w rt = None"
  shows "\<exists>k. let rt' = rt_run rt ((w, BuildSettles None None) # replicate k (w, StartSettles None))
    in rt_state rt' = RtRunning \<and>
       rt_started rt' = concat (map (\<lambda>cat. filter (\<lambda>c. comp_category c = cat) (rt_components rt))
         (filter (\<lambda>cat. admission \<or> cat \<notin> {DataSource, HttpServer}) 
           [Telemetry, ManagedDataConnector, Storage, DelayPools, TaskPools, PriorityTaskPools, Components, DataSink, DataSource, HttpServer]))"
proof -
  have "rt_inv rt" using rt_run_inv [OF runtime_new_inv] assms(1) by simp
  then have "rt_started rt = []" using assms(2) by (simp add: rt_inv_def)
  moreover have "starts_up w (start_next w rt (start_plan (rt_components rt) admission)) (rt_started rt @ planned (start_plan (rt_components rt) admission))"
    using start_next_starts_up [OF assms(3)] plan_without_admissions by blast
  moreover have "rt_step rt (w, BuildSettles None None) = start_next w rt (start_plan (rt_components rt) admission)"
    using assms(2,3) by (simp add: build_settles_def)
  ultimately show ?thesis unfolding START_ORDER_def [symmetric] by (simp add: starts_up_def rt_run_Cons planned_plan)
qed


section \<open>Witnesses\<close>

text \<open>A service with telemetry and a source is started and stopped.\<close>

definition still_world :: stop_world where
  "still_world = \<lparr>clock = 0, abort_reason = (\<lambda>_. None), next_error = 0, error_cause = (\<lambda>_. None), show_number = (\<lambda>_. [])\<rparr>"

definition the_context :: context_state where
  "the_context = \<lparr>ctx_signal = 0, ctx_deadline = None, ctx_sampling = False\<rparr>"

definition the_telemetry :: component where
  "the_telemetry = \<lparr>comp_category = Telemetry, comp_name = ''t'', comp_admission = False\<rparr>"

definition the_source :: component where
  "the_source = \<lparr>comp_category = DataSource, comp_name = ''s'', comp_admission = False\<rparr>"

definition boot :: "(stop_world \<times> rt_event) list" where
  "boot = map (Pair still_world) [Register the_source, Register the_telemetry, StartService the_context True]"

definition begin_stop :: "(stop_world \<times> rt_event) list" where
  "begin_stop = boot @ map (Pair still_world) [BuildSettles None None, StartSettles None, StartSettles None, StopService 1 the_context]"

definition full_stop :: "(stop_world \<times> rt_event) list" where
  "full_stop = begin_stop @ map (Pair still_world) [OpSettles 0 None, StopTicket 0, PhaseOver, PhaseOver, PhaseOver, PhaseOver, PhaseOver,
     PhaseOver, OpSettles 1 None, StopTicket 0, PhaseOver, CallerWakes 0]"

definition the_service :: "(stop_world \<times> rt_event) list \<Rightarrow> runtime" where
  "the_service es = rt_run (runtime_new (registry_new [] True) the_context) es"

theorem stop_returns_stopped_witness:
  "\<not> accepting (rt_tasks (the_service full_stop)) \<and> rt_started (the_service begin_stop) = [the_telemetry, the_source]"
proof -
  have "map caller_outcome (callers (the_service full_stop)) = [Some None]" "rt_started (the_service begin_stop) = [the_telemetry, the_source]"
    by code_simp+
  moreover from this obtain c where "callers (the_service full_stop) = [c]" "caller_outcome c = Some None" by auto
  ultimately show ?thesis using stop_returns_stopped [OF the_service_def [of full_stop], of c] by simp
qed

theorem component_stopped_once_witness:
  "op_component (rt_ops (the_service full_stop) ! 1) \<notin> set (rt_started (the_service full_stop))"
proof -
  have "1 < length (rt_ops (the_service full_stop))" "\<not> op_admissionOnly (rt_ops (the_service full_stop) ! 1)"
    "op_status (rt_ops (the_service full_stop) ! 1) = OpFulfilled" by code_simp+
  then show ?thesis using component_stopped_once [OF the_service_def [of full_stop], of 1] by simp
qed

theorem shutdown_order_witness:
  "stop_rank the_source \<le> stop_rank the_telemetry \<and> the_telemetry \<in> set (rt_started (the_service begin_stop))"
proof -
  let ?p = "\<lparr>op_component = the_source, op_admissionOnly = False, op_context = StopContext 1 the_context, op_status = OpRunning\<rparr>"
  have "start_pc (the_service begin_stop) = StartEnded None" "rt_ops (the_service begin_stop) = [?p]"
    and m: "the_telemetry \<in> set (rt_started (the_service begin_stop))" by code_simp+
  then show ?thesis using shutdown_order [OF the_service_def [of begin_stop], of ?p] by auto
qed

theorem startup_completes_witness:
  "\<exists>k. rt_started (rt_run (the_service boot) ((still_world, BuildSettles None None) # replicate k (still_world, StartSettles None))) =
     [the_telemetry, the_source]"
proof -
  have "start_pc (the_service boot) = StartBuilding True" "startup_aborted still_world (the_service boot) = None"
    "concat (map (\<lambda>cat. filter (\<lambda>c. comp_category c = cat) (rt_components (the_service boot)))
       (filter (\<lambda>cat. True \<or> cat \<notin> {DataSource, HttpServer})
         [Telemetry, ManagedDataConnector, Storage, DelayPools, TaskPools, PriorityTaskPools, Components, DataSink, DataSource, HttpServer])) = [the_telemetry, the_source]" by code_simp+
  then show ?thesis using startup_completes [OF the_service_def [of boot], of True still_world] by (auto simp: Let_def)
qed

end
