(* ===== verification/StreamGraph.thy ===== *)
theory StreamGraph
  imports SerdeRegistry JoinStorage Callers "HOL-Library.Product_Lexorder"
begin

text \<open>
  The assembly of the stream graph: the constructors of the operators (\<open>src/operators/*.ts\<close>), the streams they
  connect (\<open>consumed-stream.ts\<close>, \<open>stream.ts\<close>, \<open>SplitLink\<close> of \<open>split.ts\<close>), their registration and the check of the
  topology (\<open>ServiceEnvironment\<close> of \<open>runtime-environment.ts\<close>). Streams are objects in a list and are named by
  their index; all belong to one environment. A constructor that throws ends the assembly.
\<close>

section \<open>Streams\<close>

text \<open>
  What is given to \<open>setConsumer\<close>: the stream itself, or a link that stands for an entry of it
  (\<open>MergeLink\<close>, \<open>JoinLink\<close>, \<open>MultiJoinLink\<close> with its index, \<open>ResultLink\<close>). A source is a stream or a link
  of a split, named by the split and its index.
\<close>

datatype entry = NodeEntry nat | MergeEntry nat | RightEntry nat | SlotEntry nat nat | ResultEntry nat

fun entry_node :: "entry \<Rightarrow> nat" where
  "entry_node (NodeEntry i) = i"
| "entry_node (MergeEntry i) = i"
| "entry_node (RightEntry i) = i"
| "entry_node (SlotEntry i k) = i"
| "entry_node (ResultEntry i) = i"

datatype source = NodeSource nat | LinkSource nat nat

text \<open>A connection: the consumer, and the caller with its statistics object.\<close>

type_synonym connection = "entry \<times> caller \<times> nat"

record stream_node =
  node_config :: StreamConfig
  node_isError :: bool
  node_typed :: bool
  node_consumer :: "connection option"
  node_links :: "connection option list"
  dispatchOrder :: "nat list"
  whenStreams :: "nat list"
  node_case :: "(nat \<times> nat) option"
  node_source :: "source option"
  linkCount :: nat
  selectorBuilt :: bool
  node_errorStream :: "nat option"

definition new_node :: "StreamConfig \<Rightarrow> stream_node" where
  "new_node c =
     \<lparr>node_config = c, node_isError = False, node_typed = True, node_consumer = None, node_links = [], dispatchOrder = [],
      whenStreams = [], node_case = None, node_source = None, linkCount = 0, selectorBuilt = False, node_errorStream = None\<rparr>"

text \<open>\<open>id\<close>: an error stream has the negated id of its owner.\<close>

definition node_id :: "stream_node \<Rightarrow> int" where
  "node_id n = (if node_isError n then - config_id (node_config n) else config_id (node_config n))"

definition is_split :: "stream_node \<Rightarrow> bool" where
  "is_split n \<longleftrightarrow> \<not> node_isError n \<and> stream_body (node_config n) = SplitBody"

definition is_case :: "stream_node \<Rightarrow> bool" where
  "is_case n \<longleftrightarrow> \<not> node_isError n \<and> body_type (stream_body (node_config n)) = TCase"

definition is_substream :: "stream_node \<Rightarrow> bool" where
  "is_substream n \<longleftrightarrow> \<not> node_isError n \<and> body_type (stream_body (node_config n)) = TSubStream"

record graph =
  graph_nodes :: "stream_node list"
  graph_streams :: "(int, nat) jsmap"
  graph_buildables :: "nat list"
  graph_storages :: "nat list"
  graph_counts :: link_counts

definition empty_graph :: graph where
  "empty_graph = \<lparr>graph_nodes = [], graph_streams = [], graph_buildables = [], graph_storages = [],
     graph_counts = \<lparr>statistics = [], linkCallCounts = []\<rparr>\<rparr>"

text \<open>
  What the assembly reads: the configuration, the service, the serdes, the pools, and the kinds of storage
  for which the join storage factory makes one.
\<close>

record assembly =
  asm_config :: RuntimeConfig
  asm_service :: int
  asm_registry :: SerdeRegistry
  asm_pools :: runtime_pools
  asm_customStorage :: "JoinStorageType \<Rightarrow> bool"

definition bad_ref :: string where
  "bad_ref = ''no such stream''"

definition on_node :: "nat \<Rightarrow> (stream_node \<Rightarrow> stream_node) \<Rightarrow> graph \<Rightarrow> graph" where
  "on_node i f g = g\<lparr>graph_nodes := (graph_nodes g)[i := f (graph_nodes g ! i)]\<rparr>"

definition add_node :: "graph \<Rightarrow> stream_node \<Rightarrow> graph" where
  "add_node g n = g\<lparr>graph_nodes := graph_nodes g @ [n]\<rparr>"

definition stream_name :: "graph \<Rightarrow> nat \<Rightarrow> string" where
  "stream_name g i =
     (let n = graph_nodes g ! i; own = config_name (node_config n)
      in case node_case n of
           None \<Rightarrow> own
         | Some (c, k) \<Rightarrow> if own \<noteq> [] then own else config_name (node_config (graph_nodes g ! c)) @ ''CaseLink'' @ show_int (int k))"

definition registerStream :: "graph \<Rightarrow> nat \<Rightarrow> string + graph" where
  "registerStream g i =
     (let k = node_id (graph_nodes g ! i)
      in if jm_has (graph_streams g) k then Inl (''duplicate runtime stream id '' @ show_int k)
         else Inr (g\<lparr>graph_streams := jm_set (graph_streams g) k i\<rparr>))"

definition registerRuntimeBuildable :: "graph \<Rightarrow> nat \<Rightarrow> string + graph" where
  "registerRuntimeBuildable g i =
     (if i \<in> set (graph_buildables g) then Inl ''runtime buildable is already registered''
      else Inr (g\<lparr>graph_buildables := graph_buildables g @ [i]\<rparr>))"

definition makeCaller :: "assembly \<Rightarrow> graph \<Rightarrow> int \<Rightarrow> int \<Rightarrow> string + graph \<times> caller \<times> nat" where
  "makeCaller a g s t =
     mapR (\<lambda>c. case makeLinkRecorder (graph_counts g) s t of (lc, k) \<Rightarrow> (g\<lparr>graph_counts := lc\<rparr>, c, k))
       (create (asm_config a) (asm_service a) (asm_pools a) s t)"

text \<open>\<open>config()\<close> of a stream: the configuration by its id.\<close>

definition live_config :: "assembly \<Rightarrow> graph \<Rightarrow> nat \<Rightarrow> string + StreamConfig" where
  "live_config a g i =
     (let k = config_id (node_config (graph_nodes g ! i))
      in case streamById (asm_config a) k of None \<Rightarrow> Inl (''stream config '' @ show_int k @ '' not found'') | Some c \<Rightarrow> Inr c)"

definition same_service :: "assembly \<Rightarrow> graph \<Rightarrow> nat \<Rightarrow> nat \<Rightarrow> string \<Rightarrow> string + unit" where
  "same_service a g i j message =
     bindR (live_config a g i) (\<lambda>c. bindR (live_config a g j) (\<lambda>d. require (idService c = idService d) message))"

definition assigned :: "string \<Rightarrow> string" where
  "assigned n = ''consumer already assigned to stream '' @ n"

fun setConsumer :: "assembly \<Rightarrow> graph \<Rightarrow> source \<Rightarrow> entry \<Rightarrow> string + graph" where
  "setConsumer a g (NodeSource i) e =
     (case elem_at (graph_nodes g) i of
        None \<Rightarrow> Inl bad_ref
      | Some n \<Rightarrow>
          if \<not> node_typed n then Inl bad_ref
          else
            bindR (if is_substream n then same_service a g (entry_node e) i ''SubStream body must belong to the same service'' else Inr ())
              (\<lambda>_. bindR (require (node_consumer n = None) (assigned (stream_name g i)))
                (\<lambda>_. mapR (\<lambda>(g1, c). on_node i (\<lambda>n. n\<lparr>node_consumer := Some (e, c)\<rparr>) g1)
                       (makeCaller a g (node_id n) (node_id (graph_nodes g ! entry_node e))))))"
| "setConsumer a g (LinkSource i k) e =
     (case elem_at (graph_nodes g) i of
        None \<Rightarrow> Inl bad_ref
      | Some n \<Rightarrow>
          (case elem_at (node_links n) k of
             None \<Rightarrow> Inl bad_ref
           | Some slot \<Rightarrow>
               bindR (require (slot = None) (assigned (stream_name g i @ ''SplitLink'' @ show_int (int k))))
                 (\<lambda>_. mapR (\<lambda>(g1, c). on_node i (\<lambda>n. n\<lparr>node_links := (node_links n)[k := Some (e, c)]\<rparr>) g1)
                        (makeCaller a g (node_id n) (node_id (graph_nodes g ! entry_node e))))))"


section \<open>Constructors\<close>

definition bad_type :: string where
  "bad_type = ''not a stream of this type''"

definition serde_for :: "assembly \<Rightarrow> string \<Rightarrow> string + unit" where
  "serde_for a t = mapR (\<lambda>_. ()) (requireByName (asm_registry a) t)"

definition value_serde_for :: "assembly \<Rightarrow> StreamConfig \<Rightarrow> string + unit" where
  "value_serde_for a c = mapR (\<lambda>_. ()) (requireStreamValue (asm_registry a) (config_id c))"

definition error_serde_for :: "assembly \<Rightarrow> StreamConfig \<Rightarrow> string + unit" where
  "error_serde_for a c = mapR (\<lambda>_. ()) (requireStreamError (asm_registry a) (config_id c))"

text \<open>\<open>ErrorStream\<close> of a stream with this configuration; it is the last stream afterwards.\<close>

definition makeErrorStream :: "graph \<Rightarrow> StreamConfig \<Rightarrow> string + graph" where
  "makeErrorStream g c =
     (let n = (new_node c)\<lparr>node_isError := True\<rparr>; i = length (graph_nodes g)
      in mapR (\<lambda>g1. g1\<lparr>graph_counts := fst (makeLinkRecorder (graph_counts g1) (config_id c) (node_id n))\<rparr>)
           (registerStream (add_node g n) i))"

text \<open>A stream with an error stream: \<open>body\<close> are the steps of the constructor after it.\<close>

definition with_error_stream :: "graph \<Rightarrow> stream_node \<Rightarrow> (graph \<Rightarrow> nat \<Rightarrow> string + graph) \<Rightarrow> string + graph" where
  "with_error_stream g n body =
     (let i = length (graph_nodes g)
      in bindR (makeErrorStream (add_node g (n\<lparr>node_errorStream := Some (Suc i)\<rparr>)) (node_config n)) (\<lambda>g1. body g1 i))"

definition makeInputStream :: "assembly \<Rightarrow> graph \<Rightarrow> StreamConfig \<Rightarrow> string + graph" where
  "makeInputStream a g c =
     (case stream_body c of
        InputBody t p \<Rightarrow>
          bindR (serde_for a t) (\<lambda>_. bindR (error_serde_for a c) (\<lambda>_. with_error_stream g (new_node c) registerStream))
      | _ \<Rightarrow> Inl bad_type)"

definition makeInputKVStream :: "assembly \<Rightarrow> graph \<Rightarrow> StreamConfig \<Rightarrow> string + graph" where
  "makeInputKVStream a g c =
     (case stream_body c of
        InputBody t p \<Rightarrow>
          bindR (requireByName (asm_registry a) t) (\<lambda>s.
            bindR (require (isKeyValue s) (''input stream '' @ config_name c @ '' valueType '' @ t @ '' is not key-value'')) (\<lambda>_.
              bindR (error_serde_for a c) (\<lambda>_. with_error_stream g (new_node c) registerStream)))
      | _ \<Rightarrow> Inl bad_type)"

text \<open>The end of most constructors: \<open>source.setConsumer(this)\<close> and the registration.\<close>

definition connect_register :: "assembly \<Rightarrow> source \<Rightarrow> graph \<Rightarrow> nat \<Rightarrow> string + graph" where
  "connect_register a s g i = bindR (setConsumer a g s (NodeEntry i)) (\<lambda>g1. registerStream g1 i)"

definition one_source :: "assembly \<Rightarrow> graph \<Rightarrow> StreamConfig \<Rightarrow> source \<Rightarrow> string + graph" where
  "one_source a g c s = connect_register a s (add_node g (new_node c)) (length (graph_nodes g))"

definition makeMapStream :: "assembly \<Rightarrow> graph \<Rightarrow> StreamConfig \<Rightarrow> source \<Rightarrow> string + graph" where
  "makeMapStream a g c s =
     (case stream_body c of MapBody f t \<Rightarrow> bindR (serde_for a t) (\<lambda>_. one_source a g c s) | _ \<Rightarrow> Inl bad_type)"

definition makeFilterStream :: "assembly \<Rightarrow> graph \<Rightarrow> StreamConfig \<Rightarrow> source \<Rightarrow> string + graph" where
  "makeFilterStream a g c s = (case stream_body c of FilterBody f \<Rightarrow> one_source a g c s | _ \<Rightarrow> Inl bad_type)"

definition makeFlatMapStream :: "assembly \<Rightarrow> graph \<Rightarrow> StreamConfig \<Rightarrow> source \<Rightarrow> string + graph" where
  "makeFlatMapStream a g c s =
     (case stream_body c of FlatMapBody f t \<Rightarrow> bindR (serde_for a t) (\<lambda>_. one_source a g c s) | _ \<Rightarrow> Inl bad_type)"

definition makeFlatMapIterableStream :: "assembly \<Rightarrow> graph \<Rightarrow> StreamConfig \<Rightarrow> source \<Rightarrow> string + graph" where
  "makeFlatMapIterableStream a g c s =
     (case stream_body c of FlatMapIterableBody t \<Rightarrow> bindR (serde_for a t) (\<lambda>_. one_source a g c s) | _ \<Rightarrow> Inl bad_type)"

definition makeKeyByStream :: "assembly \<Rightarrow> graph \<Rightarrow> StreamConfig \<Rightarrow> source \<Rightarrow> string + graph" where
  "makeKeyByStream a g c s =
     (case stream_body c of
        KeyByBody f k t \<Rightarrow> bindR (serde_for a k) (\<lambda>_. bindR (serde_for a t) (\<lambda>_. one_source a g c s))
      | _ \<Rightarrow> Inl bad_type)"

definition makeDelayStream :: "assembly \<Rightarrow> graph \<Rightarrow> StreamConfig \<Rightarrow> source \<Rightarrow> string + graph" where
  "makeDelayStream a g c s = (case stream_body c of DelayBody f d \<Rightarrow> one_source a g c s | _ \<Rightarrow> Inl bad_type)"

definition makeProcessStream :: "assembly \<Rightarrow> graph \<Rightarrow> StreamConfig \<Rightarrow> source \<Rightarrow> string + graph" where
  "makeProcessStream a g c s =
     (case stream_body c of
        ProcessBody f t \<Rightarrow>
          bindR (value_serde_for a c) (\<lambda>_. bindR (error_serde_for a c) (\<lambda>_. with_error_stream g (new_node c) (connect_register a s)))
      | _ \<Rightarrow> Inl bad_type)"

text \<open>A sink without result is a consumer only.\<close>

definition makeSinkStream :: "assembly \<Rightarrow> graph \<Rightarrow> StreamConfig \<Rightarrow> source \<Rightarrow> string + graph" where
  "makeSinkStream a g c s =
     (case stream_body c of
        SinkBody t p \<Rightarrow> bindR (error_serde_for a c) (\<lambda>_. with_error_stream g ((new_node c)\<lparr>node_typed := False\<rparr>) (connect_register a s))
      | _ \<Rightarrow> Inl bad_type)"

definition makeSinkStreamWithResult :: "assembly \<Rightarrow> graph \<Rightarrow> StreamConfig \<Rightarrow> source \<Rightarrow> string + graph" where
  "makeSinkStreamWithResult a g c s =
     (case stream_body c of
        SinkBody None p \<Rightarrow> Inl (''sink stream '' @ config_name c @ '' result valueType is missing'')
      | SinkBody (Some t) p \<Rightarrow>
          bindR (serde_for a t) (\<lambda>_. bindR (error_serde_for a c) (\<lambda>_. with_error_stream g (new_node c) (connect_register a s)))
      | _ \<Rightarrow> Inl bad_type)"

definition makeCaseStream :: "assembly \<Rightarrow> graph \<Rightarrow> StreamConfig \<Rightarrow> source \<Rightarrow> string + graph" where
  "makeCaseStream a g c s =
     (case stream_body c of
        CaseBody f \<Rightarrow>
          (let i = length (graph_nodes g)
           in bindR (registerStream (add_node g (new_node c)) i) (\<lambda>g1.
                bindR (setConsumer a g1 s (NodeEntry i)) (\<lambda>g2. registerRuntimeBuildable g2 i)))
      | _ \<Rightarrow> Inl bad_type)"

definition makeWhenStream :: "assembly \<Rightarrow> graph \<Rightarrow> StreamConfig \<Rightarrow> nat \<Rightarrow> string + graph" where
  "makeWhenStream a g c k =
     (case (stream_body c, elem_at (graph_nodes g) k) of
        (WhenBody t, Some n) \<Rightarrow>
          if \<not> is_case n then Inl bad_ref
          else
            (let i = length (graph_nodes g)
             in bindR (serde_for a t) (\<lambda>_.
                  mapR (on_node k (\<lambda>n. n\<lparr>whenStreams := whenStreams n @ [i]\<rparr>))
                    (registerStream (add_node g ((new_node c)\<lparr>node_case := Some (k, length (whenStreams n))\<rparr>)) i)))
      | _ \<Rightarrow> Inl bad_type)"

definition makeSplitStream :: "assembly \<Rightarrow> graph \<Rightarrow> StreamConfig \<Rightarrow> source \<Rightarrow> string + graph" where
  "makeSplitStream a g c s =
     (if stream_body c = SplitBody
      then bindR (one_source a g c s) (\<lambda>g1. registerRuntimeBuildable g1 (length (graph_nodes g))) else Inl bad_type)"

definition addSplitLink :: "graph \<Rightarrow> nat \<Rightarrow> string + graph" where
  "addSplitLink g i =
     (case elem_at (graph_nodes g) i of
        None \<Rightarrow> Inl bad_ref
      | Some n \<Rightarrow> if is_split n then Inr (on_node i (\<lambda>n. n\<lparr>node_links := node_links n @ [None]\<rparr>) g) else Inl bad_ref)"

fun connect_all :: "assembly \<Rightarrow> graph \<Rightarrow> source list \<Rightarrow> entry \<Rightarrow> string + graph" where
  "connect_all a g [] e = Inr g"
| "connect_all a g (s # ss) e = bindR (setConsumer a g s e) (\<lambda>g1. connect_all a g1 ss e)"

definition makeMergeStream :: "assembly \<Rightarrow> graph \<Rightarrow> StreamConfig \<Rightarrow> source list \<Rightarrow> string + graph" where
  "makeMergeStream a g c ss =
     (if stream_body c = MergeBody \<and> ss \<noteq> []
      then (let i = length (graph_nodes g)
            in bindR (registerStream (add_node g (new_node c)) i) (\<lambda>g1. connect_all a g1 ss (MergeEntry i)))
      else Inl bad_type)"

definition makeLinkStream :: "assembly \<Rightarrow> graph \<Rightarrow> StreamConfig \<Rightarrow> string + graph" where
  "makeLinkStream a g c =
     (if stream_body c = CycleLinkBody
      then bindR (value_serde_for a c) (\<lambda>_. registerStream (add_node g (new_node c)) (length (graph_nodes g))) else Inl bad_type)"

definition join_storage :: "assembly \<Rightarrow> JoinStorageType \<Rightarrow> graph \<Rightarrow> nat \<Rightarrow> string + graph" where
  "join_storage a st g i =
     (if asm_customStorage a st \<or> st = HashMap then Inr (g\<lparr>graph_storages := graph_storages g @ [i]\<rparr>)
      else Inl ''join storage type is not supported'')"

definition makeJoinStream :: "assembly \<Rightarrow> graph \<Rightarrow> StreamConfig \<Rightarrow> source \<Rightarrow> source \<Rightarrow> string + graph" where
  "makeJoinStream a g c l r =
     (case stream_body c of
        JoinBody f t jt st ttl renew \<Rightarrow>
          (let i = length (graph_nodes g)
           in bindR (serde_for a t) (\<lambda>_. bindR (join_storage a st (add_node g (new_node c)) i) (\<lambda>g1.
                bindR (connect_register a l g1 i) (\<lambda>g2. setConsumer a g2 r (RightEntry i)))))
      | _ \<Rightarrow> Inl bad_type)"

definition makeMultiJoinStream :: "assembly \<Rightarrow> graph \<Rightarrow> StreamConfig \<Rightarrow> source \<Rightarrow> string + graph" where
  "makeMultiJoinStream a g c l =
     (case stream_body c of
        MultiJoinBody f t st ttl renew \<Rightarrow>
          (let i = length (graph_nodes g)
           in bindR (serde_for a t) (\<lambda>_. bindR (join_storage a st (add_node g (new_node c)) i) (\<lambda>g1. connect_register a l g1 i)))
      | _ \<Rightarrow> Inl bad_type)"

definition makeMultiJoinLink :: "assembly \<Rightarrow> graph \<Rightarrow> nat \<Rightarrow> source \<Rightarrow> string + graph" where
  "makeMultiJoinLink a g i r =
     (case elem_at (graph_nodes g) i of
        None \<Rightarrow> Inl bad_ref
      | Some n \<Rightarrow>
          if node_isError n \<or> body_type (stream_body (node_config n)) \<noteq> TMultiJoin then Inl bad_ref
          else (let k = linkCount n + 1
                in mapR (on_node i (\<lambda>n. n\<lparr>linkCount := k\<rparr>)) (setConsumer a g r (SlotEntry i k))))"

definition makeSubStream :: "assembly \<Rightarrow> graph \<Rightarrow> StreamConfig \<Rightarrow> string + graph" where
  "makeSubStream a g c =
     (case stream_body c of
        SubStreamBody t \<Rightarrow>
          (let i = length (graph_nodes g)
           in bindR (serde_for a t) (\<lambda>_.
                bindR (case serviceById (asm_config a) (asm_service a) of
                         None \<Rightarrow> Inl (''service config '' @ show_int (asm_service a) @ '' not found'')
                       | Some service \<Rightarrow> require (idService c = config_id service) ''SubStream must belong to its execution service'') (\<lambda>_.
                  bindR (registerStream (add_node g (new_node c)) i) (\<lambda>g1. registerRuntimeBuildable g1 i))))
      | _ \<Rightarrow> Inl bad_type)"


section \<open>Sources set later\<close>

fun source_node :: "source \<Rightarrow> nat" where
  "source_node (NodeSource i) = i"
| "source_node (LinkSource i k) = i"

definition with_source :: "assembly \<Rightarrow> graph \<Rightarrow> nat \<Rightarrow> source \<Rightarrow> entry \<Rightarrow> string + graph" where
  "with_source a g i s e = mapR (on_node i (\<lambda>n. n\<lparr>node_source := Some s\<rparr>)) (setConsumer a g s e)"

definition link_setSource :: "assembly \<Rightarrow> graph \<Rightarrow> nat \<Rightarrow> source \<Rightarrow> string + graph" where
  "link_setSource a g i s =
     (case elem_at (graph_nodes g) i of
        None \<Rightarrow> Inl bad_ref
      | Some n \<Rightarrow>
          if node_isError n \<or> stream_body (node_config n) \<noteq> CycleLinkBody then Inl bad_ref
          else bindR (require (node_source n = None) (''cycle link stream '' @ stream_name g i @ '' source is already set''))
                 (\<lambda>_. with_source a g i s (NodeEntry i)))"

definition input_setSource :: "assembly \<Rightarrow> graph \<Rightarrow> nat \<Rightarrow> source \<Rightarrow> string + graph" where
  "input_setSource a g i s =
     (case elem_at (graph_nodes g) i of
        None \<Rightarrow> Inl bad_ref
      | Some n \<Rightarrow>
          if node_isError n \<or> body_type (stream_body (node_config n)) \<noteq> TInput then Inl bad_ref
          else bindR (require (node_source n = None) (''input stream '' @ stream_name g i @ '' result source is already set''))
                 (\<lambda>_. with_source a g i s (ResultEntry i)))"

definition sub_source_message :: string where
  "sub_source_message = ''SubStream source must be a different stream in the same service''"

definition substream_setSource :: "assembly \<Rightarrow> graph \<Rightarrow> nat \<Rightarrow> source \<Rightarrow> string + graph" where
  "substream_setSource a g i s =
     (case (elem_at (graph_nodes g) i, elem_at (graph_nodes g) (source_node s)) of
        (Some n, Some m) \<Rightarrow>
          if \<not> is_substream n then Inl bad_ref
          else
            bindR (require (node_id m \<noteq> node_id n) sub_source_message) (\<lambda>_.
              bindR (same_service a g (source_node s) i sub_source_message) (\<lambda>_.
                case node_source n of
                  Some t \<Rightarrow> if s = t then Inr g else Inl ''SubStream source is already configured''
                | None \<Rightarrow> with_source a g i s (ResultEntry i)))
      | _ \<Rightarrow> Inl bad_ref)"

section \<open>The build of the streams\<close>

definition is_async_link :: "connection option \<Rightarrow> bool" where
  "is_async_link l = (case l of None \<Rightarrow> False | Some (e, c, k) \<Rightarrow> isAsync c)"

definition missing_link :: "graph \<Rightarrow> nat \<Rightarrow> nat \<Rightarrow> string" where
  "missing_link g i k = ''link with index '' @ show_int (int k) @ '' for SplitStream '' @ stream_name g i @ '' does not have consumer''"

definition require_links :: "graph \<Rightarrow> nat \<Rightarrow> string + unit" where
  "require_links g i =
     (let ls = node_links (graph_nodes g ! i) in each (\<lambda>k. require (ls ! k \<noteq> None) (missing_link g i k)) [0..<length ls])"

text \<open>\<open>sort\<close> is stable; the comparison puts the asynchronous links first.\<close>

definition split_build :: "graph \<Rightarrow> nat \<Rightarrow> string + graph" where
  "split_build g i =
     mapR (\<lambda>_. on_node i (\<lambda>n. n\<lparr>dispatchOrder :=
         sort_key (\<lambda>k. if is_async_link (node_links n ! k) then 0 else (1::nat)) [0..<length (node_links n)]\<rparr>) g)
       (require_links g i)"

definition substream_build :: "graph \<Rightarrow> nat \<Rightarrow> string + graph" where
  "substream_build g i =
     (let n = graph_nodes g ! i
      in mapR (\<lambda>_. g) (require (node_consumer n \<noteq> None \<and> node_source n \<noteq> None)
           (''SubStream '' @ stream_name g i @ '' requires a body and a result source'')))"

text \<open>\<open>switch\<close> is what the function \<open>buildSwitch\<close> of a case throws.\<close>

definition build :: "(nat \<Rightarrow> string option) \<Rightarrow> graph \<Rightarrow> nat \<Rightarrow> string + graph" where
  "build switch g i =
     (let n = graph_nodes g ! i
      in if is_split n then split_build g i
         else if is_substream n then substream_build g i
         else (case switch i of Some e \<Rightarrow> Inl e | None \<Rightarrow> Inr (on_node i (\<lambda>n. n\<lparr>selectorBuilt := True\<rparr>) g)))"

fun build_each :: "(nat \<Rightarrow> string option) \<Rightarrow> graph \<Rightarrow> nat list \<Rightarrow> string + graph" where
  "build_each switch g [] = Inr g"
| "build_each switch g (i # is) = bindR (build switch g i) (\<lambda>g1. build_each switch g1 is)"

definition buildRuntimeStreams :: "(nat \<Rightarrow> string option) \<Rightarrow> graph \<Rightarrow> string + graph" where
  "buildRuntimeStreams switch g = build_each switch g (graph_buildables g)"

section \<open>The topology\<close>

text \<open>\<open>consumers()\<close>.\<close>

definition consumers :: "graph \<Rightarrow> nat \<Rightarrow> string + entry list" where
  "consumers g i =
     (let n = graph_nodes g ! i
      in if is_split n then mapR (\<lambda>_. map (\<lambda>l. fst (the l)) (node_links n)) (require_links g i)
         else if is_case n then Inr (map NodeEntry (whenStreams n))
         else Inr (case node_consumer n of None \<Rightarrow> [] | Some (e, c) \<Rightarrow> [e]))"

definition stream_links :: "graph \<Rightarrow> nat \<Rightarrow> string + (int \<times> int) list" where
  "stream_links g i =
     (let n = graph_nodes g ! i
      in if \<not> node_typed n then Inr []
         else mapR (map (\<lambda>e. (node_id n, node_id (graph_nodes g ! entry_node e)))) (consumers g i))"

definition graphLinks :: "graph \<Rightarrow> string + (int \<times> int) list" where
  "graphLinks g = mapR (\<lambda>ls. sort (concat ls)) (mapM (stream_links g) (map snd (graph_streams g)))"

definition validate_runtime_stream :: "graph \<Rightarrow> int \<Rightarrow> string list \<Rightarrow> StreamConfig \<Rightarrow> string + unit" where
  "validate_runtime_stream g service ls c =
     (if stream_type c = TError \<or> (idService c \<noteq> 0 \<and> idService c \<noteq> service) then Inr ()
      else
        bindR (require (jm_has (graph_streams g) (config_id c))
                 (''runtime stream '' @ config_name c @ '' ('' @ show_int (config_id c) @ '') is not registered'')) (\<lambda>_.
          each (\<lambda>s. require (s = 0 \<or> linkKey s (config_id c) \<in> set ls)
                 (''runtime graph link from='' @ show_int s @ '' to='' @ show_int (config_id c) @ '' is missing''))
            (idSource c # idSources c)))"

definition validateRuntimeTopology :: "assembly \<Rightarrow> graph \<Rightarrow> string + unit" where
  "validateRuntimeTopology a g =
     bindR (graphLinks g) (\<lambda>ls.
       each (validate_runtime_stream g (asm_service a) (map (\<lambda>(s, t). linkKey s t) ls)) (streams (rc_config (asm_config a))))"

section \<open>An assembly\<close>

datatype build_call =
    MakeInput StreamConfig | MakeInputKV StreamConfig | MakeMap StreamConfig source | MakeFilter StreamConfig source
  | MakeFlatMap StreamConfig source | MakeFlatMapIterable StreamConfig source | MakeKeyBy StreamConfig source
  | MakeDelay StreamConfig source | MakeProcess StreamConfig source | MakeSink StreamConfig source
  | MakeSinkWithResult StreamConfig source | MakeCase StreamConfig source | MakeWhen StreamConfig nat
  | MakeSplit StreamConfig source | AddSplitLink nat | MakeMerge StreamConfig "source list" | MakeLink StreamConfig
  | SetLinkSource nat source | SetInputSource nat source | MakeJoin StreamConfig source source
  | MakeMultiJoin StreamConfig source | MakeMultiJoinLink nat source | MakeSubStream StreamConfig | SetSubStreamSource nat source

fun build_call_step :: "assembly \<Rightarrow> graph \<Rightarrow> build_call \<Rightarrow> string + graph" where
  "build_call_step a g (MakeInput c) = makeInputStream a g c"
| "build_call_step a g (MakeInputKV c) = makeInputKVStream a g c"
| "build_call_step a g (MakeMap c s) = makeMapStream a g c s"
| "build_call_step a g (MakeFilter c s) = makeFilterStream a g c s"
| "build_call_step a g (MakeFlatMap c s) = makeFlatMapStream a g c s"
| "build_call_step a g (MakeFlatMapIterable c s) = makeFlatMapIterableStream a g c s"
| "build_call_step a g (MakeKeyBy c s) = makeKeyByStream a g c s"
| "build_call_step a g (MakeDelay c s) = makeDelayStream a g c s"
| "build_call_step a g (MakeProcess c s) = makeProcessStream a g c s"
| "build_call_step a g (MakeSink c s) = makeSinkStream a g c s"
| "build_call_step a g (MakeSinkWithResult c s) = makeSinkStreamWithResult a g c s"
| "build_call_step a g (MakeCase c s) = makeCaseStream a g c s"
| "build_call_step a g (MakeWhen c k) = makeWhenStream a g c k"
| "build_call_step a g (MakeSplit c s) = makeSplitStream a g c s"
| "build_call_step a g (AddSplitLink i) = addSplitLink g i"
| "build_call_step a g (MakeMerge c ss) = makeMergeStream a g c ss"
| "build_call_step a g (MakeLink c) = makeLinkStream a g c"
| "build_call_step a g (SetLinkSource i s) = link_setSource a g i s"
| "build_call_step a g (SetInputSource i s) = input_setSource a g i s"
| "build_call_step a g (MakeJoin c l r) = makeJoinStream a g c l r"
| "build_call_step a g (MakeMultiJoin c l) = makeMultiJoinStream a g c l"
| "build_call_step a g (MakeMultiJoinLink i r) = makeMultiJoinLink a g i r"
| "build_call_step a g (MakeSubStream c) = makeSubStream a g c"
| "build_call_step a g (SetSubStreamSource i s) = substream_setSource a g i s"

text \<open>A call can only name streams that exist.\<close>

fun call_sources :: "build_call \<Rightarrow> source list" where
  "call_sources (MakeInput c) = []"
| "call_sources (MakeInputKV c) = []"
| "call_sources (MakeMap c s) = [s]"
| "call_sources (MakeFilter c s) = [s]"
| "call_sources (MakeFlatMap c s) = [s]"
| "call_sources (MakeFlatMapIterable c s) = [s]"
| "call_sources (MakeKeyBy c s) = [s]"
| "call_sources (MakeDelay c s) = [s]"
| "call_sources (MakeProcess c s) = [s]"
| "call_sources (MakeSink c s) = [s]"
| "call_sources (MakeSinkWithResult c s) = [s]"
| "call_sources (MakeCase c s) = [s]"
| "call_sources (MakeWhen c k) = []"
| "call_sources (MakeSplit c s) = [s]"
| "call_sources (AddSplitLink i) = []"
| "call_sources (MakeMerge c ss) = ss"
| "call_sources (MakeLink c) = []"
| "call_sources (SetLinkSource i s) = [s]"
| "call_sources (SetInputSource i s) = [s]"
| "call_sources (MakeJoin c l r) = [l, r]"
| "call_sources (MakeMultiJoin c l) = [l]"
| "call_sources (MakeMultiJoinLink i r) = [r]"
| "call_sources (MakeSubStream c) = []"
| "call_sources (SetSubStreamSource i s) = [s]"

definition assembly_step :: "assembly \<Rightarrow> graph \<Rightarrow> build_call \<Rightarrow> string + graph" where
  "assembly_step a g c =
     (if list_all (\<lambda>s. source_node s < length (graph_nodes g)) (call_sources c) then build_call_step a g c else Inl bad_ref)"

fun assemble :: "assembly \<Rightarrow> graph \<Rightarrow> build_call list \<Rightarrow> string + graph" where
  "assemble a g [] = Inr g"
| "assemble a g (c # cs) = bindR (assembly_step a g c) (\<lambda>g1. assemble a g1 cs)"

section \<open>What the calls connect\<close>

text \<open>
  The connections that a call asks for, by ids. A split sends through its links and a case through its branches, so a
  consumer set on one of them itself is no link of the graph.
\<close>

fun connects :: "graph \<Rightarrow> int \<Rightarrow> source \<Rightarrow> (int \<times> int) list" where
  "connects g t (NodeSource i) = (if is_split (graph_nodes g ! i) \<or> is_case (graph_nodes g ! i) then [] else [(node_id (graph_nodes g ! i), t)])"
| "connects g t (LinkSource i k) = [(node_id (graph_nodes g ! i), t)]"

fun call_links :: "graph \<Rightarrow> build_call \<Rightarrow> (int \<times> int) list" where
  "call_links g (MakeMap c s) = connects g (config_id c) s"
| "call_links g (MakeFilter c s) = connects g (config_id c) s"
| "call_links g (MakeFlatMap c s) = connects g (config_id c) s"
| "call_links g (MakeFlatMapIterable c s) = connects g (config_id c) s"
| "call_links g (MakeKeyBy c s) = connects g (config_id c) s"
| "call_links g (MakeDelay c s) = connects g (config_id c) s"
| "call_links g (MakeProcess c s) = connects g (config_id c) s"
| "call_links g (MakeSink c s) = connects g (config_id c) s"
| "call_links g (MakeSinkWithResult c s) = connects g (config_id c) s"
| "call_links g (MakeCase c s) = connects g (config_id c) s"
| "call_links g (MakeWhen c k) = [(node_id (graph_nodes g ! k), config_id c)]"
| "call_links g (MakeSplit c s) = connects g (config_id c) s"
| "call_links g (MakeMerge c ss) = concat (map (connects g (config_id c)) ss)"
| "call_links g (SetLinkSource i s) = connects g (node_id (graph_nodes g ! i)) s"
| "call_links g (SetInputSource i s) = connects g (node_id (graph_nodes g ! i)) s"
| "call_links g (MakeJoin c l r) = connects g (config_id c) l @ connects g (config_id c) r"
| "call_links g (MakeMultiJoin c l) = connects g (config_id c) l"
| "call_links g (MakeMultiJoinLink i r) = connects g (node_id (graph_nodes g ! i)) r"
| "call_links g (SetSubStreamSource i s) =
     (if node_source (graph_nodes g ! i) = Some s then [] else connects g (node_id (graph_nodes g ! i)) s)"
| "call_links g _ = []"

fun made_links :: "assembly \<Rightarrow> graph \<Rightarrow> build_call list \<Rightarrow> (int \<times> int) list" where
  "made_links a g [] = []"
| "made_links a g (c # cs) =
     call_links g c @ (case assembly_step a g c of Inl e \<Rightarrow> [] | Inr g1 \<Rightarrow> made_links a g1 cs)"

text \<open>The ids of the streams that a call makes.\<close>

fun call_ids :: "build_call \<Rightarrow> int list" where
  "call_ids (MakeInput c) = [config_id c, - config_id c]"
| "call_ids (MakeInputKV c) = [config_id c, - config_id c]"
| "call_ids (MakeMap c s) = [config_id c]"
| "call_ids (MakeFilter c s) = [config_id c]"
| "call_ids (MakeFlatMap c s) = [config_id c]"
| "call_ids (MakeFlatMapIterable c s) = [config_id c]"
| "call_ids (MakeKeyBy c s) = [config_id c]"
| "call_ids (MakeDelay c s) = [config_id c]"
| "call_ids (MakeProcess c s) = [config_id c, - config_id c]"
| "call_ids (MakeSink c s) = [config_id c, - config_id c]"
| "call_ids (MakeSinkWithResult c s) = [config_id c, - config_id c]"
| "call_ids (MakeCase c s) = [config_id c]"
| "call_ids (MakeWhen c k) = [config_id c]"
| "call_ids (MakeSplit c s) = [config_id c]"
| "call_ids (MakeMerge c ss) = [config_id c]"
| "call_ids (MakeLink c) = [config_id c]"
| "call_ids (MakeJoin c l r) = [config_id c]"
| "call_ids (MakeMultiJoin c l) = [config_id c]"
| "call_ids (MakeSubStream c) = [config_id c]"
| "call_ids _ = []"


section \<open>Growth of the graph\<close>

text \<open>
  The consumers that a stream lists, and the links they make. In the invariant, \<open>P\<close> are the streams that
  are made but not registered yet.
\<close>

definition listed :: "stream_node \<Rightarrow> entry list" where
  "listed n =
     (if \<not> node_typed n then []
      else if is_split n then map (\<lambda>l. fst (the l)) (filter (\<lambda>l. l \<noteq> None) (node_links n))
      else if is_case n then map NodeEntry (whenStreams n)
      else (case node_consumer n of None \<Rightarrow> [] | Some (e, c) \<Rightarrow> [e]))"

definition node_out :: "graph \<Rightarrow> stream_node \<Rightarrow> (int \<times> int) list" where
  "node_out g n = map (\<lambda>e. (node_id n, node_id (graph_nodes g ! entry_node e))) (listed n)"

definition link_mset :: "graph \<Rightarrow> (int \<times> int) multiset" where
  "link_mset g = mset (concat (map (node_out g) (graph_nodes g)))"

definition graph_inv :: "graph \<Rightarrow> nat multiset \<Rightarrow> bool" where
  "graph_inv g P \<longleftrightarrow>
     (\<forall>n \<in> set (graph_nodes g). (\<forall>e \<in> set (listed n). entry_node e < length (graph_nodes g)) \<and> (is_split n \<or> is_case n \<longrightarrow> node_typed n) \<and>
        (node_links n \<noteq> [] \<longrightarrow> is_split n)) \<and>
     (\<forall>(k, i) \<in> set (graph_streams g). k = node_id (graph_nodes g ! i)) \<and> distinct (map fst (graph_streams g)) \<and>
     mset (map snd (graph_streams g)) + P = mset [0..<length (graph_nodes g)]"

definition same_node :: "stream_node \<Rightarrow> stream_node \<Rightarrow> bool" where
  "same_node n m \<longleftrightarrow> node_config n = node_config m \<and> node_isError n = node_isError m \<and> node_typed n = node_typed m"

text \<open>A step from \<open>g\<close> to \<open>g'\<close> that adds streams with the ids \<open>I\<close> and the links \<open>E\<close>.\<close>

definition enlarges :: "graph \<Rightarrow> nat multiset \<Rightarrow> int list \<Rightarrow> (int \<times> int) list \<Rightarrow> graph \<Rightarrow> nat multiset \<Rightarrow> bool" where
  "enlarges g P I E g' P' \<longleftrightarrow>
     (graph_inv g P \<longrightarrow>
       graph_inv g' P' \<and> link_mset g' = link_mset g + mset E \<and> map node_id (graph_nodes g') = map node_id (graph_nodes g) @ I \<and>
       (\<forall>i < length (graph_nodes g). same_node (graph_nodes g ! i) (graph_nodes g' ! i)))"

lemma same_node_simps:
  assumes "same_node n m"
  shows "node_id m = node_id n" "is_split m = is_split n" "is_case m = is_case n" "is_substream m = is_substream n" "node_typed m = node_typed n"
  using assms by (simp_all add: same_node_def node_id_def is_split_def is_case_def is_substream_def)

lemma enlarges_length: "map node_id (graph_nodes g') = map node_id (graph_nodes g) @ I \<Longrightarrow> length (graph_nodes g') = length (graph_nodes g) + length I"
  by (metis length_append length_map)

lemma enlarges_trans:
  assumes "enlarges g P I E g1 P1" and "graph_inv g P \<Longrightarrow> enlarges g1 P1 J F g2 P2"
  shows "enlarges g P (I @ J) (E @ F) g2 P2"
proof -
  have "same_node n1 n3" if "same_node n1 n2" "same_node n2 n3" for n1 n2 n3 using that by (simp add: same_node_def)
  moreover have "length (graph_nodes g) \<le> length (graph_nodes g1)" if "graph_inv g P"
    using that assms(1) enlarges_length [of g1 g I] by (simp add: enlarges_def)
  ultimately show ?thesis using assms unfolding enlarges_def by (auto simp: ac_simps)
qed

lemma enlarges_refl: "enlarges g P [] [] g P"
  by (simp add: enlarges_def same_node_def)

text \<open>Steps that leave streams and registrations alone.\<close>

lemma enlarges_cong:
  assumes "graph_nodes g' = graph_nodes g" and "graph_streams g' = graph_streams g"
  shows "enlarges g P [] [] g' P"
proof -
  have "node_out g' = node_out g" using assms(1) by (simp add: node_out_def fun_eq_iff)
  then show ?thesis using assms by (simp add: enlarges_def graph_inv_def link_mset_def same_node_def)
qed

lemma nodes_add_node [simp]: "graph_nodes (add_node g n) = graph_nodes g @ [n]" "graph_streams (add_node g n) = graph_streams g"
  by (simp_all add: add_node_def)

lemma enlarges_add_node:
  assumes "listed n = []" and "is_split n \<or> is_case n \<longrightarrow> node_typed n" and "node_links n = []"
  shows "enlarges g P [node_id n] [] (add_node g n) (add_mset (length (graph_nodes g)) P)"
proof -
  have out: "node_out (add_node g n) m = node_out g m" if "graph_inv g P" "m \<in> set (graph_nodes g)" for m
    using that by (auto simp: node_out_def graph_inv_def nth_append)
  have l: "link_mset (add_node g n) = link_mset g" if "graph_inv g P"
  proof -
    have "map (node_out (add_node g n)) (graph_nodes g) = map (node_out g) (graph_nodes g)" using out [OF that] by simp
    moreover have "node_out (add_node g n) n = []" using assms(1) by (simp add: node_out_def)
    ultimately show ?thesis unfolding link_mset_def nodes_add_node map_append concat_append by (simp cong: map_cong)
  qed
  have st: "i < length (graph_nodes g)" if "graph_inv g P" "(k, i) \<in> set (graph_streams g)" for k i
  proof -
    have "i \<in># mset (map snd (graph_streams g))" using that(2) by force
    then have "i \<in># mset [0..<length (graph_nodes g)]" using that(1) unfolding graph_inv_def by (metis union_iff)
    then show ?thesis by simp
  qed
  have "graph_inv (add_node g n) (add_mset (length (graph_nodes g)) P)" if "graph_inv g P"
    using that st [OF that] assms unfolding graph_inv_def
    by (auto simp: nth_append intro: less_SucI)
  then show ?thesis using l by (auto simp: enlarges_def nth_append same_node_def)
qed


lemma enlarges_register:
  assumes "registerStream g i = Inr g'"
  shows "enlarges g (add_mset i P) [] [] g' P"
proof -
  let ?k = "node_id (graph_nodes g ! i)"
  have g': "g' = g\<lparr>graph_streams := jm_set (graph_streams g) ?k i\<rparr>" and new: "?k \<notin> set (map fst (graph_streams g))"
    using assms by (auto simp: registerStream_def Let_def jm_has_iff split: if_splits)
  then have st: "graph_streams g' = graph_streams g @ [(?k, i)]" by (simp add: jm_set_fresh)
  have n: "graph_nodes g' = graph_nodes g" using g' by simp
  then have "node_out g' = node_out g" by (simp add: node_out_def fun_eq_iff)
  then show ?thesis using new by (auto simp: enlarges_def graph_inv_def link_mset_def same_node_def n st)
qed

lemma mset_concat_update:
  assumes "i < length xs" and "mset (h y) = mset (h (xs ! i)) + mset zs"
  shows "mset (concat (map h (xs[i := y]))) = mset (concat (map h xs)) + mset zs"
proof -
  have "mset (concat (map h (take i xs @ xs ! i # drop (Suc i) xs))) + mset zs = mset (concat (map h (take i xs @ y # drop (Suc i) xs)))"
    using assms(2) by (simp add: ac_simps)
  then show ?thesis using assms(1) by (simp add: id_take_nth_drop [symmetric] upd_conv_take_nth_drop)
qed

lemma nodes_on_node [simp]:
  "graph_nodes (on_node i f g) = (graph_nodes g)[i := f (graph_nodes g ! i)]" "graph_streams (on_node i f g) = graph_streams g"
  by (simp_all add: on_node_def)

lemma enlarges_on_node:
  assumes "i < length (graph_nodes g)" and "same_node (graph_nodes g ! i) (f (graph_nodes g ! i))"
    and "mset (listed (f (graph_nodes g ! i))) = mset (listed (graph_nodes g ! i)) + mset es"
    and "\<forall>e \<in> set es. entry_node e < length (graph_nodes g)"
    and "node_links (f (graph_nodes g ! i)) \<noteq> [] \<longrightarrow> node_links (graph_nodes g ! i) \<noteq> [] \<or> is_split (graph_nodes g ! i)"
  shows "enlarges g P [] (map (\<lambda>e. (node_id (graph_nodes g ! i), node_id (graph_nodes g ! entry_node e))) es) (on_node i f g) P"
proof -
  let ?n = "graph_nodes g ! i" and ?g = "on_node i f g"
  note same = same_node_simps [OF assms(2)]
  have ids: "node_id (graph_nodes ?g ! k) = node_id (graph_nodes g ! k)" if "k < length (graph_nodes g)" for k
    using same(1) that assms(1) by (cases "k = i") simp_all
  have mem: "m \<in> set (graph_nodes g) \<or> m = f ?n" if "m \<in> set (graph_nodes ?g)" for m
    using that set_update_subset_insert [of "graph_nodes g" i "f ?n"] by auto
  have set_listed: "set (listed (f ?n)) = set (listed ?n) \<union> set es" using arg_cong [OF assms(3), of set_mset] by simp
  have valid: "\<forall>e \<in> set (listed m). entry_node e < length (graph_nodes g)" if "graph_inv g P" "m \<in> set (graph_nodes ?g)" for m
  proof -
    have "\<forall>e \<in> set (listed m). entry_node e < length (graph_nodes g)" if "m \<in> set (graph_nodes g)" for m
      using that \<open>graph_inv g P\<close> by (simp add: graph_inv_def)
    from this [of m] this [OF nth_mem [OF assms(1)]] show ?thesis using mem [OF that(2)] assms(4) set_listed by auto
  qed
  have out: "node_out ?g m = node_out g m" if "graph_inv g P" "m \<in> set (graph_nodes ?g)" for m
    unfolding node_out_def using valid [OF that] ids by simp
  have link: "link_mset ?g = link_mset g + mset (map (\<lambda>e. (node_id ?n, node_id (graph_nodes g ! entry_node e))) es)" if "graph_inv g P"
  proof -
    have "mset (node_out g (f ?n)) = mset (node_out g ?n) + mset (map (\<lambda>e. (node_id ?n, node_id (graph_nodes g ! entry_node e))) es)"
      using arg_cong [OF assms(3), of "image_mset (\<lambda>e. (node_id ?n, node_id (graph_nodes g ! entry_node e)))"] same(1) by (simp add: node_out_def)
    from mset_concat_update [where h = "node_out g", OF assms(1) this] show ?thesis
      unfolding link_mset_def using out [OF that] by (simp cong: map_cong)
  qed
  have "graph_inv ?g P" if inv: "graph_inv g P"
  proof -
    have "(is_split m \<or> is_case m \<longrightarrow> node_typed m) \<and> (node_links m \<noteq> [] \<longrightarrow> is_split m)" if "m \<in> set (graph_nodes ?g)" for m
    proof -
      have "(is_split m \<or> is_case m \<longrightarrow> node_typed m) \<and> (node_links m \<noteq> [] \<longrightarrow> is_split m)" if "m \<in> set (graph_nodes g)" for m
        using that inv by (auto simp: graph_inv_def)
      from this [of m] this [OF nth_mem [OF assms(1)]] show ?thesis using mem [OF that] same assms(5) by auto
    qed
    moreover have "k = node_id (graph_nodes ?g ! j)" if "(k, j) \<in> set (graph_streams g)" for k j
    proof -
      have "j \<in># mset (map snd (graph_streams g))" using that by force
      then have "j \<in># mset [0..<length (graph_nodes g)]" using inv unfolding graph_inv_def by (metis union_iff)
      then show ?thesis using ids [of j] that inv by (auto simp: graph_inv_def)
    qed
    ultimately show ?thesis using inv valid [OF inv] unfolding graph_inv_def by auto
  qed
  moreover have "map node_id (graph_nodes ?g) = map node_id (graph_nodes g)" using ids by (intro nth_equalityI) simp_all
  moreover have "\<forall>k < length (graph_nodes g). same_node (graph_nodes g ! k) (graph_nodes ?g ! k)"
    using assms(1,2) by (auto simp: nth_list_update same_node_def)
  ultimately show ?thesis using link by (simp add: enlarges_def)
qed

lemma enlarges_benign:
  assumes "i < length (graph_nodes g)" and "same_node (graph_nodes g ! i) (f (graph_nodes g ! i))"
    and "listed (f (graph_nodes g ! i)) = listed (graph_nodes g ! i)" and "node_links (f (graph_nodes g ! i)) = node_links (graph_nodes g ! i)"
  shows "enlarges g P [] [] (on_node i f g) P"
  using enlarges_on_node [where f = f and es = "[]", OF assms(1,2)] assms(3,4) by simp

lemma enlarges_if: "(graph_inv g P \<Longrightarrow> enlarges g P I E g' P') \<Longrightarrow> enlarges g P I E g' P'"
  by (simp add: enlarges_def)

lemma filter_update_None:
  "k < length xs \<Longrightarrow> xs ! k = None \<Longrightarrow> mset (filter (\<lambda>l. l \<noteq> None) (xs[k := Some y])) = mset (filter (\<lambda>l. l \<noteq> None) xs) + {#Some y#}"
proof (induction xs arbitrary: k)
  case (Cons x xs)
  then show ?case by (cases k) auto
qed simp

lemma makeCaller_nodes: "makeCaller a g s t = Inr (g1, c) \<Longrightarrow> graph_nodes g1 = graph_nodes g \<and> graph_streams g1 = graph_streams g"
  by (auto simp: makeCaller_def mapR_Inr_iff makeLinkRecorder_def)

lemma on_node_cong: "graph_nodes g1 = graph_nodes g \<Longrightarrow> graph_nodes (on_node i f g1) = graph_nodes (on_node i f g)"
  by simp

lemma enlarges_setConsumer:
  assumes "setConsumer a g s e = Inr g'" and "entry_node e < length (graph_nodes g)"
  shows "enlarges g P [] (connects g (node_id (graph_nodes g ! entry_node e)) s) g' P"
proof (cases s)
  case (NodeSource i)
  let ?n = "graph_nodes g ! i"
  have i: "i < length (graph_nodes g)" using assms(1) NodeSource by (auto simp: elem_at_def split: if_splits)
  obtain g1 c where g1: "makeCaller a g (node_id ?n) (node_id (graph_nodes g ! entry_node e)) = Inr (g1, c)"
    and g': "g' = on_node i (\<lambda>n. n\<lparr>node_consumer := Some (e, c)\<rparr>) g1" and none: "node_consumer ?n = None" "node_typed ?n"
    using assms(1) NodeSource i by (auto simp: elem_at_def result_simps require_def split: if_splits)
  note same = makeCaller_nodes [OF g1]
  let ?es = "if is_split ?n \<or> is_case ?n then [] else [e]"
  have "listed (?n\<lparr>node_consumer := Some (e, c)\<rparr>) = listed ?n @ ?es"
    using none by (auto simp: listed_def is_split_def is_case_def)
  then have "enlarges g P [] (map (\<lambda>e. (node_id ?n, node_id (graph_nodes g ! entry_node e))) ?es) (on_node i (\<lambda>n. n\<lparr>node_consumer := Some (e, c)\<rparr>) g) P"
    using i assms(2) by (intro enlarges_on_node) (auto simp: same_node_def)
  moreover have "enlarges (on_node i (\<lambda>n. n\<lparr>node_consumer := Some (e, c)\<rparr>) g) P [] [] g' P"
    using same by (intro enlarges_cong) (simp_all add: g')
  ultimately show ?thesis using NodeSource enlarges_trans by fastforce
next
  case (LinkSource i k)
  let ?n = "graph_nodes g ! i"
  have i: "i < length (graph_nodes g)" using assms(1) LinkSource by (auto simp: elem_at_def split: if_splits)
  then have k: "k < length (node_links ?n)" using assms(1) LinkSource by (auto simp: elem_at_def split: if_splits)
  obtain g1 c where g1: "makeCaller a g (node_id ?n) (node_id (graph_nodes g ! entry_node e)) = Inr (g1, c)"
    and g': "g' = on_node i (\<lambda>n. n\<lparr>node_links := (node_links n)[k := Some (e, c)]\<rparr>) g1" and none: "node_links ?n ! k = None"
    using assms(1) LinkSource i k by (auto simp: elem_at_def result_simps require_def split: if_splits)
  note same = makeCaller_nodes [OF g1]
  show ?thesis
  proof (rule enlarges_if)
    assume inv: "graph_inv g P"
    then have sp: "is_split ?n" "node_typed ?n" using nth_mem [OF i] k by (auto simp: graph_inv_def)
    let ?f = "\<lambda>n. n\<lparr>node_links := (node_links n)[k := Some (e, c)]\<rparr>"
    have "is_split (?f ?n)" "node_typed (?f ?n)" using sp by (simp_all add: is_split_def)
    then have "mset (listed (?f ?n)) = mset (listed ?n) + mset [e]"
      using sp arg_cong [OF filter_update_None [OF k none, of "(e, c)"], of "image_mset (\<lambda>l. fst (the l))"] by (simp add: listed_def)
    then have "enlarges g P [] [(node_id ?n, node_id (graph_nodes g ! entry_node e))] (on_node i ?f g) P"
      using enlarges_on_node [where f = ?f and es = "[e]" and P = P, OF i] assms(2) sp by (simp add: same_node_def)
    moreover have "enlarges (on_node i ?f g) P [] [] g' P" using same by (intro enlarges_cong) (simp_all add: g')
    ultimately show "enlarges g P [] (connects g (node_id (graph_nodes g ! entry_node e)) s) g' P"
      using LinkSource enlarges_trans by fastforce
  qed
qed


section \<open>Growth by each constructor\<close>

lemma connects_add_node [simp]: "source_node s < length (graph_nodes g) \<Longrightarrow> connects (add_node g n) t s = connects g t s"
  by (cases s) (simp_all add: nth_append)

lemma connects_same:
  assumes "\<forall>i < length (graph_nodes g). same_node (graph_nodes g ! i) (graph_nodes g1 ! i)" and "source_node s < length (graph_nodes g)"
  shows "connects g1 t s = connects g t s"
  using assms same_node_simps [of "graph_nodes g ! source_node s" "graph_nodes g1 ! source_node s"] by (cases s) simp_all

lemma enlarges_same:
  assumes "enlarges g P I E g1 P1" and "graph_inv g P" and "source_node s < length (graph_nodes g)"
  shows "connects g1 t s = connects g t s"
  using assms connects_same by (simp add: enlarges_def)

lemma new_node_simps [simp]:
  "listed (new_node c) = []" "listed ((new_node c)\<lparr>node_errorStream := e\<rparr>) = []" "listed ((new_node c)\<lparr>node_isError := True\<rparr>) = []"
  "listed ((new_node c)\<lparr>node_typed := False\<rparr>) = []" "listed ((new_node c)\<lparr>node_typed := False, node_errorStream := e\<rparr>) = []"
  "listed ((new_node c)\<lparr>node_case := w\<rparr>) = []"
  "node_id (new_node c) = config_id c" "node_id ((new_node c)\<lparr>node_errorStream := e\<rparr>) = config_id c"
  "node_id ((new_node c)\<lparr>node_isError := True\<rparr>) = - config_id c"
  "node_id ((new_node c)\<lparr>node_typed := False, node_errorStream := e\<rparr>) = config_id c"
  "node_id ((new_node c)\<lparr>node_case := w\<rparr>) = config_id c"
  "node_config (new_node c) = c" "node_typed (new_node c)" "node_links (new_node c) = []"
  by (simp_all add: listed_def new_node_def node_id_def)

lemma enlarges_connect_register:
  assumes "connect_register a s g i = Inr g'" and "i < length (graph_nodes g)"
  shows "enlarges g (add_mset i P) [] (connects g (node_id (graph_nodes g ! i)) s) g' P"
proof -
  obtain g1 where g1: "setConsumer a g s (NodeEntry i) = Inr g1" and g': "registerStream g1 i = Inr g'"
    using assms(1) by (auto simp: connect_register_def result_simps)
  show ?thesis using enlarges_trans [OF enlarges_setConsumer [OF g1, of "add_mset i P"] enlarges_register [OF g']] assms(2) by simp
qed

lemma enlarges_new_node: "enlarges g P [config_id c] [] (add_node g (new_node c)) (add_mset (length (graph_nodes g)) P)"
  using enlarges_add_node [of "new_node c" g P] by simp

lemma enlarges_one_source:
  assumes "one_source a g c s = Inr g'" and "source_node s < length (graph_nodes g)"
  shows "enlarges g P [config_id c] (connects g (config_id c) s) g' P"
  using enlarges_trans [OF enlarges_new_node enlarges_connect_register [OF assms(1) [unfolded one_source_def]], of P] assms(2) by (simp add: nth_append)

lemma enlarges_new_registered:
  assumes "registerStream (add_node g (new_node c)) (length (graph_nodes g)) = Inr g'"
  shows "enlarges g P [config_id c] [] g' P"
  using enlarges_trans [OF enlarges_new_node enlarges_register [OF assms], of P] by simp

lemma enlarges_error_stream:
  assumes "makeErrorStream g c = Inr g'"
  shows "enlarges g P [- config_id c] [] g' P"
proof -
  let ?n = "(new_node c)\<lparr>node_isError := True\<rparr>"
  obtain g1 where g1: "registerStream (add_node g ?n) (length (graph_nodes g)) = Inr g1"
    and g': "g' = g1\<lparr>graph_counts := fst (makeLinkRecorder (graph_counts g1) (config_id c) (node_id ?n))\<rparr>"
    using assms by (auto simp: makeErrorStream_def Let_def result_simps)
  have "enlarges g P [- config_id c] [] (add_node g ?n) (add_mset (length (graph_nodes g)) P)"
    using enlarges_add_node [of ?n g P] by simp
  from enlarges_trans [OF this enlarges_register [OF g1]] have "enlarges g P [- config_id c] [] g1 P" by simp
  from enlarges_trans [OF this enlarges_cong [of g' g1 P]] show ?thesis by (simp add: g')
qed

lemma enlarges_with_error_stream:
  assumes "with_error_stream g n body = Inr g'" and "n = new_node c \<or> n = (new_node c)\<lparr>node_typed := False\<rparr> \<and> \<not> is_split n \<and> \<not> is_case n"
  shows "\<exists>g1. body g1 (length (graph_nodes g)) = Inr g' \<and> length (graph_nodes g) < length (graph_nodes g1) \<and>
    graph_nodes g1 ! length (graph_nodes g) = n\<lparr>node_errorStream := Some (Suc (length (graph_nodes g)))\<rparr> \<and>
    enlarges g P [config_id c, - config_id c] [] g1 (add_mset (length (graph_nodes g)) P)"
proof -
  let ?i = "length (graph_nodes g)"
  let ?n = "n\<lparr>node_errorStream := Some (Suc ?i)\<rparr>"
  obtain g1 where g1: "makeErrorStream (add_node g ?n) c = Inr g1" and b: "body g1 ?i = Inr g'"
    using assms by (auto simp: with_error_stream_def Let_def result_simps)
  have c: "is_split ?n = is_split n" "is_case ?n = is_case n" by (simp_all add: is_split_def is_case_def)
  have "enlarges g P [config_id c] [] (add_node g ?n) (add_mset ?i P)"
    using enlarges_add_node [of ?n g P] assms(2) c by auto
  from enlarges_trans [OF this enlarges_error_stream [OF g1]] have "enlarges g P [config_id c, - config_id c] [] g1 (add_mset ?i P)" by simp
  moreover have "graph_nodes g1 = graph_nodes g @ [?n, (new_node c)\<lparr>node_isError := True\<rparr>]"
    using g1 by (auto simp: makeErrorStream_def Let_def result_simps registerStream_def split: if_splits)
  ultimately show ?thesis using b by (intro exI [of _ g1]) simp
qed

lemma enlarges_error_connected:
  assumes "with_error_stream g n (connect_register a s) = Inr g'"
    and "n = new_node c \<or> n = (new_node c)\<lparr>node_typed := False\<rparr> \<and> \<not> is_split n \<and> \<not> is_case n"
    and "source_node s < length (graph_nodes g)"
  shows "enlarges g P [config_id c, - config_id c] (connects g (config_id c) s) g' P"
proof (rule enlarges_if)
  assume inv: "graph_inv g P"
  let ?i = "length (graph_nodes g)"
  obtain g1 where b: "connect_register a s g1 ?i = Inr g'" and l: "?i < length (graph_nodes g1)"
    and n: "graph_nodes g1 ! ?i = n\<lparr>node_errorStream := Some (Suc ?i)\<rparr>" and gr: "enlarges g P [config_id c, - config_id c] [] g1 (add_mset ?i P)"
    using enlarges_with_error_stream [OF assms(1,2)] by blast
  have "node_id (graph_nodes g1 ! ?i) = config_id c" using n assms(2) by auto
  then show "enlarges g P [config_id c, - config_id c] (connects g (config_id c) s) g' P"
    using enlarges_trans [OF gr enlarges_connect_register [OF b l]] enlarges_same [OF gr inv assms(3)] by simp
qed


lemma enlarges_buildable: "registerRuntimeBuildable g i = Inr g' \<Longrightarrow> enlarges g P [] [] g' P"
  by (rule enlarges_cong) (auto simp: registerRuntimeBuildable_def split: if_splits)

lemma enlarges_input:
  assumes "makeInputStream a g c = Inr g' \<or> makeInputKVStream a g c = Inr g'"
  shows "enlarges g P [config_id c, - config_id c] [] g' P"
proof -
  have "with_error_stream g (new_node c) registerStream = Inr g'"
    using assms by (auto simp: makeInputStream_def makeInputKVStream_def result_simps split: stream_body.splits)
  then obtain g1 where "registerStream g1 (length (graph_nodes g)) = Inr g'"
    and "enlarges g P [config_id c, - config_id c] [] g1 (add_mset (length (graph_nodes g)) P)"
    using enlarges_with_error_stream [of g "new_node c" registerStream g' c P] by blast
  then show ?thesis using enlarges_trans [OF _ enlarges_register] by fastforce
qed

lemma enlarges_case:
  assumes "makeCaseStream a g c s = Inr g'" and "source_node s < length (graph_nodes g)"
  shows "enlarges g P [config_id c] (connects g (config_id c) s) g' P"
proof (rule enlarges_if)
  assume inv: "graph_inv g P"
  let ?i = "length (graph_nodes g)"
  obtain g1 g2 where g1: "registerStream (add_node g (new_node c)) ?i = Inr g1" and g2: "setConsumer a g1 s (NodeEntry ?i) = Inr g2"
    and g': "registerRuntimeBuildable g2 ?i = Inr g'"
    using assms(1) by (auto simp: makeCaseStream_def Let_def result_simps split: stream_body.splits)
  have n: "graph_nodes g1 = graph_nodes g @ [new_node c]" using g1 by (auto simp: registerStream_def Let_def split: if_splits)
  note a = enlarges_new_registered [OF g1, of P]
  have b: "enlarges g1 P [] (connects g (config_id c) s) g2 P"
    using enlarges_setConsumer [OF g2, of P] n enlarges_same [OF a inv assms(2)] by simp
  from enlarges_trans [OF enlarges_trans [OF a b] enlarges_buildable [OF g']] show "enlarges g P [config_id c] (connects g (config_id c) s) g' P" by simp
qed

lemma enlarges_when:
  assumes "makeWhenStream a g c k = Inr g'"
  shows "enlarges g P [config_id c] [(node_id (graph_nodes g ! k), config_id c)] g' P"
proof (rule enlarges_if)
  assume inv: "graph_inv g P"
  let ?i = "length (graph_nodes g)" and ?n = "graph_nodes g ! k"
  let ?w = "(new_node c)\<lparr>node_case := Some (k, length (whenStreams ?n))\<rparr>" and ?f = "\<lambda>n. n\<lparr>whenStreams := whenStreams n @ [?i]\<rparr>"
  have k: "k < ?i" and cs: "is_case ?n"
    using assms by (auto simp: makeWhenStream_def elem_at_def split: stream_body.splits if_splits)
  obtain g1 where g1: "registerStream (add_node g ?w) ?i = Inr g1" and g': "g' = on_node k ?f g1"
    using assms k cs by (auto simp: makeWhenStream_def elem_at_def Let_def result_simps split: stream_body.splits if_splits)
  have n: "graph_nodes g1 = graph_nodes g @ [?w]" using g1 by (auto simp: registerStream_def Let_def split: if_splits)
  have "stream_body c = WhenBody t \<Longrightarrow> \<not> is_split ?w \<and> \<not> is_case ?w" for t by (simp add: is_split_def is_case_def)
  moreover obtain t where "stream_body c = WhenBody t" using assms by (auto simp: makeWhenStream_def split: stream_body.splits)
  ultimately have "enlarges g P [config_id c] [] (add_node g ?w) (add_mset ?i P)" using enlarges_add_node [of ?w g P] by simp
  from enlarges_trans [OF this enlarges_register [OF g1]] have a: "enlarges g P [config_id c] [] g1 P" by simp
  have ty: "node_typed ?n" "\<not> is_split ?n" using inv nth_mem [OF k] cs by (auto simp: graph_inv_def is_split_def is_case_def)
  then have "listed (?f ?n) = listed ?n @ [NodeEntry ?i]" using cs by (simp add: listed_def is_split_def is_case_def)
  then have "enlarges g1 P [] [(node_id ?n, config_id c)] g' P"
    using enlarges_on_node [where g = g1 and i = k and f = ?f and es = "[NodeEntry ?i]" and P = P] k n
    by (simp add: g' nth_append same_node_def)
  from enlarges_trans [OF a this] show "enlarges g P [config_id c] [(node_id ?n, config_id c)] g' P" by simp
qed

lemma enlarges_split:
  assumes "makeSplitStream a g c s = Inr g'" and "source_node s < length (graph_nodes g)"
  shows "enlarges g P [config_id c] (connects g (config_id c) s) g' P"
proof -
  obtain g1 where g1: "one_source a g c s = Inr g1" and g': "registerRuntimeBuildable g1 (length (graph_nodes g)) = Inr g'"
    using assms(1) by (auto simp: makeSplitStream_def result_simps split: if_splits)
  from enlarges_trans [OF enlarges_one_source [OF g1 assms(2)] enlarges_buildable [OF g']] show ?thesis by simp
qed

lemma enlarges_split_link:
  assumes "addSplitLink g i = Inr g'"
  shows "enlarges g P [] [] g' P"
proof -
  let ?f = "\<lambda>n. n\<lparr>node_links := node_links n @ [None]\<rparr>"
  have i: "i < length (graph_nodes g)" "is_split (graph_nodes g ! i)" and g': "g' = on_node i ?f g"
    using assms by (auto simp: addSplitLink_def elem_at_def split: if_splits)
  have "listed (?f (graph_nodes g ! i)) = listed (graph_nodes g ! i)" by (simp add: listed_def is_split_def is_case_def)
  then show ?thesis using enlarges_on_node [where i = i and f = ?f and es = "[]" and P = P, OF i(1)] i(2) by (simp add: g' same_node_def)
qed

lemma enlarges_connect_all:
  assumes "connect_all a g ss e = Inr g'" and "entry_node e < length (graph_nodes g)" and "\<forall>s \<in> set ss. source_node s < length (graph_nodes g)"
  shows "enlarges g P [] (concat (map (connects g (node_id (graph_nodes g ! entry_node e))) ss)) g' P"
  using assms
proof (induction ss arbitrary: g)
  case (Cons s ss)
  obtain g1 where g1: "setConsumer a g s e = Inr g1" and rest: "connect_all a g1 ss e = Inr g'" using Cons.prems(1) by (auto simp: result_simps)
  let ?t = "node_id (graph_nodes g ! entry_node e)"
  note a = enlarges_setConsumer [OF g1 Cons.prems(2), of P]
  show ?case
  proof (rule enlarges_if)
    assume inv: "graph_inv g P"
    have len: "length (graph_nodes g1) = length (graph_nodes g)" using a inv enlarges_length [of g1 g "[]"] by (simp add: enlarges_def)
    have t: "node_id (graph_nodes g1 ! entry_node e) = ?t"
      using a inv Cons.prems(2) same_node_simps(1) by (auto simp: enlarges_def)
    have c: "connects g1 ?t x = connects g ?t x" if "x \<in> set ss" for x using enlarges_same [OF a inv] Cons.prems(3) that by simp
    have "enlarges g1 P [] (concat (map (connects g1 ?t) ss)) g' P" using Cons.IH [OF rest] len t Cons.prems(2,3) by simp
    moreover have "map (connects g1 ?t) ss = map (connects g ?t) ss" using c by simp
    ultimately have "enlarges g1 P [] (concat (map (connects g ?t) ss)) g' P" by metis
    from enlarges_trans [OF a this] show "enlarges g P [] (concat (map (connects g ?t) (s # ss))) g' P" by simp
  qed
qed (simp add: enlarges_refl)

lemma enlarges_merge:
  assumes "makeMergeStream a g c ss = Inr g'" and "\<forall>s \<in> set ss. source_node s < length (graph_nodes g)"
  shows "enlarges g P [config_id c] (concat (map (connects g (config_id c)) ss)) g' P"
proof (rule enlarges_if)
  assume inv: "graph_inv g P"
  let ?i = "length (graph_nodes g)"
  obtain g1 where g1: "registerStream (add_node g (new_node c)) ?i = Inr g1" and g2: "connect_all a g1 ss (MergeEntry ?i) = Inr g'"
    using assms(1) by (auto simp: makeMergeStream_def Let_def result_simps split: if_splits)
  have n: "graph_nodes g1 = graph_nodes g @ [new_node c]" using g1 by (auto simp: registerStream_def Let_def split: if_splits)
  note a = enlarges_new_registered [OF g1, of P]
  have "map (connects g1 (config_id c)) ss = map (connects g (config_id c)) ss" using enlarges_same [OF a inv] assms(2) by simp
  then have "enlarges g1 P [] (concat (map (connects g (config_id c)) ss)) g' P"
    using enlarges_connect_all [OF g2, of P] n assms(2) by (simp add: less_SucI cong: map_cong)
  from enlarges_trans [OF a this] show "enlarges g P [config_id c] (concat (map (connects g (config_id c)) ss)) g' P" by simp
qed


lemma enlarges_with_source:
  assumes "with_source a g i s e = Inr g'" and "i < length (graph_nodes g)" and "entry_node e = i"
  shows "enlarges g P [] (connects g (node_id (graph_nodes g ! i)) s) g' P"
proof (rule enlarges_if)
  assume inv: "graph_inv g P"
  let ?f = "\<lambda>n. n\<lparr>node_source := Some s\<rparr>"
  obtain g1 where g1: "setConsumer a g s e = Inr g1" and g': "g' = on_node i ?f g1"
    using assms(1) by (auto simp: with_source_def result_simps)
  have a: "enlarges g P [] (connects g (node_id (graph_nodes g ! i)) s) g1 P" using enlarges_setConsumer [OF g1, of P] assms(2,3) by simp
  have len: "length (graph_nodes g1) = length (graph_nodes g)" using a inv enlarges_length [of g1 g "[]"] by (simp add: enlarges_def)
  have "listed (?f n) = listed n" for n by (simp add: listed_def is_split_def is_case_def)
  then have "enlarges g1 P [] [] g' P" unfolding g' using len assms(2) by (intro enlarges_benign) (simp_all add: same_node_def)
  from enlarges_trans [OF a this] show "enlarges g P [] (connects g (node_id (graph_nodes g ! i)) s) g' P" by simp
qed

lemma enlarges_setSource:
  assumes "link_setSource a g i s = Inr g' \<or> input_setSource a g i s = Inr g'"
  shows "enlarges g P [] (connects g (node_id (graph_nodes g ! i)) s) g' P"
proof -
  have "i < length (graph_nodes g) \<and> (\<exists>e. with_source a g i s e = Inr g' \<and> entry_node e = i)"
    using assms by (auto simp: link_setSource_def input_setSource_def elem_at_def result_simps intro: exI [of _ "NodeEntry i"] exI [of _ "ResultEntry i"] split: if_splits)
  then show ?thesis using enlarges_with_source by blast
qed

lemma enlarges_substream_setSource:
  assumes "substream_setSource a g i s = Inr g'"
  shows "enlarges g P [] (if node_source (graph_nodes g ! i) = Some s then [] else connects g (node_id (graph_nodes g ! i)) s) g' P"
proof (cases "node_source (graph_nodes g ! i)")
  case None
  then have "i < length (graph_nodes g) \<and> with_source a g i s (ResultEntry i) = Inr g'"
    using assms by (auto simp: substream_setSource_def elem_at_def result_simps split: if_splits)
  then show ?thesis using enlarges_with_source [of a g i s "ResultEntry i" g' P] None by simp
next
  case (Some t)
  then have "s = t \<and> g' = g" using assms by (auto simp: substream_setSource_def elem_at_def result_simps split: if_splits)
  then show ?thesis using Some enlarges_refl by simp
qed

lemma enlarges_storage: "join_storage a st g i = Inr g' \<Longrightarrow> graph_nodes g' = graph_nodes g \<and> enlarges g P [] [] g' P"
  by (intro conjI enlarges_cong) (auto simp: join_storage_def split: if_splits)

lemma enlarges_joined:
  assumes "join_storage a st (add_node g (new_node c)) (length (graph_nodes g)) = Inr g1"
    and "connect_register a l g1 (length (graph_nodes g)) = Inr g2" and "source_node l < length (graph_nodes g)"
  shows "enlarges g P [config_id c] (connects g (config_id c) l) g2 P"
proof (rule enlarges_if)
  assume inv: "graph_inv g P"
  let ?i = "length (graph_nodes g)"
  have n: "graph_nodes g1 = graph_nodes g @ [new_node c]" using enlarges_storage [OF assms(1)] by simp
  note gs = enlarges_storage [OF assms(1), of "add_mset ?i P", THEN conjunct2]
  from enlarges_trans [OF enlarges_new_node gs] have a: "enlarges g P [config_id c] [] g1 (add_mset ?i P)" by simp
  have "enlarges g1 (add_mset ?i P) [] (connects g (config_id c) l) g2 P"
    using enlarges_connect_register [OF assms(2), of P] n enlarges_same [OF a inv assms(3)] by simp
  from enlarges_trans [OF a this] show "enlarges g P [config_id c] (connects g (config_id c) l) g2 P" by simp
qed

lemma enlarges_join:
  assumes "makeJoinStream a g c l r = Inr g'" and "source_node l < length (graph_nodes g)" and "source_node r < length (graph_nodes g)"
  shows "enlarges g P [config_id c] (connects g (config_id c) l @ connects g (config_id c) r) g' P"
proof (rule enlarges_if)
  assume inv: "graph_inv g P"
  let ?i = "length (graph_nodes g)"
  obtain st g1 g2 where g1: "join_storage a st (add_node g (new_node c)) ?i = Inr g1" and g2: "connect_register a l g1 ?i = Inr g2"
    and g3: "setConsumer a g2 r (RightEntry ?i) = Inr g'"
    using assms(1) by (auto simp: makeJoinStream_def Let_def result_simps split: stream_body.splits)
  note a = enlarges_joined [OF g1 g2 assms(2), of P]
  have ids: "map node_id (graph_nodes g2) = map node_id (graph_nodes g) @ [config_id c]" using a inv by (simp add: enlarges_def)
  then have len: "length (graph_nodes g2) = Suc ?i" using enlarges_length [OF ids] by simp
  have "map node_id (graph_nodes g2) ! ?i = config_id c" unfolding ids by (simp add: nth_append)
  then have "node_id (graph_nodes g2 ! ?i) = config_id c" using len by simp
  then have "enlarges g2 P [] (connects g (config_id c) r) g' P"
    using enlarges_setConsumer [OF g3, of P] len enlarges_same [OF a inv assms(3)] by simp
  from enlarges_trans [OF a this] show "enlarges g P [config_id c] (connects g (config_id c) l @ connects g (config_id c) r) g' P" by simp
qed

lemma enlarges_multi_join_link:
  assumes "makeMultiJoinLink a g i r = Inr g'"
  shows "enlarges g P [] (connects g (node_id (graph_nodes g ! i)) r) g' P"
proof (rule enlarges_if)
  assume inv: "graph_inv g P"
  let ?k = "linkCount (graph_nodes g ! i) + 1"
  let ?f = "\<lambda>n. n\<lparr>linkCount := ?k\<rparr>"
  have i: "i < length (graph_nodes g)" using assms by (auto simp: makeMultiJoinLink_def elem_at_def split: if_splits)
  obtain g1 where g1: "setConsumer a g r (SlotEntry i ?k) = Inr g1" and g': "g' = on_node i ?f g1"
    using assms i by (auto simp: makeMultiJoinLink_def elem_at_def Let_def result_simps split: if_splits)
  have a: "enlarges g P [] (connects g (node_id (graph_nodes g ! i)) r) g1 P" using enlarges_setConsumer [OF g1, of P] i by simp
  have len: "length (graph_nodes g1) = length (graph_nodes g)" using a inv enlarges_length [of g1 g "[]"] by (simp add: enlarges_def)
  have "listed (?f n) = listed n" for n by (simp add: listed_def is_split_def is_case_def)
  then have "enlarges g1 P [] [] g' P" unfolding g' using len i by (intro enlarges_benign) (simp_all add: same_node_def)
  from enlarges_trans [OF a this] show "enlarges g P [] (connects g (node_id (graph_nodes g ! i)) r) g' P" by simp
qed

lemma enlarges_substream:
  assumes "makeSubStream a g c = Inr g'"
  shows "enlarges g P [config_id c] [] g' P"
proof -
  obtain g1 where g1: "registerStream (add_node g (new_node c)) (length (graph_nodes g)) = Inr g1"
    and g': "registerRuntimeBuildable g1 (length (graph_nodes g)) = Inr g'"
    using assms by (auto simp: makeSubStream_def Let_def result_simps split: stream_body.splits)
  from enlarges_trans [OF enlarges_new_registered [OF g1] enlarges_buildable [OF g']] show ?thesis by simp
qed

lemma enlarges_call:
  assumes "assembly_step a g c = Inr g'"
  shows "enlarges g {#} (call_ids c) (call_links g c) g' {#}"
proof -
  have src: "list_all (\<lambda>s. source_node s < length (graph_nodes g)) (call_sources c)" and step: "build_call_step a g c = Inr g'"
    using assms by (simp_all add: assembly_step_def split: if_splits)
  have sink: "\<not> is_split ((new_node d)\<lparr>node_typed := False\<rparr>) \<and> \<not> is_case ((new_node d)\<lparr>node_typed := False\<rparr>)" if "stream_body d = SinkBody t p" for d t p
    using that by (simp add: is_split_def is_case_def new_node_def)
  show ?thesis
  proof (cases c)
    case (MakeSink d s)
    then have "with_error_stream g ((new_node d)\<lparr>node_typed := False\<rparr>) (connect_register a s) = Inr g'" "\<exists>t p. stream_body d = SinkBody t p"
      using step by (auto simp: makeSinkStream_def result_simps split: stream_body.splits)
    then show ?thesis using enlarges_error_connected [of g "(new_node d)\<lparr>node_typed := False\<rparr>" a s g' d] sink src MakeSink by auto
  qed (use src step in \<open>auto simp: enlarges_input [OF disjI1] enlarges_input [OF disjI2] enlarges_setSource [OF disjI1] enlarges_setSource [OF disjI2] makeMapStream_def makeFilterStream_def makeFlatMapStream_def makeFlatMapIterableStream_def
      makeKeyByStream_def makeDelayStream_def makeProcessStream_def makeSinkStreamWithResult_def makeLinkStream_def makeMultiJoinStream_def Let_def
      result_simps list_all_iff enlarges_one_source enlarges_case enlarges_when enlarges_split enlarges_split_link enlarges_merge enlarges_join
      enlarges_multi_join_link enlarges_substream enlarges_substream_setSource enlarges_new_registered enlarges_joined
      intro!: enlarges_error_connected split: stream_body.splits option.splits if_splits\<close>)
qed


lemma enlarges_assemble:
  "assemble a g cs = Inr g' \<Longrightarrow> enlarges g {#} (concat (map call_ids cs)) (made_links a g cs) g' {#}"
proof (induction cs arbitrary: g)
  case (Cons c cs)
  then obtain g1 where "assembly_step a g c = Inr g1" "assemble a g1 cs = Inr g'" by (auto simp: result_simps)
  then show ?case using enlarges_trans [OF enlarges_call Cons.IH] by simp
qed (simp add: enlarges_refl)

lemma empty_graph_inv: "graph_inv empty_graph {#}" "link_mset empty_graph = {#}"
  by (simp_all add: empty_graph_def graph_inv_def link_mset_def)

section \<open>Links and topology\<close>

definition links_connected :: "graph \<Rightarrow> bool" where
  "links_connected g \<longleftrightarrow> (\<forall>n \<in> set (graph_nodes g). is_split n \<longrightarrow> None \<notin> set (node_links n))"

lemma mapR_ok [simp]: "is_ok (mapR f m) \<longleftrightarrow> is_ok m"
  by (cases m) simp_all

lemma is_ok_require_bind: "is_ok (bindR (require b m) f) \<longleftrightarrow> b \<and> is_ok (f ())"
  by (simp add: require_def)

lemma mapM_ok: "is_ok (mapM f xs) \<longleftrightarrow> (\<forall>x \<in> set xs. is_ok (f x))"
  by (induction xs) (auto simp: is_ok_iff result_simps)

lemma require_links_ok: "is_ok (require_links g i) \<longleftrightarrow> None \<notin> set (node_links (graph_nodes g ! i))"
  by (auto simp: require_links_def Let_def is_ok_each in_set_conv_nth)

lemma stream_links_spec:
  assumes "graph_inv g {#}" and "i < length (graph_nodes g)"
  shows "is_ok (stream_links g i) \<longleftrightarrow> (is_split (graph_nodes g ! i) \<longrightarrow> None \<notin> set (node_links (graph_nodes g ! i)))"
    and "stream_links g i = Inr ls \<Longrightarrow> ls = node_out g (graph_nodes g ! i)"
proof -
  let ?n = "graph_nodes g ! i"
  have t: "is_split ?n \<or> is_case ?n \<longrightarrow> node_typed ?n" using assms nth_mem [OF assms(2)] by (auto simp: graph_inv_def)
  show "is_ok (stream_links g i) \<longleftrightarrow> (is_split ?n \<longrightarrow> None \<notin> set (node_links ?n))"
    using t by (auto simp: stream_links_def Let_def consumers_def require_links_ok)
  have "filter (\<lambda>l. l \<noteq> None) (node_links ?n) = node_links ?n" if "require_links g i = Inr ()"
    unfolding filter_id_conv using that require_links_ok [of g i] by (metis is_ok_simps(1))
  then show "ls = node_out g ?n" if "stream_links g i = Inr ls"
    using that t by (auto simp: stream_links_def Let_def consumers_def result_simps node_out_def listed_def split: if_splits option.splits)
qed

lemma mset_concat_cong: "mset xs = mset ys \<Longrightarrow> mset (concat (map h xs)) = mset (concat (map h ys))"
  by (simp add: mset_concat mset_map flip: sum_mset_sum_list)

lemma sort_cong_mset: "mset xs = mset ys \<Longrightarrow> sort xs = sort ys"
  by (simp add: properties_for_sort)

lemma graphLinks_spec:
  assumes "graph_inv g {#}"
  shows "is_ok (graphLinks g) \<longleftrightarrow> links_connected g" and "mset ls = link_mset g \<Longrightarrow> links_connected g \<Longrightarrow> graphLinks g = Inr (sort ls)"
proof -
  let ?is = "map snd (graph_streams g)"
  have m: "mset ?is = mset [0..<length (graph_nodes g)]" using assms unfolding graph_inv_def by simp
  have s: "set ?is = {0..<length (graph_nodes g)}" using arg_cong [OF m, of set_mset] by simp
  have "is_ok (graphLinks g) \<longleftrightarrow> (\<forall>i < length (graph_nodes g). is_ok (stream_links g i))"
    unfolding graphLinks_def mapR_ok mapM_ok s by auto
  then show ok: "is_ok (graphLinks g) \<longleftrightarrow> links_connected g"
    unfolding links_connected_def all_set_conv_all_nth using stream_links_spec(1) [OF assms] by blast
  show "graphLinks g = Inr (sort ls)" if ms: "mset ls = link_mset g" and con: "links_connected g"
  proof -
    obtain lss where l: "mapM (stream_links g) ?is = Inr lss"
      using ok con unfolding graphLinks_def mapR_ok by (auto simp: is_ok_iff)
    have "lss = map (\<lambda>i. node_out g (graph_nodes g ! i)) ?is"
    proof (rule nth_equalityI)
      show "length lss = length (map (\<lambda>i. node_out g (graph_nodes g ! i)) ?is)" using mapM_length [OF l] by simp
      fix k assume k: "k < length lss"
      then have k': "k < length ?is" using mapM_length [OF l] by simp
      have "stream_links g (?is ! k) = Inr (lss ! k)" using l k' by (simp add: mapM_Inr_iff list_all2_conv_all_nth)
      moreover have "?is ! k < length (graph_nodes g)" using nth_mem [OF k'] s by simp
      ultimately show "lss ! k = map (\<lambda>i. node_out g (graph_nodes g ! i)) ?is ! k" using stream_links_spec(2) [OF assms] k' by simp
    qed
    then have "mset (concat lss) = mset (concat (map (\<lambda>i. node_out g (graph_nodes g ! i)) [0..<length (graph_nodes g)]))"
      using mset_concat_cong [OF m] by blast
    also have "map (\<lambda>i. node_out g (graph_nodes g ! i)) [0..<length (graph_nodes g)] = map (node_out g) (graph_nodes g)"
      by (intro nth_equalityI) simp_all
    finally have "mset (concat lss) = mset ls" using ms by (simp add: link_mset_def)
    then show ?thesis using sort_cong_mset l by (auto simp: graphLinks_def)
  qed
qed

lemma assembled:
  assumes "assemble a empty_graph cs = Inr g"
  shows "graph_inv g {#}" "link_mset g = mset (made_links a empty_graph cs)" "map node_id (graph_nodes g) = concat (map call_ids cs)"
  using enlarges_assemble [OF assms] empty_graph_inv by (simp_all add: enlarges_def) (simp add: empty_graph_def)

lemma registered_ids:
  assumes "graph_inv g {#}"
  shows "set (map fst (graph_streams g)) = set (map node_id (graph_nodes g))" and "distinct (map node_id (graph_nodes g))"
proof -
  have m: "mset (map snd (graph_streams g)) = mset [0..<length (graph_nodes g)]" using assms unfolding graph_inv_def by simp
  have k: "map fst (graph_streams g) = map (\<lambda>i. node_id (graph_nodes g ! i)) (map snd (graph_streams g))"
    using assms by (auto simp: graph_inv_def)
  have "mset (map (\<lambda>i. node_id (graph_nodes g ! i)) (map snd (graph_streams g))) = mset (map (\<lambda>i. node_id (graph_nodes g ! i)) [0..<length (graph_nodes g)])"
    using m by (metis mset_map)
  moreover have "map (\<lambda>i. node_id (graph_nodes g ! i)) [0..<length (graph_nodes g)] = map node_id (graph_nodes g)"
    by (intro nth_equalityI) simp_all
  ultimately have e: "mset (map fst (graph_streams g)) = mset (map node_id (graph_nodes g))" unfolding k by metis
  show "set (map fst (graph_streams g)) = set (map node_id (graph_nodes g))" using mset_eq_setD [OF e] .
  show "distinct (map node_id (graph_nodes g))" using mset_eq_imp_distinct_iff [OF e] assms by (simp add: graph_inv_def)
qed

text \<open>
  C24. The links of the graph. Whatever constructors a service calls, in whatever order, when all of them return the
  streams have distinct ids, and \<open>graphLinks\<close> is the sorted list of exactly the connections that were
  asked for, each once per request; it throws exactly when a link of a split was left without a consumer.
\<close>

theorem graph_links_are_connections:
  assumes "assemble a empty_graph cs = Inr g"
  shows "(is_ok (graphLinks g) \<longleftrightarrow> links_connected g) \<and> (links_connected g \<longrightarrow> graphLinks g = Inr (sort (made_links a empty_graph cs))) \<and>
    distinct (concat (map call_ids cs)) \<and> set (jm_keys (graph_streams g)) = set (concat (map call_ids cs))"
  using graphLinks_spec [OF assembled(1) [OF assms]] assembled(2,3) [OF assms] registered_ids [OF assembled(1) [OF assms]] by simp

text \<open>
  C25. The check of the topology accepts an assembled graph exactly when no link of a split is loose, and every
  stream that the configuration gives to this service was made and is connected to each of its sources.
\<close>

theorem topology_accepts:
  assumes "assemble a empty_graph cs = Inr g"
  shows "is_ok (validateRuntimeTopology a g) \<longleftrightarrow>
    links_connected g \<and>
    (\<forall>c \<in> set (streams (rc_config (asm_config a))). stream_type c \<noteq> TError \<and> idService c \<in> {0, asm_service a} \<longrightarrow>
       config_id c \<in> set (concat (map call_ids cs)) \<and>
       (\<forall>s \<in> set (idSource c # idSources c). s \<noteq> 0 \<longrightarrow> (s, config_id c) \<in> set (made_links a empty_graph cs)))"
proof (cases "links_connected g")
  case True
  note inv = assembled(1) [OF assms]
  let ?ls = "made_links a empty_graph cs"
  have l: "graphLinks g = Inr (sort ?ls)" using graphLinks_spec(2) [OF inv] assembled(2) [OF assms] True by simp
  have k: "linkKey s t \<in> set (map (\<lambda>(s, t). linkKey s t) (sort ?ls)) \<longleftrightarrow> (s, t) \<in> set ?ls" for s t
    by (force simp: image_iff linkKey_inj)
  have r: "jm_has (graph_streams g) i \<longleftrightarrow> i \<in> set (concat (map call_ids cs))" for i
    using registered_ids(1) [OF inv] assembled(3) [OF assms] by (simp add: jm_has_iff)
  have "is_ok (validate_runtime_stream g (asm_service a) (map (\<lambda>(s, t). linkKey s t) (sort ?ls)) c) \<longleftrightarrow>
      (stream_type c \<noteq> TError \<and> idService c \<in> {0, asm_service a} \<longrightarrow>
       config_id c \<in> set (concat (map call_ids cs)) \<and>
       (\<forall>s \<in> set (idSource c # idSources c). s \<noteq> 0 \<longrightarrow> (s, config_id c) \<in> set ?ls))" for c
    unfolding validate_runtime_stream_def by (auto simp: r k is_ok_require_bind simp del: is_ok_bindR set_map set_concat list.set)
  then show ?thesis using True l by (simp add: validateRuntimeTopology_def is_ok_each)
next
  case False
  then have "\<not> is_ok (graphLinks g)" using graphLinks_spec(1) [OF assembled(1) [OF assms]] by simp
  then show ?thesis using False by (cases "graphLinks g") (auto simp: validateRuntimeTopology_def)
qed


section \<open>Witnesses\<close>

text \<open>A loop: a cycle link, split in two, one branch filtered, both merged and fed back.\<close>

definition loop_config :: CanonicalConfig where
  "loop_config =
     \<lparr>services = [tiny_service],
      streams = [tiny_stream 20 ''loop'' 23 CycleLinkBody, tiny_stream 21 ''split'' 20 SplitBody,
        tiny_stream 22 ''odd'' 21 (FilterBody tiny_function), (tiny_stream 23 ''all'' 0 MergeBody)\<lparr>idSources := [21, 22]\<rparr>],
      dataConnectors = [], endpoints = [], pools = [],
      links = [\<lparr>link_from = 21, link_to = 23, callSemantics = Some ParallelCall, link_properties = []\<rparr>],
      modules = [], types = [], root_properties = []\<rparr>"

definition flag_registry :: SerdeRegistry where
  "flag_registry =
     (case bindR (register SerdeRegistry.registry_new flag_type (makeStreamSerde BoolSerde)) (\<lambda>r. registerStreamValueType r 20 flag_type) of
        Inl e \<Rightarrow> SerdeRegistry.registry_new | Inr r \<Rightarrow> r)"

definition loop_assembly :: assembly where
  "loop_assembly = \<lparr>asm_config = indexed loop_config, asm_service = 1, asm_registry = flag_registry,
     asm_pools = \<lparr>rp_task = [], rp_priority = []\<rparr>, asm_customStorage = (\<lambda>_. False)\<rparr>"

definition loop_calls :: "build_call list" where
  "loop_calls =
     [MakeLink (tiny_stream 20 ''loop'' 23 CycleLinkBody), MakeSplit (tiny_stream 21 ''split'' 20 SplitBody) (NodeSource 0),
      AddSplitLink 1, AddSplitLink 1, MakeFilter (tiny_stream 22 ''odd'' 21 (FilterBody tiny_function)) (LinkSource 1 0),
      MakeMerge ((tiny_stream 23 ''all'' 0 MergeBody)\<lparr>idSources := [21, 22]\<rparr>) [NodeSource 2, LinkSource 1 1], SetLinkSource 0 (NodeSource 3)]"

definition loop_graph :: graph where
  "loop_graph = (case assemble loop_assembly empty_graph loop_calls of Inl e \<Rightarrow> empty_graph | Inr g \<Rightarrow> g)"

lemma loop_assembled: "assemble loop_assembly empty_graph loop_calls = Inr loop_graph"
proof -
  have "is_ok (assemble loop_assembly empty_graph loop_calls)" by code_simp
  then show ?thesis by (auto simp: loop_graph_def is_ok_iff)
qed

lemma loop_links: "made_links loop_assembly empty_graph loop_calls = [(20, 21), (21, 22), (22, 23), (21, 23), (23, 20)]"
  by code_simp

lemma loop_connected: "links_connected loop_graph"
  by code_simp

theorem graph_links_are_connections_witness: "graphLinks loop_graph = Inr [(20, 21), (21, 22), (21, 23), (22, 23), (23, 20)]"
proof -
  have "sort [(20, 21), (21, 22), (22, 23), (21, 23), (23, 20)] = [(20, 21), (21, 22), (21, 23), (22, 23), (23 :: int, 20 :: int)]"
    by code_simp
  then show ?thesis using graph_links_are_connections [OF loop_assembled] loop_links loop_connected by simp
qed

theorem topology_accepts_witness: "is_ok (validateRuntimeTopology loop_assembly loop_graph)"
proof -
  have "streams (rc_config (asm_config loop_assembly)) = streams loop_config" by (simp add: loop_assembly_def)
  moreover have "set (concat (map call_ids loop_calls)) = {20, 21, 22, 23}" by code_simp
  moreover have "asm_service loop_assembly = 1" by (simp add: loop_assembly_def)
  ultimately show ?thesis
    using topology_accepts [OF loop_assembled] loop_links loop_connected by (simp add: loop_config_def tiny_stream_def)
qed

end
