(* ===== verification/StreamFlow.thy ===== *)
theory StreamFlow
  imports StreamGraph
begin

text \<open>
  What the operators of an assembled graph do with a message (\<open>consume\<close> of \<open>src/operators/*.ts\<close>, \<open>emit\<close> of
  \<open>consumed-stream.ts\<close>). A message is followed along the direct calls; where it leaves them, for a pool, a join
  storage, a sink, the delay pool or the owner of a call, it leaves an event.
\<close>

section \<open>Completions\<close>

text \<open>
  A call returns nothing, throws, or returns a promise; what happens before the promise settles is in the promise.
  The events of a call are those that happened before it returned.
\<close>

datatype flow_event =
    Called nat
  | OwnerCalled nat
  | Handed entry caller dyn
  | ToSink nat dyn
  | ToResult nat dyn
  | ToStorage nat dyn nat dyn
  | Scheduled nat rat dyn

datatype completion = Undefined | Throws thrown | Promised "flow_event list" "thrown option"

type_synonym call_result = "flow_event list \<times> completion"

fun settled :: "call_result \<Rightarrow> flow_event list \<times> thrown option" where
  "settled (es, Undefined) = (es, None)"
| "settled (es, Throws e) = (es, Some e)"
| "settled (es, Promised fs r) = (es @ fs, r)"

definition before :: "flow_event list \<Rightarrow> call_result \<Rightarrow> call_result" where
  "before es r = (es @ fst r, snd r)"

text \<open>\<open>await\<close> of a call, and then the rest: always a promise.\<close>

definition awaiting :: "call_result \<Rightarrow> (thrown option \<Rightarrow> flow_event list \<times> thrown option) \<Rightarrow> call_result" where
  "awaiting r rest =
     (case r of
        (es, Undefined) \<Rightarrow> (es, (case rest None of (fs, q) \<Rightarrow> Promised fs q))
      | (es, Throws e) \<Rightarrow> (es, (case rest (Some e) of (fs, q) \<Rightarrow> Promised fs q))
      | (es, Promised fs q) \<Rightarrow> (es, (case rest q of (gs, q') \<Rightarrow> Promised (fs @ gs) q')))"

text \<open>An \<open>async\<close> body that does all of its work after its first \<open>await\<close>.\<close>

definition deferred :: "flow_event list \<times> thrown option \<Rightarrow> call_result" where
  "deferred r = ([], Promised (fst r) (snd r))"

section \<open>Functions of the operators\<close>

text \<open>
  A function emits values one after the other, each time with the completion of what it emitted, and ends with a
  result. The first promise it meets makes it return a promise.
\<close>

datatype script = Return "thrown option" | Out dyn "thrown option \<Rightarrow> script" | OutError dyn "thrown option \<Rightarrow> script"

text \<open>A promise puts what follows into the promise.\<close>

fun and_then :: "call_result \<Rightarrow> (thrown option \<Rightarrow> call_result) \<Rightarrow> call_result" where
  "and_then (es, Undefined) rest = before es (rest None)"
| "and_then (es, Throws e) rest = before es (rest (Some e))"
| "and_then (es, Promised fs r) rest = (es, (case settled (rest r) of (gs, q) \<Rightarrow> Promised (fs @ gs) q))"

text \<open>
  What the graph is run with, each indexed by the stream: the functions of the operators, the selector of a case, the
  consumer of a sink and of results, the outcome of \<open>joinValue\<close>; and the identity of a new error, the text of a number.
\<close>

record operators =
  fn_script :: "nat \<Rightarrow> dyn \<Rightarrow> script"
  fn_filter :: "nat \<Rightarrow> dyn \<Rightarrow> thrown + bool"
  fn_duration :: "nat \<Rightarrow> dyn \<Rightarrow> thrown + rat"
  fn_durable :: "nat \<Rightarrow> dyn \<Rightarrow> thrown + bool"
  fn_schedule :: "nat \<Rightarrow> dyn \<Rightarrow> thrown option"
  fn_delayError :: "nat \<Rightarrow> dyn \<Rightarrow> thrown \<Rightarrow> script"
  fn_selector :: "nat \<Rightarrow> dyn \<Rightarrow> thrown + number"
  sink_consumer :: "nat \<Rightarrow> (dyn \<Rightarrow> completion) option"
  result_consumer :: "nat \<Rightarrow> (dyn \<Rightarrow> completion) option"
  join_outcome :: "nat \<Rightarrow> nat \<Rightarrow> dyn \<Rightarrow> thrown option"
  op_registry :: SerdeRegistry
  op_error :: nat
  op_number :: "rat \<Rightarrow> string"

definition op_throw :: "operators \<Rightarrow> string \<Rightarrow> string \<Rightarrow> thrown" where
  "op_throw ops n m = ErrorObj (op_error ops) n m"

fun serde_throw :: "operators \<Rightarrow> serde_error \<Rightarrow> thrown" where
  "serde_throw ops (SerdeError m k) = op_throw ops ''SerdeError'' m"
| "serde_throw ops (SerdeRangeError m) = op_throw ops ''RangeError'' m"
| "serde_throw ops (SerdeTypeError m) = op_throw ops ''TypeError'' m"

text \<open>\<open>assertSerdeValue\<close>.\<close>

definition assert_value :: "operators \<Rightarrow> string \<Rightarrow> dyn \<Rightarrow> thrown option" where
  "assert_value ops t v =
     (case assertByName (op_registry ops) t v of
        Inl m \<Rightarrow> Some (op_throw ops ''Error'' m)
      | Inr (Inl e) \<Rightarrow> Some (serde_throw ops e)
      | Inr (Inr _) \<Rightarrow> None)"

section \<open>Calls along the links\<close>

text \<open>\<open>emit\<close>: a direct link calls the consumer, any other link hands the value over. \<open>None\<close>: the fuel is used up.\<close>

definition emit :: "(entry \<Rightarrow> dyn \<Rightarrow> call_result option) \<Rightarrow> connection option \<Rightarrow> dyn \<Rightarrow> call_result option" where
  "emit consume c v =
     (case c of
        None \<Rightarrow> Some ([], Undefined)
      | Some (e, FunctionCaller async, k) \<Rightarrow> map_option (before [Called k]) (consume e v)
      | Some (e, caller, k) \<Rightarrow> Some ([Called k, Handed e caller v], Undefined))"

primrec run_script ::
  "(dyn \<Rightarrow> call_result option) \<Rightarrow> (dyn \<Rightarrow> call_result option) \<Rightarrow> script \<Rightarrow> call_result option" where
  "run_script out err (Return r) = Some ([], (case r of None \<Rightarrow> Undefined | Some e \<Rightarrow> Throws e))"
| "run_script out err (Out v k) =
     (case out v of
        None \<Rightarrow> None
      | Some r \<Rightarrow> map_option (\<lambda>q. and_then r (\<lambda>_. q)) (run_script out err (k (snd (settled r)))))"
| "run_script out err (OutError v k) =
     (case err v of
        None \<Rightarrow> None
      | Some r \<Rightarrow> map_option (\<lambda>q. and_then r (\<lambda>_. q)) (run_script out err (k (snd (settled r)))))"

text \<open>\<open>emitLinks\<close> of a split: once a link has returned a promise, the others are called when it is fulfilled.\<close>

fun then_chain :: "('l \<Rightarrow> call_result) \<Rightarrow> flow_event list \<times> thrown option \<Rightarrow> 'l list \<Rightarrow> flow_event list \<times> thrown option" where
  "then_chain call pending [] = pending"
| "then_chain call (es, Some e) (l # ls) = then_chain call (es, Some e) ls"
| "then_chain call (es, None) (l # ls) = (case settled (call l) of (fs, r) \<Rightarrow> then_chain call (es @ fs, r) ls)"

fun emitLinks :: "('l \<Rightarrow> call_result) \<Rightarrow> 'l list \<Rightarrow> call_result" where
  "emitLinks call [] = ([], Undefined)"
| "emitLinks call (l # ls) =
     (case call l of
        (es, Undefined) \<Rightarrow> before es (emitLinks call ls)
      | (es, Throws e) \<Rightarrow> (es, Throws e)
      | (es, Promised fs r) \<Rightarrow> (es, (case then_chain call (fs, r) ls of (gs, q) \<Rightarrow> Promised gs q)))"

section \<open>Operators\<close>

text \<open>The code points of a string, unpaired surrogates as they are.\<close>

fun string_points :: "nat list \<Rightarrow> nat list" where
  "string_points [] = []"
| "string_points [u] = [u]"
| "string_points (u # v # us) =
     (if high_surrogate u \<and> low_surrogate v then (0x10000 + (u - 0xD800) * 0x400 + (v - 0xDC00)) # string_points us
      else u # string_points (v # us))"

definition stringItems :: "operators \<Rightarrow> jsstring \<Rightarrow> string \<Rightarrow> thrown + dyn list" where
  "stringItems ops s t =
     (if t = ''int32'' then Inr (map (\<lambda>n. DNumber (Finite (of_nat n))) (string_points (map unat s)))
      else if t = ''uint8'' then Inr (map (\<lambda>b. DNumber (Finite (of_nat (unat b)))) (utf8_encode s))
      else Inl (op_throw ops ''TypeError'' (''FlatMapIterable string output type must be int32 or uint8, got '' @ t)))"

text \<open>One emission after the other, each awaited; \<open>check\<close> is done before the emission.\<close>

fun emit_each :: "(dyn \<Rightarrow> thrown option) \<Rightarrow> (dyn \<Rightarrow> call_result) \<Rightarrow> dyn list \<Rightarrow> flow_event list \<times> thrown option" where
  "emit_each check out [] = ([], None)"
| "emit_each check out (x # xs) =
     (case check x of
        Some e \<Rightarrow> ([], Some e)
      | None \<Rightarrow>
          (case settled (out x) of
             (es, Some e) \<Rightarrow> (es, Some e)
           | (es, None) \<Rightarrow> (case emit_each check out xs of (fs, r) \<Rightarrow> (es @ fs, r))))"

definition emit_items :: "(dyn \<Rightarrow> thrown option) \<Rightarrow> (dyn \<Rightarrow> call_result) \<Rightarrow> dyn list \<Rightarrow> call_result" where
  "emit_items check out xs =
     (case xs of
        [] \<Rightarrow> ([], Promised [] None)
      | y # ys \<Rightarrow>
          (case check y of
             Some e \<Rightarrow> ([], Promised [] (Some e))
           | None \<Rightarrow> awaiting (out y) (\<lambda>r. case r of Some e \<Rightarrow> ([], Some e) | None \<Rightarrow> emit_each check out ys)))"

text \<open>What \<open>emitItems\<close> iterates over, and whether each item is checked; or what it throws.\<close>

definition iterable :: "operators \<Rightarrow> string \<Rightarrow> string \<Rightarrow> dyn \<Rightarrow> thrown + bool \<times> dyn list" where
  "iterable ops name t v =
     (case v of
        DString s \<Rightarrow> mapR (Pair True) (stringItems ops s t)
      | DArray xs \<Rightarrow> Inr (False, xs)
      | DBytes bs \<Rightarrow> Inr (False, map (\<lambda>b. DNumber (Finite (of_nat (unat b)))) bs)
      | _ \<Rightarrow> Inl (op_throw ops ''TypeError'' (''FlatMapIterable stream '' @ name @ '' requires an array or typed array'')))"

text \<open>With fuel, a step that makes several calls needs all of them to end.\<close>

definition all_calls :: "('a \<Rightarrow> call_result option) \<Rightarrow> 'a list \<Rightarrow> (('a \<Rightarrow> call_result) \<Rightarrow> call_result) \<Rightarrow> call_result option" where
  "all_calls call xs body = (if list_all (\<lambda>x. call x \<noteq> None) xs then Some (body (\<lambda>x. the (call x))) else None)"

definition emitItems :: "operators \<Rightarrow> string \<Rightarrow> string \<Rightarrow> (dyn \<Rightarrow> call_result option) \<Rightarrow> dyn \<Rightarrow> call_result option" where
  "emitItems ops name t out v =
     (case iterable ops name t v of
        Inl e \<Rightarrow> Some ([], Promised [] (Some e))
      | Inr (checked, xs) \<Rightarrow> all_calls out xs (\<lambda>call. emit_items (\<lambda>x. if checked then assert_value ops t x else None) call xs))"

definition filter_consume :: "operators \<Rightarrow> nat \<Rightarrow> (dyn \<Rightarrow> call_result option) \<Rightarrow> dyn \<Rightarrow> call_result option" where
  "filter_consume ops i out v =
     (case fn_filter ops i v of
        Inl e \<Rightarrow> Some (deferred ([], Some e))
      | Inr passes \<Rightarrow> if passes then map_option (\<lambda>r. deferred (settled r)) (out v) else Some (deferred ([], None)))"

definition no_errors :: "dyn \<Rightarrow> call_result option" where
  "no_errors v = Some ([], Undefined)"

definition delay_consume :: "operators \<Rightarrow> nat \<Rightarrow> (dyn \<Rightarrow> call_result option) \<Rightarrow> dyn \<Rightarrow> call_result option" where
  "delay_consume ops i out v =
     (let failed = (\<lambda>e. map_option (\<lambda>r. deferred (settled r))
            (run_script out no_errors (fn_delayError ops i v (errorFromUnknown (op_error ops) e))));
          now = map_option (\<lambda>r. deferred (settled r)) (out v)
      in case fn_duration ops i v of
           Inl e \<Rightarrow> Some (deferred ([], Some e))
         | Inr d \<Rightarrow>
             if d \<le> 0 then now
             else (case fn_durable ops i v of
                     Inl e \<Rightarrow> failed e
                   | Inr True \<Rightarrow> now
                   | Inr False \<Rightarrow>
                       (case fn_schedule ops i v of
                          Some e \<Rightarrow> failed e
                        | None \<Rightarrow> Some (deferred ([Scheduled i d v], None)))))"

text \<open>The timer of the delay pool runs out: the value goes on unless the context is cancelled.\<close>

definition delay_fires :: "bool \<Rightarrow> (dyn \<Rightarrow> call_result option) \<Rightarrow> dyn \<Rightarrow> call_result option" where
  "delay_fires is_cancelled out v = (if is_cancelled then Some (deferred ([], None)) else map_option (\<lambda>r. deferred (settled r)) (out v))"

text \<open>\<open>whenStreams[index]\<close> for an index that may be any number.\<close>

definition branch_at :: "nat list \<Rightarrow> number \<Rightarrow> nat option" where
  "branch_at ws k =
     (case k of
        Finite q \<Rightarrow> if snd (quotient_of q) = 1 \<and> 0 \<le> q then elem_at ws (nat (fst (quotient_of q))) else None
      | _ \<Rightarrow> None)"

fun number_string :: "operators \<Rightarrow> number \<Rightarrow> string" where
  "number_string ops NaN = ''NaN''"
| "number_string ops PosInfinity = ''Infinity''"
| "number_string ops NegInfinity = ''-Infinity''"
| "number_string ops (Finite q) = op_number ops q"

definition no_branch :: "operators \<Rightarrow> nat list \<Rightarrow> number \<Rightarrow> thrown" where
  "no_branch ops ws k =
     op_throw ops ''RangeError'' (''case selector returned branch '' @ number_string ops k @ '', but only '' @
       show_int (int (length ws)) @ '' branches exist'')"

definition when_consumeCase :: "operators \<Rightarrow> stream_node \<Rightarrow> (connection option \<Rightarrow> dyn \<Rightarrow> call_result option) \<Rightarrow> dyn \<Rightarrow> call_result option" where
  "when_consumeCase ops w send v =
     (case stream_body (node_config w) of
        WhenBody t \<Rightarrow> (case assert_value ops t v of Some e \<Rightarrow> Some ([], Throws e) | None \<Rightarrow> send (node_consumer w) v)
      | _ \<Rightarrow> send (node_consumer w) v)"

definition consumeCase :: "operators \<Rightarrow> graph \<Rightarrow> nat \<Rightarrow> (connection option \<Rightarrow> dyn \<Rightarrow> call_result option) \<Rightarrow> dyn \<Rightarrow> call_result option" where
  "consumeCase ops g i send v =
     (let n = graph_nodes g ! i
      in if \<not> selectorBuilt n then Some ([], Throws (op_throw ops ''Error'' (''CaseStream '' @ stream_name g i @ '' is not built'')))
         else
           (case fn_selector ops i v of
              Inl e \<Rightarrow> Some ([], Throws e)
            | Inr k \<Rightarrow>
                (case branch_at (whenStreams n) k of
                   None \<Rightarrow> Some ([], Throws (no_branch ops (whenStreams n) k))
                 | Some w \<Rightarrow> when_consumeCase ops (graph_nodes g ! w) send v)))"

fun kv_key :: "dyn \<Rightarrow> dyn" where
  "kv_key (DKeyValue k v) = k"
| "kv_key _ = DUndefined"

fun kv_value :: "dyn \<Rightarrow> dyn" where
  "kv_value (DKeyValue k v) = v"
| "kv_value _ = DUndefined"

definition consumeValue :: "operators \<Rightarrow> nat \<Rightarrow> nat \<Rightarrow> dyn \<Rightarrow> call_result" where
  "consumeValue ops i slot v = ([ToStorage i (kv_key v) slot (kv_value v)], Promised [] (join_outcome ops i slot v))"

definition external :: "(dyn \<Rightarrow> completion) option \<Rightarrow> flow_event \<Rightarrow> dyn \<Rightarrow> call_result" where
  "external f ev v = (case f of None \<Rightarrow> ([], Undefined) | Some consume \<Rightarrow> ([ev], consume v))"

text \<open>\<open>ErrorStream.out\<close>.\<close>

definition error_out :: "graph \<Rightarrow> nat \<Rightarrow> (connection option \<Rightarrow> dyn \<Rightarrow> call_result option) \<Rightarrow> dyn \<Rightarrow> call_result option" where
  "error_out g i send v = map_option (before [OwnerCalled i]) (send (node_consumer (graph_nodes g ! i)) v)"

text \<open>\<open>consume\<close> of each stream: \<open>send\<close> is \<open>emit\<close> along a connection, \<open>out\<close> is \<open>emit\<close> of the stream itself.\<close>

definition map_consume :: "operators \<Rightarrow> nat \<Rightarrow> (dyn \<Rightarrow> call_result option) \<Rightarrow> dyn \<Rightarrow> call_result option" where
  "map_consume ops i out v = run_script out no_errors (fn_script ops i v)"

definition flatMap_consume :: "operators \<Rightarrow> nat \<Rightarrow> (dyn \<Rightarrow> call_result option) \<Rightarrow> dyn \<Rightarrow> call_result option" where
  "flatMap_consume ops i out v = run_script out no_errors (fn_script ops i v)"

definition keyBy_consume :: "operators \<Rightarrow> nat \<Rightarrow> (dyn \<Rightarrow> call_result option) \<Rightarrow> dyn \<Rightarrow> call_result option" where
  "keyBy_consume ops i out v = run_script out no_errors (fn_script ops i v)"

definition process_consume ::
  "operators \<Rightarrow> graph \<Rightarrow> (connection option \<Rightarrow> dyn \<Rightarrow> call_result option) \<Rightarrow> nat \<Rightarrow> dyn \<Rightarrow> call_result option" where
  "process_consume ops g send i v =
     (let n = graph_nodes g ! i
      in run_script (send (node_consumer n)) (case node_errorStream n of None \<Rightarrow> no_errors | Some j \<Rightarrow> error_out g j send) (fn_script ops i v))"

definition merge_consume :: "(dyn \<Rightarrow> call_result option) \<Rightarrow> dyn \<Rightarrow> call_result option" where
  "merge_consume out v = out v"

definition input_consume :: "(dyn \<Rightarrow> call_result option) \<Rightarrow> dyn \<Rightarrow> call_result option" where
  "input_consume out v = out v"

definition link_consume :: "(dyn \<Rightarrow> call_result option) \<Rightarrow> dyn \<Rightarrow> call_result option" where
  "link_consume out v = out v"

definition split_consume :: "(connection option \<Rightarrow> dyn \<Rightarrow> call_result option) \<Rightarrow> stream_node \<Rightarrow> dyn \<Rightarrow> call_result option" where
  "split_consume send n v =
     all_calls (\<lambda>k. send (node_links n ! k) v) (dispatchOrder n) (\<lambda>call. emitLinks call (dispatchOrder n))"

definition join_consume :: "operators \<Rightarrow> nat \<Rightarrow> dyn \<Rightarrow> call_result" where
  "join_consume ops i v = consumeValue ops i 0 v"

definition join_consumeRight :: "operators \<Rightarrow> nat \<Rightarrow> dyn \<Rightarrow> call_result" where
  "join_consumeRight ops i v = consumeValue ops i 1 v"

definition multiJoin_consume :: "operators \<Rightarrow> nat \<Rightarrow> dyn \<Rightarrow> call_result" where
  "multiJoin_consume ops i v = consumeValue ops i 0 v"

definition multiJoin_consumeRight :: "operators \<Rightarrow> nat \<Rightarrow> nat \<Rightarrow> dyn \<Rightarrow> call_result" where
  "multiJoin_consumeRight ops i k v = consumeValue ops i k v"

definition sink_consume :: "operators \<Rightarrow> nat \<Rightarrow> dyn \<Rightarrow> call_result" where
  "sink_consume ops i v = external (sink_consumer ops i) (ToSink i v) v"

definition consumeResult :: "operators \<Rightarrow> nat \<Rightarrow> dyn \<Rightarrow> call_result" where
  "consumeResult ops i v = external (result_consumer ops i) (ToResult i v) v"

definition node_consume ::
  "operators \<Rightarrow> graph \<Rightarrow> (connection option \<Rightarrow> dyn \<Rightarrow> call_result option) \<Rightarrow> nat \<Rightarrow> dyn \<Rightarrow> call_result option" where
  "node_consume ops g send i v =
     (let n = graph_nodes g ! i; out = send (node_consumer n)
      in if node_isError n then error_out g i send v
         else
           (case stream_body (node_config n) of
              MapBody f t \<Rightarrow> map_consume ops i out v
            | FlatMapBody f t \<Rightarrow> flatMap_consume ops i out v
            | KeyByBody f k t \<Rightarrow> keyBy_consume ops i out v
            | ProcessBody f t \<Rightarrow> process_consume ops g send i v
            | FilterBody f \<Rightarrow> filter_consume ops i out v
            | DelayBody f d \<Rightarrow> delay_consume ops i out v
            | FlatMapIterableBody t \<Rightarrow> emitItems ops (stream_name g i) t out v
            | JoinBody f t jt st ttl renew \<Rightarrow> Some (join_consume ops i v)
            | MultiJoinBody f t st ttl renew \<Rightarrow> Some (multiJoin_consume ops i v)
            | SinkBody t p \<Rightarrow> Some (sink_consume ops i v)
            | CaseBody f \<Rightarrow> consumeCase ops g i send v
            | SplitBody \<Rightarrow> split_consume send n v
            | MergeBody \<Rightarrow> merge_consume out v
            | InputBody t p \<Rightarrow> input_consume out v
            | CycleLinkBody \<Rightarrow> link_consume out v
            | _ \<Rightarrow> out v))"

lemmas consume_defs = node_consume_def no_errors_def map_consume_def flatMap_consume_def keyBy_consume_def process_consume_def merge_consume_def
  input_consume_def link_consume_def split_consume_def join_consume_def multiJoin_consume_def sink_consume_def

fun consume_entry ::
  "operators \<Rightarrow> graph \<Rightarrow> (connection option \<Rightarrow> dyn \<Rightarrow> call_result option) \<Rightarrow> entry \<Rightarrow> dyn \<Rightarrow> call_result option" where
  "consume_entry ops g send (NodeEntry i) v = node_consume ops g send i v"
| "consume_entry ops g send (MergeEntry i) v = node_consume ops g send i v"
| "consume_entry ops g send (RightEntry i) v = Some (join_consumeRight ops i v)"
| "consume_entry ops g send (SlotEntry i k) v = Some (multiJoin_consumeRight ops i k v)"
| "consume_entry ops g send (ResultEntry i) v = Some (consumeResult ops i v)"

text \<open>A message at an entry of the graph; the fuel bounds the direct calls that are inside one another.\<close>

primrec flow :: "operators \<Rightarrow> graph \<Rightarrow> nat \<Rightarrow> entry \<Rightarrow> dyn \<Rightarrow> call_result option" where
  "flow ops g 0 = (\<lambda>e v. None)"
| "flow ops g (Suc fuel) = consume_entry ops g (emit (flow ops g fuel))"

section \<open>Selectors and joins\<close>

definition json_quoted :: "(string \<Rightarrow> string) \<Rightarrow> string \<Rightarrow> string" where
  "json_quoted stringify n = ''case branch '' @ stringify n"

text \<open>\<open>whenIndex\<close>: \<open>stringify\<close> is \<open>JSON.stringify\<close>.\<close>

fun when_search :: "(string \<Rightarrow> string) \<Rightarrow> string \<Rightarrow> nat \<Rightarrow> nat option \<Rightarrow> string list \<Rightarrow> string + nat option" where
  "when_search stringify n k found [] = Inr found"
| "when_search stringify n k found (w # ws) =
     (if w \<noteq> n then when_search stringify n (Suc k) found ws
      else (case found of
              Some j \<Rightarrow> Inl (json_quoted stringify n @ '' is ambiguous (indices '' @ show_int (int j) @ '' and '' @ show_int (int k) @ '')'')
            | None \<Rightarrow> when_search stringify n (Suc k) (Some k) ws))"

definition whenIndex :: "(string \<Rightarrow> string) \<Rightarrow> string list \<Rightarrow> string \<Rightarrow> string + nat" where
  "whenIndex stringify ws n =
     (if n = [] then Inl ''case branch name must not be empty''
      else bindR (when_search stringify n 0 None ws)
             (\<lambda>found. case found of None \<Rightarrow> Inl (json_quoted stringify n @ '' was not found'') | Some k \<Rightarrow> Inr k))"

text \<open>\<open>defaultBuildSwitch\<close>: the last branch whose type matches.\<close>

fun last_match :: "SerdeRegistry \<Rightarrow> dyn \<Rightarrow> nat \<Rightarrow> nat option \<Rightarrow> string list \<Rightarrow> string + nat option" where
  "last_match reg v k found [] = Inr found"
| "last_match reg v k found (t # ts) =
     bindR (matchesByName reg t v) (\<lambda>b. last_match reg v (Suc k) (if b then Some k else found) ts)"

definition when_type :: "graph \<Rightarrow> nat \<Rightarrow> string" where
  "when_type g w = (case stream_body (node_config (graph_nodes g ! w)) of WhenBody t \<Rightarrow> t | _ \<Rightarrow> [])"

definition defaultBuildSwitch :: "operators \<Rightarrow> graph \<Rightarrow> nat \<Rightarrow> dyn \<Rightarrow> thrown + number" where
  "defaultBuildSwitch ops g i v =
     (case last_match (op_registry ops) v 0 None (map (when_type g) (whenStreams (graph_nodes g ! i))) of
        Inl m \<Rightarrow> Inl (op_throw ops ''Error'' m)
      | Inr None \<Rightarrow> Inl (op_throw ops ''TypeError'' (''unknown value type in case switch for stream '' @ stream_name g i))
      | Inr (Some k) \<Rightarrow> Inr (Finite (of_nat k)))"

text \<open>\<open>callFunction\<close> of a join, and the condition of a multi-join: whether the function is called.\<close>

definition join_calls_function :: "JoinType \<Rightarrow> 'l list \<Rightarrow> 'r list \<Rightarrow> bool" where
  "join_calls_function jt left right \<longleftrightarrow>
     (jt = InnerJoin \<and> 0 < length left \<and> 0 < length right) \<or> (jt = LeftJoin \<and> 0 < length left) \<or>
     (jt = RightJoin \<and> 0 < length right) \<or> jt = OuterJoin"

definition multi_join_calls_function :: "'v list list \<Rightarrow> bool" where
  "multi_join_calls_function values = (case values of [] \<Rightarrow> False | first # others \<Rightarrow> 0 < length first)"


section \<open>Dispatch in order\<close>

text \<open>The reference: call one consumer after the other, wait for each, stop at the first failure.\<close>

fun sequential :: "('l \<Rightarrow> flow_event list \<times> thrown option) \<Rightarrow> 'l list \<Rightarrow> flow_event list \<times> thrown option" where
  "sequential call [] = ([], None)"
| "sequential call (l # ls) =
     (case call l of
        (es, Some e) \<Rightarrow> (es, Some e)
      | (es, None) \<Rightarrow> (case sequential call ls of (fs, r) \<Rightarrow> (es @ fs, r)))"

lemma settled_before [simp]: "settled (before es r) = (es @ fst (settled r), snd (settled r))"
  by (cases r rule: settled.cases) (simp_all add: before_def)

lemma then_chain_sequential:
  "then_chain call (es, r) ls = (case r of Some e \<Rightarrow> (es, Some e) | None \<Rightarrow> (case sequential (\<lambda>l. settled (call l)) ls of (fs, q) \<Rightarrow> (es @ fs, q)))"
proof (induction ls arbitrary: es r)
  case (Cons l ls)
  then show ?case by (cases r) (auto split: prod.splits option.splits)
qed (simp split: option.split)

lemma emitLinks_sequential: "settled (emitLinks call ls) = sequential (\<lambda>l. settled (call l)) ls"
proof (induction ls)
  case (Cons l ls)
  show ?case
  proof (cases "call l" rule: settled.cases)
    case (3 es fs r)
    then show ?thesis by (cases r) (simp_all add: then_chain_sequential split: prod.splits)
  qed (use Cons in \<open>auto split: prod.splits\<close>)
qed simp

lemma sort_key_flag:
  "sort_key (\<lambda>k. if P k then 0 else (1::nat)) xs = filter P xs @ filter (\<lambda>k. \<not> P k) xs"
proof (rule properties_for_sort_key)
  show "mset (filter P xs @ filter (\<lambda>k. \<not> P k) xs) = mset xs" by simp
  have "map (\<lambda>k. if P k then 0 else (1::nat)) (filter P xs) = map (\<lambda>k. 0) (filter P xs)"
    "map (\<lambda>k. if P k then 0 else (1::nat)) (filter (\<lambda>k. \<not> P k) xs) = map (\<lambda>k. 1) (filter (\<lambda>k. \<not> P k) xs)" by simp_all
  then show "sorted (map (\<lambda>k. if P k then 0 else (1::nat)) (filter P xs @ filter (\<lambda>k. \<not> P k) xs))"
    unfolding map_append by (auto simp: sorted_append map_replicate_const)
  fix k
  assume "k \<in> set (filter P xs @ filter (\<lambda>k. \<not> P k) xs)"
  show "filter (\<lambda>x. (if P k then 0 else (1::nat)) = (if P x then 0 else 1)) (filter P xs @ filter (\<lambda>k. \<not> P k) xs) =
      filter (\<lambda>x. (if P k then 0 else (1::nat)) = (if P x then 0 else 1)) xs"
    by (cases "P k") (auto simp: filter_id_conv intro: filter_cong)
qed


section \<open>Where the connections lead\<close>

text \<open>An entry at which a message goes on to the consumers of the stream; at the others it ends.\<close>

fun continues :: "entry \<Rightarrow> bool" where
  "continues (NodeEntry i) = True"
| "continues (MergeEntry i) = True"
| "continues _ = False"

definition cycle_link :: "stream_node \<Rightarrow> bool" where
  "cycle_link n \<longleftrightarrow> \<not> node_isError n \<and> stream_body (node_config n) = CycleLinkBody"

definition node_connections :: "stream_node \<Rightarrow> connection set" where
  "node_connections n = {c. node_consumer n = Some c \<or> Some c \<in> set (node_links n)}"

text \<open>
  A stream at index \<open>i\<close>: only connections to a cycle link lead back, the branches and the error stream come later, and
  the dispatch order names links that exist.
\<close>

definition leads :: "stream_node list \<Rightarrow> nat \<Rightarrow> entry \<Rightarrow> bool" where
  "leads ns i e \<longleftrightarrow> entry_node e < length ns \<and> (continues e \<longrightarrow> i < entry_node e \<or> cycle_link (ns ! entry_node e))"

definition branches :: "stream_node list \<Rightarrow> nat \<Rightarrow> nat \<Rightarrow> bool" where
  "branches ns i w \<longleftrightarrow> i < w \<and> w < length ns \<and> body_type (stream_body (node_config (ns ! w))) = TWhen"

definition well_placed :: "stream_node list \<Rightarrow> nat \<Rightarrow> stream_node \<Rightarrow> bool" where
  "well_placed ns i n \<longleftrightarrow>
     (\<forall>c \<in> node_connections n. leads ns i (fst c)) \<and> (\<forall>w \<in> set (whenStreams n). branches ns i w) \<and>
     (\<forall>j. node_errorStream n = Some j \<longrightarrow> i < j \<and> j < length ns) \<and>
     (\<forall>k \<in> set (dispatchOrder n). k < length (node_links n))"

definition kept :: "stream_node list \<Rightarrow> stream_node list \<Rightarrow> bool" where
  "kept ns ns' \<longleftrightarrow> length ns \<le> length ns' \<and> (\<forall>j < length ns. same_node (ns ! j) (ns' ! j))"

text \<open>\<open>D\<close> are the indices that a constructor still has to register for the build.\<close>

definition flow_inv :: "nat set \<Rightarrow> graph \<Rightarrow> bool" where
  "flow_inv D g \<longleftrightarrow>
     (\<forall>i < length (graph_nodes g). well_placed (graph_nodes g) i (graph_nodes g ! i) \<and>
        (is_split (graph_nodes g ! i) \<or> is_case (graph_nodes g ! i) \<longrightarrow> i \<in> set (graph_buildables g) \<union> D))"

definition flow_step :: "nat set \<Rightarrow> graph \<Rightarrow> graph \<Rightarrow> bool" where
  "flow_step D g g' \<longleftrightarrow> (flow_inv D g \<longrightarrow> flow_inv D g') \<and> kept (graph_nodes g) (graph_nodes g')"

lemma same_node_refl [simp]: "same_node n n"
  by (simp add: same_node_def)

lemma same_node_trans: "same_node n m \<Longrightarrow> same_node m l \<Longrightarrow> same_node n l"
  by (simp add: same_node_def)

lemma kept_refl [simp]: "kept ns ns"
  by (simp add: kept_def)

lemma kept_append [simp]: "kept ns (ns @ ms)"
  by (simp add: kept_def nth_append)

lemma kept_update: "same_node (ns ! i) m \<Longrightarrow> kept ns (ns[i := m])"
  by (cases "i < length ns") (simp_all add: kept_def nth_list_update)

lemma kept_trans: "kept ns ms \<Longrightarrow> kept ms ls \<Longrightarrow> kept ns ls"
  by (auto simp: kept_def intro: same_node_trans)

lemma flow_step_refl [simp]: "flow_step D g g"
  by (simp add: flow_step_def)

lemma flow_step_trans [trans]: "flow_step D g g1 \<Longrightarrow> flow_step D g1 g2 \<Longrightarrow> flow_step D g g2"
  by (auto simp: flow_step_def intro: kept_trans)

lemma flow_step_kept: "flow_step D g g' \<Longrightarrow> kept (graph_nodes g) (graph_nodes g')"
  by (simp add: flow_step_def)

lemma kept_nth:
  assumes "kept ns ns'" and "j < length ns"
  shows "j < length ns'" "cycle_link (ns' ! j) = cycle_link (ns ! j)" "node_config (ns' ! j) = node_config (ns ! j)"
  using assms by (simp_all add: kept_def same_node_def cycle_link_def)

lemma leads_kept: "leads ns i e \<Longrightarrow> kept ns ns' \<Longrightarrow> leads ns' i e"
  using kept_nth [of ns ns' "entry_node e"] by (simp add: leads_def)

lemma branches_kept: "branches ns i w \<Longrightarrow> kept ns ns' \<Longrightarrow> branches ns' i w"
  using kept_nth [of ns ns' w] by (simp add: branches_def)

lemma well_placed_kept: "well_placed ns i n \<Longrightarrow> kept ns ns' \<Longrightarrow> well_placed ns' i n"
  unfolding well_placed_def using leads_kept branches_kept kept_nth(1) by blast

text \<open>New streams, and a change of one stream.\<close>

lemma flow_step_append:
  assumes "graph_nodes g' = graph_nodes g @ ms" and "graph_buildables g' = graph_buildables g"
    and "\<And>k. k < length ms \<Longrightarrow> well_placed (graph_nodes g @ ms) (length (graph_nodes g) + k) (ms ! k) \<and>
           (is_split (ms ! k) \<or> is_case (ms ! k) \<longrightarrow> length (graph_nodes g) + k \<in> D)"
  shows "flow_step D g g'"
proof -
  have "flow_inv D g'" if inv: "flow_inv D g"
    unfolding flow_inv_def
  proof (intro allI impI)
    fix i
    assume i: "i < length (graph_nodes g')"
    show "well_placed (graph_nodes g') i (graph_nodes g' ! i) \<and>
        (is_split (graph_nodes g' ! i) \<or> is_case (graph_nodes g' ! i) \<longrightarrow> i \<in> set (graph_buildables g') \<union> D)"
    proof (cases "i < length (graph_nodes g)")
      case True
      then show ?thesis using inv assms(1,2) well_placed_kept [OF _ kept_append] by (auto simp: flow_inv_def nth_append)
    next
      case False
      then show ?thesis using assms(1,2) assms(3) [of "i - length (graph_nodes g)"] i by (simp add: nth_append)
    qed
  qed
  then show ?thesis using assms(1) by (simp add: flow_step_def)
qed

lemma flow_step_update:
  assumes "graph_nodes g' = (graph_nodes g)[i := m]" and "graph_buildables g' = graph_buildables g" and "same_node (graph_nodes g ! i) m"
    and "i < length (graph_nodes g) \<Longrightarrow> well_placed (graph_nodes g) i (graph_nodes g ! i) \<Longrightarrow> well_placed (graph_nodes g) i m"
  shows "flow_step D g g'"
proof -
  have k: "kept (graph_nodes g) (graph_nodes g')" using assms(1,3) kept_update by simp
  have "well_placed (graph_nodes g) j (graph_nodes g' ! j) \<and> is_split (graph_nodes g' ! j) = is_split (graph_nodes g ! j) \<and>
      is_case (graph_nodes g' ! j) = is_case (graph_nodes g ! j)" if "flow_inv D g" "j < length (graph_nodes g)" for j
    using that assms(1,4) same_node_simps(2,3) [OF assms(3)] by (cases "j = i") (simp_all add: flow_inv_def)
  then have "flow_inv D g'" if "flow_inv D g"
    using that well_placed_kept [OF _ k] assms(1,2) by (simp add: flow_inv_def)
  then show ?thesis using k by (simp add: flow_step_def)
qed

lemma flow_step_same: "graph_nodes g' = graph_nodes g \<Longrightarrow> graph_buildables g' = graph_buildables g \<Longrightarrow> flow_step D g g'"
  by (rule flow_step_append [where ms = "[]"]) simp_all

lemma flow_step_on_node:
  assumes "same_node (graph_nodes g ! i) (f (graph_nodes g ! i))"
    and "i < length (graph_nodes g) \<Longrightarrow> well_placed (graph_nodes g) i (graph_nodes g ! i) \<Longrightarrow> well_placed (graph_nodes g) i (f (graph_nodes g ! i))"
  shows "flow_step D g (on_node i f g)"
  by (rule flow_step_update [OF _ _ assms]) (simp_all add: on_node_def)

lemma well_placed_new: "node_consumer n = None \<Longrightarrow> node_links n = [] \<Longrightarrow> whenStreams n = [] \<Longrightarrow> dispatchOrder n = [] \<Longrightarrow>
    (\<forall>j. node_errorStream n = Some j \<longrightarrow> i < j \<and> j < length ns) \<Longrightarrow> well_placed ns i n"
  by (simp add: well_placed_def node_connections_def)


section \<open>Connections made by the constructors\<close>

lemma makeCaller_buildables: "makeCaller a g s t = Inr (g1, c) \<Longrightarrow> graph_buildables g1 = graph_buildables g"
  by (auto simp: makeCaller_def mapR_Inr_iff makeLinkRecorder_def)

lemma buildables_on_node [simp]: "graph_buildables (on_node i f g) = graph_buildables g"
  by (simp add: on_node_def)

lemma buildables_add_node [simp]: "graph_buildables (add_node g n) = graph_buildables g"
  by (simp add: add_node_def)

lemma registerStream_nodes:
  "registerStream g i = Inr g' \<Longrightarrow> graph_nodes g' = graph_nodes g \<and> graph_buildables g' = graph_buildables g"
  by (auto simp: registerStream_def Let_def split: if_splits)

lemma flow_step_register: "registerStream g i = Inr g' \<Longrightarrow> flow_step D g g'"
  using registerStream_nodes flow_step_same by metis

lemma well_placed_link:
  assumes "well_placed ns i n" and "leads ns i e"
  shows "well_placed ns i (n\<lparr>node_links := (node_links n)[k := Some (e, c)]\<rparr>)"
proof -
  let ?m = "n\<lparr>node_links := (node_links n)[k := Some (e, c)]\<rparr>"
  have old: "leads ns i (fst d)" if "d \<in> node_connections n" for d using assms(1) that by (simp add: well_placed_def)
  have "leads ns i (fst d)" if "d \<in> node_connections ?m" for d
  proof -
    have "d = (e, c) \<or> d \<in> node_connections n"
      using that set_update_subset_insert [of "node_links n" k "Some (e, c)"] by (auto simp: node_connections_def)
    then show ?thesis
    proof
      assume "d \<in> node_connections n" then show ?thesis by (rule old)
    qed (use assms(2) in simp)
  qed
  then show ?thesis using assms(1) by (simp add: well_placed_def)
qed

lemma flow_step_setConsumer:
  assumes "setConsumer a g s e = Inr g'" and "leads (graph_nodes g) (source_node s) e"
  shows "flow_step D g g'"
proof (cases s)
  case (NodeSource i)
  then obtain n g1 c t where m: "makeCaller a g (node_id n) t = Inr (g1, c)" "g' = on_node i (\<lambda>n. n\<lparr>node_consumer := Some (e, c)\<rparr>) g1"
    using assms(1) by (auto simp: result_simps require_def split: if_splits option.splits)
  note mc = makeCaller_nodes [OF m(1)] makeCaller_buildables [OF m(1)]
  show ?thesis
  proof (rule flow_step_update [where i = i])
    show "graph_nodes g' = (graph_nodes g)[i := (graph_nodes g ! i)\<lparr>node_consumer := Some (e, c)\<rparr>]" using mc m(2) by simp
  qed (use assms(2) NodeSource mc m(2) in \<open>auto simp: same_node_def well_placed_def node_connections_def\<close>)
next
  case (LinkSource i k)
  then obtain n g1 c t where m: "makeCaller a g (node_id n) t = Inr (g1, c)" "g' = on_node i (\<lambda>n. n\<lparr>node_links := (node_links n)[k := Some (e, c)]\<rparr>) g1"
    using assms(1) by (auto simp: result_simps require_def split: if_splits option.splits)
  note mc = makeCaller_nodes [OF m(1)] makeCaller_buildables [OF m(1)]
  show ?thesis
  proof (rule flow_step_update [where i = i])
    show "graph_nodes g' = (graph_nodes g)[i := (graph_nodes g ! i)\<lparr>node_links := (node_links (graph_nodes g ! i))[k := Some (e, c)]\<rparr>]"
      using mc m(2) by simp
  qed (use assms(2) LinkSource mc m(2) well_placed_link in \<open>auto simp: same_node_def\<close>)
qed

text \<open>The new streams of the constructors.\<close>

lemma new_node_fields [simp]:
  "node_consumer (new_node c) = None" "node_links (new_node c) = []" "whenStreams (new_node c) = []" "dispatchOrder (new_node c) = []"
  "node_errorStream (new_node c) = None" "node_isError (new_node c) = False" "node_config (new_node c) = c"
  by (simp_all add: new_node_def)

lemma is_split_new [simp]: "is_split (new_node c) \<longleftrightarrow> stream_body c = SplitBody" "is_case (new_node c) \<longleftrightarrow> body_type (stream_body c) = TCase"
  by (simp_all add: is_split_def is_case_def)

lemma flow_step_new:
  assumes "stream_body c = SplitBody \<or> body_type (stream_body c) = TCase \<Longrightarrow> length (graph_nodes g) \<in> D"
  shows "flow_step D g (add_node g (new_node c))"
  using assms by (intro flow_step_append [where ms = "[new_node c]"]) (auto simp: well_placed_new)

lemma leads_new: "source_node s < length (graph_nodes g) \<Longrightarrow> graph_nodes g1 = graph_nodes g @ n # ms \<Longrightarrow> leads (graph_nodes g1) (source_node s) (NodeEntry (length (graph_nodes g)))"
  by (simp add: leads_def)

lemma flow_step_connect_register:
  assumes "connect_register a s g i = Inr g'" and "leads (graph_nodes g) (source_node s) (NodeEntry i)"
  shows "flow_step D g g'"
proof -
  obtain g1 where "setConsumer a g s (NodeEntry i) = Inr g1" "registerStream g1 i = Inr g'"
    using assms(1) by (auto simp: connect_register_def result_simps)
  then show ?thesis using flow_step_setConsumer [OF _ assms(2)] flow_step_register flow_step_trans by metis
qed

lemma flow_step_one_source:
  assumes "one_source a g c s = Inr g'" and "source_node s < length (graph_nodes g)"
    and "stream_body c = SplitBody \<or> body_type (stream_body c) = TCase \<Longrightarrow> length (graph_nodes g) \<in> D"
  shows "flow_step D g g'"
proof (rule flow_step_trans [OF flow_step_new [OF assms(3)]])
  show "flow_step D (add_node g (new_node c)) g'"
    using assms(1,2) leads_new [OF assms(2), of "add_node g (new_node c)"] unfolding one_source_def
    by (intro flow_step_connect_register) simp_all
qed

lemma makeErrorStream_nodes:
  "makeErrorStream g c = Inr g' \<Longrightarrow> graph_nodes g' = graph_nodes g @ [(new_node c)\<lparr>node_isError := True\<rparr>] \<and> graph_buildables g' = graph_buildables g"
  using registerStream_nodes by (fastforce simp: makeErrorStream_def Let_def mapR_Inr_iff)

lemma flow_step_with_error_stream:
  assumes "with_error_stream g n body = Inr g'" and "n = new_node c \<or> n = (new_node c)\<lparr>node_typed := False\<rparr>"
    and "stream_body c \<noteq> SplitBody" "body_type (stream_body c) \<noteq> TCase"
    and "\<And>g1 ms. body g1 (length (graph_nodes g)) = Inr g' \<Longrightarrow> graph_nodes g1 = graph_nodes g @ n\<lparr>node_errorStream := Some (Suc (length (graph_nodes g)))\<rparr> # ms \<Longrightarrow> flow_step D g1 g'"
  shows "flow_step D g g'"
proof -
  let ?n = "n\<lparr>node_errorStream := Some (Suc (length (graph_nodes g)))\<rparr>" and ?e = "(new_node c)\<lparr>node_isError := True\<rparr>"
  obtain g1 where g1: "makeErrorStream (add_node g ?n) (node_config n) = Inr g1" "body g1 (length (graph_nodes g)) = Inr g'"
    using assms(1) by (auto simp: with_error_stream_def Let_def result_simps)
  have n: "graph_nodes g1 = graph_nodes g @ [?n, ?e]" "graph_buildables g1 = graph_buildables g"
    using makeErrorStream_nodes [OF g1(1)] assms(2) by auto
  have "flow_step D g g1"
  proof (rule flow_step_append [OF n])
    fix k
    assume "k < length [?n, ?e]"
    then have "k = 0 \<or> k = 1" by auto
    then show "well_placed (graph_nodes g @ [?n, ?e]) (length (graph_nodes g) + k) ([?n, ?e] ! k) \<and>
        (is_split ([?n, ?e] ! k) \<or> is_case ([?n, ?e] ! k) \<longrightarrow> length (graph_nodes g) + k \<in> D)"
      using assms(2-4) by (auto simp: well_placed_new is_split_def is_case_def)
  qed
  then show ?thesis using assms(5) [OF g1(2) n(1)] flow_step_trans by blast
qed


lemma flow_inv_mono: "flow_inv D g \<Longrightarrow> D \<subseteq> E \<Longrightarrow> flow_inv E g"
  by (auto simp: flow_inv_def)

lemma flow_step_buildable:
  assumes "flow_step (insert i D) g g1" and "registerRuntimeBuildable g1 i = Inr g'"
  shows "flow_step D g g'"
proof -
  have "graph_nodes g' = graph_nodes g1" "graph_buildables g' = graph_buildables g1 @ [i]"
    using assms(2) by (auto simp: registerRuntimeBuildable_def split: if_splits)
  then show ?thesis using assms(1) flow_inv_mono [of D g "insert i D"] by (auto simp: flow_step_def flow_inv_def)
qed

lemma flow_step_error_connected:
  assumes "with_error_stream g n (connect_register a s) = Inr g'" and "source_node s < length (graph_nodes g)"
    and "n = new_node c \<or> n = (new_node c)\<lparr>node_typed := False\<rparr>" and "stream_body c \<noteq> SplitBody" "body_type (stream_body c) \<noteq> TCase"
  shows "flow_step D g g'"
  using assms(1,3-5)
proof (rule flow_step_with_error_stream)
  fix g1 ms
  assume "connect_register a s g1 (length (graph_nodes g)) = Inr g'"
    and "graph_nodes g1 = graph_nodes g @ n\<lparr>node_errorStream := Some (Suc (length (graph_nodes g)))\<rparr> # ms"
  then show "flow_step D g1 g'" using flow_step_connect_register leads_new [OF assms(2)] by metis
qed

lemma flow_step_input:
  assumes "makeInputStream a g c = Inr g' \<or> makeInputKVStream a g c = Inr g'"
  shows "flow_step D g g'"
proof -
  have "with_error_stream g (new_node c) registerStream = Inr g'" "body_type (stream_body c) = TInput"
    using assms by (auto simp: makeInputStream_def makeInputKVStream_def result_simps split: stream_body.splits)
  then show ?thesis using flow_step_register by (auto intro!: flow_step_with_error_stream [of g "new_node c" registerStream g' c])
qed

lemma flow_step_case:
  assumes "makeCaseStream a g c s = Inr g'" and "source_node s < length (graph_nodes g)"
  shows "flow_step D g g'"
proof -
  let ?i = "length (graph_nodes g)"
  obtain g1 g2 where g1: "registerStream (add_node g (new_node c)) ?i = Inr g1" and g2: "setConsumer a g1 s (NodeEntry ?i) = Inr g2"
    and g': "registerRuntimeBuildable g2 ?i = Inr g'"
    using assms(1) by (auto simp: makeCaseStream_def Let_def result_simps split: stream_body.splits)
  have "leads (graph_nodes g1) (source_node s) (NodeEntry ?i)"
    using registerStream_nodes [OF g1] leads_new [OF assms(2), of g1] by simp
  from flow_step_trans [OF flow_step_register [OF g1] flow_step_setConsumer [OF g2 this]]
  have "flow_step (insert ?i D) g g2" using flow_step_new [of c g "insert ?i D"] flow_step_trans by blast
  then show ?thesis using flow_step_buildable [OF _ g'] by simp
qed

lemma flow_step_when:
  assumes "makeWhenStream a g c k = Inr g'"
  shows "flow_step D g g'"
proof -
  let ?i = "length (graph_nodes g)" and ?n = "graph_nodes g ! k"
  let ?w = "(new_node c)\<lparr>node_case := Some (k, length (whenStreams ?n))\<rparr>" and ?f = "\<lambda>n. n\<lparr>whenStreams := whenStreams n @ [?i]\<rparr>"
  have k: "k < ?i" and t: "body_type (stream_body c) = TWhen" "stream_body c \<noteq> SplitBody"
    using assms by (auto simp: makeWhenStream_def elem_at_def split: stream_body.splits if_splits)
  obtain g1 where g1: "registerStream (add_node g ?w) ?i = Inr g1" and g': "g' = on_node k ?f g1"
    using assms k by (auto simp: makeWhenStream_def elem_at_def Let_def result_simps split: stream_body.splits if_splits)
  have n: "graph_nodes g1 = graph_nodes g @ [?w]" "graph_buildables g1 = graph_buildables g" using registerStream_nodes [OF g1] by simp_all
  have "flow_step D g g1"
    using t by (intro flow_step_append [OF n]) (auto simp: well_placed_new is_split_def is_case_def)
  moreover have "flow_step D g1 g'"
    unfolding g' using k n t by (intro flow_step_on_node) (auto simp: same_node_def well_placed_def node_connections_def branches_def)
  ultimately show ?thesis using flow_step_trans by blast
qed

lemma flow_step_split:
  assumes "makeSplitStream a g c s = Inr g'" and "source_node s < length (graph_nodes g)"
  shows "flow_step D g g'"
proof -
  obtain g1 where g1: "one_source a g c s = Inr g1" and g': "registerRuntimeBuildable g1 (length (graph_nodes g)) = Inr g'"
    using assms(1) by (auto simp: makeSplitStream_def result_simps split: if_splits)
  show ?thesis using flow_step_buildable [OF flow_step_one_source [OF g1 assms(2)] g'] by simp
qed

lemma flow_step_split_link: "addSplitLink g i = Inr g' \<Longrightarrow> flow_step D g g'"
  by (auto simp: addSplitLink_def same_node_def well_placed_def node_connections_def less_Suc_eq intro!: flow_step_on_node
      split: option.splits if_splits)

lemma flow_step_connect_all:
  assumes "connect_all a g ss e = Inr g'" and "\<forall>s \<in> set ss. leads (graph_nodes g) (source_node s) e"
  shows "flow_step D g g'"
  using assms
proof (induction ss arbitrary: g)
  case (Cons s ss)
  obtain g1 where g1: "setConsumer a g s e = Inr g1" and r: "connect_all a g1 ss e = Inr g'"
    using Cons.prems(1) by (auto simp: result_simps)
  have st: "flow_step D g g1" using flow_step_setConsumer [OF g1] Cons.prems(2) by simp
  have "\<forall>s \<in> set ss. leads (graph_nodes g1) (source_node s) e"
    using Cons.prems(2) leads_kept [OF _ flow_step_kept [OF st]] by simp
  then show ?case using Cons.IH [OF r] st flow_step_trans by blast
qed simp

lemma flow_step_merge:
  assumes "makeMergeStream a g c ss = Inr g'" and "\<forall>s \<in> set ss. source_node s < length (graph_nodes g)"
  shows "flow_step D g g'"
proof -
  let ?i = "length (graph_nodes g)"
  obtain g1 where g1: "registerStream (add_node g (new_node c)) ?i = Inr g1" and g': "connect_all a g1 ss (MergeEntry ?i) = Inr g'"
    and c: "stream_body c = MergeBody"
    using assms(1) by (auto simp: makeMergeStream_def Let_def result_simps split: if_splits)
  have "\<forall>s \<in> set ss. leads (graph_nodes g1) (source_node s) (MergeEntry ?i)"
    using assms(2) registerStream_nodes [OF g1] by (simp add: leads_def)
  from flow_step_connect_all [OF g' this] show ?thesis
    using flow_step_trans [OF flow_step_new flow_step_trans [OF flow_step_register [OF g1]]] c by simp
qed

lemma flow_step_with_source:
  assumes "with_source a g i s e = Inr g'" and "leads (graph_nodes g) (source_node s) e"
  shows "flow_step D g g'"
proof -
  obtain g1 where "setConsumer a g s e = Inr g1" and g': "g' = on_node i (\<lambda>n. n\<lparr>node_source := Some s\<rparr>) g1"
    using assms(1) by (auto simp: with_source_def mapR_Inr_iff)
  then have "flow_step D g g1" using flow_step_setConsumer assms(2) by blast
  also have "flow_step D g1 g'"
    unfolding g' by (intro flow_step_on_node) (simp_all add: same_node_def well_placed_def node_connections_def)
  finally show ?thesis .
qed

lemma flow_step_setSource:
  assumes "link_setSource a g i s = Inr g' \<or> input_setSource a g i s = Inr g' \<or> substream_setSource a g i s = Inr g'"
  shows "flow_step D g g'"
proof -
  have "g' = g \<or> (\<exists>e. with_source a g i s e = Inr g' \<and> leads (graph_nodes g) (source_node s) e)"
    using assms by (auto simp: link_setSource_def input_setSource_def substream_setSource_def require_def result_simps elem_at_def leads_def
        cycle_link_def split: option.splits if_splits)
  then show ?thesis using flow_step_with_source by auto
qed

lemma flow_step_join:
  assumes "join_storage a st (add_node g (new_node c)) (length (graph_nodes g)) = Inr g1"
    and "connect_register a l g1 (length (graph_nodes g)) = Inr g2" and "source_node l < length (graph_nodes g)"
    and "stream_body c \<noteq> SplitBody" "body_type (stream_body c) \<noteq> TCase"
  shows "flow_step D g g2"
proof -
  have n: "graph_nodes g1 = graph_nodes g @ [new_node c]" "graph_buildables g1 = graph_buildables g"
    using assms(1) by (auto simp: join_storage_def split: if_splits)
  have "flow_step D g g1" using assms(4,5) by (intro flow_step_append [OF n]) (simp_all add: well_placed_new)
  then show ?thesis using flow_step_connect_register [OF assms(2) leads_new [OF assms(3) n(1)]] flow_step_trans by blast
qed

lemma flow_step_joins:
  assumes "makeJoinStream a g c l r = Inr g'" and "source_node l < length (graph_nodes g)"
  shows "flow_step D g g'"
proof -
  let ?i = "length (graph_nodes g)"
  obtain st g1 g2 where g1: "join_storage a st (add_node g (new_node c)) ?i = Inr g1" and g2: "connect_register a l g1 ?i = Inr g2"
    and g': "setConsumer a g2 r (RightEntry ?i) = Inr g'" and t: "body_type (stream_body c) = TJoin"
    using assms(1) by (auto simp: makeJoinStream_def Let_def result_simps split: stream_body.splits)
  have "stream_body c \<noteq> SplitBody" using t by auto
  then have st: "flow_step D g g2" using flow_step_join [OF g1 g2 assms(2)] t by simp
  have "kept (graph_nodes g @ [new_node c]) (graph_nodes g2)"
    using flow_step_kept [OF flow_step_connect_register [OF g2 leads_new [OF assms(2)]]] g1 by (auto simp: join_storage_def split: if_splits)
  then have "leads (graph_nodes g2) (source_node r) (RightEntry ?i)" by (simp add: leads_def kept_def)
  then show ?thesis using st flow_step_setConsumer [OF g'] flow_step_trans by blast
qed

lemma flow_step_multi_join_link:
  assumes "makeMultiJoinLink a g i r = Inr g'"
  shows "flow_step D g g'"
proof -
  obtain g1 k where g1: "setConsumer a g r (SlotEntry i k) = Inr g1" and g': "g' = on_node i (\<lambda>n. n\<lparr>linkCount := k\<rparr>) g1"
    and i: "i < length (graph_nodes g)"
    using assms by (auto simp: makeMultiJoinLink_def Let_def mapR_Inr_iff elem_at_def split: option.splits if_splits)
  have "flow_step D g g1" using flow_step_setConsumer [OF g1] i by (simp add: leads_def)
  also have "flow_step D g1 g'"
    unfolding g' by (intro flow_step_on_node) (simp_all add: same_node_def well_placed_def node_connections_def)
  finally show ?thesis .
qed


lemma flow_step_substream:
  assumes "makeSubStream a g c = Inr g'"
  shows "flow_step D g g'"
proof -
  let ?i = "length (graph_nodes g)"
  obtain g1 where g1: "registerStream (add_node g (new_node c)) ?i = Inr g1" and g': "registerRuntimeBuildable g1 ?i = Inr g'"
    and "body_type (stream_body c) = TSubStream" "stream_body c \<noteq> SplitBody"
    using assms by (auto simp: makeSubStream_def Let_def result_simps split: stream_body.splits)
  then have "flow_step (insert ?i D) g g1" using flow_step_trans [OF flow_step_new flow_step_register [OF g1]] by simp
  then show ?thesis by (rule flow_step_buildable [OF _ g'])
qed

lemma flow_step_plain:
  assumes "makeMapStream a g c s = Inr g' \<or> makeFilterStream a g c s = Inr g' \<or> makeFlatMapStream a g c s = Inr g' \<or>
      makeFlatMapIterableStream a g c s = Inr g' \<or> makeKeyByStream a g c s = Inr g' \<or> makeDelayStream a g c s = Inr g'"
    and "source_node s < length (graph_nodes g)"
  shows "flow_step D g g'"
proof -
  have "one_source a g c s = Inr g' \<and> stream_body c \<noteq> SplitBody \<and> body_type (stream_body c) \<noteq> TCase"
    using assms(1) by (auto simp: makeMapStream_def makeFilterStream_def makeFlatMapStream_def makeFlatMapIterableStream_def
        makeKeyByStream_def makeDelayStream_def result_simps split: stream_body.splits)
  then show ?thesis using flow_step_one_source [OF _ assms(2)] by blast
qed

lemma flow_step_with_errors:
  assumes "makeProcessStream a g c s = Inr g' \<or> makeSinkStream a g c s = Inr g' \<or> makeSinkStreamWithResult a g c s = Inr g'"
    and "source_node s < length (graph_nodes g)"
  shows "flow_step D g g'"
proof -
  have "\<exists>n. with_error_stream g n (connect_register a s) = Inr g' \<and> (n = new_node c \<or> n = (new_node c)\<lparr>node_typed := False\<rparr>) \<and>
      stream_body c \<noteq> SplitBody \<and> body_type (stream_body c) \<noteq> TCase"
    using assms(1) by (auto simp: makeProcessStream_def makeSinkStream_def makeSinkStreamWithResult_def result_simps
        split: stream_body.splits option.splits)
  then show ?thesis using flow_step_error_connected [OF _ assms(2)] by blast
qed

lemma flow_step_multi_join:
  assumes "makeMultiJoinStream a g c l = Inr g'" and "source_node l < length (graph_nodes g)"
  shows "flow_step D g g'"
proof -
  obtain st g1 where "join_storage a st (add_node g (new_node c)) (length (graph_nodes g)) = Inr g1"
    and "connect_register a l g1 (length (graph_nodes g)) = Inr g'" and "body_type (stream_body c) = TMultiJoin" "stream_body c \<noteq> SplitBody"
    using assms(1) by (auto simp: makeMultiJoinStream_def Let_def result_simps split: stream_body.splits)
  then show ?thesis using flow_step_join assms(2) by simp
qed

lemma flow_step_link: "makeLinkStream a g c = Inr g' \<Longrightarrow> flow_step D g g'"
  using flow_step_trans [OF flow_step_new [of c g D] flow_step_register] by (auto simp: makeLinkStream_def result_simps split: if_splits)

lemmas flow_steps = flow_step_input flow_step_case flow_step_when flow_step_split flow_step_split_link flow_step_merge flow_step_setSource
  flow_step_joins flow_step_multi_join flow_step_multi_join_link flow_step_substream flow_step_plain flow_step_with_errors flow_step_link

lemma flow_step_call: "assembly_step a g c = Inr g' \<Longrightarrow> flow_step D g g'"
  by (cases c; simp add: assembly_step_def list_all_iff split: if_splits; metis flow_steps)

lemma assembled_flow: "assemble a g cs = Inr g' \<Longrightarrow> flow_step D g g'"
proof (induction cs arbitrary: g)
  case (Cons c cs)
  then obtain g1 where "assembly_step a g c = Inr g1" "assemble a g1 cs = Inr g'" by (auto simp: result_simps)
  then show ?case using Cons.IH flow_step_call flow_step_trans by blast
qed simp

text \<open>What the build leaves at a stream.\<close>

definition ready :: "graph \<Rightarrow> nat \<Rightarrow> bool" where
  "ready g i \<longleftrightarrow>
     (let n = graph_nodes g ! i; order = [0..<length (node_links n)]
      in (is_split n \<longrightarrow> None \<notin> set (node_links n) \<and>
            dispatchOrder n = filter (\<lambda>k. is_async_link (node_links n ! k)) order @ filter (\<lambda>k. \<not> is_async_link (node_links n ! k)) order) \<and>
         (is_case n \<longrightarrow> selectorBuilt n))"

lemma build_step:
  assumes "build switch g i = Inr g'"
  shows "flow_step D g g'" and "i < length (graph_nodes g) \<Longrightarrow> ready g' i" and "ready g j \<Longrightarrow> ready g' j"
    and "length (graph_nodes g') = length (graph_nodes g)"
proof -
  let ?o = "\<lambda>n. sort_key (\<lambda>k. if is_async_link (node_links n ! k) then 0 else (1::nat)) [0..<length (node_links n)]"
  let ?n = "graph_nodes g ! i"
  consider (split) "is_split ?n" "g' = on_node i (\<lambda>n. n\<lparr>dispatchOrder := ?o n\<rparr>) g" "None \<notin> set (node_links ?n)"
    | (sub) "g' = g" "is_substream ?n"
    | (switch) "\<not> is_split ?n" "g' = on_node i (\<lambda>n. n\<lparr>selectorBuilt := True\<rparr>) g"
    using assms require_links_ok [of g i]
    by (auto simp: build_def split_build_def substream_build_def Let_def mapR_Inr_iff is_ok_iff split: if_splits option.splits)
  note cases = this
  have case_split: "\<not> is_case ?n" if "is_split ?n \<or> is_substream ?n" using that by (auto simp: is_split_def is_case_def is_substream_def)
  show "flow_step D g g'"
    using cases by cases (auto simp: same_node_def well_placed_def node_connections_def intro!: flow_step_on_node)
  show "length (graph_nodes g') = length (graph_nodes g)" using cases by cases simp_all
  show r: "ready g' i" if "i < length (graph_nodes g)"
    using cases
  proof cases
    case split
    then show ?thesis using that case_split by (auto simp: ready_def Let_def sort_key_flag is_split_def is_case_def)
  next
    case sub
    then show ?thesis using case_split by (auto simp: ready_def Let_def is_split_def is_substream_def)
  qed (use that in \<open>auto simp: ready_def is_split_def\<close>)
  show "ready g' j" if "ready g j"
  proof (cases "j = i \<and> i < length (graph_nodes g)")
    case False
    then have e: "(graph_nodes g)[i := m] ! j = graph_nodes g ! j" for m by (cases "j = i") (auto simp: list_update_beyond)
    have "graph_nodes g' ! j = graph_nodes g ! j" using cases by cases (simp_all add: e)
    then show ?thesis using that by (simp add: ready_def)
  qed (use r in simp)
qed


lemma build_each_step:
  assumes "build_each switch g is = Inr h"
  shows "flow_step D g h \<and> length (graph_nodes h) = length (graph_nodes g) \<and> (\<forall>i. i \<in> set is \<and> i < length (graph_nodes g) \<or> ready g i \<longrightarrow> ready h i)"
  using assms
proof (induction "is" arbitrary: g)
  case (Cons i js)
  then obtain g1 where b: "build switch g i = Inr g1" and r: "build_each switch g1 js = Inr h" by (auto simp: result_simps)
  note s = build_step [OF b]
  have "flow_step D g h" using s(1) Cons.IH [OF r] flow_step_trans by blast
  then show ?case using s(2-4) Cons.IH [OF r] by auto
qed simp

lemma built:
  assumes "assemble a empty_graph cs = Inr g" and "buildRuntimeStreams switch g = Inr h"
  shows "flow_inv {} h" and "i < length (graph_nodes h) \<Longrightarrow> ready h i"
proof -
  have "flow_inv {} empty_graph" by (simp add: flow_inv_def empty_graph_def)
  then have g: "flow_inv {} g" using assembled_flow [OF assms(1), of "{}"] by (simp add: flow_step_def)
  note b = build_each_step [OF assms(2) [unfolded buildRuntimeStreams_def], of "{}"]
  then show "flow_inv {} h" using g by (simp add: flow_step_def)
  show "ready h i" if i: "i < length (graph_nodes h)"
  proof (cases "is_split (graph_nodes h ! i) \<or> is_case (graph_nodes h ! i)")
    case True
    moreover have "same_node (graph_nodes g ! i) (graph_nodes h ! i)" using b i by (simp add: flow_step_def kept_def)
    ultimately have "i \<in> set (graph_buildables g)" using g b i same_node_simps(2,3) by (auto simp: flow_inv_def)
    then show ?thesis using b i by auto
  next
    case False
    then show ?thesis by (simp add: ready_def)
  qed
qed

section \<open>Messages come to an end\<close>

lemma run_script_total:
  assumes "\<And>v. out v \<noteq> None" and "\<And>v. err v \<noteq> None"
  shows "run_script out err s \<noteq> None"
proof (induction s)
  case (Out v k)
  then show ?case using assms(1) [of v] by (auto simp del: split_paired_Ex)
next
  case (OutError v k)
  then show ?case using assms(2) [of v] by (auto simp del: split_paired_Ex)
qed simp

lemma all_calls_total: "(\<And>x. x \<in> set xs \<Longrightarrow> call x \<noteq> None) \<Longrightarrow> all_calls call xs body \<noteq> None"
  by (auto simp: all_calls_def list_all_iff)

lemma branch_at_mem: "branch_at ws k = Some w \<Longrightarrow> w \<in> set ws"
  by (auto simp: branch_at_def elem_at_def split: number.splits if_splits)

text \<open>The connections through which a message can leave a stream.\<close>

definition exits :: "graph \<Rightarrow> nat \<Rightarrow> connection option \<Rightarrow> bool" where
  "exits g i l \<longleftrightarrow>
     (let n = graph_nodes g ! i
      in l = node_consumer n \<or> (\<exists>k \<in> set (dispatchOrder n). l = node_links n ! k) \<or>
         (\<exists>w \<in> set (whenStreams n). l = node_consumer (graph_nodes g ! w)) \<or>
         (\<exists>j. node_errorStream n = Some j \<and> l = node_consumer (graph_nodes g ! j)))"

lemma node_consume_total:
  assumes "\<And>l v. exits g i l \<Longrightarrow> send l v \<noteq> None"
  shows "node_consume ops g send i v \<noteq> None"
proof -
  let ?n = "graph_nodes g ! i"
  have out: "send (node_consumer ?n) v \<noteq> None" for v using assms by (simp add: exits_def Let_def)
  have err: "error_out g j send v \<noteq> None" if "node_errorStream ?n = Some j \<or> j = i" for j v
    using that assms by (auto simp: error_out_def exits_def Let_def)
  have whens: "when_consumeCase ops (graph_nodes g ! w) send v \<noteq> None" if "w \<in> set (whenStreams ?n)" for w
  proof -
    have "exits g i (node_consumer (graph_nodes g ! w))" using that by (auto simp: exits_def Let_def)
    from assms [OF this] show ?thesis by (simp add: when_consumeCase_def del: not_None_eq split: stream_body.split option.split)
  qed
  have "consumeCase ops g i send v \<noteq> None"
    using whens branch_at_mem by (auto simp: consumeCase_def Let_def simp del: not_None_eq split: sum.splits option.splits)
  moreover have "emitItems ops (stream_name g i) t (send (node_consumer ?n)) v \<noteq> None" for t
    using out all_calls_total [of _ "send (node_consumer ?n)"] by (simp add: emitItems_def del: not_None_eq split: sum.split prod.split)
  moreover have "filter_consume ops i (send (node_consumer ?n)) v \<noteq> None" "delay_consume ops i (send (node_consumer ?n)) v \<noteq> None"
    using out run_script_total [of "send (node_consumer ?n)"] by (auto simp: filter_consume_def delay_consume_def no_errors_def Let_def simp del: not_None_eq split: sum.splits option.splits bool.splits)
  moreover have "all_calls (\<lambda>k. send (node_links ?n ! k) v) (dispatchOrder ?n) body \<noteq> None" for body
    by (intro all_calls_total assms) (auto simp: exits_def Let_def)
  ultimately show ?thesis
    using out err run_script_total [of "send (node_consumer ?n)"]
    by (simp add: consume_defs Let_def del: not_None_eq split: stream_body.split option.split)
qed

text \<open>
  From which stream to which a message gets by one direct call. The loops of a graph all pass through a pool or a parallel
  call when direct calls alone do not lead back to a stream.
\<close>

definition direct_calls :: "graph \<Rightarrow> (nat \<times> nat) set" where
  "direct_calls g = {(i, entry_node e) | i e async k. i < length (graph_nodes g) \<and> exits g i (Some (e, FunctionCaller async, k)) \<and> continues e}"

definition loops_pooled :: "graph \<Rightarrow> bool" where
  "loops_pooled g \<longleftrightarrow> acyclic (direct_calls g)"

lemma exit_leads:
  assumes "flow_inv {} h" and "i < length (graph_nodes h)" and "exits h i (Some (e, FunctionCaller async, k))"
  shows "\<exists>j \<ge> i. j < length (graph_nodes h) \<and> (e, FunctionCaller async, k) \<in> node_connections (graph_nodes h ! j) \<and> leads (graph_nodes h) j e"
proof -
  let ?ns = "graph_nodes h" and ?c = "(e, FunctionCaller async, k)"
  have wp: "well_placed ?ns j (?ns ! j)" if "j < length ?ns" for j using assms(1) that by (simp add: flow_inv_def)
  have later: "i < j \<and> j < length ?ns" if "j \<in> set (whenStreams (?ns ! i)) \<or> node_errorStream (?ns ! i) = Some j" for j
    using that wp [OF assms(2)] by (auto simp: well_placed_def branches_def)
  have "Some ?c \<in> set (node_links (?ns ! i))" if "k' \<in> set (dispatchOrder (?ns ! i))" "Some ?c = node_links (?ns ! i) ! k'" for k'
    using that wp [OF assms(2)] by (simp add: well_placed_def)
  then obtain j where j: "i \<le> j" "j < length ?ns" "?c \<in> node_connections (?ns ! j)"
    using assms(2,3) later unfolding exits_def Let_def node_connections_def mem_Collect_eq by (metis less_imp_le order_refl)
  have "leads ?ns j e" using wp [OF j(2)] j(3) by (force simp: well_placed_def)
  then show ?thesis using j by blast
qed

lemma direct_calls_within: "flow_inv {} h \<Longrightarrow> direct_calls h \<subseteq> {..<length (graph_nodes h)} \<times> {..<length (graph_nodes h)}"
  using exit_leads by (fastforce simp: direct_calls_def leads_def)

text \<open>
  It is enough that no direct call leads into a cycle link: all other connections lead from a stream to a later one. This
  can be evaluated.
\<close>

definition direct_into_cycle :: "graph \<Rightarrow> connection option \<Rightarrow> bool" where
  "direct_into_cycle g l =
     (case l of Some (e, FunctionCaller async, k) \<Rightarrow> continues e \<and> cycle_link (graph_nodes g ! entry_node e) | _ \<Rightarrow> False)"

definition cycles_pooled :: "graph \<Rightarrow> bool" where
  "cycles_pooled g = list_all (\<lambda>n. list_all (\<lambda>l. \<not> direct_into_cycle g l) (node_consumer n # node_links n)) (graph_nodes g)"

lemma cycles_pooled_loops:
  assumes "flow_inv {} h" and "cycles_pooled h"
  shows "loops_pooled h"
proof -
  have "i < j" if call: "(i, j) \<in> direct_calls h" for i j
  proof -
    let ?ns = "graph_nodes h"
    obtain e async k where e: "j = entry_node e" "continues e" "i < length ?ns" "exits h i (Some (e, FunctionCaller async, k))"
      using call by (auto simp: direct_calls_def)
    obtain m where m: "i \<le> m" "m < length ?ns" "(e, FunctionCaller async, k) \<in> node_connections (?ns ! m)" "leads ?ns m e"
      using exit_leads [OF assms(1) e(3,4)] by blast
    have "\<not> direct_into_cycle h (node_consumer (?ns ! m)) \<and> (\<forall>l \<in> set (node_links (?ns ! m)). \<not> direct_into_cycle h l)"
      using assms(2) nth_mem [OF m(2)] unfolding cycles_pooled_def list_all_iff by simp
    then have "\<not> direct_into_cycle h (Some (e, FunctionCaller async, k))" using m(3) by (auto simp: node_connections_def)
    then show ?thesis using m(1,4) e(1,2) by (auto simp: leads_def direct_into_cycle_def)
  qed
  then have "direct_calls h \<subseteq> {(i, j). i < j}" by auto
  then show ?thesis unfolding loops_pooled_def using acyclic_subset [OF wf_acyclic [OF wf_less]] by blast
qed

text \<open>The streams that direct calls reach get fewer along a call.\<close>

definition reached :: "graph \<Rightarrow> nat \<Rightarrow> nat set" where
  "reached g i = (direct_calls g)\<^sup>+ `` {i}"

lemma reached_less:
  assumes "flow_inv {} h" and "loops_pooled h"
  shows "(i, j) \<in> direct_calls h \<Longrightarrow> card (reached h j) < card (reached h i)"
    and "i < length (graph_nodes h) \<Longrightarrow> card (reached h i) < length (graph_nodes h)"
proof -
  let ?N = "{..<length (graph_nodes h)}"
  have sub: "reached h i \<subseteq> ?N" for i using direct_calls_within [OF assms(1)] trancl_subset_Sigma unfolding reached_def by blast
  have not_self: "i \<notin> reached h i" for i using assms(2) by (auto simp: loops_pooled_def acyclic_def reached_def)
  have fin: "finite (reached h i)" for i using sub finite_subset by blast
  show "card (reached h j) < card (reached h i)" if "(i, j) \<in> direct_calls h"
  proof (rule psubset_card_mono [OF fin])
    have "reached h j \<subseteq> reached h i" "j \<in> reached h i" using that by (auto simp: reached_def intro: trancl_into_trancl2)
    then show "reached h j \<subset> reached h i" using not_self [of j] by blast
  qed
  show "card (reached h i) < length (graph_nodes h)" if "i < length (graph_nodes h)"
  proof -
    have "reached h i \<subset> ?N" using sub not_self [of i] that by blast
    then show ?thesis using psubset_card_mono [of ?N "reached h i"] by simp
  qed
qed

lemma flow_total:
  assumes "flow_inv {} h" and "loops_pooled h"
  shows "0 < fuel \<Longrightarrow> entry_node e < length (graph_nodes h) \<Longrightarrow> (continues e \<longrightarrow> Suc (card (reached h (entry_node e))) < fuel) \<Longrightarrow>
    flow ops h fuel e v \<noteq> None"
proof (induction fuel arbitrary: e v)
  case (Suc fuel)
  have "emit (flow ops h fuel) l v \<noteq> None" if c: "continues e" and x: "exits h (entry_node e) l" for l v
  proof (cases "\<exists>e' async k. l = Some (e', FunctionCaller async, k)")
    case True
    then obtain e' async k where l: "l = Some (e', FunctionCaller async, k)" by blast
    have "entry_node e' < length (graph_nodes h)" using exit_leads [OF assms(1) Suc.prems(2)] x l by (auto simp: leads_def)
    moreover have "card (reached h (entry_node e')) < card (reached h (entry_node e))" if "continues e'"
    proof (rule reached_less(1) [OF assms])
      show "(entry_node e, entry_node e') \<in> direct_calls h" using that Suc.prems(2) x l unfolding direct_calls_def by blast
    qed
    ultimately have "flow ops h fuel e' v \<noteq> None" using Suc.prems(3) c by (intro Suc.IH) auto
    then show ?thesis by (auto simp: emit_def l)
  next
    case False
    then show ?thesis by (auto simp: emit_def split: option.splits caller.splits prod.splits)
  qed
  then show ?case using node_consume_total by (cases e) simp_all
qed simp

lemma flow_enough:
  assumes "flow_inv {} h" and "loops_pooled h" and "entry_node e < length (graph_nodes h)" and "length (graph_nodes h) < fuel"
  shows "flow ops h fuel e v \<noteq> None"
  using assms(3,4) reached_less(2) [OF assms(1-3)] by (intro flow_total [OF assms(1,2)]) simp_all


text \<open>More fuel does not change what happens.\<close>

definition extends :: "('a \<Rightarrow> 'b \<Rightarrow> 'c option) \<Rightarrow> ('a \<Rightarrow> 'b \<Rightarrow> 'c option) \<Rightarrow> bool" where
  "extends f g \<longleftrightarrow> (\<forall>x v r. f x v = Some r \<longrightarrow> g x v = Some r)"

lemma run_script_extends:
  assumes "run_script out err s = Some r" and "\<And>v r. out v = Some r \<Longrightarrow> out' v = Some r" and "\<And>v r. err v = Some r \<Longrightarrow> err' v = Some r"
  shows "run_script out' err' s = Some r"
  using assms(1)
proof (induction s arbitrary: r)
  case (Out v k)
  then obtain q where q: "out v = Some q" by (auto split: option.splits)
  then show ?case using Out assms(2) [OF q] by auto
next
  case (OutError v k)
  then obtain q where q: "err v = Some q" by (auto split: option.splits)
  then show ?case using OutError assms(3) [OF q] by auto
qed simp

lemma emitLinks_cong: "(\<And>l. l \<in> set ls \<Longrightarrow> f l = g l) \<Longrightarrow> emitLinks f ls = emitLinks g ls"
proof -
  have "then_chain f p ls = then_chain g p ls" if "\<And>l. l \<in> set ls \<Longrightarrow> f l = g l" for p ls
    using that by (induction f p ls rule: then_chain.induct) (auto split: prod.splits)
  then show "(\<And>l. l \<in> set ls \<Longrightarrow> f l = g l) \<Longrightarrow> emitLinks f ls = emitLinks g ls"
    by (induction ls) (auto split: prod.splits completion.splits)
qed

lemma emit_items_cong: "(\<And>x. x \<in> set xs \<Longrightarrow> f x = g x) \<Longrightarrow> emit_items check f xs = emit_items check g xs"
proof -
  have "emit_each check f xs = emit_each check g xs" if "\<And>x. x \<in> set xs \<Longrightarrow> f x = g x" for xs
    using that by (induction xs) (auto split: prod.splits option.splits)
  then show "(\<And>x. x \<in> set xs \<Longrightarrow> f x = g x) \<Longrightarrow> emit_items check f xs = emit_items check g xs"
    by (cases xs) (auto simp: emit_items_def split: option.splits)
qed

lemma all_calls_extends:
  assumes "all_calls f xs body = Some r" and "\<And>x r. x \<in> set xs \<Longrightarrow> f x = Some r \<Longrightarrow> g x = Some r"
    and "\<And>p q. (\<And>x. x \<in> set xs \<Longrightarrow> p x = q x) \<Longrightarrow> body p = body q"
  shows "all_calls g xs body = Some r"
proof -
  have f: "x \<in> set xs \<Longrightarrow> g x = f x \<and> f x \<noteq> None" for x using assms(1,2) by (auto simp: all_calls_def list_all_iff split: if_splits)
  then have "body (\<lambda>x. the (g x)) = body (\<lambda>x. the (f x))" by (intro assms(3)) simp
  then show ?thesis using assms(1) f by (auto simp: all_calls_def list_all_iff split: if_splits)
qed

lemma node_consume_extends:
  assumes "extends send send'" and "node_consume ops g send i v = Some r"
  shows "node_consume ops g send' i v = Some r"
proof -
  let ?n = "graph_nodes g ! i"
  let ?out = "send (node_consumer ?n)" and ?out' = "send' (node_consumer ?n)"
  have ex: "send' l v = Some r" if "send l v = Some r" for l v r using assms(1) that unfolding extends_def by blast
  have err: "error_out g j send v = Some r \<Longrightarrow> error_out g j send' v = Some r" for j v r
    by (auto simp: error_out_def dest: ex)
  have scr: "run_script ?out e s = Some r \<Longrightarrow> run_script ?out' e s = Some r" for e s r
    by (erule run_script_extends) (simp_all add: ex)
  have proc: "run_script ?out (error_out g j send) s = Some r \<Longrightarrow> run_script ?out' (error_out g j send') s = Some r" for j s r
    by (erule run_script_extends) (simp_all add: ex err)
  have flt: "filter_consume ops i ?out v = Some r \<Longrightarrow> filter_consume ops i ?out' v = Some r"
    by (auto simp: filter_consume_def dest: ex split: sum.splits if_splits)
  have dly: "delay_consume ops i ?out v = Some r \<Longrightarrow> delay_consume ops i ?out' v = Some r"
    by (auto simp: delay_consume_def no_errors_def Let_def dest: ex scr split: sum.splits if_splits option.splits bool.splits)
  have itm: "emitItems ops (stream_name g i) t ?out v = Some r \<Longrightarrow> emitItems ops (stream_name g i) t ?out' v = Some r" for t
    by (auto simp: emitItems_def ex intro!: emit_items_cong elim!: all_calls_extends split: sum.splits prod.splits)
  have cse: "consumeCase ops g i send v = Some r \<Longrightarrow> consumeCase ops g i send' v = Some r"
    by (auto simp: consumeCase_def when_consumeCase_def Let_def dest: ex split: sum.splits if_splits option.splits stream_body.splits)
  have spl: "all_calls (\<lambda>k. send (node_links ?n ! k) v) ks (\<lambda>call. emitLinks call ks) = Some r \<Longrightarrow>
      all_calls (\<lambda>k. send' (node_links ?n ! k) v) ks (\<lambda>call. emitLinks call ks) = Some r" for ks
    by (auto simp: ex intro!: emitLinks_cong elim!: all_calls_extends)
  show ?thesis
    using assms(2) by (simp add: consume_defs Let_def ex err scr proc flt dly itm cse spl split: if_splits stream_body.splits option.splits)
qed

lemma emit_extends: "extends f g \<Longrightarrow> extends (emit f) (emit g)"
  by (auto simp: extends_def emit_def split: option.splits caller.splits)

lemma flow_extends: "extends (flow ops g fuel) (flow ops g (Suc fuel))"
proof (induction fuel)
  case (Suc fuel)
  have "consume_entry ops g (emit (flow ops g (Suc fuel))) e v = Some r" if "consume_entry ops g (emit (flow ops g fuel)) e v = Some r" for e v r
    using that node_consume_extends [OF emit_extends [OF Suc.IH]] by (cases e) simp_all
  then show ?case by (simp add: extends_def)
qed (simp add: extends_def)

lemma flow_more_fuel: "flow ops g fuel e v = Some r \<Longrightarrow> fuel \<le> m \<Longrightarrow> flow ops g m e v = Some r"
proof (induction m)
  case (Suc m)
  then show ?case using flow_extends [of ops g m] by (cases "fuel = Suc m") (auto simp: extends_def simp del: flow.simps split_paired_All)
qed simp


lemma quotient_of_nat [simp]: "quotient_of (of_nat k) = (int k, 1)"
  by (metis of_int_of_nat_eq quotient_of_int Rat.of_int_def)

lemma branch_at_nat [simp]: "branch_at ws (Finite (of_nat k)) = elem_at ws k"
  by (simp add: branch_at_def)

lemma last_match_spec:
  assumes "\<And>t. t \<in> set ts \<Longrightarrow> is_ok (matchesByName reg t v)"
  shows "\<exists>x. last_match reg v k found ts = Inr x \<and>
    ((\<exists>us t vs. ts = us @ t # vs \<and> matchesByName reg t v = Inr True \<and> (\<forall>u \<in> set vs. matchesByName reg u v = Inr False) \<and> x = Some (k + length us)) \<or>
     (\<forall>t \<in> set ts. matchesByName reg t v = Inr False) \<and> x = found)"
  using assms
proof (induction ts arbitrary: k found)
  case (Cons t ts)
  obtain b where b: "matchesByName reg t v = Inr b" using Cons.prems [of t] by (auto simp: is_ok_iff)
  obtain x where x: "last_match reg v (Suc k) (if b then Some k else found) ts = Inr x"
    and "(\<exists>us t vs. ts = us @ t # vs \<and> matchesByName reg t v = Inr True \<and> (\<forall>u \<in> set vs. matchesByName reg u v = Inr False) \<and> x = Some (Suc k + length us)) \<or>
      (\<forall>t \<in> set ts. matchesByName reg t v = Inr False) \<and> x = (if b then Some k else found)"
    using Cons.IH [of "Suc k" "if b then Some k else found"] Cons.prems by auto
  then consider us u vs where "ts = us @ u # vs" "matchesByName reg u v = Inr True" "\<forall>u \<in> set vs. matchesByName reg u v = Inr False" "x = Some (Suc k + length us)"
    | "\<forall>t \<in> set ts. matchesByName reg t v = Inr False" "x = (if b then Some k else found)" by blast
  then show ?case
  proof cases
    case 1
    then have "t # ts = (t # us) @ u # vs" "x = Some (k + length (t # us))" by simp_all
    then have "\<exists>us t' vs. t # ts = us @ t' # vs \<and> matchesByName reg t' v = Inr True \<and> (\<forall>u \<in> set vs. matchesByName reg u v = Inr False) \<and> x = Some (k + length us)"
      using 1(2,3) by blast
    then show ?thesis using x b by simp
  next
    case 2
    show ?thesis
    proof (cases b)
      case True
      then have "t # ts = [] @ t # ts \<and> matchesByName reg t v = Inr True \<and> (\<forall>u \<in> set ts. matchesByName reg u v = Inr False) \<and> x = Some (k + length [])"
        using 2 b by simp
      then have "\<exists>us t' vs. t # ts = us @ t' # vs \<and> matchesByName reg t' v = Inr True \<and> (\<forall>u \<in> set vs. matchesByName reg u v = Inr False) \<and> x = Some (k + length us)"
        by blast
      then show ?thesis using x b by simp
    qed (use x b 2 in simp)
  qed
qed simp

lemma matches_asserts: "matchesByName (op_registry ops) t v = Inr True \<Longrightarrow> assert_value ops t v = None"
  by (auto simp: matchesByName_def assertByName_def assert_value_def split: option.splits sum.splits)

text \<open>\<open>whenIndex\<close> finds the only branch of that name, or throws.\<close>

lemma when_search_found: "when_search stringify n k (Some i) ws = Inr x \<longleftrightarrow> n \<notin> set ws \<and> x = Some i"
  by (induction ws arbitrary: k) auto

lemma when_search_unique:
  "when_search stringify n k None ws = Inr x \<longleftrightarrow>
     (case x of None \<Rightarrow> n \<notin> set ws | Some i \<Rightarrow> (\<exists>us vs. ws = us @ n # vs \<and> n \<notin> set us \<and> n \<notin> set vs \<and> i = k + length us))"
proof (induction ws arbitrary: k)
  case (Cons w ws)
  show ?case
  proof (cases "w = n")
    case True
    then show ?thesis by (auto simp: when_search_found Cons_eq_append_conv split: option.splits)
  next
    case False
    then show ?thesis using Cons.IH [of "Suc k"] by (auto simp: Cons_eq_append_conv split: option.splits) fastforce+
  qed
qed (auto split: option.splits)

lemma whenIndex_unique:
  "whenIndex stringify ws n = Inr i \<longleftrightarrow> n \<noteq> [] \<and> (\<exists>us vs. ws = us @ n # vs \<and> n \<notin> set us \<and> n \<notin> set vs \<and> i = length us)"
proof -
  have "whenIndex stringify ws n = Inr i \<longleftrightarrow> n \<noteq> [] \<and> when_search stringify n 0 None ws = Inr (Some i)"
    by (auto simp: whenIndex_def result_simps split: option.splits)
  then show ?thesis by (simp add: when_search_unique)
qed

section \<open>Messages in an assembled graph\<close>

text \<open>
  C26. A message comes to an end. In a graph that was assembled and built, whose loops all pass through a pool or a
  parallel call (somewhere: no loop consists of direct calls alone), a message at any entry causes finitely many direct calls, whatever the functions of the operators
  emit and however they fail: nested at most as deep as the graph has streams, and with one outcome.
\<close>

theorem flow_ends:
  assumes "assemble a empty_graph cs = Inr g" and "buildRuntimeStreams switch g = Inr h" and "loops_pooled h"
    and "entry_node e < length (graph_nodes h)"
  shows "\<exists>r. \<forall>fuel. length (graph_nodes h) < fuel \<longrightarrow> flow ops h fuel e v = Some r"
proof -
  obtain r where r: "flow ops h (Suc (length (graph_nodes h))) e v = Some r"
    using flow_enough [OF built(1) [OF assms(1,2)] assms(3,4) lessI] by blast
  show ?thesis using flow_more_fuel [OF r Suc_leI] by blast
qed

text \<open>
  C27. A split is a sequential dispatch. Its links are called in the order of the connections, the asynchronous ones
  before the others, each exactly once; chained promises or not, what happens and the outcome are those of
  calling one after the other, waiting for each, and stopping at the first failure.
\<close>

theorem split_dispatch_sequential:
  assumes "assemble a empty_graph cs = Inr g" and "buildRuntimeStreams switch g = Inr h"
    and "i < length (graph_nodes h)" and "is_split (graph_nodes h ! i)" and "flow ops h (Suc fuel) (NodeEntry i) v = Some r"
  shows "settled r =
    (let ls = node_links (graph_nodes h ! i); async = (\<lambda>k. is_async_link (ls ! k))
     in sequential (\<lambda>k. settled (the (emit (flow ops h fuel) (ls ! k) v)))
          (filter async [0..<length ls] @ filter (\<lambda>k. \<not> async k) [0..<length ls]))"
proof -
  let ?n = "graph_nodes h ! i"
  have body: "\<not> node_isError ?n" "stream_body (node_config ?n) = SplitBody" using assms(4) by (simp_all add: is_split_def)
  have "r = emitLinks (\<lambda>k. the (emit (flow ops h fuel) (node_links ?n ! k) v)) (dispatchOrder ?n)"
    using assms(5) body by (auto simp: consume_defs Let_def all_calls_def split: if_splits)
  then show ?thesis using built(2) [OF assms(1-3)] assms(4) by (simp add: emitLinks_sequential ready_def Let_def)
qed

text \<open>
  C28. The default selector of a case. A message goes to the last branch whose type it has, and is not rejected there;
  when it has none of the types, the case throws and calls nothing.
\<close>

theorem default_case_dispatch:
  assumes "assemble a empty_graph cs = Inr g" and "buildRuntimeStreams switch g = Inr h"
    and "i < length (graph_nodes h)" and "is_case (graph_nodes h ! i)" and "fn_selector ops i = defaultBuildSwitch ops h i"
    and "\<forall>w \<in> set (whenStreams (graph_nodes h ! i)). is_ok (matchesByName (op_registry ops) (when_type h w) v)"
    and "flow ops h (Suc fuel) (NodeEntry i) v = Some r"
  shows "let ws = whenStreams (graph_nodes h ! i); has = (\<lambda>w. matchesByName (op_registry ops) (when_type h w) v)
    in (\<exists>us w vs. ws = us @ w # vs \<and> has w = Inr True \<and> (\<forall>u \<in> set vs. has u = Inr False) \<and>
          emit (flow ops h fuel) (node_consumer (graph_nodes h ! w)) v = Some r) \<or>
       (\<forall>w \<in> set ws. has w = Inr False) \<and>
         r = ([], Throws (op_throw ops ''TypeError'' (''unknown value type in case switch for stream '' @ stream_name h i)))"
proof -
  let ?n = "graph_nodes h ! i" and ?has = "\<lambda>w. matchesByName (op_registry ops) (when_type h w) v"
  let ?ws = "whenStreams ?n"
  have c: "consumeCase ops h i (emit (flow ops h fuel)) v = Some r" and b: "selectorBuilt ?n"
    using assms(4,7) built(2) [OF assms(1-3)] by (auto simp: consume_defs is_case_def ready_def Let_def split: stream_body.splits)
  obtain x where m: "last_match (op_registry ops) v 0 None (map (when_type h) ?ws) = Inr x"
    and x: "(\<exists>us t vs. map (when_type h) ?ws = us @ t # vs \<and> matchesByName (op_registry ops) t v = Inr True \<and>
          (\<forall>u \<in> set vs. matchesByName (op_registry ops) u v = Inr False) \<and> x = Some (length us)) \<or> (\<forall>w \<in> set ?ws. ?has w = Inr False) \<and> x = None"
  proof -
    have "is_ok (matchesByName (op_registry ops) t v)" if "t \<in> set (map (when_type h) ?ws)" for t using that assms(6) by auto
    from last_match_spec [OF this, of "map (when_type h) ?ws" 0 None] show thesis using that by auto
  qed
  show ?thesis
  proof (cases x)
    case None
    then show ?thesis using x m c b assms(5) by (auto simp: consumeCase_def Let_def defaultBuildSwitch_def)
  next
    case (Some k)
    then obtain us w vs where ws: "?ws = us @ w # vs" "?has w = Inr True" "\<forall>u \<in> set vs. ?has u = Inr False" "k = length us"
      using x by (auto simp: map_eq_append_conv map_eq_Cons_conv)
    have "well_placed (graph_nodes h) i ?n" using built(1) [OF assms(1,2)] assms(3) by (simp add: flow_inv_def)
    then have "body_type (stream_body (node_config (graph_nodes h ! w))) = TWhen" by (simp add: well_placed_def branches_def ws(1))
    then obtain t where t: "stream_body (node_config (graph_nodes h ! w)) = WhenBody t"
      by (cases "stream_body (node_config (graph_nodes h ! w))") simp_all
    have "assert_value ops t v = None" using ws(2) matches_asserts by (simp add: when_type_def t)
    then have "emit (flow ops h fuel) (node_consumer (graph_nodes h ! w)) v = Some r"
      using c b m Some assms(5) ws(1,4) t by (simp add: consumeCase_def defaultBuildSwitch_def when_consumeCase_def elem_at_def Let_def)
    then show ?thesis using ws by (auto simp: Let_def)
  qed
qed


section \<open>A routed loop\<close>

text \<open>
  A cycle link, a case with two branches for the same type, a split after the second branch, a filter, and a merge
  that feeds back through a parallel call.
\<close>

definition route_streams :: "StreamConfig list" where
  "route_streams =
     [tiny_stream 20 ''loop'' 26 CycleLinkBody, tiny_stream 21 ''case'' 20 (CaseBody tiny_function), tiny_stream 22 ''first'' 21 (WhenBody ''flag''),
      tiny_stream 23 ''second'' 21 (WhenBody ''flag''), tiny_stream 24 ''split'' 23 SplitBody,
      tiny_stream 25 ''odd'' 24 (FilterBody tiny_function), (tiny_stream 26 ''all'' 0 MergeBody)\<lparr>idSources := [22, 24, 25]\<rparr>]"

definition route_assembly :: assembly where
  "route_assembly = loop_assembly\<lparr>asm_config := indexed (loop_config\<lparr>streams := route_streams,
     links := [\<lparr>link_from = 24, link_to = 26, callSemantics = Some ParallelCall, link_properties = []\<rparr>,
               \<lparr>link_from = 26, link_to = 20, callSemantics = Some ParallelCall, link_properties = []\<rparr>]\<rparr>)\<rparr>"

definition route_calls :: "build_call list" where
  "route_calls =
     [MakeLink (route_streams ! 0), MakeCase (route_streams ! 1) (NodeSource 0), MakeWhen (route_streams ! 2) 1, MakeWhen (route_streams ! 3) 1,
      MakeSplit (route_streams ! 4) (NodeSource 3), AddSplitLink 4, AddSplitLink 4, MakeFilter (route_streams ! 5) (LinkSource 4 0),
      MakeMerge (route_streams ! 6) [NodeSource 2, NodeSource 5, LinkSource 4 1], SetLinkSource 0 (NodeSource 6)]"

definition route_assembled :: graph where
  "route_assembled = (case assemble route_assembly empty_graph route_calls of Inl e \<Rightarrow> empty_graph | Inr g \<Rightarrow> g)"

definition route_graph :: graph where
  "route_graph = (case buildRuntimeStreams (\<lambda>_. None) route_assembled of Inl e \<Rightarrow> empty_graph | Inr g \<Rightarrow> g)"

definition route_operators :: operators where
  "route_operators =
     \<lparr>fn_script = (\<lambda>_ _. Return None), fn_filter = (\<lambda>_ v. Inr (v = DBool True)), fn_duration = (\<lambda>_ _. Inr 0), fn_durable = (\<lambda>_ _. Inr False),
      fn_schedule = (\<lambda>_ _. None), fn_delayError = (\<lambda>_ _ _. Return None), fn_selector = (\<lambda>_ _. Inr NaN), sink_consumer = (\<lambda>_. None),
      result_consumer = (\<lambda>_. None), join_outcome = (\<lambda>_ _ _. None), op_registry = flag_registry, op_error = 0, op_number = (\<lambda>_. [])\<rparr>"

definition route_selected :: operators where
  "route_selected = route_operators\<lparr>fn_selector := defaultBuildSwitch route_operators route_graph\<rparr>"

lemma route_ok:
  "assemble route_assembly empty_graph route_calls = Inr route_assembled" "buildRuntimeStreams (\<lambda>_. None) route_assembled = Inr route_graph"
proof -
  have "is_ok (assemble route_assembly empty_graph route_calls)" "is_ok (buildRuntimeStreams (\<lambda>_. None) route_assembled)" by code_simp+
  then show "assemble route_assembly empty_graph route_calls = Inr route_assembled" "buildRuntimeStreams (\<lambda>_. None) route_assembled = Inr route_graph"
    by (auto simp: route_assembled_def route_graph_def is_ok_iff)
qed

lemma route_pooled: "loops_pooled route_graph" "length (graph_nodes route_graph) = 7"
proof -
  have "cycles_pooled route_graph" by code_simp
  then show "loops_pooled route_graph" by (rule cycles_pooled_loops [OF built(1) [OF route_ok]])
qed code_simp

lemma route_nodes:
  "is_split (graph_nodes route_graph ! 4)" "is_case (graph_nodes route_graph ! 1)" "whenStreams (graph_nodes route_graph ! 1) = [2, 3]"
  "length (node_links (graph_nodes route_graph ! 4)) = 2" "is_async_link (node_links (graph_nodes route_graph ! 4) ! 1)"
  "\<not> is_async_link (node_links (graph_nodes route_graph ! 4) ! 0)" "map (when_type route_graph) [2, 3] = [''flag'', ''flag'']"
  by code_simp+


lemma route_flows: "\<exists>r. flow ops route_graph (Suc (Suc (Suc (Suc (Suc (Suc (Suc (Suc (Suc 0))))))))) (NodeEntry i) v = Some r" if "i < 7"
  using flow_enough [OF built(1) [OF route_ok] route_pooled(1)] route_pooled(2) that by (auto simp del: flow.simps)

lemma defaultBuildSwitch_selector [simp]: "defaultBuildSwitch (ops\<lparr>fn_selector := f\<rparr>) = defaultBuildSwitch ops"
  by (simp add: fun_eq_iff defaultBuildSwitch_def op_throw_def split: sum.split option.split)

lemma route_matches: "matchesByName flag_registry ''flag'' (DBool True) = Inr True"
  by code_simp

theorem flow_ends_witness: "\<exists>r. flow route_selected route_graph 8 (NodeEntry 0) (DBool True) = Some r"
  using flow_ends [OF route_ok route_pooled(1), of "NodeEntry 0" route_selected "DBool True"] route_pooled(2) by (auto simp del: flow.simps)

theorem split_dispatch_sequential_witness:
  "\<exists>r. flow route_selected route_graph (Suc 8) (NodeEntry 4) (DBool True) = Some r \<and>
     settled r = sequential (\<lambda>k. settled (the (emit (flow route_selected route_graph 8) (node_links (graph_nodes route_graph ! 4) ! k) (DBool True)))) [1, 0]"
proof -
  obtain r where r: "flow route_selected route_graph (Suc 8) (NodeEntry 4) (DBool True) = Some r"
    using route_flows [of 4 route_selected "DBool True"] by (auto simp: eval_nat_numeral simp del: flow.simps)
  have "[0..<2] = [0, Suc 0]" by (simp add: upt_conv_Cons)
  then show ?thesis
    using split_dispatch_sequential [OF route_ok _ route_nodes(1) r] route_pooled(2) route_nodes(4-6) r by (simp add: Let_def del: flow.simps)
qed

theorem default_case_dispatch_witness:
  "flow route_selected route_graph (Suc 8) (NodeEntry 1) (DBool True) =
     emit (flow route_selected route_graph 8) (node_consumer (graph_nodes route_graph ! 3)) (DBool True)"
proof -
  obtain r where r: "flow route_selected route_graph (Suc 8) (NodeEntry 1) (DBool True) = Some r"
    using route_flows [of 1 route_selected "DBool True"] by (auto simp: eval_nat_numeral simp del: flow.simps)
  have sel: "fn_selector route_selected 1 = defaultBuildSwitch route_selected route_graph 1" by (simp add: route_selected_def)
  have reg: "op_registry route_selected = flag_registry" by (simp add: route_selected_def route_operators_def)
  have m: "matchesByName flag_registry (when_type route_graph w) (DBool True) = Inr True" if "w = 2 \<or> w = 3" for w
    using that route_nodes(7) route_matches by auto
  have "\<exists>us w vs. [2, 3] = us @ w # vs \<and> (\<forall>u \<in> set vs. matchesByName flag_registry (when_type route_graph u) (DBool True) = Inr False) \<and>
      emit (flow route_selected route_graph 8) (node_consumer (graph_nodes route_graph ! w)) (DBool True) = Some r"
    using default_case_dispatch [OF route_ok _ route_nodes(2) sel _ r] route_pooled(2) route_nodes(3) reg m
    by (auto simp: Let_def simp del: flow.simps)
  then show ?thesis using m r by (auto simp: Cons_eq_append_conv simp del: flow.simps)
qed

end
