(* ===== verification/CustomSource.thy ===== *)
theory CustomSource
  imports RuntimeContext
begin

text \<open>
  The custom data source of \<open>src/datasource/localsource/custom.ts\<close>: messages of a producer are requests that wait for a
  slot, are given to the handler and, when the graph answers, wait for results that are matched to them by their stream
  id. Each await of the code ends a step; what the handler, its callbacks and the signals do between them are events,
  in any order. The store of pending requests is a rotating map, which answers as a plain map; metrics are enabled,
  spans and log lines are left out. A second \<open>start\<close>, and a result that arrives before the first, reject their caller and change
  nothing. The clock stands for \<open>Date.now()\<close> here.
\<close>

section \<open>Results of a request\<close>

record custom_result =
  res_callbacks :: "(string, nat) jsmap"
  res_completed :: bool
  res_retiring :: bool
  res_activeCallbacks :: int

definition result_new :: custom_result where
  "result_new = \<lparr>res_callbacks = [], res_completed = False, res_retiring = False, res_activeCallbacks = 0\<rparr>"

definition setResultCallback :: "custom_result \<Rightarrow> string \<Rightarrow> nat \<Rightarrow> custom_result" where
  "setResultCallback r m cb = r\<lparr>res_callbacks := jm_set (res_callbacks r) m cb\<rparr>"

definition result_callback :: "custom_result \<Rightarrow> string \<Rightarrow> nat option" where
  "result_callback r m = jm_get (res_callbacks r) m"

definition result_remove :: "custom_result \<Rightarrow> string \<Rightarrow> nat \<Rightarrow> custom_result \<times> bool" where
  "result_remove r m cb =
     (if jm_get (res_callbacks r) m \<noteq> Some cb then (r, False) else (r\<lparr>res_callbacks := jm_delete (res_callbacks r) m\<rparr>, True))"

definition result_done :: "custom_result \<Rightarrow> custom_result" where
  "result_done r = r\<lparr>res_completed := True\<rparr>"

definition beginCallback :: "custom_result \<Rightarrow> custom_result option" where
  "beginCallback r = (if res_retiring r then None else Some (r\<lparr>res_activeCallbacks := res_activeCallbacks r + 1\<rparr>))"

text \<open>The second value: a waiting \<open>retire\<close> is released.\<close>

definition endCallback :: "custom_result \<Rightarrow> custom_result \<times> bool" where
  "endCallback r =
     (let r1 = r\<lparr>res_activeCallbacks := res_activeCallbacks r - 1\<rparr> in (r1, res_retiring r1 \<and> res_activeCallbacks r1 = 0))"

text \<open>The second value: what \<open>retire\<close> answers when it does not have to wait.\<close>

definition result_retire :: "custom_result \<Rightarrow> custom_result \<times> bool option" where
  "result_retire r =
     (let r1 = r\<lparr>res_retiring := True\<rparr> in (r1, if res_activeCallbacks r1 \<noteq> 0 then None else Some (res_completed r1)))"

section \<open>Requests\<close>

text \<open>
  Where a request is. \<open>AwaitingResult\<close> carries the outcome of the race in \<open>waitForResult\<close> once it is decided,
  \<open>Retired\<close> the answer of \<open>retire\<close>, \<open>RequestEnded\<close> and \<open>Finished\<close> what the request is rejected with.
\<close>

datatype req_phase =
    AcquireWaiting | AcquireWoken | Acquired | Beginning | Consuming | AwaitingResult "thrown option option"
  | RetireWaiting | RetireReleased | Retired bool | Ending | EndingUnregistered | RequestEnded "thrown option" | Finished "thrown option"

text \<open>
  \<open>rq_taskAbort\<close> is the reason of the aborted signal of the task, \<open>rq_contextAbort\<close> that of the context that the handler
  returned; \<open>rq_follows\<close>: the second signal aborts with the first. \<open>rq_began\<close>: \<open>beginRequest\<close> has returned.
\<close>

record source_request =
  rq_phase :: req_phase
  rq_taskAbort :: "thrown option"
  rq_contextAbort :: "thrown option"
  rq_follows :: bool
  rq_began :: bool
  rq_streamId :: string
  rq_failure :: "thrown option"
  rq_waitFailed :: bool
  rq_result :: custom_result

definition request_new :: "thrown option \<Rightarrow> source_request" where
  "request_new aborted =
     \<lparr>rq_phase = AcquireWoken, rq_taskAbort = aborted, rq_contextAbort = None, rq_follows = True, rq_began = False, rq_streamId = [],
      rq_failure = None, rq_waitFailed = False, rq_result = result_new\<rparr>"

text \<open>\<open>DataSourceEndpointMetrics\<close> with the start times of the pending requests.\<close>

record endpoint_metrics =
  pendingRequests :: int
  activeRequests :: int
  missingStreamId :: nat
  lateResult :: nat
  unknownMessageId :: nat
  duplicateMessageId :: nat
  beginRequestFailed :: nat
  requestErrors :: nat
  messagesTotal :: nat
  pendingStarted :: "(string, millis) jsmap"

definition metrics_new :: endpoint_metrics where
  "metrics_new = \<lparr>pendingRequests = 0, activeRequests = 0, missingStreamId = 0, lateResult = 0, unknownMessageId = 0, duplicateMessageId = 0,
     beginRequestFailed = 0, requestErrors = 0, messagesTotal = 0, pendingStarted = []\<rparr>"

definition onPendingAdd :: "millis \<Rightarrow> string \<Rightarrow> endpoint_metrics \<Rightarrow> endpoint_metrics" where
  "onPendingAdd now sid m = m\<lparr>pendingRequests := pendingRequests m + 1, pendingStarted := jm_set (pendingStarted m) sid now\<rparr>"

definition onPendingRemove :: "string \<Rightarrow> endpoint_metrics \<Rightarrow> endpoint_metrics" where
  "onPendingRemove sid m = m\<lparr>pendingRequests := pendingRequests m - 1, pendingStarted := jm_delete (pendingStarted m) sid\<rparr>"

definition onRequestStart :: "endpoint_metrics \<Rightarrow> endpoint_metrics" where
  "onRequestStart m = m\<lparr>activeRequests := activeRequests m + 1\<rparr>"

definition onRequestEnd :: "thrown option \<Rightarrow> endpoint_metrics \<Rightarrow> endpoint_metrics" where
  "onRequestEnd failure m =
     (let m1 = m\<lparr>activeRequests := activeRequests m - 1\<rparr>
      in if failure = None then m1\<lparr>messagesTotal := messagesTotal m1 + 1\<rparr> else m1\<lparr>requestErrors := requestErrors m1 + 1\<rparr>)"

definition oldestPendingAge :: "millis \<Rightarrow> endpoint_metrics \<Rightarrow> rat" where
  "oldestPendingAge now m =
     (case map snd (pendingStarted m) of [] \<Rightarrow> 0 | t # ts \<Rightarrow> (now - fold min ts t) / 1000)"

section \<open>The consumer of the endpoint\<close>

text \<open>What the handler is called with, in order; a callback call has the identity of its promise.\<close>

datatype handler_call =
    BeginCalled nat | ConsumeCalled nat | EndCalled nat "thrown option" | CallbackCalled nat nat nat

datatype stop_call = StopWaiting nat | StopDone | StopFailed

record custom_source =
  cs_name :: string
  cs_hasResult :: bool
  cs_started :: bool
  cs_stopped :: bool
  cs_pending :: "(string, nat) jsmap option"
  cs_active :: int
  cs_waiters :: "nat list"
  cs_requests :: "source_request list"
  cs_running :: "(nat \<times> string \<times> nat) option list"
  cs_stops :: "stop_call list"
  cs_handlerCalls :: "handler_call list"
  cs_metrics :: endpoint_metrics

definition source_new :: "string \<Rightarrow> bool \<Rightarrow> custom_source" where
  "source_new n has_result =
     \<lparr>cs_name = n, cs_hasResult = has_result, cs_started = False, cs_stopped = False, cs_pending = None, cs_active = 0, cs_waiters = [], cs_requests = [],
      cs_running = [], cs_stops = [], cs_handlerCalls = [], cs_metrics = metrics_new\<rparr>"

definition on_req :: "nat \<Rightarrow> (source_request \<Rightarrow> source_request) \<Rightarrow> custom_source \<Rightarrow> custom_source" where
  "on_req i f s = s\<lparr>cs_requests := (cs_requests s)[i := f (cs_requests s ! i)]\<rparr>"

definition to_phase :: "nat \<Rightarrow> req_phase \<Rightarrow> custom_source \<Rightarrow> custom_source" where
  "to_phase i p s = on_req i (\<lambda>r. r\<lparr>rq_phase := p\<rparr>) s"

definition log_call :: "handler_call \<Rightarrow> custom_source \<Rightarrow> custom_source" where
  "log_call c s = s\<lparr>cs_handlerCalls := cs_handlerCalls s @ [c]\<rparr>"

definition meter :: "(endpoint_metrics \<Rightarrow> endpoint_metrics) \<Rightarrow> custom_source \<Rightarrow> custom_source" where
  "meter f s = s\<lparr>cs_metrics := f (cs_metrics s)\<rparr>"

subsection \<open>Slots\<close>

text \<open>One turn of the loop of \<open>acquire\<close>; \<open>c\<close> is what \<open>concurrency\<close> returns. A \<open>concurrency\<close> that throws ends the request
  as an answer out of range does, with its own error.\<close>

definition acquire_turn :: "world \<Rightarrow> number \<Rightarrow> nat \<Rightarrow> custom_source \<Rightarrow> custom_source" where
  "acquire_turn w c i s =
     (case rq_taskAbort (cs_requests s ! i) of
        Some e \<Rightarrow> to_phase i (Finished (Some (errorFromUnknown (next_error w) e))) s
      | None \<Rightarrow>
          if cs_stopped s then to_phase i (Finished (Some (ErrorObj (next_error w) ''Error'' ''custom endpoint stopped''))) s
          else if num_less c (Finite 0) \<or> \<not> is_safe_integer c
          then to_phase i (Finished (Some (ErrorObj (next_error w) ''RangeError'' ''custom endpoint concurrency must be a non-negative safe integer''))) s
          else if c = Finite 0 \<or> num_less (Finite (of_int (cs_active s))) c
          then to_phase i Acquired (s\<lparr>cs_active := cs_active s + 1\<rparr>)
          else to_phase i AcquireWaiting (s\<lparr>cs_waiters := cs_waiters s @ [i]\<rparr>))"

text \<open>The end of \<open>handleOnce\<close>: the slot is given back and the first waiter is woken.\<close>

definition release_slot :: "custom_source \<Rightarrow> custom_source" where
  "release_slot s =
     (let s1 = s\<lparr>cs_active := cs_active s - 1\<rparr>
      in case cs_waiters s1 of [] \<Rightarrow> s1 | i # is \<Rightarrow> to_phase i AcquireWoken (s1\<lparr>cs_waiters := is\<rparr>))"

definition handle_message :: "world \<Rightarrow> number \<Rightarrow> thrown option \<Rightarrow> custom_source \<Rightarrow> custom_source" where
  "handle_message w c aborted s =
     (if \<not> cs_started s \<or> cs_stopped s then s
      else acquire_turn w c (length (cs_requests s)) (s\<lparr>cs_requests := cs_requests s @ [request_new aborted]\<rparr>))"

subsection \<open>Signals\<close>

definition abort_context :: "world \<Rightarrow> thrown \<Rightarrow> source_request \<Rightarrow> source_request" where
  "abort_context w why r =
     (if rq_contextAbort r \<noteq> None then r
      else (let r1 = r\<lparr>rq_contextAbort := Some why\<rparr>
            in if rq_phase r1 = AwaitingResult None
               then r1\<lparr>rq_phase := AwaitingResult (Some (Some (errorFromUnknown (next_error w) why)))\<rparr> else r1))"

definition abort_task :: "world \<Rightarrow> thrown \<Rightarrow> source_request \<Rightarrow> source_request" where
  "abort_task w why r =
     (if rq_taskAbort r \<noteq> None then r
      else (let r1 = r\<lparr>rq_taskAbort := Some why\<rparr> in if rq_follows r1 then abort_context w why r1 else r1))"

subsection \<open>The steps of a request\<close>

text \<open>\<open>retire\<close> is called.\<close>

definition begin_retire :: "nat \<Rightarrow> custom_source \<Rightarrow> custom_source" where
  "begin_retire i s =
     (case result_retire (rq_result (cs_requests s ! i)) of
        (res, answer) \<Rightarrow>
          on_req i (\<lambda>r. r\<lparr>rq_result := res, rq_phase := (case answer of None \<Rightarrow> RetireWaiting | Some b \<Rightarrow> Retired b)\<rparr>) s)"

definition call_end :: "nat \<Rightarrow> thrown option \<Rightarrow> req_phase \<Rightarrow> custom_source \<Rightarrow> custom_source" where
  "call_end i failure p s = log_call (EndCalled i failure) (on_req i (\<lambda>r. r\<lparr>rq_failure := failure, rq_phase := p\<rparr>) s)"

text \<open>\<open>beginRequest\<close> has returned: the stream id, the context and a new result.\<close>

definition begun :: "string \<Rightarrow> bool \<Rightarrow> thrown option \<Rightarrow> source_request \<Rightarrow> source_request" where
  "begun sid follows a r = r\<lparr>rq_phase := Consuming, rq_began := True, rq_streamId := sid, rq_follows := follows, rq_result := result_new,
     rq_contextAbort := (if follows \<and> rq_taskAbort r \<noteq> None then rq_taskAbort r else a)\<rparr>"

definition begin_settles :: "world \<Rightarrow> nat \<Rightarrow> thrown + string \<times> bool \<times> thrown option \<Rightarrow> custom_source \<Rightarrow> custom_source" where
  "begin_settles w i outcome s =
     (case outcome of
        Inl e \<Rightarrow> to_phase i (RequestEnded None) (meter (\<lambda>m. m\<lparr>beginRequestFailed := beginRequestFailed m + 1\<rparr>) s)
      | Inr (sid, follows, aborted) \<Rightarrow>
          (let s1 = meter onRequestStart (on_req i (begun sid follows aborted) s)
           in case (cs_hasResult s, cs_pending s) of
                (False, _) \<Rightarrow> log_call (ConsumeCalled i) s1
              | (True, Some m) \<Rightarrow>
                  log_call (ConsumeCalled i) (meter (onPendingAdd (clock w) sid) (s1\<lparr>cs_pending := Some (jm_set m sid i)\<rparr>))
              | (True, None) \<Rightarrow>
                  call_end i (Some (ErrorObj (next_error w) ''Error'' (''custom endpoint '' @ cs_name s @ '' pending store is not started'')))
                    EndingUnregistered s1))"

definition consume_settles :: "world \<Rightarrow> nat \<Rightarrow> thrown option \<Rightarrow> custom_source \<Rightarrow> custom_source" where
  "consume_settles w i outcome s =
     (let r = cs_requests s ! i; failure = map_option (errorFromUnknown (next_error w)) outcome
      in if \<not> cs_hasResult s then call_end i failure Ending s
         else if failure \<noteq> None then begin_retire i (on_req i (\<lambda>r. r\<lparr>rq_failure := failure\<rparr>) s)
         else to_phase i (AwaitingResult
                (case rq_contextAbort r of
                   Some why \<Rightarrow> Some (Some (errorFromUnknown (next_error w) why))
                 | None \<Rightarrow> if res_completed (rq_result r) then Some None else None)) s)"

text \<open>The code goes on after an await whose promise is settled.\<close>

definition resume_request :: "world \<Rightarrow> nat \<Rightarrow> custom_source \<Rightarrow> custom_source" where
  "resume_request w i s =
     (let r = cs_requests s ! i
      in case rq_phase r of
           Acquired \<Rightarrow> log_call (BeginCalled i) (to_phase i Beginning s)
         | AwaitingResult (Some failure) \<Rightarrow>
             begin_retire i (on_req i (\<lambda>r. r\<lparr>rq_failure := failure, rq_waitFailed := failure \<noteq> None\<rparr>) s)
         | RetireReleased \<Rightarrow> to_phase i (Retired (res_completed (rq_result r))) s
         | Retired completed \<Rightarrow>
             call_end i (if rq_waitFailed r \<and> completed then None else rq_failure r) Ending
               (meter (onPendingRemove (rq_streamId r)) (s\<lparr>cs_pending := map_option (\<lambda>m. jm_delete m (rq_streamId r)) (cs_pending s)\<rparr>))
         | RequestEnded rejection \<Rightarrow> release_slot (to_phase i (Finished rejection) s)
         | _ \<Rightarrow> s)"

definition end_settles :: "world \<Rightarrow> nat \<Rightarrow> thrown option \<Rightarrow> custom_source \<Rightarrow> custom_source" where
  "end_settles w i outcome s =
     (let r = cs_requests s ! i; rejected = map_option (errorFromUnknown (next_error w)) outcome
      in if rq_phase r = EndingUnregistered
         then (case outcome of None \<Rightarrow> to_phase i (RequestEnded None) (meter (onRequestEnd (rq_failure r)) s) | Some e \<Rightarrow> to_phase i (RequestEnded (Some e)) s)
         else (let failure = (if rq_failure r \<noteq> None then rq_failure r else rejected)
               in to_phase i (RequestEnded None) (meter (onRequestEnd failure) (on_req i (\<lambda>r. r\<lparr>rq_failure := failure\<rparr>) s))))"

subsection \<open>Results of the graph\<close>

definition end_callback :: "nat \<Rightarrow> custom_source \<Rightarrow> custom_source" where
  "end_callback i s =
     on_req i (\<lambda>r. case endCallback (rq_result r) of
       (res, released) \<Rightarrow> r\<lparr>rq_result := res, rq_phase := (if released \<and> rq_phase r = RetireWaiting then RetireReleased else rq_phase r)\<rparr>) s"

text \<open>\<open>consumeResult\<close> up to the call of the callback; \<open>mid\<close> is what \<open>getMessageId\<close> returns or throws.\<close>

definition consume_result :: "string option \<Rightarrow> thrown + string \<Rightarrow> custom_source \<Rightarrow> custom_source" where
  "consume_result sid mid s =
     (case (sid, cs_pending s) of
        (None, _) \<Rightarrow> meter (\<lambda>m. m\<lparr>missingStreamId := missingStreamId m + 1\<rparr>) s
      | (Some k, None) \<Rightarrow> s
      | (Some k, Some m) \<Rightarrow>
          (let late = meter (\<lambda>m. m\<lparr>lateResult := lateResult m + 1\<rparr>) s
           in case jm_get m k of
                None \<Rightarrow> late
              | Some i \<Rightarrow>
                  (case beginCallback (rq_result (cs_requests s ! i)) of
                     None \<Rightarrow> late
                   | Some res \<Rightarrow>
                       (let s1 = on_req i (\<lambda>r. r\<lparr>rq_result := res\<rparr>) s
                        in case mid of
                             Inl e \<Rightarrow> end_callback i s1
                           | Inr x \<Rightarrow>
                               (case result_callback res x of
                                  None \<Rightarrow> end_callback i (meter (\<lambda>m. m\<lparr>unknownMessageId := unknownMessageId m + 1\<rparr>) s1)
                                | Some cb \<Rightarrow>
                                    log_call (CallbackCalled i cb (length (cs_running s1))) (s1\<lparr>cs_running := cs_running s1 @ [Some (i, x, cb)]\<rparr>))))))"

definition result_callback_settles :: "nat \<Rightarrow> thrown + bool \<Rightarrow> custom_source \<Rightarrow> custom_source" where
  "result_callback_settles k outcome s =
     (case elem_at (cs_running s) k of
        Some (Some (i, x, cb)) \<Rightarrow>
          (let s1 = s\<lparr>cs_running := (cs_running s)[k := None]\<rparr>;
               s2 = (if outcome = Inr True
                     then (case result_remove (rq_result (cs_requests s1 ! i)) x cb of
                             (res, True) \<Rightarrow> on_req i (\<lambda>r. r\<lparr>rq_result := res\<rparr>) s1
                           | (res, False) \<Rightarrow> meter (\<lambda>m. m\<lparr>duplicateMessageId := duplicateMessageId m + 1\<rparr>) s1)
                     else s1)
           in end_callback i s2)
      | _ \<Rightarrow> s)"

text \<open>\<open>done\<close> decides the race of \<open>waitForResult\<close> unless an abort came first.\<close>

definition call_done :: "source_request \<Rightarrow> source_request" where
  "call_done r =
     r\<lparr>rq_result := result_done (rq_result r),
       rq_phase := (if rq_phase r = AwaitingResult None then AwaitingResult (Some None) else rq_phase r)\<rparr>"

subsection \<open>Start and stop\<close>

definition source_start :: "custom_source \<Rightarrow> custom_source" where
  "source_start s =
     (if cs_started s then s
      else s\<lparr>cs_started := True, cs_stopped := False, cs_pending := (if cs_hasResult s then Some [] else cs_pending s)\<rparr>)"

text \<open>Every waiter is woken and every task is aborted; then the tasks of the moment are waited for.\<close>

fun unfinished :: "req_phase \<Rightarrow> bool" where
  "unfinished (Finished e) = False"
| "unfinished _ = True"

definition stop_request :: "world \<Rightarrow> thrown \<Rightarrow> nat list \<Rightarrow> nat \<Rightarrow> source_request \<Rightarrow> source_request" where
  "stop_request w why waiters i r =
     (let r1 = (if i \<in> set waiters then r\<lparr>rq_phase := AcquireWoken\<rparr> else r) in if unfinished (rq_phase r1) then abort_task w why r1 else r1)"

definition source_stop :: "world \<Rightarrow> thrown \<Rightarrow> custom_source \<Rightarrow> custom_source" where
  "source_stop w why s =
     (if \<not> cs_started s then s\<lparr>cs_stops := cs_stops s @ [StopDone]\<rparr>
      else s\<lparr>cs_stopped := True, cs_waiters := [],
             cs_requests := map (\<lambda>i. stop_request w why (cs_waiters s) i (cs_requests s ! i)) [0..<length (cs_requests s)],
             cs_stops := cs_stops s @ [StopWaiting (length (cs_requests s))]\<rparr>)"

definition stop_drained :: "nat \<Rightarrow> custom_source \<Rightarrow> custom_source" where
  "stop_drained k s =
     (case elem_at (cs_stops s) k of
        Some (StopWaiting n) \<Rightarrow>
          if list_all (\<lambda>r. \<not> unfinished (rq_phase r)) (take n (cs_requests s))
          then s\<lparr>cs_stops := (cs_stops s)[k := StopDone], cs_started := False\<rparr> else s
      | _ \<Rightarrow> s)"

definition source_stop_timed_out :: "nat \<Rightarrow> custom_source \<Rightarrow> custom_source" where
  "source_stop_timed_out k s =
     (case elem_at (cs_stops s) k of Some (StopWaiting n) \<Rightarrow> s\<lparr>cs_stops := (cs_stops s)[k := StopFailed]\<rparr> | _ \<Rightarrow> s)"

section \<open>Runs\<close>

datatype source_event =
    SourceStart | SourceStop thrown | StopDrained nat | StopTimedOut nat
  | MessageArrives number "thrown option" | WaiterTurn nat number | Resumes nat
  | BeginSettles nat "thrown + string \<times> bool \<times> thrown option" | ConsumeSettles nat "thrown option" | EndSettles nat "thrown option"
  | SetCallback nat string nat | DoneCalled nat | TaskAborts nat thrown | ContextAborts nat thrown
  | ResultArrives "string option" "thrown + string" | ResultCallbackSettles nat "thrown + bool"

text \<open>An event that names a request happens only in the phase it belongs to.\<close>

definition at_phase :: "custom_source \<Rightarrow> nat \<Rightarrow> (req_phase \<Rightarrow> bool) \<Rightarrow> bool" where
  "at_phase s i P \<longleftrightarrow> i < length (cs_requests s) \<and> P (rq_phase (cs_requests s ! i))"

fun source_step :: "world \<Rightarrow> source_event \<Rightarrow> custom_source \<Rightarrow> custom_source" where
  "source_step w SourceStart s = source_start s"
| "source_step w (SourceStop why) s = source_stop w why s"
| "source_step w (StopDrained k) s = stop_drained k s"
| "source_step w (StopTimedOut k) s = source_stop_timed_out k s"
| "source_step w (MessageArrives c aborted) s = handle_message w c aborted s"
| "source_step w (WaiterTurn i c) s = (if at_phase s i (\<lambda>p. p = AcquireWoken) then acquire_turn w c i s else s)"
| "source_step w (Resumes i) s = (if i < length (cs_requests s) then resume_request w i s else s)"
| "source_step w (BeginSettles i r) s = (if at_phase s i (\<lambda>p. p = Beginning) then begin_settles w i r s else s)"
| "source_step w (ConsumeSettles i r) s = (if at_phase s i (\<lambda>p. p = Consuming) then consume_settles w i r s else s)"
| "source_step w (EndSettles i r) s = (if at_phase s i (\<lambda>p. p = Ending \<or> p = EndingUnregistered) then end_settles w i r s else s)"
| "source_step w (SetCallback i m cb) s =
     (if i < length (cs_requests s) then on_req i (\<lambda>r. r\<lparr>rq_result := setResultCallback (rq_result r) m cb\<rparr>) s else s)"
| "source_step w (DoneCalled i) s = (if i < length (cs_requests s) then on_req i call_done s else s)"
| "source_step w (TaskAborts i why) s = (if at_phase s i unfinished then on_req i (abort_task w why) s else s)"
| "source_step w (ContextAborts i why) s = (if i < length (cs_requests s) then on_req i (abort_context w why) s else s)"
| "source_step w (ResultArrives sid mid) s = consume_result sid mid s"
| "source_step w (ResultCallbackSettles k r) s = result_callback_settles k r s"

definition source_run :: "custom_source \<Rightarrow> (world \<times> source_event) list \<Rightarrow> custom_source" where
  "source_run s es = fold (\<lambda>(w, e). source_step w e) es s"


section \<open>Slots\<close>

fun holds_slot :: "req_phase \<Rightarrow> bool" where
  "holds_slot AcquireWaiting = False"
| "holds_slot AcquireWoken = False"
| "holds_slot (Finished e) = False"
| "holds_slot _ = True"

abbreviation ph :: "custom_source \<Rightarrow> nat \<Rightarrow> req_phase" where
  "ph s i \<equiv> rq_phase (cs_requests s ! i)"

text \<open>The requests in a group of phases.\<close>

definition requests_in :: "(req_phase \<Rightarrow> bool) \<Rightarrow> custom_source \<Rightarrow> nat set" where
  "requests_in P s = {i. i < length (cs_requests s) \<and> P (ph s i)}"

lemma requests_in_finite [simp]: "finite (requests_in P s)"
  by (simp add: requests_in_def)

lemma on_req_fields [simp]:
  "length (cs_requests (on_req i f s)) = length (cs_requests s)" "cs_active (on_req i f s) = cs_active s" "cs_waiters (on_req i f s) = cs_waiters s"
  "cs_running (on_req i f s) = cs_running s" "cs_pending (on_req i f s) = cs_pending s" "cs_hasResult (on_req i f s) = cs_hasResult s"
  "cs_started (on_req i f s) = cs_started s" "cs_requests (on_req i f s) = [] \<longleftrightarrow> cs_requests s = []" "cs_metrics (on_req i f s) = cs_metrics s" "cs_handlerCalls (on_req i f s) = cs_handlerCalls s" "cs_stopped (on_req i f s) = cs_stopped s"
  "j < length (cs_requests s) \<Longrightarrow> cs_requests (on_req i f s) ! j = (if j = i then f (cs_requests s ! i) else cs_requests s ! j)"
  by (auto simp: on_req_def nth_list_update)

lemma meter_fields [simp]:
  "cs_requests (meter f s) = cs_requests s" "cs_active (meter f s) = cs_active s" "cs_waiters (meter f s) = cs_waiters s"
  "cs_running (meter f s) = cs_running s" "cs_pending (meter f s) = cs_pending s" "cs_hasResult (meter f s) = cs_hasResult s"
  "cs_metrics (meter f s) = f (cs_metrics s)" "cs_handlerCalls (meter f s) = cs_handlerCalls s" "cs_stopped (meter f s) = cs_stopped s"
  by (simp_all add: meter_def)

lemma log_call_fields [simp]:
  "cs_requests (log_call c s) = cs_requests s" "cs_active (log_call c s) = cs_active s" "cs_waiters (log_call c s) = cs_waiters s"
  "cs_running (log_call c s) = cs_running s" "cs_pending (log_call c s) = cs_pending s" "cs_hasResult (log_call c s) = cs_hasResult s"
  "cs_metrics (log_call c s) = cs_metrics s" "cs_handlerCalls (log_call c s) = cs_handlerCalls s @ [c]" "cs_stopped (log_call c s) = cs_stopped s"
  by (simp_all add: log_call_def)

lemma to_phase_fields [simp]:
  "length (cs_requests (to_phase i p s)) = length (cs_requests s)" "cs_active (to_phase i p s) = cs_active s" "cs_waiters (to_phase i p s) = cs_waiters s"
  "cs_running (to_phase i p s) = cs_running s" "cs_pending (to_phase i p s) = cs_pending s" "cs_metrics (to_phase i p s) = cs_metrics s"
  "cs_handlerCalls (to_phase i p s) = cs_handlerCalls s" "cs_stopped (to_phase i p s) = cs_stopped s" "cs_started (to_phase i p s) = cs_started s"
  by (simp_all add: to_phase_def)

lemma abort_context_fields [simp]:
  "rq_taskAbort (abort_context w e r) = rq_taskAbort r" "rq_began (abort_context w e r) = rq_began r" "rq_streamId (abort_context w e r) = rq_streamId r"
  "rq_result (abort_context w e r) = rq_result r"
  by (simp_all add: abort_context_def Let_def)

lemma abort_task_fields [simp]:
  "rq_began (abort_task w e r) = rq_began r" "rq_streamId (abort_task w e r) = rq_streamId r" "rq_result (abort_task w e r) = rq_result r"
  by (simp_all add: abort_task_def Let_def)

text \<open>An abort, a call of \<open>done\<close> and the stop change the phase only inside the waiting for the result.\<close>

fun same_phase :: "req_phase \<Rightarrow> req_phase \<Rightarrow> bool" where
  "same_phase (AwaitingResult a) q = (\<exists>b. q = AwaitingResult b)"
| "same_phase p q = (q = p)"

lemma same_phase_refl [simp]: "same_phase p p"
  by (cases p) simp_all

lemma same_phase_abort [simp]: "same_phase (rq_phase r) (rq_phase (abort_context w e r))" "same_phase (rq_phase r) (rq_phase (abort_task w e r))"
  by (auto simp: abort_context_def abort_task_def Let_def)

lemma same_phase_done [simp]: "same_phase (rq_phase r) (rq_phase (call_done r))"
  by (auto simp: call_done_def)

definition slots_inv :: "custom_source \<Rightarrow> bool" where
  "slots_inv s \<longleftrightarrow>
     cs_active s = int (card (requests_in holds_slot s)) \<and> distinct (cs_waiters s) \<and> set (cs_waiters s) = requests_in (\<lambda>p. p = AcquireWaiting) s"

lemma requests_in_cong:
  assumes "length (cs_requests s') = length (cs_requests s)" and "\<And>i. i < length (cs_requests s) \<Longrightarrow> P (ph s' i) = P (ph s i)"
  shows "requests_in P s' = requests_in P s"
  using assms by (auto simp: requests_in_def)

lemma slots_cong:
  assumes "cs_active s' = cs_active s" "cs_waiters s' = cs_waiters s" "length (cs_requests s') = length (cs_requests s)"
    and "\<And>i. i < length (cs_requests s) \<Longrightarrow> holds_slot (ph s' i) = holds_slot (ph s i) \<and> (ph s' i = AcquireWaiting \<longleftrightarrow> ph s i = AcquireWaiting)"
  shows "slots_inv s' = slots_inv s"
  using assms requests_in_cong [of s' s] by (simp add: slots_inv_def)

lemma slots_same_phase:
  assumes "cs_active s' = cs_active s" "cs_waiters s' = cs_waiters s" "length (cs_requests s') = length (cs_requests s)"
    and "\<And>i. i < length (cs_requests s) \<Longrightarrow> same_phase (ph s i) (ph s' i)"
  shows "slots_inv s' = slots_inv s"
proof -
  have "holds_slot q = holds_slot p \<and> (q = AcquireWaiting \<longleftrightarrow> p = AcquireWaiting)" if "same_phase p q" for p q
    using that by (cases p) auto
  then show ?thesis using slots_cong [OF assms(1-3)] assms(4) by blast
qed

text \<open>A request moves into a slot, out of it, or among the waiters.\<close>

lemma requests_in_on_req:
  assumes "i < length (cs_requests s)"
  shows "requests_in P (on_req i f s) = (if P (rq_phase (f (cs_requests s ! i))) then insert i (requests_in P s) else requests_in P s - {i})"
  using assms by (auto simp: requests_in_def split: if_splits)

lemma requests_in_fields [simp]:
  "requests_in P (s\<lparr>cs_active := a\<rparr>) = requests_in P s" "requests_in P (s\<lparr>cs_waiters := ws\<rparr>) = requests_in P s"
  "requests_in P (s\<lparr>cs_pending := m\<rparr>) = requests_in P s" "requests_in P (s\<lparr>cs_running := rs\<rparr>) = requests_in P s"
  "requests_in P (s\<lparr>cs_stops := ks\<rparr>) = requests_in P s" "requests_in P (s\<lparr>cs_started := b\<rparr>) = requests_in P s"
  "requests_in P (s\<lparr>cs_stopped := b\<rparr>) = requests_in P s" "requests_in P (meter f s) = requests_in P s" "requests_in P (log_call c s) = requests_in P s"
  by (simp_all add: requests_in_def)


lemma slots_move:
  assumes "slots_inv s" and "i < length (cs_requests s)" and "holds_slot (ph s i)" and "holds_slot (rq_phase (f (cs_requests s ! i)))"
  shows "slots_inv (on_req i f s)"
proof -
  have "ph s i \<noteq> AcquireWaiting" "rq_phase (f (cs_requests s ! i)) \<noteq> AcquireWaiting" using assms(3,4) by auto
  then show ?thesis using assms slots_cong [of "on_req i f s" s] by auto
qed

lemma slots_drop:
  assumes "slots_inv s" and "i < length (cs_requests s)" and "ph s i = AcquireWoken" and "\<not> holds_slot p" "p \<noteq> AcquireWaiting"
  shows "slots_inv (to_phase i p s)"
  using assms slots_cong [of "to_phase i p s" s] by (auto simp: to_phase_def)

lemma slots_take:
  assumes "slots_inv s" and "i < length (cs_requests s)" and "ph s i = AcquireWoken"
  shows "slots_inv (to_phase i Acquired (s\<lparr>cs_active := cs_active s + 1\<rparr>))"
proof -
  have "i \<notin> requests_in holds_slot s" "i \<notin> requests_in (\<lambda>p. p = AcquireWaiting) s" using assms(3) by (auto simp: requests_in_def)
  then show ?thesis using assms by (simp add: slots_inv_def to_phase_def requests_in_on_req)
qed

lemma slots_wait:
  assumes "slots_inv s" and "i < length (cs_requests s)" and "ph s i = AcquireWoken"
  shows "slots_inv (to_phase i AcquireWaiting (s\<lparr>cs_waiters := cs_waiters s @ [i]\<rparr>))"
proof -
  have "i \<notin> requests_in holds_slot s" "i \<notin> requests_in (\<lambda>p. p = AcquireWaiting) s" using assms(3) by (auto simp: requests_in_def)
  then show ?thesis using assms by (simp add: slots_inv_def to_phase_def requests_in_on_req)
qed

lemma slots_acquire_turn:
  assumes "slots_inv s" and "i < length (cs_requests s)" and "ph s i = AcquireWoken"
  shows "slots_inv (acquire_turn w c i s)"
  using assms slots_drop [OF assms] slots_take [OF assms] slots_wait [OF assms] by (simp add: acquire_turn_def split: option.split)

lemma slots_release:
  assumes "slots_inv s" and "i < length (cs_requests s)" and "holds_slot (ph s i)"
  shows "slots_inv (release_slot (to_phase i (Finished e) s))"
proof -
  let ?s2 = "(to_phase i (Finished e) s)\<lparr>cs_active := cs_active s - 1\<rparr>"
  have i: "i \<in> requests_in holds_slot s" "i \<notin> requests_in (\<lambda>p. p = AcquireWaiting) s" using assms(2,3) by (auto simp: requests_in_def)
  have "card (requests_in holds_slot s) > 0" using i(1) by (auto simp: card_gt_0_iff)
  then have s2: "slots_inv ?s2"
    using assms(1,2) i by (simp add: slots_inv_def to_phase_def requests_in_on_req card_Diff_singleton of_nat_diff)
  show ?thesis
  proof (cases "cs_waiters s")
    case Nil
    then show ?thesis using s2 by (simp add: release_slot_def to_phase_def)
  next
    case (Cons j js)
    let ?s3 = "?s2\<lparr>cs_waiters := js\<rparr>"
    have j: "j \<in> requests_in (\<lambda>p. p = AcquireWaiting) ?s2" "j \<notin> set js"
      using s2 Cons by (auto simp: slots_inv_def to_phase_def)
    then have "j < length (cs_requests ?s3)" "ph ?s3 j = AcquireWaiting" by (simp_all add: requests_in_def)
    moreover have "set js = requests_in (\<lambda>p. p = AcquireWaiting) ?s2 - {j}" "distinct js"
      using s2 Cons j(2) by (auto simp: slots_inv_def to_phase_def)
    moreover have "j \<notin> requests_in holds_slot ?s2" using j(1) by (auto simp: requests_in_def)
    ultimately have "slots_inv (to_phase j AcquireWoken ?s3)"
      using s2 by (simp add: slots_inv_def to_phase_def requests_in_on_req)
    then show ?thesis using Cons by (simp add: release_slot_def to_phase_def)
  qed
qed

lemma slots_new_request:
  assumes "slots_inv s"
  shows "slots_inv (s\<lparr>cs_requests := cs_requests s @ [request_new a]\<rparr>)"
proof -
  have "requests_in P (s\<lparr>cs_requests := cs_requests s @ [request_new a]\<rparr>) = requests_in P s" if "\<not> P AcquireWoken" for P
    using that by (auto simp: requests_in_def nth_append less_Suc_eq request_new_def)
  then show ?thesis using assms by (simp add: slots_inv_def)
qed


lemma slots_update [simp]:
  "slots_inv (meter f s) = slots_inv s" "slots_inv (log_call c s) = slots_inv s" "slots_inv (s\<lparr>cs_pending := m\<rparr>) = slots_inv s"
  "slots_inv (s\<lparr>cs_running := rs\<rparr>) = slots_inv s" "slots_inv (s\<lparr>cs_stops := ks\<rparr>) = slots_inv s" "slots_inv (s\<lparr>cs_started := b\<rparr>) = slots_inv s"
  "slots_inv (s\<lparr>cs_stopped := b\<rparr>) = slots_inv s"
  by (simp_all add: slots_inv_def)

lemma slots_on_req_same:
  assumes "\<And>r. same_phase (rq_phase r) (rq_phase (f r))"
  shows "slots_inv (on_req i f s) = slots_inv s"
  using assms by (intro slots_same_phase) auto

lemma same_phase_end_callback [simp]:
  "same_phase p q \<Longrightarrow> p \<noteq> RetireWaiting \<Longrightarrow> holds_slot p = holds_slot q" "same_phase p AcquireWaiting = (p = AcquireWaiting)"
  by (cases p; auto)+

lemma slots_end_callback [simp]: "slots_inv (end_callback i s) = slots_inv s"
  unfolding end_callback_def by (intro slots_cong) (auto split: prod.splits)

lemma stop_request_fields [simp]:
  "rq_began (stop_request w e ws i r) = rq_began r" "rq_streamId (stop_request w e ws i r) = rq_streamId r" "rq_result (stop_request w e ws i r) = rq_result r"
  by (simp_all add: stop_request_def Let_def)

lemma stop_request_phase:
  "i \<in> set ws \<Longrightarrow> rq_phase (stop_request w e ws i r) = AcquireWoken"
  "i \<notin> set ws \<Longrightarrow> same_phase (rq_phase r) (rq_phase (stop_request w e ws i r))"
  by (auto simp: stop_request_def abort_task_def abort_context_def Let_def)

lemma stop_nth:
  "cs_started s \<Longrightarrow> i < length (cs_requests s) \<Longrightarrow>
    cs_requests (source_stop w why s) ! i = stop_request w why (cs_waiters s) i (cs_requests s ! i)"
  "length (cs_requests (source_stop w why s)) = length (cs_requests s)"
  by (simp_all add: source_stop_def)

lemma waiters_waiting: "slots_inv s \<Longrightarrow> i < length (cs_requests s) \<Longrightarrow> i \<in> set (cs_waiters s) \<longleftrightarrow> ph s i = AcquireWaiting"
  by (auto simp: slots_inv_def requests_in_def)

lemma stop_phases:
  assumes "slots_inv s" and "cs_started s" and "i < length (cs_requests s)"
  shows "(ph s i = AcquireWaiting \<and> ph (source_stop w why s) i = AcquireWoken) \<or> (ph s i \<noteq> AcquireWaiting \<and> same_phase (ph s i) (ph (source_stop w why s) i))"
  unfolding stop_nth(1) [OF assms(2,3)] using stop_request_phase waiters_waiting [OF assms(1,3)] by blast

lemma slots_stop:
  assumes "slots_inv s"
  shows "slots_inv (source_stop w why s)"
proof (cases "cs_started s")
  case True
  let ?s = "source_stop w why s"
  have e: "holds_slot q = holds_slot p" "q = AcquireWaiting \<longleftrightarrow> p = AcquireWaiting" if "same_phase p q" for p q
    using that by (cases p; auto)+
  have "holds_slot (ph ?s i) = holds_slot (ph s i) \<and> ph ?s i \<noteq> AcquireWaiting" if "i < length (cs_requests s)" for i
    using stop_phases [OF assms True that, of w why] e by auto
  then have "requests_in holds_slot ?s = requests_in holds_slot s" "requests_in (\<lambda>p. p = AcquireWaiting) ?s = {}"
    by (auto simp: requests_in_def stop_nth(2))
  then show ?thesis using assms True by (simp add: slots_inv_def) (simp add: source_stop_def)
next
  case False
  then show ?thesis using assms by (simp add: source_stop_def slots_inv_def requests_in_def)
qed

lemma slots_begin_retire:
  assumes "slots_inv s" and "i < length (cs_requests s)" and "holds_slot (ph s i)"
  shows "slots_inv (begin_retire i s)"
  using assms by (auto simp: begin_retire_def result_retire_def Let_def intro!: slots_move)

lemma slots_call_end:
  assumes "slots_inv s" and "i < length (cs_requests s)" and "holds_slot (ph s i)" and "holds_slot p"
  shows "slots_inv (call_end i f p s)"
  using assms by (auto simp: call_end_def intro!: slots_move)

lemma slots_resume:
  assumes "slots_inv s" and "i < length (cs_requests s)"
  shows "slots_inv (resume_request w i s)"
  using assms slots_release [OF assms]
  by (auto simp: resume_request_def Let_def to_phase_def intro!: slots_move slots_begin_retire slots_call_end split: req_phase.split option.split)

lemma slots_begin:
  assumes "slots_inv s" and "i < length (cs_requests s)" and "holds_slot (ph s i)"
  shows "slots_inv (begin_settles w i r s)"
proof -
  have "slots_inv (on_req i (begun sid follows a) s)" for sid follows a using slots_move [OF assms] by (simp add: begun_def)
  moreover have "slots_inv (call_end i f EndingUnregistered (meter m (on_req i (begun sid follows a) s)))" for f m sid follows a
    using calculation assms(2) by (intro slots_call_end) (simp_all add: begun_def)
  moreover have "slots_inv (to_phase i (RequestEnded None) (meter f s))" for f
    unfolding to_phase_def using assms by (intro slots_move) simp_all
  ultimately show ?thesis by (auto simp: begin_settles_def Let_def split: sum.split bool.split option.split)
qed

lemma slots_step:
  assumes "slots_inv s"
  shows "slots_inv (source_step w e s)"
proof (cases e)
  case (SourceStop why)
  then show ?thesis using slots_stop [OF assms] by simp
next
  case (MessageArrives c a)
  have "slots_inv (acquire_turn w c (length (cs_requests s)) (s\<lparr>cs_requests := cs_requests s @ [request_new a]\<rparr>))"
    using slots_acquire_turn [OF slots_new_request [OF assms]] by (simp add: request_new_def)
  then show ?thesis using assms MessageArrives by (simp add: handle_message_def)
next
  case (ConsumeSettles i r)
  then show ?thesis using assms
    by (auto simp: consume_settles_def at_phase_def Let_def to_phase_def intro!: slots_move slots_call_end slots_begin_retire split: option.split)
next
  case (EndSettles i r)
  then show ?thesis using assms by (auto simp: end_settles_def at_phase_def Let_def to_phase_def intro!: slots_move split: option.split)
next
  case (ResultArrives sid mid)
  have "slots_inv (on_req i (\<lambda>r. r\<lparr>rq_result := res\<rparr>) s)" for i res using assms slots_on_req_same by simp
  then show ?thesis using assms ResultArrives by (auto simp: consume_result_def Let_def split: option.split sum.split)
next
  case (ResultCallbackSettles k r)
  have "slots_inv (on_req i (\<lambda>r. r\<lparr>rq_result := res\<rparr>) (s\<lparr>cs_running := rs\<rparr>))" for i res rs using assms slots_on_req_same by simp
  then show ?thesis using assms ResultCallbackSettles
    by (auto simp: result_callback_settles_def Let_def split: option.split prod.split bool.split)
qed (use assms in \<open>auto simp: source_start_def stop_drained_def source_stop_timed_out_def at_phase_def
      slots_on_req_same intro: slots_acquire_turn slots_resume slots_begin split: option.split stop_call.split\<close>)


section \<open>Phases\<close>

fun early :: "req_phase \<Rightarrow> bool" where
  "early AcquireWaiting = True"
| "early AcquireWoken = True"
| "early Acquired = True"
| "early Beginning = True"
| "early _ = False"

fun retire_phase :: "req_phase \<Rightarrow> bool" where
  "retire_phase RetireWaiting = True"
| "retire_phase RetireReleased = True"
| "retire_phase (Retired b) = True"
| "retire_phase _ = False"

fun awaiting_phase :: "req_phase \<Rightarrow> bool" where
  "awaiting_phase (AwaitingResult x) = True"
| "awaiting_phase _ = False"

text \<open>Among the pending requests, from the registration to the removal; at work, until \<open>endRequest\<close> has returned.\<close>

definition registered :: "req_phase \<Rightarrow> bool" where
  "registered p \<longleftrightarrow> p = Consuming \<or> awaiting_phase p \<or> retire_phase p"

definition working :: "req_phase \<Rightarrow> bool" where
  "working p \<longleftrightarrow> registered p \<or> p = Ending"

definition req_ok :: "bool \<Rightarrow> source_request \<Rightarrow> bool" where
  "req_ok h r \<longleftrightarrow>
     rq_phase r \<noteq> EndingUnregistered \<and> (awaiting_phase (rq_phase r) \<or> retire_phase (rq_phase r) \<longrightarrow> h) \<and> (early (rq_phase r) \<longrightarrow> \<not> rq_began r) \<and>
     (working (rq_phase r) \<longrightarrow> rq_began r) \<and> (retire_phase (rq_phase r) \<longrightarrow> res_retiring (rq_result r))"

definition phases_inv :: "custom_source \<Rightarrow> bool" where
  "phases_inv s \<longleftrightarrow>
     (\<forall>i < length (cs_requests s). req_ok (cs_hasResult s) (cs_requests s ! i)) \<and>
     (cs_hasResult s \<and> (cs_started s \<or> cs_requests s \<noteq> []) \<longrightarrow> cs_pending s \<noteq> None) \<and> (\<not> cs_hasResult s \<longrightarrow> cs_pending s = None)"

lemma phase_groups [simp]:
  "registered Consuming" "\<not> registered Ending" "working Consuming" "working Ending" "registered (AwaitingResult x)" "registered RetireWaiting"
  "registered RetireReleased" "registered (Retired b)" "\<not> registered Beginning" "\<not> registered Acquired" "\<not> registered AcquireWoken"
  "\<not> registered AcquireWaiting" "\<not> registered (RequestEnded e)" "\<not> registered (Finished e)" "\<not> working Beginning" "\<not> working Acquired"
  "\<not> working AcquireWoken" "\<not> working AcquireWaiting" "\<not> working (RequestEnded e)" "\<not> working (Finished e)" "\<not> registered EndingUnregistered"
  "\<not> working EndingUnregistered" "registered p \<Longrightarrow> working p"
  by (auto simp: registered_def working_def)

lemma same_phase_groups:
  assumes "same_phase p q"
  shows "registered q = registered p" "working q = working p" "early q = early p" "retire_phase q = retire_phase p" "awaiting_phase q = awaiting_phase p"
    "(q = EndingUnregistered) = (p = EndingUnregistered)" "(q = Consuming) = (p = Consuming)" "(q = RetireWaiting) = (p = RetireWaiting)"
  using assms by (cases p; auto)+

lemma req_ok_same:
  assumes "req_ok h r" and "same_phase (rq_phase r) (rq_phase r')" "rq_began r' = rq_began r" "res_retiring (rq_result r') = res_retiring (rq_result r)"
  shows "req_ok h r'"
  using assms same_phase_groups [OF assms(2)] by (simp add: req_ok_def)

lemma hasResult_constant [simp]:
  "cs_hasResult (to_phase i p s) = cs_hasResult s" "cs_hasResult (release_slot s) = cs_hasResult s" "cs_hasResult (acquire_turn w c i s) = cs_hasResult s"
  "cs_hasResult (begin_retire i s) = cs_hasResult s" "cs_hasResult (call_end i f p s) = cs_hasResult s" "cs_hasResult (end_callback i s) = cs_hasResult s"
  by (simp_all add: to_phase_def release_slot_def acquire_turn_def begin_retire_def call_end_def end_callback_def Let_def split: list.split option.split prod.split)

lemma phases_on_req:
  assumes "phases_inv s" and "i < length (cs_requests s) \<Longrightarrow> req_ok (cs_hasResult s) (cs_requests s ! i) \<Longrightarrow> req_ok (cs_hasResult s) (f (cs_requests s ! i))"
  shows "phases_inv (on_req i f s)"
  using assms by (auto simp: phases_inv_def)

lemma phases_update [simp]:
  "phases_inv (meter f s) = phases_inv s" "phases_inv (log_call c s) = phases_inv s" "phases_inv (s\<lparr>cs_active := a\<rparr>) = phases_inv s"
  "phases_inv (s\<lparr>cs_waiters := ws\<rparr>) = phases_inv s" "phases_inv (s\<lparr>cs_running := rs\<rparr>) = phases_inv s" "phases_inv (s\<lparr>cs_stops := ks\<rparr>) = phases_inv s"
  by (simp_all add: phases_inv_def meter_def log_call_def)

lemma phases_to_phase:
  assumes "phases_inv s" and "i < length (cs_requests s)" and "\<not> awaiting_phase p" "\<not> retire_phase p" "p \<noteq> EndingUnregistered"
    and "early p \<Longrightarrow> early (ph s i)" and "working p \<Longrightarrow> working (ph s i)"
  shows "phases_inv (to_phase i p s)"
  unfolding to_phase_def using assms by (intro phases_on_req) (auto simp: req_ok_def)


lemma phases_acquire_turn:
  assumes "phases_inv s" and "i < length (cs_requests s)" and "ph s i = AcquireWoken"
  shows "phases_inv (acquire_turn w c i s)"
  using assms by (auto simp: acquire_turn_def intro!: phases_to_phase split: option.split)

lemma phases_release:
  assumes "phases_inv s" and "\<forall>j \<in> set (cs_waiters s). j < length (cs_requests s) \<and> ph s j = AcquireWaiting"
  shows "phases_inv (release_slot s)"
proof (cases "cs_waiters s")
  case (Cons j js)
  then show ?thesis using assms by (auto simp: release_slot_def Let_def intro!: phases_to_phase)
qed (use assms in \<open>simp add: release_slot_def\<close>)

lemma phases_begin_retire:
  assumes "phases_inv s" and "i < length (cs_requests s)" and "cs_hasResult s" and "registered (ph s i)"
  shows "phases_inv (begin_retire i s)"
  using assms by (auto simp: begin_retire_def result_retire_def Let_def req_ok_def working_def registered_def intro!: phases_on_req)

lemma phases_call_end:
  assumes "phases_inv s" and "i < length (cs_requests s)" and "registered (ph s i)"
  shows "phases_inv (call_end i f Ending s)"
  using assms by (auto simp: call_end_def req_ok_def intro!: phases_on_req)

lemma phases_end_callback: "phases_inv s \<Longrightarrow> phases_inv (end_callback i s)"
  by (auto simp: end_callback_def endCallback_def Let_def req_ok_def intro!: phases_on_req)

lemma phases_at:
  assumes "phases_inv s" and "i < length (cs_requests s)"
  shows "req_ok (cs_hasResult s) (cs_requests s ! i)"
  using assms by (simp add: phases_inv_def)

lemma phases_resume:
  assumes "phases_inv s" and "slots_inv s" and "i < length (cs_requests s)"
  shows "phases_inv (resume_request w i s)"
proof -
  have rel: "phases_inv (release_slot (to_phase i (Finished e) s))" if "ph s i = RequestEnded e'" for e e'
  proof -
    have "phases_inv (to_phase i (Finished e) s)" using assms that by (auto intro!: phases_to_phase)
    moreover have "\<forall>j \<in> set (cs_waiters s). j < length (cs_requests s) \<and> ph (to_phase i (Finished e) s) j = AcquireWaiting"
      using assms(2,3) that by (auto simp: slots_inv_def requests_in_def to_phase_def)
    ultimately show ?thesis by (intro phases_release) simp_all
  qed
  have "phases_inv (s\<lparr>cs_pending := map_option g (cs_pending s)\<rparr>)" for g using assms(1) by (simp add: phases_inv_def)
  moreover have "cs_hasResult s" if "awaiting_phase (ph s i) \<or> retire_phase (ph s i)" using phases_at [OF assms(1,3)] that by (auto simp: req_ok_def)
  moreover have "phases_inv (to_phase i (Retired b) s)" if "ph s i = RetireReleased" for b
    unfolding to_phase_def using assms(1) that by (intro phases_on_req) (auto simp: req_ok_def)
  ultimately show ?thesis
    using assms(1,3) rel
    by (auto simp: resume_request_def Let_def req_ok_def intro!: phases_to_phase [of s i Beginning] phases_begin_retire phases_call_end phases_on_req
        split: req_phase.split option.split)
qed


lemma pending_exists: "phases_inv s \<Longrightarrow> i < length (cs_requests s) \<Longrightarrow> cs_hasResult s \<Longrightarrow> \<exists>m. cs_pending s = Some m"
  by (auto simp: phases_inv_def)

lemma phases_begin:
  assumes "phases_inv s" and "i < length (cs_requests s)" and "ph s i = Beginning"
  shows "phases_inv (begin_settles w i outcome s)"
proof -
  have "phases_inv (on_req i (begun sid follows a) s)" for sid follows a
    using assms(1) by (intro phases_on_req) (simp_all add: req_ok_def begun_def)
  moreover from this have "phases_inv ((meter f (on_req i (begun sid follows a) s))\<lparr>cs_pending := Some m\<rparr>)" if "cs_hasResult s" for f m sid follows a
    using that by (simp add: phases_inv_def)
  moreover have "phases_inv (to_phase i (RequestEnded None) (meter f s))" for f using assms by (intro phases_to_phase) auto
  ultimately show ?thesis
    using pending_exists [OF assms(1,2)] by (auto simp: begin_settles_def Let_def split: sum.split bool.split)
qed

lemma phases_stop:
  assumes "phases_inv s" and "slots_inv s"
  shows "phases_inv (source_stop w why s)"
proof (cases "cs_started s")
  case True
  have "req_ok (cs_hasResult s) (cs_requests (source_stop w why s) ! i)" if i: "i < length (cs_requests s)" for i
    using phases_at [OF assms(1) i] stop_phases [OF assms(2) True i, of w why] stop_nth(1) [OF True i]
      req_ok_same [OF phases_at [OF assms(1) i], of "cs_requests (source_stop w why s) ! i"]
    by (auto simp: req_ok_def)
  then show ?thesis using assms(1) True by (simp add: phases_inv_def stop_nth(2)) (simp add: source_stop_def)
qed (use assms in \<open>simp add: source_stop_def\<close>)

lemma phases_step:
  assumes "phases_inv s" and "slots_inv s"
  shows "phases_inv (source_step w e s)"
proof (cases e)
  case SourceStart
  then show ?thesis using assms by (auto simp: source_start_def phases_inv_def)
next
  case (SourceStop why)
  then show ?thesis using phases_stop [OF assms] by simp
next
  case (StopDrained k)
  then show ?thesis using assms by (auto simp: stop_drained_def phases_inv_def split: option.split stop_call.split)
next
  case (MessageArrives c a)
  have "phases_inv (s\<lparr>cs_requests := cs_requests s @ [request_new a]\<rparr>)" if "cs_started s"
    using assms(1) that by (auto simp: phases_inv_def nth_append request_new_def req_ok_def less_Suc_eq)
  then have "phases_inv (acquire_turn w c (length (cs_requests s)) (s\<lparr>cs_requests := cs_requests s @ [request_new a]\<rparr>))" if "cs_started s"
    using that by (intro phases_acquire_turn) (simp_all add: request_new_def)
  then show ?thesis using assms(1) MessageArrives by (simp add: handle_message_def)
next
  case (ConsumeSettles i r)
  then show ?thesis using assms(1)
    by (auto simp: consume_settles_def at_phase_def Let_def to_phase_def req_ok_def intro!: phases_begin_retire phases_call_end phases_on_req
        split: option.split)
next
  case (EndSettles i r)
  then show ?thesis using assms(1)
    by (auto simp: end_settles_def at_phase_def Let_def to_phase_def req_ok_def intro!: phases_on_req split: option.split)
next
  case (ResultArrives sid mid)
  have "phases_inv (on_req i (\<lambda>r. r\<lparr>rq_result := res\<rparr>) s)" if "beginCallback (rq_result (cs_requests s ! i)) = Some res" for i res
    using assms(1) that by (auto simp: beginCallback_def req_ok_def intro!: phases_on_req split: if_splits)
  then show ?thesis using assms(1) ResultArrives
    by (auto simp: consume_result_def Let_def phases_end_callback split: option.split sum.split)
next
  case (ResultCallbackSettles k r)
  have "phases_inv (on_req i (\<lambda>r. r\<lparr>rq_result := res\<rparr>) (s\<lparr>cs_running := rs\<rparr>))"
    if "result_remove (rq_result (cs_requests s ! i)) x cb = (res, b)" for i x cb res b rs
    using assms(1) that by (auto simp: result_remove_def req_ok_def intro!: phases_on_req split: if_splits)
  then show ?thesis using assms(1) ResultCallbackSettles
    by (auto simp: result_callback_settles_def Let_def phases_end_callback split: option.split prod.split bool.split)
next
  case (SetCallback i m cb)
  then show ?thesis using assms(1) by (auto simp: setResultCallback_def req_ok_def intro!: phases_on_req)
next
  case (DoneCalled i)
  have "req_ok h (call_done r)" if "req_ok h r" for h r using req_ok_same [OF that same_phase_done] by (simp add: call_done_def result_done_def)
  then show ?thesis using assms(1) DoneCalled by (auto intro!: phases_on_req)
next
  case (TaskAborts i why)
  have "req_ok h (abort_task w why r)" if "req_ok h r" for h r using req_ok_same [OF that same_phase_abort(2)] by simp
  then show ?thesis using assms(1) TaskAborts by (auto intro!: phases_on_req)
next
  case (ContextAborts i why)
  have "req_ok h (abort_context w why r)" if "req_ok h r" for h r using req_ok_same [OF that same_phase_abort(1)] by simp
  then show ?thesis using assms(1) ContextAborts by (auto intro!: phases_on_req)
qed (use assms in \<open>auto simp: source_stop_timed_out_def at_phase_def intro: phases_acquire_turn phases_resume phases_begin split: option.split stop_call.split\<close>)


section \<open>Callbacks\<close>

text \<open>The unfinished callback calls of a request.\<close>

definition running_of :: "custom_source \<Rightarrow> nat \<Rightarrow> nat set" where
  "running_of s i = {k. k < length (cs_running s) \<and> (\<exists>x cb. cs_running s ! k = Some (i, x, cb))}"

text \<open>
  The pending requests are registered under their own stream ids, the count of active callbacks is exact, and
  callbacks run only before the request is retired.
\<close>

definition callbacks_ok :: "nat set \<Rightarrow> source_request \<Rightarrow> bool" where
  "callbacks_ok ks r \<longleftrightarrow>
     res_activeCallbacks (rq_result r) = int (card ks) \<and> (ks \<noteq> {} \<longrightarrow> rq_phase r = Consuming \<or> awaiting_phase (rq_phase r) \<or> rq_phase r = RetireWaiting)"

definition callbacks_inv :: "custom_source \<Rightarrow> bool" where
  "callbacks_inv s \<longleftrightarrow>
     (\<forall>m. cs_pending s = Some m \<longrightarrow>
        (\<forall>(k, i) \<in> set m. i < length (cs_requests s) \<and> registered (ph s i) \<and> rq_streamId (cs_requests s ! i) = k) \<and> distinct (map fst m)) \<and>
     (\<forall>k i x cb. k < length (cs_running s) \<and> cs_running s ! k = Some (i, x, cb) \<longrightarrow> i < length (cs_requests s) \<and> cs_hasResult s) \<and>
     (\<forall>i < length (cs_requests s). callbacks_ok (running_of s i) (cs_requests s ! i))"

lemma running_of_finite [simp]: "finite (running_of s i)"
  by (simp add: running_of_def)

lemma running_of_fields [simp]:
  "running_of (on_req j f s) i = running_of s i" "running_of (meter m s) i = running_of s i" "running_of (log_call c s) i = running_of s i"
  "running_of (to_phase j p s) i = running_of s i" "running_of (s\<lparr>cs_pending := pm\<rparr>) i = running_of s i" "running_of (s\<lparr>cs_active := a\<rparr>) i = running_of s i"
  "running_of (s\<lparr>cs_waiters := ws\<rparr>) i = running_of s i"
  by (simp_all add: running_of_def)

lemma callbacks_update [simp]:
  "callbacks_inv (meter f s) = callbacks_inv s" "callbacks_inv (log_call c s) = callbacks_inv s" "callbacks_inv (s\<lparr>cs_active := a\<rparr>) = callbacks_inv s"
  "callbacks_inv (s\<lparr>cs_waiters := ws\<rparr>) = callbacks_inv s" "callbacks_inv (s\<lparr>cs_stops := ks\<rparr>) = callbacks_inv s"
  "callbacks_inv (s\<lparr>cs_started := b\<rparr>) = callbacks_inv s" "callbacks_inv (s\<lparr>cs_stopped := b\<rparr>) = callbacks_inv s"
  by (simp_all add: callbacks_inv_def running_of_def)

text \<open>A request changes: it stays registered, or it is not pending.\<close>

definition not_pending :: "custom_source \<Rightarrow> nat \<Rightarrow> bool" where
  "not_pending s i \<longleftrightarrow> (\<forall>m k. cs_pending s = Some m \<longrightarrow> (k, i) \<notin> set m)"

lemma callbacks_on_req:
  assumes "callbacks_inv s" and "i < length (cs_requests s)"
    and "(registered (ph s i) \<longrightarrow> registered (rq_phase (f (cs_requests s ! i))) \<and> rq_streamId (f (cs_requests s ! i)) = rq_streamId (cs_requests s ! i)) \<or> not_pending s i"
    and "callbacks_ok (running_of s i) (cs_requests s ! i) \<Longrightarrow> callbacks_ok (running_of s i) (f (cs_requests s ! i))"
  shows "callbacks_inv (on_req i f s)"
  using assms by (fastforce simp: callbacks_inv_def not_pending_def)

lemma not_pending_unregistered: "callbacks_inv s \<Longrightarrow> \<not> registered (ph s i) \<Longrightarrow> not_pending s i"
  by (auto simp: callbacks_inv_def not_pending_def)

lemma no_callbacks:
  assumes "callbacks_inv s" and "i < length (cs_requests s)" and "ph s i \<noteq> Consuming" "\<not> awaiting_phase (ph s i)" "ph s i \<noteq> RetireWaiting"
  shows "running_of s i = {}"
  using assms by (auto simp: callbacks_inv_def callbacks_ok_def)

lemma callbacks_to_phase:
  assumes "callbacks_inv s" and "i < length (cs_requests s)" and "\<not> registered (ph s i)"
  shows "callbacks_inv (to_phase i p s)"
proof -
  have "running_of s i = {}" using assms by (intro no_callbacks) (auto simp: registered_def)
  then show ?thesis unfolding to_phase_def
    using assms not_pending_unregistered by (intro callbacks_on_req) (auto simp: callbacks_ok_def)
qed

lemma callbacks_same:
  assumes "callbacks_inv s" and "i < length (cs_requests s)" and "\<And>r. same_phase (rq_phase r) (rq_phase (f r))" "\<And>r. rq_streamId (f r) = rq_streamId r"
    "\<And>r. res_activeCallbacks (rq_result (f r)) = res_activeCallbacks (rq_result r)"
  shows "callbacks_inv (on_req i f s)"
  using assms(1,2,4,5) same_phase_groups [OF assms(3) [of "cs_requests s ! i"]] by (intro callbacks_on_req) (auto simp: callbacks_ok_def)

lemma callbacks_acquire_turn:
  assumes "callbacks_inv s" and "i < length (cs_requests s)" and "ph s i = AcquireWoken"
  shows "callbacks_inv (acquire_turn w c i s)"
  using assms by (auto simp: acquire_turn_def intro!: callbacks_to_phase split: option.split)

lemma callbacks_release:
  assumes "callbacks_inv s" and "\<forall>j \<in> set (cs_waiters s). j < length (cs_requests s) \<and> ph s j = AcquireWaiting"
  shows "callbacks_inv (release_slot s)"
proof (cases "cs_waiters s")
  case (Cons j js)
  then show ?thesis using assms by (auto simp: release_slot_def Let_def intro!: callbacks_to_phase)
qed (use assms in \<open>simp add: release_slot_def\<close>)

lemma callbacks_begin_retire:
  assumes "callbacks_inv s" and "i < length (cs_requests s)" and "ph s i = Consuming \<or> awaiting_phase (ph s i)"
  shows "callbacks_inv (begin_retire i s)"
  using assms by (auto simp: begin_retire_def result_retire_def Let_def callbacks_ok_def intro!: callbacks_on_req)

lemma running_request: "callbacks_inv s \<Longrightarrow> k < length (cs_running s) \<Longrightarrow> cs_running s ! k = Some (i, x, cb) \<Longrightarrow> i < length (cs_requests s) \<and> cs_hasResult s"
  unfolding callbacks_inv_def by blast

lemma callbacks_transfer:
  assumes "callbacks_inv s" and "cs_pending s' = cs_pending s" and "length (cs_requests s') = length (cs_requests s)" and "cs_hasResult s' = cs_hasResult s"
    and "\<And>j. j < length (cs_requests s) \<Longrightarrow> registered (ph s j) \<Longrightarrow> registered (ph s' j) \<and> rq_streamId (cs_requests s' ! j) = rq_streamId (cs_requests s ! j)"
    and "\<And>l j x cb. l < length (cs_running s') \<Longrightarrow> cs_running s' ! l = Some (j, x, cb) \<Longrightarrow> j < length (cs_requests s) \<and> cs_hasResult s"
    and "\<And>j. j < length (cs_requests s) \<Longrightarrow> callbacks_ok (running_of s' j) (cs_requests s' ! j)"
  shows "callbacks_inv s'"
proof -
  have "j < length (cs_requests s) \<and> registered (ph s j) \<and> rq_streamId (cs_requests s ! j) = k" if "cs_pending s = Some m" "(k, j) \<in> set m" for m k j
    using assms(1) that by (auto simp: callbacks_inv_def)
  then have "\<forall>(k, j) \<in> set m. j < length (cs_requests s) \<and> registered (ph s' j) \<and> rq_streamId (cs_requests s' ! j) = k" if "cs_pending s = Some m" for m
    using assms(5) that by blast
  moreover have "distinct (map fst m)" if "cs_pending s = Some m" for m using assms(1) that by (simp add: callbacks_inv_def)
  ultimately show ?thesis unfolding callbacks_inv_def assms(2-4) using assms(6,7) by blast
qed

lemma callbacks_end_callback:
  assumes "callbacks_inv s" and "i < length (cs_requests s)" and "k \<in> running_of s i"
  shows "callbacks_inv (end_callback i (s\<lparr>cs_running := (cs_running s)[k := None]\<rparr>))"
proof -
  let ?s = "s\<lparr>cs_running := (cs_running s)[k := None]\<rparr>" and ?r = "cs_requests s ! i"
  have k: "k < length (cs_running s)" using assms(3) by (simp add: running_of_def)
  then have run: "running_of ?s j = running_of s j - {k}" for j by (auto simp: running_of_def nth_list_update split: if_splits)
  have other: "k \<notin> running_of s j" if "j \<noteq> i" for j using assms(3) that by (auto simp: running_of_def)
  have c: "res_activeCallbacks (rq_result ?r) - 1 = int (card (running_of s i - {k}))" "ph s i = Consuming \<or> awaiting_phase (ph s i) \<or> ph s i = RetireWaiting"
    using assms card_Suc_Diff1 [OF running_of_finite assms(3)] by (auto simp: callbacks_inv_def callbacks_ok_def)
  have others: "callbacks_ok (running_of s j - {k}) (cs_requests s ! j)" if "j < length (cs_requests s)" "j \<noteq> i" for j
    using assms(1) that other [of j] by (simp add: callbacks_inv_def)
  have mine: "callbacks_ok (running_of s i - {k}) (cs_requests (end_callback i ?s) ! i)"
    using assms(2) c by (auto simp: end_callback_def endCallback_def Let_def callbacks_ok_def)
  have reg: "registered (ph (end_callback i ?s) i)" "rq_streamId (cs_requests (end_callback i ?s) ! i) = rq_streamId ?r"
    using assms(2) c(2) by (auto simp: end_callback_def endCallback_def Let_def registered_def)
  have "callbacks_ok (running_of (end_callback i ?s) j) (cs_requests (end_callback i ?s) ! j)" if "j < length (cs_requests s)" for j
    using others [OF that] mine that by (cases "j = i") (simp_all add: end_callback_def run)
  moreover have "registered (ph (end_callback i ?s) j) \<and> rq_streamId (cs_requests (end_callback i ?s) ! j) = rq_streamId (cs_requests s ! j)"
    if "j < length (cs_requests s)" "registered (ph s j)" for j
    using that reg by (cases "j = i") (simp_all add: end_callback_def)
  moreover have "j < length (cs_requests s) \<and> cs_hasResult s" if "l < length (cs_running (end_callback i ?s))" "cs_running (end_callback i ?s) ! l = Some (j, x, cb)" for l j x cb
    using running_request [OF assms(1)] that k by (auto simp: end_callback_def nth_list_update split: if_splits)
  ultimately show ?thesis by (intro callbacks_transfer [OF assms(1)]) (simp_all add: end_callback_def)
qed

lemma callbacks_stop:
  assumes "callbacks_inv s" and "slots_inv s"
  shows "callbacks_inv (source_stop w why s)"
proof (cases "cs_started s")
  case True
  let ?s = "source_stop w why s"
  have f: "cs_pending ?s = cs_pending s" "cs_running ?s = cs_running s" "cs_hasResult ?s = cs_hasResult s" "length (cs_requests ?s) = length (cs_requests s)"
    using True by (simp_all add: source_stop_def)
  have run: "running_of ?s i = running_of s i" for i by (simp add: running_of_def f)
  have g: "registered (ph ?s i) = registered (ph s i) \<and> rq_streamId (cs_requests ?s ! i) = rq_streamId (cs_requests s ! i) \<and>
      (callbacks_ok (running_of s i) (cs_requests s ! i) \<longrightarrow> callbacks_ok (running_of s i) (cs_requests ?s ! i))"
    if "i < length (cs_requests s)" for i
  proof -
    have e: "rq_streamId (cs_requests ?s ! i) = rq_streamId (cs_requests s ! i)" "rq_result (cs_requests ?s ! i) = rq_result (cs_requests s ! i)"
      using stop_nth(1) [OF True that] by simp_all
    from stop_phases [OF assms(2) True that, of w why] show ?thesis
    proof
      assume "ph s i = AcquireWaiting \<and> ph ?s i = AcquireWoken"
      then show ?thesis using e by (simp add: callbacks_ok_def)
    next
      assume a: "ph s i \<noteq> AcquireWaiting \<and> same_phase (ph s i) (ph ?s i)"
      show ?thesis using same_phase_groups [OF conjunct2 [OF a]] e by (simp add: callbacks_ok_def)
    qed
  qed
  have "callbacks_ok (running_of s i) (cs_requests s ! i)" if "i < length (cs_requests s)" for i using assms(1) that by (simp add: callbacks_inv_def)
  then show ?thesis using g running_request [OF assms(1)] by (intro callbacks_transfer [OF assms(1)]) (simp_all add: f run)
qed (use assms in \<open>simp add: source_stop_def\<close>)

lemma callbacks_resume:
  assumes "callbacks_inv s" and "slots_inv s" and "phases_inv s" and "i < length (cs_requests s)"
  shows "callbacks_inv (resume_request w i s)"
proof -
  have rel: "callbacks_inv (release_slot (to_phase i (Finished e) s))" if "ph s i = RequestEnded e'" for e e'
  proof -
    have "callbacks_inv (to_phase i (Finished e) s)" using assms(1,4) that by (intro callbacks_to_phase) simp_all
    moreover have "\<forall>j \<in> set (cs_waiters s). j < length (cs_requests s) \<and> ph (to_phase i (Finished e) s) j = AcquireWaiting"
      using assms(2,4) that by (auto simp: slots_inv_def requests_in_def to_phase_def)
    ultimately show ?thesis by (intro callbacks_release) simp_all
  qed
  have begin_: "callbacks_inv (to_phase i Beginning s)" if "ph s i = Acquired" using assms(1,4) that by (intro callbacks_to_phase) simp_all
  have await: "callbacks_inv (begin_retire i (on_req i (\<lambda>r. r\<lparr>rq_failure := f, rq_waitFailed := b\<rparr>) s))" if "awaiting_phase (ph s i)" for f b
    using assms(1,4) that by (intro callbacks_begin_retire callbacks_same) simp_all
  have released: "callbacks_inv (to_phase i (Retired b) s)" if "ph s i = RetireReleased" for b
    unfolding to_phase_def using assms(1,4) that by (intro callbacks_on_req) (auto simp: callbacks_ok_def)
  have retired: "callbacks_inv (call_end i f Ending (meter g (s\<lparr>cs_pending := map_option (\<lambda>m. jm_delete m (rq_streamId (cs_requests s ! i))) (cs_pending s)\<rparr>)))"
    (is "callbacks_inv (call_end i f Ending ?s)") if "ph s i = Retired b" for f g b
  proof -
    have "running_of s i = {}" using assms(1,4) that by (intro no_callbacks) simp_all
    moreover have "callbacks_inv (s\<lparr>cs_pending := map_option (\<lambda>m. jm_delete m k) (cs_pending s)\<rparr>)" for k
      using assms(1) by (auto simp: callbacks_inv_def jm_delete_def running_of_def distinct_map_filter)
    moreover have "not_pending ?s i" using assms(1) by (auto simp: callbacks_inv_def not_pending_def jm_delete_def)
    ultimately show ?thesis using assms(4) unfolding call_end_def
      by (auto simp: callbacks_ok_def intro!: callbacks_on_req)
  qed
  show ?thesis using assms(1) rel begin_ await released retired
    by (auto simp: resume_request_def Let_def split: req_phase.split option.split)
qed

lemma jm_set_entry: "e \<in> set (jm_set m k v) \<Longrightarrow> e \<in> set m \<or> e = (k, v)"
  by (induction m k v rule: jm_set.induct) (auto split: if_splits)

lemma callbacks_begin:
  assumes "callbacks_inv s" and "i < length (cs_requests s)" and "ph s i = Beginning"
  shows "callbacks_inv (begin_settles w i outcome s)"
proof -
  have r: "running_of s i = {}" using assms by (intro no_callbacks) simp_all
  have b: "callbacks_inv (on_req i (begun sid follows a) s)" for sid follows a
    using assms r not_pending_unregistered by (intro callbacks_on_req) (auto simp: callbacks_ok_def begun_def result_new_def)
  have "callbacks_inv ((on_req i (begun sid follows a) s)\<lparr>cs_pending := Some (jm_set m sid i)\<rparr>)" if "cs_pending s = Some m" for sid follows a m
  proof -
    let ?s = "on_req i (begun sid follows a) s"
    have "\<forall>(k, j) \<in> set m. j < length (cs_requests ?s) \<and> registered (ph ?s j) \<and> rq_streamId (cs_requests ?s ! j) = k" "distinct (map fst m)"
      using b [of sid follows a] that by (auto simp: callbacks_inv_def)
    then have "\<forall>(k, j) \<in> set (jm_set m sid i). j < length (cs_requests ?s) \<and> registered (ph ?s j) \<and> rq_streamId (cs_requests ?s ! j) = k"
      using assms(2) jm_set_entry [of _ m sid i] by (fastforce simp: begun_def)
    moreover have "distinct (map fst (jm_set m sid i))" using \<open>distinct (map fst m)\<close> jm_ok_set [of m sid i] by (simp add: jm_ok_def)
    ultimately show ?thesis using b [of sid follows a] by (simp add: callbacks_inv_def running_of_def)
  qed
  moreover have "callbacks_inv (call_end i f EndingUnregistered (meter g (on_req i (begun sid follows a) s)))" if "cs_pending s = None" for f g sid follows a
    unfolding call_end_def using b [of sid follows a] that assms(2) r
    by (auto simp: callbacks_ok_def not_pending_def intro!: callbacks_on_req)
  moreover have "callbacks_inv (to_phase i (RequestEnded None) (meter f s))" for f using assms by (intro callbacks_to_phase) simp_all
  moreover have "(meter g s')\<lparr>cs_pending := m\<rparr> = meter g (s'\<lparr>cs_pending := m\<rparr>)" for g s' m by (simp add: meter_def)
  ultimately show ?thesis using b by (auto simp: begin_settles_def Let_def split: sum.split bool.split option.split)
qed


text \<open>A result starts a callback, or is refused at once.\<close>

lemma pending_request:
  assumes "callbacks_inv s" and "cs_pending s = Some m" and "jm_get m k = Some i"
  shows "i < length (cs_requests s)" "registered (ph s i)"
  using assms jm_get_Some_mem [OF assms(3)] by (auto simp: callbacks_inv_def)

lemma callbacks_started:
  assumes "callbacks_inv s" and "phases_inv s" and "i < length (cs_requests s)" "registered (ph s i)"
    and "beginCallback (rq_result (cs_requests s ! i)) = Some res" and "cs_hasResult s"
  shows "callbacks_inv ((on_req i (\<lambda>r. r\<lparr>rq_result := res\<rparr>) s)\<lparr>cs_running := cs_running s @ [Some (i, x, cb)]\<rparr>)" (is "callbacks_inv ?s")
proof -
  let ?k = "length (cs_running s)"
  have run: "running_of ?s j = (if j = i then insert ?k (running_of s i) else running_of s j)" for j
    by (auto simp: running_of_def nth_append less_Suc_eq)
  have "?k \<notin> running_of s i" by (simp add: running_of_def)
  moreover have "ph s i = Consuming \<or> awaiting_phase (ph s i)"
    using phases_at [OF assms(2,3)] assms(4,5) by (auto simp: req_ok_def registered_def beginCallback_def split: if_splits)
  ultimately have "callbacks_ok (running_of ?s i) (cs_requests ?s ! i)"
    using assms(1,3,5) by (auto simp: run callbacks_inv_def callbacks_ok_def beginCallback_def split: if_splits)
  then have "callbacks_ok (running_of ?s j) (cs_requests ?s ! j)" if "j < length (cs_requests s)" for j
    using assms(1) that by (cases "j = i") (simp_all add: run callbacks_inv_def)
  moreover have "registered (ph ?s j) = registered (ph s j) \<and> rq_streamId (cs_requests ?s ! j) = rq_streamId (cs_requests s ! j)"
    if "j < length (cs_requests s)" for j using that by simp
  moreover have "j < length (cs_requests s) \<and> cs_hasResult s" if "l < length (cs_running ?s)" "cs_running ?s ! l = Some (j, y, d)" for l j y d
    using running_request [OF assms(1)] that assms(3,6) by (auto simp: nth_append less_Suc_eq split: if_splits)
  ultimately show ?thesis by (intro callbacks_transfer [OF assms(1)]) simp_all
qed

lemma callbacks_refused:
  assumes "callbacks_inv s" and "phases_inv s" and "i < length (cs_requests s)" "registered (ph s i)"
    and "beginCallback (rq_result (cs_requests s ! i)) = Some res"
  shows "callbacks_inv (end_callback i (on_req i (\<lambda>r. r\<lparr>rq_result := res\<rparr>) s))"
proof -
  have "\<not> res_retiring (rq_result (cs_requests s ! i))" "res = (rq_result (cs_requests s ! i))\<lparr>res_activeCallbacks := res_activeCallbacks (rq_result (cs_requests s ! i)) + 1\<rparr>"
    using assms(5) by (auto simp: beginCallback_def split: if_splits)
  moreover have "on_req i f (on_req i g s) = on_req i (f \<circ> g) s" for f g using assms(3) by (simp add: on_req_def)
  ultimately show ?thesis
    using assms(1,3) by (auto simp: end_callback_def endCallback_def Let_def callbacks_ok_def intro!: callbacks_on_req)
qed

lemma callbacks_cong:
  "cs_requests s' = cs_requests s \<Longrightarrow> cs_pending s' = cs_pending s \<Longrightarrow> cs_running s' = cs_running s \<Longrightarrow> cs_hasResult s' = cs_hasResult s \<Longrightarrow>
    callbacks_inv s' = callbacks_inv s"
  by (simp add: callbacks_inv_def running_of_def)

lemma callbacks_meter_end: "callbacks_inv (end_callback i (meter f s)) = callbacks_inv (end_callback i s)"
  by (rule callbacks_cong) (simp_all add: end_callback_def, simp add: on_req_def split: prod.split)

lemma pending_hasResult: "phases_inv s \<Longrightarrow> cs_pending s = Some m \<Longrightarrow> cs_hasResult s"
  by (auto simp: phases_inv_def)

lemma callbacks_result:
  assumes "callbacks_inv s" and "phases_inv s"
  shows "callbacks_inv (consume_result sid mid s)"
  using assms callbacks_started [OF assms] callbacks_refused [OF assms] pending_request [OF assms(1)] pending_hasResult [OF assms(2)]
  by (auto simp: consume_result_def Let_def callbacks_meter_end split: option.split sum.split)

lemma callbacks_settle:
  assumes "callbacks_inv s"
  shows "callbacks_inv (result_callback_settles k outcome s)"
proof (cases "\<exists>i x cb. elem_at (cs_running s) k = Some (Some (i, x, cb))")
  case True
  then obtain i x cb where k: "k < length (cs_running s)" "cs_running s ! k = Some (i, x, cb)" by auto
  let ?s = "s\<lparr>cs_running := (cs_running s)[k := None]\<rparr>"
  have i: "i < length (cs_requests s)" and el: "elem_at (cs_running s) k = Some (Some (i, x, cb))" using running_request [OF assms k] k by auto
  have e: "callbacks_inv (end_callback i (s'\<lparr>cs_running := (cs_running s')[k := None]\<rparr>))"
    if "callbacks_inv s'" "cs_running s' = cs_running s" "length (cs_requests s') = length (cs_requests s)" for s'
    using that i k by (intro callbacks_end_callback) (auto simp: running_of_def)
  have r: "callbacks_inv (on_req i (\<lambda>r. r\<lparr>rq_result := res\<rparr>) s)" if "result_remove (rq_result (cs_requests s ! i)) x cb = (res, b)" for res b
    using assms i that by (intro callbacks_on_req) (auto simp: callbacks_ok_def result_remove_def split: if_splits)
  have c: "on_req i f ?s = (on_req i f s)\<lparr>cs_running := (cs_running (on_req i f s))[k := None]\<rparr>" for f by (simp add: on_req_def)
  show ?thesis
    using e [OF assms] e [OF r] c by (auto simp: result_callback_settles_def Let_def el callbacks_meter_end split: prod.split bool.split)
next
  case False
  then show ?thesis using assms by (auto simp: result_callback_settles_def split: option.split)
qed

lemma callbacks_step:
  assumes "callbacks_inv s" and "slots_inv s" and "phases_inv s"
  shows "callbacks_inv (source_step w e s)"
proof (cases e)
  case SourceStart
  have "callbacks_inv (s\<lparr>cs_pending := Some []\<rparr>)" using assms(1) by (simp add: callbacks_inv_def running_of_def)
  then have "callbacks_inv (s\<lparr>cs_started := True, cs_stopped := False, cs_pending := Some []\<rparr>)"
    by (rule callbacks_cong [THEN iffD1, rotated -1]) simp_all
  then show ?thesis using assms(1) SourceStart by (simp add: source_start_def)
next
  case (SourceStop why)
  then show ?thesis using callbacks_stop [OF assms(1,2)] by simp
next
  case (MessageArrives c a)
  let ?s = "s\<lparr>cs_requests := cs_requests s @ [request_new a]\<rparr>"
  have "running_of ?s (length (cs_requests s)) = {}" using running_request [OF assms(1)] by (force simp: running_of_def)
  moreover have "running_of ?s i = running_of s i" for i by (simp add: running_of_def)
  ultimately have "callbacks_inv ?s"
    using assms(1) unfolding callbacks_inv_def
    by (fastforce simp: nth_append less_Suc_eq request_new_def callbacks_ok_def result_new_def)
  then have "callbacks_inv (acquire_turn w c (length (cs_requests s)) ?s)" by (intro callbacks_acquire_turn) (simp_all add: request_new_def)
  then show ?thesis using assms(1) MessageArrives by (simp add: handle_message_def)
next
  case (ConsumeSettles i r)
  have fin: "callbacks_inv (call_end i f Ending s)" if "\<not> cs_hasResult s" "i < length (cs_requests s)" for f
  proof -
    have "running_of s i = {}" using running_request [OF assms(1)] that(1) by (auto simp: running_of_def)
    moreover have "not_pending s i" using assms(3) that(1) by (simp add: phases_inv_def not_pending_def)
    ultimately show ?thesis unfolding call_end_def using assms(1) that(2) by (auto simp: callbacks_ok_def intro!: callbacks_on_req)
  qed
  have "callbacks_inv (begin_retire i (on_req i (\<lambda>r. r\<lparr>rq_failure := f\<rparr>) s))" if "i < length (cs_requests s)" "ph s i = Consuming" for f
    using assms(1) that by (intro callbacks_begin_retire callbacks_same) simp_all
  moreover have "callbacks_inv (to_phase i (AwaitingResult x) s)" if "i < length (cs_requests s)" "ph s i = Consuming" for x
    unfolding to_phase_def using assms(1) that by (intro callbacks_on_req) (auto simp: callbacks_ok_def)
  ultimately show ?thesis using assms(1) fin ConsumeSettles by (auto simp: consume_settles_def at_phase_def Let_def)
next
  case (EndSettles i r)
  have "callbacks_inv (to_phase i p (meter g s))" "callbacks_inv (to_phase i p (meter g (on_req i (\<lambda>r. r\<lparr>rq_failure := f\<rparr>) s)))"
    if "i < length (cs_requests s)" "ph s i = Ending \<or> ph s i = EndingUnregistered" for p g f
    using assms(1) that by (auto intro!: callbacks_to_phase callbacks_same)
  moreover have "callbacks_inv (to_phase i p s)" if "i < length (cs_requests s)" "ph s i = Ending \<or> ph s i = EndingUnregistered" for p
    using assms(1) that by (auto intro!: callbacks_to_phase)
  ultimately show ?thesis using assms(1) EndSettles by (auto simp: end_settles_def at_phase_def Let_def split: option.split)
next
  case (ResultArrives sid mid)
  then show ?thesis using callbacks_result [OF assms(1,3)] by simp
next
  case (ResultCallbackSettles k r)
  then show ?thesis using callbacks_settle [OF assms(1)] by simp
next
  case (SetCallback i m cb)
  then show ?thesis using assms(1) by (auto simp: setResultCallback_def intro!: callbacks_same)
next
  case (DoneCalled i)
  have "callbacks_inv (on_req i call_done s)" if "i < length (cs_requests s)"
    using assms(1) that by (intro callbacks_same) (simp_all, simp_all add: call_done_def result_done_def)
  then show ?thesis using assms(1) DoneCalled by simp
qed (use assms in \<open>auto simp: stop_drained_def source_stop_timed_out_def at_phase_def
      intro!: callbacks_same intro: callbacks_acquire_turn callbacks_resume callbacks_begin split: option.split stop_call.split\<close>)


section \<open>Gauges and handler calls\<close>

fun ends_request :: "nat \<Rightarrow> handler_call \<Rightarrow> bool" where
  "ends_request i (EndCalled j f) = (i = j)"
| "ends_request i _ = False"

definition end_calls :: "custom_source \<Rightarrow> nat \<Rightarrow> nat" where
  "end_calls s i = length (filter (ends_request i) (cs_handlerCalls s))"

definition consume_calls :: "custom_source \<Rightarrow> nat \<Rightarrow> nat" where
  "consume_calls s i = length (filter (\<lambda>c. c = ConsumeCalled i) (cs_handlerCalls s))"

text \<open>What the gauges and the calls depend on, of a request.\<close>

definition view :: "custom_source \<Rightarrow> nat \<Rightarrow> bool \<times> bool \<times> bool" where
  "view s i = (registered (ph s i), working (ph s i), rq_began (cs_requests s ! i))"

definition book_inv :: "custom_source \<Rightarrow> bool" where
  "book_inv s \<longleftrightarrow>
     activeRequests (cs_metrics s) = int (card (requests_in working s)) \<and>
     pendingRequests (cs_metrics s) = (if cs_hasResult s then int (card (requests_in registered s)) else 0) \<and>
     (\<forall>i. end_calls s i = (if i < length (cs_requests s) \<and> rq_began (cs_requests s ! i) \<and> \<not> registered (ph s i) then 1 else 0) \<and>
          consume_calls s i = (if i < length (cs_requests s) \<and> rq_began (cs_requests s ! i) then 1 else 0))"

lemma book_cong:
  assumes "length (cs_requests s') = length (cs_requests s)" and "\<And>i. i < length (cs_requests s) \<Longrightarrow> view s' i = view s i"
    and "activeRequests (cs_metrics s') = activeRequests (cs_metrics s)" "pendingRequests (cs_metrics s') = pendingRequests (cs_metrics s)"
    and "cs_hasResult s' = cs_hasResult s" and "\<And>i. end_calls s' i = end_calls s i" "\<And>i. consume_calls s' i = consume_calls s i"
  shows "book_inv s' = book_inv s"
proof -
  have "requests_in working s' = requests_in working s" "requests_in registered s' = requests_in registered s"
    using assms(1,2) by (auto simp: view_def intro!: requests_in_cong)
  moreover have "(i < length (cs_requests s') \<and> rq_began (cs_requests s' ! i)) = (i < length (cs_requests s) \<and> rq_began (cs_requests s ! i))"
    "(i < length (cs_requests s') \<and> rq_began (cs_requests s' ! i) \<and> \<not> registered (ph s' i)) =
       (i < length (cs_requests s) \<and> rq_began (cs_requests s ! i) \<and> \<not> registered (ph s i))" for i
    using assms(1) assms(2) [of i] by (auto simp: view_def)
  ultimately show ?thesis unfolding book_inv_def assms(3-7) by simp
qed

lemma calls_fields [simp]:
  "end_calls (on_req j f s) i = end_calls s i" "end_calls (meter m s) i = end_calls s i" "end_calls (to_phase j p s) i = end_calls s i"
  "consume_calls (on_req j f s) i = consume_calls s i" "consume_calls (meter m s) i = consume_calls s i" "consume_calls (to_phase j p s) i = consume_calls s i"
  "end_calls (log_call c s) i = end_calls s i + (if ends_request i c then 1 else 0)"
  "consume_calls (log_call c s) i = consume_calls s i + (if c = ConsumeCalled i then 1 else 0)"
  by (simp_all add: end_calls_def consume_calls_def)

lemma book_update [simp]:
  "book_inv (s\<lparr>cs_active := a\<rparr>) = book_inv s" "book_inv (s\<lparr>cs_waiters := ws\<rparr>) = book_inv s" "book_inv (s\<lparr>cs_stops := ks\<rparr>) = book_inv s"
  "book_inv (s\<lparr>cs_started := b\<rparr>) = book_inv s" "book_inv (s\<lparr>cs_stopped := b\<rparr>) = book_inv s" "book_inv (s\<lparr>cs_pending := m\<rparr>) = book_inv s"
  "book_inv (s\<lparr>cs_running := rs\<rparr>) = book_inv s" "book_inv (log_call (BeginCalled i) s) = book_inv s" "book_inv (log_call (CallbackCalled i cb k) s) = book_inv s"
  by (rule book_cong; simp add: view_def end_calls_def consume_calls_def)+

lemma book_meter:
  assumes "\<And>m. activeRequests (f m) = activeRequests m" "\<And>m. pendingRequests (f m) = pendingRequests m"
  shows "book_inv (meter f s) = book_inv s"
  by (rule book_cong) (simp_all add: view_def assms)

lemma book_on_req:
  assumes "i < length (cs_requests s) \<Longrightarrow> registered (rq_phase (f (cs_requests s ! i))) = registered (ph s i) \<and>
      working (rq_phase (f (cs_requests s ! i))) = working (ph s i) \<and> rq_began (f (cs_requests s ! i)) = rq_began (cs_requests s ! i)"
  shows "book_inv (on_req i f s) = book_inv s"
  using assms by (intro book_cong) (auto simp: view_def)

lemma book_to_phase:
  assumes "i < length (cs_requests s)" and "registered p = registered (ph s i)" "working p = working (ph s i)"
  shows "book_inv (to_phase i p s) = book_inv s"
  unfolding to_phase_def using assms by (intro book_on_req) simp

lemma book_same:
  assumes "\<And>r. same_phase (rq_phase r) (rq_phase (f r))" "\<And>r. rq_began (f r) = rq_began r"
  shows "book_inv (on_req i f s) = book_inv s"
  using same_phase_groups(1,2) [OF assms(1)] assms(2) by (intro book_on_req) auto

lemma book_acquire_turn:
  assumes "i < length (cs_requests s)" and "ph s i = AcquireWoken"
  shows "book_inv (acquire_turn w c i s) = book_inv s"
  using assms by (auto simp: acquire_turn_def book_to_phase split: option.split)

lemma book_release:
  assumes "\<forall>j \<in> set (cs_waiters s). j < length (cs_requests s) \<and> ph s j = AcquireWaiting"
  shows "book_inv (release_slot s) = book_inv s"
  using assms by (auto simp: release_slot_def Let_def book_to_phase split: list.split)

lemma book_begin_retire: "i < length (cs_requests s) \<Longrightarrow> registered (ph s i) \<Longrightarrow> book_inv (begin_retire i s) = book_inv s"
  by (auto simp: begin_retire_def result_retire_def Let_def intro!: book_on_req)

lemma book_end_callback: "book_inv (end_callback i s) = book_inv s"
  unfolding end_callback_def by (rule book_on_req) (auto split: prod.split)

text \<open>The end of a request: \<open>endRequest\<close> is called.\<close>

lemma book_call_end:
  assumes "book_inv s" and "i < length (cs_requests s)" and "registered (ph s i)" and "rq_began (cs_requests s ! i)"
    and "\<And>m. activeRequests (g m) = activeRequests m" "\<And>m. pendingRequests (g m) = (if cs_hasResult s then pendingRequests m - 1 else pendingRequests m)"
  shows "book_inv (call_end i f Ending (meter g s))"
proof -
  have i: "i \<in> requests_in registered s" "i \<in> requests_in working s" using assms(2,3) by (simp_all add: requests_in_def)
  have "requests_in working (call_end i f Ending (meter g s)) = requests_in working s"
    "requests_in registered (call_end i f Ending (meter g s)) = requests_in registered s - {i}"
    using assms(2,3) i by (auto simp: call_end_def requests_in_on_req)
  moreover have "int (card (requests_in registered s - {i})) = int (card (requests_in registered s)) - 1"
    using card_Suc_Diff1 [OF requests_in_finite i(1)] by simp
  ultimately show ?thesis using assms by (auto simp: book_inv_def call_end_def)
qed

lemma book_begin:
  assumes "book_inv s" and "i < length (cs_requests s)" and "ph s i = Beginning" and "\<not> rq_began (cs_requests s ! i)"
    and "\<And>m. activeRequests (g m) = activeRequests m + 1" "\<And>m. pendingRequests (g m) = (if cs_hasResult s then pendingRequests m + 1 else pendingRequests m)"
  shows "book_inv (log_call (ConsumeCalled i) (meter g (on_req i (begun sid follows a) s)))"
proof -
  let ?s = "log_call (ConsumeCalled i) (meter g (on_req i (begun sid follows a) s))"
  have i: "i \<notin> requests_in registered s" "i \<notin> requests_in working s" using assms(3) by (simp_all add: requests_in_def)
  have "requests_in working ?s = insert i (requests_in working s)" "requests_in registered ?s = insert i (requests_in registered s)"
    using assms(2) by (simp_all add: requests_in_on_req begun_def)
  then show ?thesis using assms i by (auto simp: book_inv_def begun_def)
qed


lemma book_resume:
  assumes "book_inv s" and "slots_inv s" and "phases_inv s" and "i < length (cs_requests s)"
  shows "book_inv (resume_request w i s)"
proof -
  have rel: "book_inv (release_slot (to_phase i (Finished e) s))" if "ph s i = RequestEnded e'" for e e'
  proof -
    have "\<forall>j \<in> set (cs_waiters s). j < length (cs_requests s) \<and> ph (to_phase i (Finished e) s) j = AcquireWaiting"
      using assms(2,4) that by (auto simp: slots_inv_def requests_in_def to_phase_def)
    then show ?thesis using assms(1,4) that by (subst book_release) (simp_all add: book_to_phase)
  qed
  have await: "book_inv (begin_retire i (on_req i (\<lambda>r. r\<lparr>rq_failure := f, rq_waitFailed := b\<rparr>) s))" if "awaiting_phase (ph s i)" for f b
    using assms(1,4) that by (subst book_begin_retire) (auto simp: registered_def book_same)
  have "book_inv (call_end i f Ending (meter (onPendingRemove k) (s\<lparr>cs_pending := m\<rparr>)))" if "ph s i = Retired b" for f k m b
  proof -
    have "cs_hasResult s" "rq_began (cs_requests s ! i)" using phases_at [OF assms(3,4)] that by (auto simp: req_ok_def)
    then show ?thesis using assms(1,4) that by (intro book_call_end) (simp_all add: onPendingRemove_def)
  qed
  then show ?thesis using assms(1,4) rel await
    by (auto simp: resume_request_def Let_def book_to_phase split: req_phase.split option.split)
qed

lemma book_begin_settles:
  assumes "book_inv s" and "phases_inv s" and "i < length (cs_requests s)" and "ph s i = Beginning"
  shows "book_inv (begin_settles w i outcome s)"
proof -
  have nb: "\<not> rq_began (cs_requests s ! i)" using phases_at [OF assms(2,3)] assms(4) by (simp add: req_ok_def)
  have shift: "log_call c (meter f ((meter g s')\<lparr>cs_pending := m\<rparr>)) = (log_call c (meter (f \<circ> g) s'))\<lparr>cs_pending := m\<rparr>" for c f g s' m
    by (cases s') (simp add: meter_def log_call_def)
  have "book_inv (log_call (ConsumeCalled i) (meter (onPendingAdd t sid) ((meter onRequestStart (on_req i (begun sid follows a) s))\<lparr>cs_pending := m\<rparr>)))"
    if "cs_hasResult s" for t sid follows a m
    unfolding shift using assms(1,3,4) nb that
    by (simp del: log_call_fields, intro book_begin) (simp_all add: onPendingAdd_def onRequestStart_def)
  moreover have "book_inv (log_call (ConsumeCalled i) (meter onRequestStart (on_req i (begun sid follows a) s)))" if "\<not> cs_hasResult s" for sid follows a
    using assms(1,3,4) nb that by (intro book_begin) (simp_all add: onRequestStart_def)
  moreover have "book_inv (to_phase i (RequestEnded None) (meter (\<lambda>m. m\<lparr>beginRequestFailed := beginRequestFailed m + 1\<rparr>) s))"
    using assms(1,3,4) by (subst book_to_phase) (simp_all add: book_meter)
  ultimately show ?thesis using pending_exists [OF assms(2,3)]
    by (auto simp: begin_settles_def Let_def split: sum.split bool.split option.split)
qed

lemma book_end_settles:
  assumes "book_inv s" and "phases_inv s" and "i < length (cs_requests s)" and "ph s i = Ending"
  shows "book_inv (end_settles w i outcome s)"
proof -
  let ?s = "\<lambda>f. to_phase i (RequestEnded None) (meter (onRequestEnd f) (on_req i (\<lambda>r. r\<lparr>rq_failure := f\<rparr>) s))"
  have i: "i \<in> requests_in working s" "i \<notin> requests_in registered s" using assms(3,4) by (simp_all add: requests_in_def)
  have "requests_in working (?s f) = requests_in working s - {i}" "requests_in registered (?s f) = requests_in registered s" for f
    using assms(3,4) i by (auto simp: to_phase_def requests_in_on_req)
  moreover have "int (card (requests_in working s - {i})) = int (card (requests_in working s)) - 1"
    using card_Suc_Diff1 [OF requests_in_finite i(1)] by simp
  moreover have "activeRequests (onRequestEnd f m) = activeRequests m - 1" "pendingRequests (onRequestEnd f m) = pendingRequests m" for f m
    by (simp_all add: onRequestEnd_def Let_def)
  ultimately have "book_inv (?s f)" for f
    using assms(1,3,4) by (auto simp: book_inv_def to_phase_def)
  then show ?thesis using assms(4) by (simp add: end_settles_def Let_def)
qed

lemma book_stop:
  assumes "book_inv s" and "slots_inv s"
  shows "book_inv (source_stop w why s)"
proof (cases "cs_started s")
  case True
  have "view (source_stop w why s) i = view s i" if "i < length (cs_requests s)" for i
  proof -
    have "rq_began (cs_requests (source_stop w why s) ! i) = rq_began (cs_requests s ! i)" using stop_nth(1) [OF True that] by simp
    then show ?thesis using stop_phases [OF assms(2) True that, of w why] same_phase_groups(1,2) by (auto simp: view_def)
  qed
  then show ?thesis using assms(1) True
    by (subst book_cong [of _ s]) (simp_all add: stop_nth(2), simp_all add: source_stop_def end_calls_def consume_calls_def)
qed (use assms in \<open>simp add: source_stop_def\<close>)

lemma book_new_request:
  assumes "book_inv s"
  shows "book_inv (s\<lparr>cs_requests := cs_requests s @ [request_new a]\<rparr>)"
proof -
  have "requests_in P (s\<lparr>cs_requests := cs_requests s @ [request_new a]\<rparr>) = requests_in P s" if "\<not> P AcquireWoken" for P
    using that by (auto simp: requests_in_def nth_append less_Suc_eq request_new_def)
  then show ?thesis using assms by (auto simp: book_inv_def end_calls_def consume_calls_def nth_append request_new_def less_Suc_eq)
qed

lemma book_step:
  assumes "book_inv s" and "slots_inv s" and "phases_inv s"
  shows "book_inv (source_step w e s)"
proof (cases e)
  case SourceStart
  then show ?thesis using assms(1) by (simp add: source_start_def)
next
  case (SourceStop why)
  then show ?thesis using book_stop [OF assms(1,2)] by simp
next
  case (MessageArrives c a)
  then show ?thesis using assms(1) book_new_request [OF assms(1)]
    by (auto simp: handle_message_def book_acquire_turn request_new_def)
next
  case (Resumes i)
  then show ?thesis using assms book_resume by simp
next
  case (BeginSettles i r)
  then show ?thesis using assms book_begin_settles by (simp add: at_phase_def)
next
  case (ConsumeSettles i r)
  have "book_inv (call_end i f Ending s)" if "\<not> cs_hasResult s" "i < length (cs_requests s)" "ph s i = Consuming" for f
    using book_call_end [of s i id] assms(1) phases_at [OF assms(3) that(2)] that by (simp add: req_ok_def meter_def)
  moreover have "book_inv (begin_retire i (on_req i (\<lambda>r. r\<lparr>rq_failure := f\<rparr>) s))" if "i < length (cs_requests s)" "ph s i = Consuming" for f
    using assms(1) that by (subst book_begin_retire) (simp_all add: book_same)
  ultimately show ?thesis using assms(1) ConsumeSettles by (auto simp: consume_settles_def at_phase_def Let_def book_to_phase)
next
  case (EndSettles i r)
  then show ?thesis using assms book_end_settles phases_at [OF assms(3)] by (auto simp: at_phase_def req_ok_def)
next
  case (ResultArrives sid mid)
  have "book_inv (on_req i (\<lambda>r. r\<lparr>rq_result := res\<rparr>) s)" for i res using assms(1) by (simp add: book_same)
  then show ?thesis using assms(1) ResultArrives
    by (auto simp: consume_result_def Let_def book_end_callback book_meter split: option.split sum.split)
next
  case (ResultCallbackSettles k r)
  have "book_inv (on_req i (\<lambda>r. r\<lparr>rq_result := res\<rparr>) (s\<lparr>cs_running := rs\<rparr>))" for i res rs using assms(1) by (simp add: book_same)
  then show ?thesis using assms(1) ResultCallbackSettles
    by (auto simp: result_callback_settles_def Let_def book_end_callback book_meter split: option.split prod.split bool.split)
next
  case (DoneCalled i)
  have "book_inv (on_req i call_done s)" using assms(1) by (subst book_same) (simp_all, simp add: call_done_def)
  then show ?thesis using assms(1) DoneCalled by simp
qed (use assms in \<open>auto simp: stop_drained_def source_stop_timed_out_def at_phase_def book_acquire_turn book_same split: option.split stop_call.split\<close>)

section \<open>What holds in every run\<close>

definition source_inv :: "custom_source \<Rightarrow> bool" where
  "source_inv s \<longleftrightarrow> slots_inv s \<and> phases_inv s \<and> callbacks_inv s \<and> book_inv s"

lemma source_inv_run: "source_inv (source_run (source_new n h) es)"
proof -
  have "source_inv s \<Longrightarrow> source_inv (source_run s es)" for s
  proof (induction es arbitrary: s)
    case (Cons x es)
    have "source_inv (source_step (fst x) (snd x) s)"
      using Cons.prems slots_step phases_step callbacks_step book_step by (simp add: source_inv_def)
    then show ?case using Cons.IH by (simp add: source_run_def case_prod_unfold)
  qed (simp add: source_run_def)
  moreover have "source_inv (source_new n h)"
    by (auto simp: source_inv_def slots_inv_def phases_inv_def callbacks_inv_def book_inv_def source_new_def requests_in_def metrics_new_def
        end_calls_def consume_calls_def)
  ultimately show ?thesis by blast
qed





section \<open>Concurrency\<close>

text \<open>What \<open>concurrency\<close> returns in an event: not zero, which is no limit, and at most \<open>c\<close>.\<close>

fun concurrency_asked :: "source_event \<Rightarrow> number option" where
  "concurrency_asked (MessageArrives n a) = Some n"
| "concurrency_asked (WaiterTurn i n) = Some n"
| "concurrency_asked _ = None"

definition limits_to :: "nat \<Rightarrow> number option \<Rightarrow> bool" where
  "limits_to c a = (case a of None \<Rightarrow> True | Some n \<Rightarrow> n \<noteq> Finite 0 \<and> \<not> num_less (Finite (of_nat c)) n)"

lemma active_fields [simp]:
  "cs_active (call_end i f p s) = cs_active s" "cs_active (begin_retire i s) = cs_active s" "cs_active (end_callback i s) = cs_active s"
  "cs_active (release_slot s) = cs_active s - 1"
  by (simp_all add: call_end_def begin_retire_def end_callback_def release_slot_def Let_def split: prod.split list.split)

lemma active_acquire_turn:
  assumes "cs_active s \<le> int c" and "limits_to c (Some n)"
  shows "cs_active (acquire_turn w n i s) \<le> int c"
proof -
  have "cs_active s + 1 \<le> int c" if safe: "is_safe_integer n" and less: "num_less (Finite (of_int (cs_active s))) n"
  proof -
    obtain q where n: "n = Finite q" using safe by (cases n) auto
    have "of_int (cs_active s) < q" "q \<le> of_nat c" using less assms(2) by (simp_all add: n limits_to_def)
    then have "(of_int (cs_active s) :: rat) < of_int (int c)" by simp
    then show ?thesis by (simp only: of_int_less_iff)
  qed
  then show ?thesis using assms by (auto simp: acquire_turn_def limits_to_def split: option.split)
qed

lemma active_other:
  assumes "concurrency_asked e = None"
  shows "cs_active (source_step w e s) \<le> cs_active s"
  using assms
  by (cases e) (auto simp: source_start_def source_stop_def stop_drained_def source_stop_timed_out_def resume_request_def begin_settles_def
      consume_settles_def end_settles_def consume_result_def result_callback_settles_def Let_def split: option.split stop_call.split req_phase.split sum.split
      bool.split prod.split)

lemma active_step:
  assumes "cs_active s \<le> int c" and "limits_to c (concurrency_asked e)"
  shows "cs_active (source_step w e s) \<le> int c"
proof (cases "concurrency_asked e")
  case None
  then show ?thesis using active_other [of e w s] assms(1) by linarith
next
  case (Some n)
  then show ?thesis using assms active_acquire_turn [of _ c n w] by (cases e) (auto simp: handle_message_def)
qed

text \<open>
  C32. If \<open>concurrency\<close> answers with positive limits of at most \<open>c\<close> throughout a run, never more than \<open>c\<close> requests hold a
  slot at the same time.
\<close>

theorem source_concurrency:
  assumes "list_all (\<lambda>(w, e). limits_to c (concurrency_asked e)) es"
  shows "card (requests_in holds_slot (source_run (source_new n h) es)) \<le> c"
proof -
  have "cs_active s \<le> int c \<Longrightarrow> cs_active (source_run s es) \<le> int c" for s
    using assms
  proof (induction es arbitrary: s)
    case (Cons x es)
    then have "cs_active (source_step (fst x) (snd x) s) \<le> int c" using active_step by (simp add: case_prod_unfold)
    then show ?case using Cons by (simp add: source_run_def case_prod_unfold)
  qed (simp add: source_run_def)
  then have "cs_active (source_run (source_new n h) es) \<le> int c" by (simp add: source_new_def)
  then show ?thesis using source_inv_run [of n h es] by (simp add: source_inv_def slots_inv_def)
qed


section \<open>Wake-ups\<close>

text \<open>A request that was woken and will take a slot if one is free.\<close>

definition ready :: "custom_source \<Rightarrow> nat set" where
  "ready s = {i. i < length (cs_requests s) \<and> ph s i = AcquireWoken \<and> rq_taskAbort (cs_requests s ! i) = None}"

lemma ready_finite [simp]: "finite (ready s)"
  by (simp add: ready_def)

definition wake_inv :: "nat \<Rightarrow> custom_source \<Rightarrow> bool" where
  "wake_inv c s \<longleftrightarrow>
     (cs_stopped s \<longrightarrow> cs_waiters s = []) \<and> (\<forall>i \<in> set (cs_waiters s). rq_taskAbort (cs_requests s ! i) = None) \<and>
     (cs_waiters s \<noteq> [] \<longrightarrow> int c \<le> cs_active s + int (card (ready s)))"

fun aborts_task :: "source_event \<Rightarrow> bool" where
  "aborts_task (TaskAborts i why) = True"
| "aborts_task _ = False"

lemma wake_cong:
  assumes "slots_inv s" "cs_waiters s' = cs_waiters s" "cs_active s' = cs_active s" "cs_stopped s' = cs_stopped s" "length (cs_requests s') = length (cs_requests s)"
    and "\<And>i. i < length (cs_requests s) \<Longrightarrow> rq_taskAbort (cs_requests s' ! i) = rq_taskAbort (cs_requests s ! i) \<and> (ph s' i = AcquireWoken \<longleftrightarrow> ph s i = AcquireWoken)"
  shows "wake_inv c s' = wake_inv c s"
proof -
  have "ready s' = ready s" using assms(5,6) by (auto simp: ready_def)
  moreover have "\<forall>i \<in> set (cs_waiters s). i < length (cs_requests s)" using assms(1) by (auto simp: slots_inv_def requests_in_def)
  ultimately show ?thesis using assms by (auto simp: wake_inv_def)
qed

text \<open>The steps that leave waiters and slots alone.\<close>

definition quiet_step :: "custom_source \<Rightarrow> custom_source \<Rightarrow> bool" where
  "quiet_step s s' \<longleftrightarrow>
     cs_waiters s' = cs_waiters s \<and> cs_active s' = cs_active s \<and> cs_stopped s' = cs_stopped s \<and> length (cs_requests s') = length (cs_requests s) \<and>
     (\<forall>i < length (cs_requests s). rq_taskAbort (cs_requests s' ! i) = rq_taskAbort (cs_requests s ! i) \<and> (ph s' i = AcquireWoken \<longleftrightarrow> ph s i = AcquireWoken))"

lemma quiet_wake: "slots_inv s \<Longrightarrow> quiet_step s s' \<Longrightarrow> wake_inv c s' = wake_inv c s"
  by (rule wake_cong) (simp_all add: quiet_step_def)

lemma quiet_step_refl [simp]: "quiet_step s s"
  by (simp add: quiet_step_def)

lemma quiet_update [simp]:
  "quiet_step s (meter f s') = quiet_step s s'" "quiet_step s (log_call c s') = quiet_step s s'" "quiet_step s (s'\<lparr>cs_pending := m\<rparr>) = quiet_step s s'"
  "quiet_step s (s'\<lparr>cs_running := rs\<rparr>) = quiet_step s s'" "quiet_step s (s'\<lparr>cs_stops := ks\<rparr>) = quiet_step s s'" "quiet_step s (s'\<lparr>cs_started := b\<rparr>) = quiet_step s s'"
  by (simp_all add: quiet_step_def)

lemma quiet_on_req:
  assumes "quiet_step s s'"
    and "i < length (cs_requests s') \<Longrightarrow> rq_taskAbort (f (cs_requests s' ! i)) = rq_taskAbort (cs_requests s' ! i) \<and>
      (rq_phase (f (cs_requests s' ! i)) = AcquireWoken \<longleftrightarrow> ph s' i = AcquireWoken)"
  shows "quiet_step s (on_req i f s')"
  using assms by (auto simp: quiet_step_def)

lemma quiet_to_phase:
  assumes "quiet_step s s'" and "ph s' i \<noteq> AcquireWoken" and "p \<noteq> AcquireWoken"
  shows "quiet_step s (to_phase i p s')"
  unfolding to_phase_def using assms by (intro quiet_on_req) simp_all

lemma quiet_begin_retire:
  assumes "quiet_step s s'" and "ph s' i \<noteq> AcquireWoken"
  shows "quiet_step s (begin_retire i s')"
  using assms by (auto simp: begin_retire_def result_retire_def Let_def intro!: quiet_on_req)

lemma quiet_call_end:
  assumes "quiet_step s s'" and "ph s' i \<noteq> AcquireWoken" and "p \<noteq> AcquireWoken"
  shows "quiet_step s (call_end i f p s')"
  using assms by (auto simp: call_end_def intro!: quiet_on_req)

lemma quiet_end_callback: "quiet_step s s' \<Longrightarrow> quiet_step s (end_callback i s')"
  by (auto simp: end_callback_def intro!: quiet_on_req split: prod.splits if_splits)

lemma wake_acquire_turn:
  assumes "wake_inv c s" and "i < length (cs_requests s)" and "ph s i = AcquireWoken" and "i \<notin> set (cs_waiters s)" and "0 < c" "safe_int (int c)"
  shows "wake_inv c (acquire_turn w (Finite (of_nat c)) i s)"
proof -
  have upd: "ready (to_phase i p s') = ready s' - {i}" if "i < length (cs_requests s')" "p \<noteq> AcquireWoken" for p s'
    using that by (auto simp: ready_def to_phase_def split: if_splits)
  have fld [simp]: "ready (s\<lparr>cs_active := a\<rparr>) = ready s" "ready (s\<lparr>cs_waiters := ws\<rparr>) = ready s" for a ws by (simp_all add: ready_def)
  have ab: "rq_taskAbort (cs_requests (to_phase i p s') ! j) = rq_taskAbort (cs_requests s' ! j)" for p s' j
    by (cases "j = i"; cases "i < length (cs_requests s')") (simp_all add: to_phase_def on_req_def list_update_beyond)
  show ?thesis
  proof (cases "rq_taskAbort (cs_requests s ! i)")
    case None
    then have i: "i \<in> ready s" using assms(2,3) by (simp add: ready_def)
    then have "int (card (ready s - {i})) = int (card (ready s)) - 1" using card_Suc_Diff1 [OF ready_finite i] by simp
    moreover have "(of_int (cs_active s) :: rat) < of_nat c \<longleftrightarrow> cs_active s < int c" by (metis of_int_less_iff of_int_of_nat_eq)
    ultimately show ?thesis using assms None by (auto simp: acquire_turn_def wake_inv_def ab upd)
  next
    case (Some e)
    then have "ready s - {i} = ready s" by (auto simp: ready_def)
    then show ?thesis using assms Some by (auto simp: acquire_turn_def wake_inv_def ab upd)
  qed
qed

lemma wake_release:
  assumes "wake_inv c s" and "slots_inv s" and "i < length (cs_requests s)" and "holds_slot (ph s i)"
  shows "wake_inv c (release_slot (to_phase i (Finished e) s))"
proof -
  let ?s = "(to_phase i (Finished e) s)\<lparr>cs_active := cs_active s - 1\<rparr>"
  have ni: "ph s i \<noteq> AcquireWoken" "ph s i \<noteq> AcquireWaiting" using assms(4) by auto
  have q: "ready ?s = ready s" using ni assms(3) by (auto simp: ready_def to_phase_def split: if_splits)
  show ?thesis
  proof (cases "cs_waiters s")
    case Nil
    then show ?thesis using assms(1) by (simp add: release_slot_def wake_inv_def to_phase_def)
  next
    case (Cons j js)
    have j: "j < length (cs_requests s)" "ph s j = AcquireWaiting" "j \<noteq> i" "rq_taskAbort (cs_requests s ! j) = None"
      using assms(1,2) Cons ni by (auto simp: slots_inv_def requests_in_def wake_inv_def)
    have js: "k < length (cs_requests s) \<and> k \<noteq> i \<and> k \<noteq> j \<and> rq_taskAbort (cs_requests s ! k) = None" if "k \<in> set js" for k
      using assms(1,2) Cons ni that by (auto simp: slots_inv_def requests_in_def wake_inv_def)
    let ?t = "to_phase j AcquireWoken (?s\<lparr>cs_waiters := js\<rparr>)"
    have "ready ?t = insert j (ready ?s)" using j by (auto simp: ready_def to_phase_def split: if_splits)
    moreover have "j \<notin> ready s" using j(2) by (simp add: ready_def)
    ultimately have "int (card (ready ?t)) = int (card (ready s)) + 1" by (simp add: q)
    then show ?thesis using assms(1) Cons js by (auto simp: release_slot_def wake_inv_def to_phase_def)
  qed
qed

lemma quiet_resume:
  assumes "\<nexists>e. ph s i = RequestEnded e" and "i < length (cs_requests s)"
  shows "quiet_step s (resume_request w i s)"
  using assms
  by (auto simp: resume_request_def Let_def intro!: quiet_to_phase quiet_begin_retire quiet_call_end quiet_on_req split: req_phase.split option.split)

lemma wake_stop:
  assumes "wake_inv c s"
  shows "wake_inv c (source_stop w why s)"
  using assms by (auto simp: source_stop_def wake_inv_def ready_def)

lemma quiet_begin:
  assumes "ph s i = Beginning" and "i < length (cs_requests s)"
  shows "quiet_step s (begin_settles w i r s)"
  using assms by (auto simp: begin_settles_def Let_def begun_def intro!: quiet_to_phase quiet_call_end quiet_on_req split: sum.split bool.split option.split)

lemma quiet_other:
  assumes "concurrency_asked e = None" and "\<not> aborts_task e" and "\<And>i. e \<noteq> Resumes i" "\<And>why. e \<noteq> SourceStop why" "e \<noteq> SourceStart"
  shows "quiet_step s (source_step w e s)"
proof (cases e)
  case (ConsumeSettles i r)
  then show ?thesis
    by (auto simp: consume_settles_def at_phase_def Let_def intro!: quiet_to_phase quiet_begin_retire quiet_call_end quiet_on_req split: option.split)
next
  case (EndSettles i r)
  then show ?thesis by (auto simp: end_settles_def at_phase_def Let_def intro!: quiet_to_phase quiet_on_req split: option.split)
next
  case (ResultArrives sid mid)
  then show ?thesis by (auto simp: consume_result_def Let_def intro!: quiet_end_callback quiet_on_req split: option.split sum.split)
next
  case (ResultCallbackSettles k r)
  then show ?thesis
    by (auto simp: result_callback_settles_def Let_def intro!: quiet_end_callback quiet_on_req split: option.split prod.split bool.split)
next
  case (DoneCalled i)
  then show ?thesis by (auto simp: call_done_def intro!: quiet_on_req split: if_splits)
next
  case (ContextAborts i why)
  then show ?thesis by (auto simp: abort_context_def Let_def intro!: quiet_on_req split: if_splits)
next
  case (StopDrained k)
  have "quiet_step s (s\<lparr>cs_stops := ks, cs_started := b\<rparr>)" for ks b by simp
  then show ?thesis using StopDrained by (auto simp: stop_drained_def split: option.split stop_call.split)
qed (use assms in \<open>auto simp: source_stop_timed_out_def at_phase_def intro!: quiet_on_req quiet_begin split: option.split stop_call.split\<close>)

lemma wake_step:
  assumes "wake_inv c s" and "slots_inv s" and "0 < c" "safe_int (int c)" and "concurrency_asked e = None \<or> concurrency_asked e = Some (Finite (of_nat c))" and "\<not> aborts_task e"
  shows "wake_inv c (source_step w e s)"
proof (cases e)
  case (MessageArrives n a)
  let ?s = "s\<lparr>cs_requests := cs_requests s @ [request_new a]\<rparr>"
  have w: "\<forall>i \<in> set (cs_waiters s). i < length (cs_requests s)" using assms(2) by (auto simp: slots_inv_def requests_in_def)
  have "ready s \<subseteq> ready ?s" by (auto simp: ready_def nth_append)
  then have "card (ready s) \<le> card (ready ?s)" by (intro card_mono) simp_all
  then have "wake_inv c ?s" using assms(1) w by (auto simp: wake_inv_def nth_append)
  then have "wake_inv c (acquire_turn w (Finite (of_nat c)) (length (cs_requests s)) ?s)"
    using assms(3,4) w by (intro wake_acquire_turn) (auto simp: request_new_def)
  then show ?thesis using assms(1,5) MessageArrives by (simp add: handle_message_def)
next
  case (WaiterTurn i n)
  then show ?thesis using assms waiters_waiting [OF assms(2), of i] by (auto simp: at_phase_def intro!: wake_acquire_turn)
next
  case (Resumes i)
  show ?thesis
  proof (cases "i < length (cs_requests s) \<and> (\<exists>e. ph s i = RequestEnded e)")
    case True
    then obtain x where x: "ph s i = RequestEnded x" by blast
    then show ?thesis using Resumes True wake_release [OF assms(1,2), of i x] by (simp add: resume_request_def)
  next
    case False
    then show ?thesis using Resumes assms(1) quiet_wake [OF assms(2) quiet_resume, of i c w] by auto
  qed
next
  case SourceStart
  then show ?thesis using assms(1) by (auto simp: source_start_def wake_inv_def ready_def)
next
  case (SourceStop why)
  then show ?thesis using assms(1) wake_stop by simp
qed (use assms quiet_wake [OF assms(2) quiet_other, of e c w] in auto)

text \<open>
  C31. Provided \<open>concurrency\<close> always answers \<open>c\<close>, a positive safe integer, and no task is cancelled by its caller, no slot is idle
  while a request waits for one: as long as there are waiters, the requests that hold a slot and those that were woken to
  take one are at least \<open>c\<close>, and the source is not stopped. (A stop, which cancels every task, is allowed.)
\<close>

theorem slot_never_idle:
  assumes "0 < c" "safe_int (int c)" and "list_all (\<lambda>(w, e). concurrency_asked e \<in> {None, Some (Finite (of_nat c))} \<and> \<not> aborts_task e) es"
    and "cs_waiters (source_run (source_new n h) es) \<noteq> []"
  shows "c \<le> card (requests_in holds_slot (source_run (source_new n h) es)) + card (ready (source_run (source_new n h) es)) \<and>
    \<not> cs_stopped (source_run (source_new n h) es)"
proof -
  have "slots_inv s \<Longrightarrow> wake_inv c s \<Longrightarrow> wake_inv c (source_run s es)" for s
    using assms(3)
  proof (induction es arbitrary: s)
    case (Cons x es)
    then have "wake_inv c (source_step (fst x) (snd x) s)" "slots_inv (source_step (fst x) (snd x) s)"
      using wake_step [of c s] slots_step assms(1,2) by (auto simp: case_prod_unfold)
    then show ?case using Cons by (simp add: source_run_def case_prod_unfold)
  qed (simp add: source_run_def)
  moreover have "slots_inv (source_new n h)" "wake_inv c (source_new n h)"
    by (auto simp: slots_inv_def wake_inv_def source_new_def requests_in_def)
  ultimately have "wake_inv c (source_run (source_new n h) es)" by blast
  then show ?thesis using assms(4) source_inv_run [of n h es] by (auto simp: wake_inv_def source_inv_def slots_inv_def)
qed


subsection \<open>A wake-up that is lost\<close>

text \<open>
  One slot: the first request has it, two wait. The caller of the second gives up while it waits, which removes it from no
  queue; the end of the first request wakes the second, which throws and wakes nobody.
\<close>

definition source_world :: world where
  "source_world = \<lparr>clock = 0, abort_reason = \<lambda>s. None, next_error = 7\<rparr>"

definition one_slot :: source_event where
  "one_slot = MessageArrives (Finite 1) None"

definition lost_wakeup :: "(world \<times> source_event) list" where
  "lost_wakeup = map (Pair source_world)
     [SourceStart, one_slot, one_slot, one_slot, TaskAborts 1 (NonError ''cancelled''), Resumes 0, BeginSettles 0 (Inr (''a'', True, None)),
      ConsumeSettles 0 None, EndSettles 0 None, Resumes 0, WaiterTurn 1 (Finite 1)]"

definition first_waiting :: "(world \<times> source_event) list" where
  "first_waiting = map (Pair source_world) [SourceStart, one_slot, one_slot, Resumes 0]"

text \<open>Nothing that is under way can wake a waiter: only a new message or a stop.\<close>

fun from_outside :: "source_event \<Rightarrow> bool" where
  "from_outside (MessageArrives n a) = True"
| "from_outside (SourceStop why) = True"
| "from_outside _ = False"

definition stranded :: "custom_source \<Rightarrow> bool" where
  "stranded s \<longleftrightarrow>
     (\<forall>i < length (cs_requests s). ph s i = AcquireWaiting \<or> (\<exists>e. ph s i = Finished e)) \<and> 2 < length (cs_requests s) \<and> ph s 2 = AcquireWaiting \<and>
     cs_active s = 0 \<and> cs_pending s = None \<and> cs_running s = [] \<and> \<not> cs_hasResult s"

lemma stranded_on_req:
  assumes "stranded s" and "i < length (cs_requests s)" and "rq_phase (f (cs_requests s ! i)) = ph s i"
  shows "stranded (on_req i f s)"
  using assms by (auto simp: stranded_def)

lemma stranded_step:
  assumes "stranded s" and "\<not> from_outside e"
  shows "stranded (source_step w e s)"
proof -
  have ph: "ph s i = AcquireWaiting \<or> (\<exists>e. ph s i = Finished e)" if "i < length (cs_requests s)" for i using assms(1) that by (simp add: stranded_def)
  have no: "\<not> at_phase s i P" if "\<not> P AcquireWaiting" "\<And>e. \<not> P (Finished e)" for i P using ph that by (force simp: at_phase_def)
  have same: "same_phase (ph s i) q \<Longrightarrow> q = ph s i" if "i < length (cs_requests s)" for i q using ph [OF that] by auto
  have ps: "cs_pending s = None" "cs_running s = []" using assms(1) by (simp_all add: stranded_def)
  show ?thesis
  proof (cases e)
    case (Resumes i)
    then show ?thesis using assms(1) ph [of i] by (auto simp: resume_request_def)
  next
    case (TaskAborts i why)
    then show ?thesis using assms(1) same same_phase_abort(2) by (auto simp: at_phase_def intro!: stranded_on_req)
  next
    case (ContextAborts i why)
    then show ?thesis using assms(1) same same_phase_abort(1) by (auto intro!: stranded_on_req)
  next
    case (DoneCalled i)
    then show ?thesis using assms(1) same same_phase_done by (auto intro!: stranded_on_req)
  next
    case (SetCallback i m cb)
    then show ?thesis using assms(1) by (auto intro!: stranded_on_req)
  next
    case (ResultArrives sid mid)
    then show ?thesis using assms(1) ps by (auto simp: consume_result_def stranded_def split: option.split)
  qed (use assms no ps in \<open>auto simp: source_start_def stop_drained_def source_stop_timed_out_def result_callback_settles_def stranded_def
      split: option.split stop_call.split\<close>)
qed

lemma stranded_run: "stranded s \<Longrightarrow> stranded (source_run s (filter (\<lambda>(w, e). \<not> from_outside e) es))"
proof (induction es arbitrary: s)
  case (Cons x es)
  then show ?case using stranded_step [OF Cons.prems] by (simp add: source_run_def case_prod_unfold)
qed (simp add: source_run_def)

lemma lost_wakeup_state:
  "let s = source_run (source_new ''in'' False) lost_wakeup
   in map rq_phase (cs_requests s) = [Finished None, Finished (Some (ErrorObj 7 ''Error'' ''cancelled'')), AcquireWaiting] \<and>
      cs_active s = 0 \<and> cs_pending s = None \<and> cs_running s = [] \<and> \<not> cs_hasResult s \<and> cs_started s \<and> \<not> cs_stopped s"
  by code_simp

text \<open>
  C33. The queue of waiters can lose a wake-up: after the run above the third request waits although no request holds or is
  about to take the one slot, the source is started and not stopped, and no event of what is under way changes that, whatever the
  handlers, callbacks and signals do: without another message or a stop, the request waits for ever.
\<close>

theorem aborted_waiter_loses_wakeup:
  "let s = source_run (source_new ''in'' False) lost_wakeup
   in cs_started s \<and> \<not> cs_stopped s \<and>
      (\<forall>es. let t = source_run s (filter (\<lambda>(w, e). \<not> from_outside e) es) in ph t 2 = AcquireWaiting \<and> cs_active t = 0)"
proof -
  let ?s = "source_run (source_new ''in'' False) lost_wakeup"
  have st: "cs_started ?s \<and> \<not> cs_stopped ?s"
    and ps: "map rq_phase (cs_requests ?s) = [Finished None, Finished (Some (ErrorObj 7 ''Error'' ''cancelled'')), AcquireWaiting]"
    and fs: "cs_active ?s = 0 \<and> cs_pending ?s = None \<and> cs_running ?s = [] \<and> \<not> cs_hasResult ?s"
    using lost_wakeup_state unfolding Let_def by blast+
  have len: "length (cs_requests ?s) = 3" using arg_cong [OF ps, of length] by simp
  have "ph ?s i = [Finished None, Finished (Some (ErrorObj 7 ''Error'' ''cancelled'')), AcquireWaiting] ! i" if "i < 3" for i
    using that len by (simp flip: ps)
  then have "stranded ?s" using fs by (auto simp: stranded_def len less_Suc_eq numeral_3_eq_3)
  then show ?thesis using st stranded_run by (fastforce simp: Let_def stranded_def)
qed

theorem source_concurrency_witness:
  "list_all (\<lambda>(w, e). limits_to 1 (concurrency_asked e)) lost_wakeup \<and> card (requests_in holds_slot (source_run (source_new ''in'' False) lost_wakeup)) \<le> 1"
proof -
  have "list_all (\<lambda>(w, e). limits_to 1 (concurrency_asked e)) lost_wakeup" by (simp add: lost_wakeup_def one_slot_def limits_to_def)
  then show ?thesis using source_concurrency by blast
qed

theorem slot_never_idle_witness:
  "cs_waiters (source_run (source_new ''in'' False) first_waiting) = [1] \<and>
   1 \<le> card (requests_in holds_slot (source_run (source_new ''in'' False) first_waiting)) + card (ready (source_run (source_new ''in'' False) first_waiting))"
proof -
  have w: "cs_waiters (source_run (source_new ''in'' False) first_waiting) = [1]" by code_simp
  have "list_all (\<lambda>(w, e). concurrency_asked e \<in> {None, Some (Finite (of_nat 1))} \<and> \<not> aborts_task e) first_waiting"
    by (simp add: first_waiting_def one_slot_def)
  then show ?thesis using w slot_never_idle [of 1 first_waiting "''in''" False] by (simp add: safe_int_def max_safe_integer_def)
qed

end
