(* ===== verification/Spec2Isabelle.thy ===== *)
theory Spec2Isabelle
  imports TaskPool PriorityTaskPool DelayPool RotatingMap ConfigDocument RuntimeConfig ConfigLoader ConfigArguments
    SerdeRegistry MessageContext JoinStorage TaskRegistry Callers SubStreamCall ServiceRuntime StreamFlow CustomSource
begin

text \<open>
  A verification of the runtime library under \<open>src/runtime\<close>: the pools that run the work of a
  service, the keyed store, the configuration a service is started from, and the serdes that carry
  values between services.

  \<^bold>\<open>The program.\<close> A service is a graph of streams. Its operators hand work to pools (\<open>pool/\<close>): a
  task pool runs tasks in the order they came, a priority pool by priority, a delay pool after a
  delay. State that expires by key lives in a rotating map (\<open>store/\<close>). Ids, names, pools and links come
  from a configuration (\<open>config/\<close>) that is read from YAML files and the environment, merged, parsed,
  indexed, checked for dangling references, published through a store and polled for changes.
  Values cross process boundaries through serdes (\<open>serde/\<close>) that a registry finds by type name.

  \<^bold>\<open>The theories.\<close>
  \<^item> \<open>Prelude\<close>: results with errors, array reads, numbers of JavaScript, the insertion-ordered \<open>Map\<close>.
  \<^item> \<open>RuntimeContext\<close> (\<open>context.ts\<close>, \<open>errors.ts\<close>): thrown values, the clock and the abort signals, and
    what the pools read of a context.
  \<^item> \<open>MessageContext\<close> (\<open>context.ts\<close>): signals composed with deadlines and combined with one another, and
    every way to derive a message context. Shown: cancellation and deadlines are inherited,
    \<open>withoutCancellation\<close> cuts them off, the transported headers make an equal context.
  \<^item> \<open>IndexedHeap\<close>, \<open>FifoQueue\<close> (\<open>pool/indexed-heap.ts\<close>, \<open>pool/fifo-queue.ts\<close>): the array heap with
    its position map and the doubly linked queue in an explicit store. Shown: the heap is a priority
    queue for every comparison that keeps the contract \<open>comparator\<close>; the queue is a list.
  \<^item> \<open>PoolCore\<close>, \<open>PoolProgress\<close>, \<open>TaskPool\<close>, \<open>PriorityTaskPool\<close> (\<open>pool/task-pool.ts\<close>,
    \<open>priority-task-pool.ts\<close>, \<open>pool-support.ts\<close>, \<open>task-pool-metrics.ts\<close>): the two pools are one machine
    over the operations of their queue, proved once in a locale and interpreted on the two queues. Its
    events are the calls of the methods, aborts, microtasks and completions, in every order. Shown:
    accounting, concurrency bound, order of starts, drain after \<open>stop\<close>.
  \<^item> \<open>DelayPool\<close> (\<open>pool/delay-pool.ts\<close>): the machine of the delay pool with its timer. Shown: the
    timer's loop ends, no task starts early, the timer serves every waiting task in order, accounting.
  \<^item> \<open>RotatingMap\<close> (\<open>store/rotating-map.ts\<close>): shards of two generations and their rotation. Shown: the
    map answers as a plain map whatever the rotations.
  \<^item> \<open>JoinStorage\<close> (\<open>store/hash-map-join-storage.ts\<close>): the groups of values joined by key, the chain of
    operations of each group, deadlines, expiry and rotation, as a machine of events. Shown: exact
    delivery, groups that complete once, exact gauges, and a call on a new storage that does not end under an aborted context.
  \<^item> \<open>TaskRegistry\<close> (\<open>task-registry.ts\<close>): the registry of background tasks as a machine of events. Shown:
    it drains once it accepts no more work, and a drain that resolves leaves nothing behind.
  \<^item> \<open>Callers\<close> (\<open>caller.ts\<close>, \<open>caller-factory.ts\<close>, \<open>counted-caller.ts\<close>, the pools of \<open>service-app.ts\<close>): the
    pools a service makes, the caller of each link, messages handed to pools and to the registry, call
    counts. Shown: every link has its caller, reloads keep the pools usable, no message is lost or run twice.
  \<^item> \<open>SubStreamCall\<close> (\<open>operators/substream.ts\<close>): one call of a sub-stream as a machine of events, with calls of the
    collector that may re-enter it. Shown: the collector is never called after the end and, unless it re-enters its own call, has
    one callback at a time; how the call ends, and what a collector that re-enters breaks.
  \<^item> \<open>StreamGraph\<close> (\<open>operators/\<close>, \<open>consumed-stream.ts\<close>, \<open>environment/runtime-environment.ts\<close>): the constructors of
    all operators on an explicit store of streams, connections, registration, the build, the check of the
    topology. Shown: the links of an assembled graph are the connections that were asked for, and which graphs are accepted.
  \<^item> \<open>StreamFlow\<close> (\<open>operators/\<close>): what every operator does with a message, followed along the direct calls of an
    assembled graph. Shown: messages come to an end when no loop consists of direct calls alone, a split is a sequential
    dispatch, the default case selects the last branch that fits.
  \<^item> \<open>ServiceRuntime\<close> (\<open>service-runtime.ts\<close>, \<open>lifecycle.ts\<close>): the start and stop of a service as a machine of
    events: startup with its rollback, attempts to stop with their phases, joined and repeated stops,
    deadlines. Shown: what a stop that returns has done, components stopped once and in order, startups that complete.
  \<^item> \<open>CustomSource\<close> (\<open>datasource/localsource/custom.ts\<close>, the request metrics of \<open>data-source.ts\<close>): the requests of a
    custom source as a machine of events: slots and waiters, the calls of the handler, results and their callbacks, aborts,
    start and stop. Shown: exact counts and gauges, a handler that ends each request once and after its callbacks, slots that
    are bounded and not idle, and a wake-up that is lost when a waiter was cancelled.
  \<^item> \<open>JsValue\<close>, \<open>ConfigTypes\<close>, \<open>ConfigParser\<close>, \<open>ConfigDocument\<close> (\<open>config/types.ts\<close>, \<open>config/parser.ts\<close>):
    documents, the configuration types and every parser function. Shown: parsing the document of a
    configuration returns it; the order of a section does not matter.
  \<^item> \<open>RuntimeConfig\<close> (\<open>config/runtime-config.ts\<close>): indexes, lookups, validation. Shown: the constructor
    accepts exactly the configurations of a declarative specification, and the lookups are right.
  \<^item> \<open>ConfigMerge\<close>, \<open>ConfigLoader\<close>, \<open>ConfigArguments\<close> (\<open>config/loader.ts\<close>, \<open>config/arguments.ts\<close>):
    layers, environment patches, the store, the polling loader, the command line. Shown: which layer
    decides a path, that a rejected candidate is never seen, that only stable reads are published,
    and two flaws of the lifecycle.
  \<^item> \<open>Utf8\<close>, \<open>SerdeFraming\<close>, \<open>SerdeScalar\<close>, \<open>SerdeCollection\<close>, \<open>SerdeRegistry\<close> (\<open>serde/\<close>): sizes and
    bounded reads, the serdes of scalars, bytes, strings, arrays, maps and key-value pairs, and the
    registry. The contract of a serde is the locale \<open>serde_contract\<close>; it is interpreted on every
    serde and composed through arrays, maps and pairs. Shown: round trips, reads inside the buffer,
    order-preserving encodings, type safety of the registry.

  \<^bold>\<open>Conventions.\<close> A method is a function from the object's record to the new record, with the thrown
  error as the left value of a sum. What the event loop may interleave is a list of events, each with
  the state of the world (clock, aborted signals) in which it happens; theorems about runs quantify
  over all such lists. Loops are total functions with a measure; the loop of the delay pool's timer,
  which ends only because of an invariant, is a partial function whose result is shown to exist. The one
  function with fuel is \<open>flow\<close>, since a graph may have loops of direct calls: more fuel than the graph has
  streams is shown to be enough when it has none. Numbers are infinities, NaN or rationals, so rounding and the sign of zero are left
  out; the integers that the serdes cut to a width are cut the same way here. Strings of
  configurations are sequences of 8-bit characters, strings of serdes sequences of 16-bit units.

  \<^bold>\<open>Parameters.\<close> Reading a file, parsing YAML, the parsers given to environment patches, the number of
  processors, the float encodings of \<open>DataView\<close> and the JSON serde of \<open>ScheduleTrigger\<close> are arguments of
  the definitions that use them, as are the functions that a service gives to its operators.

  \<^bold>\<open>Not modelled.\<close> The connectors to Kafka, gRPC, HTTP, Temporal and cron (\<open>datasource/\<close>, \<open>datasink/\<close>)
  are drivers of third-party clients, and the durable call context, the schedules (\<open>schedule.ts\<close>) and the
  configuration guards (\<open>config/streams.ts\<close>, \<open>config/kafka.ts\<close> and the like) carry or narrow values for them;
  JSON and Protobuf serdes call the codec they wrap; logging, metrics back ends, tracing and the status server only
  write to the outside; the base classes of sources and sinks, the connector and endpoint objects of the custom source and the
  custom sink forward their calls to the parts above or to user code; the wiring of the host process in \<open>service-app.ts\<close>
  (arguments, signals, exit codes) is left out, only its pools are modelled. \<open>dist/\<close> holds the compiled form of the same sources.
\<close>

section \<open>From a file to the configuration of a service\<close>

text \<open>
  C7. The loading of a configuration, end to end. When the base file holds the YAML of the document
  of a configuration \<open>c\<close> and there are no other layers, \<open>loadRuntimeConfig\<close> succeeds exactly when
  \<open>c\<close> is valid, and what it returns is \<open>c\<close> itself with the indexes that the lookups read. Reading
  a file and parsing YAML are parameters: the file is readable and its text parses to the document.
\<close>

theorem load_configuration_file:
  assumes "config_ok c" and "section_names_ok names c" and "tree_ok (config_document names c)"
    and "readFile (configPath options) = Inr text" and "yaml text = Inr (config_document names c)"
    and "valuesPath options = None" and "overridesPath options = None" and "option_defaults options = None"
    and "patches options = None" and "schema_parse options = parseCanonicalConfig"
  shows "(is_ok (loadRuntimeConfig readFile yaml env options) \<longleftrightarrow> valid_config c) \<and>
    (valid_config c \<longrightarrow> loadRuntimeConfig readFile yaml env options = Inr (indexed c))"
proof -
  obtain es where es: "config_document names c = JObj es" by (simp add: config_document_def)
  have "merged_document [] es [] [] = es"
    using assms(3) es merge_empty_layers by (simp add: merged_document_def)
  then have load: "loadRuntimeConfig readFile yaml env options = RuntimeConfig_new c"
    using assms es config_document_parses [OF assms(1,2)]
    by (simp add: loadRuntimeConfig_def readYaml_def requireRecord_def optional_yaml_def)
  have new: "RuntimeConfig_new c = Inr r \<longleftrightarrow> valid_config c \<and> r = indexed c" for r
    using RuntimeConfig_new_indexed [of c r] references_valid [of c] by (auto simp: valid_config_def)
  show ?thesis unfolding load by (auto simp: is_ok_iff new)
qed

definition tiny_names :: "string \<Rightarrow> string list" where
  "tiny_names section =
     (if section = ''services'' then [''svc''] else if section = ''streams'' then [''a'', ''b'', ''c'']
      else if section = ''links'' then [''l'', ''m''] else [])"

definition tiny_options :: ConfigLoadOptions where
  "tiny_options = \<lparr>configPath = ''config.yaml'', valuesPath = None, overridesPath = None, option_defaults = None,
     option_environment = None, patches = None, schema_parse = parseCanonicalConfig\<rparr>"

theorem load_configuration_file_witness:
  "loadRuntimeConfig (\<lambda>_. Inr ''yaml'') (\<lambda>_. Inr (config_document tiny_names tiny_config)) (\<lambda>_. None) tiny_options =
     Inr (indexed tiny_config)"
proof -
  have "config_ok tiny_config"
    by (simp add: config_ok_def tiny_config_def tiny_service_def tiny_stream_def tiny_function_def service_ok_def
        stream_ok_def link_ok_def props_ok_def safe_int_def max_safe_integer_def)
  moreover have "section_names_ok tiny_names tiny_config" "tree_ok (config_document tiny_names tiny_config)"
    by code_simp+
  moreover have "valid_config tiny_config" by (rule tiny_valid)
  ultimately show ?thesis
    using load_configuration_file [of tiny_config tiny_names "\<lambda>_. Inr ''yaml''" tiny_options]
    by (simp add: tiny_options_def)
qed

end
